(* ===== verification/Prelude.thy ===== *)
theory Prelude
  imports Main "HOL-Library.Multiset" "HOL-Library.Sublist" "HOL-Library.Char_ord"
    "HOL-Library.List_Lexorder" "HOL-Library.AList_Mapping"
begin

text \<open>
  Shared vocabulary of the development.  A Go \<^verbatim>\<open>string\<close> and a Go \<^verbatim>\<open>[]byte\<close> are both byte
  strings, so both are \<^typ>\<open>char list\<close> (an Isabelle \<^typ>\<open>char\<close> is one byte).  A Go pointer that
  may be nil is an option, a fallible call \<^verbatim>\<open>(T, error)\<close> is a sum with the error on the left,
  and a Go \<^verbatim>\<open>map[string]T\<close> is a partial function where it is only looked up, a mapping where two
  maps are compared, and an association list where it is iterated.

  The second half models the few functions of Go's \<^verbatim>\<open>strings\<close>, \<^verbatim>\<open>bytes\<close> and \<^verbatim>\<open>strconv\<close>
  packages the modelled code calls, and proves the laws the component proofs use.
\<close>

section \<open>Collections of facts\<close>

named_theorems gosimps \<open>definitions of Go library functions, for evaluation and unfolding\<close>

named_theorems classify_defs \<open>definitions of the pre-flight classifiers and their helpers\<close>

type_synonym bytes = "char list"

type_synonym sha = "char list"

type_synonym path = "char list"

type_synonym argv = "char list list"

abbreviation nul :: char where "nul \<equiv> CHR 0x00"

abbreviation newline :: char where "newline \<equiv> CHR 0x0A"

abbreviation tab :: char where "tab \<equiv> CHR 0x09"

section \<open>Fallible results\<close>

definition rbind :: "'e + 'a \<Rightarrow> ('a \<Rightarrow> 'e + 'b) \<Rightarrow> 'e + 'b" where
  "rbind r f = (case r of Inl e \<Rightarrow> Inl e | Inr x \<Rightarrow> f x)"

fun mapR :: "('a \<Rightarrow> 'e + 'b) \<Rightarrow> 'a list \<Rightarrow> 'e + 'b list" where
  "mapR f [] = Inr []"
| "mapR f (x # xs) = rbind (f x) (\<lambda>y. rbind (mapR f xs) (\<lambda>ys. Inr (y # ys)))"

lemma rbind_Inl [simp]: "rbind (Inl e) f = Inl e"
  by (simp add: rbind_def)

lemma rbind_Inr [simp]: "rbind (Inr x) f = f x"
  by (simp add: rbind_def)

lemma rbind_eq_Inr: "rbind r f = Inr y \<longleftrightarrow> (\<exists>x. r = Inr x \<and> f x = Inr y)"
  by (cases r) auto

lemma rbind_cong [fundef_cong]:
  "r = r' \<Longrightarrow> (\<And>x. r' = Inr x \<Longrightarrow> f x = f' x) \<Longrightarrow> rbind r f = rbind r' f'"
  by (cases r') auto

lemma mapR_Inr: "(\<And>x. x \<in> set xs \<Longrightarrow> f x = Inr (g x)) \<Longrightarrow> mapR f xs = Inr (map g xs)"
  by (induction xs) auto

lemma mapR_length: "mapR f xs = Inr ys \<Longrightarrow> length ys = length xs"
  by (induction xs arbitrary: ys) (auto simp: rbind_eq_Inr)

section \<open>Association lists with distinct keys\<close>

lemma map_of_perm:
  assumes "distinct (map fst xs)" and "mset xs = mset ys"
  shows "map_of xs = map_of ys"
proof -
  have "distinct (map fst ys)"
    using assms by (metis mset_eq_imp_distinct_iff mset_map)
  moreover have "set xs = set ys"
    using assms(2) by (rule mset_eq_setD)
  ultimately show ?thesis
    using assms(1) by (simp add: map_of_inject_set)
qed

section \<open>Go byte strings\<close>

definition HasPrefix :: "bytes \<Rightarrow> bytes \<Rightarrow> bool" where
  "HasPrefix s p \<longleftrightarrow> take (length p) s = p"

definition HasSuffix :: "bytes \<Rightarrow> bytes \<Rightarrow> bool" where
  "HasSuffix s p \<longleftrightarrow> length p \<le> length s \<and> drop (length s - length p) s = p"

definition TrimPrefix :: "bytes \<Rightarrow> bytes \<Rightarrow> bytes" where
  "TrimPrefix s p = (if HasPrefix s p then drop (length p) s else s)"

definition TrimSuffix :: "bytes \<Rightarrow> bytes \<Rightarrow> bytes" where
  "TrimSuffix s p = (if HasSuffix s p then take (length s - length p) s else s)"

fun IndexByte :: "bytes \<Rightarrow> char \<Rightarrow> nat option" where
  "IndexByte [] c = None"
| "IndexByte (x # xs) c = (if x = c then Some 0 else map_option Suc (IndexByte xs c))"

text \<open>
  \<open>Cut s sep\<close> is the text before and after the first occurrence of \<open>sep\<close>: Go's
  \<^verbatim>\<open>strings.Index\<close> followed by the two slices every caller takes from it.
\<close>

fun Cut :: "bytes \<Rightarrow> bytes \<Rightarrow> (bytes \<times> bytes) option" where
  "Cut [] sep = (if sep = [] then Some ([], []) else None)"
| "Cut (c # cs) sep =
     (if HasPrefix (c # cs) sep then Some ([], drop (length sep) (c # cs))
      else map_option (\<lambda>(a, b). (c # a, b)) (Cut cs sep))"

definition Contains :: "bytes \<Rightarrow> bytes \<Rightarrow> bool" where
  "Contains s sub \<longleftrightarrow> Cut s sub \<noteq> None"

text \<open>\<^verbatim>\<open>bytes.Split\<close> and \<^verbatim>\<open>strings.Split\<close> on a one-byte separator.\<close>

fun SplitByte :: "bytes \<Rightarrow> char \<Rightarrow> bytes list" where
  "SplitByte [] d = [[]]"
| "SplitByte (c # cs) d =
     (if c = d then [] # SplitByte cs d
      else (c # hd (SplitByte cs d)) # tl (SplitByte cs d))"

fun JoinByte :: "bytes list \<Rightarrow> char \<Rightarrow> bytes" where
  "JoinByte [] d = []"
| "JoinByte [w] d = w"
| "JoinByte (w # v # ws) d = w @ d # JoinByte (v # ws) d"

lemmas [gosimps] = HasPrefix_def HasSuffix_def TrimPrefix_def TrimSuffix_def Contains_def

lemma HasPrefix_append [simp]: "HasPrefix (p @ s) p"
  by (simp add: HasPrefix_def)

lemma HasPrefix_iff_prefix: "HasPrefix s p \<longleftrightarrow> prefix p s"
  by (metis HasPrefix_append HasPrefix_def append_take_drop_id prefixI prefix_def)

lemma HasSuffix_append [simp]: "HasSuffix (s @ p) p"
  by (simp add: HasSuffix_def)

lemma TrimPrefix_append [simp]: "TrimPrefix (p @ s) p = s"
  by (simp add: TrimPrefix_def)

lemma TrimSuffix_append [simp]: "TrimSuffix (s @ p) p = s"
  by (simp add: TrimSuffix_def)

lemma HasPrefix_Cons_Cons [simp]: "HasPrefix (c # cs) (d # ds) \<longleftrightarrow> c = d \<and> HasPrefix cs ds"
  by (auto simp: HasPrefix_def)

lemma HasPrefix_Nil [simp]: "HasPrefix s []"
  by (simp add: HasPrefix_def)

lemma HasPrefix_Nil_Cons [simp]: "\<not> HasPrefix [] (d # ds)"
  by (simp add: HasPrefix_def)

lemma IndexByte_None_iff: "IndexByte s c = None \<longleftrightarrow> c \<notin> set s"
  by (induction s) auto

lemma IndexByte_Some_take: "IndexByte s c = Some i \<Longrightarrow> i < length s \<and> s ! i = c \<and> c \<notin> set (take i s)"
  by (induction s arbitrary: i) (auto split: if_splits)

lemma IndexByte_append [simp]: "c \<notin> set a \<Longrightarrow> IndexByte (a @ c # b) c = Some (length a)"
  by (induction a) auto

lemma IndexByte_split:
  assumes "IndexByte s c = Some i"
  shows "s = take i s @ c # drop (Suc i) s"
  using IndexByte_Some_take [OF assms] by (metis id_take_nth_drop)

lemma SplitByte_not_Nil [simp]: "SplitByte s d \<noteq> []"
  by (induction s d rule: SplitByte.induct) auto

lemma SplitByte_no_sep: "d \<notin> set s \<Longrightarrow> SplitByte s d = [s]"
  by (induction s) auto

lemma SplitByte_append:
  "d \<notin> set w \<Longrightarrow> SplitByte (w @ d # s) d = w # SplitByte s d"
  by (induction w) auto

lemma SplitByte_no_delim: "w \<in> set (SplitByte s d) \<Longrightarrow> d \<notin> set w"
proof (induction s d arbitrary: w rule: SplitByte.induct)
  case (2 c cs d)
  then show ?case
    using list.set_sel [of "SplitByte cs d"] SplitByte_not_Nil [of cs d]
    by (fastforce split: if_splits)
qed simp

lemma JoinByte_SplitByte: "JoinByte (SplitByte s d) d = s"
proof (induction s d rule: SplitByte.induct)
  case (2 c cs d)
  then show ?case
    using SplitByte_not_Nil [of cs d]
    by (cases "SplitByte cs d"; cases "tl (SplitByte cs d)") auto
qed simp

lemma SplitByte_JoinByte:
  "ws \<noteq> [] \<Longrightarrow> (\<And>w. w \<in> set ws \<Longrightarrow> d \<notin> set w) \<Longrightarrow> SplitByte (JoinByte ws d) d = ws"
  by (induction ws d rule: JoinByte.induct) (auto simp: SplitByte_no_sep SplitByte_append)


section \<open>Go integers and their decimal text\<close>

datatype num_error = ErrSyntax | ErrRange

definition isDigit :: "char \<Rightarrow> bool" where
  "isDigit c \<longleftrightarrow> 48 \<le> (of_char c :: nat) \<and> (of_char c :: nat) \<le> 57"

definition digitVal :: "char \<Rightarrow> nat" where
  "digitVal c = of_char c - 48"

definition digitChar :: "nat \<Rightarrow> char" where
  "digitChar n = char_of (48 + n)"

text \<open>
  The loop of \<^verbatim>\<open>strconv.ParseUint\<close> for base 10 and 64 bits: a byte that is no digit is a
  syntax error, and the first prefix that leaves 64 bits is a range error, reported before the
  rest of the text is looked at.
\<close>

fun parseUint :: "nat \<Rightarrow> bytes \<Rightarrow> num_error + nat" where
  "parseUint n [] = Inr n"
| "parseUint n (c # cs) =
     (if \<not> isDigit c then Inl ErrSyntax
      else if 2 ^ 64 \<le> n * 10 + digitVal c then Inl ErrRange
      else parseUint (n * 10 + digitVal c) cs)"

text \<open>
  \<^verbatim>\<open>strconv.ParseInt(s, 10, 64)\<close> and \<^verbatim>\<open>strconv.Atoi\<close> (64-bit \<^verbatim>\<open>int\<close>): the value Go returns and
  the error it returns beside it; on a range error the value is the nearest bound.
\<close>

definition parseMagnitude :: "bool \<Rightarrow> bytes \<Rightarrow> int \<times> num_error option" where
  "parseMagnitude neg s =
     (if s = [] then (0, Some ErrSyntax)
      else case parseUint 0 s of
        Inl ErrSyntax \<Rightarrow> (0, Some ErrSyntax)
      | Inl ErrRange \<Rightarrow> (if neg then - (2 ^ 63) else 2 ^ 63 - 1, Some ErrRange)
      | Inr un \<Rightarrow>
          (if \<not> neg \<and> 2 ^ 63 \<le> un then (2 ^ 63 - 1, Some ErrRange)
           else if neg \<and> 2 ^ 63 < un then (- (2 ^ 63), Some ErrRange)
           else (if neg then - int un else int un, None)))"

definition Atoi :: "bytes \<Rightarrow> int \<times> num_error option" where
  "Atoi s =
     (case s of
        [] \<Rightarrow> (0, Some ErrSyntax)
      | c # cs \<Rightarrow>
          (if c = CHR ''+'' then parseMagnitude False cs
           else if c = CHR ''-'' then parseMagnitude True cs
           else parseMagnitude False s))"

definition AtoiR :: "bytes \<Rightarrow> num_error + int" where
  "AtoiR s = (case Atoi s of (v, None) \<Rightarrow> Inr v | (v, Some e) \<Rightarrow> Inl e)"

fun natText :: "nat \<Rightarrow> bytes" where
  "natText n = (if n < 10 then [digitChar n] else natText (n div 10) @ [digitChar (n mod 10)])"

declare natText.simps [simp del]

definition Itoa :: "int \<Rightarrow> bytes" where
  "Itoa i = (if i < 0 then CHR ''-'' # natText (nat (- i)) else natText (nat i))"

text \<open>Go's \<^verbatim>\<open>int\<close> arithmetic wraps at 64 bits.\<close>

definition wrap64 :: "int \<Rightarrow> int" where
  "wrap64 x = (x + 2 ^ 63) mod 2 ^ 64 - 2 ^ 63"

lemmas [gosimps] = isDigit_def digitVal_def parseMagnitude_def Atoi_def AtoiR_def

lemma wrap64_id: "- (2 ^ 63) \<le> x \<Longrightarrow> x < 2 ^ 63 \<Longrightarrow> wrap64 x = x"
  by (simp add: wrap64_def)

lemma isDigit_digitChar [simp]: "n < 10 \<Longrightarrow> isDigit (digitChar n)"
  by (simp add: isDigit_def digitChar_def)

lemma digitVal_digitChar [simp]: "n < 10 \<Longrightarrow> digitVal (digitChar n) = n"
  by (simp add: digitVal_def digitChar_def)

lemma natText_not_Nil [simp]: "natText n \<noteq> []"
  by (subst natText.simps) simp

lemma natText_digits: "c \<in> set (natText n) \<Longrightarrow> isDigit c"
proof (induction n arbitrary: c rule: natText.induct)
  case (1 n)
  then show ?case
    by (subst (asm) natText.simps) (auto split: if_splits)
qed

lemma Itoa_digits: "0 \<le> i \<Longrightarrow> list_all isDigit (Itoa i) \<and> Itoa i \<noteq> []"
  using natText_digits by (auto simp: Itoa_def list_all_iff)

lemma parseUint_snoc:
  "parseUint k xs = Inr n \<Longrightarrow> isDigit c \<Longrightarrow> n * 10 + digitVal c < 2 ^ 64 \<Longrightarrow>
   parseUint k (xs @ [c]) = Inr (n * 10 + digitVal c)"
  by (induction k xs rule: parseUint.induct) (auto split: if_splits)

lemma parseUint_natText: "n < 2 ^ 64 \<Longrightarrow> parseUint 0 (natText n) = Inr n"
proof (induction n rule: natText.induct)
  case (1 n)
  show ?case
  proof (cases "n < 10")
    case True
    then show ?thesis by (subst natText.simps) simp
  next
    case False
    have "parseUint 0 (natText (n div 10)) = Inr (n div 10)"
      using 1 False by simp
    moreover have "n div 10 * 10 + digitVal (digitChar (n mod 10)) = n" by simp
    ultimately have "parseUint 0 (natText (n div 10) @ [digitChar (n mod 10)]) = Inr n"
      using parseUint_snoc [of 0 "natText (n div 10)" "n div 10" "digitChar (n mod 10)"] 1
      by simp
    then show ?thesis using False by (subst natText.simps) simp
  qed
qed

lemma natText_no_sign:
  assumes "natText n = c # cs"
  shows "c \<noteq> CHR ''+''" and "c \<noteq> CHR ''-''"
  using natText_digits [of c n] assms by (auto simp: isDigit_def)

lemma Atoi_Itoa: "- (2 ^ 63) \<le> i \<Longrightarrow> i < 2 ^ 63 \<Longrightarrow> Atoi (Itoa i) = (i, None)"
proof (cases "i < 0")
  case True
  moreover assume "- (2 ^ 63) \<le> i"
  ultimately have "parseUint 0 (natText (nat (- i))) = Inr (nat (- i))"
    by (intro parseUint_natText) simp
  then show ?thesis
    using True \<open>- (2 ^ 63) \<le> i\<close> by (simp add: Atoi_def Itoa_def parseMagnitude_def)
next
  case False
  moreover assume i: "i < 2 ^ 63"
  ultimately have "parseUint 0 (natText (nat i)) = Inr (nat i)"
    by (intro parseUint_natText) simp
  moreover obtain c cs where "natText (nat i) = c # cs"
    by (cases "natText (nat i)") simp_all
  ultimately show ?thesis
    using False i natText_no_sign [of "nat i" c cs]
    by (simp add: Atoi_def Itoa_def parseMagnitude_def)
qed

lemma AtoiR_Itoa: "- (2 ^ 63) \<le> i \<Longrightarrow> i < 2 ^ 63 \<Longrightarrow> AtoiR (Itoa i) = Inr i"
  by (simp add: AtoiR_def Atoi_Itoa)

lemma Atoi_range: "- (2 ^ 63) \<le> fst (Atoi s) \<and> fst (Atoi s) < 2 ^ 63"
  by (auto simp: Atoi_def parseMagnitude_def split: list.splits sum.splits num_error.splits)

section \<open>White space and letter case\<close>

text \<open>
  The UTF-8 encodings of the runes for which \<^verbatim>\<open>unicode.IsSpace\<close> holds.  No encoding is a suffix
  of another, and none of their first bytes is a UTF-8 continuation byte, so scanning byte by
  byte finds exactly the runes Go's decoder finds.
\<close>

definition spaceRunes :: "bytes list" where
  "spaceRunes =
     [[CHR 0x09], [CHR 0x0A], [CHR 0x0B], [CHR 0x0C], [CHR 0x0D], [CHR 0x20],
      [CHR 0xC2, CHR 0x85], [CHR 0xC2, CHR 0xA0], [CHR 0xE1, CHR 0x9A, CHR 0x80],
      [CHR 0xE2, CHR 0x80, CHR 0x80], [CHR 0xE2, CHR 0x80, CHR 0x81],
      [CHR 0xE2, CHR 0x80, CHR 0x82], [CHR 0xE2, CHR 0x80, CHR 0x83],
      [CHR 0xE2, CHR 0x80, CHR 0x84], [CHR 0xE2, CHR 0x80, CHR 0x85],
      [CHR 0xE2, CHR 0x80, CHR 0x86], [CHR 0xE2, CHR 0x80, CHR 0x87],
      [CHR 0xE2, CHR 0x80, CHR 0x88], [CHR 0xE2, CHR 0x80, CHR 0x89],
      [CHR 0xE2, CHR 0x80, CHR 0x8A], [CHR 0xE2, CHR 0x80, CHR 0xA8],
      [CHR 0xE2, CHR 0x80, CHR 0xA9], [CHR 0xE2, CHR 0x80, CHR 0xAF],
      [CHR 0xE2, CHR 0x81, CHR 0x9F], [CHR 0xE3, CHR 0x80, CHR 0x80]]"

text \<open>The number of bytes of the white-space rune a text starts with, 0 when there is none.\<close>

definition spaceWidth :: "bytes \<Rightarrow> nat" where
  "spaceWidth s = (case find (HasPrefix s) spaceRunes of None \<Rightarrow> 0 | Some r \<Rightarrow> length r)"

fun TrimSpaceLeft :: "bytes \<Rightarrow> bytes" where
  "TrimSpaceLeft [] = []"
| "TrimSpaceLeft (c # cs) =
     (let w = spaceWidth (c # cs)
      in if w = 0 then c # cs else TrimSpaceLeft (drop (w - 1) cs))"

definition spaceWidthEnd :: "bytes \<Rightarrow> nat" where
  "spaceWidthEnd s = (case find (HasSuffix s) spaceRunes of None \<Rightarrow> 0 | Some r \<Rightarrow> length r)"

fun TrimSpaceRight :: "bytes \<Rightarrow> bytes" where
  "TrimSpaceRight s =
     (let w = spaceWidthEnd s
      in if w = 0 \<or> s = [] then s else TrimSpaceRight (take (length s - w) s))"

declare TrimSpaceRight.simps [simp del]

definition TrimSpace :: "bytes \<Rightarrow> bytes" where
  "TrimSpace s = TrimSpaceRight (TrimSpaceLeft s)"

text \<open>\<^verbatim>\<open>strings.Fields\<close>: the non-empty runs between white-space runes.\<close>

fun fieldsFrom :: "bytes \<Rightarrow> bytes \<Rightarrow> bytes list" where
  "fieldsFrom acc [] = (if acc = [] then [] else [rev acc])"
| "fieldsFrom acc (c # cs) =
     (let w = spaceWidth (c # cs)
      in if w = 0 then fieldsFrom (c # acc) cs
         else (if acc = [] then [] else [rev acc]) @ fieldsFrom [] (drop (w - 1) cs))"

definition Fields :: "bytes \<Rightarrow> bytes list" where
  "Fields s = fieldsFrom [] s"

definition asciiLower :: "char \<Rightarrow> char" where
  "asciiLower c =
     (if 65 \<le> (of_char c :: nat) \<and> (of_char c :: nat) \<le> 90 then char_of (of_char c + 32 :: nat) else c)"

definition isASCII :: "char \<Rightarrow> bool" where
  "isASCII c \<longleftrightarrow> (of_char c :: nat) < 128"

text \<open>
  \<^verbatim>\<open>strings.ToLower\<close>: byte by byte on pure ASCII text; a text with any other byte goes through
  the Unicode case tables, which are the argument \<open>uni\<close>.
\<close>

definition ToLower :: "(bytes \<Rightarrow> bytes) \<Rightarrow> bytes \<Rightarrow> bytes" where
  "ToLower uni s = (if list_all isASCII s then map asciiLower s else uni s)"

lemmas [gosimps] = asciiLower_def isASCII_def ToLower_def

lemma Cut_Some: "Cut s sep = Some (a, b) \<Longrightarrow> s = a @ sep @ b"
  by (induction s sep arbitrary: a b rule: Cut.induct)
    (auto simp: HasPrefix_def split: if_splits, metis append_take_drop_id)

lemma Cut_None_iff: "Cut s sep = None \<longleftrightarrow> \<not> sublist sep s"
proof (induction s sep rule: Cut.induct)
  case (2 c cs sep)
  then show ?case
    by (auto simp: HasPrefix_iff_prefix sublist_Cons_right)
qed auto

lemma Contains_iff: "Contains s sub \<longleftrightarrow> sublist sub s"
  by (simp add: Contains_def Cut_None_iff)

function SplitStr :: "bytes \<Rightarrow> bytes \<Rightarrow> bytes list" where
  "SplitStr s sep =
     (case (if sep = [] then None else Cut s sep) of
        None \<Rightarrow> [s]
      | Some (a, b) \<Rightarrow> a # SplitStr b sep)"
  by pat_completeness auto
termination
  by (relation "measure (\<lambda>(s, sep). length s)") (auto dest!: Cut_Some split: if_splits)

declare SplitStr.simps [simp del]

fun JoinStr :: "bytes list \<Rightarrow> bytes \<Rightarrow> bytes" where
  "JoinStr [] sep = []"
| "JoinStr [w] sep = w"
| "JoinStr (w # v # ws) sep = w @ sep @ JoinStr (v # ws) sep"

text \<open>
  A two-byte separator whose bytes differ cannot be found across the end of a text that does
  not contain it.
\<close>

lemma Cut_two:
  "x \<noteq> y \<Longrightarrow> Cut w [x, y] = None \<Longrightarrow> Cut (w @ x # y # b) [x, y] = Some (w, b)"
proof (induction w)
  case (Cons c w)
  then have "Cut w [x, y] = None" and nh: "\<not> HasPrefix (c # w) [x, y]"
    by (auto split: if_splits)
  moreover have "\<not> HasPrefix (c # w @ x # y # b) [x, y]"
    using nh Cons.prems(1) by (cases w) auto
  ultimately show ?case using Cons by simp
qed simp

lemma SplitStr_JoinStr_two:
  assumes "x \<noteq> y" and "ws \<noteq> []" and "\<And>w. w \<in> set ws \<Longrightarrow> Cut w [x, y] = None"
  shows "SplitStr (JoinStr ws [x, y]) [x, y] = ws"
  using assms(2,3)
proof (induction ws "[x, y]" rule: JoinStr.induct)
  case (2 w)
  then show ?case by (subst SplitStr.simps) simp
next
  case (3 w v ws)
  then show ?case
    using Cut_two [OF assms(1), of w "JoinStr (v # ws) [x, y]"] by (subst SplitStr.simps) simp
qed simp

definition plainChar :: "char \<Rightarrow> bool" where
  "plainChar c \<longleftrightarrow> isASCII c \<and> 32 < (of_char c :: nat)"

lemma plainChar_not_space:
  assumes "plainChar c"
  shows "[c] \<notin> set spaceRunes" and "r \<in> set spaceRunes \<Longrightarrow> hd r \<noteq> c" and "r \<in> set spaceRunes \<Longrightarrow> last r \<noteq> c"
  using assms by (auto simp: spaceRunes_def plainChar_def isASCII_def)

lemma spaceRunes_not_Nil: "r \<in> set spaceRunes \<Longrightarrow> r \<noteq> []"
  by (auto simp: spaceRunes_def)

lemma spaceWidth_plain: "plainChar c \<Longrightarrow> spaceWidth (c # cs) = 0"
proof -
  assume "plainChar c"
  then have "find (HasPrefix (c # cs)) spaceRunes = None"
    using plainChar_not_space(2) [of c] spaceRunes_not_Nil
    unfolding find_None_iff HasPrefix_iff_prefix by (metis list.sel(1) neq_Nil_conv prefix_Cons)
  then show ?thesis by (simp add: spaceWidth_def)
qed

lemma HasSuffix_last: "HasSuffix (cs @ [c]) r \<Longrightarrow> r \<noteq> [] \<Longrightarrow> last r = c"
  unfolding HasSuffix_def by (metis append_take_drop_id last_appendR last_snoc)

lemma spaceWidthEnd_plain: "plainChar c \<Longrightarrow> spaceWidthEnd (cs @ [c]) = 0"
proof -
  assume "plainChar c"
  then have "find (HasSuffix (cs @ [c])) spaceRunes = None"
    unfolding find_None_iff using plainChar_not_space(3) spaceRunes_not_Nil HasSuffix_last by blast
  then show ?thesis by (simp add: spaceWidthEnd_def)
qed

lemma TrimSpace_plain:
  assumes "s \<noteq> []" and "plainChar (hd s)" and "plainChar (last s)"
  shows "TrimSpace s = s"
proof -
  have "TrimSpaceLeft s = s"
    using assms(1,2) by (cases s) (simp_all add: spaceWidth_plain)
  moreover have "TrimSpaceRight s = s"
    using assms(1,3) spaceWidthEnd_plain [of "last s" "butlast s"] by (subst TrimSpaceRight.simps) simp
  ultimately show ?thesis by (simp add: TrimSpace_def)
qed

lemma TrimSpace_Nil [simp]: "TrimSpace [] = []"
  by (simp add: TrimSpace_def TrimSpaceRight.simps)

lemma fieldsFrom_plain: "list_all plainChar w \<Longrightarrow> fieldsFrom acc (w @ s) = fieldsFrom (rev w @ acc) s"
  by (induction w arbitrary: acc) (simp_all add: spaceWidth_plain)

lemma spaceWidth_blank: "spaceWidth (CHR '' '' # s) = 1"
  by (simp add: spaceWidth_def spaceRunes_def)

lemma Fields_JoinByte:
  assumes "\<And>w. w \<in> set ws \<Longrightarrow> w \<noteq> [] \<and> list_all plainChar w"
  shows "Fields (JoinByte ws (CHR '' '')) = ws"
proof -
  have "fieldsFrom [] (JoinByte ws (CHR '' '')) = ws"
    using assms
  proof (induction ws "CHR '' ''" rule: JoinByte.induct)
    case (2 w)
    then show ?case using fieldsFrom_plain [of w "[]" "[]"] by simp
  next
    case (3 w v ws)
    then show ?case
      by (simp add: fieldsFrom_plain spaceWidth_blank Let_def)
  qed simp
  then show ?thesis by (simp add: Fields_def)
qed

end
