(* ===== verification/Records.thy ===== *)
theory Records
  imports Prelude
begin

text \<open>
  \<^verbatim>\<open>gitclient/porcelain/records.go\<close>: how every git output stream is cut into records.  A
  \<open>RecordSplitter\<close> turns arbitrarily chunked output into delimiter-terminated records, a
  \<open>FieldGrouper\<close> turns a flat stream of fields into fixed-size groups, and two one-shot
  splitters work on a whole buffer.

  The locale \<open>chunked_stream\<close> is the contract both stateful splitters offer: what they hand out
  depends on the bytes received so far, never on where the chunk boundaries fall.
\<close>

section \<open>Errors of the porcelain parsers\<close>

text \<open>
  One constructor per error the package's parsers build, with the values the message names, and
  one for a run-time panic (an index out of range).
\<close>

datatype (plugins only: code size) porc_error =
    ErrRecordTooLarge
  | MissingTrailingNUL
  | WrongFieldCount
  | UnterminatedBytes bytes
  | NumError num_error
  | StatusFieldCount char nat nat
  | StatusRenameTruncated
  | StatusMarker char
  | LogFieldCount nat nat
  | AuthorTime num_error
  | CommitterTime num_error
  | NumstatFieldCount bytes nat
  | NumstatTruncated nat
  | NumstatAdditions bytes num_error
  | NumstatDeletions bytes num_error
  | NameStatusEmpty nat
  | NameStatusTruncated bytes nat
  | NameStatusSimilarity bytes num_error
  | NameStatusLetter bytes
  | RefFieldCount nat nat
  | RefsTrailing bytes
  | RefsNotMultiple nat nat
  | RefsNoNewline nat
  | SnapshotFieldCount nat
  | MergeExit int
  | MergeNoOutput
  | MergePathsUnterminated
  | MergeBadCount bytes
  | MergeTruncated nat nat
  | BinaryNoIndex
  | BadIndexLine bytes
  | BadHunkHeader bytes
  | HunkStart bytes num_error
  | HunkCount bytes num_error
  | HunkOrphanMarker bytes
  | HunkMarker char bytes
  | HunkCounts int int int int nat nat
  | BlameEmpty
  | BlameHeader bytes
  | BlameTime bytes num_error
  | BlameNoContent bytes
  | StashNotHeader nat bytes
  | StashFieldCount nat nat
  | StashSelector bytes
  | StashSelectorNum bytes num_error
  | StashNoParents bytes
  | StashTimestamp bytes num_error
  | PairFieldCount bytes nat
  | LeftRightFields bytes nat
  | CountUnparseable bytes num_error
  | RuntimePanic

section \<open>The splitters\<close>

definition fieldDelim :: char where
  "fieldDelim = CHR 0x1F"

definition maxRemainderBytes :: nat where
  "maxRemainderBytes = 64 * 2 ^ 20"

record RecordSplitter =
  rs_delim :: char
  rs_remainder :: bytes

definition NewRecordSplitter :: "char \<Rightarrow> RecordSplitter" where
  "NewRecordSplitter delim = \<lparr>rs_delim = delim, rs_remainder = []\<rparr>"

function splitLoop :: "char \<Rightarrow> bytes \<Rightarrow> bytes list \<times> bytes" where
  "splitLoop d remainder =
     (case IndexByte remainder d of
        None \<Rightarrow> ([], remainder)
      | Some i \<Rightarrow>
          (let (recs, rest) = splitLoop d (drop (Suc i) remainder)
           in (take i remainder # recs, rest)))"
  by pat_completeness auto
termination
  by (relation "measure (\<lambda>(d, r). length r)") (auto dest: IndexByte_Some_take)

declare splitLoop.simps [simp del]

definition RecordSplitter_Push ::
  "RecordSplitter \<Rightarrow> bytes \<Rightarrow> RecordSplitter \<times> bytes list \<times> porc_error option" where
  "RecordSplitter_Push s chunk =
     (let (recs, rest) = splitLoop (rs_delim s) (rs_remainder s @ chunk)
      in (s\<lparr>rs_remainder := rest\<rparr>, recs,
          if length rest > maxRemainderBytes then Some ErrRecordTooLarge else None))"

definition RecordSplitter_Flush :: "RecordSplitter \<Rightarrow> RecordSplitter \<times> bytes option" where
  "RecordSplitter_Flush s =
     (if rs_remainder s = [] then (s, None)
      else (s\<lparr>rs_remainder := []\<rparr>, Some (rs_remainder s)))"

record FieldGrouper =
  fg_fieldCount :: nat
  fg_pending :: "bytes list"

definition NewFieldGrouper :: "nat \<Rightarrow> FieldGrouper" where
  "NewFieldGrouper fieldCount = \<lparr>fg_fieldCount = fieldCount, fg_pending = []\<rparr>"

text \<open>
  The grouping loop runs for ever when \<open>fieldCount\<close> is 0 (every caller passes 10 or 11), which
  is the \<open>None\<close> of the model.
\<close>

partial_function (option) groupLoop :: "nat \<Rightarrow> bytes list \<Rightarrow> (bytes list list \<times> bytes list) option" where
  "groupLoop n pending =
     (if length pending < n then Some ([], pending)
      else Option.bind (groupLoop n (drop n pending))
             (\<lambda>(groups, rest). Some (take n pending # groups, rest)))"

declare groupLoop.simps [code]

definition FieldGrouper_Push ::
  "FieldGrouper \<Rightarrow> bytes list \<Rightarrow> (FieldGrouper \<times> bytes list list) option" where
  "FieldGrouper_Push g newFields =
     (case groupLoop (fg_fieldCount g) (fg_pending g @ newFields) of
        None \<Rightarrow> None
      | Some (groups, rest) \<Rightarrow> Some (g\<lparr>fg_pending := rest\<rparr>, groups))"

definition FieldGrouper_Flush :: "FieldGrouper \<Rightarrow> FieldGrouper \<times> bytes list option" where
  "FieldGrouper_Flush g =
     (if fg_pending g = [] then (g, None) else (g\<lparr>fg_pending := []\<rparr>, Some (fg_pending g)))"

definition splitOneNULRecord :: "bytes \<Rightarrow> nat \<Rightarrow> porc_error + bytes list" where
  "splitOneNULRecord raw fieldCount =
     (if raw = [] \<or> last raw \<noteq> nul then Inl MissingTrailingNUL
      else let fields = SplitByte (butlast raw) nul
           in if length fields \<noteq> fieldCount then Inl WrongFieldCount else Inr fields)"

fun limitedLoop :: "bytes \<Rightarrow> char \<Rightarrow> nat \<Rightarrow> bytes list" where
  "limitedLoop rest d 0 = [rest]"
| "limitedLoop rest d (Suc k) =
     (case IndexByte rest d of
        None \<Rightarrow> [rest]
      | Some i \<Rightarrow> take i rest # limitedLoop (drop (Suc i) rest) d k)"

definition SplitLimitedFields :: "bytes \<Rightarrow> char \<Rightarrow> nat \<Rightarrow> bytes list" where
  "SplitLimitedFields b d n = (if n = 0 then [] else limitedLoop b d (n - 1))"

text \<open>
  A whole buffer through one splitter, as every one-shot caller frames it: push everything, then
  refuse bytes left behind by the flush.
\<close>

definition allRecords :: "bytes \<Rightarrow> porc_error + bytes list" where
  "allRecords raw =
     (case RecordSplitter_Push (NewRecordSplitter nul) raw of
        (s, recs, Some e) \<Rightarrow> Inl e
      | (s, recs, None) \<Rightarrow>
          (case RecordSplitter_Flush s of
             (_, Some flushed) \<Rightarrow> Inl (UnterminatedBytes flushed)
           | (_, None) \<Rightarrow> Inr recs))"


section \<open>The contract of a chunked stream\<close>

text \<open>The caller's read loop: push every chunk in turn, stop at the first failure.\<close>

fun pushAll ::
  "('s \<Rightarrow> 'i list \<Rightarrow> ('s \<times> 'o list) option) \<Rightarrow> 's \<Rightarrow> 'i list list \<Rightarrow> ('s \<times> 'o list) option" where
  "pushAll step s [] = Some (s, [])"
| "pushAll step s (c # cs) =
     (case step s c of
        None \<Rightarrow> None
      | Some (s', os) \<Rightarrow>
          (case pushAll step s' cs of
             None \<Rightarrow> None
           | Some (s'', os') \<Rightarrow> Some (s'', os @ os')))"

locale chunked_stream =
  fixes step :: "'s \<Rightarrow> 'i list \<Rightarrow> ('s \<times> 'o list) option"
    and invar :: "'s \<Rightarrow> bool"
    and pend :: "'s \<Rightarrow> 'i list"
    and items :: "'i list \<Rightarrow> 'o list"
    and rest :: "'i list \<Rightarrow> 'i list"
    and fits :: "'i list \<Rightarrow> bool"
  assumes step_items: "invar s \<Longrightarrow> step s xs = Some (s', os) \<Longrightarrow>
      invar s' \<and> os = items (pend s @ xs) \<and> pend s' = rest (pend s @ xs)"
    and step_total: "invar s \<Longrightarrow> fits (rest (pend s @ xs)) \<Longrightarrow> step s xs \<noteq> None"
    and items_append: "items (xs @ ys) = items xs @ items (rest xs @ ys)"
    and rest_append: "rest (xs @ ys) = rest (rest xs @ ys)"
    and rest_pend: "invar s \<Longrightarrow> rest (pend s) = pend s"
    and items_pend: "invar s \<Longrightarrow> items (pend s) = []"
begin

lemma pushAll_items:
  "invar s \<Longrightarrow> pushAll step s cs = Some (s', os) \<Longrightarrow>
   invar s' \<and> os = items (pend s @ concat cs) \<and> pend s' = rest (pend s @ concat cs)"
proof (induction cs arbitrary: s os)
  case Nil
  then show ?case by (simp add: rest_pend items_pend)
next
  case (Cons c cs)
  then obtain s1 o1 o2 where 1: "step s c = Some (s1, o1)"
    and 2: "pushAll step s1 cs = Some (s', o2)" and os: "os = o1 @ o2"
    by (auto split: option.splits prod.splits)
  note st = step_items [OF Cons.prems(1) 1]
  note ih = Cons.IH [OF conjunct1 [OF st] 2]
  show ?case
    using st ih os items_append [of "pend s @ c" "concat cs"]
      rest_append [of "pend s @ c" "concat cs"]
    by simp
qed

text \<open>Two chunkings of the same input that both go through hand out the same items.\<close>

lemma chunking_irrelevant:
  "invar s \<Longrightarrow> concat cs = concat cs' \<Longrightarrow>
   pushAll step s cs = Some (t, os) \<Longrightarrow> pushAll step s cs' = Some (t', os') \<Longrightarrow>
   os = os' \<and> pend t = pend t'"
  using pushAll_items [of s cs t os] pushAll_items [of s cs' t' os'] by simp

lemma pushAll_total:
  "invar s \<Longrightarrow> (\<And>p. prefix p (concat cs) \<Longrightarrow> fits (rest (pend s @ p))) \<Longrightarrow>
   \<exists>t os. pushAll step s cs = Some (t, os)"
proof (induction cs arbitrary: s)
  case (Cons c cs)
  obtain s1 o1 where 1: "step s c = Some (s1, o1)"
    using step_total [OF Cons.prems(1), of c] Cons.prems(2) [of c] by fastforce
  note st = step_items [OF Cons.prems(1) 1]
  have "fits (rest (pend s1 @ p))" if "prefix p (concat cs)" for p
    using Cons.prems(2) [of "c @ p"] that st rest_append [of "pend s @ c" p] by simp
  then obtain t os where "pushAll step s1 cs = Some (t, os)"
    using Cons.IH [of s1] st by blast
  with 1 show ?case by simp
qed simp

end

section \<open>The record splitter keeps the contract\<close>

text \<open>A push that reports no error, as the read loops use it.\<close>

definition splitterStep :: "RecordSplitter \<Rightarrow> bytes \<Rightarrow> (RecordSplitter \<times> bytes list) option" where
  "splitterStep s chunk =
     (case RecordSplitter_Push s chunk of
        (s', recs, None) \<Rightarrow> Some (s', recs)
      | (s', recs, Some e) \<Rightarrow> None)"

definition splitterInv :: "char \<Rightarrow> RecordSplitter \<Rightarrow> bool" where
  "splitterInv d s \<longleftrightarrow> rs_delim s = d \<and> d \<notin> set (rs_remainder s)"

lemma SplitByte_append_general:
  "SplitByte (xs @ ys) d = butlast (SplitByte xs d) @ SplitByte (last (SplitByte xs d) @ ys) d"
proof (induction xs d rule: SplitByte.induct)
  case (2 c cs d)
  then show ?case
    using SplitByte_not_Nil [of cs d]
    by (cases "SplitByte cs d"; cases "tl (SplitByte cs d)") auto
qed simp

lemma last_SplitByte_no_delim: "d \<notin> set (last (SplitByte s d))"
  by (rule SplitByte_no_delim [of _ s]) simp

lemma splitLoop_SplitByte: "splitLoop d s = (butlast (SplitByte s d), last (SplitByte s d))"
proof (induction d s rule: splitLoop.induct)
  case (1 d s)
  show ?case
  proof (cases "IndexByte s d")
    case None
    then show ?thesis
      using IndexByte_None_iff [of s d] by (simp add: splitLoop.simps [of d s] SplitByte_no_sep)
  next
    case (Some i)
    have "SplitByte s d = take i s # SplitByte (drop (Suc i) s) d"
      using SplitByte_append [of d "take i s" "drop (Suc i) s"] IndexByte_Some_take [OF Some]
        IndexByte_split [OF Some] by metis
    with 1 [OF Some] Some show ?thesis
      by (simp add: splitLoop.simps [of d s])
  qed
qed

lemma splitterStep_eq:
  "splitterStep s xs =
     (let r = SplitByte (rs_remainder s @ xs) (rs_delim s)
      in if length (last r) \<le> maxRemainderBytes
         then Some (s\<lparr>rs_remainder := last r\<rparr>, butlast r) else None)"
  by (simp add: splitterStep_def RecordSplitter_Push_def splitLoop_SplitByte Let_def)

interpretation splitter: chunked_stream splitterStep "splitterInv d" rs_remainder
  "\<lambda>s. butlast (SplitByte s d)" "\<lambda>s. last (SplitByte s d)"
  "\<lambda>r. length r \<le> maxRemainderBytes" for d
proof unfold_locales
  fix xs ys
  show "butlast (SplitByte (xs @ ys) d) =
      butlast (SplitByte xs d) @ butlast (SplitByte (last (SplitByte xs d) @ ys) d)"
    unfolding SplitByte_append_general [of xs ys d] by (simp add: butlast_append)
  show "last (SplitByte (xs @ ys) d) = last (SplitByte (last (SplitByte xs d) @ ys) d)"
    unfolding SplitByte_append_general [of xs ys d] by simp
next
  fix s s' xs os
  assume "splitterInv d s" "splitterStep s xs = Some (s', os)"
  then show "splitterInv d s' \<and> os = butlast (SplitByte (rs_remainder s @ xs) d) \<and>
      rs_remainder s' = last (SplitByte (rs_remainder s @ xs) d)"
    using last_SplitByte_no_delim [of d "rs_remainder s @ xs"]
    by (auto simp: splitterStep_eq splitterInv_def Let_def split: if_splits)
qed (simp_all add: splitterStep_eq splitterInv_def SplitByte_no_sep Let_def)

section \<open>The field grouper keeps the contract\<close>

function chunksOf :: "nat \<Rightarrow> 'a list \<Rightarrow> 'a list list \<times> 'a list" where
  "chunksOf n xs =
     (if n = 0 \<or> length xs < n then ([], xs)
      else let (gs, r) = chunksOf n (drop n xs) in (take n xs # gs, r))"
  by pat_completeness auto
termination
  by (relation "measure (\<lambda>(n, xs). length xs)") auto

declare chunksOf.simps [simp del]

lemma chunksOf_short: "length xs < n \<Longrightarrow> chunksOf n xs = ([], xs)"
  by (simp add: chunksOf.simps)

lemma chunksOf_append_group:
  "0 < n \<Longrightarrow> length g = n \<Longrightarrow> chunksOf n (g @ xs) = (g # fst (chunksOf n xs), snd (chunksOf n xs))"
  by (subst chunksOf.simps) (simp add: split_beta)

lemma chunksOf_concat:
  "0 < n \<Longrightarrow> (\<And>g. g \<in> set gs \<Longrightarrow> length g = n) \<Longrightarrow> chunksOf n (concat gs) = (gs, [])"
  by (induction gs) (simp_all add: chunksOf_append_group chunksOf_short)

lemma length_snd_chunksOf: "0 < n \<Longrightarrow> length (snd (chunksOf n xs)) < n"
proof (induction n xs rule: chunksOf.induct)
  case (1 n xs)
  then show ?case by (auto simp: chunksOf.simps [of n xs] split_beta)
qed

lemma set_snd_chunksOf: "set (snd (chunksOf n xs)) \<subseteq> set xs"
proof (induction n xs rule: chunksOf.induct)
  case (1 n xs)
  then show ?case
    by (auto simp: chunksOf.simps [of n xs] split_beta dest: in_set_dropD)
qed

lemma chunksOf_conserves: "concat (fst (chunksOf n xs)) @ snd (chunksOf n xs) = xs"
proof (induction n xs rule: chunksOf.induct)
  case (1 n xs)
  then show ?case by (auto simp: chunksOf.simps [of n xs] split_beta)
qed

lemma chunksOf_group_length: "g \<in> set (fst (chunksOf n xs)) \<Longrightarrow> length g = n"
proof (induction n xs rule: chunksOf.induct)
  case (1 n xs)
  then show ?case by (auto simp: chunksOf.simps [of n xs] split_beta split: if_splits)
qed

lemma chunksOf_append:
  "chunksOf n (xs @ ys) =
     (fst (chunksOf n xs) @ fst (chunksOf n (snd (chunksOf n xs) @ ys)),
      snd (chunksOf n (snd (chunksOf n xs) @ ys)))"
proof (induction n xs rule: chunksOf.induct)
  case (1 n xs)
  show ?case
  proof (cases "n = 0 \<or> length xs < n")
    case True
    then show ?thesis by (simp add: chunksOf.simps [of n xs])
  next
    case False
    then have "chunksOf n ((take n xs) @ (drop n xs @ ys)) =
        (take n xs # fst (chunksOf n (drop n xs @ ys)), snd (chunksOf n (drop n xs @ ys)))"
      by (intro chunksOf_append_group) simp_all
    moreover have "take n xs @ drop n xs @ ys = xs @ ys"
      by (simp flip: append_assoc)
    ultimately show ?thesis
      using False 1 by (simp add: chunksOf.simps [of n xs] split_beta)
  qed
qed

lemma groupLoop_chunksOf: "0 < n \<Longrightarrow> groupLoop n xs = Some (chunksOf n xs)"
proof (induction n xs rule: chunksOf.induct)
  case (1 n xs)
  then show ?case
    by (cases "length xs < n") (simp_all add: groupLoop.simps [of n xs] chunksOf.simps [of n xs] split_beta)
qed

definition grouperInv :: "nat \<Rightarrow> FieldGrouper \<Rightarrow> bool" where
  "grouperInv n g \<longleftrightarrow> fg_fieldCount g = n \<and> length (fg_pending g) < n"

lemma FieldGrouper_Push_eq:
  "grouperInv n g \<Longrightarrow> FieldGrouper_Push g xs =
     (let r = chunksOf n (fg_pending g @ xs) in Some (g\<lparr>fg_pending := snd r\<rparr>, fst r))"
  by (auto simp: FieldGrouper_Push_def grouperInv_def groupLoop_chunksOf Let_def split_beta)

interpretation grouper: chunked_stream FieldGrouper_Push "grouperInv n" fg_pending
  "\<lambda>xs. fst (chunksOf n xs)" "\<lambda>xs. snd (chunksOf n xs)" "\<lambda>_. True" for n
proof unfold_locales
  fix xs ys :: "bytes list"
  show "fst (chunksOf n (xs @ ys)) = fst (chunksOf n xs) @ fst (chunksOf n (snd (chunksOf n xs) @ ys))"
    unfolding chunksOf_append [of n xs ys] by simp
  show "snd (chunksOf n (xs @ ys)) = snd (chunksOf n (snd (chunksOf n xs) @ ys))"
    unfolding chunksOf_append [of n xs ys] by simp
next
  fix g g' xs os
  assume "grouperInv n g" "FieldGrouper_Push g xs = Some (g', os)"
  then show "grouperInv n g' \<and> os = fst (chunksOf n (fg_pending g @ xs)) \<and>
      fg_pending g' = snd (chunksOf n (fg_pending g @ xs))"
    using length_snd_chunksOf [of n "fg_pending g @ xs"]
    by (auto simp: FieldGrouper_Push_eq Let_def grouperInv_def)
next
  fix g xs
  assume "grouperInv n g"
  then show "FieldGrouper_Push g xs \<noteq> None" by (simp add: FieldGrouper_Push_eq Let_def)
qed (simp_all add: grouperInv_def chunksOf_short)

section \<open>Splitter and grouper together\<close>

text \<open>
  The streaming readers (\<^verbatim>\<open>logsession\<close>, \<^verbatim>\<open>gitsearch\<close>) feed each chunk through the splitter and
  the fields it returns through the grouper.  The pair keeps the same contract over bytes.
\<close>

definition fieldStep ::
  "RecordSplitter \<times> FieldGrouper \<Rightarrow> bytes \<Rightarrow> ((RecordSplitter \<times> FieldGrouper) \<times> bytes list list) option" where
  "fieldStep sg chunk =
     (case splitterStep (fst sg) chunk of
        None \<Rightarrow> None
      | Some (s', toks) \<Rightarrow>
          (case FieldGrouper_Push (snd sg) toks of
             None \<Rightarrow> None
           | Some (g', groups) \<Rightarrow> Some ((s', g'), groups)))"

definition terminated :: "char \<Rightarrow> bytes list \<Rightarrow> bytes" where
  "terminated d fs = concat (map (\<lambda>f. f @ [d]) fs)"

definition streamInv :: "char \<Rightarrow> nat \<Rightarrow> RecordSplitter \<times> FieldGrouper \<Rightarrow> bool" where
  "streamInv d n sg \<longleftrightarrow> splitterInv d (fst sg) \<and> grouperInv n (snd sg) \<and>
     (\<forall>f \<in> set (fg_pending (snd sg)). d \<notin> set f)"

definition streamPend :: "char \<Rightarrow> RecordSplitter \<times> FieldGrouper \<Rightarrow> bytes" where
  "streamPend d sg = terminated d (fg_pending (snd sg)) @ rs_remainder (fst sg)"

definition streamItems :: "char \<Rightarrow> nat \<Rightarrow> bytes \<Rightarrow> bytes list list" where
  "streamItems d n xs = fst (chunksOf n (butlast (SplitByte xs d)))"

definition streamRest :: "char \<Rightarrow> nat \<Rightarrow> bytes \<Rightarrow> bytes" where
  "streamRest d n xs =
     terminated d (snd (chunksOf n (butlast (SplitByte xs d)))) @ last (SplitByte xs d)"

lemma terminated_append [simp]: "terminated d (xs @ ys) = terminated d xs @ terminated d ys"
  by (simp add: terminated_def)

lemma terminated_Nil [simp]: "terminated d [] = []"
  by (simp add: terminated_def)

lemma terminated_Cons [simp]: "terminated d (f # fs) = f @ d # terminated d fs"
  by (simp add: terminated_def)

lemma SplitByte_terminated:
  "(\<And>f. f \<in> set fs \<Longrightarrow> d \<notin> set f) \<Longrightarrow> SplitByte (terminated d fs @ r) d = fs @ SplitByte r d"
  by (induction fs) (auto simp: SplitByte_append)

lemma terminated_butlast_SplitByte: "terminated d (butlast (SplitByte s d)) @ last (SplitByte s d) = s"
proof (induction s d rule: SplitByte.induct)
  case (2 c cs d)
  then show ?case
    using SplitByte_not_Nil [of cs d]
    by (cases "SplitByte cs d"; cases "tl (SplitByte cs d)") auto
qed simp

lemma leftover_no_delim: "f \<in> set (snd (chunksOf n (butlast (SplitByte xs d)))) \<Longrightarrow> d \<notin> set f"
  using set_snd_chunksOf [of n "butlast (SplitByte xs d)"] SplitByte_no_delim [of f xs d]
  by (auto dest: in_set_butlastD)

lemma SplitByte_streamRest:
  "SplitByte (streamRest d n xs @ ys) d =
     snd (chunksOf n (butlast (SplitByte xs d))) @ SplitByte (last (SplitByte xs d) @ ys) d"
  using SplitByte_terminated leftover_no_delim by (simp add: streamRest_def)

lemma last_SplitByte_streamRest [simp]:
  "last (SplitByte (streamRest d n xs) d) = last (SplitByte xs d)"
  using SplitByte_streamRest [of d n xs "[]"]
  by (simp add: SplitByte_no_sep last_SplitByte_no_delim)

lemma stream_append:
  "streamItems d n (xs @ ys) = streamItems d n xs @ streamItems d n (streamRest d n xs @ ys)"
  "streamRest d n (xs @ ys) = streamRest d n (streamRest d n xs @ ys)"
  unfolding streamItems_def streamRest_def [of d n "xs @ ys"]
    streamRest_def [of d n "streamRest d n xs @ ys"] SplitByte_streamRest
    SplitByte_append_general [of xs ys d]
  by (simp_all add: butlast_append chunksOf_append [of n "butlast (SplitByte xs d)"])

lemma fieldStep_eq:
  assumes "streamInv d n sg"
  shows "fieldStep sg xs =
    (let w = SplitByte (rs_remainder (fst sg) @ xs) d;
         r = chunksOf n (fg_pending (snd sg) @ butlast w)
     in if length (last w) \<le> maxRemainderBytes
        then Some ((fst sg\<lparr>rs_remainder := last w\<rparr>, snd sg\<lparr>fg_pending := snd r\<rparr>), fst r) else None)"
  using assms
  by (auto simp: fieldStep_def streamInv_def splitterStep_eq splitterInv_def FieldGrouper_Push_eq Let_def)

lemma SplitByte_streamPend:
  "streamInv d n sg \<Longrightarrow> SplitByte (streamPend d sg @ xs) d =
     fg_pending (snd sg) @ SplitByte (rs_remainder (fst sg) @ xs) d"
  by (simp add: streamPend_def SplitByte_terminated streamInv_def)

interpretation fields: chunked_stream fieldStep "streamInv d n" "streamPend d"
  "streamItems d n" "streamRest d n" "\<lambda>r. length (last (SplitByte r d)) \<le> maxRemainderBytes" for d n
proof unfold_locales
  fix sg sg' xs os
  assume inv: "streamInv d n sg" and st: "fieldStep sg xs = Some (sg', os)"
  let ?w = "SplitByte (rs_remainder (fst sg) @ xs) d"
  have sp: "SplitByte (streamPend d sg @ xs) d = fg_pending (snd sg) @ ?w"
    by (rule SplitByte_streamPend [OF inv])
  have "0 < n" using inv by (auto simp: streamInv_def grouperInv_def)
  then have "streamInv d n sg'"
    using st inv last_SplitByte_no_delim [of d "rs_remainder (fst sg) @ xs"]
      length_snd_chunksOf [of n "fg_pending (snd sg) @ butlast ?w"]
      leftover_no_delim [of _ n "streamPend d sg @ xs" d]
    unfolding fieldStep_eq [OF inv]
    by (auto simp: streamInv_def splitterInv_def grouperInv_def Let_def sp butlast_append split: if_splits)
  moreover have "os = streamItems d n (streamPend d sg @ xs)"
    and "streamPend d sg' = streamRest d n (streamPend d sg @ xs)"
    using st unfolding fieldStep_eq [OF inv] streamItems_def streamRest_def sp
    by (auto simp: streamPend_def Let_def butlast_append split: if_splits)
  ultimately show "streamInv d n sg' \<and> os = streamItems d n (streamPend d sg @ xs) \<and>
      streamPend d sg' = streamRest d n (streamPend d sg @ xs)" by simp
next
  fix sg xs
  assume inv: "streamInv d n sg"
    and "length (last (SplitByte (streamRest d n (streamPend d sg @ xs)) d)) \<le> maxRemainderBytes"
  then have "length (last (SplitByte (rs_remainder (fst sg) @ xs) d)) \<le> maxRemainderBytes"
    by (simp add: SplitByte_streamPend [OF inv])
  then show "fieldStep sg xs \<noteq> None" by (simp add: fieldStep_eq [OF inv] Let_def)
next
  fix sg :: "RecordSplitter \<times> FieldGrouper"
  assume inv: "streamInv d n sg"
  then have "SplitByte (streamPend d sg) d = fg_pending (snd sg) @ [rs_remainder (fst sg)]"
    using SplitByte_streamPend [OF inv, of "[]"] by (simp add: streamInv_def splitterInv_def SplitByte_no_sep)
  with inv show "streamRest d n (streamPend d sg) = streamPend d sg" "streamItems d n (streamPend d sg) = []"
    by (simp_all add: streamRest_def streamItems_def streamPend_def streamInv_def grouperInv_def chunksOf_short)
qed (fact stream_append)+

lemma stream_conserves:
  "terminated d (concat (streamItems d n xs)) @ streamRest d n xs = xs"
  using terminated_butlast_SplitByte [of d xs] chunksOf_conserves [of n "butlast (SplitByte xs d)"]
  by (metis (no_types, lifting) append_assoc streamItems_def streamRest_def terminated_append)

lemma last_SplitByte_prefix:
  "prefix p (terminated d fs) \<Longrightarrow> (\<And>f. f \<in> set fs \<Longrightarrow> d \<notin> set f \<and> length f \<le> m) \<Longrightarrow>
   length (last (SplitByte p d)) \<le> m"
proof (induction fs arbitrary: p)
  case (Cons f fs)
  show ?case
  proof (cases "length p \<le> length f")
    case True
    then have "prefix p f"
      using Cons.prems(1) by (auto simp: prefix_def append_eq_append_conv2)
    then show ?thesis
      using Cons.prems(2) [of f] by (auto simp: prefix_def SplitByte_no_sep)
  next
    case False
    then obtain q where q: "p = f @ d # q" "prefix q (terminated d fs)"
      using Cons.prems(1) by (auto simp: prefix_def append_eq_append_conv2 Cons_eq_append_conv)
    then show ?thesis
      using Cons by (simp add: SplitByte_append)
  qed
qed simp

section \<open>One-shot splitters\<close>

lemma terminated_last: "fs \<noteq> [] \<Longrightarrow> terminated d fs \<noteq> [] \<and> last (terminated d fs) = d"
  by (induction fs) (auto simp: terminated_def)

lemma butlast_terminated: "fs \<noteq> [] \<Longrightarrow> butlast (terminated d fs) = JoinByte fs d"
proof (induction fs d rule: JoinByte.induct)
  case (3 w v ws d)
  then show ?case by (simp add: butlast_append)
qed (simp_all add: butlast_append)

lemma limitedLoop_join: "JoinByte (limitedLoop b d k) d = b"
proof (induction b d k rule: limitedLoop.induct)
  case (2 rest d k)
  show ?case
  proof (cases "IndexByte rest d")
    case (Some i)
    have "limitedLoop (drop (Suc i) rest) d k \<noteq> []"
      by (cases k) (simp_all split: option.split)
    with 2 [OF Some] Some IndexByte_split [OF Some] show ?thesis
      by (cases "limitedLoop (drop (Suc i) rest) d k") auto
  qed simp
qed simp

lemma limitedLoop_length: "length (limitedLoop b d k) \<le> Suc k"
  by (induction b d k rule: limitedLoop.induct) (auto split: option.split)

lemma limitedLoop_init: "f \<in> set (butlast (limitedLoop b d k)) \<Longrightarrow> d \<notin> set f"
proof (induction b d k rule: limitedLoop.induct)
  case (2 rest d k)
  then show ?case
    by (auto split: option.splits if_splits dest: IndexByte_Some_take)
qed simp

lemma limitedLoop_short: "length (limitedLoop b d k) \<le> k \<Longrightarrow> d \<notin> set (last (limitedLoop b d k))"
proof (induction b d k rule: limitedLoop.induct)
  case (2 rest d k)
  have "limitedLoop (drop (Suc i) rest) d k \<noteq> []" for i
    by (cases k) (simp_all split: option.split)
  with 2 show ?case
    using IndexByte_None_iff [of rest d] by (cases "IndexByte rest d") simp_all
qed simp

lemma limitedLoop_joined:
  "(\<And>f. f \<in> set fs \<Longrightarrow> d \<notin> set f) \<Longrightarrow> limitedLoop (terminated d fs @ r) d (length fs) = fs @ [r]"
  by (induction fs) auto

text \<open>The shape every framed parser uses: the leading fields, then an absorbing last one.\<close>

lemma SplitLimitedFields_joined:
  assumes "\<And>f. f \<in> set fs \<Longrightarrow> d \<notin> set f" and "n = Suc (length fs)"
  shows "SplitLimitedFields (terminated d fs @ r) d n = fs @ [r]"
  using assms by (simp add: SplitLimitedFields_def limitedLoop_joined)

lemma allRecords_eq:
  "allRecords raw =
     (let w = SplitByte raw nul
      in if length (last w) > maxRemainderBytes then Inl ErrRecordTooLarge
         else if last w \<noteq> [] then Inl (UnterminatedBytes (last w)) else Inr (butlast w))"
  by (simp add: allRecords_def RecordSplitter_Push_def RecordSplitter_Flush_def
      NewRecordSplitter_def splitLoop_SplitByte Let_def)

lemma allRecords_terminated:
  "(\<And>r. r \<in> set recs \<Longrightarrow> nul \<notin> set r) \<Longrightarrow> allRecords (terminated nul recs) = Inr recs"
  using SplitByte_terminated [of recs nul "[]"] by (simp add: allRecords_eq Let_def)

lemma splitOneNULRecord_terminated:
  "fs \<noteq> [] \<Longrightarrow> length fs = n \<Longrightarrow> list_all (\<lambda>f. nul \<notin> set f) fs \<Longrightarrow>
   splitOneNULRecord (terminated nul fs) n = Inr fs"
  using terminated_last [of fs nul] butlast_terminated [of fs nul] SplitByte_JoinByte [of fs nul]
  by (auto simp: splitOneNULRecord_def list_all_iff Let_def)

section \<open>Properties of the record layer\<close>

text \<open>
  C22: the log and scan walks read back exactly what git wrote, wherever the pipe cut the
  output.  A stream of records of \<open>n\<close> NUL-free fields, every field NUL-terminated and below the
  remainder cap, pushed in any chunking through a fresh splitter and grouper comes out as those
  records, with nothing left in either buffer.
\<close>

theorem field_stream_roundtrip:
  assumes "0 < n" and "\<And>r. r \<in> set recs \<Longrightarrow> length r = n"
    and "\<And>r f. r \<in> set recs \<Longrightarrow> f \<in> set r \<Longrightarrow> nul \<notin> set f"
    and "\<And>r f. r \<in> set recs \<Longrightarrow> f \<in> set r \<Longrightarrow> length f \<le> maxRemainderBytes"
    and "concat chunks = terminated nul (concat recs)"
  shows "\<exists>s g. pushAll fieldStep (NewRecordSplitter nul, NewFieldGrouper n) chunks = Some ((s, g), recs)
           \<and> snd (RecordSplitter_Flush s) = None \<and> snd (FieldGrouper_Flush g) = None"
proof -
  let ?init = "(NewRecordSplitter nul, NewFieldGrouper n)"
  have inv: "streamInv nul n ?init" and pend: "streamPend nul ?init = []"
    using assms(1) by (simp_all add: streamInv_def splitterInv_def grouperInv_def streamPend_def
        NewRecordSplitter_def NewFieldGrouper_def)
  have ok: "length (last (SplitByte p nul)) \<le> maxRemainderBytes" if "prefix p (concat chunks)" for p
    using that assms by (intro last_SplitByte_prefix [of p nul "concat recs"]) auto
  obtain s g os where run: "pushAll fieldStep ?init chunks = Some ((s, g), os)"
    using fields.pushAll_total [OF inv, of chunks] ok pend by auto
  have split: "SplitByte (concat chunks) nul = concat recs @ [[]]"
    unfolding assms(5) using SplitByte_terminated [of "concat recs" nul "[]"] assms(3) by auto
  have "os = recs" and "streamPend nul (s, g) = []"
    using fields.pushAll_items [OF inv run] pend chunksOf_concat [OF assms(1), of recs] assms(2)
    by (simp_all add: streamItems_def streamRest_def split)
  then show ?thesis
    using run by (auto simp: streamPend_def terminated_def RecordSplitter_Flush_def FieldGrouper_Flush_def)
qed

theorem field_stream_roundtrip_witness:
  "\<exists>s g. pushAll fieldStep (NewRecordSplitter nul, NewFieldGrouper 2)
       [[CHR ''a''], [nul, CHR ''b'', nul, CHR ''c''], [nul, nul]] = Some ((s, g), [[''a'', ''b''], [''c'', []]])
     \<and> snd (RecordSplitter_Flush s) = None \<and> snd (FieldGrouper_Flush g) = None"
  by (rule field_stream_roundtrip) (auto simp: maxRemainderBytes_def)

text \<open>
  a splitter never loses, invents or reorders a byte and never hoards.  Over one push, the
  records handed out (each with its delimiter) followed by the new remainder are the old
  remainder followed by the chunk; no record and no remainder holds the delimiter; and the push
  reports \<open>ErrRecordTooLarge\<close> exactly when the remainder passes 64 MiB.
\<close>

theorem RecordSplitter_Push_conserves:
  assumes "RecordSplitter_Push s chunk = (s', recs, err)"
  shows "terminated (rs_delim s) recs @ rs_remainder s' = rs_remainder s @ chunk
    \<and> list_all (\<lambda>r. rs_delim s \<notin> set r) (rs_remainder s' # recs)
    \<and> rs_delim s' = rs_delim s
    \<and> err = (if 64 * 2 ^ 20 < length (rs_remainder s') then Some ErrRecordTooLarge else None)"
  using assms terminated_butlast_SplitByte [of "rs_delim s" "rs_remainder s @ chunk"]
    last_SplitByte_no_delim [of "rs_delim s" "rs_remainder s @ chunk"]
    SplitByte_no_delim [of _ "rs_remainder s @ chunk" "rs_delim s"]
  by (auto simp: RecordSplitter_Push_def splitLoop_SplitByte maxRemainderBytes_def list_all_iff
      dest: in_set_butlastD)

theorem RecordSplitter_Push_conserves_witness:
  "terminated nul [''ab''] @ ''c'' = ''a'' @ [CHR ''b'', nul, CHR ''c'']"
  using RecordSplitter_Push_conserves
    [of "\<lparr>rs_delim = nul, rs_remainder = ''a''\<rparr>" "[CHR ''b'', nul, CHR ''c'']"
      "\<lparr>rs_delim = nul, rs_remainder = ''c''\<rparr>" "[''ab'']" None]
  by (simp add: RecordSplitter_Push_def splitLoop.simps maxRemainderBytes_def)

text \<open>
  the one-shot splitter accepts exactly the well-formed records: it returns \<open>fields\<close> if and
  only if there are \<open>n\<close> of them, at least one, none holds a NUL, and the buffer is those fields,
  each NUL-terminated.
\<close>

theorem splitOneNULRecord_exact:
  "splitOneNULRecord raw n = Inr fs \<longleftrightarrow>
     (fs \<noteq> [] \<and> length fs = n \<and> list_all (\<lambda>f. nul \<notin> set f) fs \<and> raw = terminated nul fs)"
    (is "?l \<longleftrightarrow> ?r")
proof
  assume ?l
  then have raw: "raw \<noteq> []" "last raw = nul" and f: "fs = SplitByte (butlast raw) nul"
    and n: "length fs = n"
    by (auto simp: splitOneNULRecord_def Let_def split: if_splits)
  have "terminated nul fs = butlast raw @ [nul]"
    using butlast_terminated [of fs nul] terminated_last [of fs nul] f
      JoinByte_SplitByte [of "butlast raw" nul] by (metis SplitByte_not_Nil append_butlast_last_id)
  then show ?r
    using raw f n SplitByte_no_delim append_butlast_last_id [of raw] by (auto simp: list_all_iff)
next
  assume ?r
  then show ?l by (auto intro: splitOneNULRecord_terminated)
qed

text \<open>
  \<open>SplitLimitedFields\<close> loses nothing and lets only the last field hold the delimiter: joined
  back with the delimiter the fields are the input, there are at most \<open>n\<close> of them, every field
  before the last is delimiter-free, and so is the last when fewer than \<open>n\<close> came back (the
  malformed record a caller recognises by its length).
\<close>

theorem SplitLimitedFields_spec:
  assumes "0 < n"
  shows "let fs = SplitLimitedFields b d n
    in JoinByte fs d = b \<and> fs \<noteq> [] \<and> length fs \<le> n \<and> list_all (\<lambda>f. d \<notin> set f) (butlast fs)
       \<and> (if length fs < n then d \<notin> set (last fs) else True)"
proof -
  have "limitedLoop b d (n - 1) \<noteq> []"
    by (cases "n - 1") (simp_all split: option.split)
  then show ?thesis
    using assms(1) limitedLoop_join [of b d "n - 1"] limitedLoop_length [of b d "n - 1"]
      limitedLoop_init [of _ b d "n - 1"] limitedLoop_short [of b d "n - 1"]
    by (auto simp: Let_def SplitLimitedFields_def list_all_iff)
qed

theorem SplitLimitedFields_spec_witness:
  "length (SplitLimitedFields ''1 .M x y'' (CHR '' '') 3) \<le> 3
   \<and> JoinByte (SplitLimitedFields ''1 .M x y'' (CHR '' '') 3) (CHR '' '') = ''1 .M x y''"
  using SplitLimitedFields_spec [of 3 "''1 .M x y''" "CHR '' ''"] by (simp add: Let_def)

end
