(* ===== verification/LogParse.thy ===== *)
theory LogParse
  imports Records
begin

text \<open>
  \<^verbatim>\<open>gitclient/porcelain/types.go\<close> and \<^verbatim>\<open>log.go\<close>: the commit record of the history walk, the argv
  builders of the paged walk and of the tail scan, and the parsers of their NUL-fielded records.
\<close>

section \<open>Types\<close>

record CommitIdentity =
  ci_Name :: bytes
  ci_Email :: bytes
  ci_Timestamp :: int

datatype DecorationRefKind =
  DecorationBranch | DecorationRemoteBranch | DecorationTag | DecorationHead | DecorationStash

record DecorationRef =
  dr_Kind :: DecorationRefKind
  dr_Name :: bytes
  dr_IsHead :: bool
  dr_Index :: int

record CommitRecord =
  cr_SHA :: sha
  cr_Parents :: "sha list"
  cr_Author :: CommitIdentity
  cr_Committer :: CommitIdentity
  cr_Decoration :: "DecorationRef list"
  cr_Subject :: bytes

record RangeSpec =
  rsp_Base :: bytes
  rsp_Branch :: bytes

record WalkSpec =
  ws_Scope :: bytes
  ws_Range :: "RangeSpec option"
  ws_StashShas :: "sha list"
  ws_IncludeStash :: bool
  ws_ExcludeStash :: bool

record ScanRecord =
  sr_SHA :: sha
  sr_Subject :: bytes
  sr_Body :: bytes
  sr_Author :: CommitIdentity
  sr_Committer :: CommitIdentity

section \<open>Argv builders\<close>

definition LogFormat :: bytes where
  "LogFormat = ''%H%x00%P%x00%an%x00%ae%x00%at%x00%cn%x00%ce%x00%ct%x00%D%x00%s''"

definition FieldCount :: nat where
  "FieldCount = 10"

definition logBaseArgs :: "bytes \<Rightarrow> argv" where
  "logBaseArgs format =
     [''log'', ''--decorate=full'', ''--decorate-refs-exclude=refs/remotes/*/HEAD'',
      ''--date-order'', ''-z'', ''--format='' @ format]"

definition RangeToken :: "RangeSpec \<Rightarrow> bytes" where
  "RangeToken r = rsp_Base r @ ''..'' @ rsp_Branch r"

definition RevSetArgs :: "WalkSpec \<Rightarrow> argv" where
  "RevSetArgs spec =
     (case ws_Range spec of
        Some r \<Rightarrow> [RangeToken r]
      | None \<Rightarrow>
          (if ws_Scope spec = ''head'' then [''HEAD'']
           else [''--exclude=refs/kira/*'']
             @ (if ws_ExcludeStash spec then [''--exclude=refs/stash''] else [])
             @ [''--all'']))
     @ (if ws_IncludeStash spec then ws_StashShas spec else [])"

definition WalkArgs :: "WalkSpec \<Rightarrow> argv" where
  "WalkArgs spec = RevSetArgs spec @ [''--'']"

definition LogSessionArgs :: "WalkSpec \<Rightarrow> argv" where
  "LogSessionArgs spec = logBaseArgs LogFormat @ WalkArgs spec"

definition LogSessionSkipArgs :: "WalkSpec \<Rightarrow> int \<Rightarrow> argv" where
  "LogSessionSkipArgs spec skip =
     logBaseArgs LogFormat @ [''--skip='' @ Itoa skip] @ WalkArgs spec"

definition ScanFormat :: bytes where
  "ScanFormat = LogFormat @ ''%x00%b''"

definition ScanFieldCount :: nat where
  "ScanFieldCount = 11"

definition LogScanArgs :: "WalkSpec \<Rightarrow> argv" where
  "LogScanArgs spec = logBaseArgs ScanFormat @ WalkArgs spec"

section \<open>Parsers\<close>

definition parseUnixSeconds :: "bytes \<Rightarrow> num_error + int" where
  "parseUnixSeconds field = AtoiR field"

definition parseParents :: "bytes \<Rightarrow> sha list" where
  "parseParents field =
     (let trimmed = TrimSpace field in if trimmed = [] then [] else Fields trimmed)"

text \<open>Indices as in the source; both callers have checked the field count first.\<close>

definition parseIdentities :: "bytes list \<Rightarrow> porc_error + CommitIdentity \<times> CommitIdentity" where
  "parseIdentities fs =
     (case parseUnixSeconds (fs ! 4) of
        Inl e \<Rightarrow> Inl (AuthorTime e)
      | Inr authorTime \<Rightarrow>
          (case parseUnixSeconds (fs ! 7) of
             Inl e \<Rightarrow> Inl (CommitterTime e)
           | Inr committerTime \<Rightarrow>
               Inr (\<lparr>ci_Name = fs ! 2, ci_Email = fs ! 3, ci_Timestamp = authorTime\<rparr>,
                    \<lparr>ci_Name = fs ! 5, ci_Email = fs ! 6, ci_Timestamp = committerTime\<rparr>)))"

definition branchRef :: "bytes \<Rightarrow> bool \<Rightarrow> DecorationRef" where
  "branchRef name isHead =
     \<lparr>dr_Kind = DecorationBranch, dr_Name = name, dr_IsHead = isHead, dr_Index = 0\<rparr>"

definition plainRef :: "DecorationRefKind \<Rightarrow> bytes \<Rightarrow> DecorationRef" where
  "plainRef kind name = \<lparr>dr_Kind = kind, dr_Name = name, dr_IsHead = False, dr_Index = 0\<rparr>"

text \<open>\<open>None\<close> is the source's \<open>keep = false\<close>; its error result is always nil.\<close>

definition parseDecorationToken :: "bytes \<Rightarrow> DecorationRef option" where
  "parseDecorationToken token =
     (if token = ''HEAD'' then Some (plainRef DecorationHead [])
      else if HasPrefix token ''HEAD -> '' then
        Some (branchRef (TrimPrefix (TrimPrefix token ''HEAD -> '') ''refs/heads/'') True)
      else if HasPrefix token ''tag: '' then
        Some (plainRef DecorationTag (TrimPrefix (TrimPrefix token ''tag: '') ''refs/tags/''))
      else if token = ''refs/stash'' then Some (plainRef DecorationStash [])
      else if HasPrefix token ''refs/heads/'' then
        Some (branchRef (TrimPrefix token ''refs/heads/'') False)
      else if HasPrefix token ''refs/remotes/'' then
        Some (plainRef DecorationRemoteBranch (TrimPrefix token ''refs/remotes/''))
      else if HasPrefix token ''refs/tags/'' then
        Some (plainRef DecorationTag (TrimPrefix token ''refs/tags/''))
      else if HasPrefix token ''refs/'' then Some (branchRef token False)
      else None)"

definition parseDecoration :: "bytes \<Rightarrow> DecorationRef list" where
  "parseDecoration raw =
     (if raw = [] then [] else List.map_filter parseDecorationToken (SplitStr raw '', ''))"

definition ParseLogRecord :: "bytes list \<Rightarrow> porc_error + CommitRecord" where
  "ParseLogRecord fs =
     (if length fs \<noteq> FieldCount then Inl (LogFieldCount (length fs) FieldCount)
      else rbind (parseIdentities fs) (\<lambda>(author, committer).
        Inr \<lparr>cr_SHA = fs ! 0, cr_Parents = parseParents (fs ! 1), cr_Author = author,
             cr_Committer = committer, cr_Decoration = parseDecoration (fs ! 8),
             cr_Subject = fs ! 9\<rparr>))"

definition ParseLogRecordFromRaw :: "bytes \<Rightarrow> porc_error + CommitRecord" where
  "ParseLogRecordFromRaw raw = rbind (splitOneNULRecord raw FieldCount) ParseLogRecord"

definition ParseScanRecord :: "bytes list \<Rightarrow> porc_error + ScanRecord" where
  "ParseScanRecord fs =
     (if length fs \<noteq> ScanFieldCount then Inl (LogFieldCount (length fs) ScanFieldCount)
      else rbind (parseIdentities fs) (\<lambda>(author, committer).
        Inr \<lparr>sr_SHA = fs ! 0, sr_Subject = fs ! 9, sr_Body = TrimSuffix (fs ! 10) [newline],
             sr_Author = author, sr_Committer = committer\<rparr>))"

section \<open>Reading back what git prints\<close>

text \<open>What \<open>--format=LogFormat --decorate=full\<close> prints for a commit, field by field.\<close>

fun decorationText :: "DecorationRef \<Rightarrow> bytes" where
  "decorationText r =
     (case dr_Kind r of
        DecorationHead \<Rightarrow> ''HEAD''
      | DecorationStash \<Rightarrow> ''refs/stash''
      | DecorationTag \<Rightarrow> ''tag: refs/tags/'' @ dr_Name r
      | DecorationRemoteBranch \<Rightarrow> ''refs/remotes/'' @ dr_Name r
      | DecorationBranch \<Rightarrow>
          (if dr_IsHead r then ''HEAD -> refs/heads/'' @ dr_Name r
           else ''refs/heads/'' @ dr_Name r))"

declare decorationText.simps [simp del]

definition logFields :: "CommitRecord \<Rightarrow> bytes list" where
  "logFields c =
     [cr_SHA c, JoinByte (cr_Parents c) (CHR '' ''),
      ci_Name (cr_Author c), ci_Email (cr_Author c), Itoa (ci_Timestamp (cr_Author c)),
      ci_Name (cr_Committer c), ci_Email (cr_Committer c), Itoa (ci_Timestamp (cr_Committer c)),
      JoinStr (map decorationText (cr_Decoration c)) '', '', cr_Subject c]"

text \<open>
  What git guarantees of a decoration (a ref name holds no blank; only a branch is ever the
  checked-out one) and of a commit (object ids are non-empty and hold only printing ASCII
  characters, timestamps fit 64 bits).
\<close>

definition wfDecoration :: "DecorationRef \<Rightarrow> bool" where
  "wfDecoration r \<longleftrightarrow> CHR '' '' \<notin> set (dr_Name r) \<and> dr_Index r = 0
     \<and> (dr_IsHead r \<longrightarrow> dr_Kind r = DecorationBranch)
     \<and> (dr_Kind r \<in> {DecorationHead, DecorationStash} \<longrightarrow> dr_Name r = [])"

definition wfCommit :: "CommitRecord \<Rightarrow> bool" where
  "wfCommit c \<longleftrightarrow> list_all (\<lambda>p. p \<noteq> [] \<and> list_all plainChar p) (cr_Parents c)
     \<and> list_all wfDecoration (cr_Decoration c)
     \<and> ci_Timestamp (cr_Author c) \<in> {- (2 ^ 63) ..< 2 ^ 63}
     \<and> ci_Timestamp (cr_Committer c) \<in> {- (2 ^ 63) ..< 2 ^ 63}"

lemma parseParents_join:
  assumes "list_all (\<lambda>p. p \<noteq> [] \<and> list_all plainChar p) ps"
  shows "parseParents (JoinByte ps (CHR '' '')) = ps"
proof (cases "ps = []")
  case False
  let ?s = "JoinByte ps (CHR '' '')"
  have "?s \<noteq> [] \<and> plainChar (hd ?s) \<and> plainChar (last ?s)"
    using assms False
  proof (induction ps "CHR '' ''" rule: JoinByte.induct)
    case (2 w)
    then show ?case by (auto simp: list_all_iff)
  next
    case (3 w v ws)
    then show ?case by (auto simp: list_all_iff)
  qed simp
  then show ?thesis
    using Fields_JoinByte [of ps] assms
    by (auto simp: parseParents_def TrimSpace_plain Let_def list_all_iff)
qed (simp add: parseParents_def)

lemma Cut_no_blank: "CHR '' '' \<notin> set w \<Longrightarrow> Cut w '', '' = None"
proof (induction w)
  case (Cons c w)
  then show ?case by (cases w) auto
qed simp

lemma decorationText_no_sep: "wfDecoration r \<Longrightarrow> Cut (decorationText r) '', '' = None"
  by (cases "dr_Kind r")
    (simp_all add: decorationText.simps wfDecoration_def Cut_no_blank)

lemma decorationText_parse: "wfDecoration r \<Longrightarrow> parseDecorationToken (decorationText r) = Some r"
  by (cases "dr_Kind r")
    (auto simp: decorationText.simps wfDecoration_def parseDecorationToken_def branchRef_def plainRef_def
      TrimPrefix_def intro!: DecorationRef.equality)

lemma decorationText_not_Nil: "decorationText r \<noteq> []"
  by (cases "dr_Kind r") (simp_all add: decorationText.simps)

lemma parseDecoration_join:
  assumes "list_all wfDecoration ds"
  shows "parseDecoration (JoinStr (map decorationText ds) '', '') = ds"
proof (cases ds)
  case (Cons d ds')
  have "SplitStr (JoinStr (map decorationText ds) '', '') '', '' = map decorationText ds"
    using assms Cons by (intro SplitStr_JoinStr_two) (auto simp: list_all_iff decorationText_no_sep)
  moreover have "List.map_filter parseDecorationToken (map decorationText ds) = ds"
    using assms by (induction ds) (simp_all add: decorationText_parse map_filter_simps)
  moreover have "JoinStr (map decorationText ds) '', '' \<noteq> []"
    unfolding Cons by (cases ds') (simp_all add: decorationText_not_Nil)
  ultimately show ?thesis by (simp add: parseDecoration_def)
qed (simp add: parseDecoration_def)

lemma ParseLogRecord_logFields: "wfCommit c \<Longrightarrow> ParseLogRecord (logFields c) = Inr c"
  by (simp add: ParseLogRecord_def logFields_def FieldCount_def wfCommit_def parseIdentities_def
      parseUnixSeconds_def AtoiR_Itoa parseParents_join parseDecoration_join)

lemma logFields_scan:
  "wfCommit c \<Longrightarrow> ParseScanRecord (logFields c @ [body @ [newline]]) =
     Inr \<lparr>sr_SHA = cr_SHA c, sr_Subject = cr_Subject c, sr_Body = body,
          sr_Author = cr_Author c, sr_Committer = cr_Committer c\<rparr>"
  by (simp add: ParseScanRecord_def logFields_def ScanFieldCount_def wfCommit_def parseIdentities_def
      parseUnixSeconds_def AtoiR_Itoa)

section \<open>Properties of the log grammar\<close>

text \<open>
  the log reader reads back every commit git can print.  For a well-formed commit whose ten
  fields hold no NUL, the NUL-terminated record parses to that commit, with its parents, both
  identities with their 64-bit timestamps and every decoration; with a body field appended, the
  scan reader returns the same SHA, subject and identities and the body without its newline.
\<close>

theorem log_record_roundtrip:
  assumes "wfCommit c" and "list_all (\<lambda>f. nul \<notin> set f) (logFields c)"
  shows "ParseLogRecordFromRaw (terminated nul (logFields c)) = Inr c
    \<and> ParseScanRecord (logFields c @ [body @ [newline]]) =
        Inr \<lparr>sr_SHA = cr_SHA c, sr_Subject = cr_Subject c, sr_Body = body,
             sr_Author = cr_Author c, sr_Committer = cr_Committer c\<rparr>"
proof -
  have "splitOneNULRecord (terminated nul (logFields c)) FieldCount = Inr (logFields c)"
    using assms(2) by (intro splitOneNULRecord_terminated) (simp_all add: logFields_def FieldCount_def)
  then show ?thesis
    using assms(1) by (simp add: ParseLogRecordFromRaw_def ParseLogRecord_logFields logFields_scan)
qed

definition sampleCommit :: CommitRecord where
  "sampleCommit = \<lparr>cr_SHA = ''c3'', cr_Parents = [''a1'', ''b2''],
     cr_Author = \<lparr>ci_Name = ''Ann'', ci_Email = ''a@x'', ci_Timestamp = 1700000000\<rparr>,
     cr_Committer = \<lparr>ci_Name = ''Bob'', ci_Email = ''b@x'', ci_Timestamp = - 5\<rparr>,
     cr_Decoration = [branchRef ''main'' True, plainRef DecorationTag ''v1,2'', plainRef DecorationStash []],
     cr_Subject = ''merge, twice''\<rparr>"

theorem log_record_roundtrip_witness:
  "ParseLogRecordFromRaw (terminated nul (logFields sampleCommit)) = Inr sampleCommit"
proof -
  have "wfCommit sampleCommit"
    by (simp add: sampleCommit_def wfCommit_def wfDecoration_def branchRef_def plainRef_def
        plainChar_def isASCII_def)
  moreover have "list_all (\<lambda>f. nul \<notin> set f) (logFields sampleCommit)"
    by (simp add: sampleCommit_def logFields_def decorationText.simps branchRef_def plainRef_def
        Itoa_def natText.simps digitChar_def char_of_def)
  ultimately show ?thesis using log_record_roundtrip [of sampleCommit] by simp
qed

text \<open>
  the tail scan and a resumed walk follow the loaded graph in lockstep.  All three argvs end
  in the same revision arguments after the same ordering flags: the scan's argv is the paged
  walk's with only the format token replaced, a resumed walk's is the same with one \<open>--skip\<close>
  token inserted before the revisions, and \<open>--\<close> closes each of them, so no revision can be read
  as a path.
\<close>

theorem walk_argv_lockstep:
  "LogScanArgs spec = (LogSessionArgs spec)[5 := ''--format='' @ ScanFormat]
   \<and> LogSessionSkipArgs spec n =
       take 6 (LogSessionArgs spec) @ (''--skip='' @ Itoa n) # drop 6 (LogSessionArgs spec)
   \<and> drop 6 (LogSessionArgs spec) = RevSetArgs spec @ [''--'']
   \<and> last (LogSessionArgs spec) = ''--''"
  by (simp add: LogScanArgs_def LogSessionArgs_def LogSessionSkipArgs_def logBaseArgs_def WalkArgs_def
      numeral_eq_Suc)

end
