(* ===== verification/RefsParse.thy ===== *)
theory RefsParse
  imports LogParse
begin

text \<open>
  \<^verbatim>\<open>gitclient/porcelain/refs.go\<close>, \<^verbatim>\<open>inventory.go\<close> and \<^verbatim>\<open>refsnapshot.go\<close>: the three ref listings.  The
  first two read \<^verbatim>\<open>for-each-ref\<close> output whose fields are NUL-terminated and whose records git
  follows with a newline of its own; the third reads one ref per line.

  \<^verbatim>\<open>gitpath.NFC\<close> calls the Unicode normaliser of \<^verbatim>\<open>golang.org/x/text\<close>: it is the argument \<open>nfc\<close>.
\<close>

section \<open>The framed for-each-ref stream\<close>

fun frameLoop :: "nat \<Rightarrow> bytes list list \<Rightarrow> porc_error + bytes list list" where
  "frameLoop k [] = Inr []"
| "frameLoop k (g # gs) =
     (if k = 0 then rbind (frameLoop (Suc k) gs) (\<lambda>r. Inr (g # r))
      else case hd g of
        [] \<Rightarrow> Inl (RefsNoNewline k)
      | c # cs \<Rightarrow>
          (if c \<noteq> newline then Inl (RefsNoNewline k)
           else rbind (frameLoop (Suc k) gs) (\<lambda>r. Inr ((cs # tl g) # r))))"

definition splitNULRecords :: "bytes \<Rightarrow> nat \<Rightarrow> porc_error + bytes list list" where
  "splitNULRecords raw n =
     (if raw = [] then Inr []
      else let parts = SplitByte raw nul; tokens = butlast parts
        in if last parts \<noteq> [newline] then Inl (RefsTrailing (last parts))
           else if length tokens mod n \<noteq> 0 then Inl (RefsNotMultiple (length tokens) n)
           else frameLoop 0 (fst (chunksOf n tokens)))"

section \<open>refs.list\<close>

definition RefsFormat :: bytes where
  "RefsFormat = ''%(refname)%00%(objectname)%00%(objecttype)%00%(upstream)%00%(upstream:track)%00''
     @ ''%(committerdate:unix)%00%(HEAD)%00%(*objectname)%00%(worktreepath)%00%(taggername)%00%(taggerdate:unix)%00''"

definition refsFieldCount :: nat where
  "refsFieldCount = 11"

definition TagRefsFormat :: bytes where
  "TagRefsFormat = RefsFormat @ ''%(contents:subject)%00%(contents:body)%00''"

definition tagRefsFieldCount :: nat where
  "tagRefsFieldCount = 13"

definition HeadsRefsArgs :: argv where
  "HeadsRefsArgs =
     [''for-each-ref'', ''--format='' @ RefsFormat, ''--sort=-committerdate'',
      ''--exclude=refs/remotes/*/HEAD'', ''refs/heads'', ''refs/remotes'']"

definition TagRefsArgs :: argv where
  "TagRefsArgs = [''for-each-ref'', ''--format='' @ TagRefsFormat, ''--sort=-v:refname'', ''refs/tags'']"

definition SingleRefArgs :: "bytes \<Rightarrow> argv" where
  "SingleRefArgs refname = [''for-each-ref'', ''--format='' @ RefsFormat, refname]"

record RefTrack =
  rt_Ahead :: int
  rt_Behind :: int

record TagAnnotation =
  ta_Tagger :: bytes
  ta_Date :: int
  ta_Subject :: bytes
  ta_Body :: bytes

text \<open>The three values of the wire field \<open>Track\<close>: omitted, the string \<open>gone\<close>, or counts.\<close>

datatype Track = TrackNone | TrackGone | TrackCounts RefTrack

datatype RefKind = RefBranch | RefRemoteBranch | RefTag

record RefRow =
  rr_Refname :: bytes
  rr_Kind :: RefKind
  rr_ShortName :: bytes
  rr_ObjectID :: sha
  rr_PeeledObjectID :: "sha option"
  rr_Upstream :: "bytes option"
  rr_Track :: Track
  rr_CommitterDate :: int
  rr_IsHead :: bool
  rr_CheckedOutIn :: "path option"
  rr_Annotation :: "TagAnnotation option"
  rr_ObjectType :: bytes

text \<open>
  \<^verbatim>\<open>FindStringSubmatch\<close> for a literal followed by \<open>(\d+)\<close>: the digits after the leftmost
  occurrence of the literal that at least one digit follows.
\<close>

fun findCount :: "bytes \<Rightarrow> bytes \<Rightarrow> bytes option" where
  "findCount lit [] = None"
| "findCount lit (c # cs) =
     (let ds = takeWhile isDigit (drop (length lit) (c # cs))
      in if HasPrefix (c # cs) lit \<and> ds \<noteq> [] then Some ds else findCount lit cs)"

definition trackAheadRe :: "bytes \<Rightarrow> bytes option" where
  "trackAheadRe = findCount ''ahead ''"

definition trackBehindRe :: "bytes \<Rightarrow> bytes option" where
  "trackBehindRe = findCount ''behind ''"

definition parseTrack :: "bytes \<Rightarrow> Track" where
  "parseTrack raw =
     (if raw = [] then TrackNone
      else if raw = ''[gone]'' then TrackGone
      else TrackCounts
        \<lparr>rt_Ahead = (case trackAheadRe raw of Some m \<Rightarrow> fst (Atoi m) | None \<Rightarrow> 0),
         rt_Behind = (case trackBehindRe raw of Some m \<Rightarrow> fst (Atoi m) | None \<Rightarrow> 0)\<rparr>)"

definition classifyRef :: "bytes \<Rightarrow> RefKind \<times> bytes" where
  "classifyRef refname =
     (if HasPrefix refname ''refs/heads/'' then (RefBranch, drop (length ''refs/heads/'') refname)
      else if HasPrefix refname ''refs/remotes/'' then (RefRemoteBranch, drop (length ''refs/remotes/'') refname)
      else (RefTag, TrimPrefix refname ''refs/tags/''))"

definition nonEmptyPtr :: "bytes \<Rightarrow> bytes option" where
  "nonEmptyPtr s = (if s = [] then None else Some s)"

definition parseRefRow :: "(bytes \<Rightarrow> bytes) \<Rightarrow> bytes list \<Rightarrow> bool \<Rightarrow> porc_error + RefRow" where
  "parseRefRow nfc fs withSubject =
     (let n = (if withSubject then tagRefsFieldCount else refsFieldCount)
      in if length fs \<noteq> n then Inl (RefFieldCount (length fs) n)
         else let
           subject = (if withSubject then fs ! 11 else []);
           body = (if withSubject then fs ! 12 else []);
           (kind, shortName) = classifyRef (fs ! 0);
           isTag = (fs ! 2 = ''tag'');
           annotation =
             (if isTag \<and> fs ! 9 \<noteq> []
              then Some \<lparr>ta_Tagger = fs ! 9, ta_Date = fst (Atoi (fs ! 10)),
                         ta_Subject = subject, ta_Body = body\<rparr>
              else None)
         in Inr \<lparr>rr_Refname = fs ! 0, rr_Kind = kind, rr_ShortName = shortName,
                 rr_ObjectID = fs ! 1, rr_PeeledObjectID = nonEmptyPtr (fs ! 7),
                 rr_Upstream = nonEmptyPtr (fs ! 3), rr_Track = parseTrack (fs ! 4),
                 rr_CommitterDate = fst (Atoi (fs ! 5)), rr_IsHead = (fs ! 6 = ''*''),
                 rr_CheckedOutIn = nonEmptyPtr (nfc (fs ! 8)), rr_Annotation = annotation,
                 rr_ObjectType = fs ! 2\<rparr>)"

definition ParseRefRows :: "(bytes \<Rightarrow> bytes) \<Rightarrow> bytes \<Rightarrow> bool \<Rightarrow> porc_error + RefRow list" where
  "ParseRefRows nfc raw withSubject =
     rbind (splitNULRecords raw (if withSubject then tagRefsFieldCount else refsFieldCount))
       (mapR (\<lambda>fs. parseRefRow nfc fs withSubject))"

section \<open>The branch inventory\<close>

definition InventoryFormat :: bytes where
  "InventoryFormat = ''%(refname)%00%(objectname)%00%(committerdate:unix)%00%(authorname)%00''
     @ ''%(authoremail:trim)%00%(worktreepath)%00%(upstream)%00%(upstream:track)%00''"

definition inventoryFieldCount :: nat where
  "inventoryFieldCount = 8"

definition InventoryArgs :: argv where
  "InventoryArgs =
     [''for-each-ref'', ''--format='' @ InventoryFormat, ''--sort=-committerdate'',
      ''--exclude=refs/remotes/*/HEAD'', ''refs/heads'', ''refs/remotes'']"

record InventoryRef =
  ir_Ref :: bytes
  ir_Short :: bytes
  ir_Tip :: sha
  ir_Remote :: bytes
  ir_CommitterUnix :: int
  ir_AuthorName :: bytes
  ir_AuthorEmail :: bytes
  ir_WorktreePath :: path
  ir_Upstream :: bytes
  ir_UpstreamAhead :: int
  ir_UpstreamBehind :: int
  ir_UpstreamGone :: bool

definition splitInventoryRef :: "bytes \<Rightarrow> bytes \<times> bytes" where
  "splitInventoryRef refname =
     (if HasPrefix refname ''refs/heads/'' then (drop (length ''refs/heads/'') refname, [])
      else if HasPrefix refname ''refs/remotes/'' then
        (let rest = drop (length ''refs/remotes/'') refname
         in case IndexByte rest (CHR ''/'') of
              Some i \<Rightarrow> (drop (i + 1) rest, take i rest)
            | None \<Rightarrow> (rest, []))
      else (refname, []))"

definition parseInventoryRow :: "(bytes \<Rightarrow> bytes) \<Rightarrow> bytes list \<Rightarrow> porc_error + InventoryRef" where
  "parseInventoryRow nfc fs =
     (if length fs \<noteq> inventoryFieldCount then Inl (RefFieldCount (length fs) inventoryFieldCount)
      else let
        (short, remote) = splitInventoryRef (fs ! 0);
        ref = \<lparr>ir_Ref = fs ! 0, ir_Short = short, ir_Tip = fs ! 1, ir_Remote = remote,
               ir_CommitterUnix = fst (Atoi (fs ! 2)), ir_AuthorName = fs ! 3,
               ir_AuthorEmail = fs ! 4, ir_WorktreePath = nfc (fs ! 5), ir_Upstream = fs ! 6,
               ir_UpstreamAhead = 0, ir_UpstreamBehind = 0, ir_UpstreamGone = False\<rparr>
      in Inr (case parseTrack (fs ! 7) of
           TrackCounts t \<Rightarrow> ref\<lparr>ir_UpstreamAhead := rt_Ahead t, ir_UpstreamBehind := rt_Behind t\<rparr>
         | TrackGone \<Rightarrow> ref\<lparr>ir_UpstreamGone := True\<rparr>
         | TrackNone \<Rightarrow> ref))"

definition ParseInventory :: "(bytes \<Rightarrow> bytes) \<Rightarrow> bytes \<Rightarrow> porc_error + InventoryRef list" where
  "ParseInventory nfc raw =
     rbind (splitNULRecords raw inventoryFieldCount) (mapR (parseInventoryRow nfc))"

section \<open>The walk's ref snapshot\<close>

definition RefSnapshotArgs :: argv where
  "RefSnapshotArgs = [''for-each-ref'', ''--format=%(refname)'' @ [fieldDelim] @ ''%(objectname)'']"

type_synonym snapshot = "(bytes, sha) mapping"

fun snapshotLoop :: "bytes list \<Rightarrow> snapshot \<Rightarrow> porc_error + snapshot" where
  "snapshotLoop [] out = Inr out"
| "snapshotLoop (line # lines) out =
     (let fs = SplitLimitedFields line fieldDelim 2
      in if length fs \<noteq> 2 then Inl (SnapshotFieldCount (length fs))
         else snapshotLoop lines (Mapping.update (fs ! 0) (fs ! 1) out))"

definition ParseRefSnapshot :: "bytes \<Rightarrow> porc_error + snapshot" where
  "ParseRefSnapshot raw =
     (let text = TrimSuffix raw [newline]
      in if text = [] then Inr Mapping.empty else snapshotLoop (SplitByte text newline) Mapping.empty)"

section \<open>The framing is exact\<close>

text \<open>What for-each-ref writes: every field NUL-terminated, a newline after every record.\<close>

definition refStream :: "bytes list list \<Rightarrow> bytes" where
  "refStream gs = concat (map (\<lambda>g. terminated nul g @ [newline]) gs)"

fun leadNewline :: "bytes list list \<Rightarrow> bytes list list" where
  "leadNewline [] = []"
| "leadNewline (g # gs) = g # map (\<lambda>g. (newline # hd g) # tl g) gs"

lemma frameLoop_Suc:
  "list_all (\<lambda>g. g \<noteq> []) hs \<Longrightarrow>
   frameLoop (Suc k) hs = Inr gs \<longleftrightarrow>
     list_all (\<lambda>g. g \<noteq> []) gs \<and> hs = map (\<lambda>g. (newline # hd g) # tl g) gs"
proof (induction hs arbitrary: gs k)
  case (Cons h hs)
  then show ?case
    by (cases h; cases "hd h")
      (auto simp: rbind_eq_Inr map_eq_Cons_conv Cons_eq_map_conv split: list.splits)
qed auto

lemma frameLoop_exact:
  "list_all (\<lambda>g. g \<noteq> []) hs \<Longrightarrow>
   frameLoop 0 hs = Inr gs \<longleftrightarrow> list_all (\<lambda>g. g \<noteq> []) gs \<and> hs = leadNewline gs"
  by (cases hs; cases gs) (auto simp: rbind_eq_Inr frameLoop_Suc)

lemma terminated_leadNewline:
  "list_all (\<lambda>g. g \<noteq> []) gs \<Longrightarrow> gs \<noteq> [] \<Longrightarrow>
   terminated nul (concat (leadNewline gs)) @ [newline] = refStream gs"
proof (cases gs)
  case (Cons g gs')
  have "list_all (\<lambda>g. g \<noteq> []) hs \<Longrightarrow>
      terminated nul (concat (map (\<lambda>g. (newline # hd g) # tl g) hs)) @ [newline] = newline # refStream hs" for hs
  proof (induction hs)
    case (Cons h hs)
    then show ?case by (cases h) (simp_all add: refStream_def)
  qed (simp add: refStream_def)
  moreover assume "list_all (\<lambda>g. g \<noteq> []) gs"
  ultimately show ?thesis using Cons by (simp add: refStream_def)
qed simp

lemma length_concat_dvd: "list_all (\<lambda>g. length g = n) gs \<Longrightarrow> n dvd length (concat gs)"
  by (induction gs) auto

lemma chunksOf_full: "0 < n \<Longrightarrow> length xs mod n = 0 \<Longrightarrow> concat (fst (chunksOf n xs)) = xs"
proof -
  assume n: "0 < n" and m: "length xs mod n = 0"
  let ?c = "chunksOf n xs"
  have "n dvd length (concat (fst ?c))"
    using chunksOf_group_length [of _ n xs] by (intro length_concat_dvd) (simp add: list_all_iff)
  moreover have "length xs = length (concat (fst ?c)) + length (snd ?c)"
    using chunksOf_conserves [of n xs] by (metis length_append)
  ultimately have "n dvd length (snd ?c)"
    using m by (metis dvd_add_right_iff dvd_eq_mod_eq_0)
  then have "snd ?c = []"
    using length_snd_chunksOf [OF n, of xs] nat_dvd_not_less by force
  then show ?thesis using chunksOf_conserves [of n xs] by simp
qed

lemma length_leadNewline:
  "list_all (\<lambda>g. g \<noteq> []) gs \<Longrightarrow>
   list_all (\<lambda>g. length g = n) (leadNewline gs) \<longleftrightarrow> list_all (\<lambda>g. length g = n) gs"
  by (cases gs) (auto simp: list_all_iff)

lemma nul_leadNewline:
  "list_all (\<lambda>g. g \<noteq> []) gs \<Longrightarrow>
   list_all (\<lambda>f. nul \<notin> set f) (concat (leadNewline gs)) \<longleftrightarrow> list_all (\<lambda>f. nul \<notin> set f) (concat gs)"
proof (cases gs)
  case (Cons g gs')
  have "list_all (\<lambda>g. g \<noteq> []) hs \<Longrightarrow>
      list_all (\<lambda>f. nul \<notin> set f) (concat (map (\<lambda>g. (newline # hd g) # tl g) hs))
        = list_all (\<lambda>f. nul \<notin> set f) (concat hs)" for hs
  proof (induction hs)
    case (Cons h hs)
    then show ?case by (cases h) auto
  qed simp
  moreover assume "list_all (\<lambda>g. g \<noteq> []) gs"
  ultimately show ?thesis using Cons by simp
qed simp

lemma splitNULRecords_refStream:
  assumes "0 < n" and "list_all (\<lambda>g. length g = n) gs" and "list_all (\<lambda>f. nul \<notin> set f) (concat gs)"
  shows "splitNULRecords (refStream gs) n = Inr gs"
proof (cases "gs = []")
  case False
  have ne: "list_all (\<lambda>g. g \<noteq> []) gs"
    using assms(1,2) by (auto simp: list_all_iff)
  let ?ts = "concat (leadNewline gs)"
  have raw: "refStream gs = terminated nul ?ts @ [newline]"
    using terminated_leadNewline [OF ne False] by simp
  have sp: "SplitByte (refStream gs) nul = ?ts @ [[newline]]"
    unfolding raw using nul_leadNewline [OF ne] assms(3)
    by (subst SplitByte_terminated) (auto simp: list_all_iff)
  have ch: "chunksOf n ?ts = (leadNewline gs, [])"
    using length_leadNewline [OF ne, of n] assms(1,2) by (intro chunksOf_concat) (auto simp: list_all_iff)
  have "length ?ts mod n = 0"
    using length_concat_dvd [of n "leadNewline gs"] length_leadNewline [OF ne, of n] assms(2) by simp
  moreover have "list_all (\<lambda>g. g \<noteq> []) (leadNewline gs)"
    using length_leadNewline [OF ne, of n] assms(1,2) by (auto simp: list_all_iff)
  ultimately show ?thesis
    using frameLoop_exact [of "leadNewline gs" gs] ne
    by (simp add: splitNULRecords_def Let_def sp ch) (simp add: raw)
qed (simp add: refStream_def splitNULRecords_def)

lemma splitNULRecords_sound:
  assumes "0 < n" and "splitNULRecords raw n = Inr gs"
  shows "list_all (\<lambda>g. length g = n) gs \<and> list_all (\<lambda>f. nul \<notin> set f) (concat gs)
    \<and> (raw = refStream gs \<or> gs = [] \<and> raw = [newline])"
proof (cases "raw = []")
  case True
  then show ?thesis using assms(2) by (simp add: splitNULRecords_def refStream_def)
next
  case False
  let ?parts = "SplitByte raw nul" and ?ts = "butlast (SplitByte raw nul)"
  let ?hs = "fst (chunksOf n ?ts)"
  have l: "last ?parts = [newline]" and m: "length ?ts mod n = 0" and fr: "frameLoop 0 ?hs = Inr gs"
    using assms(2) False by (auto simp: splitNULRecords_def Let_def split: if_splits)
  have len: "list_all (\<lambda>g. length g = n) ?hs"
    using chunksOf_group_length [of _ n ?ts] by (simp add: list_all_iff)
  then have "list_all (\<lambda>g. g \<noteq> []) ?hs" using assms(1) by (auto simp: list_all_iff)
  then have ne: "list_all (\<lambda>g. g \<noteq> []) gs" and hs: "?hs = leadNewline gs"
    using frameLoop_exact fr by blast+
  have ts: "concat (leadNewline gs) = ?ts"
    using chunksOf_full [OF assms(1) m] hs by simp
  then have "list_all (\<lambda>f. nul \<notin> set f) (concat (leadNewline gs))"
    using SplitByte_no_delim [of _ raw nul] by (auto simp: list_all_iff dest: in_set_butlastD)
  moreover have "terminated nul (concat (leadNewline gs)) @ [newline] = raw"
    using terminated_butlast_SplitByte [of nul raw] l ts by simp
  ultimately show ?thesis
    using nul_leadNewline [OF ne] length_leadNewline [OF ne, of n] len hs terminated_leadNewline [OF ne]
    by (cases "gs = []") auto
qed

text \<open>
  the ref listings are framed exactly.  \<open>splitNULRecords\<close> returns \<open>gs\<close> if and only if \<open>gs\<close> are
  groups of \<open>n\<close> NUL-free fields and the stream is what for-each-ref prints for them (a lone
  newline, which git never prints, also reads as no record at all): a newline inside a field never
  moves a record boundary, and nothing malformed is accepted.
\<close>

theorem splitNULRecords_exact:
  assumes "0 < n"
  shows "splitNULRecords raw n = Inr gs \<longleftrightarrow>
    list_all (\<lambda>g. length g = n) gs \<and> list_all (\<lambda>f. nul \<notin> set f) (concat gs)
    \<and> (raw = refStream gs \<or> gs = [] \<and> raw = [newline])"
  using splitNULRecords_sound [OF assms, of raw gs] splitNULRecords_refStream [OF assms, of gs]
  by (auto simp: splitNULRecords_def chunksOf.simps)

theorem splitNULRecords_exact_witness:
  "splitNULRecords (refStream [[''r1'', [CHR ''a'', newline, CHR ''b'']], [''r2'', []]]) 2
     = Inr [[''r1'', [CHR ''a'', newline, CHR ''b'']], [''r2'', []]]"
  using splitNULRecords_exact [of 2 "refStream [[''r1'', [CHR ''a'', newline, CHR ''b'']], [''r2'', []]]"
      "[[''r1'', [CHR ''a'', newline, CHR ''b'']], [''r2'', []]]"] by simp

text \<open>A ref row, as for-each-ref prints it, and the rows git can print.\<close>

definition trackText :: "Track \<Rightarrow> bytes" where
  "trackText t =
     (case t of
        TrackNone \<Rightarrow> []
      | TrackGone \<Rightarrow> ''[gone]''
      | TrackCounts c \<Rightarrow>
          (if rt_Behind c = 0 then ''[ahead '' @ Itoa (rt_Ahead c) @ '']''
           else if rt_Ahead c = 0 then ''[behind '' @ Itoa (rt_Behind c) @ '']''
           else ''[ahead '' @ Itoa (rt_Ahead c) @ '', behind '' @ Itoa (rt_Behind c) @ '']''))"

definition optText :: "bytes option \<Rightarrow> bytes" where
  "optText o' = (case o' of None \<Rightarrow> [] | Some s \<Rightarrow> s)"

definition refFields :: "RefRow \<Rightarrow> bytes list" where
  "refFields r =
     [rr_Refname r, rr_ObjectID r, rr_ObjectType r, optText (rr_Upstream r), trackText (rr_Track r),
      Itoa (rr_CommitterDate r), if rr_IsHead r then ''*'' else '' '', optText (rr_PeeledObjectID r),
      optText (rr_CheckedOutIn r),
      case rr_Annotation r of None \<Rightarrow> [] | Some a \<Rightarrow> ta_Tagger a,
      case rr_Annotation r of None \<Rightarrow> [] | Some a \<Rightarrow> Itoa (ta_Date a),
      case rr_Annotation r of None \<Rightarrow> [] | Some a \<Rightarrow> ta_Subject a,
      case rr_Annotation r of None \<Rightarrow> [] | Some a \<Rightarrow> ta_Body a]"

definition wfTrack :: "Track \<Rightarrow> bool" where
  "wfTrack t \<longleftrightarrow>
     (case t of
        TrackCounts c \<Rightarrow> 0 \<le> rt_Ahead c \<and> rt_Ahead c < 2 ^ 63 \<and> 0 \<le> rt_Behind c \<and> rt_Behind c < 2 ^ 63
      | _ \<Rightarrow> True)"

lemma findCount_here:
  "lit \<noteq> [] \<Longrightarrow> ds \<noteq> [] \<Longrightarrow> list_all isDigit ds \<Longrightarrow> \<not> isDigit c \<Longrightarrow>
   findCount lit (lit @ ds @ c # s) = Some ds"
  by (cases "lit @ ds @ c # s") (auto simp: Let_def list_all_iff takeWhile_tail HasPrefix_iff_prefix
      dest!: sym [of _ "_ # _"])

lemma findCount_skip: "\<not> HasPrefix (c # s) lit \<Longrightarrow> findCount lit (c # s) = findCount lit s"
  by simp

lemma findCount_digits:
  "lit \<noteq> [] \<Longrightarrow> \<not> isDigit (hd lit) \<Longrightarrow> list_all isDigit ds \<Longrightarrow> findCount lit (ds @ s) = findCount lit s"
proof (induction ds)
  case (Cons d ds)
  then have "\<not> HasPrefix (d # ds @ s) lit" by (cases lit) auto
  then show ?case using Cons by simp
qed simp

lemma parseTrack_trackText: "wfTrack t \<Longrightarrow> parseTrack (trackText t) = t"
proof (cases t)
  case (TrackCounts c)
  moreover assume "wfTrack t"
  ultimately have r: "0 \<le> rt_Ahead c" "rt_Ahead c < 2 ^ 63" "0 \<le> rt_Behind c" "rt_Behind c < 2 ^ 63"
    by (simp_all add: wfTrack_def)
  note dg = Itoa_digits [OF r(1)] Itoa_digits [OF r(3)]
  have ahead: "trackAheadRe (''[ahead '' @ Itoa (rt_Ahead c) @ x # s) = Some (Itoa (rt_Ahead c))"
    if "\<not> isDigit x" for x s
    using findCount_here [of "''ahead ''" "Itoa (rt_Ahead c)" x s] dg(1) that by (simp add: trackAheadRe_def)
  have behind: "findCount ''behind '' (''behind '' @ Itoa (rt_Behind c) @ x # s) = Some (Itoa (rt_Behind c))"
    if "\<not> isDigit x" for x s
    using findCount_here [of "''behind ''" "Itoa (rt_Behind c)" x s] dg(2) that by simp
  have skip: "findCount ''behind '' (Itoa (rt_Ahead c) @ s) = findCount ''behind '' s"
       "findCount ''ahead '' (Itoa (rt_Behind c) @ s) = findCount ''ahead '' s" for s
    using findCount_digits [of "''behind ''" "Itoa (rt_Ahead c)" s] findCount_digits [of "''ahead ''" "Itoa (rt_Behind c)" s] dg
    by (simp_all add: isDigit_def)
  have nd: "\<not> isDigit (CHR '']'')" "\<not> isDigit (CHR '','')" by (simp_all add: isDigit_def)
  have "trackBehindRe (''[ahead '' @ Itoa (rt_Ahead c) @ '']'') = None"
    "trackAheadRe (''[behind '' @ Itoa (rt_Behind c) @ '']'') = None"
    "trackBehindRe (''[behind '' @ Itoa (rt_Behind c) @ '']'') = Some (Itoa (rt_Behind c))"
    "trackBehindRe (''[ahead '' @ Itoa (rt_Ahead c) @ '', behind '' @ Itoa (rt_Behind c) @ '']'')
       = Some (Itoa (rt_Behind c))"
    using skip behind [OF nd(1), of "[]"] by (simp_all add: trackAheadRe_def trackBehindRe_def del: findCount.simps(2) add: findCount_skip)
  then show ?thesis
    using TrackCounts ahead [OF nd(1), of "[]"] ahead [OF nd(2), of "'' behind '' @ Itoa (rt_Behind c) @ '']''"] r
    by (auto simp: parseTrack_def trackText_def Atoi_Itoa)
qed (simp_all add: parseTrack_def trackText_def)

definition wfAnnotation :: "RefRow \<Rightarrow> bool" where
  "wfAnnotation r \<longleftrightarrow>
     (case rr_Annotation r of
        None \<Rightarrow> True
      | Some a \<Rightarrow> rr_ObjectType r = ''tag'' \<and> ta_Tagger a \<noteq> [] \<and> ta_Date a \<in> {- (2 ^ 63) ..< 2 ^ 63})"

definition wfRefRow :: "(bytes \<Rightarrow> bytes) \<Rightarrow> RefRow \<Rightarrow> bool" where
  "wfRefRow nfc r \<longleftrightarrow>
     classifyRef (rr_Refname r) = (rr_Kind r, rr_ShortName r)
     \<and> rr_CommitterDate r \<in> {- (2 ^ 63) ..< 2 ^ 63}
     \<and> rr_PeeledObjectID r \<noteq> Some [] \<and> rr_Upstream r \<noteq> Some [] \<and> rr_CheckedOutIn r \<noteq> Some []
     \<and> nfc (optText (rr_CheckedOutIn r)) = optText (rr_CheckedOutIn r)
     \<and> wfTrack (rr_Track r) \<and> wfAnnotation r"

lemma nonEmptyPtr_optText: "p \<noteq> Some [] \<Longrightarrow> nonEmptyPtr (optText p) = p"
  by (cases p) (auto simp: nonEmptyPtr_def optText_def)

lemma parseRefRow_refFields:
  assumes "wfRefRow nfc r"
  shows "parseRefRow nfc (refFields r) True = Inr r"
proof (cases "rr_Annotation r")
  case None
  then show ?thesis
    using assms
    by (simp add: parseRefRow_def refFields_def tagRefsFieldCount_def wfRefRow_def
        parseTrack_trackText nonEmptyPtr_optText Atoi_Itoa)
next
  case (Some a)
  then show ?thesis
    using assms
    by (simp add: parseRefRow_def refFields_def tagRefsFieldCount_def wfRefRow_def wfAnnotation_def
        parseTrack_trackText nonEmptyPtr_optText Atoi_Itoa)
qed

text \<open>
  the tag listing reads back every ref.  Rows whose fields hold no NUL, printed in
  \<open>TagRefsFormat\<close>, parse to those rows in order: kind and short name from the refname, upstream
  tracking (absent, gone, or ahead and behind counts), the checked-out worktree path in its
  normalised spelling, and the annotation only for an annotated tag, newlines of its body included.
\<close>

theorem ref_rows_roundtrip:
  assumes "list_all (wfRefRow nfc) rows"
    and "list_all (\<lambda>f. nul \<notin> set f) (concat (map refFields rows))"
  shows "ParseRefRows nfc (refStream (map refFields rows)) True = Inr rows"
proof -
  have "list_all (\<lambda>g. length g = tagRefsFieldCount) (map refFields rows)"
    by (simp add: list_all_iff refFields_def tagRefsFieldCount_def)
  then have "splitNULRecords (refStream (map refFields rows)) tagRefsFieldCount = Inr (map refFields rows)"
    using assms(2) by (intro splitNULRecords_refStream) (simp_all add: tagRefsFieldCount_def)
  moreover have "mapR (\<lambda>fs. parseRefRow nfc fs True) (map refFields rows) = Inr rows"
    using assms(1) by (induction rows) (simp_all add: parseRefRow_refFields)
  ultimately show ?thesis by (simp add: ParseRefRows_def)
qed

definition sampleRef :: RefRow where
  "sampleRef = \<lparr>rr_Refname = ''refs/tags/v1'', rr_Kind = RefTag, rr_ShortName = ''v1'', rr_ObjectID = ''a1'',
     rr_PeeledObjectID = Some ''b2'', rr_Upstream = None,
     rr_Track = TrackCounts \<lparr>rt_Ahead = 2, rt_Behind = 31\<rparr>, rr_CommitterDate = 9, rr_IsHead = False,
     rr_CheckedOutIn = Some ''/w'', rr_Annotation = Some \<lparr>ta_Tagger = ''T'', ta_Date = 8, ta_Subject = ''s'',
     ta_Body = [CHR ''x'', newline]\<rparr>, rr_ObjectType = ''tag''\<rparr>"

theorem ref_rows_roundtrip_witness:
  "ParseRefRows (\<lambda>p. p) (refStream (map refFields [sampleRef, sampleRef])) True = Inr [sampleRef, sampleRef]"
proof -
  have "wfRefRow (\<lambda>p. p) sampleRef"
    by (simp add: sampleRef_def wfRefRow_def classifyRef_def wfTrack_def wfAnnotation_def TrimPrefix_def)
  moreover have "list_all (\<lambda>f. nul \<notin> set f) (refFields sampleRef)"
    by (simp add: sampleRef_def refFields_def optText_def trackText_def Itoa_def natText.simps digitChar_def char_of_def)
  ultimately show ?thesis using ref_rows_roundtrip [of "\<lambda>p. p" "[sampleRef, sampleRef]"] by simp
qed

end
