(* ===== verification/LogSession.thy ===== *)
theory LogSession
  imports RefsParse
begin

text \<open>
  \<^verbatim>\<open>gitclient/logsession/session.go\<close>: the paged, resumable history walk.  A session owns at most one
  paused \<^verbatim>\<open>git log\<close> process; \<open>ReadPage\<close> reads its output until a page is full (and one record
  beyond), the idle timer or a cancelled request may kill it, and the next \<open>ReadPage\<close> then resumes
  with \<^verbatim>\<open>--skip\<close> after checking that no ref moved.

  The process, the clock and the scheduler are the environment.  A running process is the part of
  its output nobody has read yet; a call of \<open>ReadPage\<close> is given what the snapshot command printed,
  what the spawned process will print, and the outcome of each read.  The read loop runs over that
  list of outcomes; \<^const>\<open>None\<close> is a page still waiting for its next read.  Every operation holds
  the session's mutex throughout, so the operations are atomic steps.
\<close>

section \<open>State\<close>

text \<open>Errors that end a session for good, and errors of the environment (their text).\<close>

datatype session_error =
    BadStream porc_error
  | TrailingField nat
  | TrailingRecord nat

datatype page_error =
    Permanent session_error
  | Environment bytes
  | SnapshotParse porc_error

record Options =
  op_Walk :: WalkSpec
  op_PageSize :: int
  op_IdleReclaim :: int
  op_PrecomputedTotal :: "int option"

record Outcome =
  oc_Appended :: nat
  oc_Exhausted :: bool
  oc_Stale :: bool

record Session =
  s_opts :: Options
  s_spawnCancelled :: bool
  s_proc :: "bytes option"
  s_splitter :: RecordSplitter
  s_grouper :: FieldGrouper
  s_currentArgs :: argv
  s_pending :: "CommitRecord list"
  s_loadedCount :: nat
  s_readCount :: nat
  s_eof :: bool
  s_baseSnapshot :: snapshot
  s_reclaimTimer :: bool
  s_cachedTotal :: "int option"
  s_failed :: "session_error option"

text \<open>
  The environment of one \<open>ReadPage\<close>: the snapshot command's output or error, the spawned process's
  whole output or the error of starting it, and the result of every read.  A read takes up to so
  many bytes of the unread output and reports nothing, end of file, another error, or that the
  request was cancelled; at end of file the process is reaped, which may itself fail, and its exit
  is classified.
\<close>

datatype wait_result = WaitErr bytes | Exited "bytes option"

datatype read_result = ReadOK | ReadEOF wait_result | ReadErr bytes | ReadCancelled bytes

record SpawnEnv =
  sp_snapshot :: "bytes + bytes"
  sp_start :: "bytes + bytes"

definition DefaultPageSize :: int where
  "DefaultPageSize = 5000"

definition defaultIdleReclaim :: int where
  "defaultIdleReclaim = 5 * 60 * 10 ^ 9"

definition exhaustedLocked :: "Session \<Rightarrow> bool" where
  "exhaustedLocked s \<longleftrightarrow> s_eof s \<and> s_pending s = []"

definition Open :: "Options \<Rightarrow> Session" where
  "Open opts =
     \<lparr>s_opts = opts\<lparr>op_PageSize := (if op_PageSize opts \<le> 0 then DefaultPageSize else op_PageSize opts),
                   op_IdleReclaim := (if op_IdleReclaim opts = 0 then defaultIdleReclaim else op_IdleReclaim opts)\<rparr>,
      s_spawnCancelled = False, s_proc = None, s_splitter = NewRecordSplitter nul,
      s_grouper = NewFieldGrouper FieldCount, s_currentArgs = [], s_pending = [], s_loadedCount = 0,
      s_readCount = 0, s_eof = False, s_baseSnapshot = Mapping.empty, s_reclaimTimer = False,
      s_cachedTotal = None, s_failed = None\<rparr>"

section \<open>Reading\<close>

text \<open>The records given to \<open>sink\<close> are returned, oldest first, beside the new state.\<close>

fun drainLoop :: "int \<Rightarrow> Session \<Rightarrow> CommitRecord list \<Rightarrow> nat \<Rightarrow> CommitRecord list \<Rightarrow> Session \<times> CommitRecord list \<times> nat" where
  "drainLoop pageSize s out appended [] = (s\<lparr>s_pending := []\<rparr>, out, appended)"
| "drainLoop pageSize s out appended (p # ps) =
     (if int appended < pageSize
      then drainLoop pageSize (s\<lparr>s_loadedCount := s_loadedCount s + 1\<rparr>) (out @ [p]) (appended + 1) ps
      else (s\<lparr>s_pending := p # ps\<rparr>, out, appended))"

definition drainPendingLocked :: "Session \<Rightarrow> int \<Rightarrow> Session \<times> CommitRecord list \<times> nat" where
  "drainPendingLocked s pageSize = drainLoop pageSize s [] 0 (s_pending s)"

definition failLocked :: "Session \<Rightarrow> session_error \<Rightarrow> Session \<times> page_error" where
  "failLocked s e = (s\<lparr>s_proc := None, s_eof := False, s_failed := Some e\<rparr>, Permanent e)"

fun consumeRecords ::
  "int \<Rightarrow> bytes list list \<Rightarrow> Session \<Rightarrow> CommitRecord list \<Rightarrow> nat \<Rightarrow>
     Session \<times> CommitRecord list \<times> nat \<times> page_error option" where
  "consumeRecords pageSize [] s out appended = (s, out, appended, None)"
| "consumeRecords pageSize (fs # rest) s out appended =
     (case ParseLogRecord fs of
        Inl e \<Rightarrow> (let (s', err) = failLocked s (BadStream e) in (s', out, appended, Some err))
      | Inr cr \<Rightarrow>
          (let s1 = s\<lparr>s_readCount := s_readCount s + 1\<rparr>
           in if int appended < pageSize
              then consumeRecords pageSize rest (s1\<lparr>s_loadedCount := s_loadedCount s1 + 1\<rparr>)
                     (out @ [cr]) (appended + 1)
              else consumeRecords pageSize rest (s1\<lparr>s_pending := s_pending s1 @ [cr]\<rparr>) out appended))"

definition consumeChunkLocked ::
  "Session \<Rightarrow> bytes \<Rightarrow> CommitRecord list \<Rightarrow> int \<Rightarrow> nat \<Rightarrow>
     (Session \<times> CommitRecord list \<times> nat \<times> page_error option) option" where
  "consumeChunkLocked s chunk out pageSize appended =
     (case RecordSplitter_Push (s_splitter s) chunk of
        (sp, toks, Some splitErr) \<Rightarrow>
          (let (s', err) = failLocked (s\<lparr>s_splitter := sp\<rparr>) (BadStream splitErr)
           in Some (s', out, appended, Some err))
      | (sp, toks, None) \<Rightarrow>
          (case FieldGrouper_Push (s_grouper s) toks of
             None \<Rightarrow> None
           | Some (g, groups) \<Rightarrow>
               Some (consumeRecords pageSize groups (s\<lparr>s_splitter := sp, s_grouper := g\<rparr>) out appended)))"

definition finishEOFLocked :: "Session \<Rightarrow> wait_result \<Rightarrow> Session \<times> page_error option" where
  "finishEOFLocked s w =
     (let (sp, flushed) = RecordSplitter_Flush (s_splitter s);
          (s1, protoErr) =
            (case flushed of
               Some b \<Rightarrow> (s\<lparr>s_splitter := sp\<rparr>, Some (TrailingField (length b)))
             | None \<Rightarrow>
                 (let (g, pending) = FieldGrouper_Flush (s_grouper s)
                  in (s\<lparr>s_splitter := sp, s_grouper := g\<rparr>,
                      case pending of Some fs \<Rightarrow> Some (TrailingRecord (length fs)) | None \<Rightarrow> None)));
          s2 = s1\<lparr>s_proc := None\<rparr>
      in case w of
           WaitErr e \<Rightarrow> (s2, Some (Environment e))
         | Exited (Some cerr) \<Rightarrow> (s2, Some (Environment cerr))
         | Exited None \<Rightarrow>
             (case protoErr of
                Some pe \<Rightarrow> (let (s3, err) = failLocked s2 pe in (s3, Some err))
              | None \<Rightarrow> (s2\<lparr>s_eof := True\<rparr>, None)))"

text \<open>
  One read off the process: up to \<open>n\<close> bytes of its unread output.  A cancelled request closes the
  process and returns no bytes.
\<close>

definition readChunkLocked :: "Session \<Rightarrow> nat \<Rightarrow> read_result \<Rightarrow> Session \<times> bytes" where
  "readChunkLocked s n r =
     (case (r, s_proc s) of
        (ReadCancelled e, _) \<Rightarrow> (s\<lparr>s_proc := None\<rparr>, [])
      | (_, Some unread) \<Rightarrow> (s\<lparr>s_proc := Some (drop n unread)\<rparr>, take n unread)
      | (_, None) \<Rightarrow> (s, []))"

fun fillLocked ::
  "(nat \<times> read_result) list \<Rightarrow> Session \<Rightarrow> CommitRecord list \<Rightarrow> int \<Rightarrow> nat \<Rightarrow>
     (Session \<times> CommitRecord list \<times> (page_error + nat)) option" where
  "fillLocked reads s out pageSize appended =
     (if s_eof s \<or> \<not> (int appended < pageSize \<or> s_pending s = []) then Some (s, out, Inr appended)
      else case reads of
        [] \<Rightarrow> None
      | (n, r) # reads' \<Rightarrow>
          (let (s1, chunk) = readChunkLocked s n r
           in case (if chunk = [] then Some (s1, out, appended, None)
                    else consumeChunkLocked s1 chunk out pageSize appended) of
                None \<Rightarrow> None
              | Some (s2, out2, appended2, Some err) \<Rightarrow> Some (s2, out2, Inl err)
              | Some (s2, out2, appended2, None) \<Rightarrow>
                  (case r of
                     ReadOK \<Rightarrow> fillLocked reads' s2 out2 pageSize appended2
                   | ReadEOF w \<Rightarrow>
                       (case finishEOFLocked s2 w of
                          (s3, Some err) \<Rightarrow> Some (s3, out2, Inl err)
                        | (s3, None) \<Rightarrow> Some (s3, out2, Inr appended2))
                   | ReadErr e \<Rightarrow> Some (s2, out2, Inl (Environment e))
                   | ReadCancelled e \<Rightarrow> Some (s2, out2, Inl (Environment e)))))"

declare fillLocked.simps [simp del]

section \<open>The operations\<close>

text \<open>The Boolean result is the source's \<open>stale\<close>.  A start under the cancelled spawn context fails.\<close>

definition snapshotSess :: "SpawnEnv \<Rightarrow> page_error + snapshot" where
  "snapshotSess env =
     (case sp_snapshot env of
        Inl e \<Rightarrow> Inl (Environment e)
      | Inr stdout \<Rightarrow> (case ParseRefSnapshot stdout of Inl e \<Rightarrow> Inl (SnapshotParse e) | Inr m \<Rightarrow> Inr m))"

definition spawnArgs :: "Session \<Rightarrow> argv" where
  "spawnArgs s =
     (if s_readCount s = 0 then LogSessionArgs (op_Walk (s_opts s))
      else LogSessionSkipArgs (op_Walk (s_opts s)) (int (s_readCount s)))"

definition spawnOrResumeLocked :: "Session \<Rightarrow> SpawnEnv \<Rightarrow> Session \<times> (page_error + bool)" where
  "spawnOrResumeLocked s env =
     (case snapshotSess env of
        Inl e \<Rightarrow> (s, Inl e)
      | Inr snap \<Rightarrow>
          (if s_readCount s \<noteq> 0 \<and> s_baseSnapshot s \<noteq> snap then (s, Inr True)
           else let s1 = (if s_readCount s = 0 then s\<lparr>s_baseSnapshot := snap\<rparr> else s)
             in if s_spawnCancelled s then (s1, Inl (Environment ''context canceled''))
                else case sp_start env of
                  Inl e \<Rightarrow> (s1, Inl (Environment e))
                | Inr output \<Rightarrow>
                    (s1\<lparr>s_proc := Some output, s_currentArgs := spawnArgs s,
                        s_splitter := NewRecordSplitter nul, s_grouper := NewFieldGrouper FieldCount\<rparr>,
                     Inr False)))"

definition armReclaimLocked :: "Session \<Rightarrow> Session" where
  "armReclaimLocked s = (if op_IdleReclaim (s_opts s) < 0 then s else s\<lparr>s_reclaimTimer := True\<rparr>)"

definition disarmReclaimLocked :: "Session \<Rightarrow> Session" where
  "disarmReclaimLocked s = s\<lparr>s_reclaimTimer := False\<rparr>"

text \<open>\<open>ReadPage\<close> after the process is there: drain the queue, fill the page, arm the timer.\<close>

definition pageBody ::
  "Session \<Rightarrow> (nat \<times> read_result) list \<Rightarrow> (Session \<times> CommitRecord list \<times> (page_error + Outcome)) option" where
  "pageBody s1 reads =
     (let pageSize = op_PageSize (s_opts s1); (s2, out, appended) = drainPendingLocked s1 pageSize
      in case fillLocked reads s2 out pageSize appended of
           None \<Rightarrow> None
         | Some (s3, out3, Inl e) \<Rightarrow> Some (s3, out3, Inl e)
         | Some (s3, out3, Inr n) \<Rightarrow>
             (let s4 = (if s_eof s3 then s3 else armReclaimLocked s3)
              in Some (s4, out3, Inr \<lparr>oc_Appended = n, oc_Exhausted = exhaustedLocked s4, oc_Stale = False\<rparr>)))"

definition ReadPage ::
  "Session \<Rightarrow> SpawnEnv \<Rightarrow> (nat \<times> read_result) list \<Rightarrow>
     (Session \<times> CommitRecord list \<times> (page_error + Outcome)) option" where
  "ReadPage s0 env reads =
     (let s = disarmReclaimLocked s0
      in case s_failed s of
           Some e \<Rightarrow> Some (s, [], Inl (Permanent e))
         | None \<Rightarrow>
             (if exhaustedLocked s
              then Some (s, [], Inr \<lparr>oc_Appended = 0, oc_Exhausted = True, oc_Stale = False\<rparr>)
              else case (if s_proc s = None \<and> \<not> s_eof s then spawnOrResumeLocked s env else (s, Inr False)) of
                (s1, Inl e) \<Rightarrow> Some (s1, [], Inl e)
              | (s1, Inr stale) \<Rightarrow>
                  (if stale
                   then Some (s1, [], Inr \<lparr>oc_Appended = 0, oc_Exhausted = False, oc_Stale = True\<rparr>)
                   else pageBody s1 reads)))"

text \<open>The idle timer's callback.\<close>

definition reclaim :: "Session \<Rightarrow> Session" where
  "reclaim s = s\<lparr>s_proc := None\<rparr>"

definition Close :: "Session \<Rightarrow> Session" where
  "Close s = (disarmReclaimLocked s)\<lparr>s_spawnCancelled := True, s_proc := None\<rparr>"

text \<open>\<open>counted\<close> is the output of \<^verbatim>\<open>rev-list --count\<close>, or its error.\<close>

definition countTotalArgs :: "Session \<Rightarrow> argv" where
  "countTotalArgs s = [''rev-list'', ''--count''] @ WalkArgs (op_Walk (s_opts s))"

definition countTotal :: "bytes + bytes \<Rightarrow> page_error + int" where
  "countTotal counted =
     (case counted of
        Inl e \<Rightarrow> Inl (Environment e)
      | Inr stdout \<Rightarrow>
          (case AtoiR (TrimSpace stdout) of
             Inl e \<Rightarrow> Inl (SnapshotParse (CountUnparseable stdout e))
           | Inr n \<Rightarrow> Inr n))"

definition Remaining :: "Session \<Rightarrow> bytes + bytes \<Rightarrow> Session \<times> (page_error + int)" where
  "Remaining s counted =
     (case op_PrecomputedTotal (s_opts s) of
        Some tot \<Rightarrow> (s, Inr (max 0 (tot - int (s_loadedCount s))))
      | None \<Rightarrow>
          (case s_cachedTotal s of
             Some tot \<Rightarrow> (s, Inr (max 0 (tot - int (s_loadedCount s))))
           | None \<Rightarrow>
               (case countTotal counted of
                  Inl e \<Rightarrow> (s, Inl e)
                | Inr tot \<Rightarrow>
                    (s\<lparr>s_cachedTotal := Some tot\<rparr>, Inr (max 0 (tot - int (s_loadedCount s)))))))"

definition LoadedCount :: "Session \<Rightarrow> nat" where
  "LoadedCount s = s_loadedCount s"

definition Exhausted :: "Session \<Rightarrow> bool" where
  "Exhausted s = exhaustedLocked s"

definition Failed :: "Session \<Rightarrow> bool" where
  "Failed s \<longleftrightarrow> s_failed s \<noteq> None"

section \<open>What git promises\<close>

text \<open>The bytes of a walk, and the walks git can print.\<close>

definition logStream :: "CommitRecord list \<Rightarrow> bytes" where
  "logStream cs = terminated nul (concat (map logFields cs))"

definition wfWalk :: "CommitRecord list \<Rightarrow> bool" where
  "wfWalk cs \<longleftrightarrow> list_all (\<lambda>c. wfCommit c
     \<and> list_all (\<lambda>f. nul \<notin> set f \<and> length f \<le> maxRemainderBytes) (logFields c)) cs"

text \<open>
  The repository is a state \<open>q\<close> the session never sees: its refs, but also \<^verbatim>\<open>HEAD\<close>, its objects and its
  configuration.  \<open>refsOf q\<close> is what \<^verbatim>\<open>for-each-ref\<close> shows of it, \<open>gitLog q argv\<close> what git prints for
  \<open>argv\<close> in it, and \<open>walkOf q\<close> the history it walks there.  Git's documented behaviour: the plain argv
  prints that history, \<open>--skip=k\<close> prints it without its first \<open>k\<close> commits.  Nothing is assumed about
  two states that show the same refs.
\<close>

definition gitLogLaw ::
  "('q \<Rightarrow> argv \<Rightarrow> bytes) \<Rightarrow> ('q \<Rightarrow> CommitRecord list) \<Rightarrow> WalkSpec \<Rightarrow> bool" where
  "gitLogLaw gitLog walkOf w \<longleftrightarrow>
     (\<forall>q. wfWalk (walkOf q) \<and> gitLog q (LogSessionArgs w) = logStream (walkOf q)
       \<and> (\<forall>k \<le> length (walkOf q). gitLog q (LogSessionSkipArgs w (int k)) = logStream (drop k (walkOf q))))"

text \<open>
  A page's environment is honest when the snapshot shows the refs of the state \<open>qa\<close> the repository is
  in at that moment, the spawned process prints what git prints in the state \<open>qb\<close> it is started in (a
  later moment: the repository may have changed in between), and a process exits cleanly only once
  all of its output has been read.
\<close>

fun honestReads :: "bytes \<Rightarrow> (nat \<times> read_result) list \<Rightarrow> bool" where
  "honestReads unread [] \<longleftrightarrow> True"
| "honestReads unread ((n, r) # reads) \<longleftrightarrow>
     (r = ReadEOF (Exited None) \<longrightarrow> drop n unread = []) \<and> honestReads (drop n unread) reads"

definition honestEnv ::
  "('q \<Rightarrow> snapshot) \<Rightarrow> ('q \<Rightarrow> argv \<Rightarrow> bytes) \<Rightarrow> 'q \<times> 'q \<Rightarrow> Session \<Rightarrow> SpawnEnv \<Rightarrow>
     (nat \<times> read_result) list \<Rightarrow> bool" where
  "honestEnv refsOf gitLog q s env reads \<longleftrightarrow>
     (case (s_proc s, snapshotSess env, sp_start env) of
        (Some unread, _, _) \<Rightarrow> honestReads unread reads
      | (None, Inr refs, Inr output) \<Rightarrow>
          refs = refsOf (fst q) \<and> output = gitLog (snd q) (spawnArgs s) \<and> honestReads output reads
      | _ \<Rightarrow> True)"

text \<open>
  The processes a walk is made of, by the two states their page saw.  A page that has to spawn adds
  its own when git started; while nothing has been read yet the walk begins anew, and the processes
  before it are forgotten.
\<close>

definition needsSpawn :: "Session \<Rightarrow> bool" where
  "needsSpawn s \<longleftrightarrow> s_failed s = None \<and> \<not> exhaustedLocked s \<and> s_proc s = None \<and> \<not> s_eof s"

definition spawned :: "Session \<Rightarrow> SpawnEnv \<Rightarrow> 'q \<Rightarrow> 'q list \<Rightarrow> 'q list" where
  "spawned s env q qs =
     (if needsSpawn s
      then (if s_readCount s = 0 then [] else qs)
           @ (if snd (spawnOrResumeLocked (disarmReclaimLocked s) env) = Inr False then [q] else [])
      else qs)"

text \<open>
  The runs of one session: pages in any honest environment, the reclaim timer firing at any moment
  (a stopped Go timer may still be about to run), \<open>Remaining\<close> and \<open>Close\<close>, in any order, while the
  repository changes in any way.  The first list is everything given to \<open>sink\<close> so far, the second the
  processes of the walk.
\<close>

inductive walkRun ::
  "('q \<Rightarrow> snapshot) \<Rightarrow> ('q \<Rightarrow> argv \<Rightarrow> bytes) \<Rightarrow> Options \<Rightarrow> Session \<Rightarrow> CommitRecord list \<Rightarrow> ('q \<times> 'q) list \<Rightarrow> bool"
  for refsOf gitLog opts where
  opened: "walkRun refsOf gitLog opts (Open opts) [] []"
| page: "walkRun refsOf gitLog opts s D qs \<Longrightarrow> honestEnv refsOf gitLog q s env reads \<Longrightarrow>
    ReadPage s env reads = Some (s', out, r) \<Longrightarrow> walkRun refsOf gitLog opts s' (D @ out) (spawned s env q qs)"
| idle: "walkRun refsOf gitLog opts s D qs \<Longrightarrow> walkRun refsOf gitLog opts (reclaim s) D qs"
| counting: "walkRun refsOf gitLog opts s D qs \<Longrightarrow> walkRun refsOf gitLog opts (fst (Remaining s counted)) D qs"
| closing: "walkRun refsOf gitLog opts s D qs \<Longrightarrow> walkRun refsOf gitLog opts (Close s) D qs"

section \<open>The walk invariant\<close>

definition sessStream :: "Session \<Rightarrow> RecordSplitter \<times> FieldGrouper" where
  "sessStream s = (s_splitter s, s_grouper s)"

definition walkInv :: "CommitRecord list \<Rightarrow> Session \<Rightarrow> CommitRecord list \<Rightarrow> bool" where
  "walkInv W s D \<longleftrightarrow>
     s_failed s = None \<and> s_loadedCount s = length D
     \<and> D @ s_pending s = take (s_readCount s) W
     \<and> s_readCount s \<le> length W
     \<and> (s_eof s \<longrightarrow> s_readCount s = length W)
     \<and> (case s_proc s of
          None \<Rightarrow> True
        | Some unread \<Rightarrow> \<not> s_eof s \<and> streamInv nul FieldCount (sessStream s)
            \<and> streamPend nul (sessStream s) @ unread
                = logStream (drop (s_readCount s) W))"

lemma logStream_append: "logStream (xs @ ys) = logStream xs @ logStream ys"
  by (simp add: logStream_def)

lemma length_logFields: "length (logFields c) = FieldCount"
  by (simp add: logFields_def FieldCount_def)

lemma wfWalk_field:
  "wfWalk W \<Longrightarrow> f \<in> set (concat (map logFields W)) \<Longrightarrow> nul \<notin> set f \<and> length f \<le> maxRemainderBytes"
  by (auto simp: wfWalk_def list_all_iff)

lemma wfWalk_drop: "wfWalk W \<Longrightarrow> wfWalk (drop k W)"
  by (auto simp: wfWalk_def list_all_iff dest: in_set_dropD)

lemma chunksOf_logFields: "chunksOf FieldCount (concat (map logFields W)) = (map logFields W, [])"
  by (rule chunksOf_concat) (auto simp: length_logFields, simp add: FieldCount_def)

lemma streamItems_logStream: "wfWalk W \<Longrightarrow> streamItems nul FieldCount (logStream W) = map logFields W"
proof -
  assume wf: "wfWalk W"
  have "SplitByte (logStream W) nul = concat (map logFields W) @ [[]]"
    using SplitByte_terminated [of "concat (map logFields W)" nul "[]"] wfWalk_field [OF wf]
    by (simp add: logStream_def)
  then show ?thesis by (simp add: streamItems_def chunksOf_logFields)
qed

text \<open>One chunk of an honest stream yields the next commits and leaves the rest of the stream.\<close>

lemma fieldStep_walk:
  assumes inv: "streamInv nul FieldCount sg" and wf: "wfWalk W"
    and eq: "streamPend nul sg @ chunk @ rest = logStream W"
  shows "\<exists>sg' k. fieldStep sg chunk = Some (sg', map logFields (take k W)) \<and> k \<le> length W
    \<and> streamInv nul FieldCount sg' \<and> streamPend nul sg' @ rest = logStream (drop k W)"
proof -
  let ?xs = "streamPend nul sg @ chunk"
  have eq': "?xs @ rest = logStream W" using eq by simp
  have "prefix ?xs (terminated nul (concat (map logFields W)))"
    using eq' unfolding logStream_def [symmetric] by (metis prefixI)
  then have "length (last (SplitByte ?xs nul)) \<le> maxRemainderBytes"
    by (rule last_SplitByte_prefix) (use wfWalk_field [OF wf] in auto)
  then have "fieldStep sg chunk \<noteq> None"
    by (intro fields.step_total [OF inv]) simp
  then obtain sg' os where st: "fieldStep sg chunk = Some (sg', os)" by auto
  note it = fields.step_items [OF inv st]
  have items: "map logFields W = os @ streamItems nul FieldCount (streamRest nul FieldCount ?xs @ rest)"
    using streamItems_logStream [OF wf] stream_append(1) [of nul FieldCount ?xs rest] eq' it by simp
  define k where "k = length os"
  have os: "os = map logFields (take k W)"
    using items by (metis append_eq_conv_conj k_def take_map)
  have k: "k \<le> length W"
    using arg_cong [OF items, of length] by (simp add: k_def)
  have "logStream (take k W) @ streamPend nul sg' = ?xs"
    using stream_conserves [of nul FieldCount ?xs] it os by (simp add: logStream_def)
  then have "logStream (take k W) @ streamPend nul sg' @ rest = logStream (take k W) @ logStream (drop k W)"
    using eq' logStream_append [of "take k W" "drop k W"] by (metis append_assoc append_take_drop_id)
  then show ?thesis using st os k it by auto
qed

lemma consumeRecords_ok:
  assumes "list_all wfCommit cs" and "k = min (length cs) (nat (ps - int app))"
  shows "consumeRecords ps (map logFields cs) s out app =
      (s\<lparr>s_readCount := s_readCount s + length cs, s_loadedCount := s_loadedCount s + k,
         s_pending := s_pending s @ drop k cs\<rparr>, out @ take k cs, app + k, None)"
  using assms
proof (induction cs arbitrary: s out app k)
  case (Cons c cs)
  then have p: "ParseLogRecord (logFields c) = Inr c" by (simp add: ParseLogRecord_logFields)
  show ?case
  proof (cases "int app < ps")
    case True
    then have "k = Suc (min (length cs) (nat (ps - int (app + 1))))"
      using Cons.prems(2) by (auto simp: min_def)
    then show ?thesis using True p Cons.prems(1) by (simp add: Let_def Cons.IH)
  next
    case False
    then have "k = 0" using Cons.prems(2) by simp
    then show ?thesis using False p Cons.prems(1) by (simp add: Let_def Cons.IH)
  qed
qed simp

lemma drainLoop_ok:
  assumes "k = min (length ps) (nat (pageSize - int app))"
  shows "drainLoop pageSize s out app ps =
    (s\<lparr>s_loadedCount := s_loadedCount s + k, s_pending := drop k ps\<rparr>, out @ take k ps, app + k)"
  using assms
proof (induction ps arbitrary: s out app k)
  case (Cons p ps)
  show ?case
  proof (cases "int app < pageSize")
    case True
    then have "k = Suc (min (length ps) (nat (pageSize - int (app + 1))))"
      using Cons.prems by (auto simp: min_def)
    then show ?thesis using True by (simp add: Cons.IH)
  next
    case False
    then show ?thesis using Cons.prems by simp
  qed
qed simp

lemma consumeChunk_fieldStep:
  assumes "fieldStep (sessStream s) chunk = Some ((sp, g), groups)"
  shows "consumeChunkLocked s chunk out pageSize app =
    Some (consumeRecords pageSize groups (s\<lparr>s_splitter := sp, s_grouper := g\<rparr>) out app)"
  using assms
  by (auto simp: consumeChunkLocked_def fieldStep_def splitterStep_def sessStream_def
      split: option.splits prod.splits)

text \<open>
  What one chunk does to a session whose pending queue is empty, the only state the read loop
  reads in.
\<close>

lemma consumeChunk_ok:
  assumes inv: "streamInv nul FieldCount (sessStream s)"
    and eq: "streamPend nul (sessStream s) @ chunk @ unread = logStream (drop (s_readCount s) W)"
    and wf: "wfWalk W"
    and st: "s_failed s = None" "s_loadedCount s = length (D @ out)" "D @ out = take (s_readCount s) W"
      "s_readCount s \<le> length W" "s_pending s = []" "s_proc s = Some unread" "\<not> s_eof s"
    and app: "app = length out" "int app \<le> pageSize"
  shows "\<exists>s' out'. consumeChunkLocked s chunk out pageSize app = Some (s', out', length out', None)
    \<and> walkInv W s' (D @ out') \<and> int (length out') \<le> pageSize
    \<and> (s_pending s' = [] \<or> int (length out') = pageSize) \<and> s_proc s' = Some unread
    \<and> \<not> s_eof s' \<and> s_baseSnapshot s' = s_baseSnapshot s \<and> s_opts s' = s_opts s"
proof -
  obtain sg' k where fs: "fieldStep (sessStream s) chunk = Some (sg', map logFields (take k (drop (s_readCount s) W)))"
    and k: "k \<le> length W - s_readCount s" and inv': "streamInv nul FieldCount sg'"
    and eq': "streamPend nul sg' @ unread = logStream (drop (s_readCount s + k) W)"
    using fieldStep_walk [OF inv wfWalk_drop [OF wf] eq] by (auto simp: add.commute)
  obtain sp g where sg': "sg' = (sp, g)" by (cases sg')
  let ?cs = "take k (drop (s_readCount s) W)"
  have "list_all wfCommit ?cs"
    using wf by (auto simp: wfWalk_def list_all_iff dest: in_set_takeD in_set_dropD)
  note run = consumeRecords_ok [OF this refl, where ps = pageSize and app = app and s = "s\<lparr>s_splitter := sp, s_grouper := g\<rparr>" and out = out]
  have len: "length ?cs = k" using k by simp
  have rc: "s_readCount s = length D + length out" "s_readCount s + k \<le> length W"
    using arg_cong [OF st(3), of length] st(4) k by auto
  let ?j = "min k (nat (pageSize - int app))"
  have "D @ (out @ take ?j ?cs) @ drop ?j ?cs = take (s_readCount s + k) W"
    using st(3) by (metis append_assoc append_take_drop_id take_add)
  moreover define s' where "s' = s\<lparr>s_splitter := sp, s_grouper := g, s_readCount := s_readCount s + k,
      s_loadedCount := s_loadedCount s + ?j, s_pending := drop ?j ?cs\<rparr>"
  moreover have "length (take ?j ?cs) = ?j" using len by simp
  ultimately have "walkInv W s' (D @ out @ take ?j ?cs)"
    using st(1,2,6,7) rc eq' inv' by (simp add: walkInv_def sessStream_def sg')
  moreover have "consumeChunkLocked s chunk out pageSize app = Some (s', out @ take ?j ?cs, length (out @ take ?j ?cs), None)"
    using consumeChunk_fieldStep [OF fs [unfolded sg'], of out pageSize app] run st app len
    by (simp add: s'_def)
  moreover have "int (length (out @ take ?j ?cs)) \<le> pageSize"
    "s_pending s' = [] \<or> int (length (out @ take ?j ?cs)) = pageSize"
    using app len by (auto simp: s'_def min_def)
  moreover have "s_proc s' = Some unread \<and> \<not> s_eof s' \<and> s_baseSnapshot s' = s_baseSnapshot s \<and> s_opts s' = s_opts s"
    using st by (simp add: s'_def)
  ultimately show ?thesis by blast
qed

text \<open>The end of an honest stream: the session is drained, or git's own failure is reported.\<close>

lemma finishEOF_ok:
  assumes inv: "walkInv W s D" and p: "s_proc s = Some unread" and wf: "wfWalk W"
    and hon: "w = Exited None \<Longrightarrow> unread = []" and fin: "finishEOFLocked s w = (s', e)"
  shows "walkInv W s' D \<and> s_baseSnapshot s' = s_baseSnapshot s \<and> s_opts s' = s_opts s
    \<and> s_pending s' = s_pending s \<and> (case e of None \<Rightarrow> s_eof s' | Some pe \<Rightarrow> \<exists>t. pe = Environment t)"
proof -
  have st: "streamInv nul FieldCount (sessStream s)" and
    eq: "streamPend nul (sessStream s) @ unread = logStream (drop (s_readCount s) W)"
    using inv p by (simp_all add: walkInv_def)
  have drained: "s_readCount s = length W \<and> rs_remainder (s_splitter s) = [] \<and> fg_pending (s_grouper s) = []"
    if "unread = []"
  proof -
    have "streamItems nul FieldCount (logStream (drop (s_readCount s) W)) = []"
      using fields.items_pend [OF st] eq that by simp
    then have "drop (s_readCount s) W = []"
      using streamItems_logStream [OF wfWalk_drop [OF wf]] by simp
    then show ?thesis
      using eq that inv by (auto simp: logStream_def streamPend_def terminated_def sessStream_def walkInv_def)
  qed
  show ?thesis
  proof (cases w)
    case (WaitErr x)
    then show ?thesis
      using fin inv p by (auto simp: finishEOFLocked_def Let_def walkInv_def split: prod.splits option.splits)
  next
    case (Exited c)
    show ?thesis
    proof (cases c)
      case None
      then show ?thesis
        using fin inv p drained [OF hon] Exited
        by (auto simp: finishEOFLocked_def RecordSplitter_Flush_def FieldGrouper_Flush_def Let_def walkInv_def)
    next
      case (Some x)
      then show ?thesis
        using fin inv p Exited by (auto simp: finishEOFLocked_def Let_def walkInv_def split: prod.splits option.splits)
    qed
  qed
qed

text \<open>One read that is not cancelled, and the chunk it returned.\<close>

lemma read_and_consume_ok:
  assumes inv: "walkInv W s (D @ out)" and wf: "wfWalk W"
    and u: "s_proc s = Some u" and pend: "s_pending s = []"
    and app: "app = length out" "int app \<le> pageSize" and s1: "s1 = s\<lparr>s_proc := Some (drop n u)\<rparr>"
  shows "\<exists>s2 out2. (if take n u = [] then Some (s1, out, app, None)
        else consumeChunkLocked s1 (take n u) out pageSize app) = Some (s2, out2, length out2, None)
    \<and> walkInv W s2 (D @ out2) \<and> int (length out2) \<le> pageSize
    \<and> (s_pending s2 = [] \<or> int (length out2) = pageSize) \<and> s_proc s2 = Some (drop n u)
    \<and> \<not> s_eof s2 \<and> s_baseSnapshot s2 = s_baseSnapshot s \<and> s_opts s2 = s_opts s"
proof (cases "take n u = []")
  case True
  then have "drop n u = u" by (metis append_Nil append_take_drop_id)
  then have "s1 = s" using u s1 by simp
  then show ?thesis using True inv u pend app by (auto simp: walkInv_def)
next
  case False
  have "D @ out = take (s_readCount s1) W"
    using inv pend by (simp add: walkInv_def s1)
  moreover have "streamInv nul FieldCount (sessStream s1)"
    "streamPend nul (sessStream s1) @ take n u @ drop n u = logStream (drop (s_readCount s1) W)"
    "s_failed s1 = None" "s_readCount s1 \<le> length W"
    "s_pending s1 = []" "s_proc s1 = Some (drop n u)" "\<not> s_eof s1"
    using inv u pend by (simp_all add: walkInv_def s1 sessStream_def)
  moreover have "s_loadedCount s = length (D @ out)" using inv unfolding walkInv_def by blast
  then have "s_loadedCount s1 = length (D @ out)" by (simp add: s1)
  moreover have b: "s_baseSnapshot s1 = s_baseSnapshot s" "s_opts s1 = s_opts s" by (simp_all add: s1)
  ultimately have "\<exists>s' out'. consumeChunkLocked s1 (take n u) out pageSize app = Some (s', out', length out', None)
    \<and> walkInv W s' (D @ out') \<and> int (length out') \<le> pageSize
    \<and> (s_pending s' = [] \<or> int (length out') = pageSize) \<and> s_proc s' = Some (drop n u)
    \<and> \<not> s_eof s' \<and> s_baseSnapshot s' = s_baseSnapshot s1 \<and> s_opts s' = s_opts s1"
    using wf app by (intro consumeChunk_ok) auto
  then show ?thesis using False b by auto
qed

lemma fillLocked_read:
  assumes "\<not> s_eof s" and "int app < pageSize \<or> s_pending s = []"
    and "readChunkLocked s n rr = (s1, chunk)"
    and "(if chunk = [] then Some (s1, out, app, None)
          else consumeChunkLocked s1 chunk out pageSize app) = Some (s2, out2, app2, None)"
  shows "fillLocked ((n, rr) # reads) s out pageSize app =
      (case rr of
         ReadOK \<Rightarrow> fillLocked reads s2 out2 pageSize app2
       | ReadEOF w \<Rightarrow> (case finishEOFLocked s2 w of
           (s3, Some err) \<Rightarrow> Some (s3, out2, Inl err) | (s3, None) \<Rightarrow> Some (s3, out2, Inr app2))
       | ReadErr e \<Rightarrow> Some (s2, out2, Inl (Environment e))
       | ReadCancelled e \<Rightarrow> Some (s2, out2, Inl (Environment e)))"
  unfolding fillLocked.simps [of "(n, rr) # reads"] using assms by (simp split del: if_split)

lemma fillLocked_fails:
  assumes "\<not> s_eof s" and "int app < pageSize \<or> s_pending s = []"
    and "readChunkLocked s n rr = (s1, chunk)"
    and "(if chunk = [] then Some (s1, out, app, None)
          else consumeChunkLocked s1 chunk out pageSize app) = Some (s2, out2, app2, Some err)"
  shows "fillLocked ((n, rr) # reads) s out pageSize app = Some (s2, out2, Inl err)"
  unfolding fillLocked.simps [of "(n, rr) # reads"] using assms by (simp split del: if_split)

lemma fillLocked_ok:
  assumes "fillLocked reads s out pageSize app = Some (s', out', r)"
    and "walkInv W s (D @ out)" and "wfWalk W"
    and "app = length out" and "int app \<le> pageSize" and "s_pending s = [] \<or> int app = pageSize"
    and "s_eof s \<or> (\<exists>u. s_proc s = Some u \<and> honestReads u reads)"
  shows "walkInv W s' (D @ out') \<and> s_baseSnapshot s' = s_baseSnapshot s \<and> s_opts s' = s_opts s
    \<and> int (length out') \<le> pageSize
    \<and> (case r of Inl e \<Rightarrow> \<exists>t. e = Environment t
        | Inr n \<Rightarrow> n = length out' \<and> (exhaustedLocked s' \<or> int n = pageSize \<and> s_pending s' \<noteq> []))"
  using assms
proof (induction reads arbitrary: s out app)
  case Nil
  then show ?case
    by (subst (asm) fillLocked.simps) (auto simp: exhaustedLocked_def split: if_splits)
next
  case (Cons rd reads)
  obtain n rr where rd: "rd = (n, rr)" by (cases rd)
  consider (finished) "s_eof s \<or> \<not> (int app < pageSize \<or> s_pending s = [])"
    | (cancelled) e where "rr = ReadCancelled e" "\<not> s_eof s" "int app < pageSize \<or> s_pending s = []"
    | (chunk) "\<nexists>e. rr = ReadCancelled e" "\<not> s_eof s" "int app < pageSize \<or> s_pending s = []"
    by blast
  then show ?case
  proof cases
    case finished
    then show ?thesis
      using Cons.prems by (subst (asm) fillLocked.simps) (auto simp: exhaustedLocked_def)
  next
    case cancelled
    then show ?thesis
      using Cons.prems rd by (subst (asm) fillLocked.simps) (auto simp: readChunkLocked_def walkInv_def)
  next
    case chunk
    obtain u where u: "s_proc s = Some u" and hon: "honestReads u (rd # reads)"
      using Cons.prems(7) chunk by auto
    define s1 where "s1 = s\<lparr>s_proc := Some (drop n u)\<rparr>"
    have rc: "readChunkLocked s n rr = (s1, take n u)"
      using chunk u by (cases rr) (auto simp: readChunkLocked_def s1_def)
    obtain s2 out2 where step: "(if take n u = [] then Some (s1, out, app, None)
              else consumeChunkLocked s1 (take n u) out pageSize app) = Some (s2, out2, length out2, None)"
      and s2: "walkInv W s2 (D @ out2)" "int (length out2) \<le> pageSize"
          "s_pending s2 = [] \<or> int (length out2) = pageSize" "s_proc s2 = Some (drop n u)"
          "\<not> s_eof s2" "s_baseSnapshot s2 = s_baseSnapshot s" "s_opts s2 = s_opts s"
      using read_and_consume_ok [OF Cons.prems(2,3) u _ Cons.prems(4,5) s1_def] Cons.prems(6) chunk by auto
    note run = fillLocked_read [OF chunk(2,3) rc step, of reads, folded rd]
    show ?thesis
    proof (cases rr)
      case ReadOK
      then have "fillLocked reads s2 out2 pageSize (length out2) = Some (s', out', r)"
        using run Cons.prems(1) by simp
      from Cons.IH [OF this s2(1) _ refl s2(2,3)] show ?thesis
        using s2 hon rd Cons.prems(3) by simp
    next
      case (ReadEOF w)
      obtain s3 e where fin: "finishEOFLocked s2 w = (s3, e)" by (cases "finishEOFLocked s2 w")
      have "w = Exited None \<Longrightarrow> drop n u = []" using hon rd ReadEOF by simp
      from finishEOF_ok [OF s2(1,4) _ this fin] show ?thesis
        using run fin ReadEOF s2 Cons.prems(1,3) by (cases e) (auto simp: exhaustedLocked_def)
    qed (use run s2 Cons.prems(1) chunk in auto)
  qed
qed

section \<open>Runs of a session\<close>

lemma disarm_simps [simp]:
  "s_failed (disarmReclaimLocked s) = s_failed s" "exhaustedLocked (disarmReclaimLocked s) = exhaustedLocked s"
  "s_proc (disarmReclaimLocked s) = s_proc s" "s_eof (disarmReclaimLocked s) = s_eof s"
  "s_opts (disarmReclaimLocked s) = s_opts s" "s_baseSnapshot (disarmReclaimLocked s) = s_baseSnapshot s"
  "s_readCount (disarmReclaimLocked s) = s_readCount s" "spawnArgs (disarmReclaimLocked s) = spawnArgs s"
  "walkInv W (disarmReclaimLocked s) D = walkInv W s D"
  by (simp_all add: disarmReclaimLocked_def exhaustedLocked_def walkInv_def sessStream_def
      spawnArgs_def split: option.split)

lemma ReadPage_body:
  assumes "s_failed s = None" and "\<not> exhaustedLocked s"
  shows "ReadPage s env reads =
    (case (if s_proc s = None \<and> \<not> s_eof s then spawnOrResumeLocked (disarmReclaimLocked s) env
           else (disarmReclaimLocked s, Inr False)) of
       (s1, Inl e) \<Rightarrow> Some (s1, [], Inl e)
     | (s1, Inr stale) \<Rightarrow>
         (if stale then Some (s1, [], Inr \<lparr>oc_Appended = 0, oc_Exhausted = False, oc_Stale = True\<rparr>)
          else pageBody s1 reads))"
  using assms by (simp add: ReadPage_def Let_def split del: if_split)

text \<open>What a page that found its process reports, and what it keeps.\<close>

definition pageOK ::
  "CommitRecord list \<Rightarrow> Session \<Rightarrow> CommitRecord list \<Rightarrow> Session \<Rightarrow> CommitRecord list \<Rightarrow>
     page_error + Outcome \<Rightarrow> bool" where
  "pageOK W s D s' out r \<longleftrightarrow>
     walkInv W s' (D @ out) \<and> s_opts s' = s_opts s \<and> int (length out) \<le> op_PageSize (s_opts s)
     \<and> (case r of
          Inl e \<Rightarrow> (\<forall>pe. e \<noteq> Permanent pe)
        | Inr oc \<Rightarrow> oc_Appended oc = length out \<and> oc_Exhausted oc = exhaustedLocked s'
            \<and> (oc_Stale oc \<or> oc_Exhausted oc
              \<or> int (length out) = op_PageSize (s_opts s) \<and> s_pending s' \<noteq> []))"

lemma pageBody_ok:
  assumes inv: "walkInv W s D" and wf: "wfWalk W"
    and pos: "0 < op_PageSize (s_opts s)"
    and pr: "s_eof s \<or> (\<exists>u. s_proc s = Some u \<and> honestReads u reads)"
    and run: "pageBody s reads = Some (s', out', r)"
  shows "pageOK W s D s' out' r"
proof -
  let ?ps = "op_PageSize (s_opts s)"
  let ?k = "min (length (s_pending s)) (nat ?ps)"
  define s2 where "s2 = s\<lparr>s_loadedCount := s_loadedCount s + ?k, s_pending := drop ?k (s_pending s)\<rparr>"
  have drain: "drainPendingLocked s ?ps = (s2, take ?k (s_pending s), ?k)"
    by (simp add: drainPendingLocked_def s2_def drainLoop_ok [where k = ?k])
  have "walkInv W s2 (D @ take ?k (s_pending s))"
    using inv by (simp add: walkInv_def s2_def sessStream_def split: option.splits)
  moreover obtain s3 r3 where fill: "fillLocked reads s2 (take ?k (s_pending s)) ?ps ?k = Some (s3, out', r3)"
    and r3: "(case r3 of Inl e \<Rightarrow> s' = s3 \<and> r = Inl e
        | Inr n \<Rightarrow> s' = (if s_eof s3 then s3 else armReclaimLocked s3)
            \<and> r = Inr \<lparr>oc_Appended = n, oc_Exhausted = exhaustedLocked s', oc_Stale = False\<rparr>)"
    using run by (auto simp: pageBody_def drain Let_def split: option.splits sum.splits prod.splits)
  moreover have "length (take ?k (s_pending s)) = ?k" "int ?k \<le> ?ps"
    "s_pending s2 = [] \<or> int ?k = ?ps"
    using pos by (auto simp: s2_def min_def)
  moreover have "s_eof s2 = s_eof s" "s_proc s2 = s_proc s" "s_baseSnapshot s2 = s_baseSnapshot s" "s_opts s2 = s_opts s"
    by (simp_all add: s2_def)
  ultimately have "walkInv W s3 (D @ out') \<and> s_opts s3 = s_opts s \<and> int (length out') \<le> ?ps
    \<and> (case r3 of Inl e \<Rightarrow> \<exists>t. e = Environment t
        | Inr n \<Rightarrow> n = length out' \<and> (exhaustedLocked s3 \<or> int n = ?ps \<and> s_pending s3 \<noteq> []))"
    using fillLocked_ok [OF fill] wf pr by (metis (no_types, lifting))
  moreover have "walkInv W s3 (D @ out') \<Longrightarrow> walkInv W (armReclaimLocked s3) (D @ out')"
    "exhaustedLocked (armReclaimLocked s3) = exhaustedLocked s3" "s_pending (armReclaimLocked s3) = s_pending s3" "s_opts (armReclaimLocked s3) = s_opts s3"
    by (simp_all add: walkInv_def armReclaimLocked_def sessStream_def exhaustedLocked_def split: option.splits)
  ultimately show ?thesis
    using r3 by (cases r3) (auto simp: pageOK_def)
qed

lemma spawn_ok:
  assumes inv: "walkInv W s D" and law: "gitLogLaw gitLog walkOf (op_Walk (s_opts s))"
    and idle: "s_proc s = None" "\<not> s_eof s" and hon: "honestEnv refsOf gitLog q s env reads"
    and run: "spawnOrResumeLocked s env = (s1, res)"
    and same: "res = Inr False \<Longrightarrow> walkOf (snd q) = W"
  shows "walkInv W s1 D \<and> s_opts s1 = s_opts s \<and> \<not> s_eof s1 \<and> exhaustedLocked s1 = exhaustedLocked s
    \<and> (case res of
         Inl e \<Rightarrow> (\<forall>pe. e \<noteq> Permanent pe)
       | Inr stale \<Rightarrow> stale \<or> (\<exists>u. s_proc s1 = Some u \<and> honestReads u reads))"
proof (cases "snapshotSess env")
  case (Inl e)
  moreover have "e \<noteq> Permanent pe" for pe
    using Inl by (auto simp: snapshotSess_def split: sum.splits)
  ultimately show ?thesis using run inv idle by (auto simp: spawnOrResumeLocked_def)
next
  case (Inr snap)
  show ?thesis
  proof (cases "s_readCount s \<noteq> 0 \<and> s_baseSnapshot s \<noteq> snap")
    case True
    then show ?thesis using Inr run inv idle by (auto simp: spawnOrResumeLocked_def)
  next
    case False
    define s' where "s' = (if s_readCount s = 0 then s\<lparr>s_baseSnapshot := snap\<rparr> else s)"
    have s': "walkInv W s' D" "s_baseSnapshot s' = snap" "s_readCount s' = s_readCount s" "s_opts s' = s_opts s"
        "s_proc s' = None" "\<not> s_eof s'" "exhaustedLocked s' = exhaustedLocked s"
      using inv False idle by (auto simp: s'_def walkInv_def exhaustedLocked_def)
    show ?thesis
    proof (cases "s_spawnCancelled s \<or> (\<exists>e. sp_start env = Inl e)")
      case True
      then have "s1 = s' \<and> (\<exists>t. res = Inl (Environment t))"
        using run Inr False by (auto simp: spawnOrResumeLocked_def s'_def Let_def split: if_splits)
      then show ?thesis using s' by auto
    next
      case start: False
      then obtain printed where o: "sp_start env = Inr printed" by (cases "sp_start env") auto
      have s1: "s1 = s'\<lparr>s_proc := Some printed, s_currentArgs := spawnArgs s,
          s_splitter := NewRecordSplitter nul, s_grouper := NewFieldGrouper FieldCount\<rparr>" and res: "res = Inr False"
        using run Inr False start o by (auto simp: spawnOrResumeLocked_def s'_def Let_def)
      have "printed = gitLog (snd q) (spawnArgs s)" and rd: "honestReads printed reads"
        using hon idle Inr o by (auto simp: honestEnv_def)
      moreover have "s_readCount s \<le> length W" using s' by (simp add: walkInv_def)
      ultimately have out: "printed = logStream (drop (s_readCount s) W)"
        using law same [OF res] by (simp add: gitLogLaw_def spawnArgs_def)
      have fresh: "streamInv nul FieldCount (NewRecordSplitter nul, NewFieldGrouper FieldCount)"
        "streamPend nul (NewRecordSplitter nul, NewFieldGrouper FieldCount) = []"
        by (simp_all add: streamInv_def splitterInv_def grouperInv_def streamPend_def
            NewRecordSplitter_def NewFieldGrouper_def FieldCount_def)
      show ?thesis
        using s1 s' out fresh rd res by (simp add: walkInv_def sessStream_def exhaustedLocked_def)
    qed
  qed
qed

lemma honestEnv_disarm:
  "honestEnv refsOf gitLog q s env reads \<Longrightarrow> honestEnv refsOf gitLog q (disarmReclaimLocked s) env reads"
  unfolding honestEnv_def disarm_simps .

lemma ReadPage_ok:
  assumes inv: "walkInv W s D" and law: "gitLogLaw gitLog walkOf (op_Walk (s_opts s))"
    and pos: "0 < op_PageSize (s_opts s)" and hon: "honestEnv refsOf gitLog q s env reads" and wf: "wfWalk W"
    and run: "ReadPage s env reads = Some (s', out, r)"
    and same: "needsSpawn s \<Longrightarrow> snd (spawnOrResumeLocked (disarmReclaimLocked s) env) = Inr False \<Longrightarrow> walkOf (snd q) = W"
  shows "pageOK W s D s' out r"
proof (cases "exhaustedLocked s")
  case True
  moreover have "s_failed s = None" using inv by (simp add: walkInv_def)
  ultimately show ?thesis
    using run inv pos by (auto simp: ReadPage_def Let_def pageOK_def)
next
  case False
  have fl: "s_failed s = None" using inv by (simp add: walkInv_def)
  let ?d = "disarmReclaimLocked s"
  show ?thesis
  proof (cases "s_proc s = None \<and> \<not> s_eof s")
    case True
    obtain s1 res where sp: "spawnOrResumeLocked ?d env = (s1, res)" by (cases "spawnOrResumeLocked ?d env")
    have "res = Inr False \<Longrightarrow> walkOf (snd q) = W" using same sp True fl False by (simp add: needsSpawn_def)
    note ok = spawn_ok [where W = W and D = D and walkOf = walkOf, OF _ _ _ _ honestEnv_disarm [OF hon] sp, OF _ _ _ _ this]
    show ?thesis
    proof (cases res)
      case (Inl e)
      then show ?thesis
        using ok inv law True run pos sp False by (auto simp: ReadPage_body [OF fl False] pageOK_def)
    next
      case (Inr stale)
      have s1: "walkInv W s1 D \<and> s_opts s1 = s_opts s \<and> \<not> exhaustedLocked s1
          \<and> (stale \<or> (\<exists>u. s_proc s1 = Some u \<and> honestReads u reads))"
        using ok inv law True Inr False by simp
      show ?thesis
      proof (cases stale)
        case True
        then show ?thesis
          using run s1 pos sp Inr \<open>s_proc s = None \<and> \<not> s_eof s\<close> by (auto simp: ReadPage_body [OF fl False] pageOK_def)
      next
        case st: False
        then have "pageBody s1 reads = Some (s', out, r)"
          using run sp Inr True by (simp add: ReadPage_body [OF fl False])
        then have "pageOK W s1 D s' out r"
          using pageBody_ok [of W s1 D reads s' out r] s1 st wf pos by simp
        then show ?thesis using s1 by (cases r) (auto simp: pageOK_def)
      qed
    qed
  next
    case there: False
    then have "pageBody ?d reads = Some (s', out, r)"
      using run by (auto simp: ReadPage_body [OF fl False])
    moreover have "s_eof ?d \<or> (\<exists>u. s_proc ?d = Some u \<and> honestReads u reads)"
      using there hon by (auto simp: honestEnv_def split: option.splits)
    ultimately have "pageOK W ?d D s' out r"
      using pageBody_ok [of W ?d D reads s' out r] inv wf pos by simp
    then show ?thesis by (cases r) (auto simp: pageOK_def)
  qed
qed

definition pageSizeOf :: "Options \<Rightarrow> int" where
  "pageSizeOf opts = (if op_PageSize opts \<le> 0 then DefaultPageSize else op_PageSize opts)"

text \<open>What an operation keeps whatever the process prints.\<close>

definition streamOk :: "Session \<Rightarrow> bool" where
  "streamOk s \<longleftrightarrow> (s_proc s \<noteq> None \<longrightarrow> streamInv nul FieldCount (sessStream s))"

definition keeps :: "Session \<Rightarrow> Session \<Rightarrow> bool" where
  "keeps s s' \<longleftrightarrow> s_readCount s \<le> s_readCount s' \<and> s_baseSnapshot s' = s_baseSnapshot s
     \<and> s_opts s' = s_opts s \<and> (streamOk s \<longrightarrow> streamOk s')"

lemma keeps_refl [simp]: "keeps s s"
  by (simp add: keeps_def)

lemma keeps_trans: "keeps s t \<Longrightarrow> keeps t u \<Longrightarrow> keeps s u"
  by (auto simp: keeps_def)

lemma keeps_simps [simp]:
  "keeps s (disarmReclaimLocked s)" "keeps s (reclaim s)" "keeps s (Close s)" "keeps s (armReclaimLocked s)"
  "keeps s (s\<lparr>s_loadedCount := l, s_pending := ps\<rparr>)" "keeps s (s\<lparr>s_proc := None\<rparr>)"
  "keeps s (fst (Remaining s counted))"
  by (auto simp: keeps_def streamOk_def sessStream_def disarmReclaimLocked_def reclaim_def Close_def
      armReclaimLocked_def Remaining_def split: option.split sum.split)

lemma consumeRecords_keeps:
  "consumeRecords ps gs s out app = (s', out', app', e) \<Longrightarrow>
     s_readCount s \<le> s_readCount s' \<and> s_baseSnapshot s' = s_baseSnapshot s \<and> s_opts s' = s_opts s
     \<and> sessStream s' = sessStream s \<and> s_proc s' = (if e = None then s_proc s else None)"
proof (induction gs arbitrary: s out app)
  case (Cons g gs)
  show ?case
  proof (cases "ParseLogRecord g")
    case (Inr c)
    then show ?thesis using Cons.prems by (auto simp: Let_def sessStream_def dest!: Cons.IH split: if_splits)
  qed (use Cons.prems in \<open>auto simp: failLocked_def sessStream_def\<close>)
qed (simp add: sessStream_def)

lemma consumeChunk_keeps:
  assumes "streamInv nul FieldCount (sessStream s)" and "consumeChunkLocked s chunk out ps app = Some (s', out', app', e)"
  shows "keeps s s'"
proof (cases "fieldStep (sessStream s) chunk")
  case None
  then show ?thesis
    using assms(2) by (auto simp: consumeChunkLocked_def fieldStep_def splitterStep_def sessStream_def failLocked_def keeps_def
        streamOk_def split: prod.splits option.splits)
next
  case (Some r)
  obtain sp g gs where r: "r = ((sp, g), gs)" by (metis surj_pair)
  then have "streamInv nul FieldCount (sp, g)" using fields.step_items [OF assms(1)] Some by blast
  moreover have "consumeRecords ps gs (s\<lparr>s_splitter := sp, s_grouper := g\<rparr>) out app = (s', out', app', e)"
    using consumeChunk_fieldStep [OF Some [unfolded r]] assms(2) by simp
  ultimately show ?thesis
    by (auto simp: keeps_def streamOk_def sessStream_def dest!: consumeRecords_keeps split: if_splits)
qed

lemma finishEOF_keeps: "finishEOFLocked s w = (s', e) \<Longrightarrow> keeps s s'"
  by (auto simp: finishEOFLocked_def Let_def failLocked_def keeps_def streamOk_def
      split: prod.splits option.splits wait_result.splits)

lemma readChunk_keeps:
  "readChunkLocked s n rr = (s1, chunk) \<Longrightarrow> keeps s s1 \<and> (chunk \<noteq> [] \<longrightarrow> s_proc s1 \<noteq> None)"
  by (auto simp: readChunkLocked_def keeps_def streamOk_def sessStream_def split: read_result.splits option.splits)

lemma fillLocked_keeps:
  "fillLocked reads s out ps app = Some (s', out', r) \<Longrightarrow> streamOk s \<Longrightarrow> keeps s s'"
proof (induction reads arbitrary: s out app)
  case Nil
  then show ?case by (subst (asm) fillLocked.simps) (auto split: if_splits)
next
  case (Cons rd reads)
  show ?case
  proof (cases "s_eof s \<or> \<not> (int app < ps \<or> s_pending s = [])")
    case True
    then show ?thesis using Cons.prems by (subst (asm) fillLocked.simps) auto
  next
    case False
    obtain n rr where rd: "rd = (n, rr)" by (cases rd)
    obtain s1 chunk where rc: "readChunkLocked s n rr = (s1, chunk)" by (cases "readChunkLocked s n rr")
    note k1 = readChunk_keeps [OF rc]
    then have ok1: "streamOk s1" using Cons.prems(2) by (simp add: keeps_def)
    let ?step = "if chunk = [] then Some (s1, out, app, None) else consumeChunkLocked s1 chunk out ps app"
    obtain s2 out2 app2 e where step: "?step = Some (s2, out2, app2, e)"
      using Cons.prems(1) False rd rc
      by (subst (asm) fillLocked.simps) (cases ?step, auto split del: if_split)
    have k2: "keeps s s2"
    proof (cases "chunk = []")
      case True
      then show ?thesis using step k1 by simp
    next
      case ne: False
      then have "streamInv nul FieldCount (sessStream s1)" using ok1 k1 by (simp add: streamOk_def)
      then have "keeps s1 s2" by (rule consumeChunk_keeps) (use step ne in simp)
      then show ?thesis using k1 keeps_trans by blast
    qed
    then have ok2: "streamOk s2" using Cons.prems(2) by (simp add: keeps_def)
    show ?thesis
    proof (cases e)
      case (Some err)
      then show ?thesis
        using fillLocked_fails [OF _ _ rc, of app ps out s2 out2 app2 err reads] step Cons.prems(1) False rd k2 by auto
    next
      case None
      note run = fillLocked_read [OF _ _ rc step [unfolded None], of reads, folded rd]
      show ?thesis
      proof (cases rr)
        case ReadOK
        then have "keeps s2 s'" using run Cons.IH [of s2 out2 app2] Cons.prems(1) False ok2 by simp
        then show ?thesis using keeps_trans k2 by blast
      next
        case (ReadEOF w)
        obtain s3 x where fin: "finishEOFLocked s2 w = (s3, x)" by (cases "finishEOFLocked s2 w")
        then have "s' = s3" using run Cons.prems(1) False ReadEOF by (cases x) auto
        then show ?thesis using finishEOF_keeps [OF fin] keeps_trans k2 by blast
      qed (use run Cons.prems(1) False k2 in auto)
    qed
  qed
qed

lemma pageBody_keeps:
  assumes "pageBody s reads = Some (s', out, r)" and "streamOk s"
  shows "keeps s s'"
proof -
  obtain s2 out2 app where dr: "drainPendingLocked s (op_PageSize (s_opts s)) = (s2, out2, app)"
    by (cases "drainPendingLocked s (op_PageSize (s_opts s))")
  then have k2: "keeps s s2" unfolding drainPendingLocked_def drainLoop_ok [OF refl] by auto
  then have ok: "streamOk s2" using assms(2) by (simp add: keeps_def)
  obtain s3 out3 r3 where fl: "fillLocked reads s2 out2 (op_PageSize (s_opts s)) app = Some (s3, out3, r3)"
    and "s' = s3 \<or> s' = armReclaimLocked s3"
    using assms(1) by (auto simp: pageBody_def dr Let_def split: option.splits sum.splits if_splits)
  then show ?thesis using fillLocked_keeps [OF fl ok] k2 keeps_trans keeps_simps(4) by metis
qed

text \<open>A spawn records the snapshot while nothing has been read, and refuses a different one afterwards.\<close>

lemma spawn_snapshot:
  assumes "spawnOrResumeLocked s env = (s1, res)"
  shows "s_readCount s1 = s_readCount s \<and> s_opts s1 = s_opts s \<and> s_eof s1 = s_eof s \<and> s_failed s1 = s_failed s
    \<and> s_loadedCount s1 = s_loadedCount s \<and> s_pending s1 = s_pending s
    \<and> (s_readCount s = 0 \<or> s_baseSnapshot s1 = s_baseSnapshot s)
    \<and> (res = Inr False \<longrightarrow> snapshotSess env = Inr (s_baseSnapshot s1) \<and> sp_start env = Inr (the (s_proc s1))
        \<and> streamOk s1)
    \<and> (res \<noteq> Inr False \<longrightarrow> s_proc s1 = s_proc s)"
  using assms
  by (auto simp: spawnOrResumeLocked_def Let_def streamOk_def sessStream_def streamInv_def splitterInv_def
      grouperInv_def NewRecordSplitter_def NewFieldGrouper_def FieldCount_def split: sum.splits if_splits)

text \<open>The invariant of a run: the first part holds however the repository changes.\<close>

definition runInv ::
  "('q \<Rightarrow> snapshot) \<Rightarrow> Session \<Rightarrow> ('q \<times> 'q) list \<Rightarrow> bool" where
  "runInv refsOf s qs \<longleftrightarrow>
     (\<forall>q \<in> set qs. refsOf (fst q) = s_baseSnapshot s) \<and> (s_readCount s = 0 \<longrightarrow> length qs \<le> 1) \<and> streamOk s"

definition sameWalk :: "('q \<Rightarrow> CommitRecord list) \<Rightarrow> ('q \<times> 'q) list \<Rightarrow> CommitRecord list \<Rightarrow> bool" where
  "sameWalk walkOf qs W \<longleftrightarrow> wfWalk W \<and> (\<forall>q \<in> set qs. walkOf (snd q) = W)"

lemma runInv_keeps: "runInv refsOf s qs \<Longrightarrow> keeps s s' \<Longrightarrow> runInv refsOf s' qs"
  by (auto simp: runInv_def keeps_def)

lemma ReadPage_runInv:
  assumes inv: "runInv refsOf s qs" and hon: "honestEnv refsOf gitLog q s env reads"
    and run: "ReadPage s env reads = Some (s', out, r)"
  shows "runInv refsOf s' (spawned s env q qs) \<and> s_opts s' = s_opts s"
proof -
  let ?d = "disarmReclaimLocked s"
  have d: "runInv refsOf ?d qs" using inv runInv_keeps keeps_simps(1) by blast
  have body: "runInv refsOf s' qs' \<and> s_opts s' = s_opts t"
    if "pageBody t reads = Some (s', out, r)" "runInv refsOf t qs'" for t qs'
    using that runInv_keeps pageBody_keeps [OF that(1)] by (auto simp: runInv_def keeps_def)
  show ?thesis
  proof (cases "needsSpawn s")
    case False
    then have "s' = ?d \<or> pageBody ?d reads = Some (s', out, r)"
      using run by (auto simp: ReadPage_def Let_def needsSpawn_def split: option.splits if_splits)
    then show ?thesis using d body False by (auto simp: spawned_def)
  next
    case True
    then have nf: "s_failed s = None" "\<not> exhaustedLocked s" "s_proc s = None" "\<not> s_eof s"
      by (simp_all add: needsSpawn_def)
    obtain s1 res where sp: "spawnOrResumeLocked ?d env = (s1, res)" by (cases "spawnOrResumeLocked ?d env")
    note facts = spawn_snapshot [OF sp]
    have "refsOf (fst q) = s_baseSnapshot s1" if "res = Inr False"
      using hon facts that nf by (auto simp: honestEnv_def)
    then have s1: "runInv refsOf s1 (spawned s env q qs)"
      using d facts True sp nf by (auto simp: runInv_def spawned_def streamOk_def)
    have "s' = s1 \<or> pageBody s1 reads = Some (s', out, r)"
      using run sp nf by (cases res) (auto simp: ReadPage_body split: if_splits)
    then show ?thesis using body [OF _ s1] s1 facts by auto
  qed
qed

lemma walkInv_begin:
  assumes "walkInv W s D" and "s_readCount s = 0" and "s_proc s = None" and "\<not> s_eof s"
  shows "walkInv W' s D"
  using assms by (simp add: walkInv_def)

lemma page_same:
  assumes inv: "runInv refsOf s qs" "s_opts s = s_opts (Open opts)" "\<And>W. sameWalk walkOf qs W \<Longrightarrow> walkInv W s D"
    and law: "gitLogLaw gitLog walkOf (op_Walk opts)" and hon: "honestEnv refsOf gitLog q s env reads"
    and run: "ReadPage s env reads = Some (s', out, r)" and W: "sameWalk walkOf (spawned s env q qs) W"
  shows "pageOK W s D s' out r"
proof -
  have "walkInv W s D"
  proof (cases "needsSpawn s \<and> s_readCount s = 0")
    case True
    then have "length qs \<le> 1" using inv(1) by (simp add: runInv_def)
    then obtain W' where "sameWalk walkOf qs W'"
      using law W by (cases qs) (auto simp: sameWalk_def gitLogLaw_def)
    then show ?thesis using inv(3) True walkInv_begin unfolding needsSpawn_def by blast
  next
    case False
    then show ?thesis using W inv(3) by (auto simp: sameWalk_def spawned_def split: if_splits)
  qed
  moreover have "needsSpawn s \<Longrightarrow> snd (spawnOrResumeLocked (disarmReclaimLocked s) env) = Inr False \<Longrightarrow> walkOf (snd q) = W"
    using W by (simp add: sameWalk_def spawned_def)
  ultimately show ?thesis
    using inv(2) law W hon run
    by (intro ReadPage_ok [where q = q and refsOf = refsOf and walkOf = walkOf and gitLog = gitLog])
      (auto simp: Open_def DefaultPageSize_def sameWalk_def)
qed

lemma walkRun_inv:
  assumes "walkRun refsOf gitLog opts s D qs" and law: "gitLogLaw gitLog walkOf (op_Walk opts)"
  shows "runInv refsOf s qs \<and> s_opts s = s_opts (Open opts) \<and> (\<forall>W. sameWalk walkOf qs W \<longrightarrow> walkInv W s D)"
  using assms(1)
proof (induction rule: walkRun.induct)
  case opened
  then show ?case by (simp add: walkInv_def runInv_def streamOk_def Open_def)
next
  case (page s D qs q env reads s' out r)
  have "walkInv W s' (D @ out)" if "sameWalk walkOf (spawned s env q qs) W" for W
    using page_same [OF _ _ _ law page.hyps(2,3) that] page.IH by (simp add: pageOK_def)
  then show ?case using page ReadPage_runInv [of refsOf s qs gitLog q env reads s' out r] by auto
next
  case (idle s D qs)
  then show ?case using runInv_keeps [OF _ keeps_simps(2)] by (auto simp: walkInv_def reclaim_def)
next
  case (counting s D qs counted)
  have "s_opts (fst (Remaining s counted)) = s_opts s" using keeps_simps(7) by (simp add: keeps_def)
  moreover have "walkInv W (fst (Remaining s counted)) D = walkInv W s D" for W
    by (simp add: Remaining_def walkInv_def sessStream_def split: option.split sum.split)
  ultimately show ?case using counting.IH runInv_keeps [OF _ keeps_simps(7)] by auto
next
  case (closing s D qs)
  then show ?case using runInv_keeps [OF _ keeps_simps(3)] by (auto simp: walkInv_def Close_def disarmReclaimLocked_def)
qed

lemma walkRun_page:
  assumes "walkRun refsOf gitLog opts s D qs" and "gitLogLaw gitLog walkOf (op_Walk opts)"
    and "honestEnv refsOf gitLog q s env reads" and "ReadPage s env reads = Some (s', out, r)"
    and "sameWalk walkOf (spawned s env q qs) W"
  shows "pageOK W s D s' out r" and "op_PageSize (s_opts s) = pageSizeOf opts"
  using walkRun_inv [OF assms(1,2)] page_same [OF _ _ _ assms(2-5)]
  by (auto simp: Open_def pageSizeOf_def)

section \<open>Properties of the session\<close>

text \<open>
  C1: the paged walk delivers history exactly once and in order.  Whatever mixture of pages, idle
  reclaims, cancelled or failed reads, crashed children, counts and closes a session goes through,
  and however the repository changes meanwhile: every process the walk was made of was started after
  a snapshot showing the refs the walk began with, so a moved ref never joins two histories.  If
  besides each of those processes, when it was started, had the same history to print (which equal
  refs do not imply: \<^verbatim>\<open>HEAD\<close> is not among them), then what the session has given to its callers is
  the first \<open>LoadedCount\<close> commits of that history, it has not failed for good, and once it says it is
  exhausted every commit has been delivered.
\<close>

theorem walk_exactly_once:
  assumes "walkRun refsOf gitLog opts s D qs" and "gitLogLaw gitLog walkOf (op_Walk opts)"
  shows "(\<forall>(qa, qb) \<in> set qs. refsOf qa = s_baseSnapshot s)
    \<and> ((\<forall>(qa, qb) \<in> set qs. walkOf qb = walkOf q) \<longrightarrow>
         D = take (LoadedCount s) (walkOf q) \<and> length D = LoadedCount s
         \<and> \<not> Failed s \<and> (Exhausted s \<longrightarrow> D = walkOf q))"
proof (intro conjI impI)
  show "\<forall>(qa, qb) \<in> set qs. refsOf qa = s_baseSnapshot s"
    using walkRun_inv [OF assms] by (auto simp: runInv_def)
next
  assume "\<forall>(qa, qb) \<in> set qs. walkOf qb = walkOf q"
  then have "sameWalk walkOf qs (walkOf q)" using assms(2) by (auto simp: sameWalk_def gitLogLaw_def)
  then have inv: "walkInv (walkOf q) s D" using walkRun_inv [OF assms] by blast
  then have "prefix D (take (s_readCount s) (walkOf q))"
    by (metis prefixI walkInv_def)
  then have "D = take (length D) (walkOf q)"
    by (metis append_eq_conv_conj prefix_def prefix_order.trans take_is_prefix)
  then show "D = take (LoadedCount s) (walkOf q)" "length D = LoadedCount s" "\<not> Failed s"
    using inv by (auto simp: walkInv_def LoadedCount_def Failed_def)
  show "D = walkOf q" if "Exhausted s"
    using inv that by (auto simp: walkInv_def Exhausted_def exhaustedLocked_def)
qed

definition demoCommit :: "char \<Rightarrow> CommitRecord" where
  "demoCommit c = \<lparr>cr_SHA = [c], cr_Parents = [],
     cr_Author = \<lparr>ci_Name = [], ci_Email = [], ci_Timestamp = 1\<rparr>,
     cr_Committer = \<lparr>ci_Name = [], ci_Email = [], ci_Timestamp = 2\<rparr>,
     cr_Decoration = [], cr_Subject = ''s''\<rparr>"

definition demoWalk :: "CommitRecord list" where
  "demoWalk = [demoCommit (CHR ''a''), demoCommit (CHR ''b'')]"

definition demoOpts :: Options where
  "demoOpts = \<lparr>op_Walk = \<lparr>ws_Scope = ''head'', ws_Range = None, ws_StashShas = [], ws_IncludeStash = False,
     ws_ExcludeStash = False\<rparr>, op_PageSize = 1, op_IdleReclaim = 0, op_PrecomputedTotal = None\<rparr>"

text \<open>
  A git whose repository is the history it walks from \<^verbatim>\<open>HEAD\<close>, with no ref at all, reading \<open>--skip\<close>
  off its argv.
\<close>

definition demoGit :: "bool \<Rightarrow> argv \<Rightarrow> bytes" where
  "demoGit moved argv =
     (let walk = (if moved then demoCommit (CHR ''c'') # demoWalk else demoWalk)
      in if HasPrefix (argv ! 6) ''--skip=''
         then logStream (drop (nat (fst (Atoi (drop 7 (argv ! 6))))) walk) else logStream walk)"

definition demoHistory :: "bool \<Rightarrow> CommitRecord list" where
  "demoHistory moved = (if moved then demoCommit (CHR ''c'') # demoWalk else demoWalk)"

definition noRefs :: "bool \<Rightarrow> snapshot" where
  "noRefs moved = Mapping.empty"

definition demoEnv :: "nat \<Rightarrow> SpawnEnv" where
  "demoEnv k = \<lparr>sp_snapshot = Inr [], sp_start = Inr (logStream (drop k demoWalk))\<rparr>"


lemma demoCommit_fields:
  "logFields (demoCommit c) = [[c], [], [], [], ''1'', [], [], ''2'', [], ''s'']"
proof -
  have "Itoa 1 = ''1''" "Itoa 2 = ''2''" by code_simp+
  then show ?thesis by (simp add: demoCommit_def logFields_def)
qed

lemma demoHistory_wf: "wfWalk (demoHistory m)"
  by (simp add: wfWalk_def demoHistory_def demoWalk_def demoCommit_fields maxRemainderBytes_def)
    (simp add: wfCommit_def demoCommit_def)

lemma demoWalk_wf: "wfWalk demoWalk"
  using demoHistory_wf [of False] by (simp add: demoHistory_def)

lemma demoGit_skip:
  "k \<le> 3 \<Longrightarrow> demoGit m (LogSessionSkipArgs (op_Walk demoOpts) (int k)) = logStream (drop k (demoHistory m))"
  using Atoi_Itoa [of "int k"]
  by (simp add: demoGit_def demoHistory_def LogSessionSkipArgs_def logBaseArgs_def)

lemma demo_law: "gitLogLaw demoGit demoHistory (op_Walk demoOpts)"
proof -
  have "demoGit m (LogSessionArgs (op_Walk demoOpts)) = logStream (demoHistory m)" for m
    by (simp add: demoGit_def demoHistory_def LogSessionArgs_def logBaseArgs_def demoOpts_def WalkArgs_def RevSetArgs_def)
  moreover have "length (demoHistory m) \<le> 3" for m
    by (simp add: demoHistory_def demoWalk_def)
  ultimately show ?thesis
    using demoHistory_wf demoGit_skip le_trans unfolding gitLogLaw_def by blast
qed

lemma demo_snapshot: "snapshotSess (demoEnv k) = Inr Mapping.empty"
  by (simp add: snapshotSess_def demoEnv_def ParseRefSnapshot_def TrimSuffix_def HasSuffix_def)

lemma demo_start: "sp_start (demoEnv k) = Inr (logStream (drop k demoWalk))"
  by (simp add: demoEnv_def)

lemma demo_stream:
  "logStream demoWalk = [CHR ''a'', nul, nul, nul, nul, CHR ''1'', nul, nul, nul, CHR ''2'', nul, nul, CHR ''s'', nul,
     CHR ''b'', nul, nul, nul, nul, CHR ''1'', nul, nul, nul, CHR ''2'', nul, nul, CHR ''s'', nul]"
  by (simp add: logStream_def demoWalk_def demoCommit_fields)

definition demoSession1 :: Session where
  "demoSession1 = (Open demoOpts)\<lparr>s_proc := Some [], s_currentArgs := LogSessionArgs (op_Walk demoOpts),
     s_pending := [demoCommit (CHR ''b'')], s_loadedCount := 1, s_readCount := 2, s_reclaimTimer := True\<rparr>"

lemma demo_page1:
  "ReadPage (Open demoOpts) (demoEnv 0) [(1000, ReadOK)] =
     Some (demoSession1, [demoCommit (CHR ''a'')], Inr \<lparr>oc_Appended = 1, oc_Exhausted = False, oc_Stale = False\<rparr>)"
proof -
  define s1 where "s1 = (Open demoOpts)\<lparr>s_proc := Some (logStream demoWalk), s_currentArgs := LogSessionArgs (op_Walk demoOpts)\<rparr>"
  have "spawnOrResumeLocked (Open demoOpts) (demoEnv 0) = (s1, Inr False)"
    by (simp add: spawnOrResumeLocked_def demo_snapshot Open_def Let_def spawnArgs_def demo_start s1_def demoOpts_def)
  moreover have "pageBody s1 [(1000, ReadOK)] =
     Some (demoSession1, [demoCommit (CHR ''a'')], Inr \<lparr>oc_Appended = 1, oc_Exhausted = False, oc_Stale = False\<rparr>)"
  proof -
    have "RecordSplitter_Push (NewRecordSplitter nul) (logStream demoWalk) =
        (NewRecordSplitter nul, concat (map logFields demoWalk), None)"
      using SplitByte_terminated [of "concat (map logFields demoWalk)" nul "[]"]
      by (simp add: RecordSplitter_Push_def NewRecordSplitter_def splitLoop_SplitByte logStream_def
          maxRemainderBytes_def) (simp add: demoWalk_def demoCommit_fields)
    moreover have "FieldGrouper_Push (NewFieldGrouper FieldCount) (concat (map logFields demoWalk)) =
        Some (NewFieldGrouper FieldCount, map logFields demoWalk)"
      using chunksOf_logFields [of demoWalk] groupLoop_chunksOf [of FieldCount]
      by (simp add: FieldGrouper_Push_def NewFieldGrouper_def FieldCount_def)
    ultimately have "consumeChunkLocked (s1\<lparr>s_proc := Some []\<rparr>) (logStream demoWalk) [] 1 0 =
        Some (consumeRecords 1 (map logFields demoWalk) (s1\<lparr>s_proc := Some []\<rparr>) [] 0)"
      by (simp add: consumeChunkLocked_def s1_def Open_def)
    moreover have "list_all wfCommit demoWalk" using demoWalk_wf by (simp add: wfWalk_def list_all_iff)
    ultimately have "consumeChunkLocked (s1\<lparr>s_proc := Some []\<rparr>) (logStream demoWalk) [] 1 0 =
        Some (demoSession1\<lparr>s_reclaimTimer := False\<rparr>, [demoCommit (CHR ''a'')], 1, None)"
      using consumeRecords_ok [of demoWalk 1 1 0] by (simp add: s1_def demoSession1_def demoWalk_def Open_def)
    moreover have "readChunkLocked s1 1000 ReadOK = (s1\<lparr>s_proc := Some []\<rparr>, logStream demoWalk)"
      by (simp add: readChunkLocked_def s1_def demo_stream)
    ultimately have "fillLocked [(1000, ReadOK)] s1 [] 1 0 =
        fillLocked [] (demoSession1\<lparr>s_reclaimTimer := False\<rparr>) [demoCommit (CHR ''a'')] 1 1"
      using fillLocked_read [of s1 0 1 1000 ReadOK "s1\<lparr>s_proc := Some []\<rparr>" "logStream demoWalk" "[]"
          "demoSession1\<lparr>s_reclaimTimer := False\<rparr>" "[demoCommit (CHR ''a'')]" 1 "[]"]
      by (simp add: demo_stream s1_def Open_def)
    then show ?thesis
      by (simp add: pageBody_def s1_def Open_def drainPendingLocked_def demoOpts_def fillLocked.simps
          demoSession1_def armReclaimLocked_def exhaustedLocked_def defaultIdleReclaim_def)
  qed
  ultimately show ?thesis
    by (subst ReadPage_body) (simp_all add: Open_def exhaustedLocked_def disarmReclaimLocked_def)
qed

definition demoSession2 :: Session where
  "demoSession2 = (Open demoOpts)\<lparr>s_currentArgs := LogSessionSkipArgs (op_Walk demoOpts) 2,
     s_loadedCount := 2, s_readCount := 2, s_eof := True\<rparr>"

lemma demo_page2:
  "ReadPage (reclaim demoSession1) (demoEnv 2) [(0, ReadEOF (Exited None))] =
     Some (demoSession2, [demoCommit (CHR ''b'')], Inr \<lparr>oc_Appended = 1, oc_Exhausted = True, oc_Stale = False\<rparr>)"
proof -
  define s1 where "s1 = (Open demoOpts)\<lparr>s_proc := Some [], s_currentArgs := LogSessionSkipArgs (op_Walk demoOpts) 2,
     s_pending := [demoCommit (CHR ''b'')], s_loadedCount := 1, s_readCount := 2\<rparr>"
  define s2 where "s2 = s1\<lparr>s_pending := [], s_loadedCount := 2\<rparr>"
  have "spawnOrResumeLocked (disarmReclaimLocked (reclaim demoSession1)) (demoEnv 2) = (s1, Inr False)"
    by (simp add: spawnOrResumeLocked_def demo_snapshot Open_def Let_def spawnArgs_def demo_start s1_def
        demoOpts_def demoSession1_def reclaim_def disarmReclaimLocked_def demoWalk_def logStream_def)
  moreover have "drainPendingLocked s1 1 = (s2, [demoCommit (CHR ''b'')], 1)"
    by (simp add: drainPendingLocked_def s1_def s2_def Open_def)
  moreover have "fillLocked [(0, ReadEOF (Exited None))] s2 [demoCommit (CHR ''b'')] 1 1 =
      Some (demoSession2, [demoCommit (CHR ''b'')], Inr 1)"
    by (simp add: fillLocked.simps s2_def s1_def Open_def readChunkLocked_def finishEOFLocked_def
        RecordSplitter_Flush_def FieldGrouper_Flush_def NewRecordSplitter_def NewFieldGrouper_def demoSession2_def)
  ultimately have "pageBody s1 [(0, ReadEOF (Exited None))] =
     Some (demoSession2, [demoCommit (CHR ''b'')], Inr \<lparr>oc_Appended = 1, oc_Exhausted = True, oc_Stale = False\<rparr>)"
    by (simp add: pageBody_def s1_def Open_def demoOpts_def demoSession2_def exhaustedLocked_def)
  then show ?thesis
    using \<open>spawnOrResumeLocked _ _ = _\<close>
    by (subst ReadPage_body) (simp_all add: demoSession1_def Open_def exhaustedLocked_def reclaim_def)
qed

lemma demo_honest1: "honestEnv noRefs demoGit (False, False) (Open demoOpts) (demoEnv 0) [(1000, ReadOK)]"
  using demo_law
  by (simp add: honestEnv_def demo_snapshot demo_start spawnArgs_def gitLogLaw_def Open_def noRefs_def demoHistory_def)

lemma demo_honest2:
  "honestEnv noRefs demoGit (False, False) (reclaim demoSession1) (demoEnv 2) [(0, ReadEOF (Exited None))]"
  using demoGit_skip [of 2 False]
  by (simp add: honestEnv_def demo_snapshot demo_start spawnArgs_def Open_def reclaim_def demoSession1_def
      noRefs_def demoHistory_def) (simp add: demoWalk_def logStream_def)

lemma demo_spawned1: "spawned (Open demoOpts) (demoEnv 0) q [] = [q]"
  by (simp add: spawned_def needsSpawn_def exhaustedLocked_def spawnOrResumeLocked_def demo_snapshot demo_start
      disarmReclaimLocked_def Open_def Let_def)

lemma demo_run1: "walkRun noRefs demoGit demoOpts (reclaim demoSession1) [demoCommit (CHR ''a'')] [(False, False)]"
  using walkRun.page [OF walkRun.opened demo_honest1 demo_page1] by (simp add: walkRun.idle demo_spawned1)

lemma demo_spawned2:
  "sp_snapshot env = Inr [] \<Longrightarrow> sp_start env = Inr x \<Longrightarrow> spawned (reclaim demoSession1) env q qs = qs @ [q]"
  by (simp add: spawned_def needsSpawn_def exhaustedLocked_def spawnOrResumeLocked_def snapshotSess_def
      ParseRefSnapshot_def TrimSuffix_def HasSuffix_def disarmReclaimLocked_def reclaim_def demoSession1_def
      Open_def Let_def)

lemma demo_run2: "walkRun noRefs demoGit demoOpts demoSession2 demoWalk [(False, False), (False, False)]"
proof -
  have "spawned (reclaim demoSession1) (demoEnv 2) q qs = qs @ [q]" for q and qs :: "(bool \<times> bool) list"
    by (rule demo_spawned2) (simp_all add: demoEnv_def)
  then show ?thesis
    using walkRun.page [OF demo_run1 demo_honest2 demo_page2] by (simp add: demoWalk_def)
qed

theorem walk_exactly_once_witness:
  "noRefs False = s_baseSnapshot demoSession2
    \<and> demoWalk = take (LoadedCount demoSession2) demoWalk \<and> \<not> Failed demoSession2 \<and> LoadedCount demoSession2 = 2"
  using walk_exactly_once [OF demo_run2 demo_law, of False] by (simp add: demoHistory_def demoWalk_def)

text \<open>
  The condition on the histories is needed: after the reclaim a checkout moves \<^verbatim>\<open>HEAD\<close> to a new commit
  and no ref changes, so the snapshots agree, the resumed process skips the wrong commits, and the
  session delivers one commit twice and the new one never.
\<close>

definition movedEnv :: SpawnEnv where
  "movedEnv = \<lparr>sp_snapshot = Inr [], sp_start = Inr (logStream [demoCommit (CHR ''b'')])\<rparr>"

definition movedSession2 :: Session where
  "movedSession2 = (Open demoOpts)\<lparr>s_proc := Some [], s_currentArgs := LogSessionSkipArgs (op_Walk demoOpts) 2,
     s_pending := [demoCommit (CHR ''b'')], s_loadedCount := 2, s_readCount := 3, s_reclaimTimer := True\<rparr>"

definition movedSession3 :: Session where
  "movedSession3 = movedSession2\<lparr>s_proc := None, s_pending := [], s_loadedCount := 3, s_eof := True,
     s_reclaimTimer := False\<rparr>"

lemma moved_chunk:
  assumes "s_splitter s = NewRecordSplitter nul" and "s_grouper s = NewFieldGrouper FieldCount"
  shows "consumeChunkLocked s (logStream [demoCommit (CHR ''b'')]) out 1 1 =
    Some (s\<lparr>s_readCount := s_readCount s + 1, s_pending := s_pending s @ [demoCommit (CHR ''b'')]\<rparr>, out, 1, None)"
proof -
  let ?W = "[demoCommit (CHR ''b'')]"
  have push: "RecordSplitter_Push (NewRecordSplitter nul) (logStream ?W) = (NewRecordSplitter nul, concat (map logFields ?W), None)"
    using SplitByte_terminated [of "concat (map logFields ?W)" nul "[]"]
    by (simp add: RecordSplitter_Push_def NewRecordSplitter_def splitLoop_SplitByte logStream_def
        maxRemainderBytes_def) (simp add: demoCommit_fields)
  have group: "FieldGrouper_Push (NewFieldGrouper FieldCount) (concat (map logFields ?W)) =
      Some (NewFieldGrouper FieldCount, map logFields ?W)"
    using chunksOf_logFields [of ?W] groupLoop_chunksOf [of FieldCount]
    by (simp add: FieldGrouper_Push_def NewFieldGrouper_def FieldCount_def)
  have "list_all wfCommit ?W" using demoWalk_wf by (simp add: wfWalk_def list_all_iff demoWalk_def)
  then have rec: "consumeRecords 1 (map logFields ?W) s out 1 =
      (s\<lparr>s_readCount := s_readCount s + 1, s_pending := s_pending s @ ?W\<rparr>, out, 1, None)"
    using consumeRecords_ok [OF _ refl, of ?W 1 s out 1] by simp
  have keep: "s\<lparr>s_splitter := NewRecordSplitter nul, s_grouper := NewFieldGrouper FieldCount\<rparr> = s"
    using assms by simp
  show ?thesis
    unfolding consumeChunkLocked_def assms push prod.case option.case group keep rec ..
qed

lemma moved_page2:
  "ReadPage (reclaim demoSession1) movedEnv [(1000, ReadOK)] =
     Some (movedSession2, [demoCommit (CHR ''b'')], Inr \<lparr>oc_Appended = 1, oc_Exhausted = False, oc_Stale = False\<rparr>)"
proof -
  let ?b = "[demoCommit (CHR ''b'')]"
  define s1 where "s1 = (Open demoOpts)\<lparr>s_proc := Some (logStream ?b), s_currentArgs := LogSessionSkipArgs (op_Walk demoOpts) 2,
     s_pending := ?b, s_loadedCount := 1, s_readCount := 2\<rparr>"
  define s2 where "s2 = s1\<lparr>s_pending := [], s_loadedCount := 2\<rparr>"
  have "snapshotSess movedEnv = Inr Mapping.empty"
    by (simp add: snapshotSess_def movedEnv_def ParseRefSnapshot_def TrimSuffix_def HasSuffix_def)
  then have sp: "spawnOrResumeLocked (disarmReclaimLocked (reclaim demoSession1)) movedEnv = (s1, Inr False)"
    by (simp add: spawnOrResumeLocked_def Open_def Let_def spawnArgs_def s1_def movedEnv_def
        demoOpts_def demoSession1_def reclaim_def disarmReclaimLocked_def)
  have dr: "drainPendingLocked s1 1 = (s2, ?b, 1)"
    by (simp add: drainPendingLocked_def s1_def s2_def Open_def)
  have "logStream ?b \<noteq> []" "length (logStream ?b) \<le> 1000"
    by (simp_all add: logStream_def demoCommit_fields)
  then have "fillLocked [(1000, ReadOK)] s2 ?b 1 1 = fillLocked [] (movedSession2\<lparr>s_reclaimTimer := False\<rparr>) ?b 1 1"
    using moved_chunk [of "s2\<lparr>s_proc := Some []\<rparr>" ?b]
    by (subst fillLocked_read [of s2 1 1 1000 ReadOK "s2\<lparr>s_proc := Some []\<rparr>" "logStream ?b" ?b
          "movedSession2\<lparr>s_reclaimTimer := False\<rparr>" ?b 1])
      (simp_all add: s2_def s1_def Open_def readChunkLocked_def movedSession2_def)
  then have "pageBody s1 [(1000, ReadOK)] =
     Some (movedSession2, ?b, Inr \<lparr>oc_Appended = 1, oc_Exhausted = False, oc_Stale = False\<rparr>)"
    using dr by (simp add: pageBody_def s1_def Open_def demoOpts_def fillLocked.simps
          movedSession2_def armReclaimLocked_def exhaustedLocked_def defaultIdleReclaim_def)
  then show ?thesis
    using sp by (subst ReadPage_body) (simp_all add: demoSession1_def Open_def exhaustedLocked_def reclaim_def)
qed

lemma moved_page3:
  "ReadPage movedSession2 env [(0, ReadEOF (Exited None))] =
     Some (movedSession3, [demoCommit (CHR ''b'')], Inr \<lparr>oc_Appended = 1, oc_Exhausted = True, oc_Stale = False\<rparr>)"
  by (subst ReadPage_body) (simp_all add: movedSession2_def movedSession3_def Open_def exhaustedLocked_def
      disarmReclaimLocked_def pageBody_def drainPendingLocked_def demoOpts_def fillLocked.simps readChunkLocked_def finishEOFLocked_def
      RecordSplitter_Flush_def FieldGrouper_Flush_def NewRecordSplitter_def NewFieldGrouper_def)

lemma head_move_repeats_commit:
  "walkRun noRefs demoGit demoOpts movedSession3
     [demoCommit (CHR ''a''), demoCommit (CHR ''b''), demoCommit (CHR ''b'')] [(False, False), (True, True)]
   \<and> Exhausted movedSession3 \<and> noRefs True = noRefs False \<and> demoHistory True = demoCommit (CHR ''c'') # demoHistory False"
proof -
  have "demoGit True (LogSessionSkipArgs (op_Walk demoOpts) 2) = logStream [demoCommit (CHR ''b'')]"
    using demoGit_skip [of 2 True] by (simp add: demoHistory_def demoWalk_def)
  then have "honestEnv noRefs demoGit (True, True) (reclaim demoSession1) movedEnv [(1000, ReadOK)]"
    by (simp add: honestEnv_def snapshotSess_def movedEnv_def ParseRefSnapshot_def TrimSuffix_def HasSuffix_def
        spawnArgs_def Open_def reclaim_def demoSession1_def noRefs_def)
  from walkRun.page [OF demo_run1 this moved_page2]
  have r2: "walkRun noRefs demoGit demoOpts movedSession2 [demoCommit (CHR ''a''), demoCommit (CHR ''b'')]
      [(False, False), (True, True)]"
    using demo_spawned2 [of movedEnv "logStream [demoCommit (CHR ''b'')]" "(True, True)" "[(False, False)]"]
    by (simp add: movedEnv_def)
  have "honestEnv noRefs demoGit (True, True) movedSession2 movedEnv [(0, ReadEOF (Exited None))]"
    by (simp add: honestEnv_def movedSession2_def)
  from walkRun.page [OF r2 this moved_page3]
  have "walkRun noRefs demoGit demoOpts movedSession3
     [demoCommit (CHR ''a''), demoCommit (CHR ''b''), demoCommit (CHR ''b'')] [(False, False), (True, True)]"
    by (simp add: spawned_def needsSpawn_def movedSession2_def)
  then show ?thesis
    by (simp add: Exhausted_def exhaustedLocked_def movedSession3_def noRefs_def demoHistory_def)
qed

text \<open>
  A page reports exactly what it did.  A page that returns an outcome has delivered
  \<open>Appended\<close> commits, never more than the page size; unless a moved ref made it stale it says
  \<open>Exhausted\<close> exactly when every commit of the walk has now been delivered (so the page that
  delivers the last commit says so, with no empty page after it), and otherwise it is full.
\<close>

theorem page_outcome:
  assumes "walkRun refsOf gitLog opts s D qs" and "gitLogLaw gitLog walkOf (op_Walk opts)"
    and "honestEnv refsOf gitLog q s env reads" and "ReadPage s env reads = Some (s', out, Inr oc)"
    and "sameWalk walkOf (spawned s env q qs) W"
  shows "oc_Appended oc = length out \<and> int (length out) \<le> pageSizeOf opts
    \<and> (if oc_Stale oc then True
       else (oc_Exhausted oc \<longleftrightarrow> D @ out = W) \<and> (oc_Exhausted oc \<or> int (length out) = pageSizeOf opts))"
proof -
  have ok: "pageOK W s D s' out (Inr oc)" and ps: "op_PageSize (s_opts s) = pageSizeOf opts"
    using walkRun_page [OF assms] by blast+
  then have "walkInv W s' (D @ out)" and ex: "oc_Exhausted oc = exhaustedLocked s'"
    by (simp_all add: pageOK_def)
  then have eq: "(D @ out) @ s_pending s' = take (s_readCount s') W"
    and "exhaustedLocked s' \<Longrightarrow> D @ out = W"
    by (auto simp: walkInv_def exhaustedLocked_def)
  moreover have "s_pending s' \<noteq> [] \<Longrightarrow> D @ out \<noteq> W"
  proof
    assume "s_pending s' \<noteq> []" and "D @ out = W"
    then show False using arg_cong [OF eq, of length] by (auto simp: neq_Nil_conv)
  qed
  ultimately show ?thesis using ok ps ex by (auto simp: pageOK_def)
qed

theorem page_outcome_witness:
  "\<exists>s' oc. ReadPage (reclaim demoSession1) (demoEnv 2) [(0, ReadEOF (Exited None))]
       = Some (s', [demoCommit (CHR ''b'')], Inr oc) \<and> oc_Appended oc = 1
     \<and> (oc_Exhausted oc \<longleftrightarrow> [demoCommit (CHR ''a'')] @ [demoCommit (CHR ''b'')] = demoWalk)"
  using page_outcome [OF demo_run1 demo_law demo_honest2 demo_page2, of demoWalk] demo_page2
    demo_spawned2 [of "demoEnv 2" "logStream (drop 2 demoWalk)" "(False, False)" "[(False, False)]"] demoWalk_wf
  by (simp add: demoWalk_def demoEnv_def sameWalk_def demoHistory_def)

text \<open>The read loop ends at the latest with the first read that is not plain data.\<close>

lemma consumeChunk_total:
  assumes "0 < fg_fieldCount (s_grouper s)"
  shows "\<exists>s' out' app' e. consumeChunkLocked s chunk out pageSize app = Some (s', out', app', e)
     \<and> fg_fieldCount (s_grouper s') = fg_fieldCount (s_grouper s)"
proof -
  have keep: "consumeRecords pageSize gs t out app = (s', out', app', e) \<Longrightarrow> s_grouper s' = s_grouper t" for gs t out app s' out' app' e
    by (induction gs arbitrary: t out app)
      (auto simp: failLocked_def Let_def split: sum.splits if_splits)
  obtain sp toks e where p: "RecordSplitter_Push (s_splitter s) chunk = (sp, toks, e)"
    by (cases "RecordSplitter_Push (s_splitter s) chunk")
  show ?thesis
  proof (cases e)
    case None
    obtain g groups where g: "FieldGrouper_Push (s_grouper s) toks = Some (g, groups)"
      and "fg_fieldCount g = fg_fieldCount (s_grouper s)"
      using assms by (cases "chunksOf (fg_fieldCount (s_grouper s)) (fg_pending (s_grouper s) @ toks)")
        (auto simp: FieldGrouper_Push_def groupLoop_chunksOf)
    then show ?thesis
      using p None keep by (cases "consumeRecords pageSize groups (s\<lparr>s_splitter := sp, s_grouper := g\<rparr>) out app")
        (fastforce simp: consumeChunkLocked_def)
  qed (simp add: consumeChunkLocked_def p failLocked_def)
qed

lemma fillLocked_total:
  assumes "0 < fg_fieldCount (s_grouper s)" and "list_ex (\<lambda>(n, r). r \<noteq> ReadOK) reads"
  shows "fillLocked reads s out pageSize app \<noteq> None"
  using assms
proof (induction reads arbitrary: s out app)
  case (Cons rd reads)
  obtain n rr where rd: "rd = (n, rr)" by (cases rd)
  obtain s1 chunk where rc: "readChunkLocked s n rr = (s1, chunk)" by (cases "readChunkLocked s n rr")
  have g1: "s_grouper s1 = s_grouper s"
    using rc by (auto simp: readChunkLocked_def split: read_result.splits option.splits)
  obtain s2 out2 app2 e where step: "(if chunk = [] then Some (s1, out, app, None)
        else consumeChunkLocked s1 chunk out pageSize app) = Some (s2, out2, app2, e)"
    and g2: "fg_fieldCount (s_grouper s2) = fg_fieldCount (s_grouper s)"
    using consumeChunk_total [of s1 chunk out pageSize app] g1 Cons.prems(1) by (cases "chunk = []") auto
  show ?case
  proof (cases "s_eof s \<or> \<not> (int app < pageSize \<or> s_pending s = [])")
    case True
    then show ?thesis by (subst fillLocked.simps) simp
  next
    case False
    show ?thesis
    proof (cases e)
      case None
      note run = fillLocked_read [OF _ _ rc step [unfolded None], of reads, folded rd]
      show ?thesis
        using run False Cons.IH [of s2 out2 app2] Cons.prems g2 rd
        by (cases rr) (auto split: prod.splits option.splits)
    next
      case (Some err)
      then show ?thesis
        using fillLocked_fails [OF _ _ rc, of app pageSize out s2 out2 app2 err reads] step False rd by auto
    qed
  qed
qed simp

text \<open>
  a page always comes back.  On any session a run can reach, once the process reports
  anything but plain data (end of file, an error, the request's cancellation), \<open>ReadPage\<close> has
  returned: it never waits for another read after that, whatever the bytes were.
\<close>

theorem ReadPage_returns:
  assumes "walkRun refsOf gitLog opts s D qs" and "gitLogLaw gitLog walkOf (op_Walk opts)"
    and "list_ex (\<lambda>(n, r). r \<noteq> ReadOK) reads"
  shows "\<exists>s' out r. ReadPage s env reads = Some (s', out, r)"
proof -
  have inv: "streamOk s" using walkRun_inv [OF assms(1,2)] by (simp add: runInv_def)
  have body: "pageBody t reads \<noteq> None" if "s_eof t \<or> 0 < fg_fieldCount (s_grouper t)" for t
  proof -
    obtain s2 out app where dr: "drainPendingLocked t (op_PageSize (s_opts t)) = (s2, out, app)"
      by (cases "drainPendingLocked t (op_PageSize (s_opts t))")
    then have "s_eof s2 = s_eof t" "s_grouper s2 = s_grouper t"
      unfolding drainPendingLocked_def drainLoop_ok [OF refl] by auto
    then have "fillLocked reads s2 out (op_PageSize (s_opts t)) app \<noteq> None"
      using fillLocked_total [of s2 reads out _ app] assms(3) that by (cases "s_eof s2") (auto simp: fillLocked.simps)
    then show ?thesis by (auto simp: pageBody_def dr Let_def split: sum.splits)
  qed
  have "s_eof s \<or> 0 < fg_fieldCount (s_grouper s)" if "s_proc s \<noteq> None \<or> s_eof s"
    using that inv by (auto simp: streamOk_def streamInv_def grouperInv_def sessStream_def)
  moreover have "0 < fg_fieldCount (s_grouper t)"
    if "spawnOrResumeLocked (disarmReclaimLocked s) env = (t, Inr False)" for t
    using that by (auto simp: spawnOrResumeLocked_def NewFieldGrouper_def FieldCount_def Let_def
        split: sum.splits if_splits)
  ultimately have "ReadPage s env reads \<noteq> None" if "s_failed s = None"
    using body body [of "disarmReclaimLocked s"] that
    by (cases "exhaustedLocked s")
      (auto simp: ReadPage_body disarmReclaimLocked_def [of s] ReadPage_def Let_def split: prod.split sum.split)
  moreover have "ReadPage s env reads \<noteq> None" if "s_failed s \<noteq> None"
    using that by (auto simp: ReadPage_def Let_def)
  ultimately show ?thesis by auto
qed

theorem ReadPage_returns_witness:
  "\<exists>s' out r. ReadPage (reclaim demoSession1) (demoEnv 2) [(7, ReadOK), (3, ReadCancelled ''gone'')] = Some (s', out, r)"
  using ReadPage_returns [OF demo_run1 demo_law] by simp

text \<open>
  The stream breaks with a read: \<open>xs\<close> are the bytes since the last complete record, \<open>chunk\<close> the ones
  just read.  A field is longer than any git prints, a complete record does not parse, or git exited
  cleanly in the middle of a record.
\<close>

definition breaks :: "bytes \<Rightarrow> bytes \<Rightarrow> read_result \<Rightarrow> bool" where
  "breaks xs chunk rr \<longleftrightarrow>
     chunk \<noteq> [] \<and> maxRemainderBytes < length (last (SplitByte xs nul))
     \<or> (\<exists>g \<in> set (streamItems nul FieldCount xs). isl (ParseLogRecord g))
     \<or> rr = ReadEOF (Exited None) \<and> streamRest nul FieldCount xs \<noteq> []"

text \<open>Anything that may happen to a session later, in any environment: the list has what each page gave.\<close>

inductive laterOps :: "Session \<Rightarrow> (CommitRecord list \<times> (page_error + Outcome)) list \<Rightarrow> Session \<Rightarrow> bool"
  for s where
  none: "laterOps s [] s"
| page: "laterOps s rs t \<Longrightarrow> ReadPage t env reads = Some (t', out, r) \<Longrightarrow> laterOps s (rs @ [(out, r)]) t'"
| idle: "laterOps s rs t \<Longrightarrow> laterOps s rs (reclaim t)"
| counting: "laterOps s rs t \<Longrightarrow> laterOps s rs (fst (Remaining t counted))"
| closing: "laterOps s rs t \<Longrightarrow> laterOps s rs (Close t)"

lemma failed_stays:
  assumes "laterOps s rs t" and "s_failed s = Some e" "s_proc s = None" "\<not> s_eof s"
  shows "set rs \<subseteq> {([], Inl (Permanent e))} \<and> s_failed t = Some e \<and> s_proc t = None \<and> \<not> s_eof t
    \<and> s_currentArgs t = s_currentArgs s \<and> s_loadedCount t = s_loadedCount s"
  using assms
proof (induction rule: laterOps.induct)
  case (page rs t env reads t' out r)
  then have "t' = disarmReclaimLocked t" "out = []" "r = Inl (Permanent e)"
    by (auto simp: ReadPage_def Let_def)
  then show ?case using page by (auto simp: disarmReclaimLocked_def)
qed (auto simp: reclaim_def Close_def disarmReclaimLocked_def Remaining_def split: option.splits sum.splits)

lemma consumeRecords_full:
  "\<not> int app < ps \<Longrightarrow> consumeRecords ps gs s out app = (s', out', app', e) \<Longrightarrow> out' = out"
  by (induction gs arbitrary: s) (auto simp: Let_def failLocked_def split: sum.splits)

lemma consumeRecords_delivers:
  "consumeRecords ps gs s out app = (s', out', app', e) \<Longrightarrow>
     \<exists>cs. out' = out @ cs \<and> map Inr cs = take (length cs) (map ParseLogRecord gs)"
proof (induction gs arbitrary: s out app)
  case (Cons g gs)
  show ?case
  proof (cases "ParseLogRecord g")
    case (Inr c)
    show ?thesis
    proof (cases "int app < ps")
      case True
      then have "\<exists>cs. out' = (out @ [c]) @ cs \<and> map Inr cs = take (length cs) (map ParseLogRecord gs)"
        using Cons.prems Inr by (intro Cons.IH) (simp add: Let_def)
      then obtain cs where "out' = out @ c # cs" "map Inr cs = take (length cs) (map ParseLogRecord gs)" by auto
      then show ?thesis using Inr by (intro exI [of _ "c # cs"]) simp
    next
      case False
      then show ?thesis using consumeRecords_full [OF False Cons.prems] by (intro exI [of _ "[]"]) simp
    qed
  qed (use Cons.prems in \<open>auto simp: failLocked_def\<close>)
qed simp

lemma consumeRecords_error:
  "consumeRecords ps gs s out app = (s', out', app', e) \<Longrightarrow>
     ((\<exists>g \<in> set gs. isl (ParseLogRecord g)) \<longleftrightarrow> e \<noteq> None)
     \<and> (\<forall>x. e = Some x \<longrightarrow> (\<exists>se. x = Permanent se \<and> s_failed s' = Some se \<and> s_proc s' = None \<and> \<not> s_eof s'))"
  by (induction gs arbitrary: s out app) (auto simp: Let_def failLocked_def split: sum.splits if_splits)

lemma consumeChunk_breaks:
  assumes inv: "streamInv nul FieldCount (sessStream s)" and xs: "xs = streamPend nul (sessStream s) @ chunk"
    and br: "maxRemainderBytes < length (last (SplitByte xs nul))
      \<or> (\<exists>g \<in> set (streamItems nul FieldCount xs). isl (ParseLogRecord g))"
  shows "\<exists>s' cs app' e. consumeChunkLocked s chunk out ps app = Some (s', out @ cs, app', Some (Permanent e))
    \<and> s_failed s' = Some e \<and> s_proc s' = None \<and> \<not> s_eof s'
    \<and> map Inr cs = take (length cs) (map ParseLogRecord (streamItems nul FieldCount xs))"
proof (cases "fieldStep (sessStream s) chunk")
  case None
  obtain sp toks err where "RecordSplitter_Push (s_splitter s) chunk = (sp, toks, Some err)"
    using None inv by (auto simp: fieldStep_eq Let_def fieldStep_def splitterStep_def sessStream_def FieldGrouper_Push_eq
        streamInv_def split: option.splits prod.splits if_splits)
  then show ?thesis by (intro exI [of _ "s\<lparr>s_splitter := sp, s_proc := None, s_eof := False, s_failed := Some (BadStream err)\<rparr>"]
      exI [of _ "[]"] exI [of _ app] exI [of _ "BadStream err"]) (simp add: consumeChunkLocked_def failLocked_def)
next
  case (Some r)
  obtain sp g gs where r: "r = ((sp, g), gs)" by (metis surj_pair)
  have gs: "gs = streamItems nul FieldCount xs" using fields.step_items [OF inv] Some r xs by blast
  have "\<not> maxRemainderBytes < length (last (SplitByte xs nul))"
    using Some SplitByte_streamPend [OF inv] unfolding fieldStep_eq [OF inv] xs
    by (auto simp: Let_def split: if_splits)
  then have bad: "\<exists>g \<in> set gs. isl (ParseLogRecord g)" using br gs by blast
  obtain s' out' app' x where c: "consumeRecords ps gs (s\<lparr>s_splitter := sp, s_grouper := g\<rparr>) out app = (s', out', app', x)"
    by (metis surj_pair)
  then show ?thesis
    using consumeRecords_error [OF c] consumeRecords_delivers [OF c] bad gs
      consumeChunk_fieldStep [OF Some [unfolded r], of out ps app] by fastforce
qed

lemma finishEOF_breaks:
  assumes "streamInv nul FieldCount (sessStream s)" and "streamPend nul (sessStream s) \<noteq> []"
  shows "\<exists>s' e. finishEOFLocked s (Exited None) = (s', Some (Permanent e))
    \<and> s_failed s' = Some e \<and> s_proc s' = None \<and> \<not> s_eof s'"
  using assms
  by (auto simp: finishEOFLocked_def Let_def failLocked_def RecordSplitter_Flush_def FieldGrouper_Flush_def
      streamPend_def sessStream_def terminated_def)

lemma fillLocked_breaks:
  assumes inv: "streamInv nul FieldCount (sessStream s)" and u: "s_proc s = Some u" and more: "\<not> s_eof s"
    "int app < ps \<or> s_pending s = []" and nc: "\<nexists>e. rr = ReadCancelled e"
    and xs: "xs = streamPend nul (sessStream s) @ take n u" and br: "breaks xs (take n u) rr"
  shows "\<exists>s' cs e. fillLocked ((n, rr) # reads) s out ps app = Some (s', out @ cs, Inl (Permanent e))
    \<and> s_failed s' = Some e \<and> s_proc s' = None \<and> \<not> s_eof s'
    \<and> map Inr cs = take (length cs) (map ParseLogRecord (streamItems nul FieldCount xs))"
proof -
  define s1 where "s1 = s\<lparr>s_proc := Some (drop n u)\<rparr>"
  have rc: "readChunkLocked s n rr = (s1, take n u)"
    using nc u by (cases rr) (auto simp: readChunkLocked_def s1_def)
  have ss: "sessStream s1 = sessStream s" by (simp add: s1_def sessStream_def)
  show ?thesis
  proof (cases "take n u \<noteq> [] \<and> (maxRemainderBytes < length (last (SplitByte xs nul))
      \<or> (\<exists>g \<in> set (streamItems nul FieldCount xs). isl (ParseLogRecord g)))")
    case True
    then have ne: "take n u \<noteq> []"
      and bad: "maxRemainderBytes < length (last (SplitByte xs nul))
        \<or> (\<exists>g \<in> set (streamItems nul FieldCount xs). isl (ParseLogRecord g))" by blast+
    obtain s' cs app' e where c: "consumeChunkLocked s1 (take n u) out ps app = Some (s', out @ cs, app', Some (Permanent e))"
      and f: "s_failed s' = Some e" "s_proc s' = None" "\<not> s_eof s'"
      and d: "map Inr cs = take (length cs) (map ParseLogRecord (streamItems nul FieldCount xs))"
      using consumeChunk_breaks [of s1 xs "take n u" out ps app] inv xs ss bad by fastforce
    have "fillLocked ((n, rr) # reads) s out ps app = Some (s', out @ cs, Inl (Permanent e))"
      by (rule fillLocked_fails [OF more rc]) (use ne c in simp)
    then show ?thesis using f d by blast
  next
    case False
    have "streamItems nul FieldCount xs = []" if "take n u = []"
      using fields.items_pend [OF inv] xs that by simp
    then have rr: "rr = ReadEOF (Exited None)" and left: "streamRest nul FieldCount xs \<noteq> []"
      and good: "\<forall>g \<in> set (streamItems nul FieldCount xs). \<not> isl (ParseLogRecord g)"
      using br False by (auto simp: breaks_def)
    obtain s2 cs app2 where step: "(if take n u = [] then Some (s1, out, app, None)
          else consumeChunkLocked s1 (take n u) out ps app) = Some (s2, out @ cs, app2, None)"
      and s2: "streamInv nul FieldCount (sessStream s2)" "streamPend nul (sessStream s2) \<noteq> []"
      and d: "map Inr cs = take (length cs) (map ParseLogRecord (streamItems nul FieldCount xs))"
    proof (cases "take n u = []")
      case True
      then have "streamPend nul (sessStream s1) \<noteq> []" using left fields.rest_pend [OF inv] unfolding xs ss True by simp
      then show ?thesis using that [of s1 "[]" app] True inv ss by simp
    next
      case ne: False
      have "fieldStep (sessStream s1) (take n u) \<noteq> None"
        using False ne xs ss fields.step_total [of nul FieldCount "sessStream s1" "take n u"] inv by simp
      then obtain sp g gs where fs: "fieldStep (sessStream s1) (take n u) = Some ((sp, g), gs)" by auto
      note it = fields.step_items [OF inv [folded ss] fs]
      obtain s2 out2 app2 x where c: "consumeRecords ps gs (s1\<lparr>s_splitter := sp, s_grouper := g\<rparr>) out app = (s2, out2, app2, x)"
        by (metis surj_pair)
      moreover have gs: "gs = streamItems nul FieldCount xs" using it xs ss by simp
      ultimately have "x = None" using consumeRecords_error [OF c] good by blast
      moreover have "sessStream s2 = (sp, g)" using consumeRecords_keeps [OF c] by (simp add: sessStream_def)
      moreover obtain cs where "out2 = out @ cs" "map Inr cs = take (length cs) (map ParseLogRecord gs)"
        using consumeRecords_delivers [OF c] by blast
      ultimately show ?thesis
        using that [of s2 cs app2] ne consumeChunk_fieldStep [OF fs] c gs it left xs ss by simp
    qed
    obtain s3 e where fin: "finishEOFLocked s2 (Exited None) = (s3, Some (Permanent e))"
      and "s_failed s3 = Some e" "s_proc s3 = None" "\<not> s_eof s3"
      using finishEOF_breaks [OF s2] by blast
    moreover have "fillLocked ((n, rr) # reads) s out ps app = Some (s3, out @ cs, Inl (Permanent e))"
      using fillLocked_read [OF more rc step, of reads] rr fin by simp
    ultimately show ?thesis using d by blast
  qed
qed

text \<open>
  C38: a broken stream stops the session for good.  At any point of the read loop, when the next read
  breaks the stream, the loop ends there with a permanent error: the commits it gave to the sink in
  this step are the parses of records that come before the break, the error is stored and the process
  is killed.  After that, whatever pages, timer firings, counts and closes follow in whatever
  environment, every page returns that same error and delivers nothing, no process is started, and
  the session never calls itself exhausted.
\<close>

theorem broken_stream_stops:
  assumes "streamInv nul FieldCount (sessStream s)" and "s_proc s = Some u"
    and "\<not> s_eof s" and "int app < ps \<or> s_pending s = []" and "\<nexists>e. rr = ReadCancelled e"
    and "breaks (streamPend nul (sessStream s) @ take n u) (take n u) rr"
  shows "\<exists>s' cs e. fillLocked ((n, rr) # reads) s out ps app = Some (s', out @ cs, Inl (Permanent e))
    \<and> map Inr cs = take (length cs) (map ParseLogRecord
        (streamItems nul FieldCount (streamPend nul (sessStream s) @ take n u)))
    \<and> Failed s' \<and> s_proc s' = None
    \<and> (\<forall>rs t. laterOps s' rs t \<longrightarrow> set rs \<subseteq> {([], Inl (Permanent e))} \<and> Failed t \<and> \<not> Exhausted t
          \<and> s_proc t = None \<and> s_currentArgs t = s_currentArgs s' \<and> LoadedCount t = LoadedCount s')"
proof -
  obtain s' cs e where run: "fillLocked ((n, rr) # reads) s out ps app = Some (s', out @ cs, Inl (Permanent e))"
    and f: "s_failed s' = Some e" "s_proc s' = None" "\<not> s_eof s'"
    and d: "map Inr cs = take (length cs) (map ParseLogRecord
        (streamItems nul FieldCount (streamPend nul (sessStream s) @ take n u)))"
    using fillLocked_breaks [OF assms(1-5) refl assms(6), of reads out] by blast
  show ?thesis
    using run f d failed_stays [of s' _ _ e]
    by (intro exI [of _ s'] exI [of _ cs] exI [of _ e]) (auto simp: Failed_def Exhausted_def exhaustedLocked_def LoadedCount_def)
qed

text \<open>The state a page starts reading in satisfies the first hypothesis in every run.\<close>

definition brokenSession :: Session where
  "brokenSession = (Open demoOpts)\<lparr>s_proc := Some (replicate 10 nul)\<rparr>"

theorem broken_stream_stops_witness:
  "\<exists>s' e. fillLocked [(64, ReadOK)] brokenSession [] 1 0 = Some (s', [], Inl (Permanent e))
    \<and> Failed s' \<and> s_proc s' = None
    \<and> (\<nexists>rs t. laterOps s' rs t \<and> (\<exists>r\<in>set rs. r \<noteq> ([], Inl (Permanent e)))) \<and> (\<nexists>rs t. laterOps s' rs t \<and> Exhausted t)"
proof -
  have ss: "sessStream brokenSession = (NewRecordSplitter nul, NewFieldGrouper FieldCount)"
    by (simp add: sessStream_def brokenSession_def Open_def)
  then have inv: "streamInv nul FieldCount (sessStream brokenSession)" and pd: "streamPend nul (sessStream brokenSession) = []"
    by (simp_all add: streamInv_def splitterInv_def grouperInv_def streamPend_def
            NewRecordSplitter_def NewFieldGrouper_def FieldCount_def)
  have it: "streamItems nul FieldCount (replicate 10 nul) = [replicate 10 []]"
    by code_simp
  have bad: "isl (ParseLogRecord (replicate 10 []))" by code_simp
  have br: "breaks (replicate 10 nul) (replicate 10 nul) ReadOK"
    using it bad unfolding breaks_def by simp
  have pr: "s_proc brokenSession = Some (replicate 10 nul)" "\<not> s_eof brokenSession" and tk: "take 64 (replicate 10 nul) = replicate 10 nul"
    by (simp_all add: brokenSession_def Open_def)
  note stop = broken_stream_stops [OF inv pr, of 0 1 ReadOK 64 "[]" "[]", unfolded pd tk append_Nil it]
  obtain s' cs e where "fillLocked [(64, ReadOK)] brokenSession [] 1 0 = Some (s', cs, Inl (Permanent e))"
    and cs: "map Inr cs = take (length cs) (map ParseLogRecord [replicate 10 []])"
    and f: "Failed s'" "s_proc s' = None" "\<And>rs t. laterOps s' rs t \<Longrightarrow> set rs \<subseteq> {([], Inl (Permanent e))} \<and> \<not> Exhausted t"
    using stop [OF _ _ br] by fastforce
  moreover have "cs = []" using cs bad by (cases cs) (auto simp: isl_def)
  ultimately show ?thesis using f by blast
qed

end
