(* ===== verification/DiffTree.thy ===== *)
theory DiffTree
  imports Records
begin

text \<open>
  \<^verbatim>\<open>gitclient/porcelain/difftree.go\<close> and \<^verbatim>\<open>mergetree.go\<close>: the parsers of the file lists of
  \<^verbatim>\<open>git diff-tree\<close> (name-status and numstat) and of the merge prediction of \<^verbatim>\<open>git merge-tree\<close>.
\<close>

section \<open>File lists\<close>

definition appendRevPair :: "argv \<Rightarrow> bytes option \<Rightarrow> bytes \<Rightarrow> argv" where
  "appendRevPair args from to' =
     (case from of None \<Rightarrow> args @ [''--root'', to'] | Some f \<Rightarrow> args @ [f, to'])"

definition NameStatusArgs :: "bytes option \<Rightarrow> bytes \<Rightarrow> argv" where
  "NameStatusArgs from to' =
     appendRevPair [''diff-tree'', ''-r'', ''--no-commit-id'', ''--name-status'', ''-M'', ''-C'', ''-z''] from to'"

datatype FileChangeKind =
  FileAdded | FileModified | FileDeleted | FileRenamed | FileCopied | FileTypeChanged | FileUnmerged

record FileChange =
  fc_Kind :: FileChangeKind
  fc_Path :: path
  fc_OriginalPath :: "path option"
  fc_Similarity :: "int option"

record NumstatEntry =
  ns_Path :: path
  ns_OriginalPath :: path

definition checkCounts :: "bytes \<Rightarrow> bytes \<Rightarrow> porc_error option" where
  "checkCounts addStr delStr =
     (if addStr = ''-'' \<and> delStr = ''-'' then None
      else case AtoiR addStr of
        Inl e \<Rightarrow> Some (NumstatAdditions addStr e)
      | Inr _ \<Rightarrow> (case AtoiR delStr of Inl e \<Rightarrow> Some (NumstatDeletions delStr e) | Inr _ \<Rightarrow> None))"

text \<open>The loops carry the index the error messages name.\<close>

fun numstatLoop :: "nat \<Rightarrow> bytes list \<Rightarrow> porc_error + NumstatEntry list" where
  "numstatLoop i [] = Inr []"
| "numstatLoop i (rec # recs) =
     (let fs = SplitLimitedFields rec tab 3
      in if length fs \<noteq> 3 then Inl (NumstatFieldCount rec (length fs))
         else if fs ! 2 = [] then
           (case recs of
              orig # new # recs' \<Rightarrow>
                (case checkCounts (fs ! 0) (fs ! 1) of
                   Some e \<Rightarrow> Inl e
                 | None \<Rightarrow> rbind (numstatLoop (i + 3) recs')
                     (\<lambda>r. Inr (\<lparr>ns_Path = new, ns_OriginalPath = orig\<rparr> # r)))
            | _ \<Rightarrow> Inl (NumstatTruncated i))
         else case checkCounts (fs ! 0) (fs ! 1) of
           Some e \<Rightarrow> Inl e
         | None \<Rightarrow> rbind (numstatLoop (i + 1) recs)
             (\<lambda>r. Inr (\<lparr>ns_Path = fs ! 2, ns_OriginalPath = []\<rparr> # r)))"

definition ParseNumstatRecords :: "bytes list \<Rightarrow> porc_error + NumstatEntry list" where
  "ParseNumstatRecords records = numstatLoop 0 records"

text \<open>Only the seven letters reach \<open>nameStatusKind\<close>, so its empty default is never returned.\<close>

definition nameStatusKind :: "char \<Rightarrow> FileChangeKind" where
  "nameStatusKind letter =
     (if letter = CHR ''A'' then FileAdded else if letter = CHR ''M'' then FileModified
      else if letter = CHR ''D'' then FileDeleted else if letter = CHR ''T'' then FileTypeChanged
      else if letter = CHR ''U'' then FileUnmerged else if letter = CHR ''R'' then FileRenamed
      else FileCopied)"

fun nameStatusLoop :: "nat \<Rightarrow> bytes list \<Rightarrow> porc_error + FileChange list" where
  "nameStatusLoop i [] = Inr []"
| "nameStatusLoop i ([] # recs) = Inl (NameStatusEmpty i)"
| "nameStatusLoop i ((letter # score) # recs) =
     (if letter \<in> {CHR ''A'', CHR ''M'', CHR ''D'', CHR ''T'', CHR ''U''} then
        (case recs of
           [] \<Rightarrow> Inl (NameStatusTruncated (letter # score) i)
         | p # recs' \<Rightarrow>
             rbind (nameStatusLoop (i + 2) recs')
               (\<lambda>r. Inr (\<lparr>fc_Kind = nameStatusKind letter, fc_Path = p, fc_OriginalPath = None,
                          fc_Similarity = None\<rparr> # r)))
      else if letter \<in> {CHR ''R'', CHR ''C''} then
        (case recs of
           orig # new # recs' \<Rightarrow>
             (case (if score = [] then Inr 0 else AtoiR score) of
                Inl e \<Rightarrow> Inl (NameStatusSimilarity (letter # score) e)
              | Inr s \<Rightarrow>
                  rbind (nameStatusLoop (i + 3) recs')
                    (\<lambda>r. Inr (\<lparr>fc_Kind = nameStatusKind letter, fc_Path = new,
                               fc_OriginalPath = Some orig, fc_Similarity = Some s\<rparr> # r)))
         | _ \<Rightarrow> Inl (NameStatusTruncated (letter # score) i))
      else Inl (NameStatusLetter (letter # score)))"

definition ParseNameStatusRecords :: "bytes list \<Rightarrow> porc_error + FileChange list" where
  "ParseNameStatusRecords records = nameStatusLoop 0 records"

section \<open>The merge prediction\<close>

definition MergeTreeArgs :: "bytes \<Rightarrow> bytes \<Rightarrow> bytes \<Rightarrow> argv" where
  "MergeTreeArgs base other mergeBase =
     [''merge-tree'', ''--write-tree'', ''--messages'', ''--name-only'', ''-z'']
     @ (if mergeBase \<noteq> [] then [''--merge-base='' @ mergeBase] else []) @ [base, other]"

datatype PredictionKind = PredClean | PredConflicts

record MergePrediction =
  mp_Kind :: PredictionKind
  mp_TreeID :: sha
  mp_Paths :: "path list"
  mp_Messages :: "bytes list"

definition splitNULTerminated :: "bytes \<Rightarrow> bytes list" where
  "splitNULTerminated raw =
     (let parts = SplitByte raw nul
      in if parts \<noteq> [] \<and> last parts = [] then butlast parts else parts)"

text \<open>The path loop: the paths before the empty terminator and what follows it.\<close>

fun mergePaths :: "bytes list \<Rightarrow> path list \<times> bytes list" where
  "mergePaths [] = ([], [])"
| "mergePaths (r # rest) =
     (if r = [] then ([], rest) else let (ps, rest') = mergePaths rest in (r # ps, rest'))"

text \<open>
  The message loop.  \<open>1 + n + 2\<close> is 64-bit arithmetic: for a count close to the largest integer it
  wraps to a negative number, the length test passes and the index is out of range.
\<close>

function mergeMessages :: "bytes list \<Rightarrow> porc_error + bytes list" where
  "mergeMessages [] = Inr []"
| "mergeMessages (c # rest) =
     (case Atoi c of
        (n, err) \<Rightarrow>
          (if err \<noteq> None \<or> n < 0 then Inl (MergeBadCount c)
           else let need = wrap64 (1 + n + 2)
             in if int (length (c # rest)) < need then Inl (MergeTruncated (nat need) (length (c # rest)))
                else if need < 0 then Inl RuntimePanic
                else rbind (mergeMessages (drop (nat n + 2) rest))
                       (\<lambda>ms. Inr (rest ! (nat n + 1) # ms))))"
  by pat_completeness auto
termination
  by (relation "measure length") auto

definition ParseMergeTreeOutput :: "bytes \<Rightarrow> int \<Rightarrow> porc_error + MergePrediction" where
  "ParseMergeTreeOutput stdout exitCode =
     (if exitCode \<noteq> 0 \<and> exitCode \<noteq> 1 then Inl (MergeExit exitCode)
      else case splitNULTerminated stdout of
        [] \<Rightarrow> Inl MergeNoOutput
      | treeID # rest0 \<Rightarrow>
          (let (paths, rest) = mergePaths rest0
           in if paths \<noteq> [] \<and> rest = [] then Inl MergePathsUnterminated
              else rbind (mergeMessages rest) (\<lambda>messages.
                Inr (if exitCode = 0
                     then \<lparr>mp_Kind = PredClean, mp_TreeID = treeID, mp_Paths = [], mp_Messages = messages\<rparr>
                     else \<lparr>mp_Kind = PredConflicts, mp_TreeID = [], mp_Paths = paths, mp_Messages = messages\<rparr>))))"

section \<open>Reading back what git prints\<close>

definition kindLetter :: "FileChangeKind \<Rightarrow> char" where
  "kindLetter k =
     (case k of FileAdded \<Rightarrow> CHR ''A'' | FileModified \<Rightarrow> CHR ''M'' | FileDeleted \<Rightarrow> CHR ''D''
      | FileTypeChanged \<Rightarrow> CHR ''T'' | FileUnmerged \<Rightarrow> CHR ''U'' | FileRenamed \<Rightarrow> CHR ''R'' | FileCopied \<Rightarrow> CHR ''C'')"

definition changeRecords :: "FileChange \<Rightarrow> bytes list" where
  "changeRecords c =
     (case (fc_OriginalPath c, fc_Similarity c) of
        (Some orig, Some s) \<Rightarrow> [kindLetter (fc_Kind c) # Itoa s, orig, fc_Path c]
      | _ \<Rightarrow> [[kindLetter (fc_Kind c)], fc_Path c])"

definition wfChange :: "FileChange \<Rightarrow> bool" where
  "wfChange c \<longleftrightarrow>
     (if fc_Kind c \<in> {FileRenamed, FileCopied}
      then fc_OriginalPath c \<noteq> None \<and> (case fc_Similarity c of None \<Rightarrow> False | Some s \<Rightarrow> 0 \<le> s \<and> s \<le> 100)
      else fc_OriginalPath c = None \<and> fc_Similarity c = None)"

lemma Itoa_not_Nil [simp]: "Itoa i \<noteq> []"
  by (simp add: Itoa_def)

lemma nameStatusLoop_change:
  "wfChange c \<Longrightarrow> nameStatusLoop i (changeRecords c @ recs) =
     rbind (nameStatusLoop (i + length (changeRecords c)) recs) (\<lambda>r. Inr (c # r))"
  by (cases c; cases "fc_Kind c")
    (auto simp: wfChange_def changeRecords_def kindLetter_def nameStatusKind_def AtoiR_Itoa numeral_eq_Suc
      split: option.splits)

text \<open>
  the file list reads back every change git can print, in order: the five one-path kinds and
  renames and copies with their original path and similarity, and never a path taken for a letter.
\<close>

theorem name_status_roundtrip:
  assumes "list_all wfChange cs"
  shows "ParseNameStatusRecords (concat (map changeRecords cs)) = Inr cs"
proof -
  have "nameStatusLoop i (concat (map changeRecords cs)) = Inr cs" for i
    using assms by (induction cs arbitrary: i) (simp_all add: nameStatusLoop_change)
  then show ?thesis by (simp add: ParseNameStatusRecords_def)
qed

theorem name_status_roundtrip_witness:
  "ParseNameStatusRecords [''R97'', ''A'', ''b'', ''M'', ''R1''] =
     Inr [\<lparr>fc_Kind = FileRenamed, fc_Path = ''b'', fc_OriginalPath = Some ''A'', fc_Similarity = Some 97\<rparr>,
          \<lparr>fc_Kind = FileModified, fc_Path = ''R1'', fc_OriginalPath = None, fc_Similarity = None\<rparr>]"
proof -
  have "Itoa 97 = ''97''" by code_simp
  then show ?thesis
    using name_status_roundtrip [of "[\<lparr>fc_Kind = FileRenamed, fc_Path = ''b'', fc_OriginalPath = Some ''A'', fc_Similarity = Some 97\<rparr>,
          \<lparr>fc_Kind = FileModified, fc_Path = ''R1'', fc_OriginalPath = None, fc_Similarity = None\<rparr>]"]
    by (simp add: wfChange_def changeRecords_def kindLetter_def)
qed

text \<open>What merge-tree writes: the tree, the conflicted paths, an empty field, the messages.\<close>

record MergeMessage =
  mm_paths :: "path list"
  mm_category :: bytes
  mm_text :: bytes

definition messageFields :: "MergeMessage \<Rightarrow> bytes list" where
  "messageFields m = Itoa (int (length (mm_paths m))) # mm_paths m @ [mm_category m, mm_text m]"

definition mergeFields :: "sha \<Rightarrow> path list \<Rightarrow> MergeMessage list \<Rightarrow> bytes list" where
  "mergeFields tree paths ms = tree # paths @ [] # concat (map messageFields ms)"

lemma mergePaths_terminated: "list_all (\<lambda>p. p \<noteq> []) ps \<Longrightarrow> mergePaths (ps @ [] # rest) = (ps, rest)"
  by (induction ps) auto

lemma mergeMessages_fields:
  "list_all (\<lambda>m. length (mm_paths m) < 2 ^ 62) ms \<Longrightarrow>
   mergeMessages (concat (map messageFields ms)) = Inr (map mm_text ms)"
proof (induction ms)
  case (Cons m ms)
  let ?n = "int (length (mm_paths m))"
  have "Atoi (Itoa ?n) = (?n, None)" "wrap64 (1 + ?n + 2) = 3 + ?n"
    using Cons.prems Atoi_Itoa [of ?n] wrap64_id [of "3 + ?n"] by (simp_all add: algebra_simps)
  then show ?case using Cons by (simp add: messageFields_def Let_def nth_append)
qed simp

text \<open>
  the merge prediction reports what merge-tree found.  For NUL-free fields and non-empty paths,
  with at least one message whenever there are conflicted paths, exit status 0 reads as clean with
  the tree id, exit status 1 as conflicts with exactly the conflicted paths, both with the message
  texts in order; any other exit status is refused.
\<close>

theorem merge_tree_roundtrip:
  assumes "list_all (\<lambda>f. nul \<notin> set f) (mergeFields tree paths ms)" and "list_all (\<lambda>p. p \<noteq> []) paths"
    and "list_all (\<lambda>m. length (mm_paths m) < 2 ^ 62) ms" and "paths = [] \<or> ms \<noteq> []"
  shows "ParseMergeTreeOutput (terminated nul (mergeFields tree paths ms)) exitCode =
    (if exitCode = 0
     then Inr \<lparr>mp_Kind = PredClean, mp_TreeID = tree, mp_Paths = [], mp_Messages = map mm_text ms\<rparr>
     else if exitCode = 1
     then Inr \<lparr>mp_Kind = PredConflicts, mp_TreeID = [], mp_Paths = paths, mp_Messages = map mm_text ms\<rparr>
     else Inl (MergeExit exitCode))"
proof -
  have "SplitByte (terminated nul (mergeFields tree paths ms)) nul = mergeFields tree paths ms @ [[]]"
    using SplitByte_terminated [of "mergeFields tree paths ms" nul "[]"] assms(1) by (simp add: list_all_iff)
  then have "splitNULTerminated (terminated nul (mergeFields tree paths ms)) = mergeFields tree paths ms"
    by (simp add: splitNULTerminated_def Let_def)
  moreover have "paths = [] \<or> concat (map messageFields ms) \<noteq> []"
    using assms(4) by (cases ms) (simp_all add: messageFields_def)
  ultimately show ?thesis
    using mergePaths_terminated [OF assms(2)] mergeMessages_fields [OF assms(3)]
    by (auto simp: ParseMergeTreeOutput_def mergeFields_def)
qed

theorem merge_tree_roundtrip_witness:
  "ParseMergeTreeOutput (terminated nul (mergeFields ''t1'' [''a b'']
      [\<lparr>mm_paths = [''a b''], mm_category = ''CONFLICT'', mm_text = ''boom''\<rparr>])) 1 =
    Inr \<lparr>mp_Kind = PredConflicts, mp_TreeID = [], mp_Paths = [''a b''], mp_Messages = [''boom'']\<rparr>"
proof -
  have "Itoa 1 = ''1''" by code_simp
  then show ?thesis
    using merge_tree_roundtrip [of "''t1''" "[''a b'']" "[\<lparr>mm_paths = [''a b''], mm_category = ''CONFLICT'', mm_text = ''boom''\<rparr>]" 1]
    by (simp add: mergeFields_def messageFields_def)
qed

text \<open>
  Two corners of the parser.  A conflict list that did reach its terminator but carries no message
  is refused as unterminated, and a message whose path count is close to the largest integer makes
  the field arithmetic wrap and the parser panic instead of reporting the truncation.
\<close>

lemma merge_tree_no_messages_refused:
  assumes "p \<noteq> []" and "nul \<notin> set p" and "nul \<notin> set tree"
  shows "ParseMergeTreeOutput (terminated nul (mergeFields tree [p] [])) 1 = Inl MergePathsUnterminated"
proof -
  have "SplitByte (terminated nul [tree, p, []]) nul = [tree, p, [], []]"
    using assms by (simp add: SplitByte_append)
  then show ?thesis
    using assms(1) by (simp add: ParseMergeTreeOutput_def mergeFields_def splitNULTerminated_def)
qed

lemma merge_tree_count_panics: "mergeMessages [''9223372036854775807''] = Inl RuntimePanic"
proof -
  have "Atoi ''9223372036854775807'' = (9223372036854775807, None)"
    by (simp add: Atoi_def parseMagnitude_def isDigit_def digitVal_def)
  then show ?thesis by (simp add: wrap64_def)
qed

end
