(* ===== verification/DiffParse.thy ===== *)
theory DiffParse
  imports DiffTree
begin

text \<open>
  \<^verbatim>\<open>gitclient/porcelain/diff.go\<close>: the parser of one file's unified patch.  The regular expressions
  are written out as the matchers they denote; Go's \<^verbatim>\<open>int\<close> line numbers wrap at 64 bits.
\<close>

section \<open>Types\<close>

definition FileDiffArgs :: "bytes option \<Rightarrow> bytes \<Rightarrow> path \<Rightarrow> path option \<Rightarrow> argv" where
  "FileDiffArgs from to' path originalPath =
     appendRevPair
       [''diff-tree'', ''-r'', ''-p'', ''-M'', ''-C'', ''--no-commit-id'', ''--no-color'', ''--no-ext-diff'',
        ''--no-textconv'', ''-z'', ''--unified=3''] from to'
     @ [''--''] @ (case originalPath of Some o' \<Rightarrow> [o', path] | None \<Rightarrow> [path])"

definition WorktreeDiffArgs :: "bytes \<Rightarrow> path \<Rightarrow> argv" where
  "WorktreeDiffArgs rev' path =
     [''diff'', ''--no-color'', ''--no-ext-diff'', ''--no-textconv'', ''--no-renames'', ''-z'', ''--unified=3'',
      rev', ''--'', path]"

datatype DiffLineKind = LineContext | LineAdd | LineDel

record DiffLine =
  dl_Kind :: DiffLineKind
  dl_Text :: bytes
  dl_OldLine :: "int option"
  dl_NewLine :: "int option"
  dl_NoNewlineAtEof :: bool

record DiffHunk =
  dh_OldStart :: int
  dh_OldLines :: int
  dh_NewStart :: int
  dh_NewLines :: int
  dh_Heading :: bytes
  dh_Lines :: "DiffLine list"

datatype EmptyReason = ModeChangeOnly | Identical

datatype ParsedBody =
    ParsedText "DiffHunk list"
  | ParsedBinary sha sha
  | ParsedLFSPointer bytes int
  | ParsedEmpty EmptyReason

section \<open>Regular expressions\<close>

definition isHex :: "char \<Rightarrow> bool" where
  "isHex c \<longleftrightarrow> isDigit c \<or> 97 \<le> (of_char c :: nat) \<and> (of_char c :: nat) \<le> 102"

text \<open>\<open>^index ([0-9a-f]+)\.\.([0-9a-f]+)(?: \d+)?$\<close>\<close>

definition indexLineRe :: "bytes \<Rightarrow> (sha \<times> sha) option" where
  "indexLineRe line =
     (if \<not> HasPrefix line ''index '' then None
      else let r = drop 6 line; a = takeWhile isHex r; r2 = dropWhile isHex r
        in if a = [] \<or> \<not> HasPrefix r2 ''..'' then None
           else let r3 = drop 2 r2; b = takeWhile isHex r3; r4 = dropWhile isHex r3
             in if b \<noteq> [] \<and> (r4 = [] \<or> HasPrefix r4 '' '' \<and> tl r4 \<noteq> [] \<and> list_all isDigit (tl r4))
                then Some (a, b) else None)"

text \<open>\<open>(\d+)(?:,(\d+))?\<close> at the start of a text: the start, the count if any, and what follows.\<close>

definition rangeRe :: "bytes \<Rightarrow> (bytes \<times> bytes \<times> bytes) option" where
  "rangeRe s =
     (let a = takeWhile isDigit s; r = dropWhile isDigit s
      in if a = [] then None
         else if HasPrefix r '','' \<and> takeWhile isDigit (tl r) \<noteq> []
         then Some (a, takeWhile isDigit (tl r), dropWhile isDigit (tl r))
         else Some (a, [], r))"

text \<open>\<open>^@@ -(\d+)(?:,(\d+))? \+(\d+)(?:,(\d+))? @@ ?(.*)$\<close>, on a line without newline.\<close>

definition hunkHeaderRe :: "bytes \<Rightarrow> (bytes \<times> bytes \<times> bytes \<times> bytes \<times> bytes) option" where
  "hunkHeaderRe line =
     (if \<not> HasPrefix line ''@@ -'' then None
      else case rangeRe (drop 4 line) of
        None \<Rightarrow> None
      | Some (m1, m2, r) \<Rightarrow>
          (if \<not> HasPrefix r '' +'' then None
           else case rangeRe (drop 2 r) of
             None \<Rightarrow> None
           | Some (m3, m4, r') \<Rightarrow>
               (if \<not> HasPrefix r' '' @@'' then None
                else Some (m1, m2, m3, m4, TrimPrefix (drop 3 r') '' ''))))"

text \<open>The LFS pointer expression; its groups are the object id and the size.\<close>

definition lfsPointerRe :: "bytes \<Rightarrow> (bytes \<times> bytes) option" where
  "lfsPointerRe text =
     (let pre = ''version https://git-lfs.github.com/spec/v1'' @ [newline] @ ''oid '';
          r = drop (length pre) text; hex = take 64 (drop 7 r); r2 = drop 71 r; r3 = drop 6 r2;
          ds = takeWhile isDigit r3; r4 = dropWhile isDigit r3
      in if HasPrefix text pre \<and> HasPrefix r ''sha256:'' \<and> length hex = 64 \<and> list_all isHex hex
            \<and> HasPrefix r2 (newline # ''size '') \<and> ds \<noteq> [] \<and> (r4 = [] \<or> HasPrefix r4 [newline])
         then Some (''sha256:'' @ hex, ds) else None)"

section \<open>Hunks\<close>

definition parseHunkCount :: "bytes \<Rightarrow> bytes \<Rightarrow> porc_error + int \<times> int" where
  "parseHunkCount numStr countStr =
     (case AtoiR numStr of
        Inl e \<Rightarrow> Inl (HunkStart numStr e)
      | Inr start \<Rightarrow>
          (if countStr = [] then Inr (start, 1)
           else case AtoiR countStr of Inl e \<Rightarrow> Inl (HunkCount countStr e) | Inr n \<Rightarrow> Inr (start, n)))"

record HunkState =
  hs_lines :: "DiffLine list"
  hs_oldLineNo :: int
  hs_newLineNo :: int
  hs_oldSeen :: nat
  hs_newSeen :: nat
  hs_consumed :: nat

definition addLine :: "char \<Rightarrow> bytes \<Rightarrow> HunkState \<Rightarrow> HunkState option" where
  "addLine marker text s =
     (if marker = CHR '' '' then
        Some (s\<lparr>hs_lines := hs_lines s @ [\<lparr>dl_Kind = LineContext, dl_Text = text, dl_OldLine = Some (hs_oldLineNo s),
                  dl_NewLine = Some (hs_newLineNo s), dl_NoNewlineAtEof = False\<rparr>],
                hs_oldLineNo := wrap64 (hs_oldLineNo s + 1), hs_newLineNo := wrap64 (hs_newLineNo s + 1),
                hs_oldSeen := hs_oldSeen s + 1, hs_newSeen := hs_newSeen s + 1,
                hs_consumed := hs_consumed s + 1\<rparr>)
      else if marker = CHR ''-'' then
        Some (s\<lparr>hs_lines := hs_lines s @ [\<lparr>dl_Kind = LineDel, dl_Text = text, dl_OldLine = Some (hs_oldLineNo s),
                  dl_NewLine = None, dl_NoNewlineAtEof = False\<rparr>],
                hs_oldLineNo := wrap64 (hs_oldLineNo s + 1), hs_oldSeen := hs_oldSeen s + 1,
                hs_consumed := hs_consumed s + 1\<rparr>)
      else if marker = CHR ''+'' then
        Some (s\<lparr>hs_lines := hs_lines s @ [\<lparr>dl_Kind = LineAdd, dl_Text = text, dl_OldLine = None,
                  dl_NewLine = Some (hs_newLineNo s), dl_NoNewlineAtEof = False\<rparr>],
                hs_newLineNo := wrap64 (hs_newLineNo s + 1), hs_newSeen := hs_newSeen s + 1,
                hs_consumed := hs_consumed s + 1\<rparr>)
      else None)"

definition backslash :: char where
  "backslash = CHR 0x5C"

definition lineMarker :: "bytes \<Rightarrow> char" where
  "lineMarker line = (if line = [] then CHR '' '' else hd line)"

fun hunkLoop :: "int \<Rightarrow> int \<Rightarrow> bytes list \<Rightarrow> HunkState \<Rightarrow> porc_error + HunkState" where
  "hunkLoop oldLines newLines [] s = Inr s"
| "hunkLoop oldLines newLines (line # rest) s =
     (if line \<noteq> [] \<and> hd line = backslash then
        (if hs_lines s = [] then Inl (HunkOrphanMarker line)
         else hunkLoop oldLines newLines rest
           (s\<lparr>hs_lines := butlast (hs_lines s) @ [(last (hs_lines s))\<lparr>dl_NoNewlineAtEof := True\<rparr>],
              hs_consumed := hs_consumed s + 1\<rparr>))
      else if oldLines \<le> int (hs_oldSeen s) \<and> newLines \<le> int (hs_newSeen s) then Inr s
      else case addLine (lineMarker line) (tl line) s of
        None \<Rightarrow> Inl (HunkMarker (lineMarker line) line)
      | Some s' \<Rightarrow> hunkLoop oldLines newLines rest s')"

definition parseOneHunk ::
  "bytes \<times> bytes \<times> bytes \<times> bytes \<times> bytes \<Rightarrow> bytes list \<Rightarrow> porc_error + DiffHunk \<times> nat" where
  "parseOneHunk m rest =
     (case m of (m1, m2, m3, m4, m5) \<Rightarrow>
        rbind (parseHunkCount m1 m2) (\<lambda>(oldStart, oldLines).
        rbind (parseHunkCount m3 m4) (\<lambda>(newStart, newLines).
        rbind (hunkLoop oldLines newLines rest
                 \<lparr>hs_lines = [], hs_oldLineNo = oldStart, hs_newLineNo = newStart, hs_oldSeen = 0,
                  hs_newSeen = 0, hs_consumed = 0\<rparr>) (\<lambda>s.
          if int (hs_oldSeen s) \<noteq> oldLines \<or> int (hs_newSeen s) \<noteq> newLines
          then Inl (HunkCounts oldStart oldLines newStart newLines (hs_oldSeen s) (hs_newSeen s))
          else Inr (\<lparr>dh_OldStart = oldStart, dh_OldLines = oldLines, dh_NewStart = newStart,
                     dh_NewLines = newLines, dh_Heading = m5, dh_Lines = hs_lines s\<rparr>, hs_consumed s)))))"

function parseHunks :: "bytes list \<Rightarrow> porc_error + DiffHunk list" where
  "parseHunks [] = Inr []"
| "parseHunks (line # rest) =
     (case hunkHeaderRe line of
        None \<Rightarrow> Inl (BadHunkHeader line)
      | Some m \<Rightarrow>
          (case parseOneHunk m rest of
             Inl e \<Rightarrow> Inl e
           | Inr (hunk, consumed) \<Rightarrow> rbind (parseHunks (drop consumed rest)) (\<lambda>hs. Inr (hunk # hs))))"
  by pat_completeness auto
termination
  by (relation "measure length") auto

section \<open>The body\<close>

definition newText :: "DiffLine list \<Rightarrow> bytes" where
  "newText ls = concat (map (\<lambda>l. dl_Text l @ [newline]) (filter (\<lambda>l. dl_Kind l = LineAdd) ls))"

definition lfsOrText :: "DiffHunk list \<Rightarrow> ParsedBody" where
  "lfsOrText hunks =
     (case hunks of
        [hunk] \<Rightarrow>
          (let adds = filter (\<lambda>l. dl_Kind l = LineAdd) (dh_Lines hunk)
           in if list_all (\<lambda>l. dl_Kind l \<noteq> LineContext) (dh_Lines hunk) \<and> adds \<noteq> [] then
                (let full = newText (dh_Lines hunk);
                     text = (if dl_NoNewlineAtEof (last adds) then butlast full else full)
                 in case lfsPointerRe text of
                      None \<Rightarrow> ParsedText hunks
                    | Some (oid, size') \<Rightarrow>
                        (case AtoiR size' of Inr n \<Rightarrow> ParsedLFSPointer oid n | Inl _ \<Rightarrow> ParsedText hunks))
              else ParsedText hunks)
      | _ \<Rightarrow> ParsedText hunks)"

fun bodyLoop :: "bytes list \<Rightarrow> sha \<Rightarrow> sha \<Rightarrow> bool \<Rightarrow> bool \<Rightarrow> porc_error + ParsedBody" where
  "bodyLoop [] oldOID newOID sawOldMode sawNewMode =
     Inr (ParsedEmpty (if sawOldMode \<and> sawNewMode then ModeChangeOnly else Identical))"
| "bodyLoop (line # rest) oldOID newOID sawOldMode sawNewMode =
     (if HasPrefix line ''Binary files '' \<and> HasSuffix line '' differ'' then
        (if oldOID = [] \<or> newOID = [] then Inl BinaryNoIndex else Inr (ParsedBinary oldOID newOID))
      else if HasPrefix line ''@@ '' then rbind (parseHunks (line # rest)) (\<lambda>hunks. Inr (lfsOrText hunks))
      else if HasPrefix line ''index '' then
        (case indexLineRe line of
           None \<Rightarrow> Inl (BadIndexLine line)
         | Some (a, b) \<Rightarrow> bodyLoop rest a b sawOldMode sawNewMode)
      else if HasPrefix line ''old mode '' then bodyLoop rest oldOID newOID True sawNewMode
      else if HasPrefix line ''new mode '' then bodyLoop rest oldOID newOID sawOldMode True
      else bodyLoop rest oldOID newOID sawOldMode sawNewMode)"

definition ParseFileDiffBody :: "bytes \<Rightarrow> porc_error + ParsedBody" where
  "ParseFileDiffBody raw =
     (if raw = [] then Inr (ParsedEmpty Identical)
      else bodyLoop (SplitByte (TrimSuffix raw [newline]) newline) [] [] False False)"

fun deletedLoop :: "bytes list \<Rightarrow> bool" where
  "deletedLoop [] = False"
| "deletedLoop (line # rest) =
     (if HasPrefix line ''@@ '' then False
      else if HasPrefix line ''deleted file mode'' \<or> line = ''+++ /dev/null'' then True
      else deletedLoop rest)"

definition HasDeletedPostImage :: "bytes \<Rightarrow> bool" where
  "HasDeletedPostImage raw = deletedLoop (SplitByte raw newline)"

section \<open>The counts invariant\<close>

fun numbered :: "int \<Rightarrow> int \<Rightarrow> DiffLine list \<Rightarrow> bool" where
  "numbered o' n [] \<longleftrightarrow> True"
| "numbered o' n (l # ls) \<longleftrightarrow>
     (case dl_Kind l of
        LineContext \<Rightarrow> dl_OldLine l = Some o' \<and> dl_NewLine l = Some n \<and> numbered (wrap64 (o' + 1)) (wrap64 (n + 1)) ls
      | LineDel \<Rightarrow> dl_OldLine l = Some o' \<and> dl_NewLine l = None \<and> numbered (wrap64 (o' + 1)) n ls
      | LineAdd \<Rightarrow> dl_OldLine l = None \<and> dl_NewLine l = Some n \<and> numbered o' (wrap64 (n + 1)) ls)"

definition oldSide :: "DiffLine list \<Rightarrow> nat" where
  "oldSide ls = length (filter (\<lambda>l. dl_Kind l \<noteq> LineAdd) ls)"

definition newSide :: "DiffLine list \<Rightarrow> nat" where
  "newSide ls = length (filter (\<lambda>l. dl_Kind l \<noteq> LineDel) ls)"

text \<open>A line as the patch prints it, with the end-of-file marker after it.\<close>

definition noNewlineMarker :: bytes where
  "noNewlineMarker = backslash # '' No newline at end of file''"

definition lineRecords :: "DiffLine \<Rightarrow> bytes list" where
  "lineRecords l =
     ((case dl_Kind l of LineContext \<Rightarrow> CHR '' '' | LineDel \<Rightarrow> CHR ''-'' | LineAdd \<Rightarrow> CHR ''+'') # dl_Text l)
     # (if dl_NoNewlineAtEof l then [noNewlineMarker] else [])"

text \<open>What the loop has read so far, before the first counted line still missing.\<close>

fun bumpOld :: "int \<Rightarrow> nat \<Rightarrow> int" where
  "bumpOld o' 0 = o'"
| "bumpOld o' (Suc k) = wrap64 (bumpOld o' k + 1)"

lemma bumpOld_shift: "bumpOld (wrap64 (o' + 1)) k = wrap64 (bumpOld o' k + 1)"
  by (induction k) simp_all

lemma numbered_snoc:
  "numbered o' n (ls @ [l]) \<longleftrightarrow> numbered o' n ls \<and> numbered (bumpOld o' (oldSide ls)) (bumpOld n (newSide ls)) [l]"
  by (induction ls arbitrary: o' n)
    (auto simp: oldSide_def newSide_def bumpOld_shift split: DiffLineKind.splits)

lemma numbered_mark: "numbered o' n (ls @ [l\<lparr>dl_NoNewlineAtEof := b\<rparr>]) = numbered o' n (ls @ [l])"
  by (simp add: numbered_snoc split: DiffLineKind.split)

definition hunkInv :: "int \<Rightarrow> int \<Rightarrow> HunkState \<Rightarrow> bool" where
  "hunkInv o' n s \<longleftrightarrow> numbered o' n (hs_lines s) \<and> hs_oldSeen s = oldSide (hs_lines s)
     \<and> hs_newSeen s = newSide (hs_lines s) \<and> hs_oldLineNo s = bumpOld o' (oldSide (hs_lines s))
     \<and> hs_newLineNo s = bumpOld n (newSide (hs_lines s))"

lemma addLine_inv: "hunkInv o' n s \<Longrightarrow> addLine m t s = Some s' \<Longrightarrow> hunkInv o' n s' \<and> hs_consumed s' = Suc (hs_consumed s)"
  by (auto simp: addLine_def hunkInv_def numbered_snoc oldSide_def newSide_def split: if_splits)

lemma hunkLoop_inv:
  "hunkLoop ol nl rest s = Inr s' \<Longrightarrow> hunkInv o' n s \<Longrightarrow>
   hunkInv o' n s' \<and> hs_consumed s' \<le> hs_consumed s + length rest"
proof (induction ol nl rest s rule: hunkLoop.induct)
  case (2 ol nl line rest s)
  consider (marker) "line \<noteq> [] \<and> hd line = backslash"
    | (full) "\<not> (line \<noteq> [] \<and> hd line = backslash)" "ol \<le> int (hs_oldSeen s) \<and> nl \<le> int (hs_newSeen s)"
    | (add) "\<not> (line \<noteq> [] \<and> hd line = backslash)" "\<not> (ol \<le> int (hs_oldSeen s) \<and> nl \<le> int (hs_newSeen s))"
    by blast
  then show ?case
  proof cases
    case marker
    let ?s = "s\<lparr>hs_lines := butlast (hs_lines s) @ [(last (hs_lines s))\<lparr>dl_NoNewlineAtEof := True\<rparr>],
              hs_consumed := hs_consumed s + 1\<rparr>"
    have ne: "hs_lines s \<noteq> []" and run: "hunkLoop ol nl rest ?s = Inr s'"
      using "2.prems"(1) marker by (auto split: if_splits)
    obtain ls l where ls: "hs_lines s = ls @ [l]" using ne by (cases "hs_lines s" rule: rev_cases) auto
    have "hunkInv o' n ?s"
      using "2.prems"(2) by (simp add: hunkInv_def ls numbered_mark oldSide_def newSide_def)
    then show ?thesis using "2.IH"(1) [OF marker ne run] by simp
  next
    case full
    then show ?thesis using "2.prems" by (auto split: if_splits)
  next
    case add
    obtain s1 where s1: "addLine (lineMarker line) (tl line) s = Some s1" and run: "hunkLoop ol nl rest s1 = Inr s'"
      using "2.prems"(1) add by (auto split: option.splits if_splits)
    show ?thesis
      using "2.IH"(2) [OF add s1 run] addLine_inv [OF "2.prems"(2) s1] by simp
  qed
qed simp

text \<open>
  no half-rendered hunk.  Whenever \<open>parseOneHunk\<close> accepts, the hunk holds exactly as many
  old-side and new-side lines as its header announces, its lines carry consecutive old and new line
  numbers from the header's starts, one side missing exactly for additions and deletions, and it
  has consumed no more lines than there are.
\<close>

theorem parseOneHunk_counts:
  assumes "parseOneHunk m rest = Inr (h, consumed)"
  shows "int (oldSide (dh_Lines h)) = dh_OldLines h \<and> int (newSide (dh_Lines h)) = dh_NewLines h
    \<and> numbered (dh_OldStart h) (dh_NewStart h) (dh_Lines h) \<and> consumed \<le> length rest"
proof -
  obtain m1 m2 m3 m4 m5 where m: "m = (m1, m2, m3, m4, m5)" by (cases m)
  obtain os ol ns nl s where run: "hunkLoop ol nl rest \<lparr>hs_lines = [], hs_oldLineNo = os, hs_newLineNo = ns, hs_oldSeen = 0,
                  hs_newSeen = 0, hs_consumed = 0\<rparr> = Inr s"
    and "int (hs_oldSeen s) = ol \<and> int (hs_newSeen s) = nl"
    and "h = \<lparr>dh_OldStart = os, dh_OldLines = ol, dh_NewStart = ns,
                     dh_NewLines = nl, dh_Heading = m5, dh_Lines = hs_lines s\<rparr> \<and> consumed = hs_consumed s"
    using assms by (auto simp: parseOneHunk_def m rbind_eq_Inr split: if_splits)
  then show ?thesis
    using hunkLoop_inv [OF run, of os ns] by (auto simp: hunkInv_def oldSide_def newSide_def)
qed

theorem parseOneHunk_counts_witness:
  "\<exists>h. parseOneHunk (''3'', ''2'', ''3'', [], ''f'') ['' a'', ''-b'', noNewlineMarker, ''@@ -9 +8 @@''] = Inr (h, 3)
     \<and> int (oldSide (dh_Lines h)) = 2 \<and> int (newSide (dh_Lines h)) = 1 \<and> numbered 3 3 (dh_Lines h)"
proof -
  have "AtoiR ''3'' = Inr 3" "AtoiR ''2'' = Inr 2"
    by (simp_all add: AtoiR_def Atoi_def parseMagnitude_def isDigit_def digitVal_def)
  then obtain h where h: "parseOneHunk (''3'', ''2'', ''3'', [], ''f'') ['' a'', ''-b'', noNewlineMarker, ''@@ -9 +8 @@''] = Inr (h, 3)"
    and "dh_OldStart h = 3 \<and> dh_OldLines h = 2 \<and> dh_NewStart h = 3 \<and> dh_NewLines h = 1"
    by (simp add: parseOneHunk_def parseHunkCount_def addLine_def noNewlineMarker_def backslash_def lineMarker_def
        numeral_eq_Suc)
  then show ?thesis using parseOneHunk_counts [OF h] by auto
qed

section \<open>Reading back a patch\<close>

text \<open>
  A header as patches have it: git leaves out a count of 1, other writers (\<open>full\<close>) print every count;
  the heading is set off by a blank when there is one.
\<close>

definition countGroup :: "bool \<Rightarrow> int \<Rightarrow> bytes" where
  "countGroup full n = (if n = 1 \<and> \<not> full then [] else Itoa n)"

definition rangeText :: "bool \<Rightarrow> int \<Rightarrow> int \<Rightarrow> bytes" where
  "rangeText full start n = Itoa start @ (if n = 1 \<and> \<not> full then [] else '','' @ Itoa n)"

definition hunkHeader :: "bool \<Rightarrow> DiffHunk \<Rightarrow> bytes" where
  "hunkHeader full h = ''@@ -'' @ rangeText full (dh_OldStart h) (dh_OldLines h)
     @ '' +'' @ rangeText full (dh_NewStart h) (dh_NewLines h) @ '' @@''
     @ (if dh_Heading h = [] then [] else CHR '' '' # dh_Heading h)"

definition hunkRecords :: "bool \<Rightarrow> DiffHunk \<Rightarrow> bytes list" where
  "hunkRecords full h = hunkHeader full h # concat (map lineRecords (dh_Lines h))"

definition wfHunk :: "DiffHunk \<Rightarrow> bool" where
  "wfHunk h \<longleftrightarrow> numbered (dh_OldStart h) (dh_NewStart h) (dh_Lines h)
     \<and> dh_OldLines h = int (oldSide (dh_Lines h)) \<and> dh_NewLines h = int (newSide (dh_Lines h))
     \<and> length (dh_Lines h) < 2 ^ 63 \<and> 0 \<le> dh_OldStart h \<and> dh_OldStart h < 2 ^ 63
     \<and> 0 \<le> dh_NewStart h \<and> dh_NewStart h < 2 ^ 63"

lemma rangeRe_text:
  assumes "0 \<le> a" and "0 \<le> b"
  shows "rangeRe (rangeText full a b @ CHR '' '' # s) = Some (Itoa a, countGroup full b, CHR '' '' # s)"
proof -
  have nd: "\<not> isDigit (CHR '' '')" "\<not> isDigit (CHR '','')" by (simp_all add: isDigit_def)
  have "takeWhile isDigit (Itoa a @ c # t) = Itoa a" "dropWhile isDigit (Itoa a @ c # t) = c # t"
    "takeWhile isDigit (Itoa b @ c # t) = Itoa b" "dropWhile isDigit (Itoa b @ c # t) = c # t"
    if "c = CHR '' '' \<or> c = CHR '',''" for c t
    using Itoa_digits [OF assms(1)] Itoa_digits [OF assms(2)] nd that
    by (auto simp: list_all_iff takeWhile_append2 dropWhile_append2)
  then show ?thesis by (simp add: rangeRe_def rangeText_def countGroup_def Let_def)
qed

lemma hunkHeaderRe_text:
  assumes "wfHunk h"
  shows "hunkHeaderRe (hunkHeader full h) =
    Some (Itoa (dh_OldStart h), countGroup full (dh_OldLines h), Itoa (dh_NewStart h), countGroup full (dh_NewLines h),
      dh_Heading h)"
proof -
  have "rangeRe (rangeText full (dh_OldStart h) (dh_OldLines h) @ CHR '' '' # s) =
      Some (Itoa (dh_OldStart h), countGroup full (dh_OldLines h), CHR '' '' # s)"
    "rangeRe (rangeText full (dh_NewStart h) (dh_NewLines h) @ CHR '' '' # s) =
      Some (Itoa (dh_NewStart h), countGroup full (dh_NewLines h), CHR '' '' # s)" for s
    using assms by (simp_all only: wfHunk_def rangeRe_text of_nat_0_le_iff)
  then show ?thesis by (simp add: hunkHeaderRe_def hunkHeader_def TrimPrefix_def)
qed

lemma addLine_line:
  assumes "numbered (hs_oldLineNo s) (hs_newLineNo s) [l]"
  shows "\<exists>s'. addLine (hd (hd (lineRecords l))) (dl_Text l) s = Some s'
    \<and> hs_lines s' = hs_lines s @ [l\<lparr>dl_NoNewlineAtEof := False\<rparr>]
    \<and> hs_oldSeen s' = hs_oldSeen s + oldSide [l] \<and> hs_newSeen s' = hs_newSeen s + newSide [l]
    \<and> hs_oldLineNo s' = bumpOld (hs_oldLineNo s) (oldSide [l]) \<and> hs_newLineNo s' = bumpOld (hs_newLineNo s) (newSide [l])
    \<and> hs_consumed s' = hs_consumed s + 1"
  using assms
  by (cases "dl_Kind l")
    (auto simp: addLine_def lineRecords_def oldSide_def newSide_def intro!: DiffLine.equality)

lemma hunkLoop_line:
  assumes "numbered (hs_oldLineNo s) (hs_newLineNo s) [l]"
    and "\<not> (ol \<le> int (hs_oldSeen s) \<and> nl \<le> int (hs_newSeen s))"
  shows "\<exists>s'. hunkLoop ol nl (lineRecords l @ rest) s = hunkLoop ol nl rest s'
    \<and> hs_lines s' = hs_lines s @ [l]
    \<and> hs_oldSeen s' = hs_oldSeen s + oldSide [l] \<and> hs_newSeen s' = hs_newSeen s + newSide [l]
    \<and> hs_oldLineNo s' = bumpOld (hs_oldLineNo s) (oldSide [l]) \<and> hs_newLineNo s' = bumpOld (hs_newLineNo s) (newSide [l])
    \<and> hs_consumed s' = hs_consumed s + length (lineRecords l)"
proof -
  obtain s1 where s1: "addLine (hd (hd (lineRecords l))) (dl_Text l) s = Some s1"
    and l1: "hs_lines s1 = hs_lines s @ [l\<lparr>dl_NoNewlineAtEof := False\<rparr>]"
    and rest1: "hs_oldSeen s1 = hs_oldSeen s + oldSide [l] \<and> hs_newSeen s1 = hs_newSeen s + newSide [l]
    \<and> hs_oldLineNo s1 = bumpOld (hs_oldLineNo s) (oldSide [l]) \<and> hs_newLineNo s1 = bumpOld (hs_newLineNo s) (newSide [l])
    \<and> hs_consumed s1 = hs_consumed s + 1"
    using addLine_line [OF assms(1)] by blast
  define m where "m = hd (hd (lineRecords l))"
  have mk: "m \<noteq> backslash" by (cases "dl_Kind l") (simp_all add: lineRecords_def backslash_def m_def)
  have step: "hunkLoop ol nl ((m # dl_Text l) # tail) s = hunkLoop ol nl tail s1" for tail
    using mk s1 assms(2) by (auto simp: lineMarker_def m_def)
  show ?thesis
  proof (cases "dl_NoNewlineAtEof l")
    case True
    then have lr: "lineRecords l = [m # dl_Text l, noNewlineMarker]" and l: "l\<lparr>dl_NoNewlineAtEof := True\<rparr> = l"
      by (simp_all add: lineRecords_def m_def)
    let ?s = "s1\<lparr>hs_lines := hs_lines s @ [l], hs_consumed := hs_consumed s1 + 1\<rparr>"
    have "hunkLoop ol nl (noNewlineMarker # rest) s1 = hunkLoop ol nl rest ?s"
      using l1 l by (simp add: noNewlineMarker_def)
    then have "hunkLoop ol nl (lineRecords l @ rest) s = hunkLoop ol nl rest ?s"
      unfolding lr using step [of "noNewlineMarker # rest"] by simp
    then show ?thesis using rest1 lr by (intro exI [of _ ?s]) simp
  next
    case False
    then have lr: "lineRecords l = [m # dl_Text l]" and l: "l\<lparr>dl_NoNewlineAtEof := False\<rparr> = l"
      by (simp_all add: lineRecords_def m_def)
    have "hunkLoop ol nl (lineRecords l @ rest) s = hunkLoop ol nl rest s1"
      unfolding lr using step [of rest] by simp
    then show ?thesis using l1 l lr rest1 by (intro exI [of _ s1]) simp
  qed
qed

lemma oldSide_Cons: "oldSide (l # ls) = oldSide [l] + oldSide ls"
  and newSide_Cons: "newSide (l # ls) = newSide [l] + newSide ls"
  by (simp_all add: oldSide_def newSide_def)

lemma numbered_Cons:
  "numbered o' n (l # ls) \<longleftrightarrow> numbered o' n [l] \<and> numbered (bumpOld o' (oldSide [l])) (bumpOld n (newSide [l])) ls"
  by (auto simp: oldSide_def newSide_def split: DiffLineKind.splits)

lemma side_counts: "1 \<le> oldSide [l] + newSide [l]"
  by (cases "dl_Kind l") (simp_all add: oldSide_def newSide_def)

lemma hunkLoop_lines:
  assumes "numbered (hs_oldLineNo s) (hs_newLineNo s) ls"
    and "ol = int (hs_oldSeen s + oldSide ls)" and "nl = int (hs_newSeen s + newSide ls)"
  shows "\<exists>s'. hunkLoop ol nl (concat (map lineRecords ls) @ rest) s = hunkLoop ol nl rest s'
    \<and> hs_lines s' = hs_lines s @ ls \<and> int (hs_oldSeen s') = ol \<and> int (hs_newSeen s') = nl
    \<and> hs_consumed s' = hs_consumed s + length (concat (map lineRecords ls))"
  using assms
proof (induction ls arbitrary: s)
  case Nil
  then show ?case by (auto simp: oldSide_def newSide_def)
next
  case (Cons l ls)
  let ?rest = "concat (map lineRecords ls) @ rest"
  have "\<not> (ol \<le> int (hs_oldSeen s) \<and> nl \<le> int (hs_newSeen s))"
    using Cons.prems(2,3) side_counts [of l] oldSide_Cons [of l ls] newSide_Cons [of l ls] by linarith
  then obtain s1 where 1: "hunkLoop ol nl (lineRecords l @ ?rest) s = hunkLoop ol nl ?rest s1"
    and s1: "hs_lines s1 = hs_lines s @ [l]" "hs_oldSeen s1 = hs_oldSeen s + oldSide [l]"
      "hs_newSeen s1 = hs_newSeen s + newSide [l]" "hs_oldLineNo s1 = bumpOld (hs_oldLineNo s) (oldSide [l])"
      "hs_newLineNo s1 = bumpOld (hs_newLineNo s) (newSide [l])" "hs_consumed s1 = hs_consumed s + length (lineRecords l)"
    using hunkLoop_line [of s l ol nl ?rest] Cons.prems(1) numbered_Cons by blast
  have "numbered (hs_oldLineNo s1) (hs_newLineNo s1) ls"
    using Cons.prems(1) numbered_Cons s1 by metis
  moreover have "ol = int (hs_oldSeen s1 + oldSide ls)" "nl = int (hs_newSeen s1 + newSide ls)"
    using Cons.prems(2,3) s1 oldSide_Cons [of l ls] newSide_Cons [of l ls] by simp_all
  ultimately obtain s' where "hunkLoop ol nl ?rest s1 = hunkLoop ol nl rest s'"
    "hs_lines s' = hs_lines s1 @ ls \<and> int (hs_oldSeen s') = ol \<and> int (hs_newSeen s') = nl
     \<and> hs_consumed s' = hs_consumed s1 + length (concat (map lineRecords ls))"
    using Cons.IH [of s1] by blast
  then show ?case using 1 s1 by (intro exI [of _ s']) simp
qed

lemma parseOneHunk_records:
  assumes "wfHunk h" and "rest = [] \<or> (\<exists>t. hd rest = CHR ''@'' # t)"
  shows "parseOneHunk (Itoa (dh_OldStart h), countGroup full (dh_OldLines h), Itoa (dh_NewStart h),
        countGroup full (dh_NewLines h), dh_Heading h)
      (concat (map lineRecords (dh_Lines h)) @ rest) = Inr (h, length (concat (map lineRecords (dh_Lines h))))"
proof -
  let ?s0 = "\<lparr>hs_lines = [], hs_oldLineNo = dh_OldStart h, hs_newLineNo = dh_NewStart h, hs_oldSeen = 0,
                  hs_newSeen = 0, hs_consumed = 0\<rparr>"
  have le: "oldSide (dh_Lines h) \<le> length (dh_Lines h)" "newSide (dh_Lines h) \<le> length (dh_Lines h)"
    by (simp_all add: oldSide_def newSide_def)
  then have "AtoiR (Itoa (dh_OldStart h)) = Inr (dh_OldStart h)" "AtoiR (Itoa (dh_OldLines h)) = Inr (dh_OldLines h)"
    "AtoiR (Itoa (dh_NewStart h)) = Inr (dh_NewStart h)" "AtoiR (Itoa (dh_NewLines h)) = Inr (dh_NewLines h)"
    using assms(1) by (simp_all add: wfHunk_def AtoiR_Itoa)
  then have pc: "parseHunkCount (Itoa (dh_OldStart h)) (countGroup full (dh_OldLines h)) = Inr (dh_OldStart h, dh_OldLines h)"
    "parseHunkCount (Itoa (dh_NewStart h)) (countGroup full (dh_NewLines h)) = Inr (dh_NewStart h, dh_NewLines h)"
    by (simp_all add: parseHunkCount_def countGroup_def)
  obtain s' where s': "hunkLoop (dh_OldLines h) (dh_NewLines h) (concat (map lineRecords (dh_Lines h)) @ rest) ?s0 =
      hunkLoop (dh_OldLines h) (dh_NewLines h) rest s'"
    "hs_lines s' = dh_Lines h" "int (hs_oldSeen s') = dh_OldLines h" "int (hs_newSeen s') = dh_NewLines h"
    "hs_consumed s' = length (concat (map lineRecords (dh_Lines h)))"
    using hunkLoop_lines [of ?s0 "dh_Lines h" "dh_OldLines h" "dh_NewLines h" rest] assms(1) by (auto simp: wfHunk_def)
  have "hunkLoop (dh_OldLines h) (dh_NewLines h) rest s' = Inr s'"
    using assms(2) s' by (cases rest) (auto simp: backslash_def)
  then show ?thesis using pc s' by (simp add: parseOneHunk_def)
qed

text \<open>
  C40: a patch reads back.  The hunks of any well-formed patch, printed as git prints them (a count of 1
  left out or, with \<open>full\<close>, every count spelled out; one marker per line, an end-of-file marker after
  each line without newline), parse to those hunks: a hunk never swallows the next one's header, and
  never a line too few.
\<close>

theorem patch_roundtrip:
  assumes "list_all wfHunk hs"
  shows "parseHunks (concat (map (hunkRecords full) hs)) = Inr hs"
  using assms
proof (induction hs)
  case (Cons h hs)
  have "concat (map (hunkRecords full) hs) = [] \<or> (\<exists>t. hd (concat (map (hunkRecords full) hs)) = CHR ''@'' # t)"
    by (cases hs) (simp_all add: hunkRecords_def hunkHeader_def)
  then show ?case
    using Cons parseOneHunk_records [of h "concat (map (hunkRecords full) hs)" full] hunkHeaderRe_text [of h full]
    by (simp add: hunkRecords_def [of full h])
qed simp

definition sampleHunk :: DiffHunk where
  "sampleHunk = \<lparr>dh_OldStart = 4, dh_OldLines = 2, dh_NewStart = 4, dh_NewLines = 2, dh_Heading = ''func f()'',
     dh_Lines = [\<lparr>dl_Kind = LineContext, dl_Text = ''x'', dl_OldLine = Some 4, dl_NewLine = Some 4, dl_NoNewlineAtEof = False\<rparr>,
       \<lparr>dl_Kind = LineDel, dl_Text = ''@@ -1 +1 @@'', dl_OldLine = Some 5, dl_NewLine = None, dl_NoNewlineAtEof = True\<rparr>,
       \<lparr>dl_Kind = LineAdd, dl_Text = ''z'', dl_OldLine = None, dl_NewLine = Some 5, dl_NoNewlineAtEof = True\<rparr>]\<rparr>"

definition oneLineHunk :: DiffHunk where
  "oneLineHunk = \<lparr>dh_OldStart = 1, dh_OldLines = 1, dh_NewStart = 1, dh_NewLines = 1, dh_Heading = [],
     dh_Lines = [\<lparr>dl_Kind = LineDel, dl_Text = ''x'', dl_OldLine = Some 1, dl_NewLine = None, dl_NoNewlineAtEof = False\<rparr>,
       \<lparr>dl_Kind = LineAdd, dl_Text = ''y'', dl_OldLine = None, dl_NewLine = Some 1, dl_NoNewlineAtEof = False\<rparr>]\<rparr>"

theorem patch_roundtrip_witness:
  "hd (hunkRecords False oneLineHunk) = ''@@ -1 +1 @@''
   \<and> parseHunks (concat (map (hunkRecords False) [oneLineHunk, sampleHunk])) = Inr [oneLineHunk, sampleHunk]"
proof -
  have "Itoa 1 = ''1''" by code_simp
  then have "hd (hunkRecords False oneLineHunk) = ''@@ -1 +1 @@''"
    by (simp add: hunkRecords_def hunkHeader_def rangeText_def oneLineHunk_def)
  moreover have "wfHunk sampleHunk" "wfHunk oneLineHunk"
    by (simp_all add: wfHunk_def sampleHunk_def oneLineHunk_def oldSide_def newSide_def wrap64_def)
  ultimately show ?thesis using patch_roundtrip [of "[oneLineHunk, sampleHunk]" False] by simp
qed

end
