(* ===== verification/Ring.thy ===== *)
theory Ring
  imports Prelude
begin

text \<open>
  \<^verbatim>\<open>mobileterm/ring.go\<close>: the replay window of a terminal, a circular buffer addressed by absolute
  stream offsets, and the reading side of \<^verbatim>\<open>Broker.pump\<close> (\<^verbatim>\<open>mobileterm/serve.go\<close>), which streams the
  window to a phone.  Offsets that the ring itself keeps are never negative and grow by the bytes
  written, so they are \<^typ>\<open>nat\<close> (an \<^verbatim>\<open>int64\<close> holds eight exabytes of output); offsets and limits
  that a client passes are \<^typ>\<open>int\<close>.  A run-time panic (a zero modulus, a slice out of range, a
  negative \<^verbatim>\<open>make\<close>) is \<^const>\<open>None\<close>.

  The contract is a locale, \<open>replay_log\<close>: the representation stands for the whole stream written so
  far, whatever the window still holds.  The pump's correctness is proved from the contract, and
  the interpretation shows that the ring meets it.
\<close>

section \<open>The ring\<close>

record Ring =
  rg_buf :: bytes
  rg_end :: nat
  rg_cap :: nat

definition ringCap :: nat where
  "ringCap = 2 ^ 20"

definition newRing :: "nat \<Rightarrow> Ring" where
  "newRing capacity = \<lparr>rg_buf = [], rg_end = 0, rg_cap = capacity\<rparr>"

definition ringStart :: "Ring \<Rightarrow> nat" where
  "ringStart r = rg_end r - rg_cap r"

definition ringEnd :: "Ring \<Rightarrow> nat" where
  "ringEnd r = rg_end r"

text \<open>The loop of \<^verbatim>\<open>Append\<close>: extend the buffer while it grows, overwrite it once it is full.\<close>

function appendLoop :: "Ring \<Rightarrow> bytes \<Rightarrow> Ring option" where
  "appendLoop r b =
     (if b = [] then Some r
      else if rg_cap r = 0 then None
      else
        let pos = rg_end r mod rg_cap r in
        if pos = length (rg_buf r) \<and> length (rg_buf r) < rg_cap r then
          let n = min (length b) (rg_cap r - length (rg_buf r)) in
          appendLoop (r\<lparr>rg_buf := rg_buf r @ take n b, rg_end := rg_end r + n\<rparr>) (drop n b)
        else if length (rg_buf r) < pos then None
        else
          let n = min (length (rg_buf r) - pos) (length b) in
          appendLoop
            (r\<lparr>rg_buf := take pos (rg_buf r) @ take n b @ drop (pos + n) (rg_buf r),
               rg_end := rg_end r + n\<rparr>)
            (drop n b))"
  by pat_completeness auto
termination
proof (relation "measure (\<lambda>(r, b). length b)", goal_cases)
  case 1
  show ?case by simp
next
  case (2 r b pos n)
  then show ?case by simp
next
  case (3 r b pos n)
  then have "pos < rg_cap r" by simp
  with 3 have "pos < length (rg_buf r)" by linarith
  with 3 show ?case by simp
qed

declare appendLoop.simps [simp del]

definition AppendRing :: "Ring \<Rightarrow> bytes \<Rightarrow> Ring option" where
  "AppendRing r b =
     (if rg_cap r < length b then
        if rg_cap r < length (rg_buf r) then None
        else
          appendLoop
            (r\<lparr>rg_buf := rg_buf r @ replicate (rg_cap r - length (rg_buf r)) nul,
               rg_end := rg_end r + (length b - rg_cap r)\<rparr>)
            (drop (length b - rg_cap r) b)
      else appendLoop r b)"

text \<open>
  The loop of \<^verbatim>\<open>ReadFrom\<close>.  Go bounds a slice expression by the capacity of the array; the model
  is stricter and panics beyond the length.
\<close>

function readLoop :: "Ring \<Rightarrow> nat \<Rightarrow> nat \<Rightarrow> bytes \<Rightarrow> bytes option" where
  "readLoop r off n d =
     (if length d < n then
        if rg_cap r = 0 then None
        else
          let pos = (off + length d) mod rg_cap r;
              chunk = min (n - length d) (rg_cap r - pos) in
          if length (rg_buf r) < pos + chunk then None
          else readLoop r off n (d @ take chunk (drop pos (rg_buf r)))
      else Some d)"
  by pat_completeness auto
termination
proof (relation "measure (\<lambda>(r, off, n, d). n - length d)", goal_cases)
  case (2 r off n d pos chunk)
  then have "pos < rg_cap r" by simp
  with 2 have "0 < chunk" by auto
  moreover have "length (take chunk (drop pos (rg_buf r))) = chunk"
    using 2(5) by simp
  ultimately show ?case using 2(1) by (simp del: length_take length_drop)
qed auto

declare readLoop.simps [simp del]

definition ReadFrom :: "Ring \<Rightarrow> int \<Rightarrow> int \<Rightarrow> (bytes \<times> int \<times> bool) option" where
  "ReadFrom r off limit =
     (let s = int (ringStart r);
          overrun = (off < s);
          off1 = (if off < s then s else off);
          off2 = (if off1 > int (rg_end r) then int (rg_end r) else off1);
          n = min limit (int (rg_end r) - off2) in
      if n \<le> 0 then Some ([], off2, overrun)
      else
        case readLoop r (nat off2) (nat n) [] of
          None \<Rightarrow> None
        | Some d \<Rightarrow> Some (d, off2 + n, overrun))"

definition SnapshotRing :: "Ring \<Rightarrow> (bytes \<times> int) option" where
  "SnapshotRing r =
     (case ReadFrom r 0 (int (rg_cap r)) of
        None \<Rightarrow> None
      | Some (d, nxt, _) \<Rightarrow> Some (d, nxt))"

section \<open>The pump\<close>

text \<open>
  One connection's reading side.  \<open>pumpHello\<close> is the first read and its \<^verbatim>\<open>hello\<close> frame;
  \<open>pumpStep\<close> is one turn of the loop.  Both return the frames sent and the connection's offset.
\<close>

datatype frame = Hello int bool | Reset int | Data bytes

definition frameCap :: int where
  "frameCap = 32 * 2 ^ 10"

definition sendData :: "bytes \<Rightarrow> frame list" where
  "sendData b = (if b = [] then [] else [Data b])"

definition pumpHello ::
  "('r \<Rightarrow> int) \<Rightarrow> ('r \<Rightarrow> int \<Rightarrow> int \<Rightarrow> (bytes \<times> int \<times> bool) option) \<Rightarrow> 'r \<Rightarrow> int \<Rightarrow> (frame list \<times> int) option" where
  "pumpHello endOf readFrom r from =
     (let off = (if from < 0 \<or> endOf r < from then 0 else from) in
      case readFrom r off frameCap of
        None \<Rightarrow> None
      | Some (d, nxt, over) \<Rightarrow>
          Some (Hello (nxt - int (length d)) (over \<and> 0 \<le> from) # sendData d, nxt))"

definition pumpStep ::
  "('r \<Rightarrow> int \<Rightarrow> int \<Rightarrow> (bytes \<times> int \<times> bool) option) \<Rightarrow> 'r \<Rightarrow> int \<Rightarrow> (frame list \<times> int) option" where
  "pumpStep readFrom r off =
     (case readFrom r off frameCap of
        None \<Rightarrow> None
      | Some (d, nxt, over) \<Rightarrow>
          Some ((if over then [Reset (nxt - int (length d))] else []) @ sendData d,
                if d = [] then off else nxt))"

text \<open>
  What the phone holds: the offset last announced by a \<^verbatim>\<open>hello\<close> or \<^verbatim>\<open>reset\<close> and the bytes since.
\<close>

fun phoneView :: "int \<times> bytes \<Rightarrow> frame list \<Rightarrow> int \<times> bytes" where
  "phoneView v [] = v"
| "phoneView v (Hello a rst # fs) = phoneView (a, []) fs"
| "phoneView v (Reset a # fs) = phoneView (a, []) fs"
| "phoneView (a, d) (Data b # fs) = phoneView (a, d @ b) fs"

lemma phoneView_append [simp]: "phoneView v (fs @ gs) = phoneView (phoneView v fs) gs"
  by (induction v fs rule: phoneView.induct) auto

lemma phoneView_sendData [simp]: "phoneView (a, d) (sendData b) = (a, d @ b)"
  by (simp add: sendData_def)

text \<open>
  A run interleaves terminal output with turns of the pump.  It returns the final ring, the
  connection's offset and the frames sent.
\<close>

datatype pumpEvent = Output bytes | Turn

fun pumpRun ::
  "('r \<Rightarrow> bytes \<Rightarrow> 'r option) \<Rightarrow> ('r \<Rightarrow> int \<Rightarrow> int \<Rightarrow> (bytes \<times> int \<times> bool) option) \<Rightarrow>
   'r \<Rightarrow> int \<Rightarrow> pumpEvent list \<Rightarrow> ('r \<times> int \<times> frame list) option" where
  "pumpRun app readFrom r off [] = Some (r, off, [])"
| "pumpRun app readFrom r off (Output b # es) =
     (case app r b of None \<Rightarrow> None | Some r' \<Rightarrow> pumpRun app readFrom r' off es)"
| "pumpRun app readFrom r off (Turn # es) =
     (case pumpStep readFrom r off of
        None \<Rightarrow> None
      | Some (fs, off') \<Rightarrow>
          case pumpRun app readFrom r off' es of
            None \<Rightarrow> None
          | Some (r', off'', gs) \<Rightarrow> Some (r', off'', fs @ gs))"

text \<open>The bytes a run writes, in order.\<close>

fun written :: "pumpEvent list \<Rightarrow> bytes" where
  "written [] = []"
| "written (Output b # es) = b @ written es"
| "written (Turn # es) = written es"

section \<open>The contract of a replay log\<close>

text \<open>
  \<open>repr r s\<close>: the value \<open>r\<close> stands for the stream \<open>s\<close>.  A read clamps its offset into the window,
  reports an overrun exactly when the offset lay before it, and returns the bytes of the stream
  there, as many as the limit and the stream allow.
\<close>

definition clampOff :: "nat \<Rightarrow> nat \<Rightarrow> int \<Rightarrow> nat" where
  "clampOff lo hi off = min hi (max lo (nat off))"

locale replay_log =
  fixes repr :: "'r \<Rightarrow> bytes \<Rightarrow> bool"
    and app :: "'r \<Rightarrow> bytes \<Rightarrow> 'r option"
    and readFrom :: "'r \<Rightarrow> int \<Rightarrow> int \<Rightarrow> (bytes \<times> int \<times> bool) option"
    and lo :: "'r \<Rightarrow> nat"
    and endOf :: "'r \<Rightarrow> int"
  assumes app_repr: "repr r s \<Longrightarrow> \<exists>r'. app r b = Some r' \<and> repr r' (s @ b)"
    and read_repr: "repr r s \<Longrightarrow>
      readFrom r off limit =
        (let p = clampOff (lo r) (length s) off; d = take (nat limit) (drop p s) in
         Some (d, int (p + length d), off < int (lo r)))"
    and lo_less: "repr r s \<Longrightarrow> 0 < lo r \<Longrightarrow> lo r < length s"
    and endOf_repr: "repr r s \<Longrightarrow> endOf r = int (length s)"
begin

text \<open>
  The phone is consistent with the stream at offset \<open>off\<close>: what it holds is the stretch of the
  stream from its announced offset up to \<open>off\<close>.
\<close>

definition viewOk :: "bytes \<Rightarrow> int \<Rightarrow> int \<times> bytes \<Rightarrow> bool" where
  "viewOk s off v \<longleftrightarrow>
     (\<exists>a. fst v = int a \<and> off = int (a + length (snd v)) \<and> a + length (snd v) \<le> length s \<and>
          snd v = take (length (snd v)) (drop a s))"

lemma lo_le: "repr r s \<Longrightarrow> lo r \<le> length s"
  using lo_less [of r s] by (cases "lo r = 0") simp_all

lemma viewOk_extend: "viewOk s off v \<Longrightarrow> viewOk (s @ b) off v"
  by (auto simp: viewOk_def)

lemma read_window:
  assumes "repr r s"
  obtains p d where "readFrom r off frameCap = Some (d, int (p + length d), off < int (lo r))"
    and "p = clampOff (lo r) (length s) off" and "d = take (nat frameCap) (drop p s)"
    and "p \<le> length s" and "p + length d \<le> length s" and "d = take (length d) (drop p s)"
proof -
  let ?p = "clampOff (lo r) (length s) off"
  let ?d = "take (nat frameCap) (drop ?p s)"
  have "?p \<le> length s" by (simp add: clampOff_def)
  moreover have "readFrom r off frameCap = Some (?d, int (?p + length ?d), off < int (lo r))"
    using read_repr [OF assms, of off frameCap] by (simp add: Let_def)
  moreover have "?d = take (length ?d) (drop ?p s)"
    by (simp add: take_drop min_def)
  ultimately show thesis
    using that [of ?d ?p] by auto
qed

lemma hello_view:
  assumes "repr r s"
  shows "\<exists>fs off. pumpHello endOf readFrom r from = Some (fs, off) \<and> viewOk s off (phoneView v fs)"
proof -
  let ?off = "if from < 0 \<or> endOf r < from then 0 else from"
  obtain p d where rd: "readFrom r ?off frameCap = Some (d, int (p + length d), ?off < int (lo r))"
    and d: "p + length d \<le> length s" "d = take (length d) (drop p s)"
    using read_window [OF assms] by metis
  have "phoneView v (Hello (int p) b # sendData d) = (int p, d)" for b
    by (cases v) simp
  with rd d show ?thesis
    unfolding pumpHello_def Let_def rd by (auto simp: viewOk_def)
qed

lemma step_view:
  assumes rep: "repr r s" and v: "viewOk s off v"
  shows "\<exists>fs off'. pumpStep readFrom r off = Some (fs, off') \<and> viewOk s off' (phoneView v fs)"
proof -
  obtain p d where rd: "readFrom r off frameCap = Some (d, int (p + length d), off < int (lo r))"
    and p: "p = clampOff (lo r) (length s) off"
    and dd: "d = take (nat frameCap) (drop p s)"
    and d: "p + length d \<le> length s" "d = take (length d) (drop p s)"
    using read_window [OF rep] by metis
  obtain a u where au: "v = (int a, u)" "off = int (a + length u)" "a + length u \<le> length s"
    "u = take (length u) (drop a s)"
    using v by (cases v) (auto simp: viewOk_def)
  show ?thesis
  proof (cases "off < int (lo r)")
    case True
    then have "p = lo r" and "lo r < length s"
      using p au(2,3) lo_less [OF rep] by (auto simp: clampOff_def)
    then have "d \<noteq> []" using dd by (simp add: frameCap_def)
    with True rd d au(1) show ?thesis
      unfolding pumpStep_def rd by (auto simp: viewOk_def)
  next
    case False
    then have "p = a + length u" using p au(2,3) by (auto simp: clampOff_def)
    moreover have "u @ d = take (length u + length d) (drop a s)"
      using au(4) d(2) \<open>p = a + length u\<close> by (metis add.commute drop_drop take_add)
    ultimately show ?thesis
      using False rd d au unfolding pumpStep_def rd by (auto simp: viewOk_def)
  qed
qed

lemma run_view:
  assumes "repr r s" and "viewOk s off v"
  shows "\<exists>r' off' fs. pumpRun app readFrom r off es = Some (r', off', fs) \<and>
           repr r' (s @ written es) \<and> viewOk (s @ written es) off' (phoneView v fs)"
  using assms
proof (induction es arbitrary: r s off v)
  case (Cons e es)
  show ?case
  proof (cases e)
    case (Output b)
    obtain r' where "app r b = Some r'" "repr r' (s @ b)"
      using app_repr [OF Cons.prems(1)] by blast
    with Cons.IH [of r' "s @ b" off v] viewOk_extend [OF Cons.prems(2)] Output show ?thesis
      by auto
  next
    case Turn
    obtain fs off' where st: "pumpStep readFrom r off = Some (fs, off')" "viewOk s off' (phoneView v fs)"
      using step_view [OF Cons.prems] by blast
    from Cons.IH [OF Cons.prems(1) st(2)] st(1) Turn show ?thesis
      by auto
  qed
qed auto

text \<open>A turn with output outstanding moves the offset forward, so the pump catches up.\<close>

lemma step_progress:
  assumes rep: "repr r s" and "0 \<le> off" and "off < int (length s)"
  shows "\<exists>fs off'. pumpStep readFrom r off = Some (fs, off') \<and> off < off' \<and> off' \<le> int (length s)"
proof -
  obtain p d where rd: "readFrom r off frameCap = Some (d, int (p + length d), off < int (lo r))"
    and p: "p = clampOff (lo r) (length s) off"
    and dd: "d = take (nat frameCap) (drop p s)"
    and d: "p + length d \<le> length s"
    using read_window [OF rep] by metis
  have "p < length s" and "off \<le> int p"
    using p assms lo_less [OF rep] by (cases "lo r = 0"; force simp: clampOff_def)+
  moreover from this have "d \<noteq> []" using dd by (simp add: frameCap_def)
  moreover have "off < int (p + length d)"
    using \<open>off \<le> int p\<close> \<open>d \<noteq> []\<close> by (cases d) auto
  ultimately show ?thesis
    unfolding pumpStep_def rd using d by auto
qed

lemma catches_up:
  assumes "repr r s" and "viewOk s off v"
  shows "\<exists>n fs. pumpRun app readFrom r off (replicate n Turn) = Some (r, int (length s), fs)"
  using assms
proof (induction "nat (int (length s) - off)" arbitrary: off v rule: less_induct)
  case less
  have off: "0 \<le> off" "off \<le> int (length s)"
    using less.prems(2) by (auto simp: viewOk_def)
  show ?case
  proof (cases "off = int (length s)")
    case True
    then show ?thesis by (intro exI [of _ 0]) simp
  next
    case False
    then obtain fs off' where st: "pumpStep readFrom r off = Some (fs, off')" "off < off'" "off' \<le> int (length s)"
      using step_progress [OF less.prems(1)] off by force
    moreover obtain v' where "viewOk s off' v'"
      using step_view [OF less.prems] st(1) by auto
    moreover have "nat (int (length s) - off') < nat (int (length s) - off)"
      using st(2,3) by linarith
    ultimately obtain n gs where "pumpRun app readFrom r off' (replicate n Turn) = Some (r, int (length s), gs)"
      using less.hyps [OF _ less.prems(1)] by blast
    with st(1) show ?thesis by (intro exI [of _ "Suc n"]) simp
  qed
qed

end

section \<open>The ring meets the contract\<close>

lemma mod_add_below: "e mod c + i < (c::nat) \<Longrightarrow> (e + i) mod c = e mod c + i"
  by (metis mod_add_left_eq mod_less)

lemma mod_before:
  fixes c :: nat
  assumes "k < e" and "e + n \<le> k + c" and "e mod c + n \<le> c" and "0 < c"
  shows "k mod c < e mod c \<or> e mod c + n \<le> k mod c"
proof -
  define q where "q = e div c"
  have e: "e = q * c + e mod c" by (simp add: q_def)
  show ?thesis
  proof (cases "q * c \<le> k")
    case True
    then obtain j where "k = q * c + j" by (metis le_iff_add)
    with assms(1) e have "k mod c = j" "j < e mod c"
      using less_trans [OF _ mod_less_divisor [OF assms(4)], of j e] by auto
    then show ?thesis by simp
  next
    case False
    then obtain q' where q: "q = Suc q'" by (cases q) auto
    have lower: "q' * c + (e mod c + n) \<le> k" using assms(2) e q by simp
    then obtain j where j: "k = q' * c + j" "e mod c + n \<le> j"
      by (metis add_leD1 add_le_cancel_left le_iff_add)
    then have "j < c" using False q by simp
    with j show ?thesis by simp
  qed
qed

text \<open>
  The buffer agrees with the stream on the offsets from \<open>m\<close> on that are still in the window; \<open>full\<close>
  says that the buffer already has its final length.
\<close>

definition ringHolds :: "bool \<Rightarrow> nat \<Rightarrow> Ring \<Rightarrow> bytes \<Rightarrow> bool" where
  "ringHolds full m r s \<longleftrightarrow>
     0 < rg_cap r \<and> rg_end r = length s \<and>
     length (rg_buf r) = (if full then rg_cap r else min (length s) (rg_cap r)) \<and>
     (\<forall>k. m \<le> k \<and> length s - rg_cap r \<le> k \<and> k < length s \<longrightarrow> rg_buf r ! (k mod rg_cap r) = s ! k)"

definition ringRepr :: "Ring \<Rightarrow> bytes \<Rightarrow> bool" where
  "ringRepr r s \<longleftrightarrow> ringHolds False 0 r s"

lemma ringHolds_grow:
  assumes h: "ringHolds full m r s" and pos: "length (rg_buf r) = rg_end r mod rg_cap r"
    and n: "length (rg_buf r) + n \<le> rg_cap r" and lt: "length (rg_buf r) < rg_cap r" "n \<le> length b"
  shows "ringHolds full m (r\<lparr>rg_buf := rg_buf r @ take n b, rg_end := rg_end r + n\<rparr>) (s @ take n b)"
proof -
  have "length (rg_buf r) = length s" "\<not> full"
    using h lt by (auto simp: ringHolds_def min_def split: if_splits)
  with h n lt show ?thesis
    by (auto simp: ringHolds_def nth_append)
qed

lemma ringHolds_overwrite:
  assumes h: "ringHolds full m r s" and len: "length (rg_buf r) = rg_cap r"
    and pos: "pos = rg_end r mod rg_cap r" and n: "pos + n \<le> rg_cap r" "n \<le> length b"
  shows "ringHolds full m
    (r\<lparr>rg_buf := take pos (rg_buf r) @ take n b @ drop (pos + n) (rg_buf r), rg_end := rg_end r + n\<rparr>)
    (s @ take n b)" (is "ringHolds _ _ ?r ?s")
proof -
  let ?c = "rg_cap r"
  have c: "0 < ?c" and e: "rg_end r = length s" using h by (auto simp: ringHolds_def)
  have len': "length (rg_buf ?r) = ?c" using n len by simp
  have "rg_buf ?r ! (k mod ?c) = ?s ! k"
    if k: "m \<le> k" "length ?s - ?c \<le> k" "k < length ?s" for k
  proof (cases "k < length s")
    case True
    then have "k mod ?c < pos \<or> pos + n \<le> k mod ?c"
      using mod_before [of k "length s" n ?c] k n c e pos by simp
    moreover have "k mod ?c < ?c" using c by simp
    ultimately have "rg_buf ?r ! (k mod ?c) = rg_buf r ! (k mod ?c)"
      using n len by (auto simp: nth_append)
    with h k True show ?thesis by (auto simp: ringHolds_def nth_append)
  next
    case False
    then obtain i where i: "k = length s + i" "i < n" using k n by (auto simp: le_iff_add not_less)
    then have "k mod ?c = pos + i" using mod_add_below n e pos by simp
    with i n len show ?thesis by (simp add: nth_append)
  qed
  with h len len' n show ?thesis
    by (auto simp: ringHolds_def split: if_splits)
qed

lemma appendLoop_holds:
  assumes "ringHolds full m r s"
  shows "\<exists>r'. appendLoop r b = Some r' \<and> rg_cap r' = rg_cap r \<and> ringHolds full m r' (s @ b)"
  using assms
proof (induction r b arbitrary: s rule: appendLoop.induct)
  case (1 r b)
  let ?pos = "rg_end r mod rg_cap r"
  have c: "rg_cap r \<noteq> 0" "?pos < rg_cap r" using "1.prems" by (auto simp: ringHolds_def)
  show ?case
  proof (cases "b = []")
    case True
    with "1.prems" show ?thesis by (simp add: appendLoop.simps)
  next
    case b: False
    show ?thesis
    proof (cases "?pos = length (rg_buf r) \<and> length (rg_buf r) < rg_cap r")
      case True
      let ?n = "min (length b) (rg_cap r - length (rg_buf r))"
      from "1.IH"(1) [OF b c(1) refl True refl ringHolds_grow [OF "1.prems"]] True b c
      show ?thesis
        by (subst appendLoop.simps) (auto simp: Let_def)
    next
      case False
      let ?n = "min (length (rg_buf r) - ?pos) (length b)"
      have len: "length (rg_buf r) = rg_cap r" 
        using "1.prems" False by (cases "length s < rg_cap r") (auto simp: ringHolds_def split: if_splits)
      with c have "\<not> length (rg_buf r) < ?pos" by simp
      from "1.IH"(2) [OF b c(1) refl False this refl ringHolds_overwrite [OF "1.prems" len refl]] len False b c
      show ?thesis
        by (subst appendLoop.simps) (auto simp: Let_def)
    qed
  qed
qed

lemma AppendRing_repr:
  assumes h: "ringRepr r s"
  shows "\<exists>r'. AppendRing r b = Some r' \<and> rg_cap r' = rg_cap r \<and> ringRepr r' (s @ b)"
proof (cases "rg_cap r < length b")
  case False
  then show ?thesis
    using appendLoop_holds [of False 0 r s b] h by (simp add: AppendRing_def ringRepr_def)
next
  case True
  let ?k = "length b - rg_cap r"
  let ?s = "s @ take ?k b"
  let ?r = "r\<lparr>rg_buf := rg_buf r @ replicate (rg_cap r - length (rg_buf r)) nul, rg_end := rg_end r + ?k\<rparr>"
  have len: "length (rg_buf r) \<le> rg_cap r"
    using h by (simp add: ringRepr_def ringHolds_def)
  then have "ringHolds True (length ?s) ?r ?s"
    using h by (auto simp: ringRepr_def ringHolds_def)
  from appendLoop_holds [OF this, of "drop ?k b"] obtain r'
    where "appendLoop ?r (drop ?k b) = Some r'" "rg_cap r' = rg_cap r"
      "ringHolds True (length ?s) r' (s @ b)" by auto
  moreover from this(2,3) have "ringHolds False 0 r' (s @ b)"
    using True by (auto simp: ringHolds_def)
  ultimately show ?thesis
    using True len by (auto simp: AppendRing_def ringRepr_def)
qed

lemma ring_chunk:
  assumes h: "ringRepr r s" and o: "length s - rg_cap r \<le> p" "p + chunk \<le> length s"
    and c: "p mod rg_cap r + chunk \<le> rg_cap r" "0 < chunk"
  shows "p mod rg_cap r + chunk \<le> length (rg_buf r)"
    and "take chunk (drop (p mod rg_cap r) (rg_buf r)) = take chunk (drop p s)"
proof -
  have "length (rg_buf r) = min (length s) (rg_cap r)"
    using h by (simp add: ringRepr_def ringHolds_def)
  then show len: "p mod rg_cap r + chunk \<le> length (rg_buf r)"
    using o c mod_less_eq_dividend [of p "rg_cap r"] by linarith
  have "rg_buf r ! (p mod rg_cap r + i) = s ! (p + i)" if "i < chunk" for i
  proof -
    have "(p + i) mod rg_cap r = p mod rg_cap r + i"
      using mod_add_below c that by simp
    moreover have "rg_buf r ! ((p + i) mod rg_cap r) = s ! (p + i)"
      using h o that by (simp add: ringRepr_def ringHolds_def)
    ultimately show ?thesis by simp
  qed
  then show "take chunk (drop (p mod rg_cap r) (rg_buf r)) = take chunk (drop p s)"
    using len o by (intro nth_equalityI) auto
qed

lemma readLoop_repr:
  assumes "ringRepr r s" and "length s - rg_cap r \<le> off" and "off + n \<le> length s"
    and "length d \<le> n" and "take (length d) (drop off s) = d"
  shows "readLoop r off n d = Some (take n (drop off s))"
  using assms
proof (induction r off n d rule: readLoop.induct)
  case (1 r off n d)
  show ?case
  proof (cases "length d < n")
    case False
    with "1.prems"(4,5) show ?thesis by (simp add: readLoop.simps)
  next
    case True
    let ?p = "off + length d"
    let ?chunk = "min (n - length d) (rg_cap r - ?p mod rg_cap r)"
    have c: "rg_cap r \<noteq> 0" "?p mod rg_cap r < rg_cap r"
      using "1.prems"(1) by (auto simp: ringRepr_def ringHolds_def)
    have bnd: "length s - rg_cap r \<le> ?p" "?p + ?chunk \<le> length s"
      "?p mod rg_cap r + ?chunk \<le> rg_cap r" "0 < ?chunk"
      using "1.prems"(2,3) True c(2) by linarith+
    note ck = ring_chunk [OF "1.prems"(1) bnd]
    define d' where "d' = take (length d + ?chunk) (drop off s)"
    have small: "\<not> length (rg_buf r) < ?p mod rg_cap r + ?chunk" using ck(1) by linarith
    have d': "d @ take ?chunk (drop (?p mod rg_cap r) (rg_buf r)) = d'"
      unfolding ck(2) d'_def take_add drop_drop using "1.prems"(5) by (simp only: add.commute)
    have len: "length d' = length d + ?chunk" using bnd(2) by (simp add: d'_def)
    have "readLoop r off n d = readLoop r off n d'"
      using True c(1) small by (subst readLoop.simps) (simp only: Let_def if_True if_False d')
    also have "\<dots> = Some (take n (drop off s))"
    proof -
      have "length d' \<le> n" using len "1.prems"(4) by linarith
      moreover have "take (length d') (drop off s) = d'" by (metis d'_def len)
      ultimately show ?thesis
        using "1.IH" [OF True c(1) refl refl small "1.prems"(1-3)] by (simp only: d')
    qed
    finally show ?thesis .
  qed
qed

lemma ReadFrom_repr:
  assumes h: "ringRepr r s"
  shows "ReadFrom r off limit =
     (let p = clampOff (ringStart r) (length s) off; d = take (nat limit) (drop p s) in
      Some (d, int (p + length d), off < int (ringStart r)))"
proof -
  let ?p = "clampOff (ringStart r) (length s) off"
  have e: "rg_end r = length s" using h by (simp add: ringRepr_def ringHolds_def)
  have p: "(if (if off < int (ringStart r) then int (ringStart r) else off) > int (length s) then int (length s)
            else if off < int (ringStart r) then int (ringStart r) else off) = int ?p"
    by (auto simp: clampOff_def ringStart_def e)
  show ?thesis
  proof (cases "min limit (int (length s) - int ?p) \<le> 0")
    case True
    moreover from True have "take (nat limit) (drop ?p s) = []" by (auto simp: min_def split: if_splits)
    ultimately show ?thesis
      unfolding ReadFrom_def Let_def e p by (simp only: if_True list.size add_0_right)
  next
    case False
    define n where "n = nat (min limit (int (length s) - int ?p))"
    have n: "min limit (int (length s) - int ?p) = int n" "0 < n" "?p + n \<le> length s"
      using False by (auto simp: n_def)
    have "readLoop r ?p n [] = Some (take n (drop ?p s))"
      using readLoop_repr [OF h, of ?p n "[]"] n e by (simp add: clampOff_def ringStart_def)
    moreover have "take (nat limit) (drop ?p s) = take n (drop ?p s)"
      using n(1) by (auto simp: min_def split: if_splits)
    ultimately show ?thesis
      unfolding ReadFrom_def Let_def e p n(1) using n(2,3) by simp
  qed
qed

interpretation ring: replay_log ringRepr AppendRing ReadFrom ringStart "\<lambda>r. int (ringEnd r)"
proof unfold_locales
  fix r s b
  assume h: "ringRepr r s"
  then show "\<exists>r'. AppendRing r b = Some r' \<and> ringRepr r' (s @ b)"
    using AppendRing_repr by blast
  show "int (ringEnd r) = int (length s)"
    using h by (simp add: ringEnd_def ringRepr_def ringHolds_def)
  show "ringStart r < length s" if "0 < ringStart r"
    using h that by (auto simp: ringStart_def ringRepr_def ringHolds_def)
qed (rule ReadFrom_repr)

lemma newRing_repr: "0 < capacity \<Longrightarrow> ringRepr (newRing capacity) []"
  by (simp add: newRing_def ringRepr_def ringHolds_def)

section \<open>Properties\<close>

text \<open>The writes of a session, one after another.\<close>

fun appendAll :: "Ring \<Rightarrow> bytes list \<Rightarrow> Ring option" where
  "appendAll r [] = Some r"
| "appendAll r (b # bs) = (case AppendRing r b of None \<Rightarrow> None | Some r' \<Rightarrow> appendAll r' bs)"

lemma appendAll_repr:
  "ringRepr r s \<Longrightarrow> \<exists>r'. appendAll r bs = Some r' \<and> rg_cap r' = rg_cap r \<and> ringRepr r' (s @ concat bs)"
proof (induction bs arbitrary: r s)
  case (Cons b bs)
  then obtain r' where "AppendRing r b = Some r'" "rg_cap r' = rg_cap r" "ringRepr r' (s @ b)"
    using AppendRing_repr by blast
  with Cons.IH [of r' "s @ b"] show ?case by auto
qed simp

text \<open>
  C7: whatever blocks are written to a fresh ring, and however large they are, no write panics, and a
  read at any offset with any limit returns exactly the bytes of the whole output at that
  offset, cut to the last \<open>capacity\<close> bytes, with the offset after them, and reports an overrun exactly
  when the requested bytes have been dropped.
\<close>

theorem ring_replays_stream:
  assumes "0 < capacity"
  shows "\<exists>r. appendAll (newRing capacity) bs = Some r \<and>
    ReadFrom r off limit =
      (let s = concat bs; p = clampOff (length s - capacity) (length s) off; d = take (nat limit) (drop p s) in
       Some (d, int (p + length d), off < int (length s - capacity)))"
proof -
  obtain r where r: "appendAll (newRing capacity) bs = Some r" "rg_cap r = capacity" "ringRepr r (concat bs)"
    using appendAll_repr [OF newRing_repr [OF assms], of bs] by (auto simp: newRing_def)
  then have "ringStart r = length (concat bs) - capacity"
    by (simp add: ringStart_def ringRepr_def ringHolds_def)
  with r ReadFrom_repr [OF r(3), of off limit] show ?thesis by (simp add: Let_def)
qed

theorem ring_replays_stream_witness:
  "\<exists>r. appendAll (newRing 4) [''abc'', ''defgh'', ''i''] = Some r \<and>
    ReadFrom r 2 3 = Some (''fgh'', 8, True)"
  using ring_replays_stream [of 4 "[''abc'', ''defgh'', ''i'']" 2 3]
  by (simp add: clampOff_def Let_def eval_nat_numeral)

text \<open>
  C21: a phone that connects at any offset, while the terminal keeps writing between the turns of the
  pump, always holds an unbroken stretch of the terminal's output: the bytes since the last
  announced offset are exactly the output from there to the connection's offset.  No read panics.
\<close>

theorem phone_stream_exact:
  assumes "0 < capacity" and "appendAll (newRing capacity) bs = Some r"
  shows "\<exists>fs off r' off' gs a d.
    pumpHello (\<lambda>r. int (ringEnd r)) ReadFrom r from = Some (fs, off) \<and>
    pumpRun AppendRing ReadFrom r off es = Some (r', off', gs) \<and>
    phoneView v (fs @ gs) = (int a, d) \<and> off' = int (a + length d) \<and>
    prefix d (drop a (concat bs @ written es))"
proof -
  have rep: "ringRepr r (concat bs)"
    using appendAll_repr [OF newRing_repr [OF assms(1)], of bs] assms(2) by auto
  obtain fs off where h: "pumpHello (\<lambda>r. int (ringEnd r)) ReadFrom r from = Some (fs, off)"
    "ring.viewOk (concat bs) off (phoneView v fs)"
    using ring.hello_view [OF rep] by blast
  obtain r' off' gs where g: "pumpRun AppendRing ReadFrom r off es = Some (r', off', gs)"
    "ring.viewOk (concat bs @ written es) off' (phoneView (phoneView v fs) gs)"
    using ring.run_view [OF rep h(2)] by blast
  with h show ?thesis
    unfolding ring.viewOk_def by (metis (no_types, lifting) phoneView_append prod.collapse take_is_prefix)
qed

theorem phone_stream_exact_witness:
  "\<exists>fs off r' off' gs a d.
    pumpHello (\<lambda>r. int (ringEnd r)) ReadFrom (newRing 4) 0 = Some (fs, off) \<and>
    pumpRun AppendRing ReadFrom (newRing 4) off [Output ''abc'', Turn] = Some (r', off', gs) \<and>
    phoneView (0, []) (fs @ gs) = (int a, d) \<and> off' = int (a + length d) \<and> prefix d (drop a ''abc'')"
  using phone_stream_exact [of 4 "[]" "newRing 4" 0 "[Output ''abc'', Turn]" "(0, [])"] by simp

text \<open>
  the pump catches up.  Once the terminal is quiet, some number of turns brings the connection's
  offset to the end of the output, so the phone holds everything from its announced offset on.
\<close>

theorem phone_catches_up:
  assumes "0 < capacity" and "appendAll (newRing capacity) bs = Some r"
  shows "\<exists>fs off n gs a d.
    pumpHello (\<lambda>r. int (ringEnd r)) ReadFrom r from = Some (fs, off) \<and>
    pumpRun AppendRing ReadFrom r off (replicate n Turn) = Some (r, int (length (concat bs)), gs) \<and>
    phoneView v (fs @ gs) = (int a, d) \<and> d = drop a (concat bs)"
proof -
  have rep: "ringRepr r (concat bs)"
    using appendAll_repr [OF newRing_repr [OF assms(1)], of bs] assms(2) by auto
  obtain fs off where h: "pumpHello (\<lambda>r. int (ringEnd r)) ReadFrom r from = Some (fs, off)"
    "ring.viewOk (concat bs) off (phoneView v fs)"
    using ring.hello_view [OF rep] by blast
  obtain n gs where g: "pumpRun AppendRing ReadFrom r off (replicate n Turn) = Some (r, int (length (concat bs)), gs)"
    using ring.catches_up [OF rep h(2)] by blast
  have "written (replicate n Turn) = []" by (induction n) simp_all
  with ring.run_view [OF rep h(2), of "replicate n Turn"] g
  have "ring.viewOk (concat bs) (int (length (concat bs))) (phoneView (phoneView v fs) gs)" by simp
  then have "\<exists>a d. phoneView v (fs @ gs) = (int a, d) \<and> d = drop a (concat bs)"
    unfolding ring.viewOk_def
    by (metis add_diff_cancel_left' length_drop nat_int_comparison(1) phoneView_append prod.collapse take_all_iff order_refl)
  with h(1) g show ?thesis by blast
qed

theorem phone_catches_up_witness:
  "\<exists>fs off n gs a d.
    pumpHello (\<lambda>r. int (ringEnd r)) ReadFrom (newRing 4) (- 1) = Some (fs, off) \<and>
    pumpRun AppendRing ReadFrom (newRing 4) off (replicate n Turn) = Some (newRing 4, 0, gs) \<and>
    phoneView (0, []) (fs @ gs) = (int a, d) \<and> d = drop a []"
  using phone_catches_up [of 4 "[]" "newRing 4" "- 1" "(0, [])"] by simp

end
