(* ===== verification/Broker.thy ===== *)
theory Broker
  imports Ring "HOL-Library.Word"
begin

text \<open>
  \<^verbatim>\<open>mobileterm/broker.go\<close>: the arbiter that hands an agent terminal to a phone and back.  The
  model keeps every entry ever created in a store (\<open>br_heap\<close>), because connections and timer
  closures keep pointing to an entry after \<^verbatim>\<open>Exited\<close> removed it from the map \<open>br_entries\<close>.  The
  objects that an entry owns and that never change owner sit inside it: its connections, its timers
  and the calls made to the terminal registry on its behalf; a connection or timer reference is
  the entry's index and a position there.

  A critical section (the code between \<^verbatim>\<open>e.mu.Lock\<close> and \<^verbatim>\<open>e.mu.Unlock\<close>) is one step, together with
  the notification that follows it; \<^verbatim>\<open>Input\<close> has two of them and writes to the registry after the
  second, outside the entry's lock, and so is three steps; \<^verbatim>\<open>Attach\<close>
  looks its entry up before its section, so its step takes any entry of the store.  A timer fires
  (its goroutine starts) in one step and runs \<^verbatim>\<open>expire\<close> in a later one; \<^verbatim>\<open>Stop\<close> has no effect in
  between, as Go documents.  Times are milliseconds.
\<close>

section \<open>State\<close>

datatype HoldState = stateDesktop | statePhone | stateOffline

datatype TimerStatus = Armed | Stopped | Fired | Finished

record Timer =
  tm_gen :: "64 word"
  tm_status :: TimerStatus

record phoneConn =
  cn_device :: bytes
  cn_notify :: bool
  cn_done :: "(int \<times> bytes) option"

datatype RegistryCall = RegWrite bytes | RegResize "16 word" "16 word"

record entry =
  en_id :: bytes
  en_ring :: Ring
  en_state :: HoldState
  en_sessionID :: bytes
  en_deviceID :: bytes
  en_label :: bytes
  en_conn :: "nat option"
  en_desktopCols :: int
  en_desktopRows :: int
  en_phoneCols :: int
  en_phoneRows :: int
  en_since :: int
  en_returnsAt :: int
  en_grace :: "nat option"
  en_idle :: "nat option"
  en_gen :: "64 word"
  en_conns :: "phoneConn list"
  en_timers :: "Timer list"
  en_calls :: "RegistryCall list"
  en_write :: "(nat \<times> bytes) option"

record Hold =
  ho_TerminalID :: bytes
  ho_SessionID :: bytes
  ho_DeviceID :: bytes
  ho_Label :: bytes
  ho_Connected :: bool
  ho_Since :: int
  ho_ReturnsAt :: int

record Broker =
  br_heap :: "entry list"
  br_entries :: "(bytes \<times> nat) list"
  br_changes :: "Hold list list"

record MobileDevice =
  md_ID :: bytes
  md_Label :: bytes

datatype AttachError = CodeNotFound bytes | CodeConflict bytes

text \<open>The zero \<^verbatim>\<open>time.Time\<close>, in milliseconds since the epoch.\<close>

definition zeroTime :: int where
  "zeroTime = - 62135596800000"

definition graceDur :: int where
  "graceDur = 60 * 1000"

definition CloseReleased :: int where "CloseReleased = 4000"

definition CloseReclaimed :: int where "CloseReclaimed = 4001"

definition CloseReplaced :: int where "CloseReplaced = 4002"

definition CloseExit :: int where "CloseExit = 4003"

definition CloseTimeout :: int where "CloseTimeout = 4004"

definition CloseRevoked :: int where "CloseRevoked = 4005"

definition newEntry :: "bytes \<Rightarrow> entry" where
  "newEntry ident =
     \<lparr>en_id = ident, en_ring = newRing ringCap, en_state = stateDesktop, en_sessionID = [],
      en_deviceID = [], en_label = [], en_conn = None, en_desktopCols = 0, en_desktopRows = 0,
      en_phoneCols = 0, en_phoneRows = 0, en_since = zeroTime, en_returnsAt = zeroTime,
      en_grace = None, en_idle = None, en_gen = 0, en_conns = [], en_timers = [], en_calls = [],
      en_write = None\<rparr>"

definition newBroker :: Broker where
  "newBroker = \<lparr>br_heap = [], br_entries = [], br_changes = []\<rparr>"

section \<open>One entry\<close>

definition finish :: "nat \<Rightarrow> int \<Rightarrow> bytes \<Rightarrow> entry \<Rightarrow> entry" where
  "finish c code reason e =
     (case cn_done (en_conns e ! c) of
        None \<Rightarrow> e\<lparr>en_conns := (en_conns e)[c := (en_conns e ! c)\<lparr>cn_done := Some (code, reason)\<rparr>]\<rparr>
      | Some _ \<Rightarrow> e)"

definition signal :: "nat \<Rightarrow> entry \<Rightarrow> entry" where
  "signal c e = e\<lparr>en_conns := (en_conns e)[c := (en_conns e ! c)\<lparr>cn_notify := True\<rparr>]\<rparr>"

definition stopTimer :: "nat \<Rightarrow> entry \<Rightarrow> entry" where
  "stopTimer t e =
     (if tm_status (en_timers e ! t) = Armed
      then e\<lparr>en_timers := (en_timers e)[t := (en_timers e ! t)\<lparr>tm_status := Stopped\<rparr>]\<rparr>
      else e)"

definition stopGrace :: "entry \<Rightarrow> entry" where
  "stopGrace e = (case en_grace e of None \<Rightarrow> e | Some t \<Rightarrow> (stopTimer t e)\<lparr>en_grace := None\<rparr>)"

definition stopIdle :: "entry \<Rightarrow> entry" where
  "stopIdle e = (case en_idle e of None \<Rightarrow> e | Some t \<Rightarrow> (stopTimer t e)\<lparr>en_idle := None\<rparr>)"

definition stopTimers :: "entry \<Rightarrow> entry" where
  "stopTimers e = stopIdle (stopGrace e)"

text \<open>\<^verbatim>\<open>Deps.AfterFunc\<close> with \<^verbatim>\<open>expire\<close> on the entry's current generation: a new armed timer.\<close>

definition afterFunc :: "entry \<Rightarrow> nat \<times> entry" where
  "afterFunc e =
     (length (en_timers e), e\<lparr>en_timers := en_timers e @ [\<lparr>tm_gen = en_gen e, tm_status = Armed\<rparr>]\<rparr>)"

definition armIdle :: "entry \<Rightarrow> entry" where
  "armIdle e =
     (let e1 = (case en_idle e of None \<Rightarrow> e | Some t \<Rightarrow> stopTimer t e);
          (t, e2) = afterFunc e1 in
      e2\<lparr>en_idle := Some t\<rparr>)"

definition resize :: "int \<Rightarrow> int \<Rightarrow> entry \<Rightarrow> entry" where
  "resize cols rows e =
     (if cols \<le> 0 \<or> rows \<le> 0 then e
      else e\<lparr>en_calls := en_calls e @ [RegResize (of_int cols) (of_int rows)]\<rparr>)"

definition finishConn :: "int \<Rightarrow> bytes \<Rightarrow> entry \<Rightarrow> entry" where
  "finishConn code reason e =
     (case en_conn e of None \<Rightarrow> e | Some c \<Rightarrow> (finish c code reason e)\<lparr>en_conn := None\<rparr>)"

definition toDesktop :: "int \<Rightarrow> bytes \<Rightarrow> entry \<Rightarrow> bool \<times> entry" where
  "toDesktop code reason e =
     (if en_state e = stateDesktop then (False, e)
      else
        let e1 = stopTimers (finishConn code reason e);
            e2 = e1\<lparr>en_gen := en_gen e1 + 1, en_state := stateDesktop, en_deviceID := [], en_label := [],
                    en_returnsAt := zeroTime\<rparr> in
        (True,
         if 0 < en_desktopCols e2 \<and> 0 < en_desktopRows e2 \<and>
            (en_desktopCols e2 \<noteq> en_phoneCols e2 \<or> en_desktopRows e2 \<noteq> en_phoneRows e2)
         then resize (en_desktopCols e2) (en_desktopRows e2) e2 else e2))"

definition exitLocked :: "entry \<Rightarrow> bool \<times> entry" where
  "exitLocked e =
     (let e1 = stopTimers (finishConn CloseExit ''exit'' e) in
      (en_state e \<noteq> stateDesktop, e1\<lparr>en_state := stateDesktop, en_gen := en_gen e1 + 1\<rparr>))"

text \<open>The critical section of \<^verbatim>\<open>Attach\<close> and the signal after it; the value is the new connection.\<close>

definition attachLocked ::
  "bytes \<Rightarrow> MobileDevice \<Rightarrow> int \<Rightarrow> int \<Rightarrow> int \<Rightarrow> entry \<Rightarrow> AttachError + nat \<times> entry" where
  "attachLocked sid dev cols rows now e =
     (if en_state e \<noteq> stateDesktop \<and> en_deviceID e \<noteq> md_ID dev
      then Inl (CodeConflict ''backend.space.mobileterm.controlledElsewhere.body'')
      else
        let e1 = (case en_conn e of None \<Rightarrow> e | Some old \<Rightarrow> finish old CloseReplaced ''replaced'' e);
            c = length (en_conns e1);
            e2 = e1\<lparr>en_conns := en_conns e1 @ [\<lparr>cn_device = md_ID dev, cn_notify = False, cn_done = None\<rparr>]\<rparr>;
            e3 = (if en_state e2 = stateDesktop then e2\<lparr>en_since := now\<rparr> else e2);
            e4 = stopTimers e3;
            e5 = e4\<lparr>en_gen := en_gen e4 + 1, en_conn := Some c, en_state := statePhone,
                    en_sessionID := sid, en_deviceID := md_ID dev, en_label := md_Label dev,
                    en_phoneCols := cols, en_phoneRows := rows, en_returnsAt := zeroTime\<rparr>;
            e6 = resize cols rows (armIdle e5) in
        Inr (c, signal c e6))"

definition inputArm :: "nat \<Rightarrow> entry \<Rightarrow> bool \<times> entry" where
  "inputArm c e = (if en_conn e \<noteq> Some c then (False, e) else (True, armIdle e))"

text \<open>
  The second section of \<^verbatim>\<open>Input\<close>, entered with the entry's \<^verbatim>\<open>writeMu\<close> held: \<open>en_write\<close> is the write of
  the goroutine that holds it and has passed its check.  The registry's \<^verbatim>\<open>Write\<close> is a later step, outside
  \<^verbatim>\<open>e.mu\<close>; it ends by giving \<^verbatim>\<open>writeMu\<close> back.  \<open>ok\<close> says whether the registry's \<^verbatim>\<open>Write\<close> succeeds.
\<close>

definition inputCheck :: "nat \<Rightarrow> bytes \<Rightarrow> entry \<Rightarrow> bool \<times> entry" where
  "inputCheck c d e = (if en_conn e \<noteq> Some c then (False, e) else (True, e\<lparr>en_write := Some (c, d)\<rparr>))"

definition inputSend :: "bool \<Rightarrow> entry \<Rightarrow> bool \<times> entry" where
  "inputSend ok e =
     (case en_write e of
        None \<Rightarrow> (False, e)
      | Some (c, d) \<Rightarrow> (ok, e\<lparr>en_calls := en_calls e @ [RegWrite d], en_write := None\<rparr>))"

definition resizeConn :: "nat \<Rightarrow> int \<Rightarrow> int \<Rightarrow> entry \<Rightarrow> bool \<times> entry" where
  "resizeConn c cols rows e =
     (if en_conn e \<noteq> Some c then (False, e)
      else (True, resize cols rows (armIdle (e\<lparr>en_phoneCols := cols, en_phoneRows := rows\<rparr>))))"

definition disconnectedLocked :: "nat \<Rightarrow> int \<Rightarrow> entry \<Rightarrow> bool \<times> entry" where
  "disconnectedLocked c now e =
     (if en_conn e \<noteq> Some c then (False, e)
      else
        let e1 = stopTimers (e\<lparr>en_conn := None, en_state := stateOffline\<rparr>);
            e2 = e1\<lparr>en_gen := en_gen e1 + 1, en_returnsAt := now + graceDur\<rparr>;
            (t, e3) = afterFunc e2 in
        (True, e3\<lparr>en_grace := Some t\<rparr>))"

definition releaseLocked :: "nat \<Rightarrow> entry \<Rightarrow> bool \<times> entry" where
  "releaseLocked c e =
     (if en_conn e \<noteq> Some c then (False, e) else toDesktop CloseReleased ''released'' e)"

definition reclaimLocked :: "int \<Rightarrow> int \<Rightarrow> entry \<Rightarrow> bool \<times> entry" where
  "reclaimLocked cols rows e =
     (let e1 = (if 0 < cols \<and> 0 < rows then e\<lparr>en_desktopCols := cols, en_desktopRows := rows\<rparr> else e);
          (changed, e2) = toDesktop CloseReclaimed ''reclaimed'' e1 in
      (changed, if \<not> changed \<and> 0 < cols \<and> 0 < rows then resize cols rows e2 else e2))"

definition expireLocked :: "64 word \<Rightarrow> entry \<Rightarrow> bool \<times> entry" where
  "expireLocked gen e =
     (if en_gen e = gen then toDesktop CloseTimeout ''timeout'' e else (False, e))"

text \<open>The runtime's side of a timer: its goroutine starts, and later calls \<^verbatim>\<open>expire\<close>.\<close>

definition fireTimer :: "nat \<Rightarrow> entry \<Rightarrow> entry" where
  "fireTimer t e =
     (if t < length (en_timers e) \<and> tm_status (en_timers e ! t) = Armed
      then e\<lparr>en_timers := (en_timers e)[t := (en_timers e ! t)\<lparr>tm_status := Fired\<rparr>]\<rparr> else e)"

definition runTimer :: "nat \<Rightarrow> entry \<Rightarrow> bool \<times> entry" where
  "runTimer t e =
     (if t < length (en_timers e) \<and> tm_status (en_timers e ! t) = Fired
      then expireLocked (tm_gen (en_timers e ! t))
             (e\<lparr>en_timers := (en_timers e)[t := (en_timers e ! t)\<lparr>tm_status := Finished\<rparr>]\<rparr>)
      else (False, e))"

section \<open>The broker\<close>

definition holdOf :: "entry \<Rightarrow> Hold" where
  "holdOf e =
     \<lparr>ho_TerminalID = en_id e, ho_SessionID = en_sessionID e, ho_DeviceID = en_deviceID e,
      ho_Label = en_label e, ho_Connected = (en_state e = statePhone), ho_Since = en_since e,
      ho_ReturnsAt = (if en_returnsAt e \<noteq> zeroTime then en_returnsAt e else 0)\<rparr>"

definition isHeld :: "entry \<Rightarrow> bool" where
  "isHeld e \<longleftrightarrow> en_state e \<noteq> stateDesktop"

definition Holds :: "Broker \<Rightarrow> Hold list" where
  "Holds b = map holdOf (filter isHeld (map (\<lambda>(k, r). br_heap b ! r) (br_entries b)))"

definition changed :: "Broker \<Rightarrow> Broker" where
  "changed b = b\<lparr>br_changes := br_changes b @ [Holds b]\<rparr>"

definition getEntry :: "bytes \<Rightarrow> Broker \<Rightarrow> nat option" where
  "getEntry ident b = map_of (br_entries b) ident"

definition getOrCreate :: "bytes \<Rightarrow> Broker \<Rightarrow> nat \<times> Broker" where
  "getOrCreate ident b =
     (case map_of (br_entries b) ident of
        Some r \<Rightarrow> (r, b)
      | None \<Rightarrow>
          (length (br_heap b),
           b\<lparr>br_heap := br_heap b @ [newEntry ident], br_entries := br_entries b @ [(ident, length (br_heap b))]\<rparr>))"

definition setEntry :: "nat \<Rightarrow> entry \<Rightarrow> Broker \<Rightarrow> Broker" where
  "setEntry r e b = b\<lparr>br_heap := (br_heap b)[r := e]\<rparr>"

text \<open>
  A section of entry \<open>r\<close> that does not touch the holds, and one that reports whether it did, in
  which case the listener is notified.
\<close>

definition quietly :: "nat \<Rightarrow> (entry \<Rightarrow> bool \<times> entry) \<Rightarrow> Broker \<Rightarrow> bool \<times> Broker" where
  "quietly r sect b = (case sect (br_heap b ! r) of (ok, e) \<Rightarrow> (ok, setEntry r e b))"

definition notifying :: "nat \<Rightarrow> (entry \<Rightarrow> bool \<times> entry) \<Rightarrow> Broker \<Rightarrow> Broker" where
  "notifying r sect b =
     (case sect (br_heap b ! r) of (ch, e) \<Rightarrow> if ch then changed (setEntry r e b) else setEntry r e b)"

definition Opened :: "bytes \<Rightarrow> int \<Rightarrow> int \<Rightarrow> Broker \<Rightarrow> Broker" where
  "Opened ident cols rows b =
     (case getOrCreate ident b of
        (r, b1) \<Rightarrow> setEntry r ((br_heap b1 ! r)\<lparr>en_desktopCols := cols, en_desktopRows := rows\<rparr>) b1)"

definition OutputTo :: "bytes \<Rightarrow> bytes \<Rightarrow> Broker \<Rightarrow> Broker option" where
  "OutputTo ident d b =
     (case getOrCreate ident b of
        (r, b1) \<Rightarrow>
          let e = br_heap b1 ! r in
          case AppendRing (en_ring e) d of
            None \<Rightarrow> None
          | Some rg \<Rightarrow>
              let e1 = e\<lparr>en_ring := rg\<rparr> in
              Some (setEntry r (case en_conn e1 of None \<Rightarrow> e1 | Some c \<Rightarrow> signal c e1) b1))"

definition Exited :: "bytes \<Rightarrow> Broker \<Rightarrow> Broker" where
  "Exited ident b =
     (case getEntry ident b of
        None \<Rightarrow> b
      | Some r \<Rightarrow> notifying r exitLocked (b\<lparr>br_entries := AList.delete ident (br_entries b)\<rparr>))"

definition AllowWrite :: "bytes \<Rightarrow> Broker \<Rightarrow> bool" where
  "AllowWrite ident b =
     (case getEntry ident b of None \<Rightarrow> True | Some r \<Rightarrow> en_state (br_heap b ! r) = stateDesktop)"

definition AllowResize :: "bytes \<Rightarrow> int \<Rightarrow> int \<Rightarrow> Broker \<Rightarrow> bool \<times> Broker" where
  "AllowResize ident cols rows b =
     (case getEntry ident b of
        None \<Rightarrow> (True, b)
      | Some r \<Rightarrow>
          quietly r (\<lambda>e. (en_state e = stateDesktop, e\<lparr>en_desktopCols := cols, en_desktopRows := rows\<rparr>)) b)"

text \<open>\<^verbatim>\<open>Attach\<close> from its critical section on, and \<^verbatim>\<open>Attach\<close> as a whole; \<open>sessions\<close> is \<^verbatim>\<open>Deps.Sessions\<close>.\<close>

definition attachTo ::
  "nat \<Rightarrow> bytes \<Rightarrow> MobileDevice \<Rightarrow> int \<Rightarrow> int \<Rightarrow> int \<Rightarrow> Broker \<Rightarrow> (AttachError + nat \<times> nat) \<times> Broker" where
  "attachTo r sid dev cols rows now b =
     (case attachLocked sid dev cols rows now (br_heap b ! r) of
        Inl err \<Rightarrow> (Inl err, b)
      | Inr (c, e) \<Rightarrow> (Inr (r, c), changed (setEntry r e b)))"

definition Attach ::
  "(bytes \<Rightarrow> bytes option) \<Rightarrow> bytes \<Rightarrow> MobileDevice \<Rightarrow> int \<Rightarrow> int \<Rightarrow> int \<Rightarrow> Broker \<Rightarrow>
   (AttachError + nat \<times> nat) \<times> Broker" where
  "Attach sessions sid dev cols rows now b =
     (case sessions sid of
        None \<Rightarrow> (Inl (CodeNotFound ''backend.space.mobileterm.noLiveTerminal.body''), b)
      | Some tid \<Rightarrow>
          case getEntry tid b of
            None \<Rightarrow> (Inl (CodeNotFound ''backend.space.mobileterm.noLiveTerminal.body''), b)
          | Some r \<Rightarrow> attachTo r sid dev cols rows now b)"

definition Input :: "bool \<Rightarrow> nat \<times> nat \<Rightarrow> bytes \<Rightarrow> Broker \<Rightarrow> bool \<times> Broker" where
  "Input ok rc d b =
     (case quietly (fst rc) (inputArm (snd rc)) b of
        (held, b1) \<Rightarrow>
          if held then
            (case quietly (fst rc) (inputCheck (snd rc) d) b1 of
               (held, b2) \<Rightarrow> if held then quietly (fst rc) (inputSend ok) b2 else (False, b2))
          else (False, b1))"

definition ResizeTo :: "nat \<times> nat \<Rightarrow> int \<Rightarrow> int \<Rightarrow> Broker \<Rightarrow> bool \<times> Broker" where
  "ResizeTo rc cols rows b = quietly (fst rc) (resizeConn (snd rc) cols rows) b"

definition Disconnected :: "nat \<times> nat \<Rightarrow> int \<Rightarrow> Broker \<Rightarrow> Broker" where
  "Disconnected rc now b = notifying (fst rc) (disconnectedLocked (snd rc) now) b"

definition Release :: "nat \<times> nat \<Rightarrow> Broker \<Rightarrow> Broker" where
  "Release rc b = notifying (fst rc) (releaseLocked (snd rc)) b"

definition Reclaim :: "bytes \<Rightarrow> int \<Rightarrow> int \<Rightarrow> Broker \<Rightarrow> Broker" where
  "Reclaim ident cols rows b =
     (case getEntry ident b of None \<Rightarrow> b | Some r \<Rightarrow> notifying r (reclaimLocked cols rows) b)"

definition expire :: "nat \<Rightarrow> 64 word \<Rightarrow> Broker \<Rightarrow> Broker" where
  "expire r gen b = notifying r (expireLocked gen) b"

fun releaseLoop :: "bytes \<Rightarrow> (entry \<Rightarrow> bool) \<Rightarrow> nat list \<Rightarrow> bool \<times> Broker \<Rightarrow> bool \<times> Broker" where
  "releaseLoop reason match [] acc = acc"
| "releaseLoop reason match (r # rs) (ch, b) =
     (let e = br_heap b ! r in
      if en_state e \<noteq> stateDesktop \<and> match e
      then (case toDesktop CloseRevoked reason e of
              (ch', e') \<Rightarrow> releaseLoop reason match rs (ch \<or> ch', setEntry r e' b))
      else releaseLoop reason match rs (ch, b))"

definition releaseWhere :: "bytes \<Rightarrow> (entry \<Rightarrow> bool) \<Rightarrow> Broker \<Rightarrow> Broker" where
  "releaseWhere reason match b =
     (case releaseLoop reason match (map snd (br_entries b)) (False, b) of
        (ch, b') \<Rightarrow> if ch then changed b' else b')"

definition ReleaseDevice :: "bytes \<Rightarrow> Broker \<Rightarrow> Broker" where
  "ReleaseDevice dev b = releaseWhere ''permission off'' (\<lambda>e. en_deviceID e = dev) b"

definition ReleaseAll :: "bytes \<Rightarrow> Broker \<Rightarrow> Broker" where
  "ReleaseAll reason b = releaseWhere reason (\<lambda>_. True) b"

text \<open>A connection's view of the ring.\<close>

definition connRing :: "nat \<times> nat \<Rightarrow> Broker \<Rightarrow> Ring" where
  "connRing rc b = en_ring (br_heap b ! fst rc)"

definition connReadFrom :: "nat \<times> nat \<Rightarrow> int \<Rightarrow> int \<Rightarrow> Broker \<Rightarrow> (bytes \<times> int \<times> bool) option" where
  "connReadFrom rc off limit b = ReadFrom (connRing rc b) off limit"

section \<open>Runs\<close>

datatype BrokerCall =
    CallOpened bytes int int
  | CallOutput bytes bytes
  | CallExited bytes
  | CallAllowResize bytes int int
  | CallAttach nat bytes MobileDevice int int int
  | CallInputArm nat nat
  | CallInputCheck nat nat bytes
  | CallInputSend bool nat
  | CallResize nat nat int int
  | CallDisconnected nat nat int
  | CallRelease nat nat
  | CallReclaim bytes int int
  | CallReleaseDevice bytes
  | CallReleaseAll bytes
  | CallFire nat nat
  | CallRunTimer nat nat

fun brokerStep :: "Broker \<Rightarrow> BrokerCall \<Rightarrow> Broker option" where
  "brokerStep b (CallOpened ident cols rows) = Some (Opened ident cols rows b)"
| "brokerStep b (CallOutput ident d) = OutputTo ident d b"
| "brokerStep b (CallExited ident) = Some (Exited ident b)"
| "brokerStep b (CallAllowResize ident cols rows) = Some (snd (AllowResize ident cols rows b))"
| "brokerStep b (CallAttach r sid dev cols rows now) = Some (snd (attachTo r sid dev cols rows now b))"
| "brokerStep b (CallInputArm r c) = Some (snd (quietly r (inputArm c) b))"
| "brokerStep b (CallInputCheck r c d) = Some (snd (quietly r (inputCheck c d) b))"
| "brokerStep b (CallInputSend ok r) = Some (snd (quietly r (inputSend ok) b))"
| "brokerStep b (CallResize r c cols rows) = Some (snd (ResizeTo (r, c) cols rows b))"
| "brokerStep b (CallDisconnected r c now) = Some (Disconnected (r, c) now b)"
| "brokerStep b (CallRelease r c) = Some (Release (r, c) b)"
| "brokerStep b (CallReclaim ident cols rows) = Some (Reclaim ident cols rows b)"
| "brokerStep b (CallReleaseDevice dev) = Some (ReleaseDevice dev b)"
| "brokerStep b (CallReleaseAll reason) = Some (ReleaseAll reason b)"
| "brokerStep b (CallFire r t) = Some (setEntry r (fireTimer t (br_heap b ! r)) b)"
| "brokerStep b (CallRunTimer r t) = Some (notifying r (runTimer t) b)"

text \<open>
  A call that holds a pointer to an entry holds one that was allocated; the check of an input waits for
  \<^verbatim>\<open>writeMu\<close>, and a write follows a check.
\<close>

fun callRef :: "BrokerCall \<Rightarrow> nat option" where
  "callRef (CallAttach r sid dev cols rows now) = Some r"
| "callRef (CallInputArm r c) = Some r"
| "callRef (CallInputCheck r c d) = Some r"
| "callRef (CallInputSend ok r) = Some r"
| "callRef (CallResize r c cols rows) = Some r"
| "callRef (CallDisconnected r c now) = Some r"
| "callRef (CallRelease r c) = Some r"
| "callRef (CallFire r t) = Some r"
| "callRef (CallRunTimer r t) = Some r"
| "callRef _ = None"

fun lockFree :: "Broker \<Rightarrow> BrokerCall \<Rightarrow> bool" where
  "lockFree b (CallInputCheck r c d) \<longleftrightarrow> en_write (br_heap b ! r) = None"
| "lockFree b (CallInputSend ok r) \<longleftrightarrow> en_write (br_heap b ! r) \<noteq> None"
| "lockFree b l \<longleftrightarrow> True"

definition callOk :: "Broker \<Rightarrow> BrokerCall \<Rightarrow> bool" where
  "callOk b l = ((case callRef l of None \<Rightarrow> True | Some r \<Rightarrow> r < length (br_heap b)) \<and> lockFree b l)"

inductive reachable :: "Broker \<Rightarrow> bool" where
  start: "reachable newBroker"
| step: "reachable b \<Longrightarrow> callOk b l \<Longrightarrow> brokerStep b l = Some b' \<Longrightarrow> reachable b'"

section \<open>The invariant of an entry\<close>

text \<open>
  A phone controls the terminal exactly while a live connection is registered, and whoever holds it
  has a timer of the current generation that has not run yet: a hold cannot be forgotten.
\<close>

definition timerPending :: "nat option \<Rightarrow> entry \<Rightarrow> bool" where
  "timerPending x e \<longleftrightarrow>
     (\<exists>t. x = Some t \<and> t < length (en_timers e) \<and> tm_gen (en_timers e ! t) = en_gen e \<and>
          tm_status (en_timers e ! t) \<in> {Armed, Fired})"

definition connOk :: "entry \<Rightarrow> bool" where
  "connOk e \<longleftrightarrow>
     (case en_conn e of
        None \<Rightarrow> en_state e \<noteq> statePhone
      | Some c \<Rightarrow> en_state e = statePhone \<and> c < length (en_conns e) \<and> cn_done (en_conns e ! c) = None \<and>
          cn_device (en_conns e ! c) = en_deviceID e)"

definition entryOk :: "entry \<Rightarrow> bool" where
  "entryOk e \<longleftrightarrow>
     connOk e \<and>
     (en_state e = statePhone \<longrightarrow> timerPending (en_idle e) e) \<and>
     (en_state e = stateOffline \<longrightarrow> timerPending (en_grace e) e) \<and>
     (\<exists>s. ringRepr (en_ring e) s)"

text \<open>Two entries look the same in the list of holds.\<close>

definition sameHold :: "entry \<Rightarrow> entry \<Rightarrow> bool" where
  "sameHold e e' \<longleftrightarrow> isHeld e = isHeld e' \<and> (isHeld e \<longrightarrow> holdOf e = holdOf e')"

lemma sameHold_refl [simp]: "sameHold e e"
  by (simp add: sameHold_def)

text \<open>What the helpers leave alone, as equations on whole entries.\<close>

lemma stopTimer_shape: "\<exists>ts. stopTimer t e = e\<lparr>en_timers := ts\<rparr> \<and> length ts = length (en_timers e)"
  by (cases "tm_status (en_timers e ! t) = Armed")
    (auto simp: stopTimer_def intro: exI [of _ "en_timers e"])

lemma stopGrace_shape:
  "\<exists>ts. stopGrace e = e\<lparr>en_timers := ts, en_grace := None\<rparr> \<and> length ts = length (en_timers e)"
proof (cases "en_grace e")
  case None
  then show ?thesis by (intro exI [of _ "en_timers e"]) (cases e, simp add: stopGrace_def)
next
  case (Some t)
  then show ?thesis using stopTimer_shape [of t e] by (auto simp: stopGrace_def)
qed

lemma stopIdle_shape:
  "\<exists>ts. stopIdle e = e\<lparr>en_timers := ts, en_idle := None\<rparr> \<and> length ts = length (en_timers e)"
proof (cases "en_idle e")
  case None
  then show ?thesis by (intro exI [of _ "en_timers e"]) (cases e, simp add: stopIdle_def)
next
  case (Some t)
  then show ?thesis using stopTimer_shape [of t e] by (auto simp: stopIdle_def)
qed

lemma stopTimers_shape:
  "\<exists>ts. stopTimers e = e\<lparr>en_grace := None, en_timers := ts, en_idle := None\<rparr> \<and> length ts = length (en_timers e)"
  using stopGrace_shape [of e] stopIdle_shape [of "stopGrace e"] by (auto simp: stopTimers_def)

lemma finish_shape:
  "\<exists>cs. finish c code reason e = e\<lparr>en_conns := cs\<rparr> \<and> length cs = length (en_conns e) \<and>
     (c < length cs \<and> cn_done (en_conns e ! c) = None \<longrightarrow> cn_done (cs ! c) = Some (code, reason)) \<and>
     (\<forall>d. d \<noteq> c \<longrightarrow> cs ! d = en_conns e ! d)"
proof (cases "cn_done (en_conns e ! c)")
  case None
  then show ?thesis
    by (intro exI [of _ "(en_conns e)[c := (en_conns e ! c)\<lparr>cn_done := Some (code, reason)\<rparr>]"])
      (auto simp: finish_def)
next
  case (Some x)
  then show ?thesis by (intro exI [of _ "en_conns e"]) (auto simp: finish_def)
qed

lemma finishConn_shape:
  "\<exists>cs. finishConn code reason e = e\<lparr>en_conns := cs, en_conn := None\<rparr> \<and> length cs = length (en_conns e) \<and>
     (\<forall>c. en_conn e = Some c \<longrightarrow> connOk e \<longrightarrow> cn_done (cs ! c) = Some (code, reason))"
proof (cases "en_conn e")
  case None
  then have "finishConn code reason e = e\<lparr>en_conns := en_conns e, en_conn := None\<rparr>"
    by (cases e) (simp add: finishConn_def)
  with None show ?thesis by (intro exI [of _ "en_conns e"]) simp
next
  case (Some c)
  obtain cs where cs: "finish c code reason e = e\<lparr>en_conns := cs\<rparr>" "length cs = length (en_conns e)"
    "c < length cs \<and> cn_done (en_conns e ! c) = None \<longrightarrow> cn_done (cs ! c) = Some (code, reason)"
    using finish_shape [of c code reason e] by blast
  with Some show ?thesis
    by (intro exI [of _ cs]) (simp add: finishConn_def connOk_def)
qed

lemma entryOk_desktop: "en_state e = stateDesktop \<Longrightarrow> en_conn e = None \<Longrightarrow> ringRepr (en_ring e) s \<Longrightarrow> entryOk e"
  by (auto simp: entryOk_def connOk_def)

lemma resize_shape: "\<exists>cs. resize cols rows e = e\<lparr>en_calls := cs\<rparr>"
  by (auto simp: resize_def intro: exI [of _ "en_calls e"])

lemma toDesktop_held:
  assumes "isHeld e"
  obtains e' where "toDesktop code reason e = (True, e')" and "en_state e' = stateDesktop"
    and "en_conn e' = None" and "en_ring e' = en_ring e" and "en_id e' = en_id e"
    and "\<And>c. en_conn e = Some c \<Longrightarrow> connOk e \<Longrightarrow> cn_done (en_conns e' ! c) = Some (code, reason)"
proof -
  obtain cs where cs: "finishConn code reason e = e\<lparr>en_conns := cs, en_conn := None\<rparr>"
    "\<And>c. en_conn e = Some c \<Longrightarrow> connOk e \<Longrightarrow> cn_done (cs ! c) = Some (code, reason)"
    using finishConn_shape [of code reason e] by blast
  obtain ts where ts: "stopTimers (e\<lparr>en_conns := cs, en_conn := None\<rparr>) =
      e\<lparr>en_conns := cs, en_conn := None, en_grace := None, en_timers := ts, en_idle := None\<rparr>"
    using stopTimers_shape by blast
  have "resize x y d = d\<lparr>en_calls := en_calls (resize x y d)\<rparr>" for x y d
    using resize_shape [of x y d] by auto
  moreover have "\<not> en_state e = stateDesktop" using assms by (simp add: isHeld_def)
  ultimately show thesis
    by (intro that [of "snd (toDesktop code reason e)"])
      (auto simp: toDesktop_def Let_def cs ts resize_def)
qed

lemma armIdle_pending:
  "timerPending (en_idle (armIdle e)) (armIdle e)"
  "\<exists>ts t. armIdle e = e\<lparr>en_timers := ts, en_idle := Some t\<rparr>"
proof -
  have "\<exists>ts. (case en_idle e of None \<Rightarrow> e | Some t \<Rightarrow> stopTimer t e) = e\<lparr>en_timers := ts\<rparr>"
    using stopTimer_shape [of _ e] by (cases "en_idle e") (auto intro: exI [of _ "en_timers e"])
  then obtain ts where ts: "(case en_idle e of None \<Rightarrow> e | Some t \<Rightarrow> stopTimer t e) = e\<lparr>en_timers := ts\<rparr>"
    by blast
  then have e: "armIdle e =
      e\<lparr>en_timers := ts @ [\<lparr>tm_gen = en_gen e, tm_status = Armed\<rparr>], en_idle := Some (length ts)\<rparr>"
    by (simp add: armIdle_def Let_def afterFunc_def)
  then show "timerPending (en_idle (armIdle e)) (armIdle e)"
    by (simp add: timerPending_def)
  from e show "\<exists>ts t. armIdle e = e\<lparr>en_timers := ts, en_idle := Some t\<rparr>" by blast
qed

section \<open>The contract of a critical section\<close>

text \<open>
  What the broker relies on from a section of an entry: it keeps the entry's invariant and its
  identity, and when it reports no change the list of holds shows none.  An \<^emph>\<open>ending\<close> section also
  tells every connection it takes control from why.
\<close>

locale entry_section =
  fixes sect :: "entry \<Rightarrow> bool \<times> entry"
  assumes sect_ok: "entryOk e \<Longrightarrow> entryOk (snd (sect e))"
    and sect_id: "en_id (snd (sect e)) = en_id e"
    and sect_quiet: "entryOk e \<Longrightarrow> \<not> fst (sect e) \<Longrightarrow> sameHold e (snd (sect e))"

locale telling_section = entry_section +
  assumes sect_told: "entryOk e \<Longrightarrow> en_conn e = Some c \<Longrightarrow> en_conn (snd (sect e)) \<noteq> Some c \<Longrightarrow>
    \<exists>x. cn_done (en_conns (snd (sect e)) ! c) = Some x"

lemma telling_toDesktop: "telling_section (toDesktop code reason)"
proof unfold_locales
  fix e :: entry and c
  obtain e' where e': "isHeld e \<Longrightarrow> toDesktop code reason e = (True, e') \<and> en_state e' = stateDesktop \<and>
      en_conn e' = None \<and> en_ring e' = en_ring e \<and> en_id e' = en_id e \<and>
      (\<forall>c. en_conn e = Some c \<longrightarrow> connOk e \<longrightarrow> cn_done (en_conns e' ! c) = Some (code, reason))"
    using toDesktop_held by metis
  have d: "\<not> isHeld e \<Longrightarrow> toDesktop code reason e = (False, e)"
    by (simp add: isHeld_def toDesktop_def)
  show "entryOk e \<Longrightarrow> entryOk (snd (toDesktop code reason e))"
    using e' d by (cases "isHeld e") (auto simp: entryOk_def connOk_def)
  show "en_id (snd (toDesktop code reason e)) = en_id e"
    using e' d by (cases "isHeld e") auto
  show "entryOk e \<Longrightarrow> \<not> fst (toDesktop code reason e) \<Longrightarrow> sameHold e (snd (toDesktop code reason e))"
    using e' d by (cases "isHeld e") auto
  show "entryOk e \<Longrightarrow> en_conn e = Some c \<Longrightarrow> en_conn (snd (toDesktop code reason e)) \<noteq> Some c \<Longrightarrow>
      \<exists>x. cn_done (en_conns (snd (toDesktop code reason e)) ! c) = Some x"
    using e' d by (cases "isHeld e") (auto simp: entryOk_def)
qed

interpretation desk: telling_section "toDesktop code reason" for code reason
  by (rule telling_toDesktop)

lemmas entry_inv_defs = entryOk_def connOk_def timerPending_def

lemma entryOk_update [simp]:
  "entryOk (e\<lparr>en_desktopCols := x\<rparr>) = entryOk e" "entryOk (e\<lparr>en_desktopRows := x\<rparr>) = entryOk e"
  "entryOk (e\<lparr>en_phoneCols := x\<rparr>) = entryOk e" "entryOk (e\<lparr>en_phoneRows := x\<rparr>) = entryOk e"
  "entryOk (e\<lparr>en_calls := cs\<rparr>) = entryOk e" "entryOk (e\<lparr>en_write := w\<rparr>) = entryOk e"
  by (simp_all add: entry_inv_defs cong: option.case_cong)

lemma sameHold_update [simp]:
  "sameHold e (e'\<lparr>en_desktopCols := x\<rparr>) = sameHold e e'" "sameHold e (e'\<lparr>en_desktopRows := x\<rparr>) = sameHold e e'"
  "sameHold e (e'\<lparr>en_phoneCols := x\<rparr>) = sameHold e e'" "sameHold e (e'\<lparr>en_phoneRows := x\<rparr>) = sameHold e e'"
  "sameHold e (e'\<lparr>en_calls := cs\<rparr>) = sameHold e e'" "sameHold e (e'\<lparr>en_timers := ts\<rparr>) = sameHold e e'"
  "sameHold e (e'\<lparr>en_idle := i\<rparr>) = sameHold e e'" "sameHold e (e'\<lparr>en_conns := cns\<rparr>) = sameHold e e'"
  "sameHold e (e'\<lparr>en_ring := rg\<rparr>) = sameHold e e'" "sameHold e (e'\<lparr>en_write := w\<rparr>) = sameHold e e'"
  by (simp_all add: sameHold_def isHeld_def holdOf_def)

lemma resize_facts [simp]:
  "entryOk (resize cols rows e) = entryOk e" "sameHold d (resize cols rows e) = sameHold d e"
  "en_id (resize cols rows e) = en_id e" "en_conn (resize cols rows e) = en_conn e"
  "en_conns (resize cols rows e) = en_conns e"
  by (simp_all add: resize_def)

lemma armIdle_facts:
  "en_conn e = Some c \<Longrightarrow> entryOk e \<Longrightarrow> entryOk (armIdle e)" "sameHold d (armIdle e) = sameHold d e"
  "en_id (armIdle e) = en_id e" "en_conn (armIdle e) = en_conn e" "en_conns (armIdle e) = en_conns e"
  "en_ring (armIdle e) = en_ring e" "en_state (armIdle e) = en_state e" "en_deviceID (armIdle e) = en_deviceID e"
  "en_sessionID (armIdle e) = en_sessionID e"
proof -
  obtain ts t where e: "armIdle e = e\<lparr>en_timers := ts, en_idle := Some t\<rparr>"
    using armIdle_pending(2) by blast
  then show "sameHold d (armIdle e) = sameHold d e" "en_id (armIdle e) = en_id e"
    "en_conn (armIdle e) = en_conn e" "en_conns (armIdle e) = en_conns e" "en_ring (armIdle e) = en_ring e"
    "en_state (armIdle e) = en_state e" "en_deviceID (armIdle e) = en_deviceID e"
    "en_sessionID (armIdle e) = en_sessionID e"
    by simp_all
  show "entryOk (armIdle e)" if "en_conn e = Some c" "entryOk e"
    using that armIdle_pending(1) [of e] unfolding e by (simp add: entryOk_def connOk_def)
qed

interpretation arm: telling_section "inputArm c" for c
  by unfold_locales (auto simp: inputArm_def armIdle_facts)

interpretation chk: telling_section "inputCheck c d" for c d
  by unfold_locales (auto simp: inputCheck_def)

interpretation sends: telling_section "inputSend ok" for ok
  by unfold_locales (auto simp: inputSend_def split: option.splits)

interpretation rsz: telling_section "resizeConn c cols rows" for c cols rows
  by unfold_locales (auto simp: resizeConn_def armIdle_facts)

interpretation rel: telling_section "releaseLocked c" for c
  using desk.sect_ok desk.sect_id desk.sect_quiet desk.sect_told
  by unfold_locales (auto simp: releaseLocked_def)

interpretation exp: telling_section "expireLocked gen" for gen
  using desk.sect_ok desk.sect_id desk.sect_quiet desk.sect_told
  by unfold_locales (auto simp: expireLocked_def)

interpretation recl: telling_section "reclaimLocked cols rows" for cols rows
proof unfold_locales
  fix e :: entry and c
  define d where "d = (if 0 < cols \<and> 0 < rows then e\<lparr>en_desktopCols := cols, en_desktopRows := rows\<rparr> else e)"
  let ?d = "toDesktop CloseReclaimed ''reclaimed'' d"
  have ok: "entryOk e = entryOk d" and conn: "en_conn e = en_conn d" and ident: "en_id e = en_id d"
    and same: "sameHold e x = sameHold d x" for x
    by (auto simp: d_def sameHold_def isHeld_def holdOf_def)
  have s: "reclaimLocked cols rows e =
      (fst ?d, if \<not> fst ?d \<and> 0 < cols \<and> 0 < rows then resize cols rows (snd ?d) else snd ?d)"
    by (simp add: reclaimLocked_def Let_def case_prod_beta d_def)
  show "entryOk e \<Longrightarrow> entryOk (snd (reclaimLocked cols rows e))"
    using desk.sect_ok unfolding s ok by simp
  show "en_id (snd (reclaimLocked cols rows e)) = en_id e"
    using desk.sect_id unfolding s ident by simp
  show "entryOk e \<Longrightarrow> \<not> fst (reclaimLocked cols rows e) \<Longrightarrow> sameHold e (snd (reclaimLocked cols rows e))"
    using desk.sect_quiet unfolding s ok same by simp
  show "entryOk e \<Longrightarrow> en_conn e = Some c \<Longrightarrow> en_conn (snd (reclaimLocked cols rows e)) \<noteq> Some c \<Longrightarrow>
      \<exists>x. cn_done (en_conns (snd (reclaimLocked cols rows e)) ! c) = Some x"
    using desk.sect_told [of d c] unfolding s ok conn by (auto split: if_splits)
qed

lemma stopTimers_facts [simp]:
  "en_id (stopTimers e) = en_id e" "en_ring (stopTimers e) = en_ring e" "en_conn (stopTimers e) = en_conn e"
  "en_conns (stopTimers e) = en_conns e" "en_gen (stopTimers e) = en_gen e"
  "en_state (stopTimers e) = en_state e" "en_deviceID (stopTimers e) = en_deviceID e"
  using stopTimers_shape [of e] by auto

interpretation ext: telling_section exitLocked
proof unfold_locales
  fix e :: entry and c
  obtain cs where cs: "finishConn CloseExit ''exit'' e = e\<lparr>en_conns := cs, en_conn := None\<rparr>"
    "\<And>c. en_conn e = Some c \<Longrightarrow> connOk e \<Longrightarrow> cn_done (cs ! c) = Some (CloseExit, ''exit'')"
    using finishConn_shape [of CloseExit "''exit''" e] by blast
  show "entryOk e \<Longrightarrow> entryOk (snd (exitLocked e))"
    by (auto simp: exitLocked_def Let_def cs entryOk_def connOk_def)
  show "en_id (snd (exitLocked e)) = en_id e"
    by (simp add: exitLocked_def Let_def cs)
  show "entryOk e \<Longrightarrow> \<not> fst (exitLocked e) \<Longrightarrow> sameHold e (snd (exitLocked e))"
    by (simp add: exitLocked_def Let_def sameHold_def isHeld_def)
  show "entryOk e \<Longrightarrow> en_conn e = Some c \<Longrightarrow> en_conn (snd (exitLocked e)) \<noteq> Some c \<Longrightarrow>
      \<exists>x. cn_done (en_conns (snd (exitLocked e)) ! c) = Some x"
    by (simp add: exitLocked_def Let_def cs entryOk_def)
qed

interpretation disc: entry_section "disconnectedLocked c now" for c now
proof unfold_locales
  fix e :: entry
  show "entryOk e \<Longrightarrow> entryOk (snd (disconnectedLocked c now e))"
    by (cases "en_conn e = Some c") (auto simp: disconnectedLocked_def Let_def afterFunc_def entry_inv_defs)
  show "en_id (snd (disconnectedLocked c now e)) = en_id e"
    by (simp add: disconnectedLocked_def Let_def afterFunc_def)
  show "entryOk e \<Longrightarrow> \<not> fst (disconnectedLocked c now e) \<Longrightarrow> sameHold e (snd (disconnectedLocked c now e))"
    by (simp add: disconnectedLocked_def Let_def afterFunc_def split: if_splits)
qed

text \<open>The section of \<^verbatim>\<open>Attach\<close> in the shape of the contract: refused, it changes nothing.\<close>

definition attachSect :: "bytes \<Rightarrow> MobileDevice \<Rightarrow> int \<Rightarrow> int \<Rightarrow> int \<Rightarrow> entry \<Rightarrow> bool \<times> entry" where
  "attachSect sid dev cols rows now e =
     (case attachLocked sid dev cols rows now e of Inl _ \<Rightarrow> (False, e) | Inr (c, e') \<Rightarrow> (True, e'))"

lemma signal_facts [simp]:
  "en_id (signal c e) = en_id e" "en_conn (signal c e) = en_conn e" "en_ring (signal c e) = en_ring e"
  "sameHold d (signal c e) = sameHold d e" "cn_done (en_conns (signal c e) ! x) = cn_done (en_conns e ! x)"
  "entryOk (signal c e) = entryOk e"
proof -
  have n: "(en_conns (signal c e) ! x) = (if x = c \<and> c < length (en_conns e)
      then (en_conns e ! x)\<lparr>cn_notify := True\<rparr> else en_conns e ! x)" for x
    by (cases "c < length (en_conns e)") (auto simp: signal_def nth_list_update list_update_beyond)
  show "cn_done (en_conns (signal c e) ! x) = cn_done (en_conns e ! x)" by (simp add: n)
  show "en_id (signal c e) = en_id e" "en_conn (signal c e) = en_conn e" "en_ring (signal c e) = en_ring e"
    "sameHold d (signal c e) = sameHold d e" by (simp_all add: signal_def)
  have "cn_device (en_conns (signal c e) ! x) = cn_device (en_conns e ! x)"
    "cn_done (en_conns (signal c e) ! x) = cn_done (en_conns e ! x)" for x by (simp_all add: n)
  then show "entryOk (signal c e) = entryOk e"
    unfolding entry_inv_defs by (simp add: signal_def cong: option.case_cong)
qed

lemma attachLocked_accepts:
  assumes ok: "entryOk e" and free: "en_state e = stateDesktop \<or> en_deviceID e = md_ID dev"
  obtains e' where "attachLocked sid dev cols rows now e = Inr (length (en_conns e), e')"
    and "entryOk e'" and "en_id e' = en_id e" and "en_conn e' = Some (length (en_conns e))"
    and "en_deviceID e' = md_ID dev" and "en_state e' = statePhone" and "en_sessionID e' = sid"
    and "\<And>c. en_conn e = Some c \<Longrightarrow> cn_done (en_conns e' ! c) = Some (CloseReplaced, ''replaced'')"
proof -
  define e1 where "e1 = (case en_conn e of None \<Rightarrow> e | Some old \<Rightarrow> finish old CloseReplaced ''replaced'' e)"
  have "\<exists>cs. e1 = e\<lparr>en_conns := cs\<rparr> \<and> length cs = length (en_conns e) \<and>
      (\<forall>c. en_conn e = Some c \<longrightarrow> c < length cs \<and> cn_done (cs ! c) = Some (CloseReplaced, ''replaced''))"
  proof (cases "en_conn e")
    case None
    then show ?thesis by (intro exI [of _ "en_conns e"]) (simp add: e1_def)
  next
    case (Some c)
    then have "c < length (en_conns e)" "cn_done (en_conns e ! c) = None"
      using ok by (simp_all add: entryOk_def connOk_def)
    with Some finish_shape [of c CloseReplaced "''replaced''" e] show ?thesis by (auto simp: e1_def)
  qed
  then obtain cs where cs: "e1 = e\<lparr>en_conns := cs\<rparr>" "length cs = length (en_conns e)"
    "\<And>c. en_conn e = Some c \<Longrightarrow> c < length cs \<and> cn_done (cs ! c) = Some (CloseReplaced, ''replaced'')"
    by blast
  let ?k = "\<lparr>cn_device = md_ID dev, cn_notify = False, cn_done = None\<rparr>"
  define e3 where "e3 = (let e2 = e1\<lparr>en_conns := en_conns e1 @ [?k]\<rparr> in
      if en_state e2 = stateDesktop then e2\<lparr>en_since := now\<rparr> else e2)"
  define e5 where "e5 = (stopTimers e3)\<lparr>en_gen := en_gen (stopTimers e3) + 1, en_conn := Some (length cs),
      en_state := statePhone, en_sessionID := sid, en_deviceID := md_ID dev, en_label := md_Label dev,
      en_phoneCols := cols, en_phoneRows := rows, en_returnsAt := zeroTime\<rparr>"
  have e3: "en_conns e3 = cs @ [?k]" "en_ring e3 = en_ring e" "en_id e3 = en_id e"
    by (simp_all add: e3_def Let_def cs)
  have arm: "timerPending (en_idle (armIdle e5)) (armIdle e5)" by (rule armIdle_pending(1))
  have e5: "en_conns e5 = cs @ [?k]" "en_ring e5 = en_ring e" "en_id e5 = en_id e" "en_conn e5 = Some (length cs)"
    "en_state e5 = statePhone" "en_deviceID e5 = md_ID dev" "en_sessionID e5 = sid"
    by (simp_all add: e5_def e3)
  have "\<exists>s. ringRepr (en_ring e) s" using ok by (simp add: entryOk_def)
  with arm have "entryOk (armIdle e5)"
    by (simp add: entryOk_def connOk_def armIdle_facts e5 nth_append)
  moreover have "attachLocked sid dev cols rows now e = Inr (length cs, signal (length cs) (resize cols rows (armIdle e5)))"
    using free by (auto simp: attachLocked_def Let_def e1_def [symmetric] e3_def e5_def cs)
  moreover have "cn_done ((cs @ [?k]) ! c) = Some (CloseReplaced, ''replaced'')" if "en_conn e = Some c" for c
    using cs(3) [OF that] by (simp add: nth_append)
  moreover have "en_state (signal a (resize x y d)) = en_state d" "en_deviceID (signal a (resize x y d)) = en_deviceID d"
    "en_sessionID (signal a (resize x y d)) = en_sessionID d" for a x y d
    by (simp_all add: signal_def resize_def)
  ultimately show thesis
    by (intro that [of "signal (length cs) (resize cols rows (armIdle e5))"])
      (simp_all add: armIdle_facts e5 cs(2) [symmetric])
qed

lemma attachLocked_refuses:
  "en_state e \<noteq> stateDesktop \<Longrightarrow> en_deviceID e \<noteq> md_ID dev \<Longrightarrow>
    attachLocked sid dev cols rows now e = Inl (CodeConflict ''backend.space.mobileterm.controlledElsewhere.body'')"
  by (simp add: attachLocked_def)

lemma attachLocked_id: "attachLocked sid dev cols rows now e = Inr (c, e') \<Longrightarrow> en_id e' = en_id e"
proof -
  have "en_id (finish a b r d) = en_id d" for a b r d
    using finish_shape [of a b r d] by auto
  then show "attachLocked sid dev cols rows now e = Inr (c, e') \<Longrightarrow> en_id e' = en_id e"
    by (auto simp: attachLocked_def Let_def armIdle_facts split: if_splits option.splits)
qed

interpretation att: telling_section "attachSect sid dev cols rows now" for sid dev cols rows now
proof unfold_locales
  fix e :: entry and c
  let ?free = "en_state e = stateDesktop \<or> en_deviceID e = md_ID dev"
  show "en_id (snd (attachSect sid dev cols rows now e)) = en_id e"
    by (auto simp: attachSect_def dest: attachLocked_id split: sum.splits)
  show "entryOk (snd (attachSect sid dev cols rows now e))" if "entryOk e"
  proof (cases ?free)
    case True
    then show ?thesis
      by (rule attachLocked_accepts [OF that, where sid = sid and cols = cols and rows = rows and now = now])
        (simp add: attachSect_def)
  next
    case False
    with that show ?thesis by (simp add: attachSect_def attachLocked_refuses)
  qed
  show "sameHold e (snd (attachSect sid dev cols rows now e))" if "\<not> fst (attachSect sid dev cols rows now e)"
    using that by (auto simp: attachSect_def split: sum.splits)
  show "\<exists>x. cn_done (en_conns (snd (attachSect sid dev cols rows now e)) ! c) = Some x"
    if "entryOk e" "en_conn e = Some c" "en_conn (snd (attachSect sid dev cols rows now e)) \<noteq> Some c"
  proof (cases ?free)
    case True
    then show ?thesis
      by (rule attachLocked_accepts [OF that(1), where sid = sid and cols = cols and rows = rows and now = now])
        (simp add: attachSect_def that(2))
  next
    case False
    with that show ?thesis by (simp add: attachSect_def attachLocked_refuses)
  qed
qed

text \<open>The runtime's steps.\<close>

lemma timerPending_fire: "timerPending x e \<Longrightarrow> timerPending x (fireTimer t e)"
  by (auto simp: timerPending_def fireTimer_def nth_list_update)

interpretation fire: telling_section "\<lambda>e. (False, fireTimer t e)" for t
proof unfold_locales
  fix e :: entry and c
  have f: "en_id (fireTimer t e) = en_id e" "en_conn (fireTimer t e) = en_conn e" "sameHold e (fireTimer t e)"
    "connOk (fireTimer t e) = connOk e" "en_state (fireTimer t e) = en_state e" "en_ring (fireTimer t e) = en_ring e"
    "en_idle (fireTimer t e) = en_idle e" "en_grace (fireTimer t e) = en_grace e"
    by (simp_all add: fireTimer_def connOk_def cong: option.case_cong)
  then show "entryOk e \<Longrightarrow> entryOk (snd (False, fireTimer t e))"
    by (simp add: entryOk_def timerPending_fire)
  show "en_id (snd (False, fireTimer t e)) = en_id e"
    "entryOk e \<Longrightarrow> \<not> fst (False, fireTimer t e) \<Longrightarrow> sameHold e (snd (False, fireTimer t e))"
    "en_conn e = Some c \<Longrightarrow> en_conn (snd (False, fireTimer t e)) \<noteq> Some c \<Longrightarrow>
      \<exists>x. cn_done (en_conns (snd (False, fireTimer t e)) ! c) = Some x"
    by (simp_all add: f)
qed

lemma runTimer_cases:
  assumes "entryOk e"
  shows "(\<not> fst (runTimer t e) \<and> entryOk (snd (runTimer t e)) \<and> sameHold e (snd (runTimer t e)) \<and>
          en_conn (snd (runTimer t e)) = en_conn e) \<or>
         (isHeld e \<and> fst (runTimer t e) \<and> entryOk (snd (runTimer t e)) \<and> en_conn (snd (runTimer t e)) = None \<and>
          en_state (snd (runTimer t e)) = stateDesktop \<and>
          (\<forall>c. en_conn e = Some c \<longrightarrow> cn_done (en_conns (snd (runTimer t e)) ! c) = Some (CloseTimeout, ''timeout'')))"
proof (cases "t < length (en_timers e) \<and> tm_status (en_timers e ! t) = Fired")
  case False
  with assms show ?thesis by (auto simp: runTimer_def)
next
  case True
  define d where "d = e\<lparr>en_timers := (en_timers e)[t := (en_timers e ! t)\<lparr>tm_status := Finished\<rparr>]\<rparr>"
  have run: "runTimer t e = expireLocked (tm_gen (en_timers e ! t)) d"
    using True by (simp add: runTimer_def d_def)
  have d: "sameHold e d" "en_conn d = en_conn e" "connOk d = connOk e" "en_ring d = en_ring e" "en_state d = en_state e"
    "en_gen d = en_gen e"
    by (simp_all add: d_def connOk_def cong: option.case_cong)
  show ?thesis
  proof (cases "en_gen e = tm_gen (en_timers e ! t) \<and> isHeld e")
    case True
    then have "isHeld d" by (simp add: isHeld_def d)
    then obtain e' where "toDesktop CloseTimeout ''timeout'' d = (True, e')" "en_state e' = stateDesktop"
      "en_conn e' = None" "en_ring e' = en_ring e"
      "\<And>c. en_conn e = Some c \<Longrightarrow> connOk d \<Longrightarrow> cn_done (en_conns e' ! c) = Some (CloseTimeout, ''timeout'')"
      using d by (elim toDesktop_held [where code = CloseTimeout and reason = "''timeout''"]) auto
    with True assms d run show ?thesis by (auto simp: expireLocked_def entryOk_def connOk_def)
  next
    case False
    have "entryOk d"
    proof (cases "isHeld e")
      case True
      with False have "timerPending x e \<Longrightarrow> timerPending x d" for x
        by (auto simp: timerPending_def d_def nth_list_update_neq) (metis nth_list_update_neq)+
      with assms d show ?thesis by (auto simp: entryOk_def) (simp_all add: d_def)
    next
      case F: False
      with assms d show ?thesis by (simp add: entryOk_def isHeld_def)
    qed
    moreover have "expireLocked (tm_gen (en_timers e ! t)) d = (False, d)"
      using False d by (auto simp: expireLocked_def toDesktop_def isHeld_def)
    ultimately show ?thesis using d run by simp
  qed
qed

interpretation run: telling_section "runTimer t" for t
proof unfold_locales
  fix e :: entry and c
  show "entryOk e \<Longrightarrow> entryOk (snd (runTimer t e))" using runTimer_cases [of e t] by blast
  show "en_id (snd (runTimer t e)) = en_id e" by (simp add: runTimer_def exp.sect_id)
  show "entryOk e \<Longrightarrow> \<not> fst (runTimer t e) \<Longrightarrow> sameHold e (snd (runTimer t e))"
    using runTimer_cases [of e t] by blast
  show "entryOk e \<Longrightarrow> en_conn e = Some c \<Longrightarrow> en_conn (snd (runTimer t e)) \<noteq> Some c \<Longrightarrow>
      \<exists>x. cn_done (en_conns (snd (runTimer t e)) ! c) = Some x"
    using runTimer_cases [of e t] by auto
qed

section \<open>The invariant of the broker\<close>

definition tableOk :: "Broker \<Rightarrow> bool" where
  "tableOk b \<longleftrightarrow>
     distinct (map fst (br_entries b)) \<and>
     (\<forall>(k, r)\<in>set (br_entries b). r < length (br_heap b) \<and> en_id (br_heap b ! r) = k)"

text \<open>The list of holds the listener was last given; before the first notification, none.\<close>

definition lastHolds :: "Broker \<Rightarrow> Hold list" where
  "lastHolds b = (if br_changes b = [] then [] else last (br_changes b))"

definition brokerOk :: "Broker \<Rightarrow> bool" where
  "brokerOk b \<longleftrightarrow> tableOk b \<and> (\<forall>e\<in>set (br_heap b). entryOk e) \<and> lastHolds b = Holds b"

lemma brokerOk_entry: "brokerOk b \<Longrightarrow> r < length (br_heap b) \<Longrightarrow> entryOk (br_heap b ! r)"
  by (simp add: brokerOk_def)

lemma setEntry_facts [simp]:
  "br_entries (setEntry r e b) = br_entries b" "br_changes (setEntry r e b) = br_changes b"
  "length (br_heap (setEntry r e b)) = length (br_heap b)"
  "br_heap (setEntry r e b) ! i = (if i = r \<and> r < length (br_heap b) then e else br_heap b ! i)"
  by (cases "r < length (br_heap b)"; simp add: setEntry_def list_update_beyond)+

lemma tableOk_setEntry: "tableOk b \<Longrightarrow> en_id e = en_id (br_heap b ! r) \<Longrightarrow> tableOk (setEntry r e b)"
  unfolding tableOk_def by (auto simp: case_prod_beta)

lemma getEntry_ref: "tableOk b \<Longrightarrow> getEntry k b = Some r \<Longrightarrow> r < length (br_heap b) \<and> en_id (br_heap b ! r) = k"
  by (auto simp: tableOk_def getEntry_def dest: map_of_SomeD)

lemma brokerOk_get: "brokerOk b \<Longrightarrow> getEntry k b = Some r \<Longrightarrow> r < length (br_heap b)"
  using getEntry_ref by (auto simp: brokerOk_def)

lemma lastHolds_changed [simp]: "lastHolds (changed b) = Holds (changed b)"
  by (simp add: lastHolds_def changed_def Holds_def)

lemma changed_heap [simp]: "br_heap (changed b) = br_heap b" "tableOk (changed b) = tableOk b"
  by (simp_all add: changed_def tableOk_def)

lemma Holds_setEntry:
  assumes "sameHold (br_heap b ! r) e" and "r < length (br_heap b)"
  shows "Holds (setEntry r e b) = Holds b"
proof -
  have "map holdOf (filter isHeld (map (\<lambda>(k, i). br_heap (setEntry r e b) ! i) xs)) =
        map holdOf (filter isHeld (map (\<lambda>(k, i). br_heap b ! i) xs))" for xs :: "(bytes \<times> nat) list"
    using assms by (induction xs) (simp_all add: sameHold_def case_prod_beta)
  then show ?thesis by (simp add: Holds_def)
qed

lemma setEntry_heap: "e' \<in> set (br_heap (setEntry r e b)) \<Longrightarrow> e' = e \<or> e' \<in> set (br_heap b)"
  using set_update_subset_insert [of "br_heap b" r e] by (auto simp: setEntry_def)

lemma brokerOk_setEntry:
  assumes "brokerOk b" and "r < length (br_heap b)" and "entryOk e" and "en_id e = en_id (br_heap b ! r)"
  shows "brokerOk (changed (setEntry r e b))"
    and "sameHold (br_heap b ! r) e \<Longrightarrow> brokerOk (setEntry r e b)"
proof -
  have t: "tableOk (setEntry r e b)" and h: "\<forall>e\<in>set (br_heap (setEntry r e b)). entryOk e"
    using assms tableOk_setEntry by (auto simp: brokerOk_def dest: setEntry_heap)
  then show "brokerOk (changed (setEntry r e b))" by (simp add: brokerOk_def)
  show "brokerOk (setEntry r e b)" if "sameHold (br_heap b ! r) e"
    using assms(1) t h Holds_setEntry [OF that assms(2)]
    by (auto simp: brokerOk_def lastHolds_def)
qed

context entry_section
begin

lemma notifying_ok: "brokerOk b \<Longrightarrow> r < length (br_heap b) \<Longrightarrow> brokerOk (notifying r sect b)"
  using brokerOk_setEntry [of b r "snd (sect (br_heap b ! r))"] sect_ok sect_id sect_quiet brokerOk_entry
  by (auto simp: notifying_def case_prod_beta)

end

lemma quietly_ok:
  assumes "brokerOk b" and "r < length (br_heap b)" and "entryOk (snd (sect (br_heap b ! r)))"
    and "en_id (snd (sect (br_heap b ! r))) = en_id (br_heap b ! r)"
    and "sameHold (br_heap b ! r) (snd (sect (br_heap b ! r)))"
  shows "brokerOk (snd (quietly r sect b))"
  using brokerOk_setEntry(2) [OF assms] by (simp add: quietly_def case_prod_beta)

text \<open>The connection's own sections leave the list of holds as it is, whatever they report.\<close>

lemma conn_sections_quiet:
  "sameHold e (snd (inputArm c e))" "sameHold e (snd (inputCheck c d e))" "sameHold e (snd (inputSend ok e))"
  "sameHold e (snd (resizeConn c cols rows e))"
  by (simp_all add: inputArm_def inputCheck_def inputSend_def resizeConn_def armIdle_facts split: option.split prod.split)

lemma newEntry_ok: "entryOk (newEntry k)"
  using newRing_repr [of ringCap] by (intro entryOk_desktop [of _ "[]"]) (simp_all add: newEntry_def ringCap_def)

lemma getOrCreate_ok:
  assumes "brokerOk b" and "getOrCreate k b = (r, b')"
  shows "brokerOk b'" and "r < length (br_heap b')" and "br_changes b' = br_changes b"
proof -
  have "brokerOk b' \<and> r < length (br_heap b') \<and> br_changes b' = br_changes b"
  proof (cases "getEntry k b")
    case (Some i)
    with assms getEntry_ref show ?thesis by (auto simp: getOrCreate_def getEntry_def brokerOk_def)
  next
    case None
    define b2 where "b2 = b\<lparr>br_heap := br_heap b @ [newEntry k], br_entries := br_entries b @ [(k, length (br_heap b))]\<rparr>"
    have b': "b' = b2" "r = length (br_heap b)"
      using None assms(2) by (auto simp: getOrCreate_def getEntry_def b2_def)
    have "k \<notin> fst ` set (br_entries b)" using None by (simp add: getEntry_def map_of_eq_None_iff)
    then have "tableOk b2"
      using assms(1) by (auto simp: brokerOk_def tableOk_def b2_def nth_append newEntry_def)
    moreover have "Holds b2 = Holds b"
    proof -
      have "map (\<lambda>(j, i). br_heap b2 ! i) (br_entries b) = map (\<lambda>(j, i). br_heap b ! i) (br_entries b)"
        using assms(1) by (auto simp: brokerOk_def tableOk_def b2_def nth_append)
      moreover have "br_entries b2 = br_entries b @ [(k, length (br_heap b))]"
        "br_heap b2 ! length (br_heap b) = newEntry k" "\<not> isHeld (newEntry k)"
        by (simp_all add: b2_def newEntry_def isHeld_def)
      ultimately show ?thesis by (simp add: Holds_def del: map_eq_conv)
    qed
    ultimately show ?thesis
      using assms(1) newEntry_ok b' by (auto simp: brokerOk_def lastHolds_def b2_def)
  qed
  then show "brokerOk b'" "r < length (br_heap b')" "br_changes b' = br_changes b" by blast+
qed

lemma onEntry_ok:
  assumes "brokerOk b" and "getOrCreate k b = (r, b1)" and "entryOk (br_heap b1 ! r) \<Longrightarrow> entryOk e"
    and "en_id e = en_id (br_heap b1 ! r)" and "sameHold (br_heap b1 ! r) e"
  shows "brokerOk (setEntry r e b1)"
  using getOrCreate_ok [OF assms(1,2)] assms(3-) by (intro brokerOk_setEntry(2)) (auto dest: brokerOk_entry)

lemma Opened_ok: "brokerOk b \<Longrightarrow> brokerOk (Opened k cols rows b)"
  unfolding Opened_def by (auto split: prod.splits intro: onEntry_ok)

lemma OutputTo_ok:
  assumes "brokerOk b"
  shows "\<exists>b'. OutputTo k d b = Some b' \<and> brokerOk b'"
proof -
  obtain r b1 where g: "getOrCreate k b = (r, b1)" by fastforce
  let ?e = "br_heap b1 ! r"
  have ok: "entryOk ?e" using getOrCreate_ok [OF assms g] brokerOk_entry by blast
  then obtain s where "ringRepr (en_ring ?e) s" unfolding entryOk_def by blast
  then obtain rg where rg: "AppendRing (en_ring ?e) d = Some rg" "ringRepr rg (s @ d)"
    using AppendRing_repr by blast
  define e1 where "e1 = ?e\<lparr>en_ring := rg\<rparr>"
  define e2 where "e2 = (case en_conn e1 of None \<Rightarrow> e1 | Some c \<Rightarrow> signal c e1)"
  have "entryOk e1" using ok rg(2) by (auto simp: e1_def entry_inv_defs cong: option.case_cong)
  then have "entryOk e2" "en_id e2 = en_id ?e" "sameHold ?e e2"
    by (auto simp: e2_def e1_def split: option.splits)
  then have "brokerOk (setEntry r e2 b1)" using onEntry_ok [OF assms g] by blast
  moreover have "OutputTo k d b = Some (setEntry r e2 b1)"
    by (simp add: OutputTo_def g rg Let_def e2_def e1_def cong: option.case_cong)
  ultimately show ?thesis by blast
qed

lemma Exited_ok:
  assumes b: "brokerOk b"
  shows "brokerOk (Exited k b)"
proof (cases "getEntry k b")
  case None
  then show ?thesis using b by (simp add: Exited_def)
next
  case (Some r)
  define b1 where "b1 = b\<lparr>br_entries := AList.delete k (br_entries b)\<rparr>"
  have r: "r < length (br_heap b)" using getEntry_ref b Some by (auto simp: brokerOk_def)
  have t1: "tableOk b1"
    using b by (auto simp: brokerOk_def tableOk_def b1_def distinct_map_filter AList.delete_eq)
  let ?e = "snd (exitLocked (br_heap b ! r))"
  have t2: "tableOk (setEntry r ?e b1)" using tableOk_setEntry [OF t1] ext.sect_id by (simp add: b1_def)
  have h: "\<forall>e\<in>set (br_heap (setEntry r ?e b1)). entryOk e"
    using b r ext.sect_ok by (auto simp: brokerOk_def b1_def dest!: setEntry_heap)
  show ?thesis
  proof (cases "fst (exitLocked (br_heap b ! r))")
    case True
    with t2 h Some show ?thesis
      by (simp add: Exited_def notifying_def b1_def [symmetric] case_prod_beta brokerOk_def) (simp add: b1_def)
  next
    case False
    have "map holdOf (filter isHeld (map (\<lambda>(j, i). br_heap b ! i) (AList.delete k xs))) =
          map holdOf (filter isHeld (map (\<lambda>(j, i). br_heap b ! i) xs))"
      if "\<And>i. (k, i) \<in> set xs \<Longrightarrow> \<not> isHeld (br_heap b ! i)" for xs :: "(bytes \<times> nat) list"
      using that by (induction xs) (auto simp: AList.delete_eq)
    moreover have "\<not> isHeld (br_heap b ! i)" if "(k, i) \<in> set (br_entries b)" for i
    proof -
      have "i = r" using that Some b by (auto simp: getEntry_def brokerOk_def tableOk_def)
      with False show ?thesis by (simp add: exitLocked_def Let_def isHeld_def)
    qed
    ultimately have "Holds b1 = Holds b" by (simp add: Holds_def b1_def)
    moreover have "Holds (setEntry r ?e b1) = Holds b1"
      using ext.sect_quiet [OF brokerOk_entry [OF b r] False] r by (intro Holds_setEntry) (simp_all add: b1_def)
    moreover have "lastHolds (setEntry r ?e b1) = lastHolds b" by (simp add: lastHolds_def b1_def)
    ultimately show ?thesis
      using t2 h Some b False
      by (simp add: Exited_def notifying_def b1_def [symmetric] case_prod_beta brokerOk_def) (simp add: b1_def)
  qed
qed

lemma releaseLoop_ok:
  assumes "tableOk b" "\<forall>e\<in>set (br_heap b). entryOk e" "\<And>r. r \<in> set rs \<Longrightarrow> r < length (br_heap b)"
    and "lastHolds b = Holds b \<or> ch" and "releaseLoop reason match rs (ch, b) = (ch', b')"
  shows "tableOk b' \<and> (\<forall>e\<in>set (br_heap b'). entryOk e) \<and> (lastHolds b' = Holds b' \<or> ch')"
  using assms
proof (induction rs arbitrary: ch b)
  case (Cons r rs)
  let ?e = "br_heap b ! r"
  show ?case
  proof (cases "en_state ?e \<noteq> stateDesktop \<and> match ?e")
    case False
    with Cons.IH [OF Cons.prems(1,2) _ Cons.prems(4)] Cons.prems(3,5) show ?thesis by (auto simp: Let_def)
  next
    case True
    define d where "d = snd (toDesktop CloseRevoked reason ?e)"
    have td: "toDesktop CloseRevoked reason ?e = (True, d)"
      using True by (simp add: d_def toDesktop_def Let_def)
    have "entryOk ?e" using Cons.prems(2,3) by simp
    then have "\<forall>e\<in>set (br_heap (setEntry r d b)). entryOk e"
      using Cons.prems(2) desk.sect_ok by (auto simp: d_def dest!: setEntry_heap)
    moreover have "tableOk (setEntry r d b)"
      using tableOk_setEntry [OF Cons.prems(1)] desk.sect_id by (simp add: d_def)
    ultimately show ?thesis
      using Cons.IH [of "setEntry r d b" True] Cons.prems(3,5) True td by (simp add: Let_def)
  qed
qed auto

lemma releaseWhere_ok:
  assumes "brokerOk b"
  shows "brokerOk (releaseWhere reason match b)"
proof -
  obtain ch b' where l: "releaseLoop reason match (map snd (br_entries b)) (False, b) = (ch, b')" by fastforce
  moreover have "tableOk b' \<and> (\<forall>e\<in>set (br_heap b'). entryOk e) \<and> (lastHolds b' = Holds b' \<or> ch)"
    using assms by (intro releaseLoop_ok [OF _ _ _ _ l]) (auto simp: brokerOk_def tableOk_def)
  ultimately show ?thesis by (auto simp: releaseWhere_def brokerOk_def)
qed

lemma attachTo_notifying: "snd (attachTo r sid dev cols rows now b) = notifying r (attachSect sid dev cols rows now) b"
  by (auto simp: attachTo_def notifying_def attachSect_def setEntry_def split: sum.splits)

theorem brokerStep_ok:
  assumes b: "brokerOk b" and l: "callOk b l"
  shows "\<exists>b'. brokerStep b l = Some b' \<and> brokerOk b'"
proof (cases l)
  case (CallOutput k d)
  then show ?thesis using OutputTo_ok [OF b] by simp
next
  case (CallAllowResize k cols rows)
  then show ?thesis
    using b brokerOk_get [OF b] brokerOk_entry [OF b]
    by (auto simp: AllowResize_def intro!: quietly_ok split: option.splits)
next
  case (CallReclaim k cols rows)
  then show ?thesis
    using b brokerOk_get [OF b] recl.notifying_ok by (auto simp: Reclaim_def split: option.splits)
next
  case (CallFire r t)
  then show ?thesis
    using fire.notifying_ok [OF b, of r t] l by (simp add: callOk_def notifying_def)
next
  case (CallInputArm r c)
  then show ?thesis
    using b l arm.sect_ok arm.sect_id brokerOk_entry by (auto simp: callOk_def conn_sections_quiet intro!: quietly_ok)
next
  case (CallInputCheck r c d)
  then show ?thesis
    using b l chk.sect_ok chk.sect_id brokerOk_entry by (auto simp: callOk_def conn_sections_quiet intro!: quietly_ok)
next
  case (CallInputSend ok r)
  then show ?thesis
    using b l sends.sect_ok sends.sect_id brokerOk_entry by (auto simp: callOk_def conn_sections_quiet intro!: quietly_ok)
next
  case (CallResize r c cols rows)
  then show ?thesis
    using b l rsz.sect_ok rsz.sect_id brokerOk_entry
    by (auto simp: callOk_def ResizeTo_def conn_sections_quiet intro!: quietly_ok)
qed (use b l in \<open>auto simp: callOk_def Opened_ok Exited_ok attachTo_notifying Disconnected_def Release_def
  ReleaseDevice_def ReleaseAll_def releaseWhere_ok att.notifying_ok disc.notifying_ok rel.notifying_ok run.notifying_ok\<close>)

lemma reachable_ok: "reachable b \<Longrightarrow> brokerOk b"
proof (induction rule: reachable.induct)
  case start
  show ?case by (simp add: brokerOk_def newBroker_def tableOk_def lastHolds_def Holds_def)
next
  case (step b l b')
  then show ?case using brokerStep_ok by fastforce
qed

section \<open>Who is told\<close>

text \<open>The connection \<open>c\<close> of entry \<open>r\<close> lost control between two states, and was told why.\<close>

definition lostControl :: "nat \<Rightarrow> nat \<Rightarrow> Broker \<Rightarrow> Broker \<Rightarrow> bool" where
  "lostControl r c b b' \<longleftrightarrow> en_conn (br_heap b ! r) = Some c \<and> en_conn (br_heap b' ! r) \<noteq> Some c"

definition toldWhy :: "nat \<Rightarrow> nat \<Rightarrow> Broker \<Rightarrow> bool" where
  "toldWhy r c b \<longleftrightarrow> (\<exists>x. cn_done (en_conns (br_heap b ! r) ! c) = Some x)"

lemma notifying_heap:
  "br_heap (notifying r sect b) ! i = (if i = r \<and> r < length (br_heap b) then snd (sect (br_heap b ! r)) else br_heap b ! i)"
  by (simp add: notifying_def case_prod_beta)

lemma quietly_heap:
  "br_heap (snd (quietly r sect b)) ! i =
     (if i = r \<and> r < length (br_heap b) then snd (sect (br_heap b ! r)) else br_heap b ! i)"
  by (simp add: quietly_def case_prod_beta)

context telling_section
begin

lemma notifying_told:
  "brokerOk b \<Longrightarrow> lostControl i c b (notifying r sect b) \<Longrightarrow> toldWhy i c (notifying r sect b)"
  using sect_told [of "br_heap b ! r" c] brokerOk_entry [of b r]
  by (auto simp: lostControl_def toldWhy_def notifying_heap split: if_splits)

lemma quietly_told:
  "brokerOk b \<Longrightarrow> lostControl i c b (snd (quietly r sect b)) \<Longrightarrow> toldWhy i c (snd (quietly r sect b))"
  using sect_told [of "br_heap b ! r" c] brokerOk_entry [of b r]
  by (auto simp: lostControl_def toldWhy_def quietly_heap split: if_splits)

end

lemma releaseLoop_entry:
  assumes "releaseLoop reason match rs (ch, b) = (ch', b')"
  shows "br_heap b' ! i = br_heap b ! i \<or> br_heap b' ! i = snd (toDesktop CloseRevoked reason (br_heap b ! i))"
  using assms
proof (induction rs arbitrary: ch b)
  case (Cons r rs)
  let ?e = "br_heap b ! r"
  show ?case
  proof (cases "en_state ?e \<noteq> stateDesktop \<and> match ?e \<and> i = r \<and> r < length (br_heap b)")
    case False
    then show ?thesis
      using Cons.prems Cons.IH [of ch b] Cons.IH [of _ "setEntry r (snd (toDesktop CloseRevoked reason ?e)) b"]
      by (cases "en_state ?e \<noteq> stateDesktop \<and> match ?e") (auto simp: Let_def case_prod_beta)
  next
    case True
    let ?b = "setEntry r (snd (toDesktop CloseRevoked reason ?e)) b"
    have "toDesktop code rsn (snd (toDesktop CloseRevoked reason ?e)) = (False, snd (toDesktop CloseRevoked reason ?e))" for code rsn
      using toDesktop_held [of ?e CloseRevoked reason] True
      by (metis isHeld_def snd_conv toDesktop_def)
    with True Cons.IH [of _ ?b] Cons.prems show ?thesis by (auto simp: Let_def case_prod_beta)
  qed
qed simp

lemma releaseWhere_told:
  assumes b: "brokerOk b" and r: "r < length (br_heap b)" and lost: "lostControl r c b (releaseWhere reason match b)"
  shows "toldWhy r c (releaseWhere reason match b)"
proof -
  obtain ch b' where l: "releaseLoop reason match (map snd (br_entries b)) (False, b) = (ch, b')" by fastforce
  then have h: "br_heap (releaseWhere reason match b) = br_heap b'" by (simp add: releaseWhere_def)
  with lost have "br_heap b' ! r = snd (toDesktop CloseRevoked reason (br_heap b ! r))"
    using releaseLoop_entry [OF l, of r] by (auto simp: lostControl_def)
  with h lost desk.sect_told [OF brokerOk_entry [OF b r], of c] show ?thesis
    by (auto simp: lostControl_def toldWhy_def)
qed

lemma getOrCreate_heap:
  "brokerOk b \<Longrightarrow> getOrCreate k b = (i, b1) \<Longrightarrow> r < length (br_heap b) \<Longrightarrow> br_heap b1 ! r = br_heap b ! r"
  by (auto simp: getOrCreate_def nth_append split: option.splits)

lemma opened_output_keep_conn:
  assumes "brokerOk b" and "r < length (br_heap b)"
  shows "en_conn (br_heap (Opened k cols rows b) ! r) = en_conn (br_heap b ! r)"
    and "OutputTo k d b = Some b' \<Longrightarrow> en_conn (br_heap b' ! r) = en_conn (br_heap b ! r)"
proof -
  obtain i b1 where g: "getOrCreate k b = (i, b1)" by fastforce
  have h: "br_heap b1 ! r = br_heap b ! r" by (rule getOrCreate_heap [OF assms(1) g assms(2)])
  then show "en_conn (br_heap (Opened k cols rows b) ! r) = en_conn (br_heap b ! r)"
    by (auto simp: Opened_def g)
  show "OutputTo k d b = Some b' \<Longrightarrow> en_conn (br_heap b' ! r) = en_conn (br_heap b ! r)"
    using h by (auto simp: OutputTo_def g Let_def split: option.splits)
qed

lemma step_told:
  assumes b: "brokerOk b" and r: "r < length (br_heap b)" and s: "brokerStep b l = Some b'"
    and lost: "lostControl r c b b'" and l: "\<And>now. l \<noteq> CallDisconnected r c now"
  shows "toldWhy r c b'"
proof (cases l)
  case (CallOpened k cols rows)
  then show ?thesis using s lost opened_output_keep_conn(1) [OF b r] by (auto simp: lostControl_def)
next
  case (CallOutput k d)
  then show ?thesis using s lost opened_output_keep_conn(2) [OF b r] by (auto simp: lostControl_def)
next
  case (CallExited k)
  show ?thesis
  proof (cases "getEntry k b")
    case None
    then show ?thesis using s lost CallExited by (auto simp: Exited_def lostControl_def)
  next
    case (Some i)
    then show ?thesis
      using s lost CallExited ext.sect_told [OF brokerOk_entry [OF b r], of c]
      by (auto simp: Exited_def lostControl_def toldWhy_def notifying_heap split: if_splits)
  qed
next
  case (CallAllowResize k cols rows)
  then show ?thesis
    using s lost by (auto simp: AllowResize_def lostControl_def quietly_heap split: option.splits if_splits)
next
  case (CallReclaim k cols rows)
  then show ?thesis
    using s lost recl.notifying_told [OF b] by (auto simp: Reclaim_def lostControl_def split: option.splits)
next
  case (CallDisconnected i d now)
  then have "i \<noteq> r \<or> d \<noteq> c" using l [of now] by auto
  then show ?thesis
    using s lost CallDisconnected by (auto simp: Disconnected_def lostControl_def notifying_heap disconnectedLocked_def split: if_splits)
next
  case (CallFire i t)
  then show ?thesis
    using s lost by (auto simp: lostControl_def fireTimer_def split: if_splits)
qed (use s lost arm.quietly_told [OF b] chk.quietly_told [OF b] sends.quietly_told [OF b] rsz.quietly_told [OF b] rel.notifying_told [OF b]
  run.notifying_told [OF b] att.notifying_told [OF b] releaseWhere_told [OF b r]
  in \<open>auto simp: ResizeTo_def Release_def ReleaseDevice_def ReleaseAll_def attachTo_notifying\<close>)

section \<open>Properties\<close>

text \<open>A run of calls, every one of them on entries that exist.\<close>

fun brokerRun :: "Broker \<Rightarrow> BrokerCall list \<Rightarrow> Broker option" where
  "brokerRun b [] = Some b"
| "brokerRun b (l # ls) =
     (if callOk b l then case brokerStep b l of None \<Rightarrow> None | Some b' \<Rightarrow> brokerRun b' ls else None)"

lemma brokerRun_reachable: "reachable b \<Longrightarrow> brokerRun b ls = Some b' \<Longrightarrow> reachable b'"
  by (induction ls arbitrary: b) (auto intro: reachable.step split: if_splits option.splits)

lemmas broker_eval =
  callOk_def getEntry_def getOrCreate_def setEntry_def quietly_def notifying_def changed_def Holds_def
  isHeld_def holdOf_def Opened_def Exited_def AllowWrite_def attachTo_def Reclaim_def attachLocked_def exitLocked_def
  inputArm_def inputCheck_def inputSend_def reclaimLocked_def expireLocked_def fireTimer_def runTimer_def toDesktop_def
  finishConn_def finish_def signal_def stopTimers_def stopGrace_def stopIdle_def stopTimer_def afterFunc_def
  armIdle_def resize_def newEntry_def newBroker_def Let_def AList.delete_eq

definition demoPhone :: MobileDevice where
  "demoPhone = \<lparr>md_ID = ''dev1'', md_Label = ''phone''\<rparr>"

definition demoAttached :: Broker where
  "demoAttached =
     \<lparr>br_heap =
        [(newEntry ''t1'')\<lparr>en_state := statePhone, en_sessionID := ''s1'', en_deviceID := ''dev1'', en_label := ''phone'',
           en_conn := Some 0, en_desktopCols := 80, en_desktopRows := 24, en_phoneCols := 40, en_phoneRows := 20,
           en_since := 1000, en_idle := Some 0, en_gen := 1,
           en_conns := [\<lparr>cn_device = ''dev1'', cn_notify = True, cn_done = None\<rparr>],
           en_timers := [\<lparr>tm_gen = 1, tm_status = Armed\<rparr>], en_calls := [RegResize 40 20]\<rparr>],
      br_entries = [(''t1'', 0)],
      br_changes = [[\<lparr>ho_TerminalID = ''t1'', ho_SessionID = ''s1'', ho_DeviceID = ''dev1'', ho_Label = ''phone'',
        ho_Connected = True, ho_Since = 1000, ho_ReturnsAt = 0\<rparr>]]\<rparr>"

lemma demoAttached_run:
  "brokerRun newBroker [CallOpened ''t1'' 80 24, CallAttach 0 ''s1'' demoPhone 40 20 1000] = Some demoAttached"
  by (simp add: demoAttached_def broker_eval demoPhone_def)

lemmas demoAttached_reachable = brokerRun_reachable [OF reachable.start demoAttached_run]

text \<open>
  C6: a terminal is never lost to a phone.  In every reachable state, an entry that a phone holds,
  connected or not, owns a registered timer (the idle one while connected, the grace one while
  offline) that has not run yet, and when it fires and runs, whatever state it is in, the desktop has
  the terminal back and the phone that was connected is closed with the timeout code.
\<close>

theorem hold_returns_by_timer:
  assumes "reachable b" and "r < length (br_heap b)" and "isHeld (br_heap b ! r)"
  shows "\<exists>t b1 b2. Some t = (if en_state (br_heap b ! r) = statePhone then en_idle (br_heap b ! r) else en_grace (br_heap b ! r)) \<and>
    brokerStep b (CallFire r t) = Some b1 \<and> brokerStep b1 (CallRunTimer r t) = Some b2 \<and>
    en_state (br_heap b2 ! r) = stateDesktop \<and> en_conn (br_heap b2 ! r) = None \<and>
    (case en_conn (br_heap b ! r) of
       None \<Rightarrow> True | Some c \<Rightarrow> cn_done (en_conns (br_heap b2 ! r) ! c) = Some (CloseTimeout, ''timeout''))"
proof -
  let ?e = "br_heap b ! r"
  have ok: "entryOk ?e" using reachable_ok [OF assms(1)] brokerOk_entry assms(2) by blast
  then obtain t where t: "Some t = (if en_state ?e = statePhone then en_idle ?e else en_grace ?e)"
    "t < length (en_timers ?e)" "tm_gen (en_timers ?e ! t) = en_gen ?e" "tm_status (en_timers ?e ! t) \<in> {Armed, Fired}"
    using assms(3) unfolding entryOk_def isHeld_def timerPending_def by (cases "en_state ?e") auto
  define e1 where "e1 = fireTimer t ?e"
  have e1: "entryOk e1" "isHeld e1" "en_conn e1 = en_conn ?e" "t < length (en_timers e1)"
    "tm_status (en_timers e1 ! t) = Fired" "tm_gen (en_timers e1 ! t) = en_gen e1"
    using fire.sect_ok [OF ok, of t] assms(3) t by (auto simp: e1_def fireTimer_def isHeld_def)
  then have "fst (runTimer t e1)"
    by (simp add: runTimer_def expireLocked_def toDesktop_def isHeld_def Let_def)
  with runTimer_cases [OF e1(1), of t] have "en_conn (snd (runTimer t e1)) = None"
    "en_state (snd (runTimer t e1)) = stateDesktop"
    "\<And>c. en_conn ?e = Some c \<Longrightarrow> cn_done (en_conns (snd (runTimer t e1)) ! c) = Some (CloseTimeout, ''timeout'')"
    using e1(3) by auto
  with t(1) assms(2) show ?thesis
    by (intro exI [of _ t]) (simp add: notifying_heap e1_def split: option.splits)
qed

theorem hold_returns_by_timer_witness:
  "\<exists>t b1 b2. Some t = en_idle (br_heap demoAttached ! 0) \<and>
    brokerStep demoAttached (CallFire 0 t) = Some b1 \<and> brokerStep b1 (CallRunTimer 0 t) = Some b2 \<and>
    en_state (br_heap b2 ! 0) = stateDesktop \<and>
    cn_done (en_conns (br_heap b2 ! 0) ! 0) = Some (CloseTimeout, ''timeout'')"
proof -
  have "0 < length (br_heap demoAttached) \<and> isHeld (br_heap demoAttached ! 0) \<and>
      en_state (br_heap demoAttached ! 0) = statePhone \<and> en_conn (br_heap demoAttached ! 0) = Some 0" by (simp add: demoAttached_def broker_eval demoPhone_def)
  then show ?thesis using hold_returns_by_timer [OF demoAttached_reachable, of 0] by fastforce
qed

text \<open>
  no call of the broker panics, and after every call the listener's last notification is the
  current list of holds, so the desktop never shows a stale holder.
\<close>

theorem listener_never_stale:
  assumes "reachable b" and "callOk b l"
  shows "\<exists>b'. brokerStep b l = Some b' \<and>
    (if br_changes b' = [] then [] else last (br_changes b')) = Holds b'"
  using brokerStep_ok [OF reachable_ok [OF assms(1)] assms(2)] by (auto simp: brokerOk_def lastHolds_def)

theorem listener_never_stale_witness:
  "\<exists>b'. brokerStep demoAttached (CallExited ''t1'') = Some b' \<and>
    (if br_changes b' = [] then [] else last (br_changes b')) = Holds b'"
  using listener_never_stale [OF demoAttached_reachable, of "CallExited ''t1''"] by (simp add: callOk_def)

text \<open>
  C10: one controller.  At the moment the check of \<^verbatim>\<open>Input\<close> accepts a connection, in any reachable state and
  for any entry, exited terminals included: no other connection of that entry would be accepted, the
  accepted one has not been closed and belongs to the device that holds the terminal, and if the entry is
  the one the broker lists for its terminal, the window may neither write nor resize.  Whichever call
  then takes the terminal from it, other than its own disconnect, closes it with a code and a reason.
  The write itself comes later, outside the lock, and such a call may come before it.
\<close>

theorem one_controller:
  assumes "reachable b" and "r < length (br_heap b)" and "fst (quietly r (inputCheck c d) b)"
  shows "(\<nexists>c' d'. c' \<noteq> c \<and> fst (quietly r (inputCheck c' d') b)) \<and>
    cn_done (en_conns (br_heap b ! r) ! c) = None \<and>
    cn_device (en_conns (br_heap b ! r) ! c) = en_deviceID (br_heap b ! r) \<and>
    (\<forall>k cols rows. getEntry k b = Some r \<longrightarrow> \<not> AllowWrite k b \<and> \<not> fst (AllowResize k cols rows b)) \<and>
    (\<forall>l b'. brokerStep b l = Some b' \<longrightarrow> (\<nexists>now. l = CallDisconnected r c now) \<longrightarrow>
       en_conn (br_heap b' ! r) = Some c \<or> (\<exists>code reason. cn_done (en_conns (br_heap b' ! r) ! c) = Some (code, reason)))"
proof -
  have b: "brokerOk b" by (rule reachable_ok [OF assms(1)])
  have c: "en_conn (br_heap b ! r) = Some c"
    using assms(3) by (simp add: quietly_def inputCheck_def split: if_splits)
  moreover have "connOk (br_heap b ! r)"
    using brokerOk_entry [OF b assms(2)] by (simp add: entryOk_def)
  moreover have "en_conn (br_heap b' ! r) = Some c \<or> (\<exists>code reason. cn_done (en_conns (br_heap b' ! r) ! c) = Some (code, reason))"
    if "brokerStep b l = Some b'" "\<nexists>now. l = CallDisconnected r c now" for l b'
    using step_told [OF b assms(2) that(1), of c] that(2) c by (auto simp: lostControl_def toldWhy_def)
  ultimately show ?thesis
    by (auto simp: connOk_def AllowWrite_def AllowResize_def quietly_def inputCheck_def split: if_splits)
qed

theorem one_controller_witness:
  "\<not> AllowWrite ''t1'' demoAttached \<and> cn_device (en_conns (br_heap demoAttached ! 0) ! 0) = ''dev1''"
proof -
  have "0 < length (br_heap demoAttached) \<and> getEntry ''t1'' demoAttached = Some 0
      \<and> fst (quietly 0 (inputCheck 0 ''x'') demoAttached) \<and> en_deviceID (br_heap demoAttached ! 0) = ''dev1''"
    by (simp add: demoAttached_def broker_eval demoPhone_def)
  then show ?thesis using one_controller [OF demoAttached_reachable, of 0 0 "''x''"] by simp
qed

text \<open>
  Between the check and the write nothing holds the terminal: a reclaim there gives it to the window, which
  may write at once, and the phone's keystrokes still go out after it.
\<close>

lemma reclaim_between_check_and_write:
  "(case brokerRun demoAttached [CallInputArm 0 0, CallInputCheck 0 0 ''x'', CallReclaim ''t1'' 40 20] of
      None \<Rightarrow> False
    | Some b \<Rightarrow> AllowWrite ''t1'' b \<and> callOk b (CallInputSend True 0) \<and>
        (case brokerStep b (CallInputSend True 0) of
           None \<Rightarrow> False | Some b' \<Rightarrow> last (en_calls (br_heap b' ! 0)) = RegWrite ''x''))"
  by (simp add: demoAttached_def broker_eval demoPhone_def)

text \<open>
  a phone is told why it lost the terminal.  Whichever call takes control from a connection, other than
  that connection's own disconnect, the connection is closed with a code and a reason.
\<close>

theorem evicted_phone_told:
  assumes "reachable b" and "r < length (br_heap b)" and "brokerStep b l = Some b'"
    and "en_conn (br_heap b ! r) = Some c" and "en_conn (br_heap b' ! r) \<noteq> Some c"
    and "\<And>now. l \<noteq> CallDisconnected r c now"
  shows "\<exists>code reason. cn_done (en_conns (br_heap b' ! r) ! c) = Some (code, reason)"
  using step_told [OF reachable_ok [OF assms(1)] assms(2,3), of c] assms(4-6)
  by (auto simp: lostControl_def toldWhy_def)

theorem evicted_phone_told_witness:
  "\<exists>code reason. cn_done (en_conns (br_heap (Reclaim ''t1'' 80 24 demoAttached) ! 0) ! 0) = Some (code, reason)"
proof -
  have "0 < length (br_heap demoAttached) \<and> en_conn (br_heap demoAttached ! 0) = Some 0 \<and>
      en_conn (br_heap (Reclaim ''t1'' 80 24 demoAttached) ! 0) = None" by (simp add: demoAttached_def broker_eval demoPhone_def)
  then show ?thesis
    using evicted_phone_told [OF demoAttached_reachable, of 0 "CallReclaim ''t1'' 80 24" "Reclaim ''t1'' 80 24 demoAttached" 0]
    by simp
qed

text \<open>
  Two races the sections allow.  An idle timer that has fired when the phone types is not stale, because
  re-arming keeps the generation: the typed input does not save the hold.  And an attach that looked its
  entry up before the terminal exited gets a connection to an entry the map no longer has: it holds
  no visible terminal and is never closed by an exit, only by its idle timer.
\<close>

lemma fired_idle_timer_not_stale:
  "(case brokerRun demoAttached [CallFire 0 0, CallInputArm 0 0, CallInputCheck 0 0 ''x'', CallInputSend True 0, CallRunTimer 0 0] of
      None \<Rightarrow> False
    | Some b \<Rightarrow> en_state (br_heap b ! 0) = stateDesktop \<and> en_calls (br_heap b ! 0) ! 1 = RegWrite ''x'')"
  by (simp add: demoAttached_def broker_eval demoPhone_def)

lemma attach_to_exited_terminal:
  "(case brokerRun newBroker [CallOpened ''t1'' 80 24, CallExited ''t1'', CallAttach 0 ''s1'' demoPhone 40 20 1000] of
      None \<Rightarrow> False
    | Some b \<Rightarrow> en_conn (br_heap b ! 0) = Some 0 \<and> Holds b = [] \<and> getEntry ''t1'' b = None)"
  by (simp add: demoAttached_def broker_eval demoPhone_def)

end
