(* ===== verification/ByteLru.thy ===== *)
theory ByteLru
  imports Prelude "HOL-Library.Signed_Division"
begin

text \<open>
  \<^verbatim>\<open>enginecache/lru.go\<close>: the byte-budgeted LRU of the engine cache.  Go keeps a
  \<^verbatim>\<open>container/list\<close> in age order and a map from keys to its elements; the model keeps both, with a
  number for each element in place of its pointer.  The abstraction \<open>lruView\<close> forgets the elements:
  an LRU is its entries, oldest first.  Every operation is shown to act on that view as its
  specification says, and to keep the two structures in step.

  Sizes and the budget are \<^typ>\<open>int\<close>; \<^verbatim>\<open>time.Now()\<close> is an argument.  The warning of a refused entry
  is part of the result.
\<close>

section \<open>State\<close>

record EntryMeta =
  em_ConnectionID :: bytes
  em_Path :: bytes
  em_Label :: bytes

record 'v lruEntry =
  le_key :: bytes
  le_value :: 'v
  le_bytes :: int
  le_at :: int
  le_meta :: EntryMeta

record 'v ByteLru =
  lu_budget :: int
  lu_total :: int
  lu_order :: "(nat \<times> 'v lruEntry) list"
  lu_items :: "bytes \<Rightarrow> nat option"
  lu_next :: nat

definition NewByteLru :: "int \<Rightarrow> 'v ByteLru" where
  "NewByteLru budgetBytes =
     \<lparr>lu_budget = budgetBytes, lu_total = 0, lu_order = [], lu_items = (\<lambda>_. None), lu_next = 0\<rparr>"

section \<open>Operations of the list\<close>

text \<open>\<^verbatim>\<open>list.Remove\<close>, \<^verbatim>\<open>list.MoveToBack\<close> and the value of an element.\<close>

definition listRemove :: "nat \<Rightarrow> (nat \<times> 'v) list \<Rightarrow> (nat \<times> 'v) list" where
  "listRemove i xs = filter (\<lambda>(j, _). j \<noteq> i) xs"

definition listMoveToBack :: "nat \<Rightarrow> (nat \<times> 'v) list \<Rightarrow> (nat \<times> 'v) list" where
  "listMoveToBack i xs = listRemove i xs @ filter (\<lambda>(j, _). j = i) xs"

definition elemValue :: "nat \<Rightarrow> (nat \<times> 'v) list \<Rightarrow> 'v option" where
  "elemValue i xs = map_of xs i"

section \<open>Operations of the cache\<close>

fun evictLoop :: "'v ByteLru \<Rightarrow> (nat \<times> 'v lruEntry) list \<Rightarrow> 'v ByteLru" where
  "evictLoop l [] = l\<lparr>lu_order := []\<rparr>"
| "evictLoop l ((i, e) # xs) =
     (if lu_budget l < lu_total l
      then evictLoop (l\<lparr>lu_items := (lu_items l)(le_key e := None), lu_total := lu_total l - le_bytes e\<rparr>) xs
      else l\<lparr>lu_order := (i, e) # xs\<rparr>)"

definition evictToBudget :: "'v ByteLru \<Rightarrow> 'v ByteLru" where
  "evictToBudget l = evictLoop l (lu_order l)"

definition SetBudget :: "int \<Rightarrow> 'v ByteLru \<Rightarrow> 'v ByteLru" where
  "SetBudget n l = evictToBudget (l\<lparr>lu_budget := n\<rparr>)"

definition SizeLru :: "'v ByteLru \<Rightarrow> nat" where
  "SizeLru l = card (dom (lu_items l))"

definition GetLru :: "bytes \<Rightarrow> 'v ByteLru \<Rightarrow> 'v option \<times> 'v ByteLru" where
  "GetLru k l =
     (case lu_items l k of
        None \<Rightarrow> (None, l)
      | Some i \<Rightarrow>
          (map_option le_value (elemValue i (lu_order l)), l\<lparr>lu_order := listMoveToBack i (lu_order l)\<rparr>))"

text \<open>Removing the element a key points to, shared by \<^verbatim>\<open>Set\<close> and \<^verbatim>\<open>Delete\<close>.\<close>

definition removeElem :: "bytes \<Rightarrow> nat \<Rightarrow> 'v ByteLru \<Rightarrow> 'v ByteLru" where
  "removeElem k i l =
     l\<lparr>lu_total := lu_total l - (case elemValue i (lu_order l) of None \<Rightarrow> 0 | Some e \<Rightarrow> le_bytes e),
       lu_order := listRemove i (lu_order l), lu_items := (lu_items l)(k := None)\<rparr>"

definition pushBack :: "'v lruEntry \<Rightarrow> 'v ByteLru \<Rightarrow> 'v ByteLru" where
  "pushBack e l =
     l\<lparr>lu_order := lu_order l @ [(lu_next l, e)], lu_items := (lu_items l)(le_key e \<mapsto> lu_next l),
       lu_next := lu_next l + 1, lu_total := lu_total l + le_bytes e\<rparr>"

definition warnMessage :: "bytes \<Rightarrow> int \<Rightarrow> int \<Rightarrow> bytes" where
  "warnMessage label n budget =
     ''cache: refusing to store '' @ label @ '': '' @ Itoa n @ '' bytes exceeds half the '' @ Itoa budget @
     ''-byte budget''"

definition SetLru :: "bytes \<Rightarrow> 'v \<Rightarrow> int \<Rightarrow> EntryMeta \<Rightarrow> int \<Rightarrow> 'v ByteLru \<Rightarrow> bytes option \<times> 'v ByteLru" where
  "SetLru k v n meta now l =
     (if lu_budget l sdiv 2 < n then (Some (warnMessage (em_Label meta) n (lu_budget l)), l)
      else
        let l1 = (case lu_items l k of None \<Rightarrow> l | Some i \<Rightarrow> removeElem k i l) in
        (None, evictToBudget
           (pushBack \<lparr>le_key = k, le_value = v, le_bytes = n, le_at = now, le_meta = meta\<rparr> l1)))"

definition UpdateLru :: "bytes \<Rightarrow> 'v \<Rightarrow> int \<Rightarrow> 'v ByteLru \<Rightarrow> bool \<times> 'v ByteLru" where
  "UpdateLru k v n l =
     (case lu_items l k of
        None \<Rightarrow> (False, l)
      | Some i \<Rightarrow>
          (True, evictToBudget
             (l\<lparr>lu_total := lu_total l + (n - (case elemValue i (lu_order l) of None \<Rightarrow> 0 | Some e \<Rightarrow> le_bytes e)),
                lu_order := map (\<lambda>(j, e). (j, if j = i then e\<lparr>le_value := v, le_bytes := n\<rparr> else e)) (lu_order l)\<rparr>)))"

definition DeleteLru :: "bytes \<Rightarrow> 'v ByteLru \<Rightarrow> bool \<times> 'v ByteLru" where
  "DeleteLru k l = (case lu_items l k of None \<Rightarrow> (False, l) | Some i \<Rightarrow> (True, removeElem k i l))"

text \<open>\<^verbatim>\<open>DeleteWhere\<close> walks the list from the front; the accumulator is the count and the elements kept.\<close>

fun deleteLoop ::
  "(EntryMeta \<Rightarrow> bool) \<Rightarrow> (nat \<times> 'v lruEntry) list \<Rightarrow> (nat \<times> 'v lruEntry) list \<Rightarrow> nat \<Rightarrow> 'v ByteLru \<Rightarrow>
   nat \<times> 'v ByteLru" where
  "deleteLoop p [] kept n l = (n, l\<lparr>lu_order := kept\<rparr>)"
| "deleteLoop p ((i, e) # xs) kept n l =
     (if p (le_meta e)
      then deleteLoop p xs kept (n + 1)
             (l\<lparr>lu_items := (lu_items l)(le_key e := None), lu_total := lu_total l - le_bytes e\<rparr>)
      else deleteLoop p xs (kept @ [(i, e)]) n l)"

definition DeleteWhere :: "(EntryMeta \<Rightarrow> bool) \<Rightarrow> 'v ByteLru \<Rightarrow> nat \<times> 'v ByteLru" where
  "DeleteWhere p l = deleteLoop p (lu_order l) [] 0 l"

definition ClearLru :: "'v ByteLru \<Rightarrow> 'v ByteLru" where
  "ClearLru l = l\<lparr>lu_order := [], lu_items := (\<lambda>_. None), lu_total := 0\<rparr>"

definition EntriesLru :: "'v ByteLru \<Rightarrow> 'v lruEntry list" where
  "EntriesLru l = map snd (lu_order l)"

section \<open>The view and the invariant\<close>

abbreviation lruView :: "'v ByteLru \<Rightarrow> 'v lruEntry list" where
  "lruView l \<equiv> map snd (lu_order l)"

definition sumBytes :: "'v lruEntry list \<Rightarrow> int" where
  "sumBytes es = sum_list (map le_bytes es)"

definition findEntry :: "bytes \<Rightarrow> 'v lruEntry list \<Rightarrow> 'v lruEntry option" where
  "findEntry k es = find (\<lambda>e. le_key e = k) es"

text \<open>The map from keys to elements that belongs to a list.\<close>

definition keyMap :: "(nat \<times> 'v lruEntry) list \<Rightarrow> bytes \<Rightarrow> nat option" where
  "keyMap xs = map_of (map (\<lambda>(i, e). (le_key e, i)) xs)"

text \<open>List and map are in step, the byte count is exact, and no size is negative.\<close>

definition lruOk :: "'v ByteLru \<Rightarrow> bool" where
  "lruOk l \<longleftrightarrow>
     distinct (map fst (lu_order l)) \<and> distinct (map le_key (lruView l)) \<and>
     (\<forall>(i, e)\<in>set (lu_order l). i < lu_next l \<and> 0 \<le> le_bytes e) \<and>
     lu_items l = keyMap (lu_order l) \<and>
     lu_total l = sumBytes (lruView l)"

text \<open>The budget is respected, or there is nothing left to evict.\<close>

definition budgetOk :: "'v ByteLru \<Rightarrow> bool" where
  "budgetOk l \<longleftrightarrow> lu_total l \<le> lu_budget l \<or> lu_order l = []"

text \<open>Specification of eviction: drop entries from the old end while the rest is over the budget.\<close>

fun trimOldest :: "int \<Rightarrow> 'v lruEntry list \<Rightarrow> 'v lruEntry list" where
  "trimOldest n [] = []"
| "trimOldest n (e # es) = (if n < sumBytes (e # es) then trimOldest n es else e # es)"

section \<open>Lists and their key maps\<close>

lemma keyMap_Nil [simp]: "keyMap [] = (\<lambda>_. None)"
  by (simp add: keyMap_def)

lemma keyMap_Cons: "keyMap ((i, e) # xs) = (keyMap xs)(le_key e \<mapsto> i)"
  by (simp add: keyMap_def)

lemma keyMap_None_iff: "keyMap xs k = None \<longleftrightarrow> k \<notin> set (map (le_key \<circ> snd) xs)"
  by (simp add: keyMap_def map_of_eq_None_iff image_image case_prod_beta)

lemma keyMap_Some:
  assumes "distinct (map le_key (map snd xs))"
  shows "keyMap xs k = Some i \<longleftrightarrow> (\<exists>e. (i, e) \<in> set xs \<and> le_key e = k)"
proof -
  have "distinct (map fst (map (\<lambda>(i, e). (le_key e, i)) xs))"
    using assms by (simp add: case_prod_beta comp_def)
  then show ?thesis by (auto simp: keyMap_def map_of_eq_Some_iff)
qed

lemma keyMap_filter:
  assumes "distinct (map le_key (map snd xs))"
    and "\<And>x. x \<in> set xs \<Longrightarrow> P x \<longleftrightarrow> le_key (snd x) \<noteq> k"
  shows "keyMap (filter P xs) = (keyMap xs)(k := None)"
proof
  fix j
  show "keyMap (filter P xs) j = ((keyMap xs)(k := None)) j"
    using assms
  proof (induction xs)
    case (Cons x xs)
    then show ?case by (cases x) (auto simp: keyMap_Cons)
  qed simp
qed

lemma keyMap_snoc: "k \<notin> set (map (le_key \<circ> snd) xs) \<Longrightarrow> le_key e = k \<Longrightarrow> keyMap (xs @ [(i, e)]) = (keyMap xs)(k \<mapsto> i)"
  by (induction xs) (auto simp: keyMap_Cons keyMap_def fun_upd_twist)

lemma sumBytes_simps [simp]:
  "sumBytes [] = 0" "sumBytes (e # es) = le_bytes e + sumBytes es" "sumBytes (es @ fs) = sumBytes es + sumBytes fs"
  by (simp_all add: sumBytes_def)

lemma sumBytes_nonneg: "(\<And>e. e \<in> set es \<Longrightarrow> 0 \<le> le_bytes e) \<Longrightarrow> 0 \<le> sumBytes es"
  by (induction es) auto

lemma trimOldest_suffix: "\<exists>n. trimOldest b es = drop n es"
proof (induction es)
  case (Cons e es)
  then show ?case by (auto intro: exI [of _ 0] exI [of _ "Suc _"])
qed simp

lemma trimOldest_bound: "trimOldest b es \<noteq> [] \<Longrightarrow> sumBytes (trimOldest b es) \<le> b"
  by (induction es) auto

lemma trimOldest_id: "sumBytes es \<le> b \<Longrightarrow> trimOldest b es = es"
  by (cases es) auto

lemma trimOldest_last:
  "le_bytes e \<le> b \<Longrightarrow> \<exists>n. trimOldest b (es @ [e]) = drop n es @ [e]"
proof (induction es)
  case (Cons d es)
  then obtain n where "trimOldest b (es @ [e]) = drop n es @ [e]" by blast
  then show ?case by (cases "b < sumBytes ((d # es) @ [e])") (auto intro: exI [of _ 0] exI [of _ "Suc n"])
qed simp

section \<open>Every operation keeps the structures in step\<close>

lemma evictLoop_ok:
  assumes "lruOk (l\<lparr>lu_order := xs\<rparr>)"
  shows "lruOk (evictLoop l xs) \<and> lruView (evictLoop l xs) = trimOldest (lu_budget l) (map snd xs) \<and>
    budgetOk (evictLoop l xs) \<and> lu_budget (evictLoop l xs) = lu_budget l"
  using assms
proof (induction l xs rule: evictLoop.induct)
  case (2 l i e xs)
  let ?l = "l\<lparr>lu_items := (lu_items l)(le_key e := None), lu_total := lu_total l - le_bytes e\<rparr>"
  have "keyMap xs (le_key e) = None"
    using "2.prems" by (auto simp: keyMap_None_iff lruOk_def)
  then have "(keyMap ((i, e) # xs))(le_key e := None) = keyMap xs"
    by (auto simp: keyMap_Cons fun_eq_iff)
  with "2.prems" have "lruOk (?l\<lparr>lu_order := xs\<rparr>)"
    by (simp add: lruOk_def)
  with "2.IH" "2.prems" show ?case
    by (auto simp: lruOk_def budgetOk_def)
qed (simp add: budgetOk_def lruOk_def)

lemma evictToBudget_ok:
  assumes "lruOk l"
  shows "lruOk (evictToBudget l)" and "lruView (evictToBudget l) = trimOldest (lu_budget l) (lruView l)"
    and "budgetOk (evictToBudget l)" and "lu_budget (evictToBudget l) = lu_budget l"
  using evictLoop_ok [where l = l and xs = "lu_order l"] assms by (simp_all add: evictToBudget_def)

lemma lru_lookup:
  assumes "lruOk l"
  shows "(case lu_items l k of None \<Rightarrow> None | Some i \<Rightarrow> elemValue i (lu_order l)) = findEntry k (lruView l)"
proof (cases "lu_items l k")
  case None
  then have "\<forall>e\<in>set (lruView l). le_key e \<noteq> k"
    using assms by (auto simp: lruOk_def keyMap_None_iff)
  then have "findEntry k (lruView l) = None" unfolding findEntry_def find_None_iff by blast
  with None show ?thesis by simp
next
  case (Some i)
  then obtain e where e: "(i, e) \<in> set (lu_order l)" "le_key e = k"
    using assms by (auto simp: lruOk_def keyMap_Some)
  have "distinct (map le_key xs) \<Longrightarrow> e \<in> set xs \<Longrightarrow> findEntry k xs = Some e" for xs :: "'a lruEntry list"
    using e(2) by (induction xs) (auto simp: findEntry_def)
  then have "findEntry k (lruView l) = Some e"
    using assms e(1) by (force simp: lruOk_def)
  moreover have "elemValue i (lu_order l) = Some e"
    using assms e(1) by (simp add: lruOk_def elemValue_def)
  ultimately show ?thesis using Some by simp
qed

lemma elem_key:
  assumes "lruOk l" and "lu_items l k = Some i" and "x \<in> set (lu_order l)"
  shows "fst x = i \<longleftrightarrow> le_key (snd x) = k"
proof -
  obtain e where e: "(i, e) \<in> set (lu_order l)" "le_key e = k"
    using assms by (auto simp: lruOk_def keyMap_Some)
  have "distinct (map fst (lu_order l))" "distinct (map (le_key \<circ> snd) (lu_order l))"
    using assms(1) by (simp_all add: lruOk_def comp_def)
  then have "fst x = i \<Longrightarrow> x = (i, e)" "le_key (snd x) = k \<Longrightarrow> x = (i, e)"
    using assms(3) e inj_onD [of fst "set (lu_order l)" x "(i, e)"]
      inj_onD [of "le_key \<circ> snd" "set (lu_order l)" x "(i, e)"] by (auto simp: distinct_map)
  then show ?thesis using e by (metis fst_conv snd_conv)
qed

text \<open>Rebuilding an LRU from a part of its list, or from a rearrangement of it.\<close>

definition rebuilt :: "(nat \<times> 'v lruEntry) list \<Rightarrow> 'v ByteLru \<Rightarrow> 'v ByteLru" where
  "rebuilt xs l = l\<lparr>lu_order := xs, lu_items := keyMap xs, lu_total := sumBytes (map snd xs)\<rparr>"

lemma rebuilt_filter_ok: "lruOk l \<Longrightarrow> lruOk (rebuilt (filter P (lu_order l)) l)"
  by (auto simp: lruOk_def rebuilt_def distinct_map_filter)

lemma sumBytes_filter_le:
  "(\<And>x. x \<in> set xs \<Longrightarrow> 0 \<le> le_bytes (snd x)) \<Longrightarrow> sumBytes (map snd (filter P xs)) \<le> sumBytes (map snd xs)"
proof (induction xs)
  case (Cons x xs)
  then have "0 \<le> le_bytes (snd x)" "sumBytes (map snd (filter P xs)) \<le> sumBytes (map snd xs)" by simp_all
  then show ?case by simp
qed simp

lemma rebuilt_filter_budget: "lruOk l \<Longrightarrow> budgetOk l \<Longrightarrow> budgetOk (rebuilt (filter P (lu_order l)) l)"
  using sumBytes_filter_le [of "lu_order l" P] by (fastforce simp: lruOk_def budgetOk_def rebuilt_def)

lemma removeElem_rebuilt:
  assumes ok: "lruOk l" and i: "lu_items l k = Some i"
  shows "removeElem k i l = rebuilt (filter (\<lambda>x. le_key (snd x) \<noteq> k) (lu_order l)) l"
proof -
  let ?P = "\<lambda>x. le_key (snd x) \<noteq> k"
  have "listRemove i (lu_order l) = filter ?P (lu_order l)"
    unfolding listRemove_def using elem_key [OF ok i] by (intro filter_cong refl) (simp add: case_prod_beta)
  moreover have "keyMap (filter ?P (lu_order l)) = (lu_items l)(k := None)"
    using ok by (subst keyMap_filter) (auto simp: lruOk_def)
  moreover obtain e where e: "elemValue i (lu_order l) = Some e" "(i, e) \<in> set (lu_order l)" "le_key e = k"
    using ok i by (auto simp: lruOk_def keyMap_Some elemValue_def)
  moreover have "sumBytes (map snd (filter ?P xs)) = sumBytes (map snd xs) - le_bytes e"
    if "distinct (map (le_key \<circ> snd) xs)" "(i, e) \<in> set xs" for xs
    using that
  proof (induction xs)
    case (Cons x xs)
    have "filter ?P xs = xs" if "x = (i, e)"
      using Cons.prems(1) e(3) that by (intro filter_True) (force simp: image_iff)
    with Cons e(3) show ?case by (auto simp: image_iff)
  qed simp
  ultimately show ?thesis
    using ok by (simp add: removeElem_def rebuilt_def lruOk_def comp_def)
qed

lemma GetLru_ok:
  assumes ok: "lruOk l"
  shows "fst (GetLru k l) = map_option le_value (findEntry k (lruView l))" (is ?v)
    and "lruView (snd (GetLru k l)) =
      filter (\<lambda>e. le_key e \<noteq> k) (lruView l) @ filter (\<lambda>e. le_key e = k) (lruView l)" (is ?o)
    and "lruOk (snd (GetLru k l))" (is ?ok)
    and "budgetOk (snd (GetLru k l)) = budgetOk l" (is ?b)
    and "lu_budget (snd (GetLru k l)) = lu_budget l" (is ?c)
proof -
  show ?v ?c using lru_lookup [OF ok, of k] by (auto simp: GetLru_def split: option.splits)
  show ?o ?ok ?b
  proof (atomize (full), cases "lu_items l k")
    case None
    then have "\<forall>e\<in>set (lruView l). le_key e \<noteq> k" using ok by (auto simp: lruOk_def keyMap_None_iff)
    with None ok show "?o \<and> ?ok \<and> ?b" by (auto simp: GetLru_def filter_id_conv filter_empty_conv)
  next
    case (Some i)
    let ?xs = "listMoveToBack i (lu_order l)"
    have xs: "?xs = filter (\<lambda>x. le_key (snd x) \<noteq> k) (lu_order l) @ filter (\<lambda>x. le_key (snd x) = k) (lu_order l)"
      unfolding listMoveToBack_def listRemove_def using elem_key [OF ok Some]
      by (intro arg_cong2 [where f = "(@)"] filter_cong refl) (simp_all add: case_prod_beta)
    have ms: "mset ?xs = mset (lu_order l)"
      unfolding xs by (induction "lu_order l") (simp_all add: multiset_partition [symmetric])
    have m: "mset (map f ?xs) = mset (map f (lu_order l))" for f :: "nat \<times> 'a lruEntry \<Rightarrow> 'b"
      using ms by (metis mset_map)
    have d: "distinct (map fst ?xs)" "distinct (map le_key (map snd ?xs))"
      using ok mset_eq_imp_distinct_iff [OF m [of fst]] mset_eq_imp_distinct_iff [OF m [of "le_key \<circ> snd"]]
      by (simp_all add: lruOk_def)
    have "sumBytes (map snd ?xs) = sumBytes (lruView l)"
      using arg_cong [OF m [of "le_bytes \<circ> snd"], of sum_mset]
      by (simp only: sum_mset_sum_list sumBytes_def map_map)
    moreover have "set ?xs = set (lu_order l)" using ms by (rule mset_eq_setD)
    moreover have "keyMap ?xs = keyMap (lu_order l)"
      unfolding keyMap_def using ok ms
      by (intro map_of_perm [symmetric]) (simp_all add: lruOk_def comp_def case_prod_beta)
    ultimately have "lruOk (l\<lparr>lu_order := ?xs\<rparr>)"
      using ok d by (simp add: lruOk_def)
    moreover have "(?xs = []) = (lu_order l = [])" using ms by (metis mset_zero_iff)
    ultimately show "?o \<and> ?ok \<and> ?b" using Some
      by (simp add: GetLru_def budgetOk_def) (simp add: xs filter_map comp_def)
  qed
qed

lemma pushBack_ok:
  assumes "lruOk l" and "le_key e \<notin> set (map le_key (lruView l))" and "0 \<le> le_bytes e"
  shows "lruOk (pushBack e l)"
proof -
  have "keyMap (lu_order l @ [(lu_next l, e)]) = (keyMap (lu_order l))(le_key e \<mapsto> lu_next l)"
    using assms(2) by (intro keyMap_snoc) (auto simp: image_image)
  then show ?thesis
    using assms by (auto simp: lruOk_def pushBack_def less_Suc_eq)
qed

lemma SetLru_ok:
  assumes ok: "lruOk l" and b: "budgetOk l" and n: "0 \<le> n"
  shows "lruView (snd (SetLru k v n meta now l)) =
      (if lu_budget l sdiv 2 < n then lruView l
       else trimOldest (lu_budget l)
              (filter (\<lambda>e. le_key e \<noteq> k) (lruView l) @
               [\<lparr>le_key = k, le_value = v, le_bytes = n, le_at = now, le_meta = meta\<rparr>]))" (is ?o)
    and "lruOk (snd (SetLru k v n meta now l))" (is ?ok)
    and "budgetOk (snd (SetLru k v n meta now l))" (is ?b)
    and "lu_budget (snd (SetLru k v n meta now l)) = lu_budget l" (is ?c)
proof -
  let ?e = "\<lparr>le_key = k, le_value = v, le_bytes = n, le_at = now, le_meta = meta\<rparr>"
  define l1 where "l1 = (case lu_items l k of None \<Rightarrow> l | Some i \<Rightarrow> removeElem k i l)"
  have l1: "lruOk l1 \<and> lruView l1 = filter (\<lambda>e. le_key e \<noteq> k) (lruView l) \<and> lu_budget l1 = lu_budget l"
  proof (cases "lu_items l k")
    case None
    then have "\<forall>e\<in>set (lruView l). le_key e \<noteq> k" using ok by (auto simp: lruOk_def keyMap_None_iff)
    with None ok show ?thesis by (simp add: l1_def filter_id_conv)
  next
    case (Some i)
    then show ?thesis
      using rebuilt_filter_ok [OF ok, of "\<lambda>x. le_key (snd x) \<noteq> k"]
      by (simp add: l1_def removeElem_rebuilt [OF ok Some]) (simp add: rebuilt_def filter_map comp_def)
  qed
  then have p: "lruOk (pushBack ?e l1)" using n by (intro pushBack_ok) auto
  have "lruView (pushBack ?e l1) = lruView l1 @ [?e]" "lu_budget (pushBack ?e l1) = lu_budget l1"
    by (simp_all add: pushBack_def)
  with evictToBudget_ok [OF p] l1 ok b show ?o ?ok ?b ?c
    by (simp_all add: SetLru_def Let_def l1_def [symmetric])
qed

lemma UpdateLru_ok:
  assumes ok: "lruOk l" and b: "budgetOk l" and n: "0 \<le> n"
  shows "lruView (snd (UpdateLru k v n l)) =
      trimOldest (lu_budget l)
        (map (\<lambda>e. if le_key e = k then e\<lparr>le_value := v, le_bytes := n\<rparr> else e) (lruView l))" (is ?o)
    and "lruOk (snd (UpdateLru k v n l))" (is ?ok)
    and "budgetOk (snd (UpdateLru k v n l))" (is ?b)
    and "lu_budget (snd (UpdateLru k v n l)) = lu_budget l" (is ?c)
proof -
  have "?o \<and> ?ok \<and> ?b \<and> ?c"
  proof (cases "lu_items l k")
  case None
  then have "\<forall>e\<in>set (lruView l). le_key e \<noteq> k" using ok by (auto simp: lruOk_def keyMap_None_iff)
  then have "map (\<lambda>e. if le_key e = k then e\<lparr>le_value := v, le_bytes := n\<rparr> else e) (lruView l) = lruView l"
    by (intro map_idI) auto
  moreover have "trimOldest (lu_budget l) (lruView l) = lruView l"
    using ok b by (auto simp: lruOk_def budgetOk_def intro: trimOldest_id)
  ultimately show ?thesis using None ok b by (simp add: UpdateLru_def del: map_map map_eq_conv)
next
  case (Some i)
  let ?u = "\<lambda>e. if le_key e = k then e\<lparr>le_value := v, le_bytes := n\<rparr> else e"
  let ?xs = "map (\<lambda>(j, e). (j, if j = i then e\<lparr>le_value := v, le_bytes := n\<rparr> else e)) (lu_order l)"
  obtain e where e: "elemValue i (lu_order l) = Some e" "(i, e) \<in> set (lu_order l)" "le_key e = k"
    using ok Some by (auto simp: lruOk_def keyMap_Some elemValue_def)
  have xs: "?xs = map (\<lambda>(j, e). (j, ?u e)) (lu_order l)"
    using elem_key [OF ok Some] by (intro map_cong refl) (simp add: case_prod_beta)
  have km: "keyMap (map (\<lambda>(j, e). (j, ?u e)) xs) = keyMap xs" for xs
    by (induction xs) (auto simp: keyMap_Cons)
  have sums: "sumBytes (map (\<lambda>x. ?u (snd x)) xs) = sumBytes (map snd xs) + (n - le_bytes e)"
    if "distinct (map (le_key \<circ> snd) xs)" "(i, e) \<in> set xs" for xs
    using that
  proof (induction xs)
    case (Cons x xs)
    have "sumBytes (map (\<lambda>x. ?u (snd x)) xs) = sumBytes (map snd xs)" if "x = (i, e)"
      using Cons.prems(1) e(3) that by (intro arg_cong [where f = sumBytes] map_cong refl) (force simp: image_iff)
    with Cons e(3) show ?case by (auto simp: image_iff)
  qed simp
  define l2 where "l2 = l\<lparr>lu_total := lu_total l + (n - le_bytes e), lu_order := ?xs\<rparr>"
  have keys: "le_key (if b then d\<lparr>le_value := v, le_bytes := n\<rparr> else d) = le_key d" for b and d :: "'a lruEntry"
    by simp
  have "lruOk l2"
    using sums ok n e km [of "lu_order l"] unfolding l2_def xs
    by (auto simp: lruOk_def comp_def case_prod_beta keys)
  note ev = evictToBudget_ok [OF this]
  have "lruView l2 = map ?u (lruView l)" "lu_budget l2 = lu_budget l"
    unfolding l2_def xs by (simp_all add: case_prod_beta)
  moreover have "snd (UpdateLru k v n l) = evictToBudget l2" using Some e(1) by (simp add: UpdateLru_def l2_def)
  ultimately show ?thesis using ev by (simp only: simp_thms)
qed
  then show ?o ?ok ?b ?c by blast+
qed

lemma DeleteLru_ok:
  assumes ok: "lruOk l" and b: "budgetOk l"
  shows "lruView (snd (DeleteLru k l)) = filter (\<lambda>e. le_key e \<noteq> k) (lruView l)"
    and "lruOk (snd (DeleteLru k l))" and "budgetOk (snd (DeleteLru k l))"
    and "lu_budget (snd (DeleteLru k l)) = lu_budget l"
proof -
  have "lruView (snd (DeleteLru k l)) = filter (\<lambda>e. le_key e \<noteq> k) (lruView l) \<and>
      lruOk (snd (DeleteLru k l)) \<and> budgetOk (snd (DeleteLru k l)) \<and> lu_budget (snd (DeleteLru k l)) = lu_budget l"
  proof (cases "lu_items l k")
  case None
  then have "\<forall>e\<in>set (lruView l). le_key e \<noteq> k" using ok by (auto simp: lruOk_def keyMap_None_iff)
  then have "filter (\<lambda>e. le_key e \<noteq> k) (lruView l) = lruView l" by (simp only: filter_id_conv)
  with None ok b show ?thesis
    by (simp add: DeleteLru_def)
next
  case (Some i)
  show ?thesis
    using rebuilt_filter_ok [OF ok, of "\<lambda>x. le_key (snd x) \<noteq> k"] rebuilt_filter_budget [OF ok b, of "\<lambda>x. le_key (snd x) \<noteq> k"]
    by (simp add: DeleteLru_def Some removeElem_rebuilt [OF ok Some]) (simp add: rebuilt_def filter_map comp_def)
qed
  then show "lruView (snd (DeleteLru k l)) = filter (\<lambda>e. le_key e \<noteq> k) (lruView l)"
    "lruOk (snd (DeleteLru k l))" "budgetOk (snd (DeleteLru k l))" "lu_budget (snd (DeleteLru k l)) = lu_budget l"
    by blast+
qed

lemma deleteLoop_eq:
  assumes "distinct (map (le_key \<circ> snd) (kept @ xs))" and "lu_items l = keyMap (kept @ xs)"
    and "lu_total l = sumBytes (map snd (kept @ xs))"
  shows "deleteLoop p xs kept n l =
    (n + length (filter (\<lambda>x. p (le_meta (snd x))) xs), rebuilt (kept @ filter (\<lambda>x. \<not> p (le_meta (snd x))) xs) l)"
  using assms
proof (induction xs arbitrary: kept n l)
  case Nil
  then show ?case by (simp add: rebuilt_def)
next
  case (Cons x xs)
  obtain i e where x: "x = (i, e)" by fastforce
  show ?case
  proof (cases "p (le_meta e)")
    case False
    with Cons.IH [of "kept @ [x]" l n] Cons.prems x show ?thesis by simp
  next
    case True
    have "\<forall>y\<in>set (kept @ xs). le_key (snd y) \<noteq> le_key e"
      using Cons.prems(1) x by (auto simp: image_iff)
    then have "kept @ xs = filter (\<lambda>y. le_key (snd y) \<noteq> le_key e) (kept @ x # xs)"
      using x by simp
    moreover have "keyMap (filter (\<lambda>y. le_key (snd y) \<noteq> le_key e) (kept @ x # xs)) = (keyMap (kept @ x # xs))(le_key e := None)"
      using Cons.prems(1) by (intro keyMap_filter) (simp_all add: comp_def)
    ultimately have "keyMap (kept @ xs) = (keyMap (kept @ x # xs))(le_key e := None)"
      by (simp only:)
    with Cons.IH [of kept "l\<lparr>lu_items := (lu_items l)(le_key e := None), lu_total := lu_total l - le_bytes e\<rparr>" "n + 1"]
      Cons.prems x True
    show ?thesis by (simp add: rebuilt_def)
  qed
qed

lemma DeleteWhere_ok:
  assumes ok: "lruOk l" and b: "budgetOk l"
  shows "lruView (snd (DeleteWhere p l)) = filter (\<lambda>e. \<not> p (le_meta e)) (lruView l)"
    and "fst (DeleteWhere p l) = length (filter (\<lambda>e. p (le_meta e)) (lruView l))"
    and "lruOk (snd (DeleteWhere p l))" and "budgetOk (snd (DeleteWhere p l))"
    and "lu_budget (snd (DeleteWhere p l)) = lu_budget l"
proof -
  have d: "DeleteWhere p l = (length (filter (\<lambda>x. p (le_meta (snd x))) (lu_order l)),
      rebuilt (filter (\<lambda>x. \<not> p (le_meta (snd x))) (lu_order l)) l)"
    using deleteLoop_eq [of "[]" "lu_order l" l p 0] ok by (simp add: DeleteWhere_def lruOk_def comp_def)
  show "lruOk (snd (DeleteWhere p l))" "budgetOk (snd (DeleteWhere p l))"
    using rebuilt_filter_ok [OF ok] rebuilt_filter_budget [OF ok b] by (simp_all add: d)
  show "lruView (snd (DeleteWhere p l)) = filter (\<lambda>e. \<not> p (le_meta e)) (lruView l)"
    "lu_budget (snd (DeleteWhere p l)) = lu_budget l"
    by (simp_all add: d rebuilt_def filter_map comp_def)
  show "fst (DeleteWhere p l) = length (filter (\<lambda>e. p (le_meta e)) (lruView l))"
    by (simp add: d filter_map comp_def)
qed

lemma ClearLru_ok: "lruOk (ClearLru l)" "budgetOk (ClearLru l)" "lruView (ClearLru l) = []"
  by (simp_all add: ClearLru_def lruOk_def budgetOk_def)

lemma NewByteLru_ok: "lruOk (NewByteLru n)" "budgetOk (NewByteLru n)" "lruView (NewByteLru n) = []"
  by (simp_all add: NewByteLru_def lruOk_def budgetOk_def)

lemma SetBudget_ok:
  assumes "lruOk l"
  shows "lruOk (SetBudget n l)" "budgetOk (SetBudget n l)" "lruView (SetBudget n l) = trimOldest n (lruView l)"
    "lu_budget (SetBudget n l) = n"
proof -
  have "lruOk (l\<lparr>lu_budget := n\<rparr>)" using assms by (simp add: lruOk_def)
  from evictToBudget_ok [OF this]
  show "lruOk (SetBudget n l)" "budgetOk (SetBudget n l)" "lruView (SetBudget n l) = trimOldest n (lruView l)"
    "lu_budget (SetBudget n l) = n" by (simp_all add: SetBudget_def)
qed

lemma SizeLru_eq: "lruOk l \<Longrightarrow> SizeLru l = length (lruView l)"
proof -
  assume ok: "lruOk l"
  have "dom (lu_items l) = set (map le_key (lruView l))"
    using ok by (auto simp: lruOk_def keyMap_def dom_map_of_conv_image_fst image_image case_prod_beta)
  moreover have "distinct (map le_key (lruView l))" using ok by (simp add: lruOk_def)
  ultimately show ?thesis by (simp only: SizeLru_def distinct_card length_map)
qed

section \<open>The contract of an entry cache\<close>

text \<open>
  What the two stores of the engine cache rely on: an entry cache is its entries from the least to the
  most recently used, and each operation acts on them as stated.  \<open>ok\<close> is the representation's own
  invariant, the budget included.
\<close>

locale entry_cache =
  fixes ok :: "'c \<Rightarrow> bool" and view :: "'c \<Rightarrow> 'v lruEntry list" and budget :: "'c \<Rightarrow> int"
    and get :: "bytes \<Rightarrow> 'c \<Rightarrow> 'v option \<times> 'c"
    and put :: "bytes \<Rightarrow> 'v \<Rightarrow> int \<Rightarrow> EntryMeta \<Rightarrow> int \<Rightarrow> 'c \<Rightarrow> bytes option \<times> 'c"
    and delete_where :: "(EntryMeta \<Rightarrow> bool) \<Rightarrow> 'c \<Rightarrow> nat \<times> 'c"
  assumes view_distinct: "ok c \<Longrightarrow> distinct (map le_key (view c))"
    and view_budget: "ok c \<Longrightarrow> view c \<noteq> [] \<Longrightarrow> sumBytes (view c) \<le> budget c"
    and get_ok: "ok c \<Longrightarrow> ok (snd (get k c))"
    and get_value: "ok c \<Longrightarrow> fst (get k c) = map_option le_value (findEntry k (view c))"
    and get_view: "ok c \<Longrightarrow> view (snd (get k c)) =
      filter (\<lambda>e. le_key e \<noteq> k) (view c) @ filter (\<lambda>e. le_key e = k) (view c)"
    and put_ok: "ok c \<Longrightarrow> 0 \<le> n \<Longrightarrow> ok (snd (put k v n meta now c))"
    and put_budget: "ok c \<Longrightarrow> 0 \<le> n \<Longrightarrow> budget (snd (put k v n meta now c)) = budget c"
    and put_view: "ok c \<Longrightarrow> 0 \<le> n \<Longrightarrow> view (snd (put k v n meta now c)) =
      (if budget c sdiv 2 < n then view c
       else trimOldest (budget c)
              (filter (\<lambda>e. le_key e \<noteq> k) (view c) @
               [\<lparr>le_key = k, le_value = v, le_bytes = n, le_at = now, le_meta = meta\<rparr>]))"
    and delete_where_ok: "ok c \<Longrightarrow> ok (snd (delete_where p c))"
    and delete_where_view: "ok c \<Longrightarrow> view (snd (delete_where p c)) = filter (\<lambda>e. \<not> p (le_meta e)) (view c)"
begin

lemma findEntry_snoc:
  "le_key e = k \<Longrightarrow> findEntry k (filter (\<lambda>e. le_key e \<noteq> k) es @ [e]) = Some e"
  by (induction es) (auto simp: findEntry_def)

text \<open>A stored entry is found: it cannot be the victim of its own eviction.\<close>

lemma get_put:
  assumes "ok c" and "0 \<le> n" and "n \<le> budget c sdiv 2" and "0 \<le> budget c"
  shows "fst (get k (snd (put k v n meta now c))) = Some v"
proof -
  let ?e = "\<lparr>le_key = k, le_value = v, le_bytes = n, le_at = now, le_meta = meta\<rparr>"
  have "n \<le> budget c"
    using assms(3,4) by (cases "budget c = 0") (auto simp: signed_divide_int_def sgn_if)
  then obtain m where "trimOldest (budget c) (filter (\<lambda>e. le_key e \<noteq> k) (view c) @ [?e]) =
      drop m (filter (\<lambda>e. le_key e \<noteq> k) (view c)) @ [?e]"
    using trimOldest_last [of ?e "budget c"] by auto
  moreover have "findEntry k (drop m (filter (\<lambda>e. le_key e \<noteq> k) (view c)) @ [?e]) = Some ?e"
  proof -
    have "\<forall>e\<in>set (drop m (filter (\<lambda>e. le_key e \<noteq> k) (view c))). le_key e \<noteq> k"
      by (auto dest: in_set_dropD)
    then have "filter (\<lambda>e. le_key e \<noteq> k) (drop m (filter (\<lambda>e. le_key e \<noteq> k) (view c))) =
        drop m (filter (\<lambda>e. le_key e \<noteq> k) (view c))" unfolding filter_id_conv .
    moreover have "findEntry k (filter (\<lambda>e. le_key e \<noteq> k) es @ [?e]) = Some ?e" for es
      by (rule findEntry_snoc) simp
    ultimately show ?thesis by metis
  qed
  ultimately show ?thesis
    using assms put_view [OF assms(1,2), of k v meta now] get_value [OF put_ok [OF assms(1,2)], of k k v meta now] by simp
qed

text \<open>What is not stored under a matching description stays; what is, goes.\<close>

lemma get_delete_where:
  assumes "ok c"
  shows "fst (get k (snd (delete_where p c))) =
    (case findEntry k (view c) of None \<Rightarrow> None | Some e \<Rightarrow> if p (le_meta e) then None else Some (le_value e))"
proof -
  have "findEntry k (filter (\<lambda>e. \<not> p (le_meta e)) es) =
      (case findEntry k es of None \<Rightarrow> None | Some e \<Rightarrow> if p (le_meta e) then None else Some e)"
    if "distinct (map le_key es)" for es :: "'v lruEntry list"
    using that
  proof (induction es)
    case (Cons e es)
    have "findEntry k (filter P es) = None" if "k = le_key e" for P
      using Cons.prems that by (auto simp: findEntry_def find_None_iff image_iff)
    with Cons show ?case by (auto simp: findEntry_def)
  qed (simp add: findEntry_def)
  with view_distinct [OF assms] show ?thesis
    by (simp add: get_value delete_where_ok delete_where_view assms split: option.splits)
qed

end

definition lruInv :: "'v ByteLru \<Rightarrow> bool" where
  "lruInv l \<longleftrightarrow> lruOk l \<and> budgetOk l"

lemma lruInv_view: "lruInv l \<Longrightarrow> distinct (map le_key (lruView l))"
  by (simp add: lruInv_def lruOk_def)

lemma lruInv_budget: "lruInv l \<Longrightarrow> lruView l \<noteq> [] \<Longrightarrow> sumBytes (lruView l) \<le> lu_budget l"
  by (auto simp: lruInv_def lruOk_def budgetOk_def)

interpretation lru: entry_cache lruInv lruView lu_budget GetLru SetLru DeleteWhere
  by unfold_locales
    (blast intro: lruInv_view lruInv_budget | simp add: lruInv_def GetLru_ok SetLru_ok DeleteWhere_ok)+

section \<open>Properties\<close>

lemma NewByteLru_inv: "lruInv (NewByteLru n)"
  by (simp add: lruInv_def NewByteLru_ok)

lemma NewByteLru_budget [simp]: "lu_budget (NewByteLru n) = n"
  by (simp add: NewByteLru_def)

datatype 'v LruCall =
    LruGet bytes
  | LruSet bytes 'v int EntryMeta int
  | LruUpdate bytes 'v int
  | LruDelete bytes
  | LruDeleteWhere "EntryMeta \<Rightarrow> bool"
  | LruSetBudget int
  | LruClear

fun lruStep :: "'v ByteLru \<Rightarrow> 'v LruCall \<Rightarrow> 'v ByteLru" where
  "lruStep l (LruGet k) = snd (GetLru k l)"
| "lruStep l (LruSet k v n meta now) = snd (SetLru k v n meta now l)"
| "lruStep l (LruUpdate k v n) = snd (UpdateLru k v n l)"
| "lruStep l (LruDelete k) = snd (DeleteLru k l)"
| "lruStep l (LruDeleteWhere p) = snd (DeleteWhere p l)"
| "lruStep l (LruSetBudget n) = SetBudget n l"
| "lruStep l LruClear = ClearLru l"

text \<open>No caller passes a negative size.\<close>

fun sizeOk :: "'v LruCall \<Rightarrow> bool" where
  "sizeOk (LruSet k v n meta now) = (0 \<le> n)"
| "sizeOk (LruUpdate k v n) = (0 \<le> n)"
| "sizeOk _ = True"

lemma lruStep_inv: "lruInv l \<Longrightarrow> sizeOk c \<Longrightarrow> lruInv (lruStep l c)"
  by (cases c) (simp_all add: lruInv_def GetLru_ok SetLru_ok UpdateLru_ok DeleteLru_ok DeleteWhere_ok SetBudget_ok ClearLru_ok)

lemma lruRun_inv: "lruInv l \<Longrightarrow> list_all sizeOk cs \<Longrightarrow> lruInv (foldl lruStep l cs)"
  by (induction cs arbitrary: l) (auto intro: lruStep_inv)

text \<open>
  C20: after any sequence of calls on a fresh LRU, the byte count is the sum of the sizes held, it is within
  the current budget unless the cache is empty, no key is held twice, and the number of entries
  reported is the number held.
\<close>

theorem lru_within_budget:
  assumes "list_all sizeOk cs" and "l = foldl lruStep (NewByteLru b) cs"
  shows "lu_total l = sum_list (map le_bytes (EntriesLru l)) \<and>
    (EntriesLru l = [] \<or> lu_total l \<le> lu_budget l) \<and>
    distinct (map le_key (EntriesLru l)) \<and> SizeLru l = length (EntriesLru l)"
proof -
  have "lruInv l" using lruRun_inv [OF NewByteLru_inv] assms by blast
  then show ?thesis
    using SizeLru_eq [of l] by (auto simp: EntriesLru_def lruInv_def lruOk_def budgetOk_def sumBytes_def)
qed

definition demoMeta :: EntryMeta where
  "demoMeta = \<lparr>em_ConnectionID = ''c'', em_Path = ''p'', em_Label = ''l''\<rparr>"

theorem lru_within_budget_witness:
  "SizeLru (foldl lruStep (NewByteLru 10) [LruSet ''a'' True 4 demoMeta 1, LruSet ''b'' True 5 demoMeta 2, LruSetBudget 6]) =
   length (EntriesLru (foldl lruStep (NewByteLru 10) [LruSet ''a'' True 4 demoMeta 1, LruSet ''b'' True 5 demoMeta 2, LruSetBudget 6]))"
  using lru_within_budget [of "[LruSet ''a'' True 4 demoMeta 1, LruSet ''b'' True 5 demoMeta 2, LruSetBudget 6]" _ 10]
  by simp

text \<open>
  storing an entry of at most half the budget makes it the newest, evicts only the oldest of the
  others and no more of them than needed, and a lookup right after it returns its value.  A larger entry changes
  nothing.
\<close>

theorem lru_set_exact:
  assumes "lruInv l" and "0 \<le> n" and "0 \<le> lu_budget l"
  shows "if lu_budget l div 2 < n then snd (SetLru k v n meta now l) = l
    else fst (GetLru k (snd (SetLru k v n meta now l))) = Some v \<and>
      (\<exists>m others. others = filter (\<lambda>e. le_key e \<noteq> k) (EntriesLru l) \<and>
        EntriesLru (snd (SetLru k v n meta now l)) =
          drop m others @ [\<lparr>le_key = k, le_value = v, le_bytes = n, le_at = now, le_meta = meta\<rparr>] \<and>
        (0 < m \<longrightarrow> lu_budget l < sum_list (map le_bytes (drop (m - 1) others)) + n))"
proof -
  have half: "lu_budget l sdiv 2 = lu_budget l div 2"
    using assms(3) by (cases "lu_budget l = 0") (auto simp: signed_divide_int_def sgn_if)
  have cut: "\<exists>m. trimOldest b (es @ [e]) = drop m es @ [e] \<and>
      (0 < m \<longrightarrow> b < sumBytes (drop (m - 1) es) + le_bytes e)" if "le_bytes e \<le> b" for b es and e :: "'a lruEntry"
  proof (induction es)
    case (Cons d es)
    then obtain m where m: "trimOldest b (es @ [e]) = drop m es @ [e]" "0 < m \<longrightarrow> b < sumBytes (drop (m - 1) es) + le_bytes e"
      by blast
    show ?case
    proof (cases "b < sumBytes ((d # es) @ [e])")
      case True
      then show ?thesis using m by (intro exI [of _ "Suc m"]) (cases m, auto)
    next
      case False
      then show ?thesis by (intro exI [of _ 0]) simp
    qed
  qed (use that in simp)
  show ?thesis
  proof (cases "lu_budget l div 2 < n")
    case True
    then show ?thesis by (simp add: SetLru_def half)
  next
    case False
    then have "n \<le> lu_budget l" using assms(3) by linarith
    with cut [of "\<lparr>le_key = k, le_value = v, le_bytes = n, le_at = now, le_meta = meta\<rparr>" "lu_budget l"]
      False lru.get_put [OF assms(1,2), of k v meta now] SetLru_ok(1) [of l n k v meta now] assms
    show ?thesis by (simp add: half EntriesLru_def lruInv_def sumBytes_def)
  qed
qed

theorem lru_set_exact_witness:
  "fst (GetLru ''b'' (snd (SetLru ''b'' True 5 demoMeta 2 (NewByteLru 10)))) = Some True"
  using lru_set_exact [of "NewByteLru 10" 5 "''b''" True demoMeta 2]
  by (simp add: NewByteLru_inv)

end
