(* ===== verification/EngineCache.thy ===== *)
theory EngineCache
  imports ByteLru "HOL-Library.Word"
begin

text \<open>
  \<^verbatim>\<open>enginecache/{generation,counts,pages,cache}.go\<close>: the engine cache, with its result pages (L2), its row
  counts (L3), the invalidation generations and the throttled statistics.  Every method of
  \<^verbatim>\<open>Cache\<close> holds its mutex throughout, so a method is one step.  A page is any type with a size
  (\<^verbatim>\<open>page.Page\<close> is an interface; \<open>sizeOf\<close> is its \<^verbatim>\<open>Size\<close>).  Times are nanoseconds, given as arguments;
  generations are 64-bit and wrap.  Of \<^verbatim>\<open>PageCacheKey\<close> the normalisation is modelled, not the JSON
  text and its SHA-1.
\<close>

section \<open>Generations\<close>

record generationTracker =
  gt_global :: "64 word"
  gt_conn :: "bytes \<Rightarrow> 64 word"
  gt_target :: "bytes \<Rightarrow> 64 word"

record GenerationSnapshot =
  gs_global :: "64 word"
  gs_conn :: "64 word"
  gs_target :: "64 word"

definition newGenerationTracker :: generationTracker where
  "newGenerationTracker = \<lparr>gt_global = 0, gt_conn = (\<lambda>_. 0), gt_target = (\<lambda>_. 0)\<rparr>"

definition targetGenKey :: "bytes \<Rightarrow> bytes \<Rightarrow> bytes" where
  "targetGenKey conn path = conn @ nul # path"

definition snapshot :: "bytes \<Rightarrow> bytes \<Rightarrow> generationTracker \<Rightarrow> GenerationSnapshot" where
  "snapshot conn path g =
     \<lparr>gs_global = gt_global g, gs_conn = gt_conn g conn, gs_target = gt_target g (targetGenKey conn path)\<rparr>"

definition bumpTarget :: "bytes \<Rightarrow> bytes \<Rightarrow> generationTracker \<Rightarrow> generationTracker" where
  "bumpTarget conn path g =
     (let k = targetGenKey conn path in g\<lparr>gt_target := (gt_target g)(k := gt_target g k + 1)\<rparr>)"

definition bumpConnection :: "bytes \<Rightarrow> generationTracker \<Rightarrow> generationTracker" where
  "bumpConnection conn g = g\<lparr>gt_conn := (gt_conn g)(conn := gt_conn g conn + 1)\<rparr>"

definition bumpGlobal :: "generationTracker \<Rightarrow> generationTracker" where
  "bumpGlobal g = g\<lparr>gt_global := gt_global g + 1\<rparr>"

section \<open>Counts\<close>

definition countTTL :: int where
  "countTTL = 5 * 60 * 10 ^ 9"

definition countDropAfter :: int where
  "countDropAfter = 30 * 60 * 10 ^ 9"

definition countEntryBytes :: int where
  "countEntryBytes = 128"

definition L3BudgetBytes :: int where
  "L3BudgetBytes = 256 * 1024"

record CountEntry =
  cy_Value :: int
  cy_Exact :: bool
  cy_At :: int
  cy_Stale :: bool

record storedCount =
  cv_value :: int
  cv_exact :: bool
  cv_at :: int
  cv_stale :: bool

type_synonym countStore = "storedCount ByteLru"

definition newCountStore :: countStore where
  "newCountStore = NewByteLru L3BudgetBytes"

definition countKey :: "bytes \<Rightarrow> bytes \<Rightarrow> bytes option \<Rightarrow> bytes" where
  "countKey conn path flt = conn @ nul # path @ nul # (case flt of None \<Rightarrow> [] | Some f \<Rightarrow> f)"

definition filterLabel :: "bytes option \<Rightarrow> bytes" where
  "filterLabel flt = (case flt of None \<Rightarrow> [] | Some f \<Rightarrow> f)"

definition countGet ::
  "bytes \<Rightarrow> bytes \<Rightarrow> bytes option \<Rightarrow> int \<Rightarrow> countStore \<Rightarrow> CountEntry option \<times> countStore" where
  "countGet conn path flt now s =
     (let key = countKey conn path flt in
      case GetLru key s of
        (None, s1) \<Rightarrow> (None, s1)
      | (Some e, s1) \<Rightarrow>
          let age = now - cv_at e in
          if age > countDropAfter then (None, snd (DeleteLru key s1))
          else
            (Some \<lparr>cy_Value = cv_value e, cy_Exact = cv_exact e, cy_At = cv_at e,
                   cy_Stale = (cv_stale e \<or> age > countTTL)\<rparr>, s1))"

definition countPut ::
  "bytes \<Rightarrow> bytes \<Rightarrow> bytes option \<Rightarrow> int \<Rightarrow> bool \<Rightarrow> int \<Rightarrow> countStore \<Rightarrow> countStore" where
  "countPut conn path flt v exact now s =
     snd (SetLru (countKey conn path flt)
            \<lparr>cv_value = v, cv_exact = exact, cv_at = now, cv_stale = False\<rparr> countEntryBytes
            \<lparr>em_ConnectionID = conn, em_Path = path, em_Label = filterLabel flt\<rparr> now s)"

definition isTarget :: "bytes \<Rightarrow> bytes \<Rightarrow> EntryMeta \<Rightarrow> bool" where
  "isTarget conn path m \<longleftrightarrow> em_ConnectionID m = conn \<and> em_Path m = path"

fun markLoop :: "bytes \<Rightarrow> bytes \<Rightarrow> storedCount lruEntry list \<Rightarrow> nat \<Rightarrow> countStore \<Rightarrow> nat \<times> countStore" where
  "markLoop conn path [] marked s = (marked, s)"
| "markLoop conn path (e # es) marked s =
     (if em_ConnectionID (le_meta e) \<noteq> conn \<or> em_Path (le_meta e) \<noteq> path \<or> cv_stale (le_value e)
      then markLoop conn path es marked s
      else
        markLoop conn path es (marked + 1)
          (snd (UpdateLru (le_key e) ((le_value e)\<lparr>cv_stale := True\<rparr>) countEntryBytes s)))"

definition markTargetStale :: "bytes \<Rightarrow> bytes \<Rightarrow> countStore \<Rightarrow> nat \<times> countStore" where
  "markTargetStale conn path s = markLoop conn path (EntriesLru s) 0 s"

definition countDropTarget :: "bytes \<Rightarrow> bytes \<Rightarrow> countStore \<Rightarrow> nat \<times> countStore" where
  "countDropTarget conn path s = DeleteWhere (isTarget conn path) s"

definition countDropConnection :: "bytes \<Rightarrow> countStore \<Rightarrow> nat \<times> countStore" where
  "countDropConnection conn s = DeleteWhere (\<lambda>m. em_ConnectionID m = conn) s"

section \<open>Pages\<close>

definition DefaultPageBudgetBytes :: int where
  "DefaultPageBudgetBytes = 64 * 1024 * 1024"

record SortTerm =
  tm_Column :: bytes
  tm_Direction :: bytes

record SortSpec =
  so_Kind :: bytes
  so_Terms :: "SortTerm list"
  so_Text :: bytes

record PageCursor =
  cu_Mode :: bytes
  cu_Offset :: int
  cu_Token :: bytes

record ReadRequest =
  rq_ConnectionID :: bytes
  rq_Path :: bytes
  rq_Projection :: "bytes list option"
  rq_Filter :: "bytes option"
  rq_Sort :: "SortSpec option"
  rq_PageSize :: int
  rq_Cursor :: PageCursor

record normalizedRequest =
  nq_ConnectionID :: bytes
  nq_Path :: bytes
  nq_Projection :: "bytes list option"
  nq_Filter :: "bytes option"
  nq_Sort :: "bytes option"
  nq_PageSize :: int
  nq_Cursor :: PageCursor

definition canonicalSort :: "SortSpec option \<Rightarrow> bytes option" where
  "canonicalSort s =
     (case s of
        None \<Rightarrow> None
      | Some spec \<Rightarrow>
          Some (if so_Kind spec = ''text'' then ''text:'' @ so_Text spec
                else ''structured:'' @ JoinByte (map (\<lambda>t. tm_Column t @ '':'' @ tm_Direction t) (so_Terms spec)) CHR '',''))"

definition isSpaceByte :: "char \<Rightarrow> bool" where
  "isSpaceByte b \<longleftrightarrow>
     b = CHR '' '' \<or> b = CHR 0x09 \<or> b = CHR 0x0A \<or> b = CHR 0x0D \<or> b = CHR 0x0B \<or> b = CHR 0x0C"

definition trimmed :: "bytes \<Rightarrow> bytes" where
  "trimmed s = rev (dropWhile isSpaceByte (rev (dropWhile isSpaceByte s)))"

text \<open>The request \<^verbatim>\<open>PageCacheKey\<close> marshals and hashes.\<close>

definition normalizeRequest :: "ReadRequest \<Rightarrow> normalizedRequest" where
  "normalizeRequest req =
     \<lparr>nq_ConnectionID = rq_ConnectionID req, nq_Path = rq_Path req,
      nq_Projection = map_option sort (rq_Projection req),
      nq_Filter =
        (case rq_Filter req of
           None \<Rightarrow> None
         | Some f \<Rightarrow> if trimmed f \<noteq> [] then Some (trimmed f) else None),
      nq_Sort = canonicalSort (rq_Sort req), nq_PageSize = rq_PageSize req, nq_Cursor = rq_Cursor req\<rparr>"

record 'p pageStore =
  pg_hits :: int
  pg_misses :: int
  pg_lru :: "'p ByteLru"

definition newPageStore :: "'p pageStore" where
  "newPageStore = \<lparr>pg_hits = 0, pg_misses = 0, pg_lru = NewByteLru DefaultPageBudgetBytes\<rparr>"

definition configureBudget :: "int \<Rightarrow> 'p pageStore \<Rightarrow> 'p pageStore" where
  "configureBudget n s = s\<lparr>pg_lru := SetBudget n (pg_lru s)\<rparr>"

definition pageGet :: "bytes \<Rightarrow> 'p pageStore \<Rightarrow> 'p option \<times> 'p pageStore" where
  "pageGet key s =
     (case GetLru key (pg_lru s) of
        (p, l) \<Rightarrow>
          (p, if p \<noteq> None then s\<lparr>pg_lru := l, pg_hits := pg_hits s + 1\<rparr>
              else s\<lparr>pg_lru := l, pg_misses := pg_misses s + 1\<rparr>))"

definition pagePut ::
  "('p \<Rightarrow> int) \<Rightarrow> bytes \<Rightarrow> ReadRequest \<Rightarrow> bytes \<Rightarrow> 'p \<Rightarrow> int \<Rightarrow> 'p pageStore \<Rightarrow> 'p pageStore" where
  "pagePut sizeOf key req label p now s =
     s\<lparr>pg_lru :=
         snd (SetLru key p (sizeOf p)
                \<lparr>em_ConnectionID = rq_ConnectionID req, em_Path = rq_Path req, em_Label = label\<rparr> now (pg_lru s))\<rparr>"

definition pageDropTarget :: "bytes \<Rightarrow> bytes \<Rightarrow> 'p pageStore \<Rightarrow> nat \<times> 'p pageStore" where
  "pageDropTarget conn path s =
     (case DeleteWhere (isTarget conn path) (pg_lru s) of (n, l) \<Rightarrow> (n, s\<lparr>pg_lru := l\<rparr>))"

definition pageDropConnection :: "bytes \<Rightarrow> 'p pageStore \<Rightarrow> nat \<times> 'p pageStore" where
  "pageDropConnection conn s =
     (case DeleteWhere (\<lambda>m. em_ConnectionID m = conn) (pg_lru s) of (n, l) \<Rightarrow> (n, s\<lparr>pg_lru := l\<rparr>))"

definition pageClear :: "'p pageStore \<Rightarrow> 'p pageStore" where
  "pageClear s = s\<lparr>pg_lru := ClearLru (pg_lru s), pg_hits := 0, pg_misses := 0\<rparr>"

section \<open>The cache\<close>

record CacheStats =
  cs_L2Bytes :: int
  cs_L2BudgetBytes :: int
  cs_L2Entries :: nat
  cs_L2Hits :: int
  cs_L2Misses :: int
  cs_L3Entries :: nat

text \<open>
  \<open>ca_timers\<close> counts the pending \<^verbatim>\<open>time.AfterFunc\<close> timers and \<open>ca_sent\<close> records what the listeners were
  given: the ids called and the statistics.
\<close>

record 'p Cache =
  ca_pages :: "'p pageStore"
  ca_counts :: countStore
  ca_gen :: generationTracker
  ca_listeners :: "nat set"
  ca_nextListenerID :: nat
  ca_lastEmitted :: "CacheStats option"
  ca_throttled :: bool
  ca_timers :: nat
  ca_sent :: "(nat set \<times> CacheStats) list"

definition NewCache :: "int \<Rightarrow> 'p Cache" where
  "NewCache l2BudgetBytes =
     \<lparr>ca_pages = (if 0 < l2BudgetBytes then configureBudget l2BudgetBytes newPageStore else newPageStore),
      ca_counts = newCountStore, ca_gen = newGenerationTracker, ca_listeners = {}, ca_nextListenerID = 0,
      ca_lastEmitted = None, ca_throttled = False, ca_timers = 0, ca_sent = []\<rparr>"

definition currentStats :: "'p Cache \<Rightarrow> CacheStats" where
  "currentStats c =
     \<lparr>cs_L2Bytes = lu_total (pg_lru (ca_pages c)), cs_L2BudgetBytes = lu_budget (pg_lru (ca_pages c)),
      cs_L2Entries = SizeLru (pg_lru (ca_pages c)), cs_L2Hits = pg_hits (ca_pages c),
      cs_L2Misses = pg_misses (ca_pages c), cs_L3Entries = SizeLru (ca_counts c)\<rparr>"

definition scheduleEmit :: "'p Cache \<Rightarrow> 'p Cache" where
  "scheduleEmit c = (if ca_throttled c then c else c\<lparr>ca_throttled := True, ca_timers := ca_timers c + 1\<rparr>)"

text \<open>The closure a timer runs.\<close>

definition emitTick :: "'p Cache \<Rightarrow> 'p Cache" where
  "emitTick c =
     (let c1 = c\<lparr>ca_throttled := False, ca_timers := ca_timers c - 1\<rparr>;
          stats = currentStats c1 in
      if ca_lastEmitted c1 = Some stats then c1
      else c1\<lparr>ca_lastEmitted := Some stats, ca_sent := ca_sent c1 @ [(ca_listeners c1, stats)]\<rparr>)"

definition Configure :: "int \<Rightarrow> 'p Cache \<Rightarrow> 'p Cache" where
  "Configure n c = scheduleEmit (c\<lparr>ca_pages := configureBudget n (ca_pages c)\<rparr>)"

definition ReadPage :: "bytes \<Rightarrow> 'p Cache \<Rightarrow> 'p option \<times> 'p Cache" where
  "ReadPage key c =
     (case pageGet key (ca_pages c) of (p, ps) \<Rightarrow> (p, scheduleEmit (c\<lparr>ca_pages := ps\<rparr>)))"

definition StorePage ::
  "('p \<Rightarrow> int) \<Rightarrow> bytes \<Rightarrow> bytes \<Rightarrow> ReadRequest \<Rightarrow> 'p \<Rightarrow> int \<Rightarrow> 'p Cache \<Rightarrow> 'p Cache" where
  "StorePage sizeOf key label req p now c =
     scheduleEmit (c\<lparr>ca_pages := pagePut sizeOf key req label p now (ca_pages c)\<rparr>)"

definition CurrentGeneration :: "bytes \<Rightarrow> bytes \<Rightarrow> 'p Cache \<Rightarrow> GenerationSnapshot" where
  "CurrentGeneration conn path c = snapshot conn path (ca_gen c)"

definition StorePageIfCurrent ::
  "('p \<Rightarrow> int) \<Rightarrow> bytes \<Rightarrow> bytes \<Rightarrow> ReadRequest \<Rightarrow> 'p \<Rightarrow> GenerationSnapshot \<Rightarrow> int \<Rightarrow> 'p Cache \<Rightarrow> 'p Cache" where
  "StorePageIfCurrent sizeOf key label req p gen now c =
     (if snapshot (rq_ConnectionID req) (rq_Path req) (ca_gen c) \<noteq> gen then c
      else scheduleEmit (c\<lparr>ca_pages := pagePut sizeOf key req label p now (ca_pages c)\<rparr>))"

definition CountCached ::
  "bytes \<Rightarrow> bytes \<Rightarrow> bytes option \<Rightarrow> int \<Rightarrow> 'p Cache \<Rightarrow> CountEntry option \<times> 'p Cache" where
  "CountCached conn path flt now c =
     (case countGet conn path flt now (ca_counts c) of (e, s) \<Rightarrow> (e, c\<lparr>ca_counts := s\<rparr>))"

definition StoreCount ::
  "bytes \<Rightarrow> bytes \<Rightarrow> bytes option \<Rightarrow> int \<Rightarrow> bool \<Rightarrow> int \<Rightarrow> 'p Cache \<Rightarrow> 'p Cache" where
  "StoreCount conn path flt v exact now c =
     scheduleEmit (c\<lparr>ca_counts := countPut conn path flt v exact now (ca_counts c)\<rparr>)"

definition StoreCountIfCurrent ::
  "bytes \<Rightarrow> bytes \<Rightarrow> bytes option \<Rightarrow> int \<Rightarrow> bool \<Rightarrow> GenerationSnapshot \<Rightarrow> int \<Rightarrow> 'p Cache \<Rightarrow> 'p Cache" where
  "StoreCountIfCurrent conn path flt v exact gen now c =
     (if snapshot conn path (ca_gen c) \<noteq> gen then c
      else scheduleEmit (c\<lparr>ca_counts := countPut conn path flt v exact now (ca_counts c)\<rparr>))"

definition DropTarget :: "bytes \<Rightarrow> bytes \<Rightarrow> 'p Cache \<Rightarrow> 'p Cache" where
  "DropTarget conn path c =
     scheduleEmit
       (c\<lparr>ca_pages := snd (pageDropTarget conn path (ca_pages c)),
          ca_counts := snd (countDropTarget conn path (ca_counts c)), ca_gen := bumpTarget conn path (ca_gen c)\<rparr>)"

definition InvalidateAfterMutation :: "bytes \<Rightarrow> bytes \<Rightarrow> 'p Cache \<Rightarrow> 'p Cache" where
  "InvalidateAfterMutation conn path c =
     scheduleEmit
       (c\<lparr>ca_pages := snd (pageDropTarget conn path (ca_pages c)),
          ca_counts := snd (markTargetStale conn path (ca_counts c)), ca_gen := bumpTarget conn path (ca_gen c)\<rparr>)"

definition DropPagesOnly :: "bytes \<Rightarrow> bytes \<Rightarrow> 'p Cache \<Rightarrow> 'p Cache" where
  "DropPagesOnly conn path c =
     scheduleEmit
       (c\<lparr>ca_pages := snd (pageDropTarget conn path (ca_pages c)), ca_gen := bumpTarget conn path (ca_gen c)\<rparr>)"

definition DropConnection :: "bytes \<Rightarrow> 'p Cache \<Rightarrow> 'p Cache" where
  "DropConnection conn c =
     scheduleEmit
       (c\<lparr>ca_pages := snd (pageDropConnection conn (ca_pages c)),
          ca_counts := snd (countDropConnection conn (ca_counts c)), ca_gen := bumpConnection conn (ca_gen c)\<rparr>)"

definition ClearCache :: "'p Cache \<Rightarrow> 'p Cache" where
  "ClearCache c =
     scheduleEmit
       (c\<lparr>ca_pages := pageClear (ca_pages c), ca_counts := ClearLru (ca_counts c), ca_gen := bumpGlobal (ca_gen c)\<rparr>)"

definition OnStatsChanged :: "'p Cache \<Rightarrow> nat \<times> 'p Cache" where
  "OnStatsChanged c =
     (ca_nextListenerID c,
      c\<lparr>ca_nextListenerID := ca_nextListenerID c + 1, ca_listeners := insert (ca_nextListenerID c) (ca_listeners c)\<rparr>)"

definition unsubscribe :: "nat \<Rightarrow> 'p Cache \<Rightarrow> 'p Cache" where
  "unsubscribe i c = c\<lparr>ca_listeners := ca_listeners c - {i}\<rparr>"

section \<open>Runs\<close>

datatype 'p CacheCall =
    CallConfigure int
  | CallReadPage bytes
  | CallStorePage bytes bytes ReadRequest 'p int
  | CallStorePageIfCurrent bytes bytes ReadRequest 'p GenerationSnapshot int
  | CallCount bytes bytes "bytes option" int
  | CallStoreCount bytes bytes "bytes option" int bool int
  | CallStoreCountIfCurrent bytes bytes "bytes option" int bool GenerationSnapshot int
  | CallDropTarget bytes bytes
  | CallInvalidateAfterMutation bytes bytes
  | CallDropPagesOnly bytes bytes
  | CallDropConnection bytes
  | CallClear
  | CallTick
  | CallSubscribe
  | CallUnsubscribe nat

fun cacheStep :: "('p \<Rightarrow> int) \<Rightarrow> 'p Cache \<Rightarrow> 'p CacheCall \<Rightarrow> 'p Cache" where
  "cacheStep sz c (CallConfigure n) = Configure n c"
| "cacheStep sz c (CallReadPage key) = snd (ReadPage key c)"
| "cacheStep sz c (CallStorePage key label req p now) = StorePage sz key label req p now c"
| "cacheStep sz c (CallStorePageIfCurrent key label req p gen now) = StorePageIfCurrent sz key label req p gen now c"
| "cacheStep sz c (CallCount conn path flt now) = snd (CountCached conn path flt now c)"
| "cacheStep sz c (CallStoreCount conn path flt v exact now) = StoreCount conn path flt v exact now c"
| "cacheStep sz c (CallStoreCountIfCurrent conn path flt v exact gen now) =
     StoreCountIfCurrent conn path flt v exact gen now c"
| "cacheStep sz c (CallDropTarget conn path) = DropTarget conn path c"
| "cacheStep sz c (CallInvalidateAfterMutation conn path) = InvalidateAfterMutation conn path c"
| "cacheStep sz c (CallDropPagesOnly conn path) = DropPagesOnly conn path c"
| "cacheStep sz c (CallDropConnection conn) = DropConnection conn c"
| "cacheStep sz c CallClear = ClearCache c"
| "cacheStep sz c CallTick = (if 0 < ca_timers c then emitTick c else c)"
| "cacheStep sz c CallSubscribe = snd (OnStatsChanged c)"
| "cacheStep sz c (CallUnsubscribe i) = unsubscribe i c"

abbreviation cacheRun :: "('p \<Rightarrow> int) \<Rightarrow> 'p Cache \<Rightarrow> 'p CacheCall list \<Rightarrow> 'p Cache" where
  "cacheRun sz c cs \<equiv> foldl (cacheStep sz) c cs"

text \<open>The calls that invalidate what is cached for a target.\<close>

fun invalidates :: "bytes \<Rightarrow> bytes \<Rightarrow> 'p CacheCall \<Rightarrow> bool" where
  "invalidates conn path (CallDropTarget c p) = (targetGenKey c p = targetGenKey conn path)"
| "invalidates conn path (CallInvalidateAfterMutation c p) = (targetGenKey c p = targetGenKey conn path)"
| "invalidates conn path (CallDropPagesOnly c p) = (targetGenKey c p = targetGenKey conn path)"
| "invalidates conn path (CallDropConnection c) = (c = conn)"
| "invalidates conn path CallClear = True"
| "invalidates conn path _ = False"

section \<open>Generations only move forward\<close>

text \<open>
  The number of bumps a call makes to the three counters a snapshot reads: the call invalidates the target
  exactly when one of them is not zero, and the snapshot moves by exactly those amounts.
\<close>

fun bumps :: "bytes \<Rightarrow> bytes \<Rightarrow> 'p CacheCall \<Rightarrow> nat \<times> nat \<times> nat" where
  "bumps conn path (CallDropTarget c p) = (0, 0, if targetGenKey c p = targetGenKey conn path then 1 else 0)"
| "bumps conn path (CallInvalidateAfterMutation c p) = (0, 0, if targetGenKey c p = targetGenKey conn path then 1 else 0)"
| "bumps conn path (CallDropPagesOnly c p) = (0, 0, if targetGenKey c p = targetGenKey conn path then 1 else 0)"
| "bumps conn path (CallDropConnection c) = (0, if c = conn then 1 else 0, 0)"
| "bumps conn path CallClear = (1, 0, 0)"
| "bumps conn path _ = (0, 0, 0)"

definition advance :: "GenerationSnapshot \<Rightarrow> nat \<times> nat \<times> nat \<Rightarrow> GenerationSnapshot" where
  "advance s n = (case n of (a, b, c) \<Rightarrow>
     \<lparr>gs_global = gs_global s + of_nat a, gs_conn = gs_conn s + of_nat b, gs_target = gs_target s + of_nat c\<rparr>)"

definition plus3 :: "nat \<times> nat \<times> nat \<Rightarrow> nat \<times> nat \<times> nat \<Rightarrow> nat \<times> nat \<times> nat" where
  "plus3 m n = (fst m + fst n, fst (snd m) + fst (snd n), snd (snd m) + snd (snd n))"

definition allBumps :: "bytes \<Rightarrow> bytes \<Rightarrow> 'p CacheCall list \<Rightarrow> nat \<times> nat \<times> nat" where
  "allBumps conn path cs = foldr plus3 (map (bumps conn path) cs) (0, 0, 0)"

lemma invalidates_bumps: "invalidates conn path x \<longleftrightarrow> bumps conn path x \<noteq> (0, 0, 0)"
  by (cases x) auto

lemma gen_scheduleEmit [simp]: "ca_gen (scheduleEmit c) = ca_gen c"
  by (simp add: scheduleEmit_def)

lemmas cache_defs =
  Configure_def ReadPage_def StorePage_def StorePageIfCurrent_def CountCached_def StoreCount_def
  StoreCountIfCurrent_def DropTarget_def InvalidateAfterMutation_def DropPagesOnly_def DropConnection_def
  ClearCache_def emitTick_def OnStatsChanged_def unsubscribe_def

lemma step_snapshot:
  "snapshot conn path (ca_gen (cacheStep sz c x)) = advance (snapshot conn path (ca_gen c)) (bumps conn path x)"
  by (cases x)
    (auto simp: cache_defs Let_def advance_def snapshot_def bumpTarget_def bumpConnection_def bumpGlobal_def split: prod.splits)

lemma run_snapshot:
  "snapshot conn path (ca_gen (cacheRun sz c cs)) = advance (snapshot conn path (ca_gen c)) (allBumps conn path cs)"
proof (induction cs arbitrary: c)
  case (Cons x cs)
  then show ?case
    using step_snapshot [of conn path sz c x]
    by (simp add: allBumps_def advance_def plus3_def case_prod_beta ac_simps)
qed (simp add: allBumps_def advance_def snapshot_def)

lemma allBumps_le:
  "fst (allBumps conn path cs) \<le> length cs \<and> fst (snd (allBumps conn path cs)) \<le> length cs \<and>
   snd (snd (allBumps conn path cs)) \<le> length cs"
proof (induction cs)
  case (Cons x cs)
  moreover have "fst (bumps conn path x) \<le> 1 \<and> fst (snd (bumps conn path x)) \<le> 1 \<and> snd (snd (bumps conn path x)) \<le> 1"
    by (cases x) auto
  ultimately show ?case by (auto simp: allBumps_def plus3_def)
qed (simp add: allBumps_def)

lemma allBumps_zero: "allBumps conn path cs = (0, 0, 0) \<longleftrightarrow> \<not> (\<exists>x\<in>set cs. invalidates conn path x)"
proof (induction cs)
  case (Cons x cs)
  then show ?case
    unfolding invalidates_bumps by (cases "bumps conn path x"; cases "allBumps conn path cs") (auto simp: allBumps_def plus3_def)
qed (simp add: allBumps_def)

lemma of_nat_word_zero: "n < 2 ^ 64 \<Longrightarrow> (of_nat n :: 64 word) = 0 \<longleftrightarrow> n = 0"
  using dvd_imp_le [of "2 ^ 64" n] by (auto simp: word_of_nat_eq_0_iff)

lemma snapshot_current:
  assumes "length cs < 2 ^ 64"
  shows "snapshot conn path (ca_gen (cacheRun sz c cs)) = snapshot conn path (ca_gen c) \<longleftrightarrow>
    \<not> (\<exists>x\<in>set cs. invalidates conn path x)"
proof -
  obtain i j k where n: "allBumps conn path cs = (i, j, k)" by (metis prod.collapse)
  then have "i < 2 ^ 64" "j < 2 ^ 64" "k < 2 ^ 64"
    using allBumps_le [of conn path cs] assms by auto
  then have "advance (snapshot conn path (ca_gen c)) (i, j, k) = snapshot conn path (ca_gen c) \<longleftrightarrow> (i, j, k) = (0, 0, 0)"
    by (simp add: advance_def snapshot_def of_nat_word_zero)
  with n allBumps_zero [of conn path cs] show ?thesis by (simp add: run_snapshot)
qed

section \<open>The invariant of the cache\<close>

text \<open>
  Both stores keep the LRU's invariant, every count has the nominal size, and a timer is pending
  exactly while the emission is throttled.
\<close>

definition countsOk :: "countStore \<Rightarrow> bool" where
  "countsOk s \<longleftrightarrow> lruInv s \<and> (\<forall>e\<in>set (lruView s). le_bytes e = countEntryBytes)"

definition cacheOk :: "'p Cache \<Rightarrow> bool" where
  "cacheOk c \<longleftrightarrow>
     lruInv (pg_lru (ca_pages c)) \<and> countsOk (ca_counts c) \<and> ca_timers c = (if ca_throttled c then 1 else 0)"

lemma countStore_trim: "set (trimOldest b es) \<subseteq> set es"
  using trimOldest_suffix [of b es] by (metis set_drop_subset)

lemma scheduleEmit_ok [simp]: "cacheOk (scheduleEmit c) = cacheOk c"
  by (simp add: cacheOk_def scheduleEmit_def)

lemma countsOk_subset: "countsOk s \<Longrightarrow> lruInv s' \<Longrightarrow> set (lruView s') \<subseteq> set (lruView s) \<Longrightarrow> countsOk s'"
  unfolding countsOk_def by (meson subsetD)

lemma countsOk_put:
  assumes "countsOk s"
  shows "countsOk (countPut conn path flt v exact now s)"
proof -
  have s: "lruInv s" and n: "0 \<le> countEntryBytes" and b: "\<forall>e\<in>set (lruView s). le_bytes e = countEntryBytes"
    using assms by (simp_all add: countsOk_def countEntryBytes_def)
  have "\<forall>e\<in>set (lruView (countPut conn path flt v exact now s)). le_bytes e = countEntryBytes"
    unfolding countPut_def lru.put_view [OF s n]
    using b countStore_trim by (fastforce split: if_splits)
  then show ?thesis using lru.put_ok [OF s n] by (simp add: countPut_def countsOk_def)
qed

lemma countsOk_get:
  assumes "countsOk s"
  shows "countsOk (snd (countGet conn path flt now s))"
proof -
  let ?k = "countKey conn path flt"
  let ?s = "snd (GetLru ?k s)"
  have s: "lruInv s" using assms by (simp add: countsOk_def)
  have v: "lruView ?s = filter (\<lambda>e. le_key e \<noteq> ?k) (lruView s) @ filter (\<lambda>e. le_key e = ?k) (lruView s)"
    by (rule lru.get_view [OF s])
  have 1: "countsOk ?s"
    by (rule countsOk_subset [OF assms lru.get_ok [OF s]]) (unfold v, auto)
  moreover have "countsOk (snd (DeleteLru ?k ?s))"
  proof (rule countsOk_subset [OF 1])
    have ok: "lruOk ?s" "budgetOk ?s" using 1 by (simp_all add: countsOk_def lruInv_def)
    then show "lruInv (snd (DeleteLru ?k ?s))" by (simp add: lruInv_def DeleteLru_ok(2,3))
    show "set (lruView (snd (DeleteLru ?k ?s))) \<subseteq> set (lruView ?s)"
      unfolding DeleteLru_ok(1) [OF ok] by auto
  qed
  ultimately show ?thesis
    by (auto simp: countGet_def Let_def split: prod.splits option.splits)
qed

lemma countsOk_drop:
  assumes "countsOk s"
  shows "countsOk (snd (DeleteWhere p s))"
proof (rule countsOk_subset [OF assms])
  have s: "lruInv s" using assms by (simp add: countsOk_def)
  then show "lruInv (snd (DeleteWhere p s))" by (rule lru.delete_where_ok)
  show "set (lruView (snd (DeleteWhere p s))) \<subseteq> set (lruView s)"
    unfolding lru.delete_where_view [OF s] by auto
qed

lemma countsOk_clear: "countsOk (ClearLru s)"
  using ClearLru_ok [of s] by (simp add: countsOk_def lruInv_def)

text \<open>Marking rewrites the matching entries in place: none is evicted, none changes its size or place.\<close>

definition staled :: "bytes \<Rightarrow> bytes \<Rightarrow> storedCount lruEntry \<Rightarrow> storedCount lruEntry" where
  "staled conn path e =
     (if isTarget conn path (le_meta e) then e\<lparr>le_value := (le_value e)\<lparr>cv_stale := True\<rparr>\<rparr> else e)"

lemma update_in_place:
  assumes s: "lruInv s" and b: "\<forall>e\<in>set (lruView s). le_bytes e = countEntryBytes" and v: "lruView s = xs @ e # ys"
  shows "lruView (snd (UpdateLru (le_key e) w countEntryBytes s)) = xs @ e\<lparr>le_value := w\<rparr> # ys"
    and "lruInv (snd (UpdateLru (le_key e) w countEntryBytes s))"
proof -
  have n: "0 \<le> countEntryBytes" by (simp add: countEntryBytes_def)
  note u = UpdateLru_ok [of s countEntryBytes "le_key e" w]
  let ?u = "\<lambda>d. if le_key d = le_key e then d\<lparr>le_value := w, le_bytes := countEntryBytes\<rparr> else d"
  have d: "distinct (map le_key (xs @ e # ys))" using lruInv_view [OF s] by (simp only: v)
  have "e\<lparr>le_bytes := countEntryBytes\<rparr> = e" using b v by (cases e) simp
  then have e: "e\<lparr>le_value := w, le_bytes := countEntryBytes\<rparr> = e\<lparr>le_value := w\<rparr>"
    by (cases e) simp
  have m: "map ?u (lruView s) = xs @ e\<lparr>le_value := w\<rparr> # ys"
    unfolding v using d e by (auto intro!: map_idI simp: image_iff)
  have "sumBytes (map ?u zs) = sumBytes zs" if "\<forall>d\<in>set zs. le_bytes d = countEntryBytes" for zs
    using that by (induction zs) auto
  then have "sumBytes (map ?u (lruView s)) \<le> lu_budget s"
    using lruInv_budget [OF s] b v by simp
  then show "lruView (snd (UpdateLru (le_key e) w countEntryBytes s)) = xs @ e\<lparr>le_value := w\<rparr> # ys"
    using u(1) s n by (simp only: lruInv_def m trimOldest_id simp_thms)
  show "lruInv (snd (UpdateLru (le_key e) w countEntryBytes s))"
    using u(2,3) s n by (simp add: lruInv_def)
qed

lemma markLoop_view:
  assumes "lruInv s" and "\<forall>e\<in>set (lruView s). le_bytes e = countEntryBytes" and "lruView s = xs @ es"
  shows "lruView (snd (markLoop conn path es n s)) = xs @ map (staled conn path) es"
    and "lruInv (snd (markLoop conn path es n s))"
proof -
  have "lruView (snd (markLoop conn path es n s)) = xs @ map (staled conn path) es \<and> lruInv (snd (markLoop conn path es n s))"
    using assms
  proof (induction es arbitrary: xs n s)
    case (Cons e es)
    show ?case
    proof (cases "em_ConnectionID (le_meta e) \<noteq> conn \<or> em_Path (le_meta e) \<noteq> path \<or> cv_stale (le_value e)")
      case True
      then have "staled conn path e = e"
        by (cases e, cases "le_value e") (auto simp: staled_def isTarget_def)
      with True Cons.IH [of s "xs @ [e]" n] Cons.prems show ?thesis by simp
    next
      case False
      let ?s = "snd (UpdateLru (le_key e) ((le_value e)\<lparr>cv_stale := True\<rparr>) countEntryBytes s)"
      have e: "e\<lparr>le_value := (le_value e)\<lparr>cv_stale := True\<rparr>\<rparr> = staled conn path e"
        using False by (simp add: staled_def isTarget_def)
      have v: "lruView ?s = (xs @ [staled conn path e]) @ es" and i: "lruInv ?s"
        using update_in_place [OF Cons.prems] by (simp_all add: e)
      have "\<forall>d\<in>set (lruView ?s). le_bytes d = countEntryBytes"
        using Cons.prems(2,3) unfolding v by (auto simp: staled_def simp del: set_map)
      with Cons.IH [OF i _ v, of "n + 1"] False show ?thesis by simp
    qed
  qed simp
  then show "lruView (snd (markLoop conn path es n s)) = xs @ map (staled conn path) es"
    "lruInv (snd (markLoop conn path es n s))" by blast+
qed

lemma markTargetStale_view:
  assumes "lruInv s" and "\<forall>e\<in>set (lruView s). le_bytes e = countEntryBytes"
  shows "lruView (snd (markTargetStale conn path s)) = map (staled conn path) (lruView s)"
    and "lruInv (snd (markTargetStale conn path s))"
  using markLoop_view [OF assms, of "[]"] by (simp_all add: markTargetStale_def EntriesLru_def)

lemma countsOk_mark: "countsOk s \<Longrightarrow> countsOk (snd (markTargetStale conn path s))"
  unfolding countsOk_def using markTargetStale_view [of s conn path] by (auto simp: staled_def)

lemma budget_inv: "lruInv s \<Longrightarrow> lruInv (SetBudget n s)"
  by (simp add: lruInv_def SetBudget_ok)

text \<open>Pages have a size, and no size is negative.\<close>

lemma pages_ok:
  assumes "lruInv (pg_lru s)"
  shows "lruInv (pg_lru (snd (pageDropTarget conn path s)))" "lruInv (pg_lru (snd (pageDropConnection conn s)))"
    "lruInv (pg_lru (pageClear s))" "lruInv (pg_lru (configureBudget k s))" "lruInv (pg_lru (snd (pageGet key s)))"
    "0 \<le> sz q \<Longrightarrow> lruInv (pg_lru (pagePut sz key req label q now s))"
  using lru.delete_where_ok [OF assms] budget_inv [OF assms] lru.get_ok [OF assms] lru.put_ok [OF assms]
  by (simp_all add: pageDropTarget_def pageDropConnection_def pageClear_def configureBudget_def pageGet_def
      pagePut_def case_prod_beta lruInv_def [of "ClearLru l" for l] ClearLru_ok)

lemma cacheStep_ok:
  assumes c: "cacheOk c" and sz: "\<And>p. 0 \<le> sz p"
  shows "cacheOk (cacheStep sz c x)"
proof -
  have p: "lruInv (pg_lru (ca_pages c))" and s: "countsOk (ca_counts c)"
    and tm: "ca_timers c = (if ca_throttled c then 1 else 0)"
    using c by (auto simp: cacheOk_def)
  have upd: "cacheOk (c\<lparr>ca_pages := P, ca_counts := S, ca_gen := g\<rparr>)" if "lruInv (pg_lru P)" "countsOk S" for P S g
    using that tm by (simp add: cacheOk_def)
  have pag: "cacheOk (c\<lparr>ca_pages := P\<rparr>)" "cacheOk (c\<lparr>ca_pages := P, ca_gen := g\<rparr>)" if "lruInv (pg_lru P)" for P g
    using that tm s by (simp_all add: cacheOk_def)
  have cnt: "cacheOk (c\<lparr>ca_counts := S\<rparr>)" if "countsOk S" for S
    using that tm p by (simp add: cacheOk_def)
  note ok = upd pag cnt pages_ok [OF p] countsOk_put [OF s] countsOk_get [OF s] countsOk_drop [OF s] countsOk_clear
    countsOk_mark [OF s] sz
  show ?thesis
  proof (cases x)
    case CallTick
    then show ?thesis using p s tm by (auto simp: emitTick_def Let_def cacheOk_def)
  next
    case CallSubscribe
    then show ?thesis using c by (simp add: OnStatsChanged_def cacheOk_def)
  next
    case (CallUnsubscribe i)
    then show ?thesis using c by (simp add: unsubscribe_def cacheOk_def)
  qed (simp_all add: cache_defs case_prod_beta countDropTarget_def countDropConnection_def ok c)
qed

lemma NewCache_ok: "cacheOk (NewCache n)"
  by (simp add: cacheOk_def countsOk_def NewCache_def newPageStore_def newCountStore_def configureBudget_def
      NewByteLru_inv budget_inv NewByteLru_ok)

lemma cacheRun_ok: "cacheOk c \<Longrightarrow> (\<And>p. 0 \<le> sz p) \<Longrightarrow> cacheOk (cacheRun sz c cs)"
  by (induction cs arbitrary: c) (simp_all add: cacheStep_ok)

section \<open>Statistics\<close>

text \<open>
  The listeners have seen the current statistics, or a timer will show them.  Every call that changes the
  statistics schedules an emission, with one exception: a count lookup that drops an expired entry.
\<close>

definition statsSeen :: "CacheStats \<Rightarrow> 'p Cache \<Rightarrow> bool" where
  "statsSeen s0 c \<longleftrightarrow> ca_throttled c \<or> currentStats c = (case ca_lastEmitted c of None \<Rightarrow> s0 | Some s \<Rightarrow> s)"

fun quietCount :: "'p Cache \<Rightarrow> 'p CacheCall \<Rightarrow> bool" where
  "quietCount c (CallCount conn path flt now) =
     (SizeLru (ca_counts (snd (CountCached conn path flt now c))) = SizeLru (ca_counts c))"
| "quietCount c _ = True"

fun quietCounts :: "('p \<Rightarrow> int) \<Rightarrow> 'p Cache \<Rightarrow> 'p CacheCall list \<Rightarrow> bool" where
  "quietCounts sz c [] = True"
| "quietCounts sz c (x # xs) = (quietCount c x \<and> quietCounts sz (cacheStep sz c x) xs)"

lemma statsSeen_scheduled [simp]: "statsSeen s0 (scheduleEmit c)"
  by (simp add: statsSeen_def scheduleEmit_def)

lemma statsSeen_step:
  assumes "statsSeen s0 c" and "quietCount c x"
  shows "statsSeen s0 (cacheStep sz c x)"
proof (cases x)
  case (CallCount conn path flt now)
  then show ?thesis
    using assms by (simp add: statsSeen_def currentStats_def CountCached_def case_prod_beta)
next
  case CallTick
  then show ?thesis
    using assms by (auto simp: statsSeen_def emitTick_def Let_def currentStats_def)
qed (use assms in \<open>auto simp: cache_defs case_prod_beta statsSeen_def currentStats_def scheduleEmit_def\<close>)

lemma statsSeen_run: "statsSeen s0 c \<Longrightarrow> quietCounts sz c cs \<Longrightarrow> statsSeen s0 (cacheRun sz c cs)"
  by (induction cs arbitrary: c) (simp_all add: statsSeen_step)

section \<open>Properties\<close>

text \<open>
  C5: a result that was being fetched while its target was invalidated is never cached.  Between taking the
  generation and storing the result any calls may run (fewer than 2^64 of them): the page and the
  count are stored exactly when none of those calls was a drop, a mutation, a disconnect of the
  target's connection or a clear; otherwise the cache is left as it is.
\<close>

theorem stale_result_never_cached:
  assumes "length cs < 2 ^ 64" and "c' = cacheRun sz c cs" and "gen = CurrentGeneration (rq_ConnectionID req) (rq_Path req) c"
  shows "StorePageIfCurrent sz key label req p gen now c' =
      (if \<exists>x\<in>set cs. invalidates (rq_ConnectionID req) (rq_Path req) x then c' else StorePage sz key label req p now c') \<and>
    StoreCountIfCurrent (rq_ConnectionID req) (rq_Path req) flt v exact gen now c' =
      (if \<exists>x\<in>set cs. invalidates (rq_ConnectionID req) (rq_Path req) x then c'
       else StoreCount (rq_ConnectionID req) (rq_Path req) flt v exact now c')"
  using snapshot_current [OF assms(1), of "rq_ConnectionID req" "rq_Path req" sz c] assms(2,3)
  by (auto simp: StorePageIfCurrent_def StoreCountIfCurrent_def StorePage_def StoreCount_def CurrentGeneration_def)

definition demoRequest :: ReadRequest where
  "demoRequest =
     \<lparr>rq_ConnectionID = ''c1'', rq_Path = ''db/t'', rq_Projection = None, rq_Filter = None, rq_Sort = None,
      rq_PageSize = 100, rq_Cursor = \<lparr>cu_Mode = ''offset'', cu_Offset = 0, cu_Token = []\<rparr>\<rparr>"

theorem stale_result_never_cached_witness:
  "StorePageIfCurrent int ''k'' ''l'' demoRequest 7 (CurrentGeneration ''c1'' ''db/t'' (NewCache 64 :: nat Cache))
     5 (cacheRun int (NewCache 64) [CallReadPage ''k'', CallInvalidateAfterMutation ''c1'' ''db/t'']) =
   cacheRun int (NewCache 64) [CallReadPage ''k'', CallInvalidateAfterMutation ''c1'' ''db/t'']"
  using stale_result_never_cached [OF _ refl refl, where sz = int and c = "NewCache 64"
      and cs = "[CallReadPage ''k'', CallInvalidateAfterMutation ''c1'' ''db/t'']" and req = demoRequest]
  by (simp add: demoRequest_def)

text \<open>
  a mutation drops exactly the pages of its target and marks exactly its counts stale: no count is lost,
  none changes its number, its age or its place in the eviction order, and nothing of another target is touched.
\<close>

theorem mutation_keeps_counts:
  assumes "\<And>p. 0 \<le> sz p" and "c = cacheRun sz (NewCache n) cs"
  shows "EntriesLru (pg_lru (ca_pages (InvalidateAfterMutation conn path c))) =
      filter (\<lambda>e. \<not> isTarget conn path (le_meta e)) (EntriesLru (pg_lru (ca_pages c))) \<and>
    EntriesLru (ca_counts (InvalidateAfterMutation conn path c)) =
      map (\<lambda>e. if isTarget conn path (le_meta e) then e\<lparr>le_value := (le_value e)\<lparr>cv_stale := True\<rparr>\<rparr> else e)
        (EntriesLru (ca_counts c))"
proof -
  have c: "cacheOk c" using cacheRun_ok [OF NewCache_ok assms(1)] assms(2) by simp
  have 1: "lruView (pg_lru (snd (pageDropTarget conn path (ca_pages c)))) =
      filter (\<lambda>e. \<not> isTarget conn path (le_meta e)) (lruView (pg_lru (ca_pages c)))"
    using lru.delete_where_view [of "pg_lru (ca_pages c)"] c by (simp add: cacheOk_def pageDropTarget_def case_prod_beta)
  have 2: "lruView (snd (markTargetStale conn path (ca_counts c))) = map (staled conn path) (lruView (ca_counts c))"
    using markTargetStale_view(1) c by (auto simp: cacheOk_def countsOk_def)
  have "ca_pages (scheduleEmit d) = ca_pages d" "ca_counts (scheduleEmit d) = ca_counts d" for d :: "'a Cache"
    by (simp_all add: scheduleEmit_def)
  moreover have "staled conn path =
      (\<lambda>e. if isTarget conn path (le_meta e) then e\<lparr>le_value := (le_value e)\<lparr>cv_stale := True\<rparr>\<rparr> else e)"
    by (simp add: fun_eq_iff staled_def)
  ultimately show ?thesis
    unfolding EntriesLru_def InvalidateAfterMutation_def using 1 2 by (simp del: map_map map_eq_conv)
qed

theorem mutation_keeps_counts_witness:
  "EntriesLru (ca_counts (InvalidateAfterMutation ''c1'' ''t'' (cacheRun int (NewCache 64) [CallStoreCount ''c1'' ''t'' None 9 True 5]))) =
   map (\<lambda>e. if isTarget ''c1'' ''t'' (le_meta e) then e\<lparr>le_value := (le_value e)\<lparr>cv_stale := True\<rparr>\<rparr> else e)
     (EntriesLru (ca_counts (cacheRun int (NewCache 64) [CallStoreCount ''c1'' ''t'' None 9 True 5])))"
  using mutation_keeps_counts [OF of_nat_0_le_iff refl, where n = 64 and cs = "[CallStoreCount ''c1'' ''t'' None 9 True 5]"
      and conn = "''c1''" and path = "''t''"] by (rule conjunct2)

text \<open>
  the status display catches up.  After any run from a fresh cache in which no count lookup drops an
  expired entry, exactly one timer is pending or the listeners were last given the current statistics
  (before the first emission, the statistics are those of the fresh cache).
\<close>

theorem stats_reach_listeners:
  fixes sz :: "'p \<Rightarrow> int"
  assumes "\<And>p. 0 \<le> sz p" and "quietCounts sz (NewCache n) cs" and "c = cacheRun sz (NewCache n) cs"
  shows "if ca_throttled c then ca_timers c = 1
    else ca_timers c = 0 \<and>
      currentStats c = (case ca_lastEmitted c of None \<Rightarrow> currentStats (NewCache n :: 'p Cache) | Some s \<Rightarrow> s)"
proof -
  have "statsSeen (currentStats (NewCache n :: 'p Cache)) c"
    unfolding assms(3) by (rule statsSeen_run [OF _ assms(2)]) (simp add: statsSeen_def NewCache_def)
  moreover have "cacheOk c" using cacheRun_ok [OF NewCache_ok assms(1)] assms(3) by simp
  ultimately show ?thesis by (auto simp: statsSeen_def cacheOk_def)
qed

theorem stats_reach_listeners_witness:
  "ca_timers (cacheRun int (NewCache 64) [CallReadPage ''k'', CallClear]) = 1"
proof -
  have "ca_throttled (cacheRun int (NewCache 64) [CallReadPage ''k'', CallClear])"
    by (simp add: cache_defs scheduleEmit_def case_prod_beta)
  moreover have "quietCounts int (NewCache 64) [CallReadPage ''k'', CallClear]" by simp
  ultimately show ?thesis
    using stats_reach_listeners [OF _ _ refl, of int 64 "[CallReadPage ''k'', CallClear]"]
    by (simp only: of_nat_0_le_iff if_True)
qed

text \<open>
  The exception, on a concrete run: a count is stored, the display is told, the count expires and is
  dropped by a lookup; the display still shows one entry and no timer is pending.
\<close>

definition demoExpired :: "nat Cache" where
  "demoExpired =
     cacheRun int (NewCache 64)
       [CallStoreCount ''c1'' ''t'' None 9 True 0, CallTick, CallCount ''c1'' ''t'' None (31 * 60 * 10 ^ 9)]"

lemma expired_count_not_announced:
  "\<not> ca_throttled demoExpired \<and> ca_timers demoExpired = 0 \<and> cs_L3Entries (currentStats demoExpired) = 0 \<and>
   map_option cs_L3Entries (ca_lastEmitted demoExpired) = Some 1"
  by (simp add: demoExpired_def cache_defs scheduleEmit_def NewCache_def newCountStore_def newPageStore_def
      configureBudget_def SetBudget_def NewByteLru_def countPut_def countGet_def countKey_def filterLabel_def SetLru_def
      GetLru_def DeleteLru_def pushBack_def removeElem_def evictToBudget_def listRemove_def listMoveToBack_def
      elemValue_def currentStats_def SizeLru_def L3BudgetBytes_def countEntryBytes_def countDropAfter_def
      countTTL_def Let_def signed_divide_int_def dom_def)

section \<open>Page keys\<close>

text \<open>
  Two requests share a cache key exactly when they differ at most in the order of the projection,
  the white space around the filter, and the spelling of the sort.
\<close>

lemma sort_eq_iff: "sort xs = sort ys \<longleftrightarrow> mset xs = mset (ys :: bytes list)"
  by (metis mset_sort properties_for_sort sorted_sort)

lemma normalizeRequest_eq_iff:
  "normalizeRequest r = normalizeRequest s \<longleftrightarrow>
     rq_ConnectionID r = rq_ConnectionID s \<and> rq_Path r = rq_Path s \<and>
     map_option mset (rq_Projection r) = map_option mset (rq_Projection s) \<and>
     trimmed (filterLabel (rq_Filter r)) = trimmed (filterLabel (rq_Filter s)) \<and>
     canonicalSort (rq_Sort r) = canonicalSort (rq_Sort s) \<and>
     rq_PageSize r = rq_PageSize s \<and> rq_Cursor r = rq_Cursor s"
proof -
  have "trimmed [] = []" by (simp add: trimmed_def)
  then have "nq_Filter (normalizeRequest r) = nq_Filter (normalizeRequest s) \<longleftrightarrow>
      trimmed (filterLabel (rq_Filter r)) = trimmed (filterLabel (rq_Filter s))"
    by (auto simp: normalizeRequest_def filterLabel_def split: option.splits)
  moreover have "map_option sort (rq_Projection r) = map_option sort (rq_Projection s) \<longleftrightarrow>
      map_option mset (rq_Projection r) = map_option mset (rq_Projection s)"
    by (cases "rq_Projection r"; cases "rq_Projection s") (simp_all add: sort_eq_iff)
  ultimately show ?thesis by (auto simp: normalizeRequest_def)
qed

text \<open>
  The canonical text of a structured sort does not separate its parts safely: one term on a column
  named \<^verbatim>\<open>a:asc,b\<close> reads like two terms.
\<close>

lemma canonicalSort_collision:
  "canonicalSort (Some \<lparr>so_Kind = ''structured'', so_Terms = [\<lparr>tm_Column = ''a'', tm_Direction = ''asc''\<rparr>,
       \<lparr>tm_Column = ''b'', tm_Direction = ''desc''\<rparr>], so_Text = []\<rparr>) =
   canonicalSort (Some \<lparr>so_Kind = ''structured'', so_Terms = [\<lparr>tm_Column = ''a:asc,b'', tm_Direction = ''desc''\<rparr>],
       so_Text = []\<rparr>)"
  by (simp add: canonicalSort_def)

end
