(* ===== verification/ReviewRanges.thy ===== *)
theory ReviewRanges
  imports DiffParse
begin

text \<open>
  \<^verbatim>\<open>gitreview/ranges.go\<close> and \<^verbatim>\<open>gitreview/project.go\<close>: the algebra of reviewed line ranges and their
  projection through a patch.  A range is a pair of \<^typ>\<open>int\<close> ends.  The operations come twice:
  with the 64-bit arithmetic of Go's \<^verbatim>\<open>int\<close> written out (\<open>Normalize64\<close> and the like, the code of
  \<^verbatim>\<open>ranges.go\<close>), and over unbounded integers (\<open>Normalize\<close> and the like), their specification, which
  the projection is built on and whose lines are bounded by the file's length.  The two agree on ranges
  that end before the largest \<^verbatim>\<open>int\<close>.  \<^verbatim>\<open>sort.Slice\<close> may order equal starts in any way: the
  definitions use the stable order, and the result is shown not to depend on it.
\<close>

section \<open>Ranges\<close>

record LineRange =
  lr_Start :: int
  lr_End :: int

abbreviation mkRange :: "int \<Rightarrow> int \<Rightarrow> LineRange" where
  "mkRange s e \<equiv> \<lparr>lr_Start = s, lr_End = e\<rparr>"

text \<open>The loop of \<^verbatim>\<open>Normalize\<close> over the sorted ranges, with the last output range apart.\<close>

fun mergeLoop :: "LineRange \<Rightarrow> LineRange list \<Rightarrow> LineRange list" where
  "mergeLoop prev [] = [prev]"
| "mergeLoop prev (r # rs) =
     (if lr_Start r \<le> lr_End prev + 1
      then mergeLoop (if lr_End r > lr_End prev then prev\<lparr>lr_End := lr_End r\<rparr> else prev) rs
      else prev # mergeLoop r rs)"

definition mergeSorted :: "LineRange list \<Rightarrow> LineRange list" where
  "mergeSorted rs = (case rs of [] \<Rightarrow> [] | r # rest \<Rightarrow> mergeLoop r rest)"

definition cleanRanges :: "LineRange list \<Rightarrow> LineRange list" where
  "cleanRanges rs = filter (\<lambda>r. lr_End r \<ge> lr_Start r) rs"

definition Normalize :: "LineRange list \<Rightarrow> LineRange list" where
  "Normalize rs = mergeSorted (sort_key lr_Start (cleanRanges rs))"

definition UnionRanges :: "LineRange list \<Rightarrow> LineRange list \<Rightarrow> LineRange list" where
  "UnionRanges a b = Normalize (a @ b)"

text \<open>The inner loop of \<^verbatim>\<open>Subtract\<close>: what is left of \<open>cur\<close>, and the pieces cut off before it.\<close>

fun subtractLoop :: "LineRange \<Rightarrow> LineRange list \<Rightarrow> LineRange list" where
  "subtractLoop cur [] = (if lr_Start cur \<le> lr_End cur then [cur] else [])"
| "subtractLoop cur (br # bs) =
     (if lr_Start cur > lr_End cur then []
      else if lr_End br < lr_Start cur \<or> lr_Start br > lr_End cur then subtractLoop cur bs
      else
        (if lr_Start br > lr_Start cur then [mkRange (lr_Start cur) (lr_Start br - 1)] else []) @
        subtractLoop
          (if lr_End br < lr_End cur then cur\<lparr>lr_Start := lr_End br + 1\<rparr> else cur\<lparr>lr_Start := lr_End cur + 1\<rparr>) bs)"

definition Subtract :: "LineRange list \<Rightarrow> LineRange list \<Rightarrow> LineRange list" where
  "Subtract a b = (let bn = Normalize b in Normalize (concat (map (\<lambda>ar. subtractLoop ar bn) (Normalize a))))"

definition IntersectRanges :: "LineRange list \<Rightarrow> LineRange list \<Rightarrow> LineRange list" where
  "IntersectRanges a b = Subtract a (Subtract a b)"

definition Expand :: "int \<Rightarrow> LineRange list" where
  "Expand lineCount = (if lineCount \<le> 0 then [] else [mkRange 1 lineCount])"

definition CountLines :: "LineRange list \<Rightarrow> int" where
  "CountLines rs = sum_list (map (\<lambda>r. lr_End r - lr_Start r + 1) (Normalize rs))"

text \<open>The same operations as the code computes them: every sum is taken modulo \<open>2 ^ 64\<close>.\<close>

definition maxInt :: int where
  "maxInt = 2 ^ 63 - 1"

fun mergeLoop64 :: "LineRange \<Rightarrow> LineRange list \<Rightarrow> LineRange list" where
  "mergeLoop64 prev [] = [prev]"
| "mergeLoop64 prev (r # rs) =
     (if lr_Start r \<le> wrap64 (lr_End prev + 1)
      then mergeLoop64 (if lr_End r > lr_End prev then prev\<lparr>lr_End := lr_End r\<rparr> else prev) rs
      else prev # mergeLoop64 r rs)"

definition mergeSorted64 :: "LineRange list \<Rightarrow> LineRange list" where
  "mergeSorted64 rs = (case rs of [] \<Rightarrow> [] | r # rest \<Rightarrow> mergeLoop64 r rest)"

definition Normalize64 :: "LineRange list \<Rightarrow> LineRange list" where
  "Normalize64 rs = mergeSorted64 (sort_key lr_Start (cleanRanges rs))"

definition UnionRanges64 :: "LineRange list \<Rightarrow> LineRange list \<Rightarrow> LineRange list" where
  "UnionRanges64 a b = Normalize64 (a @ b)"

fun subtractLoop64 :: "LineRange \<Rightarrow> LineRange list \<Rightarrow> LineRange list" where
  "subtractLoop64 cur [] = (if lr_Start cur \<le> lr_End cur then [cur] else [])"
| "subtractLoop64 cur (br # bs) =
     (if lr_Start cur > lr_End cur then []
      else if lr_End br < lr_Start cur \<or> lr_Start br > lr_End cur then subtractLoop64 cur bs
      else
        (if lr_Start br > lr_Start cur then [mkRange (lr_Start cur) (wrap64 (lr_Start br - 1))] else []) @
        subtractLoop64
          (if lr_End br < lr_End cur then cur\<lparr>lr_Start := wrap64 (lr_End br + 1)\<rparr>
           else cur\<lparr>lr_Start := wrap64 (lr_End cur + 1)\<rparr>) bs)"

definition Subtract64 :: "LineRange list \<Rightarrow> LineRange list \<Rightarrow> LineRange list" where
  "Subtract64 a b = (let bn = Normalize64 b in Normalize64 (concat (map (\<lambda>ar. subtractLoop64 ar bn) (Normalize64 a))))"

definition IntersectRanges64 :: "LineRange list \<Rightarrow> LineRange list \<Rightarrow> LineRange list" where
  "IntersectRanges64 a b = Subtract64 a (Subtract64 a b)"

definition CountLines64 :: "LineRange list \<Rightarrow> int" where
  "CountLines64 rs =
     foldl (\<lambda>total' r. wrap64 (total' + wrap64 (wrap64 (lr_End r - lr_Start r) + 1))) 0 (Normalize64 rs)"

section \<open>Projection\<close>

definition intersectRange :: "LineRange \<Rightarrow> int \<Rightarrow> int \<Rightarrow> LineRange option" where
  "intersectRange r lo hi =
     (let s = max (lr_Start r) lo; e = min (lr_End r) hi in if s > e then None else Some (mkRange s e))"

fun pointsLoop :: "int \<Rightarrow> int \<Rightarrow> int list \<Rightarrow> LineRange list" where
  "pointsLoop s prev [] = [mkRange s prev]"
| "pointsLoop s prev (p # ps) = (if p = prev + 1 then pointsLoop s p ps else mkRange s prev # pointsLoop p p ps)"

definition pointsToRanges :: "int list \<Rightarrow> LineRange list" where
  "pointsToRanges ps = (case ps of [] \<Rightarrow> [] | p # rest \<Rightarrow> pointsLoop p p rest)"

text \<open>The new-side numbers of the context lines whose old-side number lies in \<open>[lo, hi]\<close>; a context line without
  a new-side number would be a nil dereference, \<^const>\<open>None\<close>.\<close>

fun hunkPoints :: "int \<Rightarrow> int \<Rightarrow> DiffLine list \<Rightarrow> int list option" where
  "hunkPoints lo hi [] = Some []"
| "hunkPoints lo hi (l # ls) =
     (case dl_OldLine l of
        None \<Rightarrow> hunkPoints lo hi ls
      | Some ol \<Rightarrow>
          if dl_Kind l \<noteq> LineContext \<or> ol < lo \<or> ol > hi then hunkPoints lo hi ls
          else case dl_NewLine l of None \<Rightarrow> None | Some n \<Rightarrow> map_option (\<lambda>ps. n # ps) (hunkPoints lo hi ls))"

definition mapWithinHunk :: "DiffHunk \<Rightarrow> int \<Rightarrow> int \<Rightarrow> LineRange list option" where
  "mapWithinHunk h lo hi = map_option pointsToRanges (hunkPoints lo hi (dh_Lines h))"

definition shiftRange :: "int \<Rightarrow> LineRange option \<Rightarrow> LineRange list" where
  "shiftRange off x = (case x of None \<Rightarrow> [] | Some r \<Rightarrow> [mkRange (lr_Start r + off) (lr_End r + off)])"

fun projectLoop :: "LineRange \<Rightarrow> DiffHunk list \<Rightarrow> int \<Rightarrow> int \<Rightarrow> LineRange list option" where
  "projectLoop r [] off prevOldEnd = Some (shiftRange off (intersectRange r (prevOldEnd + 1) maxInt))"
| "projectLoop r (h # hs) off prevOldEnd =
     (let hunkOldEnd = dh_OldStart h + dh_OldLines h - 1;
          before = shiftRange off (intersectRange r (prevOldEnd + 1) (dh_OldStart h - 1));
          inside = (case intersectRange r (dh_OldStart h) hunkOldEnd of
                      None \<Rightarrow> Some []
                    | Some i \<Rightarrow> mapWithinHunk h (lr_Start i) (lr_End i)) in
      case inside of
        None \<Rightarrow> None
      | Some ins \<Rightarrow>
          map_option (\<lambda>out. before @ ins @ out)
            (projectLoop r hs (off + (dh_NewLines h - dh_OldLines h))
               (if hunkOldEnd > prevOldEnd then hunkOldEnd else prevOldEnd)))"

definition projectOne :: "LineRange \<Rightarrow> DiffHunk list \<Rightarrow> LineRange list option" where
  "projectOne r hunks = projectLoop r hunks 0 0"

definition clampToLineCount :: "LineRange list \<Rightarrow> int \<Rightarrow> LineRange list" where
  "clampToLineCount rs newLineCount =
     (if newLineCount \<le> 0 then []
      else
        Normalize
          (map (\<lambda>r. mkRange (lr_Start r) (if lr_End r > newLineCount then newLineCount else lr_End r))
             (filter (\<lambda>r. \<not> lr_Start r > newLineCount) rs)))"

fun projectAll :: "LineRange list \<Rightarrow> DiffHunk list \<Rightarrow> LineRange list option" where
  "projectAll [] hunks = Some []"
| "projectAll (r # rs) hunks =
     (case projectOne r hunks of None \<Rightarrow> None | Some x \<Rightarrow> map_option (\<lambda>out. x @ out) (projectAll rs hunks))"

definition ProjectRanges :: "LineRange list \<Rightarrow> DiffHunk list \<Rightarrow> int \<Rightarrow> LineRange list option" where
  "ProjectRanges rs hunks newLineCount =
     (let normalized = Normalize rs in
      if normalized = [] then Some []
      else if hunks = [] then Some (clampToLineCount normalized newLineCount)
      else map_option (\<lambda>out. clampToLineCount (Normalize out) newLineCount) (projectAll normalized hunks))"

definition deletedLines :: "DiffHunk list \<Rightarrow> LineRange list" where
  "deletedLines hunks =
     concat (map (\<lambda>h. List.map_filter
                        (\<lambda>l. if dl_Kind l = LineDel then map_option (\<lambda>n. mkRange n n) (dl_OldLine l) else None)
                        (dh_Lines h)) hunks)"

definition DeletedRanges :: "LineRange list \<Rightarrow> DiffHunk list \<Rightarrow> LineRange list" where
  "DeletedRanges rs hunks = IntersectRanges (Normalize rs) (Normalize (deletedLines hunks))"

section \<open>Ranges as sets of lines\<close>

definition lineSet :: "LineRange \<Rightarrow> int set" where
  "lineSet r = {lr_Start r..lr_End r}"

definition covers :: "LineRange list \<Rightarrow> int set" where
  "covers rs = (\<Union>r\<in>set rs. lineSet r)"

text \<open>The canonical form: non-empty ranges in order, with a gap of at least one line between two of them.\<close>

fun canonical :: "LineRange list \<Rightarrow> bool" where
  "canonical [] = True"
| "canonical [r] = (lr_Start r \<le> lr_End r)"
| "canonical (r # s # rs) = (lr_Start r \<le> lr_End r \<and> lr_End r + 1 < lr_Start s \<and> canonical (s # rs))"

lemma covers_simps [simp]:
  "covers [] = {}" "covers (r # rs) = lineSet r \<union> covers rs" "covers (xs @ ys) = covers xs \<union> covers ys"
  by (auto simp: covers_def)

lemma covers_concat: "covers (concat xss) = (\<Union>xs\<in>set xss. covers xs)"
  by (induction xss) auto

lemma covers_mset: "mset xs = mset ys \<Longrightarrow> covers xs = covers ys"
  using mset_eq_setD [of xs ys] by (simp add: covers_def)

lemma canonical_Cons:
  "canonical (r # rs) \<longleftrightarrow> lr_Start r \<le> lr_End r \<and> canonical rs \<and> (\<forall>s\<in>set rs. lr_End r + 1 < lr_Start s)"
proof (induction rs arbitrary: r)
  case (Cons s rs)
  then show ?case by (auto dest: Cons.IH [THEN iffD1])
qed simp

lemma canonical_above: "canonical (r # rs) \<Longrightarrow> x \<in> covers rs \<Longrightarrow> lr_End r + 1 < x"
  by (auto simp: canonical_Cons covers_def lineSet_def)

lemma canonical_ordered: "canonical rs \<Longrightarrow> r \<in> set rs \<Longrightarrow> lr_Start r \<le> lr_End r"
  by (induction rs) (auto simp: canonical_Cons)

lemma canonical_nonempty: "canonical (r # rs) \<Longrightarrow> lineSet r \<noteq> {}"
  by (auto simp: canonical_Cons lineSet_def)

text \<open>A set of lines has one canonical form.\<close>

lemma canonical_head:
  assumes "canonical (r # rs)"
  shows "lr_Start r \<in> covers (r # rs)" and "x \<in> covers (r # rs) \<Longrightarrow> lr_Start r \<le> x"
    and "lr_Start r \<le> x \<Longrightarrow> x \<le> lr_End r \<Longrightarrow> x \<in> covers (r # rs)" and "lr_End r + 1 \<notin> covers (r # rs)"
proof -
  have r: "lr_Start r \<le> lr_End r" using assms by (simp add: canonical_Cons)
  then show "lr_Start r \<in> covers (r # rs)" "lr_Start r \<le> x \<Longrightarrow> x \<le> lr_End r \<Longrightarrow> x \<in> covers (r # rs)"
    by (auto simp: lineSet_def)
  show "x \<in> covers (r # rs) \<Longrightarrow> lr_Start r \<le> x"
    using canonical_above [OF assms] r by (fastforce simp: lineSet_def)
  show "lr_End r + 1 \<notin> covers (r # rs)"
    using canonical_above [OF assms, of "lr_End r + 1"] by (auto simp: lineSet_def)
qed

lemma covers_tail:
  assumes "canonical (r # rs)"
  shows "covers rs = covers (r # rs) - lineSet r"
proof -
  have "x \<notin> lineSet r" if "x \<in> covers rs" for x
    using canonical_above [OF assms that] by (simp add: lineSet_def)
  then show ?thesis by auto
qed

lemma canonical_unique: "canonical xs \<Longrightarrow> canonical ys \<Longrightarrow> covers xs = covers ys \<Longrightarrow> xs = ys"
proof (induction xs arbitrary: ys)
  case Nil
  then show ?case using canonical_head(1) by (cases ys) force+
next
  case (Cons r rs)
  then obtain s ss where ys: "ys = s # ss" using canonical_head(1) by (cases ys) force+
  have c: "canonical (r # rs)" "canonical (s # ss)" and eq: "covers (r # rs) = covers (s # ss)"
    using Cons.prems ys by simp_all
  have st: "lr_Start r = lr_Start s"
    using canonical_head(1,2) [OF c(1)] canonical_head(1,2) [OF c(2)] eq by (metis antisym)
  have "\<not> lr_End r < lr_End s"
    using canonical_head(4) [OF c(1)] canonical_head(3) [OF c(2), of "lr_End r + 1"] c(1) eq st
    by (auto simp: canonical_Cons)
  moreover have "\<not> lr_End s < lr_End r"
    using canonical_head(4) [OF c(2)] canonical_head(3) [OF c(1), of "lr_End s + 1"] c(2) eq st
    by (auto simp: canonical_Cons)
  ultimately have rs: "r = s" using st by simp
  have "covers rs = covers ss"
    using covers_tail [OF c(1)] covers_tail [OF c(2)] rs eq by metis
  with Cons.IH [of ss] c rs ys show ?case by (simp add: canonical_Cons)
qed

section \<open>Normalisation\<close>

lemma mergeLoop_not_Nil: "mergeLoop prev rs \<noteq> []"
  by (induction prev rs rule: mergeLoop.induct) simp_all

lemma mergeLoop_spec:
  assumes "lr_Start prev \<le> lr_End prev" and "\<forall>r\<in>set rs. lr_Start r \<le> lr_End r \<and> lr_Start prev \<le> lr_Start r"
    and "sorted (map lr_Start rs)"
  shows "canonical (mergeLoop prev rs) \<and> covers (mergeLoop prev rs) = lineSet prev \<union> covers rs \<and>
    lr_Start (hd (mergeLoop prev rs)) = lr_Start prev"
  using assms
proof (induction prev rs rule: mergeLoop.induct)
  case (2 prev r rs)
  show ?case
  proof (cases "lr_Start r \<le> lr_End prev + 1")
    case True
    let ?p = "if lr_End r > lr_End prev then prev\<lparr>lr_End := lr_End r\<rparr> else prev"
    have "lineSet ?p = lineSet prev \<union> lineSet r"
      using "2.prems" True by (auto simp: lineSet_def)
    with "2.IH"(1) [OF True] "2.prems" True show ?thesis by auto
  next
    case False
    with "2.IH"(2) "2.prems" have ih: "canonical (mergeLoop r rs)" "covers (mergeLoop r rs) = lineSet r \<union> covers rs"
      "lr_Start (hd (mergeLoop r rs)) = lr_Start r" by auto
    obtain s ss where m: "mergeLoop r rs = s # ss" using mergeLoop_not_Nil by (meson neq_Nil_conv)
    from ih False "2.prems"(1) m show ?thesis by auto
  qed
qed auto

lemma mergeSorted_spec:
  assumes "\<forall>r\<in>set rs. lr_Start r \<le> lr_End r" and "sorted (map lr_Start rs)"
  shows "canonical (mergeSorted rs) \<and> covers (mergeSorted rs) = covers rs"
  using assms mergeLoop_spec [of "hd rs" "tl rs"] by (cases rs) (auto simp: mergeSorted_def)

lemma covers_clean: "covers (cleanRanges rs) = covers rs"
  by (auto simp: covers_def cleanRanges_def lineSet_def)

lemma Normalize_spec: "canonical (Normalize rs)" "covers (Normalize rs) = covers rs"
proof -
  have "covers (sort_key lr_Start (cleanRanges rs)) = covers rs"
    by (simp add: covers_mset [of _ "cleanRanges rs"] covers_clean)
  then show "canonical (Normalize rs)" "covers (Normalize rs) = covers rs"
    using mergeSorted_spec [of "sort_key lr_Start (cleanRanges rs)"] by (auto simp: Normalize_def cleanRanges_def)
qed

lemma Normalize_canonical: "canonical rs \<Longrightarrow> Normalize rs = rs"
  by (intro canonical_unique) (simp_all add: Normalize_spec)

lemma Normalize_order_free:
  assumes "mset ys = mset (cleanRanges rs)" and "sorted (map lr_Start ys)"
  shows "mergeSorted ys = Normalize rs"
proof (rule canonical_unique)
  have "\<forall>r\<in>set ys. lr_Start r \<le> lr_End r"
    using mset_eq_setD [OF assms(1)] by (auto simp: cleanRanges_def)
  then show "canonical (mergeSorted ys)" "covers (mergeSorted ys) = covers (Normalize rs)"
    using mergeSorted_spec [OF _ assms(2)] covers_mset [OF assms(1)] by (simp_all add: covers_clean Normalize_spec)
qed (rule Normalize_spec)

section \<open>Difference, intersection and size\<close>

lemma subtractLoop_covers: "canonical bs \<Longrightarrow> covers (subtractLoop cur bs) = lineSet cur - covers bs"
proof (induction cur bs rule: subtractLoop.induct)
  case (2 cur br bs)
  have c: "canonical bs" "lr_Start br \<le> lr_End br" using "2.prems" by (simp_all add: canonical_Cons)
  have above: "x \<in> covers bs \<Longrightarrow> lr_End br + 1 < x" for x using canonical_above [OF "2.prems"] .
  consider (over) "lr_Start cur > lr_End cur"
    | (skip) "\<not> lr_Start cur > lr_End cur" "lr_End br < lr_Start cur \<or> lr_Start br > lr_End cur"
    | (cut) "\<not> lr_Start cur > lr_End cur" "\<not> (lr_End br < lr_Start cur \<or> lr_Start br > lr_End cur)" by blast
  then show ?case
  proof cases
    case over
    then show ?thesis by (simp add: lineSet_def)
  next
    case skip
    with "2.IH"(1) [OF skip c(1)] show ?thesis by (auto simp: lineSet_def)
  next
    case cut
    let ?cur = "if lr_End br < lr_End cur then cur\<lparr>lr_Start := lr_End br + 1\<rparr> else cur\<lparr>lr_Start := lr_End cur + 1\<rparr>"
    have "covers (subtractLoop cur (br # bs)) = {lr_Start cur..lr_Start br - 1} \<union> (lineSet ?cur - covers bs)"
      using "2.IH"(2) [OF cut c(1)] cut by (auto simp: lineSet_def)
    also have "\<dots> = lineSet cur - covers (br # bs)"
      using cut c(2) by (auto simp: lineSet_def dest: above)
    finally show ?thesis .
  qed
qed (auto simp: lineSet_def)

lemma Subtract_spec: "canonical (Subtract a b)" "covers (Subtract a b) = covers a - covers b"
proof -
  show "canonical (Subtract a b)" by (simp add: Subtract_def Let_def Normalize_spec)
  have "covers (Subtract a b) = (\<Union>r\<in>set (Normalize a). lineSet r - covers (Normalize b))"
    by (simp add: Subtract_def Let_def Normalize_spec(2) covers_concat subtractLoop_covers Normalize_spec(1))
  also have "\<dots> = covers (Normalize a) - covers (Normalize b)" by (auto simp: covers_def)
  finally show "covers (Subtract a b) = covers a - covers b" by (simp add: Normalize_spec)
qed

lemma IntersectRanges_spec: "canonical (IntersectRanges a b)" "covers (IntersectRanges a b) = covers a \<inter> covers b"
  by (auto simp: IntersectRanges_def Subtract_spec)

lemma covers_finite [simp]: "finite (covers rs)"
  by (simp add: covers_def lineSet_def)

lemma canonical_card: "canonical rs \<Longrightarrow> int (card (covers rs)) = sum_list (map (\<lambda>r. lr_End r - lr_Start r + 1) rs)"
proof (induction rs)
  case (Cons r rs)
  have "lineSet r \<inter> covers rs = {}" using canonical_above [OF Cons.prems] by (fastforce simp: lineSet_def)
  moreover have "finite (lineSet r)" by (simp add: lineSet_def)
  moreover have "int (card (lineSet r)) = lr_End r - lr_Start r + 1" using Cons.prems by (simp add: canonical_Cons lineSet_def)
  ultimately show ?case using Cons by (simp add: card_Un_disjoint canonical_Cons)
qed simp

lemma set_algebra:
  "covers (UnionRanges a b) = covers a \<union> covers b" "canonical (UnionRanges a b)"
  "CountLines a = int (card (covers a))" "Normalize a = Normalize b \<longleftrightarrow> covers a = covers b"
proof -
  show "Normalize a = Normalize b \<longleftrightarrow> covers a = covers b"
    using canonical_unique [OF Normalize_spec(1) Normalize_spec(1), of a b] Normalize_spec(2) by metis
  show "CountLines a = int (card (covers a))"
    using canonical_card [OF Normalize_spec(1), of a] by (simp add: CountLines_def Normalize_spec(2))
qed (simp_all add: UnionRanges_def Normalize_spec)

section \<open>The operations in 64 bits\<close>

text \<open>Ranges of machine integers that end before the largest one, so that the line after a range exists.\<close>

definition goRange :: "LineRange \<Rightarrow> bool" where
  "goRange r \<longleftrightarrow> - (2 ^ 63) \<le> lr_Start r \<and> lr_End r < maxInt"

definition goRanges :: "LineRange list \<Rightarrow> bool" where
  "goRanges rs \<longleftrightarrow> list_all goRange rs"

lemma goRanges_simps [simp]:
  "goRanges []" "goRanges (r # rs) \<longleftrightarrow> goRange r \<and> goRanges rs" "goRanges (xs @ ys) \<longleftrightarrow> goRanges xs \<and> goRanges ys"
  by (simp_all add: goRanges_def)

lemma wrap64_next:
  "goRange r \<Longrightarrow> lr_Start r \<le> lr_End r \<Longrightarrow> wrap64 (lr_End r + 1) = lr_End r + 1"
  by (intro wrap64_id) (auto simp: goRange_def maxInt_def)

lemma mergeLoop64_eq:
  assumes "goRange prev" and "lr_Start prev \<le> lr_End prev" and "goRanges rs" and "\<forall>r\<in>set rs. lr_Start r \<le> lr_End r"
  shows "mergeLoop64 prev rs = mergeLoop prev rs \<and> goRanges (mergeLoop prev rs)"
  using assms
proof (induction prev rs rule: mergeLoop.induct)
  case (2 prev r rs)
  let ?p = "if lr_End r > lr_End prev then prev\<lparr>lr_End := lr_End r\<rparr> else prev"
  have "goRange ?p" "lr_Start ?p \<le> lr_End ?p" using "2.prems" by (auto simp: goRange_def)
  then show ?case using "2.IH" "2.prems" wrap64_next [of prev] by simp
qed simp

lemma mergeSorted64_eq:
  "goRanges rs \<Longrightarrow> \<forall>r\<in>set rs. lr_Start r \<le> lr_End r \<Longrightarrow> mergeSorted64 rs = mergeSorted rs \<and> goRanges (mergeSorted rs)"
  using mergeLoop64_eq by (cases rs) (auto simp: mergeSorted64_def mergeSorted_def)

lemma Normalize64_eq: "goRanges rs \<Longrightarrow> Normalize64 rs = Normalize rs \<and> goRanges (Normalize rs)"
  unfolding Normalize64_def Normalize_def
  by (intro mergeSorted64_eq) (auto simp: goRanges_def cleanRanges_def list_all_iff)

lemma subtractLoop64_eq:
  "goRange cur \<Longrightarrow> goRanges bs \<Longrightarrow> \<forall>r\<in>set bs. lr_Start r \<le> lr_End r \<Longrightarrow>
   subtractLoop64 cur bs = subtractLoop cur bs \<and> goRanges (subtractLoop cur bs)"
proof (induction cur bs rule: subtractLoop.induct)
  case (2 cur br bs)
  show ?case
  proof (cases "lr_Start cur > lr_End cur \<or> lr_End br < lr_Start cur \<or> lr_Start br > lr_End cur")
    case True
    then show ?thesis using "2.IH"(1) "2.prems" by auto
  next
    case False
    let ?cur = "if lr_End br < lr_End cur then cur\<lparr>lr_Start := lr_End br + 1\<rparr> else cur\<lparr>lr_Start := lr_End cur + 1\<rparr>"
    have w: "wrap64 (lr_End br + 1) = lr_End br + 1" "wrap64 (lr_End cur + 1) = lr_End cur + 1"
      using wrap64_next [of br] wrap64_next [of cur] "2.prems" False by auto
    have "wrap64 (lr_Start br - 1) = lr_Start br - 1" if "lr_Start br > lr_Start cur"
      using that "2.prems" False by (intro wrap64_id) (auto simp: goRange_def maxInt_def)
    moreover have "goRange ?cur" using "2.prems" False by (auto simp: goRange_def)
    then have "subtractLoop64 ?cur bs = subtractLoop ?cur bs \<and> goRanges (subtractLoop ?cur bs)"
      using "2.IH"(2) "2.prems" False by auto
    moreover have "goRange (mkRange (lr_Start cur) (lr_Start br - 1))"
      using "2.prems" False by (auto simp: goRange_def)
    ultimately show ?thesis using False w by auto
  qed
qed auto

lemma Subtract64_eq:
  assumes "goRanges a" and "goRanges b"
  shows "Subtract64 a b = Subtract a b \<and> goRanges (Subtract a b)"
proof -
  let ?a = "Normalize a" and ?b = "Normalize b"
  have a: "goRanges ?a" and b: "goRanges ?b" using assms Normalize64_eq by auto
  have "\<forall>r\<in>set ?b. lr_Start r \<le> lr_End r" using canonical_ordered [OF Normalize_spec(1)] by auto
  then have "subtractLoop64 r ?b = subtractLoop r ?b \<and> goRanges (subtractLoop r ?b)" if "r \<in> set ?a" for r
    using that a b subtractLoop64_eq [of r ?b] by (simp add: goRanges_def list_all_iff)
  then have same: "map (\<lambda>r. subtractLoop64 r ?b) ?a = map (\<lambda>r. subtractLoop r ?b) ?a"
    and bounded: "goRanges (concat (map (\<lambda>r. subtractLoop r ?b) ?a))"
    by (auto simp: goRanges_def list_all_iff)
  have "Normalize64 (concat (map (\<lambda>r. subtractLoop64 r ?b) ?a)) = Subtract a b \<and> goRanges (Subtract a b)"
    unfolding same Subtract_def Let_def by (rule Normalize64_eq [OF bounded])
  then show ?thesis using assms Normalize64_eq by (simp add: Subtract64_def Let_def)
qed

lemma wrap64_add [simp]: "wrap64 (wrap64 a + b) = wrap64 (a + b)" "wrap64 (a + wrap64 b) = wrap64 (a + b)"
proof -
  have "wrap64 (wrap64 x + y) = wrap64 (x + y)" for x y
    using mod_add_left_eq [of "x + 2 ^ 63" "2 ^ 64" y] by (simp add: wrap64_def algebra_simps)
  then show "wrap64 (wrap64 a + b) = wrap64 (a + b)" "wrap64 (a + wrap64 b) = wrap64 (a + b)"
    by (simp_all add: add.commute)
qed

lemma wrap64_sum: "foldl (\<lambda>t r. wrap64 (t + wrap64 (wrap64 (lr_End r - lr_Start r) + 1))) (wrap64 n) rs =
    wrap64 (n + sum_list (map (\<lambda>r. lr_End r - lr_Start r + 1) rs))"
proof (induction rs arbitrary: n)
  case (Cons r rs)
  have "wrap64 (wrap64 n + wrap64 (wrap64 (lr_End r - lr_Start r) + 1)) = wrap64 (n + (lr_End r - lr_Start r + 1))"
    by simp
  then show ?case using Cons [of "n + (lr_End r - lr_Start r + 1)"] by (simp add: add.assoc del: wrap64_add)
qed simp

lemma CountLines64_eq: "goRanges a \<Longrightarrow> CountLines64 a = wrap64 (int (card (covers a)))"
  using wrap64_sum [of 0 "Normalize a"] Normalize64_eq [of a] set_algebra(3) [of a]
  by (simp add: CountLines64_def CountLines_def wrap64_id del: wrap64_add)

text \<open>
  C24: on ranges of 64-bit line numbers that end before the largest one, the operations on ranges are the
  operations on the sets of lines they cover, and every result is in the one canonical form of its
  set, whatever order the sort leaves equal starts in: union, difference and intersection are exact,
  two lists normalise alike exactly when they cover the same lines, and \<open>CountLines\<close> is the number of
  lines covered, modulo the word size, and so exactly that number for lines counted from 1.
\<close>

theorem ranges_are_line_sets:
  assumes "goRanges a" and "goRanges b"
  shows "covers (UnionRanges64 a b) = covers a \<union> covers b \<and> canonical (UnionRanges64 a b) \<and>
   covers (Subtract64 a b) = covers a - covers b \<and> canonical (Subtract64 a b) \<and>
   covers (IntersectRanges64 a b) = covers a \<inter> covers b \<and> canonical (IntersectRanges64 a b) \<and>
   CountLines64 a = wrap64 (int (card (covers a))) \<and>
   (covers a \<subseteq> {1..} \<longrightarrow> CountLines64 a = int (card (covers a))) \<and> covers (Expand n) = {1..n} \<and>
   (Normalize64 a = Normalize64 b \<longleftrightarrow> covers a = covers b) \<and>
   (\<nexists>ys. mset ys = mset (cleanRanges a) \<and> sorted (map lr_Start ys) \<and> mergeSorted64 ys \<noteq> Normalize64 a)"
proof (intro conjI impI)
  note eq = Normalize64_eq [OF assms(1)] Normalize64_eq [OF assms(2)] Subtract64_eq [OF assms]
  have u: "UnionRanges64 a b = UnionRanges a b"
    using Normalize64_eq [of "a @ b"] assms by (simp add: UnionRanges64_def UnionRanges_def)
  then show "covers (UnionRanges64 a b) = covers a \<union> covers b" "canonical (UnionRanges64 a b)"
    by (simp_all add: set_algebra)
  show "covers (Subtract64 a b) = covers a - covers b" "canonical (Subtract64 a b)"
    using eq by (simp_all add: Subtract_spec)
  have "IntersectRanges64 a b = IntersectRanges a b"
    using eq Subtract64_eq [OF assms(1)] by (simp add: IntersectRanges64_def IntersectRanges_def)
  then show "covers (IntersectRanges64 a b) = covers a \<inter> covers b" "canonical (IntersectRanges64 a b)"
    by (simp_all add: IntersectRanges_spec)
  show c: "CountLines64 a = wrap64 (int (card (covers a)))" by (rule CountLines64_eq [OF assms(1)])
  show "CountLines64 a = int (card (covers a))" if "covers a \<subseteq> {1..}"
  proof -
    have "covers a \<subseteq> {1..maxInt}"
      using that assms(1) by (fastforce simp: covers_def lineSet_def goRanges_def list_all_iff goRange_def)
    then have "card (covers a) \<le> card {1..maxInt}" by (intro card_mono) auto
    moreover have "0 \<le> maxInt" by (simp add: maxInt_def)
    ultimately have "int (card (covers a)) \<le> maxInt" by simp
    then show ?thesis using c by (simp add: wrap64_id maxInt_def)
  qed
  show "covers (Expand n) = {1..n}" by (auto simp: Expand_def lineSet_def)
  show "Normalize64 a = Normalize64 b \<longleftrightarrow> covers a = covers b" using eq set_algebra(4) by simp
  have "mergeSorted64 ys = Normalize64 a" if "mset ys = mset (cleanRanges a)" "sorted (map lr_Start ys)" for ys
  proof -
    have s: "set ys = {r \<in> set a. lr_Start r \<le> lr_End r}"
      using mset_eq_setD [OF that(1)] by (simp add: cleanRanges_def)
    have "goRanges ys" using assms(1) unfolding goRanges_def list_all_iff s by simp
    then have "mergeSorted64 ys = mergeSorted ys" using mergeSorted64_eq [of ys] unfolding s by simp
    then show ?thesis using eq Normalize_order_free [OF that] by simp
  qed
  then show "\<nexists>ys. mset ys = mset (cleanRanges a) \<and> sorted (map lr_Start ys) \<and> mergeSorted64 ys \<noteq> Normalize64 a" by blast
qed

theorem ranges_are_line_sets_witness:
  "covers (Subtract64 [mkRange 1 9] [mkRange 3 4]) = {1..9} - {3..4}
   \<and> CountLines64 [mkRange 1 9] = int (card (covers [mkRange 1 9]))"
proof -
  have "goRanges [mkRange 1 9]" "goRanges [mkRange 3 4]" by (simp_all add: goRange_def maxInt_def)
  from ranges_are_line_sets [OF this] show ?thesis by (auto simp: lineSet_def wrap64_id)
qed

text \<open>
  The bound is needed, and nothing on the way from the wire checks it: at the largest \<^verbatim>\<open>int\<close> the sum
  wraps, an overlapping range is left unmerged, and a whole range counts no line at all.
\<close>

lemma largest_int_breaks_ranges:
  "Normalize64 [mkRange 1 maxInt, mkRange 5 6] = [mkRange 1 maxInt, mkRange 5 6]
   \<and> CountLines64 [mkRange (- (2 ^ 63)) maxInt] = 0
   \<and> Subtract64 [mkRange 1 maxInt] [mkRange 1 maxInt] = [mkRange (- (2 ^ 63)) maxInt]"
  by (simp add: Normalize64_def CountLines64_def Subtract64_def mergeSorted64_def cleanRanges_def maxInt_def wrap64_def)

section \<open>What a patch means for lines\<close>

text \<open>
  The lines of a hunk carry consecutive numbers on both sides; this is what \<open>parseOneHunk\<close> guarantees
  as long as the numbers do not wrap.
\<close>

fun numberedAt :: "int \<Rightarrow> int \<Rightarrow> DiffLine list \<Rightarrow> bool" where
  "numberedAt ol nl [] \<longleftrightarrow> True"
| "numberedAt ol nl (d # ds) \<longleftrightarrow>
     (case dl_Kind d of
        LineContext \<Rightarrow> dl_OldLine d = Some ol \<and> dl_NewLine d = Some nl \<and> numberedAt (ol + 1) (nl + 1) ds
      | LineDel \<Rightarrow> dl_OldLine d = Some ol \<and> dl_NewLine d = None \<and> numberedAt (ol + 1) nl ds
      | LineAdd \<Rightarrow> dl_OldLine d = None \<and> dl_NewLine d = Some nl \<and> numberedAt ol (nl + 1) ds)"

definition oldTexts :: "DiffLine list \<Rightarrow> bytes list" where
  "oldTexts ds = map dl_Text (filter (\<lambda>d. dl_Kind d \<noteq> LineAdd) ds)"

definition newTexts :: "DiffLine list \<Rightarrow> bytes list" where
  "newTexts ds = map dl_Text (filter (\<lambda>d. dl_Kind d \<noteq> LineDel) ds)"

text \<open>
  \<open>applies p q hunks old new\<close>: the hunks turn the lines \<open>old\<close>, which follow line \<open>p\<close> of the old file, into the
  lines \<open>new\<close>, which follow line \<open>q\<close> of the new one.  A hunk without old lines does not occur: with three
  lines of context git writes one only for an empty old file, which has no line to project.
\<close>

fun applies :: "int \<Rightarrow> int \<Rightarrow> DiffHunk list \<Rightarrow> bytes list \<Rightarrow> bytes list \<Rightarrow> bool" where
  "applies p q [] old new \<longleftrightarrow> old = new"
| "applies p q (h # hs) old new \<longleftrightarrow>
     (let g = nat (dh_OldStart h - p - 1); oh = oldTexts (dh_Lines h); nh = newTexts (dh_Lines h) in
      p < dh_OldStart h \<and> g \<le> length old \<and> dh_NewStart h = q + int g + 1 \<and> 0 < dh_OldLines h \<and>
      dh_OldLines h = int (length oh) \<and> dh_NewLines h = int (length nh) \<and>
      numberedAt (dh_OldStart h) (dh_NewStart h) (dh_Lines h) \<and>
      take (length oh) (drop g old) = oh \<and> take g new = take g old \<and> g \<le> length new \<and>
      take (length nh) (drop g new) = nh \<and>
      applies (dh_OldStart h + dh_OldLines h - 1) (dh_NewStart h + dh_NewLines h - 1) hs
        (drop (g + length oh) old) (drop (g + length nh) new))"

text \<open>Where one old line ends up: outside the hunks it shifts, inside one only a context line survives.\<close>

definition contextImage :: "DiffLine list \<Rightarrow> int \<Rightarrow> int option" where
  "contextImage ds l =
     (case find (\<lambda>d. dl_Kind d = LineContext \<and> dl_OldLine d = Some l) ds of None \<Rightarrow> None | Some d \<Rightarrow> dl_NewLine d)"

fun newLineOf :: "DiffHunk list \<Rightarrow> int \<Rightarrow> int \<Rightarrow> int option" where
  "newLineOf [] off l = Some (l + off)"
| "newLineOf (h # hs) off l =
     (if l < dh_OldStart h then Some (l + off)
      else if l < dh_OldStart h + dh_OldLines h then contextImage (dh_Lines h) l
      else newLineOf hs (off + (dh_NewLines h - dh_OldLines h)) l)"

lemma contextImage_Nil [simp]: "contextImage [] l = None"
  by (simp add: contextImage_def)

lemma contextImage_Cons:
  "contextImage (d # ds) l = (if dl_Kind d = LineContext \<and> dl_OldLine d = Some l then dl_NewLine d else contextImage ds l)"
  by (simp add: contextImage_def)

lemma contextImage_text:
  assumes "numberedAt ol nl ds" and "contextImage ds l = Some m"
  shows "ol \<le> l \<and> l < ol + int (length (oldTexts ds)) \<and> nl \<le> m \<and> m < nl + int (length (newTexts ds)) \<and>
    oldTexts ds ! nat (l - ol) = newTexts ds ! nat (m - nl)"
  using assms
proof (induction ds arbitrary: ol nl)
  case (Cons d ds)
  have nth: "(x # xs) ! nat (a - b) = xs ! nat (a - (b + 1))" if "b + 1 \<le> a" for x :: bytes and xs a b
  proof -
    have "nat (a - b) = Suc (nat (a - (b + 1)))" using that by simp
    then show ?thesis by simp
  qed
  show ?case
  proof (cases "dl_Kind d")
    case LineContext
    then have d: "dl_OldLine d = Some ol" "dl_NewLine d = Some nl" "numberedAt (ol + 1) (nl + 1) ds"
      using Cons.prems(1) by simp_all
    show ?thesis
    proof (cases "l = ol")
      case True
      with d Cons.prems(2) LineContext show ?thesis by (simp add: contextImage_Cons oldTexts_def newTexts_def)
    next
      case False
      with d Cons.prems(2) have "contextImage ds l = Some m" by (simp add: contextImage_Cons)
      from Cons.IH [OF d(3) this] nth [of ol l] nth [of nl m] LineContext show ?thesis
        by (simp add: oldTexts_def newTexts_def del: nth_Cons')
    qed
  next
    case LineAdd
    then have d: "numberedAt ol (nl + 1) ds" "contextImage ds l = Some m"
      using Cons.prems by (simp_all add: contextImage_Cons)
    from Cons.IH [OF this] nth [of nl m] LineAdd show ?thesis by (simp add: oldTexts_def newTexts_def del: nth_Cons')
  next
    case LineDel
    then have d: "numberedAt (ol + 1) nl ds" "contextImage ds l = Some m"
      using Cons.prems by (simp_all add: contextImage_Cons)
    from Cons.IH [OF this] nth [of ol l] LineDel show ?thesis by (simp add: oldTexts_def newTexts_def del: nth_Cons')
  qed
qed simp

lemma numberedAt_above: "numberedAt ol nl ds \<Longrightarrow> d \<in> set ds \<Longrightarrow> dl_OldLine d = Some l \<Longrightarrow> ol \<le> l"
  by (induction ds arbitrary: ol nl) (fastforce split: DiffLineKind.splits)+

lemma contextImage_deleted:
  assumes "numberedAt ol nl ds" and "ol \<le> l" and "l < ol + int (length (oldTexts ds))"
  shows "contextImage ds l = None \<longleftrightarrow> (\<exists>d\<in>set ds. dl_Kind d = LineDel \<and> dl_OldLine d = Some l)"
  using assms
proof (induction ds arbitrary: ol nl)
  case (Cons d ds)
  show ?case
  proof (cases "dl_Kind d")
    case LineContext
    then have d: "dl_OldLine d = Some ol" "dl_NewLine d = Some nl" "numberedAt (ol + 1) (nl + 1) ds"
      using Cons.prems(1) by simp_all
    with Cons.IH [OF d(3)] Cons.prems(2,3) LineContext numberedAt_above [OF d(3)] show ?thesis
      by (cases "l = ol") (fastforce simp: contextImage_Cons oldTexts_def)+
  next
    case LineAdd
    then have d: "dl_OldLine d = None" "numberedAt ol (nl + 1) ds" using Cons.prems(1) by simp_all
    with Cons.IH [OF d(2)] Cons.prems(2,3) LineAdd show ?thesis by (simp add: contextImage_Cons oldTexts_def)
  next
    case LineDel
    then have d: "dl_OldLine d = Some ol" "numberedAt (ol + 1) nl ds" using Cons.prems(1) by simp_all
    have "contextImage ds ol = None"
      using contextImage_text [OF d(2), of ol] by (cases "contextImage ds ol") auto
    with d Cons.IH [OF d(2)] Cons.prems(2,3) LineDel show ?thesis
      by (cases "l = ol") (auto simp: contextImage_Cons oldTexts_def)
  qed
qed (simp add: oldTexts_def)

lemma hunkPoints_spec:
  assumes "numberedAt ol nl ds"
  shows "\<exists>ps. hunkPoints lo hi ds = Some ps \<and> set ps = {m. \<exists>l. lo \<le> l \<and> l \<le> hi \<and> contextImage ds l = Some m}"
  using assms
proof (induction ds arbitrary: ol nl)
  case (Cons d ds)
  show ?case
  proof (cases "dl_Kind d")
    case LineContext
    then have d: "dl_OldLine d = Some ol" "dl_NewLine d = Some nl" "numberedAt (ol + 1) (nl + 1) ds"
      using Cons.prems(1) by simp_all
    obtain ps where ps: "hunkPoints lo hi ds = Some ps" "set ps = {m. \<exists>l. lo \<le> l \<and> l \<le> hi \<and> contextImage ds l = Some m}"
      using Cons.IH [OF d(3)] by blast
    have no: "contextImage ds ol = None"
      using contextImage_text [OF d(3), of ol] by (cases "contextImage ds ol") auto
    have ci: "contextImage (d # ds) l = (if l = ol then Some nl else contextImage ds l)" for l
      using LineContext d by (simp add: contextImage_Cons)
    have "{m. \<exists>l. lo \<le> l \<and> l \<le> hi \<and> contextImage (d # ds) l = Some m} =
        (if lo \<le> ol \<and> ol \<le> hi then {nl} else {}) \<union> {m. \<exists>l. lo \<le> l \<and> l \<le> hi \<and> contextImage ds l = Some m}"
      unfolding ci using no by (auto split: if_splits) (metis option.distinct(1))
    with ps d LineContext show ?thesis by auto
  next
    case LineAdd
    then have "dl_OldLine d = None" "numberedAt ol (nl + 1) ds" using Cons.prems(1) by simp_all
    with Cons.IH [OF this(2)] LineAdd show ?thesis by (simp add: contextImage_Cons)
  next
    case LineDel
    then have "dl_OldLine d = Some ol" "numberedAt (ol + 1) nl ds" using Cons.prems(1) by simp_all
    with Cons.IH [OF this(2)] LineDel show ?thesis by (simp add: contextImage_Cons)
  qed
qed simp

lemma pointsLoop_covers: "s \<le> prev \<Longrightarrow> covers (pointsLoop s prev ps) = {s..prev} \<union> set ps"
proof (induction s prev ps rule: pointsLoop.induct)
  case (2 s prev p ps)
  show ?case
  proof (cases "p = prev + 1")
    case True
    then have "covers (pointsLoop s prev (p # ps)) = {s..p} \<union> set ps" using "2.IH"(1) "2.prems" by simp
    moreover have "{s..p} = insert p {s..prev}" using True "2.prems" by auto
    ultimately show ?thesis by simp
  next
    case False
    then have "covers (pointsLoop s prev (p # ps)) = lineSet (mkRange s prev) \<union> ({p..p} \<union> set ps)" using "2.IH"(2) by simp
    then show ?thesis by (simp add: lineSet_def)
  qed
qed (simp add: lineSet_def)

lemma pointsToRanges_covers: "covers (pointsToRanges ps) = set ps"
  using pointsLoop_covers by (cases ps) (auto simp: pointsToRanges_def)

lemma shift_covers:
  "covers (shiftRange off (intersectRange r lo hi)) = {m. \<exists>l\<in>lineSet r. lo \<le> l \<and> l \<le> hi \<and> m = l + off}"
proof -
  have "covers (shiftRange off (intersectRange r lo hi)) = {max (lr_Start r) lo + off..min (lr_End r) hi + off}"
    by (auto simp: shiftRange_def intersectRange_def Let_def lineSet_def)
  also have "\<dots> = {m. \<exists>l\<in>lineSet r. lo \<le> l \<and> l \<le> hi \<and> m = l + off}"
  proof (intro set_eqI iffI)
    fix m
    assume "m \<in> {max (lr_Start r) lo + off..min (lr_End r) hi + off}"
    then show "m \<in> {m. \<exists>l\<in>lineSet r. lo \<le> l \<and> l \<le> hi \<and> m = l + off}"
      by (auto simp: lineSet_def intro!: bexI [of _ "m - off"])
  qed (auto simp: lineSet_def)
  finally show ?thesis .
qed

section \<open>Projection is exact\<close>

text \<open>The part of \<^const>\<open>applies\<close> the sweep over the hunks relies on: ascending, numbered hunks.\<close>

fun ascending :: "int \<Rightarrow> DiffHunk list \<Rightarrow> bool" where
  "ascending p [] \<longleftrightarrow> True"
| "ascending p (h # hs) \<longleftrightarrow>
     p < dh_OldStart h \<and> 0 < dh_OldLines h \<and> numberedAt (dh_OldStart h) (dh_NewStart h) (dh_Lines h) \<and>
     dh_OldLines h = int (length (oldTexts (dh_Lines h))) \<and> ascending (dh_OldStart h + dh_OldLines h - 1) hs"

lemma applies_ascending: "applies p q hs old new \<Longrightarrow> ascending p hs"
proof (induction hs arbitrary: p q old new)
  case (Cons h hs)
  then show ?case by (force simp: Let_def)
qed simp

lemma hunk_covers:
  assumes "numberedAt ol nl (dh_Lines h)"
  shows "\<exists>x. mapWithinHunk h lo hi = Some x \<and> covers x = {m. \<exists>l. lo \<le> l \<and> l \<le> hi \<and> contextImage (dh_Lines h) l = Some m}"
  using hunkPoints_spec [OF assms, of lo hi] by (auto simp: mapWithinHunk_def pointsToRanges_covers)

lemma inside_covers:
  assumes "numberedAt ol nl (dh_Lines h)"
  shows "\<exists>x. (case intersectRange r lo hi of None \<Rightarrow> Some [] | Some i \<Rightarrow> mapWithinHunk h (lr_Start i) (lr_End i)) = Some x \<and>
    covers x = {m. \<exists>l\<in>lineSet r. lo \<le> l \<and> l \<le> hi \<and> contextImage (dh_Lines h) l = Some m}"
proof (cases "intersectRange r lo hi")
  case None
  then have "\<not> (\<exists>l\<in>lineSet r. lo \<le> l \<and> l \<le> hi)"
    by (auto simp: intersectRange_def Let_def lineSet_def split: if_splits)
  with None show ?thesis by auto
next
  case (Some i)
  then have "lr_Start i = max (lr_Start r) lo" "lr_End i = min (lr_End r) hi"
    by (auto simp: intersectRange_def Let_def split: if_splits)
  moreover obtain x where "mapWithinHunk h (lr_Start i) (lr_End i) = Some x"
    "covers x = {m. \<exists>l. lr_Start i \<le> l \<and> l \<le> lr_End i \<and> contextImage (dh_Lines h) l = Some m}"
    using hunk_covers [OF assms] by blast
  ultimately show ?thesis using Some by (fastforce simp: lineSet_def)
qed

lemma projectLoop_covers:
  assumes "ascending p hs" and "lr_End r \<le> maxInt"
  shows "\<exists>out. projectLoop r hs off p = Some out \<and>
    covers out = {m. \<exists>l\<in>lineSet r. p < l \<and> newLineOf hs off l = Some m}"
  using assms(1)
proof (induction hs arbitrary: p off)
  case Nil
  have "covers (shiftRange off (intersectRange r (p + 1) maxInt)) = {m. \<exists>l\<in>lineSet r. p < l \<and> newLineOf [] off l = Some m}"
    unfolding shift_covers using assms(2) by (auto simp: lineSet_def)
  then show ?case by simp
next
  case (Cons h hs)
  let ?e = "dh_OldStart h + dh_OldLines h - 1"
  let ?off = "off + (dh_NewLines h - dh_OldLines h)"
  have asc: "ascending ?e hs" and h: "p < dh_OldStart h" "0 < dh_OldLines h"
    and num: "numberedAt (dh_OldStart h) (dh_NewStart h) (dh_Lines h)" using Cons.prems by auto
  obtain x where x: "(case intersectRange r (dh_OldStart h) ?e of None \<Rightarrow> Some [] | Some i \<Rightarrow> mapWithinHunk h (lr_Start i) (lr_End i)) = Some x"
    "covers x = {m. \<exists>l\<in>lineSet r. dh_OldStart h \<le> l \<and> l \<le> ?e \<and> contextImage (dh_Lines h) l = Some m}"
    using inside_covers [OF num] by blast
  obtain out where out: "projectLoop r hs ?off ?e = Some out"
    "covers out = {m. \<exists>l\<in>lineSet r. ?e < l \<and> newLineOf hs ?off l = Some m}"
    using Cons.IH [OF asc] by blast
  let ?b = "shiftRange off (intersectRange r (p + 1) (dh_OldStart h - 1))"
  have "projectLoop r (h # hs) off p = Some (?b @ x @ out)"
    using x(1) out(1) h by (simp add: Let_def)
  moreover have "covers (?b @ x @ out) = {m. \<exists>l\<in>lineSet r. p < l \<and> newLineOf (h # hs) off l = Some m}"
  proof (intro set_eqI iffI)
    fix m
    assume "m \<in> covers (?b @ x @ out)"
    then consider (cb) l where "l \<in> lineSet r" "p + 1 \<le> l" "l \<le> dh_OldStart h - 1" "m = l + off"
      | (cx) l where "l \<in> lineSet r" "dh_OldStart h \<le> l" "l \<le> ?e" "contextImage (dh_Lines h) l = Some m"
      | (co) l where "l \<in> lineSet r" "?e < l" "newLineOf hs ?off l = Some m"
      unfolding covers_simps shift_covers x(2) out(2) by blast
    then show "m \<in> {m. \<exists>l\<in>lineSet r. p < l \<and> newLineOf (h # hs) off l = Some m}"
    proof cases
      case (cb l)
      then show ?thesis using h by (intro CollectI bexI [of _ l]) auto
    next
      case (cx l)
      then show ?thesis using h by (intro CollectI bexI [of _ l]) auto
    next
      case (co l)
      then show ?thesis using h by (intro CollectI bexI [of _ l]) auto
    qed
  next
    fix m
    assume "m \<in> {m. \<exists>l\<in>lineSet r. p < l \<and> newLineOf (h # hs) off l = Some m}"
    then obtain l where l: "l \<in> lineSet r" "p < l" "newLineOf (h # hs) off l = Some m" by blast
    show "m \<in> covers (?b @ x @ out)"
      unfolding covers_simps shift_covers x(2) out(2)
      using l by (cases "l < dh_OldStart h"; cases "l \<le> ?e") (auto split: if_splits)
  qed
  ultimately show ?case by blast
qed

lemma projectAll_covers:
  assumes "ascending 0 hs" and "\<forall>r\<in>set rs. lr_End r \<le> maxInt"
  shows "\<exists>out. projectAll rs hs = Some out \<and> covers out = {m. \<exists>l\<in>covers rs. 0 < l \<and> newLineOf hs 0 l = Some m}"
  using assms(2)
proof (induction rs)
  case (Cons r rs)
  then obtain x out where "projectOne r hs = Some x" "covers x = {m. \<exists>l\<in>lineSet r. 0 < l \<and> newLineOf hs 0 l = Some m}"
    "projectAll rs hs = Some out" "covers out = {m. \<exists>l\<in>covers rs. 0 < l \<and> newLineOf hs 0 l = Some m}"
    using projectLoop_covers [OF assms(1), of r 0] by (auto simp: projectOne_def)
  then show ?case by (intro exI [of _ "x @ out"]) auto
qed simp

lemma clamp_covers: "covers (clampToLineCount rs n) = {m \<in> covers rs. m \<le> n \<and> 0 < n}"
proof (cases "n \<le> 0")
  case False
  let ?cut = "map (\<lambda>r. mkRange (lr_Start r) (if lr_End r > n then n else lr_End r)) (filter (\<lambda>r. \<not> lr_Start r > n) rs)"
  have "covers ?cut = {m \<in> covers rs. m \<le> n}"
  proof (induction rs)
    case (Cons r rs)
    have "lineSet (mkRange (lr_Start r) (if lr_End r > n then n else lr_End r)) = {m \<in> lineSet r. m \<le> n}"
      by (auto simp: lineSet_def)
    moreover have "lr_Start r > n \<Longrightarrow> {m \<in> lineSet r. m \<le> n} = {}" by (auto simp: lineSet_def)
    moreover have "{m \<in> covers (r # rs). m \<le> n} = {m \<in> lineSet r. m \<le> n} \<union> {m \<in> covers rs. m \<le> n}" by auto
    ultimately show ?case using Cons by (cases "lr_Start r > n") (simp_all del: Collect_empty_eq)
  qed simp
  with False show ?thesis by (simp add: clampToLineCount_def Normalize_spec)
qed (simp add: clampToLineCount_def)

lemma clamp_canonical: "canonical (clampToLineCount rs n)"
  by (simp add: clampToLineCount_def Normalize_spec)

lemma ProjectRanges_covers:
  assumes asc: "ascending 0 hs" and rs: "covers rs \<subseteq> {1..maxInt}"
  shows "\<exists>out. ProjectRanges rs hs n = Some out \<and> canonical out \<and>
    covers out = {m. \<exists>l\<in>covers rs. newLineOf hs 0 l = Some m \<and> m \<le> n \<and> 0 < n}"
proof -
  have ends: "\<forall>r\<in>set (Normalize rs). lr_End r \<le> maxInt"
  proof
    fix r
    assume r: "r \<in> set (Normalize rs)"
    have "lr_Start r \<le> lr_End r"
      using canonical_ordered [OF Normalize_spec(1) r] .
    with r have "lr_End r \<in> covers (Normalize rs)" by (force simp: covers_def lineSet_def)
    with rs show "lr_End r \<le> maxInt" by (auto simp: Normalize_spec)
  qed
  have pos: "0 < l" if "l \<in> covers rs" for l using rs that by auto
  consider (none) "Normalize rs = []" | (same) "Normalize rs \<noteq> []" "hs = []" | (hunks) "Normalize rs \<noteq> []" "hs \<noteq> []" by blast
  then show ?thesis
  proof cases
    case none
    then have "covers rs = {}" using Normalize_spec(2) [of rs] by simp
    with none show ?thesis by (simp add: ProjectRanges_def)
  next
    case same
    then show ?thesis by (auto simp: ProjectRanges_def clamp_canonical clamp_covers Normalize_spec)
  next
    case hunks
    obtain out where out: "projectAll (Normalize rs) hs = Some out"
      "covers out = {m. \<exists>l\<in>covers rs. 0 < l \<and> newLineOf hs 0 l = Some m}"
      using projectAll_covers [OF asc ends] by (auto simp: Normalize_spec)
    have "covers (clampToLineCount (Normalize out) n) = {m. \<exists>l\<in>covers rs. newLineOf hs 0 l = Some m \<and> m \<le> n \<and> 0 < n}"
      unfolding clamp_covers Normalize_spec(2) out(2) using pos by blast
    with hunks out(1) show ?thesis by (simp add: ProjectRanges_def clamp_canonical)
  qed
qed

lemma nth_window:
  assumes "take (length xs) (drop g ys) = xs" and "k < length xs"
  shows "ys ! (g + k) = xs ! k" and "g + k < length ys"
proof -
  have "length xs = min (length ys - g) (length xs)" using arg_cong [OF assms(1), of length] by simp
  then show len: "g + k < length ys" using assms(2) by linarith
  have "xs ! k = take (length xs) (drop g ys) ! k" using assms(1) by simp
  with assms(2) len show "ys ! (g + k) = xs ! k" by simp
qed

text \<open>A line that has an image keeps its text.\<close>

lemma applies_text:
  assumes "applies p q hs old new" and "newLineOf hs (q - p) l = Some m" and "p < l" and "l \<le> p + int (length old)"
  shows "q < m \<and> m \<le> q + int (length new) \<and> old ! nat (l - p - 1) = new ! nat (m - q - 1)"
  using assms
proof (induction hs arbitrary: p q old new)
  case (Cons h hs)
  define g where "g = nat (dh_OldStart h - p - 1)"
  let ?oh = "oldTexts (dh_Lines h)" and ?nh = "newTexts (dh_Lines h)"
  have ap: "p < dh_OldStart h" "g \<le> length old" "dh_NewStart h = q + int g + 1" "dh_OldLines h = int (length ?oh)"
    "dh_NewLines h = int (length ?nh)" "numberedAt (dh_OldStart h) (dh_NewStart h) (dh_Lines h)"
    "take (length ?oh) (drop g old) = ?oh" "take g new = take g old" "g \<le> length new" "take (length ?nh) (drop g new) = ?nh"
    and rest: "applies (dh_OldStart h + dh_OldLines h - 1) (dh_NewStart h + dh_NewLines h - 1) hs
        (drop (g + length ?oh) old) (drop (g + length ?nh) new)"
    using Cons.prems(1) unfolding applies.simps Let_def g_def by blast+
  have os: "dh_OldStart h = p + int g + 1" using ap(1) by (simp add: g_def)
  consider (gap) "l < dh_OldStart h" | (hunk) "\<not> l < dh_OldStart h" "l < dh_OldStart h + dh_OldLines h"
    | (later) "\<not> l < dh_OldStart h" "\<not> l < dh_OldStart h + dh_OldLines h" by blast
  then show ?case
  proof cases
    case gap
    then have m: "m = l + (q - p)" using Cons.prems(2) by simp
    have i: "nat (l - p - 1) < g" using gap os Cons.prems(3) by linarith
    have "new ! nat (l - p - 1) = old ! nat (l - p - 1)" using ap(8) i by (metis nth_take)
    moreover have "nat (m - q - 1) = nat (l - p - 1)" "q < m" "m \<le> q + int (length new)"
      using m i ap(9) Cons.prems(3) by linarith+
    ultimately show ?thesis by simp
  next
    case hunk
    with Cons.prems(2) have ci: "contextImage (dh_Lines h) l = Some m" by simp
    note tx = contextImage_text [OF ap(6) ci]
    let ?i = "nat (l - dh_OldStart h)" and ?j = "nat (m - dh_NewStart h)"
    have i: "nat (l - p - 1) = g + ?i" "?i < length ?oh" and j: "nat (m - q - 1) = g + ?j" "?j < length ?nh"
      using tx os ap(3) by linarith+
    have "old ! nat (l - p - 1) = ?oh ! ?i" unfolding i(1) by (rule nth_window [OF ap(7) i(2)])
    moreover have "new ! nat (m - q - 1) = ?nh ! ?j" unfolding j(1) by (rule nth_window [OF ap(10) j(2)])
    moreover have "g + ?j < length new" by (rule nth_window [OF ap(10) j(2)])
    ultimately show ?thesis using tx ap(3) j by (auto simp: nat_less_iff)
  next
    case later
    let ?p = "dh_OldStart h + dh_OldLines h - 1" and ?q = "dh_NewStart h + dh_NewLines h - 1"
    have "newLineOf hs (?q - ?p) l = Some m"
    proof -
      have "?q - ?p = q - p + (dh_NewLines h - dh_OldLines h)" using os ap(3) by simp
      moreover have "newLineOf hs (q - p + (dh_NewLines h - dh_OldLines h)) l = Some m"
        using later Cons.prems(2) by simp
      ultimately show ?thesis by (simp only:)
    qed
    moreover have len: "length ?oh = min (length old - g) (length ?oh)" "length ?nh = min (length new - g) (length ?nh)"
      using arg_cong [OF ap(7), of length] arg_cong [OF ap(10), of length] by simp_all
    moreover have "?p < l" "l \<le> ?p + int (length (drop (g + length ?oh) old))"
      using later os ap(2,4) len(1) Cons.prems(4) by simp_all
    ultimately have ih: "?q < m \<and> m \<le> ?q + int (length (drop (g + length ?nh) new)) \<and>
        drop (g + length ?oh) old ! nat (l - ?p - 1) = drop (g + length ?nh) new ! nat (m - ?q - 1)"
      using Cons.IH [OF rest] by blast
    have i: "nat (l - p - 1) = (g + length ?oh) + nat (l - ?p - 1)" and j: "nat (m - q - 1) = (g + length ?nh) + nat (m - ?q - 1)"
      using ih \<open>?p < l\<close> os ap(3,4,5) by linarith+
    have "g + length ?oh \<le> length old" "g + length ?nh \<le> length new" using len ap(2,9) by linarith+
    with ih i j ap(3,5) show ?thesis by simp
  qed
qed auto

lemma numberedAt_below: "numberedAt ol nl ds \<Longrightarrow> d \<in> set ds \<Longrightarrow> dl_OldLine d = Some l \<Longrightarrow> l < ol + int (length (oldTexts ds))"
  by (induction ds arbitrary: ol nl) (fastforce simp: oldTexts_def split: DiffLineKind.splits)+

lemma deletedLines_covers:
  "covers (deletedLines hs) = {l. \<exists>h\<in>set hs. \<exists>d\<in>set (dh_Lines h). dl_Kind d = LineDel \<and> dl_OldLine d = Some l}"
proof -
  let ?f = "\<lambda>d. if dl_Kind d = LineDel then map_option (\<lambda>n. mkRange n n) (dl_OldLine d) else None"
  have "covers (List.map_filter ?f ds) = {l. \<exists>d\<in>set ds. dl_Kind d = LineDel \<and> dl_OldLine d = Some l}" for ds
  proof (induction ds)
    case (Cons d ds)
    then show ?case by (cases "dl_OldLine d") (auto simp: List.map_filter_simps lineSet_def)
  qed (simp add: List.map_filter_simps)
  then show ?thesis by (auto simp: deletedLines_def covers_concat)
qed

lemma newLineOf_None:
  assumes "ascending p hs" and "p < l"
  shows "newLineOf hs off l = None \<longleftrightarrow> l \<in> covers (deletedLines hs)"
  using assms
proof (induction hs arbitrary: p off)
  case (Cons h hs)
  let ?e = "dh_OldStart h + dh_OldLines h - 1"
  have num: "numberedAt (dh_OldStart h) (dh_NewStart h) (dh_Lines h)" and asc: "ascending ?e hs"
    and h: "p < dh_OldStart h" "dh_OldLines h = int (length (oldTexts (dh_Lines h)))" using Cons.prems(1) by auto
  have later: "x \<in> covers (deletedLines ks) \<Longrightarrow> ascending k ks \<Longrightarrow> k < x" for x k ks
  proof (induction ks arbitrary: k)
    case (Cons j ks)
    then show ?case unfolding deletedLines_covers
      using numberedAt_above [of "dh_OldStart j" "dh_NewStart j" "dh_Lines j" _ x] by fastforce
  qed (simp add: deletedLines_def)
  have inh: "(\<exists>d\<in>set (dh_Lines h). dl_Kind d = LineDel \<and> dl_OldLine d = Some l) \<Longrightarrow> dh_OldStart h \<le> l \<and> l \<le> ?e"
    using numberedAt_above [OF num] numberedAt_below [OF num] h(2) by fastforce
  have split: "l \<in> covers (deletedLines (h # hs)) \<longleftrightarrow>
      (\<exists>d\<in>set (dh_Lines h). dl_Kind d = LineDel \<and> dl_OldLine d = Some l) \<or> l \<in> covers (deletedLines hs)"
    by (auto simp: deletedLines_covers)
  consider (gap) "l < dh_OldStart h" | (hunk) "\<not> l < dh_OldStart h" "l < dh_OldStart h + dh_OldLines h"
    | (after) "\<not> l < dh_OldStart h" "\<not> l < dh_OldStart h + dh_OldLines h" by blast
  then show ?case
  proof cases
    case gap
    then show ?thesis using inh later [OF _ asc, of l] h(2) split by auto
  next
    case hunk
    then show ?thesis
      using contextImage_deleted [OF num, of l] h(2) later [OF _ asc, of l] split by auto
  next
    case after
    then show ?thesis using Cons.IH [OF asc] inh split by auto
  qed
qed (simp add: deletedLines_def)

text \<open>
  C2: review marks follow the lines, not the numbers.  When a patch turns the reviewed snapshot into the
  current file, every reviewed line is either projected to the place of the current file that holds
  the same text, or reported as deleted by the patch; the projection covers nothing else, lies
  within the file and is canonical.
\<close>

theorem review_marks_follow_lines:
  assumes "applies 0 0 hunks old new" and "covers rs \<subseteq> {1..int (length old)}" and "int (length old) < 2 ^ 63"
  shows "\<exists>out. ProjectRanges rs hunks (int (length new)) = Some out \<and> canonical out \<and>
    covers out = {m. \<exists>l\<in>covers rs. newLineOf hunks 0 l = Some m} \<and>
    (\<forall>l\<in>covers rs. case newLineOf hunks 0 l of
        None \<Rightarrow> l \<in> covers (DeletedRanges rs hunks)
      | Some m \<Rightarrow> l \<notin> covers (DeletedRanges rs hunks) \<and> 1 \<le> m \<and> m \<le> int (length new) \<and>
          old ! nat (l - 1) = new ! nat (m - 1))"
proof -
  have asc: "ascending 0 hunks" by (rule applies_ascending [OF assms(1)])
  have rs: "covers rs \<subseteq> {1..maxInt}" using assms(2,3) by (fastforce simp: maxInt_def)
  have tx: "0 < m \<and> m \<le> int (length new) \<and> old ! nat (l - 1) = new ! nat (m - 1)"
    if "l \<in> covers rs" "newLineOf hunks 0 l = Some m" for l m
  proof -
    have "0 < l" "l \<le> 0 + int (length old)" using assms(2) that(1) by auto
    with applies_text [OF assms(1), of l m] that(2) show ?thesis by simp
  qed
  obtain out where out: "ProjectRanges rs hunks (int (length new)) = Some out" "canonical out"
    "covers out = {m. \<exists>l\<in>covers rs. newLineOf hunks 0 l = Some m \<and> m \<le> int (length new) \<and> 0 < int (length new)}"
    using ProjectRanges_covers [OF asc rs] by blast
  have "covers out = {m. \<exists>l\<in>covers rs. newLineOf hunks 0 l = Some m}"
    unfolding out(3) using tx by fastforce
  moreover have "covers (DeletedRanges rs hunks) = covers rs \<inter> covers (deletedLines hunks)"
    by (simp add: DeletedRanges_def IntersectRanges_spec Normalize_spec)
  moreover have "newLineOf hunks 0 l = None \<longleftrightarrow> l \<in> covers (deletedLines hunks)" if "l \<in> covers rs" for l
    using newLineOf_None [OF asc] rs that by fastforce
  ultimately show ?thesis
    using out(1,2) tx by (fastforce split: option.splits)
qed

definition demoHunk :: DiffHunk where
  "demoHunk =
     \<lparr>dh_OldStart = 1, dh_OldLines = 2, dh_NewStart = 1, dh_NewLines = 2, dh_Heading = [],
      dh_Lines = [\<lparr>dl_Kind = LineDel, dl_Text = ''a'', dl_OldLine = Some 1, dl_NewLine = None, dl_NoNewlineAtEof = False\<rparr>,
        \<lparr>dl_Kind = LineContext, dl_Text = ''b'', dl_OldLine = Some 2, dl_NewLine = Some 1, dl_NoNewlineAtEof = False\<rparr>,
        \<lparr>dl_Kind = LineAdd, dl_Text = ''c'', dl_OldLine = None, dl_NewLine = Some 2, dl_NoNewlineAtEof = False\<rparr>]\<rparr>"

theorem review_marks_follow_lines_witness:
  "\<exists>out. ProjectRanges [mkRange 1 2] [demoHunk] 2 = Some out \<and>
    covers out = {m. \<exists>l\<in>{1..2}. newLineOf [demoHunk] 0 l = Some m}"
proof -
  have a: "applies 0 0 [demoHunk] [''a'', ''b''] [''b'', ''c'']"
    by (simp add: demoHunk_def oldTexts_def newTexts_def)
  have c: "covers [mkRange 1 2] = {1..2}" by (simp add: lineSet_def)
  from review_marks_follow_lines [OF a, of "[mkRange 1 2]"] show ?thesis
    unfolding c by auto
qed

text \<open>The hunks the patch parser accepts are numbered as the projection needs, as long as the numbers are small.\<close>

lemma parsed_hunk_numbered:
  "numbered ol nl ds \<Longrightarrow> 0 \<le> ol \<Longrightarrow> 0 \<le> nl \<Longrightarrow> ol + int (length ds) < 2 ^ 63 \<Longrightarrow> nl + int (length ds) < 2 ^ 63 \<Longrightarrow> numberedAt ol nl ds"
proof (induction ds arbitrary: ol nl)
  case (Cons d ds)
  have "wrap64 (ol + 1) = ol + 1" "wrap64 (nl + 1) = nl + 1"
    using Cons.prems by (simp_all add: wrap64_def)
  with Cons show ?case by (auto split: DiffLineKind.splits)
qed simp

text \<open>The clamp has no lower end: without hunks a range that starts below line 1 is returned as it came.\<close>

lemma projection_keeps_nonpositive_lines: "ProjectRanges [mkRange (- 3) 2] [] 5 = Some [mkRange (- 3) 2]"
  by (simp add: ProjectRanges_def clampToLineCount_def Normalize_def cleanRanges_def mergeSorted_def)

end
