(* ===== verification/StatusParse.thy ===== *)
theory StatusParse
  imports Records
begin

text \<open>
  \<^verbatim>\<open>gitclient/porcelain/status.go\<close>: the parser of \<^verbatim>\<open>git status --porcelain=v2 --branch -z\<close>, over
  records already split at their NULs.
\<close>

section \<open>Types\<close>

definition StatusArgs :: argv where
  "StatusArgs = [''status'', ''--porcelain=v2'', ''--branch'', ''--untracked-files=normal'', ''-z'']"

record StatusBranchInfo =
  sb_OID :: sha
  sb_Unborn :: bool
  sb_Detached :: bool
  sb_HeadName :: bytes
  sb_Upstream :: bytes
  sb_HasUpstream :: bool
  sb_Ahead :: int
  sb_Behind :: int
  sb_HasAheadBehind :: bool

datatype EntryKind = Ordinary | Renamed | Unmerged | Untracked | Ignored

datatype RenameOrCopy = NoRename | IsRename | IsCopy

record StatusEntry =
  se_Kind :: EntryKind
  se_Staged :: char
  se_Unstaged :: char
  se_Path :: path
  se_OriginalPath :: path
  se_RenameOrCopy :: RenameOrCopy
  se_Similarity :: int

record StatusResult =
  st_Branch :: StatusBranchInfo
  st_Entries :: "StatusEntry list"

section \<open>The branch header\<close>

definition hasField :: "bytes \<Rightarrow> bytes \<Rightarrow> bool" where
  "hasField line pre \<longleftrightarrow> length pre \<le> length line \<and> take (length pre) line = pre"

text \<open>\<open>^branch\.ab \+(\d+) -(\d+)$\<close>, with its two groups.\<close>

definition branchABRe :: "bytes \<Rightarrow> (bytes \<times> bytes) option" where
  "branchABRe line =
     (if \<not> HasPrefix line ''branch.ab +'' then None
      else let r = drop (length ''branch.ab +'') line; a = takeWhile isDigit r; r2 = dropWhile isDigit r
        in if a = [] \<or> \<not> HasPrefix r2 '' -'' then None
           else let b = drop 2 r2 in if b = [] \<or> \<not> list_all isDigit b then None else Some (a, b))"

definition headerLine :: "StatusBranchInfo \<Rightarrow> bytes \<Rightarrow> StatusBranchInfo" where
  "headerLine info line =
     (if hasField line ''branch.oid '' then
        (let v = drop (length ''branch.oid '') line
         in if v = ''(initial)'' then info\<lparr>sb_Unborn := True\<rparr> else info\<lparr>sb_OID := v\<rparr>)
      else if hasField line ''branch.head '' then
        (let v = drop (length ''branch.head '') line
         in if v = ''(detached)'' then info\<lparr>sb_Detached := True\<rparr>
            else info\<lparr>sb_Detached := False, sb_HeadName := v\<rparr>)
      else if hasField line ''branch.upstream '' then
        info\<lparr>sb_Upstream := drop (length ''branch.upstream '') line, sb_HasUpstream := True\<rparr>
      else if hasField line ''branch.ab '' then
        (case branchABRe line of
           Some (a, b) \<Rightarrow> info\<lparr>sb_Ahead := fst (Atoi a), sb_Behind := fst (Atoi b), sb_HasAheadBehind := True\<rparr>
         | None \<Rightarrow> info)
      else info)"

definition parseBranchHeader :: "bytes list \<Rightarrow> StatusBranchInfo" where
  "parseBranchHeader lines =
     foldl headerLine
       \<lparr>sb_OID = [], sb_Unborn = False, sb_Detached = True, sb_HeadName = [], sb_Upstream = [],
        sb_HasUpstream = False, sb_Ahead = 0, sb_Behind = 0, sb_HasAheadBehind = False\<rparr> lines"

section \<open>Entries\<close>

definition codeAt :: "bytes \<Rightarrow> nat \<Rightarrow> char" where
  "codeAt xy i = (if i < length xy then xy ! i else CHR ''.'')"

definition plainEntry :: "EntryKind \<Rightarrow> char \<Rightarrow> char \<Rightarrow> path \<Rightarrow> StatusEntry" where
  "plainEntry kind staged unstaged path =
     \<lparr>se_Kind = kind, se_Staged = staged, se_Unstaged = unstaged, se_Path = path, se_OriginalPath = [],
      se_RenameOrCopy = NoRename, se_Similarity = 0\<rparr>"

definition parseOrdinaryEntry :: "bytes \<Rightarrow> porc_error + StatusEntry" where
  "parseOrdinaryEntry rec =
     (let fs = SplitLimitedFields rec (CHR '' '') 9
      in if length fs \<noteq> 9 then Inl (StatusFieldCount (CHR ''1'') (length fs) 9)
         else let xy = fs ! 1 in Inr (plainEntry Ordinary (codeAt xy 0) (codeAt xy 1) (fs ! 8)))"

definition parseRenamedEntry :: "bytes \<Rightarrow> path \<Rightarrow> porc_error + StatusEntry" where
  "parseRenamedEntry rec originalPath =
     (let fs = SplitLimitedFields rec (CHR '' '') 10
      in if length fs \<noteq> 10 then Inl (StatusFieldCount (CHR ''2'') (length fs) 10)
         else let xy = fs ! 1; score = fs ! 8;
                  renameOrCopy = (if score \<noteq> [] \<and> hd score = CHR ''C'' then IsCopy else IsRename);
                  similarity =
                    (if score = [] then 0
                     else case AtoiR (tl score) of Inr v \<Rightarrow> v | Inl _ \<Rightarrow> 0)
           in Inr \<lparr>se_Kind = Renamed, se_Staged = codeAt xy 0, se_Unstaged = codeAt xy 1, se_Path = fs ! 9,
                   se_OriginalPath = originalPath, se_RenameOrCopy = renameOrCopy, se_Similarity = similarity\<rparr>)"

definition parseUnmergedEntry :: "bytes \<Rightarrow> porc_error + StatusEntry" where
  "parseUnmergedEntry rec =
     (let fs = SplitLimitedFields rec (CHR '' '') 11
      in if length fs \<noteq> 11 then Inl (StatusFieldCount (CHR ''u'') (length fs) 11)
         else let xy = fs ! 1 in Inr (plainEntry Unmerged (codeAt xy 0) (codeAt xy 1) (fs ! 10)))"

text \<open>The loop of \<open>ParseStatus\<close>, with the header lines and entries collected so far.\<close>

fun statusLoop :: "bytes list \<Rightarrow> bytes list \<Rightarrow> StatusEntry list \<Rightarrow> porc_error + StatusResult" where
  "statusLoop [] headerLines entries =
     Inr \<lparr>st_Branch = parseBranchHeader headerLines, st_Entries = entries\<rparr>"
| "statusLoop ([] # recs) headerLines entries = statusLoop recs headerLines entries"
| "statusLoop ((c # cs) # recs) headerLines entries =
     (if c = CHR ''#'' then
        statusLoop recs (if cs = [] then headerLines else headerLines @ [drop 1 cs]) entries
      else if c = CHR ''1'' then
        rbind (parseOrdinaryEntry (c # cs)) (\<lambda>e. statusLoop recs headerLines (entries @ [e]))
      else if c = CHR ''2'' then
        (case recs of
           [] \<Rightarrow> Inl StatusRenameTruncated
         | orig # recs' \<Rightarrow>
             rbind (parseRenamedEntry (c # cs) orig) (\<lambda>e. statusLoop recs' headerLines (entries @ [e])))
      else if c = CHR ''u'' then
        rbind (parseUnmergedEntry (c # cs)) (\<lambda>e. statusLoop recs headerLines (entries @ [e]))
      else if c = CHR ''?'' then
        statusLoop recs headerLines
          (if cs = [] then entries else entries @ [plainEntry Untracked nul nul (drop 1 cs)])
      else if c = CHR ''!'' then
        statusLoop recs headerLines
          (if cs = [] then entries else entries @ [plainEntry Ignored nul nul (drop 1 cs)])
      else Inl (StatusMarker c))"

definition ParseStatus :: "bytes list \<Rightarrow> porc_error + StatusResult" where
  "ParseStatus records = statusLoop records [] []"

section \<open>Reading back what git prints\<close>

text \<open>
  The records \<^verbatim>\<open>git status\<close> prints for an entry.  The modes and object ids in the middle are
  arbitrary blank-free fields: the parser only frames them.
\<close>

definition spaced :: "bytes list \<Rightarrow> bytes \<Rightarrow> bytes" where
  "spaced fs r = terminated (CHR '' '') fs @ r"

definition entryRecords :: "StatusEntry \<Rightarrow> bytes list \<Rightarrow> bytes list" where
  "entryRecords e skipped =
     (let xy = [se_Staged e, se_Unstaged e]
      in case se_Kind e of
           Ordinary \<Rightarrow> [spaced (''1'' # xy # take 6 skipped) (se_Path e)]
         | Renamed \<Rightarrow>
             [spaced (''2'' # xy # take 6 skipped
                @ [(if se_RenameOrCopy e = IsCopy then CHR ''C'' else CHR ''R'') # Itoa (se_Similarity e)]) (se_Path e),
              se_OriginalPath e]
         | Unmerged \<Rightarrow> [spaced (''u'' # xy # take 8 skipped) (se_Path e)]
         | Untracked \<Rightarrow> [''? '' @ se_Path e]
         | Ignored \<Rightarrow> [''! '' @ se_Path e])"

definition branchRecords :: "StatusBranchInfo \<Rightarrow> bytes list" where
  "branchRecords b =
     [''# branch.oid '' @ (if sb_Unborn b then ''(initial)'' else sb_OID b),
      ''# branch.head '' @ (if sb_Detached b then ''(detached)'' else sb_HeadName b)]
     @ (if sb_HasUpstream b then [''# branch.upstream '' @ sb_Upstream b] else [])
     @ (if sb_HasAheadBehind b
        then [''# branch.ab +'' @ Itoa (sb_Ahead b) @ '' -'' @ Itoa (sb_Behind b)] else [])"

definition wfEntry :: "StatusEntry \<Rightarrow> bool" where
  "wfEntry e \<longleftrightarrow>
     (case se_Kind e of
        Renamed \<Rightarrow> se_Staged e \<noteq> CHR '' '' \<and> se_Unstaged e \<noteq> CHR '' '' \<and> se_RenameOrCopy e \<noteq> NoRename
          \<and> 0 \<le> se_Similarity e \<and> se_Similarity e \<le> 100
      | Ordinary \<Rightarrow> se_Staged e \<noteq> CHR '' '' \<and> se_Unstaged e \<noteq> CHR '' ''
          \<and> e = plainEntry Ordinary (se_Staged e) (se_Unstaged e) (se_Path e)
      | Unmerged \<Rightarrow> se_Staged e \<noteq> CHR '' '' \<and> se_Unstaged e \<noteq> CHR '' ''
          \<and> e = plainEntry Unmerged (se_Staged e) (se_Unstaged e) (se_Path e)
      | Untracked \<Rightarrow> e = plainEntry Untracked nul nul (se_Path e)
      | Ignored \<Rightarrow> e = plainEntry Ignored nul nul (se_Path e))"

definition wfBranch :: "StatusBranchInfo \<Rightarrow> bool" where
  "wfBranch b \<longleftrightarrow>
     (if sb_Unborn b then sb_OID b = [] else sb_OID b \<noteq> ''(initial)'')
     \<and> (if sb_Detached b then sb_HeadName b = [] else sb_HeadName b \<noteq> ''(detached)'')
     \<and> (if sb_HasUpstream b then True else sb_Upstream b = [])
     \<and> (if sb_HasAheadBehind b then sb_Ahead b \<in> {0 ..< 2 ^ 63} \<and> sb_Behind b \<in> {0 ..< 2 ^ 63}
        else sb_Ahead b = 0 \<and> sb_Behind b = 0)"

lemma hasField_append [simp]: "hasField (p @ s) p"
  by (simp add: hasField_def)

lemma hasField_HasPrefix: "hasField s p = HasPrefix s p"
  by (metis hasField_def HasPrefix_def length_take min.cobounded1)

lemma branchABRe_text:
  assumes "0 \<le> a" and "0 \<le> b"
  shows "branchABRe (''branch.ab +'' @ Itoa a @ '' -'' @ Itoa b) = Some (Itoa a, Itoa b)"
proof -
  have "\<not> isDigit (CHR '' '')" by (simp add: isDigit_def)
  then have "takeWhile isDigit (Itoa a @ '' -'' @ Itoa b) = Itoa a"
    "dropWhile isDigit (Itoa a @ '' -'' @ Itoa b) = '' -'' @ Itoa b"
    using Itoa_digits [OF assms(1)] by (auto simp: list_all_iff takeWhile_append2 dropWhile_append2)
  then show ?thesis
    using Itoa_digits [OF assms(1)] Itoa_digits [OF assms(2)] by (simp add: branchABRe_def Let_def)
qed

lemma parseBranchHeader_records:
  assumes "wfBranch b"
  shows "parseBranchHeader (map (drop 2) (branchRecords b)) = b"
  using assms branchABRe_text [of "sb_Ahead b" "sb_Behind b"]
  by (cases "sb_Unborn b"; cases "sb_Detached b"; cases "sb_HasUpstream b"; cases "sb_HasAheadBehind b")
    (simp_all add: parseBranchHeader_def branchRecords_def headerLine_def hasField_HasPrefix Let_def wfBranch_def
      Atoi_Itoa)

lemma statusLoop_headers:
  "list_all (\<lambda>r. \<exists>t. r = CHR ''#'' # CHR '' '' # t) hs \<Longrightarrow>
   statusLoop (hs @ recs) headerLines entries = statusLoop recs (headerLines @ map (drop 2) hs) entries"
  by (induction hs arbitrary: headerLines) auto

lemma branchRecords_hash: "list_all (\<lambda>r. \<exists>t. r = CHR ''#'' # CHR '' '' # t) (branchRecords b)"
  by (simp add: branchRecords_def)

definition wfSkipped :: "bytes list \<Rightarrow> bool" where
  "wfSkipped skipped \<longleftrightarrow> length skipped = 8 \<and> list_all (\<lambda>f. CHR '' '' \<notin> set f) skipped"

lemma SplitLimited_spaced:
  assumes "list_all (\<lambda>f. CHR '' '' \<notin> set f) fs" and "n = Suc (length fs)"
  shows "SplitLimitedFields (spaced fs r) (CHR '' '') n = fs @ [r]"
  unfolding spaced_def using assms by (intro SplitLimitedFields_joined) (auto simp: list_all_iff)

lemma Itoa_no_blank: "0 \<le> i \<Longrightarrow> CHR '' '' \<notin> set (Itoa i)"
  using Itoa_digits [of i] by (auto simp: list_all_iff isDigit_def)

lemma statusLoop_entry:
  assumes "wfEntry e" and "wfSkipped skipped"
  shows "statusLoop (entryRecords e skipped @ recs) headerLines entries = statusLoop recs headerLines (entries @ [e])"
proof (cases "se_Kind e")
  case Ordinary
  have "SplitLimitedFields (spaced (''1'' # [se_Staged e, se_Unstaged e] # take 6 skipped) (se_Path e)) (CHR '' '') 9
      = (''1'' # [se_Staged e, se_Unstaged e] # take 6 skipped) @ [se_Path e]"
    using assms Ordinary
    by (intro SplitLimited_spaced) (auto simp: wfEntry_def wfSkipped_def list_all_iff dest: in_set_takeD)
  then have "parseOrdinaryEntry (spaced (''1'' # [se_Staged e, se_Unstaged e] # take 6 skipped) (se_Path e)) = Inr e"
    using assms Ordinary by (simp add: parseOrdinaryEntry_def wfSkipped_def codeAt_def nth_append wfEntry_def)
  then show ?thesis using Ordinary by (simp add: entryRecords_def spaced_def)
next
  case Renamed
  let ?fs = "''2'' # [se_Staged e, se_Unstaged e] # take 6 skipped
                @ [(if se_RenameOrCopy e = IsCopy then CHR ''C'' else CHR ''R'') # Itoa (se_Similarity e)]"
  have "SplitLimitedFields (spaced ?fs (se_Path e)) (CHR '' '') 10 = ?fs @ [se_Path e]"
    using assms Renamed Itoa_no_blank [of "se_Similarity e"]
    by (intro SplitLimited_spaced) (auto simp: wfEntry_def wfSkipped_def list_all_iff dest: in_set_takeD)
  then have "parseRenamedEntry (spaced ?fs (se_Path e)) (se_OriginalPath e) = Inr e"
    using assms Renamed AtoiR_Itoa [of "se_Similarity e"]
    by (cases "se_RenameOrCopy e") (auto simp: parseRenamedEntry_def wfSkipped_def codeAt_def nth_append wfEntry_def)
  then show ?thesis using Renamed by (simp add: entryRecords_def spaced_def)
next
  case Unmerged
  have "SplitLimitedFields (spaced (''u'' # [se_Staged e, se_Unstaged e] # take 8 skipped) (se_Path e)) (CHR '' '') 11
      = (''u'' # [se_Staged e, se_Unstaged e] # take 8 skipped) @ [se_Path e]"
    using assms Unmerged
    by (intro SplitLimited_spaced) (auto simp: wfEntry_def wfSkipped_def list_all_iff dest: in_set_takeD)
  then have "parseUnmergedEntry (spaced (''u'' # [se_Staged e, se_Unstaged e] # take 8 skipped) (se_Path e)) = Inr e"
    using assms Unmerged by (simp add: parseUnmergedEntry_def wfSkipped_def codeAt_def nth_append wfEntry_def)
  then show ?thesis using Unmerged by (simp add: entryRecords_def spaced_def)
qed (use assms in \<open>simp_all add: entryRecords_def wfEntry_def\<close>)

lemma statusLoop_entries:
  "list_all (\<lambda>(e, sk). wfEntry e \<and> wfSkipped sk) es \<Longrightarrow>
   statusLoop (concat (map (\<lambda>(e, sk). entryRecords e sk) es)) headerLines entries =
     Inr \<lparr>st_Branch = parseBranchHeader headerLines, st_Entries = entries @ map fst es\<rparr>"
  by (induction es arbitrary: entries) (auto simp: statusLoop_entry)

text \<open>
  C39: the status parser reads back every status git can print: the branch header in all its
  shapes (unborn, detached, with or without upstream and counts) and every entry of the five kinds
  in order, a rename's original path taken from the record after it, paths with blanks included,
  whatever modes and object ids stand in the fields that are only framed.
\<close>

theorem status_roundtrip:
  assumes "wfBranch b" and "list_all (\<lambda>(e, sk). wfEntry e \<and> wfSkipped sk) es"
  shows "ParseStatus (branchRecords b @ concat (map (\<lambda>(e, sk). entryRecords e sk) es)) =
    Inr \<lparr>st_Branch = b, st_Entries = map fst es\<rparr>"
  using parseBranchHeader_records [OF assms(1)] statusLoop_entries [OF assms(2)]
  by (simp add: ParseStatus_def statusLoop_headers [OF branchRecords_hash])

definition sampleBranch :: StatusBranchInfo where
  "sampleBranch = \<lparr>sb_OID = ''ab12'', sb_Unborn = False, sb_Detached = False, sb_HeadName = ''main'',
     sb_Upstream = ''origin/main'', sb_HasUpstream = True, sb_Ahead = 2, sb_Behind = 13, sb_HasAheadBehind = True\<rparr>"

definition sampleRenamed :: StatusEntry where
  "sampleRenamed = \<lparr>se_Kind = Renamed, se_Staged = CHR ''R'', se_Unstaged = CHR ''.'', se_Path = ''new name'',
     se_OriginalPath = ''1 old'', se_RenameOrCopy = IsRename, se_Similarity = 96\<rparr>"

theorem status_roundtrip_witness:
  "ParseStatus (branchRecords sampleBranch
      @ concat (map (\<lambda>(e, sk). entryRecords e sk) [(sampleRenamed, replicate 8 ''0''), (plainEntry Untracked nul nul ''x y'', replicate 8 [])])) =
    Inr \<lparr>st_Branch = sampleBranch, st_Entries = [sampleRenamed, plainEntry Untracked nul nul ''x y'']\<rparr>"
proof -
  have "wfBranch sampleBranch" by (simp add: wfBranch_def sampleBranch_def)
  moreover have "list_all (\<lambda>(e, sk). wfEntry e \<and> wfSkipped sk)
      [(sampleRenamed, replicate 8 ''0''), (plainEntry Untracked nul nul ''x y'', replicate 8 [])]"
    by (simp add: wfEntry_def sampleRenamed_def plainEntry_def wfSkipped_def list_all_iff)
  ultimately show ?thesis using status_roundtrip by fastforce
qed

text \<open>The shape of a status listing and the number of its entries, by counting blanks only.\<close>

fun statusShape :: "bytes list \<Rightarrow> nat option" where
  "statusShape [] = Some 0"
| "statusShape ([] # recs) = statusShape recs"
| "statusShape ((c # cs) # recs) =
     (let blanks = length (filter (\<lambda>x. x = CHR '' '') cs)
      in if c = CHR ''#'' then statusShape recs
         else if c = CHR ''1'' then (if 8 \<le> blanks then map_option Suc (statusShape recs) else None)
         else if c = CHR ''u'' then (if 10 \<le> blanks then map_option Suc (statusShape recs) else None)
         else if c = CHR ''2'' then
           (case recs of
              [] \<Rightarrow> None
            | orig # recs' \<Rightarrow> if 9 \<le> blanks then map_option Suc (statusShape recs') else None)
         else if c = CHR ''?'' \<or> c = CHR ''!'' then
           (if cs = [] then statusShape recs else map_option Suc (statusShape recs))
         else None)"

lemma length_limitedLoop:
  "length (limitedLoop b d k) = Suc (min k (length (filter (\<lambda>x. x = d) b)))"
proof (induction b d k rule: limitedLoop.induct)
  case (2 rest d k)
  show ?case
  proof (cases "IndexByte rest d")
    case None
    then have "filter (\<lambda>x. x = d) rest = []"
      using IndexByte_None_iff [of rest d] by (auto simp: filter_empty_conv)
    then show ?thesis using None by simp
  next
    case (Some i)
    have "rest = take i rest @ d # drop (Suc i) rest" by (rule IndexByte_split [OF Some])
    moreover have "filter (\<lambda>x. x = d) (take i rest) = []"
      using IndexByte_Some_take [OF Some] by (auto simp: filter_empty_conv)
    ultimately have "length (filter (\<lambda>x. x = d) rest) = Suc (length (filter (\<lambda>x. x = d) (drop (Suc i) rest)))"
      by (metis (mono_tags, lifting) append_Nil filter.simps(2) filter_append length_Cons)
    then show ?thesis using 2 [OF Some] Some by simp
  qed
qed simp

lemma length_SplitLimited_blank:
  "c \<noteq> CHR '' '' \<Longrightarrow> 0 < n \<Longrightarrow> length (SplitLimitedFields (c # cs) (CHR '' '') n) = n \<longleftrightarrow>
     n - 1 \<le> length (filter (\<lambda>x. x = CHR '' '') cs)"
  by (auto simp: SplitLimitedFields_def length_limitedLoop)

lemma statusLoop_shape:
  "(case statusLoop recs hs es of Inr r \<Rightarrow> Some (length (st_Entries r)) | Inl _ \<Rightarrow> None) =
   map_option (\<lambda>k. length es + k) (statusShape recs)"
proof (induction recs arbitrary: hs es rule: statusShape.induct)
  case (3 c cs recs)
  let ?b = "length (filter (\<lambda>x. x = CHR '' '') cs)"
  have fc: "c \<noteq> CHR '' '' \<Longrightarrow> length (SplitLimitedFields (c # cs) (CHR '' '') 9) = 9 \<longleftrightarrow> 8 \<le> ?b"
    "c \<noteq> CHR '' '' \<Longrightarrow> length (SplitLimitedFields (c # cs) (CHR '' '') 10) = 10 \<longleftrightarrow> 9 \<le> ?b"
    "c \<noteq> CHR '' '' \<Longrightarrow> length (SplitLimitedFields (c # cs) (CHR '' '') 11) = 11 \<longleftrightarrow> 10 \<le> ?b"
    using length_SplitLimited_blank [of c _ cs] by simp_all
  have comp: "map_option ((+) (Suc n)) x = map_option (\<lambda>k. n + k) (map_option Suc x)" for n x
    by (cases x) simp_all
  consider "c = CHR ''#''" | "c = CHR ''1''" | "c = CHR ''u''" | "c = CHR ''2''" | "c = CHR ''?'' \<or> c = CHR ''!''"
    | "c \<notin> {CHR ''#'', CHR ''1'', CHR ''u'', CHR ''2'', CHR ''?'', CHR ''!''}" by blast
  then show ?case
  proof cases
    case 4
    then show ?thesis
      using 3 fc(2) by (cases recs) (auto simp: parseRenamedEntry_def Let_def comp)
  qed (use 3 fc in \<open>auto simp: parseOrdinaryEntry_def parseUnmergedEntry_def Let_def comp\<close>)
qed simp_all

text \<open>
  the status parser fails only where the format is broken.  It returns a result exactly when
  every record has a known marker with its field count and every rename is followed by its original
  path (\<open>statusShape\<close>); it then holds as many entries as entry records, none skipped and none
  invented.
\<close>

theorem status_total:
  "statusShape recs = (case ParseStatus recs of Inr r \<Rightarrow> Some (length (st_Entries r)) | Inl _ \<Rightarrow> None)"
  using statusLoop_shape [of recs "[]" "[]"] by (simp add: ParseStatus_def option.map_ident)

end
