(* ===== verification/InProgress.thy ===== *)
theory InProgress
  imports Records
begin

text \<open>
  \<^verbatim>\<open>gitpreflight/operation.go\<close>: which git operation a repository is in the middle of, from the state
  files of its git directory and the unmerged paths of its status, and the sentence that names it
  (with \<^verbatim>\<open>gitclient.ShortSHA\<close> of \<^verbatim>\<open>gitclient/sha.go\<close>).  The empty \<^verbatim>\<open>InProgressKind\<close> string of a
  missing sequencer kind is \<^term>\<open>None\<close>; a nil path slice is the empty list.
\<close>

section \<open>Types\<close>

datatype InProgressKind =
  InProgressMerge | InProgressCherryPick | InProgressRevert | InProgressRebase | InProgressBisect
  | InProgressUnmergedOnly

record InProgressOperation =
  ip_Kind :: InProgressKind
  ip_OtherSha :: "sha option"
  ip_HeadName :: "bytes option"
  ip_ConflictedPaths :: "path list"
  ip_CanContinue :: bool
  ip_CanAbort :: bool
  ip_IsSequence :: bool
  ip_UnmergedCount :: nat
  ip_CanSkip :: bool

record InProgressStateFiles =
  sf_MergeHead :: "sha option"
  sf_CherryPickHead :: "sha option"
  sf_RevertHead :: "sha option"
  sf_BisectLog :: bool
  sf_RebaseMergeDir :: bool
  sf_RebaseApplyDir :: bool
  sf_RebaseApplyApplying :: bool
  sf_RebaseHeadName :: "bytes option"
  sf_RebaseOnto :: "sha option"
  sf_SequencerDir :: bool
  sf_SequencerTodoKind :: "InProgressKind option"

record inProgressInput =
  ii_otherSha :: "sha option"
  ii_headName :: "bytes option"
  ii_canContinue :: bool
  ii_canAbort :: bool
  ii_isSequence :: bool
  ii_unmergedPaths :: "path list"

section \<open>Operations\<close>

definition operationOf :: "InProgressKind \<Rightarrow> inProgressInput \<Rightarrow> InProgressOperation" where
  "operationOf kind inp =
     \<lparr>ip_Kind = kind, ip_OtherSha = ii_otherSha inp, ip_HeadName = ii_headName inp,
      ip_ConflictedPaths = ii_unmergedPaths inp, ip_CanContinue = ii_canContinue inp,
      ip_CanAbort = ii_canAbort inp, ip_IsSequence = ii_isSequence inp,
      ip_UnmergedCount = length (ii_unmergedPaths inp),
      ip_CanSkip = (kind = InProgressCherryPick \<or> kind = InProgressRevert \<or> kind = InProgressRebase)\<rparr>"

definition ClassifyInProgress :: "InProgressStateFiles \<Rightarrow> path list \<Rightarrow> InProgressOperation option" where
  "ClassifyInProgress files unmergedPaths =
     (let inp = (\<lambda>sha name cont abrt sq.
            \<lparr>ii_otherSha = sha, ii_headName = name, ii_canContinue = cont, ii_canAbort = abrt,
             ii_isSequence = sq, ii_unmergedPaths = unmergedPaths\<rparr>);
          sq = sf_SequencerDir files
      in if sf_RebaseMergeDir files \<or> sf_RebaseApplyDir files then
           (if sf_RebaseApplyDir files \<and> sf_RebaseApplyApplying files then
              Some ((operationOf InProgressRebase
                       (inp (sf_RebaseOnto files) (sf_RebaseHeadName files) False False sq))
                    \<lparr>ip_CanSkip := False\<rparr>)
            else Some (operationOf InProgressRebase
                   (inp (sf_RebaseOnto files) (sf_RebaseHeadName files) True True sq)))
         else if sf_MergeHead files \<noteq> None then
           Some (operationOf InProgressMerge (inp (sf_MergeHead files) None True True sq))
         else if sf_CherryPickHead files \<noteq> None then
           Some (operationOf InProgressCherryPick (inp (sf_CherryPickHead files) None True True sq))
         else if sf_RevertHead files \<noteq> None then
           Some (operationOf InProgressRevert (inp (sf_RevertHead files) None True True sq))
         else if sq \<and> sf_SequencerTodoKind files \<noteq> None then
           Some (operationOf (the (sf_SequencerTodoKind files)) (inp None None True True True))
         else if sf_BisectLog files then
           Some (operationOf InProgressBisect (inp None None False True sq))
         else if 0 < length unmergedPaths then
           Some (operationOf InProgressUnmergedOnly (inp None None False False sq))
         else None)"

fun kindLabel :: "InProgressKind \<Rightarrow> bytes" where
  "kindLabel InProgressMerge = ''Merging''"
| "kindLabel InProgressCherryPick = ''Cherry-picking''"
| "kindLabel InProgressRevert = ''Reverting''"
| "kindLabel InProgressRebase = ''Rebasing''"
| "kindLabel InProgressBisect = ''Bisecting''"
| "kindLabel InProgressUnmergedOnly = ''Unresolved conflict''"

definition ShortSHALen :: nat where
  "ShortSHALen = 7"

definition ShortSHA :: "sha \<Rightarrow> bytes" where
  "ShortSHA sha = (if ShortSHALen < length sha then take ShortSHALen sha else sha)"

definition DescribeInProgress :: "InProgressOperation \<Rightarrow> bytes" where
  "DescribeInProgress op =
     (if ip_Kind op = InProgressRebase then
        (let branch = (case ip_HeadName op of
               None \<Rightarrow> []
             | Some b \<Rightarrow> if length ''refs/heads/'' \<le> length b \<and> take (length ''refs/heads/'') b = ''refs/heads/''
                         then drop (length ''refs/heads/'') b else b)
         in if branch \<noteq> [] then ''Rebasing '' @ branch else ''Rebasing'')
      else if ip_Kind op = InProgressUnmergedOnly then ''Unresolved conflict''
      else
        (let shortSha = (case ip_OtherSha op of
               None \<Rightarrow> []
             | Some s \<Rightarrow> if 0 < length s then [CHR '' '', CHR 0x60] @ ShortSHA s @ [CHR 0x60] else [])
         in kindLabel (ip_Kind op) @ shortSha))"

lemmas [classify_defs] = operationOf_def ClassifyInProgress_def

section \<open>Properties\<close>

text \<open>A \<^verbatim>\<open>git am\<close> leaves the directory of an apply-backend rebase with one more marker in it.\<close>

definition amInProgress :: "InProgressStateFiles \<Rightarrow> bool" where
  "amInProgress files \<longleftrightarrow> sf_RebaseApplyDir files \<and> sf_RebaseApplyApplying files"

text \<open>The kinds with a state file present, in the order the precedence table gives them.\<close>

definition presentKinds :: "InProgressStateFiles \<Rightarrow> path list \<Rightarrow> InProgressKind list" where
  "presentKinds files unmergedPaths =
     [k. (p, k) \<leftarrow>
        [(sf_RebaseMergeDir files \<or> sf_RebaseApplyDir files, InProgressRebase),
         (sf_MergeHead files \<noteq> None, InProgressMerge),
         (sf_CherryPickHead files \<noteq> None, InProgressCherryPick),
         (sf_RevertHead files \<noteq> None, InProgressRevert)]
        @ (case sf_SequencerTodoKind files of None \<Rightarrow> [] | Some k \<Rightarrow> [(sf_SequencerDir files, k)])
        @ [(sf_BisectLog files, InProgressBisect), (unmergedPaths \<noteq> [], InProgressUnmergedOnly)], p]"

text \<open>\<^verbatim>\<open>gitops.ReadInProgressStateFiles\<close> reads only these two kinds off \<^verbatim>\<open>sequencer/todo\<close>.\<close>

definition todoKindOK :: "InProgressStateFiles \<Rightarrow> bool" where
  "todoKindOK files \<longleftrightarrow> sf_SequencerTodoKind files \<in> {None, Some InProgressRevert, Some InProgressCherryPick}"

lemma classify_kind:
  "map_option ip_Kind (ClassifyInProgress files un) =
     (case presentKinds files un of [] \<Rightarrow> None | k # _ \<Rightarrow> Some k)"
  by (auto simp: classify_defs presentKinds_def Let_def split: option.splits)

lemma classify_paths:
  "ClassifyInProgress files un = Some op \<Longrightarrow>
   ip_ConflictedPaths op = un \<and> ip_UnmergedCount op = length un \<and> ip_IsSequence op = sf_SequencerDir files"
  by (auto simp: classify_defs Let_def split: if_splits)

lemma classify_flags:
  assumes "todoKindOK files" and "ClassifyInProgress files un = Some op"
  shows "ip_CanContinue op \<longleftrightarrow>
           ip_Kind op \<noteq> InProgressBisect \<and> ip_Kind op \<noteq> InProgressUnmergedOnly \<and> \<not> amInProgress files"
    and "ip_CanSkip op \<longleftrightarrow> ip_CanContinue op \<and> ip_Kind op \<noteq> InProgressMerge"
    and "ip_CanAbort op \<longleftrightarrow> ip_CanContinue op \<or> ip_Kind op = InProgressBisect"
  using assms by (auto simp: classify_defs todoKindOK_def amInProgress_def Let_def split: if_splits)

definition demoFiles :: InProgressStateFiles where
  "demoFiles =
     \<lparr>sf_MergeHead = None, sf_CherryPickHead = Some ''c0ffee'', sf_RevertHead = None, sf_BisectLog = True,
      sf_RebaseMergeDir = False, sf_RebaseApplyDir = False, sf_RebaseApplyApplying = False,
      sf_RebaseHeadName = None, sf_RebaseOnto = None, sf_SequencerDir = True,
      sf_SequencerTodoKind = Some InProgressCherryPick\<rparr>"

text \<open>
  The reported operation is the first present one of the precedence table rebase, merge,
  cherry-pick, revert, paused sequencer, bisect, bare conflict, and there is none exactly when no
  signal is present; Continue is offered exactly outside bisect, a bare conflict and a
  \<^verbatim>\<open>git am\<close>, Skip exactly where Continue is and the operation is no merge, Abort exactly where
  Continue is or for a bisect; the conflict count is the count of the uncapped path list.
\<close>

theorem in_progress_classified:
  assumes "todoKindOK files"
  shows "case ClassifyInProgress files un of
           None \<Rightarrow> presentKinds files un = []
         | Some op \<Rightarrow>
             (\<exists>rest. presentKinds files un = ip_Kind op # rest) \<and>
             (ip_CanContinue op \<longleftrightarrow>
                ip_Kind op \<noteq> InProgressBisect \<and> ip_Kind op \<noteq> InProgressUnmergedOnly \<and> \<not> amInProgress files) \<and>
             (ip_CanSkip op \<longleftrightarrow> ip_CanContinue op \<and> ip_Kind op \<noteq> InProgressMerge) \<and>
             (ip_CanAbort op \<longleftrightarrow> ip_CanContinue op \<or> ip_Kind op = InProgressBisect) \<and>
             ip_ConflictedPaths op = un \<and> ip_UnmergedCount op = length un"
proof (cases "ClassifyInProgress files un")
  case None
  then show ?thesis
    using classify_kind [of files un] by (simp split: list.splits)
next
  case (Some op)
  then show ?thesis
    using classify_kind [of files un] classify_flags [OF assms Some] classify_paths [OF Some]
    by (simp split: list.splits)
qed

lemma in_progress_classified_witness:
  "map_option (\<lambda>op. (ip_Kind op, ip_CanSkip op, ip_UnmergedCount op)) (ClassifyInProgress demoFiles [''a'']) =
     Some (InProgressCherryPick, True, 1)"
  using in_progress_classified [of demoFiles "[''a'']"]
  by (auto simp: todoKindOK_def presentKinds_def amInProgress_def demoFiles_def split: option.splits)

text \<open>A label is never empty, and a sha appears in it only abbreviated.\<close>

lemma ShortSHA_prefix: "prefix (ShortSHA s) s \<and> length (ShortSHA s) = min ShortSHALen (length s)"
  by (auto simp: ShortSHA_def take_is_prefix)

end
