(* ===== verification/StatusFold.thy ===== *)
theory StatusFold
  imports StatusParse InProgress
begin

text \<open>
  \<^verbatim>\<open>gitpreflight/status.go\<close>: the folds that turn one parsed status into the inputs of the
  pre-flight classifiers and into the wire summary, with the two input types of
  \<^verbatim>\<open>gitpreflight/reset.go\<close> they share.  \<^verbatim>\<open>AutoFetch\<close> is left nil by the fold and filled in by the caller.
\<close>

section \<open>Types\<close>

datatype HeadKind = HeadDetached | HeadUnborn | HeadBranch

record HeadState =
  hs_Kind :: HeadKind
  hs_Name :: bytes
  hs_SHA :: sha

record StatusCounts =
  sc_Staged :: nat
  sc_Unstaged :: nat
  sc_Untracked :: nat
  sc_Unmerged :: nat

record StatusUpstream =
  su_Name :: bytes
  su_Ahead :: int
  su_Behind :: int

record AutoFetchStatus =
  af_State :: bytes
  af_Kind :: bytes
  af_Message :: bytes
  af_At :: bytes

record StatusSummary =
  ss_Head :: HeadState
  ss_Upstream :: "StatusUpstream option"
  ss_Counts :: StatusCounts
  ss_IsClean :: bool
  ss_DirtyPaths :: "path list"
  ss_DirtyTruncated :: bool
  ss_InProgress :: "InProgressOperation option"
  ss_AutoFetch :: "AutoFetchStatus option"

record DirtyPath =
  dp_Path :: path
  dp_Tracked :: bool

record ResetDirty =
  rd_Staged :: "path list"
  rd_Unstaged :: "path list"
  rd_Untracked :: "path list"

section \<open>Folds\<close>

definition HeadStateFromBranch :: "StatusBranchInfo \<Rightarrow> HeadState" where
  "HeadStateFromBranch b =
     (if sb_Detached b then \<lparr>hs_Kind = HeadDetached, hs_Name = [], hs_SHA = sb_OID b\<rparr>
      else if sb_Unborn b then \<lparr>hs_Kind = HeadUnborn, hs_Name = sb_HeadName b, hs_SHA = []\<rparr>
      else \<lparr>hs_Kind = HeadBranch, hs_Name = sb_HeadName b, hs_SHA = []\<rparr>)"

text \<open>One round of the loop of \<^verbatim>\<open>SummarizeStatus\<close>: the four counters and the dirty paths so far.\<close>

definition summarizeEntry :: "StatusCounts \<times> path list \<Rightarrow> StatusEntry \<Rightarrow> StatusCounts \<times> path list" where
  "summarizeEntry acc e =
     (case acc of (c, dirty) \<Rightarrow>
        (case se_Kind e of
           Untracked \<Rightarrow> (c\<lparr>sc_Untracked := sc_Untracked c + 1\<rparr>, dirty @ [se_Path e])
         | Unmerged \<Rightarrow> (c\<lparr>sc_Unmerged := sc_Unmerged c + 1\<rparr>, dirty @ [se_Path e])
         | Ignored \<Rightarrow> (c, dirty)
         | _ \<Rightarrow>
             (let c1 = (if se_Staged e \<noteq> CHR ''.'' then c\<lparr>sc_Staged := sc_Staged c + 1\<rparr> else c);
                  c2 = (if se_Unstaged e \<noteq> CHR ''.'' then c1\<lparr>sc_Unstaged := sc_Unstaged c1 + 1\<rparr> else c1)
              in (c2, dirty @ [se_Path e]))))"

definition SummarizeStatus :: "StatusResult \<Rightarrow> InProgressOperation option \<Rightarrow> StatusSummary" where
  "SummarizeStatus result inProgress =
     (case foldl summarizeEntry (\<lparr>sc_Staged = 0, sc_Unstaged = 0, sc_Untracked = 0, sc_Unmerged = 0\<rparr>, [])
             (st_Entries result) of (c, dirty) \<Rightarrow>
        \<lparr>ss_Head = HeadStateFromBranch (st_Branch result),
         ss_Upstream =
           (if sb_HasUpstream (st_Branch result) then
              Some \<lparr>su_Name = sb_Upstream (st_Branch result), su_Ahead = sb_Ahead (st_Branch result),
                    su_Behind = sb_Behind (st_Branch result)\<rparr>
            else None),
         ss_Counts = c,
         ss_IsClean = (sc_Staged c = 0 \<and> sc_Unstaged c = 0 \<and> sc_Untracked c = 0 \<and> sc_Unmerged c = 0),
         ss_DirtyPaths = dirty, ss_DirtyTruncated = False, ss_InProgress = inProgress,
         ss_AutoFetch = None\<rparr>)"

definition dirtyOf :: "StatusEntry \<Rightarrow> DirtyPath list" where
  "dirtyOf e =
     (case se_Kind e of
        Untracked \<Rightarrow> [\<lparr>dp_Path = se_Path e, dp_Tracked = False\<rparr>]
      | Ignored \<Rightarrow> []
      | _ \<Rightarrow>
          \<lparr>dp_Path = se_Path e, dp_Tracked = True\<rparr> #
          (if se_Kind e = Renamed \<and> se_OriginalPath e \<noteq> []
           then [\<lparr>dp_Path = se_OriginalPath e, dp_Tracked = True\<rparr>] else []))"

definition DirtyPaths :: "StatusResult \<Rightarrow> DirtyPath list" where
  "DirtyPaths result = concat (map dirtyOf (st_Entries result))"

definition UnmergedPaths :: "StatusResult \<Rightarrow> path list" where
  "UnmergedPaths result = map se_Path (filter (\<lambda>e. se_Kind e = Unmerged) (st_Entries result))"

definition splitEntry :: "ResetDirty \<Rightarrow> StatusEntry \<Rightarrow> ResetDirty" where
  "splitEntry d e =
     (case se_Kind e of
        Untracked \<Rightarrow> d\<lparr>rd_Untracked := rd_Untracked d @ [se_Path e]\<rparr>
      | Unmerged \<Rightarrow>
          d\<lparr>rd_Staged := rd_Staged d @ [se_Path e], rd_Unstaged := rd_Unstaged d @ [se_Path e]\<rparr>
      | Ignored \<Rightarrow> d
      | _ \<Rightarrow>
          (let d1 = (if se_Staged e \<noteq> CHR ''.'' then
                       (let s = rd_Staged d @ [se_Path e]
                        in d\<lparr>rd_Staged :=
                               (if se_Kind e = Renamed \<and> se_OriginalPath e \<noteq> [] then s @ [se_OriginalPath e] else s)\<rparr>)
                     else d)
           in if se_Unstaged e \<noteq> CHR ''.'' then d1\<lparr>rd_Unstaged := rd_Unstaged d1 @ [se_Path e]\<rparr> else d1))"

definition DirtySplit :: "StatusResult \<Rightarrow> ResetDirty" where
  "DirtySplit result =
     foldl splitEntry \<lparr>rd_Staged = [], rd_Unstaged = [], rd_Untracked = []\<rparr> (st_Entries result)"

definition StagedNewPaths :: "StatusResult \<Rightarrow> path list" where
  "StagedNewPaths result =
     map se_Path (filter (\<lambda>e. se_Kind e = Ordinary \<and> se_Staged e = CHR ''A'') (st_Entries result))"

definition DirtyPathsDisplayCap :: nat where
  "DirtyPathsDisplayCap = 200"

section \<open>What the folds collect\<close>

text \<open>The entries of each class, and whether git prints an entry at all only when it is dirty.\<close>

definition trackedKind :: "EntryKind \<Rightarrow> bool" where
  "trackedKind k \<longleftrightarrow> k = Ordinary \<or> k = Renamed"

definition stagedEntry :: "StatusEntry \<Rightarrow> bool" where
  "stagedEntry e \<longleftrightarrow> trackedKind (se_Kind e) \<and> se_Staged e \<noteq> CHR ''.''"

definition unstagedEntry :: "StatusEntry \<Rightarrow> bool" where
  "unstagedEntry e \<longleftrightarrow> trackedKind (se_Kind e) \<and> se_Unstaged e \<noteq> CHR ''.''"

definition changedEntry :: "StatusEntry \<Rightarrow> bool" where
  "changedEntry e \<longleftrightarrow> (trackedKind (se_Kind e) \<longrightarrow> stagedEntry e \<or> unstagedEntry e)"

lemma summarize_fold:
  "foldl summarizeEntry (c, ps) es =
     (\<lparr>sc_Staged = sc_Staged c + length (filter stagedEntry es),
       sc_Unstaged = sc_Unstaged c + length (filter unstagedEntry es),
       sc_Untracked = sc_Untracked c + length (filter (\<lambda>e. se_Kind e = Untracked) es),
       sc_Unmerged = sc_Unmerged c + length (filter (\<lambda>e. se_Kind e = Unmerged) es),
       \<dots> = StatusCounts.more c\<rparr>,
      ps @ map se_Path (filter (\<lambda>e. se_Kind e \<noteq> Ignored) es))"
proof (induction es arbitrary: c ps)
  case (Cons e es)
  then show ?case
    by (cases "se_Kind e")
      (auto simp: summarizeEntry_def stagedEntry_def unstagedEntry_def trackedKind_def Let_def)
qed simp

lemma split_fold:
  "foldl splitEntry d es =
     d\<lparr>rd_Staged := rd_Staged d @ concat (map (\<lambda>e.
          (if stagedEntry e \<or> se_Kind e = Unmerged then [se_Path e] else []) @
          (if stagedEntry e \<and> se_Kind e = Renamed \<and> se_OriginalPath e \<noteq> [] then [se_OriginalPath e] else [])) es),
       rd_Unstaged := rd_Unstaged d @ map se_Path (filter (\<lambda>e. unstagedEntry e \<or> se_Kind e = Unmerged) es),
       rd_Untracked := rd_Untracked d @ map se_Path (filter (\<lambda>e. se_Kind e = Untracked) es)\<rparr>"
proof (induction es arbitrary: d)
  case (Cons e es)
  then show ?case
    by (cases "se_Kind e") (auto simp: splitEntry_def stagedEntry_def unstagedEntry_def trackedKind_def Let_def)
qed simp

text \<open>Membership in the three folds, entry by entry.\<close>

lemma DirtySplit_members:
  "p \<in> set (rd_Staged (DirtySplit r)) \<longleftrightarrow>
     (\<exists>e\<in>set (st_Entries r). ((stagedEntry e \<or> se_Kind e = Unmerged) \<and> p = se_Path e) \<or>
        (stagedEntry e \<and> se_Kind e = Renamed \<and> se_OriginalPath e \<noteq> [] \<and> p = se_OriginalPath e))"
  "p \<in> set (rd_Unstaged (DirtySplit r)) \<longleftrightarrow>
     (\<exists>e\<in>set (st_Entries r). (unstagedEntry e \<or> se_Kind e = Unmerged) \<and> p = se_Path e)"
  "p \<in> set (rd_Untracked (DirtySplit r)) \<longleftrightarrow>
     (\<exists>e\<in>set (st_Entries r). se_Kind e = Untracked \<and> p = se_Path e)"
  unfolding DirtySplit_def split_fold by (force split: if_splits)+

definition dirtyTracked :: "StatusResult \<Rightarrow> path set" where
  "dirtyTracked r = dp_Path ` {d \<in> set (DirtyPaths r). dp_Tracked d}"

definition dirtyUntracked :: "StatusResult \<Rightarrow> path set" where
  "dirtyUntracked r = dp_Path ` {d \<in> set (DirtyPaths r). \<not> dp_Tracked d}"

lemma dirtyOf_members:
  "(\<exists>d\<in>set (dirtyOf e). dp_Tracked d \<and> dp_Path d = p) \<longleftrightarrow>
     se_Kind e \<noteq> Untracked \<and> se_Kind e \<noteq> Ignored \<and>
     (p = se_Path e \<or> (se_Kind e = Renamed \<and> se_OriginalPath e \<noteq> [] \<and> p = se_OriginalPath e))"
  "(\<exists>d\<in>set (dirtyOf e). \<not> dp_Tracked d \<and> dp_Path d = p) \<longleftrightarrow> se_Kind e = Untracked \<and> p = se_Path e"
  by (cases "se_Kind e"; auto simp: dirtyOf_def)+

lemma dirtyTracked_iff:
  "p \<in> dirtyTracked r \<longleftrightarrow>
     (\<exists>e\<in>set (st_Entries r). se_Kind e \<noteq> Untracked \<and> se_Kind e \<noteq> Ignored \<and>
        (p = se_Path e \<or> (se_Kind e = Renamed \<and> se_OriginalPath e \<noteq> [] \<and> p = se_OriginalPath e)))"
proof -
  have "p \<in> dirtyTracked r \<longleftrightarrow> (\<exists>e\<in>set (st_Entries r). \<exists>d\<in>set (dirtyOf e). dp_Tracked d \<and> dp_Path d = p)"
    by (auto simp: dirtyTracked_def DirtyPaths_def)
  then show ?thesis by (simp only: dirtyOf_members)
qed

lemma dirtyUntracked_eq: "dirtyUntracked r = set (rd_Untracked (DirtySplit r))"
proof (rule set_eqI)
  fix p
  have "p \<in> dirtyUntracked r \<longleftrightarrow> (\<exists>e\<in>set (st_Entries r). \<exists>d\<in>set (dirtyOf e). \<not> dp_Tracked d \<and> dp_Path d = p)"
    by (auto simp: dirtyUntracked_def DirtyPaths_def)
  then show "p \<in> dirtyUntracked r \<longleftrightarrow> p \<in> set (rd_Untracked (DirtySplit r))"
    by (simp only: dirtyOf_members DirtySplit_members)
qed

text \<open>A rename git found only in the worktree: its source is dirty but not staged.\<close>

definition worktreeRenameSources :: "StatusResult \<Rightarrow> path set" where
  "worktreeRenameSources r =
     se_OriginalPath ` {e \<in> set (st_Entries r). se_Kind e = Renamed \<and> \<not> stagedEntry e \<and> se_OriginalPath e \<noteq> []}"

lemma dirtyTracked_split:
  assumes "list_all changedEntry (st_Entries r)"
  shows "dirtyTracked r =
         set (rd_Staged (DirtySplit r)) \<union> set (rd_Unstaged (DirtySplit r)) \<union> worktreeRenameSources r"
proof -
  have ch: "stagedEntry e \<or> unstagedEntry e \<or> se_Kind e = Unmerged"
    if "e \<in> set (st_Entries r)" and "se_Kind e \<noteq> Untracked" and "se_Kind e \<noteq> Ignored" for e
    using assms that by (cases "se_Kind e") (auto simp: list_all_iff changedEntry_def trackedKind_def)
  have kinds: "stagedEntry e \<or> unstagedEntry e \<Longrightarrow> se_Kind e \<noteq> Untracked \<and> se_Kind e \<noteq> Ignored" for e
    by (auto simp: stagedEntry_def unstagedEntry_def trackedKind_def)
  show ?thesis
  proof (rule set_eqI)
    fix p
    show "p \<in> dirtyTracked r \<longleftrightarrow>
          p \<in> set (rd_Staged (DirtySplit r)) \<union> set (rd_Unstaged (DirtySplit r)) \<union> worktreeRenameSources r"
      unfolding Un_iff dirtyTracked_iff DirtySplit_members worktreeRenameSources_def image_iff
      using ch kinds by (smt (verit) EntryKind.distinct mem_Collect_eq)
  qed
qed

lemma StagedNew_staged: "set (StagedNewPaths r) \<subseteq> set (rd_Staged (DirtySplit r))"
  by (fastforce simp: StagedNewPaths_def DirtySplit_members stagedEntry_def trackedKind_def)

lemma IsClean_iff:
  assumes "list_all changedEntry (st_Entries r)"
  shows "ss_IsClean (SummarizeStatus r ip) \<longleftrightarrow> DirtyPaths r = []"
proof -
  have "DirtyPaths r = [] \<longleftrightarrow> (\<forall>e\<in>set (st_Entries r). se_Kind e = Ignored)"
    by (auto simp: DirtyPaths_def dirtyOf_def split: EntryKind.splits) (metis EntryKind.exhaust)
  moreover have "se_Kind e = Ignored \<longleftrightarrow>
      \<not> stagedEntry e \<and> \<not> unstagedEntry e \<and> se_Kind e \<noteq> Untracked \<and> se_Kind e \<noteq> Unmerged"
    if "e \<in> set (st_Entries r)" for e
    using assms that
    by (cases "se_Kind e") (auto simp: list_all_iff changedEntry_def stagedEntry_def unstagedEntry_def trackedKind_def)
  ultimately show ?thesis
    by (auto simp: SummarizeStatus_def summarize_fold filter_empty_conv)
qed

lemma summary_counts:
  "sc_Unmerged (ss_Counts (SummarizeStatus r ip)) = length (UnmergedPaths r)"
  "sc_Untracked (ss_Counts (SummarizeStatus r ip)) = length (rd_Untracked (DirtySplit r))"
  by (simp_all add: SummarizeStatus_def summarize_fold UnmergedPaths_def DirtySplit_def split_fold)

definition demoStatus :: StatusResult where
  "demoStatus =
     \<lparr>st_Branch = parseBranchHeader [],
      st_Entries =
        [plainEntry Ordinary (CHR ''A'') (CHR ''.'') ''new'',
         (plainEntry Renamed (CHR ''R'') (CHR ''.'') ''b'')\<lparr>se_OriginalPath := ''a''\<rparr>,
         plainEntry Unmerged (CHR ''U'') (CHR ''U'') ''c'',
         plainEntry Untracked (CHR ''?'') (CHR ''?'') ''d'',
         plainEntry Ignored (CHR ''!'') (CHR ''!'') ''e'']\<rparr>"

text \<open>
  The folds of one status agree, for every status whose tracked entries are changed on one
  side at least (git prints no others).  The summary is clean exactly when no path is dirty; the
  tracked dirty paths are exactly the staged and unstaged ones and the sources of worktree-only
  renames, the untracked ones are the same in both splits; the counters are the lengths of the
  lists, every unmerged path is both staged and unstaged, and every staged new file is staged.
\<close>

theorem status_folds_agree:
  assumes "list_all changedEntry (st_Entries r)"
  shows "(ss_IsClean (SummarizeStatus r ip) \<longleftrightarrow> DirtyPaths r = []) \<and>
         dirtyTracked r =
           set (rd_Staged (DirtySplit r)) \<union> set (rd_Unstaged (DirtySplit r)) \<union> worktreeRenameSources r \<and>
         dirtyUntracked r = set (rd_Untracked (DirtySplit r)) \<and>
         sc_Unmerged (ss_Counts (SummarizeStatus r ip)) = length (UnmergedPaths r) \<and>
         sc_Untracked (ss_Counts (SummarizeStatus r ip)) = length (rd_Untracked (DirtySplit r)) \<and>
         set (UnmergedPaths r) \<subseteq> set (rd_Staged (DirtySplit r)) \<inter> set (rd_Unstaged (DirtySplit r)) \<and>
         set (StagedNewPaths r) \<subseteq> set (rd_Staged (DirtySplit r))"
proof -
  have "set (UnmergedPaths r) \<subseteq> set (rd_Staged (DirtySplit r)) \<inter> set (rd_Unstaged (DirtySplit r))"
    by (auto simp: UnmergedPaths_def DirtySplit_members)
  then show ?thesis
    using IsClean_iff [OF assms] dirtyTracked_split [OF assms] dirtyUntracked_eq summary_counts StagedNew_staged
    by simp
qed

lemma status_folds_agree_witness:
  "list_all changedEntry (st_Entries demoStatus) \<and>
   dirtyTracked demoStatus = {''new'', ''b'', ''a'', ''c''} \<and> dirtyUntracked demoStatus = {''d''} \<and>
   \<not> ss_IsClean (SummarizeStatus demoStatus None)"
proof -
  have ch: "list_all changedEntry (st_Entries demoStatus)"
    by (simp add: demoStatus_def plainEntry_def changedEntry_def stagedEntry_def unstagedEntry_def trackedKind_def)
  have "DirtySplit demoStatus = \<lparr>rd_Staged = [''new'', ''b'', ''a'', ''c''], rd_Unstaged = [''c''], rd_Untracked = [''d'']\<rparr>"
    by (simp add: DirtySplit_def splitEntry_def demoStatus_def plainEntry_def)
  moreover have "worktreeRenameSources demoStatus = {}"
    by (auto simp: worktreeRenameSources_def demoStatus_def plainEntry_def stagedEntry_def trackedKind_def)
  moreover have "DirtyPaths demoStatus \<noteq> []"
    by (simp add: DirtyPaths_def demoStatus_def dirtyOf_def plainEntry_def)
  ultimately show ?thesis
    using status_folds_agree [OF ch, of None] ch by auto
qed

end
