(* ===== verification/Classifier.thy ===== *)
theory Classifier
  imports StatusFold
begin

text \<open>
  The contract every pre-flight classifier of \<^verbatim>\<open>gitpreflight\<close> keeps: its blockers are those of a
  fixed table of checks that apply to the input, in the table's order, none suppressing another,
  and the verdict is \<^verbatim>\<open>"blocked"\<close> exactly when there is one.  Each classifier's theory
  interprets the locale with its own table.
\<close>

locale classifier =
  fixes classify :: "'i \<Rightarrow> 'r"
    and blockers :: "'r \<Rightarrow> 'k list"
    and blocked :: "'r \<Rightarrow> bool"
    and checks :: "('k \<times> ('i \<Rightarrow> bool)) list"
  assumes blockers_table: "blockers (classify i) = map fst (filter (\<lambda>(k, c). c i) checks)"
    and blocked_verdict: "blocked (classify i) \<longleftrightarrow> blockers (classify i) \<noteq> []"
    and kinds_distinct: "distinct (map fst checks)"
begin

lemma blocked_iff: "blocked (classify i) \<longleftrightarrow> (\<exists>(k, c) \<in> set checks. c i)"
  by (auto simp: blocked_verdict blockers_table filter_empty_conv)

lemma blocker_iff: "(k, c) \<in> set checks \<Longrightarrow> k \<in> set (blockers (classify i)) \<longleftrightarrow> c i"
  using kinds_distinct by (force simp: blockers_table distinct_map inj_on_def)

lemma blockers_in_order: "subseq (blockers (classify i)) (map fst checks)"
  by (simp add: blockers_table subseq_map)

lemma blockers_distinct: "distinct (blockers (classify i))"
  using kinds_distinct by (auto simp: blockers_table distinct_map inj_on_def)

text \<open>Removing the cause of one blocker leaves the others as they were.\<close>

lemma clear_one:
  assumes "k \<in> set (blockers (classify i))"
    and "\<And>k' c. (k', c) \<in> set checks \<Longrightarrow> c j \<longleftrightarrow> c i \<and> k' \<noteq> k"
  shows "blockers (classify j) = remove1 k (blockers (classify i))"
proof -
  have "filter (\<lambda>(k', c). c j) checks = filter (\<lambda>(k', c). c i \<and> k' \<noteq> k) checks"
    using assms(2) by (intro filter_cong) blast+
  then have "blockers (classify j) = filter (\<lambda>k'. k' \<noteq> k) (blockers (classify i))"
    by (simp add: blockers_table filter_map comp_def case_prod_unfold conj_commute)
  also have "\<dots> = remove1 k (blockers (classify i))"
    using distinct_remove1_removeAll [OF blockers_distinct]
    by (simp add: removeAll_filter_not_eq eq_commute)
  finally show ?thesis .
qed

text \<open>The headline of a dialog is the first check that applies.\<close>

lemma headline:
  assumes "checks = pre @ (k, c) # post" and "\<And>k' c'. (k', c') \<in> set pre \<Longrightarrow> \<not> c' i" and "c i"
  shows "\<exists>rest. blockers (classify i) = k # rest"
proof -
  have "filter (\<lambda>(k, c). c i) pre = []"
    using assms(2) by (auto simp: filter_empty_conv)
  then show ?thesis using assms by (auto simp: blockers_table)
qed

end

end
