(* ===== verification/Reset.thy ===== *)
theory Reset
  imports Classifier
begin

text \<open>
  \<^verbatim>\<open>gitpreflight/reset.go\<close>: the reset classifier.  Its input lists that may be nil in Go are empty
  lists here; the two counts are Go \<^verbatim>\<open>int\<close>s.
\<close>

section \<open>Types\<close>

record ResetLeavingCommit =
  rl_Sha :: sha
  rl_Subject :: bytes

datatype ResetBlocker = RsInProgressOperation | RsUnknownTarget

datatype ResetVerdict = RsClean | RsDestructive | RsBlocked

datatype ResetRoute = RsStashFirst

record ResetPreflight =
  rp_Target :: bytes
  rp_TargetSubject :: bytes
  rp_Mode :: bytes
  rp_CurrentHead :: sha
  rp_Branch :: "bytes option"
  rp_Leaving :: int
  rp_Gaining :: int
  rp_LeavingCommits :: "ResetLeavingCommit list"
  rp_LeavingTruncated :: bool
  rp_Dirty :: ResetDirty
  rp_Destroys :: "path list"
  rp_InProgress :: "InProgressOperation option"
  rp_RequiresTypedConfirmation :: bool
  rp_Routes :: "ResetRoute list"
  rp_Verdict :: ResetVerdict
  rp_Blockers :: "ResetBlocker list"

record ClassifyResetInput =
  ri_Target :: bytes
  ri_TargetSubject :: bytes
  ri_Mode :: bytes
  ri_CurrentHead :: sha
  ri_Branch :: "bytes option"
  ri_Leaving :: int
  ri_Gaining :: int
  ri_LeavingCommits :: "ResetLeavingCommit list"
  ri_LeavingTruncated :: bool
  ri_Dirty :: ResetDirty
  ri_StagedNew :: "path list"
  ri_InProgress :: "InProgressOperation option"
  ri_TargetResolves :: bool

section \<open>The classifier\<close>

fun uniqueLoop :: "path set \<Rightarrow> path list \<Rightarrow> path list \<Rightarrow> path list" where
  "uniqueLoop seen out [] = out"
| "uniqueLoop seen out (p # ps) =
     (if p \<in> seen then uniqueLoop seen out ps else uniqueLoop (insert p seen) (out @ [p]) ps)"

definition unique :: "path list \<Rightarrow> path list" where
  "unique paths = uniqueLoop {} [] paths"

definition ClassifyReset :: "ClassifyResetInput \<Rightarrow> ResetPreflight" where
  "ClassifyReset inp =
     (let destroys =
            (if ri_Mode inp = ''hard''
             then unique (rd_Staged (ri_Dirty inp) @ rd_Unstaged (ri_Dirty inp) @ ri_StagedNew inp) else []);
          blockers =
            (if ri_InProgress inp \<noteq> None then [RsInProgressOperation] else []) @
            (if \<not> ri_TargetResolves inp then [RsUnknownTarget] else []);
          verdict =
            (if 0 < length blockers then RsBlocked else if 0 < length destroys then RsDestructive else RsClean);
          leavingCommits = (if 0 < ri_Leaving inp then ri_LeavingCommits inp else []);
          leavingTruncated = (if 0 < ri_Leaving inp then ri_LeavingTruncated inp else False);
          routes = (if 0 < length destroys then [RsStashFirst] else [])
      in \<lparr>rp_Target = ri_Target inp, rp_TargetSubject = ri_TargetSubject inp, rp_Mode = ri_Mode inp,
          rp_CurrentHead = ri_CurrentHead inp, rp_Branch = ri_Branch inp, rp_Leaving = ri_Leaving inp,
          rp_Gaining = ri_Gaining inp, rp_LeavingCommits = leavingCommits,
          rp_LeavingTruncated = leavingTruncated, rp_Dirty = ri_Dirty inp, rp_Destroys = destroys,
          rp_InProgress = ri_InProgress inp,
          rp_RequiresTypedConfirmation = (ri_Mode inp = ''hard'' \<and> 0 < length destroys),
          rp_Routes = routes, rp_Verdict = verdict, rp_Blockers = blockers\<rparr>)"

section \<open>Lemmas\<close>

text \<open>\<^verbatim>\<open>unique\<close> keeps the first occurrence of every path, in order.\<close>

fun firsts :: "path list \<Rightarrow> path list" where
  "firsts [] = []"
| "firsts (p # ps) = p # filter (\<lambda>q. q \<noteq> p) (firsts ps)"

lemma uniqueLoop_eq: "uniqueLoop seen out ps = out @ filter (\<lambda>q. q \<notin> seen) (firsts ps)"
  by (induction seen out ps rule: uniqueLoop.induct) (auto simp: conj_commute intro!: filter_cong)

lemma unique_firsts: "unique ps = firsts ps"
  by (simp add: unique_def uniqueLoop_eq)

lemma firsts_set [simp]: "set (firsts ps) = set ps"
  by (induction ps) auto

lemma firsts_distinct: "distinct (firsts ps)"
  by (induction ps) auto

lemma firsts_append: "firsts (ps @ qs) = firsts ps @ filter (\<lambda>q. q \<notin> set ps) (firsts qs)"
  by (induction ps) (auto intro!: filter_cong)

lemmas reset_unfold = ClassifyReset_def Let_def

definition resetChecks :: "(ResetBlocker \<times> (ClassifyResetInput \<Rightarrow> bool)) list" where
  "resetChecks =
     [(RsInProgressOperation, \<lambda>inp. ri_InProgress inp \<noteq> None), (RsUnknownTarget, \<lambda>inp. \<not> ri_TargetResolves inp)]"

interpretation rs: classifier ClassifyReset rp_Blockers "\<lambda>r. rp_Verdict r = RsBlocked" resetChecks
  by unfold_locales (auto simp: reset_unfold resetChecks_def)

text \<open>The reset input the session builds from one status.\<close>

definition resetFromStatus :: "StatusResult \<Rightarrow> ClassifyResetInput \<Rightarrow> bool" where
  "resetFromStatus r inp \<longleftrightarrow> ri_Dirty inp = DirtySplit r \<and> ri_StagedNew inp = StagedNewPaths r"

lemma hard_destroys:
  "resetFromStatus r inp \<Longrightarrow> ri_Mode inp = ''hard'' \<Longrightarrow>
   set (rp_Destroys (ClassifyReset inp)) = set (rd_Staged (DirtySplit r)) \<union> set (rd_Unstaged (DirtySplit r))"
  using StagedNew_staged [of r] by (auto simp: reset_unfold resetFromStatus_def unique_firsts)

text \<open>
  What a hard reset takes away at an entry of the status: the path of a tracked entry, and the source of
  a rename that is in the index.  The source of a rename git found only in the worktree is a deletion
  nobody staged: nothing is left there to lose, and the code does not list it.
\<close>

fun losesAt :: "StatusEntry \<Rightarrow> path \<Rightarrow> bool" where
  "losesAt e p \<longleftrightarrow> se_Kind e \<noteq> Untracked \<and> se_Kind e \<noteq> Ignored
     \<and> (p = se_Path e
        \<or> se_Kind e = Renamed \<and> se_Staged e \<noteq> CHR ''.'' \<and> se_OriginalPath e \<noteq> [] \<and> p = se_OriginalPath e)"

lemma split_loses:
  assumes "list_all changedEntry (st_Entries r)"
  shows "set (rd_Staged (DirtySplit r)) \<union> set (rd_Unstaged (DirtySplit r)) = {p. \<exists>e\<in>set (st_Entries r). losesAt e p}"
proof -
  have "((stagedEntry e \<or> se_Kind e = Unmerged) \<and> p = se_Path e \<or>
      stagedEntry e \<and> se_Kind e = Renamed \<and> se_OriginalPath e \<noteq> [] \<and> p = se_OriginalPath e)
      \<or> (unstagedEntry e \<or> se_Kind e = Unmerged) \<and> p = se_Path e \<longleftrightarrow> losesAt e p"
    if "e \<in> set (st_Entries r)" for e p
    using assms that
    by (cases "se_Kind e") (auto simp: list_all_iff changedEntry_def stagedEntry_def unstagedEntry_def trackedKind_def)
  then show ?thesis 
    unfolding set_eq_iff Un_iff DirtySplit_members mem_Collect_eq bex_disj_distrib [symmetric] by (intro allI bex_cong refl)
qed

text \<open>The separate list of staged new files adds nothing to what the split already names.\<close>

lemma stagedNew_redundant:
  assumes "resetFromStatus r inp"
  shows "ClassifyReset inp = ClassifyReset (inp\<lparr>ri_StagedNew := []\<rparr>)"
proof -
  have "filter (\<lambda>q. q \<notin> set (rd_Staged (ri_Dirty inp) @ rd_Unstaged (ri_Dirty inp))) (firsts (ri_StagedNew inp)) = []"
    using StagedNew_staged [of r] assms by (auto simp: filter_empty_conv resetFromStatus_def)
  then have "unique (rd_Staged (ri_Dirty inp) @ rd_Unstaged (ri_Dirty inp) @ ri_StagedNew inp) =
             unique (rd_Staged (ri_Dirty inp) @ rd_Unstaged (ri_Dirty inp))"
    using firsts_append [of "rd_Staged (ri_Dirty inp) @ rd_Unstaged (ri_Dirty inp)" "ri_StagedNew inp"]
    by (simp add: unique_firsts)
  then show ?thesis by (simp add: reset_unfold)
qed

section \<open>Properties\<close>

definition demoReset :: ClassifyResetInput where
  "demoReset =
     \<lparr>ri_Target = ''HEAD~1'', ri_TargetSubject = ''s'', ri_Mode = ''hard'', ri_CurrentHead = ''aa'', ri_Branch = None,
      ri_Leaving = 1, ri_Gaining = 0, ri_LeavingCommits = [\<lparr>rl_Sha = ''aa'', rl_Subject = ''t''\<rparr>],
      ri_LeavingTruncated = False, ri_Dirty = DirtySplit demoStatus, ri_StagedNew = StagedNewPaths demoStatus,
      ri_InProgress = None, ri_TargetResolves = True\<rparr>"

text \<open>
  C19: For a reset classified from one status (whose tracked entries are changed on one side at
  least), the list of what is destroyed names no path twice and is, for a hard reset, exactly the
  paths of the tracked entries (ordinary, renamed or unmerged) and the sources of the staged
  renames, and empty otherwise; a tracked dirty path that is missing from it is the source of a rename
  git found only in the worktree.  Confirmation, the stash
  route and the destructive verdict are tied to it, an unresolved target or an operation in
  progress blocks.
\<close>

theorem reset_destroys_exact:
  assumes "resetFromStatus r inp" and "list_all changedEntry (st_Entries r)"
  shows "distinct (rp_Destroys (ClassifyReset inp)) \<and>
         set (rp_Destroys (ClassifyReset inp)) =
           (if ri_Mode inp = ''hard'' then {p. \<exists>e\<in>set (st_Entries r). losesAt e p} else {}) \<and>
         set (rp_Destroys (ClassifyReset inp)) \<union> (if ri_Mode inp = ''hard'' then worktreeRenameSources r else {}) =
           (if ri_Mode inp = ''hard'' then dirtyTracked r else {}) \<and>
         (rp_RequiresTypedConfirmation (ClassifyReset inp) \<longleftrightarrow> rp_Destroys (ClassifyReset inp) \<noteq> []) \<and>
         (rp_Routes (ClassifyReset inp) = [RsStashFirst] \<longleftrightarrow> rp_Destroys (ClassifyReset inp) \<noteq> []) \<and>
         (rp_Verdict (ClassifyReset inp) = RsBlocked \<longleftrightarrow> ri_InProgress inp \<noteq> None \<or> \<not> ri_TargetResolves inp) \<and>
         (rp_Verdict (ClassifyReset inp) = RsClean \<longleftrightarrow>
            rp_Verdict (ClassifyReset inp) \<noteq> RsBlocked \<and> rp_Destroys (ClassifyReset inp) = [])"
proof -
  have "distinct (rp_Destroys (ClassifyReset inp))"
    by (simp add: reset_unfold unique_firsts firsts_distinct)
  moreover have "ri_Mode inp \<noteq> ''hard'' \<Longrightarrow> rp_Destroys (ClassifyReset inp) = []"
    by (simp add: reset_unfold)
  moreover have "rp_Verdict (ClassifyReset inp) = RsBlocked \<longleftrightarrow> ri_InProgress inp \<noteq> None \<or> \<not> ri_TargetResolves inp"
    by (simp add: rs.blocked_iff resetChecks_def)
  moreover have "rp_RequiresTypedConfirmation (ClassifyReset inp) \<longleftrightarrow> rp_Destroys (ClassifyReset inp) \<noteq> []"
    by (auto simp: reset_unfold)
  moreover have "rp_Routes (ClassifyReset inp) = [RsStashFirst] \<longleftrightarrow> rp_Destroys (ClassifyReset inp) \<noteq> []"
    by (simp add: reset_unfold)
  moreover have "rp_Verdict (ClassifyReset inp) = RsClean \<longleftrightarrow>
      rp_Verdict (ClassifyReset inp) \<noteq> RsBlocked \<and> rp_Destroys (ClassifyReset inp) = []"
    by (simp add: reset_unfold)
  ultimately show ?thesis
    using hard_destroys [OF assms(1)] split_loses [OF assms(2)] dirtyTracked_split [OF assms(2)]
    by (simp del: losesAt.simps)
qed

lemma reset_destroys_exact_witness:
  "set (rp_Destroys (ClassifyReset demoReset)) = {''new'', ''b'', ''a'', ''c''} \<and>
   rp_RequiresTypedConfirmation (ClassifyReset demoReset)"
proof -
  have ch: "list_all changedEntry (st_Entries demoStatus)"
    by (simp add: demoStatus_def plainEntry_def changedEntry_def stagedEntry_def unstagedEntry_def trackedKind_def)
  have "resetFromStatus demoStatus demoReset"
    by (simp add: resetFromStatus_def demoReset_def)
  note P = reset_destroys_exact [OF this ch]
  have "{p. \<exists>e\<in>set (st_Entries demoStatus). losesAt e p} = {''new'', ''b'', ''a'', ''c''}"
    by (auto simp: demoStatus_def plainEntry_def)
  moreover have "ri_Mode demoReset = ''hard''"
    by (simp add: demoReset_def)
  ultimately have "set (rp_Destroys (ClassifyReset demoReset)) = {''new'', ''b'', ''a'', ''c''}"
    using P by (simp del: losesAt.simps)
  moreover from this have "rp_Destroys (ClassifyReset demoReset) \<noteq> []"
    by force
  ultimately show ?thesis using P by (simp del: losesAt.simps)
qed

end
