(* ===== verification/InfoParse.thy ===== *)
theory InfoParse
  imports LogParse DiffTree
begin

text \<open>
  The smaller parsers of \<^verbatim>\<open>gitclient/porcelain\<close>: \<^verbatim>\<open>worktree.go\<close>, \<^verbatim>\<open>blame.go\<close>, \<^verbatim>\<open>show.go\<close>,
  \<^verbatim>\<open>review.go\<close>, \<^verbatim>\<open>containment.go\<close>, \<^verbatim>\<open>workingdiff.go\<close> and \<^verbatim>\<open>reset.go\<close>.
\<close>

section \<open>Worktrees\<close>

definition WorktreeListArgs :: argv where
  "WorktreeListArgs = [''worktree'', ''list'', ''--porcelain'', ''-z'']"

record WorktreeRecord =
  wr_Path :: path
  wr_Head :: sha
  wr_Branch :: bytes
  wr_Bare :: bool
  wr_Detached :: bool
  wr_LockedReason :: bytes
  wr_Locked :: bool
  wr_PrunableReason :: bytes
  wr_Prunable :: bool

definition emptyWorktree :: WorktreeRecord where
  "emptyWorktree = \<lparr>wr_Path = [], wr_Head = [], wr_Branch = [], wr_Bare = False, wr_Detached = False,
     wr_LockedReason = [], wr_Locked = False, wr_PrunableReason = [], wr_Prunable = False\<rparr>"

definition cutFirstSpace :: "bytes \<Rightarrow> bytes \<times> bytes \<times> bool" where
  "cutFirstSpace s =
     (case IndexByte s (CHR '' '') of
        Some i \<Rightarrow> (take i s, drop (i + 1) s, True)
      | None \<Rightarrow> (s, [], False))"

definition worktreeAttr :: "(bytes \<Rightarrow> bytes) \<Rightarrow> WorktreeRecord \<Rightarrow> bytes \<Rightarrow> WorktreeRecord" where
  "worktreeAttr nfc cur line =
     (let (key, value, found) = cutFirstSpace line
      in if key = ''worktree'' then cur\<lparr>wr_Path := nfc value\<rparr>
         else if key = ''HEAD'' then cur\<lparr>wr_Head := value\<rparr>
         else if key = ''branch'' then cur\<lparr>wr_Branch := value\<rparr>
         else if key = ''bare'' then cur\<lparr>wr_Bare := True\<rparr>
         else if key = ''detached'' then cur\<lparr>wr_Detached := True\<rparr>
         else if key = ''locked'' then cur\<lparr>wr_Locked := True, wr_LockedReason := value\<rparr>
         else if key = ''prunable'' then cur\<lparr>wr_Prunable := True, wr_PrunableReason := value\<rparr>
         else cur)"

fun worktreeLoop :: "(bytes \<Rightarrow> bytes) \<Rightarrow> bytes list \<Rightarrow> WorktreeRecord \<Rightarrow> bool \<Rightarrow> WorktreeRecord list" where
  "worktreeLoop nfc [] cur has = (if has then [cur] else [])"
| "worktreeLoop nfc (line # toks) cur has =
     (if line = [] then (if has then [cur] else []) @ worktreeLoop nfc toks emptyWorktree False
      else worktreeLoop nfc toks (worktreeAttr nfc cur line) True)"

text \<open>The source's error result is always nil.\<close>

definition ParseWorktreeList :: "(bytes \<Rightarrow> bytes) \<Rightarrow> bytes \<Rightarrow> WorktreeRecord list" where
  "ParseWorktreeList nfc raw =
     (let tokens = SplitByte raw nul
      in worktreeLoop nfc (if tokens \<noteq> [] \<and> last tokens = [] then butlast tokens else tokens)
           emptyWorktree False)"

section \<open>Blame\<close>

definition UncommittedBlameSHA :: sha where
  "UncommittedBlameSHA = replicate 40 (CHR ''0'')"

definition IsUncommittedBlameSHA :: "sha \<Rightarrow> bool" where
  "IsUncommittedBlameSHA s \<longleftrightarrow> (length s = 40 \<or> length s = 64) \<and> list_all (\<lambda>c. c = CHR ''0'') s"

definition BlameLineArgs :: "path \<Rightarrow> int \<Rightarrow> argv" where
  "BlameLineArgs path line =
     [''blame'', ''--line-porcelain'', ''-L'', Itoa line @ '','' @ Itoa line, ''--'', path]"

record BlameLine =
  bl_SHA :: sha
  bl_Author :: bytes
  bl_AuthorTimeSeconds :: int
  bl_Summary :: bytes

text \<open>The closure \<open>next\<close>: the next line and what is left, nothing at the end of the output.\<close>

definition nextLine :: "bytes \<Rightarrow> (bytes \<times> bytes) option" where
  "nextLine rest =
     (if rest = [] then None
      else case IndexByte rest newline of
        None \<Rightarrow> Some (TrimSuffix rest [CHR 0x0D], [])
      | Some i \<Rightarrow> Some (TrimSuffix (take i rest) [CHR 0x0D], drop (i + 1) rest))"

lemma nextLine_shrinks: "nextLine rest = Some (l, r) \<Longrightarrow> length r < length rest"
  using IndexByte_Some_take [of rest newline]
  by (auto simp: nextLine_def split: if_splits option.splits)

function blameLoop :: "bytes \<Rightarrow> bytes \<Rightarrow> BlameLine \<Rightarrow> porc_error + BlameLine" where
  "blameLoop raw rest line =
     (case nextLine rest of
        None \<Rightarrow> Inl (BlameNoContent raw)
      | Some (text, rest') \<Rightarrow>
          (if text \<noteq> [] \<and> hd text = tab then Inr line
           else let (key, value, found) = cutFirstSpace text
             in if key = ''author'' then blameLoop raw rest' (line\<lparr>bl_Author := value\<rparr>)
                else if key = ''author-time'' then
                  (case AtoiR value of
                     Inl e \<Rightarrow> Inl (BlameTime value e)
                   | Inr seconds \<Rightarrow> blameLoop raw rest' (line\<lparr>bl_AuthorTimeSeconds := seconds\<rparr>))
                else if key = ''summary'' then blameLoop raw rest' (line\<lparr>bl_Summary := value\<rparr>)
                else blameLoop raw rest' line))"
  by pat_completeness auto
termination
  by (relation "measure (\<lambda>(raw, rest, line). length rest)") (auto dest: nextLine_shrinks)

declare blameLoop.simps [simp del]

definition ParseBlameLine :: "bytes \<Rightarrow> porc_error + BlameLine" where
  "ParseBlameLine raw =
     (case nextLine raw of
        None \<Rightarrow> Inl BlameEmpty
      | Some (header, rest) \<Rightarrow>
          (let (sha', value, ok) = cutFirstSpace header
           in if \<not> ok \<or> sha' = [] then Inl (BlameHeader header)
              else blameLoop raw rest
                     \<lparr>bl_SHA = sha', bl_Author = [], bl_AuthorTimeSeconds = 0, bl_Summary = []\<rparr>))"

section \<open>Commit details\<close>

definition ShowMetadataArgs :: "sha \<Rightarrow> argv" where
  "ShowMetadataArgs s = [''show'', ''-s'', ''--decorate=full'', ''-z'', ''--format='' @ LogFormat, s, ''--'']"

definition bodyAndSignatureFieldCount :: nat where
  "bodyAndSignatureFieldCount = 4"

definition bodyAndSignatureFormat :: bytes where
  "bodyAndSignatureFormat = ''%G?%x00%GS%x00%(trailers:only=true,unfold=true)%x00%b''"

definition ShowBodyAndSignatureArgs :: "sha \<Rightarrow> argv" where
  "ShowBodyAndSignatureArgs s = [''show'', ''-s'', ''-z'', ''--format='' @ bodyAndSignatureFormat, s, ''--'']"

record CommitSignature =
  cs_Status :: bytes
  cs_Signer :: bytes

record CommitTrailer =
  ct_Token :: bytes
  ct_Value :: bytes

definition trailerOfLine :: "bytes \<Rightarrow> CommitTrailer" where
  "trailerOfLine line =
     (case Cut line '': '' of
        None \<Rightarrow> \<lparr>ct_Token = line, ct_Value = []\<rparr>
      | Some (a, b) \<Rightarrow> \<lparr>ct_Token = a, ct_Value = b\<rparr>)"

definition ParseTrailerBlock :: "bytes \<Rightarrow> CommitTrailer list" where
  "ParseTrailerBlock raw = map trailerOfLine (filter (\<lambda>l. l \<noteq> []) (SplitByte raw newline))"

definition isLetter :: "char \<Rightarrow> bool" where
  "isLetter c \<longleftrightarrow> 65 \<le> (of_char c :: nat) \<and> (of_char c :: nat) \<le> 90
     \<or> 97 \<le> (of_char c :: nat) \<and> (of_char c :: nat) \<le> 122"

text \<open>\<open>^[A-Za-z][A-Za-z0-9-]*:\<close>\<close>

definition trailerLineRe :: "bytes \<Rightarrow> bool" where
  "trailerLineRe line \<longleftrightarrow>
     (case line of
        [] \<Rightarrow> False
      | c # cs \<Rightarrow>
          isLetter c \<and> HasPrefix (dropWhile (\<lambda>x. isLetter x \<or> isDigit x \<or> x = CHR ''-'') cs) '':'')"

definition isFoldedContinuation :: "bytes \<Rightarrow> bool" where
  "isFoldedContinuation line \<longleftrightarrow> line \<noteq> [] \<and> spaceWidth line \<noteq> 0"

definition blankLine :: "bytes \<Rightarrow> bool" where
  "blankLine line \<longleftrightarrow> TrimSpace line = []"

text \<open>The trailing-blank loops of the source, as one helper over the lines from the end.\<close>

definition dropTrailing :: "('a \<Rightarrow> bool) \<Rightarrow> 'a list \<Rightarrow> 'a list" where
  "dropTrailing P xs = rev (dropWhile P (rev xs))"

definition SplitTrailerBlock :: "bytes \<Rightarrow> CommitTrailer list \<Rightarrow> bytes" where
  "SplitTrailerBlock body trailers =
     (if trailers = [] then body
      else let lines = dropTrailing blankLine (SplitByte body newline)
        in if lines = [] then body
           else let before = dropTrailing (\<lambda>l. \<not> blankLine l) lines;
                    paragraph = drop (length before) lines
             in if list_ex (\<lambda>l. \<not> trailerLineRe l \<and> \<not> isFoldedContinuation l) paragraph then body
                else JoinByte (dropTrailing blankLine before) newline)"

definition ParseShowBodyAndSignature ::
  "bytes \<Rightarrow> porc_error + CommitSignature \<times> CommitTrailer list \<times> bytes" where
  "ParseShowBodyAndSignature raw =
     rbind (splitOneNULRecord raw bodyAndSignatureFieldCount) (\<lambda>fs.
       let trailers = ParseTrailerBlock (fs ! 2)
       in Inr (\<lparr>cs_Status = fs ! 0, cs_Signer = fs ! 1\<rparr>, trailers, SplitTrailerBlock (fs ! 3) trailers))"

section \<open>Ranges and containment\<close>

definition MergeBaseArgs :: "bytes \<Rightarrow> bytes \<Rightarrow> argv" where
  "MergeBaseArgs a b = [''merge-base'', a, b]"

definition CountRangeArgs :: "bytes \<Rightarrow> bytes \<Rightarrow> argv" where
  "CountRangeArgs base branch =
     [''rev-list'', ''--count'', RangeToken \<lparr>rsp_Base = base, rsp_Branch = branch\<rparr>]"

definition IsAncestorArgs :: "bytes \<Rightarrow> bytes \<Rightarrow> argv" where
  "IsAncestorArgs ancestor descendant = [''merge-base'', ''--is-ancestor'', ancestor, descendant]"

definition NoIndexDiffArgs :: "path \<Rightarrow> path \<Rightarrow> argv" where
  "NoIndexDiffArgs oldPath newPath =
     [''diff'', ''--no-index'', ''--no-color'', ''--no-ext-diff'', ''--no-textconv'', ''--unified=3'',
      ''--'', oldPath, newPath]"

definition OriginHeadArgs :: argv where
  "OriginHeadArgs = [''symbolic-ref'', ''--short'', ''refs/remotes/origin/HEAD'']"

definition ParseCount :: "bytes \<Rightarrow> porc_error + int" where
  "ParseCount stdout =
     (case AtoiR (TrimSpace stdout) of Inl e \<Rightarrow> Inl (CountUnparseable stdout e) | Inr n \<Rightarrow> Inr n)"

definition CherryArgs :: "bytes \<Rightarrow> bytes \<Rightarrow> bytes \<Rightarrow> argv" where
  "CherryArgs upstream head limit = [''cherry'', upstream, head, limit]"

definition ParseCherry :: "bytes \<Rightarrow> nat \<times> nat" where
  "ParseCherry stdout =
     (let lines = SplitByte stdout newline
      in (length (filter (\<lambda>l. HasPrefix l ''+ '') lines), length (filter (\<lambda>l. HasPrefix l ''- '') lines)))"

definition ThreeDotDiffArgs :: "bytes \<Rightarrow> bytes \<Rightarrow> argv" where
  "ThreeDotDiffArgs base tip =
     [''diff'', ''--no-color'', ''--no-ext-diff'', ''--no-textconv'', base @ ''...'' @ tip]"

definition LogPatchArgs :: "bytes \<Rightarrow> int \<Rightarrow> argv" where
  "LogPatchArgs ref n =
     [''log'', ''--no-merges'', ''-p'', ''--no-color'', ''--no-ext-diff'', ''--no-textconv'', ''-n'', Itoa n,
      ref, ''--'']"

definition PatchIDArgs :: argv where
  "PatchIDArgs = [''patch-id'', ''--stable'']"

definition ParsePatchIDs :: "bytes \<Rightarrow> bytes list" where
  "ParsePatchIDs stdout = map hd (filter (\<lambda>f. f \<noteq> []) (map Fields (SplitByte stdout newline)))"

definition EmptyTreeHashArgs :: argv where
  "EmptyTreeHashArgs = [''hash-object'', ''-t'', ''tree'', ''/dev/null'']"

definition ParseEmptyTreeHash :: "bytes \<Rightarrow> sha" where
  "ParseEmptyTreeHash stdout = TrimSpace stdout"

definition WorkingNameStatusArgs :: "bytes \<Rightarrow> argv" where
  "WorkingNameStatusArgs base = [''diff'', ''--name-status'', ''-M'', ''-C'', ''-z'', base, ''--'']"

section \<open>Reset ranges\<close>

definition ResetLeavingCommitsCap :: int where
  "ResetLeavingCommitsCap = 10"

record RangeCommit =
  rc_Sha :: sha
  rc_Subject :: bytes

definition LeftRightCountArgs :: "bytes \<Rightarrow> bytes \<Rightarrow> argv" where
  "LeftRightCountArgs a b = [''rev-list'', ''--count'', ''--left-right'', a @ ''...'' @ b]"

definition ParseLeftRightCount :: "bytes \<Rightarrow> porc_error + int \<times> int" where
  "ParseLeftRightCount stdout =
     (let line = TrimSpace stdout; parts = SplitByte line tab
      in if length parts \<noteq> 2 then Inl (LeftRightFields line (length parts))
         else case AtoiR (parts ! 0) of
           Inl e \<Rightarrow> Inl (NumError e)
         | Inr left \<Rightarrow> (case AtoiR (parts ! 1) of Inl e \<Rightarrow> Inl (NumError e) | Inr right \<Rightarrow> Inr (left, right)))"

definition RangeSubjectsArgs :: "bytes \<Rightarrow> bytes \<Rightarrow> int \<Rightarrow> argv" where
  "RangeSubjectsArgs base tip cap =
     [''log'', ''--format=%H%x1f%s'', ''-z'', ''-'' @ Itoa (cap + 1), base @ ''..'' @ tip]"

definition rangeCommit :: "bytes \<Rightarrow> porc_error + RangeCommit" where
  "rangeCommit rec =
     (let fs = SplitLimitedFields rec fieldDelim 2
      in if length fs \<noteq> 2 then Inl (PairFieldCount rec (length fs))
         else Inr \<lparr>rc_Sha = fs ! 0, rc_Subject = fs ! 1\<rparr>)"

text \<open>The callers pass a non-negative cap (a negative one would make the slice panic).\<close>

definition ParseRangeSubjects :: "bytes \<Rightarrow> nat \<Rightarrow> porc_error + RangeCommit list \<times> bool" where
  "ParseRangeSubjects raw cap =
     rbind (allRecords raw) (\<lambda>recs.
       let nonEmpty = filter (\<lambda>r. r \<noteq> []) recs; limit = min (length nonEmpty) cap
       in rbind (mapR rangeCommit (take limit nonEmpty))
            (\<lambda>commits. Inr (commits, cap < length nonEmpty)))"

section \<open>Reading back worktrees\<close>

definition worktreeAttrs :: "WorktreeRecord \<Rightarrow> bytes list" where
  "worktreeAttrs r =
     [''worktree '' @ wr_Path r]
     @ (if wr_Bare r then [''bare''] else [])
     @ (if wr_Head r = [] then [] else [''HEAD '' @ wr_Head r])
     @ (if wr_Branch r = [] then [] else [''branch '' @ wr_Branch r])
     @ (if wr_Detached r then [''detached''] else [])
     @ (if wr_Locked r then [if wr_LockedReason r = [] then ''locked'' else ''locked '' @ wr_LockedReason r] else [])
     @ (if wr_Prunable r then [''prunable '' @ wr_PrunableReason r] else [])"

definition worktreeStream :: "WorktreeRecord list \<Rightarrow> bytes" where
  "worktreeStream rs = terminated nul (concat (map (\<lambda>r. worktreeAttrs r @ [[]]) rs))"

definition wfWorktree :: "(bytes \<Rightarrow> bytes) \<Rightarrow> WorktreeRecord \<Rightarrow> bool" where
  "wfWorktree nfc r \<longleftrightarrow> nfc (wr_Path r) = wr_Path r
     \<and> (if wr_Locked r then True else wr_LockedReason r = [])
     \<and> (if wr_Prunable r then True else wr_PrunableReason r = [])
     \<and> list_all (\<lambda>a. nul \<notin> set a) (worktreeAttrs r)"

lemma cutFirstSpace_key: "CHR '' '' \<notin> set k \<Longrightarrow> cutFirstSpace (k @ CHR '' '' # v) = (k, v, True)"
  by (simp add: cutFirstSpace_def)

lemma cutFirstSpace_flag: "CHR '' '' \<notin> set k \<Longrightarrow> cutFirstSpace k = (k, [], False)"
  by (simp add: cutFirstSpace_def iffD2 [OF IndexByte_None_iff])

lemma worktreeAttr_simps:
  "worktreeAttr nfc cur (''worktree '' @ v) = cur\<lparr>wr_Path := nfc v\<rparr>"
  "worktreeAttr nfc cur (''HEAD '' @ v) = cur\<lparr>wr_Head := v\<rparr>"
  "worktreeAttr nfc cur (''branch '' @ v) = cur\<lparr>wr_Branch := v\<rparr>"
  "worktreeAttr nfc cur ''bare'' = cur\<lparr>wr_Bare := True\<rparr>"
  "worktreeAttr nfc cur ''detached'' = cur\<lparr>wr_Detached := True\<rparr>"
  "worktreeAttr nfc cur ''locked'' = cur\<lparr>wr_Locked := True, wr_LockedReason := []\<rparr>"
  "worktreeAttr nfc cur (''locked '' @ v) = cur\<lparr>wr_Locked := True, wr_LockedReason := v\<rparr>"
  "worktreeAttr nfc cur (''prunable '' @ v) = cur\<lparr>wr_Prunable := True, wr_PrunableReason := v\<rparr>"
  using cutFirstSpace_key [of "''worktree''" v] cutFirstSpace_key [of "''HEAD''" v] cutFirstSpace_key [of "''branch''" v]
    cutFirstSpace_key [of "''locked''" v] cutFirstSpace_key [of "''prunable''" v]
    cutFirstSpace_flag [of "''bare''"] cutFirstSpace_flag [of "''detached''"] cutFirstSpace_flag [of "''locked''"]
  by (simp_all add: worktreeAttr_def)

lemma foldl_opt:
  "foldl f c (if P then [x] else []) = (if P then f c x else c)"
  "foldl f c (if P then [] else [x]) = (if P then c else f c x)"
  by simp_all

lemma foldl_worktreeAttrs:
  assumes "wfWorktree nfc r"
  shows "foldl (worktreeAttr nfc) emptyWorktree (worktreeAttrs r) = r"
proof -
  have "nfc (wr_Path r) = wr_Path r" "\<not> wr_Locked r \<Longrightarrow> wr_LockedReason r = []"
    "\<not> wr_Prunable r \<Longrightarrow> wr_PrunableReason r = []"
    using assms by (simp_all add: wfWorktree_def)
  then show ?thesis
    unfolding worktreeAttrs_def foldl_append foldl_opt foldl.simps worktreeAttr_simps
      if_distrib [of "worktreeAttr nfc _"]
    by (cases "wr_Bare r"; cases "wr_Head r = []"; cases "wr_Branch r = []"; cases "wr_Detached r";
        cases "wr_Locked r"; cases "wr_Prunable r") (simp_all add: emptyWorktree_def)
qed

lemma worktreeLoop_record:
  "list_all (\<lambda>t. t \<noteq> []) ts \<Longrightarrow>
   worktreeLoop nfc (ts @ [] # rest) cur has =
     (if ts = [] \<and> \<not> has then [] else [foldl (worktreeAttr nfc) cur ts]) @ worktreeLoop nfc rest emptyWorktree False"
  by (induction ts arbitrary: cur has) auto

lemma worktreeAttrs_not_Nil: "list_all (\<lambda>t. t \<noteq> []) (worktreeAttrs r) \<and> worktreeAttrs r \<noteq> []"
  by (simp add: worktreeAttrs_def)

text \<open>
  the worktree list reads back.  Worktrees in any combination of bare, detached, locked (with
  or without a reason) and prunable, their paths in normalised spelling, printed attribute by
  attribute with a double NUL after each, parse to exactly those records, with no phantom record at
  the end.
\<close>

theorem worktree_list_roundtrip:
  assumes "list_all (wfWorktree nfc) rs"
  shows "ParseWorktreeList nfc (worktreeStream rs) = rs"
proof -
  let ?toks = "concat (map (\<lambda>r. worktreeAttrs r @ [[]]) rs)"
  have "worktreeLoop nfc ?toks emptyWorktree False = rs"
    using assms
    by (induction rs) (simp_all add: worktreeLoop_record worktreeAttrs_not_Nil foldl_worktreeAttrs)
  moreover have "SplitByte (worktreeStream rs) nul = ?toks @ [[]]"
  proof -
    have "\<forall>f \<in> set ?toks. nul \<notin> set f"
      using assms by (auto simp: wfWorktree_def list_all_iff split: if_splits)
    then show ?thesis
      using SplitByte_terminated [of ?toks nul "[]"] by (simp add: worktreeStream_def)
  qed
  ultimately show ?thesis by (simp add: ParseWorktreeList_def Let_def)
qed

theorem worktree_list_roundtrip_witness:
  "ParseWorktreeList (\<lambda>p. p) (worktreeStream
      [emptyWorktree\<lparr>wr_Path := ''/r x'', wr_Head := ''a1'', wr_Branch := ''refs/heads/m''\<rparr>,
       emptyWorktree\<lparr>wr_Path := ''/w'', wr_Head := ''b2'', wr_Detached := True, wr_Locked := True\<rparr>]) =
   [emptyWorktree\<lparr>wr_Path := ''/r x'', wr_Head := ''a1'', wr_Branch := ''refs/heads/m''\<rparr>,
    emptyWorktree\<lparr>wr_Path := ''/w'', wr_Head := ''b2'', wr_Detached := True, wr_Locked := True\<rparr>]"
  by (rule worktree_list_roundtrip) (simp add: wfWorktree_def worktreeAttrs_def emptyWorktree_def)

section \<open>Splitting off the trailers\<close>

lemma dropTrailing_split: "\<exists>t. xs = dropTrailing P xs @ t \<and> list_all P t"
proof -
  have "rev xs = takeWhile P (rev xs) @ dropWhile P (rev xs)" by simp
  then have "xs = dropTrailing P xs @ rev (takeWhile P (rev xs))"
    unfolding dropTrailing_def by (metis rev_append rev_rev_ident)
  moreover have "list_all P (rev (takeWhile P (rev xs)))"
    by (auto simp: list_all_iff dest: set_takeWhileD)
  ultimately show ?thesis by blast
qed

text \<open>
  the displayed body loses its trailer paragraph and nothing else.  \<open>SplitTrailerBlock\<close> returns
  the body unchanged, or the first lines of it joined back, where every line left out is blank, a
  trailer or a folded continuation; with no trailers it never touches the body.
\<close>

theorem SplitTrailerBlock_only_trailers:
  "SplitTrailerBlock body [] = body
   \<and> (SplitTrailerBlock body trailers = body
     \<or> (\<exists>kept dropped. SplitByte body newline = kept @ dropped
          \<and> SplitTrailerBlock body trailers = JoinByte kept newline
          \<and> list_all (\<lambda>l. blankLine l \<or> trailerLineRe l \<or> isFoldedContinuation l) dropped))"
proof -
  let ?all = "SplitByte body newline"
  define lines where "lines = dropTrailing blankLine ?all"
  define before where "before = dropTrailing (\<lambda>l. \<not> blankLine l) lines"
  define kept where "kept = dropTrailing blankLine before"
  obtain t1 where t1: "?all = lines @ t1" "list_all blankLine t1"
    using dropTrailing_split [of ?all blankLine] lines_def by blast
  obtain t2 where t2: "lines = before @ t2"
    using dropTrailing_split [of lines "\<lambda>l. \<not> blankLine l"] before_def by blast
  obtain t3 where t3: "before = kept @ t3" "list_all blankLine t3"
    using dropTrailing_split [of before blankLine] kept_def by blast
  have "SplitTrailerBlock body trailers = body
    \<or> SplitTrailerBlock body trailers = JoinByte kept newline
      \<and> list_all (\<lambda>l. trailerLineRe l \<or> isFoldedContinuation l) t2"
  proof -
    have "SplitTrailerBlock body trailers =
      (if trailers = [] \<or> lines = [] \<or> list_ex (\<lambda>l. \<not> trailerLineRe l \<and> \<not> isFoldedContinuation l) (drop (length before) lines)
       then body else JoinByte kept newline)"
      by (simp add: SplitTrailerBlock_def Let_def lines_def before_def kept_def)
    moreover have "drop (length before) lines = t2" using t2 by simp
    ultimately show ?thesis by (auto simp: list_all_iff list_ex_iff)
  qed
  moreover have "?all = kept @ t3 @ t2 @ t1" using t1 t2 t3 by simp
  moreover have "list_all (\<lambda>l. blankLine l \<or> trailerLineRe l \<or> isFoldedContinuation l) (t3 @ t2 @ t1)"
    if "list_all (\<lambda>l. trailerLineRe l \<or> isFoldedContinuation l) t2"
    using that t1(2) t3(2) by (auto simp: list_all_iff)
  moreover have "SplitTrailerBlock body [] = body" by (simp add: SplitTrailerBlock_def)
  ultimately show ?thesis by blast
qed

section \<open>The commits a reset leaves behind\<close>

definition pairText :: "RangeCommit \<Rightarrow> bytes" where
  "pairText c = rc_Sha c @ fieldDelim # rc_Subject c"

lemma rangeCommit_pairText: "fieldDelim \<notin> set (rc_Sha c) \<Longrightarrow> rangeCommit (pairText c) = Inr c"
  using SplitLimitedFields_joined [of "[rc_Sha c]" fieldDelim 2 "rc_Subject c"]
  by (simp add: rangeCommit_def pairText_def)

text \<open>
  the reset dialog lists the right commits.  From the NUL-terminated records of a range,
  \<open>ParseRangeSubjects\<close> returns the first \<open>cap\<close> commits in order, subjects holding the field
  delimiter included, and says truncated exactly when there were more than \<open>cap\<close>.
\<close>

theorem range_subjects_capped:
  assumes "list_all (\<lambda>c. fieldDelim \<notin> set (rc_Sha c) \<and> nul \<notin> set (pairText c)) cs"
  shows "ParseRangeSubjects (terminated nul (map pairText cs)) cap = Inr (take cap cs, cap < length cs)"
proof -
  have "allRecords (terminated nul (map pairText cs)) = Inr (map pairText cs)"
    using assms by (intro allRecords_terminated) (auto simp: list_all_iff)
  moreover have "filter (\<lambda>r. r \<noteq> []) (map pairText cs) = map pairText cs"
    by (simp add: filter_id_conv pairText_def)
  moreover have "mapR rangeCommit (map pairText (take cap cs)) = Inr (take cap cs)"
  proof -
    have "mapR rangeCommit (map pairText ds) = Inr ds" if "list_all (\<lambda>c. fieldDelim \<notin> set (rc_Sha c)) ds" for ds
      using that by (induction ds) (auto simp: rangeCommit_pairText)
    then show ?thesis using assms by (auto simp: list_all_iff dest: in_set_takeD)
  qed
  ultimately show ?thesis
    by (cases "length cs \<le> cap") (simp_all add: ParseRangeSubjects_def Let_def take_map min_def)
qed

theorem range_subjects_capped_witness:
  "ParseRangeSubjects (terminated nul (map pairText
      [\<lparr>rc_Sha = ''a1'', rc_Subject = ''x''\<rparr>, \<lparr>rc_Sha = ''b2'', rc_Subject = [fieldDelim]\<rparr>])) 1 =
    Inr ([\<lparr>rc_Sha = ''a1'', rc_Subject = ''x''\<rparr>], True)"
  using range_subjects_capped [of "[\<lparr>rc_Sha = ''a1'', rc_Subject = ''x''\<rparr>, \<lparr>rc_Sha = ''b2'', rc_Subject = [fieldDelim]\<rparr>]" 1]
  by (simp add: pairText_def fieldDelim_def)

end
