(* ===== verification/StashParse.thy ===== *)
theory StashParse
  imports InfoParse
begin

text \<open>
  \<^verbatim>\<open>gitclient/porcelain/stash.go\<close>: the stash stack and the global stash bucket.  Both listings are a
  header record per entry followed by that entry's numstat records; one record walk serves both,
  parameterised by how a header is recognised and what index it carries.  The locale
  \<open>stash_bucket\<close> states what the walk needs of those two parameters.
\<close>

section \<open>Types and argv builders\<close>

definition StashFormat :: bytes where
  "StashFormat = ''%gd%x1f%H%x1f%P%x1f%at%x1f%gs''"

definition stashFormatFieldCount :: nat where
  "stashFormatFieldCount = 5"

definition StashListArgs :: argv where
  "StashListArgs = [''stash'', ''list'', ''-z'', ''--numstat'', ''-M'', ''-C'', ''--format='' @ StashFormat]"

definition StashBaseSubjectArgs :: "sha list \<Rightarrow> argv" where
  "StashBaseSubjectArgs shas = [''log'', ''--no-walk'', ''--format=%H%x1f%s'', ''-z''] @ shas @ [''--'']"

definition StashUntrackedLsTreeArgs :: "sha \<Rightarrow> argv" where
  "StashUntrackedLsTreeArgs s = [''ls-tree'', ''-r'', ''--name-only'', ''-z'', s]"

datatype StashScope = StashScopeStack | StashScopeGlobal

record StashEntry =
  sh_Index :: int
  sh_Sha :: sha
  sh_BaseSha :: sha
  sh_BaseSubject :: bytes
  sh_IndexSha :: sha
  sh_UntrackedSha :: "sha option"
  sh_Message :: bytes
  sh_Branch :: "bytes option"
  sh_Timestamp :: int
  sh_FileCount :: nat
  sh_IncludedUntracked :: bool
  sh_Scope :: StashScope
  sh_Ref :: bytes

section \<open>Headers\<close>

fun branchFromPrefixes :: "bytes list \<Rightarrow> bytes \<Rightarrow> bytes option" where
  "branchFromPrefixes [] message = None"
| "branchFromPrefixes (p # ps) message =
     (if \<not> HasPrefix message p then branchFromPrefixes ps message
      else case Cut (TrimPrefix message p) '': '' of
        None \<Rightarrow> branchFromPrefixes ps message
      | Some (branch, _) \<Rightarrow> if branch = ''(no branch)'' then None else Some branch)"

definition parseBranchFromMessage :: "bytes \<Rightarrow> bytes option" where
  "parseBranchFromMessage message = branchFromPrefixes [''WIP on '', ''On ''] message"

definition stashPrefix :: bytes where
  "stashPrefix = ''stash'' @ [CHR ''@'', CHR ''{'']"

definition parseStashIndex :: "bytes \<Rightarrow> porc_error + int" where
  "parseStashIndex gd =
     (if \<not> HasPrefix gd stashPrefix \<or> \<not> HasSuffix gd ''}'' then Inl (StashSelector gd)
      else case AtoiR (drop (length stashPrefix) (butlast gd)) of
        Inl e \<Rightarrow> Inl (StashSelectorNum gd e)
      | Inr idx \<Rightarrow> Inr idx)"

definition isStackStashHeader :: "bytes \<Rightarrow> bool" where
  "isStackStashHeader rec = HasPrefix rec stashPrefix"

definition isHexObjectID :: "bytes \<Rightarrow> bool" where
  "isHexObjectID b \<longleftrightarrow> (length b = 40 \<or> length b = 64)
     \<and> list_all (\<lambda>c. isDigit c \<or> 97 \<le> (of_char c :: nat) \<and> (of_char c :: nat) \<le> 102) b"

definition isGlobalStashHeader :: "bytes \<Rightarrow> bool" where
  "isGlobalStashHeader rec =
     isHexObjectID (case IndexByte rec fieldDelim of Some i \<Rightarrow> take i rec | None \<Rightarrow> rec)"

definition globalStashIndex :: "bytes \<Rightarrow> porc_error + int" where
  "globalStashIndex gd = Inr (- 1)"

section \<open>The record walk\<close>

definition isRenameNumstatRecord :: "bytes \<Rightarrow> bool \<Rightarrow> bool" where
  "isRenameNumstatRecord rec first =
     (let fs = SplitLimitedFields (if first then TrimPrefix rec [newline] else rec) tab 3
      in length fs = 3 \<and> fs ! 2 = [])"

text \<open>The records of one entry's diffstat (so far: \<open>acc\<close>), and the records after them.\<close>

fun collectNumstatRecs :: "(bytes \<Rightarrow> bool) \<Rightarrow> bytes list \<Rightarrow> bytes list \<Rightarrow> bytes list \<times> bytes list" where
  "collectNumstatRecs isHeader acc [] = (acc, [])"
| "collectNumstatRecs isHeader acc (rec # recs) =
     (if isRenameNumstatRecord rec (acc = []) then
        (case recs of
           a # b # recs' \<Rightarrow> collectNumstatRecs isHeader (acc @ [rec, a, b]) recs'
         | _ \<Rightarrow> (acc, rec # recs))
      else if isHeader rec then (acc, rec # recs)
      else collectNumstatRecs isHeader (acc @ [rec]) recs)"

lemma collectNumstatRecs_shrinks: "length (snd (collectNumstatRecs isHeader acc recs)) \<le> length recs"
proof (induction isHeader acc recs rule: collectNumstatRecs.induct)
  case (2 isHeader acc rec recs)
  show ?case
  proof (cases "isRenameNumstatRecord rec (acc = [])")
    case True
    show ?thesis
    proof (cases "\<exists>a b recs'. recs = a # b # recs'")
      case True
      then obtain a b recs' where recs: "recs = a # b # recs'" by blast
      have "length (snd (collectNumstatRecs isHeader (acc @ [rec, a, b]) recs')) \<le> length recs'"
        using 2(1) [OF \<open>isRenameNumstatRecord rec (acc = [])\<close> recs] by blast
      then show ?thesis using \<open>isRenameNumstatRecord rec (acc = [])\<close> recs by simp
    next
      case False
      then show ?thesis using True by (cases recs; cases "tl recs") auto
    qed
  next
    case False
    then show ?thesis using 2(2) by auto
  qed
qed simp

definition stashEntry ::
  "(bytes \<Rightarrow> porc_error + int) \<Rightarrow> StashScope \<Rightarrow> (sha \<Rightarrow> bytes option) \<Rightarrow> bytes \<Rightarrow> bytes list \<Rightarrow>
     porc_error + StashEntry" where
  "stashEntry indexOf scope subjects header numstatRecs =
     (let fs = SplitLimitedFields header fieldDelim stashFormatFieldCount
      in if length fs \<noteq> stashFormatFieldCount then Inl (StashFieldCount (length fs) stashFormatFieldCount)
         else rbind (indexOf (fs ! 0)) (\<lambda>index.
           let parents = parseParents (fs ! 2)
           in if parents = [] then Inl (StashNoParents (fs ! 1))
              else case parseUnixSeconds (fs ! 3) of
                Inl e \<Rightarrow> Inl (StashTimestamp (fs ! 1) e)
              | Inr timestamp \<Rightarrow>
                  rbind (ParseNumstatRecords
                           (case numstatRecs of [] \<Rightarrow> [] | r # rs \<Rightarrow> TrimPrefix r [newline] # rs)) (\<lambda>numstat.
                    let untrackedSha = (if length parents > 2 then Some (parents ! 2) else None)
                    in Inr \<lparr>sh_Index = index, sh_Sha = fs ! 1, sh_BaseSha = parents ! 0,
                            sh_BaseSubject = (case subjects (parents ! 0) of Some t \<Rightarrow> t | None \<Rightarrow> []),
                            sh_IndexSha = (if length parents > 1 then parents ! 1 else []),
                            sh_UntrackedSha = untrackedSha, sh_Message = fs ! 4,
                            sh_Branch = parseBranchFromMessage (fs ! 4), sh_Timestamp = timestamp,
                            sh_FileCount = length numstat, sh_IncludedUntracked = (untrackedSha \<noteq> None),
                            sh_Scope = scope, sh_Ref = []\<rparr>)))"

text \<open>
  \<open>i\<close> is the index the error message names.  The source checks the header's own fields before it
  collects the numstat records; collecting has no effect, so the order of the two is immaterial.
\<close>

function parseStashRecords ::
  "nat \<Rightarrow> bytes list \<Rightarrow> (bytes \<Rightarrow> bool) \<Rightarrow> (bytes \<Rightarrow> porc_error + int) \<Rightarrow> StashScope \<Rightarrow> (sha \<Rightarrow> bytes option) \<Rightarrow>
     porc_error + StashEntry list" where
  "parseStashRecords i [] isHeader indexOf scope subjects = Inr []"
| "parseStashRecords i (header # recs) isHeader indexOf scope subjects =
     (if \<not> isHeader header then Inl (StashNotHeader i header)
      else let (numstatRecs, rest) = collectNumstatRecs isHeader [] recs
        in rbind (stashEntry indexOf scope subjects header numstatRecs) (\<lambda>e.
             rbind (parseStashRecords (i + 1 + length numstatRecs) rest isHeader indexOf scope subjects)
               (\<lambda>es. Inr (e # es))))"
  by pat_completeness auto
termination
proof (relation "measure (\<lambda>(i, recs, _). length recs)", simp, goal_cases)
  case (1 i header recs isHeader indexOf scope subjects x numstatRecs rest e)
  then show ?case using collectNumstatRecs_shrinks [of isHeader "[]" recs] 
    by (cases "collectNumstatRecs isHeader [] recs") auto
qed

definition ParseStashList :: "bytes \<Rightarrow> (sha \<Rightarrow> bytes option) \<Rightarrow> porc_error + StashEntry list" where
  "ParseStashList raw subjects =
     rbind (allRecords raw)
       (\<lambda>recs. parseStashRecords 0 recs isStackStashHeader parseStashIndex StashScopeStack subjects)"

definition GlobalStashFormat :: bytes where
  "GlobalStashFormat = ''%H%x1f%H%x1f%P%x1f%at%x1f%s''"

definition GlobalStashLogArgs :: "sha list \<Rightarrow> argv" where
  "GlobalStashLogArgs shas =
     [''log'', ''--no-walk'', ''-m'', ''--first-parent'', ''-z'', ''--numstat'', ''-M'', ''-C'',
      ''--format='' @ GlobalStashFormat] @ shas"

definition ParseGlobalStashList :: "bytes \<Rightarrow> (sha \<Rightarrow> bytes option) \<Rightarrow> bytes \<Rightarrow> porc_error + StashEntry list" where
  "ParseGlobalStashList raw subjects refPrefix =
     rbind (allRecords raw) (\<lambda>recs.
       rbind (parseStashRecords 0 recs isGlobalStashHeader globalStashIndex StashScopeGlobal subjects)
         (\<lambda>entries. Inr (map (\<lambda>e. e\<lparr>sh_Ref := refPrefix @ sh_Sha e\<rparr>) entries)))"

definition ParseGlobalStashRefShas :: "bytes \<Rightarrow> sha list" where
  "ParseGlobalStashRefShas raw =
     (let text = TrimSuffix raw [newline] in if text = [] then [] else SplitByte text newline)"

fun subjectsLoop :: "bytes list \<Rightarrow> (sha \<rightharpoonup> bytes) \<Rightarrow> porc_error + (sha \<rightharpoonup> bytes)" where
  "subjectsLoop [] out = Inr out"
| "subjectsLoop (rec # recs) out =
     (let fs = SplitLimitedFields rec fieldDelim 2
      in if length fs \<noteq> 2 then Inl (PairFieldCount rec (length fs))
         else subjectsLoop recs (out(fs ! 0 \<mapsto> fs ! 1)))"

definition ParseStashBaseSubjects :: "bytes \<Rightarrow> porc_error + (sha \<rightharpoonup> bytes)" where
  "ParseStashBaseSubjects raw = rbind (allRecords raw) (\<lambda>recs. subjectsLoop recs Map.empty)"

section \<open>What git prints\<close>

text \<open>A file of a diffstat: its counts (absent for a binary file), its original path for a rename.\<close>

record NumRow =
  nr_counts :: "(nat \<times> nat) option"
  nr_orig :: "path option"
  nr_path :: path

definition countTexts :: "(nat \<times> nat) option \<Rightarrow> bytes \<times> bytes" where
  "countTexts c = (case c of None \<Rightarrow> (''-'', ''-'') | Some (x, y) \<Rightarrow> (Itoa (int x), Itoa (int y)))"

definition rowRecords :: "NumRow \<Rightarrow> bytes list" where
  "rowRecords r =
     (case countTexts (nr_counts r) of (a, d) \<Rightarrow>
        (case nr_orig r of
           None \<Rightarrow> [a @ tab # d @ tab # nr_path r]
         | Some o' \<Rightarrow> [a @ tab # d @ [tab], o', nr_path r]))"

definition wfRow :: "NumRow \<Rightarrow> bool" where
  "wfRow r \<longleftrightarrow>
     (case nr_counts r of None \<Rightarrow> True | Some (x, y) \<Rightarrow> x < 2 ^ 63 \<and> y < 2 ^ 63)
     \<and> (nr_orig r = None \<longrightarrow> nr_path r \<noteq> [])"

definition markFirst :: "bytes list \<Rightarrow> bytes list" where
  "markFirst rs = (case rs of [] \<Rightarrow> [] | r # rs' \<Rightarrow> (newline # r) # rs')"

record StashItem =
  it_Index :: int
  it_Sha :: sha
  it_Parents :: "sha list"
  it_Time :: int
  it_Message :: bytes
  it_Rows :: "NumRow list"

definition headerText :: "(int \<Rightarrow> sha \<Rightarrow> bytes) \<Rightarrow> StashItem \<Rightarrow> bytes" where
  "headerText sel it =
     terminated fieldDelim [sel (it_Index it) (it_Sha it), it_Sha it, JoinByte (it_Parents it) (CHR '' ''), Itoa (it_Time it)]
     @ it_Message it"

definition itemRecords :: "(int \<Rightarrow> sha \<Rightarrow> bytes) \<Rightarrow> StashItem \<Rightarrow> bytes list" where
  "itemRecords sel it = headerText sel it # markFirst (concat (map rowRecords (it_Rows it)))"

definition wfItem :: "StashItem \<Rightarrow> bool" where
  "wfItem it \<longleftrightarrow> list_all plainChar (it_Sha it) \<and> it_Parents it \<noteq> []
     \<and> list_all (\<lambda>p. p \<noteq> [] \<and> list_all plainChar p) (it_Parents it)
     \<and> - (2 ^ 63) \<le> it_Time it \<and> it_Time it < 2 ^ 63 \<and> tab \<notin> set (it_Message it) \<and> list_all wfRow (it_Rows it)"

definition entryOf :: "StashScope \<Rightarrow> (sha \<Rightarrow> bytes option) \<Rightarrow> StashItem \<Rightarrow> StashEntry" where
  "entryOf scope subjects it =
     (let ps = it_Parents it; u = (if length ps > 2 then Some (ps ! 2) else None)
      in \<lparr>sh_Index = it_Index it, sh_Sha = it_Sha it, sh_BaseSha = ps ! 0,
          sh_BaseSubject = (case subjects (ps ! 0) of Some t \<Rightarrow> t | None \<Rightarrow> []),
          sh_IndexSha = (if length ps > 1 then ps ! 1 else []), sh_UntrackedSha = u, sh_Message = it_Message it,
          sh_Branch = parseBranchFromMessage (it_Message it), sh_Timestamp = it_Time it,
          sh_FileCount = length (it_Rows it), sh_IncludedUntracked = (u \<noteq> None), sh_Scope = scope, sh_Ref = []\<rparr>)"

lemma Itoa_no_char: "\<not> isDigit c \<Longrightarrow> c \<noteq> CHR ''-'' \<Longrightarrow> c \<notin> set (Itoa i)"
  using natText_digits [of c] by (auto simp: Itoa_def)

lemma not_rename_without_tab: "tab \<notin> set rec \<Longrightarrow> \<not> isRenameNumstatRecord rec b"
proof -
  assume "tab \<notin> set rec"
  then have "tab \<notin> set (if b then TrimPrefix rec [newline] else rec)"
    by (auto simp: TrimPrefix_def dest: in_set_dropD)
  then have "IndexByte (if b then TrimPrefix rec [newline] else rec) tab = None"
    by (rule iffD2 [OF IndexByte_None_iff])
  then show ?thesis
    by (simp add: isRenameNumstatRecord_def SplitLimitedFields_def numeral_eq_Suc)
qed

lemma countTexts_ok:
  assumes "wfRow r" and "countTexts (nr_counts r) = (a, d)"
  shows "tab \<notin> set a" "tab \<notin> set d" "checkCounts a d = None" "a \<noteq> []"
    "list_all (\<lambda>c. isDigit c \<or> c = CHR ''-'') a"
proof -
  have nd: "\<not> isDigit tab" by (simp add: isDigit_def)
  show "tab \<notin> set a" "tab \<notin> set d" "checkCounts a d = None" "a \<noteq> []" "list_all (\<lambda>c. isDigit c \<or> c = CHR ''-'') a"
    using assms Itoa_no_char [OF nd] Itoa_digits [of "int n" for n]
    by (auto simp: countTexts_def wfRow_def checkCounts_def AtoiR_Itoa list_all_iff split: option.splits)
qed

lemma SplitLimited_row:
  "tab \<notin> set a \<Longrightarrow> tab \<notin> set d \<Longrightarrow> SplitLimitedFields (a @ tab # d @ tab # p) tab 3 = [a, d, p]"
  using SplitLimitedFields_joined [of "[a, d]" tab 3 p] by auto

lemma numstatLoop_row:
  assumes "wfRow r"
  shows "numstatLoop i (rowRecords r @ recs) =
    rbind (numstatLoop (i + length (rowRecords r)) recs)
      (\<lambda>es. Inr (\<lparr>ns_Path = nr_path r, ns_OriginalPath = (case nr_orig r of None \<Rightarrow> [] | Some o' \<Rightarrow> o')\<rparr> # es))"
proof -
  obtain a d where ad: "countTexts (nr_counts r) = (a, d)" by (cases "countTexts (nr_counts r)")
  note ok = countTexts_ok [OF assms ad]
  show ?thesis
    using assms ok SplitLimited_row [OF ok(1,2), of "[]"] SplitLimited_row [OF ok(1,2), of "nr_path r"]
    by (cases "nr_orig r") (auto simp: rowRecords_def ad wfRow_def Let_def numeral_eq_Suc)
qed

lemma numstat_rows:
  "list_all wfRow rows \<Longrightarrow> \<exists>es. ParseNumstatRecords (concat (map rowRecords rows)) = Inr es \<and> length es = length rows"
proof -
  have "list_all wfRow rows \<Longrightarrow> \<exists>es. numstatLoop i (concat (map rowRecords rows)) = Inr es \<and> length es = length rows" for i
  proof (induction rows arbitrary: i)
    case (Cons r rows)
    then obtain es where "numstatLoop (i + length (rowRecords r)) (concat (map rowRecords rows)) = Inr es" "length es = length rows"
      using Cons.IH [of "i + length (rowRecords r)"] by auto
    then show ?case using Cons.prems by (simp add: numstatLoop_row)
  qed simp
  then show "list_all wfRow rows \<Longrightarrow> ?thesis" by (simp add: ParseNumstatRecords_def)
qed

section \<open>The contract of a bucket\<close>

text \<open>
  What the record walk needs of a bucket: its headers are recognised and carry their index, and no
  numstat record looks like a header.
\<close>

locale stash_bucket =
  fixes isHeader :: "bytes \<Rightarrow> bool"
    and indexOf :: "bytes \<Rightarrow> porc_error + int"
    and sel :: "int \<Rightarrow> sha \<Rightarrow> bytes"
    and okItem :: "int \<Rightarrow> sha \<Rightarrow> bool"
  assumes sel_header: "okItem k s \<Longrightarrow> isHeader (sel k s @ fieldDelim # t)"
    and sel_index: "okItem k s \<Longrightarrow> indexOf (sel k s) = Inr k"
    and sel_plain: "okItem k s \<Longrightarrow> list_all plainChar (sel k s)"
    and row_not_header: "a \<noteq> [] \<Longrightarrow> list_all (\<lambda>c. isDigit c \<or> c = CHR ''-'') a \<Longrightarrow> \<not> isHeader (a @ tab # t)"
    and first_not_header: "\<not> isHeader (newline # t)"
begin

lemma collect_row:
  assumes "wfRow r"
  shows "collectNumstatRecs isHeader (x # acc) (rowRecords r @ recs) = collectNumstatRecs isHeader (x # acc @ rowRecords r) recs"
    and "collectNumstatRecs isHeader [] (markFirst (rowRecords r) @ recs) = collectNumstatRecs isHeader (markFirst (rowRecords r)) recs"
proof -
  obtain a d where ad: "countTexts (nr_counts r) = (a, d)" by (cases "countTexts (nr_counts r)")
  note ok = countTexts_ok [OF assms ad]
  have ren: "isRenameNumstatRecord (a @ tab # d @ tab # p) False = (p = [])"
    "isRenameNumstatRecord (newline # a @ tab # d @ tab # p) True = (p = [])" for p
    using SplitLimited_row [OF ok(1,2), of p] by (simp_all add: isRenameNumstatRecord_def TrimPrefix_def)
  have nh: "\<not> isHeader (a @ tab # t)" for t using row_not_header [OF ok(4,5)] .
  show "collectNumstatRecs isHeader (x # acc) (rowRecords r @ recs) = collectNumstatRecs isHeader (x # acc @ rowRecords r) recs"
    using assms nh ren(1) [of "[]"] ren(1) [of "nr_path r"] by (cases "nr_orig r") (auto simp: rowRecords_def ad wfRow_def)
  show "collectNumstatRecs isHeader [] (markFirst (rowRecords r) @ recs) = collectNumstatRecs isHeader (markFirst (rowRecords r)) recs"
    using assms first_not_header ren(2) [of "[]"] ren(2) [of "nr_path r"] by (cases "nr_orig r") (auto simp: rowRecords_def markFirst_def ad wfRow_def)
qed

lemma collect_rows:
  "list_all wfRow rows \<Longrightarrow> acc \<noteq> [] \<Longrightarrow>
   collectNumstatRecs isHeader acc (concat (map rowRecords rows) @ recs) =
   collectNumstatRecs isHeader (acc @ concat (map rowRecords rows)) recs"
proof (induction rows arbitrary: acc)
  case (Cons r rows)
  obtain x acc' where acc: "acc = x # acc'" using Cons.prems(2) by (cases acc) auto
  show ?case
    using Cons.IH [of "acc @ rowRecords r"] Cons.prems collect_row(1) [of r x acc' "concat (map rowRecords rows) @ recs"]
    by (simp add: acc)
qed simp

lemma rowRecords_not_Nil: "rowRecords r \<noteq> []"
  by (simp add: rowRecords_def split: prod.split option.split)

lemma markFirst_append: "xs \<noteq> [] \<Longrightarrow> markFirst (xs @ ys) = markFirst xs @ ys"
  by (cases xs) (simp_all add: markFirst_def)

lemma collect_block:
  assumes "list_all wfRow rows"
  shows "collectNumstatRecs isHeader [] (markFirst (concat (map rowRecords rows)) @ recs) =
    collectNumstatRecs isHeader (markFirst (concat (map rowRecords rows))) recs"
proof (cases rows)
  case (Cons r rows')
  have ne: "markFirst (rowRecords r) \<noteq> []"
    using rowRecords_not_Nil [of r] by (cases "rowRecords r") (simp_all add: markFirst_def)
  show ?thesis
    using assms collect_row(2) [of r "concat (map rowRecords rows') @ recs"] collect_rows [of rows' "markFirst (rowRecords r)" recs]
    by (simp add: Cons markFirst_append [OF rowRecords_not_Nil] ne)
qed (simp add: markFirst_def)

lemma header_stops:
  assumes "wfItem it" and "okItem (it_Index it) (it_Sha it)"
  shows "isHeader (headerText sel it)"
    and "collectNumstatRecs isHeader acc (headerText sel it # recs) = (acc, headerText sel it # recs)"
proof -
  show h: "isHeader (headerText sel it)"
    using sel_header [OF assms(2)] by (simp add: headerText_def)
  have nt: "list_all plainChar w \<Longrightarrow> tab \<notin> set w" for w
    by (auto simp: list_all_iff plainChar_def)
  have "tab \<notin> set (JoinByte ps (CHR '' ''))" if "list_all (\<lambda>p. p \<noteq> [] \<and> list_all plainChar p) ps" for ps
    using that nt by (induction ps "CHR '' ''" rule: JoinByte.induct) auto
  moreover have "tab \<notin> set (Itoa i)" for i
    by (rule Itoa_no_char) (simp_all add: isDigit_def)
  ultimately have "tab \<notin> set (headerText sel it)"
    using assms(1) nt [OF sel_plain [OF assms(2)]] nt [of "it_Sha it"]
    by (auto simp: headerText_def wfItem_def fieldDelim_def)
  then have "\<not> isRenameNumstatRecord (headerText sel it) b" for b
    by (rule not_rename_without_tab)
  then show "collectNumstatRecs isHeader acc (headerText sel it # recs) = (acc, headerText sel it # recs)"
    using h by simp
qed

lemma stashEntry_item:
  assumes "wfItem it" and "okItem (it_Index it) (it_Sha it)"
  shows "stashEntry indexOf scope subjects (headerText sel it) (markFirst (concat (map rowRecords (it_Rows it)))) =
    Inr (entryOf scope subjects it)"
proof -
  have nd: "list_all plainChar w \<Longrightarrow> fieldDelim \<notin> set w" for w
    by (auto simp: list_all_iff plainChar_def fieldDelim_def)
  have jd: "fieldDelim \<notin> set (JoinByte ps (CHR '' ''))" if "list_all (\<lambda>p. p \<noteq> [] \<and> list_all plainChar p) ps" for ps
    using that nd by (induction ps "CHR '' ''" rule: JoinByte.induct) (auto simp: fieldDelim_def)
  have "fieldDelim \<notin> set (Itoa i)" for i
    by (rule Itoa_no_char) (simp_all add: isDigit_def fieldDelim_def)
  then have sp: "SplitLimitedFields (headerText sel it) fieldDelim stashFormatFieldCount =
      [sel (it_Index it) (it_Sha it), it_Sha it, JoinByte (it_Parents it) (CHR '' ''), Itoa (it_Time it), it_Message it]"
    unfolding headerText_def
    using assms nd [OF sel_plain [OF assms(2)]] nd [of "it_Sha it"] jd [of "it_Parents it"]
    by (subst SplitLimitedFields_joined) (auto simp: wfItem_def stashFormatFieldCount_def)
  have trim: "(case markFirst rs of [] \<Rightarrow> [] | r # rs \<Rightarrow> TrimPrefix r [newline] # rs) = rs" for rs
    by (cases rs) (simp_all add: markFirst_def TrimPrefix_def)
  obtain es where "ParseNumstatRecords (concat (map rowRecords (it_Rows it))) = Inr es" "length es = length (it_Rows it)"
    using numstat_rows [of "it_Rows it"] assms(1) by (auto simp: wfItem_def)
  moreover have "parseParents (JoinByte (it_Parents it) (CHR '' '')) = it_Parents it"
    using assms(1) by (intro parseParents_join) (simp add: wfItem_def)
  ultimately show ?thesis
    using assms(1) sel_index [OF assms(2)]
    by (simp add: stashEntry_def sp trim parseUnixSeconds_def AtoiR_Itoa wfItem_def entryOf_def Let_def)
      (simp add: stashFormatFieldCount_def)
qed

lemma walk_reads_back:
  "list_all (\<lambda>it. wfItem it \<and> okItem (it_Index it) (it_Sha it)) items \<Longrightarrow>
   parseStashRecords i (concat (map (itemRecords sel) items)) isHeader indexOf scope subjects =
     Inr (map (entryOf scope subjects) items)"
proof (induction items arbitrary: i)
  case (Cons it items)
  let ?block = "markFirst (concat (map rowRecords (it_Rows it)))" and ?rest = "concat (map (itemRecords sel) items)"
  have ok: "wfItem it" "okItem (it_Index it) (it_Sha it)" using Cons.prems by simp_all
  have "collectNumstatRecs isHeader ?block ?rest = (?block, ?rest)"
  proof (cases items)
    case (Cons it' items')
    then show ?thesis using header_stops(2) [of it' ?block] Cons.prems by (simp add: itemRecords_def)
  qed simp
  then have "collectNumstatRecs isHeader [] (?block @ ?rest) = (?block, ?rest)"
    using collect_block [of "it_Rows it" ?rest] ok by (simp add: wfItem_def)
  then show ?case
    using Cons header_stops(1) [OF ok] stashEntry_item [OF ok] by (simp add: itemRecords_def [of sel it])
qed simp

end

definition stackSel :: "int \<Rightarrow> sha \<Rightarrow> bytes" where
  "stackSel k s = stashPrefix @ Itoa k @ ''}''"

definition stackOK :: "int \<Rightarrow> sha \<Rightarrow> bool" where
  "stackOK k s \<longleftrightarrow> 0 \<le> k \<and> k < 2 ^ 63"

definition globalSel :: "int \<Rightarrow> sha \<Rightarrow> bytes" where
  "globalSel k s = s"

definition globalOK :: "int \<Rightarrow> sha \<Rightarrow> bool" where
  "globalOK k s \<longleftrightarrow> k = - 1 \<and> isHexObjectID s"

lemma isDigit_plainChar: "isDigit c \<Longrightarrow> plainChar c"
  by (simp add: isDigit_def plainChar_def isASCII_def)

lemma hex_plain: "isHexObjectID s \<Longrightarrow> list_all plainChar s"
  by (fastforce simp: isHexObjectID_def list_all_iff isDigit_def plainChar_def isASCII_def)

interpretation stack: stash_bucket isStackStashHeader parseStashIndex stackSel stackOK
proof unfold_locales
  fix k :: int and s t :: bytes
  assume ok: "stackOK k s"
  show "isStackStashHeader (stackSel k s @ fieldDelim # t)"
    by (simp add: isStackStashHeader_def stackSel_def stashPrefix_def)
  have "HasSuffix (stackSel k s) ''}''"
    using HasSuffix_append [of "stashPrefix @ Itoa k" "''}''"] by (simp add: stackSel_def)
  then show "parseStashIndex (stackSel k s) = Inr k"
    using ok by (simp add: parseStashIndex_def stackSel_def butlast_append AtoiR_Itoa stackOK_def)
  show "list_all plainChar (stackSel k s)"
    using ok Itoa_digits [of k]
    by (auto simp: stackSel_def stashPrefix_def stackOK_def list_all_iff isDigit_plainChar)
      (simp_all add: plainChar_def isASCII_def)
next
  fix a t :: bytes
  assume "a \<noteq> []" and "list_all (\<lambda>c. isDigit c \<or> c = CHR ''-'') a"
  then show "\<not> isStackStashHeader (a @ tab # t)"
    by (cases a) (auto simp: isStackStashHeader_def stashPrefix_def isDigit_def)
next
  fix t :: bytes
  show "\<not> isStackStashHeader (newline # t)"
    by (simp add: isStackStashHeader_def stashPrefix_def)
qed

interpretation bucket: stash_bucket isGlobalStashHeader globalStashIndex globalSel globalOK
proof unfold_locales
  fix k :: int and s t :: bytes
  assume ok: "globalOK k s"
  show p: "list_all plainChar (globalSel k s)"
    using ok hex_plain by (simp add: globalSel_def globalOK_def)
  then have "fieldDelim \<notin> set s"
    by (auto simp: globalSel_def list_all_iff plainChar_def fieldDelim_def)
  then show "isGlobalStashHeader (globalSel k s @ fieldDelim # t)"
    using ok by (simp add: isGlobalStashHeader_def globalSel_def globalOK_def)
  show "globalStashIndex (globalSel k s) = Inr k"
    using ok by (simp add: globalStashIndex_def globalOK_def)
next
  fix a t :: bytes
  assume "a \<noteq> []" and dg: "list_all (\<lambda>c. isDigit c \<or> c = CHR ''-'') a"
  have nt: "\<not> (isDigit tab \<or> 97 \<le> (of_char tab :: nat) \<and> (of_char tab :: nat) \<le> 102)"
    by (simp add: isDigit_def)
  have "tab \<in> set (take i (a @ tab # t))" if "IndexByte (a @ tab # t) fieldDelim = Some i" for i
  proof -
    have "length a < i"
    proof (rule ccontr)
      assume "\<not> length a < i"
      then have "(a @ tab # t) ! i \<in> set a \<union> {tab}" by (auto simp: nth_append nth_Cons')
      then show False
        using IndexByte_Some_take [OF that] dg by (auto simp: list_all_iff isDigit_def fieldDelim_def)
    qed
    then show ?thesis by (cases "i - length a") simp_all
  qed
  then show "\<not> isGlobalStashHeader (a @ tab # t)"
    using nt by (auto simp: isGlobalStashHeader_def isHexObjectID_def list_all_iff split: option.splits)
next
  fix t :: bytes
  have nn: "\<not> (isDigit newline \<or> 97 \<le> (of_char newline :: nat) \<and> (of_char newline :: nat) \<le> 102)"
    by (simp add: isDigit_def)
  show "\<not> isGlobalStashHeader (newline # t)"
    using nn by (auto simp: isGlobalStashHeader_def isHexObjectID_def fieldDelim_def split: option.splits)
qed

text \<open>
  both stash listings read back.  Entries with their parents, message and diffstat (binary
  files, renames, and files named like a header included), printed as git prints them, parse to
  one entry each, in order, with the right base, index and untracked commits and the right file
  count, for the stack and for the global bucket, whose entries also get their ref.
\<close>

theorem stash_lists_roundtrip:
  assumes "list_all wfItem stackItems" and "list_all (\<lambda>it. stackOK (it_Index it) (it_Sha it)) stackItems"
    and "list_all (\<lambda>r. nul \<notin> set r) (concat (map (itemRecords stackSel) stackItems))"
    and "list_all wfItem globalItems" and "list_all (\<lambda>it. globalOK (it_Index it) (it_Sha it)) globalItems"
    and "list_all (\<lambda>r. nul \<notin> set r) (concat (map (itemRecords globalSel) globalItems))"
  shows "ParseStashList (terminated nul (concat (map (itemRecords stackSel) stackItems))) subjects =
      Inr (map (entryOf StashScopeStack subjects) stackItems)
    \<and> ParseGlobalStashList (terminated nul (concat (map (itemRecords globalSel) globalItems))) subjects pre =
      Inr (map (\<lambda>it. (entryOf StashScopeGlobal subjects it)\<lparr>sh_Ref := pre @ it_Sha it\<rparr>) globalItems)"
proof -
  have "allRecords (terminated nul (concat (map (itemRecords stackSel) stackItems))) = Inr (concat (map (itemRecords stackSel) stackItems))"
    "allRecords (terminated nul (concat (map (itemRecords globalSel) globalItems))) = Inr (concat (map (itemRecords globalSel) globalItems))"
    using assms(3,6) by (auto intro!: allRecords_terminated simp: list_all_iff)
  moreover have "sh_Sha (entryOf scope subjects it) = it_Sha it" for scope it
    by (simp add: entryOf_def Let_def)
  ultimately show ?thesis
    using stack.walk_reads_back [of stackItems 0 StashScopeStack subjects]
      bucket.walk_reads_back [of globalItems 0 StashScopeGlobal subjects] assms
    by (simp add: ParseStashList_def ParseGlobalStashList_def list_all_iff)
qed

definition sampleStack :: StashItem where
  "sampleStack = \<lparr>it_Index = 0, it_Sha = ''a1'', it_Parents = [''b2'', ''c3'', ''d4''], it_Time = 5,
     it_Message = ''WIP on main: b2 x'', it_Rows = [\<lparr>nr_counts = Some (1, 2), nr_orig = None, nr_path = ''f''\<rparr>,
       \<lparr>nr_counts = None, nr_orig = Some (stashPrefix @ ''0}''), nr_path = ''g''\<rparr>]\<rparr>"

definition sampleGlobal :: StashItem where
  "sampleGlobal = \<lparr>it_Index = - 1, it_Sha = replicate 40 (CHR ''a''), it_Parents = [''b2''], it_Time = 7,
     it_Message = ''x'', it_Rows = []\<rparr>"

theorem stash_lists_roundtrip_witness:
  "ParseStashList (terminated nul (concat (map (itemRecords stackSel) [sampleStack, sampleStack]))) Map.empty =
      Inr (map (entryOf StashScopeStack Map.empty) [sampleStack, sampleStack])
   \<and> sh_UntrackedSha (entryOf StashScopeStack Map.empty sampleStack) = Some ''d4''"
proof -
  have it: "Itoa 0 = ''0''" "Itoa 5 = ''5''" "Itoa 7 = ''7''" "Itoa 1 = ''1''" "Itoa 2 = ''2''" by code_simp+
  have pl: "plainChar (CHR ''a'')" "plainChar (CHR ''b'')" "plainChar (CHR ''c'')" "plainChar (CHR ''d'')"
    "plainChar (CHR ''1'')" "plainChar (CHR ''2'')" "plainChar (CHR ''3'')" "plainChar (CHR ''4'')"
    by (simp_all add: plainChar_def isASCII_def)
  have "wfItem sampleStack" "stackOK (it_Index sampleStack) (it_Sha sampleStack)"
    by (simp_all add: wfItem_def sampleStack_def stackOK_def wfRow_def pl)
  moreover have "list_all (\<lambda>r. nul \<notin> set r) (itemRecords stackSel sampleStack)"
    by (simp add: itemRecords_def headerText_def sampleStack_def stackSel_def stashPrefix_def markFirst_def rowRecords_def
        countTexts_def it fieldDelim_def)
  moreover have "wfItem sampleGlobal" "globalOK (it_Index sampleGlobal) (it_Sha sampleGlobal)"
    by (simp_all add: wfItem_def sampleGlobal_def globalOK_def pl list_all_iff isHexObjectID_def)
  moreover have "list_all (\<lambda>r. nul \<notin> set r) (itemRecords globalSel sampleGlobal)"
    by (simp add: itemRecords_def headerText_def sampleGlobal_def globalSel_def markFirst_def it fieldDelim_def)
  ultimately show ?thesis
    using stash_lists_roundtrip [of "[sampleStack, sampleStack]" "[sampleGlobal]" Map.empty "[]"]
    by (simp add: entryOf_def sampleStack_def Let_def)
qed

end
