(* ===== verification/Checkout.thy ===== *)
theory Checkout
  imports Classifier
begin

text \<open>
  \<^verbatim>\<open>gitpreflight/checkout.go\<close>: what a checkout would carry along, what blocks it, and which ways
  around the block the dialog may offer.  \<^verbatim>\<open>Mode\<close> and \<^verbatim>\<open>Target.Kind\<close> are the strings of the wire
  request; the set of paths of the target tree is an input no code reads.
\<close>

section \<open>Types\<close>

record CheckoutTarget =
  ct_Kind :: bytes
  ct_Name :: bytes

record CreatesTracking =
  tr_Branch :: bytes
  tr_Upstream :: bytes

datatype CheckoutBlockerKind =
  CoInProgressOperation | CoWorktreeConflict | CoBlockedByUntracked | CoBlockedByTracked

record CheckoutBlocker =
  cb_Kind :: CheckoutBlockerKind
  cb_Paths :: "path list"
  cb_Operation :: "InProgressOperation option"
  cb_Branch :: bytes
  cb_WorktreePath :: path

datatype CheckoutVerdict = CoClean | CoCleanCarry | CoBlocked

datatype CheckoutRoute = RouteDiscard | RouteStashAndCarry | RouteAutoStash | RouteDetachHere

record CheckoutPreflight =
  cp_Target :: CheckoutTarget
  cp_Detaches :: bool
  cp_CreatesTracking :: "CreatesTracking option"
  cp_Carried :: "path list"
  cp_Blockers :: "CheckoutBlocker list"
  cp_Verdict :: CheckoutVerdict
  cp_Routes :: "CheckoutRoute list"

record ClassifyCheckoutInput =
  ci_Target :: CheckoutTarget
  ci_Mode :: bytes
  ci_Dirty :: "DirtyPath list"
  ci_Rewritten :: "path list"
  ci_TargetTreePaths :: "path set"
  ci_InProgress :: "InProgressOperation option"
  ci_CheckedOutIn :: "path option"
  ci_StashAvailable :: bool

section \<open>The classifier\<close>

definition stripRemotePrefix :: "bytes \<Rightarrow> bytes" where
  "stripRemotePrefix remoteBranchName =
     (case IndexByte remoteBranchName (CHR ''/'') of
        Some i \<Rightarrow> drop (i + 1) remoteBranchName
      | None \<Rightarrow> remoteBranchName)"

text \<open>The three lists the loop over the dirty paths appends to: tracked, untracked, carried.\<close>

fun splitDirty :: "path set \<Rightarrow> path list \<times> path list \<times> path list \<Rightarrow> DirtyPath list \<Rightarrow>
    path list \<times> path list \<times> path list" where
  "splitDirty rewrittenSet acc [] = acc"
| "splitDirty rewrittenSet (t, u, c) (d # ds) =
     (if dp_Path d \<in> rewrittenSet then
        (if dp_Tracked d then splitDirty rewrittenSet (t @ [dp_Path d], u, c) ds
         else splitDirty rewrittenSet (t, u @ [dp_Path d], c) ds)
      else splitDirty rewrittenSet (t, u, c @ [dp_Path d]) ds)"

definition blockerOf :: "CheckoutBlockerKind \<Rightarrow> CheckoutBlocker" where
  "blockerOf kind =
     \<lparr>cb_Kind = kind, cb_Paths = [], cb_Operation = None, cb_Branch = [], cb_WorktreePath = []\<rparr>"

definition ClassifyCheckout :: "ClassifyCheckoutInput \<Rightarrow> CheckoutPreflight" where
  "ClassifyCheckout inp =
     (case splitDirty (set (ci_Rewritten inp)) ([], [], []) (ci_Dirty inp) of
        (trackedBlocked, untrackedBlocked, carried) \<Rightarrow>
          (let blockers =
                 (case ci_InProgress inp of None \<Rightarrow> []
                  | Some op \<Rightarrow> [(blockerOf CoInProgressOperation)\<lparr>cb_Operation := Some op\<rparr>]) @
                 (case ci_CheckedOutIn inp of None \<Rightarrow> []
                  | Some w \<Rightarrow> [(blockerOf CoWorktreeConflict)
                                 \<lparr>cb_Branch := ct_Name (ci_Target inp), cb_WorktreePath := w\<rparr>]) @
                 (if 0 < length untrackedBlocked
                  then [(blockerOf CoBlockedByUntracked)\<lparr>cb_Paths := untrackedBlocked\<rparr>] else []) @
                 (if 0 < length trackedBlocked
                  then [(blockerOf CoBlockedByTracked)\<lparr>cb_Paths := trackedBlocked\<rparr>] else []);
               verdict =
                 (if 0 < length blockers then CoBlocked
                  else if 0 < length carried then CoCleanCarry else CoClean);
               routes =
                 (if 0 < length trackedBlocked \<and> length untrackedBlocked = 0
                  then RouteDiscard # (if ci_StashAvailable inp then [RouteStashAndCarry] else []) else []) @
                 (if ci_StashAvailable inp \<and> ci_InProgress inp = None \<and>
                     (0 < length trackedBlocked \<or> 0 < length untrackedBlocked)
                  then [RouteAutoStash] else []) @
                 (if ci_CheckedOutIn inp \<noteq> None \<and> ci_InProgress inp = None \<and> ci_Mode inp = ''switch'' \<and>
                     (ct_Kind (ci_Target inp) = ''branch'' \<or> ct_Kind (ci_Target inp) = ''remoteBranch'')
                  then [RouteDetachHere] else []);
               detaches =
                 (ci_Mode inp = ''detach'' \<or> ct_Kind (ci_Target inp) = ''tag'' \<or> ct_Kind (ci_Target inp) = ''sha'');
               creates =
                 (if ci_Mode inp = ''switch'' \<and> ct_Kind (ci_Target inp) = ''remoteBranch''
                  then Some \<lparr>tr_Branch = stripRemotePrefix (ct_Name (ci_Target inp)),
                             tr_Upstream = ct_Name (ci_Target inp)\<rparr>
                  else None)
           in \<lparr>cp_Target = ci_Target inp, cp_Detaches = detaches, cp_CreatesTracking = creates,
               cp_Carried = carried, cp_Blockers = blockers, cp_Verdict = verdict, cp_Routes = routes\<rparr>))"

section \<open>Lemmas\<close>

definition blockedPaths :: "bool \<Rightarrow> ClassifyCheckoutInput \<Rightarrow> path list" where
  "blockedPaths tracked inp =
     map dp_Path (filter (\<lambda>d. dp_Path d \<in> set (ci_Rewritten inp) \<and> dp_Tracked d = tracked) (ci_Dirty inp))"

definition carriedPaths :: "ClassifyCheckoutInput \<Rightarrow> path list" where
  "carriedPaths inp = map dp_Path (filter (\<lambda>d. dp_Path d \<notin> set (ci_Rewritten inp)) (ci_Dirty inp))"

lemma splitDirty_eq:
  "splitDirty R (t, u, c) ds =
     (t @ map dp_Path (filter (\<lambda>d. dp_Path d \<in> R \<and> dp_Tracked d = True) ds),
      u @ map dp_Path (filter (\<lambda>d. dp_Path d \<in> R \<and> dp_Tracked d = False) ds),
      c @ map dp_Path (filter (\<lambda>d. dp_Path d \<notin> R) ds))"
  by (induction ds arbitrary: t u c) auto

lemma splitDirty_paths:
  "splitDirty (set (ci_Rewritten inp)) ([], [], []) (ci_Dirty inp) =
     (blockedPaths True inp, blockedPaths False inp, carriedPaths inp)"
  by (simp add: splitDirty_eq blockedPaths_def carriedPaths_def)

lemmas checkout_unfold = ClassifyCheckout_def splitDirty_paths blockerOf_def Let_def

lemma checkout_carried: "cp_Carried (ClassifyCheckout inp) = carriedPaths inp"
  by (simp add: checkout_unfold)

lemma checkout_blocker_paths:
  "cb_Kind b = CoBlockedByTracked \<Longrightarrow> b \<in> set (cp_Blockers (ClassifyCheckout inp)) \<Longrightarrow> cb_Paths b = blockedPaths True inp"
  "cb_Kind b = CoBlockedByUntracked \<Longrightarrow> b \<in> set (cp_Blockers (ClassifyCheckout inp)) \<Longrightarrow> cb_Paths b = blockedPaths False inp"
  by (auto simp: checkout_unfold split: if_splits option.splits)

definition checkoutChecks :: "(CheckoutBlockerKind \<times> (ClassifyCheckoutInput \<Rightarrow> bool)) list" where
  "checkoutChecks =
     [(CoInProgressOperation, \<lambda>inp. ci_InProgress inp \<noteq> None),
      (CoWorktreeConflict, \<lambda>inp. ci_CheckedOutIn inp \<noteq> None),
      (CoBlockedByUntracked, \<lambda>inp. blockedPaths False inp \<noteq> []),
      (CoBlockedByTracked, \<lambda>inp. blockedPaths True inp \<noteq> [])]"

interpretation co: classifier ClassifyCheckout "\<lambda>r. map cb_Kind (cp_Blockers r)"
  "\<lambda>r. cp_Verdict r = CoBlocked" checkoutChecks
  by unfold_locales (auto simp: checkout_unfold checkoutChecks_def split: option.splits)

lemma checkout_verdict:
  "cp_Verdict (ClassifyCheckout inp) = CoBlocked \<longleftrightarrow>
     ci_InProgress inp \<noteq> None \<or> ci_CheckedOutIn inp \<noteq> None \<or>
     (\<exists>d\<in>set (ci_Dirty inp). dp_Path d \<in> set (ci_Rewritten inp))"
proof -
  have "(\<exists>d\<in>set (ci_Dirty inp). dp_Path d \<in> set (ci_Rewritten inp)) \<longleftrightarrow>
        blockedPaths False inp \<noteq> [] \<or> blockedPaths True inp \<noteq> []"
    by (auto simp: blockedPaths_def filter_empty_conv)
  then show ?thesis unfolding co.blocked_iff by (auto simp: checkoutChecks_def)
qed

lemma checkout_mset:
  "mset (map dp_Path (ci_Dirty inp)) =
     mset (carriedPaths inp) + mset (blockedPaths False inp) + mset (blockedPaths True inp)"
proof -
  have "mset (map dp_Path ds) =
      mset (map dp_Path (filter (\<lambda>d. dp_Path d \<notin> R) ds)) +
      mset (map dp_Path (filter (\<lambda>d. dp_Path d \<in> R \<and> \<not> dp_Tracked d) ds)) +
      mset (map dp_Path (filter (\<lambda>d. dp_Path d \<in> R \<and> dp_Tracked d) ds))" for ds :: "DirtyPath list" and R
    by (induction ds) auto
  then show ?thesis by (simp add: carriedPaths_def blockedPaths_def)
qed

section \<open>Properties\<close>

text \<open>
  C18: A checkout is blocked exactly when an operation is in progress, the branch is checked out in
  another worktree or a dirty path would be rewritten; unblocked it carries exactly when something
  is dirty.  Carried paths and the paths the blockers name are together the dirty paths, each
  once; no carried path would be rewritten and every path a blocker names would be; the blockers
  come in the documented order without repetition.
\<close>

theorem checkout_exact:
  "(cp_Verdict (ClassifyCheckout inp) = CoBlocked \<longleftrightarrow>
      (\<exists>op. ci_InProgress inp = Some op) \<or> (\<exists>w. ci_CheckedOutIn inp = Some w) \<or>
      (\<exists>d. d \<in> set (ci_Dirty inp) \<and> dp_Path d \<in> set (ci_Rewritten inp))) \<and>
   (cp_Verdict (ClassifyCheckout inp) = CoCleanCarry \<longleftrightarrow>
      cp_Verdict (ClassifyCheckout inp) \<noteq> CoBlocked \<and> ci_Dirty inp \<noteq> []) \<and>
   mset (map dp_Path (ci_Dirty inp)) =
     mset (cp_Carried (ClassifyCheckout inp)) + mset (concat (map cb_Paths (cp_Blockers (ClassifyCheckout inp)))) \<and>
   set (cp_Carried (ClassifyCheckout inp)) \<inter> set (ci_Rewritten inp) = {} \<and>
   set (concat (map cb_Paths (cp_Blockers (ClassifyCheckout inp)))) \<subseteq> set (ci_Rewritten inp) \<and>
   subseq (map cb_Kind (cp_Blockers (ClassifyCheckout inp)))
     [CoInProgressOperation, CoWorktreeConflict, CoBlockedByUntracked, CoBlockedByTracked]"
proof -
  let ?r = "ClassifyCheckout inp"
  have paths: "concat (map cb_Paths (cp_Blockers ?r)) = blockedPaths False inp @ blockedPaths True inp"
    by (auto simp: checkout_unfold split: option.splits)
  have "set (blockedPaths t inp) \<subseteq> set (ci_Rewritten inp)" for t
    by (auto simp: blockedPaths_def)
  moreover have "cp_Verdict ?r = CoCleanCarry \<longleftrightarrow> cp_Verdict ?r \<noteq> CoBlocked \<and> ci_Dirty inp \<noteq> []"
  proof -
    have "ci_Dirty inp \<noteq> [] \<longleftrightarrow> carriedPaths inp \<noteq> [] \<or> blockedPaths False inp \<noteq> [] \<or> blockedPaths True inp \<noteq> []"
      using checkout_mset [of inp] by (cases "ci_Dirty inp") auto
    then show ?thesis by (auto simp: checkout_unfold split: option.splits)
  qed
  moreover have "set (carriedPaths inp) \<inter> set (ci_Rewritten inp) = {}"
    by (auto simp: carriedPaths_def)
  ultimately show ?thesis
    using checkout_verdict [of inp] checkout_mset [of inp] co.blockers_in_order [of inp] paths
    by (simp add: checkout_carried checkoutChecks_def Bex_def ac_simps)
qed

text \<open>
  The request a client re-issues after taking every route on offer: an automatic stash leaves
  nothing dirty, detaching is a detach-mode request, which a branch checked out elsewhere does
  not refuse.
\<close>

definition takeRoutes :: "ClassifyCheckoutInput \<Rightarrow> ClassifyCheckoutInput" where
  "takeRoutes inp =
     (let routes = cp_Routes (ClassifyCheckout inp)
      in inp\<lparr>ci_Dirty := (if RouteAutoStash \<in> set routes then [] else ci_Dirty inp),
             ci_Mode := (if RouteDetachHere \<in> set routes then ''detach'' else ci_Mode inp),
             ci_CheckedOutIn := (if RouteDetachHere \<in> set routes then None else ci_CheckedOutIn inp)\<rparr>)"

text \<open>The worktree after the tracked paths in the way are discarded.\<close>

definition discardBlocked :: "ClassifyCheckoutInput \<Rightarrow> ClassifyCheckoutInput" where
  "discardBlocked inp =
     inp\<lparr>ci_Dirty := filter (\<lambda>d. \<not> (dp_Tracked d \<and> dp_Path d \<in> set (ci_Rewritten inp))) (ci_Dirty inp)\<rparr>"

lemma routes_members:
  "RouteDiscard \<in> set (cp_Routes (ClassifyCheckout inp)) \<longleftrightarrow> blockedPaths True inp \<noteq> [] \<and> blockedPaths False inp = []"
  "RouteAutoStash \<in> set (cp_Routes (ClassifyCheckout inp)) \<longleftrightarrow>
     ci_StashAvailable inp \<and> ci_InProgress inp = None \<and> (blockedPaths True inp \<noteq> [] \<or> blockedPaths False inp \<noteq> [])"
  "RouteDetachHere \<in> set (cp_Routes (ClassifyCheckout inp)) \<longleftrightarrow>
     ci_CheckedOutIn inp \<noteq> None \<and> ci_InProgress inp = None \<and> ci_Mode inp = ''switch'' \<and>
     (ct_Kind (ci_Target inp) = ''branch'' \<or> ct_Kind (ci_Target inp) = ''remoteBranch'')"
  by (auto simp: checkout_unfold split: if_splits)

lemma discard_clears:
  assumes "RouteDiscard \<in> set (cp_Routes (ClassifyCheckout inp))"
  shows "map cb_Kind (cp_Blockers (ClassifyCheckout (discardBlocked inp))) =
         remove1 CoBlockedByTracked (map cb_Kind (cp_Blockers (ClassifyCheckout inp)))"
proof (rule co.clear_one)
  have nb: "blockedPaths True inp \<noteq> []" and nu: "blockedPaths False inp = []"
    using assms by (simp_all add: routes_members)
  show "CoBlockedByTracked \<in> set (map cb_Kind (cp_Blockers (ClassifyCheckout inp)))"
    using nb co.blocker_iff [of CoBlockedByTracked "\<lambda>inp. blockedPaths True inp \<noteq> []" inp]
    by (simp add: checkoutChecks_def)
  have "blockedPaths True (discardBlocked inp) = []" and "blockedPaths False (discardBlocked inp) = blockedPaths False inp"
    by (auto simp: blockedPaths_def discardBlocked_def filter_empty_conv intro!: arg_cong [where f = "map dp_Path"] filter_cong)
  then show "c (discardBlocked inp) \<longleftrightarrow> c inp \<and> k' \<noteq> CoBlockedByTracked" if "(k', c) \<in> set checkoutChecks" for k' c
    using that nu by (auto simp: checkoutChecks_def discardBlocked_def)
qed

definition demoCheckout :: ClassifyCheckoutInput where
  "demoCheckout =
     \<lparr>ci_Target = \<lparr>ct_Kind = ''branch'', ct_Name = ''topic''\<rparr>, ci_Mode = ''switch'',
      ci_Dirty = [\<lparr>dp_Path = ''a'', dp_Tracked = True\<rparr>, \<lparr>dp_Path = ''b'', dp_Tracked = False\<rparr>],
      ci_Rewritten = [''a''], ci_TargetTreePaths = {}, ci_InProgress = None,
      ci_CheckedOutIn = Some ''/wt'', ci_StashAvailable = True\<rparr>"

text \<open>
  A blocked checkout is no dead end: with no operation in progress and a stash available, a
  switch to a branch that takes every offered route is not blocked any more, and it creates no
  tracking branch when it detaches; and when discarding is offered, discarding the tracked paths
  in the way removes exactly that blocker and leaves the others.
\<close>

theorem checkout_routes_clear:
  assumes "ci_InProgress inp = None" and "ci_StashAvailable inp" and "ci_Mode inp = ''switch''"
    and "ct_Kind (ci_Target inp) \<in> {''branch'', ''remoteBranch''}"
  shows "cp_Verdict (ClassifyCheckout (takeRoutes inp)) \<noteq> CoBlocked \<and>
         (cp_Detaches (ClassifyCheckout (takeRoutes inp)) \<longrightarrow> cp_CreatesTracking (ClassifyCheckout (takeRoutes inp)) = None) \<and>
         (RouteDiscard \<in> set (cp_Routes (ClassifyCheckout inp)) \<longrightarrow>
            map cb_Kind (cp_Blockers (ClassifyCheckout (discardBlocked inp))) =
              remove1 CoBlockedByTracked (map cb_Kind (cp_Blockers (ClassifyCheckout inp))))"
proof -
  have dirty: "(\<exists>d\<in>set (ci_Dirty inp). dp_Path d \<in> set (ci_Rewritten inp)) \<longleftrightarrow>
        blockedPaths False inp \<noteq> [] \<or> blockedPaths True inp \<noteq> []"
    by (auto simp: blockedPaths_def filter_empty_conv)
  have "cp_Verdict (ClassifyCheckout (takeRoutes inp)) \<noteq> CoBlocked"
    unfolding checkout_verdict using assms dirty by (auto simp: takeRoutes_def Let_def routes_members)
  moreover have "cp_Detaches (ClassifyCheckout (takeRoutes inp)) \<longrightarrow>
      cp_CreatesTracking (ClassifyCheckout (takeRoutes inp)) = None"
    using assms(3,4) by (auto simp: takeRoutes_def checkout_unfold)
  ultimately show ?thesis using discard_clears by blast
qed

lemma checkout_routes_clear_witness:
  "cp_Verdict (ClassifyCheckout demoCheckout) = CoBlocked \<and>
   cp_Verdict (ClassifyCheckout (takeRoutes demoCheckout)) \<noteq> CoBlocked \<and>
   map cb_Kind (cp_Blockers (ClassifyCheckout (discardBlocked demoCheckout))) = [CoWorktreeConflict]"
proof -
  have "RouteDiscard \<in> set (cp_Routes (ClassifyCheckout demoCheckout))"
    by (simp add: ClassifyCheckout_def demoCheckout_def Let_def)
  moreover have "map cb_Kind (cp_Blockers (ClassifyCheckout demoCheckout)) = [CoWorktreeConflict, CoBlockedByTracked]"
    by (simp add: ClassifyCheckout_def demoCheckout_def Let_def blockerOf_def)
  ultimately show ?thesis
    using checkout_routes_clear [of demoCheckout]
    by (simp add: co.blocked_verdict) (simp add: demoCheckout_def)
qed

end
