(* ===== verification/Picks.thy ===== *)
theory Picks
  imports Classifier
begin

text \<open>
  \<^verbatim>\<open>gitpreflight/revert.go\<close> and \<^verbatim>\<open>gitpreflight/cherrypick.go\<close>: the two classifiers of operations
  that replay commits, with the prediction type the stash classifier shares.  \<^verbatim>\<open>Prediction.Kind\<close>
  is the string of the wire.
\<close>

section \<open>Types\<close>

record RevertParentChoice =
  pc_ParentNumber :: int
  pc_Sha :: sha
  pc_Subject :: bytes

record RevertMainlineChoice =
  mc_Sha :: sha
  mc_Parents :: "RevertParentChoice list"

record RevertPrediction =
  pr_Kind :: bytes
  pr_Paths :: "path list"
  pr_Reason :: bytes

datatype PickVerdict = PkClean | PkWillConflict | PkBlocked

datatype RevertBlocker = RvInProgressOperation | RvMainlineRequired | RvDirtyWorktree

record RevertPreflight =
  rv_Shas :: "sha list"
  rv_MainlineRequired :: "RevertMainlineChoice list"
  rv_DirtyPaths :: "path list"
  rv_InProgress :: "InProgressOperation option"
  rv_Prediction :: RevertPrediction
  rv_PredictedFor :: "sha option"
  rv_DetachedHead :: bool
  rv_Verdict :: PickVerdict
  rv_Blockers :: "RevertBlocker list"

record ClassifyRevertInput =
  vi_Shas :: "sha list"
  vi_MergeParents :: "sha \<Rightarrow> RevertParentChoice list option"
  vi_Mainline :: "int option"
  vi_DirtyPaths :: "path list"
  vi_InProgress :: "InProgressOperation option"
  vi_DetachedHead :: bool
  vi_Prediction :: RevertPrediction

record CherryPickCommitPaths =
  kp_Touched :: "path list"
  kp_Added :: "path list"

datatype CherryPickBlockerKind =
  CkInProgressOperation | CkMainlineRequired | CkStagedChanges | CkUntrackedWouldBeOverwritten
  | CkLocalChangesWouldBeOverwritten

record CherryPickBlocker =
  kb_Kind :: CherryPickBlockerKind
  kb_Paths :: "path list"
  kb_Parents :: "RevertParentChoice list"
  kb_Operation :: "InProgressOperation option"

record CherryPickPreflight =
  kr_Sha :: sha
  kr_Subject :: bytes
  kr_MainlineRequired :: "RevertParentChoice list"
  kr_Prediction :: RevertPrediction
  kr_AlreadyApplied :: bool
  kr_InProgress :: "InProgressOperation option"
  kr_DetachedHead :: bool
  kr_Verdict :: PickVerdict
  kr_Blockers :: "CherryPickBlocker list"

record ClassifyCherryPickInput =
  ki_Sha :: sha
  ki_Subject :: bytes
  ki_MergeParents :: "RevertParentChoice list"
  ki_Mainline :: "int option"
  ki_CommitPaths :: CherryPickCommitPaths
  ki_Dirty :: ResetDirty
  ki_Prediction :: RevertPrediction
  ki_AlreadyApplied :: bool
  ki_InProgress :: "InProgressOperation option"
  ki_DetachedHead :: bool

section \<open>Revert\<close>

fun mainlineLoop :: "(sha \<Rightarrow> RevertParentChoice list option) \<Rightarrow> sha list \<Rightarrow> RevertMainlineChoice list" where
  "mainlineLoop mergeParents [] = []"
| "mainlineLoop mergeParents (sha # shas) =
     (case mergeParents sha of
        Some parents \<Rightarrow> \<lparr>mc_Sha = sha, mc_Parents = parents\<rparr> # mainlineLoop mergeParents shas
      | None \<Rightarrow> mainlineLoop mergeParents shas)"

definition ClassifyRevert :: "ClassifyRevertInput \<Rightarrow> RevertPreflight" where
  "ClassifyRevert inp =
     (let shas = vi_Shas inp;
          mainlineRequired = (if vi_Mainline inp = None then mainlineLoop (vi_MergeParents inp) shas else []);
          blockers =
            (if vi_InProgress inp \<noteq> None then [RvInProgressOperation] else []) @
            (if 0 < length mainlineRequired then [RvMainlineRequired] else []) @
            (if 0 < length (vi_DirtyPaths inp) then [RvDirtyWorktree] else []);
          verdict =
            (if 0 < length blockers then PkBlocked
             else if pr_Kind (vi_Prediction inp) = ''conflicts'' then PkWillConflict else PkClean);
          predictedFor = (if 0 < length shas then Some (shas ! 0) else None)
      in \<lparr>rv_Shas = shas, rv_MainlineRequired = mainlineRequired, rv_DirtyPaths = vi_DirtyPaths inp,
          rv_InProgress = vi_InProgress inp, rv_Prediction = vi_Prediction inp,
          rv_PredictedFor = predictedFor, rv_DetachedHead = vi_DetachedHead inp, rv_Verdict = verdict,
          rv_Blockers = blockers\<rparr>)"

section \<open>Cherry-pick\<close>

definition intersect :: "path list \<Rightarrow> path list \<Rightarrow> path list" where
  "intersect a b = filter (\<lambda>p. p \<in> set b) a"

definition pickBlocker :: "CherryPickBlockerKind \<Rightarrow> CherryPickBlocker" where
  "pickBlocker kind = \<lparr>kb_Kind = kind, kb_Paths = [], kb_Parents = [], kb_Operation = None\<rparr>"

definition ClassifyCherryPick :: "ClassifyCherryPickInput \<Rightarrow> CherryPickPreflight" where
  "ClassifyCherryPick inp =
     (let mainlineRequired =
            (if 0 < length (ki_MergeParents inp) \<and> ki_Mainline inp = None then ki_MergeParents inp else []);
          untrackedHit = intersect (rd_Untracked (ki_Dirty inp)) (kp_Added (ki_CommitPaths inp));
          unstagedHit = intersect (rd_Unstaged (ki_Dirty inp)) (kp_Touched (ki_CommitPaths inp));
          blockers =
            (case ki_InProgress inp of None \<Rightarrow> []
             | Some op \<Rightarrow> [(pickBlocker CkInProgressOperation)\<lparr>kb_Operation := Some op\<rparr>]) @
            (if 0 < length mainlineRequired
             then [(pickBlocker CkMainlineRequired)\<lparr>kb_Parents := mainlineRequired\<rparr>] else []) @
            (if 0 < length (rd_Staged (ki_Dirty inp))
             then [(pickBlocker CkStagedChanges)\<lparr>kb_Paths := rd_Staged (ki_Dirty inp)\<rparr>] else []) @
            (if 0 < length untrackedHit
             then [(pickBlocker CkUntrackedWouldBeOverwritten)\<lparr>kb_Paths := untrackedHit\<rparr>] else []) @
            (if 0 < length unstagedHit
             then [(pickBlocker CkLocalChangesWouldBeOverwritten)\<lparr>kb_Paths := unstagedHit\<rparr>] else []);
          verdict =
            (if 0 < length blockers then PkBlocked
             else if pr_Kind (ki_Prediction inp) = ''conflicts'' then PkWillConflict else PkClean)
      in \<lparr>kr_Sha = ki_Sha inp, kr_Subject = ki_Subject inp, kr_MainlineRequired = mainlineRequired,
          kr_Prediction = ki_Prediction inp, kr_AlreadyApplied = ki_AlreadyApplied inp,
          kr_InProgress = ki_InProgress inp, kr_DetachedHead = ki_DetachedHead inp,
          kr_Verdict = verdict, kr_Blockers = blockers\<rparr>)"

section \<open>Lemmas\<close>

lemma mainlineLoop_shas: "map mc_Sha (mainlineLoop mp shas) = filter (\<lambda>s. mp s \<noteq> None) shas"
  by (induction shas) (auto split: option.splits)

lemma mainlineLoop_parents: "m \<in> set (mainlineLoop mp shas) \<Longrightarrow> mp (mc_Sha m) = Some (mc_Parents m)"
  by (induction shas) (auto split: option.splits)

lemma mainlineLoop_empty: "mainlineLoop mp shas = [] \<longleftrightarrow> (\<forall>s\<in>set shas. mp s = None)"
  using arg_cong [OF mainlineLoop_shas [of mp shas], of length] by (auto simp: filter_empty_conv)

lemma intersect_empty: "intersect a b = [] \<longleftrightarrow> set a \<inter> set b = {}"
  by (auto simp: intersect_def filter_empty_conv)

definition revertChecks :: "(RevertBlocker \<times> (ClassifyRevertInput \<Rightarrow> bool)) list" where
  "revertChecks =
     [(RvInProgressOperation, \<lambda>inp. vi_InProgress inp \<noteq> None),
      (RvMainlineRequired, \<lambda>inp. vi_Mainline inp = None \<and> (\<exists>s\<in>set (vi_Shas inp). vi_MergeParents inp s \<noteq> None)),
      (RvDirtyWorktree, \<lambda>inp. vi_DirtyPaths inp \<noteq> [])]"

interpretation rv: classifier ClassifyRevert rv_Blockers "\<lambda>r. rv_Verdict r = PkBlocked" revertChecks
  by unfold_locales (auto simp: ClassifyRevert_def Let_def revertChecks_def mainlineLoop_empty)

definition pickChecks :: "(CherryPickBlockerKind \<times> (ClassifyCherryPickInput \<Rightarrow> bool)) list" where
  "pickChecks =
     [(CkInProgressOperation, \<lambda>inp. ki_InProgress inp \<noteq> None),
      (CkMainlineRequired, \<lambda>inp. ki_MergeParents inp \<noteq> [] \<and> ki_Mainline inp = None),
      (CkStagedChanges, \<lambda>inp. rd_Staged (ki_Dirty inp) \<noteq> []),
      (CkUntrackedWouldBeOverwritten,
         \<lambda>inp. set (rd_Untracked (ki_Dirty inp)) \<inter> set (kp_Added (ki_CommitPaths inp)) \<noteq> {}),
      (CkLocalChangesWouldBeOverwritten,
         \<lambda>inp. set (rd_Unstaged (ki_Dirty inp)) \<inter> set (kp_Touched (ki_CommitPaths inp)) \<noteq> {})]"

interpretation ck: classifier ClassifyCherryPick "\<lambda>r. map kb_Kind (kr_Blockers r)"
  "\<lambda>r. kr_Verdict r = PkBlocked" pickChecks
  by unfold_locales
    (auto simp: ClassifyCherryPick_def Let_def pickChecks_def pickBlocker_def intersect_empty [symmetric] split: option.splits)

section \<open>Properties\<close>

text \<open>
  A revert asks for a mainline exactly for the merges among its commits, in their order, and
  only while none is chosen; it is blocked exactly by an operation in progress, a missing mainline
  or a dirty worktree, its blockers in this order; otherwise it is reported to conflict exactly when
  the prediction for the first commit says so, and that commit is named.
\<close>

theorem revert_classified:
  "map mc_Sha (rv_MainlineRequired (ClassifyRevert inp)) =
     (if vi_Mainline inp = None then filter (\<lambda>s. vi_MergeParents inp s \<noteq> None) (vi_Shas inp) else []) \<and>
   {m \<in> set (rv_MainlineRequired (ClassifyRevert inp)). vi_MergeParents inp (mc_Sha m) \<noteq> Some (mc_Parents m)} = {} \<and>
   (rv_Verdict (ClassifyRevert inp) = PkBlocked \<longleftrightarrow>
      (\<exists>op. vi_InProgress inp = Some op) \<or> 0 < length (rv_MainlineRequired (ClassifyRevert inp)) \<or>
      0 < length (vi_DirtyPaths inp)) \<and>
   (rv_Verdict (ClassifyRevert inp) = PkWillConflict \<longleftrightarrow>
      rv_Blockers (ClassifyRevert inp) = [] \<and> pr_Kind (vi_Prediction inp) = ''conflicts'') \<and>
   rv_PredictedFor (ClassifyRevert inp) = (case vi_Shas inp of [] \<Rightarrow> None | s # _ \<Rightarrow> Some s) \<and>
   subseq (rv_Blockers (ClassifyRevert inp)) [RvInProgressOperation, RvMainlineRequired, RvDirtyWorktree]"
proof -
  have m: "rv_MainlineRequired (ClassifyRevert inp) =
      (if vi_Mainline inp = None then mainlineLoop (vi_MergeParents inp) (vi_Shas inp) else [])"
    by (simp add: ClassifyRevert_def Let_def)
  have "rv_Verdict (ClassifyRevert inp) = PkWillConflict \<longleftrightarrow>
      rv_Blockers (ClassifyRevert inp) = [] \<and> pr_Kind (vi_Prediction inp) = ''conflicts''"
    by (simp add: ClassifyRevert_def Let_def)
  moreover have "rv_PredictedFor (ClassifyRevert inp) = (case vi_Shas inp of [] \<Rightarrow> None | s # _ \<Rightarrow> Some s)"
    by (simp add: ClassifyRevert_def Let_def split: list.splits)
  moreover have "rv_Verdict (ClassifyRevert inp) = PkBlocked \<longleftrightarrow>
      vi_InProgress inp \<noteq> None \<or> rv_MainlineRequired (ClassifyRevert inp) \<noteq> [] \<or> vi_DirtyPaths inp \<noteq> []"
    by (auto simp: rv.blocked_iff revertChecks_def m mainlineLoop_empty)
  ultimately show ?thesis
    using rv.blockers_in_order [of inp]
    by (auto simp: m mainlineLoop_shas revertChecks_def dest: mainlineLoop_parents)
qed

definition demoPick :: ClassifyCherryPickInput where
  "demoPick =
     \<lparr>ki_Sha = ''c0ffee'', ki_Subject = ''s'', ki_MergeParents = [], ki_Mainline = None,
      ki_CommitPaths = \<lparr>kp_Touched = [''x''], kp_Added = [''y'']\<rparr>,
      ki_Dirty = \<lparr>rd_Staged = [], rd_Unstaged = [''m''], rd_Untracked = [''d'']\<rparr>,
      ki_Prediction = \<lparr>pr_Kind = ''clean'', pr_Paths = [], pr_Reason = []\<rparr>, ki_AlreadyApplied = False,
      ki_InProgress = None, ki_DetachedHead = False\<rparr>"

definition demoPickStatus :: StatusResult where
  "demoPickStatus =
     \<lparr>st_Branch = parseBranchHeader [],
      st_Entries = [plainEntry Ordinary (CHR ''.'') (CHR ''M'') ''m'', plainEntry Untracked (CHR ''?'') (CHR ''?'') ''d'']\<rparr>"

text \<open>
  A cherry-pick that is not blocked, classified from one status, starts on a clean index with no
  unmerged path, has a mainline if it picks a merge, and overwrites no local change: no path the commit
  touches is tracked and dirty unless as the source of a worktree-only rename, and no path it adds
  is an untracked file.
\<close>

theorem cherry_pick_safe:
  assumes "ki_Dirty inp = DirtySplit r" and "list_all changedEntry (st_Entries r)"
    and "kr_Verdict (ClassifyCherryPick inp) \<noteq> PkBlocked"
  shows "ki_InProgress inp = None \<and> rd_Staged (DirtySplit r) = [] \<and> UnmergedPaths r = [] \<and>
         (ki_MergeParents inp = [] \<or> ki_Mainline inp \<noteq> None) \<and>
         dirtyTracked r \<inter> set (kp_Touched (ki_CommitPaths inp)) \<subseteq> worktreeRenameSources r \<and>
         dirtyUntracked r \<inter> set (kp_Added (ki_CommitPaths inp)) = {}"
proof -
  have nb: "(k, c) \<in> set pickChecks \<Longrightarrow> \<not> c inp" for k c
    using assms(3) ck.blocked_iff [of inp] by blast
  have st: "rd_Staged (DirtySplit r) = []"
    using nb [of CkStagedChanges] assms(1) by (simp add: pickChecks_def)
  then have "\<not> (stagedEntry e \<or> se_Kind e = Unmerged)" if "e \<in> set (st_Entries r)" for e
    using that DirtySplit_members(1) [of "se_Path e" r] by auto
  then have "UnmergedPaths r = []"
    by (auto simp: UnmergedPaths_def filter_empty_conv)
  moreover have "dirtyTracked r \<inter> set (kp_Touched (ki_CommitPaths inp)) \<subseteq> worktreeRenameSources r"
    using nb [of CkLocalChangesWouldBeOverwritten] st dirtyTracked_split [OF assms(2)] assms(1)
    by (auto simp: pickChecks_def)
  moreover have "dirtyUntracked r \<inter> set (kp_Added (ki_CommitPaths inp)) = {}"
    using nb [of CkUntrackedWouldBeOverwritten] assms(1) by (auto simp: pickChecks_def dirtyUntracked_eq)
  ultimately show ?thesis
    using nb [of CkInProgressOperation] nb [of CkMainlineRequired] st by (auto simp: pickChecks_def)
qed

lemma cherry_pick_safe_witness:
  "kr_Verdict (ClassifyCherryPick demoPick) \<noteq> PkBlocked \<and> dirtyTracked demoPickStatus = {''m''} \<and>
   dirtyTracked demoPickStatus \<inter> {''x''} \<subseteq> worktreeRenameSources demoPickStatus"
proof -
  have "ki_Dirty demoPick = DirtySplit demoPickStatus"
    by (simp add: demoPick_def demoPickStatus_def DirtySplit_def splitEntry_def plainEntry_def)
  moreover have "list_all changedEntry (st_Entries demoPickStatus)"
    by (simp add: demoPickStatus_def plainEntry_def changedEntry_def stagedEntry_def unstagedEntry_def trackedKind_def)
  moreover have v: "kr_Verdict (ClassifyCherryPick demoPick) \<noteq> PkBlocked"
    by (simp add: ck.blocked_iff pickChecks_def demoPick_def)
  ultimately have "dirtyTracked demoPickStatus \<inter> set (kp_Touched (ki_CommitPaths demoPick)) \<subseteq>
      worktreeRenameSources demoPickStatus"
    using cherry_pick_safe [of demoPick demoPickStatus] by simp
  moreover have "dirtyTracked demoPickStatus = {''m''}"
    by (auto simp: dirtyTracked_iff demoPickStatus_def plainEntry_def)
  ultimately show ?thesis using v by (simp add: demoPick_def)
qed

end
