(* ===== verification/StashPreflight.thy ===== *)
theory StashPreflight
  imports StashParse Checkout Picks
begin

text \<open>
  \<^verbatim>\<open>gitpreflight/stash.go\<close>: the classifiers of popping a stash and of turning one into a branch; the
  second composes the checkout classifier's result.
\<close>

section \<open>Types\<close>

datatype StashPopBlockerKind =
  SpInProgressOperation | SpUntrackedCollision | SpLocalChangesWouldBeOverwritten

record StashPopBlocker =
  pb_Kind :: StashPopBlockerKind
  pb_Paths :: "path list"
  pb_Operation :: "InProgressOperation option"

record StashPopPreflight =
  pp_StashSha :: sha
  pp_StashIndex :: int
  pp_TargetSha :: sha
  pp_Prediction :: RevertPrediction
  pp_Blockers :: "StashPopBlocker list"
  pp_Verdict :: PickVerdict

record StashBranchName =
  bn_Valid :: bool
  bn_Error :: "bytes option"
  bn_Exists :: bool

datatype StashBranchVerdict = SbClean | SbInvalidName | SbBlocked

record StashBranchPreflight =
  bp_Name :: StashBranchName
  bp_Checkout :: CheckoutPreflight
  bp_Verdict :: StashBranchVerdict

record ClassifyStashPopInput =
  pi_Stash :: StashEntry
  pi_TargetSha :: sha
  pi_Prediction :: RevertPrediction
  pi_StashPaths :: "path list"
  pi_StashUntrackedPaths :: "path list"
  pi_Dirty :: "DirtyPath list"
  pi_ExistingUntrackedPaths :: "path list"
  pi_InProgress :: "InProgressOperation option"

record ClassifyStashBranchInput =
  bi_Name :: bytes
  bi_ExistingBranchNames :: "bytes set"
  bi_Checkout :: CheckoutPreflight

section \<open>Popping a stash\<close>

definition popBlocker :: "StashPopBlockerKind \<Rightarrow> StashPopBlocker" where
  "popBlocker kind = \<lparr>pb_Kind = kind, pb_Paths = [], pb_Operation = None\<rparr>"

definition ClassifyStashPop :: "ClassifyStashPopInput \<Rightarrow> StashPopPreflight" where
  "ClassifyStashPop inp =
     (let existingSet = set (pi_ExistingUntrackedPaths inp);
          untrackedCollisionPaths = filter (\<lambda>p. p \<in> existingSet) (pi_StashUntrackedPaths inp);
          dirtyTrackedSet = set (map dp_Path (filter dp_Tracked (pi_Dirty inp)));
          localOverwritePaths = filter (\<lambda>p. p \<in> dirtyTrackedSet) (pi_StashPaths inp);
          blockers =
            (case pi_InProgress inp of None \<Rightarrow> []
             | Some op \<Rightarrow> [(popBlocker SpInProgressOperation)\<lparr>pb_Operation := Some op\<rparr>]) @
            (if 0 < length untrackedCollisionPaths
             then [(popBlocker SpUntrackedCollision)\<lparr>pb_Paths := untrackedCollisionPaths\<rparr>] else []) @
            (if 0 < length localOverwritePaths
             then [(popBlocker SpLocalChangesWouldBeOverwritten)\<lparr>pb_Paths := localOverwritePaths\<rparr>] else []);
          verdict =
            (if 0 < length blockers then PkBlocked
             else if pr_Kind (pi_Prediction inp) \<noteq> ''clean'' then PkWillConflict else PkClean)
      in \<lparr>pp_StashSha = sh_Sha (pi_Stash inp), pp_StashIndex = sh_Index (pi_Stash inp),
          pp_TargetSha = pi_TargetSha inp, pp_Prediction = pi_Prediction inp, pp_Blockers = blockers,
          pp_Verdict = verdict\<rparr>)"

section \<open>A branch from a stash\<close>

definition validateRefName :: "bytes \<Rightarrow> bool \<times> bytes" where
  "validateRefName name =
     (if name = [] then (False, ''Name cannot be empty.'')
      else if HasPrefix name ''-'' then (False, ''Name cannot start with '' @ [CHR 0x27, CHR ''-'', CHR 0x27, CHR ''.''])
      else if Contains name [CHR ''@'', CHR 0x7B] then
        (False, ''Name cannot contain '' @ [CHR 0x27, CHR ''@'', CHR 0x7B, CHR 0x27]
                @ '' (reserved by git'' @ [CHR 0x27] @ ''s reflog shorthand).'')
      else (True, []))"

definition ClassifyStashBranch :: "ClassifyStashBranchInput \<Rightarrow> StashBranchPreflight" where
  "ClassifyStashBranch inp =
     (case validateRefName (bi_Name inp) of (valid, errMsg) \<Rightarrow>
        (let ex = (bi_Name inp \<in> bi_ExistingBranchNames inp)
         in if \<not> valid then
              \<lparr>bp_Name = \<lparr>bn_Valid = False, bn_Error = (if errMsg \<noteq> [] then Some errMsg else None), bn_Exists = ex\<rparr>,
               bp_Checkout = bi_Checkout inp, bp_Verdict = SbInvalidName\<rparr>
            else if ex then
              \<lparr>bp_Name = \<lparr>bn_Valid = True, bn_Error = Some ''A branch with this name already exists.'', bn_Exists = True\<rparr>,
               bp_Checkout = bi_Checkout inp, bp_Verdict = SbInvalidName\<rparr>
            else
              \<lparr>bp_Name = \<lparr>bn_Valid = True, bn_Error = None, bn_Exists = False\<rparr>,
               bp_Checkout = bi_Checkout inp,
               bp_Verdict = (if 0 < length (cp_Blockers (bi_Checkout inp)) then SbBlocked else SbClean)\<rparr>))"

section \<open>Lemmas\<close>

definition popChecks :: "(StashPopBlockerKind \<times> (ClassifyStashPopInput \<Rightarrow> bool)) list" where
  "popChecks =
     [(SpInProgressOperation, \<lambda>inp. pi_InProgress inp \<noteq> None),
      (SpUntrackedCollision,
         \<lambda>inp. set (pi_StashUntrackedPaths inp) \<inter> set (pi_ExistingUntrackedPaths inp) \<noteq> {}),
      (SpLocalChangesWouldBeOverwritten,
         \<lambda>inp. set (pi_StashPaths inp) \<inter> dp_Path ` {d \<in> set (pi_Dirty inp). dp_Tracked d} \<noteq> {})]"

lemma filter_meets: "filter (\<lambda>p. p \<in> A) ps = [] \<longleftrightarrow> set ps \<inter> A = {}"
  by (auto simp: filter_empty_conv)

lemma pop_blockers:
  "map pb_Kind (pp_Blockers (ClassifyStashPop inp)) = map fst (filter (\<lambda>(k, c). c inp) popChecks)"
proof -
  have "filter (\<lambda>p. p \<in> set (map dp_Path (filter dp_Tracked (pi_Dirty inp)))) (pi_StashPaths inp) = [] \<longleftrightarrow>
      set (pi_StashPaths inp) \<inter> dp_Path ` {d \<in> set (pi_Dirty inp). dp_Tracked d} = {}"
    by (simp add: filter_meets)
  moreover have "filter (\<lambda>p. p \<in> set (pi_ExistingUntrackedPaths inp)) (pi_StashUntrackedPaths inp) = [] \<longleftrightarrow>
      set (pi_StashUntrackedPaths inp) \<inter> set (pi_ExistingUntrackedPaths inp) = {}"
    by (rule filter_meets)
  ultimately show ?thesis
    unfolding ClassifyStashPop_def popChecks_def popBlocker_def Let_def length_greater_0_conv
    by (cases "pi_InProgress inp") simp_all
qed

interpretation sp: classifier ClassifyStashPop "\<lambda>r. map pb_Kind (pp_Blockers r)"
  "\<lambda>r. pp_Verdict r = PkBlocked" popChecks
proof unfold_locales
  show "map pb_Kind (pp_Blockers (ClassifyStashPop i)) = map fst (filter (\<lambda>(k, c). c i) popChecks)" for i
    by (rule pop_blockers)
  show "pp_Verdict (ClassifyStashPop i) = PkBlocked \<longleftrightarrow> map pb_Kind (pp_Blockers (ClassifyStashPop i)) \<noteq> []" for i
    by (simp add: ClassifyStashPop_def Let_def)
  show "distinct (map fst popChecks)"
    by (simp add: popChecks_def)
qed

lemma pop_clean:
  "pp_Verdict (ClassifyStashPop inp) = PkClean \<longleftrightarrow>
     pp_Blockers (ClassifyStashPop inp) = [] \<and> pr_Kind (pi_Prediction inp) = ''clean''"
  by (simp add: ClassifyStashPop_def Let_def)

definition okRefName :: "bytes \<Rightarrow> bool" where
  "okRefName name \<longleftrightarrow> name \<noteq> [] \<and> hd name \<noteq> CHR ''-'' \<and> \<not> sublist [CHR ''@'', CHR 0x7B] name"

lemma validateRefName_iff: "fst (validateRefName name) \<longleftrightarrow> okRefName name"
  unfolding validateRefName_def okRefName_def Contains_iff by (cases name) simp_all

lemma validateRefName_message: "snd (validateRefName name) = [] \<longleftrightarrow> fst (validateRefName name)"
  by (simp add: validateRefName_def)

section \<open>Properties\<close>

text \<open>
  A stash branch is offered exactly for a well-formed name that no branch has and for which the
  composed checkout, here the checkout classifier's own result, is not blocked; a bad name is reported
  as such whatever the checkout says, and every bad name comes with a message.
\<close>

theorem stash_branch_composes:
  "(bp_Verdict (ClassifyStashBranch
      \<lparr>bi_Name = name, bi_ExistingBranchNames = names, bi_Checkout = ClassifyCheckout co\<rparr>) = SbClean \<longleftrightarrow>
      okRefName name \<and> name \<notin> names \<and> cp_Verdict (ClassifyCheckout co) \<noteq> CoBlocked) \<and>
   (bp_Verdict (ClassifyStashBranch
      \<lparr>bi_Name = name, bi_ExistingBranchNames = names, bi_Checkout = ClassifyCheckout co\<rparr>) = SbInvalidName \<longleftrightarrow>
      bn_Error (bp_Name (ClassifyStashBranch
        \<lparr>bi_Name = name, bi_ExistingBranchNames = names, bi_Checkout = ClassifyCheckout co\<rparr>)) \<noteq> None) \<and>
   (bn_Error (bp_Name (ClassifyStashBranch
        \<lparr>bi_Name = name, bi_ExistingBranchNames = names, bi_Checkout = ClassifyCheckout co\<rparr>)) = None \<longleftrightarrow>
      okRefName name \<and> name \<notin> names)"
  using validateRefName_iff [of name] validateRefName_message [of name] co.blocked_verdict [of co]
  by (auto simp: ClassifyStashBranch_def Let_def split: prod.splits)

definition demoPop :: ClassifyStashPopInput where
  "demoPop =
     \<lparr>pi_Stash = \<lparr>sh_Index = 0, sh_Sha = ''aa'', sh_BaseSha = ''bb'', sh_BaseSubject = [], sh_IndexSha = ''cc'',
        sh_UntrackedSha = None, sh_Message = ''m'', sh_Branch = None, sh_Timestamp = 0, sh_FileCount = 1,
        sh_IncludedUntracked = False, sh_Scope = StashScopeStack, sh_Ref = []\<rparr>,
      pi_TargetSha = ''dd'', pi_Prediction = \<lparr>pr_Kind = ''clean'', pr_Paths = [], pr_Reason = []\<rparr>,
      pi_StashPaths = [''x''], pi_StashUntrackedPaths = [''y''], pi_Dirty = DirtyPaths demoPickStatus,
      pi_ExistingUntrackedPaths = [''z''], pi_InProgress = None\<rparr>"

text \<open>
  A stash pop reported clean loses nothing: it was predicted clean (an unknown prediction is not),
  no operation is in progress, no file of its untracked half exists already, and no path it changes
  is tracked and dirty, a rename's source included.
\<close>

theorem stash_pop_safe:
  assumes "pi_Dirty inp = DirtyPaths r" and "pp_Verdict (ClassifyStashPop inp) = PkClean"
  shows "pr_Kind (pi_Prediction inp) = ''clean'' \<and> pi_InProgress inp = None \<and>
         set (pi_StashUntrackedPaths inp) \<inter> set (pi_ExistingUntrackedPaths inp) = {} \<and>
         set (pi_StashPaths inp) \<inter> dirtyTracked r = {}"
proof -
  have "pp_Verdict (ClassifyStashPop inp) \<noteq> PkBlocked" and "pr_Kind (pi_Prediction inp) = ''clean''"
    using assms(2) pop_clean [of inp] by simp_all
  then show ?thesis
    using sp.blocked_iff [of inp] assms(1) by (simp add: popChecks_def dirtyTracked_def)
qed

lemma stash_pop_safe_witness:
  "pp_Verdict (ClassifyStashPop demoPop) = PkClean \<and> dirtyTracked demoPickStatus = {''m''} \<and>
   {''x''} \<inter> dirtyTracked demoPickStatus = {}"
proof -
  have "pi_Dirty demoPop = DirtyPaths demoPickStatus"
    by (simp add: demoPop_def)
  moreover have v: "pp_Verdict (ClassifyStashPop demoPop) = PkClean"
    by (simp add: ClassifyStashPop_def demoPop_def DirtyPaths_def dirtyOf_def demoPickStatus_def plainEntry_def Let_def)
  ultimately have "set (pi_StashPaths demoPop) \<inter> dirtyTracked demoPickStatus = {}"
    using stash_pop_safe [of demoPop demoPickStatus] by simp
  moreover have "dirtyTracked demoPickStatus = {''m''}"
    by (auto simp: dirtyTracked_iff demoPickStatus_def plainEntry_def)
  ultimately show ?thesis using v by (simp add: demoPop_def)
qed

end
