(* ===== verification/WorktreePreflight.thy ===== *)
theory WorktreePreflight
  imports Classifier
begin

text \<open>
  \<^verbatim>\<open>gitpreflight/worktree.go\<close>: the classifiers of adding and of removing a worktree.  \<^verbatim>\<open>filepath.Base\<close>
  is the Unix one.
\<close>

section \<open>Types\<close>

datatype WorktreeAddBlockerKind =
  WaInvalidPath | WaPathExists | WaBranchCheckedOutElsewhere | WaBranchExists | WaUnknownStartPoint

record WorktreeAddBlocker =
  wb_Kind :: WorktreeAddBlockerKind
  wb_Path :: path
  wb_Branch :: bytes
  wb_WorktreePath :: path
  wb_StartPoint :: bytes

datatype WorktreeAddNoteKind = WaPathInsideRepo | WaParentDirectoryMissing | WaDetachedHead

record WorktreeAddNote =
  wn_Kind :: WorktreeAddNoteKind
  wn_Path :: path

datatype WorktreeVerdict = WtClean | WtDirty | WtBlocked

datatype WorktreeRoute = WtDetachHere | WtForce

record WorktreeAddPreflight =
  wa_Path :: path
  wa_Mode :: bytes
  wa_Branch :: bytes
  wa_Blockers :: "WorktreeAddBlocker list"
  wa_Notes :: "WorktreeAddNote list"
  wa_Verdict :: WorktreeVerdict
  wa_Routes :: "WorktreeRoute list"

record ClassifyWorktreeAddInput =
  wi_Path :: path
  wi_Mode :: bytes
  wi_Branch :: bytes
  wi_StartPoint :: bytes
  wi_PathExists :: bool
  wi_PathInsideRepo :: bool
  wi_ParentDirMissing :: bool
  wi_BranchCheckedOutElsewhere :: "path option"
  wi_BranchExists :: bool
  wi_StartPointResolves :: bool

datatype WorktreeRemoveBlockerKind =
  WrNotAWorktree | WrMainWorktree | WrCurrentWorktree | WrOpenInAnotherWindow | WrLocked

record WorktreeRemoveBlocker =
  xb_Kind :: WorktreeRemoveBlockerKind
  xb_Path :: path
  xb_Reason :: bytes

record WorktreeRemovePreflight =
  wr_Path :: path
  wr_Blockers :: "WorktreeRemoveBlocker list"
  wr_RequiresTypedConfirmation :: bool
  wr_ConfirmToken :: bytes
  wr_Routes :: "WorktreeRoute list"
  wr_Verdict :: WorktreeVerdict

record ClassifyWorktreeRemoveInput =
  xi_Path :: path
  xi_IsWorktree :: bool
  xi_IsMainWorktree :: bool
  xi_IsCurrentWorktree :: bool
  xi_OpenInAnotherWindow :: bool
  xi_LockedReason :: "bytes option"
  xi_Dirty :: bool

section \<open>Adding a worktree\<close>

definition addBlocker :: "WorktreeAddBlockerKind \<Rightarrow> WorktreeAddBlocker" where
  "addBlocker kind = \<lparr>wb_Kind = kind, wb_Path = [], wb_Branch = [], wb_WorktreePath = [], wb_StartPoint = []\<rparr>"

definition ClassifyWorktreeAdd :: "ClassifyWorktreeAddInput \<Rightarrow> WorktreeAddPreflight" where
  "ClassifyWorktreeAdd inp =
     (let blockers =
            (if wi_Path inp = [] then [(addBlocker WaInvalidPath)\<lparr>wb_Path := wi_Path inp\<rparr>] else []) @
            (if wi_PathExists inp then [(addBlocker WaPathExists)\<lparr>wb_Path := wi_Path inp\<rparr>] else []) @
            (case (wi_Mode inp = ''existingBranch'', wi_BranchCheckedOutElsewhere inp) of
               (True, Some w) \<Rightarrow>
                 [(addBlocker WaBranchCheckedOutElsewhere)\<lparr>wb_Branch := wi_Branch inp, wb_WorktreePath := w\<rparr>]
             | _ \<Rightarrow> []) @
            (if wi_Mode inp = ''newBranch'' \<and> wi_BranchExists inp
             then [(addBlocker WaBranchExists)\<lparr>wb_Branch := wi_Branch inp\<rparr>] else []) @
            (if \<not> wi_StartPointResolves inp
             then [(addBlocker WaUnknownStartPoint)\<lparr>wb_StartPoint :=
                      (if wi_Mode inp = ''existingBranch'' then wi_Branch inp else wi_StartPoint inp)\<rparr>] else []);
          notes =
            (if wi_PathInsideRepo inp then [\<lparr>wn_Kind = WaPathInsideRepo, wn_Path = wi_Path inp\<rparr>] else []) @
            (if wi_ParentDirMissing inp then [\<lparr>wn_Kind = WaParentDirectoryMissing, wn_Path = wi_Path inp\<rparr>] else []) @
            (if wi_Mode inp = ''detach'' then [\<lparr>wn_Kind = WaDetachedHead, wn_Path = wi_Path inp\<rparr>] else []);
          verdict = (if 0 < length blockers then WtBlocked else WtClean);
          routes =
            (if length blockers = 1 \<and> wb_Kind (blockers ! 0) = WaBranchCheckedOutElsewhere then [WtDetachHere] else [])
      in \<lparr>wa_Path = wi_Path inp, wa_Mode = wi_Mode inp, wa_Branch = wi_Branch inp, wa_Blockers = blockers,
          wa_Notes = notes, wa_Verdict = verdict, wa_Routes = routes\<rparr>)"

section \<open>Removing a worktree\<close>

definition filepath_Base :: "path \<Rightarrow> bytes" where
  "filepath_Base p =
     (if p = [] then ''.''
      else let s = rev (takeWhile (\<lambda>c. c \<noteq> CHR ''/'') (dropWhile (\<lambda>c. c = CHR ''/'') (rev p)))
        in if s = [] then ''/'' else s)"

definition removeBlocker :: "WorktreeRemoveBlockerKind \<Rightarrow> WorktreeRemoveBlocker" where
  "removeBlocker kind = \<lparr>xb_Kind = kind, xb_Path = [], xb_Reason = []\<rparr>"

definition ClassifyWorktreeRemove :: "ClassifyWorktreeRemoveInput \<Rightarrow> WorktreeRemovePreflight" where
  "ClassifyWorktreeRemove inp =
     (let blockers =
            (if \<not> xi_IsWorktree inp then [(removeBlocker WrNotAWorktree)\<lparr>xb_Path := xi_Path inp\<rparr>] else []) @
            (if xi_IsMainWorktree inp then [removeBlocker WrMainWorktree] else []) @
            (if xi_IsCurrentWorktree inp then [removeBlocker WrCurrentWorktree] else []) @
            (if xi_OpenInAnotherWindow inp then [removeBlocker WrOpenInAnotherWindow] else []) @
            (case xi_LockedReason inp of None \<Rightarrow> []
             | Some why \<Rightarrow> [(removeBlocker WrLocked)\<lparr>xb_Reason := why\<rparr>])
      in if 0 < length blockers then
           \<lparr>wr_Path = xi_Path inp, wr_Blockers = blockers, wr_RequiresTypedConfirmation = False,
            wr_ConfirmToken = [], wr_Routes = [], wr_Verdict = WtBlocked\<rparr>
         else if xi_Dirty inp then
           \<lparr>wr_Path = xi_Path inp, wr_Blockers = blockers, wr_RequiresTypedConfirmation = True,
            wr_ConfirmToken = filepath_Base (xi_Path inp), wr_Routes = [WtForce], wr_Verdict = WtDirty\<rparr>
         else
           \<lparr>wr_Path = xi_Path inp, wr_Blockers = blockers, wr_RequiresTypedConfirmation = False,
            wr_ConfirmToken = [], wr_Routes = [], wr_Verdict = WtClean\<rparr>)"

section \<open>Lemmas\<close>

definition addChecks :: "(WorktreeAddBlockerKind \<times> (ClassifyWorktreeAddInput \<Rightarrow> bool)) list" where
  "addChecks =
     [(WaInvalidPath, \<lambda>inp. wi_Path inp = []), (WaPathExists, wi_PathExists),
      (WaBranchCheckedOutElsewhere, \<lambda>inp. wi_Mode inp = ''existingBranch'' \<and> wi_BranchCheckedOutElsewhere inp \<noteq> None),
      (WaBranchExists, \<lambda>inp. wi_Mode inp = ''newBranch'' \<and> wi_BranchExists inp),
      (WaUnknownStartPoint, \<lambda>inp. \<not> wi_StartPointResolves inp)]"

interpretation wa: classifier ClassifyWorktreeAdd "\<lambda>r. map wb_Kind (wa_Blockers r)"
  "\<lambda>r. wa_Verdict r = WtBlocked" addChecks
  by unfold_locales
    (auto simp: ClassifyWorktreeAdd_def Let_def addChecks_def addBlocker_def split: option.splits bool.splits)

definition removeChecks :: "(WorktreeRemoveBlockerKind \<times> (ClassifyWorktreeRemoveInput \<Rightarrow> bool)) list" where
  "removeChecks =
     [(WrNotAWorktree, \<lambda>inp. \<not> xi_IsWorktree inp), (WrMainWorktree, xi_IsMainWorktree),
      (WrCurrentWorktree, xi_IsCurrentWorktree), (WrOpenInAnotherWindow, xi_OpenInAnotherWindow),
      (WrLocked, \<lambda>inp. xi_LockedReason inp \<noteq> None)]"

interpretation wr: classifier ClassifyWorktreeRemove "\<lambda>r. map xb_Kind (wr_Blockers r)"
  "\<lambda>r. wr_Verdict r = WtBlocked" removeChecks
  by unfold_locales
    (auto simp: ClassifyWorktreeRemove_def Let_def removeChecks_def removeBlocker_def split: option.splits)

lemma Base_no_slash: "filepath_Base p \<noteq> ''/'' \<Longrightarrow> CHR ''/'' \<notin> set (filepath_Base p)"
  by (auto simp: filepath_Base_def Let_def dest: set_takeWhileD split: if_splits)

lemma Base_not_Nil: "filepath_Base p \<noteq> []"
  by (simp add: filepath_Base_def Let_def)

lemma Base_join:
  assumes "s \<noteq> []" and "CHR ''/'' \<notin> set s"
  shows "filepath_Base (d @ CHR ''/'' # s) = s"
proof -
  have "dropWhile (\<lambda>c. c = CHR ''/'') (rev s @ CHR ''/'' # rev d) = rev s @ CHR ''/'' # rev d"
    using assms by (cases "rev s") (auto dest: arg_cong [of _ _ set])
  then show ?thesis
    using assms by (simp add: filepath_Base_def takeWhile_append)
qed

section \<open>Properties\<close>

text \<open>
  Removing a worktree is never offered, forced or not, for a path that is no linked worktree of the
  repository, for the main or the session's own worktree, for one open in another window or for a
  locked one; a dirty one needs the forced route with the worktree's name typed in, and nothing
  else does.
\<close>

theorem worktree_remove_guarded:
  "(wr_Verdict (ClassifyWorktreeRemove inp) \<noteq> WtBlocked \<longleftrightarrow>
      xi_IsWorktree inp \<and> \<not> xi_IsMainWorktree inp \<and> \<not> xi_IsCurrentWorktree inp \<and>
      \<not> xi_OpenInAnotherWindow inp \<and> xi_LockedReason inp = None) \<and>
   (wr_Routes (ClassifyWorktreeRemove inp) \<noteq> [] \<longleftrightarrow>
      wr_Verdict (ClassifyWorktreeRemove inp) \<noteq> WtBlocked \<and> xi_Dirty inp) \<and>
   (wr_RequiresTypedConfirmation (ClassifyWorktreeRemove inp) \<longleftrightarrow> wr_Routes (ClassifyWorktreeRemove inp) = [WtForce]) \<and>
   (wr_ConfirmToken (ClassifyWorktreeRemove inp) =
      (if wr_RequiresTypedConfirmation (ClassifyWorktreeRemove inp) then filepath_Base (xi_Path inp) else [])) \<and>
   (wr_Verdict (ClassifyWorktreeRemove inp) = WtClean \<longleftrightarrow>
      wr_Verdict (ClassifyWorktreeRemove inp) \<noteq> WtBlocked \<and> \<not> xi_Dirty inp)"
proof -
  have "wr_Verdict (ClassifyWorktreeRemove inp) \<noteq> WtBlocked \<longleftrightarrow>
      xi_IsWorktree inp \<and> \<not> xi_IsMainWorktree inp \<and> \<not> xi_IsCurrentWorktree inp \<and>
      \<not> xi_OpenInAnotherWindow inp \<and> xi_LockedReason inp = None"
    by (auto simp: wr.blocked_iff removeChecks_def)
  then show ?thesis
    by (auto simp: ClassifyWorktreeRemove_def Let_def split: option.splits)
qed

text \<open>The add request that takes the detach route: a detached worktree at the branch's own commit.\<close>

definition detachAdd :: "ClassifyWorktreeAddInput \<Rightarrow> ClassifyWorktreeAddInput" where
  "detachAdd inp = inp\<lparr>wi_Mode := ''detach'', wi_StartPoint := wi_Branch inp, wi_Branch := []\<rparr>"

text \<open>
  Adding a worktree detached is offered exactly when it helps: the route is on offer if and only
  if the request is blocked, the same request in detach mode is not, and the mode asked for an
  existing branch.
\<close>

theorem worktree_add_detach_route:
  "WtDetachHere \<in> set (wa_Routes (ClassifyWorktreeAdd inp)) \<longleftrightarrow>
     wi_Mode inp = ''existingBranch'' \<and> wa_Verdict (ClassifyWorktreeAdd inp) = WtBlocked \<and>
     wa_Verdict (ClassifyWorktreeAdd (detachAdd inp)) \<noteq> WtBlocked"
  unfolding wa.blocked_iff
  by (auto simp: ClassifyWorktreeAdd_def Let_def addChecks_def addBlocker_def detachAdd_def split: option.splits bool.splits)

end
