(* ===== verification/Push.thy ===== *)
theory Push
  imports Prelude
begin

text \<open>
  \<^verbatim>\<open>gitpreflight/push.go\<close>: the protected-branch globs and the push classifier.  The warning the
  code logs for a \<^verbatim>\<open>**\<close> pattern has no effect on the result.
\<close>

section \<open>The glob matcher\<close>

text \<open>
  \<^verbatim>\<open>matchSegmentGlob\<close>'s loop, on the code's own indices: \<open>starIdx\<close> is \<^term>\<open>None\<close> for Go's -1.
  It ends on every state, not only on those the function starts in: the last wildcard seen moves
  right, or the place it matches up to does, or the text index does.
\<close>

definition globInv :: "nat \<Rightarrow> nat \<Rightarrow> nat option \<Rightarrow> nat \<Rightarrow> bool" where
  "globInv si pi starIdx starMatch \<longleftrightarrow>
     (case starIdx of None \<Rightarrow> True | Some k \<Rightarrow> k < pi \<and> starMatch \<le> si)"

function globLoop :: "bytes \<Rightarrow> bytes \<Rightarrow> nat \<Rightarrow> nat \<Rightarrow> nat option \<Rightarrow> nat \<Rightarrow> bool" where
  "globLoop s pattern si pi starIdx starMatch =
     (if si < length s then
        (if pi < length pattern \<and> pattern ! pi = s ! si then
           globLoop s pattern (si + 1) (pi + 1) starIdx starMatch
         else if pi < length pattern \<and> pattern ! pi = CHR ''*'' then
           globLoop s pattern si (pi + 1) (Some pi) si
         else if starIdx \<noteq> None then
           globLoop s pattern (starMatch + 1) (the starIdx + 1) starIdx (starMatch + 1)
         else False)
      else dropWhile (\<lambda>c. c = CHR ''*'') (drop pi pattern) = [])"
  by pat_completeness auto
termination
  by (relation "measures
      [\<lambda>(s, p, si, pi, star, sm). if globInv si pi star sm then 0 else 1,
       \<lambda>(s, p, si, pi, star, sm). case star of None \<Rightarrow> length p + 1 | Some k \<Rightarrow> length p - k,
       \<lambda>(s, p, si, pi, star, sm). length s - sm,
       \<lambda>(s, p, si, pi, star, sm). length s - si]")
    (auto simp: globInv_def split: option.splits)

declare globLoop.simps [simp del]

definition matchSegmentGlob :: "bytes \<Rightarrow> bytes \<Rightarrow> bool" where
  "matchSegmentGlob s pattern = globLoop s pattern 0 0 None 0"

definition matchProtectedGlob :: "bytes \<Rightarrow> bytes \<Rightarrow> bool" where
  "matchProtectedGlob branch pattern =
     (let branchSegs = SplitByte branch (CHR ''/''); patternSegs = SplitByte pattern (CHR ''/'')
      in if length branchSegs \<noteq> length patternSegs then False
         else list_all (\<lambda>i. matchSegmentGlob (branchSegs ! i) (patternSegs ! i)) [0..<length branchSegs])"

record ProtectedMatch =
  pm_Pattern :: bytes

fun MatchProtectedBranch :: "bytes \<Rightarrow> bytes list \<Rightarrow> ProtectedMatch option" where
  "MatchProtectedBranch branch [] = None"
| "MatchProtectedBranch branch (pattern # patterns) =
     (if Contains pattern ''**'' then
        (if branch = pattern then Some \<lparr>pm_Pattern = pattern\<rparr> else MatchProtectedBranch branch patterns)
      else if matchProtectedGlob branch pattern then Some \<lparr>pm_Pattern = pattern\<rparr>
      else MatchProtectedBranch branch patterns)"

section \<open>The push classifier\<close>

record PushPreflight =
  ps_Upstream :: "bytes option"
  ps_WouldSetUpstream :: bool
  ps_Ahead :: int
  ps_Behind :: int
  ps_RemoteTip :: "sha option"
  ps_ProtectedBy :: "bytes option"
  ps_FastForward :: bool
  ps_ResolvedBranch :: bytes

record ClassifyPushInput =
  psi_Branch :: bytes
  psi_Upstream :: "bytes option"
  psi_Ahead :: int
  psi_Behind :: int
  psi_RemoteTip :: "sha option"
  psi_ProtectedBranches :: "bytes list"

definition ClassifyPush :: "ClassifyPushInput \<Rightarrow> PushPreflight" where
  "ClassifyPush inp =
     \<lparr>ps_Upstream = psi_Upstream inp, ps_WouldSetUpstream = (psi_Upstream inp = None),
      ps_Ahead = psi_Ahead inp, ps_Behind = psi_Behind inp, ps_RemoteTip = psi_RemoteTip inp,
      ps_ProtectedBy = map_option pm_Pattern (MatchProtectedBranch (psi_Branch inp) (psi_ProtectedBranches inp)),
      ps_FastForward = (psi_Behind inp = 0), ps_ResolvedBranch = psi_Branch inp\<rparr>"

section \<open>Reference matchers\<close>

text \<open>A wildcard takes any run of bytes; everything else is literal.\<close>

fun globMatch :: "bytes \<Rightarrow> bytes \<Rightarrow> bool" where
  "globMatch [] s \<longleftrightarrow> s = []"
| "globMatch (c # ps) s \<longleftrightarrow>
     (if c = CHR ''*'' then \<exists>i\<le>length s. globMatch ps (drop i s)
      else s \<noteq> [] \<and> hd s = c \<and> globMatch ps (tl s))"

text \<open>The documented meaning on a whole branch name: a wildcard takes no slash.\<close>

fun globPath :: "bytes \<Rightarrow> bytes \<Rightarrow> bool" where
  "globPath [] s \<longleftrightarrow> s = []"
| "globPath (c # ps) s \<longleftrightarrow>
     (if c = CHR ''*'' then \<exists>i\<le>length s. CHR ''/'' \<notin> set (take i s) \<and> globPath ps (drop i s)
      else s \<noteq> [] \<and> hd s = c \<and> globPath ps (tl s))"

lemma globMatch_star: "globMatch (CHR ''*'' # ps) s \<longleftrightarrow> (\<exists>a b. s = a @ b \<and> globMatch ps b)"
proof -
  have "(\<exists>i\<le>length s. globMatch ps (drop i s)) \<longleftrightarrow> (\<exists>a b. s = a @ b \<and> globMatch ps b)"
    by (metis append_eq_conv_conj append_take_drop_id length_append le_add1)
  then show ?thesis by simp
qed

lemma globMatch_literal:
  "CHR ''*'' \<notin> set l \<Longrightarrow> globMatch (l @ ps) s \<longleftrightarrow> (\<exists>b. s = l @ b \<and> globMatch ps b)"
proof (induction l arbitrary: s)
  case (Cons c l)
  then show ?case by (cases s) auto
qed simp

lemma globMatch_Nil_iff: "globMatch ps [] \<longleftrightarrow> dropWhile (\<lambda>c. c = CHR ''*'') ps = []"
  by (induction ps) auto

text \<open>
  What the loop still has to decide: the rest of the pattern against the rest of the text, or the
  last wildcard taking more.  The text the wildcard's literal tail has matched so far is
  \<open>take (pi - k - 1) (drop (k + 1) pattern)\<close>.
\<close>

definition globTail :: "bytes \<Rightarrow> bytes \<Rightarrow> nat \<Rightarrow> nat \<Rightarrow> nat option \<Rightarrow> nat \<Rightarrow> bool" where
  "globTail s p si pi star sm \<longleftrightarrow>
     si \<le> length s \<and> pi \<le> length p \<and>
     (case star of None \<Rightarrow> True
      | Some k \<Rightarrow> k < pi \<and> sm \<le> si \<and>
          (\<exists>l. drop (k + 1) p = l @ drop pi p \<and> drop sm s = l @ drop si s \<and> CHR ''*'' \<notin> set l))"

definition globGoal :: "bytes \<Rightarrow> bytes \<Rightarrow> nat \<Rightarrow> nat \<Rightarrow> nat option \<Rightarrow> nat \<Rightarrow> bool" where
  "globGoal s p si pi star sm \<longleftrightarrow>
     globMatch (drop pi p) (drop si s) \<or>
     (case star of None \<Rightarrow> False
      | Some k \<Rightarrow> \<exists>j. sm < j \<and> j \<le> length s \<and> globMatch (drop (k + 1) p) (drop j s))"

lemma drop_nth: "i < length xs \<Longrightarrow> drop i xs = xs ! i # drop (i + 1) xs"
  by (simp add: Cons_nth_drop_Suc)

lemma glob_literal_step:
  assumes "globTail s p si pi star sm" and "si < length s" and "pi < length p"
    and "p ! pi = s ! si" and "CHR ''*'' \<notin> set s"
  shows "globTail s p (si + 1) (pi + 1) star sm"
    and "globGoal s p si pi star sm \<longleftrightarrow> globGoal s p (si + 1) (pi + 1) star sm"
proof -
  have ns: "p ! pi \<noteq> CHR ''*''"
    using assms(2,4,5) by (metis nth_mem)
  show "globGoal s p si pi star sm \<longleftrightarrow> globGoal s p (si + 1) (pi + 1) star sm"
    using ns assms(2-4) by (simp add: globGoal_def drop_nth)
  show "globTail s p (si + 1) (pi + 1) star sm"
  proof (cases star)
    case None
    then show ?thesis using assms by (simp add: globTail_def)
  next
    case (Some k)
    then obtain l where "k < pi" "sm \<le> si" "drop (k + 1) p = l @ drop pi p"
      "drop sm s = l @ drop si s" "CHR ''*'' \<notin> set l"
      using assms(1) by (auto simp: globTail_def)
    moreover from this have "drop (k + 1) p = (l @ [p ! pi]) @ drop (pi + 1) p"
      "drop sm s = (l @ [p ! pi]) @ drop (si + 1) s"
      using assms(2-4) drop_nth [of pi p] drop_nth [of si s] by simp_all
    ultimately have "\<exists>l. drop (k + 1) p = l @ drop (pi + 1) p \<and> drop sm s = l @ drop (si + 1) s \<and> CHR ''*'' \<notin> set l"
      using ns by (intro exI [of _ "l @ [p ! pi]"]) simp
    then show ?thesis
      using Some \<open>k < pi\<close> \<open>sm \<le> si\<close> assms(2,3) by (simp add: globTail_def)
  qed
qed

text \<open>A second wildcard makes the first one's longer matches redundant.\<close>

lemma glob_star_step:
  assumes "globTail s p si pi star sm" and "si < length s" and "pi < length p" and "p ! pi = CHR ''*''"
  shows "globTail s p si (pi + 1) (Some pi) si"
    and "globGoal s p si pi star sm \<longleftrightarrow> globGoal s p si (pi + 1) (Some pi) si"
proof -
  show "globTail s p si (pi + 1) (Some pi) si"
    using assms by (auto simp: globTail_def)
  let ?q = "drop (pi + 1) p"
  have dp: "drop pi p = CHR ''*'' # ?q"
    using assms(3,4) by (simp add: drop_nth)
  have suffix_ok: "globMatch (drop pi p) (drop si s)"
    if k: "star = Some k" and j: "sm < j" "j \<le> length s" and m: "globMatch (drop (k + 1) p) (drop j s)" for k j
  proof -
    obtain l where l: "drop (k + 1) p = l @ drop pi p" "drop sm s = l @ drop si s" "CHR ''*'' \<notin> set l" "sm \<le> si"
      using assms(1) k by (auto simp: globTail_def)
    then obtain b where b: "drop j s = l @ b" "globMatch (drop pi p) b"
      using m globMatch_literal [OF l(3), of "drop pi p" "drop j s"] by auto
    have len: "length l = si - sm"
      using arg_cong [OF l(2), of length] l(4) assms(2) by simp
    have "b = drop (length l) (drop j s)"
      using b(1) by simp
    also have "\<dots> = drop (j - sm) (drop si s)"
      using len j(1) l(4) by (simp add: drop_drop add.commute)
    finally have "drop si s = take (j - sm) (drop si s) @ b"
      using append_take_drop_id [of "j - sm" "drop si s"] by simp
    then show ?thesis
      using b(2) dp globMatch_star [of ?q b] globMatch_star [of ?q "drop si s"]
      by (metis append.assoc)
  qed
  have "globMatch (drop pi p) (drop si s) \<longleftrightarrow> globGoal s p si (pi + 1) (Some pi) si"
  proof -
    have "globMatch (drop pi p) (drop si s) \<longleftrightarrow> (\<exists>i\<le>length (drop si s). globMatch ?q (drop i (drop si s)))"
      by (simp add: dp)
    also have "\<dots> \<longleftrightarrow> (\<exists>j. si \<le> j \<and> j \<le> length s \<and> globMatch ?q (drop j s))"
    proof
      assume "\<exists>i\<le>length (drop si s). globMatch ?q (drop i (drop si s))"
      then obtain i where "i \<le> length s - si" "globMatch ?q (drop (si + i) s)"
        by (auto simp: add.commute)
      then show "\<exists>j. si \<le> j \<and> j \<le> length s \<and> globMatch ?q (drop j s)"
        using assms(2) by (intro exI [of _ "si + i"]) simp
    next
      assume "\<exists>j. si \<le> j \<and> j \<le> length s \<and> globMatch ?q (drop j s)"
      then obtain j where "si \<le> j" "j \<le> length s" "globMatch ?q (drop j s)" by blast
      then show "\<exists>i\<le>length (drop si s). globMatch ?q (drop i (drop si s))"
        by (intro exI [of _ "j - si"]) simp
    qed
    also have "\<dots> \<longleftrightarrow> globGoal s p si (pi + 1) (Some pi) si"
      using assms(2) by (auto simp: globGoal_def le_less)
    finally show ?thesis .
  qed
  then show "globGoal s p si pi star sm \<longleftrightarrow> globGoal s p si (pi + 1) (Some pi) si"
    using suffix_ok by (auto simp: globGoal_def split: option.splits)
qed

lemma glob_mismatch:
  assumes "si < length s" and "\<not> (pi < length p \<and> p ! pi = s ! si)" and "\<not> (pi < length p \<and> p ! pi = CHR ''*'')"
  shows "\<not> globMatch (drop pi p) (drop si s)"
  using assms by (cases "pi < length p") (auto simp: drop_nth)

lemma glob_retry_step:
  assumes "globTail s p si pi (Some k) sm" and "si < length s" and "\<not> globMatch (drop pi p) (drop si s)"
  shows "globTail s p (sm + 1) (k + 1) (Some k) (sm + 1)"
    and "globGoal s p si pi (Some k) sm \<longleftrightarrow> globGoal s p (sm + 1) (k + 1) (Some k) (sm + 1)"
proof -
  have sm: "sm \<le> si" "k < pi" "pi \<le> length p"
    using assms(1) by (auto simp: globTail_def)
  then show "globTail s p (sm + 1) (k + 1) (Some k) (sm + 1)"
    using assms(2) by (auto simp: globTail_def)
  have "(\<exists>j. sm < j \<and> j \<le> length s \<and> globMatch (drop (k + 1) p) (drop j s)) \<longleftrightarrow>
      globMatch (drop (k + 1) p) (drop (sm + 1) s) \<or>
      (\<exists>j. sm + 1 < j \<and> j \<le> length s \<and> globMatch (drop (k + 1) p) (drop j s))"
  proof (intro iffI; elim exE disjE conjE)
    fix j assume "sm < j" "j \<le> length s" "globMatch (drop (k + 1) p) (drop j s)"
    then show "globMatch (drop (k + 1) p) (drop (sm + 1) s) \<or>
        (\<exists>j. sm + 1 < j \<and> j \<le> length s \<and> globMatch (drop (k + 1) p) (drop j s))"
      by (cases "j = sm + 1") auto
  next
    assume "globMatch (drop (k + 1) p) (drop (sm + 1) s)"
    then show "\<exists>j. sm < j \<and> j \<le> length s \<and> globMatch (drop (k + 1) p) (drop j s)"
      using sm assms(2) by (intro exI [of _ "sm + 1"]) simp
  next
    fix j assume "sm + 1 < j" "j \<le> length s" "globMatch (drop (k + 1) p) (drop j s)"
    then show "\<exists>j. sm < j \<and> j \<le> length s \<and> globMatch (drop (k + 1) p) (drop j s)"
      by (intro exI [of _ j]) simp
  qed
  then show "globGoal s p si pi (Some k) sm \<longleftrightarrow> globGoal s p (sm + 1) (k + 1) (Some k) (sm + 1)"
    using assms(3) by (simp add: globGoal_def)
qed

lemma glob_end:
  assumes "globTail s p si pi star sm" and "\<not> si < length s"
  shows "globGoal s p si pi star sm \<longleftrightarrow> dropWhile (\<lambda>c. c = CHR ''*'') (drop pi p) = []"
proof -
  have "\<not> globMatch (drop (k + 1) p) (drop j s)" if k: "star = Some k" and j: "sm < j" "j \<le> length s" for k j
  proof
    assume m: "globMatch (drop (k + 1) p) (drop j s)"
    obtain l where l: "drop (k + 1) p = l @ drop pi p" "drop sm s = l @ drop si s" "CHR ''*'' \<notin> set l"
      using assms(1) k by (auto simp: globTail_def)
    then obtain b where b: "drop j s = l @ b"
      using m globMatch_literal [OF l(3), of "drop pi p" "drop j s"] by auto
    have "length l = length s - sm"
      using arg_cong [OF l(2), of length] assms(2) by simp
    moreover have "length s - j = length l + length b"
      using arg_cong [OF b, of length] by simp
    ultimately show False using j by simp
  qed
  then show ?thesis
    using assms(2) by (auto simp: globGoal_def globMatch_Nil_iff split: option.splits)
qed

lemma globLoop_correct:
  "globTail s p si pi star sm \<Longrightarrow> CHR ''*'' \<notin> set s \<Longrightarrow> globLoop s p si pi star sm \<longleftrightarrow> globGoal s p si pi star sm"
proof (induction s p si pi star sm rule: globLoop.induct)
  case (1 s p si pi star sm)
  consider "\<not> si < length s"
    | "si < length s" "pi < length p" "p ! pi = s ! si"
    | "si < length s" "pi < length p" "p ! pi \<noteq> s ! si" "p ! pi = CHR ''*''"
    | "si < length s" "\<not> (pi < length p \<and> p ! pi = s ! si)" "\<not> (pi < length p \<and> p ! pi = CHR ''*'')"
    by blast
  then show ?case
  proof cases
    case 1
    then show ?thesis using glob_end [OF \<open>globTail s p si pi star sm\<close>] by (subst globLoop.simps) simp
  next
    case 2
    then show ?thesis
      using "1.IH"(1) glob_literal_step [OF "1.prems"(1) 2 "1.prems"(2)] "1.prems"(2) by (subst globLoop.simps) simp
  next
    case 3
    then show ?thesis
      using "1.IH"(2) glob_star_step [OF "1.prems"(1) 3(1,2,4)] "1.prems"(2) by (subst globLoop.simps) simp
  next
    case 4
    note nm = glob_mismatch [OF 4]
    show ?thesis
    proof (cases star)
      case None
      then show ?thesis using 4 nm by (subst globLoop.simps) (auto simp: globGoal_def)
    next
      case (Some k)
      have "globLoop s p (sm + 1) (k + 1) (Some k) (sm + 1) = globGoal s p (sm + 1) (k + 1) (Some k) (sm + 1)"
        using "1.IH"(3) 4 Some glob_retry_step(1) [of s p si pi k sm] nm "1.prems" by simp
      then show ?thesis
        using glob_retry_step(2) [of s p si pi k sm] 4 nm "1.prems"(1) Some by (subst globLoop.simps) auto
    qed
  qed
qed

lemma matchSegmentGlob_eq: "CHR ''*'' \<notin> set s \<Longrightarrow> matchSegmentGlob s p \<longleftrightarrow> globMatch p s"
  using globLoop_correct [of s p 0 0 None 0] by (simp add: matchSegmentGlob_def globTail_def globGoal_def)

section \<open>Segments and whole names\<close>

lemma globPath_star:
  "globPath (CHR ''*'' # ps) s \<longleftrightarrow> (\<exists>a b. s = a @ b \<and> CHR ''/'' \<notin> set a \<and> globPath ps b)"
proof -
  have "(\<exists>i\<le>length s. CHR ''/'' \<notin> set (take i s) \<and> globPath ps (drop i s)) \<longleftrightarrow>
      (\<exists>a b. s = a @ b \<and> CHR ''/'' \<notin> set a \<and> globPath ps b)"
    by (metis append_eq_conv_conj append_take_drop_id length_append le_add1)
  then show ?thesis by simp
qed

lemma globPath_segment: "CHR ''/'' \<notin> set w \<Longrightarrow> globPath w s \<longleftrightarrow> CHR ''/'' \<notin> set s \<and> globMatch w s"
proof (induction w arbitrary: s)
  case (Cons c w)
  show ?case
  proof (cases "c = CHR ''*''")
    case True
    then show ?thesis
      using Cons unfolding True globPath_star globMatch_star by fastforce
  next
    case False
    then show ?thesis using Cons by (cases s) auto
  qed
qed auto

lemma globMatch_char: "c \<noteq> CHR ''*'' \<Longrightarrow> globMatch (c # w) a \<longleftrightarrow> (\<exists>a'. a = c # a' \<and> globMatch w a')"
  by (cases a) auto

lemma globPath_join:
  "CHR ''/'' \<notin> set w \<Longrightarrow>
   globPath (w @ CHR ''/'' # q) s \<longleftrightarrow>
     (\<exists>a b. s = a @ CHR ''/'' # b \<and> CHR ''/'' \<notin> set a \<and> globMatch w a \<and> globPath q b)"
proof (induction w arbitrary: s)
  case Nil
  then show ?case by (cases s) auto
next
  case (Cons c w)
  have IH: "globPath (w @ CHR ''/'' # q) s \<longleftrightarrow>
      (\<exists>a b. s = a @ CHR ''/'' # b \<and> CHR ''/'' \<notin> set a \<and> globMatch w a \<and> globPath q b)" for s
    using Cons by simp
  show ?case
  proof (cases "c = CHR ''*''")
    case True
    have "globPath ((c # w) @ CHR ''/'' # q) s \<longleftrightarrow>
        (\<exists>x a b. s = (x @ a) @ CHR ''/'' # b \<and> CHR ''/'' \<notin> set (x @ a) \<and> globMatch w a \<and> globPath q b)"
      unfolding True append_Cons globPath_star IH by fastforce
    also have "\<dots> \<longleftrightarrow> (\<exists>a b. s = a @ CHR ''/'' # b \<and> CHR ''/'' \<notin> set a \<and> globMatch (c # w) a \<and> globPath q b)"
      unfolding True globMatch_star by blast
    finally show ?thesis .
  next
    case False
    show ?thesis
    proof (cases s)
      case (Cons d t)
      have "globPath ((c # w) @ CHR ''/'' # q) s \<longleftrightarrow> d = c \<and>
          (\<exists>a b. t = a @ CHR ''/'' # b \<and> CHR ''/'' \<notin> set a \<and> globMatch w a \<and> globPath q b)"
        using False by (simp add: Cons IH)
      also have "\<dots> \<longleftrightarrow> (\<exists>a b. s = (c # a) @ CHR ''/'' # b \<and> CHR ''/'' \<notin> set (c # a) \<and> globMatch (c # w) (c # a) \<and> globPath q b)"
        using False \<open>CHR ''/'' \<notin> set (c # w)\<close> by (auto simp: Cons)
      also have "\<dots> \<longleftrightarrow> (\<exists>a b. s = a @ CHR ''/'' # b \<and> CHR ''/'' \<notin> set a \<and> globMatch (c # w) a \<and> globPath q b)"
        unfolding globMatch_char [OF False] by blast
      finally show ?thesis .
    qed (use False in simp)
  qed
qed

lemma globPath_segments:
  assumes "ws \<noteq> []" and "\<And>w. w \<in> set ws \<Longrightarrow> CHR ''/'' \<notin> set w"
  shows "globPath (JoinByte ws (CHR ''/'')) s \<longleftrightarrow> list_all2 globMatch ws (SplitByte s (CHR ''/''))"
  using assms
proof (induction ws "CHR ''/''" arbitrary: s rule: JoinByte.induct)
  case (2 w)
  have "list_all2 globMatch [w] (SplitByte s (CHR ''/'')) \<longleftrightarrow> CHR ''/'' \<notin> set s \<and> globMatch w s"
  proof (cases "CHR ''/'' \<in> set s")
    case True
    then obtain a b where "s = a @ CHR ''/'' # b" "CHR ''/'' \<notin> set a"
      by (metis split_list_first)
    then show ?thesis by (simp add: SplitByte_append)
  qed (simp add: SplitByte_no_sep)
  then show ?case using 2 by (simp add: globPath_segment)
next
  case (3 w v ws)
  have "globPath (JoinByte (w # v # ws) (CHR ''/'')) s \<longleftrightarrow>
      (\<exists>a b. s = a @ CHR ''/'' # b \<and> CHR ''/'' \<notin> set a \<and> globMatch w a \<and>
             list_all2 globMatch (v # ws) (SplitByte b (CHR ''/'')))"
    using 3 by (simp add: globPath_join)
  also have "\<dots> \<longleftrightarrow> list_all2 globMatch (w # v # ws) (SplitByte s (CHR ''/''))"
  proof (cases "CHR ''/'' \<in> set s")
    case True
    then obtain a b where s: "s = a @ CHR ''/'' # b" "CHR ''/'' \<notin> set a"
      by (metis split_list_first)
    have "a' = a \<and> b' = b" if "s = a' @ CHR ''/'' # b'" "CHR ''/'' \<notin> set a'" for a' b'
      using that s SplitByte_append [of "CHR ''/''" a b] SplitByte_append [of "CHR ''/''" a' b']
      by (metis append_same_eq list.inject same_append_eq)
    then show ?thesis using s by (auto simp: SplitByte_append)
  qed (auto simp: SplitByte_no_sep)
  finally show ?case .
qed simp

lemma set_JoinByte: "w \<in> set ws \<Longrightarrow> set w \<subseteq> set (JoinByte ws d)"
  by (induction ws d rule: JoinByte.induct) auto

lemma matchProtectedGlob_eq:
  assumes "CHR ''*'' \<notin> set branch"
  shows "matchProtectedGlob branch pattern \<longleftrightarrow> globPath pattern branch"
proof -
  let ?bs = "SplitByte branch (CHR ''/'')" and ?ps = "SplitByte pattern (CHR ''/'')"
  have "matchSegmentGlob (?bs ! i) w \<longleftrightarrow> globMatch w (?bs ! i)" if "i < length ?bs" for i w
    using set_JoinByte [of "?bs ! i" ?bs "CHR ''/''"] that assms
    by (intro matchSegmentGlob_eq) (auto simp: JoinByte_SplitByte)
  then have "matchProtectedGlob branch pattern \<longleftrightarrow> list_all2 globMatch ?ps ?bs"
    by (auto simp: matchProtectedGlob_def Let_def list_all2_conv_all_nth list_all_iff)
  also have "\<dots> \<longleftrightarrow> globPath pattern branch"
    using globPath_segments [of ?ps branch] SplitByte_no_delim JoinByte_SplitByte [of pattern "CHR ''/''"] by simp
  finally show ?thesis .
qed

section \<open>Properties\<close>

lemma double_star_literal: "Contains pattern ''**'' \<Longrightarrow> CHR ''*'' \<in> set pattern"
  by (auto simp: Contains_iff sublist_def)

lemma MatchProtectedBranch_find:
  "CHR ''*'' \<notin> set branch \<Longrightarrow>
   map_option pm_Pattern (MatchProtectedBranch branch patterns) =
     find (\<lambda>pattern. \<not> sublist ''**'' pattern \<and> globPath pattern branch) patterns"
proof (induction patterns)
  case (Cons p ps)
  then show ?case
    using double_star_literal [of p] by (auto simp: Contains_iff matchProtectedGlob_eq)
qed simp

definition demoPush :: ClassifyPushInput where
  "demoPush =
     \<lparr>psi_Branch = ''release/1.2'', psi_Upstream = None, psi_Ahead = 1, psi_Behind = 0, psi_RemoteTip = None,
      psi_ProtectedBranches = [''main'', ''release/**'', ''release/*'']\<rparr>"

text \<open>
  C23: For a branch name without a literal asterisk (git allows none in a refname), the push is reported
  protected by the first configured pattern whose glob covers the whole name, where an asterisk
  stands for any run of bytes without a slash and every other byte for itself, and by no pattern
  with two asterisks in a row.  The backtracking matcher and its split into segments decide
  exactly this.
\<close>

theorem protected_by_first_glob:
  assumes "CHR ''*'' \<notin> set (psi_Branch inp)"
  shows "ps_ProtectedBy (ClassifyPush inp) =
           find (\<lambda>pattern. \<not> sublist ''**'' pattern \<and> globPath pattern (psi_Branch inp)) (psi_ProtectedBranches inp)"
  using MatchProtectedBranch_find [OF assms] by (simp add: ClassifyPush_def)

lemma protected_by_first_glob_witness:
  "CHR ''*'' \<notin> set (psi_Branch demoPush) \<and> ps_ProtectedBy (ClassifyPush demoPush) = Some ''release/*''"
proof -
  have g: "globPath ''release/*'' ''release/1.2''" and ng: "\<not> globPath ''main'' ''release/1.2''"
    by (auto intro: exI [of _ 3])
  have s: "sublist ''**'' ''release/**''" and ns: "\<not> sublist ''**'' ''release/*''"
    by (simp_all add: sublist_Cons_right)
  have "CHR ''*'' \<notin> set (psi_Branch demoPush)"
    by (simp add: demoPush_def)
  then show ?thesis
    using protected_by_first_glob [of demoPush] g ng s ns by (simp add: demoPush_def)
qed

end
