(* ===== verification/Pull.thy ===== *)
theory Pull
  imports Prelude
begin

text \<open>
  \<^verbatim>\<open>gitpreflight/pull.go\<close>: how a pull's strategy is chosen and when it is refused.  A
  \<^verbatim>\<open>PullStrategy\<close> is the string it is in Go, since a setting is converted to one unchecked; the
  Unicode case tables behind \<^verbatim>\<open>strings.ToLower\<close> are the argument \<open>uni\<close>.
\<close>

type_synonym PullStrategy = bytes

definition PullFFOnly :: PullStrategy where "PullFFOnly = ''ff-only''"

definition PullMerge :: PullStrategy where "PullMerge = ''merge''"

definition PullRebase :: PullStrategy where "PullRebase = ''rebase''"

datatype PullStrategySource =
  SourceExplicit | SourceSetting | SourceBranchConfig | SourcePullConfig | SourceDefault

datatype PullRoute = PullStashAndCarry

datatype PullBlocker = BlockerDirtyNonFastForward

record PullPreflight =
  pl_Strategy :: PullStrategy
  pl_Source :: PullStrategySource
  pl_RebaseMerges :: bool
  pl_Upstream :: "bytes option"
  pl_Ahead :: int
  pl_Behind :: int
  pl_Dirty :: bool
  pl_Routes :: "PullRoute list"
  pl_Blockers :: "PullBlocker list"

record PullConfigValues =
  pv_BranchRebase :: "bytes option"
  pv_PullRebase :: "bytes option"
  pv_PullFf :: "bytes option"

definition MapRebaseValue :: "(bytes \<Rightarrow> bytes) \<Rightarrow> bytes option \<Rightarrow> PullStrategy \<times> bool" where
  "MapRebaseValue uni raw =
     (case raw of
        None \<Rightarrow> ([], False)
      | Some v \<Rightarrow>
          (if ToLower uni v \<in> {''false'', ''no'', ''off'', ''0''} then (PullMerge, True)
           else if ToLower uni v \<in> {''true'', ''yes'', ''on'', ''1'', ''interactive'', ''i'', ''merges'', ''m''}
           then (PullRebase, True)
           else ([], False)))"

definition WantsRebaseMerges :: "(bytes \<Rightarrow> bytes) \<Rightarrow> bytes option \<Rightarrow> bool" where
  "WantsRebaseMerges uni raw =
     (case raw of None \<Rightarrow> False | Some v \<Rightarrow> ToLower uni v \<in> {''merges'', ''m''})"

definition ResolveRebaseMerges ::
    "(bytes \<Rightarrow> bytes) \<Rightarrow> PullStrategy \<Rightarrow> PullStrategySource \<Rightarrow> PullConfigValues \<Rightarrow> bool" where
  "ResolveRebaseMerges uni strategy source cfg =
     (if strategy \<noteq> PullRebase then False
      else case source of
        SourceBranchConfig \<Rightarrow> WantsRebaseMerges uni (pv_BranchRebase cfg)
      | SourcePullConfig \<Rightarrow> WantsRebaseMerges uni (pv_PullRebase cfg)
      | _ \<Rightarrow> False)"

definition ResolvePullStrategy ::
    "(bytes \<Rightarrow> bytes) \<Rightarrow> PullStrategy option \<Rightarrow> bytes \<Rightarrow> PullConfigValues \<Rightarrow> PullStrategy \<times> PullStrategySource" where
  "ResolvePullStrategy uni explicit settingStrategy cfg =
     (if explicit \<noteq> None then (the explicit, SourceExplicit)
      else if settingStrategy \<noteq> [] \<and> settingStrategy \<noteq> ''auto'' then (settingStrategy, SourceSetting)
      else case MapRebaseValue uni (pv_BranchRebase cfg) of (s, ok) \<Rightarrow>
        (if ok then (s, SourceBranchConfig)
         else case MapRebaseValue uni (pv_PullRebase cfg) of (s, ok) \<Rightarrow>
           (if ok then (s, SourcePullConfig)
            else if pv_PullFf cfg = Some ''only'' then (PullFFOnly, SourcePullConfig)
            else (PullFFOnly, SourceDefault))))"

record ClassifyPullInput =
  pli_Strategy :: PullStrategy
  pli_Source :: PullStrategySource
  pli_RebaseMerges :: bool
  pli_Upstream :: "bytes option"
  pli_Ahead :: int
  pli_Behind :: int
  pli_Dirty :: bool

definition ClassifyPull :: "ClassifyPullInput \<Rightarrow> PullPreflight" where
  "ClassifyPull inp =
     (let diverged = (0 < pli_Behind inp \<and> 0 < pli_Ahead inp);
          wouldRewriteHistory = (pli_Strategy inp \<noteq> PullFFOnly \<and> (diverged \<or> 0 < pli_Behind inp));
          blockers = (if pli_Dirty inp \<and> wouldRewriteHistory then [BlockerDirtyNonFastForward] else []);
          routes = (if 0 < length blockers then [PullStashAndCarry] else [])
      in \<lparr>pl_Strategy = pli_Strategy inp, pl_Source = pli_Source inp, pl_RebaseMerges = pli_RebaseMerges inp,
          pl_Upstream = pli_Upstream inp, pl_Ahead = pli_Ahead inp, pl_Behind = pli_Behind inp,
          pl_Dirty = pli_Dirty inp, pl_Routes = routes, pl_Blockers = blockers\<rparr>)"

section \<open>Lemmas\<close>

lemmas pull_consts = PullFFOnly_def PullMerge_def PullRebase_def

text \<open>The decisions the six steps make, in order; the last one always decides.\<close>

definition configDecision :: "(bytes \<Rightarrow> bytes) \<Rightarrow> bytes option \<Rightarrow> PullStrategy list" where
  "configDecision uni raw =
     (case raw of None \<Rightarrow> []
      | Some v \<Rightarrow>
          if ToLower uni v \<in> {''false'', ''no'', ''off'', ''0''} then [PullMerge]
          else if ToLower uni v \<in> {''true'', ''yes'', ''on'', ''1'', ''interactive'', ''i'', ''merges'', ''m''}
          then [PullRebase] else [])"

definition ladder ::
    "(bytes \<Rightarrow> bytes) \<Rightarrow> PullStrategy option \<Rightarrow> bytes \<Rightarrow> PullConfigValues \<Rightarrow> (PullStrategy \<times> PullStrategySource) list" where
  "ladder uni explicit settingStrategy cfg =
     (case explicit of None \<Rightarrow> [] | Some s \<Rightarrow> [(s, SourceExplicit)]) @
     (if settingStrategy \<in> {[], ''auto''} then [] else [(settingStrategy, SourceSetting)]) @
     map (\<lambda>s. (s, SourceBranchConfig)) (configDecision uni (pv_BranchRebase cfg)) @
     map (\<lambda>s. (s, SourcePullConfig)) (configDecision uni (pv_PullRebase cfg)) @
     (if pv_PullFf cfg = Some ''only'' then [(PullFFOnly, SourcePullConfig)] else []) @
     [(PullFFOnly, SourceDefault)]"

lemma MapRebaseValue_decision:
  "MapRebaseValue uni raw = (case configDecision uni raw of [] \<Rightarrow> ([], False) | s # _ \<Rightarrow> (s, True))"
  by (simp add: MapRebaseValue_def configDecision_def split: option.splits)

lemma ResolvePullStrategy_ladder: "ResolvePullStrategy uni ex st cfg = hd (ladder uni ex st cfg)"
  by (auto simp: ResolvePullStrategy_def ladder_def MapRebaseValue_decision split: option.splits list.splits)

lemma ToLower_idem_ascii:
  "list_all isASCII v \<Longrightarrow> ToLower uni v = map asciiLower v"
  by (simp add: ToLower_def)

lemma WantsRebaseMerges_decides: "WantsRebaseMerges uni raw \<Longrightarrow> configDecision uni raw = [PullRebase]"
  by (auto simp: WantsRebaseMerges_def configDecision_def split: option.splits)

lemma ladder_config_source:
  "ResolvePullStrategy uni ex st cfg = (s, SourceBranchConfig) \<Longrightarrow> configDecision uni (pv_BranchRebase cfg) = [s]"
  "ResolvePullStrategy uni ex st cfg = (s, SourcePullConfig) \<Longrightarrow>
     configDecision uni (pv_PullRebase cfg) = [s] \<or> s = PullFFOnly"
  by (auto simp: ResolvePullStrategy_def MapRebaseValue_decision configDecision_def split: option.splits if_splits list.splits)

section \<open>Properties\<close>

text \<open>The pull request as the session builds it from the ladder's answer.\<close>

definition pullFor ::
    "(bytes \<Rightarrow> bytes) \<Rightarrow> PullStrategy option \<Rightarrow> bytes \<Rightarrow> PullConfigValues \<Rightarrow> bytes option \<Rightarrow> int \<Rightarrow> int \<Rightarrow> bool \<Rightarrow> PullPreflight" where
  "pullFor uni ex st cfg upstream ahead behind dirty =
     (case ResolvePullStrategy uni ex st cfg of (s, src) \<Rightarrow>
        ClassifyPull \<lparr>pli_Strategy = s, pli_Source = src, pli_RebaseMerges = ResolveRebaseMerges uni s src cfg,
                      pli_Upstream = upstream, pli_Ahead = ahead, pli_Behind = behind, pli_Dirty = dirty\<rparr>)"

text \<open>
  A pull uses the first decision of the ladder explicit choice, setting, branch configuration,
  pull configuration, fast-forward configuration, fast-forward only; merges are rebased exactly
  when the deciding configuration key says so, and then the strategy is a rebase; a dirty
  worktree blocks exactly the pulls that are behind and not fast-forward only, and then, and only
  then, stashing is offered.
\<close>

theorem pull_resolved:
  "(pl_Strategy (pullFor uni ex st cfg up ahead behind dirty), pl_Source (pullFor uni ex st cfg up ahead behind dirty)) =
     hd (ladder uni ex st cfg) \<and>
   (pl_RebaseMerges (pullFor uni ex st cfg up ahead behind dirty) \<longleftrightarrow>
      (pl_Source (pullFor uni ex st cfg up ahead behind dirty) = SourceBranchConfig \<and>
         WantsRebaseMerges uni (pv_BranchRebase cfg)) \<or>
      (pl_Source (pullFor uni ex st cfg up ahead behind dirty) = SourcePullConfig \<and>
         pl_Strategy (pullFor uni ex st cfg up ahead behind dirty) = PullRebase \<and>
         WantsRebaseMerges uni (pv_PullRebase cfg))) \<and>
   (pl_Blockers (pullFor uni ex st cfg up ahead behind dirty) \<noteq> [] \<longleftrightarrow>
      dirty \<and> 0 < behind \<and> pl_Strategy (pullFor uni ex st cfg up ahead behind dirty) \<noteq> PullFFOnly) \<and>
   (pl_Routes (pullFor uni ex st cfg up ahead behind dirty) = [PullStashAndCarry] \<longleftrightarrow>
      pl_Blockers (pullFor uni ex st cfg up ahead behind dirty) \<noteq> [])"
proof -
  obtain s src where r: "ResolvePullStrategy uni ex st cfg = (s, src)" by fastforce
  have "s = PullRebase" if "src = SourceBranchConfig" and "WantsRebaseMerges uni (pv_BranchRebase cfg)"
    using that r ladder_config_source(1) [of uni ex st cfg s] WantsRebaseMerges_decides by fastforce
  then have "ResolveRebaseMerges uni s src cfg \<longleftrightarrow>
      (src = SourceBranchConfig \<and> WantsRebaseMerges uni (pv_BranchRebase cfg)) \<or>
      (src = SourcePullConfig \<and> s = PullRebase \<and> WantsRebaseMerges uni (pv_PullRebase cfg))"
    by (auto simp: ResolveRebaseMerges_def split: PullStrategySource.splits)
  then show ?thesis
    using r ResolvePullStrategy_ladder [of uni ex st cfg] by (auto simp: pullFor_def ClassifyPull_def Let_def)
qed

end
