(* ===== verification/Undo.thy ===== *)
theory Undo
  imports Prelude
begin

text \<open>
  \<^verbatim>\<open>gitpreflight/undo.go\<close>: the undo record and the one undo slot of a repository.  A nil record is
  \<^term>\<open>None\<close>; every method holds the slot's mutex throughout, so a run of the slot is a
  sequence of whole method calls.
\<close>

section \<open>Records\<close>

record UndoRecord =
  ur_ID :: bytes
  ur_Label :: bytes
  ur_RecoverySha :: sha
  ur_CreatedAt :: int
  ur_Replay :: "argv list"
  ur_ExpectedTips :: "bytes \<Rightarrow> sha option"
  ur_OriginConn :: bytes
  ur_OriginLabel :: bytes

record UndoSlotSnapshot =
  us_ID :: bytes
  us_Label :: bytes
  us_RecoverySha :: sha
  us_CreatedAt :: int

datatype UndoPolicyKind = Undoable | NotUndoable

record UndoPolicy =
  up_Kind :: UndoPolicyKind
  up_Reason :: bytes

definition pinArgv :: "(bytes \<Rightarrow> sha option) \<Rightarrow> argv \<Rightarrow> argv" where
  "pinArgv tips argv =
     (if length argv \<noteq> 3 \<or> argv ! 0 \<noteq> ''update-ref'' then argv
      else case tips (argv ! 1) of Some tip \<Rightarrow> argv @ [tip] | None \<Rightarrow> argv)"

definition ExpectTips :: "UndoRecord \<Rightarrow> (bytes \<Rightarrow> sha option) \<Rightarrow> UndoRecord" where
  "ExpectTips r tips = r\<lparr>ur_ExpectedTips := tips, ur_Replay := map (pinArgv tips) (ur_Replay r)\<rparr>"

definition SnapshotFor :: "UndoRecord \<Rightarrow> bytes \<Rightarrow> UndoSlotSnapshot" where
  "SnapshotFor r conn =
     \<lparr>us_ID = ur_ID r,
      us_Label =
        (if conn \<noteq> ur_OriginConn r \<and> ur_OriginLabel r \<noteq> []
         then ur_Label r @ '' (window: '' @ ur_OriginLabel r @ '')'' else ur_Label r),
      us_RecoverySha = ur_RecoverySha r, us_CreatedAt = ur_CreatedAt r\<rparr>"

section \<open>The slot\<close>

record UndoSlot =
  sl_record :: "UndoRecord option"

definition Peek :: "UndoSlot \<Rightarrow> UndoRecord option" where
  "Peek s = sl_record s"

definition SetSlot :: "UndoSlot \<Rightarrow> UndoRecord option \<Rightarrow> UndoSlot" where
  "SetSlot s r = s\<lparr>sl_record := r\<rparr>"

definition Take :: "UndoSlot \<Rightarrow> bytes \<Rightarrow> UndoRecord option \<times> UndoSlot" where
  "Take s ident =
     (case sl_record s of
        None \<Rightarrow> (None, s)
      | Some r \<Rightarrow> if ur_ID r \<noteq> ident then (None, s) else (Some r, s\<lparr>sl_record := None\<rparr>))"

text \<open>The calls of a run, and what each returns.\<close>

datatype SlotCall = CallPeek | CallSet "UndoRecord option" | CallTake bytes

fun slotStep :: "UndoSlot \<Rightarrow> SlotCall \<Rightarrow> UndoRecord option \<times> UndoSlot" where
  "slotStep s CallPeek = (Peek s, s)"
| "slotStep s (CallSet r) = (None, SetSlot s r)"
| "slotStep s (CallTake ident) = Take s ident"

fun slotRun :: "UndoSlot \<Rightarrow> SlotCall list \<Rightarrow> UndoRecord option list \<times> UndoSlot" where
  "slotRun s [] = ([], s)"
| "slotRun s (c # cs) =
     (case slotStep s c of (out, s') \<Rightarrow> case slotRun s' cs of (outs, s'') \<Rightarrow> (out # outs, s''))"

section \<open>The contract of a one-shot slot\<close>

text \<open>
  What a client of the slot relies on: setting is seen, peeking changes nothing, and a take that
  returns a record returns the one last set, under its own id, and leaves the slot empty, while
  one that returns none changes nothing.
\<close>

locale one_shot_slot =
  fixes peek :: "'s \<Rightarrow> 'r option" and set_slot :: "'s \<Rightarrow> 'r option \<Rightarrow> 's" and take_slot :: "'s \<Rightarrow> 'id \<Rightarrow> 'r option \<times> 's"
    and ident :: "'r \<Rightarrow> 'id"
  assumes peek_set: "peek (set_slot s x) = x"
    and take_hit: "peek s = Some r \<Longrightarrow> fst (take_slot s (ident r)) = Some r \<and> peek (snd (take_slot s (ident r))) = None"
    and take_miss: "(\<And>r. peek s = Some r \<Longrightarrow> ident r \<noteq> i) \<Longrightarrow> fst (take_slot s i) = None \<and> peek (snd (take_slot s i)) = peek s"
begin

lemma take_returns: "fst (take_slot s i) = Some r \<longleftrightarrow> peek s = Some r \<and> ident r = i"
  by (metis option.distinct(1) option.inject take_hit take_miss)

lemma take_leaves: "peek (snd (take_slot s i)) = (if fst (take_slot s i) = None then peek s else None)"
  by (metis option.exhaust take_hit take_miss take_returns)

lemma second_take_empty: "fst (take_slot s i) = Some r \<Longrightarrow> fst (take_slot (snd (take_slot s i)) j) = None"
  by (metis not_None_eq option.distinct(1) take_leaves take_returns)

end

interpretation undo: one_shot_slot Peek SetSlot Take ur_ID
  by unfold_locales (auto simp: Peek_def SetSlot_def Take_def split: option.splits)

section \<open>Runs of the slot\<close>

text \<open>The record a run leaves in the slot: of the last set, unless a later take with its id got it.\<close>

fun holding :: "UndoRecord option \<Rightarrow> SlotCall list \<Rightarrow> UndoRecord option" where
  "holding h [] = h"
| "holding h (CallPeek # cs) = holding h cs"
| "holding h (CallSet r # cs) = holding r cs"
| "holding h (CallTake i # cs) = holding (if map_option ur_ID h = Some i then None else h) cs"

lemma slotStep_peek:
  "Peek (snd (slotStep s c)) = holding (Peek s) [c]"
proof (cases c)
  case (CallTake i)
  then show ?thesis
    using undo.take_leaves [of s i] undo.take_returns [of s i "the (Peek s)"]
    by (cases "Peek s") (auto dest: undo.take_returns [THEN iffD1])
qed (simp_all add: undo.peek_set)

lemma slotRun_append:
  "slotRun s (cs @ ds) =
     (let (outs, s') = slotRun s cs; (outs', s'') = slotRun s' ds in (outs @ outs', s''))"
  by (induction cs arbitrary: s) (auto simp: Let_def split: prod.splits)

lemma holding_Cons: "holding h (c # cs) = holding (holding h [c]) cs"
  by (cases c) simp_all

lemma holding_append: "holding h (cs @ ds) = holding (holding h cs) ds"
  by (induction cs arbitrary: h) (simp, metis append_Cons holding_Cons)

lemma slotRun_peek: "Peek (snd (slotRun s cs)) = holding (Peek s) cs"
proof (induction cs arbitrary: s)
  case (Cons c cs)
  then show ?case
    using slotStep_peek [of s c] holding_Cons [of "Peek s" c cs] by (auto split: prod.splits) (metis snd_conv)
qed simp

lemma slotRun_length: "length (fst (slotRun s cs)) = length cs"
  by (induction cs arbitrary: s) (simp_all add: case_prod_beta)

lemma slotRun_nth:
  assumes "i < length cs"
  shows "fst (slotRun s cs) ! i = fst (slotStep (snd (slotRun s (take i cs))) (cs ! i))"
proof -
  have "slotRun s cs = slotRun s (take i cs @ cs ! i # drop (Suc i) cs)"
    using id_take_nth_drop [OF assms] by simp
  then show ?thesis
    using slotRun_length [of s "take i cs"] assms
    by (auto simp: slotRun_append Let_def nth_append split: prod.splits)
qed

text \<open>A record is held only from the set that put it there, with no set or successful take since.\<close>

lemma holding_origin:
  assumes "holding None cs = Some r"
  shows "\<exists>pre post. cs = pre @ CallSet (Some r) # post \<and> CallTake (ur_ID r) \<notin> set post \<and> (\<forall>x. CallSet x \<notin> set post)"
  using assms
proof (induction cs rule: rev_induct)
  case (snoc c cs)
  have extend: ?case if held: "holding None cs = Some r" and "c \<noteq> CallTake (ur_ID r)" and "\<And>x. c \<noteq> CallSet x"
  proof -
    obtain pre post where "cs = pre @ CallSet (Some r) # post" "CallTake (ur_ID r) \<notin> set post"
      "\<forall>x. CallSet x \<notin> set post"
      using snoc.IH held by blast
    then show ?thesis
      using that(2,3) by (intro exI [of _ pre] exI [of _ "post @ [c]"]) auto
  qed
  show ?case
  proof (cases c)
    case (CallSet x)
    then have "x = Some r"
      using snoc.prems by (simp add: holding_append)
    then show ?thesis using CallSet by (intro exI [of _ cs] exI [of _ "[]"]) simp
  next
    case CallPeek
    then have "holding None cs = Some r"
      using snoc.prems by (simp add: holding_append)
    then show ?thesis using CallPeek by (intro extend) simp_all
  next
    case (CallTake i)
    then have "holding None cs = Some r" and "ur_ID r \<noteq> i"
      using snoc.prems by (auto simp: holding_append split: if_splits)
    then show ?thesis using CallTake by (intro extend) simp_all
  qed
qed simp

section \<open>Properties\<close>

definition demoUndo :: UndoRecord where
  "demoUndo =
     \<lparr>ur_ID = ''u1'', ur_Label = ''Deleted branch x'', ur_RecoverySha = ''aa'', ur_CreatedAt = 0,
      ur_Replay = [[''update-ref'', ''refs/heads/x'', ''aa''], [''config'', ''k'', ''v'']],
      ur_ExpectedTips = (\<lambda>_. None), ur_OriginConn = ''c1'', ur_OriginLabel = ''win''\<rparr>"

text \<open>
  C9: An undo runs at most once.  Over any sequence of calls on a fresh slot, a take that returns a
  record was given that record's own id, and an earlier set put the record there with no other
  set and no other take of that id in between; so no record is handed out twice, and none that a
  later operation cleared.
\<close>

theorem undo_at_most_once:
  assumes "i < length calls" and "calls ! i = CallTake ident"
    and "fst (slotRun \<lparr>sl_record = None\<rparr> calls) ! i = Some r"
  shows "ur_ID r = ident \<and>
         (\<exists>pre post. take i calls = pre @ CallSet (Some r) # post \<and>
            CallTake ident \<notin> set post \<and> {x. CallSet x \<in> set post} = {})"
proof -
  let ?s = "\<lparr>sl_record = None\<rparr> :: UndoSlot"
  have "fst (Take (snd (slotRun ?s (take i calls))) ident) = Some r"
    using slotRun_nth [OF assms(1), of ?s] assms(2,3) by simp
  then have "Peek (snd (slotRun ?s (take i calls))) = Some r" and id: "ur_ID r = ident"
    by (simp_all add: undo.take_returns)
  then have "holding None (take i calls) = Some r"
    using slotRun_peek [of ?s "take i calls"] by (simp add: Peek_def)
  then show ?thesis using holding_origin [of "take i calls" r] id by simp
qed

lemma undo_at_most_once_witness:
  "fst (slotRun \<lparr>sl_record = None\<rparr> [CallSet (Some demoUndo), CallPeek, CallTake ''u1'', CallTake ''u1'']) =
     [None, Some demoUndo, Some demoUndo, None] \<and> ur_ID demoUndo = ''u1''"
proof -
  have run: "fst (slotRun \<lparr>sl_record = None\<rparr> [CallSet (Some demoUndo), CallPeek, CallTake ''u1'', CallTake ''u1'']) =
      [None, Some demoUndo, Some demoUndo, None]"
    by (simp add: SetSlot_def Peek_def Take_def demoUndo_def)
  then show ?thesis
    using undo_at_most_once [of 2 "[CallSet (Some demoUndo), CallPeek, CallTake ''u1'', CallTake ''u1'']" "''u1''" demoUndo]
    by simp
qed

text \<open>
  Recording the tips an operation left keeps every replay command and its order, and pins
  exactly the two-argument \<^verbatim>\<open>update-ref\<close> commands whose ref has a recorded tip, by appending that tip
  as the expected old value; no unconditional ref write to a recorded ref is left, and recording
  the same tips again changes nothing.
\<close>

theorem undo_replay_pinned:
  "length (ur_Replay (ExpectTips r tips)) = length (ur_Replay r) \<and>
   list_all2 (\<lambda>old new. new = old \<or> (\<exists>ref sha tip. old = [''update-ref'', ref, sha] \<and> tips ref = Some tip \<and>
       new = [''update-ref'', ref, sha, tip])) (ur_Replay r) (ur_Replay (ExpectTips r tips)) \<and>
   {argv \<in> set (ur_Replay (ExpectTips r tips)). \<exists>ref sha. argv = [''update-ref'', ref, sha] \<and> tips ref \<noteq> None} = {} \<and>
   ExpectTips (ExpectTips r tips) tips = ExpectTips r tips"
proof -
  have pin: "pinArgv tips argv = argv \<or> (\<exists>ref sha tip. argv = [''update-ref'', ref, sha] \<and> tips ref = Some tip \<and>
      pinArgv tips argv = [''update-ref'', ref, sha, tip])" for argv
    by (auto simp: pinArgv_def numeral_3_eq_3 length_Suc_conv split: option.splits)
  have gone: "\<not> (pinArgv tips argv = [''update-ref'', ref, sha] \<and> tips ref \<noteq> None)" for argv ref sha
    using pin [of argv] by (auto simp: pinArgv_def split: option.splits)
  have four: "length argv = 4 \<Longrightarrow> pinArgv tips argv = argv" for argv
    by (simp add: pinArgv_def)
  have idem: "pinArgv tips (pinArgv tips argv) = pinArgv tips argv" for argv
    using pin [of argv] four [of "pinArgv tips argv"] by fastforce
  have "list_all2 (\<lambda>old new. new = old \<or> (\<exists>ref sha tip. old = [''update-ref'', ref, sha] \<and> tips ref = Some tip \<and>
       new = [''update-ref'', ref, sha, tip])) (ur_Replay r) (ur_Replay (ExpectTips r tips))"
    using pin by (simp add: ExpectTips_def list_all2_conv_all_nth)
  moreover have "{argv \<in> set (ur_Replay (ExpectTips r tips)).
      \<exists>ref sha. argv = [''update-ref'', ref, sha] \<and> tips ref \<noteq> None} = {}"
  proof -
    have "\<not> (\<exists>ref sha. argv = [''update-ref'', ref, sha] \<and> tips ref \<noteq> None)"
      if "argv \<in> set (ur_Replay (ExpectTips r tips))" for argv
      using that gone by (auto simp: ExpectTips_def)
    then show ?thesis by blast
  qed
  moreover have "ExpectTips (ExpectTips r tips) tips = ExpectTips r tips"
    using idem by (simp add: ExpectTips_def)
  ultimately show ?thesis by (simp add: ExpectTips_def)
qed

end
