(* ===== verification/Stack.thy ===== *)
theory Stack
  imports RefsParse InProgress
begin

text \<open>
  \<^verbatim>\<open>gitpreflight/stack.go\<close>: stacked branches.  The recorded parents of the repository's
  configuration are parsed, resolved to the base each branch ultimately sits on by a memoised walk,
  assembled into a forest, and a restack of one stack is planned.

  A Go map that is only looked up is a partial function; the configuration is an association
  list because the walk over it ends only on a finite one, and the local branches are one because
  they are iterated (the order Go iterates in is the list's, and no result depends on it).  The
  Unicode case tables behind \<^verbatim>\<open>strings.ToLower\<close> are the argument \<open>uni\<close>.  The recursion of
  \<^verbatim>\<open>flattenStack\<close> over the children map has no bound of its own: it is run with fuel, \<^term>\<open>None\<close> is
  a run that did not end, and \<open>MaxStackedBranches\<close> levels are shown to be enough.
\<close>

section \<open>Types\<close>

definition MaxStackedBranches :: nat where
  "MaxStackedBranches = 64"

datatype StackBranchState = StackUpToDate | StackNeedsRestack | StackParentMissing

record StackBranch =
  bk_Name :: bytes
  bk_Parent :: bytes
  bk_Depth :: nat
  bk_Tip :: sha
  bk_ParentTip :: "sha option"
  bk_RecordedBase :: "bytes option"
  bk_Behind :: int
  bk_Ahead :: int
  bk_State :: StackBranchState
  bk_CheckedOutIn :: "path option"
  bk_Track :: Track
  bk_IsHead :: bool

record StackSummary =
  ks_Base :: bytes
  ks_BaseTip :: "sha option"
  ks_Branches :: "StackBranch list"
  ks_NeedsRestack :: bool

record StackListResult =
  kl_Stacks :: "StackSummary list"
  kl_Orphans :: "StackBranch list"

record StackConfigEntry =
  ce_Branch :: bytes
  ce_Parent :: bytes
  ce_Base :: bytes

type_synonym stack_config = "(bytes \<times> StackConfigEntry) list"

section \<open>The configuration\<close>

definition stackParentSuffix :: bytes where
  "stackParentSuffix = ''.kirastackparent''"

definition stackBaseSuffix :: bytes where
  "stackBaseSuffix = ''.kirastackbase''"

text \<open>
  One record: key and value around the first newline, the branch between the known prefix and
  suffix of the key.  The slices are taken from the original key at lengths found in its lowered
  copy; \<^term>\<open>None\<close> is the panic of a slice out of range.
\<close>

definition stackRecord :: "(bytes \<Rightarrow> bytes) \<Rightarrow> stack_config \<Rightarrow> bytes \<Rightarrow> stack_config option" where
  "stackRecord uni conf rec =
     (if rec = [] then Some conf
      else case IndexByte rec newline of
        None \<Rightarrow> Some conf
      | Some nl \<Rightarrow>
          (let key = take nl rec; value = drop (nl + 1) rec; lowerKey = ToLower uni key
           in if \<not> HasPrefix lowerKey ''branch.'' then Some conf
              else if length key < length ''branch.'' then None
              else
                (let rest = drop (length ''branch.'') key; lowerRest = drop (length ''branch.'') lowerKey;
                     isParent = HasSuffix lowerRest stackParentSuffix;
                     isBase = (\<not> isParent \<and> HasSuffix lowerRest stackBaseSuffix);
                     n = (if isParent then length stackParentSuffix else length stackBaseSuffix)
                 in if \<not> isParent \<and> \<not> isBase then Some conf
                    else if length rest < n then None
                    else
                      (let branch = take (length rest - n) rest
                       in if branch = [] then Some conf
                          else
                            (let entry = (case map_of conf branch of Some e \<Rightarrow> e
                                          | None \<Rightarrow> \<lparr>ce_Branch = [], ce_Parent = [], ce_Base = []\<rparr>);
                                 trimmed = TrimSpace value;
                                 entry1 = entry\<lparr>ce_Branch := branch\<rparr>;
                                 entry2 = (if isParent then entry1\<lparr>ce_Parent := trimmed\<rparr> else entry1);
                                 entry3 = (if isBase then entry2\<lparr>ce_Base := trimmed\<rparr> else entry2)
                             in Some (AList.update branch entry3 conf))))))"

fun stackRecords :: "(bytes \<Rightarrow> bytes) \<Rightarrow> stack_config \<Rightarrow> bytes list \<Rightarrow> stack_config option" where
  "stackRecords uni conf [] = Some conf"
| "stackRecords uni conf (rec # recs) =
     (case stackRecord uni conf rec of None \<Rightarrow> None | Some conf' \<Rightarrow> stackRecords uni conf' recs)"

definition ParseStackConfig :: "(bytes \<Rightarrow> bytes) \<Rightarrow> bytes \<Rightarrow> stack_config option" where
  "ParseStackConfig uni raw = stackRecords uni [] (SplitByte raw nul)"

section \<open>Walks along the recorded parents\<close>

text \<open>The recorded parent of a branch, empty for a branch without one.\<close>

definition parentOf :: "stack_config \<Rightarrow> bytes \<Rightarrow> bytes" where
  "parentOf conf b = (case map_of conf b of None \<Rightarrow> [] | Some e \<Rightarrow> ce_Parent e)"

fun cycleLoop :: "nat \<Rightarrow> stack_config \<Rightarrow> bytes list \<Rightarrow> bytes \<Rightarrow> bytes list option" where
  "cycleLoop 0 conf order current = None"
| "cycleLoop (Suc i) conf order current =
     (case map_of conf current of
        None \<Rightarrow> None
      | Some entry \<Rightarrow>
          (if ce_Parent entry = [] then None
           else if ce_Parent entry \<in> set order
           then Some (dropWhile (\<lambda>x. x \<noteq> ce_Parent entry) order)
           else cycleLoop i conf (order @ [ce_Parent entry]) (ce_Parent entry)))"

text \<open>
  The code keeps the index of every visited name in a map; the names of \<open>order\<close> are distinct, so
  the suffix at that index is the one from the name on.
\<close>

definition DetectCycleFrom :: "stack_config \<Rightarrow> bytes \<Rightarrow> bytes list option" where
  "DetectCycleFrom conf start = cycleLoop MaxStackedBranches conf [start] start"

datatype resolveState = resolveUnvisited | resolveInProgress | resolveOK | resolveBroken

record resolvedNode =
  rn_state :: resolveState
  rn_base :: bytes
  rn_depth :: nat

definition nodeOf :: "resolveState \<Rightarrow> resolvedNode" where
  "nodeOf st = \<lparr>rn_state = st, rn_base = [], rn_depth = 0\<rparr>"

text \<open>Whether a call at a branch returns at once, is fresh, or finds the branch already under way.\<close>

definition memoRank :: "(bytes \<Rightarrow> resolvedNode option) \<Rightarrow> bytes \<Rightarrow> nat" where
  "memoRank memo b =
     (case memo b of None \<Rightarrow> 1 | Some n \<Rightarrow> if rn_state n = resolveInProgress then 2 else 0)"

definition unvisited :: "stack_config \<Rightarrow> (bytes \<Rightarrow> resolvedNode option) \<Rightarrow> nat" where
  "unvisited conf memo = card {b \<in> fst ` set conf. memo b = None}"

lemma unvisited_less:
  "b \<in> fst ` set conf \<Longrightarrow> memo b = None \<Longrightarrow> unvisited conf (memo(b \<mapsto> n)) < unvisited conf memo"
  unfolding unvisited_def by (rule psubset_card_mono) auto

lemma unvisited_le: "unvisited conf (memo(b \<mapsto> n)) \<le> unvisited conf memo"
  unfolding unvisited_def by (rule card_mono) auto

lemma parentOf_key: "parentOf conf b \<noteq> [] \<Longrightarrow> b \<in> fst ` set conf"
  by (force simp: parentOf_def dest: map_of_SomeD split: option.splits)

function resolveStackBase ::
    "bytes \<Rightarrow> stack_config \<Rightarrow> (bytes \<Rightarrow> bool) \<Rightarrow> (bytes \<Rightarrow> resolvedNode option) \<Rightarrow>
     resolvedNode \<times> (bytes \<Rightarrow> resolvedNode option)" where
  "resolveStackBase branch conf ex memo =
     (if memoRank memo branch = 0 then (the (memo branch), memo)
      else
        (let memo1 = memo(branch \<mapsto> nodeOf resolveInProgress);
             parent = parentOf conf branch;
             fin = (\<lambda>n m. (n, m(branch \<mapsto> n)))
         in if parent = [] then fin ((nodeOf resolveOK)\<lparr>rn_base := branch\<rparr>) memo1
            else if parentOf conf parent = [] then
              (if \<not> ex parent then fin (nodeOf resolveBroken) memo1
               else fin ((nodeOf resolveOK)\<lparr>rn_base := parent, rn_depth := 1\<rparr>) memo1)
            else if \<not> ex parent then fin (nodeOf resolveBroken) memo1
            else if memoRank memo1 parent = 2 then fin (nodeOf resolveBroken) memo1
            else
              (case resolveStackBase parent conf ex memo1 of (n, memo2) \<Rightarrow>
                 fin (if rn_state n = resolveOK then n\<lparr>rn_depth := rn_depth n + 1\<rparr> else n) memo2)))"
  by pat_completeness auto
termination
proof (relation "measure (\<lambda>(b, conf, ex, memo). 3 * unvisited conf memo + memoRank memo b)")
  fix branch conf ex memo memo1 parent fin
  assume nz: "memoRank memo branch \<noteq> 0"
    and m1: "memo1 = memo(branch \<mapsto> nodeOf resolveInProgress)"
    and p: "parent = parentOf conf branch" "parent \<noteq> []"
    and n2: "memoRank memo1 parent \<noteq> 2"
  have r: "memoRank memo1 parent \<le> 1"
    using n2 by (auto simp: memoRank_def split: option.splits if_splits)
  show "((parent, conf, ex, memo1), (branch, conf, ex, memo))
      \<in> measure (\<lambda>(b, conf, ex, memo). 3 * unvisited conf memo + memoRank memo b)"
  proof (cases "memo branch")
    case None
    then have "unvisited conf memo1 < unvisited conf memo"
      unfolding m1 using p by (intro unvisited_less parentOf_key) simp_all
    then show ?thesis using r by simp
  next
    case (Some n)
    then have "memoRank memo branch = 2"
      using nz by (simp add: memoRank_def split: if_splits)
    then show ?thesis using r unvisited_le [of conf memo branch "nodeOf resolveInProgress"] by (simp add: m1)
  qed
qed simp

declare resolveStackBase.simps [simp del]

section \<open>Building the stacks\<close>

record StackRefInfo =
  lf_Tip :: sha
  lf_CheckedOutIn :: "path option"
  lf_Track :: Track
  lf_IsHead :: bool
  lf_HasUpstream :: bool

record LeftRightCount =
  lr_Behind :: int
  lr_Ahead :: int

record BuildStacksInput =
  bs_Config :: stack_config
  bs_LocalRefs :: "(bytes \<times> StackRefInfo) list"
  bs_BaseTips :: "bytes \<Rightarrow> sha option"
  bs_BehindAhead :: "bytes \<Rightarrow> LeftRightCount option"

text \<open>One pass of the insertion sort: the new element sinks left past every greater one.\<close>

definition sinkLeft :: "bytes \<Rightarrow> bytes list \<Rightarrow> bytes list" where
  "sinkLeft x ys =
     rev (dropWhile (\<lambda>y. y > x) (rev ys)) @ x # rev (takeWhile (\<lambda>y. y > x) (rev ys))"

definition sortedStrings :: "bytes list \<Rightarrow> bytes list" where
  "sortedStrings s = foldl (\<lambda>ys x. sinkLeft x ys) [] s"

definition existsRef :: "BuildStacksInput \<Rightarrow> bytes \<Rightarrow> bool" where
  "existsRef inp name \<longleftrightarrow> map_of (bs_LocalRefs inp) name \<noteq> None \<or> bs_BaseTips inp name \<noteq> None"

definition recordedBaseOf :: "stack_config \<Rightarrow> bytes \<Rightarrow> bytes option" where
  "recordedBaseOf conf name =
     (case map_of conf name of
        None \<Rightarrow> None
      | Some e \<Rightarrow> if ce_Base e \<noteq> [] then Some (ce_Base e) else None)"

definition buildOrphanRow :: "bytes \<Rightarrow> bytes \<Rightarrow> BuildStacksInput \<Rightarrow> StackBranch" where
  "buildOrphanRow name parent inp =
     (let ref = map_of (bs_LocalRefs inp) name
      in \<lparr>bk_Name = name, bk_Parent = parent, bk_Depth = 0,
          bk_Tip = (case ref of Some r \<Rightarrow> lf_Tip r | None \<Rightarrow> []),
          bk_ParentTip = None, bk_RecordedBase = recordedBaseOf (bs_Config inp) name,
          bk_Behind = 0, bk_Ahead = 0, bk_State = StackParentMissing,
          bk_CheckedOutIn = (case ref of Some r \<Rightarrow> lf_CheckedOutIn r | None \<Rightarrow> None),
          bk_Track = (case ref of Some r \<Rightarrow> lf_Track r | None \<Rightarrow> TrackNone),
          bk_IsHead = (case ref of Some r \<Rightarrow> lf_IsHead r | None \<Rightarrow> False)\<rparr>)"

definition buildStackedRow :: "bytes \<Rightarrow> nat \<Rightarrow> BuildStacksInput \<Rightarrow> StackBranch" where
  "buildStackedRow name depth inp =
     (let ref = map_of (bs_LocalRefs inp) name; parent = parentOf (bs_Config inp) name;
          behind = (case bs_BehindAhead inp name of Some ba \<Rightarrow> lr_Behind ba | None \<Rightarrow> 0);
          ahead = (case bs_BehindAhead inp name of Some ba \<Rightarrow> lr_Ahead ba | None \<Rightarrow> 0)
      in \<lparr>bk_Name = name, bk_Parent = parent, bk_Depth = depth,
          bk_Tip = (case ref of Some r \<Rightarrow> lf_Tip r | None \<Rightarrow> []),
          bk_ParentTip = bs_BaseTips inp parent, bk_RecordedBase = recordedBaseOf (bs_Config inp) name,
          bk_Behind = behind, bk_Ahead = ahead,
          bk_State = (if 0 < behind then StackNeedsRestack else StackUpToDate),
          bk_CheckedOutIn = (case ref of Some r \<Rightarrow> lf_CheckedOutIn r | None \<Rightarrow> None),
          bk_Track = (case ref of Some r \<Rightarrow> lf_Track r | None \<Rightarrow> TrackNone),
          bk_IsHead = (case ref of Some r \<Rightarrow> lf_IsHead r | None \<Rightarrow> False)\<rparr>)"

text \<open>The children of a name among the members of one stack, in sorted order.\<close>

definition childrenOf :: "stack_config \<Rightarrow> bytes list \<Rightarrow> bytes \<Rightarrow> bytes list" where
  "childrenOf conf members parent = sortedStrings (filter (\<lambda>m. parentOf conf m = parent) members)"

fun visitChildren :: "('a \<Rightarrow> 'b list option) \<Rightarrow> 'a list \<Rightarrow> 'b list option" where
  "visitChildren f [] = Some []"
| "visitChildren f (c # cs) =
     (case f c of None \<Rightarrow> None
      | Some rows \<Rightarrow> (case visitChildren f cs of None \<Rightarrow> None | Some rest \<Rightarrow> Some (rows @ rest)))"

fun visit :: "nat \<Rightarrow> BuildStacksInput \<Rightarrow> bytes list \<Rightarrow> bytes \<Rightarrow> nat \<Rightarrow> StackBranch list option" where
  "visit 0 inp members name depth = None"
| "visit (Suc fuel) inp members name depth =
     (case visitChildren (\<lambda>child. visit fuel inp members child (depth + 1))
             (childrenOf (bs_Config inp) members name) of
        None \<Rightarrow> None
      | Some rows \<Rightarrow> Some (buildStackedRow name depth inp # rows))"

definition flattenStack :: "bytes \<Rightarrow> bytes list \<Rightarrow> BuildStacksInput \<Rightarrow> StackBranch list option" where
  "flattenStack base members inp =
     visitChildren (\<lambda>root. visit MaxStackedBranches inp members root 0)
       (childrenOf (bs_Config inp) members base)"

definition candidates :: "BuildStacksInput \<Rightarrow> bytes list" where
  "candidates inp =
     sortedStrings (filter (\<lambda>name. parentOf (bs_Config inp) name \<noteq> []) (map fst (bs_LocalRefs inp)))"

text \<open>
  The grouping loop: the groups by base so far, in the order their bases first appeared (Go's map
  has none, and its keys are sorted before they are used), and the orphans so far.
\<close>

fun baseGroupLoop ::
    "BuildStacksInput \<Rightarrow> (bytes \<Rightarrow> resolvedNode option) \<Rightarrow> (bytes \<times> bytes list) list \<Rightarrow> StackBranch list \<Rightarrow>
     bytes list \<Rightarrow> (bytes \<times> bytes list) list \<times> StackBranch list" where
  "baseGroupLoop inp memo groups orphans [] = (groups, orphans)"
| "baseGroupLoop inp memo groups orphans (name # names) =
     (case resolveStackBase name (bs_Config inp) (existsRef inp) memo of (resolved, memo') \<Rightarrow>
        (if rn_state resolved = resolveOK \<and> rn_depth resolved \<le> MaxStackedBranches then
           (let old = (case map_of groups (rn_base resolved) of Some ms \<Rightarrow> ms | None \<Rightarrow> [])
            in baseGroupLoop inp memo' (AList.update (rn_base resolved) (old @ [name]) groups) orphans names)
         else
           baseGroupLoop inp memo' groups (orphans @ [buildOrphanRow name (parentOf (bs_Config inp) name) inp]) names))"

definition stackOf :: "BuildStacksInput \<Rightarrow> (bytes \<times> bytes list) list \<Rightarrow> bytes \<Rightarrow> StackSummary list option" where
  "stackOf inp groups base =
     (case flattenStack base (case map_of groups base of Some ms \<Rightarrow> ms | None \<Rightarrow> []) inp of
        None \<Rightarrow> None
      | Some branches \<Rightarrow>
          Some [\<lparr>ks_Base = base, ks_BaseTip = bs_BaseTips inp base, ks_Branches = branches,
                 ks_NeedsRestack = list_ex (\<lambda>b. bk_State b = StackNeedsRestack) branches\<rparr>])"

definition BuildStacks :: "BuildStacksInput \<Rightarrow> StackListResult option" where
  "BuildStacks inp =
     (case baseGroupLoop inp (\<lambda>_. None) [] [] (candidates inp) of (groups, orphans) \<Rightarrow>
        (case visitChildren (stackOf inp groups) (sortedStrings (map fst groups)) of
           None \<Rightarrow> None
         | Some stacks \<Rightarrow> Some \<lparr>kl_Stacks = stacks, kl_Orphans = orphans\<rparr>))"

section \<open>Planning a restack\<close>

datatype RestackBlockerKind =
  RkInProgressOperation | RkNotStacked | RkCycle | RkParentMissing | RkCheckedOutElsewhere | RkDirtyWorktree

record RestackBlocker =
  rb_Kind :: RestackBlockerKind
  rb_Operation :: "InProgressOperation option"
  rb_Branch :: bytes
  rb_Branches :: "bytes list"
  rb_Parent :: bytes
  rb_WorktreePath :: path
  rb_Paths :: "path list"

datatype BaseSource = BaseUnknown | BaseRecorded | BaseMergeBase

datatype RestackReason = ReasonStale | ReasonAncestorRestacked

record RestackPlanEntry =
  re_Branch :: bytes
  re_Parent :: bytes
  re_Base :: bytes
  re_BaseSource :: BaseSource
  re_Commits :: int
  re_Reason :: RestackReason

datatype RestackVerdict = RkClean | RkNoop | RkBlocked

datatype RestackRoute = RkStashFirst

record RestackPreflight =
  rk_Base :: bytes
  rk_Plan :: "RestackPlanEntry list"
  rk_Blockers :: "RestackBlocker list"
  rk_Verdict :: RestackVerdict
  rk_RestoresHead :: bytes
  rk_NeedsForcePush :: "bytes list"
  rk_Routes :: "RestackRoute list"

record HeadRef =
  hr_Branch :: bytes
  hr_Sha :: sha

record RestackBaseInfo =
  rbi_Base :: bytes
  rbi_Source :: BaseSource

record ClassifyRestackInput =
  qi_Target :: bytes
  qi_Stacks :: "StackSummary list"
  qi_Orphans :: "StackBranch list"
  qi_Config :: stack_config
  qi_InProgress :: "InProgressOperation option"
  qi_CurrentHead :: HeadRef
  qi_DirtyPaths :: "path list"
  qi_CheckedOutElsewhere :: "bytes \<Rightarrow> path option"
  qi_BranchBases :: "bytes \<Rightarrow> RestackBaseInfo option"
  qi_HasUpstream :: "bytes \<Rightarrow> bool"

definition restoresHeadOf :: "HeadRef \<Rightarrow> bytes" where
  "restoresHeadOf h = (if hr_Branch h \<noteq> [] then hr_Branch h else ShortSHA (hr_Sha h))"

fun findBranchStack :: "StackSummary list \<Rightarrow> bytes \<Rightarrow> (StackSummary \<times> StackBranch) option" where
  "findBranchStack [] target = None"
| "findBranchStack (s # ss) target =
     (case find (\<lambda>b. bk_Name b = target) (ks_Branches s) of
        Some b \<Rightarrow> Some (s, b)
      | None \<Rightarrow> findBranchStack ss target)"

definition findOrphan :: "StackBranch list \<Rightarrow> bytes \<Rightarrow> StackBranch option" where
  "findOrphan orphans target = find (\<lambda>o'. bk_Name o' = target) orphans"

text \<open>The cascade: the names planned so far are carried along the stack, bottom to top.\<close>

fun planLoop :: "(bytes \<Rightarrow> RestackBaseInfo option) \<Rightarrow> bytes set \<Rightarrow> StackBranch list \<Rightarrow> RestackPlanEntry list" where
  "planLoop bases inPlan [] = []"
| "planLoop bases inPlan (b # bs) =
     (let entry = (\<lambda>reason.
            (let info = (case bases (bk_Name b) of Some i \<Rightarrow> i
                         | None \<Rightarrow> \<lparr>rbi_Base = [], rbi_Source = BaseUnknown\<rparr>)
             in \<lparr>re_Branch = bk_Name b, re_Parent = bk_Parent b, re_Base = rbi_Base info,
                 re_BaseSource = rbi_Source info, re_Commits = bk_Ahead b, re_Reason = reason\<rparr>))
      in if bk_State b = StackNeedsRestack
         then entry ReasonStale # planLoop bases (insert (bk_Name b) inPlan) bs
         else if bk_Parent b \<in> inPlan
         then entry ReasonAncestorRestacked # planLoop bases (insert (bk_Name b) inPlan) bs
         else planLoop bases inPlan bs)"

definition restackBlocker :: "RestackBlockerKind \<Rightarrow> RestackBlocker" where
  "restackBlocker kind =
     \<lparr>rb_Kind = kind, rb_Operation = None, rb_Branch = [], rb_Branches = [], rb_Parent = [],
      rb_WorktreePath = [], rb_Paths = []\<rparr>"

fun elsewhereBlocker :: "(bytes \<Rightarrow> path option) \<Rightarrow> RestackPlanEntry list \<Rightarrow> RestackBlocker list" where
  "elsewhereBlocker elsewhere [] = []"
| "elsewhereBlocker elsewhere (e # es) =
     (case elsewhere (re_Branch e) of
        Some p \<Rightarrow> [(restackBlocker RkCheckedOutElsewhere)\<lparr>rb_Branch := re_Branch e, rb_WorktreePath := p\<rparr>]
      | None \<Rightarrow> elsewhereBlocker elsewhere es)"

definition ClassifyRestack :: "ClassifyRestackInput \<Rightarrow> RestackPreflight" where
  "ClassifyRestack inp =
     (let blockers0 =
            (case qi_InProgress inp of None \<Rightarrow> []
             | Some op \<Rightarrow> [(restackBlocker RkInProgressOperation)\<lparr>rb_Operation := Some op\<rparr>]);
          (base, plan, blockers1) =
            (case findBranchStack (qi_Stacks inp) (qi_Target inp) of
               None \<Rightarrow>
                 ([], [],
                  (case findOrphan (qi_Orphans inp) (qi_Target inp) of
                     Some orphan \<Rightarrow>
                       (case DetectCycleFrom (qi_Config inp) (qi_Target inp) of
                          Some cyc \<Rightarrow> [(restackBlocker RkCycle)\<lparr>rb_Branches := cyc\<rparr>]
                        | None \<Rightarrow> [(restackBlocker RkParentMissing)
                                     \<lparr>rb_Branch := qi_Target inp, rb_Parent := bk_Parent orphan\<rparr>])
                   | None \<Rightarrow> [(restackBlocker RkNotStacked)\<lparr>rb_Branch := qi_Target inp\<rparr>]))
             | Some (stack, _) \<Rightarrow>
                 (let plan = planLoop (qi_BranchBases inp) {} (ks_Branches stack)
                  in (ks_Base stack, plan, elsewhereBlocker (qi_CheckedOutElsewhere inp) plan)));
          dirty = (0 < length (qi_DirtyPaths inp) \<and> 0 < length plan);
          blockers =
            blockers0 @ blockers1 @
            (if dirty then [(restackBlocker RkDirtyWorktree)\<lparr>rb_Paths := qi_DirtyPaths inp\<rparr>] else [])
      in \<lparr>rk_Base = base, rk_Plan = plan, rk_Blockers = blockers,
          rk_Verdict = (if 0 < length blockers then RkBlocked else if length plan = 0 then RkNoop else RkClean),
          rk_RestoresHead = restoresHeadOf (qi_CurrentHead inp),
          rk_NeedsForcePush = map re_Branch (filter (\<lambda>e. qi_HasUpstream inp (re_Branch e)) plan),
          rk_Routes = (if dirty then [RkStashFirst] else [])\<rparr>)"

section \<open>Sorting\<close>

lemma sinkLeft_mset: "mset (sinkLeft x ys) = add_mset x (mset ys)"
proof -
  have "mset (takeWhile P zs) + mset (dropWhile P zs) = mset zs" for P :: "bytes \<Rightarrow> bool" and zs
    by (metis mset_append takeWhile_dropWhile_id)
  then show ?thesis by (simp add: sinkLeft_def ac_simps)
qed

lemma sinkLeft_sorted:
  assumes "sorted ys"
  shows "sorted (sinkLeft x ys)"
proof -
  let ?d = "dropWhile (\<lambda>y. y > x) (rev ys)" and ?t = "takeWhile (\<lambda>y. y > x) (rev ys)"
  have ys: "ys = rev ?d @ rev ?t"
    by (metis rev_append rev_rev_ident takeWhile_dropWhile_id)
  have s: "sorted (rev ?d)" "sorted (rev ?t)" "\<And>a b. a \<in> set ?d \<Longrightarrow> b \<in> set ?t \<Longrightarrow> a \<le> b"
    using assms sorted_append [of "rev ?d" "rev ?t"] ys by auto
  have "a \<le> x" if "a \<in> set ?d" for a
  proof -
    from that obtain e es where e: "?d = e # es" by (cases ?d) auto
    have "\<not> e > x"
      using hd_dropWhile [of "\<lambda>y. y > x" "rev ys"] e by simp
    moreover have "a \<le> e"
      using that s(1) e by (auto simp: sorted_append)
    ultimately show ?thesis by simp
  qed
  moreover have "x < b" if "b \<in> set ?t" for b
    using that by (rule set_takeWhileD [THEN conjunct2])
  ultimately show ?thesis
    using s by (auto simp: sinkLeft_def sorted_append less_imp_le)
qed

lemma sortedStrings_sort: "sortedStrings s = sort s"
proof -
  have "sorted ys \<Longrightarrow> sorted (foldl (\<lambda>ys x. sinkLeft x ys) ys s) \<and>
      mset (foldl (\<lambda>ys x. sinkLeft x ys) ys s) = mset ys + mset s" for ys
    by (induction s arbitrary: ys) (simp_all add: sinkLeft_sorted sinkLeft_mset)
  from this [of "[]"] show ?thesis
    by (metis add_0 mset.simps(1) properties_for_sort sorted_simps(1) sortedStrings_def)
qed

lemma sortedStrings_simps [simp]:
  "set (sortedStrings s) = set s" "distinct (sortedStrings s) = distinct s" "mset (sortedStrings s) = mset s"
  "length (sortedStrings s) = length s"
  by (simp_all add: sortedStrings_sort)

section \<open>What the walk decides\<close>

text \<open>
  A branch sits on a base at a depth: the chain of recorded parents, each of them an existing ref,
  ends in a name that is not stacked itself.
\<close>

inductive sitsOn :: "stack_config \<Rightarrow> (bytes \<Rightarrow> bool) \<Rightarrow> bytes \<Rightarrow> bytes \<Rightarrow> nat \<Rightarrow> bool" for conf ex where
  unstacked: "parentOf conf b = [] \<Longrightarrow> sitsOn conf ex b b 0"
| root: "parentOf conf b = p \<Longrightarrow> p \<noteq> [] \<Longrightarrow> parentOf conf p = [] \<Longrightarrow> ex p \<Longrightarrow> sitsOn conf ex b p (Suc 0)"
| stacked: "parentOf conf b = p \<Longrightarrow> p \<noteq> [] \<Longrightarrow> parentOf conf p \<noteq> [] \<Longrightarrow> ex p \<Longrightarrow> sitsOn conf ex p base d \<Longrightarrow>
    sitsOn conf ex b base (Suc d)"

inductive_cases sitsOn_cases: "sitsOn conf ex b base d"

text \<open>The one rule that can apply to a branch is fixed by its parent.\<close>

lemma sitsOn_unstacked: "parentOf conf b = [] \<Longrightarrow> sitsOn conf ex b base d \<longleftrightarrow> base = b \<and> d = 0"
  by (auto elim: sitsOn_cases intro: sitsOn.unstacked)

lemma sitsOn_root:
  "parentOf conf b = p \<Longrightarrow> p \<noteq> [] \<Longrightarrow> parentOf conf p = [] \<Longrightarrow> sitsOn conf ex b base d \<longleftrightarrow> ex p \<and> base = p \<and> d = Suc 0"
  by (auto elim: sitsOn_cases intro: sitsOn.root)

lemma sitsOn_stacked:
  "parentOf conf b = p \<Longrightarrow> p \<noteq> [] \<Longrightarrow> parentOf conf p \<noteq> [] \<Longrightarrow>
   sitsOn conf ex b base d \<longleftrightarrow> ex p \<and> (\<exists>d'. d = Suc d' \<and> sitsOn conf ex p base d')"
  by (auto elim: sitsOn_cases intro: sitsOn.stacked)

lemma sitsOn_unique: "sitsOn conf ex b base d \<Longrightarrow> sitsOn conf ex b base' d' \<Longrightarrow> base' = base \<and> d' = d"
proof (induction arbitrary: d' rule: sitsOn.induct)
  case (stacked b p base d)
  then show ?case by (auto simp: sitsOn_stacked)
qed (simp_all add: sitsOn_unstacked sitsOn_root)

text \<open>One hop of the walk; a branch on a cycle of hops sits on nothing.\<close>

definition hop :: "stack_config \<Rightarrow> (bytes \<Rightarrow> bool) \<Rightarrow> bytes \<Rightarrow> bytes \<Rightarrow> bool" where
  "hop conf ex b p \<longleftrightarrow> parentOf conf b = p \<and> p \<noteq> [] \<and> parentOf conf p \<noteq> [] \<and> ex p"

lemma sitsOn_hop: "hop conf ex b p \<Longrightarrow> sitsOn conf ex b base d \<longleftrightarrow> (\<exists>d'. d = Suc d' \<and> sitsOn conf ex p base d')"
  by (auto simp: hop_def sitsOn_stacked)

lemma sitsOn_hops:
  "(hop conf ex)\<^sup>+\<^sup>+ b p \<Longrightarrow> sitsOn conf ex b base d \<Longrightarrow> \<exists>d'<d. sitsOn conf ex p base d'"
proof (induction rule: tranclp_induct)
  case (base y)
  then show ?case by (auto simp: sitsOn_hop)
next
  case (step y z)
  then obtain d' where d': "d' < d" "sitsOn conf ex y base d'" by blast
  then obtain d'' where "d' = Suc d''" "sitsOn conf ex z base d''"
    using sitsOn_hop [OF step.hyps(2), of base d'] by blast
  then show ?case using d'(1) by (intro exI [of _ d'']) simp
qed

lemma cycle_sits_nowhere: "(hop conf ex)\<^sup>+\<^sup>+ b b \<Longrightarrow> \<not> sitsOn conf ex b base d"
  using sitsOn_hops sitsOn_unique by (metis less_irrefl)

section \<open>The memoised walk\<close>

definition nodeRight :: "stack_config \<Rightarrow> (bytes \<Rightarrow> bool) \<Rightarrow> bytes \<Rightarrow> resolvedNode \<Rightarrow> bool" where
  "nodeRight conf ex b n \<longleftrightarrow>
     (rn_state n = resolveOK \<and> sitsOn conf ex b (rn_base n) (rn_depth n)) \<or>
     (rn_state n = resolveBroken \<and> (\<forall>base d. \<not> sitsOn conf ex b base d))"

definition underWay :: "(bytes \<Rightarrow> resolvedNode option) \<Rightarrow> bytes set" where
  "underWay memo = {b. memoRank memo b = 2}"

text \<open>
  The memo between two calls of the walk: finished nodes are right, and every node under way leads
  by hops to the branch the walk is at.
\<close>

definition memoRight :: "stack_config \<Rightarrow> (bytes \<Rightarrow> bool) \<Rightarrow> (bytes \<Rightarrow> resolvedNode option) \<Rightarrow> bool" where
  "memoRight conf ex memo \<longleftrightarrow> (\<forall>b n. memo b = Some n \<longrightarrow> memoRank memo b = 0 \<longrightarrow> nodeRight conf ex b n)"

lemma underWay_update [simp]:
  "underWay (memo(b \<mapsto> n)) = (if rn_state n = resolveInProgress then insert b (underWay memo) else underWay memo - {b})"
  by (auto simp: underWay_def memoRank_def)

lemma memoRight_update:
  "memoRight conf ex memo \<Longrightarrow> rn_state n = resolveInProgress \<or> nodeRight conf ex b n \<Longrightarrow> memoRight conf ex (memo(b \<mapsto> n))"
  unfolding memoRight_def by (auto simp: memoRank_def split: if_splits)

lemma nodeRight_finished: "nodeRight conf ex b n \<Longrightarrow> rn_state n \<noteq> resolveInProgress"
  by (auto simp: nodeRight_def)

definition walkPost :: "stack_config \<Rightarrow> (bytes \<Rightarrow> bool) \<Rightarrow> bytes \<Rightarrow> (bytes \<Rightarrow> resolvedNode option) \<Rightarrow>
    resolvedNode \<times> (bytes \<Rightarrow> resolvedNode option) \<Rightarrow> bool" where
  "walkPost conf ex b memo r \<longleftrightarrow>
     nodeRight conf ex b (fst r) \<and> memoRight conf ex (snd r) \<and> underWay (snd r) = underWay memo"

lemma walkPost_finish:
  assumes "nodeRight conf ex b n" and "memoRight conf ex memo2" and "b \<notin> underWay memo"
    and "underWay memo2 = insert b (underWay memo)"
  shows "walkPost conf ex b memo (n, memo2(b \<mapsto> n))"
  using assms nodeRight_finished [OF assms(1)] by (auto simp: walkPost_def intro: memoRight_update)

lemma resolve_right:
  assumes "memoRight conf ex memo" and "\<forall>q\<in>underWay memo. (hop conf ex)\<^sup>+\<^sup>+ q b" and "b \<notin> underWay memo"
  shows "walkPost conf ex b memo (resolveStackBase b conf ex memo)"
  using assms
proof (induction b conf ex memo rule: resolveStackBase.induct)
  case (1 b conf ex memo)
  let ?memo1 = "memo(b \<mapsto> nodeOf resolveInProgress)" and ?p = "parentOf conf b"
  have st: "rn_state (nodeOf s) = s" for s by (simp add: nodeOf_def)
  have m1: "memoRight conf ex ?memo1" "underWay ?memo1 = insert b (underWay memo)"
    using "1.prems"(1) by (auto simp: st intro: memoRight_update)
  have fin: "walkPost conf ex b memo (n, memo(b \<mapsto> n))" if "nodeRight conf ex b n" for n
    using walkPost_finish [OF that m1(1) "1.prems"(3) m1(2)] by simp
  show ?case
  proof (cases "memoRank memo b = 0")
    case True
    then obtain n where "memo b = Some n"
      by (auto simp: memoRank_def split: option.splits)
    then show ?thesis
      using True "1.prems"(1) by (subst resolveStackBase.simps) (auto simp: walkPost_def memoRight_def)
  next
    case nz: False
    consider "?p = []" | "?p \<noteq> []" "parentOf conf ?p = []" | "?p \<noteq> []" "parentOf conf ?p \<noteq> []" "\<not> ex ?p"
      | "hop conf ex b ?p" by (auto simp: hop_def)
    then show ?thesis
    proof cases
      case 1
      then show ?thesis
        using nz by (subst resolveStackBase.simps)
          (auto simp: Let_def nodeRight_def st sitsOn_unstacked nodeOf_def intro!: fin)
    next
      case 2
      then show ?thesis
        using nz by (subst resolveStackBase.simps)
          (auto simp: Let_def nodeRight_def st sitsOn_root [OF refl] nodeOf_def intro!: fin)
    next
      case 3
      then show ?thesis
        using nz by (subst resolveStackBase.simps)
          (auto simp: Let_def nodeRight_def st sitsOn_stacked [OF refl] intro!: fin)
    next
      case h: 4
      then have p: "?p \<noteq> []" "parentOf conf ?p \<noteq> []" "ex ?p" by (simp_all add: hop_def)
      show ?thesis
      proof (cases "memoRank ?memo1 ?p = 2")
        case True
        then have "?p = b \<or> (hop conf ex)\<^sup>+\<^sup>+ ?p b"
          using m1(2) "1.prems"(2) by (auto simp: underWay_def)
        then have "(hop conf ex)\<^sup>+\<^sup>+ b b"
          using h by (metis tranclp.r_into_trancl tranclp_into_tranclp2)
        then have "nodeRight conf ex b (nodeOf resolveBroken)"
          using cycle_sits_nowhere by (auto simp: nodeRight_def st)
        then show ?thesis using nz p True fin by (subst resolveStackBase.simps) (simp add: Let_def)
      next
        case False
        obtain n memo2 where r: "resolveStackBase ?p conf ex ?memo1 = (n, memo2)" by fastforce
        have reach: "\<forall>q\<in>underWay ?memo1. (hop conf ex)\<^sup>+\<^sup>+ q ?p"
          using "1.prems"(2) h m1(2) by (metis insertE tranclp.r_into_trancl tranclp.trancl_into_trancl)
        have new: "?p \<notin> underWay ?memo1"
          using False by (simp add: underWay_def)
        have "\<not> \<not> ex ?p" using p(3) by simp
        from "1.IH" [OF nz refl refl refl p(1,2) this False m1(1) reach new]
        have "walkPost conf ex ?p ?memo1 (n, memo2)"
          by (simp only: r)
        then have post: "nodeRight conf ex ?p n" "memoRight conf ex memo2" "underWay memo2 = insert b (underWay memo)"
          using m1(2) by (simp_all add: walkPost_def)
        define n' where "n' = (if rn_state n = resolveOK then n\<lparr>rn_depth := rn_depth n + 1\<rparr> else n)"
        have "nodeRight conf ex b n'"
          using post(1) h unfolding nodeRight_def n'_def by (auto simp: sitsOn_hop)
        from walkPost_finish [OF this post(2) "1.prems"(3) post(3)] show ?thesis
          using nz p False r by (subst resolveStackBase.simps) (simp add: Let_def n'_def)
      qed
    qed
  qed
qed

section \<open>Grouping\<close>

definition placedOn :: "BuildStacksInput \<Rightarrow> bytes \<Rightarrow> bytes \<Rightarrow> bool" where
  "placedOn inp base name \<longleftrightarrow> (\<exists>d\<le>MaxStackedBranches. sitsOn (bs_Config inp) (existsRef inp) name base d)"

definition placed :: "BuildStacksInput \<Rightarrow> bytes \<Rightarrow> bool" where
  "placed inp name \<longleftrightarrow> (\<exists>base. placedOn inp base name)"

definition groupMembers :: "(bytes \<times> bytes list) list \<Rightarrow> bytes \<Rightarrow> bytes list" where
  "groupMembers groups base = (case map_of groups base of Some ms \<Rightarrow> ms | None \<Rightarrow> [])"

lemma placedOn_unique: "placedOn inp base name \<Longrightarrow> placedOn inp base' name \<Longrightarrow> base' = base"
  by (auto simp: placedOn_def dest: sitsOn_unique)

lemma nodeRight_placed:
  assumes "nodeRight (bs_Config inp) (existsRef inp) name n"
  shows "rn_state n = resolveOK \<and> rn_depth n \<le> MaxStackedBranches \<Longrightarrow> placedOn inp (rn_base n) name"
    and "\<not> (rn_state n = resolveOK \<and> rn_depth n \<le> MaxStackedBranches) \<Longrightarrow> \<not> placed inp name"
  using assms by (auto simp: nodeRight_def placedOn_def placed_def dest: sitsOn_unique)

lemma groupMembers_update:
  "groupMembers (AList.update k (groupMembers groups k @ [x]) groups) base =
     groupMembers groups base @ (if base = k then [x] else [])"
  by (simp add: groupMembers_def AList.update_conv')

lemma baseGroupLoop_spec:
  assumes "memoRight (bs_Config inp) (existsRef inp) memo" and "underWay memo = {}" and "distinct (map fst groups)"
  shows "case baseGroupLoop inp memo groups orphans names of (groups', orphans') \<Rightarrow>
           orphans' = orphans @ map (\<lambda>name. buildOrphanRow name (parentOf (bs_Config inp) name) inp)
                                  (filter (\<lambda>name. \<not> placed inp name) names) \<and>
           (\<forall>base. groupMembers groups' base = groupMembers groups base @ filter (placedOn inp base) names) \<and>
           distinct (map fst groups') \<and>
           set (map fst groups') = set (map fst groups) \<union> {base. \<exists>name\<in>set names. placedOn inp base name}"
  using assms
proof (induction names arbitrary: memo groups orphans)
  case (Cons name names)
  let ?conf = "bs_Config inp" and ?ex = "existsRef inp"
  obtain n memo' where r: "resolveStackBase name ?conf ?ex memo = (n, memo')" by fastforce
  have post: "nodeRight ?conf ?ex name n" "memoRight ?conf ?ex memo'" "underWay memo' = {}"
    using resolve_right [OF Cons.prems(1), of name] Cons.prems(2) r by (simp_all add: walkPost_def)
  show ?case
  proof (cases "rn_state n = resolveOK \<and> rn_depth n \<le> MaxStackedBranches")
    case True
    let ?g = "AList.update (rn_base n) (groupMembers groups (rn_base n) @ [name]) groups"
    have on: "placedOn inp base name \<longleftrightarrow> base = rn_base n" for base
      using nodeRight_placed(1) [OF post(1) True] placedOn_unique by blast
    then have "placed inp name" by (simp add: placed_def)
    moreover have "distinct (map fst ?g)" and keys: "set (map fst ?g) = insert (rn_base n) (set (map fst groups))"
      using Cons.prems(3) by (auto simp: AList.distinct_update AList.update_keys)
    moreover note IH = Cons.IH [OF post(2,3) \<open>distinct (map fst ?g)\<close>, of orphans]
    have step: "baseGroupLoop inp memo groups orphans (name # names) = baseGroupLoop inp memo' ?g orphans names"
      using True r by (simp add: Let_def groupMembers_def)
    show ?thesis
      using IH keys \<open>placed inp name\<close> unfolding step
      by (auto simp: groupMembers_update on split: prod.splits)
  next
    case False
    then have np: "\<not> placed inp name" and "\<And>base. \<not> placedOn inp base name"
      using nodeRight_placed(2) [OF post(1)] by (auto simp: placed_def)
    moreover have step: "baseGroupLoop inp memo groups orphans (name # names) =
        baseGroupLoop inp memo' groups (orphans @ [buildOrphanRow name (parentOf ?conf name) inp]) names"
      using False r by auto
    ultimately show ?thesis
      using Cons.IH [OF post(2,3) Cons.prems(3), of "orphans @ [buildOrphanRow name (parentOf ?conf name) inp]"]
      unfolding step by (auto split: prod.splits)
  qed
qed simp

section \<open>Flattening\<close>

lemma visitChildren_Some:
  "(\<And>c. c \<in> set cs \<Longrightarrow> f c = Some (g c)) \<Longrightarrow> visitChildren f cs = Some (concat (map g cs))"
  by (induction cs) auto

text \<open>Every row comes after the row of its parent, one level deeper; \<open>seen\<close> holds the rows to come from.\<close>

fun parentsFirst :: "(bytes \<times> nat) set \<Rightarrow> StackBranch list \<Rightarrow> bool" where
  "parentsFirst seen [] \<longleftrightarrow> True"
| "parentsFirst seen (r # rs) \<longleftrightarrow>
     (bk_Parent r, bk_Depth r) \<in> seen \<and> parentsFirst (insert (bk_Name r, Suc (bk_Depth r)) seen) rs"

lemma parentsFirst_mono: "parentsFirst s rs \<Longrightarrow> s \<subseteq> t \<Longrightarrow> parentsFirst t rs"
proof (induction rs arbitrary: s t)
  case (Cons r rs)
  then show ?case by (auto elim!: Cons.IH)
qed simp

lemma parentsFirst_append: "parentsFirst s xs \<Longrightarrow> parentsFirst s ys \<Longrightarrow> parentsFirst s (xs @ ys)"
proof (induction xs arbitrary: s)
  case (Cons x xs)
  then show ?case by (auto intro!: Cons.IH elim: parentsFirst_mono)
qed simp

lemma parentsFirst_concat: "(\<And>rs. rs \<in> set rss \<Longrightarrow> parentsFirst s rs) \<Longrightarrow> parentsFirst s (concat rss)"
  by (induction rss) (auto intro: parentsFirst_append)

text \<open>The tree of one stack: which member is recorded on which name.\<close>

definition childIn :: "stack_config \<Rightarrow> bytes list \<Rightarrow> bytes \<Rightarrow> bytes \<Rightarrow> bool" where
  "childIn conf members n c \<longleftrightarrow> c \<in> set members \<and> parentOf conf c = n"

lemma childrenOf_iff: "c \<in> set (childrenOf conf members n) \<longleftrightarrow> childIn conf members n c"
  by (auto simp: childrenOf_def childIn_def)

lemma deeper:
  assumes "\<And>n c. childIn conf members n c \<Longrightarrow> dep c = Suc (dep n)" and "(childIn conf members)\<^sup>*\<^sup>* a m"
  shows "a = m \<or> dep a < dep m"
  using assms(2) by (induction rule: rtranclp_induct) (auto simp: assms(1))

lemma same_depth_ancestor:
  assumes dep: "\<And>n c. childIn conf members n c \<Longrightarrow> dep c = Suc (dep n)"
    and "(childIn conf members)\<^sup>*\<^sup>* a m" and "(childIn conf members)\<^sup>*\<^sup>* b m" and "dep a = dep b"
  shows "a = b"
  using assms(2,3)
proof (induction arbitrary: rule: rtranclp_induct)
  case base
  then show ?case using deeper [of conf members dep b a, OF dep] assms(4) by auto
next
  case (step y z)
  from step.prems show ?case
  proof (cases rule: rtranclp.cases)
    case rtrancl_refl
    then show ?thesis
      using deeper [of conf members dep a y, OF dep step.hyps(1)] dep [OF step.hyps(2)] assms(4) by auto
  next
    case (rtrancl_into_rtrancl y')
    then have "y' = y" using step.hyps(2) by (simp add: childIn_def)
    then show ?thesis using step.IH rtrancl_into_rtrancl by simp
  qed
qed

text \<open>What one visit returns: the subtree below a name, each once, parents first.\<close>

definition subtreeRows :: "BuildStacksInput \<Rightarrow> bytes list \<Rightarrow> bytes \<Rightarrow> nat \<Rightarrow> StackBranch list \<Rightarrow> bool" where
  "subtreeRows inp members n depth rows \<longleftrightarrow>
     distinct (map bk_Name rows) \<and>
     bk_Name ` set rows = {m. (childIn (bs_Config inp) members)\<^sup>*\<^sup>* n m} \<and>
     parentsFirst {(parentOf (bs_Config inp) n, depth)} rows \<and>
     set rows \<subseteq> {buildStackedRow m d inp |m d. True}"

lemma subtree_unfold:
  "{m. (childIn conf members)\<^sup>*\<^sup>* n m} = insert n (\<Union>c\<in>{c. childIn conf members n c}. {m. (childIn conf members)\<^sup>*\<^sup>* c m})"
  by (auto intro: converse_rtranclp_into_rtranclp elim: converse_rtranclpE)

text \<open>The subtrees of the children of one name, in a row.\<close>

lemma sibling_rows:
  assumes dep: "\<And>n c. childIn (bs_Config inp) members n c \<Longrightarrow> dep c = Suc (dep n)"
    and "distinct cs" and "\<And>c. c \<in> set cs \<Longrightarrow> childIn (bs_Config inp) members n c"
    and "\<And>c. c \<in> set cs \<Longrightarrow> subtreeRows inp members c depth (g c)"
  shows "distinct (map bk_Name (concat (map g cs))) \<and>
         bk_Name ` set (concat (map g cs)) = (\<Union>c\<in>set cs. {m. (childIn (bs_Config inp) members)\<^sup>*\<^sup>* c m})"
  using assms(2-)
proof (induction cs)
  case (Cons c cs)
  have g: "distinct (map bk_Name (g c))" "bk_Name ` set (g c) = {m. (childIn (bs_Config inp) members)\<^sup>*\<^sup>* c m}"
    using Cons.prems(3) by (simp_all add: subtreeRows_def)
  have IH: "distinct (map bk_Name (concat (map g cs)))"
      "bk_Name ` set (concat (map g cs)) = (\<Union>c\<in>set cs. {m. (childIn (bs_Config inp) members)\<^sup>*\<^sup>* c m})"
    using Cons.IH Cons.prems by simp_all
  have "{m. (childIn (bs_Config inp) members)\<^sup>*\<^sup>* c m} \<inter> {m. (childIn (bs_Config inp) members)\<^sup>*\<^sup>* c' m} = {}"
    if "c' \<in> set cs" for c'
  proof -
    have "dep c = dep c'" and "c \<noteq> c'"
      using Cons.prems(1) that dep [OF Cons.prems(2) [of c]] dep [OF Cons.prems(2) [of c']] by auto
    then show ?thesis
      using same_depth_ancestor [of "bs_Config inp" members dep, OF dep] by blast
  qed
  then have "bk_Name ` set (g c) \<inter> bk_Name ` set (concat (map g cs)) = {}"
    unfolding g(2) IH(2) by blast
  then show ?case
    using g IH by (simp add: image_Un)
qed simp

lemma subtreeRows_Cons:
  assumes dep: "\<And>n c. childIn (bs_Config inp) members n c \<Longrightarrow> dep c = Suc (dep n)" and "distinct members"
    and rows: "\<And>c. childIn (bs_Config inp) members n c \<Longrightarrow> subtreeRows inp members c (Suc depth) (g c)"
  shows "subtreeRows inp members n depth
           (buildStackedRow n depth inp # concat (map g (childrenOf (bs_Config inp) members n)))"
proof -
  let ?cs = "childrenOf (bs_Config inp) members n" and ?conf = "bs_Config inp"
  have row: "bk_Name (buildStackedRow n depth inp) = n" "bk_Depth (buildStackedRow n depth inp) = depth"
      "bk_Parent (buildStackedRow n depth inp) = parentOf ?conf n"
    by (simp_all add: buildStackedRow_def Let_def)
  have ch: "childIn ?conf members n c" "subtreeRows inp members c (Suc depth) (g c)" if "c \<in> set ?cs" for c
    using that rows by (simp_all add: childrenOf_iff)
  have "distinct ?cs"
    using assms(2) by (simp add: childrenOf_def)
  note sib = sibling_rows [OF dep this ch]
  have names: "bk_Name ` set (concat (map g ?cs)) = (\<Union>c\<in>{c. childIn ?conf members n c}. {m. (childIn ?conf members)\<^sup>*\<^sup>* c m})"
    using sib by (simp add: childrenOf_iff [symmetric])
  have "n \<notin> bk_Name ` set (concat (map g ?cs))"
    unfolding names using deeper [of ?conf members dep, OF dep] dep by fastforce
  moreover have "parentsFirst (insert (n, Suc depth) {(parentOf ?conf n, depth)}) (concat (map g ?cs))"
  proof (rule parentsFirst_concat)
    fix rs assume "rs \<in> set (map g ?cs)"
    then obtain c where c: "c \<in> set ?cs" "rs = g c" by auto
    then have "parentsFirst {(n, Suc depth)} rs"
      using ch [of c] by (auto simp: subtreeRows_def childIn_def)
    then show "parentsFirst (insert (n, Suc depth) {(parentOf ?conf n, depth)}) rs"
      by (rule parentsFirst_mono) auto
  qed
  moreover have "set (concat (map g ?cs)) \<subseteq> {buildStackedRow m d inp |m d. True}"
    using ch(2) by (fastforce simp: subtreeRows_def)
  ultimately show ?thesis
    using sib names subtree_unfold [of ?conf members n] unfolding subtreeRows_def
    by (auto simp: row image_Un)
qed

lemma visit_spec:
  assumes dep: "\<And>n c. childIn (bs_Config inp) members n c \<Longrightarrow> dep c = Suc (dep n)"
    and lim: "\<And>m. m \<in> set members \<Longrightarrow> dep m \<le> MaxStackedBranches" and dist: "distinct members"
  shows "n \<in> set members \<Longrightarrow> MaxStackedBranches < fuel + dep n \<Longrightarrow>
    \<exists>rows. visit fuel inp members n depth = Some rows \<and> subtreeRows inp members n depth rows"
proof (induction fuel arbitrary: n depth)
  case 0
  then show ?case using lim by fastforce
next
  case (Suc fuel)
  have "\<exists>rows. visit fuel inp members c (depth + 1) = Some rows \<and> subtreeRows inp members c (Suc depth) rows"
    if "childIn (bs_Config inp) members n c" for c
    using Suc.IH [of c "depth + 1"] Suc.prems(2) dep [OF that] that by (simp add: childIn_def)
  then obtain g where g: "\<And>c. childIn (bs_Config inp) members n c \<Longrightarrow>
      visit fuel inp members c (depth + 1) = Some (g c) \<and> subtreeRows inp members c (Suc depth) (g c)"
    by metis
  have "visitChildren (\<lambda>child. visit fuel inp members child (depth + 1)) (childrenOf (bs_Config inp) members n) =
      Some (concat (map g (childrenOf (bs_Config inp) members n)))"
    using g by (intro visitChildren_Some) (simp add: childrenOf_iff)
  then show ?case
    using subtreeRows_Cons [of inp members dep n depth g, OF dep dist] g by simp
qed

section \<open>The forest\<close>

definition membersOf :: "BuildStacksInput \<Rightarrow> bytes \<Rightarrow> bytes list" where
  "membersOf inp base = filter (placedOn inp base) (candidates inp)"

definition depthOf :: "BuildStacksInput \<Rightarrow> bytes \<Rightarrow> nat" where
  "depthOf inp n = (THE d. \<exists>base. sitsOn (bs_Config inp) (existsRef inp) n base d)"

lemma depthOf_eq: "sitsOn (bs_Config inp) (existsRef inp) n base d \<Longrightarrow> depthOf inp n = d"
  unfolding depthOf_def by (rule the_equality) (auto dest: sitsOn_unique)

lemma candidates_iff:
  "name \<in> set (candidates inp) \<longleftrightarrow> name \<in> fst ` set (bs_LocalRefs inp) \<and> parentOf (bs_Config inp) name \<noteq> []"
  by (auto simp: candidates_def)

lemma candidates_distinct: "distinct (map fst (bs_LocalRefs inp)) \<Longrightarrow> distinct (candidates inp)"
  by (simp add: candidates_def)

lemma members_depth:
  assumes "childIn (bs_Config inp) (membersOf inp base) n c"
  shows "depthOf inp c = Suc (depthOf inp n)"
    and "sitsOn (bs_Config inp) (existsRef inp) n base (depthOf inp n)"
proof -
  let ?conf = "bs_Config inp" and ?ex = "existsRef inp"
  obtain d where d: "sitsOn ?conf ?ex c base d" and n: "parentOf ?conf c = n" "n \<noteq> []"
    using assms by (auto simp: childIn_def membersOf_def placedOn_def candidates_iff)
  have "\<exists>d'. d = Suc d' \<and> sitsOn ?conf ?ex n base d'"
    using d n by (cases "parentOf ?conf n = []") (auto simp: sitsOn_root sitsOn_unstacked sitsOn_stacked)
  then show "depthOf inp c = Suc (depthOf inp n)" and "sitsOn ?conf ?ex n base (depthOf inp n)"
    using depthOf_eq [OF d] depthOf_eq by auto
qed

lemma members_limit: "m \<in> set (membersOf inp base) \<Longrightarrow> depthOf inp m \<le> MaxStackedBranches"
  by (auto simp: membersOf_def placedOn_def depthOf_eq)

lemma flatten_spec:
  assumes "distinct (map fst (bs_LocalRefs inp))"
  shows "\<exists>rows. flattenStack base (membersOf inp base) inp = Some rows \<and> distinct (map bk_Name rows) \<and>
           bk_Name ` set rows = {m. (childIn (bs_Config inp) (membersOf inp base))\<^sup>+\<^sup>+ base m} \<and>
           parentsFirst {(base, 0)} rows \<and> set rows \<subseteq> {buildStackedRow m d inp |m d. True}"
proof -
  let ?conf = "bs_Config inp" and ?ms = "membersOf inp base"
  let ?cs = "childrenOf ?conf ?ms base"
  have dist: "distinct ?ms" "distinct ?cs"
    using candidates_distinct [OF assms] by (simp_all add: membersOf_def childrenOf_def)
  have "\<exists>rows. visit MaxStackedBranches inp ?ms c 0 = Some rows \<and> subtreeRows inp ?ms c 0 rows" if "c \<in> set ?cs" for c
    using visit_spec [of inp ?ms "depthOf inp" c MaxStackedBranches 0, OF members_depth(1) members_limit dist(1)]
      members_depth(1) [of inp base base c] that
    by (simp add: childrenOf_iff childIn_def)
  then obtain g where g: "\<And>c. c \<in> set ?cs \<Longrightarrow>
      visit MaxStackedBranches inp ?ms c 0 = Some (g c) \<and> subtreeRows inp ?ms c 0 (g c)"
    by metis
  have "flattenStack base ?ms inp = Some (concat (map g ?cs))"
    unfolding flattenStack_def using g by (intro visitChildren_Some) blast
  moreover note sib = sibling_rows [of inp ?ms "depthOf inp" ?cs base 0 g, OF members_depth(1) dist(2)]
  have "distinct (map bk_Name (concat (map g ?cs)))" and
    names: "bk_Name ` set (concat (map g ?cs)) = (\<Union>c\<in>set ?cs. {m. (childIn ?conf ?ms)\<^sup>*\<^sup>* c m})"
    using sib g by (simp_all add: childrenOf_iff)
  moreover have "(\<Union>c\<in>set ?cs. {m. (childIn ?conf ?ms)\<^sup>*\<^sup>* c m}) = {m. (childIn ?conf ?ms)\<^sup>+\<^sup>+ base m}"
    unfolding childrenOf_iff [abs_def] by (auto simp: childrenOf_iff intro: rtranclp_into_tranclp2 dest!: tranclpD)
  moreover have "parentsFirst {(base, 0)} (concat (map g ?cs))"
    using g by (intro parentsFirst_concat) (auto simp: subtreeRows_def childrenOf_iff childIn_def)
  moreover have "set (concat (map g ?cs)) \<subseteq> {buildStackedRow m d inp |m d. True}"
    using g by (fastforce simp: subtreeRows_def)
  ultimately show ?thesis by auto
qed

text \<open>
  The tree below the base reaches every member when the walk's hops stay within the local
  branches; a stacked parent that exists as a remote-tracking ref only is a hop outside.
\<close>

definition localParents :: "BuildStacksInput \<Rightarrow> bool" where
  "localParents inp \<longleftrightarrow>
     (\<forall>name\<in>set (candidates inp). \<forall>p. hop (bs_Config inp) (existsRef inp) name p \<longrightarrow> p \<in> fst ` set (bs_LocalRefs inp))"

lemma all_members_reached:
  assumes "localParents inp" and "sitsOn (bs_Config inp) (existsRef inp) m base d"
    and "m \<in> set (candidates inp)" and "d \<le> MaxStackedBranches"
  shows "(childIn (bs_Config inp) (membersOf inp base))\<^sup>+\<^sup>+ base m"
  using assms(2-)
proof (induction rule: sitsOn.induct)
  case (unstacked b)
  then show ?case by (simp add: candidates_iff)
next
  case (root b p)
  then have "sitsOn (bs_Config inp) (existsRef inp) b p (Suc 0)" by (auto intro: sitsOn.root)
  then show ?case
    using root by (intro tranclp.r_into_trancl) (auto simp: childIn_def membersOf_def placedOn_def intro!: exI [of _ "Suc 0"])
next
  case (stacked b p base d)
  have "hop (bs_Config inp) (existsRef inp) b p"
    using stacked.hyps by (simp add: hop_def)
  then have "p \<in> fst ` set (bs_LocalRefs inp)"
    using assms(1) stacked.prems(1) unfolding localParents_def by blast
  then have "p \<in> set (candidates inp)"
    using stacked.hyps by (simp add: candidates_iff)
  then have "(childIn (bs_Config inp) (membersOf inp base))\<^sup>+\<^sup>+ base p"
    using stacked by simp
  moreover have "sitsOn (bs_Config inp) (existsRef inp) b base (Suc d)"
    using stacked.hyps by (auto intro: sitsOn.stacked)
  then have "childIn (bs_Config inp) (membersOf inp base) p b"
    using stacked.hyps stacked.prems by (auto simp: childIn_def membersOf_def placedOn_def)
  ultimately show ?case by (rule tranclp.trancl_into_trancl)
qed

lemma reached_members: "(childIn conf ms)\<^sup>+\<^sup>+ base m \<Longrightarrow> m \<in> set ms"
  by (induction rule: tranclp_induct) (simp_all add: childIn_def)

section \<open>The whole result\<close>

lemma sitsOn_base: "sitsOn conf ex b base d \<Longrightarrow> parentOf conf base = []"
  by (induction rule: sitsOn.induct) simp_all

lemma rows_depth:
  assumes "parentsFirst seen rows" and "\<forall>(n, k)\<in>seen. sitsOn conf ex n base k"
    and "\<And>r. r \<in> set rows \<Longrightarrow> bk_Parent r = parentOf conf (bk_Name r) \<and> parentOf conf (bk_Name r) \<noteq> [] \<and> ex (bk_Parent r)"
  shows "r \<in> set rows \<Longrightarrow> sitsOn conf ex (bk_Name r) base (Suc (bk_Depth r))"
  using assms
proof (induction rows arbitrary: seen)
  case (Cons x rows)
  have x: "bk_Parent x = parentOf conf (bk_Name x)" "bk_Parent x \<noteq> []" "ex (bk_Parent x)"
    using Cons.prems(4) [of x] by auto
  have p: "sitsOn conf ex (bk_Parent x) base (bk_Depth x)"
    using Cons.prems(2,3) by auto
  have sx: "sitsOn conf ex (bk_Name x) base (Suc (bk_Depth x))"
  proof (cases "parentOf conf (bk_Parent x) = []")
    case True
    then show ?thesis using p x sitsOn.root [of conf "bk_Name x" "bk_Parent x" ex] by (simp add: sitsOn_unstacked)
  next
    case False
    then show ?thesis using p x sitsOn.stacked [of conf "bk_Name x" "bk_Parent x" ex] by simp
  qed
  show ?case
  proof (cases "r = x")
    case False
    then have "r \<in> set rows" using Cons.prems(1) by simp
    then show ?thesis
    proof (rule Cons.IH)
      show "parentsFirst (insert (bk_Name x, Suc (bk_Depth x)) seen) rows"
        using Cons.prems(2) by simp
      show "\<forall>(n, k)\<in>insert (bk_Name x, Suc (bk_Depth x)) seen. sitsOn conf ex n base k"
        using Cons.prems(3) sx by auto
    qed (use Cons.prems(4) in fastforce)
  qed (simp add: sx)
qed simp

text \<open>What is promised of one stack of the result.\<close>

definition stackRight :: "BuildStacksInput \<Rightarrow> StackSummary \<Rightarrow> bool" where
  "stackRight inp s \<longleftrightarrow>
     distinct (map bk_Name (ks_Branches s)) \<and> parentsFirst {(ks_Base s, 0)} (ks_Branches s) \<and>
     (\<forall>b\<in>set (ks_Branches s).
        bk_Name b \<in> set (candidates inp) \<and> bk_Parent b = parentOf (bs_Config inp) (bk_Name b) \<and>
        sitsOn (bs_Config inp) (existsRef inp) (bk_Name b) (ks_Base s) (Suc (bk_Depth b)) \<and>
        (bk_State b = StackNeedsRestack \<longleftrightarrow> 0 < bk_Behind b)) \<and>
     (ks_NeedsRestack s \<longleftrightarrow> (\<exists>b\<in>set (ks_Branches s). bk_State b = StackNeedsRestack))"

lemma stackOf_spec:
  assumes "distinct (map fst (bs_LocalRefs inp))" and "groupMembers groups base = membersOf inp base"
    and "\<exists>name\<in>set (candidates inp). placedOn inp base name"
  shows "\<exists>s. stackOf inp groups base = Some [s] \<and> ks_Base s = base \<and> stackRight inp s \<and>
           bk_Name ` set (ks_Branches s) = {m. (childIn (bs_Config inp) (membersOf inp base))\<^sup>+\<^sup>+ base m}"
proof -
  let ?conf = "bs_Config inp" and ?ex = "existsRef inp" and ?ms = "membersOf inp base"
  obtain rows where rows: "flattenStack base ?ms inp = Some rows" "distinct (map bk_Name rows)"
      "bk_Name ` set rows = {m. (childIn ?conf ?ms)\<^sup>+\<^sup>+ base m}" "parentsFirst {(base, 0)} rows"
      "set rows \<subseteq> {buildStackedRow m d inp |m d. True}"
    using flatten_spec [OF assms(1)] by blast
  have "parentOf ?conf base = []"
    using assms(3) by (auto simp: placedOn_def dest: sitsOn_base)
  then have base0: "sitsOn ?conf ?ex base base 0"
    by (rule sitsOn.unstacked)
  have row: "bk_Parent r = parentOf ?conf (bk_Name r)" "bk_State r = StackNeedsRestack \<longleftrightarrow> 0 < bk_Behind r"
    if r: "r \<in> set rows" for r
  proof -
    from r rows(5) obtain m d where "r = buildStackedRow m d inp" by blast
    then show "bk_Parent r = parentOf ?conf (bk_Name r)" "bk_State r = StackNeedsRestack \<longleftrightarrow> 0 < bk_Behind r"
      by (simp_all add: buildStackedRow_def Let_def)
  qed
  have mem: "bk_Name r \<in> set ?ms" if "r \<in> set rows" for r
    using that rows(3) reached_members by blast
  have up: "parentOf ?conf m \<noteq> [] \<and> ?ex (parentOf ?conf m)" if "m \<in> set ?ms" for m
    using that by (auto simp: membersOf_def placedOn_def candidates_iff elim: sitsOn_cases)
  have depth: "sitsOn ?conf ?ex (bk_Name r) base (Suc (bk_Depth r))" if "r \<in> set rows" for r
    using rows_depth [OF rows(4), of ?conf ?ex base r] base0 row up mem that by simp
  define s where "s = \<lparr>ks_Base = base, ks_BaseTip = bs_BaseTips inp base, ks_Branches = rows,
      ks_NeedsRestack = list_ex (\<lambda>b. bk_State b = StackNeedsRestack) rows\<rparr>"
  have "stackOf inp groups base = Some [s]"
    using rows(1) assms(2) by (simp add: stackOf_def s_def groupMembers_def)
  moreover have "stackRight inp s"
    using rows(2,4) row mem depth
    by (auto simp: stackRight_def s_def membersOf_def list_ex_iff)
  ultimately show ?thesis using rows(3) by (auto simp: s_def)
qed

lemma BuildStacks_spec:
  assumes "distinct (map fst (bs_LocalRefs inp))"
  shows "\<exists>res. BuildStacks inp = Some res \<and> sorted (map ks_Base (kl_Stacks res)) \<and>
           distinct (map ks_Base (kl_Stacks res)) \<and>
           set (map ks_Base (kl_Stacks res)) = {base. \<exists>name\<in>set (candidates inp). placedOn inp base name} \<and>
           (\<forall>s\<in>set (kl_Stacks res). stackRight inp s \<and>
              bk_Name ` set (ks_Branches s) = {m. (childIn (bs_Config inp) (membersOf inp (ks_Base s)))\<^sup>+\<^sup>+ (ks_Base s) m}) \<and>
           map bk_Name (kl_Orphans res) = filter (\<lambda>name. \<not> placed inp name) (candidates inp)"
proof -
  let ?conf = "bs_Config inp"
  obtain groups orphans where g: "baseGroupLoop inp (\<lambda>_. None) [] [] (candidates inp) = (groups, orphans)"
    by fastforce
  have "memoRight ?conf (existsRef inp) (\<lambda>_. None)" and "underWay (\<lambda>_. None) = {}"
    by (simp_all add: memoRight_def underWay_def memoRank_def)
  from baseGroupLoop_spec [OF this, of "[]" "[]" "candidates inp"]
  have spec: "orphans = map (\<lambda>name. buildOrphanRow name (parentOf ?conf name) inp) (filter (\<lambda>name. \<not> placed inp name) (candidates inp))"
      "\<And>base. groupMembers groups base = membersOf inp base" "distinct (map fst groups)"
      "set (map fst groups) = {base. \<exists>name\<in>set (candidates inp). placedOn inp base name}"
    by (simp_all add: g groupMembers_def membersOf_def)
  have "\<exists>s. stackOf inp groups base = Some [s] \<and> ks_Base s = base \<and> stackRight inp s \<and>
      bk_Name ` set (ks_Branches s) = {m. (childIn ?conf (membersOf inp base))\<^sup>+\<^sup>+ base m}"
    if "base \<in> set (map fst groups)" for base
    using that spec(4) by (intro stackOf_spec [OF assms spec(2)]) auto
  then obtain sof where sof: "\<And>base. base \<in> set (map fst groups) \<Longrightarrow> stackOf inp groups base = Some [sof base] \<and>
      ks_Base (sof base) = base \<and> stackRight inp (sof base) \<and>
      bk_Name ` set (ks_Branches (sof base)) = {m. (childIn ?conf (membersOf inp base))\<^sup>+\<^sup>+ base m}"
    by metis
  let ?bases = "sort (map fst groups)"
  have "visitChildren (stackOf inp groups) (sortedStrings (map fst groups)) = Some (concat (map (\<lambda>b. [sof b]) ?bases))"
    unfolding sortedStrings_sort using sof by (intro visitChildren_Some) simp
  moreover define res where "res = \<lparr>kl_Stacks = map sof ?bases, kl_Orphans = orphans\<rparr>"
  ultimately have "BuildStacks inp = Some res"
    by (simp add: BuildStacks_def g)
  moreover have bases: "map ks_Base (kl_Stacks res) = ?bases"
    using sof by (auto simp: res_def intro!: map_idI)
  moreover have "map bk_Name (kl_Orphans res) = filter (\<lambda>name. \<not> placed inp name) (candidates inp)"
    by (simp add: res_def spec(1) comp_def buildOrphanRow_def Let_def)
  moreover have "stackRight inp s \<and>
      bk_Name ` set (ks_Branches s) = {m. (childIn ?conf (membersOf inp (ks_Base s)))\<^sup>+\<^sup>+ (ks_Base s) m}"
    if "s \<in> set (kl_Stacks res)" for s
  proof -
    from that obtain base where "s = sof base" "base \<in> set (map fst groups)"
      by (auto simp: res_def)
    then show ?thesis using sof [of base] by simp
  qed
  ultimately show ?thesis
    using spec(3,4) by (intro exI [of _ res] conjI ballI) simp_all
qed

end
