(* ===== verification/Restack.thy ===== *)
theory Restack
  imports Stack Classifier
begin

text \<open>
  Properties of \<^verbatim>\<open>gitpreflight/stack.go\<close>: the forest \<^verbatim>\<open>BuildStacks\<close> returns, the cycles
  \<^verbatim>\<open>DetectCycleFrom\<close> finds, and the plan \<^verbatim>\<open>ClassifyRestack\<close> makes for a stack of that forest.
\<close>

section \<open>Every branch is listed\<close>

definition listedNames :: "StackListResult \<Rightarrow> bytes list" where
  "listedNames res = concat (map (\<lambda>s. map bk_Name (ks_Branches s)) (kl_Stacks res)) @ map bk_Name (kl_Orphans res)"

lemma stack_names_placed:
  assumes "stackRight inp s" and "b \<in> set (ks_Branches s)"
    and "bk_Name ` set (ks_Branches s) = {m. (childIn (bs_Config inp) (membersOf inp (ks_Base s)))\<^sup>+\<^sup>+ (ks_Base s) m}"
  shows "placedOn inp (ks_Base s) (bk_Name b)"
  using assms reached_members [of "bs_Config inp" "membersOf inp (ks_Base s)" "ks_Base s" "bk_Name b"]
  by (auto simp: membersOf_def)

lemma distinct_concat_stacks:
  assumes "distinct (map ks_Base ss)" and "\<And>s. s \<in> set ss \<Longrightarrow> distinct (map bk_Name (ks_Branches s))"
    and "\<And>s b. s \<in> set ss \<Longrightarrow> b \<in> set (ks_Branches s) \<Longrightarrow> placedOn inp (ks_Base s) (bk_Name b)"
  shows "distinct (concat (map (\<lambda>s. map bk_Name (ks_Branches s)) ss))"
  using assms
proof (induction ss)
  case (Cons s ss)
  have "bk_Name b \<noteq> bk_Name b'" if "b \<in> set (ks_Branches s)" "s' \<in> set ss" "b' \<in> set (ks_Branches s')" for b s' b'
  proof -
    have "ks_Base s \<noteq> ks_Base s'" using Cons.prems(1) that(2) by auto
    moreover have "placedOn inp (ks_Base s) (bk_Name b)" "placedOn inp (ks_Base s') (bk_Name b')"
      using Cons.prems(3) that by auto
    ultimately show ?thesis using placedOn_unique by metis
  qed
  moreover have "distinct (concat (map (\<lambda>s. map bk_Name (ks_Branches s)) ss))"
    using Cons by auto
  ultimately show ?case using Cons.prems(2) by fastforce
qed simp

lemma listed_distinct:
  assumes "distinct (map fst (bs_LocalRefs inp))" and "BuildStacks inp = Some res"
  shows "distinct (listedNames res)" and "set (listedNames res) \<subseteq> set (candidates inp)"
proof -
  from BuildStacks_spec [OF assms(1)] assms(2)
  have d: "distinct (map ks_Base (kl_Stacks res))"
    and s: "\<And>s. s \<in> set (kl_Stacks res) \<Longrightarrow> stackRight inp s \<and>
        bk_Name ` set (ks_Branches s) = {m. (childIn (bs_Config inp) (membersOf inp (ks_Base s)))\<^sup>+\<^sup>+ (ks_Base s) m}"
    and o: "map bk_Name (kl_Orphans res) = filter (\<lambda>name. \<not> placed inp name) (candidates inp)"
    by auto
  have pl: "placedOn inp (ks_Base s) (bk_Name b)" if "s \<in> set (kl_Stacks res)" "b \<in> set (ks_Branches s)" for s b
    using stack_names_placed s that by blast
  have "distinct (concat (map (\<lambda>s. map bk_Name (ks_Branches s)) (kl_Stacks res)))"
    using s pl by (intro distinct_concat_stacks [OF d]) (auto simp: stackRight_def)
  moreover have "distinct (map bk_Name (kl_Orphans res))"
    unfolding o using candidates_distinct [OF assms(1)] by simp
  moreover have "set (concat (map (\<lambda>s. map bk_Name (ks_Branches s)) (kl_Stacks res))) \<inter> set (map bk_Name (kl_Orphans res)) = {}"
    unfolding o using pl by (auto simp: placed_def)
  ultimately show "distinct (listedNames res)"
    unfolding listedNames_def distinct_append by blast
  have "bk_Name b \<in> set (candidates inp)" if "s \<in> set (kl_Stacks res)" "b \<in> set (ks_Branches s)" for s b
    using s [OF that(1)] that(2) unfolding stackRight_def by blast
  then have "set (concat (map (\<lambda>s. map bk_Name (ks_Branches s)) (kl_Stacks res))) \<subseteq> set (candidates inp)"
    by auto
  then show "set (listedNames res) \<subseteq> set (candidates inp)"
    using arg_cong [OF o, of set] by (auto simp: listedNames_def)
qed

lemma listed_complete:
  assumes "distinct (map fst (bs_LocalRefs inp))" and "localParents inp" and "BuildStacks inp = Some res"
  shows "set (candidates inp) \<subseteq> set (listedNames res)"
proof
  fix m assume m: "m \<in> set (candidates inp)"
  from BuildStacks_spec [OF assms(1)] assms(3)
  have bases: "set (map ks_Base (kl_Stacks res)) = {base. \<exists>name\<in>set (candidates inp). placedOn inp base name}"
    and s: "\<And>s. s \<in> set (kl_Stacks res) \<Longrightarrow>
        bk_Name ` set (ks_Branches s) = {m. (childIn (bs_Config inp) (membersOf inp (ks_Base s)))\<^sup>+\<^sup>+ (ks_Base s) m}"
    and o: "map bk_Name (kl_Orphans res) = filter (\<lambda>name. \<not> placed inp name) (candidates inp)"
    by auto
  show "m \<in> set (listedNames res)"
  proof (cases "placed inp m")
    case True
    then obtain base d where d: "sitsOn (bs_Config inp) (existsRef inp) m base d" "d \<le> MaxStackedBranches"
      by (auto simp: placed_def placedOn_def)
    then obtain st where st: "st \<in> set (kl_Stacks res)" "ks_Base st = base"
      using bases m by (auto simp: placedOn_def set_eq_iff) (metis imageE)
    then have "m \<in> bk_Name ` set (ks_Branches st)"
      using s [OF st(1)] all_members_reached [OF assms(2) d(1) m d(2)] by simp
    then show ?thesis using st(1) by (auto simp: listedNames_def)
  next
    case False
    then have "m \<in> set (map bk_Name (kl_Orphans res))" unfolding o using m by simp
    then show ?thesis by (simp add: listedNames_def)
  qed
qed

section \<open>The cascade\<close>

text \<open>A branch needs to move when it is stale or a branch below it in its stack is.\<close>

inductive cascades :: "StackBranch list \<Rightarrow> StackBranch \<Rightarrow> bool" for rows where
  stale: "bk_State b = StackNeedsRestack \<Longrightarrow> cascades rows b"
| above: "p \<in> set rows \<Longrightarrow> bk_Name p = bk_Parent b \<Longrightarrow> cascades rows p \<Longrightarrow> cascades rows b"

inductive_simps cascades_iff: "cascades rows b"

lemma planLoop_cascade:
  assumes "parentsFirst ({(base, 0)} \<union> (\<lambda>p. (bk_Name p, Suc (bk_Depth p))) ` set pre) suf"
    and "distinct (map bk_Name (pre @ suf))" and "base \<notin> bk_Name ` set (pre @ suf)"
    and "inPlan = bk_Name ` {p \<in> set pre. cascades (pre @ suf) p}"
  shows "map re_Branch (planLoop bases inPlan suf) = map bk_Name (filter (cascades (pre @ suf)) suf)"
  using assms
proof (induction suf arbitrary: pre inPlan)
  case (Cons b suf)
  let ?rows = "pre @ b # suf"
  have up: "bk_Parent b \<in> inPlan \<longleftrightarrow> (\<exists>p\<in>set ?rows. bk_Name p = bk_Parent b \<and> cascades ?rows p)"
  proof
    assume "\<exists>p\<in>set ?rows. bk_Name p = bk_Parent b \<and> cascades ?rows p"
    then obtain p where p: "p \<in> set ?rows" "bk_Name p = bk_Parent b" "cascades ?rows p" by blast
    then have "bk_Parent b \<noteq> base" using Cons.prems(3) by (metis imageI)
    then obtain q where q: "q \<in> set pre" "bk_Name q = bk_Parent b"
      using Cons.prems(1) by auto
    have "inj_on bk_Name (set ?rows)"
      using Cons.prems(2) unfolding distinct_map by blast
    then have "q = p"
      by (rule inj_onD) (use p q in auto)
    then show "bk_Parent b \<in> inPlan"
      unfolding Cons.prems(4) using p(3) q by (intro image_eqI [of _ _ q]) simp_all
  qed (use Cons.prems(4) in auto)
  have b: "cascades ?rows b \<longleftrightarrow> bk_State b = StackNeedsRestack \<or> bk_Parent b \<in> inPlan"
    unfolding up by (subst cascades_iff) blast
  have seen: "parentsFirst ({(base, 0)} \<union> (\<lambda>p. (bk_Name p, Suc (bk_Depth p))) ` set (pre @ [b])) suf"
  proof (rule parentsFirst_mono)
    show "parentsFirst (insert (bk_Name b, Suc (bk_Depth b)) ({(base, 0)} \<union> (\<lambda>p. (bk_Name p, Suc (bk_Depth p))) ` set pre)) suf"
      using Cons.prems(1) by simp
  qed auto
  have IH: "map re_Branch (planLoop bases (bk_Name ` {p \<in> set (pre @ [b]). cascades ?rows p}) suf) =
      map bk_Name (filter (cascades ?rows) suf)"
    using Cons.IH [OF seen] Cons.prems(2,3) by simp
  have "bk_Name ` {p \<in> set (pre @ [b]). cascades ?rows p} = (if cascades ?rows b then insert (bk_Name b) inPlan else inPlan)"
    using Cons.prems(4) by auto
  with IH show ?case by (auto simp: b Let_def)
qed simp

section \<open>Cycles\<close>

text \<open>The names of a cycle of recorded parents, in order.\<close>

definition isCycle :: "stack_config \<Rightarrow> bytes list \<Rightarrow> bool" where
  "isCycle conf cyc \<longleftrightarrow>
     cyc \<noteq> [] \<and> distinct cyc \<and>
     (\<forall>i<length cyc. cyc ! (Suc i mod length cyc) \<noteq> [] \<and> parentOf conf (cyc ! i) = cyc ! (Suc i mod length cyc))"

text \<open>The walk up from a branch, as the loop has it: distinct names, each the parent of the one before.\<close>

definition upWalk :: "stack_config \<Rightarrow> bytes list \<Rightarrow> bool" where
  "upWalk conf order \<longleftrightarrow>
     order \<noteq> [] \<and> distinct order \<and>
     (\<forall>i. Suc i < length order \<longrightarrow> order ! Suc i \<noteq> [] \<and> parentOf conf (order ! i) = order ! Suc i)"

lemma upWalk_snoc:
  assumes "upWalk conf order" and "parentOf conf (last order) = p" and "p \<noteq> []" and "p \<notin> set order"
  shows "upWalk conf (order @ [p])"
proof -
  have "(order @ [p]) ! Suc i \<noteq> [] \<and> parentOf conf ((order @ [p]) ! i) = (order @ [p]) ! Suc i"
    if "Suc i < length (order @ [p])" for i
  proof (cases "Suc i = length order")
    case True
    moreover from this have "last order = order ! i"
      by (metis diff_Suc_1 last_conv_nth length_greater_0_conv zero_less_Suc)
    ultimately show ?thesis using assms(2,3) by (simp add: nth_append)
  next
    case False
    then have "Suc i < length order" using that by simp
    then have "order ! Suc i \<noteq> [] \<and> parentOf conf (order ! i) = order ! Suc i"
      using assms(1) unfolding upWalk_def by blast
    then show ?thesis using \<open>Suc i < length order\<close> by (metis Suc_lessD nth_append)
  qed
  then show ?thesis using assms by (simp add: upWalk_def)
qed

lemma upWalk_cycle:
  assumes "upWalk conf order" and "parentOf conf (last order) = p" and "p \<noteq> []" and "p \<in> set order"
  shows "isCycle conf (dropWhile (\<lambda>x. x \<noteq> p) order)"
proof -
  obtain ys zs where o: "order = ys @ p # zs" "p \<notin> set ys"
    using assms(4) by (metis split_list_first)
  let ?c = "p # zs"
  have "dropWhile (\<lambda>x. x \<noteq> p) order = ?c"
    using o by (auto simp: dropWhile_append)
  moreover have "?c ! (Suc i mod length ?c) \<noteq> [] \<and> parentOf conf (?c ! i) = ?c ! (Suc i mod length ?c)" if "i < length ?c" for i
  proof (cases "Suc i = length ?c")
    case True
    then have "?c ! i = last order"
      using o by (simp add: last_conv_nth nth_append)
    then show ?thesis using True assms(2,3) by simp
  next
    case False
    then have "Suc (length ys + i) < length order" using that o by simp
    then have "order ! Suc (length ys + i) \<noteq> [] \<and>
        parentOf conf (order ! (length ys + i)) = order ! Suc (length ys + i)"
      using assms(1) unfolding upWalk_def by blast
    moreover have "order ! (length ys + i) = ?c ! i" "order ! Suc (length ys + i) = ?c ! Suc i"
      using o by (simp_all add: nth_append)
    moreover have "Suc i mod length ?c = Suc i"
      using False that by simp
    ultimately show ?thesis by simp
  qed
  moreover have "distinct ?c" using assms(1) o by (simp add: upWalk_def)
  ultimately show ?thesis by (simp add: isCycle_def)
qed

lemma upWalk_closed:
  assumes "upWalk conf order" and "parentOf conf (last order) \<noteq> []" and "x \<in> set order"
  shows "parentOf conf x \<noteq> [] \<and> (x = last order \<or> parentOf conf x \<in> set order)"
proof -
  obtain i where i: "i < length order" "order ! i = x"
    using assms(3) by (metis in_set_conv_nth)
  show ?thesis
  proof (cases "Suc i < length order")
    case True
    then show ?thesis using assms(1) i unfolding upWalk_def by (metis nth_mem)
  next
    case False
    then have "i = length order - 1" using i(1) by simp
    then have "x = last order" using i by (metis last_conv_nth length_pos_if_in_set nth_mem length_greater_0_conv)
    then show ?thesis using assms(2) by simp
  qed
qed

lemma cycleLoop_Some:
  assumes "upWalk conf order" and "last order = current" and "cycleLoop n conf order current = Some cyc"
  shows "isCycle conf cyc \<and> (\<exists>S. set order \<subseteq> S \<and> set cyc \<subseteq> S \<and> (\<forall>x\<in>S. parentOf conf x \<noteq> [] \<and> parentOf conf x \<in> S))"
  using assms
proof (induction n conf order current rule: cycleLoop.induct)
  case (2 i conf order current)
  then obtain entry where e: "map_of conf current = Some entry" "ce_Parent entry \<noteq> []"
    by (auto split: option.splits if_splits)
  then have p: "parentOf conf current = ce_Parent entry" by (simp add: parentOf_def)
  show ?case
  proof (cases "ce_Parent entry \<in> set order")
    case True
    then have cyc: "cyc = dropWhile (\<lambda>x. x \<noteq> ce_Parent entry) order"
      using "2.prems"(3) e by simp
    moreover have "parentOf conf x \<noteq> [] \<and> parentOf conf x \<in> set order" if "x \<in> set order" for x
      using upWalk_closed [OF "2.prems"(1) _ that] "2.prems"(2) p e(2) True by auto
    ultimately show ?thesis
      using upWalk_cycle [OF "2.prems"(1), of "ce_Parent entry"] "2.prems"(2) p e(2) True
      by (auto dest: set_dropWhileD intro!: exI [of _ "set order"])
  next
    case False
    have "upWalk conf (order @ [ce_Parent entry])"
      using upWalk_snoc [OF "2.prems"(1) _ e(2) False] "2.prems"(2) p by simp
    then show ?thesis using "2.IH" [OF e(1) e(2) False] "2.prems"(3) e False by auto
  qed
qed simp

lemma cycleLoop_None:
  assumes "upWalk conf order" and "last order = current" and "cycleLoop n conf order current = None"
    and "\<And>k. parentOf conf ((parentOf conf ^^ k) current) \<noteq> []"
  shows "\<exists>order'. upWalk conf order' \<and> length order' = length order + n \<and> parentOf conf (last order') \<noteq> []"
  using assms
proof (induction n conf order current rule: cycleLoop.induct)
  case (1 conf order current)
  then show ?case using "1.prems"(4) [of 0] by auto
next
  case (2 i conf order current)
  have np: "parentOf conf current \<noteq> []" using "2.prems"(4) [of 0] by simp
  then obtain entry where e: "map_of conf current = Some entry" "ce_Parent entry \<noteq> []" "parentOf conf current = ce_Parent entry"
    by (auto simp: parentOf_def split: option.splits)
  then have new: "ce_Parent entry \<notin> set order" and rest: "cycleLoop i conf (order @ [ce_Parent entry]) (ce_Parent entry) = None"
    using "2.prems"(3) by (auto split: if_splits)
  have "upWalk conf (order @ [ce_Parent entry])"
    using upWalk_snoc [OF "2.prems"(1) _ e(2) new] "2.prems"(2) e(3) by simp
  moreover have "parentOf conf ((parentOf conf ^^ k) (ce_Parent entry)) \<noteq> []" for k
    using "2.prems"(4) [of "Suc k"] e(3) by (simp add: funpow_swap1)
  ultimately show ?case using "2.IH" [OF e(1,2) new] rest by auto
qed

section \<open>Properties\<close>

definition demoRef :: StackRefInfo where
  "demoRef = \<lparr>lf_Tip = ''aa'', lf_CheckedOutIn = None, lf_Track = TrackNone, lf_IsHead = False, lf_HasUpstream = False\<rparr>"

text \<open>Two branches in a row on \<^verbatim>\<open>main\<close>, the lower one behind, and an orphan.\<close>

definition demoStacks :: BuildStacksInput where
  "demoStacks =
     \<lparr>bs_Config = [(''a'', \<lparr>ce_Branch = ''a'', ce_Parent = ''main'', ce_Base = []\<rparr>),
                   (''b'', \<lparr>ce_Branch = ''b'', ce_Parent = ''a'', ce_Base = []\<rparr>),
                   (''o'', \<lparr>ce_Branch = ''o'', ce_Parent = ''gone'', ce_Base = []\<rparr>)],
      bs_LocalRefs = [(''o'', demoRef), (''b'', demoRef), (''a'', demoRef), (''main'', demoRef)],
      bs_BaseTips = (\<lambda>_. None),
      bs_BehindAhead = [''a'' \<mapsto> \<lparr>lr_Behind = 2, lr_Ahead = 1\<rparr>]\<rparr>"

text \<open>
  C8: Building the stacks always ends, on cyclic configurations too.  The stacks come sorted by
  base, one per base; in each, every branch follows its parent one level deeper, sits on that
  base by its chain of existing recorded parents at exactly that depth, and is reported in need
  of a restack exactly when it is behind; no branch is listed twice, only stacked local branches
  are listed, and no orphan has a base within reach.
\<close>

theorem build_stacks_forest:
  assumes "distinct (map fst (bs_LocalRefs inp))"
  shows "\<exists>res. BuildStacks inp = Some res \<and> sorted (map ks_Base (kl_Stacks res)) \<and>
           distinct (map ks_Base (kl_Stacks res)) \<and> list_all (stackRight inp) (kl_Stacks res) \<and>
           distinct (listedNames res) \<and> set (listedNames res) \<subseteq> set (candidates inp) \<and>
           \<not> list_ex (\<lambda>b. placed inp (bk_Name b)) (kl_Orphans res)"
proof -
  obtain res where res: "BuildStacks inp = Some res" "sorted (map ks_Base (kl_Stacks res))"
      "distinct (map ks_Base (kl_Stacks res))" "\<forall>s\<in>set (kl_Stacks res). stackRight inp s"
      "map bk_Name (kl_Orphans res) = filter (\<lambda>name. \<not> placed inp name) (candidates inp)"
    using BuildStacks_spec [OF assms] by blast
  have "\<not> placed inp (bk_Name b)" if "b \<in> set (kl_Orphans res)" for b
    using that arg_cong [OF res(5), of set] by auto
  then show ?thesis
    using res listed_distinct [OF assms res(1)] by (auto simp: list_all_iff list_ex_iff)
qed

lemma build_stacks_forest_witness:
  "\<exists>res. BuildStacks demoStacks = Some res \<and> sorted (map ks_Base (kl_Stacks res)) \<and> distinct (listedNames res)"
  using build_stacks_forest [of demoStacks] by (auto simp: demoStacks_def)

lemma demo_local: "localParents demoStacks"
  by (auto simp: localParents_def candidates_iff demoStacks_def hop_def parentOf_def)

text \<open>
  No stacked branch is dropped: when the stacked parents the walk passes are local branches,
  the stacks and the orphans together list every local branch with a recorded parent exactly once.
\<close>

theorem build_stacks_lists_all:
  assumes "distinct (map fst (bs_LocalRefs inp))" and "localParents inp"
  shows "\<exists>res. BuildStacks inp = Some res \<and> mset (listedNames res) = mset (candidates inp)"
proof -
  obtain res where res: "BuildStacks inp = Some res"
    using BuildStacks_spec [OF assms(1)] by blast
  have "set (listedNames res) = set (candidates inp)"
    using listed_distinct(2) [OF assms(1) res] listed_complete [OF assms res] by blast
  then show ?thesis
    using res listed_distinct(1) [OF assms(1) res] candidates_distinct [OF assms(1)]
    by (auto simp: set_eq_iff_mset_eq_distinct)
qed

lemma demo_candidates: "mset (candidates demoStacks) = {#''o'', ''b'', ''a''#}"
  by (simp add: candidates_def demoStacks_def parentOf_def)

lemma build_stacks_lists_all_witness:
  "\<exists>res. BuildStacks demoStacks = Some res \<and> mset (listedNames res) = {#''o'', ''b'', ''a''#}"
  using build_stacks_lists_all [OF _ demo_local] demo_candidates by (simp add: demoStacks_def)

lemma findBranchStack_in:
  "findBranchStack ss target = Some (s, b) \<Longrightarrow> s \<in> set ss \<and> b \<in> set (ks_Branches s) \<and> bk_Name b = target"
  by (induction ss) (auto split: option.splits simp: find_Some_iff)

lemma restack_plan:
  "findBranchStack (qi_Stacks q) (qi_Target q) = Some (s, b) \<Longrightarrow>
   rk_Plan (ClassifyRestack q) = planLoop (qi_BranchBases q) {} (ks_Branches s) \<and> rk_Base (ClassifyRestack q) = ks_Base s"
  by (simp add: ClassifyRestack_def Let_def)

text \<open>
  For a target in a stack \<^verbatim>\<open>BuildStacks\<close> built, the restack plan is that whole stack's branches
  that are stale or sit above a stale one, each once, in the stack's order, so a parent is always
  restacked before its children; without an operation in progress, a worktree conflict or a dirty
  path to stop it, the verdict is a no-op exactly when nothing in the stack is stale.
\<close>

theorem restack_plan_cascades:
  assumes "distinct (map fst (bs_LocalRefs inp))" and "BuildStacks inp = Some res"
    and "qi_Stacks q = kl_Stacks res" and "findBranchStack (qi_Stacks q) (qi_Target q) = Some (s, b)"
  shows "map re_Branch (rk_Plan (ClassifyRestack q)) = map bk_Name (filter (cascades (ks_Branches s)) (ks_Branches s)) \<and>
         rk_Base (ClassifyRestack q) = ks_Base s \<and>
         (rk_Verdict (ClassifyRestack q) = RkNoop \<longleftrightarrow>
            rk_Blockers (ClassifyRestack q) = [] \<and> \<not> ks_NeedsRestack s)"
proof -
  have "s \<in> set (kl_Stacks res)"
    using findBranchStack_in [OF assms(4)] assms(3) by simp
  then have r: "stackRight inp s"
    using BuildStacks_spec [OF assms(1)] assms(2) by auto
  have "ks_Base s \<noteq> bk_Name b" if "b \<in> set (ks_Branches s)" for b
  proof -
    have "bk_Name b \<in> set (candidates inp)"
      and "sitsOn (bs_Config inp) (existsRef inp) (bk_Name b) (ks_Base s) (Suc (bk_Depth b))"
      using that r unfolding stackRight_def by blast+
    then show ?thesis using sitsOn_base candidates_iff by metis
  qed
  then have plan: "map re_Branch (rk_Plan (ClassifyRestack q)) = map bk_Name (filter (cascades (ks_Branches s)) (ks_Branches s))"
    using r planLoop_cascade [of "ks_Base s" "[]" "ks_Branches s" "{}" "qi_BranchBases q"] restack_plan [OF assms(4)]
    by (auto simp: stackRight_def)
  have "cascades rows b \<Longrightarrow> b \<in> set rows \<Longrightarrow> \<exists>x\<in>set rows. bk_State x = StackNeedsRestack" for rows b
    by (induction rule: cascades.induct) auto
  then have "filter (cascades (ks_Branches s)) (ks_Branches s) = [] \<longleftrightarrow> \<not> ks_NeedsRestack s"
    using r unfolding filter_empty_conv stackRight_def by (meson cascades.stale)
  then have "rk_Plan (ClassifyRestack q) = [] \<longleftrightarrow> \<not> ks_NeedsRestack s"
    using arg_cong [OF plan, of length] by auto
  moreover have "rk_Verdict (ClassifyRestack q) = RkNoop \<longleftrightarrow>
      rk_Blockers (ClassifyRestack q) = [] \<and> rk_Plan (ClassifyRestack q) = []"
    by (simp add: ClassifyRestack_def Let_def assms(4))
  ultimately show ?thesis using plan restack_plan [OF assms(4)] by simp
qed

text \<open>
  Cycle detection is exact on configurations of at most \<open>MaxStackedBranches\<close> branches: it reports
  none exactly when the parents recorded from the branch on end somewhere; and what it reports on
  any configuration is a cycle, each name once and followed by its recorded parent, that the
  branch leads into for ever.
\<close>

theorem detect_cycle_exact:
  assumes "card (fst ` set conf) \<le> MaxStackedBranches"
  shows "case DetectCycleFrom conf start of
           None \<Rightarrow> \<exists>k. parentOf conf ((parentOf conf ^^ k) start) = []
         | Some cyc \<Rightarrow> isCycle conf cyc \<and> (\<nexists>k. parentOf conf ((parentOf conf ^^ k) start) = [])"
proof (cases "DetectCycleFrom conf start")
  case None
  have w: "upWalk conf [start]" by (simp add: upWalk_def)
  show ?thesis
  proof (rule ccontr)
    assume "\<not> ?thesis"
    then have "\<And>k. parentOf conf ((parentOf conf ^^ k) start) \<noteq> []" using None by simp
    with cycleLoop_None [OF w, of start MaxStackedBranches] None obtain order' where
      o: "upWalk conf order'" "length order' = Suc MaxStackedBranches" "parentOf conf (last order') \<noteq> []"
      by (auto simp: DetectCycleFrom_def)
    have "set order' \<subseteq> fst ` set conf"
      using upWalk_closed [OF o(1,3)] parentOf_key by blast
    then have "card (set order') \<le> MaxStackedBranches"
      using assms card_mono [of "fst ` set conf" "set order'"] by simp
    then show False using o(1,2) by (simp add: upWalk_def distinct_card)
  qed
next
  case (Some cyc)
  have w: "upWalk conf [start]" by (simp add: upWalk_def)
  obtain S where c: "isCycle conf cyc" and S: "start \<in> S" "\<forall>x\<in>S. parentOf conf x \<noteq> [] \<and> parentOf conf x \<in> S"
    using cycleLoop_Some [OF w, of start MaxStackedBranches cyc] Some by (auto simp: DetectCycleFrom_def)
  have "(parentOf conf ^^ k) start \<in> S" for k
    using S by (induction k) auto
  then show ?thesis using Some c S(2) by auto
qed

lemma demo_cycle_conf:
  "card (fst ` set [(''a'', \<lparr>ce_Branch = ''a'', ce_Parent = ''b'', ce_Base = []\<rparr>),
                   (''b'', \<lparr>ce_Branch = ''b'', ce_Parent = ''a'', ce_Base = []\<rparr>)]) \<le> MaxStackedBranches"
  by (simp add: MaxStackedBranches_def)

lemma detect_cycle_exact_witness:
  "DetectCycleFrom [(''a'', \<lparr>ce_Branch = ''a'', ce_Parent = ''b'', ce_Base = []\<rparr>),
                    (''b'', \<lparr>ce_Branch = ''b'', ce_Parent = ''a'', ce_Base = []\<rparr>)] ''a'' = Some [''a'', ''b''] \<and>
   isCycle [(''a'', \<lparr>ce_Branch = ''a'', ce_Parent = ''b'', ce_Base = []\<rparr>),
            (''b'', \<lparr>ce_Branch = ''b'', ce_Parent = ''a'', ce_Base = []\<rparr>)] [''a'', ''b'']"
proof -
  have "DetectCycleFrom [(''a'', \<lparr>ce_Branch = ''a'', ce_Parent = ''b'', ce_Base = []\<rparr>),
                    (''b'', \<lparr>ce_Branch = ''b'', ce_Parent = ''a'', ce_Base = []\<rparr>)] ''a'' = Some [''a'', ''b'']"
    by (simp add: DetectCycleFrom_def MaxStackedBranches_def numeral_eq_Suc)
  then show ?thesis using detect_cycle_exact [OF demo_cycle_conf, of "''a''"] by simp
qed

lemma demo_result:
  "map_option (\<lambda>res. (map (\<lambda>s. (ks_Base s, map bk_Name (ks_Branches s))) (kl_Stacks res), map bk_Name (kl_Orphans res)))
     (BuildStacks demoStacks) = Some ([(''main'', [''a'', ''b''])], [''o''])"
  by code_simp

text \<open>The walk passes a stacked parent that is a remote-tracking ref only.\<close>

definition remoteParentStacks :: BuildStacksInput where
  "remoteParentStacks =
     \<lparr>bs_Config = [(''b'', \<lparr>ce_Branch = ''b'', ce_Parent = ''origin/a'', ce_Base = []\<rparr>),
                   (''origin/a'', \<lparr>ce_Branch = ''origin/a'', ce_Parent = ''main'', ce_Base = []\<rparr>)],
      bs_LocalRefs = [(''b'', demoRef), (''main'', demoRef)],
      bs_BaseTips = [''origin/a'' \<mapsto> ''cc'', ''main'' \<mapsto> ''aa''],
      bs_BehindAhead = (\<lambda>_. None)\<rparr>"

lemma remote_parent_drops_branch:
  "candidates remoteParentStacks = [''b''] \<and> map_option listedNames (BuildStacks remoteParentStacks) = Some []"
  by code_simp

definition demoRestack :: "StackSummary list \<Rightarrow> ClassifyRestackInput" where
  "demoRestack stacks =
     \<lparr>qi_Target = ''b'', qi_Stacks = stacks, qi_Orphans = [], qi_Config = bs_Config demoStacks, qi_InProgress = None,
      qi_CurrentHead = \<lparr>hr_Branch = ''b'', hr_Sha = []\<rparr>, qi_DirtyPaths = [], qi_CheckedOutElsewhere = (\<lambda>_. None),
      qi_BranchBases = (\<lambda>_. None), qi_HasUpstream = (\<lambda>_. False)\<rparr>"

lemma demo_plan:
  "map_option (\<lambda>res. map_option (\<lambda>(s, b). map bk_Name (filter (\<lambda>b. bk_State b = StackNeedsRestack) (ks_Branches s)))
       (findBranchStack (kl_Stacks res) ''b'')) (BuildStacks demoStacks) = Some (Some [''a''])"
  by code_simp

lemma restack_plan_cascades_witness:
  "\<exists>res. BuildStacks demoStacks = Some res \<and>
     rk_Plan (ClassifyRestack (demoRestack (kl_Stacks res))) \<noteq> [] \<and>
     rk_Verdict (ClassifyRestack (demoRestack (kl_Stacks res))) \<noteq> RkNoop"
proof -
  obtain res s b where res: "BuildStacks demoStacks = Some res" and f: "findBranchStack (kl_Stacks res) ''b'' = Some (s, b)"
    and stale: "map bk_Name (filter (\<lambda>b. bk_State b = StackNeedsRestack) (ks_Branches s)) = [''a'']"
    using demo_plan by auto
  let ?q = "demoRestack (kl_Stacks res)"
  have d: "distinct (map fst (bs_LocalRefs demoStacks))" by (simp add: demoStacks_def)
  have P: "map re_Branch (rk_Plan (ClassifyRestack ?q)) = map bk_Name (filter (cascades (ks_Branches s)) (ks_Branches s))"
    "rk_Verdict (ClassifyRestack ?q) = RkNoop \<longleftrightarrow> rk_Blockers (ClassifyRestack ?q) = [] \<and> \<not> ks_NeedsRestack s"
    using restack_plan_cascades [OF d res, of ?q s b] f by (auto simp: demoRestack_def)
  obtain x where x: "x \<in> set (ks_Branches s)" "bk_State x = StackNeedsRestack"
    using stale by (metis (mono_tags, lifting) filter_False list.distinct(1) list.simps(8))
  then have "filter (cascades (ks_Branches s)) (ks_Branches s) \<noteq> []"
    by (auto simp: filter_empty_conv intro: cascades.stale)
  then have "rk_Plan (ClassifyRestack ?q) \<noteq> []" using P(1) by auto
  moreover have "ks_NeedsRestack s"
    using x findBranchStack_in [OF f] BuildStacks_spec [OF d] res by (auto simp: stackRight_def)
  ultimately show ?thesis using res P(2) by blast
qed

section \<open>The configuration, printed and parsed\<close>

text \<open>
  What the code relies on of \<^verbatim>\<open>strings.ToLower\<close>: it maps text rune by rune, so ASCII text at
  either end is lowered byte by byte whatever stands between.
\<close>

definition lowersEnds :: "(bytes \<Rightarrow> bytes) \<Rightarrow> bool" where
  "lowersEnds uni \<longleftrightarrow>
     (\<forall>pre mid suf. list_all isASCII pre \<longrightarrow> list_all isASCII suf \<longrightarrow>
        (\<exists>mid'. ToLower uni (pre @ mid @ suf) = map asciiLower pre @ mid' @ map asciiLower suf))"

definition configRecord :: "bytes \<Rightarrow> bytes \<Rightarrow> bytes \<Rightarrow> bytes" where
  "configRecord sfx branch val = ''branch.'' @ branch @ sfx @ newline # val"

text \<open>The output of \<^verbatim>\<open>git config --null --get-regexp\<close> for a list of stacked branches.\<close>

definition configText :: "StackConfigEntry list \<Rightarrow> bytes" where
  "configText es =
     concat (map (\<lambda>e. configRecord stackParentSuffix (ce_Branch e) (ce_Parent e) @ [nul] @
                      configRecord stackBaseSuffix (ce_Branch e) (ce_Base e) @ [nul]) es)"

definition wfConfigEntry :: "StackConfigEntry \<Rightarrow> bool" where
  "wfConfigEntry e \<longleftrightarrow>
     ce_Branch e \<noteq> [] \<and> newline \<notin> set (ce_Branch e) \<and> nul \<notin> set (ce_Branch e) \<and>
     nul \<notin> set (ce_Parent e) \<and> nul \<notin> set (ce_Base e) \<and>
     TrimSpace (ce_Parent e) = ce_Parent e \<and> TrimSpace (ce_Base e) = ce_Base e"

lemma suffix_consts:
  "list_all isASCII stackParentSuffix" "list_all isASCII stackBaseSuffix" "list_all isASCII ''branch.''"
  "map asciiLower stackParentSuffix = stackParentSuffix" "map asciiLower stackBaseSuffix = stackBaseSuffix"
  "map asciiLower ''branch.'' = ''branch.''"
  "newline \<notin> set stackParentSuffix" "newline \<notin> set stackBaseSuffix" "newline \<notin> set ''branch.''"
  "nul \<notin> set stackParentSuffix" "nul \<notin> set stackBaseSuffix" "nul \<notin> set ''branch.''"
  by code_simp+

lemma key_split:
  assumes "lowersEnds uni" and "list_all isASCII suf" and "map asciiLower suf = suf"
  shows "\<exists>mid. ToLower uni (''branch.'' @ b @ suf) = ''branch.'' @ mid @ suf"
  using assms suffix_consts(3,6) unfolding lowersEnds_def by metis

lemma base_not_parent: "\<not> HasSuffix (m @ stackBaseSuffix) stackParentSuffix"
proof
  assume "HasSuffix (m @ stackBaseSuffix) stackParentSuffix"
  then have "HasSuffix ((m @ ''.kirastackbas'') @ [CHR ''e'']) stackParentSuffix"
    by (simp add: stackBaseSuffix_def)
  then have "last stackParentSuffix = CHR ''e''"
    by (rule HasSuffix_last) (simp add: stackParentSuffix_def)
  then show False by (simp add: stackParentSuffix_def)
qed

definition entryAt :: "stack_config \<Rightarrow> bytes \<Rightarrow> StackConfigEntry" where
  "entryAt conf b = (case map_of conf b of Some e \<Rightarrow> e | None \<Rightarrow> \<lparr>ce_Branch = [], ce_Parent = [], ce_Base = []\<rparr>)"

lemma stackRecord_parent:
  assumes "lowersEnds uni" and "b \<noteq> []" and "newline \<notin> set b"
  shows "stackRecord uni conf (configRecord stackParentSuffix b v) =
         Some (AList.update b ((entryAt conf b)\<lparr>ce_Branch := b, ce_Parent := TrimSpace v\<rparr>) conf)"
proof -
  let ?key = "''branch.'' @ b @ stackParentSuffix"
  obtain mid where low: "ToLower uni ?key = ''branch.'' @ mid @ stackParentSuffix"
    using key_split [OF assms(1)] suffix_consts by blast
  have ix: "IndexByte (?key @ newline # v) newline = Some (length ?key)"
    using assms(3) suffix_consts by (intro IndexByte_append) auto
  show ?thesis
    unfolding stackRecord_def configRecord_def using ix low assms(2)
    by (simp add: Let_def entryAt_def)
qed

lemma stackRecord_base:
  assumes "lowersEnds uni" and "b \<noteq> []" and "newline \<notin> set b"
  shows "stackRecord uni conf (configRecord stackBaseSuffix b v) =
         Some (AList.update b ((entryAt conf b)\<lparr>ce_Branch := b, ce_Base := TrimSpace v\<rparr>) conf)"
proof -
  let ?key = "''branch.'' @ b @ stackBaseSuffix"
  obtain mid where low: "ToLower uni ?key = ''branch.'' @ mid @ stackBaseSuffix"
    using key_split [OF assms(1)] suffix_consts by blast
  have ix: "IndexByte (?key @ newline # v) newline = Some (length ?key)"
    using assms(3) suffix_consts by (intro IndexByte_append) auto
  show ?thesis
    unfolding stackRecord_def configRecord_def using ix low assms(2)
    by (simp add: Let_def entryAt_def base_not_parent)
qed

lemma SplitByte_configText:
  assumes "list_all wfConfigEntry es"
  shows "SplitByte (configText es) nul =
         concat (map (\<lambda>e. [configRecord stackParentSuffix (ce_Branch e) (ce_Parent e),
                           configRecord stackBaseSuffix (ce_Branch e) (ce_Base e)]) es) @ [[]]"
  using assms
proof (induction es)
  case (Cons e es)
  have "nul \<notin> set (configRecord stackParentSuffix (ce_Branch e) (ce_Parent e))"
    and "nul \<notin> set (configRecord stackBaseSuffix (ce_Branch e) (ce_Base e))"
    using Cons.prems suffix_consts by (auto simp: configRecord_def wfConfigEntry_def)
  then show ?case
    using Cons by (simp add: configText_def SplitByte_append)
qed (simp add: configText_def)

lemma stackRecords_append:
  "stackRecords uni conf (xs @ ys) =
     (case stackRecords uni conf xs of None \<Rightarrow> None | Some conf' \<Rightarrow> stackRecords uni conf' ys)"
  by (induction xs arbitrary: conf) (auto split: option.splits)

lemma stackRecords_entries:
  assumes "lowersEnds uni" and "list_all wfConfigEntry es" and "distinct (map ce_Branch es)"
    and "\<And>e. e \<in> set es \<Longrightarrow> map_of conf (ce_Branch e) = None"
  shows "\<exists>conf'. stackRecords uni conf (concat (map (\<lambda>e. [configRecord stackParentSuffix (ce_Branch e) (ce_Parent e),
                           configRecord stackBaseSuffix (ce_Branch e) (ce_Base e)]) es)) = Some conf' \<and>
           map_of conf' = map_of conf ++ map_of (map (\<lambda>e. (ce_Branch e, e)) es)"
  using assms(2-)
proof (induction es arbitrary: conf)
  case (Cons e es)
  let ?b = "ce_Branch e"
  have e: "?b \<noteq> []" "newline \<notin> set ?b" "TrimSpace (ce_Parent e) = ce_Parent e" "TrimSpace (ce_Base e) = ce_Base e"
    using Cons.prems(1) by (auto simp: wfConfigEntry_def)
  have none: "map_of conf ?b = None" using Cons.prems(3) by simp
  let ?c1 = "AList.update ?b ((entryAt conf ?b)\<lparr>ce_Branch := ?b, ce_Parent := ce_Parent e\<rparr>) conf"
  let ?c2 = "AList.update ?b ((entryAt ?c1 ?b)\<lparr>ce_Branch := ?b, ce_Base := ce_Base e\<rparr>) ?c1"
  have two: "stackRecords uni conf (configRecord stackParentSuffix ?b (ce_Parent e) # configRecord stackBaseSuffix ?b (ce_Base e) # rest) =
      stackRecords uni ?c2 rest" for rest
    using stackRecord_parent [OF assms(1) e(1,2), of conf "ce_Parent e"] stackRecord_base [OF assms(1) e(1,2), of ?c1 "ce_Base e"] e(3,4)
    by simp
  have "(entryAt ?c1 ?b)\<lparr>ce_Branch := ?b, ce_Base := ce_Base e\<rparr> = e"
    using none by (simp add: entryAt_def AList.update_conv')
  then have c2: "map_of ?c2 = (map_of conf)(?b \<mapsto> e)"
    by (simp add: AList.update_conv')
  have "map_of ?c2 (ce_Branch e') = None" if "e' \<in> set es" for e'
  proof -
    have "ce_Branch e' \<noteq> ?b" using that Cons.prems(2) by (metis distinct.simps(2) image_eqI list.set_map list.simps(9))
    then show ?thesis using that Cons.prems(3) [of e'] unfolding c2 by simp
  qed
  from Cons.IH [OF _ _ this] Cons.prems(1,2)
  obtain conf' where s: "stackRecords uni ?c2 (concat (map (\<lambda>e. [configRecord stackParentSuffix (ce_Branch e) (ce_Parent e),
                           configRecord stackBaseSuffix (ce_Branch e) (ce_Base e)]) es)) = Some conf'"
      and m: "map_of conf' = map_of ?c2 ++ map_of (map (\<lambda>e. (ce_Branch e, e)) es)"
    by auto
  have "?b \<notin> dom (map_of (map (\<lambda>e. (ce_Branch e, e)) es))"
    using Cons.prems(2) by (auto dest!: map_of_SomeD)
  then have "map_of conf' = map_of conf ++ map_of (map (\<lambda>e. (ce_Branch e, e)) (e # es))"
    unfolding m c2 by (simp add: map_add_upd_left del: fun_upd_apply)
  moreover have "stackRecords uni conf (concat (map (\<lambda>e. [configRecord stackParentSuffix (ce_Branch e) (ce_Parent e),
                           configRecord stackBaseSuffix (ce_Branch e) (ce_Base e)]) (e # es))) = Some conf'"
    using two s by (simp only: list.map concat.simps append.simps)
  ultimately show ?case by blast
qed simp

text \<open>
  The stack configuration round-trips: for stacked branches with distinct non-empty names and
  trimmed values, with any bytes in the names but newline and NUL (dots and non-ASCII text included),
  parsing what git prints looks up every branch to its recorded parent
  and base and nothing else, and never slices out of range.
\<close>

theorem stack_config_roundtrip:
  assumes "lowersEnds uni" and "list_all wfConfigEntry es" and "distinct (map ce_Branch es)"
  shows "\<exists>conf. ParseStackConfig uni (configText es) = Some conf \<and>
           map_of conf = map_of (map (\<lambda>e. (ce_Branch e, e)) es)"
proof -
  obtain conf where "stackRecords uni [] (concat (map (\<lambda>e. [configRecord stackParentSuffix (ce_Branch e) (ce_Parent e),
                           configRecord stackBaseSuffix (ce_Branch e) (ce_Base e)]) es)) = Some conf"
      "map_of conf = map_of (map (\<lambda>e. (ce_Branch e, e)) es)"
    using stackRecords_entries [OF assms, of "[]"] by auto
  then show ?thesis
    by (simp add: ParseStackConfig_def SplitByte_configText [OF assms(2)] stackRecords_append stackRecord_def)
qed

lemma lowersEnds_bytewise: "lowersEnds (map asciiLower)"
  unfolding lowersEnds_def ToLower_def by (metis map_append)

lemma stack_config_roundtrip_witness:
  "\<exists>conf. ParseStackConfig (map asciiLower)
     (configText [\<lparr>ce_Branch = ''feat.x'', ce_Parent = ''main'', ce_Base = ''ab''\<rparr>]) = Some conf \<and>
     map_of conf = [''feat.x'' \<mapsto> \<lparr>ce_Branch = ''feat.x'', ce_Parent = ''main'', ce_Base = ''ab''\<rparr>]"
proof -
  have "TrimSpace ''main'' = ''main''" "TrimSpace ''ab'' = ''ab''"
    by (rule TrimSpace_plain; simp add: plainChar_def isASCII_def)+
  then have "list_all wfConfigEntry [\<lparr>ce_Branch = ''feat.x'', ce_Parent = ''main'', ce_Base = ''ab''\<rparr>]"
    by (simp add: wfConfigEntry_def)
  from stack_config_roundtrip [OF lowersEnds_bytewise this] show ?thesis by simp
qed

section \<open>The classifier contract\<close>

definition targetPlan :: "ClassifyRestackInput \<Rightarrow> RestackPlanEntry list" where
  "targetPlan q =
     (case findBranchStack (qi_Stacks q) (qi_Target q) of
        None \<Rightarrow> [] | Some (s, _) \<Rightarrow> planLoop (qi_BranchBases q) {} (ks_Branches s))"

definition restackChecks :: "(RestackBlockerKind \<times> (ClassifyRestackInput \<Rightarrow> bool)) list" where
  "restackChecks =
     (let unlisted = (\<lambda>q. findBranchStack (qi_Stacks q) (qi_Target q) = None);
          orphaned = (\<lambda>q. findOrphan (qi_Orphans q) (qi_Target q) \<noteq> None);
          cyclic = (\<lambda>q. DetectCycleFrom (qi_Config q) (qi_Target q) \<noteq> None)
      in [(RkInProgressOperation, \<lambda>q. qi_InProgress q \<noteq> None),
          (RkNotStacked, \<lambda>q. unlisted q \<and> \<not> orphaned q),
          (RkCycle, \<lambda>q. unlisted q \<and> orphaned q \<and> cyclic q),
          (RkParentMissing, \<lambda>q. unlisted q \<and> orphaned q \<and> \<not> cyclic q),
          (RkCheckedOutElsewhere, \<lambda>q. list_ex (\<lambda>e. qi_CheckedOutElsewhere q (re_Branch e) \<noteq> None) (targetPlan q)),
          (RkDirtyWorktree, \<lambda>q. qi_DirtyPaths q \<noteq> [] \<and> targetPlan q \<noteq> [])])"

lemma elsewhereBlocker_kinds:
  "map rb_Kind (elsewhereBlocker ew es) =
     (if list_ex (\<lambda>e. ew (re_Branch e) \<noteq> None) es then [RkCheckedOutElsewhere] else [])"
  by (induction es) (auto simp: restackBlocker_def split: option.splits)

lemma elsewhereBlocker_empty: "elsewhereBlocker ew es = [] \<longleftrightarrow> \<not> list_ex (\<lambda>e. \<exists>y. ew (re_Branch e) = Some y) es"
  by (induction es) (auto split: option.splits)

interpretation rk: classifier ClassifyRestack "\<lambda>r. map rb_Kind (rk_Blockers r)"
  "\<lambda>r. rk_Verdict r = RkBlocked" restackChecks
proof unfold_locales
  fix q
  show "map rb_Kind (rk_Blockers (ClassifyRestack q)) = map fst (filter (\<lambda>(k, c). c q) restackChecks)"
    by (cases "findBranchStack (qi_Stacks q) (qi_Target q)"; cases "findOrphan (qi_Orphans q) (qi_Target q)";
        cases "DetectCycleFrom (qi_Config q) (qi_Target q)"; cases "qi_InProgress q")
      (auto simp: ClassifyRestack_def Let_def restackChecks_def targetPlan_def elsewhereBlocker_kinds elsewhereBlocker_empty, simp_all add: restackBlocker_def)
  show "rk_Verdict (ClassifyRestack q) = RkBlocked \<longleftrightarrow> map rb_Kind (rk_Blockers (ClassifyRestack q)) \<noteq> []"
    by (simp add: ClassifyRestack_def Let_def split: prod.splits)
qed (simp add: restackChecks_def Let_def)

end
