(* ===== verification/ReviewBase.thy ===== *)
theory ReviewBase
  imports RefsParse
begin

text \<open>
  The base a branch is reviewed against: \<^verbatim>\<open>gitreview/resolve.go\<close>.  \<open>ResolveBase\<close> picks the base in
  three steps (the upstream when it names another branch, the default branch, nothing) over a snapshot of
  the refs, and lists the candidates the picker offers.  The code answers both from one pass over the
  same lookups; the theorems say how the two answers agree and that nothing outside the snapshot is ever
  offered.
\<close>

section \<open>Data\<close>

datatype Reason = ReasonUpstream | ReasonDefaultBranch | ReasonOverride | ReasonNone

record Candidate =
  cd_Ref :: bytes
  cd_Kind :: RefKind
  cd_Reason :: Reason

record BaseInput =
  bx_Branch :: RefRow
  bx_Branches :: "RefRow list"
  bx_RemoteBranches :: "RefRow list"
  bx_OriginHead :: bytes
  bx_Candidates :: "bytes list"

record BaseCore =
  bc_Base :: "bytes option"
  bc_Reason :: Reason
  bc_Candidates :: "Candidate list"

definition DefaultBaseCandidates :: "bytes list" where
  "DefaultBaseCandidates = [''main'', ''master'']"

section \<open>Operations\<close>

definition headsPrefix :: bytes where
  "headsPrefix = ''refs/heads/''"

definition remotesPrefix :: bytes where
  "remotesPrefix = ''refs/remotes/''"

text \<open>The code tests for a prefix with a length comparison that leaves the bare prefix itself alone.\<close>

definition underPrefix :: "bytes \<Rightarrow> bytes \<Rightarrow> bool" where
  "underPrefix s p \<longleftrightarrow> length s > length p \<and> take (length p) s = p"

fun afterSlash :: "bytes \<Rightarrow> bytes option" where
  "afterSlash [] = None"
| "afterSlash (c # cs) = (if c = CHR ''/'' then Some cs else afterSlash cs)"

definition bareUpstreamName :: "bytes \<Rightarrow> bytes" where
  "bareUpstreamName upstream =
     (if underPrefix upstream headsPrefix then drop (length headsPrefix) upstream
      else if underPrefix upstream remotesPrefix then
        (case afterSlash (drop (length remotesPrefix) upstream) of None \<Rightarrow> upstream | Some nm \<Rightarrow> nm)
      else upstream)"

definition upstreamRefShortName :: "bytes \<Rightarrow> bytes" where
  "upstreamRefShortName upstream =
     (if underPrefix upstream headsPrefix then drop (length headsPrefix) upstream
      else if underPrefix upstream remotesPrefix then drop (length remotesPrefix) upstream
      else upstream)"

fun findRow :: "RefRow list \<Rightarrow> bytes \<Rightarrow> RefRow option" where
  "findRow [] shortName = None"
| "findRow (r # rs) shortName = (if rr_ShortName r = shortName then Some r else findRow rs shortName)"

definition findRef :: "RefRow list \<Rightarrow> RefRow list \<Rightarrow> bytes \<Rightarrow> RefRow option" where
  "findRef branches remoteBranches shortName =
     (case findRow branches shortName of Some r \<Rightarrow> Some r | None \<Rightarrow> findRow remoteBranches shortName)"

fun firstCandidate :: "RefRow list \<Rightarrow> RefRow list \<Rightarrow> bytes list \<Rightarrow> bytes option" where
  "firstCandidate bs rs [] = None"
| "firstCandidate bs rs (c # cs) = (if findRef bs rs c \<noteq> None then Some c else firstCandidate bs rs cs)"

definition resolveBaseRef :: "BaseInput \<Rightarrow> bytes option \<times> Reason \<times> RefRow option" where
  "resolveBaseRef inp =
     (let upstreamRef =
            (case rr_Upstream (bx_Branch inp) of None \<Rightarrow> None
             | Some u \<Rightarrow> findRef (bx_Branches inp) (bx_RemoteBranches inp) (upstreamRefShortName u));
          upstreamBareName = (case rr_Upstream (bx_Branch inp) of None \<Rightarrow> [] | Some u \<Rightarrow> bareUpstreamName u);
          upstreamShort = (case rr_Upstream (bx_Branch inp) of None \<Rightarrow> [] | Some u \<Rightarrow> upstreamRefShortName u)
      in
      if upstreamRef \<noteq> None \<and> upstreamBareName \<noteq> rr_ShortName (bx_Branch inp)
      then (Some upstreamShort, ReasonUpstream, upstreamRef)
      else if bx_OriginHead inp \<noteq> [] \<and> findRef (bx_Branches inp) (bx_RemoteBranches inp) (bx_OriginHead inp) \<noteq> None
      then (Some (bx_OriginHead inp), ReasonDefaultBranch, upstreamRef)
      else
        case firstCandidate (bx_Branches inp) (bx_RemoteBranches inp) (bx_Candidates inp) of
          Some c \<Rightarrow> (Some c, ReasonDefaultBranch, upstreamRef)
        | None \<Rightarrow> (None, ReasonNone, upstreamRef))"

text \<open>\<open>pushCandidate\<close> is the closure \<^verbatim>\<open>push\<close> over the list and the set of names seen.\<close>

definition pushCandidate ::
  "bytes \<Rightarrow> RefKind \<Rightarrow> Reason \<Rightarrow> Candidate list \<times> bytes set \<Rightarrow> Candidate list \<times> bytes set" where
  "pushCandidate ref kind r acc =
     (case acc of (cands, seen) \<Rightarrow>
        if ref \<in> seen then (cands, seen)
        else (cands @ [\<lparr>cd_Ref = ref, cd_Kind = kind, cd_Reason = r\<rparr>], insert ref seen))"

fun pushExisting ::
  "RefRow list \<Rightarrow> RefRow list \<Rightarrow> bytes list \<Rightarrow> Candidate list \<times> bytes set \<Rightarrow> Candidate list \<times> bytes set" where
  "pushExisting bs rs [] acc = acc"
| "pushExisting bs rs (c # cs) acc =
     pushExisting bs rs cs
       (case findRef bs rs c of None \<Rightarrow> acc | Some r \<Rightarrow> pushCandidate c (rr_Kind r) ReasonDefaultBranch acc)"

fun pushHead :: "RefRow list \<Rightarrow> Candidate list \<times> bytes set \<Rightarrow> Candidate list \<times> bytes set" where
  "pushHead [] acc = acc"
| "pushHead (r # rs) acc =
     (if rr_IsHead r then pushCandidate (rr_ShortName r) (rr_Kind r) ReasonDefaultBranch acc else pushHead rs acc)"

definition collectCandidates :: "BaseInput \<Rightarrow> RefRow option \<Rightarrow> Candidate list" where
  "collectCandidates inp upstreamRef =
     (let acc0 = ([], {});
          acc1 = (case upstreamRef of None \<Rightarrow> acc0
                  | Some r \<Rightarrow> pushCandidate (rr_ShortName r) (rr_Kind r) ReasonUpstream acc0);
          acc2 = (if bx_OriginHead inp \<noteq> []
                  then pushExisting (bx_Branches inp) (bx_RemoteBranches inp) [bx_OriginHead inp] acc1 else acc1);
          acc3 = pushExisting (bx_Branches inp) (bx_RemoteBranches inp) (bx_Candidates inp) acc2
      in fst (pushHead (bx_Branches inp) acc3))"

definition ResolveBase :: "BaseInput \<Rightarrow> BaseCore" where
  "ResolveBase inp =
     (case resolveBaseRef inp of (base, reason, upstreamRef) \<Rightarrow>
        \<lparr>bc_Base = base, bc_Reason = reason, bc_Candidates = collectCandidates inp upstreamRef\<rparr>)"

section \<open>The documented order\<close>

text \<open>
  \<open>inSnapshot inp n\<close>: the snapshot has a branch or a remote branch named \<open>n\<close>.  The lists below spell out the order the
  comment of \<open>ResolveBase\<close> gives before duplicates are removed: the upstream, \<open>origin/HEAD\<close>, the
  configured candidates, the current branch, each only when it exists.
\<close>

definition inSnapshot :: "BaseInput \<Rightarrow> bytes \<Rightarrow> bool" where
  "inSnapshot inp n \<longleftrightarrow> n \<in> rr_ShortName ` (set (bx_Branches inp) \<union> set (bx_RemoteBranches inp))"

definition upstreamNames :: "BaseInput \<Rightarrow> bytes list" where
  "upstreamNames inp =
     filter (inSnapshot inp)
       (case rr_Upstream (bx_Branch inp) of None \<Rightarrow> [] | Some u \<Rightarrow> [upstreamRefShortName u])"

definition defaultNames :: "BaseInput \<Rightarrow> bytes list" where
  "defaultNames inp =
     filter (inSnapshot inp) ((if bx_OriginHead inp = [] then [] else [bx_OriginHead inp]) @ bx_Candidates inp)"

definition headNames :: "BaseInput \<Rightarrow> bytes list" where
  "headNames inp = map rr_ShortName (take 1 (filter rr_IsHead (bx_Branches inp)))"

definition namesAnother :: "BaseInput \<Rightarrow> bool" where
  "namesAnother inp \<longleftrightarrow>
     (case rr_Upstream (bx_Branch inp) of None \<Rightarrow> False
      | Some u \<Rightarrow> bareUpstreamName u \<noteq> rr_ShortName (bx_Branch inp))"

fun firstsOf :: "bytes set \<Rightarrow> bytes list \<Rightarrow> bytes list" where
  "firstsOf seen [] = []"
| "firstsOf seen (x # xs) = (if x \<in> seen then firstsOf seen xs else x # firstsOf (insert x seen) xs)"

section \<open>Lemmas\<close>

lemma findRow_None: "findRow rs n = None \<longleftrightarrow> n \<notin> rr_ShortName ` set rs"
  by (induction rs) auto

lemma findRow_Some: "findRow rs n = Some r \<Longrightarrow> r \<in> set rs \<and> rr_ShortName r = n"
  by (induction rs) (auto split: if_splits)

lemma findRef_None: "findRef (bx_Branches inp) (bx_RemoteBranches inp) n = None \<longleftrightarrow> \<not> inSnapshot inp n"
  by (auto simp: findRef_def inSnapshot_def findRow_None image_Un split: option.splits dest: findRow_Some)

lemma findRef_Some:
  "findRef bs rs n = Some r \<Longrightarrow> r \<in> set bs \<union> set rs \<and> rr_ShortName r = n"
  by (auto simp: findRef_def split: option.splits dest: findRow_Some)

lemma firstCandidate_eq:
  "firstCandidate (bx_Branches inp) (bx_RemoteBranches inp) cs =
     (case filter (inSnapshot inp) cs of [] \<Rightarrow> None | c # _ \<Rightarrow> Some c)"
  by (induction cs) (auto simp: findRef_None)

lemma firstsOf_set: "set (firstsOf seen xs) = set xs - seen"
  by (induction xs arbitrary: seen) auto

lemma firstsOf_distinct: "distinct (firstsOf seen xs)"
  by (induction xs arbitrary: seen) (auto simp: firstsOf_set)

lemma firstsOf_append: "firstsOf seen (xs @ ys) = firstsOf seen xs @ firstsOf (seen \<union> set xs) ys"
  by (induction xs arbitrary: seen) (auto simp: insert_absorb)

text \<open>
  The picker's invariant: an accumulator lists the names pushed so far, each at its first push and with
  the reason of that push, and only refs of the snapshot.
\<close>

definition reasonOf :: "BaseInput \<Rightarrow> bytes \<Rightarrow> Reason" where
  "reasonOf inp n = (if n \<in> set (upstreamNames inp) then ReasonUpstream else ReasonDefaultBranch)"

definition snapshotCandidates :: "BaseInput \<Rightarrow> Candidate set" where
  "snapshotCandidates inp =
     (\<lambda>r. \<lparr>cd_Ref = rr_ShortName r, cd_Kind = rr_Kind r, cd_Reason = reasonOf inp (rr_ShortName r)\<rparr>) `
       (set (bx_Branches inp) \<union> set (bx_RemoteBranches inp))"

definition pushed :: "BaseInput \<Rightarrow> bytes list \<Rightarrow> Candidate list \<times> bytes set \<Rightarrow> bool" where
  "pushed inp ns acc \<longleftrightarrow>
     map cd_Ref (fst acc) = firstsOf {} ns \<and> snd acc = set ns \<and> set (fst acc) \<subseteq> snapshotCandidates inp"

lemma pushed_push:
  assumes "pushed inp ns acc" and "r \<in> set (bx_Branches inp) \<union> set (bx_RemoteBranches inp)" and "rr_ShortName r = n"
    and "n \<notin> set ns \<Longrightarrow> why = reasonOf inp n"
  shows "pushed inp (ns @ [n]) (pushCandidate n (rr_Kind r) why acc)"
  using assms
  by (auto simp: pushed_def pushCandidate_def firstsOf_append snapshotCandidates_def split: prod.splits)

lemma pushed_existing:
  assumes "pushed inp ns acc" and "set (upstreamNames inp) \<subseteq> set ns"
  shows "pushed inp (ns @ filter (inSnapshot inp) cs) (pushExisting (bx_Branches inp) (bx_RemoteBranches inp) cs acc)"
  using assms
proof (induction cs arbitrary: ns acc)
  case (Cons c cs)
  show ?case
  proof (cases "findRef (bx_Branches inp) (bx_RemoteBranches inp) c")
    case None
    then have "\<not> inSnapshot inp c" using findRef_None by blast
    then show ?thesis using Cons None by simp
  next
    case (Some r)
    then have "pushed inp (ns @ [c]) (pushCandidate c (rr_Kind r) ReasonDefaultBranch acc)"
      using findRef_Some [OF Some] Cons.prems(2) by (intro pushed_push [OF Cons.prems(1)]) (auto simp: reasonOf_def)
    then have "pushed inp ((ns @ [c]) @ filter (inSnapshot inp) cs)
        (pushExisting (bx_Branches inp) (bx_RemoteBranches inp) cs (pushCandidate c (rr_Kind r) ReasonDefaultBranch acc))"
      by (rule Cons.IH) (use Cons.prems(2) in auto)
    moreover have "inSnapshot inp c" using Some findRef_None [of inp c] by auto
    ultimately show ?thesis using Some by simp
  qed
qed simp

lemma pushed_head:
  assumes "pushed inp ns acc" and "set (upstreamNames inp) \<subseteq> set ns" and "set rs \<subseteq> set (bx_Branches inp)"
  shows "pushed inp (ns @ map rr_ShortName (take 1 (filter rr_IsHead rs))) (pushHead rs acc)"
  using assms(3)
proof (induction rs)
  case (Cons r rs)
  have "pushed inp (ns @ [rr_ShortName r]) (pushCandidate (rr_ShortName r) (rr_Kind r) ReasonDefaultBranch acc)"
    by (rule pushed_push [OF assms(1)]) (use assms(2) Cons.prems in \<open>auto simp: reasonOf_def\<close>)
  then show ?case using Cons by simp
qed (simp add: assms(1))

lemma resolveBaseRef_upstream:
  "snd (snd (resolveBaseRef inp)) =
     (case rr_Upstream (bx_Branch inp) of None \<Rightarrow> None
      | Some u \<Rightarrow> findRef (bx_Branches inp) (bx_RemoteBranches inp) (upstreamRefShortName u))"
  by (simp add: resolveBaseRef_def Let_def split: option.split)

lemma upstreamNames_found:
  "upstreamNames inp =
     (case snd (snd (resolveBaseRef inp)) of None \<Rightarrow> [] | Some r \<Rightarrow> [rr_ShortName r])"
  using findRef_None [of inp]
  by (auto simp: upstreamNames_def resolveBaseRef_upstream split: option.splits dest: findRef_Some)

lemma upstream_in_snapshot:
  "snd (snd (resolveBaseRef inp)) = Some r \<Longrightarrow> r \<in> set (bx_Branches inp) \<union> set (bx_RemoteBranches inp)"
  by (auto simp: resolveBaseRef_upstream split: option.splits dest: findRef_Some)

lemma collectCandidates_pushed:
  "\<exists>seen. pushed inp (upstreamNames inp @ defaultNames inp @ headNames inp)
     (collectCandidates inp (snd (snd (resolveBaseRef inp))), seen)"
proof -
  let ?u = "snd (snd (resolveBaseRef inp))"
  define acc1 where "acc1 = (case ?u of None \<Rightarrow> ([], {})
    | Some r \<Rightarrow> pushCandidate (rr_ShortName r) (rr_Kind r) ReasonUpstream ([], {}))"
  have "pushed inp [] ([], {})" by (simp add: pushed_def)
  then have 1: "pushed inp (upstreamNames inp) acc1"
    using pushed_push [of inp "[]" "([], {})" _ _ ReasonUpstream] upstream_in_snapshot [of inp]
    by (auto simp: acc1_def upstreamNames_found reasonOf_def split: option.splits)
  define acc3 where "acc3 = pushExisting (bx_Branches inp) (bx_RemoteBranches inp)
    ((if bx_OriginHead inp = [] then [] else [bx_OriginHead inp]) @ bx_Candidates inp) acc1"
  have 3: "pushed inp (upstreamNames inp @ defaultNames inp) acc3"
    unfolding acc3_def defaultNames_def by (rule pushed_existing [OF 1]) simp
  have "collectCandidates inp ?u = fst (pushHead (bx_Branches inp) acc3)"
    by (simp add: collectCandidates_def acc3_def acc1_def Let_def cong: option.case_cong)
  then show ?thesis
    using pushed_head [OF 3, of "bx_Branches inp"] by (auto simp: headNames_def intro: exI [of _ "snd (pushHead (bx_Branches inp) acc3)"])
qed

lemma resolveBaseRef_eq:
  "(fst (resolveBaseRef inp), fst (snd (resolveBaseRef inp))) =
     (case (if namesAnother inp then upstreamNames inp else []) of
        u # _ \<Rightarrow> (Some u, ReasonUpstream)
      | [] \<Rightarrow> (case defaultNames inp of [] \<Rightarrow> (None, ReasonNone) | d # _ \<Rightarrow> (Some d, ReasonDefaultBranch)))"
  by (auto simp: resolveBaseRef_def Let_def namesAnother_def upstreamNames_def defaultNames_def findRef_None firstCandidate_eq
      split: option.splits list.splits if_splits)

section \<open>Properties\<close>

text \<open>
  C25: the base and the picker agree with the documented order.  The base is the upstream when it exists
  and names another branch, else the first existing one of \<^verbatim>\<open>origin/HEAD\<close> and the configured
  candidates, else none, and the reason says which.  The candidates are the existing refs of upstream,
  \<^verbatim>\<open>origin/HEAD\<close>, configured names and current branch in that order, each once, with the kind the snapshot
  gives it and the upstream's reason exactly on the upstream; the base is always one of them.
\<close>

theorem resolve_base_documented:
  "(bc_Base (ResolveBase inp), bc_Reason (ResolveBase inp)) =
      (case (if namesAnother inp then upstreamNames inp else []) of
         u # _ \<Rightarrow> (Some u, ReasonUpstream)
       | [] \<Rightarrow> (case defaultNames inp of [] \<Rightarrow> (None, ReasonNone) | d # _ \<Rightarrow> (Some d, ReasonDefaultBranch))) \<and>
   map cd_Ref (bc_Candidates (ResolveBase inp)) =
      firstsOf {} (upstreamNames inp @ defaultNames inp @ headNames inp) \<and>
   distinct (map cd_Ref (bc_Candidates (ResolveBase inp))) \<and>
   set (bc_Candidates (ResolveBase inp)) \<subseteq> snapshotCandidates inp \<and>
   set_option (bc_Base (ResolveBase inp)) \<subseteq> cd_Ref ` set (bc_Candidates (ResolveBase inp))"
proof -
  have eqs: "bc_Base (ResolveBase inp) = fst (resolveBaseRef inp)" "bc_Reason (ResolveBase inp) = fst (snd (resolveBaseRef inp))"
    "bc_Candidates (ResolveBase inp) = collectCandidates inp (snd (snd (resolveBaseRef inp)))"
    by (simp_all add: ResolveBase_def split: prod.splits)
  obtain seen where p: "pushed inp (upstreamNames inp @ defaultNames inp @ headNames inp)
      (collectCandidates inp (snd (snd (resolveBaseRef inp))), seen)"
    using collectCandidates_pushed by blast
  then have refs: "map cd_Ref (bc_Candidates (ResolveBase inp)) =
      firstsOf {} (upstreamNames inp @ defaultNames inp @ headNames inp)"
    by (simp add: pushed_def eqs)
  then have "cd_Ref ` set (bc_Candidates (ResolveBase inp)) =
      set (upstreamNames inp @ defaultNames inp @ headNames inp)"
    by (metis Diff_empty firstsOf_set list.set_map)
  moreover have "set_option (bc_Base (ResolveBase inp)) \<subseteq> set (upstreamNames inp @ defaultNames inp)"
    using resolveBaseRef_eq [of inp] by (auto simp: eqs split: list.splits if_splits)
  ultimately have "set_option (bc_Base (ResolveBase inp)) \<subseteq> cd_Ref ` set (bc_Candidates (ResolveBase inp))"
    by auto
  moreover have "set (bc_Candidates (ResolveBase inp)) \<subseteq> snapshotCandidates inp"
    using p by (simp add: pushed_def eqs)
  ultimately show ?thesis
    using refs resolveBaseRef_eq [of inp] firstsOf_distinct by (simp only: eqs(1,2) simp_thms)
qed

text \<open>A branch that tracks the branch of its own name on a remote is reviewed against the default branch.\<close>

lemma own_remote_is_no_base:
  assumes "rr_Upstream (bx_Branch inp) = Some (remotesPrefix @ remote @ ''/'' @ rr_ShortName (bx_Branch inp))"
    and "CHR ''/'' \<notin> set remote"
  shows "bc_Reason (ResolveBase inp) \<noteq> ReasonUpstream"
proof -
  have "afterSlash (remote @ CHR ''/'' # xs) = Some xs" for xs
    using assms(2) by (induction remote) auto
  then have "bareUpstreamName (remotesPrefix @ remote @ ''/'' @ rr_ShortName (bx_Branch inp)) = rr_ShortName (bx_Branch inp)"
    by (simp add: bareUpstreamName_def underPrefix_def headsPrefix_def remotesPrefix_def)
  then have "\<not> namesAnother inp" using assms(1) by (simp add: namesAnother_def)
  then show ?thesis
    using resolveBaseRef_eq [of inp] by (auto simp: ResolveBase_def split: list.splits prod.splits)
qed

end
