(* ===== verification/TableRef.thy ===== *)
theory TableRef
  imports Prelude
begin

text \<open>
  The per-connection table allow list of the database tools: \<^verbatim>\<open>tableref/tableref.go\<close>.  An entry names a
  table by as many parts as the database kind has levels; parts that hold a dot, a quote or surrounding
  space are quoted.  The allow list decides what an agent may read, so what matters is that printing and
  parsing an entry agree, that two different tables never share a key, and that a parsed list allows
  exactly the tables its entries name.

  A Go string is converted to runes before it is scanned, so names are lists of code points here (of
  valid UTF-8 text); the byte order \<^verbatim>\<open>sort.Strings\<close> uses is the code point order on such text.
\<close>

section \<open>Data\<close>

type_synonym rune = nat

type_synonym runes = "rune list"

abbreviation dquote :: rune where "dquote \<equiv> 34"

abbreviation dot :: rune where "dot \<equiv> 46"

record Ref =
  tf_Database :: runes
  tf_Schema :: runes
  tf_Name :: runes

record ColumnRef =
  cf_Ref :: Ref
  cf_Column :: runes

datatype RefError =
    DoesNotApply bytes
  | TextAfterClosingQuote
  | UnterminatedQuote
  | QuoteInsideUnquoted
  | SpaceNeedsQuotes
  | EmptyPart
  | WantParts nat bytes nat
  | EntryError nat RefError

record TableSet =
  ts_kind :: bytes
  ts_keys :: "runes set"
  ts_names :: "runes set"
  ts_entries :: "runes list"

record PathSegment =
  sg_Kind :: bytes
  sg_Name :: runes

section \<open>Operations\<close>

definition Levels :: "bytes \<Rightarrow> nat" where
  "Levels kind =
     (if kind = ''postgres'' then 3
      else if kind \<in> {''mysql'', ''mariadb'', ''clickhouse'', ''mongodb''} then 2
      else if kind \<in> {''sqlite'', ''kibana''} then 1 else 0)"

definition Applies :: "bytes \<Rightarrow> bool" where
  "Applies kind \<longleftrightarrow> Levels kind > 0"

definition parts :: "bytes \<Rightarrow> Ref \<Rightarrow> runes list" where
  "parts kind r =
     (if Levels kind = 3 then [tf_Database r, tf_Schema r, tf_Name r]
      else if Levels kind = 2 then [tf_Database r, tf_Name r]
      else if Levels kind = 1 then [tf_Name r] else [])"

definition fromParts :: "bytes \<Rightarrow> runes list \<Rightarrow> Ref" where
  "fromParts kind p =
     (if Levels kind = 3 then \<lparr>tf_Database = p ! 0, tf_Schema = p ! 1, tf_Name = p ! 2\<rparr>
      else if Levels kind = 2 then \<lparr>tf_Database = p ! 0, tf_Schema = [], tf_Name = p ! 1\<rparr>
      else \<lparr>tf_Database = [], tf_Schema = [], tf_Name = p ! 0\<rparr>)"

text \<open>\<^verbatim>\<open>unicode.IsSpace\<close> and \<^verbatim>\<open>strings.TrimSpace\<close>.\<close>

definition isSpaceRune :: "rune \<Rightarrow> bool" where
  "isSpaceRune c \<longleftrightarrow>
     c \<in> {9, 10, 11, 12, 13, 32, 0x85, 0xA0, 0x1680, 0x2028, 0x2029, 0x202F, 0x205F, 0x3000} \<or>
     0x2000 \<le> c \<and> c \<le> 0x200A"

definition TrimSpaceText :: "runes \<Rightarrow> runes" where
  "TrimSpaceText s = rev (dropWhile isSpaceRune (rev (dropWhile isSpaceRune s)))"

definition needsQuote :: "runes \<Rightarrow> bool" where
  "needsQuote seg \<longleftrightarrow> dot \<in> set seg \<or> dquote \<in> set seg \<or> seg \<noteq> TrimSpaceText seg"

fun doubleQuotes :: "runes \<Rightarrow> runes" where
  "doubleQuotes [] = []"
| "doubleQuotes (c # cs) = (if c = dquote then dquote # dquote # doubleQuotes cs else c # doubleQuotes cs)"

definition quote :: "runes \<Rightarrow> runes" where
  "quote seg = (if \<not> needsQuote seg then seg else [dquote] @ doubleQuotes seg @ [dquote])"

fun joinDots :: "runes list \<Rightarrow> runes" where
  "joinDots [] = []"
| "joinDots [w] = w"
| "joinDots (w # v # ws) = w @ [dot] @ joinDots (v # ws)"

definition Format :: "bytes \<Rightarrow> Ref \<Rightarrow> runes" where
  "Format kind r = joinDots (map quote (parts kind r))"

text \<open>
  The scanners carry the runes from the current index on.  \<open>scanQuoted\<close> starts after the opening quote;
  both return the segment and the runes that follow it.
\<close>

fun scanQuoted :: "runes \<Rightarrow> RefError + runes \<times> runes" where
  "scanQuoted [] = Inl UnterminatedQuote"
| "scanQuoted [c] = (if c \<noteq> dquote then Inl UnterminatedQuote else Inr ([], []))"
| "scanQuoted (c # d # ds) =
     (if c \<noteq> dquote then rbind (scanQuoted (d # ds)) (\<lambda>(b, rest). Inr (c # b, rest))
      else if d = dquote then rbind (scanQuoted ds) (\<lambda>(b, rest). Inr (dquote # b, rest))
      else if d \<noteq> dot then Inl TextAfterClosingQuote
      else Inr ([], d # ds))"

fun scanBareLoop :: "runes \<Rightarrow> RefError + runes \<times> runes" where
  "scanBareLoop [] = Inr ([], [])"
| "scanBareLoop (c # cs) =
     (if c = dot then Inr ([], c # cs)
      else if c = dquote then Inl QuoteInsideUnquoted
      else rbind (scanBareLoop cs) (\<lambda>(b, rest). Inr (c # b, rest)))"

definition scanBare :: "runes \<Rightarrow> RefError + runes \<times> runes" where
  "scanBare rs =
     rbind (scanBareLoop rs)
       (\<lambda>(seg, rest). if seg \<noteq> TrimSpaceText seg then Inl SpaceNeedsQuotes else Inr (seg, rest))"

definition scanSegment :: "runes \<Rightarrow> RefError + runes \<times> runes" where
  "scanSegment rs =
     (case rs of
        c # cs \<Rightarrow> if c = dquote then scanQuoted cs else scanBare rs
      | [] \<Rightarrow> scanBare rs)"

lemma scanQuoted_shrinks: "scanQuoted rs = Inr (b, rest) \<Longrightarrow> length rest \<le> length rs"
  by (induction rs arbitrary: b rest rule: scanQuoted.induct)
    (fastforce simp: rbind_eq_Inr split: if_splits)+

lemma scanBareLoop_shrinks: "scanBareLoop rs = Inr (b, rest) \<Longrightarrow> length rest \<le> length rs"
  by (induction rs arbitrary: b rest) (fastforce simp: rbind_eq_Inr split: if_splits)+

lemma scanSegment_shrinks: "scanSegment rs = Inr (b, rest) \<Longrightarrow> length rest \<le> length rs"
  by (auto simp: scanSegment_def scanBare_def rbind_eq_Inr split: list.splits if_splits
      dest!: scanQuoted_shrinks scanBareLoop_shrinks)

function splitParts :: "runes \<Rightarrow> RefError + runes list" where
  "splitParts rs =
     (case scanSegment rs of
        Inl e \<Rightarrow> Inl e
      | Inr (seg, rest) \<Rightarrow>
          if seg = [] then Inl EmptyPart
          else if rest = [] then Inr [seg]
          else rbind (splitParts (tl rest)) (\<lambda>ps. Inr (seg # ps)))"
  by pat_completeness auto
termination
proof (relation "measure length", goal_cases)
  case (2 rs p seg rest)
  then have "length rest \<le> length rs" by (metis scanSegment_shrinks)
  moreover have "length (tl rest) < length rest" using 2 by (cases rest) auto
  ultimately show ?case by simp
qed simp

declare splitParts.simps [simp del]

definition Parse :: "bytes \<Rightarrow> runes \<Rightarrow> RefError + Ref" where
  "Parse kind e =
     (if Levels kind = 0 then Inl (DoesNotApply kind)
      else rbind (splitParts e)
        (\<lambda>ps. if length ps \<noteq> Levels kind then Inl (WantParts (Levels kind) kind (length ps))
             else Inr (fromParts kind ps)))"

definition FormatColumn :: "bytes \<Rightarrow> ColumnRef \<Rightarrow> runes" where
  "FormatColumn kind c =
     (let t = Format kind (cf_Ref c) in
      if t = [] then quote (cf_Column c) else t @ [dot] @ quote (cf_Column c))"

definition ParseColumn :: "bytes \<Rightarrow> runes \<Rightarrow> RefError + ColumnRef" where
  "ParseColumn kind e =
     (if Levels kind = 0 then Inl (DoesNotApply kind)
      else rbind (splitParts e)
        (\<lambda>ps. if length ps \<noteq> Levels kind + 1 then Inl (WantParts (Levels kind + 1) kind (length ps))
             else Inr \<lparr>cf_Ref = fromParts kind (take (Levels kind) ps), cf_Column = ps ! Levels kind\<rparr>))"

definition asciiLower :: "runes \<Rightarrow> runes" where
  "asciiLower s = map (\<lambda>r. if 65 \<le> r \<and> r \<le> 90 then r + 97 - 65 else r) s"

definition ColumnKey :: "bytes \<Rightarrow> ColumnRef \<Rightarrow> runes" where
  "ColumnKey kind c = (let k = FormatColumn kind c in if kind = ''sqlite'' then asciiLower k else k)"

definition Key :: "bytes \<Rightarrow> Ref \<Rightarrow> runes" where
  "Key kind r = (let k = Format kind r in if kind = ''sqlite'' then asciiLower k else k)"

definition nameKey :: "bytes \<Rightarrow> runes \<Rightarrow> runes" where
  "nameKey kind nm = (if kind = ''sqlite'' then asciiLower nm else nm)"

fun newSetLoop :: "nat \<Rightarrow> runes list \<Rightarrow> TableSet \<Rightarrow> RefError + TableSet" where
  "newSetLoop i [] s = Inr s"
| "newSetLoop i (e # es) s =
     (case Parse (ts_kind s) e of
        Inl err \<Rightarrow> Inl (EntryError i err)
      | Inr r \<Rightarrow>
          let k = Key (ts_kind s) r in
          if k \<in> ts_keys s then newSetLoop (i + 1) es s
          else newSetLoop (i + 1) es
            (s\<lparr>ts_keys := insert k (ts_keys s), ts_names := insert (nameKey (ts_kind s) (tf_Name r)) (ts_names s),
               ts_entries := ts_entries s @ [Format (ts_kind s) r]\<rparr>))"

text \<open>A nil slice is \<^const>\<open>None\<close>, and so is the nil set that allows everything.\<close>

definition NewSet :: "bytes \<Rightarrow> runes list option \<Rightarrow> RefError + TableSet option" where
  "NewSet kind entries =
     (case entries of
        None \<Rightarrow> Inr None
      | Some es \<Rightarrow>
          rbind (newSetLoop 0 es \<lparr>ts_kind = kind, ts_keys = {}, ts_names = {}, ts_entries = []\<rparr>)
            (\<lambda>s. Inr (Some (s\<lparr>ts_entries := sort (ts_entries s)\<rparr>))))"

definition Allows :: "TableSet option \<Rightarrow> Ref \<Rightarrow> bool" where
  "Allows so r = (case so of None \<Rightarrow> True | Some s \<Rightarrow> Key (ts_kind s) r \<in> ts_keys s)"

definition AllowsName :: "TableSet option \<Rightarrow> runes \<Rightarrow> bool" where
  "AllowsName so nm = (case so of None \<Rightarrow> True | Some s \<Rightarrow> nameKey (ts_kind s) nm \<in> ts_names s)"

definition Entries :: "TableSet option \<Rightarrow> runes list option" where
  "Entries so = (case so of None \<Rightarrow> None | Some s \<Rightarrow> Some (ts_entries s))"

definition relationKinds :: "bytes set" where
  "relationKinds = {''table'', ''view'', ''matview''}"

definition IsRelationKind :: "bytes \<Rightarrow> bool" where
  "IsRelationKind nodeKind \<longleftrightarrow> nodeKind \<in> relationKinds \<or> nodeKind = ''collection''"

definition FromPath :: "bytes \<Rightarrow> PathSegment list \<Rightarrow> Ref option" where
  "FromPath kind segs =
     (if kind = ''postgres'' then
        (if length segs \<ge> 3 \<and> sg_Kind (segs ! 0) = ''database'' \<and> sg_Kind (segs ! 1) = ''schema'' \<and>
            sg_Kind (segs ! 2) \<in> relationKinds
         then Some \<lparr>tf_Database = sg_Name (segs ! 0), tf_Schema = sg_Name (segs ! 1), tf_Name = sg_Name (segs ! 2)\<rparr>
         else None)
      else if kind \<in> {''mysql'', ''mariadb'', ''clickhouse''} then
        (if length segs \<ge> 2 \<and> sg_Kind (segs ! 0) = ''database'' \<and> sg_Kind (segs ! 1) \<in> relationKinds
         then Some \<lparr>tf_Database = sg_Name (segs ! 0), tf_Schema = [], tf_Name = sg_Name (segs ! 1)\<rparr> else None)
      else if kind = ''mongodb'' then
        (if length segs \<ge> 2 \<and> sg_Kind (segs ! 0) = ''database'' \<and> sg_Kind (segs ! 1) = ''collection''
         then Some \<lparr>tf_Database = sg_Name (segs ! 0), tf_Schema = [], tf_Name = sg_Name (segs ! 1)\<rparr> else None)
      else if kind = ''sqlite'' then
        (if length segs \<ge> 2 \<and> sg_Kind (segs ! 0) = ''database'' \<and> sg_Name (segs ! 0) = map of_char ''main'' \<and>
            sg_Kind (segs ! 1) \<in> relationKinds
         then Some \<lparr>tf_Database = [], tf_Schema = [], tf_Name = sg_Name (segs ! 1)\<rparr> else None)
      else if kind = ''kibana'' then
        (if length segs \<ge> 1 \<and> sg_Kind (segs ! 0) = ''collection''
         then Some \<lparr>tf_Database = [], tf_Schema = [], tf_Name = sg_Name (segs ! 0)\<rparr> else None)
      else None)"

section \<open>Quoting\<close>

text \<open>A segment ends at the end of the entry or at a dot.\<close>

definition segEnd :: "runes \<Rightarrow> bool" where
  "segEnd rest \<longleftrightarrow> rest = [] \<or> hd rest = dot"

lemma scanQuoted_doubled: "segEnd rest \<Longrightarrow> scanQuoted (doubleQuotes s @ dquote # rest) = Inr (s, rest)"
proof (induction s)
  case Nil
  then show ?case by (cases rest) (auto simp: segEnd_def)
next
  case (Cons c s)
  obtain d ds where "doubleQuotes s @ dquote # rest = d # ds"
    by (cases "doubleQuotes s @ dquote # rest") auto
  with Cons show ?case by auto
qed

lemma scanBareLoop_plain:
  "segEnd rest \<Longrightarrow> dot \<notin> set s \<Longrightarrow> dquote \<notin> set s \<Longrightarrow> scanBareLoop (s @ rest) = Inr (s, rest)"
  by (induction s) (cases rest; auto simp: segEnd_def)+

lemma scanSegment_quote:
  assumes "segEnd rest"
  shows "scanSegment (quote s @ rest) = Inr (s, rest)"
proof (cases "needsQuote s")
  case True
  then show ?thesis using scanQuoted_doubled [OF assms] by (simp add: quote_def scanSegment_def)
next
  case False
  then have "scanBare (s @ rest) = Inr (s, rest)"
    using scanBareLoop_plain [OF assms] by (auto simp: scanBare_def needsQuote_def)
  moreover have "hd (s @ rest) \<noteq> dquote \<or> s @ rest = []"
    using False assms by (cases s) (auto simp: needsQuote_def segEnd_def)
  ultimately show ?thesis using False by (auto simp: quote_def scanSegment_def split: list.split)
qed

lemma joinDots_Cons: "joinDots (w # ws) = w @ (if ws = [] then [] else dot # joinDots ws)"
  by (cases ws) auto

lemma splitParts_join: "ps \<noteq> [] \<Longrightarrow> [] \<notin> set ps \<Longrightarrow> splitParts (joinDots (map quote ps)) = Inr ps"
proof (induction ps)
  case (Cons p ps)
  let ?rest = "if ps = [] then [] else dot # joinDots (map quote ps)"
  have "scanSegment (joinDots (map quote (p # ps))) = Inr (p, ?rest)"
    using scanSegment_quote [of ?rest p] by (simp add: joinDots_Cons segEnd_def)
  then show ?case using Cons by (subst splitParts.simps) auto
qed simp

lemma joinDots_quote_inject:
  "length ps = length qs \<Longrightarrow> joinDots (map quote ps) = joinDots (map quote qs) \<longleftrightarrow> ps = qs"
proof (induction ps qs rule: list_induct2)
  case (Cons p ps q qs)
  let ?rest = "\<lambda>ps. if ps = [] then [] else dot # joinDots (map quote ps)"
  have seg: "scanSegment (joinDots (map quote (p # ps))) = Inr (p, ?rest ps)" for p ps
    using scanSegment_quote [of "?rest ps" p] by (simp add: joinDots_Cons segEnd_def)
  have "p = q \<and> ?rest ps = ?rest qs" if "joinDots (map quote (p # ps)) = joinDots (map quote (q # qs))"
    using seg [of p ps] seg [of q qs] that by simp
  then show ?case using Cons by (auto split: if_splits)
qed simp

section \<open>Case folding\<close>

lemma asciiLower_simps [simp]:
  "asciiLower [] = []" "asciiLower (a @ b) = asciiLower a @ asciiLower b"
  "asciiLower (c # s) = (if 65 \<le> c \<and> c \<le> 90 then c + 32 else c) # asciiLower s"
  by (simp_all add: asciiLower_def)

lemma lower_space: "isSpaceRune (if 65 \<le> c \<and> c \<le> 90 then c + 97 - 65 else c) = isSpaceRune c"
  by (auto simp: isSpaceRune_def)

lemma asciiLower_trim: "TrimSpaceText (asciiLower s) = asciiLower (TrimSpaceText s)"
  unfolding TrimSpaceText_def asciiLower_def
  by (simp only: dropWhile_map rev_map comp_def lower_space)

lemma asciiLower_mem: "c \<in> {dot, dquote} \<Longrightarrow> c \<in> set (asciiLower s) \<longleftrightarrow> c \<in> set s"
  by (induction s) auto

lemma asciiLower_length: "length (asciiLower s) = length s"
  by (simp add: asciiLower_def)

lemma trim_suffix: "\<exists>a b. s = a @ TrimSpaceText s @ b"
proof -
  obtain a where a: "s = a @ dropWhile isSpaceRune s"
    by (metis takeWhile_dropWhile_id)
  obtain b where "rev (dropWhile isSpaceRune s) = b @ dropWhile isSpaceRune (rev (dropWhile isSpaceRune s))"
    by (metis takeWhile_dropWhile_id)
  then have "dropWhile isSpaceRune s = TrimSpaceText s @ rev b"
    unfolding TrimSpaceText_def by (metis rev_append rev_rev_ident)
  with a show ?thesis by metis
qed

lemma trim_same: "s = TrimSpaceText s \<longleftrightarrow> length (TrimSpaceText s) = length s"
proof
  assume *: "length (TrimSpaceText s) = length s"
  obtain a b where ab: "s = a @ TrimSpaceText s @ b" using trim_suffix by blast
  then have "length s = length a + length (TrimSpaceText s) + length b"
    by (metis add.assoc length_append)
  with * have "a = [] \<and> b = []" by simp
  with ab show "s = TrimSpaceText s" by simp
qed simp

lemma asciiLower_needsQuote: "needsQuote (asciiLower s) = needsQuote s"
proof -
  have "asciiLower s = TrimSpaceText (asciiLower s) \<longleftrightarrow> s = TrimSpaceText s"
    by (metis trim_same asciiLower_trim asciiLower_length)
  then show ?thesis using asciiLower_mem [of dot s] asciiLower_mem [of dquote s] by (simp add: needsQuote_def)
qed

lemma asciiLower_double: "asciiLower (doubleQuotes s) = doubleQuotes (asciiLower s)"
  by (induction s) auto

lemma asciiLower_quote: "asciiLower (quote s) = quote (asciiLower s)"
  by (simp add: quote_def asciiLower_needsQuote asciiLower_double)

lemma asciiLower_join: "asciiLower (joinDots ws) = joinDots (map asciiLower ws)"
  by (induction ws rule: joinDots.induct) auto

section \<open>Keys\<close>

text \<open>Two refs name the same table when their parts agree, up to case for SQLite.\<close>

definition sameTable :: "bytes \<Rightarrow> Ref \<Rightarrow> Ref \<Rightarrow> bool" where
  "sameTable kind r r' \<longleftrightarrow> map (nameKey kind) (parts kind r) = map (nameKey kind) (parts kind r')"

lemma parts_length: "length (parts kind r) = Levels kind"
  by (auto simp: parts_def Levels_def)

lemma Key_parts: "Key kind r = joinDots (map quote (map (nameKey kind) (parts kind r)))"
  by (simp add: Key_def Format_def nameKey_def asciiLower_join asciiLower_quote Let_def comp_def)

lemma Key_eq: "Key kind r = Key kind r' \<longleftrightarrow> sameTable kind r r'"
  unfolding Key_parts sameTable_def by (rule joinDots_quote_inject) (simp add: parts_length)

lemma sameTable_name: "Applies kind \<Longrightarrow> sameTable kind r r' \<Longrightarrow> nameKey kind (tf_Name r) = nameKey kind (tf_Name r')"
  by (auto simp: sameTable_def parts_def Applies_def Levels_def split: if_splits)

text \<open>What a parsed entry is: every part of its kind is there and no other is set.\<close>

definition wfRef :: "bytes \<Rightarrow> Ref \<Rightarrow> bool" where
  "wfRef kind r \<longleftrightarrow> Applies kind \<and> [] \<notin> set (parts kind r) \<and> fromParts kind (parts kind r) = r"

lemma Levels_cases: "Levels kind \<in> {0, 1, 2, 3}"
  by (auto simp: Levels_def)

lemma parts_fromParts: "length ps = Levels kind \<Longrightarrow> parts kind (fromParts kind ps) = ps"
  using Levels_cases [of kind]
  by (auto simp: parts_def fromParts_def length_Suc_conv numeral_2_eq_2 numeral_3_eq_3)

lemma splitParts_nonempty: "splitParts e = Inr ps \<Longrightarrow> ps \<noteq> [] \<and> [] \<notin> set ps"
proof (induction e arbitrary: ps rule: splitParts.induct)
  case (1 rs)
  from 1(2) obtain seg rest where s: "scanSegment rs = Inr (seg, rest)" "seg \<noteq> []"
    by (subst (asm) splitParts.simps) (auto split: sum.splits if_splits)
  show ?case
  proof (cases "rest = []")
    case True
    then show ?thesis using 1(2) s by (subst (asm) splitParts.simps) auto
  next
    case False
    then obtain qs where "splitParts (tl rest) = Inr qs" "ps = seg # qs"
      using 1(2) s by (subst (asm) splitParts.simps) (auto simp: rbind_eq_Inr)
    then show ?thesis using 1(1) [OF s(1) refl s(2) False] s(2) by simp
  qed
qed

lemma Parse_wf: "Parse kind e = Inr r \<Longrightarrow> wfRef kind r"
  using splitParts_nonempty
  by (auto simp: Parse_def wfRef_def Applies_def rbind_eq_Inr parts_fromParts split: if_splits)

lemma Parse_Format: "wfRef kind r \<Longrightarrow> Parse kind (Format kind r) = Inr r"
proof -
  assume r: "wfRef kind r"
  then have "parts kind r \<noteq> []" using parts_length [of kind r] by (auto simp: wfRef_def Applies_def)
  then show ?thesis
    using r splitParts_join [of "parts kind r"] parts_length [of kind r]
    by (simp add: wfRef_def Parse_def Format_def Applies_def)
qed

section \<open>Lists of entries\<close>

lemma mapR_in: "mapR f xs = Inr ys \<Longrightarrow> y \<in> set ys \<Longrightarrow> \<exists>x\<in>set xs. f x = Inr y"
  by (induction xs arbitrary: ys) (auto simp: rbind_eq_Inr)

lemma mapR_map_id: "(\<And>x. x \<in> set xs \<Longrightarrow> f (g x) = Inr x) \<Longrightarrow> mapR f (map g xs) = Inr xs"
  by (induction xs) auto

lemma mapR_take_ok: "mapR f xs = Inr ys \<Longrightarrow> j < length xs \<Longrightarrow> f (xs ! j) \<noteq> Inl e"
  by (induction xs arbitrary: j ys) (auto simp: rbind_eq_Inr nth_Cons split: nat.splits)

text \<open>
  \<open>setOf kind rs s\<close>: the set \<open>s\<close> holds exactly what the refs \<open>rs\<close> say, each table once: its keys and
  names are theirs, and its entries are the canonical forms of a selection with one ref per key.
\<close>

definition setOf :: "bytes \<Rightarrow> Ref list \<Rightarrow> TableSet \<Rightarrow> bool" where
  "setOf kind rs s \<longleftrightarrow> ts_kind s = kind \<and> ts_keys s = Key kind ` set rs \<and>
     ts_names s = (\<lambda>r. nameKey kind (tf_Name r)) ` set rs \<and>
     (\<exists>ks. ts_entries s = map (Format kind) ks \<and> set ks \<subseteq> set rs \<and> Key kind ` set ks = Key kind ` set rs \<and>
        distinct (map (Key kind) ks))"

lemma setOf_step:
  assumes "setOf kind rs s" and "Applies kind"
  shows "setOf kind (rs @ [r])
    (if Key kind r \<in> ts_keys s then s
     else s\<lparr>ts_keys := insert (Key kind r) (ts_keys s), ts_names := insert (nameKey kind (tf_Name r)) (ts_names s),
            ts_entries := ts_entries s @ [Format kind r]\<rparr>)"
proof (cases "Key kind r \<in> ts_keys s")
  case True
  then obtain r' where r': "r' \<in> set rs" "Key kind r = Key kind r'" using assms(1) by (auto simp: setOf_def)
  then have "nameKey kind (tf_Name r) = nameKey kind (tf_Name r')"
    using sameTable_name [OF assms(2)] Key_eq by blast
  then have "nameKey kind (tf_Name r) \<in> (\<lambda>r. nameKey kind (tf_Name r)) ` set rs"
    "Key kind r \<in> Key kind ` set rs" using r' by auto
  then show ?thesis using assms(1) True by (auto simp: setOf_def insert_absorb)
next
  case False
  obtain ks where ks: "ts_entries s = map (Format kind) ks" "set ks \<subseteq> set rs" "Key kind ` set ks = Key kind ` set rs"
    "distinct (map (Key kind) ks)" using assms(1) by (auto simp: setOf_def)
  have "Key kind r \<notin> Key kind ` set ks" using False assms(1) ks(3) by (simp add: setOf_def)
  then have "ts_entries s @ [Format kind r] = map (Format kind) (ks @ [r]) \<and> set (ks @ [r]) \<subseteq> set (rs @ [r]) \<and>
      Key kind ` set (ks @ [r]) = Key kind ` set (rs @ [r]) \<and> distinct (map (Key kind) (ks @ [r]))"
    using ks by auto
  then have "\<exists>ks. ts_entries s @ [Format kind r] = map (Format kind) ks \<and> set ks \<subseteq> set (rs @ [r]) \<and>
      Key kind ` set ks = Key kind ` set (rs @ [r]) \<and> distinct (map (Key kind) ks)"
    by blast
  then show ?thesis using assms(1) False by (simp add: setOf_def)
qed

lemma newSetLoop_setOf:
  assumes "setOf kind rs s"
  shows "case newSetLoop i es s of
      Inl err \<Rightarrow> \<exists>j < length es. \<exists>e. Parse kind (es ! j) = Inl e \<and> err = EntryError (i + j) e \<and>
        (\<exists>qs. mapR (Parse kind) (take j es) = Inr qs)
    | Inr s' \<Rightarrow> \<exists>qs. mapR (Parse kind) es = Inr qs \<and> setOf kind (rs @ qs) s'"
  using assms
proof (induction es arbitrary: i rs s)
  case (Cons e es)
  have k: "ts_kind s = kind" using Cons.prems by (simp add: setOf_def)
  show ?case
  proof (cases "Parse kind e")
    case (Inl err)
    then show ?thesis using k by (auto intro: exI [of _ 0])
  next
    case (Inr r)
    define s1 where "s1 = (if Key kind r \<in> ts_keys s then s
      else s\<lparr>ts_keys := insert (Key kind r) (ts_keys s), ts_names := insert (nameKey kind (tf_Name r)) (ts_names s),
            ts_entries := ts_entries s @ [Format kind r]\<rparr>)"
    have "setOf kind (rs @ [r]) s1"
      unfolding s1_def using Parse_wf [OF Inr] by (intro setOf_step Cons.prems) (simp add: wfRef_def)
    note IH = Cons.IH [OF this, of "i + 1"]
    have loop: "newSetLoop i (e # es) s = newSetLoop (i + 1) es s1"
      using Inr k by (simp add: s1_def Let_def)
    show ?thesis
    proof (cases "newSetLoop (i + 1) es s1")
      case (Inl err)
      then obtain j e' qs where "j < length es" "Parse kind (es ! j) = Inl e'" "err = EntryError (i + 1 + j) e'"
        "mapR (Parse kind) (take j es) = Inr qs" using IH by auto
      then show ?thesis using Inl Inr loop by (auto intro!: exI [of _ "Suc j"])
    next
      case (Inr s')
      then show ?thesis using IH loop \<open>Parse kind e = Inr r\<close> by auto
    qed
  qed
qed simp

lemma setOf_empty: "setOf kind [] \<lparr>ts_kind = kind, ts_keys = {}, ts_names = {}, ts_entries = []\<rparr>"
  by (simp add: setOf_def)

lemma setOf_allows: "setOf kind rs s \<Longrightarrow> Allows (Some s) r \<longleftrightarrow> (\<exists>r'\<in>set rs. sameTable kind r r')"
  by (auto simp: Allows_def setOf_def image_iff Key_eq)

lemma setOf_allowsName:
  "setOf kind rs s \<Longrightarrow> AllowsName (Some s) nm \<longleftrightarrow> (\<exists>r'\<in>set rs. nameKey kind nm = nameKey kind (tf_Name r'))"
  by (auto simp: AllowsName_def setOf_def)

lemma setOf_sort: "setOf kind rs s \<Longrightarrow> setOf kind rs (s\<lparr>ts_entries := sort (ts_entries s)\<rparr>)"
proof -
  assume s: "setOf kind rs s"
  then obtain ks where ks: "ts_entries s = map (Format kind) ks" "set ks \<subseteq> set rs" "Key kind ` set ks = Key kind ` set rs"
    "distinct (map (Key kind) ks)" by (auto simp: setOf_def)
  have p: "mset (sort_key (Format kind) ks) = mset ks" by simp
  have "sort (ts_entries s) = map (Format kind) (sort_key (Format kind) ks)"
    unfolding ks(1) by (rule properties_for_sort) (simp_all add: sorted_sort_key)
  moreover have "distinct (map (Key kind) (sort_key (Format kind) ks))"
    using ks(4) p by (metis mset_eq_imp_distinct_iff mset_map)
  ultimately show ?thesis using s ks by (auto simp: setOf_def intro!: exI [of _ "sort_key (Format kind) ks"])
qed

lemma NewSet_cases:
  "case NewSet kind (Some es) of
      Inl err \<Rightarrow> \<exists>j < length es. \<exists>e. Parse kind (es ! j) = Inl e \<and> err = EntryError j e \<and>
        (\<exists>qs. mapR (Parse kind) (take j es) = Inr qs)
    | Inr so \<Rightarrow> \<exists>s qs. so = Some s \<and> mapR (Parse kind) es = Inr qs \<and> setOf kind qs s \<and> sorted (ts_entries s)"
proof -
  let ?s0 = "\<lparr>ts_kind = kind, ts_keys = {}, ts_names = {}, ts_entries = []\<rparr>"
  note loop = newSetLoop_setOf [OF setOf_empty, where i = 0 and es = es and kind = kind]
  show ?thesis
  proof (cases "newSetLoop 0 es ?s0")
    case (Inl err)
    then show ?thesis using loop by (simp add: NewSet_def)
  next
    case (Inr s)
    then obtain qs where "mapR (Parse kind) es = Inr qs" "setOf kind qs s" using loop by auto
    then show ?thesis using Inr setOf_sort by (auto simp: NewSet_def)
  qed
qed

lemma setOf_unique:
  assumes "setOf kind rs s" and "setOf kind rs' s'" and "Key kind ` set rs = Key kind ` set rs'" and "Applies kind"
    and "ts_entries s = ts_entries s'"
  shows "s = s'"
proof -
  have "nameKey kind (tf_Name r) \<in> (\<lambda>r. nameKey kind (tf_Name r)) ` set b"
    if "r \<in> set a" "Key kind ` set a \<subseteq> Key kind ` set b" for r a b
  proof -
    have "Key kind r \<in> Key kind ` set b" using that by blast
    then obtain r' where "r' \<in> set b" "Key kind r = Key kind r'" by (rule imageE) simp
    then show ?thesis using sameTable_name [OF assms(4)] Key_eq by blast
  qed
  then have "(\<lambda>r. nameKey kind (tf_Name r)) ` set rs = (\<lambda>r. nameKey kind (tf_Name r)) ` set rs'"
    using assms(3) by (intro equalityI subsetI) (auto simp del: image_eqI)
  then show ?thesis using assms by (simp add: setOf_def)
qed

text \<open>The canonical entries of a set are distinct and, parsed again, give the set itself.\<close>

lemma canonical_again:
  assumes "es \<noteq> []" and "mapR (Parse kind) es = Inr rs" and "setOf kind rs s" and "sorted (ts_entries s)"
  shows "distinct (ts_entries s) \<and> NewSet kind (Some (ts_entries s)) = Inr (Some s)"
proof -
  obtain ks where ks: "ts_entries s = map (Format kind) ks" "set ks \<subseteq> set rs" "Key kind ` set ks = Key kind ` set rs"
    "distinct (map (Key kind) ks)" using assms(3) by (auto simp: setOf_def)
  have wf: "wfRef kind r" if "r \<in> set rs" for r
    using mapR_in [OF assms(2) that] Parse_wf by auto
  have "rs \<noteq> []" using assms(1) mapR_length [OF assms(2)] by auto
  then obtain r where "r \<in> set rs" by fastforce
  then have ap: "Applies kind" using wf by (simp add: wfRef_def)
  have parsed: "mapR (Parse kind) (ts_entries s) = Inr ks"
    unfolding ks(1) using wf ks(2) Parse_Format by (intro mapR_map_id) blast
  then obtain s' where s': "NewSet kind (Some (ts_entries s)) = Inr (Some s')" "setOf kind ks s'" "sorted (ts_entries s')"
    using NewSet_cases [where kind = kind and es = "ts_entries s"] mapR_take_ok by (fastforce split: sum.splits)
  obtain ks' where ks': "ts_entries s' = map (Format kind) ks'" "set ks' \<subseteq> set ks" "Key kind ` set ks' = Key kind ` set ks"
    "distinct (map (Key kind) ks')" using s'(2) by (auto simp: setOf_def)
  have dk: "distinct ks" "distinct ks'" "inj_on (Key kind) (set ks)" using ks(4) ks'(4) by (auto simp: distinct_map)
  have "set ks' = set ks" using inj_on_image_eq_iff [OF dk(3) ks'(2) order_refl] ks'(3) by blast
  have "Key kind = (if kind = ''sqlite'' then asciiLower else id) \<circ> Format kind"
    by (auto simp: Key_def Let_def)
  then have inj: "inj_on (Format kind) (set ks)"
    using dk(3) inj_on_imageI2 by metis
  have "distinct (ts_entries s)" using inj dk(1) by (simp add: ks(1) distinct_map)
  moreover have "distinct (ts_entries s')" using inj dk(2) \<open>set ks' = set ks\<close> by (simp add: ks'(1) distinct_map)
  moreover have "set (ts_entries s) = set (ts_entries s')" using \<open>set ks' = set ks\<close> by (simp add: ks(1) ks'(1))
  ultimately have "ts_entries s = ts_entries s'" using assms(4) s'(3) by (metis sorted_distinct_set_unique)
  then have "s = s'" using setOf_unique [OF assms(3) s'(2) _ ap] ks(3) by simp
  then show ?thesis using s' \<open>distinct (ts_entries s)\<close> by simp
qed

lemma FromPath_form:
  assumes "FromPath kind segs = Some r"
  shows "Applies kind \<and> fromParts kind (parts kind r) = r"
proof -
  have "kind \<in> {''postgres'', ''mysql'', ''mariadb'', ''clickhouse'', ''mongodb'', ''sqlite'', ''kibana''}"
    by (rule ccontr) (use assms in \<open>simp add: FromPath_def\<close>)
  then show ?thesis
    using assms
    by (elim insertE emptyE)
      (auto simp: FromPath_def Applies_def Levels_def parts_def fromParts_def split: if_split_asm)
qed

section \<open>Properties\<close>

lemma ParseColumn_Format:
  assumes "wfRef kind r" and "col \<noteq> []"
  shows "ParseColumn kind (FormatColumn kind \<lparr>cf_Ref = r, cf_Column = col\<rparr>) = Inr \<lparr>cf_Ref = r, cf_Column = col\<rparr>"
proof -
  have len: "length (parts kind r) = Levels kind" by (rule parts_length)
  have ne: "parts kind r \<noteq> []" using assms(1) len by (auto simp: wfRef_def Applies_def)
  have app: "joinDots (ws @ [w]) = joinDots ws @ [dot] @ w" if "ws \<noteq> []" for ws w
    using that by (induction ws rule: joinDots.induct) auto
  have "joinDots (map quote (parts kind r)) \<noteq> []"
  proof -
    obtain q qs where q: "parts kind r = q # qs" "q \<noteq> []"
      using ne assms(1) by (cases "parts kind r") (auto simp: wfRef_def)
    then show ?thesis by (simp add: joinDots_Cons quote_def)
  qed
  then have "FormatColumn kind \<lparr>cf_Ref = r, cf_Column = col\<rparr> = joinDots (map quote (parts kind r @ [col]))"
    using ne by (simp add: FormatColumn_def Format_def Let_def app)
  moreover have "splitParts (joinDots (map quote (parts kind r @ [col]))) = Inr (parts kind r @ [col])"
    using assms by (intro splitParts_join) (auto simp: wfRef_def)
  ultimately show ?thesis
    using assms len by (simp add: ParseColumn_def wfRef_def Applies_def nth_append)
qed

text \<open>
  C26: printing and parsing an entry agree for every database kind the list applies to: a table or a
  column whose parts are not empty is read back from its canonical entry exactly, whatever dots, quotes
  and spaces its names hold, and parsing an entry never yields a ref outside that form.
\<close>

theorem table_entry_roundtrip:
  assumes "wfRef kind r" and "col \<noteq> []" and "Parse kind e = Inr r'"
  shows "Parse kind (Format kind r) = Inr r \<and>
    ParseColumn kind (FormatColumn kind \<lparr>cf_Ref = r, cf_Column = col\<rparr>) = Inr \<lparr>cf_Ref = r, cf_Column = col\<rparr> \<and>
    wfRef kind r' \<and> Parse kind (Format kind r') = Inr r'"
  using assms Parse_Format ParseColumn_Format Parse_wf by blast

text \<open>A table named \<^verbatim>\<open>a.b\<close> in a database whose name starts with a quote.\<close>

definition demoTable :: Ref where
  "demoTable = \<lparr>tf_Database = [34, 100], tf_Schema = [], tf_Name = [97, 46, 98]\<rparr>"

lemma demoTable_wf: "wfRef ''mysql'' demoTable"
  by (simp add: wfRef_def Applies_def parts_def fromParts_def Levels_def demoTable_def)

theorem table_entry_roundtrip_witness:
  "Parse ''mysql'' (Format ''mysql'' demoTable) = Inr demoTable"
  using table_entry_roundtrip [OF demoTable_wf, of "[99]" "Format ''mysql'' demoTable" demoTable]
    Parse_Format [OF demoTable_wf] by simp

text \<open>
  C16: an allow list allows exactly the tables its entries name.  A list with an entry that does not parse is
  refused with the index of the first such entry.  Otherwise a table is allowed exactly when some entry
  parses to the same table (up to case for SQLite), a name exactly when some entry has it, and the
  canonical entries are sorted, hold no table twice, and give the same set when they are parsed again.
\<close>

theorem allow_list_exact:
  "case NewSet kind (Some es) of
      Inl err \<Rightarrow> \<exists>j < length es. \<exists>e qs. Parse kind (es ! j) = Inl e \<and> err = EntryError j e \<and>
        mapR (Parse kind) (take j es) = Inr qs
    | Inr so \<Rightarrow> (\<exists>rs. mapR (Parse kind) es = Inr rs \<and>
        Allows so = (\<lambda>r. \<exists>r'\<in>set rs. sameTable kind r r') \<and>
        AllowsName so = (\<lambda>nm. \<exists>r'\<in>set rs. nameKey kind nm = nameKey kind (tf_Name r')) \<and>
        (\<exists>cs. Entries so = Some cs \<and> sorted cs \<and> distinct cs \<and> NewSet kind (Some cs) = Inr so))"
proof (cases "NewSet kind (Some es)")
  case (Inl err)
  then show ?thesis using NewSet_cases [where kind = kind and es = es] by auto
next
  case (Inr so)
  then obtain s rs where s: "so = Some s" "mapR (Parse kind) es = Inr rs" "setOf kind rs s" "sorted (ts_entries s)"
    using NewSet_cases [where kind = kind and es = es] by auto
  have again: "distinct (ts_entries s) \<and> NewSet kind (Some (ts_entries s)) = Inr so"
  proof (cases "es = []")
    case True
    then have "ts_entries s = []" using Inr s(1) by (auto simp: NewSet_def)
    then show ?thesis using Inr True by simp
  next
    case False
    then show ?thesis using canonical_again s by simp
  qed
  have "\<exists>cs. Entries so = Some cs \<and> sorted cs \<and> distinct cs \<and> NewSet kind (Some cs) = Inr so"
    using again s by (simp add: Entries_def)
  moreover have "Allows so = (\<lambda>r. \<exists>r'\<in>set rs. sameTable kind r r')"
    "AllowsName so = (\<lambda>nm. \<exists>r'\<in>set rs. nameKey kind nm = nameKey kind (tf_Name r'))"
    using setOf_allows [OF s(3)] setOf_allowsName [OF s(3)] s(1) by (auto intro!: ext)
  ultimately show ?thesis using Inr s(2) by auto
qed

end
