(* ===== verification/Kql.thy ===== *)
theory Kql
  imports TableRef
begin

text \<open>
  The lexer and the parser of the Kibana query language: \<^verbatim>\<open>adapters/kibana/kql/lexer.go\<close>, \<^verbatim>\<open>parser.go\<close> and
  \<^verbatim>\<open>errors.go\<close>.  A query is a list of runes, as the lexer converts it.

  The scanners carry the runes from the current index on, and the lexer the index itself for the token
  positions.  The parser's methods call each other on the remaining tokens; each is a definition over
  the recursive call \<open>call\<close>, and \<open>parseN\<close> ties them together with fuel.  A result of \<^const>\<open>None\<close> means that the
  fuel ran out or that the token slice was indexed past its end; \<open>kql_parse_terminates\<close> shows that neither
  happens with the fuel \<open>parse\<close> uses.
\<close>

section \<open>Data\<close>

abbreviation starRune :: rune where "starRune \<equiv> 42"
abbreviation bslashRune :: rune where "bslashRune \<equiv> 92"
abbreviation quoteRune :: rune where "quoteRune \<equiv> 34"

definition asRunes :: "string \<Rightarrow> runes" where
  "asRunes s = map of_char s"

text \<open>Text in typographic quotes, as the messages show tokens.\<close>

definition curly :: "runes \<Rightarrow> runes" where
  "curly s = [0x201C] @ s @ [0x201D]"

record KqlPart =
  kp_text :: runes
  kp_star :: bool

record KqlValue =
  kv_parts :: "KqlPart list"
  kv_quoted :: bool

datatype tokKind =
    tEOF | tLParen | tRParen | tLBrace | tRBrace | tColon | tLt | tLte | tGt | tGte | tAnd | tOr | tNot | tQuoted | tWord

record token =
  tk_kind :: tokKind
  tk_pos :: nat
  tk_space :: runes
  tk_val :: KqlValue
  tk_raw :: runes

record SyntaxError =
  se_Pos :: nat
  se_Expected :: "runes list"
  se_Found :: runes

section \<open>Values\<close>

definition literal :: "KqlValue \<Rightarrow> runes" where
  "literal v = concat (map (\<lambda>p. if kp_star p then [starRune] else kp_text p) (kv_parts v))"

definition hasWildcard :: "KqlValue \<Rightarrow> bool" where
  "hasWildcard v \<longleftrightarrow> \<not> kv_quoted v \<and> list_ex kp_star (kv_parts v)"

definition onlyWildcard :: "KqlValue \<Rightarrow> bool" where
  "onlyWildcard v \<longleftrightarrow> \<not> kv_quoted v \<and> length (kv_parts v) = 1 \<and> kp_star (hd (kv_parts v))"

abbreviation noValue :: KqlValue where
  "noValue \<equiv> \<lparr>kv_parts = [], kv_quoted = False\<rparr>"

section \<open>The lexer\<close>

fun kindString :: "tokKind \<Rightarrow> runes" where
  "kindString tEOF = asRunes ''end of input''"
| "kindString tLParen = curly (asRunes ''('')"
| "kindString tRParen = curly (asRunes '')'')"
| "kindString tLBrace = curly (asRunes ''{'')"
| "kindString tRBrace = curly (asRunes ''}'')"
| "kindString tColon = curly (asRunes '':'')"
| "kindString tLt = curly (asRunes ''<'')"
| "kindString tLte = curly (asRunes ''<='')"
| "kindString tGt = curly (asRunes ''>'')"
| "kindString tGte = curly (asRunes ''>='')"
| "kindString tAnd = curly (asRunes ''and'')"
| "kindString tOr = curly (asRunes ''or'')"
| "kindString tNot = curly (asRunes ''not'')"
| "kindString tQuoted = asRunes ''a quoted value''"
| "kindString tWord = asRunes ''a value''"

text \<open>No rune outside ASCII lower-cases or folds to a letter of these words, so the ASCII lower case decides.\<close>

definition kqlKeywords :: "runes \<Rightarrow> tokKind option" where
  "kqlKeywords s =
     (if s = asRunes ''and'' then Some tAnd else if s = asRunes ''or'' then Some tOr
      else if s = asRunes ''not'' then Some tNot else None)"

definition isSpecial :: "rune \<Rightarrow> bool" where
  "isSpecial r \<longleftrightarrow> r \<in> {40, 41, 58, 60, 62, 34, 123, 125}"

definition cmpKind :: "runes \<Rightarrow> tokKind \<times> nat" where
  "cmpKind rs =
     (let lt = (hd rs = 60) in
      if length rs > 1 \<and> rs ! 1 = 61 then (if lt then tLte else tGte, 2) else (if lt then tLt else tGt, 1))"

text \<open>The runes after the opening quote; the result is the text and what follows the closing quote.\<close>

fun lexQuoted :: "runes \<Rightarrow> runes \<Rightarrow> (runes \<times> runes) option" where
  "lexQuoted b [] = None"
| "lexQuoted b [c] = (if c = quoteRune then Some (b, []) else None)"
| "lexQuoted b (c # d # rs) =
     (if c = bslashRune \<and> (d = quoteRune \<or> d = bslashRune) then lexQuoted (b @ [d]) rs
      else if c = quoteRune then Some (b, d # rs)
      else lexQuoted (b @ [c]) (d # rs))"

definition escapedKeyword :: "runes \<Rightarrow> runes" where
  "escapedKeyword rs =
     (if TableRef.asciiLower (take 3 rs) = asRunes ''and'' then take 3 rs
      else if TableRef.asciiLower (take 2 rs) = asRunes ''or'' then take 2 rs
      else if TableRef.asciiLower (take 3 rs) = asRunes ''not'' then take 3 rs
      else [])"

text \<open>What an escape writes and how many runes it takes, the backslash included.\<close>

definition lexEscape :: "runes \<Rightarrow> runes \<times> nat" where
  "lexEscape rest =
     (let kw = escapedKeyword rest; nx = hd rest in
      if kw \<noteq> [] then (kw, 1 + length kw)
      else if isSpecial nx \<or> nx = starRune \<or> nx = bslashRune then ([nx], 2)
      else if nx = 116 then ([9], 2)
      else if nx = 110 then ([10], 2)
      else if nx = 114 then ([13], 2)
      else ([bslashRune], 1))"

definition flushText :: "runes \<Rightarrow> KqlPart list \<Rightarrow> KqlPart list" where
  "flushText cur acc = (if cur \<noteq> [] then acc @ [\<lparr>kp_text = cur, kp_star = False\<rparr>] else acc)"

lemma lexEscape_pos: "0 < snd (lexEscape rest)"
  by (simp add: lexEscape_def Let_def)

function lexWord :: "runes \<Rightarrow> KqlPart list \<Rightarrow> bool \<Rightarrow> runes \<Rightarrow> KqlPart list \<times> runes \<times> bool" where
  "lexWord cur acc escaped rs =
     (case rs of
        [] \<Rightarrow> (flushText cur acc, [], escaped)
      | c # rest \<Rightarrow>
          if isSpaceRune c \<or> isSpecial c then (flushText cur acc, rs, escaped)
          else if c = starRune then lexWord [] (flushText cur acc @ [\<lparr>kp_text = [], kp_star = True\<rparr>]) escaped rest
          else if c = bslashRune \<and> rest \<noteq> [] then
            lexWord (cur @ fst (lexEscape rest)) acc True (drop (snd (lexEscape rest)) rs)
          else lexWord (cur @ [c]) acc escaped rest)"
  by pat_completeness auto
termination
proof (relation "measure (\<lambda>(cur, acc, escaped, rs). length rs)", goal_cases)
  case (3 cur acc escaped rs c rest)
  then show ?case using lexEscape_pos [of rest] by simp
qed auto

declare lexWord.simps [simp del]

lemma lexWord_Nil: "lexWord cur acc escaped [] = (flushText cur acc, [], escaped)"
  by (simp add: lexWord.simps)

lemma lexWord_Cons:
  "lexWord cur acc escaped (c # rest) =
     (if isSpaceRune c \<or> isSpecial c then (flushText cur acc, c # rest, escaped)
      else if c = starRune then lexWord [] (flushText cur acc @ [\<lparr>kp_text = [], kp_star = True\<rparr>]) escaped rest
      else if c = bslashRune \<and> rest \<noteq> [] then
        lexWord (cur @ fst (lexEscape rest)) acc True (drop (snd (lexEscape rest) - 1) rest)
      else lexWord (cur @ [c]) acc escaped rest)"
  using lexEscape_pos [of rest] by (subst lexWord.simps) (simp add: drop_Cons')

lemma lexWord_shrinks: "length (fst (snd (lexWord cur acc escaped rs))) \<le> length rs"
proof (induction rs arbitrary: cur acc escaped rule: measure_induct_rule [of length])
  case (less rs)
  show ?case
  proof (cases rs)
    case (Cons c cs)
    have "length (drop n cs) < length rs" for n by (simp add: Cons)
    note d = less.IH [OF this]
    then have "length (fst (snd (lexWord cur' acc' e' (drop n cs)))) \<le> length rs" for cur' acc' e' n
      using order_trans [OF d] by (metis Cons diff_le_self le_Suc_eq length_Cons length_drop)
    from this this [of _ _ _ 0] show ?thesis by (simp add: Cons lexWord_Cons)
  qed (simp add: lexWord_Nil)
qed

lemma lexWord_consumes:
  assumes "\<not> isSpaceRune c" and "\<not> isSpecial c"
  shows "length (fst (snd (lexWord cur acc escaped (c # rs)))) \<le> length rs"
proof -
  have "length (fst (snd (lexWord cur' acc' e' (drop n rs)))) \<le> length rs" for cur' acc' e' n
    using order_trans [OF lexWord_shrinks] by (metis diff_le_self length_drop)
  from this this [of _ _ _ 0] show ?thesis using assms by (simp add: lexWord_Cons)
qed

lemma lexQuoted_shrinks: "lexQuoted b rs = Some (t, rest) \<Longrightarrow> length rest < length rs"
  by (induction b rs arbitrary: rest rule: lexQuoted.induct) (auto split: if_splits dest: less_SucI)

definition simpleKind :: "rune \<Rightarrow> tokKind option" where
  "simpleKind c =
     (if c = 40 then Some tLParen else if c = 41 then Some tRParen else if c = 123 then Some tLBrace
      else if c = 125 then Some tRBrace else if c = 58 then Some tColon else None)"

text \<open>
  One turn of the lexer's loop after the white space, at index \<open>i\<close>: the token, the index and the runes that
  follow it.
\<close>

definition lexOne :: "nat \<Rightarrow> nat \<Rightarrow> runes \<Rightarrow> runes \<Rightarrow> SyntaxError + token \<times> nat \<times> runes" where
  "lexOne srclen i space rs =
     (let c = hd rs;
          simple = (\<lambda>k n. Inr (\<lparr>tk_kind = k, tk_pos = i + 1, tk_space = space, tk_val = noValue, tk_raw = take n rs\<rparr>, i + n, drop n rs))
      in
      case simpleKind c of
        Some k \<Rightarrow> simple k 1
      | None \<Rightarrow>
          if c = 60 \<or> c = 62 then simple (fst (cmpKind rs)) (snd (cmpKind rs))
          else if c = quoteRune then
            (case lexQuoted [] (tl rs) of
               None \<Rightarrow> Inl \<lparr>se_Pos = srclen + 1, se_Expected = [curly [quoteRune]], se_Found = asRunes ''end of input''\<rparr>
             | Some (t, rest) \<Rightarrow>
                 let n = length rs - length rest in
                 Inr (\<lparr>tk_kind = tQuoted, tk_pos = i + 1, tk_space = space,
                       tk_val = \<lparr>kv_parts = [\<lparr>kp_text = t, kp_star = False\<rparr>], kv_quoted = True\<rparr>, tk_raw = take n rs\<rparr>, i + n, rest))
          else
            (case lexWord [] [] False rs of
               (acc, rest, escaped) \<Rightarrow>
                 let n = length rs - length rest;
                     raw = take n rs;
                     kind = (if escaped then tWord
                             else case kqlKeywords (TableRef.asciiLower raw) of Some k \<Rightarrow> k | None \<Rightarrow> tWord)
                 in Inr (\<lparr>tk_kind = kind, tk_pos = i + 1, tk_space = space, tk_val = \<lparr>kv_parts = acc, kv_quoted = False\<rparr>, tk_raw = raw\<rparr>,
                         i + n, rest)))"

lemma cmpKind_pos: "0 < snd (cmpKind rs)"
  by (simp add: cmpKind_def Let_def)

lemma isSpecial_cases: "isSpecial c \<longleftrightarrow> simpleKind c \<noteq> None \<or> c = 60 \<or> c = 62 \<or> c = quoteRune"
  by (auto simp: isSpecial_def simpleKind_def)

lemma lexOne_shrinks:
  assumes "lexOne srclen i space (c # rs) = Inr (t, j, rest)" and "\<not> isSpaceRune c"
  shows "length rest < length (c # rs)"
proof (cases "isSpecial c")
  case True
  then show ?thesis
    using assms(1) cmpKind_pos [of "c # rs"]
    by (auto simp: lexOne_def Let_def isSpecial_cases split: option.splits if_splits dest!: lexQuoted_shrinks)
next
  case False
  then show ?thesis
    using assms lexWord_consumes [of c "[]" "[]" False rs]
    by (auto simp: lexOne_def Let_def isSpecial_cases split: prod.splits)
qed

function lexLoop :: "nat \<Rightarrow> nat \<Rightarrow> runes \<Rightarrow> SyntaxError + token list" where
  "lexLoop srclen i rs =
     (let space = takeWhile isSpaceRune rs;
          rest = dropWhile isSpaceRune rs;
          i1 = i + length space
      in
      if rest = [] then Inr [\<lparr>tk_kind = tEOF, tk_pos = i1 + 1, tk_space = space, tk_val = noValue, tk_raw = []\<rparr>]
      else case lexOne srclen i1 space rest of
             Inl e \<Rightarrow> Inl e
           | Inr (t, j, rs') \<Rightarrow> rbind (lexLoop srclen j rs') (\<lambda>ts. Inr (t # ts)))"
  by pat_completeness auto
termination
proof (relation "measure (\<lambda>(srclen, i, rs). length rs)", goal_cases)
  case (2 srclen i rs space rest i1 p t q j rs')
  then obtain c cs where c: "dropWhile isSpaceRune rs = c # cs" by (cases "dropWhile isSpaceRune rs") auto
  then have "\<not> isSpaceRune c" by (metis hd_dropWhile list.distinct(1) list.sel(1))
  then have "length rs' < length (c # cs)" using 2 c by (intro lexOne_shrinks) auto
  moreover have "length (c # cs) \<le> length rs" using c by (metis length_dropWhile_le)
  ultimately show ?case by simp
qed simp

declare lexLoop.simps [simp del]

definition lex :: "runes \<Rightarrow> SyntaxError + token list" where
  "lex src = lexLoop (length src) 0 src"

section \<open>The parser\<close>

datatype KqlNode =
    orNode "KqlNode list"
  | andNode "KqlNode list"
  | notNode KqlNode
  | fieldNode KqlValue runes KqlValue
  | textNode KqlValue
  | nestedNode KqlValue KqlNode

type_synonym 'a parsed = "(SyntaxError + 'a \<times> token list) option"

definition parsedBind :: "'a parsed \<Rightarrow> ('a \<Rightarrow> token list \<Rightarrow> 'b parsed) \<Rightarrow> 'b parsed" where
  "parsedBind m f =
     (case m of
        None \<Rightarrow> None
      | Some (Inl e) \<Rightarrow> Some (Inl e)
      | Some (Inr (x, toks)) \<Rightarrow> f x toks)"

fun peekKind :: "token list \<Rightarrow> tokKind option" where
  "peekKind [] = None"
| "peekKind (t # toks) = Some (tk_kind t)"

definition nextToks :: "token list \<Rightarrow> token list" where
  "nextToks toks = (case toks of [] \<Rightarrow> [] | t # rest \<Rightarrow> if tk_kind t = tEOF then toks else rest)"

definition failWith :: "runes list \<Rightarrow> token list \<Rightarrow> 'a parsed" where
  "failWith expected toks =
     (case toks of
        [] \<Rightarrow> None
      | t # _ \<Rightarrow>
          Some (Inl \<lparr>se_Pos = tk_pos t, se_Expected = expected,
                     se_Found = (if tk_kind t = tWord \<or> tk_kind t = tQuoted then curly (tk_raw t) else kindString (tk_kind t))\<rparr>))"

text \<open>The words that follow a first one, with the white space between them.\<close>

fun wordRun :: "token list \<Rightarrow> KqlPart list \<times> token list" where
  "wordRun [] = ([], [])"
| "wordRun (t # toks) =
     (if tk_kind t = tWord then
        (case wordRun toks of (ps, rest) \<Rightarrow> (\<lparr>kp_text = tk_space t, kp_star = False\<rparr> # kv_parts (tk_val t) @ ps, rest))
      else ([], t # toks))"

definition parseValue :: "runes list \<Rightarrow> token list \<Rightarrow> KqlValue parsed" where
  "parseValue expected toks =
     (case toks of
        [] \<Rightarrow> None
      | t # rest \<Rightarrow>
          if tk_kind t = tQuoted then Some (Inr (tk_val t, rest))
          else if tk_kind t = tWord then
            (case wordRun rest of
               (ps, rest') \<Rightarrow> Some (Inr (\<lparr>kv_parts = kv_parts (tk_val t) @ ps, kv_quoted = False\<rparr>, rest')))
          else failWith expected toks)"

text \<open>
  The methods that call each other, by name.  \<open>NtOrRest\<close> and its companions are the loops of the methods,
  with the items collected so far.
\<close>

datatype NonTerminal =
    NtOr | NtOrRest "KqlNode list" | NtAnd | NtAndRest "KqlNode list" | NtNot | NtPrimary | NtFieldRest KqlValue
  | NtValueOr KqlValue | NtValueOrRest KqlValue "KqlNode list"
  | NtValueAnd KqlValue | NtValueAndRest KqlValue "KqlNode list" | NtValueNot KqlValue

type_synonym calling = "NonTerminal \<Rightarrow> token list \<Rightarrow> KqlNode parsed"

definition parseOr :: "calling \<Rightarrow> token list \<Rightarrow> KqlNode parsed" where
  "parseOr call toks = parsedBind (call NtAnd toks) (\<lambda>first. call (NtOrRest [first]))"

definition orLoop :: "calling \<Rightarrow> KqlNode list \<Rightarrow> token list \<Rightarrow> KqlNode parsed" where
  "orLoop call items toks =
     (if peekKind toks = None then None
      else if peekKind toks = Some tOr
      then parsedBind (call NtAnd (nextToks toks)) (\<lambda>n. call (NtOrRest (items @ [n])))
      else Some (Inr (if length items = 1 then hd items else orNode items, toks)))"

definition parseAnd :: "calling \<Rightarrow> token list \<Rightarrow> KqlNode parsed" where
  "parseAnd call toks = parsedBind (call NtNot toks) (\<lambda>first. call (NtAndRest [first]))"

definition andLoop :: "calling \<Rightarrow> KqlNode list \<Rightarrow> token list \<Rightarrow> KqlNode parsed" where
  "andLoop call items toks =
     (if peekKind toks = None then None
      else if peekKind toks = Some tAnd
      then parsedBind (call NtNot (nextToks toks)) (\<lambda>n. call (NtAndRest (items @ [n])))
      else Some (Inr (if length items = 1 then hd items else andNode items, toks)))"

definition parseNot :: "calling \<Rightarrow> token list \<Rightarrow> KqlNode parsed" where
  "parseNot call toks =
     (if peekKind toks = None then None
      else if peekKind toks = Some tNot
      then parsedBind (call NtNot (nextToks toks)) (\<lambda>child rest. Some (Inr (notNode child, rest)))
      else call NtPrimary toks)"

text \<open>What is expected to close a group, and the node when it is there.\<close>

definition closeWith :: "tokKind \<Rightarrow> KqlNode \<Rightarrow> token list \<Rightarrow> KqlNode parsed" where
  "closeWith k n toks =
     (if peekKind toks = None then None
      else if peekKind toks \<noteq> Some k then failWith [kindString k, kindString tAnd, kindString tOr] toks
      else Some (Inr (n, nextToks toks)))"

definition cmpKinds :: "tokKind list" where
  "cmpKinds = [tLt, tLte, tGt, tGte]"

definition parsePrimary :: "calling \<Rightarrow> token list \<Rightarrow> KqlNode parsed" where
  "parsePrimary call toks =
     (if peekKind toks = None then None
      else if peekKind toks = Some tLParen then parsedBind (call NtOr (nextToks toks)) (closeWith tRParen)
      else parsedBind (parseValue [asRunes ''a field'', asRunes ''a value'', kindString tLParen, kindString tNot] toks)
        (\<lambda>v toks1.
           case toks1 of
             [] \<Rightarrow> None
           | t # _ \<Rightarrow>
               if tk_kind t = tColon then call (NtFieldRest v) (nextToks toks1)
               else if tk_kind t \<in> set cmpKinds then
                 parsedBind (parseValue [asRunes ''a value''] (nextToks toks1))
                   (\<lambda>rv rest. Some (Inr (fieldNode v (tk_raw t) rv, rest)))
               else Some (Inr (textNode v, toks1))))"

definition parseFieldRest :: "calling \<Rightarrow> KqlValue \<Rightarrow> token list \<Rightarrow> KqlNode parsed" where
  "parseFieldRest call field toks =
     (if peekKind toks = None then None
      else if peekKind toks = Some tLParen then parsedBind (call (NtValueOr field) (nextToks toks)) (closeWith tRParen)
      else if peekKind toks = Some tLBrace then
        parsedBind (call NtOr (nextToks toks)) (\<lambda>n. closeWith tRBrace (nestedNode field n))
      else parsedBind (parseValue [asRunes ''a value'', kindString tLParen, kindString tLBrace] toks)
        (\<lambda>v rest. Some (Inr (fieldNode field (asRunes '':'') v, rest))))"

definition parseValueOr :: "calling \<Rightarrow> KqlValue \<Rightarrow> token list \<Rightarrow> KqlNode parsed" where
  "parseValueOr call field toks = parsedBind (call (NtValueAnd field) toks) (\<lambda>first. call (NtValueOrRest field [first]))"

definition valueOrLoop :: "calling \<Rightarrow> KqlValue \<Rightarrow> KqlNode list \<Rightarrow> token list \<Rightarrow> KqlNode parsed" where
  "valueOrLoop call field items toks =
     (if peekKind toks = None then None
      else if peekKind toks = Some tOr
      then parsedBind (call (NtValueAnd field) (nextToks toks)) (\<lambda>n. call (NtValueOrRest field (items @ [n])))
      else Some (Inr (if length items = 1 then hd items else orNode items, toks)))"

definition parseValueAnd :: "calling \<Rightarrow> KqlValue \<Rightarrow> token list \<Rightarrow> KqlNode parsed" where
  "parseValueAnd call field toks = parsedBind (call (NtValueNot field) toks) (\<lambda>first. call (NtValueAndRest field [first]))"

definition valueAndLoop :: "calling \<Rightarrow> KqlValue \<Rightarrow> KqlNode list \<Rightarrow> token list \<Rightarrow> KqlNode parsed" where
  "valueAndLoop call field items toks =
     (if peekKind toks = None then None
      else if peekKind toks = Some tAnd
      then parsedBind (call (NtValueNot field) (nextToks toks)) (\<lambda>n. call (NtValueAndRest field (items @ [n])))
      else Some (Inr (if length items = 1 then hd items else andNode items, toks)))"

definition parseValueNot :: "calling \<Rightarrow> KqlValue \<Rightarrow> token list \<Rightarrow> KqlNode parsed" where
  "parseValueNot call field toks =
     (if peekKind toks = None then None
      else if peekKind toks = Some tNot
      then parsedBind (call (NtValueNot field) (nextToks toks)) (\<lambda>child rest. Some (Inr (notNode child, rest)))
      else if peekKind toks = Some tLParen then parsedBind (call (NtValueOr field) (nextToks toks)) (closeWith tRParen)
      else parsedBind (parseValue [asRunes ''a value'', kindString tLParen, kindString tNot] toks)
        (\<lambda>v rest. Some (Inr (fieldNode field (asRunes '':'') v, rest))))"

fun parseBody :: "calling \<Rightarrow> NonTerminal \<Rightarrow> token list \<Rightarrow> KqlNode parsed" where
  "parseBody call NtOr = parseOr call"
| "parseBody call (NtOrRest items) = orLoop call items"
| "parseBody call NtAnd = parseAnd call"
| "parseBody call (NtAndRest items) = andLoop call items"
| "parseBody call NtNot = parseNot call"
| "parseBody call NtPrimary = parsePrimary call"
| "parseBody call (NtFieldRest field) = parseFieldRest call field"
| "parseBody call (NtValueOr field) = parseValueOr call field"
| "parseBody call (NtValueOrRest field items) = valueOrLoop call field items"
| "parseBody call (NtValueAnd field) = parseValueAnd call field"
| "parseBody call (NtValueAndRest field items) = valueAndLoop call field items"
| "parseBody call (NtValueNot field) = parseValueNot call field"

primrec parseN :: "nat \<Rightarrow> calling" where
  "parseN 0 = (\<lambda>nt toks. None)"
| "parseN (Suc n) = parseBody (parseN n)"

text \<open>Fuel for a parse of \<open>n\<close> tokens.\<close>

definition kqlFuel :: "nat \<Rightarrow> nat" where
  "kqlFuel n = 8 * n + 8"

definition kqlParse :: "runes \<Rightarrow> (SyntaxError + KqlNode option) option" where
  "kqlParse src =
     (case lex src of
        Inl e \<Rightarrow> Some (Inl e)
      | Inr toks \<Rightarrow>
          (case peekKind toks of
             None \<Rightarrow> None
           | Some k \<Rightarrow>
               if k = tEOF then Some (Inr None)
               else
                 (case parseN (kqlFuel (length toks)) NtOr toks of
                    None \<Rightarrow> None
                  | Some (Inl e) \<Rightarrow> Some (Inl e)
                  | Some (Inr (n, rest)) \<Rightarrow>
                      (case peekKind rest of
                         None \<Rightarrow> None
                       | Some k' \<Rightarrow>
                           if k' \<noteq> tEOF
                           then map_option (\<lambda>r. case r of Inl e \<Rightarrow> Inl e | Inr (x, _) \<Rightarrow> Inr x)
                                  (failWith [kindString tAnd, kindString tOr, kindString tEOF] rest)
                           else Some (Inr (Some n))))))"

section \<open>The parser returns\<close>

text \<open>The tokens of a parse: none but the last is the end of the input.\<close>

definition endsInput :: "token list \<Rightarrow> bool" where
  "endsInput toks \<longleftrightarrow> toks \<noteq> [] \<and> tk_kind (last toks) = tEOF \<and> list_all (\<lambda>t. tk_kind t \<noteq> tEOF) (butlast toks)"

fun rank :: "NonTerminal \<Rightarrow> nat" where
  "rank NtOr = 5"
| "rank NtAnd = 4"
| "rank NtNot = 3"
| "rank NtPrimary = 2"
| "rank (NtFieldRest f) = 1"
| "rank (NtValueOr f) = 5"
| "rank (NtValueAnd f) = 4"
| "rank (NtValueNot f) = 3"
| "rank nt = 0"

fun isLoop :: "NonTerminal \<Rightarrow> bool" where
  "isLoop (NtOrRest items) = True"
| "isLoop (NtAndRest items) = True"
| "isLoop (NtValueOrRest f items) = True"
| "isLoop (NtValueAndRest f items) = True"
| "isLoop nt = False"

text \<open>
  \<open>returns toks strict r\<close>: a result, with no more tokens left than there were, and fewer when \<open>strict\<close>; an error
  is at the position of one of the tokens.
\<close>

definition returns :: "token list \<Rightarrow> bool \<Rightarrow> 'a parsed \<Rightarrow> bool" where
  "returns toks strict r =
     (case r of
        None \<Rightarrow> False
      | Some (Inl e) \<Rightarrow> se_Pos e \<in> tk_pos ` set toks
      | Some (Inr (x, rest)) \<Rightarrow> endsInput rest \<and> suffix rest toks \<and> (strict \<longrightarrow> length rest < length toks))"

lemma endsInput_Cons: "endsInput (t # toks) \<longleftrightarrow> (if toks = [] then tk_kind t = tEOF else tk_kind t \<noteq> tEOF \<and> endsInput toks)"
  by (auto simp: endsInput_def)

lemma endsInput_next:
  assumes "endsInput toks" and "peekKind toks = Some k" and "k \<noteq> tEOF"
  shows "endsInput (nextToks toks) \<and> suffix (nextToks toks) toks \<and> length (nextToks toks) < length toks"
  using assms by (cases toks) (auto simp: endsInput_Cons nextToks_def suffix_Cons split: if_splits)

lemma returns_bind:
  assumes "returns toks s m" and "\<And>x rest. endsInput rest \<Longrightarrow> suffix rest toks \<Longrightarrow> (s \<longrightarrow> length rest < length toks) \<Longrightarrow> returns rest s' (f x rest)"
    and "s'' \<longrightarrow> s \<or> s'"
  shows "returns toks s'' (parsedBind m f)"
proof (cases m)
  case None
  then show ?thesis using assms(1) by (simp add: returns_def)
next
  case (Some r)
  show ?thesis
  proof (cases r)
    case (Inl e)
    then show ?thesis using Some assms(1) by (simp add: returns_def parsedBind_def)
  next
    case (Inr p)
    obtain x rest where p: "p = (x, rest)" by fastforce
    have r: "endsInput rest" "suffix rest toks" "s \<longrightarrow> length rest < length toks"
      using assms(1) Some Inr p by (auto simp: returns_def)
    have "set rest \<subseteq> set toks" "length rest \<le> length toks" using r(2) by (auto simp: set_mono_suffix suffix_length_le)
    then show ?thesis
      using assms(2) [OF r, of x] assms(3) r(2,3)
      by (auto simp: returns_def parsedBind_def Some Inr p split: option.splits sum.splits dest: suffix_order.trans)
        (meson suffix_length_le le_less_trans)
  qed
qed

lemma returns_fail: "endsInput toks \<Longrightarrow> returns toks s (failWith expected toks)"
  by (cases toks) (simp_all add: returns_def failWith_def endsInput_def)

lemma returns_mono:
  "returns toks' s r \<Longrightarrow> suffix toks' toks \<Longrightarrow> length toks' < length toks \<Longrightarrow> returns toks s' r"
  by (auto simp: returns_def split: option.splits sum.splits dest: suffix_order.trans set_mono_suffix)
    (meson suffix_length_le le_less_trans)

lemma wordRun_suffix: "endsInput toks \<Longrightarrow> endsInput (snd (wordRun toks)) \<and> suffix (snd (wordRun toks)) toks"
  by (induction toks) (auto simp: endsInput_Cons case_prod_beta suffix_Cons split: if_splits)

lemma returns_value: "endsInput toks \<Longrightarrow> returns toks True (parseValue expected toks)"
proof (cases toks)
  case (Cons t rest)
  assume e: "endsInput toks"
  then have "tk_kind t = tEOF \<or> endsInput rest" by (auto simp: Cons endsInput_Cons split: if_splits)
  then show ?thesis
    using returns_fail [OF e] wordRun_suffix [of rest] suffix_length_le [of "snd (wordRun rest)" rest]
    by (auto simp: Cons parseValue_def returns_def case_prod_beta suffix_Cons)
qed (simp add: endsInput_def)

lemma returns_close: "endsInput toks \<Longrightarrow> k \<noteq> tEOF \<Longrightarrow> returns toks True (closeWith k n toks)"
  using returns_fail [of toks True] endsInput_next [of toks k]
  by (cases "peekKind toks") (auto simp: closeWith_def returns_def endsInput_def neq_Nil_conv split: if_splits)

lemma peek_some: "endsInput toks \<Longrightarrow> \<exists>k. peekKind toks = Some k"
  by (cases toks) (auto simp: endsInput_def)

lemma returns_after:
  assumes "endsInput toks" and "peekKind toks = Some k" and "k \<noteq> tEOF" and "endsInput (nextToks toks) \<Longrightarrow> length (nextToks toks) < length toks \<Longrightarrow> returns (nextToks toks) s r"
  shows "returns toks s' r"
  using endsInput_next [OF assms(1-3)] assms(4) returns_mono by blast

lemma returns_weaken: "returns toks True r \<Longrightarrow> returns toks s r"
  by (auto simp: returns_def split: option.splits sum.splits)

lemma returns_stop: "endsInput toks \<Longrightarrow> returns toks False (Some (Inr (x, toks)))"
  by (simp add: returns_def)

definition callsReturn :: "calling \<Rightarrow> nat \<Rightarrow> bool" where
  "callsReturn call b \<longleftrightarrow>
     (\<forall>nt toks. endsInput toks \<and> 8 * length toks + rank nt < b \<longrightarrow> returns toks (\<not> isLoop nt) (call nt toks))"

lemma callsReturn_D: "callsReturn call b \<Longrightarrow> endsInput toks \<Longrightarrow> 8 * length toks + rank nt < b \<Longrightarrow> returns toks (\<not> isLoop nt) (call nt toks)"
  by (simp add: callsReturn_def)

lemma rank_le: "rank nt \<le> 5"
  by (cases nt) simp_all

lemma returns_seq:
  assumes c: "callsReturn call b" and toks: "endsInput toks" and "\<not> isLoop nt" and "8 * length toks + rank nt < b"
  shows "returns toks True (parsedBind (call nt toks) (\<lambda>x. call (g x)))"
proof (rule returns_bind)
  show "returns toks True (call nt toks)" using callsReturn_D [OF c toks assms(4)] assms(3) by simp
  fix x rest assume "endsInput rest" "True \<longrightarrow> length rest < length toks"
  then have "returns rest (\<not> isLoop (g x)) (call (g x) rest)"
    using assms(4) rank_le [of "g x"] by (intro callsReturn_D [OF c]) auto
  then show "returns rest False (call (g x) rest)" by (auto simp: returns_def split: option.splits sum.splits)
qed simp

lemma returns_next:
  assumes c: "callsReturn call b" and toks: "endsInput toks" and k: "peekKind toks = Some k" "k \<noteq> tEOF" and "\<not> isLoop nt"
    and b: "8 * length toks \<le> b"
    and f: "\<And>x rest. endsInput rest \<Longrightarrow> length rest < length toks \<Longrightarrow> returns rest False (f x rest)"
  shows "returns toks s (parsedBind (call nt (nextToks toks)) f)"
proof -
  note n = endsInput_next [OF toks k]
  have "returns (nextToks toks) (\<not> isLoop nt) (call nt (nextToks toks))"
    using n b rank_le [of nt] by (intro callsReturn_D [OF c]) auto
  then have "returns (nextToks toks) True (parsedBind (call nt (nextToks toks)) f)"
    using assms(5) n f by (intro returns_bind [where s = True and s' = False]) auto
  then show ?thesis using n returns_mono by blast
qed

lemma returns_loop:
  assumes c: "callsReturn call b" and "endsInput rest" and "8 * length rest + 5 < b"
  shows "returns rest False (call nt rest)"
proof -
  have "returns rest (\<not> isLoop nt) (call nt rest)" using assms rank_le [of nt] by (intro callsReturn_D [OF c]) auto
  then show ?thesis by (auto simp: returns_def split: option.splits sum.splits)
qed

lemma value_returns:
  assumes "endsInput toks" and "\<And>x rest. endsInput rest \<Longrightarrow> length rest < length toks \<Longrightarrow> returns rest False (f x rest)"
  shows "returns toks True (parsedBind (parseValue expected toks) f)"
  using assms by (intro returns_bind [OF returns_value, where s' = False]) auto

lemma primary_returns:
  assumes c: "callsReturn call b" and toks: "endsInput toks" and b: "8 * length toks + 2 = b"
  shows "returns toks True (parsePrimary call toks)"
proof -
  obtain k where k: "peekKind toks = Some k" using peek_some [OF toks] by blast
  have rest: "returns toks1 False
     (case toks1 of [] \<Rightarrow> None
      | t # _ \<Rightarrow> if tk_kind t = tColon then call (NtFieldRest v) (nextToks toks1)
               else if tk_kind t \<in> set cmpKinds then
                 parsedBind (parseValue [asRunes ''a value''] (nextToks toks1)) (\<lambda>rv rest. Some (Inr (fieldNode v (tk_raw t) rv, rest)))
               else Some (Inr (textNode v, toks1)))"
    if t: "endsInput toks1" "length toks1 < length toks" for v toks1
  proof (cases toks1)
    case (Cons t ts)
    have pk: "peekKind toks1 = Some (tk_kind t)" by (simp add: Cons)
    show ?thesis
    proof (cases "tk_kind t = tColon \<or> tk_kind t \<in> set cmpKinds")
      case True
      then have ne: "tk_kind t \<noteq> tEOF" by (auto simp: cmpKinds_def)
      note n = endsInput_next [OF t(1) pk ne]
      have "returns (nextToks toks1) False (call (NtFieldRest v) (nextToks toks1))"
        using n t(2) b by (intro returns_loop [OF c]) auto
      moreover have "returns (nextToks toks1) True (parsedBind (parseValue [asRunes ''a value''] (nextToks toks1))
          (\<lambda>rv rest. Some (Inr (fieldNode v (tk_raw t) rv, rest))))"
        using n by (intro value_returns) (auto intro: returns_stop)
      ultimately show ?thesis
        using True n returns_mono [of "nextToks toks1" _ _ toks1] by (auto simp: Cons)
    qed (use t(1) in \<open>auto simp: Cons intro: returns_stop\<close>)
  qed (use t in \<open>simp add: endsInput_def\<close>)
  show ?thesis
  proof (cases "k = tLParen")
    case True
    then show ?thesis
      using k toks b unfolding parsePrimary_def
      by (auto intro!: returns_next [OF c] returns_weaken [OF returns_close])
  qed (use k toks rest in \<open>auto simp: parsePrimary_def intro!: value_returns\<close>)
qed

lemma body_returns:
  assumes toks: "endsInput toks" and c: "callsReturn call (8 * length toks + rank nt)"
  shows "returns toks (\<not> isLoop nt) (parseBody call nt toks)"
proof -
  obtain k where k: "peekKind toks = Some k" using peek_some [OF toks] by blast
  have b: "8 * length toks \<le> 8 * length toks + rank nt" by simp
  have lp: "returns rest False (call nt' rest)" if "endsInput rest" "length rest < length toks" for rest nt'
    using that by (intro returns_loop [OF c]) auto
  have close: "returns rest False (closeWith k' n rest)" if "endsInput rest" "k' \<noteq> tEOF" for rest k' n
    by (rule returns_weaken [OF returns_close [OF that]])
  have group: "returns toks True (parsedBind (call nt' (nextToks toks)) (\<lambda>n. closeWith k' (g n)))"
    if "k \<noteq> tEOF" "k' \<noteq> tEOF" "\<not> isLoop nt'" for nt' k' g
    by (rule returns_next [OF c toks k that(1,3) b]) (rule close [OF _ that(2)])
  have stops: "returns toks True (parsedBind (call nt' (nextToks toks)) (\<lambda>x rest. Some (Inr (g x, rest))))"
    if "k \<noteq> tEOF" "\<not> isLoop nt'" for nt' g
    by (rule returns_next [OF c toks k that b]) (rule returns_stop)
  have loops: "returns toks False (parsedBind (call nt' (nextToks toks)) (\<lambda>n. call (g n)))" if "k \<noteq> tEOF" "\<not> isLoop nt'" for nt' g
    by (rule returns_next [OF c toks k that b]) (rule lp)
  have val: "returns toks True (parsedBind (parseValue expected toks) (\<lambda>v rest. Some (Inr (g v, rest))))" for expected g
    by (rule value_returns [OF toks]) (rule returns_stop)
  have halt: "returns toks False (Some (Inr (x, toks)))" for x :: KqlNode by (rule returns_stop [OF toks])
  show ?thesis
  proof (cases nt)
    case NtPrimary
    then show ?thesis using primary_returns [OF c toks] by simp
  next
    case (NtFieldRest f)
    then show ?thesis using group [of tRParen "NtValueOr f" "\<lambda>n. n"] group [of tRBrace NtOr "nestedNode f"]
        val [of _ "fieldNode f (asRunes '':'')"] by (simp add: parseFieldRest_def k)
  next
    case (NtValueNot f)
    then show ?thesis using group [of tRParen "NtValueOr f" "\<lambda>n. n"] stops [of "NtValueNot f" notNode]
        val [of _ "fieldNode f (asRunes '':'')"] by (simp add: parseValueNot_def k)
  next
    case NtNot
    then have "returns toks True (call NtPrimary toks)" using callsReturn_D [OF c toks, of NtPrimary] by simp
    then show ?thesis using NtNot stops [of NtNot notNode] by (simp add: parseNot_def k)
  next
    case NtOr
    then show ?thesis using returns_seq [OF c toks, of NtAnd] by (simp add: parseOr_def)
  next
    case NtAnd
    then show ?thesis using returns_seq [OF c toks, of NtNot] by (simp add: parseAnd_def)
  next
    case (NtValueOr f)
    then show ?thesis using returns_seq [OF c toks, of "NtValueAnd f"] by (simp add: parseValueOr_def)
  next
    case (NtValueAnd f)
    then show ?thesis using returns_seq [OF c toks, of "NtValueNot f"] by (simp add: parseValueAnd_def)
  next
    case (NtOrRest items)
    then show ?thesis using loops [of NtAnd] halt by (simp add: orLoop_def k)
  next
    case (NtAndRest items)
    then show ?thesis using loops [of NtNot] halt by (simp add: andLoop_def k)
  next
    case (NtValueOrRest f items)
    then show ?thesis using loops [of "NtValueAnd f"] halt by (simp add: valueOrLoop_def k)
  next
    case (NtValueAndRest f items)
    then show ?thesis using loops [of "NtValueNot f"] halt by (simp add: valueAndLoop_def k)
  qed
qed

lemma parseN_returns: "endsInput toks \<Longrightarrow> 8 * length toks + rank nt < n \<Longrightarrow> returns toks (\<not> isLoop nt) (parseN n nt toks)"
proof (induction n arbitrary: nt toks)
  case (Suc n)
  have "callsReturn (parseN n) (8 * length toks + rank nt)" using Suc.IH Suc.prems(2) by (simp add: callsReturn_def)
  then show ?case using body_returns [OF Suc.prems(1)] by simp
qed simp

section \<open>The lexer loses nothing\<close>

lemma lexWord_suffix: "suffix (fst (snd (lexWord cur acc escaped rs))) rs"
proof (induction rs arbitrary: cur acc escaped rule: measure_induct_rule [of length])
  case (less rs)
  show ?case
  proof (cases rs)
    case (Cons c cs)
    have "suffix (fst (snd (lexWord cur' acc' e' (drop n cs)))) rs" for cur' acc' e' n
    proof -
      have "suffix (fst (snd (lexWord cur' acc' e' (drop n cs)))) (drop n cs)" by (rule less.IH) (simp add: Cons)
      then have "suffix (fst (snd (lexWord cur' acc' e' (drop n cs)))) cs" by (rule suffix_order.trans [OF _ suffix_drop])
      then show ?thesis by (simp add: Cons suffix_Cons)
    qed
    from this this [of _ _ _ 0] show ?thesis unfolding Cons by (subst lexWord_Cons) (auto split: if_splits)
  qed (simp add: lexWord_Nil)
qed

lemma lexQuoted_suffix: "lexQuoted b rs = Some (t, rest) \<Longrightarrow> suffix rest rs"
  by (induction b rs arbitrary: rest rule: lexQuoted.induct) (auto simp: suffix_Cons split: if_splits)

lemma suffix_take: "suffix rest rs \<Longrightarrow> take (length rs - length rest) rs @ rest = rs"
  by (auto simp: suffix_def)

lemma cmpKind_le: "rs \<noteq> [] \<Longrightarrow> snd (cmpKind rs) \<le> length rs"
  by (auto simp: cmpKind_def Let_def Suc_leI)

lemma kqlKeywords_kind: "kqlKeywords s = Some k \<Longrightarrow> k \<noteq> tEOF"
  by (auto simp: kqlKeywords_def split: if_splits)

lemma simpleKind_kind: "simpleKind c = Some k \<Longrightarrow> k \<noteq> tEOF"
  by (auto simp: simpleKind_def split: if_splits)

lemma cmpKind_kind: "fst (cmpKind rs) \<noteq> tEOF"
  by (simp add: cmpKind_def Let_def)

lemma lexOne_token:
  assumes "lexOne srclen i space rs = Inr (t, j, rest)" and "rs \<noteq> []"
  shows "tk_raw t @ rest = rs \<and> j = i + length (tk_raw t) \<and> tk_pos t = i + 1 \<and> tk_space t = space \<and> tk_kind t \<noteq> tEOF"
proof -
  have w: "suffix (fst (snd (lexWord [] [] False rs))) rs" by (rule lexWord_suffix)
  consider k where "simpleKind (hd rs) = Some k" | "simpleKind (hd rs) = None" "hd rs = 60 \<or> hd rs = 62"
    | "simpleKind (hd rs) = None" "hd rs = quoteRune" | "simpleKind (hd rs) = None" "hd rs \<notin> {60, 62, quoteRune}" 
    by (cases "simpleKind (hd rs)"; cases "hd rs = quoteRune"; cases "hd rs = 60 \<or> hd rs = 62") simp_all
  then show ?thesis
  proof cases
    case 1
    then show ?thesis using assms simpleKind_kind by (cases rs) (auto simp: lexOne_def Let_def)
  next
    case 2
    then show ?thesis
      using assms cmpKind_kind [of rs] cmpKind_le [of rs] by (auto simp: lexOne_def Let_def)
  next
    case 3
    then obtain q where q: "lexQuoted [] (tl rs) = Some (q, rest)" using assms by (auto simp: lexOne_def Let_def split: option.splits)
    have "suffix rest rs" using lexQuoted_suffix [OF q] assms(2) by (metis suffix_Cons suffix_order.trans suffix_tl)
    then show ?thesis using 3 assms(1) q suffix_take [of rest rs] by (auto simp: lexOne_def Let_def)
  next
    case 4
    obtain acc r e where l: "lexWord [] [] False rs = (acc, r, e)" by (metis prod_cases3)
    then show ?thesis
      using 4 assms(1) w suffix_take [of r rs] kqlKeywords_kind
      by (auto simp: lexOne_def Let_def split: option.splits if_splits)
  qed
qed

definition spellsFrom :: "nat \<Rightarrow> token list \<Rightarrow> bool" where
  "spellsFrom i toks \<longleftrightarrow>
     (\<forall>k<length toks. tk_pos (toks ! k) = i + length (concat (map (\<lambda>t. tk_space t @ tk_raw t) (take k toks))) + length (tk_space (toks ! k)) + 1)"

lemma spellsFrom_Cons:
  "spellsFrom i (t # toks) \<longleftrightarrow> tk_pos t = i + length (tk_space t) + 1 \<and> spellsFrom (i + length (tk_space t) + length (tk_raw t)) toks"
  by (auto simp: spellsFrom_def less_Suc_eq_0_disj add.assoc)

lemma lexLoop_tokens:
  "lexLoop n i rs = Inr toks \<Longrightarrow>
   endsInput toks \<and> concat (map (\<lambda>t. tk_space t @ tk_raw t) toks) = rs \<and> spellsFrom i toks"
proof (induction n i rs arbitrary: toks rule: lexLoop.induct)
  case (1 n i rs)
  let ?sp = "takeWhile isSpaceRune rs" and ?rest = "dropWhile isSpaceRune rs"
  show ?case
  proof (cases "?rest = []")
    case True
    then have "takeWhile isSpaceRune rs = rs" by (metis append_Nil2 takeWhile_dropWhile_id)
    moreover have "toks = [\<lparr>tk_kind = tEOF, tk_pos = i + length ?sp + 1, tk_space = ?sp, tk_val = noValue, tk_raw = []\<rparr>]"
      using 1(2) True by (subst (asm) lexLoop.simps) (simp add: Let_def)
    ultimately show ?thesis by (simp add: endsInput_def spellsFrom_def)
  next
    case False
    obtain t j rs' ts where l: "lexOne n (i + length ?sp) ?sp ?rest = Inr (t, j, rs')" "lexLoop n j rs' = Inr ts" "toks = t # ts"
      using 1(2) False
      by (subst (asm) lexLoop.simps) (auto simp: Let_def rbind_eq_Inr simp del: dropWhile_eq_Nil_conv split: sum.splits)
    note t = lexOne_token [OF l(1) False]
    have ih: "endsInput ts \<and> concat (map (\<lambda>t. tk_space t @ tk_raw t) ts) = rs' \<and> spellsFrom j ts"
      using 1(1) [OF refl refl refl False l(1)] l(2) by auto
    have "rs = ?sp @ tk_raw t @ rs'" using t by (metis takeWhile_dropWhile_id)
    then show ?thesis using t ih l(3) by (auto simp: endsInput_Cons spellsFrom_Cons endsInput_def)
  qed
qed

lemma lexLoop_error: "lexLoop n i rs = Inl e \<Longrightarrow> se_Pos e = n + 1"
proof (induction n i rs rule: lexLoop.induct)
  case (1 n i rs)
  let ?sp = "takeWhile isSpaceRune rs" and ?rest = "dropWhile isSpaceRune rs"
  have r: "?rest \<noteq> []"
  proof
    assume "?rest = []"
    then show False using 1(2) by (subst (asm) lexLoop.simps) (simp add: Let_def)
  qed
  show ?case
  proof (cases "lexOne n (i + length ?sp) ?sp ?rest")
    case (Inl e')
    then have "e = e'" using 1(2) r by (subst (asm) lexLoop.simps) (simp add: Let_def del: dropWhile_eq_Nil_conv)
    then show ?thesis using Inl by (auto simp: lexOne_def Let_def split: option.splits if_splits prod.splits)
  next
    case (Inr p)
    obtain t j rs' where p: "p = (t, j, rs')" by (metis prod_cases3)
    have "lexLoop n j rs' = Inl e"
      using 1(2) r Inr p
      by (subst (asm) lexLoop.simps) (simp add: Let_def rbind_def del: dropWhile_eq_Nil_conv split: sum.splits)
    then show ?thesis using 1(1) [OF refl refl refl r Inr p [symmetric] refl] by blast
  qed
qed

lemma spells_bound:
  assumes "spellsFrom 0 toks" and "concat (map (\<lambda>t. tk_space t @ tk_raw t) toks) = rs" and "t \<in> set toks"
  shows "1 \<le> tk_pos t \<and> tk_pos t \<le> length rs + 1"
proof -
  obtain k where k: "k < length toks" "toks ! k = t" using assms(3) by (metis in_set_conv_nth)
  let ?f = "\<lambda>t. tk_space t @ tk_raw t"
  have "toks = take k toks @ t # drop (Suc k) toks" using k id_take_nth_drop by metis
  from arg_cong [OF this, of "\<lambda>ts. concat (map ?f ts)"]
  have "rs = concat (map ?f (take k toks)) @ ?f t @ concat (map ?f (drop (Suc k) toks))" using assms(2) by simp
  then have "length (concat (map ?f (take k toks))) + length (tk_space t) \<le> length rs" by simp
  then show ?thesis using assms(1) k by (auto simp: spellsFrom_def)
qed

lemma query_returns:
  "\<exists>r. kqlParse src = Some r \<and> (case r of Inl e \<Rightarrow> 1 \<le> se_Pos e \<and> se_Pos e \<le> length src + 1 | Inr n \<Rightarrow> True)"
proof (cases "lex src")
  case (Inl e)
  then show ?thesis using lexLoop_error [of "length src" 0 src e] by (simp add: kqlParse_def lex_def)
next
  case (Inr toks)
  then have t: "endsInput toks" "concat (map (\<lambda>t. tk_space t @ tk_raw t) toks) = src" "spellsFrom 0 toks"
    using lexLoop_tokens by (auto simp: lex_def)
  obtain k where k: "peekKind toks = Some k" using peek_some [OF t(1)] by blast
  have r: "returns toks True (parseN (kqlFuel (length toks)) NtOr toks)"
    using parseN_returns [OF t(1), of NtOr "kqlFuel (length toks)"] by (simp add: kqlFuel_def)
  have pos: "1 \<le> i \<and> i \<le> length src + 1" if "i \<in> tk_pos ` set toks" for i
    using that spells_bound [OF t(3,2)] by auto
  show ?thesis
  proof (cases "k = tEOF")
    case False
    consider e where "parseN (kqlFuel (length toks)) NtOr toks = Some (Inl e)" "se_Pos e \<in> tk_pos ` set toks"
      | n rest where "parseN (kqlFuel (length toks)) NtOr toks = Some (Inr (n, rest))" "endsInput rest" "suffix rest toks"
      using r by (auto simp: returns_def split: option.splits sum.splits)
    then show ?thesis
    proof cases
      case 1
      then show ?thesis using Inr k False pos [of "se_Pos e"] by (auto simp: kqlParse_def)
    next
      case 2
      obtain x ts where x: "rest = x # ts" using 2(2) by (cases rest) (auto simp: endsInput_def)
      have "tk_pos x \<in> tk_pos ` set toks" using 2(3) by (metis imageI list.set_intros(1) set_mono_suffix subsetD x)
      then show ?thesis using Inr k False 2(1) x pos [of "tk_pos x"] by (auto simp: kqlParse_def failWith_def)
    qed
  qed (use Inr k in \<open>simp add: kqlParse_def\<close>)
qed

text \<open>
  C37: Parsing always returns, with no index past the tokens and no endless recursion, whatever the query; an
  error it reports is at a position of the query or right behind its end.
\<close>

theorem kql_parse_terminates:
  "\<exists>r. kqlParse src = Some r \<and> (case r of Inl e \<Rightarrow> 1 \<le> se_Pos e \<and> se_Pos e \<le> length src + 1 | Inr n \<Rightarrow> True)"
  by (rule query_returns)

end
