(* ===== verification/KqlGrammar.thy ===== *)
theory KqlGrammar
  imports Kql
begin

text \<open>
  The grammar of the Kibana query language as a printer, and the proof that the lexer and the parser of
  \<^verbatim>\<open>adapters/kibana/kql\<close> read every printed query back: \<open>not\<close> binds tighter than \<open>and\<close>, \<open>and\<close> tighter than \<open>or\<close>,
  words keep the white space between them, escapes and quotes are undone, and a group after a field
  distributes the field over its values.

  The two boolean layers of the grammar, over clauses and over the values of one field, are parsed by two
  copies of the same methods; the locale \<open>boolean_layer\<close> states what each copy does and proves the layer once.
\<close>

section \<open>Lexemes\<close>

datatype Lexeme = LxSym tokKind | LxQuoted runes | LxWord "KqlPart list"

fun symText :: "tokKind \<Rightarrow> runes" where
  "symText tLParen = [40]"
| "symText tRParen = [41]"
| "symText tLBrace = [123]"
| "symText tRBrace = [125]"
| "symText tColon = [58]"
| "symText tLt = [60]"
| "symText tLte = [60, 61]"
| "symText tGt = [62]"
| "symText tGte = [62, 61]"
| "symText tAnd = asRunes ''and''"
| "symText tOr = asRunes ''or''"
| "symText tNot = asRunes ''not''"
| "symText k = []"

definition isSym :: "tokKind \<Rightarrow> bool" where
  "isSym k \<longleftrightarrow> k \<notin> {tEOF, tQuoted, tWord}"

definition showRune :: "rune \<Rightarrow> runes" where
  "showRune r = (if isSpecial r \<or> r = starRune \<or> r = bslashRune then [bslashRune, r] else [r])"

definition showPart :: "KqlPart \<Rightarrow> runes" where
  "showPart p = (if kp_star p then [starRune] else concat (map showRune (kp_text p)))"

definition showWord :: "KqlPart list \<Rightarrow> runes" where
  "showWord ps =
     (let raw = concat (map showPart ps)
      in if kqlKeywords (TableRef.asciiLower raw) \<noteq> None then bslashRune # raw else raw)"

definition showQuoted :: "runes \<Rightarrow> runes" where
  "showQuoted t = concat (map (\<lambda>r. if r = quoteRune \<or> r = bslashRune then [bslashRune, r] else [r]) t)"

fun lxText :: "Lexeme \<Rightarrow> runes" where
  "lxText (LxSym k) = symText k"
| "lxText (LxQuoted t) = quoteRune # showQuoted t @ [quoteRune]"
| "lxText (LxWord ps) = showWord ps"

definition wfPart :: "KqlPart \<Rightarrow> bool" where
  "wfPart p \<longleftrightarrow> (if kp_star p then kp_text p = [] else kp_text p \<noteq> [] \<and> list_all (\<lambda>r. \<not> isSpaceRune r) (kp_text p))"

fun wfParts :: "KqlPart list \<Rightarrow> bool" where
  "wfParts [] \<longleftrightarrow> True"
| "wfParts [p] \<longleftrightarrow> wfPart p"
| "wfParts (p # q # ps) \<longleftrightarrow> wfPart p \<and> (kp_star p \<or> kp_star q) \<and> wfParts (q # ps)"

definition wfWord :: "KqlPart list \<Rightarrow> bool" where
  "wfWord ps \<longleftrightarrow> ps \<noteq> [] \<and> wfParts ps"

fun wfLexeme :: "Lexeme \<Rightarrow> bool" where
  "wfLexeme (LxSym k) \<longleftrightarrow> isSym k"
| "wfLexeme (LxQuoted t) \<longleftrightarrow> True"
| "wfLexeme (LxWord ps) \<longleftrightarrow> wfWord ps"

definition spelt :: "runes \<times> Lexeme \<Rightarrow> token \<Rightarrow> bool" where
  "spelt x t \<longleftrightarrow> tk_space t = fst x \<and>
     (case snd x of
        LxSym k \<Rightarrow> tk_kind t = k \<and> tk_raw t = symText k
      | LxQuoted s \<Rightarrow> tk_kind t = tQuoted \<and> tk_val t = \<lparr>kv_parts = [\<lparr>kp_text = s, kp_star = False\<rparr>], kv_quoted = True\<rparr>
      | LxWord ps \<Rightarrow> tk_kind t = tWord \<and> tk_val t = \<lparr>kv_parts = ps, kv_quoted = False\<rparr>)"

definition render :: "(runes \<times> Lexeme) list \<Rightarrow> runes" where
  "render xs = concat (map (\<lambda>(sp, x). sp @ lxText x) xs)"

definition wfRender :: "(runes \<times> Lexeme) list \<Rightarrow> bool" where
  "wfRender xs \<longleftrightarrow> list_all (\<lambda>(sp, x). sp \<noteq> [] \<and> list_all isSpaceRune sp \<and> wfLexeme x) xs"

section \<open>Lexing what was rendered\<close>

text \<open>A word ends at the end of the input, at white space and at a special rune.\<close>

definition stops :: "runes \<Rightarrow> bool" where
  "stops rest \<longleftrightarrow> rest = [] \<or> isSpaceRune (hd rest) \<or> isSpecial (hd rest)"

lemma special_not_space: "isSpecial r \<Longrightarrow> \<not> isSpaceRune r"
  by (auto simp: isSpecial_def isSpaceRune_def)

lemma mark_not_space [simp]: "\<not> isSpaceRune 42" "\<not> isSpaceRune 92" "\<not> isSpecial 42" "\<not> isSpecial 92"
  by (simp_all add: isSpecial_def isSpaceRune_def)

lemma lexWord_stop: "stops rest \<Longrightarrow> lexWord cur acc e rest = (flushText cur acc, rest, e)"
  by (cases rest) (auto simp: stops_def lexWord_Nil lexWord_Cons)

lemma escape_mark:
  assumes "isSpecial r \<or> r = starRune \<or> r = bslashRune"
  shows "lexEscape (r # rest) = ([r], 2)"
proof -
  have "r \<notin> {65, 97, 79, 111, 78, 110}" using assms by (auto simp: isSpecial_def)
  then have "escapedKeyword (r # rest) = []"
    by (auto simp: escapedKeyword_def TableRef.asciiLower_def asRunes_def take_Cons' split: if_splits)
  then show ?thesis using assms by (simp add: lexEscape_def Let_def)
qed

definition marked :: "rune \<Rightarrow> bool" where
  "marked r \<longleftrightarrow> isSpecial r \<or> r = starRune \<or> r = bslashRune"

lemma lexWord_rune: "\<not> isSpaceRune r \<Longrightarrow> lexWord cur acc e (showRune r @ rest) = lexWord (cur @ [r]) acc (e \<or> marked r) rest"
  by (auto simp: showRune_def lexWord_Cons escape_mark marked_def)

lemma lexWord_text:
  "list_all (\<lambda>r. \<not> isSpaceRune r) t \<Longrightarrow>
   lexWord cur acc e (concat (map showRune t) @ rest) = lexWord (cur @ t) acc (e \<or> list_ex marked t) rest"
  by (induction t arbitrary: cur e) (simp_all add: lexWord_rune disj_assoc)

lemma lexWord_parts:
  "wfParts ps \<Longrightarrow> cur = [] \<or> ps = [] \<or> kp_star (hd ps) \<Longrightarrow> stops rest \<Longrightarrow>
   lexWord cur acc e (concat (map showPart ps) @ rest) = (flushText cur acc @ ps, rest, e \<or> list_ex (\<lambda>p. list_ex marked (kp_text p)) ps)"
proof (induction ps arbitrary: cur acc e)
  case Nil
  then show ?case by (simp add: lexWord_stop)
next
  case (Cons p ps)
  have p: "wfPart p" and ps: "wfParts ps" using Cons.prems(1) by (cases ps; simp)+
  show ?case
  proof (cases "kp_star p")
    case True
    have "p = \<lparr>kp_text = [], kp_star = True\<rparr>" using p True by (simp add: wfPart_def)
    then show ?thesis
      using Cons.IH [OF ps _ Cons.prems(3), of "[]" "flushText cur acc @ [p]" e] by (simp add: showPart_def lexWord_Cons flushText_def)
  next
    case False
    have t: "kp_text p \<noteq> []" "list_all (\<lambda>r. \<not> isSpaceRune r) (kp_text p)" "p = \<lparr>kp_text = kp_text p, kp_star = False\<rparr>"
      using p False by (simp_all add: wfPart_def)
    have cur: "cur = []" using Cons.prems(2) False by simp
    have "ps = [] \<or> kp_star (hd ps)" using Cons.prems(1) False by (cases ps) auto
    then have "lexWord (kp_text p) acc e' (concat (map showPart ps) @ rest) =
        (flushText (kp_text p) acc @ ps, rest, e' \<or> list_ex (\<lambda>p. list_ex marked (kp_text p)) ps)" for e'
      using Cons.IH [OF ps _ Cons.prems(3)] by blast
    moreover have "showPart p = concat (map showRune (kp_text p))" using False by (simp add: showPart_def)
    moreover have "flushText (kp_text p) acc = acc @ [p]" using t by (simp add: flushText_def)
    ultimately show ?thesis using lexWord_text [OF t(2)] cur by (simp add: flushText_def disj_assoc)
  qed
qed

lemma keyword_runes:
  assumes "kqlKeywords (TableRef.asciiLower raw) = Some k"
  shows "raw \<noteq> [] \<and> 42 \<notin> set raw \<and> 92 \<notin> set raw"
proof -
  have "TableRef.asciiLower raw \<in> {asRunes ''and'', asRunes ''or'', asRunes ''not''}"
    using assms by (auto simp: kqlKeywords_def split: if_splits)
  then have "set (TableRef.asciiLower raw) \<subseteq> {97..122}" "TableRef.asciiLower raw \<noteq> []" by (auto simp: asRunes_def)
  then have "\<forall>r\<in>set raw. (if 65 \<le> r \<and> r \<le> 90 then r + 97 - 65 else r) \<in> {97..122}" "raw \<noteq> []"
    by (auto simp: TableRef.asciiLower_def)
  then show ?thesis by (auto split: if_splits)
qed

lemma showRune_plain: "92 \<notin> set (showRune r) \<Longrightarrow> showRune r = [r]"
  by (auto simp: showRune_def split: if_splits)

lemma part_runes: "p \<in> set ps \<Longrightarrow> set (showPart p) \<subseteq> set (concat (map showPart ps))"
  by auto

lemma keyword_parts:
  assumes "kqlKeywords (TableRef.asciiLower (concat (map showPart ps))) = Some k" and "wfWord ps"
  shows "ps = [\<lparr>kp_text = concat (map showPart ps), kp_star = False\<rparr>]"
proof -
  note r = keyword_runes [OF assms(1)]
  have ns: "\<not> kp_star p" if "p \<in> set ps" for p
  proof
    assume "kp_star p"
    then have "starRune \<in> set (showPart p)" by (simp add: showPart_def)
    then show False using part_runes [OF that] r by blast
  qed
  obtain p where p: "ps = [p]"
  proof (cases ps rule: wfParts.cases)
    case (3 p q qs)
    then show thesis using assms(2) ns by (auto simp: wfWord_def)
  qed (use assms(2) that in \<open>auto simp: wfWord_def\<close>)
  have "kp_text p = concat (map showRune (kp_text p))"
  proof -
    have "92 \<notin> set (showRune c)" if "c \<in> set (kp_text p)" for c
    proof
      assume "92 \<in> set (showRune c)"
      then have "92 \<in> set (showPart p)" using that ns [of p] p by (auto simp: showPart_def)
      then show False using part_runes [of p ps] r p by auto
    qed
    then have "concat (map showRune (kp_text p)) = concat (map (\<lambda>c. [c]) (kp_text p))"
      using showRune_plain by (intro arg_cong [of _ _ concat] map_cong) auto
    then show ?thesis by simp
  qed
  then show ?thesis using ns [of p] by (auto simp: p showPart_def)
qed

lemma escapedKeyword_word:
  assumes "kqlKeywords (TableRef.asciiLower raw) = Some k"
  shows "escapedKeyword (raw @ rest) = raw"
proof -
  have l: "length raw = length (TableRef.asciiLower raw)" by (simp add: TableRef.asciiLower_def)
  have t: "TableRef.asciiLower (take n xs) = take n (TableRef.asciiLower xs)" for n xs by (simp add: TableRef.asciiLower_def take_map)
  have a: "TableRef.asciiLower (raw @ rest) = TableRef.asciiLower raw @ TableRef.asciiLower rest" by (simp add: TableRef.asciiLower_def)
  from assms consider "TableRef.asciiLower raw = asRunes ''and''" | "TableRef.asciiLower raw = asRunes ''or''" | "TableRef.asciiLower raw = asRunes ''not''"
    by (auto simp: kqlKeywords_def split: if_splits)
  then show ?thesis using l by cases (simp_all add: escapedKeyword_def t a asRunes_def)
qed

lemma lexWord_show:
  assumes "wfWord ps" and "stops rest"
  shows "\<exists>e. lexWord [] [] False (showWord ps @ rest) = (ps, rest, e) \<and>
    (e \<or> kqlKeywords (TableRef.asciiLower (showWord ps)) = None)"
proof (cases "kqlKeywords (TableRef.asciiLower (concat (map showPart ps)))")
  case None
  then show ?thesis
    using lexWord_parts [of ps "[]" rest "[]" False] assms by (simp add: showWord_def Let_def wfWord_def flushText_def)
next
  case (Some k)
  let ?raw = "concat (map showPart ps)"
  have "?raw \<noteq> []" using keyword_runes [OF Some] by simp
  moreover have "lexEscape (?raw @ rest) = (?raw, 1 + length ?raw)"
    using escapedKeyword_word [OF Some, of rest] \<open>?raw \<noteq> []\<close> by (simp add: lexEscape_def Let_def)
  ultimately have "lexWord [] [] False (bslashRune # ?raw @ rest) = lexWord ?raw [] True rest"
    by (subst lexWord_Cons) simp
  also have "\<dots> = (ps, rest, True)"
    using lexWord_stop [OF assms(2)] keyword_parts [OF Some assms(1)] \<open>?raw \<noteq> []\<close> by (simp add: flushText_def)
  finally show ?thesis using Some by (intro exI [of _ True]) (simp add: showWord_def Let_def)
qed

lemma showWord_head:
  assumes "wfWord ps"
  obtains c cs where "showWord ps = c # cs" "\<not> isSpaceRune c" "\<not> isSpecial c"
proof (cases "kqlKeywords (TableRef.asciiLower (concat (map showPart ps)))")
  case None
  obtain p qs where ps: "ps = p # qs" using assms by (auto simp: wfWord_def neq_Nil_conv)
  then have p: "wfPart p" using assms by (cases qs) (auto simp: wfWord_def)
  have "\<exists>c cs. showPart p = c # cs \<and> \<not> isSpaceRune c \<and> \<not> isSpecial c"
  proof (cases "kp_star p")
    case False
    then obtain r rs where "kp_text p = r # rs" "\<not> isSpaceRune r" using p by (auto simp: wfPart_def neq_Nil_conv)
    then show ?thesis using False by (auto simp: showPart_def showRune_def)
  qed (simp add: showPart_def)
  then show thesis using that None by (auto simp: ps showWord_def Let_def)
qed (use that in \<open>simp add: showWord_def Let_def\<close>)

lemma lexQuoted_show: "lexQuoted b (showQuoted t @ quoteRune # rest) = Some (b @ t, rest)"
proof (induction t arbitrary: b)
  case Nil
  then show ?case by (cases rest) (simp_all add: showQuoted_def)
next
  case (Cons r t)
  obtain c cs where c: "showQuoted t @ quoteRune # rest = c # cs" by (cases "showQuoted t") auto
  have "showQuoted (r # t) = (if r = quoteRune \<or> r = bslashRune then [bslashRune, r] else [r]) @ showQuoted t"
    by (simp add: showQuoted_def)
  then show ?case using Cons.IH [of "b @ [r]"] c by auto
qed

lemma lexOne_word:
  assumes "wfWord ps" and "stops rest"
  shows "\<exists>t j. lexOne n i sp (showWord ps @ rest) = Inr (t, j, rest) \<and> spelt (sp, LxWord ps) t"
proof -
  obtain e where l: "lexWord [] [] False (showWord ps @ rest) = (ps, rest, e)" "e \<or> kqlKeywords (TableRef.asciiLower (showWord ps)) = None"
    using lexWord_show [OF assms] by blast
  obtain c cs where c: "showWord ps = c # cs" "\<not> isSpaceRune c" "\<not> isSpecial c" using showWord_head [OF assms(1)] .
  then have "simpleKind c = None" "c \<noteq> 60" "c \<noteq> 62" "c \<noteq> quoteRune" by (auto simp: isSpecial_cases)
  then show ?thesis using l c(1) by (auto simp: lexOne_def Let_def spelt_def)
qed

lemma lexOne_keyword:
  assumes "k \<in> {tAnd, tOr, tNot}" and "stops rest"
  shows "\<exists>t j. lexOne n i sp (symText k @ rest) = Inr (t, j, rest) \<and> spelt (sp, LxSym k) t"
proof -
  let ?p = "\<lparr>kp_text = symText k, kp_star = False\<rparr>"
  have s: "concat (map showPart [?p]) = symText k" "list_ex marked (symText k) = False" "wfParts [?p]"
    using assms(1) by (auto simp: showPart_def showRune_def isSpecial_def asRunes_def marked_def wfPart_def isSpaceRune_def)
  have l: "lexWord [] [] False (symText k @ rest) = ([?p], rest, False)"
    using lexWord_parts [OF s(3) _ assms(2), of "[]" "[]" False] s(1,2) by (simp add: flushText_def)
  have "kqlKeywords (TableRef.asciiLower (symText k)) = Some k" "simpleKind (hd (symText k)) = None"
    "hd (symText k) \<notin> {60, 62, quoteRune}" "symText k \<noteq> []"
    using assms(1) by (auto simp: kqlKeywords_def TableRef.asciiLower_def asRunes_def simpleKind_def)
  then show ?thesis using l by (auto simp: lexOne_def Let_def spelt_def)
qed

lemma lexOne_lexeme:
  assumes "wfLexeme x" and "stops rest"
  shows "\<exists>t j. lexOne n i sp (lxText x @ rest) = Inr (t, j, rest) \<and> spelt (sp, x) t"
proof (cases x)
  case (LxWord ps)
  then show ?thesis using lexOne_word assms by simp
next
  case (LxQuoted t)
  then show ?thesis using lexQuoted_show [of "[]" t rest] by (simp add: lexOne_def Let_def spelt_def simpleKind_def)
next
  case (LxSym k)
  have eq: "rest = [] \<or> hd rest \<noteq> 61" using assms(2) by (auto simp: stops_def isSpaceRune_def isSpecial_def)
  show ?thesis
  proof (cases "k \<in> {tAnd, tOr, tNot}")
    case True
    then show ?thesis using lexOne_keyword [OF _ assms(2)] LxSym by simp
  next
    case False
    then show ?thesis
      using assms(1) LxSym eq
      by (cases k; cases rest) (auto simp: isSym_def lexOne_def Let_def spelt_def simpleKind_def cmpKind_def)
  qed
qed

lemma lexeme_head:
  assumes "wfLexeme x"
  obtains c cs where "lxText x = c # cs" "\<not> isSpaceRune c"
proof (cases x)
  case (LxSym k)
  then show thesis using that assms by (cases k) (auto simp: isSym_def isSpaceRune_def asRunes_def)
next
  case (LxQuoted t)
  then show thesis using that by (simp add: isSpaceRune_def)
next
  case (LxWord ps)
  then have "wfWord ps" using assms by simp
  then obtain c cs where "showWord ps = c # cs" "\<not> isSpaceRune c" using showWord_head by blast
  then show thesis using that LxWord by simp
qed

text \<open>Every rendered query is lexed into the tokens of its lexemes, followed by the end of the input.\<close>

lemma render_stops: "wfRender xs \<Longrightarrow> stops (render xs)"
  by (cases xs) (auto simp: wfRender_def render_def stops_def neq_Nil_conv)

lemma lexLoop_render:
  assumes "wfRender xs"
  shows "\<exists>toks e. lexLoop n i (render xs) = Inr (toks @ [e]) \<and> list_all2 spelt xs toks \<and> tk_kind e = tEOF"
  using assms
proof (induction xs arbitrary: i)
  case Nil
  then show ?case by (simp add: render_def lexLoop.simps)
next
  case (Cons y xs)
  obtain sp x where y: "y = (sp, x)" by (cases y)
  have wf: "sp \<noteq> []" "list_all isSpaceRune sp" "wfLexeme x" "wfRender xs" using Cons.prems by (simp_all add: wfRender_def y)
  have r: "render (y # xs) = sp @ lxText x @ render xs" by (simp add: render_def y)
  obtain c cs where c: "lxText x = c # cs" "\<not> isSpaceRune c" using lexeme_head [OF wf(3)] .
  have sp: "takeWhile isSpaceRune (sp @ c # ds) = sp" "dropWhile isSpaceRune (sp @ c # ds) = c # ds" for ds
    using wf(2) c(2) by (simp_all add: list_all_iff takeWhile_append dropWhile_append)
  obtain t j where t: "lexOne n (i + length sp) sp (lxText x @ render xs) = Inr (t, j, render xs)" "spelt (sp, x) t"
    using lexOne_lexeme [OF wf(3) render_stops [OF wf(4)]] by blast
  obtain toks e where ih: "lexLoop n j (render xs) = Inr (toks @ [e])" "list_all2 spelt xs toks" "tk_kind e = tEOF"
    using Cons.IH [OF wf(4)] by blast
  have "lexLoop n i (render (y # xs)) = Inr ((t # toks) @ [e])"
    using t(1) ih(1) by (subst lexLoop.simps) (simp add: r c(1) sp Let_def)
  then show ?case using ih t(2) by (intro exI [of _ "t # toks"] exI [of _ e]) (simp add: y)
qed

section \<open>What the parser returns with enough fuel\<close>

text \<open>More fuel changes no result that was reached.\<close>

definition calls_le :: "calling \<Rightarrow> calling \<Rightarrow> bool" where
  "calls_le c d \<longleftrightarrow> (\<forall>nt toks r. c nt toks = Some r \<longrightarrow> d nt toks = Some r)"

lemma bind_le:
  assumes "parsedBind m f = Some r" and "\<And>x. m = Some x \<Longrightarrow> m' = Some x" and "\<And>x toks y. f x toks = Some y \<Longrightarrow> f' x toks = Some y"
  shows "parsedBind m' f' = Some r"
  using assms by (auto simp: parsedBind_def split: option.splits sum.splits prod.splits)

lemma parseBody_mono:
  assumes "calls_le c d" and "parseBody c nt toks = Some r"
  shows "parseBody d nt toks = Some r"
proof -
  have le: "c nt toks = Some r \<Longrightarrow> d nt toks = Some r" for nt toks r using assms(1) by (simp add: calls_le_def)
  note body = parseOr_def orLoop_def parseAnd_def andLoop_def parseNot_def parsePrimary_def parseFieldRest_def
    parseValueOr_def valueOrLoop_def parseValueAnd_def valueAndLoop_def parseValueNot_def
  show ?thesis
    using assms(2) by (cases nt) (auto simp: body split: if_splits list.splits elim!: bind_le dest: le)
qed

lemma parseN_mono: "m \<le> n \<Longrightarrow> calls_le (parseN m) (parseN n)"
proof (induction m arbitrary: n)
  case (Suc m)
  then obtain n' where "n = Suc n'" "m \<le> n'" by (cases n) auto
  then show ?case using Suc.IH [of n'] by (auto simp: calls_le_def intro: parseBody_mono [unfolded calls_le_def])
qed (simp add: calls_le_def)

definition parses :: "NonTerminal \<Rightarrow> token list \<Rightarrow> KqlNode \<times> token list \<Rightarrow> bool" where
  "parses nt toks r \<longleftrightarrow> (\<forall>\<^sub>F m in sequentially. parseN m nt toks = Some (Inr r))"

lemma parses_step: "(\<forall>\<^sub>F m in sequentially. parseBody (parseN m) nt toks = Some (Inr r)) \<Longrightarrow> parses nt toks r"
  using eventually_sequentially_Suc [of "\<lambda>m. parseN m nt toks = Some (Inr r)"] by (simp add: parses_def)

lemma parses_pure: "(\<And>call. parseBody call nt toks = Some (Inr r)) \<Longrightarrow> parses nt toks r"
  by (rule parses_step) simp

lemma parses_call:
  assumes "parses nt' toks' r'" and "\<And>call. call nt' toks' = Some (Inr r') \<Longrightarrow> parseBody call nt toks = Some (Inr r)"
  shows "parses nt toks r"
  using assms(1) unfolding parses_def [of nt'] by (intro parses_step) (auto elim: eventually_mono intro: assms(2))

lemma parses_call2:
  assumes "parses nt' toks' r'" and "parses nt'' toks'' r''"
    and "\<And>call. call nt' toks' = Some (Inr r') \<Longrightarrow> call nt'' toks'' = Some (Inr r'') \<Longrightarrow> parseBody call nt toks = Some (Inr r)"
  shows "parses nt toks r"
  using assms(1,2) unfolding parses_def [of nt'] parses_def [of nt'']
  by (intro parses_step) (auto elim: eventually_elim2 intro: assms(3))

lemma parses_fuel:
  assumes "parses NtOr toks r" and "endsInput toks"
  shows "parseN (kqlFuel (length toks)) NtOr toks = Some (Inr r)"
proof -
  obtain k where k: "\<And>m. k \<le> m \<Longrightarrow> parseN m NtOr toks = Some (Inr r)"
    using assms(1) by (auto simp: parses_def eventually_sequentially)
  have "returns toks True (parseN (kqlFuel (length toks)) NtOr toks)"
    using parseN_returns [OF assms(2), of NtOr "kqlFuel (length toks)"] by (simp add: kqlFuel_def)
  then obtain r' where r': "parseN (kqlFuel (length toks)) NtOr toks = Some r'" by (auto simp: returns_def split: option.splits)
  then have "parseN (max k (kqlFuel (length toks))) NtOr toks = Some r'"
    using parseN_mono [of "kqlFuel (length toks)" "max k (kqlFuel (length toks))"] by (simp add: calls_le_def)
  then show ?thesis using r' k [of "max k (kqlFuel (length toks))"] by simp
qed

section \<open>Boolean trees\<close>

datatype 'a BTree = BOr "'a BTree list" | BAnd "'a BTree list" | BNot "'a BTree" | BLeaf 'a

type_synonym lexemes = "(runes \<times> Lexeme) list"

abbreviation lexSym :: "tokKind \<Rightarrow> runes \<times> Lexeme" where
  "lexSym k \<equiv> ([32], LxSym k)"

fun sepBy :: "tokKind \<Rightarrow> lexemes list \<Rightarrow> lexemes" where
  "sepBy k [] = []"
| "sepBy k [x] = x"
| "sepBy k (x # y # xs) = x @ lexSym k # sepBy k (y # xs)"

definition grouped :: "bool \<Rightarrow> lexemes \<Rightarrow> lexemes" where
  "grouped b xs = (if b then lexSym tLParen # xs @ [lexSym tRParen] else xs)"

text \<open>The text of a tree where the grammar expects an \<open>or\<close> (0), an \<open>and\<close> (1) or a \<open>not\<close> (2).\<close>

fun prTree :: "nat \<Rightarrow> lexemes BTree \<Rightarrow> lexemes" where
  "prTree l (BOr bs) = grouped (0 < l) (sepBy tOr (map (prTree 1) bs))"
| "prTree l (BAnd bs) = grouped (1 < l) (sepBy tAnd (map (prTree 2) bs))"
| "prTree l (BNot b) = lexSym tNot # prTree 2 b"
| "prTree l (BLeaf xs) = xs"

definition joined :: "(KqlNode list \<Rightarrow> KqlNode) \<Rightarrow> KqlNode list \<Rightarrow> KqlNode" where
  "joined f ns = (if length ns = 1 then hd ns else f ns)"

fun meanTree :: "KqlNode BTree \<Rightarrow> KqlNode" where
  "meanTree (BOr bs) = joined orNode (map meanTree bs)"
| "meanTree (BAnd bs) = joined andNode (map meanTree bs)"
| "meanTree (BNot b) = notNode (meanTree b)"
| "meanTree (BLeaf n) = n"

fun wfTree :: "'a BTree \<Rightarrow> bool" where
  "wfTree (BOr bs) \<longleftrightarrow> bs \<noteq> [] \<and> list_all wfTree bs"
| "wfTree (BAnd bs) \<longleftrightarrow> bs \<noteq> [] \<and> list_all wfTree bs"
| "wfTree (BNot b) \<longleftrightarrow> wfTree b"
| "wfTree (BLeaf a) \<longleftrightarrow> True"

text \<open>What may follow a phrase of each level.\<close>

definition follows :: "nat \<Rightarrow> token list \<Rightarrow> bool" where
  "follows l toks \<longleftrightarrow> (\<exists>t ts. toks = t # ts \<and>
     (tk_kind t \<in> {tEOF, tRParen, tRBrace} \<or> 0 < l \<and> tk_kind t = tOr \<or> 1 < l \<and> tk_kind t = tAnd))"

definition reads :: "NonTerminal \<Rightarrow> nat \<Rightarrow> lexemes \<Rightarrow> KqlNode \<Rightarrow> bool" where
  "reads nt l xs n \<longleftrightarrow> (\<forall>toks rest. list_all2 spelt xs toks \<longrightarrow> follows l rest \<longrightarrow> parses nt (toks @ rest) (n, rest))"

lemma readsD: "reads nt l xs n \<Longrightarrow> list_all2 spelt xs toks \<Longrightarrow> follows l rest \<Longrightarrow> parses nt (toks @ rest) (n, rest)"
  by (simp add: reads_def)

lemma spelt_sym: "spelt (lexSym k) t \<Longrightarrow> tk_kind t = k"
  by (simp add: spelt_def)

text \<open>
  A list of phrases of level \<open>m\<close> separated by the keyword \<open>k\<close>, as one of the parser's loops reads it: it is a
  phrase of level \<open>l\<close>.
\<close>

locale separated_list =
  fixes ntList ntItem :: NonTerminal and loop :: "KqlNode list \<Rightarrow> NonTerminal" and k :: tokKind
    and mk :: "KqlNode list \<Rightarrow> KqlNode" and l m :: nat
  assumes first: "parses ntItem toks (n, rest) \<Longrightarrow> parses (loop [n]) rest r \<Longrightarrow> parses ntList toks r"
    and more_items: "tk_kind t = k \<Longrightarrow> parses ntItem toks (n, rest) \<Longrightarrow> parses (loop (items @ [n])) rest r \<Longrightarrow>
      parses (loop items) (t # toks) r"
    and stop: "tk_kind t \<noteq> k \<Longrightarrow> parses (loop items) (t # toks) (joined mk items, t # toks)"
    and follows_item: "follows m (t # toks) \<longleftrightarrow> tk_kind t = k \<or> follows l (t # toks)"
    and follows_list: "follows l (t # toks) \<Longrightarrow> tk_kind t \<noteq> k"
begin

lemma list_parsed:
  "list_all2 (reads ntItem m) xss ns \<Longrightarrow> xss \<noteq> [] \<Longrightarrow> list_all2 spelt (sepBy k xss) toks \<Longrightarrow> follows l rest \<Longrightarrow>
   \<exists>n mid. parses ntItem (toks @ rest) (n, mid) \<and> n = hd ns \<and> (\<forall>items. parses (loop (items @ [n])) mid (joined mk (items @ ns), rest))"
proof (induction xss arbitrary: ns toks rule: induct_list012)
  case (2 x)
  obtain t ts where rest: "rest = t # ts" using 2(4) by (auto simp: follows_def)
  obtain n where n: "ns = [n]" "reads ntItem m x n" using 2(1) by (auto simp: list_all2_Cons1)
  have "follows m rest" using 2(4) follows_item by (simp add: rest)
  then have "parses ntItem (toks @ rest) (n, rest)" using readsD [OF n(2)] 2(3) by simp
  then show ?case using stop follows_list [of t ts] 2(4) rest n(1) by auto
next
  case (3 x y xs)
  obtain n ns' where ns: "ns = n # ns'" "reads ntItem m x n" "list_all2 (reads ntItem m) (y # xs) ns'"
    using 3(3) by (auto simp: list_all2_Cons1)
  obtain ta t tb where toks: "toks = ta @ t # tb" "list_all2 spelt x ta" "spelt (lexSym k) t" "list_all2 spelt (sepBy k (y # xs)) tb"
    using 3(5) by (auto simp: list_all2_append1 list_all2_Cons1)
  obtain u mid where ih: "parses ntItem (tb @ rest) (u, mid)" "u = hd ns'"
    "\<And>items. parses (loop (items @ [u])) mid (joined mk (items @ ns'), rest)"
    using 3(2) [OF ns(3) _ toks(4) 3(6)] by auto
  have t: "tk_kind t = k" using spelt_sym [OF toks(3)] .
  have "parses ntItem (ta @ t # tb @ rest) (n, t # tb @ rest)"
    using readsD [OF ns(2) toks(2), of "t # tb @ rest"] t by (simp add: follows_item)
  moreover have "parses (loop (items @ [n])) (t # tb @ rest) (joined mk (items @ ns), rest)" for items
    using more_items [OF t ih(1)] ih(3) [of "items @ [n]"] by (simp add: ns(1))
  ultimately show ?case by (intro exI [of _ n] exI [of _ "t # tb @ rest"]) (simp add: toks(1) ns(1))
qed simp

lemma list_reads: "list_all2 (reads ntItem m) xss ns \<Longrightarrow> xss \<noteq> [] \<Longrightarrow> reads ntList l (sepBy k xss) (joined mk ns)"
  unfolding reads_def [of ntList] using list_parsed first by (metis append_Nil)

lemma item_reads: "reads ntItem m xs n \<Longrightarrow> reads ntList l xs n"
  using list_reads [of "[xs]" "[n]"] by (simp add: joined_def)

end

text \<open>
  A boolean layer of the grammar: disjunctions of conjunctions of negations, with groups.  The clauses of a
  query and the values of a field both are one.
\<close>

locale boolean_layer =
  ors: separated_list ntOr ntAnd orRest tOr orNode 0 1 + ands: separated_list ntAnd ntNot andRest tAnd andNode 1 2
  for ntOr ntAnd ntNot orRest andRest +
  assumes negation: "tk_kind t = tNot \<Longrightarrow> parses ntNot toks (n, rest) \<Longrightarrow> parses ntNot (t # toks) (notNode n, rest)"
    and group: "tk_kind t = tLParen \<Longrightarrow> parses ntOr toks (n, u # rest) \<Longrightarrow> tk_kind u = tRParen \<Longrightarrow> parses ntNot (t # toks) (n, rest)"
begin

definition ntAt :: "nat \<Rightarrow> NonTerminal" where
  "ntAt lv = (if lv = 0 then ntOr else if lv = 1 then ntAnd else ntNot)"

lemma levels: "lv \<le> 2 \<Longrightarrow> lv = 0 \<or> lv = 1 \<or> lv = (2 :: nat)"
  by arith

lemma group_reads:
  assumes "reads ntOr 0 xs n"
  shows "reads ntNot 2 (grouped True xs) n"
  unfolding reads_def
proof (intro allI impI)
  fix toks rest
  assume "list_all2 spelt (grouped True xs) toks" and "follows 2 rest"
  then obtain t ts u where toks: "toks = t # ts @ [u]" "tk_kind t = tLParen" "list_all2 spelt xs ts" "tk_kind u = tRParen"
    by (auto simp: grouped_def list_all2_append1 list_all2_Cons1 dest!: spelt_sym)
  have "parses ntOr (ts @ u # rest) (n, u # rest)" using readsD [OF assms toks(3)] toks(4) by (simp add: follows_def)
  then show "parses ntNot (toks @ rest) (n, rest)" using group [OF toks(2) _ toks(4)] toks(1) by simp
qed

lemma at_level: "reads ntNot 2 xs n \<Longrightarrow> lv \<le> 2 \<Longrightarrow> reads (ntAt lv) lv xs n"
  using levels [of lv] ands.item_reads [of xs n] ors.item_reads [of xs n] by (auto simp: ntAt_def)

lemma not_reads: "reads ntNot 2 xs n \<Longrightarrow> reads ntNot 2 (lexSym tNot # xs) (notNode n)"
  unfolding reads_def by (auto simp: list_all2_Cons1 dest!: spelt_sym intro!: negation)

text \<open>A tree whose leaves are read as negatable phrases is read at every level.\<close>

lemma tree_reads:
  "wfTree b \<Longrightarrow> (\<And>a. a \<in> set_BTree b \<Longrightarrow> reads ntNot 2 (f a) (g a)) \<Longrightarrow> lv \<le> 2 \<Longrightarrow>
   reads (ntAt lv) lv (prTree lv (map_BTree f b)) (meanTree (map_BTree g b))"
proof (induction b arbitrary: lv)
  case (BLeaf a)
  then show ?case using at_level by simp
next
  case (BNot b)
  have "reads ntNot 2 (prTree 2 (map_BTree f b)) (meanTree (map_BTree g b))" using BNot.IH [of 2] BNot.prems by (simp add: ntAt_def)
  then show ?case using at_level [OF not_reads] BNot.prems(3) by simp
next
  case (BAnd bs)
  have "reads ntNot 2 (prTree 2 (map_BTree f b)) (meanTree (map_BTree g b))" if "b \<in> set bs" for b
    using BAnd.IH [OF that, of 2] BAnd.prems that by (auto simp: ntAt_def list_all_iff)
  then have "reads ntAnd 1 (prTree 1 (map_BTree f (BAnd bs))) (meanTree (map_BTree g (BAnd bs)))"
    using ands.list_reads [of "map (\<lambda>b. prTree 2 (map_BTree f b)) bs" "map (\<lambda>b. meanTree (map_BTree g b)) bs"] BAnd.prems(1)
    by (simp add: grouped_def list_all2_conv_all_nth comp_def)
  then show ?case
    using levels [OF BAnd.prems(3)] ors.item_reads group_reads by (auto simp: ntAt_def grouped_def)
next
  case (BOr bs)
  have "reads ntAnd 1 (prTree 1 (map_BTree f b)) (meanTree (map_BTree g b))" if "b \<in> set bs" for b
    using BOr.IH [OF that, of 1] BOr.prems that by (auto simp: ntAt_def list_all_iff)
  then have "reads ntOr 0 (prTree 0 (map_BTree f (BOr bs))) (meanTree (map_BTree g (BOr bs)))"
    using ors.list_reads [of "map (\<lambda>b. prTree 1 (map_BTree f b)) bs" "map (\<lambda>b. meanTree (map_BTree g b)) bs"] BOr.prems(1)
    by (simp add: grouped_def list_all2_conv_all_nth comp_def)
  then show ?case
    using levels [OF BOr.prems(3)] ands.item_reads group_reads by (auto simp: ntAt_def grouped_def)
qed

end

lemma next_tok: "tk_kind t \<noteq> tEOF \<Longrightarrow> nextToks (t # toks) = toks"
  by (simp add: nextToks_def)

lemma bind_Inr [simp]: "parsedBind (Some (Inr (x, toks))) f = f x toks"
  by (simp add: parsedBind_def)

lemma close_here: "tk_kind u = k \<Longrightarrow> k \<noteq> tEOF \<Longrightarrow> closeWith k n (u # rest) = Some (Inr (n, rest))"
  by (simp add: closeWith_def nextToks_def)

lemma follows_split:
  "follows 1 (t # toks) \<longleftrightarrow> tk_kind t = tOr \<or> follows 0 (t # toks)" "follows 2 (t # toks) \<longleftrightarrow> tk_kind t = tAnd \<or> follows 1 (t # toks)"
  "follows 0 (t # toks) \<Longrightarrow> tk_kind t \<noteq> tOr" "follows 1 (t # toks) \<Longrightarrow> tk_kind t \<noteq> tAnd"
  by (auto simp: follows_def)

interpretation clauses: boolean_layer NtOr NtAnd NtNot NtOrRest NtAndRest
proof unfold_locales
  show "parses NtAnd toks (n, rest) \<Longrightarrow> parses (NtOrRest [n]) rest r \<Longrightarrow> parses NtOr toks r" for toks n rest r
    by (erule (1) parses_call2) (simp add: parseOr_def)
  show "tk_kind t = tOr \<Longrightarrow> parses NtAnd toks (n, rest) \<Longrightarrow> parses (NtOrRest (items @ [n])) rest r \<Longrightarrow> parses (NtOrRest items) (t # toks) r"
    for t toks n rest items r
    by (erule (1) parses_call2) (simp add: orLoop_def next_tok)
  show "tk_kind t \<noteq> tOr \<Longrightarrow> parses (NtOrRest items) (t # toks) (joined orNode items, t # toks)" for t items toks
    by (rule parses_pure) (simp add: orLoop_def joined_def)
  show "parses NtNot toks (n, rest) \<Longrightarrow> parses (NtAndRest [n]) rest r \<Longrightarrow> parses NtAnd toks r" for toks n rest r
    by (erule (1) parses_call2) (simp add: parseAnd_def)
  show "tk_kind t = tAnd \<Longrightarrow> parses NtNot toks (n, rest) \<Longrightarrow> parses (NtAndRest (items @ [n])) rest r \<Longrightarrow> parses (NtAndRest items) (t # toks) r"
    for t toks n rest items r
    by (erule (1) parses_call2) (simp add: andLoop_def next_tok)
  show "tk_kind t \<noteq> tAnd \<Longrightarrow> parses (NtAndRest items) (t # toks) (joined andNode items, t # toks)" for t items toks
    by (rule parses_pure) (simp add: andLoop_def joined_def)
  show "tk_kind t = tNot \<Longrightarrow> parses NtNot toks (n, rest) \<Longrightarrow> parses NtNot (t # toks) (notNode n, rest)" for t toks n rest
    by (erule parses_call) (simp add: parseNot_def next_tok)
  show "parses NtNot (t # toks) (n, rest)" if "tk_kind t = tLParen" "parses NtOr toks (n, u # rest)" "tk_kind u = tRParen" for t toks n u rest
  proof -
    have "parses NtPrimary (t # toks) (n, rest)"
      by (rule parses_call [OF that(2)]) (simp add: parsePrimary_def next_tok close_here that)
    then show ?thesis by (rule parses_call) (simp add: parseNot_def that(1))
  qed
qed (use follows_split in auto)

interpretation fieldvals: boolean_layer "NtValueOr f" "NtValueAnd f" "NtValueNot f" "NtValueOrRest f" "NtValueAndRest f" for f
proof unfold_locales
  show "parses (NtValueAnd f) toks (n, rest) \<Longrightarrow> parses (NtValueOrRest f [n]) rest r \<Longrightarrow> parses (NtValueOr f) toks r" for toks n rest r
    by (erule (1) parses_call2) (simp add: parseValueOr_def)
  show "tk_kind t = tOr \<Longrightarrow> parses (NtValueAnd f) toks (n, rest) \<Longrightarrow> parses (NtValueOrRest f (items @ [n])) rest r \<Longrightarrow>
      parses (NtValueOrRest f items) (t # toks) r" for t toks n rest items r
    by (erule (1) parses_call2) (simp add: valueOrLoop_def next_tok)
  show "tk_kind t \<noteq> tOr \<Longrightarrow> parses (NtValueOrRest f items) (t # toks) (joined orNode items, t # toks)" for t items toks
    by (rule parses_pure) (simp add: valueOrLoop_def joined_def)
  show "parses (NtValueNot f) toks (n, rest) \<Longrightarrow> parses (NtValueAndRest f [n]) rest r \<Longrightarrow> parses (NtValueAnd f) toks r" for toks n rest r
    by (erule (1) parses_call2) (simp add: parseValueAnd_def)
  show "tk_kind t = tAnd \<Longrightarrow> parses (NtValueNot f) toks (n, rest) \<Longrightarrow> parses (NtValueAndRest f (items @ [n])) rest r \<Longrightarrow>
      parses (NtValueAndRest f items) (t # toks) r" for t toks n rest items r
    by (erule (1) parses_call2) (simp add: valueAndLoop_def next_tok)
  show "tk_kind t \<noteq> tAnd \<Longrightarrow> parses (NtValueAndRest f items) (t # toks) (joined andNode items, t # toks)" for t items toks
    by (rule parses_pure) (simp add: valueAndLoop_def joined_def)
  show "tk_kind t = tNot \<Longrightarrow> parses (NtValueNot f) toks (n, rest) \<Longrightarrow> parses (NtValueNot f) (t # toks) (notNode n, rest)" for t toks n rest
    by (erule parses_call) (simp add: parseValueNot_def next_tok)
  show "tk_kind t = tLParen \<Longrightarrow> parses (NtValueOr f) toks (n, u # rest) \<Longrightarrow> tk_kind u = tRParen \<Longrightarrow> parses (NtValueNot f) (t # toks) (n, rest)"
    for t toks n u rest
    by (erule parses_call) (simp add: parseValueNot_def next_tok close_here)
qed (use follows_split in auto)

section \<open>Queries\<close>

datatype ValueSrc = QuotedSrc runes | WordsSrc "KqlPart list" "(runes \<times> KqlPart list) list"

fun prValue :: "ValueSrc \<Rightarrow> lexemes" where
  "prValue (QuotedSrc t) = [([32], LxQuoted t)]"
| "prValue (WordsSrc w ws) = ([32], LxWord w) # map (\<lambda>(sp, v). (sp, LxWord v)) ws"

fun valueOf :: "ValueSrc \<Rightarrow> KqlValue" where
  "valueOf (QuotedSrc t) = \<lparr>kv_parts = [\<lparr>kp_text = t, kp_star = False\<rparr>], kv_quoted = True\<rparr>"
| "valueOf (WordsSrc w ws) =
     \<lparr>kv_parts = w @ concat (map (\<lambda>(sp, v). \<lparr>kp_text = sp, kp_star = False\<rparr> # v) ws), kv_quoted = False\<rparr>"

fun wfValue :: "ValueSrc \<Rightarrow> bool" where
  "wfValue (QuotedSrc t) \<longleftrightarrow> True"
| "wfValue (WordsSrc w ws) \<longleftrightarrow> wfWord w \<and> list_all (\<lambda>(sp, v). sp \<noteq> [] \<and> list_all isSpaceRune sp \<and> wfWord v) ws"

datatype ClauseSrc =
    MatchSrc ValueSrc "ValueSrc BTree"
  | RangeSrc ValueSrc tokKind ValueSrc
  | TextSrc ValueSrc
  | NestedSrc ValueSrc "ClauseSrc BTree"

definition isLeaf :: "'a BTree \<Rightarrow> bool" where
  "isLeaf b = (case b of BLeaf a \<Rightarrow> True | _ \<Rightarrow> False)"

primrec prClause :: "ClauseSrc \<Rightarrow> lexemes" where
  "prClause (MatchSrc p v) = prValue p @ lexSym tColon # grouped (\<not> isLeaf v) (prTree 0 (map_BTree prValue v))"
| "prClause (RangeSrc p k v) = prValue p @ lexSym k # prValue v"
| "prClause (TextSrc v) = prValue v"
| "prClause (NestedSrc p b) = prValue p @ lexSym tColon # lexSym tLBrace # prTree 0 (map_BTree prClause b) @ [lexSym tRBrace]"

text \<open>The meaning of a clause: a group of values stands for a clause of the field for each of them.\<close>

primrec meanClause :: "ClauseSrc \<Rightarrow> KqlNode" where
  "meanClause (MatchSrc p v) = meanTree (map_BTree (\<lambda>u. fieldNode (valueOf p) (asRunes '':'') (valueOf u)) v)"
| "meanClause (RangeSrc p k v) = fieldNode (valueOf p) (symText k) (valueOf v)"
| "meanClause (TextSrc v) = textNode (valueOf v)"
| "meanClause (NestedSrc p b) = nestedNode (valueOf p) (meanTree (map_BTree meanClause b))"

primrec wfClause :: "ClauseSrc \<Rightarrow> bool" where
  "wfClause (MatchSrc p v) \<longleftrightarrow> wfValue p \<and> wfTree v \<and> pred_BTree wfValue v"
| "wfClause (RangeSrc p k v) \<longleftrightarrow> wfValue p \<and> k \<in> set cmpKinds \<and> wfValue v"
| "wfClause (TextSrc v) \<longleftrightarrow> wfValue v"
| "wfClause (NestedSrc p b) \<longleftrightarrow> wfValue p \<and> wfTree b \<and> pred_BTree (\<lambda>w. w) (map_BTree wfClause b)"

definition printQuery :: "ClauseSrc BTree \<Rightarrow> runes" where
  "printQuery q = render (prTree 0 (map_BTree prClause q))"

section \<open>Reading a query back\<close>

lemma prValue_spelt:
  assumes "list_all2 spelt (prValue v) toks"
  obtains t ts where "toks = t # ts" "tk_kind t = tQuoted \<or> tk_kind t = tWord"
  using assms that by (cases v) (auto simp: list_all2_Cons1 spelt_def)

lemma wordRun_words:
  "list_all2 spelt (map (\<lambda>(sp, v). (sp, LxWord v)) ws) toks \<Longrightarrow> tk_kind t \<noteq> tWord \<Longrightarrow>
   wordRun (toks @ t # rest) = (concat (map (\<lambda>(sp, v). \<lparr>kp_text = sp, kp_star = False\<rparr> # v) ws), t # rest)"
  by (induction ws arbitrary: toks) (auto simp: list_all2_Cons1 spelt_def)

lemma parseValue_value:
  assumes "list_all2 spelt (prValue v) toks" and "tk_kind t \<noteq> tWord"
  shows "parseValue expected (toks @ t # rest) = Some (Inr (valueOf v, t # rest))"
proof (cases v)
  case (QuotedSrc s)
  then show ?thesis using assms(1) by (auto simp: list_all2_Cons1 spelt_def parseValue_def)
next
  case (WordsSrc w ws)
  then obtain u us where u: "toks = u # us" "spelt ([32], LxWord w) u" "list_all2 spelt (map (\<lambda>(sp, v). (sp, LxWord v)) ws) us"
    using assms(1) by (auto simp: list_all2_Cons1)
  show ?thesis using wordRun_words [OF u(3) assms(2)] u(2) by (simp add: u(1) WordsSrc parseValue_def spelt_def)
qed

lemma follows_cases:
  assumes "follows 2 toks"
  obtains t ts where "toks = t # ts" "tk_kind t \<in> {tEOF, tRParen, tRBrace, tOr, tAnd}"
  using assms by (auto simp: follows_def)

lemma fieldvalue_reads: "reads (NtValueNot f) 2 (prValue v) (fieldNode f (asRunes '':'') (valueOf v))"
  unfolding reads_def
proof (intro allI impI)
  fix toks rest
  assume toks: "list_all2 spelt (prValue v) toks" and "follows 2 rest"
  then obtain t ts where rest: "rest = t # ts" "tk_kind t \<in> {tEOF, tRParen, tRBrace, tOr, tAnd}" using follows_cases by blast
  obtain u us where u: "toks = u # us" "tk_kind u = tQuoted \<or> tk_kind u = tWord" using prValue_spelt [OF toks] .
  have "parseValue e (toks @ rest) = Some (Inr (valueOf v, rest))" for e using parseValue_value [OF toks] rest by auto
  then show "parses (NtValueNot f) (toks @ rest) (fieldNode f (asRunes '':'') (valueOf v), rest)"
    using u(2) by (intro parses_pure) (auto simp: parseValueNot_def u(1))
qed

lemma not_primary: "parses NtPrimary (t # ts) r \<Longrightarrow> tk_kind t \<noteq> tNot \<Longrightarrow> parses NtNot (t # ts) r"
  by (erule parses_call) (simp add: parseNot_def)

text \<open>After \<open>field:\<close> the parser reads a value, a group of values or a nested query.\<close>

lemma field_parsed:
  assumes "list_all2 spelt (prValue p) toks" and "tk_kind t = tColon" and "parses (NtFieldRest (valueOf p)) rest r"
  shows "parses NtNot (toks @ t # rest) r"
proof -
  obtain u us where u: "toks = u # us" "tk_kind u = tQuoted \<or> tk_kind u = tWord" using prValue_spelt [OF assms(1)] .
  have "parseValue e (toks @ t # rest) = Some (Inr (valueOf p, t # rest))" for e using parseValue_value [OF assms(1)] assms(2) by simp
  then have "parses NtPrimary (toks @ t # rest) r"
    using u(2) assms(2) by (intro parses_call [OF assms(3)]) (auto simp: parsePrimary_def u(1) next_tok)
  then show ?thesis using not_primary [of u "us @ t # rest" r] u by auto
qed

lemma values_parsed:
  assumes "wfTree v" and toks: "list_all2 spelt (grouped (\<not> isLeaf v) (prTree 0 (map_BTree prValue v))) toks" and "follows 2 rest"
  shows "parses (NtFieldRest f) (toks @ rest) (meanTree (map_BTree (\<lambda>u. fieldNode f (asRunes '':'') (valueOf u)) v), rest)"
proof (cases "isLeaf v")
  case True
  then obtain u where v: "v = BLeaf u" by (auto simp: isLeaf_def split: BTree.splits)
  then have u: "list_all2 spelt (prValue u) toks" using toks by (simp add: grouped_def isLeaf_def)
  obtain t ts where rest: "rest = t # ts" "tk_kind t \<in> {tEOF, tRParen, tRBrace, tOr, tAnd}" using assms(3) follows_cases by blast
  obtain h hs where h: "toks = h # hs" "tk_kind h = tQuoted \<or> tk_kind h = tWord" using prValue_spelt [OF u] .
  have "parseValue e (toks @ rest) = Some (Inr (valueOf u, rest))" for e using parseValue_value [OF u] rest by auto
  then show ?thesis using h(2) by (intro parses_pure) (auto simp: parseFieldRest_def h(1) v)
next
  case False
  then obtain t ts u where t: "toks = t # ts @ [u]" "tk_kind t = tLParen" "list_all2 spelt (prTree 0 (map_BTree prValue v)) ts" "tk_kind u = tRParen"
    using toks by (auto simp: grouped_def list_all2_append1 list_all2_Cons1 dest!: spelt_sym)
  have "reads (NtValueOr f) 0 (prTree 0 (map_BTree prValue v)) (meanTree (map_BTree (\<lambda>u. fieldNode f (asRunes '':'') (valueOf u)) v))"
    using fieldvals.tree_reads [OF assms(1) fieldvalue_reads, of 0 f] by (simp add: fieldvals.ntAt_def)
  then have "parses (NtValueOr f) (ts @ u # rest) (meanTree (map_BTree (\<lambda>u. fieldNode f (asRunes '':'') (valueOf u)) v), u # rest)"
    using readsD [OF _ t(3)] t(4) by (simp add: follows_def)
  then show ?thesis by (rule parses_call) (simp add: parseFieldRest_def t next_tok close_here)
qed

lemma range_reads:
  assumes "k \<in> set cmpKinds"
  shows "reads NtNot 2 (prValue p @ lexSym k # prValue v) (fieldNode (valueOf p) (symText k) (valueOf v))"
  unfolding reads_def
proof (intro allI impI)
  fix toks rest
  assume "list_all2 spelt (prValue p @ lexSym k # prValue v) toks" and f: "follows 2 rest"
  then obtain tp t tv where toks: "toks = tp @ t # tv" "list_all2 spelt (prValue p) tp" "spelt (lexSym k) t" "list_all2 spelt (prValue v) tv"
    by (auto simp: list_all2_append1 list_all2_Cons1)
  obtain e es where rest: "rest = e # es" "tk_kind e \<in> {tEOF, tRParen, tRBrace, tOr, tAnd}" using f follows_cases by blast
  obtain u us where u: "tp = u # us" "tk_kind u = tQuoted \<or> tk_kind u = tWord" using prValue_spelt [OF toks(2)] .
  have t: "tk_kind t = k" "tk_raw t = symText k" using toks(3) by (simp_all add: spelt_def)
  have k: "k \<notin> {tWord, tEOF, tColon}" using assms by (auto simp: cmpKinds_def)
  have "parseValue x (tp @ t # tv @ rest) = Some (Inr (valueOf p, t # tv @ rest))" for x
    using parseValue_value [OF toks(2)] t(1) k by simp
  moreover have "parseValue x (tv @ rest) = Some (Inr (valueOf v, rest))" for x using parseValue_value [OF toks(4)] rest by auto
  ultimately have "parses NtPrimary (tp @ t # tv @ rest) (fieldNode (valueOf p) (symText k) (valueOf v), rest)"
    using u(2) t assms k by (intro parses_pure) (auto simp: parsePrimary_def u(1) next_tok)
  then show "parses NtNot (toks @ rest) (fieldNode (valueOf p) (symText k) (valueOf v), rest)" using not_primary u by (auto simp: toks(1))
qed

lemma text_reads: "reads NtNot 2 (prValue v) (textNode (valueOf v))"
  unfolding reads_def
proof (intro allI impI)
  fix toks rest
  assume toks: "list_all2 spelt (prValue v) toks" and f: "follows 2 rest"
  obtain e es where rest: "rest = e # es" "tk_kind e \<in> {tEOF, tRParen, tRBrace, tOr, tAnd}" using f follows_cases by blast
  obtain u us where u: "toks = u # us" "tk_kind u = tQuoted \<or> tk_kind u = tWord" using prValue_spelt [OF toks] .
  have "parseValue x (toks @ rest) = Some (Inr (valueOf v, rest))" for x using parseValue_value [OF toks] rest by auto
  then have "parses NtPrimary (toks @ rest) (textNode (valueOf v), rest)"
    using u(2) rest by (intro parses_pure) (auto simp: parsePrimary_def u(1) cmpKinds_def)
  then show "parses NtNot (toks @ rest) (textNode (valueOf v), rest)" using not_primary u by auto
qed

lemma nested_reads:
  assumes "reads NtOr 0 xs n"
  shows "reads NtNot 2 (prValue p @ lexSym tColon # lexSym tLBrace # xs @ [lexSym tRBrace]) (nestedNode (valueOf p) n)"
  unfolding reads_def
proof (intro allI impI)
  fix toks rest
  assume "list_all2 spelt (prValue p @ lexSym tColon # lexSym tLBrace # xs @ [lexSym tRBrace]) toks" and "follows 2 rest"
  then obtain tp t l tb u where toks: "toks = tp @ t # l # tb @ [u]" "list_all2 spelt (prValue p) tp" "tk_kind t = tColon"
      "tk_kind l = tLBrace" "list_all2 spelt xs tb" "tk_kind u = tRBrace"
    by (auto simp: list_all2_append1 list_all2_Cons1 dest!: spelt_sym)
  have "parses NtOr (tb @ u # rest) (n, u # rest)" using readsD [OF assms toks(5)] toks(6) by (simp add: follows_def)
  then have "parses (NtFieldRest (valueOf p)) (l # tb @ u # rest) (nestedNode (valueOf p) n, rest)"
    by (rule parses_call) (simp add: parseFieldRest_def toks next_tok close_here)
  then show "parses NtNot (toks @ rest) (nestedNode (valueOf p) n, rest)" using field_parsed [OF toks(2,3)] toks(1) by simp
qed

lemma clause_reads: "wfClause c \<Longrightarrow> reads NtNot 2 (prClause c) (meanClause c)"
proof (induction c)
  case (MatchSrc p v)
  then show ?case unfolding reads_def
    by (auto simp: list_all2_append1 list_all2_Cons1 dest!: spelt_sym intro!: field_parsed values_parsed)
next
  case (NestedSrc p b)
  have "reads NtNot 2 (prClause c) (meanClause c)" if "c \<in> set_BTree b" for c
    using NestedSrc.IH [OF that] NestedSrc.prems that by (auto simp: BTree.pred_set BTree.set_map)
  then show ?case
    using nested_reads clauses.tree_reads [of b prClause meanClause 0] NestedSrc.prems by (simp add: clauses.ntAt_def)
qed (simp_all add: range_reads text_reads)

text \<open>The lexemes of a well-formed query can be rendered, and there are some.\<close>

definition sound :: "lexemes \<Rightarrow> bool" where
  "sound xs \<longleftrightarrow> wfRender xs \<and> xs \<noteq> []"

lemma wfRender_Nil [simp]: "wfRender []"
  by (simp add: wfRender_def)

lemma wfRender_append [simp]: "wfRender (xs @ ys) \<longleftrightarrow> wfRender xs \<and> wfRender ys"
  by (simp add: wfRender_def)

lemma wfRender_Cons [simp]: "wfRender (lexSym k # xs) \<longleftrightarrow> isSym k \<and> wfRender xs"
  by (simp add: wfRender_def isSpaceRune_def)

lemma prValue_sound: "wfValue v \<Longrightarrow> sound (prValue v)"
  by (cases v) (auto simp: sound_def wfRender_def isSpaceRune_def list_all_iff)

lemma sepBy_sound: "(\<And>x. x \<in> set xss \<Longrightarrow> sound x) \<Longrightarrow> xss \<noteq> [] \<Longrightarrow> isSym k \<Longrightarrow> sound (sepBy k xss)"
  by (induction k xss rule: sepBy.induct) (auto simp: sound_def)

lemma grouped_sound: "sound xs \<Longrightarrow> sound (grouped b xs)"
  by (simp add: sound_def grouped_def isSym_def)

lemma prTree_sound:
  "wfTree b \<Longrightarrow> (\<And>a. a \<in> set_BTree b \<Longrightarrow> sound (f a)) \<Longrightarrow> sound (prTree l (map_BTree f b))"
proof (induction b arbitrary: l)
  case (BOr bs)
  have "sound (prTree 1 (map_BTree f b))" if "b \<in> set bs" for b using BOr that by (auto simp: list_all_iff)
  then show ?case using BOr.prems(1) by (auto simp: isSym_def intro!: grouped_sound sepBy_sound)
next
  case (BAnd bs)
  have "sound (prTree 2 (map_BTree f b))" if "b \<in> set bs" for b using BAnd that by (auto simp: list_all_iff)
  then show ?case using BAnd.prems(1) by (auto simp: isSym_def intro!: grouped_sound sepBy_sound)
qed (simp_all add: sound_def isSym_def)

lemma prClause_sound: "wfClause c \<Longrightarrow> sound (prClause c)"
proof (induction c)
  case (MatchSrc p v)
  have "sound (grouped (\<not> isLeaf v) (prTree 0 (map_BTree prValue v)))"
    using MatchSrc by (intro grouped_sound prTree_sound prValue_sound) (auto simp: BTree.pred_set)
  then show ?case using MatchSrc prValue_sound by (auto simp: sound_def isSym_def)
next
  case (NestedSrc p b)
  have "sound (prTree 0 (map_BTree prClause b))"
    using NestedSrc by (intro prTree_sound) (auto simp: BTree.pred_set BTree.set_map)
  then show ?case using NestedSrc prValue_sound by (auto simp: sound_def isSym_def)
qed (auto simp: sound_def isSym_def cmpKinds_def dest!: prValue_sound)

lemma spelt_kind: "spelt (sp, x) t \<Longrightarrow> wfLexeme x \<Longrightarrow> tk_kind t \<noteq> tEOF"
  by (cases x) (auto simp: spelt_def isSym_def)

lemma spelt_endsInput:
  "list_all2 spelt xs toks \<Longrightarrow> wfRender xs \<Longrightarrow> tk_kind e = tEOF \<Longrightarrow> endsInput (toks @ [e])"
  by (induction xs toks rule: list_all2_induct) (auto simp: wfRender_def endsInput_def dest: spelt_kind)

lemma query_parsed:
  assumes "wfTree q" and "pred_BTree wfClause q"
  shows "kqlParse (printQuery q) = Some (Inr (Some (meanTree (map_BTree meanClause q))))"
proof -
  let ?xs = "prTree 0 (map_BTree prClause q)"
  let ?n = "meanTree (map_BTree meanClause q)"
  have c: "wfClause a" if "a \<in> set_BTree q" for a using assms(2) that by (simp add: BTree.pred_set)
  have wf: "wfRender ?xs" "?xs \<noteq> []" using prTree_sound [OF assms(1), of prClause 0] prClause_sound c by (auto simp: sound_def)
  obtain toks e where lexed: "lex (printQuery q) = Inr (toks @ [e])" "list_all2 spelt ?xs toks" "tk_kind e = tEOF"
    using lexLoop_render [OF wf(1)] unfolding lex_def printQuery_def by blast
  have ends: "endsInput (toks @ [e])" by (rule spelt_endsInput [OF lexed(2) wf(1) lexed(3)])
  have "reads NtOr 0 ?xs ?n"
    using clauses.tree_reads [OF assms(1), of prClause meanClause 0] clause_reads c by (simp add: clauses.ntAt_def)
  then have "parses NtOr (toks @ [e]) (?n, [e])" using readsD [OF _ lexed(2)] lexed(3) by (simp add: follows_def)
  then have p: "parseN (kqlFuel (length (toks @ [e]))) NtOr (toks @ [e]) = Some (Inr (?n, [e]))"
    using parses_fuel ends by blast
  obtain t ts where "toks = t # ts" using wf(2) lexed(2) by (cases toks) auto
  moreover have "tk_kind t \<noteq> tEOF" using ends by (simp add: calculation endsInput_def)
  ultimately show ?thesis using p lexed(1,3) by (simp add: kqlParse_def)
qed

text \<open>
  C30: The parser reads every query back as it was meant.  \<open>printQuery\<close> writes a query with groups only where
  the precedences need them, escaping special characters and keywords in words; the result is the tree the
  query was printed from, with a group of values after a field standing for one clause per value.
\<close>

theorem kql_roundtrip:
  assumes "wfTree q" and "pred_BTree wfClause q"
  shows "kqlParse (printQuery q) = Some (Inr (Some (meanTree (map_BTree meanClause q))))"
  by (rule query_parsed [OF assms])

definition demoQuery :: "ClauseSrc BTree" where
  "demoQuery =
     (let word = (\<lambda>s. WordsSrc [\<lparr>kp_text = asRunes s, kp_star = False\<rparr>] []) in
      BAnd [BOr [BLeaf (MatchSrc (word ''status'') (BOr [BLeaf (word ''and''), BNot (BLeaf (QuotedSrc (asRunes ''a b'')))])),
                 BLeaf (RangeSrc (word ''n'') tGte (word ''10''))],
            BNot (BLeaf (NestedSrc (word ''user'') (BLeaf (TextSrc
              (WordsSrc [\<lparr>kp_text = [], kp_star = True\<rparr>] [([32], [\<lparr>kp_text = asRunes ''x:y'', kp_star = False\<rparr>])])))))])"

lemma demoQuery_wf: "wfTree demoQuery" "pred_BTree wfClause demoQuery"
  by (simp_all add: demoQuery_def Let_def wfWord_def wfPart_def asRunes_def isSpaceRune_def cmpKinds_def)

theorem kql_roundtrip_witness:
  "printQuery demoQuery =
     asRunes '' ( status : ( '' @ [92] @ asRunes ''and or not '' @ [34] @ asRunes ''a b'' @ [34] @
     asRunes '' ) or n >= 10 ) and not user : { * x'' @ [92] @ asRunes '':y }'' \<and>
   kqlParse (printQuery demoQuery) = Some (Inr (Some (meanTree (map_BTree meanClause demoQuery))))"
proof
  show "printQuery demoQuery =
     asRunes '' ( status : ( '' @ [92] @ asRunes ''and or not '' @ [34] @ asRunes ''a b'' @ [34] @
     asRunes '' ) or n >= 10 ) and not user : { * x'' @ [92] @ asRunes '':y }''"
    by code_simp
  show "kqlParse (printQuery demoQuery) = Some (Inr (Some (meanTree (map_BTree meanClause demoQuery))))"
    by (rule kql_roundtrip [OF demoQuery_wf])
qed

end
