(* ===== verification/KqlCompile.thy ===== *)
theory KqlCompile
  imports KqlGrammar
begin

text \<open>
  The compiler from the Kibana query language to Elasticsearch's query language:
  \<^verbatim>\<open>adapters/kibana/kql/compile.go\<close>.  A Go map of the query is an object whose members are in the order the
  source writes them.

  Elasticsearch is not part of the repository: how it judges a request is an argument \<open>holds\<close>, of which only the
  documented behaviour of the requests the compiler writes is assumed (\<open>engineLaws\<close>), over judgements of
  documents that are a parameter too (\<open>Search\<close>).  What a query asks for is stated on the query tree alone.
  \<open>kql_compiled_meaning\<close> puts the lexer, the parser and the compiler together: the compiled query holds of a
  document exactly when the query the user wrote does.
\<close>

section \<open>Data\<close>

datatype Json = JStr runes | JNum int | JBool bool | JArr "Json list" | JObj "(runes \<times> Json) list"

record KqlField =
  kf_Name :: runes
  kf_Type :: runes
  kf_Nested :: runes
  kf_Searchable :: bool

record compiler =
  kc_fields :: "KqlField list"
  kc_byName :: "runes \<Rightarrow> KqlField option"
  kc_tz :: runes

text \<open>A literal key or text of the query language.\<close>

abbreviation key :: "string \<Rightarrow> runes" where "key s \<equiv> asRunes s"

definition zeroField :: KqlField where
  "zeroField = \<lparr>kf_Name = [], kf_Type = [], kf_Nested = [], kf_Searchable = False\<rparr>"

section \<open>Building blocks\<close>

definition boolShould :: "Json list \<Rightarrow> Json" where
  "boolShould items = JObj [(key ''bool'', JObj [(key ''should'', JArr items), (key ''minimum_should_match'', JNum 1)])]"

definition boolFilter :: "Json list \<Rightarrow> Json" where
  "boolFilter items = JObj [(key ''bool'', JObj [(key ''filter'', JArr items)])]"

definition boolMustNot :: "Json \<Rightarrow> Json" where
  "boolMustNot q = JObj [(key ''bool'', JObj [(key ''must_not'', JArr [q])])]"

definition nestedQuery :: "runes \<Rightarrow> Json \<Rightarrow> Json" where
  "nestedQuery path q = JObj [(key ''nested'', JObj [(key ''path'', JStr path), (key ''score_mode'', JStr (key ''none'')), (key ''query'', q)])]"

definition matchAll :: Json where
  "matchAll = JObj [(key ''match_all'', JObj [])]"

definition matchNone :: Json where
  "matchNone = JObj [(key ''match_none'', JObj [])]"

definition qualify :: "runes \<Rightarrow> runes \<Rightarrow> runes" where
  "qualify pre name = (if pre = [] then name else pre @ [46] @ name)"

text \<open>\<^verbatim>\<open>strings.Split(glob, "*")\<close>: never empty.\<close>

fun splitStars :: "runes \<Rightarrow> runes list" where
  "splitStars [] = [[]]"
| "splitStars (r # rs) = (if r = starRune then [] # splitStars rs else (r # hd (splitStars rs)) # tl (splitStars rs))"

text \<open>
  The regular expression \<open>^a.*b.*c$\<close> whose quoted texts are the given pieces: a dot matches every rune but a
  newline.
\<close>

fun matchPieces :: "runes list \<Rightarrow> runes \<Rightarrow> bool" where
  "matchPieces [] s \<longleftrightarrow> s = []"
| "matchPieces [p] s \<longleftrightarrow> s = p"
| "matchPieces (p # q # ps) s \<longleftrightarrow> take (length p) s = p \<and>
     list_ex (\<lambda>k. 10 \<notin> set (take k (drop (length p) s)) \<and> matchPieces (q # ps) (drop k (drop (length p) s)))
       [0..<Suc (length s - length p)]"

definition globRegexp :: "runes \<Rightarrow> runes \<Rightarrow> bool" where
  "globRegexp glob = matchPieces (splitStars glob)"

definition rangeOps :: "runes \<Rightarrow> runes" where
  "rangeOps k =
     (if k = [60] then key ''lt'' else if k = [60, 61] then key ''lte''
      else if k = [62] then key ''gt'' else if k = [62, 61] then key ''gte'' else [])"

definition queryStringReserved :: runes where
  "queryStringReserved = asRunes ''+-=&|><!(){}[]^'' @ [quoteRune] @ asRunes ''~*?:'' @ [bslashRune] @ asRunes ''/ ''"

definition queryStringText :: "KqlValue \<Rightarrow> runes" where
  "queryStringText v =
     concat (map (\<lambda>p. if kp_star p then [starRune]
                      else concat (map (\<lambda>r. if r \<in> set queryStringReserved then [bslashRune, r] else [r]) (kp_text p)))
       (kv_parts v))"

section \<open>The compiler\<close>

definition clause :: "compiler \<Rightarrow> runes \<Rightarrow> runes \<Rightarrow> KqlValue \<Rightarrow> runes \<Rightarrow> Json" where
  "clause c name opr v nested =
     (let info = (case kc_byName c name of Some f \<Rightarrow> f | None \<Rightarrow> zeroField);
          q = (if opr \<noteq> [58] then
                 JObj [(key ''range'', JObj [(name, JObj ((rangeOps opr, JStr (literal v)) #
                   (if kf_Type info = key ''date'' \<and> kc_tz c \<noteq> [] then [(key ''time_zone'', JStr (kc_tz c))] else [])))])]
               else if onlyWildcard v then JObj [(key ''exists'', JObj [(key ''field'', JStr name)])]
               else if kv_quoted v then JObj [(key ''match_phrase'', JObj [(name, JStr (literal v))])]
               else if hasWildcard v then
                 JObj [(key ''query_string'', JObj [(key ''fields'', JArr [JStr name]), (key ''query'', JStr (queryStringText v)),
                   (key ''analyze_wildcard'', JBool True)])]
               else JObj [(key ''match'', JObj [(name, JObj [(key ''query'', JStr (literal v)), (key ''lenient'', JBool True)])])])
      in if kf_Nested info \<noteq> [] \<and> kf_Nested info \<noteq> nested then nestedQuery (kf_Nested info) q else q)"

definition compileField :: "compiler \<Rightarrow> KqlValue \<Rightarrow> runes \<Rightarrow> KqlValue \<Rightarrow> runes \<Rightarrow> Json" where
  "compileField c field opr v nested =
     (let name = qualify nested (literal field) in
      if \<not> hasWildcard field then clause c name opr v nested
      else let matches = map (\<lambda>f. clause c (kf_Name f) opr v nested)
                           (filter (\<lambda>f. kf_Searchable f \<and> globRegexp name (kf_Name f)) (kc_fields c))
           in if matches = [] then matchNone else boolShould matches)"

definition compileText :: "KqlValue \<Rightarrow> Json" where
  "compileText v =
     (if hasWildcard v then
        JObj [(key ''query_string'', JObj [(key ''query'', JStr (queryStringText v)), (key ''analyze_wildcard'', JBool True),
          (key ''lenient'', JBool True)])]
      else
        JObj [(key ''multi_match'', JObj [(key ''type'', JStr (if kv_quoted v then key ''phrase'' else key ''best_fields'')),
          (key ''query'', JStr (literal v)), (key ''lenient'', JBool True)])])"

fun compileNode :: "compiler \<Rightarrow> runes \<Rightarrow> KqlNode \<Rightarrow> Json" where
  "compileNode c nested (orNode items) = boolShould (map (compileNode c nested) items)"
| "compileNode c nested (andNode items) = boolFilter (map (compileNode c nested) items)"
| "compileNode c nested (notNode child) = boolMustNot (compileNode c nested child)"
| "compileNode c nested (fieldNode field opr v) = compileField c field opr v nested"
| "compileNode c nested (textNode v) = compileText v"
| "compileNode c nested (nestedNode p child) =
     nestedQuery (qualify nested (literal p)) (compileNode c (qualify nested (literal p)) child)"

text \<open>The last field of a name wins.\<close>

definition newCompiler :: "KqlField list \<Rightarrow> runes \<Rightarrow> compiler" where
  "newCompiler fs tz =
     \<lparr>kc_fields = fs, kc_byName = map_of (rev (map (\<lambda>f. (kf_Name f, f)) fs)), kc_tz = tz\<rparr>"

definition Compile :: "runes \<Rightarrow> KqlField list \<Rightarrow> runes \<Rightarrow> (SyntaxError + Json) option" where
  "Compile query fs tz =
     (case kqlParse query of
        None \<Rightarrow> None
      | Some (Inl e) \<Rightarrow> Some (Inl e)
      | Some (Inr None) \<Rightarrow> Some (Inr matchAll)
      | Some (Inr (Some root)) \<Rightarrow> Some (Inr (compileNode (newCompiler fs tz) [] root)))"

definition LuceneQuery :: "runes \<Rightarrow> runes \<Rightarrow> Json" where
  "LuceneQuery query tz =
     (if TrimSpaceText query = [] then matchAll
      else JObj [(key ''query_string'', JObj ([(key ''query'', JStr query), (key ''analyze_wildcard'', JBool True)] @
             (if tz \<noteq> [] then [(key ''time_zone'', JStr tz)] else [])))])"

section \<open>What a query asks for\<close>

text \<open>
  The meaning of a query is stated on what the user wrote, without the compiler.  A value is a pattern: runes
  that stand for themselves, escaped ones and quoted stars included, and wildcards.
\<close>

datatype Pat = PLit rune | PAny

definition wordPat :: "KqlPart list \<Rightarrow> Pat list" where
  "wordPat ps = concat (map (\<lambda>p. if kp_star p then [PAny] else map PLit (kp_text p)) ps)"

fun patOf :: "ValueSrc \<Rightarrow> Pat list" where
  "patOf (QuotedSrc t) = map PLit t"
| "patOf (WordsSrc w ws) = wordPat w @ concat (map (\<lambda>(sp, v). map PLit sp @ wordPat v) ws)"

definition plainText :: "Pat list \<Rightarrow> runes" where
  "plainText = map (\<lambda>i. case i of PLit r \<Rightarrow> r | PAny \<Rightarrow> starRune)"

fun matchesPat :: "Pat list \<Rightarrow> runes \<Rightarrow> bool" where
  "matchesPat [] s \<longleftrightarrow> s = []"
| "matchesPat (PLit r # ps) s \<longleftrightarrow> s \<noteq> [] \<and> hd s = r \<and> matchesPat ps (tl s)"
| "matchesPat (PAny # ps) s \<longleftrightarrow> list_ex (\<lambda>k. matchesPat ps (drop k s)) [0..<Suc (length s)]"

datatype Bound = Below | AtMost | Above | AtLeast

fun boundOf :: "tokKind \<Rightarrow> Bound" where
  "boundOf tLt = Below"
| "boundOf tLte = AtMost"
| "boundOf tGt = Above"
| "boundOf k = AtLeast"

text \<open>
  What the search engine judges of a document: a field's value against a bound, in a time zone when one is
  given; that a field is present; that it has a phrase, some of the words or a pattern; the same of any field;
  and the inner documents of a nested path.
\<close>

record 'd Search =
  sr_range :: "'d \<Rightarrow> runes \<Rightarrow> Bound \<Rightarrow> runes \<Rightarrow> runes \<Rightarrow> bool"
  sr_has :: "'d \<Rightarrow> runes \<Rightarrow> bool"
  sr_phrase :: "'d \<Rightarrow> runes \<Rightarrow> runes \<Rightarrow> bool"
  sr_words :: "'d \<Rightarrow> runes \<Rightarrow> runes \<Rightarrow> bool"
  sr_like :: "'d \<Rightarrow> runes \<Rightarrow> Pat list \<Rightarrow> bool"
  sr_anyPhrase :: "'d \<Rightarrow> runes \<Rightarrow> bool"
  sr_anyWords :: "'d \<Rightarrow> runes \<Rightarrow> bool"
  sr_anyLike :: "'d \<Rightarrow> Pat list \<Rightarrow> bool"
  sr_inner :: "'d \<Rightarrow> runes \<Rightarrow> 'd list"

text \<open>The data view: the last field of a name counts.\<close>

definition fieldNamed :: "KqlField list \<Rightarrow> runes \<Rightarrow> KqlField option" where
  "fieldNamed fs name = find (\<lambda>f. kf_Name f = name) (rev fs)"

definition zoneFor :: "KqlField list \<Rightarrow> runes \<Rightarrow> runes \<Rightarrow> runes" where
  "zoneFor fs tz name = (case fieldNamed fs name of Some f \<Rightarrow> if kf_Type f = asRunes ''date'' then tz else [] | None \<Rightarrow> [])"

text \<open>A test of a field is made where the field lives: inside its nested path unless the query is there already.\<close>

definition whereFieldLives :: "'d Search \<Rightarrow> KqlField list \<Rightarrow> runes \<Rightarrow> runes \<Rightarrow> ('d \<Rightarrow> bool) \<Rightarrow> 'd \<Rightarrow> bool" where
  "whereFieldLives sr fs at name test d =
     (case fieldNamed fs name of
        None \<Rightarrow> test d
      | Some f \<Rightarrow> if kf_Nested f = [] \<or> kf_Nested f = at then test d else list_ex test (sr_inner sr d (kf_Nested f)))"

definition inside :: "runes \<Rightarrow> Pat list \<Rightarrow> Pat list" where
  "inside at pat = (if at = [] then pat else map PLit at @ PLit 46 # pat)"

text \<open>A field name with a wildcard stands for the searchable fields it matches, one without for itself.\<close>

definition namesMeant :: "KqlField list \<Rightarrow> runes \<Rightarrow> ValueSrc \<Rightarrow> runes list" where
  "namesMeant fs at p =
     (if PAny \<in> set (patOf p)
      then map kf_Name (filter (\<lambda>f. kf_Searchable f \<and> matchesPat (inside at (patOf p)) (kf_Name f)) fs)
      else [plainText (inside at (patOf p))])"

definition fieldTest :: "'d Search \<Rightarrow> KqlField list \<Rightarrow> runes \<Rightarrow> ValueSrc \<Rightarrow> (runes \<Rightarrow> 'd \<Rightarrow> bool) \<Rightarrow> 'd \<Rightarrow> bool" where
  "fieldTest sr fs at p test d = list_ex (\<lambda>name. whereFieldLives sr fs at name (test name) d) (namesMeant fs at p)"

fun valueHolds :: "'d Search \<Rightarrow> ValueSrc \<Rightarrow> runes \<Rightarrow> 'd \<Rightarrow> bool" where
  "valueHolds sr (QuotedSrc t) name d = sr_phrase sr d name t"
| "valueHolds sr (WordsSrc w ws) name d =
     (let pat = patOf (WordsSrc w ws) in
      if pat = [PAny] then sr_has sr d name
      else if PAny \<in> set pat then sr_like sr d name pat
      else sr_words sr d name (plainText pat))"

fun textHolds :: "'d Search \<Rightarrow> ValueSrc \<Rightarrow> 'd \<Rightarrow> bool" where
  "textHolds sr (QuotedSrc t) d = sr_anyPhrase sr d t"
| "textHolds sr (WordsSrc w ws) d =
     (let pat = patOf (WordsSrc w ws) in
      if PAny \<in> set pat then sr_anyLike sr d pat else sr_anyWords sr d (plainText pat))"

fun evalTree :: "bool BTree \<Rightarrow> bool" where
  "evalTree (BOr bs) \<longleftrightarrow> list_ex evalTree bs"
| "evalTree (BAnd bs) \<longleftrightarrow> list_all evalTree bs"
| "evalTree (BNot b) \<longleftrightarrow> \<not> evalTree b"
| "evalTree (BLeaf b) \<longleftrightarrow> b"

text \<open>The meaning of a clause on a document inside a nested path.\<close>

primrec clauseHolds :: "'d Search \<Rightarrow> KqlField list \<Rightarrow> runes \<Rightarrow> ClauseSrc \<Rightarrow> runes \<Rightarrow> 'd \<Rightarrow> bool" where
  "clauseHolds sr fs tz (MatchSrc p v) = (\<lambda>at d. evalTree (map_BTree (\<lambda>u. fieldTest sr fs at p (valueHolds sr u) d) v))"
| "clauseHolds sr fs tz (RangeSrc p k v) =
     (\<lambda>at d. fieldTest sr fs at p (\<lambda>name e. sr_range sr e name (boundOf k) (plainText (patOf v)) (zoneFor fs tz name)) d)"
| "clauseHolds sr fs tz (TextSrc v) = (\<lambda>at d. textHolds sr v d)"
| "clauseHolds sr fs tz (NestedSrc p b) =
     (\<lambda>at d. let path = plainText (inside at (patOf p)) in
        list_ex (\<lambda>e. evalTree (map_BTree (\<lambda>h. h path e) (map_BTree (clauseHolds sr fs tz) b))) (sr_inner sr d path))"

section \<open>What Elasticsearch documents\<close>

text \<open>
  How \<open>query_string\<close> reads a text: a backslash takes the next rune literally, a star is a wildcard, and the
  reserved runes and white space of its documentation are syntax.  The angle brackets cannot be escaped.
\<close>

definition esSyntax :: runes where
  "esSyntax = [43, 45, 61, 38, 124, 62, 60, 33, 40, 41, 123, 125, 91, 93, 94, 34, 126, 63, 58, 92, 47, 32, 9, 10, 13, 12288]"

definition esPlain :: "rune \<Rightarrow> Pat list option" where
  "esPlain r = (if r = 42 then Some [PAny] else if r \<in> set esSyntax then None else Some [PLit r])"

definition esEscaped :: "rune \<Rightarrow> Pat list option" where
  "esEscaped r = (if r = 60 \<or> r = 62 then None else Some [PLit r])"

definition bothPats :: "Pat list option \<Rightarrow> Pat list option \<Rightarrow> Pat list option" where
  "bothPats a b = (case (a, b) of (Some x, Some y) \<Rightarrow> Some (x @ y) | _ \<Rightarrow> None)"

fun readQueryString :: "runes \<Rightarrow> Pat list option" where
  "readQueryString [] = Some []"
| "readQueryString [r] = esPlain r"
| "readQueryString (r # s # rs) =
     (if r = 92 then bothPats (esEscaped s) (readQueryString rs) else bothPats (esPlain r) (readQueryString (s # rs)))"

definition obj :: "(string \<times> Json) list \<Rightarrow> Json" where
  "obj ms = JObj (map (\<lambda>(k, x). (asRunes k, x)) ms)"

text \<open>
  The documented behaviour of the queries, written out as the requests spell them: \<open>filter\<close> asks for all,
  \<open>must_not\<close> for none, \<open>should\<close> with a minimum of one for some, a nested query for some inner document of the path.
\<close>

definition compoundLaws :: "('d \<Rightarrow> Json \<Rightarrow> bool) \<Rightarrow> 'd Search \<Rightarrow> bool" where
  "compoundLaws holds sr \<longleftrightarrow>
     (\<forall>d. \<not> holds d (obj [(''match_none'', obj [])])) \<and>
     (\<forall>d qs. qs \<noteq> [] \<longrightarrow>
        holds d (obj [(''bool'', obj [(''should'', JArr qs), (''minimum_should_match'', JNum 1)])]) = list_ex (holds d) qs) \<and>
     (\<forall>d qs. qs \<noteq> [] \<longrightarrow> holds d (obj [(''bool'', obj [(''filter'', JArr qs)])]) = list_all (holds d) qs) \<and>
     (\<forall>d q. holds d (obj [(''bool'', obj [(''must_not'', JArr [q])])]) = (\<not> holds d q)) \<and>
     (\<forall>d path q. holds d (obj [(''nested'', obj [(''path'', JStr path), (''score_mode'', JStr (asRunes ''none'')), (''query'', q)])]) =
        list_ex (\<lambda>e. holds e q) (sr_inner sr d path))"

definition rangeLaws :: "('d \<Rightarrow> Json \<Rightarrow> bool) \<Rightarrow> 'd Search \<Rightarrow> bool" where
  "rangeLaws holds sr \<longleftrightarrow>
     list_all (\<lambda>(k, b).
       (\<forall>d f x. holds d (obj [(''range'', JObj [(f, obj [(k, JStr x)])])]) = sr_range sr d f b x []) \<and>
       (\<forall>d f x z. z \<noteq> [] \<longrightarrow>
          holds d (obj [(''range'', JObj [(f, obj [(k, JStr x), (''time_zone'', JStr z)])])]) = sr_range sr d f b x z))
     [(''lt'', Below), (''lte'', AtMost), (''gt'', Above), (''gte'', AtLeast)]"

definition leafLaws :: "('d \<Rightarrow> Json \<Rightarrow> bool) \<Rightarrow> 'd Search \<Rightarrow> bool" where
  "leafLaws holds sr \<longleftrightarrow>
     (\<forall>d f. holds d (obj [(''exists'', obj [(''field'', JStr f)])]) = sr_has sr d f) \<and>
     (\<forall>d f x. holds d (obj [(''match_phrase'', JObj [(f, JStr x)])]) = sr_phrase sr d f x) \<and>
     (\<forall>d f x. holds d (obj [(''match'', JObj [(f, obj [(''query'', JStr x), (''lenient'', JBool True)])])]) = sr_words sr d f x) \<and>
     (\<forall>d f x pat. readQueryString x = Some pat \<and> PAny \<in> set pat \<longrightarrow>
        holds d (obj [(''query_string'', obj [(''fields'', JArr [JStr f]), (''query'', JStr x), (''analyze_wildcard'', JBool True)])]) =
        sr_like sr d f pat) \<and>
     (\<forall>d x pat. readQueryString x = Some pat \<and> PAny \<in> set pat \<longrightarrow>
        holds d (obj [(''query_string'', obj [(''query'', JStr x), (''analyze_wildcard'', JBool True), (''lenient'', JBool True)])]) =
        sr_anyLike sr d pat) \<and>
     (\<forall>d x. holds d (obj [(''multi_match'', obj [(''type'', JStr (asRunes ''phrase'')), (''query'', JStr x), (''lenient'', JBool True)])]) =
        sr_anyPhrase sr d x) \<and>
     (\<forall>d x. holds d (obj [(''multi_match'', obj [(''type'', JStr (asRunes ''best_fields'')), (''query'', JStr x), (''lenient'', JBool True)])]) =
        sr_anyWords sr d x)"

section \<open>Queries the compiler takes as they are meant\<close>

text \<open>
  A field name with a wildcard has no escaped star beside it; a value with a wildcard has none of the runes
  that \<open>query_string\<close> cannot take literally (angle brackets) or that are not escaped for it (white space other
  than the blank); a nested path has no star.
\<close>

definition plainGlob :: "ValueSrc \<Rightarrow> bool" where
  "plainGlob p \<longleftrightarrow> (PAny \<in> set (patOf p) \<longrightarrow> PLit 42 \<notin> set (patOf p))"

definition plainLike :: "ValueSrc \<Rightarrow> bool" where
  "plainLike v \<longleftrightarrow> (PAny \<in> set (patOf v) \<longrightarrow> list_all (\<lambda>r. PLit r \<notin> set (patOf v)) [60, 62, 9, 10, 13, 12288])"

primrec plainClause :: "ClauseSrc \<Rightarrow> bool" where
  "plainClause (MatchSrc p v) \<longleftrightarrow> plainGlob p \<and> pred_BTree plainLike v"
| "plainClause (RangeSrc p k v) \<longleftrightarrow> plainGlob p"
| "plainClause (TextSrc v) \<longleftrightarrow> plainLike v"
| "plainClause (NestedSrc p b) \<longleftrightarrow> 42 \<notin> set (plainText (patOf p)) \<and> pred_BTree (\<lambda>w. w) (map_BTree plainClause b)"

section \<open>Values\<close>

lemma parts_text: "concat (map (\<lambda>p. if kp_star p then [starRune] else kp_text p) ps) = plainText (wordPat ps)"
  by (induction ps) (auto simp: wordPat_def plainText_def comp_def)

definition partsPat :: "KqlValue \<Rightarrow> Pat list" where
  "partsPat v = wordPat (kv_parts v)"

lemma pat_value: "patOf v = partsPat (valueOf v)"
proof (cases v)
  case (WordsSrc w ws)
  have "concat (map (\<lambda>(sp, v). map PLit sp @ wordPat v) ws) = wordPat (concat (map (\<lambda>(sp, v). \<lparr>kp_text = sp, kp_star = False\<rparr> # v) ws))"
    by (induction ws) (auto simp: wordPat_def)
  then show ?thesis by (simp add: WordsSrc partsPat_def wordPat_def)
qed (simp add: partsPat_def wordPat_def)

lemma literal_value: "literal (valueOf v) = plainText (patOf v)"
  by (simp add: pat_value partsPat_def literal_def parts_text)

lemma any_star: "PAny \<in> set (wordPat ps) \<longleftrightarrow> list_ex kp_star ps"
  by (induction ps) (auto simp: wordPat_def)

lemma wildcard_value: "hasWildcard (valueOf v) \<longleftrightarrow> PAny \<in> set (patOf v)"
proof (cases v)
  case (QuotedSrc t)
  then show ?thesis by (auto simp: hasWildcard_def)
next
  case (WordsSrc w ws)
  then have "\<not> kv_quoted (valueOf v)" by simp
  then show ?thesis by (simp add: hasWildcard_def pat_value partsPat_def any_star)
qed

lemma one_wildcard: "list_all (\<lambda>p. kp_star p \<or> kp_text p \<noteq> []) ps \<Longrightarrow> wordPat ps = [PAny] \<longleftrightarrow> length ps = 1 \<and> kp_star (hd ps)"
  by (cases ps; cases "tl ps") (auto simp: wordPat_def Cons_eq_append_conv append_eq_Cons_conv)

lemma wfParts_texts: "wfParts ps \<Longrightarrow> list_all (\<lambda>p. kp_star p \<or> kp_text p \<noteq> []) ps"
  by (induction ps rule: wfParts.induct) (auto simp: wfPart_def split: if_splits)

lemma only_wildcard: "wfValue (WordsSrc w ws) \<Longrightarrow> onlyWildcard (valueOf (WordsSrc w ws)) \<longleftrightarrow> patOf (WordsSrc w ws) = [PAny]"
proof -
  let ?ps = "w @ concat (map (\<lambda>(sp, v). \<lparr>kp_text = sp, kp_star = False\<rparr> # v) ws)"
  assume wf: "wfValue (WordsSrc w ws)"
  have "list_all (\<lambda>p. kp_star p \<or> kp_text p \<noteq> []) ?ps"
    using wf wfParts_texts by (fastforce simp: wfWord_def list_all_iff)
  then show ?thesis using one_wildcard [of ?ps] by (simp only: pat_value partsPat_def) (simp add: onlyWildcard_def)
qed

section \<open>Wildcard field names\<close>

text \<open>The glob a field name spells: a star stands for any runes but newlines.\<close>

fun globMatch :: "runes \<Rightarrow> runes \<Rightarrow> bool" where
  "globMatch [] s \<longleftrightarrow> s = []"
| "globMatch (r # g) s \<longleftrightarrow>
     (if r = starRune then (\<exists>k\<le>length s. 10 \<notin> set (take k s) \<and> globMatch g (drop k s))
      else s \<noteq> [] \<and> hd s = r \<and> globMatch g (tl s))"

lemma list_ex_upto: "list_ex P [0..<Suc n] \<longleftrightarrow> (\<exists>k\<le>n. P k)"
  by (simp only: list_ex_iff set_upt) (auto simp: less_Suc_eq_le)

lemma splitStars_Nil: "splitStars g \<noteq> []"
  by (cases g) auto

lemma glob_regexp_exact: "globRegexp g s = globMatch g s"
  unfolding globRegexp_def
proof (induction g arbitrary: s)
  case (Cons r g)
  obtain p ps where sp: "splitStars g = p # ps" using splitStars_Nil [of g] by (cases "splitStars g") auto
  show ?case
  proof (cases "r = starRune")
    case True
    then show ?thesis using Cons.IH sp by (simp add: list_ex_upto del: upt_Suc)
  next
    case False
    have "matchPieces ((r # p) # ps) s \<longleftrightarrow> s \<noteq> [] \<and> hd s = r \<and> matchPieces (p # ps) (tl s)" by (cases ps; cases s) auto
    then show ?thesis using Cons.IH [of "tl s"] sp False by simp
  qed
qed simp

lemma glob_pattern: "PLit 42 \<notin> set pat \<Longrightarrow> 10 \<notin> set s \<Longrightarrow> globRegexp (plainText pat) s = matchesPat pat s"
  unfolding glob_regexp_exact
proof (induction pat s rule: matchesPat.induct)
  case (2 r ps s)
  have "10 \<notin> set (tl s)" using 2(3) by (cases s) auto
  then show ?case using 2 by (auto simp: plainText_def)
next
  case (3 ps s)
  have "globMatch (plainText ps) (drop k s) = matchesPat ps (drop k s)" if "k \<le> length s" for k
    using 3 that set_drop_subset [of k s] by (auto simp del: upt_Suc simp: less_Suc_eq_le)
  moreover have "10 \<notin> set (take k s)" for k using 3(3) set_take_subset [of k s] by blast
  ultimately show ?case by (auto simp: plainText_def list_ex_upto simp del: upt_Suc)
qed (simp add: plainText_def)

text \<open>
  An escaped star next to a wildcard is taken for a wildcard: \<^verbatim>\<open>literal\<close> writes both the same way.
\<close>

lemma escaped_star_matches:
  "kv_parts v = [\<lparr>kp_text = asRunes ''a*b'', kp_star = False\<rparr>, \<lparr>kp_text = [], kp_star = True\<rparr>] \<Longrightarrow> \<not> kv_quoted v \<Longrightarrow>
   hasWildcard v \<and> globRegexp (literal v) (asRunes ''axbz'') \<and> \<not> matchesPat (partsPat v) (asRunes ''axbz'')"
  by (simp add: hasWildcard_def literal_def asRunes_def globRegexp_def partsPat_def wordPat_def)

section \<open>Text for \<open>query_string\<close>\<close>

lemma read_rune:
  assumes "r \<notin> {60, 62, 9, 10, 13, 12288}"
  shows "readQueryString ((if r \<in> set queryStringReserved then [bslashRune, r] else [r]) @ rs) = bothPats (Some [PLit r]) (readQueryString rs)"
proof (cases "r \<in> set queryStringReserved")
  case True
  then show ?thesis using assms by (simp add: esEscaped_def)
next
  case False
  then have "r \<noteq> 42" "r \<noteq> 92" "r \<notin> set esSyntax" using assms by (auto simp: queryStringReserved_def esSyntax_def asRunes_def)
  then show ?thesis using False by (cases rs) (simp_all add: esPlain_def bothPats_def)
qed

lemma read_star: "readQueryString (starRune # rs) = bothPats (Some [PAny]) (readQueryString rs)"
  by (cases rs) (simp_all add: esPlain_def bothPats_def)

lemma bothPats_some: "bothPats (Some x) (bothPats (Some y) z) = bothPats (Some (x @ y)) z" "bothPats (Some []) z = z"
  by (auto simp: bothPats_def split: option.splits)

lemma read_text:
  "list_all (\<lambda>r. r \<notin> {60, 62, 9, 10, 13, 12288}) t \<Longrightarrow>
   readQueryString (concat (map (\<lambda>r. if r \<in> set queryStringReserved then [bslashRune, r] else [r]) t) @ rs) =
   bothPats (Some (map PLit t)) (readQueryString rs)"
proof (induction t)
  case (Cons r t)
  then show ?case using read_rune [of r] by (simp add: bothPats_some del: insert_iff)
qed (simp add: bothPats_some)

text \<open>
  No text of the user is taken for syntax: \<open>query_string\<close> reads back every rune of a value's text as a literal
  and exactly its wildcards as wildcards.
\<close>

lemma query_string_exact:
  assumes "list_all (\<lambda>r. PLit r \<notin> set (partsPat v)) [60, 62, 9, 10, 13, 12288]"
  shows "readQueryString (queryStringText v) = Some (partsPat v)"
proof -
  have "readQueryString (concat (map (\<lambda>p. if kp_star p then [starRune]
           else concat (map (\<lambda>r. if r \<in> set queryStringReserved then [bslashRune, r] else [r]) (kp_text p))) ps)) =
        Some (wordPat ps)" if "list_all (\<lambda>r. PLit r \<notin> set (wordPat ps)) [60, 62, 9, 10, 13, 12288]" for ps
    using that
  proof (induction ps)
    case (Cons p ps)
    have ps: "list_all (\<lambda>r. PLit r \<notin> set (wordPat ps)) [60, 62, 9, 10, 13, 12288]" using Cons.prems by (auto simp: wordPat_def)
    have "list_all (\<lambda>r. r \<notin> {60, 62, 9, 10, 13, 12288}) (kp_text p)" if "\<not> kp_star p"
      using Cons.prems that by (auto simp: wordPat_def list_all_iff)
    then show ?case using Cons.IH [OF ps] by (auto simp: read_star read_text bothPats_def wordPat_def simp del: insert_iff)
  qed (simp add: wordPat_def)
  then show ?thesis using assms by (simp add: queryStringText_def partsPat_def)
qed

text \<open>
  White space other than the blank is not escaped: a pattern whose words are separated by a tab reaches
  \<open>query_string\<close> as two terms.
\<close>

lemma tab_not_escaped:
  "kv_parts v = [\<lparr>kp_text = asRunes ''a'', kp_star = False\<rparr>, \<lparr>kp_text = [9], kp_star = False\<rparr>, \<lparr>kp_text = asRunes ''b'', kp_star = False\<rparr>,
     \<lparr>kp_text = [], kp_star = True\<rparr>] \<Longrightarrow> queryStringText v = asRunes ''a'' @ [9] @ asRunes ''b*'' \<and> readQueryString (queryStringText v) = None"
  by (simp add: queryStringText_def queryStringReserved_def asRunes_def esPlain_def esSyntax_def bothPats_def)

section \<open>The compiler says what the query asks for\<close>

definition engineLaws :: "('d \<Rightarrow> Json \<Rightarrow> bool) \<Rightarrow> 'd Search \<Rightarrow> bool" where
  "engineLaws holds sr \<longleftrightarrow> compoundLaws holds sr \<and> rangeLaws holds sr \<and> leafLaws holds sr"

lemma compound_means:
  assumes "engineLaws holds sr"
  shows "\<not> holds d matchNone" and "qs \<noteq> [] \<Longrightarrow> holds d (boolShould qs) = list_ex (holds d) qs"
    and "qs \<noteq> [] \<Longrightarrow> holds d (boolFilter qs) = list_all (holds d) qs" and "holds d (boolMustNot q) = (\<not> holds d q)"
    and "holds d (nestedQuery path q) = list_ex (\<lambda>e. holds e q) (sr_inner sr d path)"
  using assms
  by (simp_all add: engineLaws_def compoundLaws_def obj_def matchNone_def boolShould_def boolFilter_def boolMustNot_def nestedQuery_def)

lemma byName_named: "kc_byName (newCompiler fs tz) name = fieldNamed fs name"
proof -
  have "map_of (map (\<lambda>f. (kf_Name f, f)) gs) name = find (\<lambda>f. kf_Name f = name) gs" for gs
    by (induction gs) auto
  then show ?thesis by (simp add: newCompiler_def fieldNamed_def rev_map)
qed

definition leafQuery :: "runes \<Rightarrow> runes \<Rightarrow> runes \<Rightarrow> KqlValue \<Rightarrow> Json" where
  "leafQuery zone name opr v =
     (if opr \<noteq> [58] then
        JObj [(key ''range'', JObj [(name, JObj ((rangeOps opr, JStr (literal v)) # (if zone \<noteq> [] then [(key ''time_zone'', JStr zone)] else [])))])]
      else if onlyWildcard v then JObj [(key ''exists'', JObj [(key ''field'', JStr name)])]
      else if kv_quoted v then JObj [(key ''match_phrase'', JObj [(name, JStr (literal v))])]
      else if hasWildcard v then
        JObj [(key ''query_string'', JObj [(key ''fields'', JArr [JStr name]), (key ''query'', JStr (queryStringText v)),
          (key ''analyze_wildcard'', JBool True)])]
      else JObj [(key ''match'', JObj [(name, JObj [(key ''query'', JStr (literal v)), (key ''lenient'', JBool True)])])])"

lemma clause_lives:
  assumes "engineLaws holds sr"
  shows "holds d (clause (newCompiler fs tz) name opr v at) =
    whereFieldLives sr fs at name (\<lambda>e. holds e (leafQuery (zoneFor fs tz name) name opr v)) d"
proof -
  have "key ''date'' \<noteq> []" by (simp add: asRunes_def)
  then show ?thesis
    by (cases "fieldNamed fs name")
      (simp_all add: clause_def leafQuery_def whereFieldLives_def zoneFor_def Let_def byName_named compound_means [OF assms] zeroField_def
        newCompiler_def [THEN arg_cong, of kc_tz])
qed

lemma value_means:
  assumes "engineLaws holds sr" and "wfValue u" and "plainLike u"
  shows "holds e (leafQuery zone name [58] (valueOf u)) = valueHolds sr u name e"
proof -
  have l: "leafLaws holds sr" using assms(1) by (simp add: engineLaws_def)
  show ?thesis
  proof (cases u)
    case (QuotedSrc t)
    have "literal (valueOf u) = t" by (simp add: QuotedSrc literal_def)
    then show ?thesis using l QuotedSrc by (simp add: leafQuery_def leafLaws_def obj_def onlyWildcard_def)
  next
    case (WordsSrc w ws)
    have q: "readQueryString (queryStringText (valueOf u)) = Some (patOf u)" if "PAny \<in> set (patOf u)"
      using assms(3) that by (simp only: pat_value plainLike_def query_string_exact)
    have w: "onlyWildcard (valueOf u) \<longleftrightarrow> patOf u = [PAny]" using only_wildcard assms(2) WordsSrc by blast
    have k: "\<not> kv_quoted (valueOf u)" by (simp add: WordsSrc)
    have v: "valueHolds sr u name e = (if patOf u = [PAny] then sr_has sr e name
        else if PAny \<in> set (patOf u) then sr_like sr e name (patOf u) else sr_words sr e name (plainText (patOf u)))"
      by (simp only: WordsSrc valueHolds.simps Let_def)
    show ?thesis unfolding v using l q by (simp add: leafQuery_def w k wildcard_value literal_value leafLaws_def obj_def)
  qed
qed

lemma text_means:
  assumes "engineLaws holds sr" and "plainLike u"
  shows "holds e (compileText (valueOf u)) = textHolds sr u e"
proof -
  have l: "leafLaws holds sr" using assms(1) by (simp add: engineLaws_def)
  have q: "readQueryString (queryStringText (valueOf u)) = Some (patOf u)" if "PAny \<in> set (patOf u)"
    using assms(2) that by (simp only: pat_value plainLike_def query_string_exact)
  show ?thesis
  proof (cases u)
    case (QuotedSrc t)
    have "literal (valueOf u) = t" by (simp add: QuotedSrc literal_def)
    then show ?thesis using l QuotedSrc by (simp add: compileText_def leafLaws_def obj_def hasWildcard_def)
  next
    case (WordsSrc w ws)
    have k: "\<not> kv_quoted (valueOf u)" by (simp add: WordsSrc)
    have "textHolds sr u e = (if PAny \<in> set (patOf u) then sr_anyLike sr e (patOf u) else sr_anyWords sr e (plainText (patOf u)))"
      by (simp only: WordsSrc textHolds.simps Let_def)
    then show ?thesis using l q k by (simp add: compileText_def wildcard_value literal_value leafLaws_def obj_def)
  qed
qed

lemma range_means:
  assumes "engineLaws holds sr" and "k \<in> set cmpKinds"
  shows "holds e (leafQuery zone name (symText k) (valueOf v)) = sr_range sr e name (boundOf k) (plainText (patOf v)) zone"
proof -
  have l: "rangeLaws holds sr" using assms(1) by (simp add: engineLaws_def)
  consider "k = tLt" | "k = tLte" | "k = tGt" | "k = tGte" using assms(2) by (auto simp: cmpKinds_def)
  then show ?thesis using l by cases (simp_all add: leafQuery_def rangeOps_def literal_value rangeLaws_def obj_def)
qed

lemma inside_text: "qualify at (plainText pat) = plainText (inside at pat)"
  by (simp add: qualify_def inside_def plainText_def comp_def)

lemma field_means:
  assumes laws: "engineLaws holds sr" and "plainGlob p" and "42 \<notin> set at" and "list_all (\<lambda>f. 10 \<notin> set (kf_Name f)) fs"
    and "\<And>name e. holds e (leafQuery (zoneFor fs tz name) name opr v) = test name e"
  shows "holds d (compileField (newCompiler fs tz) (valueOf p) opr v at) = fieldTest sr fs at p test d"
proof -
  have c: "holds d (clause (newCompiler fs tz) name opr v at) = whereFieldLives sr fs at name (test name) d" for name
    using clause_lives [OF laws] assms(5) by simp
  have n: "qualify at (literal (valueOf p)) = plainText (inside at (patOf p))" by (simp add: literal_value inside_text)
  show ?thesis
  proof (cases "PAny \<in> set (patOf p)")
    case True
    then have g: "PLit 42 \<notin> set (inside at (patOf p))" using assms(2,3) by (auto simp: plainGlob_def inside_def)
    let ?gs = "filter (\<lambda>f. kf_Searchable f \<and> matchesPat (inside at (patOf p)) (kf_Name f)) fs"
    have "filter (\<lambda>f. kf_Searchable f \<and> globRegexp (plainText (inside at (patOf p))) (kf_Name f)) fs = ?gs"
      using g assms(4) by (intro filter_cong) (auto simp: glob_pattern list_all_iff)
    moreover have "kc_fields (newCompiler fs tz) = fs" by (simp add: newCompiler_def)
    ultimately have e: "compileField (newCompiler fs tz) (valueOf p) opr v at =
        (if ?gs = [] then matchNone else boolShould (map (\<lambda>f. clause (newCompiler fs tz) (kf_Name f) opr v at) ?gs))"
      using True by (simp add: compileField_def wildcard_value n Let_def)
    have m: "namesMeant fs at p = map kf_Name ?gs" using True by (simp add: namesMeant_def)
    show ?thesis unfolding e fieldTest_def m by (cases "?gs = []") (simp_all add: compound_means [OF laws] list_ex_iff c)
  qed (simp add: compileField_def fieldTest_def namesMeant_def wildcard_value n Let_def c)
qed

lemma joined_means:
  assumes "engineLaws holds sr" and "ns \<noteq> []"
  shows "holds d (compileNode c at (joined orNode ns)) = list_ex (\<lambda>n. holds d (compileNode c at n)) ns"
    and "holds d (compileNode c at (joined andNode ns)) = list_all (\<lambda>n. holds d (compileNode c at n)) ns"
proof -
  consider n where "ns = [n]" | "length ns \<noteq> 1" by (cases ns rule: remdups_adj.cases) auto
  then show "holds d (compileNode c at (joined orNode ns)) = list_ex (\<lambda>n. holds d (compileNode c at n)) ns"
    and "holds d (compileNode c at (joined andNode ns)) = list_all (\<lambda>n. holds d (compileNode c at n)) ns"
    by (cases; use assms(2) in \<open>simp add: joined_def compound_means [OF assms(1)] list_ex_iff list_all_iff\<close>)+
qed

lemma tree_means:
  assumes laws: "engineLaws holds sr"
  shows "wfTree b \<Longrightarrow> (\<And>a. a \<in> set_BTree b \<Longrightarrow> holds d (compileNode c at (g a)) = f a) \<Longrightarrow>
    holds d (compileNode c at (meanTree (map_BTree g b))) = evalTree (map_BTree f b)"
proof (induction b)
  case (BOr bs)
  have "holds d (compileNode c at (meanTree (map_BTree g b))) = evalTree (map_BTree f b)" if "b \<in> set bs" for b
    using BOr that by (auto simp: list_all_iff)
  then show ?case using BOr.prems(1) joined_means(1) [OF laws, of "map (meanTree \<circ> map_BTree g) bs"] by (simp add: list_ex_iff)
next
  case (BAnd bs)
  have "holds d (compileNode c at (meanTree (map_BTree g b))) = evalTree (map_BTree f b)" if "b \<in> set bs" for b
    using BAnd that by (auto simp: list_all_iff)
  then show ?case using BAnd.prems(1) joined_means(2) [OF laws, of "map (meanTree \<circ> map_BTree g) bs"] by (simp add: list_all_iff)
next
  case (BNot b)
  then show ?case by (simp add: compound_means [OF laws])
qed simp

lemma clause_means:
  assumes laws: "engineLaws holds sr" and names: "list_all (\<lambda>f. 10 \<notin> set (kf_Name f)) fs"
  shows "wfClause a \<Longrightarrow> plainClause a \<Longrightarrow> 42 \<notin> set at \<Longrightarrow>
    holds d (compileNode (newCompiler fs tz) at (meanClause a)) = clauseHolds sr fs tz a at d"
proof (induction a arbitrary: at d)
  case (MatchSrc p v)
  have "holds d (compileField (newCompiler fs tz) (valueOf p) [58] (valueOf u) at) = fieldTest sr fs at p (valueHolds sr u) d"
    if "u \<in> set_BTree v" for u
    using MatchSrc that by (intro field_means [OF laws] value_means [OF laws] names) (auto simp: BTree.pred_set)
  moreover have "asRunes '':'' = [58]" by (simp add: asRunes_def)
  ultimately show ?case using MatchSrc.prems(1) by (simp add: tree_means [OF laws])
next
  case (RangeSrc p k v)
  then show ?case using range_means [OF laws] names by (simp add: field_means [OF laws])
next
  case (TextSrc v)
  then show ?case by (simp add: text_means [OF laws])
next
  case (NestedSrc p b)
  let ?path = "plainText (inside at (patOf p))"
  have "42 \<notin> set ?path" using NestedSrc.prems by (simp add: inside_text [symmetric] qualify_def)
  then have "holds e (compileNode (newCompiler fs tz) ?path (meanTree (map_BTree meanClause b))) =
      evalTree (map_BTree (\<lambda>a. clauseHolds sr fs tz a ?path e) b)" for e
    using NestedSrc by (intro tree_means [OF laws]) (auto simp: BTree.pred_set BTree.set_map)
  then show ?case by (simp add: compound_means [OF laws] literal_value inside_text BTree.map_comp comp_def Let_def)
qed

text \<open>
  C29: A query means what was written.  The meaning of a query tree is stated without the compiler: fields
  tested inside the nested path they live in, a wildcard field name standing for the searchable fields it
  matches, ranges with the bound and the time zone of a date field, presence, phrases, words and patterns.
  For every search engine that behaves as Elasticsearch documents of the requests the compiler writes, the
  compiled form of a printed query holds of a document exactly when the tree it was printed from does,
  provided that no wildcard field name has an escaped star, no nested path a star, no field of the data view
  a newline in its name and no pattern an angle bracket or white space other than the blank.
\<close>

theorem kql_compiled_meaning:
  assumes "engineLaws holds sr" and "wfTree q" and "pred_BTree wfClause q" and "pred_BTree plainClause q"
    and "list_all (\<lambda>f. 10 \<notin> set (kf_Name f)) fs"
  shows "\<exists>j. Compile (printQuery q) fs tz = Some (Inr j) \<and>
    holds d j = evalTree (map_BTree (\<lambda>a. clauseHolds sr fs tz a [] d) q)"
proof -
  have "kqlParse (printQuery q) = Some (Inr (Some (meanTree (map_BTree meanClause q))))"
    by (rule query_parsed [OF assms(2,3)])
  moreover have "holds d (compileNode (newCompiler fs tz) [] (meanTree (map_BTree meanClause q))) =
      evalTree (map_BTree (\<lambda>a. clauseHolds sr fs tz a [] d) q)"
    using assms(3,4) by (intro tree_means [OF assms(1,2)] clause_means [OF assms(1,5)]) (simp_all add: BTree.pred_set)
  ultimately show ?thesis by (simp add: Compile_def)
qed

text \<open>An engine that reads every request the way the laws say, for any judgements of the documents.\<close>

fun strOf :: "Json \<Rightarrow> runes" where
  "strOf (JStr s) = s"
| "strOf j = []"

fun membersOf :: "Json \<Rightarrow> (runes \<times> Json) list" where
  "membersOf (JObj ms) = ms"
| "membersOf j = []"

fun elemsOf :: "Json \<Rightarrow> Json list" where
  "elemsOf (JArr qs) = qs"
| "elemsOf j = []"

definition boundNamed :: "runes \<Rightarrow> Bound" where
  "boundNamed k = (if k = key ''lt'' then Below else if k = key ''lte'' then AtMost else if k = key ''gt'' then Above else AtLeast)"

definition patNamed :: "runes \<Rightarrow> Pat list" where
  "patNamed s = (case readQueryString s of Some pat \<Rightarrow> pat | None \<Rightarrow> [])"

definition judgeLeaf :: "'d Search \<Rightarrow> 'd \<Rightarrow> runes \<Rightarrow> (runes \<times> Json) list \<Rightarrow> bool" where
  "judgeLeaf sr d k ms =
     (let at = (\<lambda>n. strOf (snd (ms ! n))); f = fst (hd ms); ob = membersOf (snd (hd ms)) in
      if k = key ''exists'' then sr_has sr d (at 0)
      else if k = key ''match_phrase'' then sr_phrase sr d f (at 0)
      else if k = key ''match'' then sr_words sr d f (strOf (snd (hd ob)))
      else if k = key ''range'' then
        sr_range sr d f (boundNamed (fst (hd ob))) (strOf (snd (hd ob))) (if length ob = 1 then [] else strOf (snd (ob ! 1)))
      else if k = key ''multi_match'' then (if at 0 = key ''phrase'' then sr_anyPhrase else sr_anyWords) sr d (at 1)
      else if k = key ''query_string'' then
        (if f = key ''fields'' then sr_like sr d (strOf (hd (elemsOf (snd (hd ms))))) (patNamed (at 1)) else sr_anyLike sr d (patNamed (at 0)))
      else False)"

fun judge :: "'d Search \<Rightarrow> 'd \<Rightarrow> Json \<Rightarrow> bool" where
  "judge sr d (JObj [(k, JObj ((a, JArr qs) # ms))]) \<longleftrightarrow>
     (if k = key ''bool'' then
        (if a = key ''should'' then list_ex (judge sr d) qs
         else if a = key ''filter'' then list_all (judge sr d) qs else \<not> list_ex (judge sr d) qs)
      else judgeLeaf sr d k ((a, JArr qs) # ms))"
| "judge sr d (JObj [(k, JObj [a, b, (c, q)])]) \<longleftrightarrow>
     (if k = key ''nested'' then list_ex (\<lambda>e. judge sr e q) (sr_inner sr d (strOf (snd a))) else judgeLeaf sr d k [a, b, (c, q)])"
| "judge sr d (JObj [(k, JObj ms)]) \<longleftrightarrow> judgeLeaf sr d k ms"
| "judge sr d j \<longleftrightarrow> False"

lemma judge_laws: "engineLaws (judge sr) sr"
proof -
  have "compoundLaws (judge sr) sr" by (simp add: compoundLaws_def obj_def judgeLeaf_def asRunes_def)
  moreover have "rangeLaws (judge sr) sr" by (simp add: rangeLaws_def obj_def judgeLeaf_def boundNamed_def asRunes_def)
  moreover have "leafLaws (judge sr) sr" by (simp add: leafLaws_def obj_def judgeLeaf_def patNamed_def asRunes_def)
  ultimately show ?thesis by (simp add: engineLaws_def)
qed

text \<open>Documents as texts of their fields and inner documents of their nested paths.\<close>

datatype Doc = Doc "(runes \<times> runes) list" "(runes \<times> Doc list) list"

primrec docFields :: "Doc \<Rightarrow> (runes \<times> runes) list" where
  "docFields (Doc fs ns) = fs"

primrec docInner :: "Doc \<Rightarrow> (runes \<times> Doc list) list" where
  "docInner (Doc fs ns) = ns"

definition fieldIs :: "Doc \<Rightarrow> runes \<Rightarrow> (runes \<Rightarrow> bool) \<Rightarrow> bool" where
  "fieldIs d f P \<longleftrightarrow> list_ex (\<lambda>(g, x). g = f \<and> P x) (docFields d)"

definition anyIs :: "Doc \<Rightarrow> (runes \<Rightarrow> bool) \<Rightarrow> bool" where
  "anyIs d P \<longleftrightarrow> list_ex (\<lambda>(g, x). P x) (docFields d)"

fun runesLess :: "runes \<Rightarrow> runes \<Rightarrow> bool" where
  "runesLess x [] \<longleftrightarrow> False"
| "runesLess [] (b # y) \<longleftrightarrow> True"
| "runesLess (a # x) (b # y) \<longleftrightarrow> a < b \<or> a = b \<and> runesLess x y"

fun boundTest :: "Bound \<Rightarrow> runes \<Rightarrow> runes \<Rightarrow> bool" where
  "boundTest Below b x = runesLess x b"
| "boundTest AtMost b x = (\<not> runesLess b x)"
| "boundTest Above b x = runesLess b x"
| "boundTest AtLeast b x = (\<not> runesLess x b)"

definition docSearch :: "Doc Search" where
  "docSearch =
     \<lparr>sr_range = \<lambda>d f b x z. fieldIs d f (boundTest b x), sr_has = \<lambda>d f. fieldIs d f (\<lambda>y. True), sr_phrase = \<lambda>d f x. fieldIs d f (\<lambda>y. y = x),
      sr_words = \<lambda>d f x. fieldIs d f (\<lambda>y. y = x), sr_like = \<lambda>d f pat. fieldIs d f (matchesPat pat), sr_anyPhrase = \<lambda>d x. anyIs d (\<lambda>y. y = x),
      sr_anyWords = \<lambda>d x. anyIs d (\<lambda>y. y = x), sr_anyLike = \<lambda>d pat. anyIs d (matchesPat pat),
      sr_inner = \<lambda>d p. case map_of (docInner d) p of Some es \<Rightarrow> es | None \<Rightarrow> []\<rparr>"

definition demoFields :: "KqlField list" where
  "demoFields =
     [\<lparr>kf_Name = key ''host.ip'', kf_Type = key ''ip'', kf_Nested = [], kf_Searchable = True\<rparr>,
      \<lparr>kf_Name = key ''at'', kf_Type = key ''date'', kf_Nested = [], kf_Searchable = True\<rparr>,
      \<lparr>kf_Name = key ''user.name'', kf_Type = key ''string'', kf_Nested = key ''user'', kf_Searchable = True\<rparr>]"

definition demoDoc :: Doc where
  "demoDoc = Doc [(key ''host.ip'', key ''b''), (key ''at'', key ''2024'')] [(key ''user'', [Doc [(key ''user.name'', key ''bob*'')] []])]"

text \<open>\<^verbatim>\<open>host.*: b and at >= 2020 and user.name: bo* and user: { name: bob\* } and not host.*: c\<close>\<close>

definition wildQuery :: "ClauseSrc BTree" where
  "wildQuery =
     (let word = (\<lambda>s. WordsSrc [\<lparr>kp_text = asRunes s, kp_star = False\<rparr>] []);
          glob = (\<lambda>s. WordsSrc [\<lparr>kp_text = asRunes s, kp_star = False\<rparr>, \<lparr>kp_text = [], kp_star = True\<rparr>] []) in
      BAnd [BLeaf (MatchSrc (glob ''host.'') (BLeaf (word ''b''))), BLeaf (RangeSrc (word ''at'') tGte (word ''2020'')),
            BLeaf (MatchSrc (word ''user.name'') (BLeaf (glob ''bo''))),
            BLeaf (NestedSrc (word ''user'') (BLeaf (MatchSrc (word ''name'') (BLeaf (word ''bob*''))))),
            BNot (BLeaf (MatchSrc (glob ''host.'') (BLeaf (word ''c''))))])"

lemma wildQuery_wf: "wfTree wildQuery" "pred_BTree wfClause wildQuery" "pred_BTree plainClause wildQuery"
  by (simp_all add: wildQuery_def Let_def wfWord_def wfPart_def asRunes_def isSpaceRune_def cmpKinds_def plainGlob_def plainLike_def
      wordPat_def plainText_def)

theorem kql_compiled_meaning_witness:
  "\<exists>j. Compile (printQuery wildQuery) demoFields (key ''UTC'') = Some (Inr j) \<and> judge docSearch demoDoc j"
proof -
  have "list_all (\<lambda>f. 10 \<notin> set (kf_Name f)) demoFields" by (simp add: demoFields_def asRunes_def)
  from kql_compiled_meaning [OF judge_laws wildQuery_wf this, of "key ''UTC''" docSearch demoDoc]
  obtain j where j: "Compile (printQuery wildQuery) demoFields (key ''UTC'') = Some (Inr j)"
    "judge docSearch demoDoc j = evalTree (map_BTree (\<lambda>a. clauseHolds docSearch demoFields (key ''UTC'') a [] demoDoc) wildQuery)"
    by blast
  have "evalTree (map_BTree (\<lambda>a. clauseHolds docSearch demoFields (key ''UTC'') a [] demoDoc) wildQuery)" by code_simp
  then show ?thesis using j by blast
qed

section \<open>The nodes of a parse\<close>

definition nodeOps :: "runes list" where
  "nodeOps = asRunes '':'' # map symText cmpKinds"

fun wfNode :: "KqlNode \<Rightarrow> bool" where
  "wfNode (orNode ns) \<longleftrightarrow> 2 \<le> length ns \<and> list_all wfNode ns"
| "wfNode (andNode ns) \<longleftrightarrow> 2 \<le> length ns \<and> list_all wfNode ns"
| "wfNode (notNode n) \<longleftrightarrow> wfNode n"
| "wfNode (fieldNode f opr v) \<longleftrightarrow> opr \<in> set nodeOps"
| "wfNode (textNode v) \<longleftrightarrow> True"
| "wfNode (nestedNode p n) \<longleftrightarrow> wfNode n"

definition toksOk :: "token list \<Rightarrow> bool" where
  "toksOk toks \<longleftrightarrow> list_all (\<lambda>t. tk_kind t \<in> set cmpKinds \<longrightarrow> tk_raw t = symText (tk_kind t)) toks"

definition ntOk :: "NonTerminal \<Rightarrow> bool" where
  "ntOk nt \<longleftrightarrow>
     (case nt of NtOrRest ns \<Rightarrow> ns \<noteq> [] \<and> list_all wfNode ns | NtAndRest ns \<Rightarrow> ns \<noteq> [] \<and> list_all wfNode ns
      | NtValueOrRest f ns \<Rightarrow> ns \<noteq> [] \<and> list_all wfNode ns | NtValueAndRest f ns \<Rightarrow> ns \<noteq> [] \<and> list_all wfNode ns | _ \<Rightarrow> True)"

definition good :: "('a \<Rightarrow> bool) \<Rightarrow> 'a parsed \<Rightarrow> bool" where
  "good P r \<longleftrightarrow> (\<forall>n rest. r = Some (Inr (n, rest)) \<longrightarrow> P n \<and> toksOk rest)"

lemma good_bind: "good P m \<Longrightarrow> (\<And>x rest. P x \<Longrightarrow> toksOk rest \<Longrightarrow> good Q (f x rest)) \<Longrightarrow> good Q (parsedBind m f)"
  by (auto simp: good_def parsedBind_def split: option.splits sum.splits)

lemma good_simps [simp]:
  "good P None" "good P (Some (Inl e))" "good P (Some (Inr (n, rest))) \<longleftrightarrow> P n \<and> toksOk rest" "good P (failWith ex toks)"
  by (auto simp: good_def failWith_def split: list.splits)

lemma toksOk_next: "toksOk toks \<Longrightarrow> toksOk (nextToks toks)"
  by (auto simp: toksOk_def nextToks_def split: list.splits)

lemma toksOk_words: "toksOk toks \<Longrightarrow> toksOk (snd (wordRun toks))"
  by (induction toks) (auto simp: toksOk_def case_prod_beta)

lemma good_value: "toksOk toks \<Longrightarrow> good (\<lambda>v. True) (parseValue ex toks)"
proof (cases toks)
  case (Cons t rest)
  assume "toksOk toks"
  moreover have "toksOk rest" using \<open>toksOk toks\<close> Cons by (simp add: toksOk_def)
  ultimately show ?thesis using toksOk_words [of rest] by (simp add: Cons parseValue_def case_prod_beta)
qed (simp add: parseValue_def)

lemma good_close: "wfNode n \<Longrightarrow> toksOk toks \<Longrightarrow> good wfNode (closeWith k n toks)"
  by (simp add: closeWith_def toksOk_next)

lemma joined_wf:
  "ns \<noteq> [] \<Longrightarrow> list_all wfNode ns \<Longrightarrow> wfNode (if length ns = 1 then hd ns else orNode ns)"
  "ns \<noteq> [] \<Longrightarrow> list_all wfNode ns \<Longrightarrow> wfNode (if length ns = 1 then hd ns else andNode ns)"
  by (cases ns; cases "tl ns"; simp)+

lemma good_primary:
  assumes c: "\<And>nt toks. ntOk nt \<Longrightarrow> toksOk toks \<Longrightarrow> good wfNode (call nt toks)" and toks: "toksOk toks"
  shows "good wfNode (parsePrimary call toks)"
proof -
  have "good wfNode (case rest of [] \<Rightarrow> None | t # _ \<Rightarrow>
      if tk_kind t = tColon then call (NtFieldRest v) (nextToks rest)
      else if tk_kind t \<in> set cmpKinds then parsedBind (parseValue [asRunes ''a value''] (nextToks rest)) (\<lambda>rv r. Some (Inr (fieldNode v (tk_raw t) rv, r)))
      else Some (Inr (textNode v, rest)))" if "toksOk rest" for v rest
  proof (cases rest)
    case (Cons t ts)
    have "tk_kind t \<in> set cmpKinds \<Longrightarrow> tk_raw t \<in> set nodeOps" using that by (simp add: Cons toksOk_def nodeOps_def)
    then show ?thesis
      using toksOk_next [OF that] that by (auto simp: Cons ntOk_def intro!: c good_bind [OF good_value])
  qed simp
  then show ?thesis
    unfolding parsePrimary_def
    using toksOk_next [OF toks] toks by (auto simp: ntOk_def intro!: good_bind [OF c] good_bind [OF good_value] good_close)
qed

lemma parseBody_good:
  assumes c: "\<And>nt toks. ntOk nt \<Longrightarrow> toksOk toks \<Longrightarrow> good wfNode (call nt toks)" and "ntOk nt" and "toksOk toks"
  shows "good wfNode (parseBody call nt toks)"
proof -
  note body = parseOr_def orLoop_def parseAnd_def andLoop_def parseNot_def parseFieldRest_def
    parseValueOr_def valueOrLoop_def parseValueAnd_def valueAndLoop_def parseValueNot_def
  have col: "asRunes '':'' \<in> set nodeOps" by (simp add: nodeOps_def)
  show ?thesis
    using assms(2,3) toksOk_next [OF assms(3)] col
    by (cases nt)
      (auto simp: body ntOk_def joined_wf
        simp del: One_nat_def intro!: good_bind [OF c] good_bind [OF good_value] good_close c good_primary)
qed

lemma parseN_good: "ntOk nt \<Longrightarrow> toksOk toks \<Longrightarrow> good wfNode (parseN n nt toks)"
  by (induction n arbitrary: nt toks) (auto intro: parseBody_good)

lemma lexOne_tok: "lexOne n i sp rs = Inr (t, j, rest) \<Longrightarrow> rs \<noteq> [] \<Longrightarrow> toksOk [t]"
  by (cases rs; cases "tl rs")
    (auto simp: lexOne_def Let_def toksOk_def simpleKind_def cmpKind_def cmpKinds_def kqlKeywords_def split: if_splits option.splits prod.splits)

lemma lexLoop_toks: "lexLoop n i rs = Inr toks \<Longrightarrow> toksOk toks"
proof (induction n i rs arbitrary: toks rule: lexLoop.induct)
  case (1 n i rs)
  show ?case
  proof (cases "dropWhile isSpaceRune rs = []")
    case True
    then show ?thesis using 1(2) by (subst (asm) lexLoop.simps) (auto simp: toksOk_def cmpKinds_def Let_def simp del: dropWhile_eq_Nil_conv)
  next
    case False
    then obtain t j rs' ts where o: "lexOne n (i + length (takeWhile isSpaceRune rs)) (takeWhile isSpaceRune rs) (dropWhile isSpaceRune rs) = Inr (t, j, rs')"
        "lexLoop n j rs' = Inr ts" "toks = t # ts"
      using 1(2) by (subst (asm) lexLoop.simps) (auto simp: Let_def rbind_eq_Inr simp del: dropWhile_eq_Nil_conv split: sum.splits)
    then show ?thesis using 1(1) [OF refl refl refl False o(1) refl refl o(2)] lexOne_tok [OF o(1) False] by (simp add: toksOk_def)
  qed
qed

lemma not_failed:
  "map_option (\<lambda>r. case r of Inl e \<Rightarrow> Inl e | Inr (x, w) \<Rightarrow> Inr x) (failWith ex toks) \<noteq> Some (Inr y)"
  by (simp add: failWith_def split: list.splits)

text \<open>
  C32: Every node \<open>parse\<close> returns is one the compiler handles: conjunctions and disjunctions have at least two
  members, and every field clause has one of the five operators, so that a range always has its bound.
\<close>

theorem kql_nodes_wellformed:
  "(\<exists>e. kqlParse src = Some (Inl e)) \<or> kqlParse src = Some (Inr None) \<or> (\<exists>n. kqlParse src = Some (Inr (Some n)) \<and> wfNode n)"
proof -
  obtain r where r: "kqlParse src = Some r" using query_returns by blast
  have "wfNode n" if "kqlParse src = Some (Inr (Some n))" for n
  proof -
    from that obtain toks rest where "lex src = Inr toks" "parseN (kqlFuel (length toks)) NtOr toks = Some (Inr (n, rest))"
      by (auto simp: kqlParse_def not_failed simp del: map_option_eq_Some split: sum.splits option.splits if_splits)
    then show ?thesis
      using parseN_good [of NtOr toks "kqlFuel (length toks)"] lexLoop_toks by (auto simp: lex_def ntOk_def good_def)
  qed
  then show ?thesis using r by (cases r) auto
qed

lemma range_key: "opr \<in> set nodeOps \<Longrightarrow> opr \<noteq> asRunes '':'' \<Longrightarrow> rangeOps opr \<in> {key ''lt'', key ''lte'', key ''gt'', key ''gte''}"
  by (auto simp: nodeOps_def cmpKinds_def rangeOps_def)

end
