(* ===== verification/Notify.thy ===== *)
theory Notify
  imports Prelude "HOL-Library.Word"
begin

text \<open>
  The publish-subscribe and queue building blocks the brokers share: \<^verbatim>\<open>internal/notify\<close>.  An
  \<open>Emitter\<close> gives a value to every subscriber, an \<open>OrderedEmitter\<close> drops a value that a newer one has
  overtaken, and a \<open>PendingQueue\<close> is a first-in-first-out queue with removal by id.

  A subscriber is the list of values its callback has been given.  A broker takes a sequence number and
  builds its snapshot under its own lock, releases the lock and only then emits, so emissions of
  different goroutines reach the emitter in any order: a \<open>Publisher\<close> is an emitter together with the
  emissions on their way, which a scheduler delivers in any order.  The locale \<open>published_state\<close> says
  what a component has to do so that its subscribers nevertheless end up with its current state.
\<close>

section \<open>Emitters\<close>

record 'v Emitter =
  ne_nextID :: "64 word"
  ne_subs :: "(64 word \<times> 'v list) list"

definition newEmitter :: "'v Emitter" where
  "newEmitter = \<lparr>ne_nextID = 0, ne_subs = []\<rparr>"

definition SubscribeEmitter :: "'v Emitter \<Rightarrow> 64 word \<times> 'v Emitter" where
  "SubscribeEmitter e =
     (ne_nextID e, e\<lparr>ne_nextID := ne_nextID e + 1, ne_subs := AList.update (ne_nextID e) [] (ne_subs e)\<rparr>)"

definition UnsubscribeEmitter :: "64 word \<Rightarrow> 'v Emitter \<Rightarrow> 'v Emitter" where
  "UnsubscribeEmitter i e = e\<lparr>ne_subs := filter (\<lambda>p. fst p \<noteq> i) (ne_subs e)\<rparr>"

definition EmitTo :: "'v \<Rightarrow> 'v Emitter \<Rightarrow> 'v Emitter" where
  "EmitTo v e = e\<lparr>ne_subs := map (\<lambda>(i, l). (i, l @ [v])) (ne_subs e)\<rparr>"

record 'v OrderedEmitter =
  oe_emitter :: "'v Emitter"
  oe_seq :: "64 word"
  oe_lastEmitted :: "64 word"

definition newOrderedEmitter :: "'v OrderedEmitter" where
  "newOrderedEmitter = \<lparr>oe_emitter = newEmitter, oe_seq = 0, oe_lastEmitted = 0\<rparr>"

definition NextSeq :: "'v OrderedEmitter \<Rightarrow> 64 word \<times> 'v OrderedEmitter" where
  "NextSeq e = (oe_seq e + 1, e\<lparr>oe_seq := oe_seq e + 1\<rparr>)"

definition EmitSeq :: "64 word \<Rightarrow> 'v \<Rightarrow> 'v OrderedEmitter \<Rightarrow> 'v OrderedEmitter" where
  "EmitSeq s v e =
     (if s \<le> oe_lastEmitted e then e
      else e\<lparr>oe_lastEmitted := s, oe_emitter := EmitTo v (oe_emitter e)\<rparr>)"

section \<open>The pending queue\<close>

record 'r PendingQueue =
  pq_order :: "bytes list"
  pq_byID :: "bytes \<rightharpoonup> 'r"

definition NewPendingQueue :: "'r PendingQueue" where
  "NewPendingQueue = \<lparr>pq_order = [], pq_byID = Map.empty\<rparr>"

definition LenQueue :: "'r PendingQueue \<Rightarrow> nat" where
  "LenQueue q = length (pq_order q)"

definition AddQueue :: "bytes \<Rightarrow> 'r \<Rightarrow> 'r PendingQueue \<Rightarrow> 'r PendingQueue" where
  "AddQueue i r q = q\<lparr>pq_byID := (pq_byID q)(i \<mapsto> r), pq_order := pq_order q @ [i]\<rparr>"

definition RemoveQueue :: "bytes \<Rightarrow> 'r PendingQueue \<Rightarrow> 'r option \<times> 'r PendingQueue" where
  "RemoveQueue i q =
     (case pq_byID q i of
        None \<Rightarrow> (None, q)
      | Some r \<Rightarrow> (Some r, q\<lparr>pq_byID := (pq_byID q)(i := None), pq_order := remove1 i (pq_order q)\<rparr>))"

text \<open>
  An id that is in the order but not in the map would put a nil entry into the slice, which every caller
  dereferences; a snapshot with such an entry is \<^const>\<open>None\<close>.
\<close>

definition SnapshotQueue :: "'r PendingQueue \<Rightarrow> 'r list option" where
  "SnapshotQueue q = those (map (pq_byID q) (pq_order q))"

definition ClearQueue :: "'r PendingQueue \<Rightarrow> ('r list \<times> 'r PendingQueue) option" where
  "ClearQueue q =
     map_option (\<lambda>out. (out, q\<lparr>pq_order := [], pq_byID := Map.empty\<rparr>)) (SnapshotQueue q)"

subsection \<open>The queue's contract\<close>

text \<open>
  A pending queue is a list of entries with distinct keys: adding appends, removing takes the entry of
  the key out of the list wherever it is, a snapshot is the list.
\<close>

locale pending_queue =
  fixes items :: "'q \<Rightarrow> (bytes \<times> 'r) list"
    and good :: "'q \<Rightarrow> bool"
    and add :: "bytes \<Rightarrow> 'r \<Rightarrow> 'q \<Rightarrow> 'q"
    and remove :: "bytes \<Rightarrow> 'q \<Rightarrow> 'r option \<times> 'q"
    and entries :: "'q \<Rightarrow> 'r list option"
    and len :: "'q \<Rightarrow> nat"
  assumes good_distinct: "good q \<Longrightarrow> distinct (map fst (items q))"
    and add_good: "good q \<Longrightarrow> i \<notin> fst ` set (items q) \<Longrightarrow> good (add i r q)"
    and add_items: "good q \<Longrightarrow> i \<notin> fst ` set (items q) \<Longrightarrow> items (add i r q) = items q @ [(i, r)]"
    and remove_fst: "good q \<Longrightarrow> fst (remove i q) = map_of (items q) i"
    and remove_good: "good q \<Longrightarrow> good (snd (remove i q))"
    and remove_items: "good q \<Longrightarrow> items (snd (remove i q)) = filter (\<lambda>p. fst p \<noteq> i) (items q)"
    and entries_eq: "good q \<Longrightarrow> entries q = Some (map snd (items q))"
    and len_eq: "good q \<Longrightarrow> len q = length (items q)"
begin

lemma remove_in: "good q \<Longrightarrow> (i, r) \<in> set (items q) \<Longrightarrow> fst (remove i q) = Some r"
  by (simp add: remove_fst good_distinct)

lemma remove_absent: "good q \<Longrightarrow> fst (remove i q) = None \<longleftrightarrow> i \<notin> fst ` set (items q)"
  by (simp add: remove_fst map_of_eq_None_iff)

end

definition pqItems :: "'r PendingQueue \<Rightarrow> (bytes \<times> 'r) list" where
  "pqItems q = map (\<lambda>i. (i, the (pq_byID q i))) (pq_order q)"

definition pqGood :: "'r PendingQueue \<Rightarrow> bool" where
  "pqGood q \<longleftrightarrow> distinct (pq_order q) \<and> dom (pq_byID q) = set (pq_order q)"

lemma those_map_some: "(\<And>x. x \<in> set xs \<Longrightarrow> f x = Some (g x)) \<Longrightarrow> those (map f xs) = Some (map g xs)"
  by (induction xs) auto

lemma map_of_keyed: "map_of (map (\<lambda>i. (i, g i)) xs) i = (if i \<in> set xs then Some (g i) else None)"
  by (induction xs) auto

lemma pqGood_fst: "pqGood q \<Longrightarrow> fst (RemoveQueue i q) = map_of (pqItems q) i"
  by (auto simp: RemoveQueue_def pqItems_def pqGood_def map_of_keyed split: option.splits)

lemma pqGood_remove: "pqGood q \<Longrightarrow> pqGood (snd (RemoveQueue i q))"
  by (auto simp: RemoveQueue_def pqGood_def split: option.splits)

lemma pqItems_remove:
  assumes "pqGood q"
  shows "pqItems (snd (RemoveQueue i q)) = filter (\<lambda>p. fst p \<noteq> i) (pqItems q)"
proof (cases "pq_byID q i")
  case None
  then have "i \<notin> set (pq_order q)" using assms by (auto simp: pqGood_def)
  then show ?thesis using None by (auto simp: RemoveQueue_def pqItems_def filter_map comp_def intro!: arg_cong [of _ _ "map _"] filter_True [symmetric])
next
  case (Some r)
  have "remove1 i (pq_order q) = filter (\<lambda>j. j \<noteq> i) (pq_order q)"
    using assms by (auto simp: pqGood_def distinct_remove1_removeAll removeAll_filter_not_eq intro: filter_cong)
  then show ?thesis using Some by (simp add: RemoveQueue_def pqItems_def filter_map comp_def)
qed

interpretation pq: pending_queue pqItems pqGood AddQueue RemoveQueue SnapshotQueue LenQueue
proof
  fix q :: "'a PendingQueue" and i r
  assume q: "pqGood q"
  show "distinct (map fst (pqItems q))" using q by (simp add: pqItems_def pqGood_def comp_def)
  show "fst (RemoveQueue i q) = map_of (pqItems q) i" using q by (rule pqGood_fst)
  show "pqGood (snd (RemoveQueue i q))" using q by (rule pqGood_remove)
  show "pqItems (snd (RemoveQueue i q)) = filter (\<lambda>p. fst p \<noteq> i) (pqItems q)" using q by (rule pqItems_remove)
  show "SnapshotQueue q = Some (map snd (pqItems q))"
    using q by (auto simp: SnapshotQueue_def pqItems_def pqGood_def comp_def intro!: those_map_some) (metis domD domI option.sel)
  show "LenQueue q = length (pqItems q)" by (simp add: LenQueue_def pqItems_def)
  assume i: "i \<notin> fst ` set (pqItems q)"
  then have "i \<notin> set (pq_order q)" by (auto simp: pqItems_def image_iff)
  then show "pqGood (AddQueue i r q)" "pqItems (AddQueue i r q) = pqItems q @ [(i, r)]"
    using q by (auto simp: AddQueue_def pqGood_def pqItems_def)
qed

lemma pqItems_new [simp]: "pqItems NewPendingQueue = []"
  by (simp add: pqItems_def NewPendingQueue_def)

lemma pqGood_new [simp]: "pqGood NewPendingQueue"
  by (simp add: pqGood_def NewPendingQueue_def)

lemma ClearQueue_eq:
  "pqGood q \<Longrightarrow> \<exists>q'. ClearQueue q = Some (map snd (pqItems q), q') \<and> pqGood q' \<and> pqItems q' = []"
  by (auto simp: ClearQueue_def pq.entries_eq pqGood_def pqItems_def)

section \<open>Publishing\<close>

record 'v Publisher =
  px_em :: "'v OrderedEmitter"
  px_flight :: "(64 word \<times> 'v) list"

definition newPublisher :: "'v Publisher" where
  "newPublisher = \<lparr>px_em = newOrderedEmitter, px_flight = []\<rparr>"

text \<open>Under the broker's lock: a sequence number for the snapshot that is emitted after the unlock.\<close>

definition publish :: "'v \<Rightarrow> 'v Publisher \<Rightarrow> 'v Publisher" where
  "publish v p =
     (case NextSeq (px_em p) of (s, e) \<Rightarrow> p\<lparr>px_em := e, px_flight := px_flight p @ [(s, v)]\<rparr>)"

text \<open>A sequence number that is taken and not used.\<close>

definition skipSeq :: "'v Publisher \<Rightarrow> 'v Publisher" where
  "skipSeq p = p\<lparr>px_em := snd (NextSeq (px_em p))\<rparr>"

definition deliver :: "nat \<Rightarrow> 'v Publisher \<Rightarrow> 'v Publisher" where
  "deliver i p =
     (if i < length (px_flight p) then
        case px_flight p ! i of (s, v) \<Rightarrow>
          p\<lparr>px_em := EmitSeq s v (px_em p), px_flight := take i (px_flight p) @ drop (Suc i) (px_flight p)\<rparr>
      else p)"

definition subscribed :: "64 word \<Rightarrow> 'v Publisher \<Rightarrow> bool" where
  "subscribed k p \<longleftrightarrow> k \<in> fst ` set (ne_subs (oe_emitter (px_em p)))"

definition told :: "64 word \<Rightarrow> 'v \<Rightarrow> 'v Publisher \<Rightarrow> 'v" where
  "told k v0 p =
     (case map_of (ne_subs (oe_emitter (px_em p))) k of
        None \<Rightarrow> v0
      | Some l \<Rightarrow> if l = [] then v0 else last l)"

text \<open>
  \<open>pubAt n k v0 cur p\<close>: a subscriber that knew \<open>v0\<close> when it subscribed is on its way to the current state
  \<open>cur\<close>: the newest emission, numbered \<open>n\<close>, carries it and is in flight or was the last one delivered.
\<close>

definition pubAt :: "64 word \<Rightarrow> 64 word \<Rightarrow> 'v \<Rightarrow> 'v \<Rightarrow> 'v Publisher \<Rightarrow> bool" where
  "pubAt n k v0 cur p \<longleftrightarrow> subscribed k p \<and> oe_lastEmitted (px_em p) \<le> n \<and> n \<le> oe_seq (px_em p) \<and>
     (\<forall>x\<in>set (px_flight p). fst x \<le> n \<and> (fst x = n \<longrightarrow> snd x = cur)) \<and>
     (if n = oe_lastEmitted (px_em p) then told k v0 p = cur else (n, cur) \<in> set (px_flight p))"

definition pubOk :: "64 word \<Rightarrow> 'v \<Rightarrow> 'v \<Rightarrow> 'v Publisher \<Rightarrow> bool" where
  "pubOk k v0 cur p \<longleftrightarrow> (\<exists>n. pubAt n k v0 cur p)"

lemma next_less: "unat (s :: 64 word) + 1 < 2 ^ 64 \<Longrightarrow> x \<le> s \<Longrightarrow> x < s + 1"
  by (simp add: word_less_nat_alt word_le_nat_alt unat_word_ariths)

lemma EmitTo_told: "map_of (map (\<lambda>(i, l). (i, l @ [v])) xs) k = map_option (\<lambda>l. l @ [v]) (map_of xs k)"
  by (induction xs) auto

lemma EmitTo_keys: "fst ` set (map (\<lambda>(i, l). (i, l @ [v])) xs) = fst ` set xs"
  by force

lemma publish_at:
  assumes "pubAt n k v0 cur p" and "unat (oe_seq (px_em p)) + 1 < 2 ^ 64"
  shows "pubAt (oe_seq (px_em p) + 1) k v0 v (publish v p)"
proof -
  let ?n = "oe_seq (px_em p) + 1"
  have lt: "x < ?n" if "x \<le> n" for x
    using next_less [OF assms(2)] that assms(1) by (auto simp: pubAt_def)
  have fl: "fst x < ?n" if "x \<in> set (px_flight p)" for x
    using that assms(1) lt by (simp add: pubAt_def)
  have "oe_lastEmitted (px_em p) < ?n" using lt assms(1) by (simp add: pubAt_def)
  moreover have "fst x \<le> ?n \<and> (fst x = ?n \<longrightarrow> snd x = v)" if "x \<in> set (px_flight p @ [(?n, v)])" for x
    using fl [of x] that by auto
  ultimately show ?thesis
    using assms(1) by (auto simp: pubAt_def subscribed_def publish_def NextSeq_def)
qed

lemma skipSeq_at:
  assumes "pubAt n k v0 cur p" and "unat (oe_seq (px_em p)) + 1 < 2 ^ 64"
  shows "pubAt n k v0 cur (skipSeq p)"
proof -
  have "n < oe_seq (px_em p) + 1" using next_less [OF assms(2)] assms(1) by (simp add: pubAt_def)
  then show ?thesis using assms(1) by (auto simp: pubAt_def subscribed_def told_def skipSeq_def NextSeq_def)
qed

lemma in_flight_rest:
  assumes "x \<in> set xs" and "i < length xs" and "x \<noteq> xs ! i"
  shows "x \<in> set (take i xs @ drop (Suc i) xs)"
proof -
  have "x \<in> set (take i xs @ xs ! i # drop (Suc i) xs)" using assms(1) id_take_nth_drop [OF assms(2)] by simp
  then show ?thesis using assms(3) by auto
qed

lemma flight_rest_in: "x \<in> set (take i xs @ drop (Suc i) xs) \<Longrightarrow> x \<in> set xs"
  by (auto dest: in_set_takeD in_set_dropD)

lemma deliver_at:
  assumes at: "pubAt n k v0 cur p"
  shows "pubAt n k v0 cur (deliver i p)"
proof (cases "i < length (px_flight p)")
  case True
  obtain s v where sv: "px_flight p ! i = (s, v)" by fastforce
  have "(s, v) \<in> set (px_flight p)" using sv True nth_mem by metis
  then have s: "s \<le> n" "s = n \<Longrightarrow> v = cur" using at by (auto simp: pubAt_def)
  let ?rest = "take i (px_flight p) @ drop (Suc i) (px_flight p)"
  have rest: "fst x \<le> n \<and> (fst x = n \<longrightarrow> snd x = cur)" if "x \<in> set ?rest" for x
    using at flight_rest_in [OF that] by (simp add: pubAt_def)
  have keep: "(n, cur) \<in> set ?rest" if "n \<noteq> oe_lastEmitted (px_em p)" "s \<noteq> n"
    using at sv that by (intro in_flight_rest [OF _ True]) (auto simp: pubAt_def)
  show ?thesis
  proof (cases "s \<le> oe_lastEmitted (px_em p)")
    case old: True
    then have "deliver i p = p\<lparr>px_flight := ?rest\<rparr>" using True sv by (simp add: deliver_def EmitSeq_def)
    moreover have "s \<noteq> n" if "n \<noteq> oe_lastEmitted (px_em p)" using old at that by (auto simp: pubAt_def)
    moreover have "told k v0 (p\<lparr>px_flight := ?rest\<rparr>) = told k v0 p" by (simp add: told_def)
    ultimately show ?thesis using at rest keep by (simp add: pubAt_def subscribed_def)
  next
    case False
    let ?e = "(px_em p)\<lparr>oe_lastEmitted := s, oe_emitter := EmitTo v (oe_emitter (px_em p))\<rparr>"
    have d: "deliver i p = p\<lparr>px_em := ?e, px_flight := ?rest\<rparr>"
      using True False sv by (simp add: deliver_def EmitSeq_def)
    have k: "k \<in> fst ` set (ne_subs (oe_emitter (px_em p)))" using at by (simp add: pubAt_def subscribed_def)
    then obtain l where "map_of (ne_subs (oe_emitter (px_em p))) k = Some l" by (metis map_of_eq_None_iff not_None_eq)
    then have tv: "told k v0 (deliver i p) = v" by (simp add: d told_def EmitTo_def EmitTo_told)
    have "n \<noteq> oe_lastEmitted (px_em p)" using False s(1) by auto
    then have "if n = s then told k v0 (deliver i p) = cur else (n, cur) \<in> set ?rest"
      using tv s(2) keep by auto
    moreover have "subscribed k (deliver i p)" using k by (force simp: d subscribed_def EmitTo_def)
    moreover have "oe_lastEmitted (px_em (deliver i p)) = s" "oe_seq (px_em (deliver i p)) = oe_seq (px_em p)"
      "px_flight (deliver i p) = ?rest" by (simp_all add: d)
    ultimately show ?thesis using at rest s(1) unfolding pubAt_def by metis
  qed
qed (use at in \<open>simp add: deliver_def\<close>)

lemma pubOk_quiet: "pubOk k v0 cur p \<Longrightarrow> px_flight p = [] \<Longrightarrow> told k v0 p = cur"
  by (auto simp: pubOk_def pubAt_def split: if_splits)

text \<open>What one step of a component may do to its publisher, given its state before and after.\<close>

inductive pubMove :: "'v \<Rightarrow> 'v \<Rightarrow> 'v Publisher \<Rightarrow> 'v Publisher \<Rightarrow> bool" where
  quiet: "pubMove v v p p"
| skipped: "pubMove v v p (skipSeq p)"
| published: "pubMove v v' p (publish v' p)"
| delivered: "pubMove v v p (deliver i p)"

lemma pubMove_seq: "pubMove v v' p p' \<Longrightarrow> unat (oe_seq (px_em p)) + 1 < 2 ^ 64 \<Longrightarrow>
    unat (oe_seq (px_em p')) \<le> unat (oe_seq (px_em p)) + 1"
  by (induction rule: pubMove.induct)
    (auto simp: skipSeq_def publish_def NextSeq_def deliver_def EmitSeq_def unat_word_ariths split: prod.splits)

lemma pubMove_ok: "pubMove v v' p p' \<Longrightarrow> pubOk k v0 v p \<Longrightarrow> unat (oe_seq (px_em p)) + 1 < 2 ^ 64 \<Longrightarrow> pubOk k v0 v' p'"
  unfolding pubOk_def by (induction rule: pubMove.induct) (blast intro: skipSeq_at publish_at deliver_at)+

text \<open>A fresh publisher with its first subscriber.\<close>

definition watchedPublisher :: "'v Publisher" where
  "watchedPublisher =
     newPublisher\<lparr>px_em := newOrderedEmitter\<lparr>oe_emitter := snd (SubscribeEmitter newEmitter)\<rparr>\<rparr>"

lemma watched_simps [simp]:
  "px_flight watchedPublisher = []" "oe_seq (px_em watchedPublisher) = 0" "oe_lastEmitted (px_em watchedPublisher) = 0"
  "ne_subs (oe_emitter (px_em watchedPublisher)) = [(0, [])]"
  by (simp_all add: watchedPublisher_def newPublisher_def newOrderedEmitter_def SubscribeEmitter_def newEmitter_def)

lemma watched_ok: "pubOk 0 v v watchedPublisher"
  by (simp add: pubOk_def pubAt_def subscribed_def told_def)

text \<open>
  The contract of a component that publishes its state: every step either leaves the state that is
  shown alone or takes a sequence number for the new one under the same lock.
\<close>

locale published_state =
  fixes step :: "'s \<Rightarrow> 'c \<Rightarrow> 's option"
    and ok :: "'s \<Rightarrow> bool"
    and view :: "'s \<Rightarrow> 'v"
    and pub :: "'s \<Rightarrow> 'v Publisher"
  assumes step_ok: "ok s \<Longrightarrow> step s c = Some s' \<Longrightarrow> ok s'"
    and step_pub: "ok s \<Longrightarrow> step s c = Some s' \<Longrightarrow> pubMove (view s) (view s') (pub s) (pub s')"
begin

fun run :: "'s \<Rightarrow> 'c list \<Rightarrow> 's option" where
  "run s [] = Some s"
| "run s (c # cs) = (case step s c of None \<Rightarrow> None | Some s' \<Rightarrow> run s' cs)"

lemma run_ok: "run s cs = Some s' \<Longrightarrow> ok s \<Longrightarrow> ok s'"
  by (induction cs arbitrary: s) (auto split: option.splits dest: step_ok)

lemma run_pub:
  "run s cs = Some s' \<Longrightarrow> ok s \<Longrightarrow> pubOk k v0 (view s) (pub s) \<Longrightarrow>
   unat (oe_seq (px_em (pub s))) + length cs < 2 ^ 64 \<Longrightarrow> pubOk k v0 (view s') (pub s')"
proof (induction cs arbitrary: s)
  case (Cons c cs)
  then obtain t where t: "step s c = Some t" "run t cs = Some s'" by (auto split: option.splits)
  have b: "unat (oe_seq (px_em (pub s))) + 1 < 2 ^ 64" using Cons.prems(4) by simp
  have m: "pubMove (view s) (view t) (pub s) (pub t)" by (rule step_pub [OF Cons.prems(2) t(1)])
  have "unat (oe_seq (px_em (pub t))) + length cs < 2 ^ 64"
    using pubMove_seq [OF m b] Cons.prems(4) by simp
  then show ?case
    using Cons.IH [OF t(2) step_ok [OF Cons.prems(2) t(1)] pubMove_ok [OF m Cons.prems(3) b]] by simp
qed simp

theorem subscribers_converge:
  assumes "run s cs = Some s'" and "ok s" and "pub s = watchedPublisher" and "length cs < 2 ^ 64"
    and "px_flight (pub s') = []"
  shows "told 0 (view s) (pub s') = view s'"
proof -
  have "pubOk 0 (view s) (view s) (pub s)" unfolding assms(3) by (rule watched_ok)
  moreover have "unat (oe_seq (px_em (pub s))) + length cs < 2 ^ 64"
    using assms(4) by (simp add: assms(3) watched_simps)
  ultimately show ?thesis by (rule pubOk_quiet [OF run_pub [OF assms(1,2)] assms(5)])
qed

end

end
