(* ===== verification/Prompts.thy ===== *)
theory Prompts
  imports Notify "HOL-Library.Product_Lexorder"
begin

text \<open>
  The router of the popups an application raises: \<^verbatim>\<open>internal/prompts\<close>.  Owners open and close prompts
  under ids of the form \<^verbatim>\<open>kind:ref\<close>; the router keeps them, decides which window shows each, publishes the
  list through an ordered emitter and keeps one system notification per kind.

  The window registry, the settings and the clock are read at each call and are arguments of it.  The
  translated texts come from a generated catalogue and are a function argument \<open>tr\<close>.  System calls are
  ordered by \<^verbatim>\<open>sinkMu\<close> the way the state changes happened, so they are part of the atomic step; the
  emission to subscribers is not, and may be delivered late and out of order.
\<close>

section \<open>Data\<close>

record Prompt =
  pt_ID :: bytes
  pt_Kind :: bytes
  pt_Ref :: bytes
  pt_Origin :: bytes
  pt_Title :: bytes
  pt_CreatedAt :: int

record Routed =
  ro_Prompt :: Prompt
  ro_Target :: bytes

record Windows =
  wx_MainKey :: "bytes option"
  wx_Has :: "bytes \<Rightarrow> bool"
  wx_Focused :: "bytes \<Rightarrow> bool"

record promptEntry =
  pe_Prompt :: Prompt
  pe_claimed :: bytes

record Note =
  nt_ID :: bytes
  nt_Title :: bytes
  nt_Body :: bytes
  nt_Kind :: bytes

datatype OsCall = OsSend Note | OsRemove bytes

datatype Shown = ReopenWindow | FocusWindow bytes | RevealIn bytes bytes

type_synonym catalogue = "bytes \<Rightarrow> (bytes \<times> bytes) list \<Rightarrow> bytes"

record Router =
  rt_App :: bytes
  rt_entries :: "promptEntry list"
  rt_sink :: bool
  rt_shown :: "bytes set"
  rt_raised :: "bytes \<rightharpoonup> int"
  rt_os :: "OsCall list"
  rt_pub :: "Routed list Publisher"

text \<open>The calls an owner makes on its \<^verbatim>\<open>Sink\<close>.\<close>

datatype SinkCall = SinkOpen Prompt | SinkClose bytes

datatype PromptError = ContractError bytes | PromptGone

definition raiseQuiet :: int where
  "raiseQuiet = 2 * 1000000000"

definition promptID :: "bytes \<Rightarrow> bytes \<Rightarrow> bytes" where
  "promptID k ref = k @ '':'' @ ref"

section \<open>Operations\<close>

text \<open>The one subscriber a router starts with is the broadcast of \<^verbatim>\<open>Deps.Emit\<close>.\<close>

definition newRouter :: "bytes \<Rightarrow> Router" where
  "newRouter app =
     \<lparr>rt_App = app, rt_entries = [], rt_sink = False, rt_shown = {}, rt_raised = Map.empty, rt_os = [],
      rt_pub = watchedPublisher\<rparr>"

definition SetSink :: "bool \<Rightarrow> Router \<Rightarrow> Router" where
  "SetSink b r = r\<lparr>rt_sink := b\<rparr>"

definition targetOf :: "Windows \<Rightarrow> promptEntry \<Rightarrow> bytes" where
  "targetOf w e =
     (if pe_claimed e \<noteq> [] \<and> wx_Has w (pe_claimed e) then pe_claimed e
      else if pt_Origin (pe_Prompt e) \<noteq> [] \<and> wx_Has w (pt_Origin (pe_Prompt e)) then pt_Origin (pe_Prompt e)
      else case wx_MainKey w of Some k \<Rightarrow> k | None \<Rightarrow> [])"

definition routedOrder :: "Routed \<Rightarrow> int \<times> bytes" where
  "routedOrder x = (pt_CreatedAt (ro_Prompt x), pt_ID (ro_Prompt x))"

definition ListRouted :: "Windows \<Rightarrow> Router \<Rightarrow> Routed list" where
  "ListRouted w r =
     sort_key routedOrder (map (\<lambda>e. \<lparr>ro_Prompt = pe_Prompt e, ro_Target = targetOf w e\<rparr>) (rt_entries r))"

definition noteID :: "bytes \<Rightarrow> bytes" where
  "noteID k = ''prompt:'' @ k"

definition countKey :: "bytes \<Rightarrow> bytes option" where
  "countKey k =
     (if k = ''schedule'' then Some ''schedule''
      else if k = ''approval'' then Some ''approval''
      else if k = ''git-credential'' then Some ''gitCredential''
      else if k = ''handover'' then Some ''handover''
      else if k = ''mobile-pairing'' then Some ''mobilePairing''
      else if k = ''update'' then Some ''update''
      else if k = ''proof'' then Some ''proof''
      else if k = ''masking'' then Some ''masking''
      else None)"

definition countTitle :: "catalogue \<Rightarrow> bytes \<Rightarrow> nat \<Rightarrow> bytes" where
  "countTitle tr k n =
     (case countKey k of
        Some c \<Rightarrow> tr (''backend.prompt.count.'' @ c @ ''.title'') [(''count'', Itoa (int n))]
      | None \<Rightarrow> [])"

definition noteFor :: "catalogue \<Rightarrow> bytes \<Rightarrow> bytes \<Rightarrow> bytes \<Rightarrow> nat \<Rightarrow> Note" where
  "noteFor tr app k title n =
     \<lparr>nt_ID = noteID k, nt_Title = (if n > 1 then countTitle tr k n else title),
      nt_Body = tr ''backend.prompt.open.body'' [(''app'', app)], nt_Kind = k\<rparr>"

text \<open>The loop over the entries of one kind: how many there are, and the oldest.\<close>

fun kindLoop :: "bytes \<Rightarrow> promptEntry list \<Rightarrow> nat \<times> promptEntry option \<Rightarrow> nat \<times> promptEntry option" where
  "kindLoop k [] acc = acc"
| "kindLoop k (e # es) (n, oldest) =
     (if pt_Kind (pe_Prompt e) \<noteq> k then kindLoop k es (n, oldest)
      else kindLoop k es
        (n + 1,
         (case oldest of
            None \<Rightarrow> Some e
          | Some o' \<Rightarrow>
              if pt_CreatedAt (pe_Prompt e) < pt_CreatedAt (pe_Prompt o') \<or>
                 pt_CreatedAt (pe_Prompt e) = pt_CreatedAt (pe_Prompt o') \<and> pt_ID (pe_Prompt e) < pt_ID (pe_Prompt o')
              then Some e else Some o')))"

definition kindLocked :: "bytes \<Rightarrow> Router \<Rightarrow> nat \<times> promptEntry option" where
  "kindLocked k r = kindLoop k (rt_entries r) (0, None)"

definition commit :: "Windows \<Rightarrow> OsCall option \<Rightarrow> Router \<Rightarrow> Router" where
  "commit w n r =
     (let r1 = r\<lparr>rt_pub := publish (ListRouted w r) (rt_pub r)\<rparr> in
      case n of
        Some c \<Rightarrow> if rt_sink r1 then r1\<lparr>rt_os := rt_os r1 @ [c]\<rparr> else r1
      | None \<Rightarrow> r1)"

definition findPrompt :: "bytes \<Rightarrow> Router \<Rightarrow> promptEntry option" where
  "findPrompt i r = find (\<lambda>e. pt_ID (pe_Prompt e) = i) (rt_entries r)"

text \<open>\<open>OpenPrompt\<close> also says whether the window is raised, which starts \<open>RevealKind\<close> in the background.\<close>

definition OpenPrompt ::
  "catalogue \<Rightarrow> (bytes \<Rightarrow> bool) \<Rightarrow> Windows \<Rightarrow> bool \<Rightarrow> int \<Rightarrow> int \<Rightarrow> Prompt \<Rightarrow> Router \<Rightarrow> bool \<times> Router" where
  "OpenPrompt tr raiseOnOpen w enabled nowMs now p r =
     (if findPrompt (pt_ID p) r \<noteq> None then (False, r)
      else
        let p' = (if pt_CreatedAt p = 0 then p\<lparr>pt_CreatedAt := nowMs\<rparr> else p);
            e = \<lparr>pe_Prompt = p', pe_claimed = []\<rparr>;
            r1 = r\<lparr>rt_entries := rt_entries r @ [e]\<rparr>;
            focused = wx_Focused w (targetOf w e);
            notes = rt_sink r \<and> enabled \<and> \<not> focused;
            n = (if notes
                 then Some (OsSend (noteFor tr (rt_App r) (pt_Kind p') (pt_Title p') (fst (kindLocked (pt_Kind p') r1))))
                 else None);
            r2 = (if notes then r1\<lparr>rt_shown := insert (pt_Kind p') (rt_shown r1)\<rparr> else r1);
            raise = (\<not> focused \<and> raiseOnOpen (pt_Kind p') \<and>
                     (case rt_raised r2 (pt_Kind p') of None \<Rightarrow> True | Some t \<Rightarrow> now - t \<ge> raiseQuiet));
            r3 = (if raise then r2\<lparr>rt_raised := (rt_raised r2)(pt_Kind p' \<mapsto> now)\<rparr> else r2)
        in (raise, commit w n r3))"

definition ClosePrompt :: "catalogue \<Rightarrow> Windows \<Rightarrow> bytes \<Rightarrow> Router \<Rightarrow> Router" where
  "ClosePrompt tr w i r =
     (case findPrompt i r of
        None \<Rightarrow> r
      | Some e \<Rightarrow>
          let k = pt_Kind (pe_Prompt e);
              r1 = r\<lparr>rt_entries := filter (\<lambda>e. pt_ID (pe_Prompt e) \<noteq> i) (rt_entries r)\<rparr>
          in
          if k \<in> rt_shown r1 then
            (case kindLocked k r1 of
               (n, oldest) \<Rightarrow>
                 (case oldest of
                    None \<Rightarrow> commit w (Some (OsRemove (noteID k))) (r1\<lparr>rt_shown := rt_shown r1 - {k}\<rparr>)
                  | Some o' \<Rightarrow> commit w (Some (OsSend (noteFor tr (rt_App r1) k (pt_Title (pe_Prompt o')) n))) r1))
          else commit w None r1)"

definition Claim :: "Windows \<Rightarrow> bytes \<Rightarrow> bytes \<Rightarrow> Router \<Rightarrow> PromptError option \<times> Router" where
  "Claim w i windowKey r =
     (if i = [] \<or> windowKey = [] then (Some (ContractError ''id and windowKey are required''), r)
      else if findPrompt i r = None then (Some PromptGone, r)
      else
        (None, commit w None
          (r\<lparr>rt_entries :=
               map (\<lambda>e. if pt_ID (pe_Prompt e) = i then e\<lparr>pe_claimed := windowKey\<rparr> else e) (rt_entries r)\<rparr>)))"

definition Reroute :: "Windows \<Rightarrow> Router \<Rightarrow> Router" where
  "Reroute w r = commit w None r"

text \<open>\<open>w'\<close> is the window registry after the reopen, which is \<open>w\<close> when there is no reopen.\<close>

definition RevealKind :: "bool \<Rightarrow> Windows \<Rightarrow> Windows \<Rightarrow> bytes \<Rightarrow> Router \<Rightarrow> Shown list" where
  "RevealKind canReopen w w' k r =
     (case snd (kindLocked k r) of
        None \<Rightarrow> []
      | Some e \<Rightarrow>
          let reopens = (targetOf w e = [] \<and> canReopen);
              tgt = (if reopens then targetOf w' e else targetOf w e)
          in (if reopens then [ReopenWindow] else []) @
             (if tgt = [] then [] else [FocusWindow tgt, RevealIn tgt (pt_ID (pe_Prompt e))]))"

definition SendTest :: "catalogue \<Rightarrow> bool \<Rightarrow> Router \<Rightarrow> Router" where
  "SendTest tr enabled r =
     (if \<not> rt_sink r \<or> \<not> enabled then r
      else r\<lparr>rt_os := rt_os r @
        [OsSend \<lparr>nt_ID = ''prompt:test'', nt_Title = tr ''backend.prompt.test.title'' [(''app'', rt_App r)],
                 nt_Body = tr ''backend.prompt.test.body'' [], nt_Kind = ''test''\<rparr>]\<rparr>)"

text \<open>The quit confirmation is one prompt with a fixed id, opened and then revealed.\<close>

definition quitPrompt :: "catalogue \<Rightarrow> Router \<Rightarrow> Prompt" where
  "quitPrompt tr r =
     \<lparr>pt_ID = promptID ''quit'' ''app'', pt_Kind = ''quit'', pt_Ref = ''app'', pt_Origin = [],
      pt_Title = tr ''backend.prompt.quit.title'' [(''app'', rt_App r)], pt_CreatedAt = 0\<rparr>"

definition AskQuit ::
  "catalogue \<Rightarrow> (bytes \<Rightarrow> bool) \<Rightarrow> bool \<Rightarrow> Windows \<Rightarrow> Windows \<Rightarrow> bool \<Rightarrow> int \<Rightarrow> int \<Rightarrow> Router \<Rightarrow> Shown list \<times> Router" where
  "AskQuit tr ro canReopen w w' enabled nowMs now r =
     (let r1 = snd (OpenPrompt tr ro w enabled nowMs now (quitPrompt tr r) r)
      in (RevealKind canReopen w w' ''quit'' r1, r1))"

definition WithdrawQuit :: "catalogue \<Rightarrow> Windows \<Rightarrow> Router \<Rightarrow> Router" where
  "WithdrawQuit tr w r = ClosePrompt tr w (promptID ''quit'' ''app'') r"

section \<open>Runs\<close>

datatype RouterCall =
    RcOpen Windows bool int int Prompt
  | RcClose Windows bytes
  | RcClaim Windows bytes bytes
  | RcReroute Windows
  | RcTest bool
  | RcSink bool
  | RcDeliver nat

text \<open>\<open>RcDeliver i\<close>: the emission number \<open>i\<close> of those in flight reaches the emitter.\<close>

fun routerStep :: "catalogue \<Rightarrow> (bytes \<Rightarrow> bool) \<Rightarrow> Router \<Rightarrow> RouterCall \<Rightarrow> Router" where
  "routerStep tr ro r (RcOpen w en nowMs now p) = snd (OpenPrompt tr ro w en nowMs now p r)"
| "routerStep tr ro r (RcClose w i) = ClosePrompt tr w i r"
| "routerStep tr ro r (RcClaim w i k) = snd (Claim w i k r)"
| "routerStep tr ro r (RcReroute w) = Reroute w r"
| "routerStep tr ro r (RcTest en) = SendTest tr en r"
| "routerStep tr ro r (RcSink b) = SetSink b r"
| "routerStep tr ro r (RcDeliver i) = r\<lparr>rt_pub := deliver i (rt_pub r)\<rparr>"

fun callWindows :: "RouterCall \<Rightarrow> Windows option" where
  "callWindows (RcOpen w en nowMs now p) = Some w"
| "callWindows (RcClose w i) = Some w"
| "callWindows (RcClaim w i k) = Some w"
| "callWindows (RcReroute w) = Some w"
| "callWindows c = None"

abbreviation routerRun :: "catalogue \<Rightarrow> (bytes \<Rightarrow> bool) \<Rightarrow> Router \<Rightarrow> RouterCall list \<Rightarrow> Router" where
  "routerRun tr ro r cs \<equiv> foldl (routerStep tr ro) r cs"

text \<open>The ids that are open after the calls of the owners, as a set.\<close>

fun openIDs :: "bytes set \<Rightarrow> RouterCall list \<Rightarrow> bytes set" where
  "openIDs S [] = S"
| "openIDs S (RcOpen w en nowMs now p # cs) = openIDs (insert (pt_ID p) S) cs"
| "openIDs S (RcClose w i # cs) = openIDs (S - {i}) cs"
| "openIDs S (c # cs) = openIDs S cs"

text \<open>The same for the calls of one owner on its sink.\<close>

fun sinkIDs :: "bytes set \<Rightarrow> SinkCall list \<Rightarrow> bytes set" where
  "sinkIDs S [] = S"
| "sinkIDs S (SinkOpen p # cs) = sinkIDs (insert (pt_ID p) S) cs"
| "sinkIDs S (SinkClose i # cs) = sinkIDs (S - {i}) cs"

fun asRouterCall :: "Windows \<Rightarrow> bool \<Rightarrow> int \<Rightarrow> int \<Rightarrow> SinkCall \<Rightarrow> RouterCall" where
  "asRouterCall w en nowMs now (SinkOpen p) = RcOpen w en nowMs now p"
| "asRouterCall w en nowMs now (SinkClose i) = RcClose w i"

definition idsOf :: "Router \<Rightarrow> bytes list" where
  "idsOf r = map (\<lambda>e. pt_ID (pe_Prompt e)) (rt_entries r)"

definition kindsOf :: "Router \<Rightarrow> bytes set" where
  "kindsOf r = (\<lambda>e. pt_Kind (pe_Prompt e)) ` set (rt_entries r)"

definition routerOk :: "Router \<Rightarrow> bool" where
  "routerOk r \<longleftrightarrow> distinct (idsOf r) \<and> rt_shown r \<subseteq> kindsOf r"

text \<open>A notification is up when the last system call about it was a send.\<close>

definition aboutNote :: "bytes \<Rightarrow> OsCall \<Rightarrow> bool" where
  "aboutNote i c = (case c of OsSend n \<Rightarrow> nt_ID n = i | OsRemove j \<Rightarrow> j = i)"

definition noteUp :: "bytes \<Rightarrow> OsCall list \<Rightarrow> bool" where
  "noteUp i os = (case filter (aboutNote i) (rev os) of [] \<Rightarrow> False | c # _ \<Rightarrow> (case c of OsSend n \<Rightarrow> True | OsRemove j \<Rightarrow> False))"

section \<open>Lemmas\<close>

lemma kindLoop_none: "snd (kindLoop k es (n, oldest)) = None \<longleftrightarrow>
    oldest = None \<and> (\<forall>e\<in>set es. pt_Kind (pe_Prompt e) \<noteq> k)"
  by (induction es arbitrary: n oldest) (auto split: option.splits)

lemma kindLocked_none: "snd (kindLocked k r) = None \<longleftrightarrow> k \<notin> kindsOf r"
  by (auto simp: kindLocked_def kindLoop_none kindsOf_def)

lemma findPrompt_None: "findPrompt i r = None \<longleftrightarrow> i \<notin> set (idsOf r)"
  by (auto simp: findPrompt_def find_None_iff idsOf_def)

lemma findPrompt_Some: "findPrompt i r = Some e \<Longrightarrow> e \<in> set (rt_entries r) \<and> pt_ID (pe_Prompt e) = i"
  by (auto simp: findPrompt_def find_Some_iff)

lemma commit_simps [simp]:
  "rt_entries (commit w n r) = rt_entries r" "rt_shown (commit w n r) = rt_shown r" "rt_sink (commit w n r) = rt_sink r"
  "rt_pub (commit w n r) = publish (ListRouted w r) (rt_pub r)"
  "rt_os (commit w n r) = rt_os r @ (case n of Some c \<Rightarrow> if rt_sink r then [c] else [] | None \<Rightarrow> [])"
  "idsOf (commit w n r) = idsOf r" "kindsOf (commit w n r) = kindsOf r"
  by (auto simp: commit_def idsOf_def kindsOf_def Let_def split: option.splits)

lemma idsOf_update [simp]:
  "idsOf (r\<lparr>rt_pub := p\<rparr>) = idsOf r" "idsOf (r\<lparr>rt_sink := b\<rparr>) = idsOf r" "idsOf (r\<lparr>rt_os := q\<rparr>) = idsOf r"
  "kindsOf (r\<lparr>rt_pub := p\<rparr>) = kindsOf r" "kindsOf (r\<lparr>rt_os := q\<rparr>) = kindsOf r"
  by (simp_all add: idsOf_def kindsOf_def)

lemma ListRouted_commit [simp]: "ListRouted w (commit w' n r) = ListRouted w r"
  by (simp add: ListRouted_def)

lemma noteUp_append: "noteUp i (os @ [c]) = (if aboutNote i c then (case c of OsSend n \<Rightarrow> True | OsRemove j \<Rightarrow> False) else noteUp i os)"
  by (simp add: noteUp_def)

lemma noteID_inject [simp]: "noteID k = noteID k' \<longleftrightarrow> k = k'"
  by (simp add: noteID_def)

text \<open>What each operation does to the fields the invariant is about.\<close>

lemma Open_ids: "idsOf (snd (OpenPrompt tr ro w en nowMs now p r)) =
    (if pt_ID p \<in> set (idsOf r) then idsOf r else idsOf r @ [pt_ID p])"
  using findPrompt_None [of "pt_ID p" r] by (auto simp: OpenPrompt_def Let_def idsOf_def)

lemma Close_ids: "idsOf (ClosePrompt tr w i r) = filter (\<lambda>j. j \<noteq> i) (idsOf r)"
proof (cases "findPrompt i r")
  case None
  then have "i \<notin> set (idsOf r)" by (simp add: findPrompt_None)
  then show ?thesis using None by (auto simp: ClosePrompt_def intro: filter_True [symmetric])
next
  case (Some e)
  have "idsOf (r\<lparr>rt_entries := filter (\<lambda>e. pt_ID (pe_Prompt e) \<noteq> i) (rt_entries r), rt_shown := S\<rparr>) =
      filter (\<lambda>j. j \<noteq> i) (idsOf r)" for S
    by (simp add: idsOf_def filter_map comp_def)
  moreover have "idsOf (r\<lparr>rt_entries := filter (\<lambda>e. pt_ID (pe_Prompt e) \<noteq> i) (rt_entries r)\<rparr>) =
      filter (\<lambda>j. j \<noteq> i) (idsOf r)"
    by (simp add: idsOf_def filter_map comp_def)
  ultimately show ?thesis using Some by (simp add: ClosePrompt_def Let_def split: prod.splits option.splits)
qed

lemma Claim_ids: "idsOf (snd (Claim w i k r)) = idsOf r"
  by (auto simp: Claim_def idsOf_def comp_def intro: map_cong)

lemma Claim_kinds: "kindsOf (snd (Claim w i k r)) = kindsOf r"
proof -
  define g where "g = (\<lambda>e :: promptEntry. if pt_ID (pe_Prompt e) = i then e\<lparr>pe_claimed := k\<rparr> else e)"
  have kinds: "kindsOf (x :: Router) = set (map (\<lambda>e. pt_Kind (pe_Prompt e)) (rt_entries x))" for x by (simp add: kindsOf_def)
  have "map (\<lambda>e. pt_Kind (pe_Prompt e)) (map g es) = map (\<lambda>e. pt_Kind (pe_Prompt e)) es" for es
    by (induction es) (auto simp: g_def)
  moreover have "rt_entries (snd (Claim w i k r)) \<in> {rt_entries r, map g (rt_entries r)}"
    by (simp add: Claim_def g_def)
  ultimately show ?thesis by (elim insertE emptyE) (simp_all only: kinds)
qed

lemma step_ids:
  "set (idsOf (routerStep tr ro r c)) = openIDs (set (idsOf r)) [c] \<and>
   (distinct (idsOf r) \<longrightarrow> distinct (idsOf (routerStep tr ro r c)))"
  by (cases c) (auto simp: Open_ids Close_ids Claim_ids Reroute_def SendTest_def SetSink_def insert_absorb)

lemma openIDs_append: "openIDs S (cs @ ds) = openIDs (openIDs S cs) ds"
  by (induction S cs rule: openIDs.induct) auto

lemma sinkIDs_append: "sinkIDs S (cs @ ds) = sinkIDs (sinkIDs S cs) ds"
  by (induction S cs rule: sinkIDs.induct) auto

lemma sinkIDs_router: "openIDs S (map (asRouterCall w en nowMs now) cs) = sinkIDs S cs"
  by (induction S cs rule: sinkIDs.induct) auto

lemma run_ids: "set (idsOf (routerRun tr ro r cs)) = openIDs (set (idsOf r)) cs \<and>
   (distinct (idsOf r) \<longrightarrow> distinct (idsOf (routerRun tr ro r cs)))"
proof (induction cs arbitrary: r)
  case (Cons c cs)
  then show ?case using step_ids [of tr ro r c] openIDs_append [of "set (idsOf r)" "[c]" cs] by simp
qed simp

text \<open>The notification invariant: what is marked as shown is up, and its kind has an open prompt.\<close>

definition notesOk :: "Router \<Rightarrow> bool" where
  "notesOk r \<longleftrightarrow> rt_sink r \<and> rt_shown r \<subseteq> kindsOf r \<and>
     (\<forall>k. k \<noteq> ''test'' \<longrightarrow> (noteUp (noteID k) (rt_os r) \<longleftrightarrow> k \<in> rt_shown r))"

text \<open>
  Every state change of the router is a commit of this form: the entries change, and either no
  notification call is made, or one is sent for a kind that has an entry, or the one of a kind without
  entries is removed.
\<close>

inductive noteMove :: "Router \<Rightarrow> Router \<Rightarrow> bool" where
  silent: "rt_shown r' = rt_shown r \<Longrightarrow> rt_os r' = rt_os r \<Longrightarrow> rt_sink r' = rt_sink r \<Longrightarrow>
    kindsOf r \<inter> rt_shown r \<subseteq> kindsOf r' \<Longrightarrow> noteMove r r'"
| sent: "rt_shown r' = insert k (rt_shown r) \<Longrightarrow> rt_os r' = rt_os r @ [OsSend n] \<Longrightarrow> nt_ID n = noteID k \<Longrightarrow>
    rt_sink r' = rt_sink r \<Longrightarrow> kindsOf r - {k} \<subseteq> kindsOf r' \<Longrightarrow> k \<in> kindsOf r' \<Longrightarrow> noteMove r r'"
| removed: "rt_shown r' = rt_shown r - {k} \<Longrightarrow> rt_os r' = rt_os r @ [OsRemove (noteID k)] \<Longrightarrow>
    rt_sink r' = rt_sink r \<Longrightarrow> kindsOf r - {k} \<subseteq> kindsOf r' \<Longrightarrow> noteMove r r'"

lemma noteMove_ok: "noteMove r r' \<Longrightarrow> notesOk r \<Longrightarrow> notesOk r'"
proof (induction rule: noteMove.induct)
  case (sent r' k r n)
  have "noteUp (noteID j) (rt_os r') \<longleftrightarrow> j = k \<or> noteUp (noteID j) (rt_os r)" for j
    using sent(2,3) by (auto simp: noteUp_append aboutNote_def)
  moreover have "insert k (rt_shown r) \<subseteq> kindsOf r'" using sent(5-7) by (auto simp: notesOk_def)
  ultimately show ?case using sent(1,4,7) by (simp add: notesOk_def)
next
  case (removed r' r k)
  have "noteUp (noteID j) (rt_os r') \<longleftrightarrow> j \<noteq> k \<and> noteUp (noteID j) (rt_os r)" for j
    using removed(2) by (auto simp: noteUp_append aboutNote_def)
  moreover have "rt_shown r - {k} \<subseteq> kindsOf r'" using removed(4,5) by (auto simp: notesOk_def)
  ultimately show ?case using removed(1,3,5) by (auto simp: notesOk_def)
qed (auto simp: notesOk_def)

lemma Open_notes:
  assumes "rt_sink r"
  shows "noteMove r (snd (OpenPrompt tr ro w en nowMs now p r))"
proof (cases "findPrompt (pt_ID p) r")
  case None
  define p' where "p' = (if pt_CreatedAt p = 0 then p\<lparr>pt_CreatedAt := nowMs\<rparr> else p)"
  define nf where "nf \<longleftrightarrow> en \<and> \<not> wx_Focused w (targetOf w \<lparr>pe_Prompt = p', pe_claimed = []\<rparr>)"
  define r1 where "r1 = r\<lparr>rt_entries := rt_entries r @ [\<lparr>pe_Prompt = p', pe_claimed = []\<rparr>]\<rparr>"
  define n where "n = noteFor tr (rt_App r) (pt_Kind p') (pt_Title p') (fst (kindLocked (pt_Kind p') r1))"
  let ?r = "snd (OpenPrompt tr ro w en nowMs now p r)"
  have kinds: "kindsOf ?r = insert (pt_Kind p') (kindsOf r)"
    using None by (simp add: OpenPrompt_def Let_def p'_def [symmetric] kindsOf_def)
  have shape: "rt_sink ?r = rt_sink r" "rt_shown ?r = (if nf then insert (pt_Kind p') (rt_shown r) else rt_shown r)"
    "rt_os ?r = rt_os r @ (if nf then [OsSend n] else [])"
    using None assms
    by (simp_all add: OpenPrompt_def Let_def p'_def [symmetric] r1_def [symmetric] n_def [symmetric] nf_def [symmetric])
      (simp_all add: nf_def r1_def)
  show ?thesis
  proof (cases nf)
    case True
    then show ?thesis using shape kinds by (intro sent [where n = n]) (auto simp: n_def noteFor_def)
  qed (use shape kinds in \<open>auto intro: silent\<close>)
qed (auto simp: OpenPrompt_def intro: silent)

lemma Close_notes:
  assumes "rt_sink r" and "distinct (idsOf r)"
  shows "noteMove r (ClosePrompt tr w i r)"
proof (cases "findPrompt i r")
  case (Some e)
  define k where "k = pt_Kind (pe_Prompt e)"
  define r1 where "r1 = r\<lparr>rt_entries := filter (\<lambda>e. pt_ID (pe_Prompt e) \<noteq> i) (rt_entries r)\<rparr>"
  obtain m oldest where m: "kindLocked k r1 = (m, oldest)" by fastforce
  have old: "oldest = None \<longleftrightarrow> k \<notin> kindsOf r1" using kindLocked_none [of k r1] m by simp
  have "x = e" if "x \<in> set (rt_entries r)" "pt_ID (pe_Prompt x) = i" for x
    using assms(2) findPrompt_Some [OF Some] that by (auto simp: idsOf_def distinct_map inj_on_def)
  then have keep: "kindsOf r - {k} \<subseteq> kindsOf r1" by (auto simp: kindsOf_def k_def r1_def)
  have eq: "ClosePrompt tr w i r =
      (if k \<in> rt_shown r then
         (case oldest of
            None \<Rightarrow> commit w (Some (OsRemove (noteID k))) (r1\<lparr>rt_shown := rt_shown r - {k}\<rparr>)
          | Some o' \<Rightarrow> commit w (Some (OsSend (noteFor tr (rt_App r1) k (pt_Title (pe_Prompt o')) m))) r1)
       else commit w None r1)"
    using Some m by (auto simp: ClosePrompt_def Let_def k_def r1_def split: option.split)
  have k1: "kindsOf (r1\<lparr>rt_shown := S\<rparr>) = kindsOf r1" for S by (simp add: kindsOf_def)
  have f: "rt_shown r1 = rt_shown r" "rt_os r1 = rt_os r" "rt_sink r1 = rt_sink r" by (simp_all add: r1_def)
  show ?thesis
  proof (cases "k \<in> rt_shown r")
    case True
    show ?thesis
    proof (cases oldest)
      case None
      then show ?thesis using True assms(1) keep by (intro removed [where k = k]) (auto simp: eq k1 f)
    next
      case (Some o')
      then show ?thesis using True assms(1) keep old
        by (intro sent [where k = k and n = "noteFor tr (rt_App r1) k (pt_Title (pe_Prompt o')) m"])
          (auto simp: eq f noteFor_def)
    qed
  next
    case False
    then show ?thesis using keep by (intro silent) (auto simp: eq f)
  qed
qed (auto simp: ClosePrompt_def intro: silent)

fun noSink :: "RouterCall \<Rightarrow> bool" where
  "noSink (RcSink b) = False"
| "noSink c = True"

lemma test_note_other: "''prompt:test'' = noteID k \<longleftrightarrow> k = ''test''"
  by (auto simp: noteID_def)

lemma SendTest_notes: "notesOk r \<Longrightarrow> notesOk (SendTest tr en r)"
  by (auto simp: test_note_other notesOk_def SendTest_def noteUp_append aboutNote_def)

lemma step_notes:
  assumes "notesOk r" and "distinct (idsOf r)" and "noSink c"
  shows "notesOk (routerStep tr ro r c)"
proof -
  have sk: "rt_sink r" using assms(1) by (simp add: notesOk_def)
  have m: "noteMove r (snd (Claim w i k r))" for w i k
    by (rule silent) (simp_all add: Claim_kinds, simp_all add: Claim_def)
  show ?thesis
    using assms(1,3) noteMove_ok [OF Open_notes [OF sk]] noteMove_ok [OF Close_notes [OF sk assms(2)]] noteMove_ok [OF m]
      SendTest_notes
    by (cases c) (auto simp: Reroute_def notesOk_def intro: noteMove_ok [OF silent])
qed

lemma run_notes:
  "notesOk r \<Longrightarrow> distinct (idsOf r) \<Longrightarrow> list_all noSink cs \<Longrightarrow> notesOk (routerRun tr ro r cs)"
proof (induction cs arbitrary: r)
  case (Cons c cs)
  then show ?case using step_notes [of r c tr ro] step_ids [of tr ro r c] by simp
qed simp

section \<open>Properties\<close>

text \<open>
  C17: no notification outlives its popups.  Over any calls on a router with a system sink, for every
  kind, a notification is up only while a prompt of that kind is open, the open prompts are exactly
  those opened and not closed since, each once, and the list is sorted oldest first.
\<close>

theorem notification_never_orphaned:
  assumes "list_all noSink cs" and "r = routerRun tr ro (SetSink True (newRouter app)) cs" and "k \<noteq> ''test''"
  shows "(if noteUp (noteID k) (rt_os r) then k \<in> kindsOf r else k \<notin> rt_shown r) \<and>
    distinct (idsOf r) \<and> set (idsOf r) = openIDs {} cs \<and>
    sorted (map routedOrder (ListRouted w r)) \<and>
    mset (map (\<lambda>x. pt_ID (ro_Prompt x)) (ListRouted w r)) = mset (idsOf r)"
proof -
  let ?r0 = "SetSink True (newRouter app)"
  have 0: "notesOk ?r0" "idsOf ?r0 = []"
    by (simp_all add: SetSink_def newRouter_def notesOk_def idsOf_def noteUp_def)
  then have "notesOk r" using run_notes [OF 0(1) _ assms(1)] assms(2) by simp
  moreover have "distinct (idsOf r)" "set (idsOf r) = openIDs {} cs"
    using run_ids [of tr ro ?r0 cs] 0(2) assms(2) by simp_all
  moreover have "sorted (map routedOrder (ListRouted w r))" by (simp add: ListRouted_def)
  moreover have "mset (map (\<lambda>x. pt_ID (ro_Prompt x)) (ListRouted w r)) = mset (idsOf r)"
    by (simp add: ListRouted_def idsOf_def comp_def multiset.map_comp)
  ultimately show ?thesis using assms(3) by (auto simp: notesOk_def)
qed

theorem notification_never_orphaned_witness:
  "(let r = routerRun (\<lambda>k a. k) (\<lambda>k. False) (SetSink True (newRouter ''Space''))
       [RcOpen \<lparr>wx_MainKey = None, wx_Has = \<lambda>k. False, wx_Focused = \<lambda>k. False\<rparr> True 5 0
          \<lparr>pt_ID = ''quit:app'', pt_Kind = ''quit'', pt_Ref = ''app'', pt_Origin = [], pt_Title = ''Quit'', pt_CreatedAt = 0\<rparr>]
    in distinct (idsOf r) \<and> set (idsOf r) = {''quit:app''})"
  using notification_never_orphaned
    [of "[RcOpen \<lparr>wx_MainKey = None, wx_Has = \<lambda>k. False, wx_Focused = \<lambda>k. False\<rparr> True 5 0
          \<lparr>pt_ID = ''quit:app'', pt_Kind = ''quit'', pt_Ref = ''app'', pt_Origin = [], pt_Title = ''Quit'', pt_CreatedAt = 0\<rparr>]",
      OF _ refl, of "''quit''" "\<lambda>k a. k" "\<lambda>k. False" "''Space''"]
  by (simp add: Let_def)

section \<open>Subscribers\<close>

text \<open>
  Targets depend on which windows are registered and which one is the main window, not on which has the
  focus.  A call in a window set with the same routes as \<open>w\<close>, or one that does not look at windows at all.
\<close>

definition sameRoutes :: "Windows \<Rightarrow> Windows \<Rightarrow> bool" where
  "sameRoutes w w' \<longleftrightarrow> wx_MainKey w' = wx_MainKey w \<and> wx_Has w' = wx_Has w"

definition routesAs :: "Windows \<Rightarrow> RouterCall \<Rightarrow> bool" where
  "routesAs w c \<longleftrightarrow> (case callWindows c of None \<Rightarrow> True | Some w' \<Rightarrow> sameRoutes w w')"

lemma ListRouted_same:
  assumes "sameRoutes w w'"
  shows "ListRouted w' r = ListRouted w r"
proof -
  have "targetOf w' e = targetOf w e" for e
    using assms by (simp add: targetOf_def sameRoutes_def cong: if_cong option.case_cong)
  then show ?thesis by (simp add: ListRouted_def)
qed

definition stepIn :: "catalogue \<Rightarrow> (bytes \<Rightarrow> bool) \<Rightarrow> Windows \<Rightarrow> Router \<Rightarrow> RouterCall \<Rightarrow> Router option" where
  "stepIn tr ro w r c =
     (if routesAs w c then Some (routerStep tr ro r c) else None)"

lemma ListRouted_update [simp]:
  "ListRouted w (r\<lparr>rt_pub := p\<rparr>) = ListRouted w r" "ListRouted w (r\<lparr>rt_sink := b\<rparr>) = ListRouted w r"
  "ListRouted w (r\<lparr>rt_os := q\<rparr>) = ListRouted w r"
  by (simp_all add: ListRouted_def)

lemma commit_pub: "rt_pub r' = rt_pub r \<Longrightarrow> pubMove v (ListRouted w (commit w n r')) (rt_pub r) (rt_pub (commit w n r'))"
  by (metis ListRouted_commit commit_simps(4) pubMove.published)

lemma Open_pub: "pubMove (ListRouted w r) (ListRouted w (snd (OpenPrompt tr ro w en nowMs now p r))) (rt_pub r)
    (rt_pub (snd (OpenPrompt tr ro w en nowMs now p r)))"
  by (cases "findPrompt (pt_ID p) r")
    (simp_all add: OpenPrompt_def Let_def commit_pub pubMove.quiet del: ListRouted_commit commit_simps)

lemma Close_pub: "pubMove (ListRouted w r) (ListRouted w (ClosePrompt tr w i r)) (rt_pub r) (rt_pub (ClosePrompt tr w i r))"
  by (auto simp: ClosePrompt_def Let_def pubMove.quiet intro: commit_pub split: option.split prod.split
      simp del: ListRouted_commit commit_simps)

lemma Claim_pub: "pubMove (ListRouted w r) (ListRouted w (snd (Claim w i k r))) (rt_pub r) (rt_pub (snd (Claim w i k r)))"
  by (auto simp: Claim_def pubMove.quiet intro: commit_pub simp del: ListRouted_commit commit_simps)

lemma step_pub:
  "callWindows c = None \<or> callWindows c = Some w \<Longrightarrow>
   pubMove (ListRouted w r) (ListRouted w (routerStep tr ro r c)) (rt_pub r) (rt_pub (routerStep tr ro r c))"
  by (cases c)
    (auto simp: Open_pub Close_pub Claim_pub Reroute_def SendTest_def SetSink_def pubMove.quiet
      intro: commit_pub pubMove.quiet pubMove.delivered simp del: ListRouted_commit commit_simps)

lemma step_pub_same:
  assumes "routesAs w c"
  shows "pubMove (ListRouted w r) (ListRouted w (routerStep tr ro r c)) (rt_pub r) (rt_pub (routerStep tr ro r c))"
proof (cases "callWindows c")
  case None
  then show ?thesis by (intro step_pub) simp
next
  case (Some w')
  then have "sameRoutes w w'" using assms by (simp add: routesAs_def)
  then show ?thesis using step_pub [of c w' r tr ro] Some by (simp add: ListRouted_same)
qed

interpretation routed: published_state "stepIn tr ro w" "\<lambda>r. True" "ListRouted w" rt_pub
  for tr ro w
  by unfold_locales (auto simp: stepIn_def split: if_splits intro: step_pub_same)

lemma routed_run:
  "list_all (routesAs w) cs \<Longrightarrow>
   routed.run tr ro w r cs = Some (routerRun tr ro r cs)"
  by (induction cs arbitrary: r) (auto simp: stepIn_def)

lemma pubMove_some:
  "pubMove v v' p p' \<Longrightarrow> pubOk k v0 cur p \<Longrightarrow> unat (oe_seq (px_em p)) + 1 < 2 ^ 64 \<Longrightarrow> \<exists>cur'. pubOk k v0 cur' p'"
  unfolding pubOk_def by (induction rule: pubMove.induct) (blast intro: skipSeq_at publish_at deliver_at)+

lemma run_some:
  "pubOk k v0 cur (rt_pub r) \<Longrightarrow> unat (oe_seq (px_em (rt_pub r))) + length cs < 2 ^ 64 \<Longrightarrow>
   (\<exists>cur'. pubOk k v0 cur' (rt_pub (routerRun tr ro r cs))) \<and>
   unat (oe_seq (px_em (rt_pub (routerRun tr ro r cs)))) \<le> unat (oe_seq (px_em (rt_pub r))) + length cs"
proof (induction cs arbitrary: r cur)
  case (Cons c cs)
  obtain w where "callWindows c = None \<or> callWindows c = Some w" by (cases "callWindows c") auto
  note m = step_pub [OF this, of r tr ro]
  have b: "unat (oe_seq (px_em (rt_pub r))) + 1 < 2 ^ 64" using Cons.prems(2) by simp
  obtain cur' where "pubOk k v0 cur' (rt_pub (routerStep tr ro r c))"
    using pubMove_some [OF m Cons.prems(1) b] by blast
  then show ?case using Cons.IH [of cur' "routerStep tr ro r c"] pubMove_seq [OF m b] Cons.prems(2) by auto
qed auto

lemma reroute_pub:
  assumes "length cs + n + 1 < 2 ^ 64" and "r = Reroute w (routerRun tr ro (newRouter app) cs)"
  shows "pubOk 0 v0 (ListRouted w r) (rt_pub r)" and "unat (oe_seq (px_em (rt_pub r))) + n < 2 ^ 64"
proof -
  let ?r1 = "routerRun tr ro (newRouter app) cs"
  have 0: "rt_pub (newRouter app) = watchedPublisher" by (simp add: newRouter_def)
  obtain cur where c1: "pubOk 0 v0 cur (rt_pub ?r1)" and n1: "unat (oe_seq (px_em (rt_pub ?r1))) \<le> length cs"
    using run_some [of 0 v0 v0 "newRouter app" cs tr ro] watched_ok [of v0] assms(1) 0 by auto
  have b: "unat (oe_seq (px_em (rt_pub ?r1))) + 1 < 2 ^ 64" using n1 assms(1) by simp
  have m: "pubMove (ListRouted w ?r1) (ListRouted w r) (rt_pub ?r1) (rt_pub r)"
    using step_pub [of "RcReroute w" w ?r1 tr ro] assms(2) by simp
  show "pubOk 0 v0 (ListRouted w r) (rt_pub r)"
    using publish_at [of _ 0 v0 cur "rt_pub ?r1" "ListRouted w ?r1"] b c1
    by (auto simp: Reroute_def pubOk_def assms(2))
  show "unat (oe_seq (px_em (rt_pub r))) + n < 2 ^ 64"
    using pubMove_seq [OF m b] n1 assms(1) by simp
qed

text \<open>
  C28: the windows catch up.  Take a stretch of calls during which the set of registered windows and the main
  window stay as they are (focus may move freely), beginning when the router is new or with the republication
  that follows a change of that set.  However the emissions of concurrent calls overtake each other, the
  calls before the stretch included, once none is on its way any more what the broadcast was last given is
  the current list with the current targets.  The windows begin with an empty list.
\<close>

theorem router_windows_catch_up:
  assumes "begin' = Reroute w (routerRun tr ro (newRouter app) cs) \<or> begin' = newRouter app \<and> v0 = []"
    and "r = routerRun tr ro begin' ds" and "list_all (routesAs w) ds" and "length cs + length ds + 1 < 2 ^ 64"
    and "px_flight (rt_pub r) = []"
  shows "told 0 v0 (rt_pub r) = ListRouted w r"
proof -
  have "pubOk 0 v0 (ListRouted w begin') (rt_pub begin') \<and> unat (oe_seq (px_em (rt_pub begin'))) + length ds < 2 ^ 64"
    using assms(1)
  proof
    assume "begin' = Reroute w (routerRun tr ro (newRouter app) cs)"
    then show ?thesis using reroute_pub [OF assms(4)] by blast
  next
    assume b: "begin' = newRouter app \<and> v0 = []"
    then have "rt_pub begin' = watchedPublisher" "ListRouted w begin' = v0" by (simp_all add: newRouter_def ListRouted_def)
    then show ?thesis using watched_ok [of v0] assms(4) by simp
  qed
  then have "pubOk 0 v0 (ListRouted w r) (rt_pub r)"
    using routed.run_pub [OF routed_run [OF assms(3)]] assms(2) by blast
  then show ?thesis by (rule pubOk_quiet [OF _ assms(5)])
qed

definition demoWindows :: Windows where
  "demoWindows = \<lparr>wx_MainKey = Some ''main'', wx_Has = \<lambda>k. k = ''main'', wx_Focused = \<lambda>k. False\<rparr>"

definition focusedWindows :: Windows where
  "focusedWindows = demoWindows\<lparr>wx_Focused := (\<lambda>k. k = ''main'')\<rparr>"

definition demoPrompt :: Prompt where
  "demoPrompt = \<lparr>pt_ID = ''quit:app'', pt_Kind = ''quit'', pt_Ref = ''app'', pt_Origin = [], pt_Title = ''Quit'', pt_CreatedAt = 7\<rparr>"

theorem router_windows_catch_up_witness:
  "told 0 [] (rt_pub (routerRun (\<lambda>k a. k) (\<lambda>k. False) (Reroute demoWindows (newRouter ''Space''))
       [RcOpen focusedWindows True 5 0 demoPrompt, RcDeliver 1, RcDeliver 0]))
   = [\<lparr>ro_Prompt = demoPrompt, ro_Target = ''main''\<rparr>]"
proof -
  let ?ds = "[RcOpen focusedWindows True 5 0 demoPrompt, RcDeliver 1, RcDeliver 0]"
  let ?r = "routerRun (\<lambda>k a. k) (\<lambda>k. False) (Reroute demoWindows (newRouter ''Space'')) ?ds"
  have "px_flight (rt_pub ?r) = []"
    by (simp add: Reroute_def publish_def NextSeq_def deliver_def newRouter_def OpenPrompt_def findPrompt_def commit_def
        Let_def demoPrompt_def)
  then have "told 0 [] (rt_pub ?r) = ListRouted demoWindows ?r"
    by (intro router_windows_catch_up [where cs = "[]" and ds = ?ds and app = "''Space''"])
      (simp_all add: routesAs_def sameRoutes_def focusedWindows_def)
  moreover have "ListRouted demoWindows ?r = [\<lparr>ro_Prompt = demoPrompt, ro_Target = ''main''\<rparr>]"
    by (simp add: ListRouted_def Reroute_def newRouter_def OpenPrompt_def findPrompt_def Let_def demoPrompt_def targetOf_def
        demoWindows_def commit_def)
  ultimately show ?thesis by simp
qed

end
