(* ===== verification/Pairing.thy ===== *)
theory Pairing
  imports Prompts
begin

text \<open>
  The approval broker every pairing flow shares: \<^verbatim>\<open>internal/pairing\<close>.  A request waits in a queue until the
  user approves or denies it, its deadline passes, the requester goes away or the broker shuts down.  An
  approval mints a token for that one request and turns every other request of the same client away; a
  denial starts a cooldown for the client.

  Request entries are objects shared between the queue and the goroutine that waits for the result, so
  they live in a store and the queue holds their numbers.  The result channel has room for one value and
  must be sent to exactly once: a second send is \<^const>\<open>None\<close>, as is a nil dereference.  Everything a method
  does under its mutex is one step; the sends that follow the unlock are part of it, since only the step
  that took an entry out of the queue ever sends on its channel.  The emission of the snapshot is not:
  it stays in flight until it is delivered.

  The clock is read where the code reads it, each reading an argument; \<^verbatim>\<open>ids.NewID\<close> and \<^verbatim>\<open>tokenauth.Mint\<close>
  (which may fail) are arguments too.
\<close>

section \<open>Data\<close>

datatype Outcome = Approved | Denied | TimedOut | Aborted

datatype ActionResult = Resolved | AlreadyResolved | Expired

record PairConfig =
  qc_Timeout :: int
  qc_Cooldown :: int
  qc_MaxQueue :: int
  qc_Prompts :: bool
  qc_Kind :: bytes

record 'm PairRequest =
  qr_RequestID :: bytes
  qr_ClientID :: bytes
  qr_Meta :: 'm
  qr_EnqueuedAt :: int
  qr_ExpiresAt :: int

record 'm PairSnapshot =
  qs_Pending :: "'m PairRequest option"
  qs_Queued :: nat

record ApprovedToken =
  at_Plain :: bytes
  at_Hash :: bytes
  at_Salt :: bytes

record 'm pendingEntry =
  qe_req :: "'m PairRequest"
  qe_result :: "Outcome list"

record 'm PairBroker =
  qb_cfg :: PairConfig
  qb_heap :: "'m pendingEntry list"
  qb_queue :: "nat PendingQueue"
  qb_cooldown :: "bytes \<rightharpoonup> int"
  qb_closed :: bool
  qb_tokens :: "bytes \<rightharpoonup> ApprovedToken"
  qb_sink :: "SinkCall list"
  qb_pub :: "'m PairSnapshot Publisher"

section \<open>Operations\<close>

text \<open>A broker with its first subscriber.\<close>

definition NewPairBroker :: "PairConfig \<Rightarrow> 'm PairBroker" where
  "NewPairBroker cfg =
     \<lparr>qb_cfg = cfg, qb_heap = [], qb_queue = NewPendingQueue, qb_cooldown = Map.empty, qb_closed = False,
      qb_tokens = Map.empty, qb_sink = [], qb_pub = watchedPublisher\<rparr>"

definition reqOf :: "'m PairBroker \<Rightarrow> nat \<Rightarrow> 'm PairRequest" where
  "reqOf b i = qe_req (qb_heap b ! i)"

definition snapshotLocked :: "'m PairBroker \<Rightarrow> 'm PairSnapshot option" where
  "snapshotLocked b =
     map_option
       (\<lambda>items. case items of
          [] \<Rightarrow> \<lparr>qs_Pending = None, qs_Queued = 0\<rparr>
        | i # _ \<Rightarrow> \<lparr>qs_Pending = Some (reqOf b i), qs_Queued = length items\<rparr>)
       (SnapshotQueue (qb_queue b))"

definition publishLocked :: "'m PairBroker \<Rightarrow> 'm PairBroker option" where
  "publishLocked b = map_option (\<lambda>snap. b\<lparr>qb_pub := publish snap (qb_pub b)\<rparr>) (snapshotLocked b)"

definition InCooldown :: "int \<Rightarrow> bytes \<Rightarrow> 'm PairBroker \<Rightarrow> bool" where
  "InCooldown now clientID b = (case qb_cooldown b clientID of None \<Rightarrow> False | Some until \<Rightarrow> now < until)"

definition openPromptLocked :: "('m PairRequest \<Rightarrow> bytes) \<Rightarrow> 'm PairRequest \<Rightarrow> 'm PairBroker \<Rightarrow> 'm PairBroker" where
  "openPromptLocked title req b =
     (if \<not> qc_Prompts (qb_cfg b) then b
      else b\<lparr>qb_sink := qb_sink b @
        [SinkOpen \<lparr>pt_ID = promptID (qc_Kind (qb_cfg b)) (qr_RequestID req), pt_Kind = qc_Kind (qb_cfg b),
                   pt_Ref = qr_RequestID req, pt_Origin = [], pt_Title = title req,
                   pt_CreatedAt = qr_EnqueuedAt req div 1000000\<rparr>]\<rparr>)"

definition closePromptLocked :: "bytes \<Rightarrow> 'm PairBroker \<Rightarrow> 'm PairBroker" where
  "closePromptLocked requestID b =
     (if qc_Prompts (qb_cfg b)
      then b\<lparr>qb_sink := qb_sink b @ [SinkClose (promptID (qc_Kind (qb_cfg b)) requestID)]\<rparr> else b)"

text \<open>\<open>Request\<close> up to the point where it blocks: the outcome it returns at once, or its entry.\<close>

definition RequestPairing ::
  "('m PairRequest \<Rightarrow> bytes) \<Rightarrow> int \<Rightarrow> int \<Rightarrow> bytes \<Rightarrow> bytes \<Rightarrow> 'm \<Rightarrow> 'm PairBroker \<Rightarrow>
   ((Outcome + nat) \<times> 'm PairBroker) option" where
  "RequestPairing title now1 now2 newID clientID meta b =
     (if qb_closed b then Some (Inl Aborted, b)
      else if InCooldown now1 clientID b then Some (Inl Denied, b)
      else if int (LenQueue (qb_queue b)) \<ge> qc_MaxQueue (qb_cfg b) then Some (Inl Aborted, b)
      else
        let req = \<lparr>qr_RequestID = newID, qr_ClientID = clientID, qr_Meta = meta, qr_EnqueuedAt = now2,
                   qr_ExpiresAt = now2 + qc_Timeout (qb_cfg b)\<rparr>;
            i = length (qb_heap b);
            b1 = b\<lparr>qb_heap := qb_heap b @ [\<lparr>qe_req = req, qe_result = []\<rparr>],
                   qb_queue := AddQueue newID i (qb_queue b)\<rparr>
        in map_option (\<lambda>b2. (Inr i, b2)) (publishLocked (openPromptLocked title req b1)))"

definition sendResult :: "nat \<Rightarrow> Outcome \<Rightarrow> 'm PairBroker \<Rightarrow> 'm PairBroker option" where
  "sendResult i x b =
     (if qe_result (qb_heap b ! i) \<noteq> [] then None
      else Some (b\<lparr>qb_heap := (qb_heap b)[i := (qb_heap b ! i)\<lparr>qe_result := [x]\<rparr>]\<rparr>))"

fun sendAll :: "Outcome \<Rightarrow> nat list \<Rightarrow> 'm PairBroker \<Rightarrow> 'm PairBroker option" where
  "sendAll x [] b = Some b"
| "sendAll x (i # is) b = (case sendResult i x b of None \<Rightarrow> None | Some b' \<Rightarrow> sendAll x is b')"

fun removeEach :: "nat list \<Rightarrow> 'm PairBroker \<Rightarrow> 'm PairBroker" where
  "removeEach [] b = b"
| "removeEach (i # is) b =
     removeEach is
       (closePromptLocked (qr_RequestID (reqOf b i))
          (b\<lparr>qb_queue := snd (RemoveQueue (qr_RequestID (reqOf b i)) (qb_queue b))\<rparr>))"

definition removeAllForClientLocked :: "bytes \<Rightarrow> 'm PairBroker \<Rightarrow> (nat list \<times> 'm PairBroker) option" where
  "removeAllForClientLocked clientID b =
     map_option
       (\<lambda>items. let removed = filter (\<lambda>i. qr_ClientID (reqOf b i) = clientID) items in (removed, removeEach removed b))
       (SnapshotQueue (qb_queue b))"

definition answer ::
  "bytes \<Rightarrow> Outcome \<Rightarrow> bool \<Rightarrow> int \<Rightarrow> int \<Rightarrow> ApprovedToken option \<Rightarrow> 'm PairBroker \<Rightarrow> (ActionResult \<times> 'm PairBroker) option" where
  "answer requestID outcome isDeny now1 now2 mint b =
     (case RemoveQueue requestID (qb_queue b) of
        (None, _) \<Rightarrow> Some (AlreadyResolved, b)
      | (Some i, q) \<Rightarrow>
          let b1 = closePromptLocked requestID (b\<lparr>qb_queue := q\<rparr>);
              clientID = qr_ClientID (reqOf b i);
              expired = (\<not> now1 < qr_ExpiresAt (reqOf b i))
          in
          case (if expired then Some ([], b1) else removeAllForClientLocked clientID b1) of
            None \<Rightarrow> None
          | Some (others, b2) \<Rightarrow>
              let mintFailed = (\<not> expired \<and> \<not> isDeny \<and> mint = None);
                  b3 = (if expired then b2
                        else if isDeny then b2\<lparr>qb_cooldown := (qb_cooldown b2)(clientID \<mapsto> now2 + qc_Cooldown (qb_cfg b2))\<rparr>
                        else case mint of None \<Rightarrow> b2
                             | Some tok \<Rightarrow> b2\<lparr>qb_tokens := (qb_tokens b2)(requestID \<mapsto> tok)\<rparr>);
                  siblingOutcome = (if isDeny then Denied else Aborted);
                  headOutcome = (if \<not> isDeny \<and> mintFailed then Denied else outcome)
              in
              case publishLocked b3 of
                None \<Rightarrow> None
              | Some b4 \<Rightarrow>
                  (case sendResult i (if expired then TimedOut else headOutcome) b4 of
                     None \<Rightarrow> None
                   | Some b5 \<Rightarrow>
                       map_option (\<lambda>b6. (if expired then Expired else Resolved, b6)) (sendAll siblingOutcome others b5)))"

definition Approve :: "bytes \<Rightarrow> int \<Rightarrow> int \<Rightarrow> ApprovedToken option \<Rightarrow> 'm PairBroker \<Rightarrow> (ActionResult \<times> 'm PairBroker) option" where
  "Approve requestID now1 now2 mint b = answer requestID Approved False now1 now2 mint b"

definition Deny :: "bytes \<Rightarrow> int \<Rightarrow> int \<Rightarrow> 'm PairBroker \<Rightarrow> (ActionResult \<times> 'm PairBroker) option" where
  "Deny requestID now1 now2 b = answer requestID Denied True now1 now2 None b"

definition CancelRequest :: "bytes \<Rightarrow> 'm PairBroker \<Rightarrow> 'm PairBroker option" where
  "CancelRequest requestID b =
     (case RemoveQueue requestID (qb_queue b) of
        (None, _) \<Rightarrow> Some b
      | (Some i, q) \<Rightarrow>
          (case publishLocked (closePromptLocked requestID (b\<lparr>qb_queue := q\<rparr>)) of
             None \<Rightarrow> None
           | Some b2 \<Rightarrow> sendResult i Aborted b2))"

definition TakeApprovedToken :: "bytes \<Rightarrow> 'm PairBroker \<Rightarrow> ApprovedToken option \<times> 'm PairBroker" where
  "TakeApprovedToken requestID b =
     (case qb_tokens b requestID of
        None \<Rightarrow> (None, b)
      | Some tok \<Rightarrow> (Some tok, b\<lparr>qb_tokens := (qb_tokens b)(requestID := None)\<rparr>))"

definition takeSeqLocked :: "'m PairBroker \<Rightarrow> 'm PairBroker" where
  "takeSeqLocked b = b\<lparr>qb_pub := skipSeq (qb_pub b)\<rparr>"

text \<open>The sequence number is taken in any case; the snapshot is emitted only when something was resolved.\<close>

definition ExpireOverdue :: "int \<Rightarrow> 'm PairBroker \<Rightarrow> 'm PairBroker option" where
  "ExpireOverdue now b =
     (case SnapshotQueue (qb_queue b) of
        None \<Rightarrow> None
      | Some items \<Rightarrow>
          let overdue = filter (\<lambda>i. \<not> now < qr_ExpiresAt (reqOf b i)) items;
              b1 = removeEach overdue b
          in
          case (if overdue = [] then Some (takeSeqLocked b1) else publishLocked b1) of
            None \<Rightarrow> None
          | Some b2 \<Rightarrow> sendAll TimedOut overdue b2)"

fun closeEach :: "nat list \<Rightarrow> 'm PairBroker \<Rightarrow> 'm PairBroker" where
  "closeEach [] b = b"
| "closeEach (i # is) b = closeEach is (closePromptLocked (qr_RequestID (reqOf b i)) b)"

definition Shutdown :: "'m PairBroker \<Rightarrow> 'm PairBroker option" where
  "Shutdown b =
     (case ClearQueue (qb_queue b) of
        None \<Rightarrow> None
      | Some (all, q) \<Rightarrow>
          let b1 = closeEach all (b\<lparr>qb_closed := True, qb_queue := q\<rparr>)
          in
          case (if all = [] then Some (takeSeqLocked b1) else publishLocked b1) of
            None \<Rightarrow> None
          | Some b2 \<Rightarrow> sendAll Aborted all b2)"

section \<open>Calls and what they mean\<close>

datatype 'm PairCall =
    PcRequest int int bytes bytes 'm
  | PcApprove bytes int int "ApprovedToken option"
  | PcDeny bytes int int
  | PcCancel bytes
  | PcTake bytes
  | PcExpire int
  | PcShutdown
  | PcDeliver nat

fun pairStep :: "('m PairRequest \<Rightarrow> bytes) \<Rightarrow> 'm PairBroker \<Rightarrow> 'm PairCall \<Rightarrow> 'm PairBroker option" where
  "pairStep title b (PcRequest now1 now2 newID c m) = map_option snd (RequestPairing title now1 now2 newID c m b)"
| "pairStep title b (PcApprove i now1 now2 mint) = map_option snd (Approve i now1 now2 mint b)"
| "pairStep title b (PcDeny i now1 now2) = map_option snd (Deny i now1 now2 b)"
| "pairStep title b (PcCancel i) = CancelRequest i b"
| "pairStep title b (PcTake i) = Some (snd (TakeApprovedToken i b))"
| "pairStep title b (PcExpire now) = ExpireOverdue now b"
| "pairStep title b PcShutdown = Shutdown b"
| "pairStep title b (PcDeliver i) = Some (b\<lparr>qb_pub := deliver i (qb_pub b)\<rparr>)"

definition queued :: "'m PairBroker \<Rightarrow> nat list" where
  "queued b = map snd (pqItems (qb_queue b))"

definition resultOf :: "'m PairBroker \<Rightarrow> nat \<Rightarrow> Outcome list" where
  "resultOf b i = qe_result (qb_heap b ! i)"

definition byID :: "'m PairBroker \<Rightarrow> bytes \<Rightarrow> nat option" where
  "byID b requestID = map_of (pqItems (qb_queue b)) requestID"

text \<open>
  The documented outcome of a call for a request that is waiting: an approval before the deadline approves
  its request (denies it when no token could be minted) and aborts the other requests of the client, a
  denial denies them all, a decision after the deadline and the expiry of an overdue request time it out, a
  cancel and a shutdown abort.  Everything else leaves it waiting.
\<close>

fun decided :: "'m PairBroker \<Rightarrow> bytes \<Rightarrow> int \<Rightarrow> Outcome \<Rightarrow> Outcome \<Rightarrow> nat \<Rightarrow> Outcome option" where
  "decided b requestID now1 own sibling i =
     (case byID b requestID of
        None \<Rightarrow> None
      | Some j \<Rightarrow>
          if now1 < qr_ExpiresAt (reqOf b j) then
            (if i = j then Some own
             else if qr_ClientID (reqOf b i) = qr_ClientID (reqOf b j) then Some sibling else None)
          else if i = j then Some TimedOut else None)"

fun resolution :: "'m PairBroker \<Rightarrow> 'm PairCall \<Rightarrow> nat \<Rightarrow> Outcome option" where
  "resolution b (PcApprove r now1 now2 mint) i = decided b r now1 (if mint = None then Denied else Approved) Aborted i"
| "resolution b (PcDeny r now1 now2) i = decided b r now1 Denied Denied i"
| "resolution b (PcCancel r) i = (if byID b r = Some i then Some Aborted else None)"
| "resolution b (PcExpire now) i = (if qr_ExpiresAt (reqOf b i) \<le> now then Some TimedOut else None)"
| "resolution b PcShutdown i = Some Aborted"
| "resolution b c i = None"

section \<open>The invariant\<close>

definition requestIDs :: "'m PairBroker \<Rightarrow> bytes list" where
  "requestIDs b = map (\<lambda>e. qr_RequestID (qe_req e)) (qb_heap b)"

definition pairOk :: "'m PairBroker \<Rightarrow> bool" where
  "pairOk b \<longleftrightarrow> pqGood (qb_queue b) \<and> distinct (requestIDs b) \<and>
     (\<forall>p\<in>set (pqItems (qb_queue b)). snd p < length (qb_heap b) \<and> fst p = requestIDs b ! snd p) \<and>
     (\<forall>i<length (qb_heap b). if i \<in> set (queued b) then resultOf b i = [] else length (resultOf b i) = 1) \<and>
     (\<forall>r t. qb_tokens b r = Some t \<longrightarrow> (\<exists>i<length (qb_heap b). requestIDs b ! i = r \<and> resultOf b i = [Approved])) \<and>
     (qb_closed b \<longrightarrow> pqItems (qb_queue b) = []) \<and>
     (qc_Prompts (qb_cfg b) \<longrightarrow>
        sinkIDs {} (qb_sink b) = promptID (qc_Kind (qb_cfg b)) ` fst ` set (pqItems (qb_queue b)))"

lemma requestIDs_nth: "i < length (qb_heap b) \<Longrightarrow> requestIDs b ! i = qr_RequestID (reqOf b i)"
  by (simp add: requestIDs_def reqOf_def)

lemma NewPairBroker_ok: "pairOk (NewPairBroker cfg)"
  by (simp add: pairOk_def NewPairBroker_def requestIDs_def queued_def)

section \<open>Sending results\<close>

definition withResults :: "(nat \<Rightarrow> Outcome option) \<Rightarrow> 'm pendingEntry list \<Rightarrow> 'm pendingEntry list" where
  "withResults g h = map (\<lambda>i. case g i of None \<Rightarrow> h ! i | Some x \<Rightarrow> (h ! i)\<lparr>qe_result := [x]\<rparr>) [0..<length h]"

lemma withResults_length [simp]: "length (withResults g h) = length h"
  by (simp add: withResults_def)

lemma withResults_nth: "i < length h \<Longrightarrow>
    withResults g h ! i = (case g i of None \<Rightarrow> h ! i | Some x \<Rightarrow> (h ! i)\<lparr>qe_result := [x]\<rparr>)"
  by (simp add: withResults_def split: option.split)

lemma withResults_req: "map (\<lambda>e. f (qe_req e)) (withResults g h) = map (\<lambda>e. f (qe_req e)) h"
  by (rule nth_equalityI) (auto simp: withResults_nth split: option.splits)

lemma withResults_comp: "withResults g' (withResults g h) = withResults (\<lambda>i. case g' i of Some x \<Rightarrow> Some x | None \<Rightarrow> g i) h"
  by (rule nth_equalityI) (auto simp: withResults_nth split: option.splits)

lemma withResults_id: "withResults (\<lambda>i. None) h = h"
  by (rule nth_equalityI) (auto simp: withResults_nth)

lemma sendResult_eq:
  "i < length (qb_heap b) \<Longrightarrow> resultOf b i = [] \<Longrightarrow>
   sendResult i x b = Some (b\<lparr>qb_heap := withResults (\<lambda>j. if j = i then Some x else None) (qb_heap b)\<rparr>)"
  by (auto simp: sendResult_def resultOf_def withResults_nth nth_list_update intro!: nth_equalityI
      arg_cong [of _ _ "\<lambda>h. b\<lparr>qb_heap := h\<rparr>"])

lemma resultOf_update [simp]: "resultOf (b\<lparr>qb_heap := h\<rparr>) i = qe_result (h ! i)"
  by (simp add: resultOf_def)

lemma sendAll_eq:
  "distinct is \<Longrightarrow> (\<And>i. i \<in> set is \<Longrightarrow> i < length (qb_heap b) \<and> resultOf b i = []) \<Longrightarrow>
   sendAll x is b = Some (b\<lparr>qb_heap := withResults (\<lambda>j. if j \<in> set is then Some x else None) (qb_heap b)\<rparr>)"
proof (induction "is" arbitrary: b)
  case (Cons i "is")
  let ?g = "\<lambda>j. if j = i then Some x else None"
  let ?b = "b\<lparr>qb_heap := withResults ?g (qb_heap b)\<rparr>"
  have "sendResult i x b = Some ?b" using Cons.prems by (intro sendResult_eq) auto
  moreover have "sendAll x is ?b = Some (?b\<lparr>qb_heap := withResults (\<lambda>j. if j \<in> set is then Some x else None) (qb_heap ?b)\<rparr>)"
    using Cons.prems by (intro Cons.IH) (auto simp: withResults_nth resultOf_def)
  moreover have "withResults (\<lambda>j. if j \<in> set is then Some x else None) (withResults ?g (qb_heap b)) =
      withResults (\<lambda>j. if j \<in> set (i # is) then Some x else None) (qb_heap b)"
    unfolding withResults_comp by (rule arg_cong [of _ _ "\<lambda>g. withResults g (qb_heap b)"]) auto
  ultimately show ?case by simp
qed (simp add: withResults_id)

section \<open>Taking requests out of the queue\<close>

definition linkOk :: "'m PairBroker \<Rightarrow> bool" where
  "linkOk b \<longleftrightarrow> pqGood (qb_queue b) \<and> distinct (requestIDs b) \<and>
     (\<forall>p\<in>set (pqItems (qb_queue b)). snd p < length (qb_heap b) \<and> fst p = requestIDs b ! snd p)"

lemma pairOk_link: "pairOk b \<Longrightarrow> linkOk b"
  by (simp add: pairOk_def linkOk_def)

lemma linkOk_key:
  assumes "linkOk b" and "p \<in> set (pqItems (qb_queue b))" and "i < length (qb_heap b)"
  shows "fst p = qr_RequestID (reqOf b i) \<longleftrightarrow> snd p = i"
proof -
  have "snd p < length (requestIDs b)" "i < length (requestIDs b)" "distinct (requestIDs b)"
    using assms by (auto simp: linkOk_def requestIDs_def)
  then have "requestIDs b ! snd p = requestIDs b ! i \<longleftrightarrow> snd p = i" by (simp add: nth_eq_iff_index_eq)
  then show ?thesis using assms by (simp add: linkOk_def requestIDs_nth)
qed

lemma RemoveQueue_ref:
  assumes "linkOk b" and "i < length (qb_heap b)"
  shows "pqItems (snd (RemoveQueue (qr_RequestID (reqOf b i)) (qb_queue b))) = filter (\<lambda>p. snd p \<noteq> i) (pqItems (qb_queue b))"
proof -
  have "pqGood (qb_queue b)" using assms(1) by (simp add: linkOk_def)
  moreover have "filter (\<lambda>p. fst p \<noteq> qr_RequestID (reqOf b i)) (pqItems (qb_queue b)) =
      filter (\<lambda>p. snd p \<noteq> i) (pqItems (qb_queue b))"
    using linkOk_key [OF assms(1) _ assms(2)] by (intro filter_cong) auto
  ultimately show ?thesis by (simp add: pq.remove_items)
qed

definition closes :: "'m PairBroker \<Rightarrow> nat list \<Rightarrow> SinkCall list" where
  "closes b is =
     (if qc_Prompts (qb_cfg b) then map (\<lambda>i. SinkClose (promptID (qc_Kind (qb_cfg b)) (qr_RequestID (reqOf b i)))) is else [])"

lemma reqOf_update [simp]:
  "reqOf (b\<lparr>qb_queue := q\<rparr>) i = reqOf b i" "reqOf (b\<lparr>qb_sink := s\<rparr>) i = reqOf b i"
  "reqOf (b\<lparr>qb_closed := c\<rparr>) i = reqOf b i" "reqOf (b\<lparr>qb_pub := p\<rparr>) i = reqOf b i"
  "reqOf (b\<lparr>qb_cooldown := d\<rparr>) i = reqOf b i" "reqOf (b\<lparr>qb_tokens := t\<rparr>) i = reqOf b i"
  by (simp_all add: reqOf_def)

lemma requestIDs_update [simp]:
  "requestIDs (b\<lparr>qb_queue := q\<rparr>) = requestIDs b" "requestIDs (b\<lparr>qb_sink := s\<rparr>) = requestIDs b"
  by (simp_all add: requestIDs_def)

lemma removeEach_eq:
  assumes "linkOk b" and "set is \<subseteq> {..<length (qb_heap b)}"
  shows "\<exists>q. removeEach is b = b\<lparr>qb_queue := q, qb_sink := qb_sink b @ closes b is\<rparr> \<and> pqGood q \<and>
    pqItems q = filter (\<lambda>p. snd p \<notin> set is) (pqItems (qb_queue b))"
  using assms
proof (induction "is" arbitrary: b)
  case Nil
  then show ?case by (auto simp: closes_def linkOk_def intro!: exI [of _ "qb_queue b"])
next
  case (Cons i "is")
  let ?q = "snd (RemoveQueue (qr_RequestID (reqOf b i)) (qb_queue b))"
  let ?b = "closePromptLocked (qr_RequestID (reqOf b i)) (b\<lparr>qb_queue := ?q\<rparr>)"
  have b: "?b = b\<lparr>qb_queue := ?q, qb_sink := qb_sink b @ closes b [i]\<rparr>"
    by (simp add: closePromptLocked_def closes_def)
  have items: "pqItems ?q = filter (\<lambda>p. snd p \<noteq> i) (pqItems (qb_queue b))"
    using Cons.prems by (intro RemoveQueue_ref) auto
  have good: "pqGood ?q" using Cons.prems(1) by (simp add: linkOk_def pq.remove_good)
  have "linkOk ?b" using Cons.prems(1) good items by (auto simp: linkOk_def b)
  moreover have "set is \<subseteq> {..<length (qb_heap ?b)}" using Cons.prems(2) by (simp add: b)
  ultimately obtain q where "removeEach is ?b = ?b\<lparr>qb_queue := q, qb_sink := qb_sink ?b @ closes ?b is\<rparr>" "pqGood q"
    "pqItems q = filter (\<lambda>p. snd p \<notin> set is) (pqItems (qb_queue ?b))"
    using Cons.IH by blast
  then show ?case by (intro exI [of _ q]) (simp add: b items closes_def)
qed

lemma closeEach_eq: "closeEach is b = b\<lparr>qb_sink := qb_sink b @ closes b is\<rparr>"
proof (induction "is" arbitrary: b)
  case (Cons i "is")
  have "closePromptLocked (qr_RequestID (reqOf b i)) b = b\<lparr>qb_sink := qb_sink b @ closes b [i]\<rparr>"
    by (simp add: closePromptLocked_def closes_def)
  then show ?case using Cons by (simp add: closes_def)
qed (simp add: closes_def)

lemma sinkIDs_closes:
  "qc_Prompts (qb_cfg b) \<Longrightarrow>
   sinkIDs S (closes b is) = S - (\<lambda>i. promptID (qc_Kind (qb_cfg b)) (qr_RequestID (reqOf b i))) ` set is"
proof (induction "is" arbitrary: S)
  case (Cons i "is")
  then show ?case by (simp add: closes_def) blast
qed (simp add: closes_def)

section \<open>Settling requests\<close>

text \<open>
  \<open>settled g b b'\<close>: the waiting requests for which \<open>g\<close> has an outcome have been given it, taken out of the
  queue and their prompts withdrawn; nothing else has happened to any request.
\<close>

definition settled :: "(nat \<Rightarrow> Outcome option) \<Rightarrow> 'm PairBroker \<Rightarrow> 'm PairBroker \<Rightarrow> bool" where
  "settled g b b' \<longleftrightarrow> qb_cfg b' = qb_cfg b \<and> qb_heap b' = withResults g (qb_heap b) \<and>
     (\<forall>i. g i \<noteq> None \<longrightarrow> i \<in> set (queued b)) \<and> pqGood (qb_queue b') \<and>
     pqItems (qb_queue b') = filter (\<lambda>p. g (snd p) = None) (pqItems (qb_queue b)) \<and>
     (qc_Prompts (qb_cfg b) \<longrightarrow> sinkIDs {} (qb_sink b') =
        sinkIDs {} (qb_sink b) - (\<lambda>i. promptID (qc_Kind (qb_cfg b)) (requestIDs b ! i)) ` {i. g i \<noteq> None})"

lemma promptID_inject [simp]: "promptID k a = promptID k c \<longleftrightarrow> a = c"
  by (simp add: promptID_def)

lemma queued_less: "linkOk b \<Longrightarrow> i \<in> set (queued b) \<Longrightarrow> i < length (qb_heap b)"
  by (auto simp: linkOk_def queued_def)

lemma prompts_left:
  assumes link: "linkOk b" and dom: "\<And>i. g i \<noteq> None \<Longrightarrow> i \<in> set (queued b)"
  shows "promptID K ` fst ` set (pqItems (qb_queue b)) - (\<lambda>i. promptID K (requestIDs b ! i)) ` {i. g i \<noteq> None} =
    promptID K ` fst ` {p \<in> set (pqItems (qb_queue b)). g (snd p) = None}"
proof (intro equalityI subsetI)
  fix x assume "x \<in> promptID K ` fst ` {p \<in> set (pqItems (qb_queue b)). g (snd p) = None}"
  then obtain p where p: "p \<in> set (pqItems (qb_queue b))" "g (snd p) = None" "x = promptID K (fst p)" by auto
  have "requestIDs b ! i \<noteq> fst p" if "g i \<noteq> None" for i
  proof -
    have "i < length (qb_heap b)" using queued_less [OF link dom [OF that]] .
    then have "fst p = requestIDs b ! i \<longleftrightarrow> snd p = i" using linkOk_key [OF link p(1)] by (simp add: requestIDs_nth)
    then show ?thesis using p(2) that by auto
  qed
  then show "x \<in> promptID K ` fst ` set (pqItems (qb_queue b)) - (\<lambda>i. promptID K (requestIDs b ! i)) ` {i. g i \<noteq> None}"
    using p by fastforce
next
  fix x assume x: "x \<in> promptID K ` fst ` set (pqItems (qb_queue b)) - (\<lambda>i. promptID K (requestIDs b ! i)) ` {i. g i \<noteq> None}"
  then obtain p where p: "p \<in> set (pqItems (qb_queue b))" "x = promptID K (fst p)" by blast
  then have "fst p = requestIDs b ! snd p" using link by (simp add: linkOk_def)
  then have "g (snd p) = None" using x p(2) image_eqI [of x "\<lambda>i. promptID K (requestIDs b ! i)" "snd p"] by auto
  then show "x \<in> promptID K ` fst ` {p \<in> set (pqItems (qb_queue b)). g (snd p) = None}" using p by blast
qed

lemma settled_ok:
  assumes b: "pairOk b" and s: "settled g b b'"
    and tok: "\<And>r t. qb_tokens b' r = Some t \<Longrightarrow>
      qb_tokens b r = Some t \<or> (\<exists>i<length (qb_heap b). requestIDs b ! i = r \<and> g i = Some Approved)"
    and cl: "qb_closed b' \<Longrightarrow> pqItems (qb_queue b') = []"
  shows "pairOk b'"
proof -
  have ids: "requestIDs b' = requestIDs b" using s by (simp add: settled_def requestIDs_def withResults_req)
  have len: "length (qb_heap b') = length (qb_heap b)" using s by (simp add: settled_def)
  have res: "resultOf b' i = (case g i of None \<Rightarrow> resultOf b i | Some x \<Rightarrow> [x])" if "i < length (qb_heap b)" for i
    using s that by (auto simp: settled_def resultOf_def withResults_nth split: option.splits)
  have qd: "i \<in> set (queued b') \<longleftrightarrow> i \<in> set (queued b) \<and> g i = None" for i
    using s by (auto simp: settled_def queued_def)
  have "if i \<in> set (queued b') then resultOf b' i = [] else length (resultOf b' i) = 1" if "i < length (qb_heap b')" for i
    using b that s qd [of i] res [of i] len by (auto simp: pairOk_def settled_def split: option.splits if_splits)
  moreover have "\<exists>i<length (qb_heap b'). requestIDs b' ! i = r \<and> resultOf b' i = [Approved]" if t: "qb_tokens b' r = Some t" for r t
    using tok [OF t]
  proof
    assume "qb_tokens b r = Some t"
    then obtain i where i: "i < length (qb_heap b)" "requestIDs b ! i = r" "resultOf b i = [Approved]"
      using b by (auto simp: pairOk_def)
    then have "i \<notin> set (queued b)" using b by (auto simp: pairOk_def)
    then have "g i = None" using s by (auto simp: settled_def)
    then show ?thesis using i ids len res by auto
  qed (use ids len res in auto)
  moreover have "sinkIDs {} (qb_sink b') = promptID (qc_Kind (qb_cfg b')) ` fst ` set (pqItems (qb_queue b'))"
    if "qc_Prompts (qb_cfg b')"
    using b s that prompts_left [OF pairOk_link [OF b], of g] by (simp add: pairOk_def settled_def)
  ultimately show ?thesis using b s ids len cl by (auto simp: pairOk_def settled_def)
qed

section \<open>What is published\<close>

definition pairView :: "'m PairBroker \<Rightarrow> 'm PairSnapshot" where
  "pairView b =
     (case queued b of
        [] \<Rightarrow> \<lparr>qs_Pending = None, qs_Queued = 0\<rparr>
      | i # _ \<Rightarrow> \<lparr>qs_Pending = Some (reqOf b i), qs_Queued = length (queued b)\<rparr>)"

lemma publishLocked_eq: "pqGood (qb_queue b) \<Longrightarrow> publishLocked b = Some (b\<lparr>qb_pub := publish (pairView b) (qb_pub b)\<rparr>)"
  by (simp add: publishLocked_def snapshotLocked_def pairView_def pq.entries_eq queued_def split: list.split)

lemma pairView_cong:
  "pqItems (qb_queue b') = pqItems (qb_queue b) \<Longrightarrow> (\<And>i. i \<in> set (queued b) \<Longrightarrow> reqOf b' i = reqOf b i) \<Longrightarrow>
   pairView b' = pairView b"
  by (auto simp: pairView_def queued_def split: list.splits)

lemma queued_update [simp]:
  "queued (b\<lparr>qb_sink := s\<rparr>) = queued b" "queued (b\<lparr>qb_pub := p\<rparr>) = queued b" "queued (b\<lparr>qb_heap := h\<rparr>) = queued b"
  "queued (b\<lparr>qb_cooldown := d\<rparr>) = queued b" "queued (b\<lparr>qb_tokens := t\<rparr>) = queued b" "queued (b\<lparr>qb_closed := c\<rparr>) = queued b"
  by (simp_all add: queued_def)

lemma withResults_reqOf: "i < length (qb_heap b) \<Longrightarrow> reqOf (b\<lparr>qb_heap := withResults g (qb_heap b)\<rparr>) i = reqOf b i"
  by (auto simp: reqOf_def withResults_nth split: option.splits)

text \<open>The common tail of every resolving method: the queue without \<open>js\<close>, one publication, one send each.\<close>

lemma settle_tail:
  assumes b: "pairOk b" and q: "pqGood (qb_queue b1)" "pqItems (qb_queue b1) = filter (\<lambda>p. g (snd p) = None) (pqItems (qb_queue b))"
    and dom: "\<And>i. g i \<noteq> None \<Longrightarrow> i \<in> set (queued b)" and js: "set js = {i. g i \<noteq> None}"
    and b1: "qb_heap b1 = qb_heap b" "qb_cfg b1 = qb_cfg b" "qb_sink b1 = qb_sink b @ closes b js"
    and b2: "b2 = b1\<lparr>qb_pub := p, qb_heap := withResults g (qb_heap b)\<rparr>"
  shows "settled g b b2 \<and> pairView b2 = pairView b1"
proof -
  have ids: "requestIDs b ! i = qr_RequestID (reqOf b i)" if "g i \<noteq> None" for i
    using queued_less [OF pairOk_link [OF b] dom [OF that]] by (rule requestIDs_nth)
  have "sinkIDs {} (qb_sink b2) =
      sinkIDs {} (qb_sink b) - (\<lambda>i. promptID (qc_Kind (qb_cfg b)) (requestIDs b ! i)) ` {i. g i \<noteq> None}"
    if "qc_Prompts (qb_cfg b)"
  proof -
    have "(\<lambda>i. promptID K (qr_RequestID (reqOf b i))) ` {i. g i \<noteq> None} = (\<lambda>i. promptID K (requestIDs b ! i)) ` {i. g i \<noteq> None}" for K
      using ids by (intro image_cong) auto
    then show ?thesis using that js by (simp add: b1 b2 sinkIDs_append sinkIDs_closes)
  qed
  then have "settled g b b2" using q dom by (simp add: settled_def b1 b2)
  moreover have "pairView b2 = pairView b1"
  proof (rule pairView_cong)
    fix i assume "i \<in> set (queued b1)"
    then have "i \<in> set (queued b)" using q(2) by (auto simp: queued_def b1)
    then show "reqOf b2 i = reqOf b1 i"
      using queued_less [OF pairOk_link [OF b]] by (simp add: b1 b2 reqOf_def withResults_nth split: option.split)
  qed (simp add: b2)
  ultimately show ?thesis by simp
qed

lemma settled_refl: "pqGood (qb_queue b) \<Longrightarrow> settled (\<lambda>i. None) b b"
  by (simp add: settled_def withResults_id)

section \<open>Each call settles what it should\<close>

definition effect :: "'m PairBroker \<Rightarrow> 'm PairCall \<Rightarrow> nat \<Rightarrow> Outcome option" where
  "effect b c i = (if i \<in> set (queued b) then resolution b c i else None)"

fun tokensAfter :: "'m PairBroker \<Rightarrow> 'm PairCall \<Rightarrow> bytes \<rightharpoonup> ApprovedToken" where
  "tokensAfter b (PcApprove r now1 now2 mint) =
     (case (byID b r, mint) of
        (Some j, Some t) \<Rightarrow> if now1 < qr_ExpiresAt (reqOf b j) then (qb_tokens b)(r \<mapsto> t) else qb_tokens b
      | _ \<Rightarrow> qb_tokens b)"
| "tokensAfter b (PcTake r) = (qb_tokens b)(r := None)"
| "tokensAfter b c = qb_tokens b"

fun cooldownAfter :: "'m PairBroker \<Rightarrow> 'm PairCall \<Rightarrow> bytes \<rightharpoonup> int" where
  "cooldownAfter b (PcDeny r now1 now2) =
     (case byID b r of
        Some j \<Rightarrow> if now1 < qr_ExpiresAt (reqOf b j)
                  then (qb_cooldown b)(qr_ClientID (reqOf b j) \<mapsto> now2 + qc_Cooldown (qb_cfg b)) else qb_cooldown b
      | None \<Rightarrow> qb_cooldown b)"
| "cooldownAfter b c = qb_cooldown b"

definition stepSpec :: "'m PairBroker \<Rightarrow> 'm PairCall \<Rightarrow> 'm PairBroker \<Rightarrow> bool" where
  "stepSpec b c b' \<longleftrightarrow> settled (effect b c) b b' \<and> pubMove (pairView b) (pairView b') (qb_pub b) (qb_pub b') \<and>
     qb_tokens b' = tokensAfter b c \<and> qb_cooldown b' = cooldownAfter b c \<and> qb_closed b' = (qb_closed b \<or> c = PcShutdown)"

lemma byID_queued:
  assumes "linkOk b" and "byID b r = Some i"
  shows "i \<in> set (queued b) \<and> i < length (qb_heap b) \<and> qr_RequestID (reqOf b i) = r"
proof -
  have p: "(r, i) \<in> set (pqItems (qb_queue b))" using assms(2) by (simp add: byID_def map_of_SomeD)
  then have "i < length (qb_heap b) \<and> r = requestIDs b ! i" using assms(1) by (auto simp: linkOk_def dest: bspec)
  moreover have "i \<in> set (queued b)" using imageI [OF p, of snd] by (simp add: queued_def)
  ultimately show ?thesis by (simp add: requestIDs_nth)
qed

lemma RemoveQueue_byID: "linkOk b \<Longrightarrow> fst (RemoveQueue r (qb_queue b)) = byID b r"
  by (simp add: byID_def linkOk_def pq.remove_fst)

lemma waiting:
  assumes "pairOk b" and "i \<in> set (queued b)"
  shows "i < length (qb_heap b) \<and> resultOf b i = []"
proof -
  have "i < length (qb_heap b)" by (rule queued_less [OF pairOk_link [OF assms(1)] assms(2)])
  moreover have "\<forall>i<length (qb_heap b). if i \<in> set (queued b) then resultOf b i = [] else length (resultOf b i) = 1"
    using assms(1) by (simp add: pairOk_def)
  ultimately show ?thesis using assms(2) by auto
qed

lemma queued_distinct: "linkOk b \<Longrightarrow> distinct (queued b)"
proof -
  assume b: "linkOk b"
  then have "distinct (map fst (pqItems (qb_queue b)))" by (simp add: linkOk_def pq.good_distinct)
  moreover have "map fst (pqItems (qb_queue b)) = map (\<lambda>i. requestIDs b ! i) (queued b)"
    using b by (simp add: linkOk_def queued_def)
  ultimately show ?thesis by (metis distinct_map)
qed

lemma resultOf_keep [simp]:
  "resultOf (b\<lparr>qb_queue := q\<rparr>) i = resultOf b i" "resultOf (b\<lparr>qb_sink := s\<rparr>) i = resultOf b i"
  "resultOf (b\<lparr>qb_closed := c\<rparr>) i = resultOf b i" "resultOf (b\<lparr>qb_pub := p\<rparr>) i = resultOf b i"
  "resultOf (b\<lparr>qb_cooldown := d\<rparr>) i = resultOf b i" "resultOf (b\<lparr>qb_tokens := t\<rparr>) i = resultOf b i"
  by (simp_all add: resultOf_def)

text \<open>
  The shape of a method that settles the requests \<open>js\<close> with the outcomes of \<open>g\<close>: it leaves the critical
  section with the state \<open>b1\<close>, publishes its view and sends the results.
\<close>

definition leaves :: "(nat \<Rightarrow> Outcome option) \<Rightarrow> nat list \<Rightarrow> 'm PairBroker \<Rightarrow> 'm PairBroker \<Rightarrow> bool" where
  "leaves g js b b1 \<longleftrightarrow> pqGood (qb_queue b1) \<and> pqItems (qb_queue b1) = filter (\<lambda>p. g (snd p) = None) (pqItems (qb_queue b)) \<and>
     (\<forall>i. g i \<noteq> None \<longrightarrow> i \<in> set (queued b)) \<and> set js = {i. g i \<noteq> None} \<and>
     qb_heap b1 = qb_heap b \<and> qb_cfg b1 = qb_cfg b \<and> qb_pub b1 = qb_pub b \<and> qb_sink b1 = qb_sink b @ closes b js"

definition settledState :: "(nat \<Rightarrow> Outcome option) \<Rightarrow> 'm PairBroker \<Rightarrow> 'm PairBroker" where
  "settledState g b1 = b1\<lparr>qb_pub := publish (pairView b1) (qb_pub b1), qb_heap := withResults g (qb_heap b1)\<rparr>"

lemma settledState_spec:
  assumes "pairOk b" and "leaves g js b b1" and "effect b c = g"
    and "qb_tokens b1 = tokensAfter b c" and "qb_cooldown b1 = cooldownAfter b c"
    and "qb_closed b1 = (qb_closed b \<or> c = PcShutdown)"
  shows "stepSpec b c (settledState g b1)"
proof -
  have s: "settled g b (settledState g b1) \<and> pairView (settledState g b1) = pairView b1"
    using assms(1,2) by (intro settle_tail [where js = js]) (auto simp: leaves_def settledState_def)
  moreover have "pubMove (pairView b) (pairView (settledState g b1)) (qb_pub b) (qb_pub (settledState g b1))"
  proof -
    have "qb_pub (settledState g b1) = publish (pairView (settledState g b1)) (qb_pub b)"
      using assms(2) s by (simp add: leaves_def settledState_def)
    then show ?thesis using pubMove.published by metis
  qed
  ultimately show ?thesis using assms(3-6) by (simp add: stepSpec_def settledState_def)
qed

lemma publish_leaves: "leaves g js b b1 \<Longrightarrow> publishLocked b1 = Some (b1\<lparr>qb_pub := publish (pairView b1) (qb_pub b1)\<rparr>)"
  by (simp add: leaves_def publishLocked_eq)

lemma leaves_waiting:
  "pairOk b \<Longrightarrow> leaves g js b b1 \<Longrightarrow> i \<in> set js \<Longrightarrow> i < length (qb_heap b1) \<and> resultOf b1 i = []"
  using waiting [of b i] by (simp add: leaves_def resultOf_def)

text \<open>Taking one request out of the queue.\<close>

lemma take_out:
  assumes "linkOk b" and "byID b r = Some i" and "g = (\<lambda>j. if j = i then Some x else None)"
  shows "leaves g [i] b (closePromptLocked r (b\<lparr>qb_queue := snd (RemoveQueue r (qb_queue b))\<rparr>))"
proof -
  note i = byID_queued [OF assms(1,2)]
  let ?q = "snd (RemoveQueue r (qb_queue b))"
  have "pqGood ?q" "pqItems ?q = filter (\<lambda>p. g (snd p) = None) (pqItems (qb_queue b))"
    using RemoveQueue_ref [OF assms(1), of i] i assms(1)
    by (auto simp: linkOk_def pq.remove_good assms(3) intro: filter_cong)
  then show ?thesis using i by (auto simp: leaves_def closePromptLocked_def closes_def assms(3))
qed

lemma Cancel_spec:
  assumes b: "pairOk b"
  shows "\<exists>b'. CancelRequest r b = Some b' \<and> stepSpec b (PcCancel r) b'"
proof (cases "byID b r")
  case None
  then have "effect b (PcCancel r) = (\<lambda>i. None)" by (auto simp: effect_def)
  moreover have "CancelRequest r b = Some b"
    using None RemoveQueue_byID [OF pairOk_link [OF b], of r] by (simp add: CancelRequest_def case_prod_beta)
  ultimately show ?thesis
    using b by (auto simp: stepSpec_def pairOk_def intro: settled_refl pubMove.quiet)
next
  case (Some i)
  note link = pairOk_link [OF b]
  define g where "g = (\<lambda>j. if j = i then Some Aborted else None)"
  define b1 where "b1 = closePromptLocked r (b\<lparr>qb_queue := snd (RemoveQueue r (qb_queue b))\<rparr>)"
  have lv: "leaves g [i] b b1" unfolding b1_def by (rule take_out [OF link Some g_def])
  have "CancelRequest r b = sendResult i Aborted (b1\<lparr>qb_pub := publish (pairView b1) (qb_pub b1)\<rparr>)"
    using Some RemoveQueue_byID [OF link, of r] publish_leaves [OF lv]
    by (simp add: CancelRequest_def case_prod_beta b1_def [symmetric])
  also have "\<dots> = Some (settledState g b1)"
    using leaves_waiting [OF b lv] by (subst sendResult_eq) (auto simp: settledState_def g_def)
  finally have "CancelRequest r b = Some (settledState g b1)" .
  moreover have "effect b (PcCancel r) = g" using Some byID_queued [OF link Some] by (auto simp: effect_def g_def)
  moreover have "qb_tokens b1 = qb_tokens b" "qb_cooldown b1 = qb_cooldown b" "qb_closed b1 = qb_closed b"
    by (simp_all add: b1_def closePromptLocked_def)
  ultimately show ?thesis using settledState_spec [OF b lv] by auto
qed

lemma SnapshotQueue_queued: "linkOk b \<Longrightarrow> SnapshotQueue (qb_queue b) = Some (queued b)"
  by (simp add: linkOk_def pq.entries_eq queued_def)

lemma removeEach_leaves:
  assumes "linkOk b" and "set js \<subseteq> set (queued b)" and "g = (\<lambda>i. if i \<in> set js then Some x else None)"
  shows "leaves g js b (removeEach js b) \<and> qb_tokens (removeEach js b) = qb_tokens b \<and>
    qb_cooldown (removeEach js b) = qb_cooldown b \<and> qb_closed (removeEach js b) = qb_closed b"
proof -
  have "set js \<subseteq> {..<length (qb_heap b)}" using assms(2) queued_less [OF assms(1)] by blast
  then obtain q where "removeEach js b = b\<lparr>qb_queue := q, qb_sink := qb_sink b @ closes b js\<rparr>" "pqGood q"
    "pqItems q = filter (\<lambda>p. snd p \<notin> set js) (pqItems (qb_queue b))"
    using removeEach_eq [OF assms(1)] by blast
  then show ?thesis using assms(2) by (auto simp: leaves_def assms(3) intro: filter_cong)
qed

lemma send_leaves:
  assumes "pairOk b" and "leaves g js b b1" and "distinct js" and "g = (\<lambda>i. if i \<in> set js then Some x else None)"
  shows "sendAll x js (b1\<lparr>qb_pub := publish (pairView b1) (qb_pub b1)\<rparr>) = Some (settledState g b1)"
  using leaves_waiting [OF assms(1,2)] assms(3) by (subst sendAll_eq) (auto simp: settledState_def assms(4))

lemma skip_spec:
  assumes b: "pairOk b" and "effect b c = (\<lambda>i. None)" and "b' = takeSeqLocked b1" and "qb_queue b1 = q" and "pqGood q" and "pqItems q = pqItems (qb_queue b)"
    and "b1 = b\<lparr>qb_closed := qb_closed b \<or> c = PcShutdown, qb_queue := q\<rparr>"
    and "tokensAfter b c = qb_tokens b" and "cooldownAfter b c = qb_cooldown b"
  shows "stepSpec b c b'"
proof -
  have b': "b' = b\<lparr>qb_closed := qb_closed b \<or> c = PcShutdown, qb_queue := q, qb_pub := skipSeq (qb_pub b)\<rparr>"
    by (simp add: assms(3,7) takeSeqLocked_def)
  have "pairView b' = pairView b" by (rule pairView_cong) (simp_all add: b' assms(6))
  moreover have "settled (\<lambda>i. None) b b'"
    using settled_refl [of b] b assms(5,6) by (simp add: pairOk_def settled_def b')
  ultimately show ?thesis
    using assms(2,8,9) pubMove.skipped [of "pairView b" "qb_pub b"] by (simp add: stepSpec_def b')
qed

lemma Expire_spec:
  assumes b: "pairOk b"
  shows "\<exists>b'. ExpireOverdue now b = Some b' \<and> stepSpec b (PcExpire now) b'"
proof -
  note link = pairOk_link [OF b]
  define js where "js = filter (\<lambda>i. \<not> now < qr_ExpiresAt (reqOf b i)) (queued b)"
  define g where "g = (\<lambda>i. if i \<in> set js then Some TimedOut else None)"
  have eff: "effect b (PcExpire now) = g" by (auto simp: effect_def g_def js_def)
  have "set js \<subseteq> set (queued b)" by (auto simp: js_def)
  note lv = removeEach_leaves [OF link this g_def]
  show ?thesis
  proof (cases "js = []")
    case True
    then have "ExpireOverdue now b = Some (takeSeqLocked b)"
      by (simp add: ExpireOverdue_def SnapshotQueue_queued [OF link] js_def [symmetric] Let_def)
    moreover have "stepSpec b (PcExpire now) (takeSeqLocked b)"
      by (rule skip_spec [OF b _ refl refl]) (use eff True b in \<open>simp_all add: g_def pairOk_def\<close>)
    ultimately show ?thesis by blast
  next
    case False
    have "distinct js" using queued_distinct [OF link] by (simp add: js_def)
    then have "ExpireOverdue now b = Some (settledState g (removeEach js b))"
      using False publish_leaves [OF conjunct1 [OF lv]] send_leaves [OF b conjunct1 [OF lv] _ g_def]
      by (simp add: ExpireOverdue_def SnapshotQueue_queued [OF link] js_def [symmetric] Let_def)
    moreover have "stepSpec b (PcExpire now) (settledState g (removeEach js b))"
      by (rule settledState_spec [OF b conjunct1 [OF lv] eff]) (use lv in simp_all)
    ultimately show ?thesis by blast
  qed
qed

lemma Shutdown_spec:
  assumes b: "pairOk b"
  shows "\<exists>b'. Shutdown b = Some b' \<and> stepSpec b PcShutdown b'"
proof -
  note link = pairOk_link [OF b]
  obtain q where q: "ClearQueue (qb_queue b) = Some (queued b, q)" "pqGood q" "pqItems q = []"
    using ClearQueue_eq [of "qb_queue b"] b by (auto simp: pairOk_def queued_def)
  define g where "g = (\<lambda>i. if i \<in> set (queued b) then Some Aborted else None)"
  define b1 where "b1 = closeEach (queued b) (b\<lparr>qb_closed := True, qb_queue := q\<rparr>)"
  have eff: "effect b PcShutdown = g" by (auto simp: effect_def g_def)
  have b1': "b1 = b\<lparr>qb_closed := True, qb_queue := q, qb_sink := qb_sink b @ closes b (queued b)\<rparr>"
    unfolding b1_def closeEach_eq by (simp add: closes_def)
  have "filter (\<lambda>p. g (snd p) = None) (pqItems (qb_queue b)) = []"
    by (auto simp: filter_empty_conv g_def queued_def)
  then have lv: "leaves g (queued b) b b1" using q by (auto simp: leaves_def b1' g_def)
  show ?thesis
  proof (cases "queued b = []")
    case True
    then have "Shutdown b = Some (takeSeqLocked b1)" using q by (simp add: Shutdown_def b1_def Let_def)
    moreover have "stepSpec b PcShutdown (takeSeqLocked b1)"
      by (rule skip_spec [OF b _ refl, where q = q]) (use eff True q in \<open>simp_all add: g_def b1' closes_def queued_def\<close>)
    ultimately show ?thesis by blast
  next
    case False
    then have "Shutdown b = Some (settledState g b1)"
      using q publish_leaves [OF lv] send_leaves [OF b lv queued_distinct [OF link] g_def]
      by (simp add: Shutdown_def b1_def [symmetric] Let_def)
    moreover have "stepSpec b PcShutdown (settledState g b1)"
      by (rule settledState_spec [OF b lv eff]) (simp_all add: b1')
    ultimately show ?thesis by blast
  qed
qed

lemma leaves_link: "linkOk b \<Longrightarrow> leaves g js b b1 \<Longrightarrow> linkOk b1"
  by (auto simp: linkOk_def leaves_def requestIDs_def)

text \<open>A decision in time: the request itself, then every other request of its client.\<close>

definition siblings :: "'m PairBroker \<Rightarrow> nat \<Rightarrow> nat list" where
  "siblings b i = filter (\<lambda>j. j \<noteq> i \<and> qr_ClientID (reqOf b j) = qr_ClientID (reqOf b i)) (queued b)"

lemma take_out_all:
  assumes "linkOk b" and "byID b r = Some i"
    and "b1 = closePromptLocked r (b\<lparr>qb_queue := snd (RemoveQueue r (qb_queue b))\<rparr>)"
    and g: "g = (\<lambda>j. if j = i then Some own else if j \<in> set (siblings b i) then Some sib else None)"
  shows "\<exists>b2. removeAllForClientLocked (qr_ClientID (reqOf b i)) b1 = Some (siblings b i, b2) \<and>
    leaves g (i # siblings b i) b b2 \<and> qb_tokens b2 = qb_tokens b \<and> qb_cooldown b2 = qb_cooldown b \<and> qb_closed b2 = qb_closed b"
proof -
  have l1: "leaves (\<lambda>j. if j = i then Some own else None) [i] b b1"
    unfolding assms(3) by (rule take_out [OF assms(1,2) refl])
  then have link1: "linkOk b1" by (rule leaves_link [OF assms(1)])
  have q1: "queued b1 = filter (\<lambda>j. j \<noteq> i) (queued b)"
    using l1 by (simp add: leaves_def queued_def filter_map comp_def)
  have r1: "reqOf b1 j = reqOf b j" for j using l1 by (simp add: leaves_def reqOf_def)
  have sib: "filter (\<lambda>j. qr_ClientID (reqOf b1 j) = qr_ClientID (reqOf b i)) (queued b1) = siblings b i"
    by (auto simp: q1 r1 siblings_def intro: filter_cong)
  have "set (siblings b i) \<subseteq> set (queued b1)" by (auto simp: siblings_def q1)
  note l2 = removeEach_leaves [OF link1 this refl, where x = sib]
  let ?b2 = "removeEach (siblings b i) b1"
  have "leaves g (i # siblings b i) b ?b2"
  proof -
    have "pqItems (qb_queue b1) = filter (\<lambda>p. snd p \<noteq> i) (pqItems (qb_queue b))"
      using l1 by (auto simp: leaves_def intro: filter_cong)
    moreover have "pqItems (qb_queue ?b2) = filter (\<lambda>p. snd p \<notin> set (siblings b i)) (pqItems (qb_queue b1))"
      using l2 by (auto simp: leaves_def intro: filter_cong)
    ultimately have "pqItems (qb_queue ?b2) = filter (\<lambda>p. g (snd p) = None) (pqItems (qb_queue b))"
      by (auto simp: g intro: filter_cong)
    moreover have "closes b1 js = closes b js" for js using l1 r1 by (simp add: closes_def leaves_def)
    moreover have "i \<in> set (queued b)" "set (siblings b i) \<subseteq> set (queued b)"
      using byID_queued [OF assms(1,2)] by (auto simp: siblings_def)
    ultimately show ?thesis using l1 l2 by (auto simp: leaves_def g closes_def)
  qed
  moreover have "qb_tokens b1 = qb_tokens b" "qb_cooldown b1 = qb_cooldown b" "qb_closed b1 = qb_closed b"
    by (simp_all add: assms(3) closePromptLocked_def)
  moreover have "removeAllForClientLocked (qr_ClientID (reqOf b i)) b1 = Some (siblings b i, ?b2)"
    by (simp add: removeAllForClientLocked_def SnapshotQueue_queued [OF link1] sib Let_def)
  ultimately show ?thesis using l2 by simp
qed

lemma send_decision:
  assumes b: "pairOk b" and lv: "leaves g (i # js) b b3" and "distinct (i # js)"
    and g: "g = (\<lambda>j. if j = i then Some own else if j \<in> set js then Some sib else None)"
  shows "\<exists>b5. sendResult i own (b3\<lparr>qb_pub := publish (pairView b3) (qb_pub b3)\<rparr>) = Some b5 \<and>
    sendAll sib js b5 = Some (settledState g b3)"
proof -
  let ?b4 = "b3\<lparr>qb_pub := publish (pairView b3) (qb_pub b3)\<rparr>"
  let ?h = "withResults (\<lambda>j. if j = i then Some own else None) (qb_heap b3)"
  have w: "j < length (qb_heap b3) \<and> resultOf b3 j = []" if "j \<in> set (i # js)" for j
    using leaves_waiting [OF b lv that] .
  have "sendResult i own ?b4 = Some (?b4\<lparr>qb_heap := ?h\<rparr>)" using w by (subst sendResult_eq) auto
  moreover have "sendAll sib js (?b4\<lparr>qb_heap := ?h\<rparr>) =
      Some (?b4\<lparr>qb_heap := withResults (\<lambda>j. if j \<in> set js then Some sib else None) ?h\<rparr>)"
    using w assms(3) by (subst sendAll_eq) (auto simp: withResults_nth resultOf_def)
  moreover have "withResults (\<lambda>j. if j \<in> set js then Some sib else None) ?h = withResults g (qb_heap b3)"
    unfolding withResults_comp g using assms(3) by (intro arg_cong [of _ _ "\<lambda>g. withResults g (qb_heap b3)"]) auto
  ultimately show ?thesis by (simp add: settledState_def)
qed

text \<open>What makes a call the decision \<open>own\<close> on a request, with \<open>sib\<close> for the others of its client.\<close>

definition decision :: "'m PairBroker \<Rightarrow> 'm PairCall \<Rightarrow> bytes \<Rightarrow> int \<Rightarrow> int \<Rightarrow> bool \<Rightarrow> ApprovedToken option \<Rightarrow> Outcome \<Rightarrow> Outcome \<Rightarrow> bool" where
  "decision b c r now1 now2 isDeny mint own sib \<longleftrightarrow>
     (\<forall>i. resolution b c i = decided b r now1 own sib i) \<and>
     tokensAfter b c =
      (case byID b r of None \<Rightarrow> qb_tokens b
       | Some j \<Rightarrow> if now1 < qr_ExpiresAt (reqOf b j) \<and> \<not> isDeny
                   then (case mint of None \<Rightarrow> qb_tokens b | Some t \<Rightarrow> (qb_tokens b)(r \<mapsto> t)) else qb_tokens b) \<and>
     cooldownAfter b c =
      (case byID b r of None \<Rightarrow> qb_cooldown b
       | Some j \<Rightarrow> if now1 < qr_ExpiresAt (reqOf b j) \<and> isDeny
                   then (qb_cooldown b)(qr_ClientID (reqOf b j) \<mapsto> now2 + qc_Cooldown (qb_cfg b)) else qb_cooldown b) \<and>
     c \<noteq> PcShutdown"

lemma RemoveQueue_found:
  "linkOk b \<Longrightarrow> byID b r = Some i \<Longrightarrow> RemoveQueue r (qb_queue b) = (Some i, snd (RemoveQueue r (qb_queue b)))"
  using RemoveQueue_byID [of b r] by (simp add: prod_eq_iff)

lemma answer_late:
  assumes b: "pairOk b" and d: "decision b c r now1 now2 isDeny mint own sib" and i: "byID b r = Some i"
    and late: "\<not> now1 < qr_ExpiresAt (reqOf b i)"
  shows "\<exists>b'. answer r outcome isDeny now1 now2 mint b = Some (Expired, b') \<and> stepSpec b c b'"
proof -
  note link = pairOk_link [OF b]
  define b1 where "b1 = closePromptLocked r (b\<lparr>qb_queue := snd (RemoveQueue r (qb_queue b))\<rparr>)"
  define g where "g = (\<lambda>j. if j = i then Some TimedOut else None)"
  have lv: "leaves g [i] b b1" unfolding b1_def by (rule take_out [OF link i g_def])
  have "sendResult i TimedOut (b1\<lparr>qb_pub := publish (pairView b1) (qb_pub b1)\<rparr>) = Some (settledState g b1)"
    using leaves_waiting [OF b lv] by (subst sendResult_eq) (auto simp: settledState_def g_def)
  then have "answer r outcome isDeny now1 now2 mint b = Some (Expired, settledState g b1)"
    using late publish_leaves [OF lv]
    by (subst answer_def, subst RemoveQueue_found [OF link i]) (simp add: b1_def [symmetric] Let_def)
  moreover have "effect b c = g"
    using i byID_queued [OF link i] d late by (auto simp: effect_def g_def decision_def)
  moreover have "qb_tokens b1 = tokensAfter b c" "qb_cooldown b1 = cooldownAfter b c" "qb_closed b1 = (qb_closed b \<or> c = PcShutdown)"
    using d i late by (simp_all add: b1_def closePromptLocked_def decision_def)
  ultimately show ?thesis using settledState_spec [OF b lv] by blast
qed

lemma answer_in_time:
  assumes b: "pairOk b" and d: "decision b c r now1 now2 isDeny mint own sib" and i: "byID b r = Some i"
    and own: "own = (if \<not> isDeny \<and> mint = None then Denied else outcome)" and sib: "sib = (if isDeny then Denied else Aborted)"
    and time: "now1 < qr_ExpiresAt (reqOf b i)"
  shows "\<exists>b'. answer r outcome isDeny now1 now2 mint b = Some (Resolved, b') \<and> stepSpec b c b'"
proof -
  note link = pairOk_link [OF b]
  define b1 where "b1 = closePromptLocked r (b\<lparr>qb_queue := snd (RemoveQueue r (qb_queue b))\<rparr>)"
  define g where "g = (\<lambda>j. if j = i then Some own else if j \<in> set (siblings b i) then Some sib else None)"
  obtain b2 where b2: "removeAllForClientLocked (qr_ClientID (reqOf b i)) b1 = Some (siblings b i, b2)"
    "leaves g (i # siblings b i) b b2" "qb_tokens b2 = qb_tokens b" "qb_cooldown b2 = qb_cooldown b" "qb_closed b2 = qb_closed b"
    using take_out_all [OF link i b1_def g_def] by blast
  define b3 where "b3 = (if isDeny then b2\<lparr>qb_cooldown := (qb_cooldown b2)(qr_ClientID (reqOf b i) \<mapsto> now2 + qc_Cooldown (qb_cfg b2))\<rparr>
    else case mint of None \<Rightarrow> b2 | Some tok \<Rightarrow> b2\<lparr>qb_tokens := (qb_tokens b2)(r \<mapsto> tok)\<rparr>)"
  have lv: "leaves g (i # siblings b i) b b3" using b2(2) by (auto simp: b3_def leaves_def split: option.split)
  have dj: "distinct (i # siblings b i)" using queued_distinct [OF link] by (simp add: siblings_def)
  obtain b5 where b5: "sendResult i own (b3\<lparr>qb_pub := publish (pairView b3) (qb_pub b3)\<rparr>) = Some b5"
    "sendAll sib (siblings b i) b5 = Some (settledState g b3)"
    using send_decision [OF b lv dj g_def] by blast
  have "answer r outcome isDeny now1 now2 mint b = Some (Resolved, settledState g b3)"
    using time b2(1) publish_leaves [OF lv] b5 own sib
    by (subst answer_def, subst RemoveQueue_found [OF link i]) (auto simp: b1_def [symmetric] b3_def [symmetric] Let_def)
  moreover have "effect b c = g"
    using i byID_queued [OF link i] d time by (auto simp: effect_def g_def siblings_def fun_eq_iff decision_def)
  moreover have "qb_tokens b3 = tokensAfter b c" "qb_cooldown b3 = cooldownAfter b c" "qb_closed b3 = (qb_closed b \<or> c = PcShutdown)"
    using d i time b2 by (auto simp: b3_def leaves_def decision_def split: option.split)
  ultimately show ?thesis using settledState_spec [OF b lv] by blast
qed

lemma answer_spec:
  assumes b: "pairOk b" and d: "decision b c r now1 now2 isDeny mint own sib"
    and "own = (if \<not> isDeny \<and> mint = None then Denied else outcome)" and "sib = (if isDeny then Denied else Aborted)"
  shows "\<exists>b'. map_option snd (answer r outcome isDeny now1 now2 mint b) = Some b' \<and> stepSpec b c b'"
proof (cases "byID b r")
  case None
  have "effect b c = (\<lambda>i. None)" using None d by (auto simp: effect_def decision_def)
  moreover have "answer r outcome isDeny now1 now2 mint b = Some (AlreadyResolved, b)"
    using None RemoveQueue_byID [OF pairOk_link [OF b], of r] by (simp add: answer_def case_prod_beta)
  ultimately show ?thesis
    using b None d by (auto simp: stepSpec_def decision_def pairOk_def intro: settled_refl pubMove.quiet)
next
  case (Some i)
  then show ?thesis
    using answer_late [OF b d Some] answer_in_time [OF b d Some assms(3,4)]
    by (cases "now1 < qr_ExpiresAt (reqOf b i)") fastforce+
qed

lemma step_spec:
  assumes b: "pairOk b" and "\<And>a1 a2 r k m. c \<noteq> PcRequest a1 a2 r k m"
  shows "\<exists>b'. pairStep title b c = Some b' \<and> stepSpec b c b'"
proof (cases c)
  case (PcApprove r now1 now2 mint)
  have "decision b c r now1 now2 False mint (if mint = None then Denied else Approved) Aborted"
    by (auto simp: decision_def PcApprove split: option.split)
  from answer_spec [OF b this] show ?thesis by (simp add: PcApprove Approve_def)
next
  case (PcDeny r now1 now2)
  have "decision b c r now1 now2 True None Denied Denied"
    by (auto simp: decision_def PcDeny split: option.split)
  from answer_spec [OF b this] show ?thesis by (simp add: PcDeny Deny_def)
next
  case (PcTake r)
  have "effect b c = (\<lambda>i. None)" by (auto simp: effect_def PcTake)
  moreover have "settled (\<lambda>i. None) b (snd (TakeApprovedToken r b)) \<and> pairView (snd (TakeApprovedToken r b)) = pairView b \<and>
      qb_pub (snd (TakeApprovedToken r b)) = qb_pub b"
    using settled_refl [of b] b
    by (auto simp: TakeApprovedToken_def pairOk_def settled_def pairView_def queued_def split: option.split list.split)
  ultimately show ?thesis
    by (auto simp: PcTake stepSpec_def TakeApprovedToken_def intro: pubMove.quiet split: option.split)
next
  case (PcDeliver n)
  have "effect b c = (\<lambda>i. None)" by (auto simp: effect_def PcDeliver)
  moreover have "settled (\<lambda>i. None) b (b\<lparr>qb_pub := deliver n (qb_pub b)\<rparr>) \<and>
      pairView (b\<lparr>qb_pub := deliver n (qb_pub b)\<rparr>) = pairView b"
    using settled_refl [of b] b by (auto simp: pairOk_def settled_def pairView_def queued_def split: list.split)
  ultimately show ?thesis by (auto simp: PcDeliver stepSpec_def intro: pubMove.delivered)
qed (use assms Cancel_spec [OF b] Expire_spec [OF b] Shutdown_spec [OF b] in auto)

section \<open>New requests\<close>

definition refuses :: "int \<Rightarrow> bytes \<Rightarrow> 'm PairBroker \<Rightarrow> Outcome option" where
  "refuses now clientID b =
     (if qb_closed b then Some Aborted
      else if InCooldown now clientID b then Some Denied
      else if qc_MaxQueue (qb_cfg b) \<le> int (length (queued b)) then Some Aborted else None)"

definition newRequest :: "int \<Rightarrow> bytes \<Rightarrow> bytes \<Rightarrow> 'm \<Rightarrow> 'm PairBroker \<Rightarrow> 'm PairRequest" where
  "newRequest now newID clientID meta b =
     \<lparr>qr_RequestID = newID, qr_ClientID = clientID, qr_Meta = meta, qr_EnqueuedAt = now,
      qr_ExpiresAt = now + qc_Timeout (qb_cfg b)\<rparr>"

lemma pubMove_refl: "pubMove v v p p"
  by (rule pubMove.quiet)

text \<open>\<open>enqueued r req b b'\<close>: one request has joined the queue under a new id, nothing else has changed.\<close>

definition enqueued :: "bytes \<Rightarrow> 'm PairRequest \<Rightarrow> 'm PairBroker \<Rightarrow> 'm PairBroker \<Rightarrow> bool" where
  "enqueued r req b b' \<longleftrightarrow> qb_heap b' = qb_heap b @ [\<lparr>qe_req = req, qe_result = []\<rparr>] \<and> qb_cfg b' = qb_cfg b \<and>
     pqGood (qb_queue b') \<and> pqItems (qb_queue b') = pqItems (qb_queue b) @ [(r, length (qb_heap b))] \<and>
     qb_tokens b' = qb_tokens b \<and> qb_cooldown b' = qb_cooldown b \<and> qb_closed b' = qb_closed b \<and>
     (qc_Prompts (qb_cfg b) \<longrightarrow> sinkIDs {} (qb_sink b') = insert (promptID (qc_Kind (qb_cfg b)) r) (sinkIDs {} (qb_sink b))) \<and>
     qb_pub b' = publish (pairView b') (qb_pub b)"

lemma fresh_key: "linkOk b \<Longrightarrow> r \<notin> set (requestIDs b) \<Longrightarrow> r \<notin> fst ` set (pqItems (qb_queue b))"
  by (auto simp: linkOk_def requestIDs_def)

lemma Request_admitted:
  assumes b: "pairOk b" and fresh: "r \<notin> set (requestIDs b)" and adm: "refuses now1 clientID b = None"
  shows "\<exists>b'. RequestPairing title now1 now2 r clientID meta b = Some (Inr (length (qb_heap b)), b') \<and>
    enqueued r (newRequest now2 r clientID meta b) b b'"
proof -
  note link = pairOk_link [OF b]
  have key: "r \<notin> fst ` set (pqItems (qb_queue b))" by (rule fresh_key [OF link fresh])
  have good: "pqGood (qb_queue b)" using link by (simp add: linkOk_def)
  let ?i = "length (qb_heap b)"
  define b1 where "b1 = openPromptLocked title (newRequest now2 r clientID meta b)
    (b\<lparr>qb_heap := qb_heap b @ [\<lparr>qe_req = newRequest now2 r clientID meta b, qe_result = []\<rparr>], qb_queue := AddQueue r ?i (qb_queue b)\<rparr>)"
  have q: "pqGood (qb_queue b1)" "pqItems (qb_queue b1) = pqItems (qb_queue b) @ [(r, ?i)]"
    by (simp_all add: b1_def openPromptLocked_def pq.add_good [OF good key] pq.add_items [OF good key])
  have "RequestPairing title now1 now2 r clientID meta b = Some (Inr ?i, b1\<lparr>qb_pub := publish (pairView b1) (qb_pub b1)\<rparr>)"
    using adm q(1) b
    by (simp add: RequestPairing_def refuses_def pq.len_eq good queued_def b1_def newRequest_def publishLocked_eq Let_def
        split: if_splits)
  moreover have "pairView (b1\<lparr>qb_pub := publish (pairView b1) (qb_pub b1)\<rparr>) = pairView b1"
    by (rule pairView_cong) simp_all
  ultimately show ?thesis
    using q by (auto simp: enqueued_def b1_def openPromptLocked_def newRequest_def sinkIDs_append)
qed

lemma Request_refused:
  assumes "pairOk b" and "refuses now1 clientID b = Some x"
  shows "RequestPairing title now1 now2 r clientID meta b = Some (Inl x, b)"
  using assms by (auto simp: RequestPairing_def refuses_def pairOk_def pq.len_eq queued_def split: if_splits)

lemma enqueued_ok:
  assumes b: "pairOk b" and fresh: "r \<notin> set (requestIDs b)" and e: "enqueued r req b b'"
    and req: "qr_RequestID req = r" and op: "\<not> qb_closed b"
  shows "pairOk b'"
proof -
  have ids: "requestIDs b' = requestIDs b @ [r]" using e req by (simp add: enqueued_def requestIDs_def)
  have len: "length (requestIDs b) = length (qb_heap b)" by (simp add: requestIDs_def)
  have qd: "queued b' = queued b @ [length (qb_heap b)]" using e by (simp add: enqueued_def queued_def)
  have res: "resultOf b' i = (if i = length (qb_heap b) then [] else resultOf b i)" if "i < length (qb_heap b')" for i
    using e that by (auto simp: enqueued_def resultOf_def nth_append)
  have items: "snd p < length (qb_heap b') \<and> fst p = requestIDs b' ! snd p" if "p \<in> set (pqItems (qb_queue b'))" for p
    using that b e ids len by (auto simp: pairOk_def enqueued_def nth_append)
  have each: "if i \<in> set (queued b') then resultOf b' i = [] else length (resultOf b' i) = 1" if "i < length (qb_heap b')" for i
    using b that e res [OF that] by (auto simp: pairOk_def enqueued_def qd)
  have tok: "\<exists>i<length (qb_heap b'). requestIDs b' ! i = t \<and> resultOf b' i = [Approved]" if "qb_tokens b' t = Some x" for t x
  proof -
    have "qb_tokens b t = Some x" using that e by (simp add: enqueued_def)
    then obtain i where "i < length (qb_heap b)" "requestIDs b ! i = t" "resultOf b i = [Approved]"
      using b by (auto simp: pairOk_def)
    then show ?thesis using e res len by (intro exI [of _ i]) (auto simp: enqueued_def ids nth_append)
  qed
  show ?thesis
    using b e op items each tok fresh nth_append_length [of "requestIDs b" r "[]"] by (auto simp: pairOk_def enqueued_def ids len)
qed

lemma enqueued_pub: "enqueued r req b b' \<Longrightarrow> pubMove (pairView b) (pairView b') (qb_pub b) (qb_pub b')"
  unfolding enqueued_def using pubMove.published by metis

section \<open>Runs of the broker\<close>

text \<open>\<^verbatim>\<open>ids.NewID\<close> never returns an id twice.\<close>

fun freshCall :: "'m PairBroker \<Rightarrow> 'm PairCall \<Rightarrow> bool" where
  "freshCall b (PcRequest now1 now2 r clientID meta) \<longleftrightarrow> r \<notin> set (requestIDs b)"
| "freshCall b c \<longleftrightarrow> True"

definition pairFresh :: "('m PairRequest \<Rightarrow> bytes) \<Rightarrow> 'm PairBroker \<Rightarrow> 'm PairCall \<Rightarrow> 'm PairBroker option" where
  "pairFresh title b c = (if freshCall b c then pairStep title b c else None)"

fun isRequest :: "'m PairCall \<Rightarrow> bool" where
  "isRequest (PcRequest now1 now2 r clientID meta) \<longleftrightarrow> True"
| "isRequest c \<longleftrightarrow> False"

lemma step_cases:
  assumes b: "pairOk b" and "pairFresh title b c = Some b'"
  obtains "\<not> isRequest c" "stepSpec b c b'"
  | now1 now2 r clientID meta where "c = PcRequest now1 now2 r clientID meta" "refuses now1 clientID b \<noteq> None" "b' = b"
  | now1 now2 r clientID meta where "c = PcRequest now1 now2 r clientID meta" "refuses now1 clientID b = None"
      "r \<notin> set (requestIDs b)" "enqueued r (newRequest now2 r clientID meta b) b b'"
proof (cases "isRequest c")
  case False
  then have "\<And>a1 a2 r k m. c \<noteq> PcRequest a1 a2 r k m" by auto
  from step_spec [OF b this, of title] show thesis using that(1) False assms(2) by (auto simp: pairFresh_def split: if_splits)
next
  case True
  then obtain now1 now2 r clientID meta where c: "c = PcRequest now1 now2 r clientID meta" by (cases c) auto
  have fresh: "r \<notin> set (requestIDs b)" using assms(2) by (simp add: c pairFresh_def split: if_splits)
  show thesis
  proof (cases "refuses now1 clientID b")
    case None
    then show thesis
      using that(3) [OF c] Request_admitted [OF b fresh None, of title now2 meta] fresh assms(2) by (auto simp: c pairFresh_def)
  next
    case (Some x)
    then show thesis
      using that(2) [OF c] Request_refused [OF b Some, of title now2 r meta] fresh assms(2) by (simp add: c pairFresh_def)
  qed
qed

lemma effect_queued: "effect b c i = Some x \<Longrightarrow> i \<in> set (queued b)"
  by (simp add: effect_def split: if_splits)

lemma tokensAfter_new:
  assumes "linkOk b" and "tokensAfter b c r = Some t"
  shows "qb_tokens b r = Some t \<or> (\<exists>i now1 now2. byID b r = Some i \<and> c = PcApprove r now1 now2 (Some t) \<and> effect b c i = Some Approved)"
  using assms byID_queued [OF assms(1)]
  by (cases c) (auto simp: effect_def split: option.splits if_splits)

lemma stepSpec_ok:
  assumes b: "pairOk b" and s: "stepSpec b c b'"
  shows "pairOk b'"
proof (rule settled_ok [OF b])
  show st: "settled (effect b c) b b'" using s by (simp add: stepSpec_def)
  fix r t assume "qb_tokens b' r = Some t"
  then have "tokensAfter b c r = Some t" using s by (simp add: stepSpec_def)
  from tokensAfter_new [OF pairOk_link [OF b] this] show
    "qb_tokens b r = Some t \<or> (\<exists>i<length (qb_heap b). requestIDs b ! i = r \<and> effect b c i = Some Approved)"
    using byID_queued [OF pairOk_link [OF b]] requestIDs_nth by metis
next
  assume "qb_closed b'"
  then consider "qb_closed b" | "c = PcShutdown" using s by (auto simp: stepSpec_def)
  then show "pqItems (qb_queue b') = []"
  proof cases
    case 1
    then show ?thesis using b s by (simp add: pairOk_def stepSpec_def settled_def)
  next
    case 2
    have "effect b c (snd p) \<noteq> None" if "p \<in> set (pqItems (qb_queue b))" for p
      using that 2 by (simp add: effect_def queued_def)
    then show ?thesis using s by (auto simp: stepSpec_def settled_def filter_empty_conv)
  qed
qed

lemma refuses_open: "refuses now clientID b = None \<Longrightarrow> \<not> qb_closed b"
  by (simp add: refuses_def split: if_splits)

interpretation paired: published_state "pairFresh title" pairOk pairView qb_pub for title
proof
  fix b b' :: "'a PairBroker" and c
  assume b: "pairOk b" and s: "pairFresh title b c = Some b'"
  show "pairOk b'"
    by (rule step_cases [OF b s])
      (use b in \<open>auto intro: stepSpec_ok enqueued_ok simp: newRequest_def dest: refuses_open\<close>)
  show "pubMove (pairView b) (pairView b') (qb_pub b) (qb_pub b')"
    by (rule step_cases [OF b s]) (auto simp: stepSpec_def intro: enqueued_pub pubMove_refl)
qed

lemma NewPairBroker_run_ok: "paired.run title (NewPairBroker cfg) cs = Some b \<Longrightarrow> pairOk b"
  by (rule paired.run_ok [OF _ NewPairBroker_ok])

primrec pairRun :: "('m PairRequest \<Rightarrow> bytes) \<Rightarrow> 'm PairBroker \<Rightarrow> 'm PairCall list \<Rightarrow> 'm PairBroker option" where
  "pairRun title b [] = Some b"
| "pairRun title b (c # cs) = (case pairFresh title b c of None \<Rightarrow> None | Some b' \<Rightarrow> pairRun title b' cs)"

lemma pairRun_eq: "pairRun title b cs = paired.run title b cs"
  by (induction cs arbitrary: b) (auto split: option.split)

lemma pairRun_ok: "pairRun title (NewPairBroker cfg) cs = Some b \<Longrightarrow> pairOk b"
  unfolding pairRun_eq by (rule NewPairBroker_run_ok)

lemma step_cfg: "pairOk b \<Longrightarrow> pairFresh title b c = Some b' \<Longrightarrow> qb_cfg b' = qb_cfg b"
  by (rule step_cases) (auto simp: stepSpec_def settled_def enqueued_def)

lemma step_keeps_ok: "pairOk b \<Longrightarrow> pairFresh title b c = Some b' \<Longrightarrow> pairOk b'"
  by (rule paired.step_ok)

lemma pairRun_cfg: "pairOk b \<Longrightarrow> pairRun title b cs = Some b' \<Longrightarrow> qb_cfg b' = qb_cfg b"
  by (induction cs arbitrary: b) (auto split: option.splits, metis step_cfg step_keeps_ok)

lemma new_simps [simp]:
  "qb_cfg (NewPairBroker cfg) = cfg" "qb_heap (NewPairBroker cfg) = []" "qb_tokens (NewPairBroker cfg) = Map.empty"
  "qb_cooldown (NewPairBroker cfg) = Map.empty" "qb_pub (NewPairBroker cfg) = watchedPublisher" "\<not> qb_closed (NewPairBroker cfg)"
  by (simp_all add: NewPairBroker_def)

lemma prompts_waiting:
  assumes b: "pairOk b" and "qc_Prompts (qb_cfg b)"
  shows "sinkIDs {} (qb_sink b) = (\<lambda>i. promptID (qc_Kind (qb_cfg b)) (qr_RequestID (reqOf b i))) ` set (queued b)"
proof -
  have "fst p = qr_RequestID (reqOf b (snd p))" if "p \<in> set (pqItems (qb_queue b))" for p
    using that b by (auto simp: pairOk_def requestIDs_nth)
  then show ?thesis using assms by (simp add: pairOk_def queued_def image_image)
qed

lemma settled_queued: "settled g b b' \<Longrightarrow> queued b' = filter (\<lambda>i. g i = None) (queued b)"
  by (simp add: settled_def queued_def filter_map comp_def)

lemma settled_result:
  "settled g b b' \<Longrightarrow> i < length (qb_heap b) \<Longrightarrow> resultOf b' i = (case g i of None \<Rightarrow> resultOf b i | Some x \<Rightarrow> [x])"
  by (auto simp: settled_def resultOf_def withResults_nth split: option.splits)

section \<open>What the broker guarantees\<close>

text \<open>
  C3: The outcomes are exactly the documented ones.  In every state a run of the broker can reach, an
  approval, denial, cancel, expiry, shutdown or token collection returns, and gives every waiting request
  the outcome \<^const>\<open>resolution\<close> states for it, or leaves it waiting where it states none, in the order the
  requests came; a request that is not waiting had exactly one result and keeps it.  After the call the
  prompts open at the sink are those of the waiting requests.
\<close>

theorem pairing_outcomes_exact:
  assumes "pairRun title (NewPairBroker cfg) cs = Some b" and "\<not> isRequest c"
  shows "\<exists>b'. pairStep title b c = Some b' \<and> length (qb_heap b') = length (qb_heap b) \<and>
    (\<forall>i<length (qb_heap b). if i \<in> set (queued b)
       then resultOf b i = [] \<and> resultOf b' i = (case resolution b c i of None \<Rightarrow> [] | Some x \<Rightarrow> [x])
       else length (resultOf b i) = 1 \<and> resultOf b' i = resultOf b i) \<and>
    queued b' = filter (\<lambda>i. resolution b c i = None) (queued b) \<and>
    (qc_Prompts cfg \<longrightarrow> sinkIDs {} (qb_sink b') =
       (\<lambda>i. promptID (qc_Kind cfg) (qr_RequestID (reqOf b' i))) ` set (queued b'))"
proof -
  have b: "pairOk b" using assms(1) by (rule pairRun_ok)
  have cfg: "qb_cfg b = cfg" using pairRun_cfg [OF NewPairBroker_ok assms(1)] by simp
  have nr: "\<And>a1 a2 r k m. c \<noteq> PcRequest a1 a2 r k m" using assms(2) by auto
  obtain b' where b': "pairStep title b c = Some b'" "stepSpec b c b'" using step_spec [OF b nr] by blast
  have s: "settled (effect b c) b b'" using b'(2) by (simp add: stepSpec_def)
  have "queued b' = filter (\<lambda>i. resolution b c i = None) (queued b)"
    unfolding settled_queued [OF s] by (intro filter_cong) (auto simp: effect_def)
  moreover have "if i \<in> set (queued b)
       then resultOf b i = [] \<and> resultOf b' i = (case resolution b c i of None \<Rightarrow> [] | Some x \<Rightarrow> [x])
       else length (resultOf b i) = 1 \<and> resultOf b' i = resultOf b i" if "i < length (qb_heap b)" for i
    using settled_result [OF s that] b that by (auto simp: effect_def pairOk_def split: option.split)
  moreover have "qb_cfg b' = cfg" "length (qb_heap b') = length (qb_heap b)" using s cfg by (simp_all add: settled_def)
  ultimately show ?thesis using b'(1) prompts_waiting [OF stepSpec_ok [OF b b'(2)]] by auto
qed

definition demoPairCfg :: PairConfig where
  "demoPairCfg = \<lparr>qc_Timeout = 60, qc_Cooldown = 30, qc_MaxQueue = 4, qc_Prompts = True, qc_Kind = ''pair''\<rparr>"

definition demoToken :: ApprovedToken where
  "demoToken = \<lparr>at_Plain = ''t'', at_Hash = ''h'', at_Salt = ''s''\<rparr>"

lemmas pair_eval = demoPairCfg_def pairFresh_def RequestPairing_def InCooldown_def publishLocked_def snapshotLocked_def
  openPromptLocked_def closePromptLocked_def AddQueue_def RemoveQueue_def SnapshotQueue_def LenQueue_def NewPairBroker_def
  NewPendingQueue_def requestIDs_def reqOf_def queued_def pqItems_def resultOf_def byID_def Approve_def Deny_def answer_def
  removeAllForClientLocked_def sendResult_def TakeApprovedToken_def

text \<open>Two requests of one client and one of another: approving the second settles the first two.\<close>

definition demoPair :: "nat PairBroker" where
  "demoPair = the (pairRun (\<lambda>r. ''t'') (NewPairBroker demoPairCfg)
     [PcRequest 0 0 ''r1'' ''phone'' 1, PcRequest 0 1 ''r2'' ''phone'' 2, PcRequest 0 2 ''r3'' ''laptop'' 3])"

lemma demoPair_run:
  "pairRun (\<lambda>r. ''t'') (NewPairBroker demoPairCfg)
     [PcRequest 0 0 ''r1'' ''phone'' 1, PcRequest 0 1 ''r2'' ''phone'' 2, PcRequest 0 2 ''r3'' ''laptop'' 3] = Some demoPair"
  by (simp add: demoPair_def pair_eval Let_def)

theorem pairing_outcomes_exact_witness:
  "\<exists>b'. pairStep (\<lambda>r. ''t'') demoPair (PcApprove ''r2'' 5 5 (Some demoToken)) = Some b' \<and>
    queued b' = [2] \<and> map (resultOf b') [0, 1, 2] = [[Aborted], [Approved], []]"
proof -
  have q: "queued demoPair = [0, 1, 2]" "length (qb_heap demoPair) = 3"
    "map (resolution demoPair (PcApprove ''r2'' 5 5 (Some demoToken))) [0, 1, 2] = [Some Aborted, Some Approved, None]"
    by (simp_all add: demoPair_def pair_eval Let_def)
  then show ?thesis
    using pairing_outcomes_exact [OF demoPair_run, of "PcApprove ''r2'' 5 5 (Some demoToken)"] by force
qed

subsection \<open>One click admits one connection\<close>

fun grants :: "'m PairCall \<Rightarrow> bool" where
  "grants (PcApprove r now1 now2 (Some t)) \<longleftrightarrow> True"
| "grants c \<longleftrightarrow> False"

definition admitted :: "'m PairBroker \<Rightarrow> nat set" where
  "admitted b = {i. i < length (qb_heap b) \<and> resultOf b i = [Approved]}"

lemma admitted_finite [simp]: "finite (admitted b)"
  by (simp add: admitted_def)

lemma effect_approved:
  "effect b c i = Some Approved \<Longrightarrow> \<exists>r now1 now2 t. c = PcApprove r now1 now2 (Some t) \<and> byID b r = Some i"
  by (cases c) (auto simp: effect_def split: if_splits option.splits)

lemma admitted_step:
  assumes b: "pairOk b" and "pairFresh title b c = Some b'"
  shows "card (admitted b') \<le> card (admitted b) + (if grants c then 1 else 0)"
  using assms
proof (cases rule: step_cases)
  case 1
  then have s: "settled (effect b c) b b'" by (simp add: stepSpec_def)
  have sub: "admitted b' \<subseteq> admitted b \<union> {i. effect b c i = Some Approved}"
    using s settled_result [OF s] by (auto simp: admitted_def settled_def split: option.splits)
  show ?thesis
  proof (cases "\<exists>i. effect b c i = Some Approved")
    case True
    then obtain i r now1 now2 t where c: "c = PcApprove r now1 now2 (Some t)" "byID b r = Some i"
      using effect_approved by blast
    then have "{i. effect b c i = Some Approved} \<subseteq> {i}" using effect_approved by fastforce
    then have "admitted b' \<subseteq> insert i (admitted b)" using sub by blast
    then have "card (admitted b') \<le> card (insert i (admitted b))" by (intro card_mono) simp_all
    also have "\<dots> \<le> Suc (card (admitted b))" by (simp add: card_insert_if)
    finally show ?thesis by (simp add: c)
  next
    case False
    then have "card (admitted b') \<le> card (admitted b)" using sub by (intro card_mono) auto
    then show ?thesis by simp
  qed
next
  case (3 now1 now2 r clientID meta)
  then have "admitted b' \<subseteq> admitted b" by (auto simp: admitted_def enqueued_def resultOf_def nth_append split: if_splits)
  then have "card (admitted b') \<le> card (admitted b)" by (intro card_mono) simp_all
  then show ?thesis by simp
qed simp

lemma admitted_run:
  "pairOk b \<Longrightarrow> pairRun title b cs = Some b' \<Longrightarrow> card (admitted b') \<le> card (admitted b) + length (filter grants cs)"
proof (induction cs arbitrary: b)
  case (Cons c cs)
  then obtain t where t: "pairFresh title b c = Some t" "pairRun title t cs = Some b'" by (auto split: option.splits)
  show ?case
    using Cons.IH [OF step_keeps_ok [OF Cons.prems(1) t(1)] t(2)] admitted_step [OF Cons.prems(1) t(1)] by (auto split: if_splits)
qed simp

text \<open>The tokens the collections of one request's token return during a run.\<close>

fun collects :: "bytes \<Rightarrow> 'm PairBroker \<Rightarrow> 'm PairCall \<Rightarrow> ApprovedToken list" where
  "collects r b (PcTake r') = (if r' = r then (case fst (TakeApprovedToken r b) of None \<Rightarrow> [] | Some t \<Rightarrow> [t]) else [])"
| "collects r b c = []"

primrec collected :: "('m PairRequest \<Rightarrow> bytes) \<Rightarrow> bytes \<Rightarrow> 'm PairBroker \<Rightarrow> 'm PairCall list \<Rightarrow> ApprovedToken list" where
  "collected title r b [] = []"
| "collected title r b (c # cs) =
     collects r b c @ (case pairFresh title b c of None \<Rightarrow> [] | Some b' \<Rightarrow> collected title r b' cs)"

definition spent :: "bytes \<Rightarrow> 'm PairBroker \<Rightarrow> bool" where
  "spent r b \<longleftrightarrow> qb_tokens b r = None \<and> r \<in> set (requestIDs b) \<and> byID b r = None"

lemma TakeApprovedToken_fst [simp]: "fst (TakeApprovedToken r b) = qb_tokens b r"
  by (simp add: TakeApprovedToken_def split: option.split)

lemma collects_token: "t \<in> set (collects r b c) \<Longrightarrow> qb_tokens b r = Some t \<and> c = PcTake r"
proof (induction r b c rule: collects.induct)
  case (1 r b r')
  then show ?case by (cases "qb_tokens b r"; cases "r' = r") simp_all
qed simp_all

lemma settled_ids: "settled g b b' \<Longrightarrow> requestIDs b' = requestIDs b"
  by (simp add: settled_def requestIDs_def withResults_req)

lemma keeps_ids:
  assumes "pairOk b" and "pairFresh title b c = Some b'"
  shows "set (requestIDs b) \<subseteq> set (requestIDs b')"
  using assms
proof (cases rule: step_cases)
  case 1
  then show ?thesis using settled_ids [of "effect b c" b b'] by (simp add: stepSpec_def)
qed (auto simp: requestIDs_def enqueued_def)

lemma step_byID:
  assumes "pairOk b" and "pairFresh title b c = Some b'" and "byID b r = None" and "r \<in> set (requestIDs b)"
  shows "byID b' r = None"
  using assms(1,2)
  by (rule step_cases)
    (use assms(3,4) in \<open>auto simp: byID_def stepSpec_def settled_def enqueued_def map_of_eq_None_iff\<close>)

lemma step_token:
  assumes b: "pairOk b" and "pairFresh title b c = Some b'" and "qb_tokens b' r = Some t"
  shows "qb_tokens b r = Some t \<or> (\<exists>i now1 now2. byID b r = Some i \<and> c = PcApprove r now1 now2 (Some t))"
  using assms(1,2)
proof (cases rule: step_cases)
  case 1
  then have "tokensAfter b c r = Some t" using assms(3) by (simp add: stepSpec_def)
  then show ?thesis using tokensAfter_new [OF pairOk_link [OF b]] by blast
qed (use assms(3) in \<open>auto simp: enqueued_def\<close>)

lemma spent_step:
  assumes "pairOk b" and "pairFresh title b c = Some b'" and "spent r b"
  shows "spent r b'"
  using assms(3) step_byID [OF assms(1,2), of r] keeps_ids [OF assms(1,2)] step_token [OF assms(1,2), of r]
  by (cases "qb_tokens b' r") (auto simp: spent_def)

lemma spent_nothing: "pairOk b \<Longrightarrow> spent r b \<Longrightarrow> collected title r b cs = []"
proof (induction cs arbitrary: b)
  case (Cons c cs)
  have "collects r b c = []"
    using collects_token [of _ r b c] Cons.prems(2) by (cases "collects r b c") (auto simp: spent_def)
  then show ?case
    using Cons.IH step_keeps_ok [OF Cons.prems(1)] spent_step [OF Cons.prems(1) _ Cons.prems(2)] by (auto split: option.split)
qed simp

lemma take_spends:
  assumes b: "pairOk b" and "qb_tokens b r = Some t" and "pairFresh title b (PcTake r) = Some b'"
  shows "spent r b'"
proof -
  obtain i where i: "i < length (qb_heap b)" "requestIDs b ! i = r" "resultOf b i = [Approved]"
    using b assms(2) by (auto simp: pairOk_def)
  have "r \<in> set (requestIDs b)" using i by (auto simp: requestIDs_def)
  moreover have "byID b r = None"
  proof (cases "byID b r")
    case (Some j)
    note j = byID_queued [OF pairOk_link [OF b] Some]
    then have "requestIDs b ! i = requestIDs b ! j" using i by (simp add: requestIDs_nth)
    moreover have "distinct (requestIDs b)" "length (requestIDs b) = length (qb_heap b)"
      using b by (simp_all add: pairOk_def requestIDs_def)
    ultimately have "i = j" using i(1) j by (simp add: nth_eq_iff_index_eq)
    then show ?thesis using waiting [OF b, of j] i j by simp
  qed
  moreover have "b' = b\<lparr>qb_tokens := (qb_tokens b)(r := None)\<rparr>"
    using assms(2,3) by (simp add: pairFresh_def TakeApprovedToken_def)
  ultimately show ?thesis by (simp add: spent_def byID_def requestIDs_def)
qed

lemma collected_once: "pairOk b \<Longrightarrow> length (collected title r b cs) \<le> 1"
proof (induction cs arbitrary: b)
  case (Cons c cs)
  show ?case
  proof (cases "collects r b c")
    case Nil
    then show ?thesis using Cons.IH step_keeps_ok [OF Cons.prems] by (auto split: option.split)
  next
    case (Cons t ts)
    then have t: "qb_tokens b r = Some t" "c = PcTake r" using collects_token [of t r b c] by auto
    then have "ts = []" using Cons by (simp split: if_splits)
    moreover have "collected title r b' cs = []" if "pairFresh title b c = Some b'" for b'
      using spent_nothing [OF step_keeps_ok [OF \<open>pairOk b\<close> that]] take_spends [OF \<open>pairOk b\<close> t(1)] that t(2) by simp
    ultimately show ?thesis using Cons by (auto split: option.split)
  qed
qed simp

lemma collected_minted:
  "pairOk b \<Longrightarrow> t \<in> set (collected title r b cs) \<Longrightarrow>
   qb_tokens b r = Some t \<or> (\<exists>now1 now2. PcApprove r now1 now2 (Some t) \<in> set cs)"
proof (induction cs arbitrary: b)
  case (Cons c cs)
  show ?case
  proof (cases "t \<in> set (collects r b c)")
    case False
    then obtain b' where b': "pairFresh title b c = Some b'" "t \<in> set (collected title r b' cs)"
      using Cons.prems(2) by (cases "pairFresh title b c") auto
    from Cons.IH [OF step_keeps_ok [OF Cons.prems(1) b'(1)] b'(2)] show ?thesis
      using step_token [OF Cons.prems(1) b'(1)] by auto
  qed (use collects_token in fast)
qed simp

text \<open>
  C4: One click admits exactly one connection.  In every run, however requests, decisions, expiries and token
  collections interleave, at most as many requests are approved as there were approvals that minted a
  token; a request's token is handed out at most once, and what is handed out is a token that was minted
  by an approval of that very request.
\<close>

theorem pairing_single_grant:
  assumes "pairRun title (NewPairBroker cfg) cs = Some b"
  shows "card {i. i < length (qb_heap b) \<and> resultOf b i = [Approved]} \<le> length (filter grants cs) \<and>
    length (collected title r (NewPairBroker cfg) cs) \<le> 1 \<and>
    (\<forall>t\<in>set (collected title r (NewPairBroker cfg) cs). \<exists>now1 now2. PcApprove r now1 now2 (Some t) \<in> set cs)"
  using admitted_run [OF NewPairBroker_ok assms] collected_once [OF NewPairBroker_ok, of title r cfg cs]
    collected_minted [OF NewPairBroker_ok, of _ title r cfg cs]
  by (auto simp: admitted_def)

definition demoCalls :: "nat PairCall list" where
  "demoCalls = [PcRequest 0 0 ''r1'' ''phone'' 1, PcRequest 0 1 ''r2'' ''phone'' 2, PcApprove ''r2'' 5 5 (Some demoToken),
     PcApprove ''r1'' 6 6 (Some demoToken), PcTake ''r2'', PcTake ''r2'']"

theorem pairing_single_grant_witness:
  "\<exists>b. pairRun (\<lambda>r. ''t'') (NewPairBroker demoPairCfg) demoCalls = Some b \<and>
      card {i. i < length (qb_heap b) \<and> resultOf b i = [Approved]} \<le> 2 \<and>
      length (collected (\<lambda>r. ''t'') ''r2'' (NewPairBroker demoPairCfg) demoCalls) \<le> 1"
proof -
  have "pairRun (\<lambda>r. ''t'') (NewPairBroker demoPairCfg) demoCalls \<noteq> None" by (simp add: demoCalls_def pair_eval Let_def)
  then obtain b where b: "pairRun (\<lambda>r. ''t'') (NewPairBroker demoPairCfg) demoCalls = Some b" by blast
  have "length (filter grants demoCalls) = 2" by (simp add: demoCalls_def)
  then show ?thesis using b pairing_single_grant [OF b, of "''r2''"] by auto
qed

subsection \<open>The cooldown after a denial\<close>

fun denyFrom :: "int \<Rightarrow> 'm PairCall \<Rightarrow> bool" where
  "denyFrom now (PcDeny r now1 now2) \<longleftrightarrow> now \<le> now2"
| "denyFrom now c \<longleftrightarrow> True"

definition coolFrom :: "int \<Rightarrow> bytes \<Rightarrow> 'm PairBroker \<Rightarrow> bool" where
  "coolFrom now clientID b \<longleftrightarrow> (\<exists>u\<ge>now + qc_Cooldown (qb_cfg b). qb_cooldown b clientID = Some u)"

lemma cooldownAfter_from: "denyFrom now c \<Longrightarrow> coolFrom now clientID b \<Longrightarrow>
   \<exists>u\<ge>now + qc_Cooldown (qb_cfg b). cooldownAfter b c clientID = Some u"
  by (cases c) (auto simp: coolFrom_def split: option.split)

lemma step_cool:
  assumes "pairOk b" and "pairFresh title b c = Some b'" and "denyFrom now c" and "coolFrom now clientID b"
  shows "coolFrom now clientID b'"
  using assms(1,2)
proof (cases rule: step_cases)
  case 1
  then have "qb_cooldown b' = cooldownAfter b c" "qb_cfg b' = qb_cfg b" by (simp_all add: stepSpec_def settled_def)
  then show ?thesis using cooldownAfter_from [OF assms(3,4)] by (simp add: coolFrom_def)
qed (use assms(4) in \<open>auto simp: enqueued_def coolFrom_def\<close>)

lemma step_closed: "pairOk b \<Longrightarrow> pairFresh title b c = Some b' \<Longrightarrow> qb_closed b' \<longleftrightarrow> qb_closed b \<or> c = PcShutdown"
  by (erule (1) step_cases) (auto simp: stepSpec_def enqueued_def)

lemma run_cool:
  "pairOk b \<Longrightarrow> pairRun title b cs = Some b' \<Longrightarrow> list_all (denyFrom now) cs \<Longrightarrow> coolFrom now clientID b \<Longrightarrow>
   coolFrom now clientID b' \<and> pairOk b' \<and> (qb_closed b' \<longleftrightarrow> qb_closed b \<or> PcShutdown \<in> set cs)"
proof (induction cs arbitrary: b)
  case (Cons c cs)
  then obtain t where t: "pairFresh title b c = Some t" "pairRun title t cs = Some b'" by (auto split: option.splits)
  show ?case
    using Cons.IH [OF step_keeps_ok [OF Cons.prems(1) t(1)] t(2)] step_cool [OF Cons.prems(1) t(1)] Cons.prems(3,4)
      step_closed [OF Cons.prems(1) t(1)] by auto
qed simp

text \<open>
  C27: A denial holds.  After a denial of a waiting request before its deadline, whatever else happens (with
  a clock that does not run backwards between denials), a request of the same client before the end of
  the cooldown never reaches the queue: it is answered at once, with no prompt and no emission, and the
  answer is a denial unless the broker has shut down.
\<close>

theorem pairing_cooldown_holds:
  assumes "pairRun title (NewPairBroker cfg) cs = Some b" and "byID b r = Some i" and "now1 < qr_ExpiresAt (reqOf b i)"
    and "Deny r now1 now2 b = Some (x, b1)" and "pairRun title b1 ds = Some b2" and "list_all (denyFrom now2) ds"
    and "now < now2 + qc_Cooldown cfg"
  shows "x = Resolved \<and> RequestPairing title now now' newID (qr_ClientID (reqOf b i)) meta b2 =
    Some (Inl (if PcShutdown \<in> set ds then Aborted else Denied), b2)"
proof -
  have b: "pairOk b" using assms(1) by (rule pairRun_ok)
  have cfg: "qb_cfg b = cfg" using pairRun_cfg [OF NewPairBroker_ok assms(1)] by simp
  let ?c = "PcDeny r now1 now2"
  have "decision b ?c r now1 now2 True None Denied Denied" by (auto simp: decision_def split: option.split)
  from answer_in_time [OF b this assms(2) _ _ assms(3), of Denied]
  have x: "x = Resolved" and s: "stepSpec b ?c b1" using assms(4) by (auto simp: Deny_def)
  have "pqItems (qb_queue b) \<noteq> []" using assms(2) by (auto simp: byID_def)
  then have "\<not> qb_closed b1" using b s by (simp add: pairOk_def stepSpec_def)
  moreover have cfg1: "qb_cfg b1 = cfg" using s cfg by (simp add: stepSpec_def settled_def)
  moreover have "coolFrom now2 (qr_ClientID (reqOf b i)) b1"
    using s assms(2,3) cfg cfg1 by (simp add: coolFrom_def stepSpec_def)
  ultimately have "coolFrom now2 (qr_ClientID (reqOf b i)) b2" "pairOk b2" "qb_closed b2 \<longleftrightarrow> PcShutdown \<in> set ds"
    using run_cool [OF stepSpec_ok [OF b s] assms(5,6)] by auto
  moreover have "qb_cfg b2 = cfg" using pairRun_cfg [OF stepSpec_ok [OF b s] assms(5)] cfg1 by simp
  ultimately have "refuses now (qr_ClientID (reqOf b i)) b2 = Some (if PcShutdown \<in> set ds then Aborted else Denied)"
    using assms(7) by (auto simp: refuses_def coolFrom_def InCooldown_def)
  then show ?thesis using x Request_refused [OF \<open>pairOk b2\<close>] by blast
qed

theorem pairing_cooldown_holds_witness:
  "\<exists>x b1. Deny ''r1'' 5 6 demoPair = Some (x, b1) \<and>
    RequestPairing (\<lambda>r. ''t'') 30 30 ''r4'' ''phone'' 4 b1 = Some (Inl Denied, b1)"
proof -
  have c: "byID demoPair ''r1'' = Some 0" "qr_ClientID (reqOf demoPair 0) = ''phone''" "qr_ExpiresAt (reqOf demoPair 0) = 60"
    "Deny ''r1'' 5 6 demoPair \<noteq> None"
    by (simp_all add: demoPair_def pair_eval Let_def)
  then obtain x b1 where d: "Deny ''r1'' 5 6 demoPair = Some (x, b1)" by auto
  from pairing_cooldown_holds [OF demoPair_run c(1) _ d, of "[]" b1 30 30 "''r4''" 4] c d
  show ?thesis by (simp add: demoPairCfg_def)
qed

subsection \<open>Subscribers\<close>

text \<open>
  A window that subscribed when the broker started shows the head of the queue and the number waiting:
  however the emissions of concurrent calls overtake each other, once none is on its way any more, the
  last snapshot the window was given is the one \<open>Pending\<close> returns.
\<close>

theorem pairing_window_catches_up:
  fixes b :: "'m PairBroker"
  assumes "pairRun title (NewPairBroker cfg) cs = Some b" and "length cs < 2 ^ 64" and "px_flight (qb_pub b) = []"
  shows "snapshotLocked b = Some (told 0 \<lparr>qs_Pending = None, qs_Queued = 0\<rparr> (qb_pub b))"
proof -
  have "told 0 (pairView (NewPairBroker cfg)) (qb_pub b) = pairView b"
    using assms by (intro paired.subscribers_converge [of title "NewPairBroker cfg" cs b] NewPairBroker_ok) (simp_all add: pairRun_eq)
  moreover have "pairView (NewPairBroker cfg :: 'm PairBroker) = \<lparr>qs_Pending = None, qs_Queued = 0\<rparr>"
    by (simp add: pairView_def queued_def NewPairBroker_def)
  moreover have "snapshotLocked b = Some (pairView b)"
    using pairRun_ok [OF assms(1)]
    by (simp add: pairOk_def snapshotLocked_def pairView_def pq.entries_eq queued_def split: list.split)
  ultimately show ?thesis by simp
qed

definition overtaken :: "nat PairCall list" where
  "overtaken = [PcRequest 0 0 ''r1'' ''phone'' 1, PcRequest 0 1 ''r2'' ''laptop'' 2, PcDeliver 1, PcDeliver 0]"

theorem pairing_window_catches_up_witness:
  "\<exists>b. pairRun (\<lambda>r. ''t'') (NewPairBroker demoPairCfg) overtaken = Some b \<and>
    qs_Queued (told 0 \<lparr>qs_Pending = None, qs_Queued = 0\<rparr> (qb_pub b)) = 2"
proof -
  define b where "b = the (pairRun (\<lambda>r. ''t'') (NewPairBroker demoPairCfg) overtaken)"
  have run: "pairRun (\<lambda>r. ''t'') (NewPairBroker demoPairCfg) overtaken = Some b"
    by (simp add: b_def overtaken_def pair_eval Let_def)
  have q: "px_flight (qb_pub b) = []" "map_option qs_Queued (snapshotLocked b) = Some 2"
    by (simp_all add: b_def overtaken_def pair_eval Let_def publish_def NextSeq_def deliver_def)
  have "length overtaken < 2 ^ 64" by (simp add: overtaken_def)
  from pairing_window_catches_up [OF run this q(1)] show ?thesis using run q(2) by auto
qed

end
