(* ===== verification/Approvals.thy ===== *)
theory Approvals
  imports Prompts
begin

text \<open>
  The queue of agent approvals: \<^verbatim>\<open>internal/approvals/queue.go\<close>.  Owners put and remove view items; the
  queue opens a prompt for each, publishes the list after every change and routes an answer to the owner
  of the item's kind.

  The Go map of items is a list of items with distinct ids, in no particular order.  An owner is a
  value of a type variable; what it does when it is asked, changes to the queue included, is the
  argument \<open>ask\<close>.  JSON payloads are byte strings that the queue never reads, and the translated text of
  the not-found error is the catalogue argument \<open>tr\<close>.
\<close>

section \<open>Data\<close>

record ApOrigin =
  ao_Client :: bytes
  ao_Cwd :: bytes
  ao_Task :: bytes
  ao_Step :: bytes
  ao_Source :: bytes

record ApTarget =
  ag_Name :: bytes
  ag_Kind :: bytes
  ag_Color :: bytes
  ag_ReadOnly :: bool
  ag_Location :: bytes

record ApOperation =
  an_Class :: bytes
  an_Tone :: bytes

record ApItem =
  ai_ID :: bytes
  ai_Kind :: bytes
  ai_CreatedAt :: int
  ai_ExpiresAt :: int
  ai_Origin :: ApOrigin
  ai_Target :: ApTarget
  ai_Operation :: ApOperation
  ai_Reason :: bytes
  ai_Payload :: bytes
  ai_Title :: bytes

record ApAnswer =
  aw_Approve :: bool
  aw_Options :: "bytes option"

record ApResult =
  ar_ID :: bytes
  ar_Code :: bytes
  ar_Error :: bytes

record IpcError =
  ie_Code :: bytes
  ie_Message :: bytes

text \<open>An error a Go function returns: one that carries an \<^verbatim>\<open>ipcerr.Error\<close>, or any other with its text.\<close>

datatype GoError = Structured IpcError | PlainError bytes

record 'o ApQueue =
  aq_prompts :: bool
  aq_items :: "ApItem list"
  aq_owners :: "bytes \<rightharpoonup> 'o"
  aq_sink :: "SinkCall list"
  aq_pub :: "ApItem list Publisher"

section \<open>Operations\<close>

definition NotFoundNamed :: "catalogue \<Rightarrow> bytes \<Rightarrow> IpcError" where
  "NotFoundNamed tr nm =
     \<lparr>ie_Code = ''E_NOT_FOUND'', ie_Message = tr ''backend.error.notFound.body'' [(''name'', nm)]\<rparr>"

definition WrapError :: "GoError \<Rightarrow> IpcError" where
  "WrapError err =
     (case err of Structured e \<Rightarrow> e | PlainError msg \<Rightarrow> \<lparr>ie_Code = ''E_INTERNAL'', ie_Message = msg\<rparr>)"

definition NewApQueue :: "bool \<Rightarrow> 'o ApQueue" where
  "NewApQueue sink =
     \<lparr>aq_prompts = sink, aq_items = [], aq_owners = Map.empty, aq_sink = [], aq_pub = watchedPublisher\<rparr>"

definition RegisterOwner :: "bytes \<Rightarrow> 'o \<Rightarrow> 'o ApQueue \<Rightarrow> 'o ApQueue" where
  "RegisterOwner kind ow q = q\<lparr>aq_owners := (aq_owners q)(kind \<mapsto> ow)\<rparr>"

text \<open>
  The comparison is by the sign of a 64-bit difference of creation times in milliseconds; times since the
  epoch are less than \<open>2 ^ 63\<close> apart, so it is their order.
\<close>

definition itemOrder :: "ApItem \<Rightarrow> int \<times> bytes" where
  "itemOrder it = (ai_CreatedAt it, ai_ID it)"

definition ListItems :: "'o ApQueue \<Rightarrow> ApItem list" where
  "ListItems q = sort_key itemOrder (aq_items q)"

definition findItem :: "bytes \<Rightarrow> 'o ApQueue \<Rightarrow> ApItem option" where
  "findItem i q = find (\<lambda>it. ai_ID it = i) (aq_items q)"

definition publishItems :: "'o ApQueue \<Rightarrow> 'o ApQueue" where
  "publishItems q = q\<lparr>aq_pub := publish (ListItems q) (aq_pub q)\<rparr>"

definition approvalPromptID :: "bytes \<Rightarrow> bytes" where
  "approvalPromptID i = promptID ''approval'' i"

definition PutItem :: "ApItem \<Rightarrow> 'o ApQueue \<Rightarrow> 'o ApQueue" where
  "PutItem it q =
     (let existed = (findItem (ai_ID it) q \<noteq> None);
          q1 = q\<lparr>aq_items := (if existed then map (\<lambda>x. if ai_ID x = ai_ID it then it else x) (aq_items q)
                              else aq_items q @ [it])\<rparr>;
          q2 = (if \<not> existed \<and> aq_prompts q
                then q1\<lparr>aq_sink := aq_sink q1 @
                  [SinkOpen \<lparr>pt_ID = approvalPromptID (ai_ID it), pt_Kind = ''approval'', pt_Ref = ai_ID it,
                             pt_Origin = [], pt_Title = ai_Title it, pt_CreatedAt = ai_CreatedAt it\<rparr>]\<rparr>
                else q1)
      in publishItems q2)"

definition RemoveItem :: "bytes \<Rightarrow> 'o ApQueue \<Rightarrow> 'o ApQueue" where
  "RemoveItem i q =
     (if findItem i q = None then q
      else
        let q1 = q\<lparr>aq_items := filter (\<lambda>it. ai_ID it \<noteq> i) (aq_items q)\<rparr>;
            q2 = (if aq_prompts q then q1\<lparr>aq_sink := aq_sink q1 @ [SinkClose (approvalPromptID i)]\<rparr> else q1)
        in publishItems q2)"

type_synonym 'o asking = "'o \<Rightarrow> bytes \<Rightarrow> ApAnswer \<Rightarrow> 'o ApQueue \<Rightarrow> GoError option \<times> 'o ApQueue"

text \<open>\<open>answerOne\<close> looks the owner up under the lock and asks it after the unlock.\<close>

definition answerOne :: "catalogue \<Rightarrow> 'o asking \<Rightarrow> bytes \<Rightarrow> ApAnswer \<Rightarrow> 'o ApQueue \<Rightarrow> ApResult \<times> 'o ApQueue" where
  "answerOne tr ask i a q =
     (let notFound = (let e = NotFoundNamed tr ''approval''
                      in \<lparr>ar_ID = i, ar_Code = ie_Code e, ar_Error = ie_Message e\<rparr>)
      in
      case findItem i q of
        None \<Rightarrow> (notFound, q)
      | Some it \<Rightarrow>
          (case aq_owners q (ai_Kind it) of
             None \<Rightarrow> (notFound, q)
           | Some ow \<Rightarrow>
               (case ask ow (TrimPrefix i (ai_Kind it @ '':'')) a q of
                  (None, q') \<Rightarrow> (\<lparr>ar_ID = i, ar_Code = [], ar_Error = []\<rparr>, q')
                | (Some err, q') \<Rightarrow>
                    (\<lparr>ar_ID = i, ar_Code = ie_Code (WrapError err), ar_Error = ie_Message (WrapError err)\<rparr>, q'))))"

fun AnswerItems ::
  "catalogue \<Rightarrow> 'o asking \<Rightarrow> bytes list \<Rightarrow> bool \<Rightarrow> (bytes \<rightharpoonup> bytes) \<Rightarrow> 'o ApQueue \<Rightarrow> ApResult list \<times> 'o ApQueue" where
  "AnswerItems tr ask [] approve options q = ([], q)"
| "AnswerItems tr ask (i # ids) approve options q =
     (case answerOne tr ask i \<lparr>aw_Approve = approve, aw_Options = options i\<rparr> q of
        (r, q1) \<Rightarrow>
          (case AnswerItems tr ask ids approve options q1 of (rs, q2) \<Rightarrow> (r # rs, q2)))"

section \<open>Runs\<close>

datatype 'o ApCall =
    AcPut ApItem
  | AcRemove bytes
  | AcRegister bytes 'o
  | AcDeliver nat

fun apStep :: "'o ApQueue \<Rightarrow> 'o ApCall \<Rightarrow> 'o ApQueue option" where
  "apStep q (AcPut it) = Some (PutItem it q)"
| "apStep q (AcRemove i) = Some (RemoveItem i q)"
| "apStep q (AcRegister k ow) = Some (RegisterOwner k ow q)"
| "apStep q (AcDeliver n) = Some (q\<lparr>aq_pub := deliver n (aq_pub q)\<rparr>)"

text \<open>What the calls leave pending, as a map: the last put of an id that no later remove took away.\<close>

fun pendingAfter :: "(bytes \<rightharpoonup> ApItem) \<Rightarrow> 'o ApCall list \<Rightarrow> bytes \<rightharpoonup> ApItem" where
  "pendingAfter m [] = m"
| "pendingAfter m (AcPut it # cs) = pendingAfter (m(ai_ID it \<mapsto> it)) cs"
| "pendingAfter m (AcRemove i # cs) = pendingAfter (m(i := None)) cs"
| "pendingAfter m (c # cs) = pendingAfter m cs"

definition itemIDs :: "'o ApQueue \<Rightarrow> bytes list" where
  "itemIDs q = map ai_ID (aq_items q)"

definition apOk :: "'o ApQueue \<Rightarrow> bool" where
  "apOk q \<longleftrightarrow> distinct (itemIDs q) \<and>
     (aq_prompts q \<longrightarrow> sinkIDs {} (aq_sink q) = approvalPromptID ` set (itemIDs q))"

lemma findItem_None: "findItem i q = None \<longleftrightarrow> i \<notin> set (itemIDs q)"
  by (auto simp: findItem_def find_None_iff itemIDs_def)

lemma approvalPromptID_inject [simp]: "approvalPromptID i = approvalPromptID j \<longleftrightarrow> i = j"
  by (simp add: approvalPromptID_def promptID_def)

lemma findItem_map: "findItem i q = map_of (map (\<lambda>it. (ai_ID it, it)) (aq_items q)) i"
proof -
  have "find (\<lambda>it. ai_ID it = i) xs = map_of (map (\<lambda>it. (ai_ID it, it)) xs) i" for xs by (induction xs) auto
  then show ?thesis by (simp add: findItem_def)
qed

lemma find_append: "find P (xs @ ys) = (case find P xs of None \<Rightarrow> find P ys | Some x \<Rightarrow> Some x)"
  by (induction xs) auto

lemma find_replaced:
  "find (\<lambda>x. ai_ID x = i) (map (\<lambda>x. if ai_ID x = ai_ID it then it else x) xs) =
   (if i = ai_ID it \<and> i \<in> ai_ID ` set xs then Some it else find (\<lambda>x. ai_ID x = i) xs)"
  by (induction xs) auto

lemma replaced_ids: "map ai_ID (map (\<lambda>x. if ai_ID x = ai_ID it then it else x) xs) = map ai_ID xs"
  by (induction xs) auto

lemma find_kept: "find (\<lambda>x. ai_ID x = i) (filter (\<lambda>x. ai_ID x \<noteq> j) xs) = (if i = j then None else find (\<lambda>x. ai_ID x = i) xs)"
  by (induction xs) auto

lemma PutItem_items:
  "aq_items (PutItem it q) =
     (if ai_ID it \<in> set (itemIDs q) then map (\<lambda>x. if ai_ID x = ai_ID it then it else x) (aq_items q) else aq_items q @ [it])"
  using findItem_None [of "ai_ID it" q] by (auto simp: PutItem_def publishItems_def Let_def)

lemma PutItem_ids: "itemIDs (PutItem it q) = (if ai_ID it \<in> set (itemIDs q) then itemIDs q else itemIDs q @ [ai_ID it])"
  by (simp add: itemIDs_def PutItem_items replaced_ids del: map_map)

lemma PutItem_find: "findItem i (PutItem it q) = (if i = ai_ID it then Some it else findItem i q)"
proof (cases "ai_ID it \<in> set (itemIDs q)")
  case True
  then show ?thesis by (auto simp: findItem_def PutItem_items find_replaced itemIDs_def)
next
  case False
  then have "findItem (ai_ID it) q = None" by (simp add: findItem_None)
  then show ?thesis using False by (auto simp: findItem_def PutItem_items find_append split: option.split)
qed

lemma PutItem_keeps [simp]:
  "aq_prompts (PutItem it q) = aq_prompts q" "aq_owners (PutItem it q) = aq_owners q"
  by (simp_all add: PutItem_def publishItems_def Let_def)

lemma ListItems_items: "aq_items q' = aq_items q \<Longrightarrow> ListItems q' = ListItems q"
  by (simp add: ListItems_def)

lemma publishItems_pub: "aq_pub (publishItems q) = publish (ListItems (publishItems q)) (aq_pub q)"
  by (simp add: publishItems_def ListItems_def)

lemma PutItem_pub: "aq_pub (PutItem it q) = publish (ListItems (PutItem it q)) (aq_pub q)"
  unfolding PutItem_def Let_def by (subst publishItems_pub) simp

lemma PutItem_sink:
  "sinkIDs S (aq_sink (PutItem it q)) =
     (if aq_prompts q \<and> ai_ID it \<notin> set (itemIDs q) then insert (approvalPromptID (ai_ID it)) (sinkIDs S (aq_sink q))
      else sinkIDs S (aq_sink q))"
  using findItem_None [of "ai_ID it" q] by (auto simp: PutItem_def publishItems_def Let_def sinkIDs_append)

lemma RemoveItem_items: "aq_items (RemoveItem j q) = filter (\<lambda>it. ai_ID it \<noteq> j) (aq_items q)"
  using findItem_None [of j q]
  by (auto simp: RemoveItem_def publishItems_def Let_def itemIDs_def intro!: filter_True [symmetric])

lemma RemoveItem_ids: "itemIDs (RemoveItem j q) = filter (\<lambda>i. i \<noteq> j) (itemIDs q)"
  by (simp add: itemIDs_def RemoveItem_items filter_map comp_def)

lemma RemoveItem_find: "findItem i (RemoveItem j q) = (if i = j then None else findItem i q)"
  by (simp add: findItem_def RemoveItem_items find_kept)

lemma RemoveItem_keeps [simp]:
  "aq_prompts (RemoveItem j q) = aq_prompts q" "aq_owners (RemoveItem j q) = aq_owners q"
  by (simp_all add: RemoveItem_def publishItems_def Let_def)

lemma RemoveItem_sink:
  "sinkIDs S (aq_sink (RemoveItem j q)) =
     (if aq_prompts q \<and> j \<in> set (itemIDs q) then sinkIDs S (aq_sink q) - {approvalPromptID j} else sinkIDs S (aq_sink q))"
  using findItem_None [of j q] by (auto simp: RemoveItem_def publishItems_def Let_def sinkIDs_append)

lemma RemoveItem_pub: "RemoveItem j q = q \<or> aq_pub (RemoveItem j q) = publish (ListItems (RemoveItem j q)) (aq_pub q)"
  unfolding RemoveItem_def Let_def by (auto simp: publishItems_pub)

lemma register_keeps [simp]:
  "itemIDs (RegisterOwner k ow q) = itemIDs q" "itemIDs (q\<lparr>aq_pub := p\<rparr>) = itemIDs q"
  "findItem i (RegisterOwner k ow q) = findItem i q" "findItem i (q\<lparr>aq_pub := p\<rparr>) = findItem i q"
  "aq_prompts (RegisterOwner k ow q) = aq_prompts q" "aq_sink (RegisterOwner k ow q) = aq_sink q"
  by (simp_all add: RegisterOwner_def itemIDs_def findItem_def)

lemma apStep_ok: "apOk q \<Longrightarrow> apStep q c = Some q' \<Longrightarrow> apOk q'"
  by (cases c) (auto simp: apOk_def PutItem_ids PutItem_sink RemoveItem_ids RemoveItem_sink split: if_splits)

lemma NewApQueue_ok: "apOk (NewApQueue sink)"
  by (simp add: apOk_def NewApQueue_def itemIDs_def)

interpretation approved: published_state apStep apOk ListItems aq_pub
proof
  fix q q' :: "'o ApQueue" and c
  assume q: "apOk q" and s: "apStep q c = Some q'"
  show "apOk q'" by (rule apStep_ok [OF q s])
  show "pubMove (ListItems q) (ListItems q') (aq_pub q) (aq_pub q')"
  proof (cases c)
    case (AcPut it)
    then show ?thesis using s PutItem_pub [of it q] pubMove.published by (metis apStep.simps(1) option.inject)
  next
    case (AcRemove i)
    then show ?thesis using s RemoveItem_pub [of i q] pubMove.published pubMove.quiet by (metis apStep.simps(2) option.inject)
  next
    case (AcRegister k ow)
    then show ?thesis using s by (auto simp: RegisterOwner_def ListItems_def intro: pubMove.quiet)
  next
    case (AcDeliver n)
    then show ?thesis using s by (auto simp: ListItems_def intro: pubMove.delivered)
  qed
qed

primrec apRun :: "'o ApQueue \<Rightarrow> 'o ApCall list \<Rightarrow> 'o ApQueue" where
  "apRun q [] = q"
| "apRun q (c # cs) = apRun (the (apStep q c)) cs"

lemma apStep_some: "apStep q c = Some (the (apStep q c))"
  by (cases c) simp_all

lemma apRun_eq: "approved.run q cs = Some (apRun q cs)"
  by (induction cs arbitrary: q) (simp_all add: option.case_eq_if, metis apStep_some option.distinct(1))

lemma apRun_pending: "apOk q \<Longrightarrow> findItem i (apRun q cs) = pendingAfter (\<lambda>j. findItem j q) cs i"
proof (induction cs arbitrary: q)
  case (Cons c cs)
  have ok: "apOk (the (apStep q c))" by (rule apStep_ok [OF Cons.prems apStep_some])
  have "(\<lambda>j. findItem j (the (apStep q c))) =
      (case c of AcPut it \<Rightarrow> (\<lambda>j. findItem j q)(ai_ID it \<mapsto> it) | AcRemove i \<Rightarrow> (\<lambda>j. findItem j q)(i := None) | _ \<Rightarrow> (\<lambda>j. findItem j q))"
    by (cases c) (auto simp: PutItem_find RemoveItem_find fun_eq_iff)
  then show ?case using Cons.IH [OF ok] by (cases c) simp_all
qed simp

lemma apRun_prompts: "aq_prompts (apRun q cs) = aq_prompts q"
proof (induction cs arbitrary: q)
  case (Cons c cs)
  then show ?case by (cases c) simp_all
qed simp

section \<open>What the queue guarantees\<close>

text \<open>
  C36: The list, the prompts and the map agree.  After any sequence of puts, removes and registrations the list
  holds, oldest first and each id once, exactly the items put last under an id that no later remove took
  away, and the prompts open at the sink are exactly theirs; once no emission is on its way any more,
  the subscribers were last given that list.
\<close>

theorem approvals_list_exact:
  assumes "q = apRun (NewApQueue sink) cs" and "length cs < 2 ^ 64"
  shows "set (ListItems q) = ran (pendingAfter Map.empty cs) \<and> sorted (map itemOrder (ListItems q)) \<and>
    distinct (map ai_ID (ListItems q)) \<and>
    (sink \<longrightarrow> sinkIDs {} (aq_sink q) = approvalPromptID ` dom (pendingAfter Map.empty cs)) \<and>
    (px_flight (aq_pub q) = [] \<longrightarrow> told 0 [] (aq_pub q) = ListItems q)"
proof -
  have run: "approved.run (NewApQueue sink) cs = Some q" by (simp add: apRun_eq assms(1))
  have ok: "apOk q" by (rule approved.run_ok [OF run NewApQueue_ok])
  have f: "(\<lambda>i. findItem i q) = pendingAfter Map.empty cs"
    using apRun_pending [OF NewApQueue_ok, of _ sink cs] by (simp add: assms(1) NewApQueue_def findItem_def)
  have d: "distinct (map ai_ID (aq_items q))" using ok by (simp add: apOk_def itemIDs_def)
  have m: "(\<lambda>i. findItem i q) = map_of (map (\<lambda>it. (ai_ID it, it)) (aq_items q))" by (rule ext) (rule findItem_map)
  have "ran (pendingAfter Map.empty cs) = set (aq_items q)"
    unfolding f [symmetric] m using d by (subst ran_distinct) (auto simp: comp_def image_image)
  moreover have "dom (pendingAfter Map.empty cs) = set (itemIDs q)"
    unfolding f [symmetric] m by (auto simp: dom_map_of_conv_image_fst itemIDs_def image_image)
  moreover have "aq_prompts q = sink" by (simp add: assms(1) apRun_prompts NewApQueue_def)
  moreover have "told 0 [] (aq_pub q) = ListItems q" if "px_flight (aq_pub q) = []"
    using approved.subscribers_converge [OF run NewApQueue_ok _ assms(2) that] by (simp add: NewApQueue_def ListItems_def)
  moreover have "distinct (map ai_ID (ListItems q))"
  proof -
    have "mset (map ai_ID (ListItems q)) = mset (map ai_ID (aq_items q))" by (simp add: ListItems_def)
    then show ?thesis using d by (metis mset_eq_imp_distinct_iff)
  qed
  ultimately show ?thesis using ok by (auto simp: ListItems_def apOk_def)
qed

definition demoItem :: "bytes \<Rightarrow> int \<Rightarrow> ApItem" where
  "demoItem i t =
     \<lparr>ai_ID = i, ai_Kind = ''db.query'', ai_CreatedAt = t, ai_ExpiresAt = 0,
      ai_Origin = \<lparr>ao_Client = [], ao_Cwd = [], ao_Task = [], ao_Step = [], ao_Source = []\<rparr>,
      ai_Target = \<lparr>ag_Name = [], ag_Kind = [], ag_Color = [], ag_ReadOnly = False, ag_Location = []\<rparr>,
      ai_Operation = \<lparr>an_Class = ''read'', an_Tone = ''neutral''\<rparr>, ai_Reason = [], ai_Payload = [], ai_Title = []\<rparr>"

definition demoApCalls :: "nat ApCall list" where
  "demoApCalls = [AcPut (demoItem ''db.query:b'' 7), AcPut (demoItem ''db.query:a'' 7), AcRemove ''db.query:b'', AcDeliver 2,
     AcDeliver 0, AcDeliver 0]"

lemma flight_length:
  "length (px_flight (publish v p)) = length (px_flight p) + 1"
  "length (px_flight (deliver i p)) = (if i < length (px_flight p) then length (px_flight p) - 1 else length (px_flight p))"
  by (auto simp: publish_def deliver_def NextSeq_def split: prod.split)

theorem approvals_list_exact_witness:
  "let q = apRun (NewApQueue True) demoApCalls
   in set (ListItems q) = {demoItem ''db.query:a'' 7} \<and> told 0 [] (aq_pub q) = ListItems q"
proof -
  have "pendingAfter Map.empty demoApCalls = [''db.query:a'' \<mapsto> demoItem ''db.query:a'' 7]"
    by (auto simp: demoApCalls_def demoItem_def fun_eq_iff)
  moreover have "px_flight (aq_pub (apRun (NewApQueue True) demoApCalls)) = []"
  proof -
    let ?q = "PutItem (demoItem ''db.query:a'' 7) (PutItem (demoItem ''db.query:b'' 7) (NewApQueue True :: nat ApQueue))"
    have "findItem ''db.query:b'' ?q \<noteq> None" by (simp add: PutItem_find demoItem_def)
    then have "length (px_flight (aq_pub (RemoveItem ''db.query:b'' ?q))) = 3"
      by (simp add: RemoveItem_def publishItems_pub Let_def flight_length PutItem_pub NewApQueue_def)
    then show ?thesis by (simp add: demoApCalls_def flight_length flip: length_0_conv)
  qed
  moreover have "length demoApCalls < 2 ^ 64" by (simp add: demoApCalls_def)
  ultimately show ?thesis using approvals_list_exact [OF refl, of demoApCalls True] by (simp add: Let_def)
qed

section \<open>Answers\<close>

text \<open>Every id is reported on, in order, and asked in the state the answers before it left: no failure stops the rest.\<close>

lemma AnswerItems_length: "length (fst (AnswerItems tr ask ids approve options q)) = length ids"
  by (induction ids arbitrary: q) (simp_all add: case_prod_beta)

lemma AnswerItems_nth:
  "k < length ids \<Longrightarrow> fst (AnswerItems tr ask ids approve options q) ! k =
     fst (answerOne tr ask (ids ! k) \<lparr>aw_Approve = approve, aw_Options = options (ids ! k)\<rparr>
       (snd (AnswerItems tr ask (take k ids) approve options q)))"
proof (induction ids arbitrary: k q)
  case (Cons i ids)
  then show ?case by (cases k) (simp_all add: case_prod_beta)
qed simp

text \<open>
  An answer is routed to the owner of the item's kind, with the reference its id was built from; an item
  whose owner has removed it by then is reported as not found.
\<close>

lemma answer_routed:
  assumes "apOk q" and "it \<in> set (aq_items q)" and "ai_ID it = ai_Kind it @ '':'' @ ref" and "aq_owners q (ai_Kind it) = Some ow"
  shows "answerOne tr ask (ai_ID it) a q =
    (case ask ow ref a q of (err, q') \<Rightarrow>
       (\<lparr>ar_ID = ai_ID it, ar_Code = (case err of None \<Rightarrow> [] | Some e \<Rightarrow> ie_Code (WrapError e)),
         ar_Error = (case err of None \<Rightarrow> [] | Some e \<Rightarrow> ie_Message (WrapError e))\<rparr>, q'))"
proof -
  have "distinct (map fst (map (\<lambda>it. (ai_ID it, it)) (aq_items q)))"
    using assms(1) by (simp add: apOk_def itemIDs_def comp_def)
  then have "findItem (ai_ID it) q = Some it"
    unfolding findItem_map using assms(2) by (intro map_of_is_SomeI) auto
  moreover have "TrimPrefix (ai_ID it) (ai_Kind it @ '':'') = ref"
    using TrimPrefix_append [of "ai_Kind it @ '':''" ref] by (simp add: assms(3))
  ultimately show ?thesis by (simp add: answerOne_def assms(4) split: option.split prod.split)
qed

end
