(* ===== verification/PromptBound.thy ===== *)
theory PromptBound
  imports Approvals
begin

text \<open>
  What a window may do to the prompts: \<^verbatim>\<open>internal/prompts/bound.go\<close>.  A window lists and claims every prompt,
  but raises and dismisses only update popups; \<open>window_touches_updates\<close> shows that no argument it sends gets
  around that.
\<close>

section \<open>Operations\<close>

definition maxRefBytes :: nat where
  "maxRefBytes = 64"

definition Contract :: "bytes \<Rightarrow> IpcError" where
  "Contract msg = \<lparr>ie_Code = ''E_CONTRACT'', ie_Message = msg\<rparr>"

definition Required :: "bytes \<Rightarrow> IpcError" where
  "Required field = Contract (field @ '' is required'')"

text \<open>\<^verbatim>\<open>utf8.ValidString\<close>, on the byte values.\<close>

definition contByte :: "nat \<Rightarrow> bool" where
  "contByte b \<longleftrightarrow> 0x80 \<le> b \<and> b \<le> 0xBF"

fun validUtf8 :: "nat list \<Rightarrow> bool" where
  "validUtf8 [] \<longleftrightarrow> True"
| "validUtf8 (a # bs) \<longleftrightarrow>
     (if a < 0x80 then validUtf8 bs
      else if 0xC2 \<le> a \<and> a \<le> 0xDF then
        (case bs of b # cs \<Rightarrow> contByte b \<and> validUtf8 cs | _ \<Rightarrow> False)
      else if 0xE0 \<le> a \<and> a \<le> 0xEF then
        (case bs of
           b # c # ds \<Rightarrow>
             contByte b \<and> (a = 0xE0 \<longrightarrow> 0xA0 \<le> b) \<and> (a = 0xED \<longrightarrow> b \<le> 0x9F) \<and> contByte c \<and> validUtf8 ds
         | _ \<Rightarrow> False)
      else if 0xF0 \<le> a \<and> a \<le> 0xF4 then
        (case bs of
           b # c # d # es \<Rightarrow>
             contByte b \<and> (a = 0xF0 \<longrightarrow> 0x90 \<le> b) \<and> (a = 0xF4 \<longrightarrow> b \<le> 0x8F) \<and> contByte c \<and> contByte d \<and> validUtf8 es
         | _ \<Rightarrow> False)
      else False)"

definition ValidString :: "bytes \<Rightarrow> bool" where
  "ValidString s = validUtf8 (map of_char s)"

definition BoundList :: "Windows \<Rightarrow> Router \<Rightarrow> Routed list" where
  "BoundList w r = ListRouted w r"

definition BoundMainWindow :: "Windows \<Rightarrow> bytes" where
  "BoundMainWindow w = (case wx_MainKey w of Some k \<Rightarrow> k | None \<Rightarrow> [])"

text \<open>The errors of the router's \<open>Claim\<close> are wire errors already.\<close>

definition BoundClaim :: "catalogue \<Rightarrow> Windows \<Rightarrow> bytes \<Rightarrow> bytes \<Rightarrow> Router \<Rightarrow> IpcError option \<times> Router" where
  "BoundClaim tr w i windowKey r =
     (case Claim w i windowKey r of
        (err, r1) \<Rightarrow>
          (map_option (\<lambda>e. case e of ContractError m \<Rightarrow> Contract m | PromptGone \<Rightarrow> \<lparr>ie_Code = ''E_NOT_FOUND'', ie_Message = tr ''backend.core.prompt.gone.body'' []\<rparr>) err, r1))"

definition updatePrompt :: "catalogue \<Rightarrow> bytes \<Rightarrow> bytes \<Rightarrow> Prompt" where
  "updatePrompt tr app ref =
     \<lparr>pt_ID = promptID ''update'' ref, pt_Kind = ''update'', pt_Ref = ref, pt_Origin = [],
      pt_Title = tr ''backend.prompt.update.title'' [(''app'', app), (''version'', ref)], pt_CreatedAt = 0\<rparr>"

definition Raise ::
  "catalogue \<Rightarrow> (bytes \<Rightarrow> bool) \<Rightarrow> Windows \<Rightarrow> bool \<Rightarrow> int \<Rightarrow> int \<Rightarrow> bytes \<Rightarrow> bytes \<Rightarrow> Router \<Rightarrow> IpcError option \<times> Router" where
  "Raise tr ro w en nowMs now kind ref r =
     (if kind \<noteq> ''update'' then (Some (Contract ''only the update prompt is raised from the window''), r)
      else if ref = [] \<or> length ref > maxRefBytes \<or> \<not> ValidString ref
      then (Some (Contract ''ref is required and at most 64 bytes''), r)
      else (None, snd (OpenPrompt tr ro w en nowMs now (updatePrompt tr (rt_App r) ref) r)))"

definition Dismiss :: "catalogue \<Rightarrow> Windows \<Rightarrow> bytes \<Rightarrow> Router \<Rightarrow> IpcError option \<times> Router" where
  "Dismiss tr w i r =
     (if i = [] then (Some (Required ''id''), r)
      else if \<not> HasPrefix i ''update:'' then (Some (Contract ''only the update prompt is dismissed from the window''), r)
      else (None, ClosePrompt tr w i r))"

definition BoundSendTest :: "catalogue \<Rightarrow> bool \<Rightarrow> Router \<Rightarrow> Router" where
  "BoundSendTest tr en r = SendTest tr en r"
section \<open>What a window may change\<close>

text \<open>Owners open prompts under ids made of their kind, which holds no colon.\<close>

definition idsMade :: "Router \<Rightarrow> bool" where
  "idsMade r \<longleftrightarrow> list_all (\<lambda>e. pt_ID (pe_Prompt e) = promptID (pt_Kind (pe_Prompt e)) (pt_Ref (pe_Prompt e)) \<and>
     CHR '':'' \<notin> set (pt_Kind (pe_Prompt e))) (rt_entries r)"

definition others :: "Router \<Rightarrow> promptEntry list" where
  "others r = filter (\<lambda>e. pt_Kind (pe_Prompt e) \<noteq> ''update'') (rt_entries r)"

lemma kind_of_id:
  assumes "CHR '':'' \<notin> set k" and "HasPrefix (promptID k ref) ''update:''"
  shows "k = ''update''"
proof -
  obtain z where "k @ '':'' @ ref = ''update'' @ '':'' @ z"
    using assms(2) by (auto simp: HasPrefix_iff_prefix promptID_def prefix_def)
  then have "takeWhile (\<lambda>c. c \<noteq> CHR '':'') (k @ '':'' @ ref) = takeWhile (\<lambda>c. c \<noteq> CHR '':'') (''update'' @ '':'' @ z)" by simp
  moreover have "takeWhile (\<lambda>c. c \<noteq> CHR '':'') (k @ '':'' @ ref) = k" using assms(1) by (subst takeWhile_append2) auto
  ultimately show ?thesis by simp
qed

lemma open_others: "pt_Kind p = ''update'' \<Longrightarrow> others (snd (OpenPrompt tr ro w en nowMs now p r)) = others r"
  by (auto simp: OpenPrompt_def others_def Let_def)

lemma close_entries: "rt_entries (ClosePrompt tr w i r) = filter (\<lambda>e. pt_ID (pe_Prompt e) \<noteq> i) (rt_entries r)"
proof (cases "findPrompt i r")
  case None
  then have "\<forall>e\<in>set (rt_entries r). pt_ID (pe_Prompt e) \<noteq> i" by (auto simp: findPrompt_def find_None_iff)
  then show ?thesis using None by (simp add: ClosePrompt_def filter_id_conv)
next
  case (Some e)
  then show ?thesis by (simp add: ClosePrompt_def Let_def case_prod_beta split: option.split)
qed

text \<open>
  C31: A window touches update popups only.  Whatever kind, reference or id it sends, raising and dismissing
  leave every other prompt, with its claim, as it was, and a call that is refused changes nothing; an
  accepted raise has a reference of valid text of at most 64 bytes.
\<close>

theorem window_touches_updates:
  assumes "idsMade r"
  shows "others (snd (Raise tr ro w en nowMs now kind ref r)) = others r \<and> others (snd (Dismiss tr w i r)) = others r \<and>
    (if fst (Raise tr ro w en nowMs now kind ref r) = None
     then kind = ''update'' \<and> ref \<noteq> [] \<and> length ref \<le> maxRefBytes \<and> ValidString ref
     else snd (Raise tr ro w en nowMs now kind ref r) = r) \<and>
    (if fst (Dismiss tr w i r) = None then HasPrefix i ''update:'' else snd (Dismiss tr w i r) = r)"
proof -
  have "others (snd (Raise tr ro w en nowMs now kind ref r)) = others r"
    by (simp add: Raise_def open_others updatePrompt_def)
  moreover have "others (snd (Dismiss tr w i r)) = others r"
  proof (cases "HasPrefix i ''update:''")
    case True
    have "pt_ID (pe_Prompt e) \<noteq> i" if "e \<in> set (rt_entries r)" "pt_Kind (pe_Prompt e) \<noteq> ''update''" for e
      using assms that kind_of_id [of "pt_Kind (pe_Prompt e)" "pt_Ref (pe_Prompt e)"] True by (auto simp: idsMade_def list_all_iff)
    then show ?thesis by (auto simp: Dismiss_def others_def close_entries intro!: filter_cong)
  qed (simp add: Dismiss_def)
  ultimately show ?thesis by (simp add: Raise_def Dismiss_def)
qed

theorem window_touches_updates_witness:
  "let w = \<lparr>wx_MainKey = None, wx_Has = \<lambda>k. False, wx_Focused = \<lambda>k. False\<rparr>;
       r = snd (OpenPrompt (\<lambda>k a. k) (\<lambda>k. False) w False 5 0
             \<lparr>pt_ID = ''approval:update:1'', pt_Kind = ''approval'', pt_Ref = ''update:1'', pt_Origin = [], pt_Title = [], pt_CreatedAt = 7\<rparr>
             (newRouter ''Space''))
   in idsMade r \<and> length (others r) = 1 \<and> others (snd (Dismiss (\<lambda>k a. k) w ''update:1'' r)) = others r"
proof -
  let ?w = "\<lparr>wx_MainKey = None, wx_Has = \<lambda>k. False, wx_Focused = \<lambda>k. False\<rparr>"
  let ?r = "snd (OpenPrompt (\<lambda>k a. k) (\<lambda>k. False) ?w False 5 0
             \<lparr>pt_ID = ''approval:update:1'', pt_Kind = ''approval'', pt_Ref = ''update:1'', pt_Origin = [], pt_Title = [], pt_CreatedAt = 7\<rparr>
             (newRouter ''Space''))"
  have "idsMade ?r" "length (others ?r) = 1"
    by (simp_all add: OpenPrompt_def newRouter_def findPrompt_def Let_def idsMade_def others_def promptID_def)
  then show ?thesis using window_touches_updates [of ?r] by (simp add: Let_def)
qed

end
