(* ===== verification/ApiVars.thy ===== *)
theory ApiVars
  imports PromptBound
begin

text \<open>
  Variables in API requests: \<^verbatim>\<open>apivars/transforms.go\<close>, \<^verbatim>\<open>apivars/resolve.go\<close> and \<^verbatim>\<open>apivars/mask.go\<close>.  A text
  holds references \<^verbatim>\<open>{{name | transform}}\<close>.  Plain variables are substituted first; the references to secrets
  are left for the resolver, which opens each secret at most once, records every span it wrote and fails
  the send when a secret is not set.  The recorded spans are masked wherever the exchange is shown.

  Strings are byte strings.  The Unicode case mappings come from a library and are the argument \<open>cs\<close>, the
  secret store is the argument \<open>src\<close>, the text catalogue the argument \<open>tr\<close>.  A Go map that is only looked up
  is a partial function; the secrets of a scope are an association list, because they are counted.
\<close>

section \<open>Transforms\<close>

record casers =
  cs_upper :: "bytes \<Rightarrow> bytes"
  cs_lower :: "bytes \<Rightarrow> bytes"

definition transformNames :: "bytes list" where
  "transformNames = [''base64'', ''base64decode'', ''upper'', ''lower'', ''urlencode'', ''urldecode'']"

definition IsTransformName :: "bytes \<Rightarrow> bool" where
  "IsTransformName name \<longleftrightarrow> name \<in> set transformNames"

text \<open>\<^verbatim>\<open>base64.StdEncoding\<close>, and \<^verbatim>\<open>base64.RawStdEncoding\<close> for decoding.\<close>

definition b64Char :: "nat \<Rightarrow> char" where
  "b64Char n =
     (if n < 26 then char_of (n + 65) else if n < 52 then char_of (n + 71)
      else if n < 62 then char_of (n - 4) else if n = 62 then CHR ''+'' else CHR ''/'')"

definition b64Value :: "char \<Rightarrow> nat option" where
  "b64Value c =
     (let n = of_char c :: nat in
      if 65 \<le> n \<and> n \<le> 90 then Some (n - 65) else if 97 \<le> n \<and> n \<le> 122 then Some (n - 71)
      else if 48 \<le> n \<and> n \<le> 57 then Some (n + 4) else if c = CHR ''+'' then Some 62 else if c = CHR ''/'' then Some 63 else None)"

fun b64Encode :: "bytes \<Rightarrow> bytes" where
  "b64Encode [] = []"
| "b64Encode [a] = (let x = of_char a :: nat in [b64Char (x div 4), b64Char (x mod 4 * 16), CHR ''='', CHR ''=''])"
| "b64Encode [a, b] =
     (let x = of_char a :: nat; y = of_char b :: nat
      in [b64Char (x div 4), b64Char (x mod 4 * 16 + y div 16), b64Char (y mod 16 * 4), CHR ''=''])"
| "b64Encode (a # b # c # s) =
     (let x = of_char a :: nat; y = of_char b :: nat; z = of_char c :: nat
      in [b64Char (x div 4), b64Char (x mod 4 * 16 + y div 16), b64Char (y mod 16 * 4 + z div 64), b64Char (z mod 64)] @ b64Encode s)"

fun b64RawDecode :: "nat list \<Rightarrow> bytes option" where
  "b64RawDecode [] = Some []"
| "b64RawDecode [p] = None"
| "b64RawDecode [p, q] = Some [char_of (p * 4 + q div 16)]"
| "b64RawDecode [p, q, r] = Some [char_of (p * 4 + q div 16), char_of (q mod 16 * 16 + r div 4)]"
| "b64RawDecode (p # q # r # t # s) =
     map_option (\<lambda>d. [char_of (p * 4 + q div 16), char_of (q mod 16 * 16 + r div 4), char_of (r mod 4 * 64 + t)] @ d) (b64RawDecode s)"

text \<open>
  A byte outside ASCII makes the decoding fail whether or not the copy of the text has replaced it, so the
  copy keeps it as it is.
\<close>

definition forgivingBase64Decode :: "bytes \<Rightarrow> bytes option" where
  "forgivingBase64Decode s =
     (let stripped = filter (\<lambda>c. c \<notin> {CHR 0x20, CHR 0x09, CHR 0x0A, CHR 0x0C, CHR 0x0D}) s;
          trimmed = rev (dropWhile (\<lambda>c. c = CHR ''='') (rev stripped))
      in
      if length stripped mod 4 = 0 \<and> length stripped - length trimmed > 2 then None
      else
        let rest = (if length stripped mod 4 = 0 then trimmed else stripped) in
        if length rest mod 4 = 1 then None
        else if CHR ''='' \<in> set rest then None
        else if list_all (\<lambda>c. b64Value c \<noteq> None) rest then b64RawDecode (map (the \<circ> b64Value) rest) else None)"

text \<open>\<^verbatim>\<open>url.QueryEscape\<close>, \<^verbatim>\<open>url.PathEscape\<close> and \<^verbatim>\<open>url.QueryUnescape\<close>.\<close>

definition isUnreserved :: "char \<Rightarrow> bool" where
  "isUnreserved c \<longleftrightarrow>
     (let n = of_char c :: nat in 65 \<le> n \<and> n \<le> 90 \<or> 97 \<le> n \<and> n \<le> 122 \<or> 48 \<le> n \<and> n \<le> 57) \<or>
     c \<in> {CHR ''-'', CHR ''_'', CHR ''.'', CHR ''~''}"

definition hexDigit :: "nat \<Rightarrow> char" where
  "hexDigit n = (if n < 10 then char_of (n + 48) else char_of (n + 55))"

definition unhex :: "char \<Rightarrow> nat option" where
  "unhex c =
     (let n = of_char c :: nat in
      if 48 \<le> n \<and> n \<le> 57 then Some (n - 48) else if 97 \<le> n \<and> n \<le> 102 then Some (n - 87)
      else if 65 \<le> n \<and> n \<le> 70 then Some (n - 55) else None)"

definition percent :: "char \<Rightarrow> bytes" where
  "percent c = [CHR ''%'', hexDigit (of_char c div 16), hexDigit (of_char c mod 16)]"

definition QueryEscape :: "bytes \<Rightarrow> bytes" where
  "QueryEscape s = concat (map (\<lambda>c. if isUnreserved c then [c] else if c = CHR '' '' then [CHR ''+''] else percent c) s)"

definition PathEscape :: "bytes \<Rightarrow> bytes" where
  "PathEscape s =
     concat (map (\<lambda>c. if isUnreserved c \<or> c \<in> {CHR ''$'', CHR ''&'', CHR ''+'', CHR ''='', CHR '':'', CHR ''@''} then [c] else percent c) s)"

fun QueryUnescape :: "bytes \<Rightarrow> bytes option" where
  "QueryUnescape [] = Some []"
| "QueryUnescape (c # s) =
     (if c = CHR ''%'' then
        (case s of
           a # b # t \<Rightarrow>
             (case (unhex a, unhex b) of
                (Some x, Some y) \<Rightarrow> map_option (\<lambda>d. char_of (16 * x + y) # d) (QueryUnescape t)
              | _ \<Rightarrow> None)
         | _ \<Rightarrow> None)
      else map_option (\<lambda>d. (if c = CHR ''+'' then CHR '' '' else c) # d) (QueryUnescape s))"

definition applyTransform :: "casers \<Rightarrow> bytes \<Rightarrow> bytes \<Rightarrow> bytes option" where
  "applyTransform cs name s =
     (if name = ''base64'' then Some (b64Encode s)
      else if name = ''base64decode'' then
        (case forgivingBase64Decode s of None \<Rightarrow> None | Some d \<Rightarrow> if ValidString d then Some d else None)
      else if name = ''upper'' then Some (cs_upper cs s)
      else if name = ''lower'' then Some (cs_lower cs s)
      else if name = ''urlencode'' then Some (QueryEscape s)
      else if name = ''urldecode'' then
        (case QueryUnescape s of None \<Rightarrow> None | Some d \<Rightarrow> if ValidString d then Some d else None)
      else None)"

fun ApplyPipeline :: "casers \<Rightarrow> bytes list \<Rightarrow> bytes \<Rightarrow> bytes option" where
  "ApplyPipeline cs [] v = Some v"
| "ApplyPipeline cs (name # ps) v =
     (case applyTransform cs name v of None \<Rightarrow> None | Some w \<Rightarrow> ApplyPipeline cs ps w)"

section \<open>References\<close>

datatype ReferenceKind = KindResolved | KindDeferred | KindDynamic | KindUnknown

record Reference =
  rf_Name :: bytes
  rf_Kind :: ReferenceKind
  rf_Pipeline :: "bytes list"

record ParsedReference =
  pr_Name :: bytes
  pr_Pipeline :: "bytes list"
  pr_Normalized :: bytes

definition IsDynamicReference :: "bytes \<Rightarrow> bool" where
  "IsDynamicReference name \<longleftrightarrow> HasPrefix name ''$'' \<or> HasPrefix name ''fake.''"

definition ParseReference :: "bytes \<Rightarrow> ParsedReference" where
  "ParseReference inner =
     (let plain = \<lparr>pr_Name = inner, pr_Pipeline = [], pr_Normalized = ''{{'' @ inner @ ''}}''\<rparr> in
      if \<not> Contains inner ''|'' then plain
      else
        let segments = map TrimSpace (SplitByte inner (CHR ''|''));
            name = hd segments;
            rest = tl segments
        in
        if name \<noteq> [] \<and> list_all IsTransformName rest
        then \<lparr>pr_Name = name, pr_Pipeline = rest, pr_Normalized = ''{{'' @ JoinStr (name # rest) '' | '' @ ''}}''\<rparr>
        else plain)"

text \<open>
  The next span of a text: what is before it, the text between the braces and what follows.  Both scanning
  loops of the source start with it.
\<close>

definition nextSpan :: "bytes \<Rightarrow> (bytes \<times> bytes \<times> bytes) option" where
  "nextSpan s =
     (case Cut s ''{{'' of
        None \<Rightarrow> None
      | Some (before, s1) \<Rightarrow> (case Cut s1 ''}}'' of None \<Rightarrow> None | Some (raw, s2) \<Rightarrow> Some (before, raw, s2)))"

lemma nextSpan_Some: "nextSpan s = Some (before, raw, rest) \<Longrightarrow> s = before @ ''{{'' @ raw @ ''}}'' @ rest"
  by (auto simp: nextSpan_def dest!: Cut_Some split: option.splits)

section \<open>Substitution\<close>

text \<open>What the substitution is given; \<open>su_nested\<close> are the deferred references inside a plain value.\<close>

record substitution =
  su_cs :: casers
  su_values :: "bytes \<Rightarrow> bytes option"
  su_secrets :: "bytes list"
  su_sanitize :: "bytes \<Rightarrow> bytes"
  su_nested :: "bytes \<Rightarrow> Reference list"

text \<open>A call of \<^verbatim>\<open>onResolved\<close>: the name, the text written and the placeholder.\<close>

type_synonym resolvedSpan = "bytes \<times> bytes \<times> bytes"

definition resolvePlainOrUnknown :: "substitution \<Rightarrow> ParsedReference \<Rightarrow> bytes \<Rightarrow> bytes \<times> Reference list \<times> resolvedSpan list" where
  "resolvePlainOrUnknown su p span =
     (let unknown = (su_sanitize su span, [\<lparr>rf_Name = pr_Name p, rf_Kind = KindUnknown, rf_Pipeline = pr_Pipeline p\<rparr>], []) in
      case su_values su (pr_Name p) of
        None \<Rightarrow> unknown
      | Some v \<Rightarrow>
          (case ApplyPipeline (su_cs su) (pr_Pipeline p) v of
             None \<Rightarrow> unknown
           | Some rendered \<Rightarrow>
               (rendered,
                \<lparr>rf_Name = pr_Name p, rf_Kind = KindResolved, rf_Pipeline = pr_Pipeline p\<rparr> #
                  (if pr_Pipeline p \<noteq> [] \<or> su_secrets su = [] \<or> \<not> Contains v ''{{'' then [] else su_nested su v),
                [(pr_Name p, rendered, pr_Normalized p)])))"

definition resolveOneSpan :: "substitution \<Rightarrow> ParsedReference \<Rightarrow> bytes \<Rightarrow> bytes \<times> Reference list \<times> resolvedSpan list" where
  "resolveOneSpan su p span =
     (if IsDynamicReference (pr_Name p)
      then (su_sanitize su span, [\<lparr>rf_Name = pr_Name p, rf_Kind = KindDynamic, rf_Pipeline = pr_Pipeline p\<rparr>], [])
      else if pr_Name p \<in> set (su_secrets su)
      then (span, [\<lparr>rf_Name = pr_Name p, rf_Kind = KindDeferred, rf_Pipeline = pr_Pipeline p\<rparr>], [])
      else resolvePlainOrUnknown su p span)"

definition resolveSpan :: "substitution \<Rightarrow> bytes \<Rightarrow> bytes \<times> Reference list \<times> resolvedSpan list" where
  "resolveSpan su raw =
     (let inner = TrimSpace raw; span = ''{{'' @ raw @ ''}}'' in
      if inner = [] then (span, [], []) else resolveOneSpan su (ParseReference inner) span)"

function resolveLoop :: "substitution \<Rightarrow> bytes \<Rightarrow> bytes \<times> Reference list \<times> resolvedSpan list" where
  "resolveLoop su s =
     (case nextSpan s of
        None \<Rightarrow> (s, [], [])
      | Some (before, raw, rest) \<Rightarrow>
          (case resolveSpan su raw of
             (written, refs, calls) \<Rightarrow>
               (case resolveLoop su rest of
                  (out, refs', calls') \<Rightarrow> (before @ written @ out, refs @ refs', calls @ calls'))))"
  by pat_completeness auto
termination
  by (relation "measure (\<lambda>(su, s). length s)") (auto dest!: nextSpan_Some)

declare resolveLoop.simps [simp del]

text \<open>The nested call has no values, so it resolves nothing and asks for nothing nested itself.\<close>

definition nestedDeferredSecretRefs :: "casers \<Rightarrow> bytes list \<Rightarrow> bytes \<Rightarrow> Reference list" where
  "nestedDeferredSecretRefs cs secretNames v =
     filter (\<lambda>r. rf_Kind r = KindDeferred)
       (fst (snd (resolveLoop \<lparr>su_cs = cs, su_values = (\<lambda>n. None), su_secrets = secretNames, su_sanitize = (\<lambda>s. s), su_nested = (\<lambda>v. [])\<rparr> v)))"

definition resolveWithSanitizer ::
  "casers \<Rightarrow> bytes \<Rightarrow> (bytes \<Rightarrow> bytes option) \<Rightarrow> bytes list \<Rightarrow> (bytes \<Rightarrow> bytes) \<Rightarrow> bytes \<times> Reference list \<times> resolvedSpan list" where
  "resolveWithSanitizer cs s vals secretNames sanitize =
     resolveLoop \<lparr>su_cs = cs, su_values = vals, su_secrets = secretNames, su_sanitize = sanitize,
       su_nested = nestedDeferredSecretRefs cs secretNames\<rparr> s"

definition Resolve :: "casers \<Rightarrow> bytes \<Rightarrow> (bytes \<Rightarrow> bytes option) \<Rightarrow> bytes list \<Rightarrow> bytes \<times> Reference list" where
  "Resolve cs s vals secretNames =
     (case resolveWithSanitizer cs s vals secretNames (\<lambda>s. s) of (out, refs, calls) \<Rightarrow> (out, refs))"

function namesLoop :: "bytes list \<Rightarrow> bytes \<Rightarrow> bytes list" where
  "namesLoop seen s =
     (case nextSpan s of
        None \<Rightarrow> []
      | Some (before, raw, rest) \<Rightarrow>
          let inner = TrimSpace raw; name = pr_Name (ParseReference inner) in
          if inner = [] \<or> name \<in> set seen then namesLoop seen rest else name # namesLoop (name # seen) rest)"
  by pat_completeness auto
termination
  by (relation "measure (\<lambda>(seen, s). length s)") (auto dest!: nextSpan_Some)

declare namesLoop.simps [simp del]

definition Names :: "bytes \<Rightarrow> bytes list" where
  "Names s = namesLoop [] s"

text \<open>A replacer with one-byte patterns.\<close>

definition urlUnsafe :: "bytes \<Rightarrow> bytes" where
  "urlUnsafe s = concat (map (\<lambda>c. if c \<in> {CHR '' '', CHR 0x09, CHR 0x0D, CHR 0x0A, CHR ''&'', CHR ''#'', CHR ''='', CHR ''|''} then percent c else [c]) s)"

section \<open>The resolver\<close>

datatype SecretError = SecretMissing | SecretUnreadable

record UsedSecret =
  us_Name :: bytes
  us_Rendered :: bytes
  us_Placeholder :: bytes

record Resolver =
  rv_refs :: "(bytes \<times> bytes) list"
  rv_secretValues :: "bytes \<Rightarrow> bytes option"
  rv_used :: "UsedSecret list"
  rv_usedSeen :: "bytes set"
  rv_err :: "IpcError option"

definition NewResolverFor :: "(bytes \<times> bytes) list \<Rightarrow> Resolver" where
  "NewResolverFor refs = \<lparr>rv_refs = refs, rv_secretValues = Map.empty, rv_used = [], rv_usedSeen = {}, rv_err = None\<rparr>"

definition AnySecret :: "Resolver \<Rightarrow> bool" where
  "AnySecret r \<longleftrightarrow> 0 < length (rv_refs r)"

type_synonym secret_source = "bytes \<Rightarrow> SecretError + bytes"

definition loadOne :: "catalogue \<Rightarrow> secret_source \<Rightarrow> bytes \<Rightarrow> Resolver \<Rightarrow> Resolver" where
  "loadOne tr src name r =
     (case map_of (rv_refs r) name of
        None \<Rightarrow> r
      | Some ref \<Rightarrow>
          if rv_secretValues r name \<noteq> None then r
          else
            (case src ref of
               Inr v \<Rightarrow> r\<lparr>rv_secretValues := (rv_secretValues r)(name \<mapsto> v)\<rparr>
             | Inl e \<Rightarrow>
                 if rv_err r \<noteq> None then r
                 else if e = SecretMissing
                 then r\<lparr>rv_err := Some \<lparr>ie_Code = ''E_BAD_REQUEST'', ie_Message = tr ''backend.studio.apiFiles.secretUnset.body'' [(''name'', ref)]\<rparr>\<rparr>
                 else r\<lparr>rv_err := Some \<lparr>ie_Code = ''E_SECRET_STORE'', ie_Message = tr ''backend.studio.apiFiles.secretUnreadable.body'' [(''name'', ref)]\<rparr>\<rparr>))"

definition loadText :: "catalogue \<Rightarrow> secret_source \<Rightarrow> bytes \<Rightarrow> Resolver \<Rightarrow> Resolver" where
  "loadText tr src s r = fold (loadOne tr src) (Names s) r"

definition onResolved :: "resolvedSpan \<Rightarrow> Resolver \<Rightarrow> Resolver" where
  "onResolved c r =
     (case c of (name, rendered, placeholder) \<Rightarrow>
        let k = name @ CHR 0x00 # placeholder in
        if k \<in> rv_usedSeen r then r
        else r\<lparr>rv_usedSeen := insert k (rv_usedSeen r),
               rv_used := rv_used r @ [\<lparr>us_Name = name, us_Rendered = rendered, us_Placeholder = placeholder\<rparr>]\<rparr>)"

definition resolverText :: "catalogue \<Rightarrow> casers \<Rightarrow> secret_source \<Rightarrow> (bytes \<Rightarrow> bytes) \<Rightarrow> bytes \<Rightarrow> Resolver \<Rightarrow> bytes \<times> Resolver" where
  "resolverText tr cs src sanitize s r =
     (let r1 = loadText tr src s r in
      case resolveWithSanitizer cs s (rv_secretValues r1) [] sanitize of
        (out, refs, calls) \<Rightarrow> (out, fold onResolved calls r1))"

definition Text :: "catalogue \<Rightarrow> casers \<Rightarrow> secret_source \<Rightarrow> bytes \<Rightarrow> Resolver \<Rightarrow> bytes \<times> Resolver" where
  "Text tr cs src = resolverText tr cs src (\<lambda>s. s)"

definition URLText :: "catalogue \<Rightarrow> casers \<Rightarrow> secret_source \<Rightarrow> bytes \<Rightarrow> Resolver \<Rightarrow> bytes \<times> Resolver" where
  "URLText tr cs src = resolverText tr cs src urlUnsafe"

section \<open>Requests\<close>

record Header =
  hd_Name :: bytes
  hd_Value :: bytes

record Field =
  fd_Name :: bytes
  fd_Value :: bytes

record FormField =
  ff_Name :: bytes
  ff_Kind :: bytes
  ff_Value :: bytes
  ff_Path :: bytes
  ff_ContentType :: bytes

record Body =
  bo_Mode :: bytes
  bo_Raw :: bytes
  bo_Code :: bytes
  bo_CodeLanguage :: bytes
  bo_URLEncoded :: "Field list"
  bo_FormData :: "FormField list"
  bo_File :: bytes

definition referencedFields :: "bytes \<Rightarrow> Header list \<Rightarrow> Body \<Rightarrow> bytes list" where
  "referencedFields url headers body =
     [url] @ concat (map (\<lambda>h. [hd_Name h, hd_Value h]) headers) @
     (if bo_Mode body = ''raw'' then [bo_Raw body]
      else if bo_Mode body = ''code'' then [bo_Code body]
      else if bo_Mode body = ''urlencoded'' then concat (map (\<lambda>f. [fd_Name f, fd_Value f]) (bo_URLEncoded body))
      else if bo_Mode body = ''formdata'' then
        concat (map (\<lambda>f. [ff_Name f, ff_ContentType f] @ (if ff_Kind f = ''text'' then [ff_Value f] else [])) (bo_FormData body))
      else [])"

text \<open>A loop that passes the resolver from one element to the next.\<close>

fun threadMap :: "('a \<Rightarrow> 's \<Rightarrow> 'b \<times> 's) \<Rightarrow> 'a list \<Rightarrow> 's \<Rightarrow> 'b list \<times> 's" where
  "threadMap f [] s = ([], s)"
| "threadMap f (x # xs) s = (case f x s of (y, s1) \<Rightarrow> case threadMap f xs s1 of (ys, s2) \<Rightarrow> (y # ys, s2))"

definition resolveHeader :: "(bytes \<Rightarrow> Resolver \<Rightarrow> bytes \<times> Resolver) \<Rightarrow> Header \<Rightarrow> Resolver \<Rightarrow> Header \<times> Resolver" where
  "resolveHeader txt h r =
     (case txt (hd_Name h) r of (n, r1) \<Rightarrow> case txt (hd_Value h) r1 of (v, r2) \<Rightarrow> (\<lparr>hd_Name = n, hd_Value = v\<rparr>, r2))"

definition resolveField :: "(bytes \<Rightarrow> Resolver \<Rightarrow> bytes \<times> Resolver) \<Rightarrow> Field \<Rightarrow> Resolver \<Rightarrow> Field \<times> Resolver" where
  "resolveField txt f r =
     (case txt (fd_Name f) r of (n, r1) \<Rightarrow> case txt (fd_Value f) r1 of (v, r2) \<Rightarrow> (\<lparr>fd_Name = n, fd_Value = v\<rparr>, r2))"

definition resolveFormField :: "(bytes \<Rightarrow> Resolver \<Rightarrow> bytes \<times> Resolver) \<Rightarrow> FormField \<Rightarrow> Resolver \<Rightarrow> FormField \<times> Resolver" where
  "resolveFormField txt f r =
     (case txt (ff_Name f) r of (n, r1) \<Rightarrow>
      case txt (ff_ContentType f) r1 of (c, r2) \<Rightarrow>
        let g = f\<lparr>ff_Name := n, ff_ContentType := c\<rparr> in
        if ff_Kind f = ''text'' then (case txt (ff_Value f) r2 of (v, r3) \<Rightarrow> (g\<lparr>ff_Value := v\<rparr>, r3)) else (g, r2))"

definition resolveBody :: "(bytes \<Rightarrow> Resolver \<Rightarrow> bytes \<times> Resolver) \<Rightarrow> Body \<Rightarrow> Resolver \<Rightarrow> Body \<times> Resolver" where
  "resolveBody txt body r =
     (if bo_Mode body = ''raw'' then (case txt (bo_Raw body) r of (s, r1) \<Rightarrow> (body\<lparr>bo_Raw := s\<rparr>, r1))
      else if bo_Mode body = ''code'' then (case txt (bo_Code body) r of (s, r1) \<Rightarrow> (body\<lparr>bo_Code := s\<rparr>, r1))
      else if bo_Mode body = ''urlencoded'' then
        (case threadMap (resolveField txt) (bo_URLEncoded body) r of (fs, r1) \<Rightarrow> (body\<lparr>bo_URLEncoded := fs\<rparr>, r1))
      else if bo_Mode body = ''formdata'' then
        (case threadMap (resolveFormField txt) (bo_FormData body) r of (fs, r1) \<Rightarrow> (body\<lparr>bo_FormData := fs\<rparr>, r1))
      else (body, r))"

text \<open>\<open>refsFor\<close> is the answer of the repository: the secrets of the scope, or its error.\<close>

definition ResolveRequest ::
  "catalogue \<Rightarrow> casers \<Rightarrow> secret_source \<Rightarrow> IpcError + (bytes \<times> bytes) list \<Rightarrow> bytes \<Rightarrow> Header list \<Rightarrow> Body \<Rightarrow>
   bytes \<times> Header list \<times> Body \<times> UsedSecret list \<times> IpcError option" where
  "ResolveRequest tr cs src refsFor url headers body =
     (if \<not> list_ex (\<lambda>f. 0 < length (Names f)) (referencedFields url headers body) then (url, headers, body, [], None)
      else
        case refsFor of
          Inl e \<Rightarrow> (url, headers, body, [], Some e)
        | Inr refs \<Rightarrow>
            let r0 = NewResolverFor refs in
            if \<not> AnySecret r0 then (url, headers, body, [], None)
            else
              (case URLText tr cs src url r0 of (url', r1) \<Rightarrow>
               case threadMap (resolveHeader (Text tr cs src)) headers r1 of (headers', r2) \<Rightarrow>
               case resolveBody (Text tr cs src) body r2 of (body', r3) \<Rightarrow>
                 (case rv_err r3 of
                    Some e \<Rightarrow> (url, headers, body, [], Some e)
                  | None \<Rightarrow> (url', headers', body', rv_used r3, None))))"

section \<open>Masking\<close>

text \<open>
  \<^verbatim>\<open>strings.NewReplacer\<close>: at each position the first pattern listed that matches there is replaced.  No
  pattern is empty.
\<close>

function replaceAll :: "(bytes \<times> bytes) list \<Rightarrow> bytes \<Rightarrow> bytes" where
  "replaceAll pairs [] = []"
| "replaceAll pairs (c # cs) =
     (case find (\<lambda>(old, new). HasPrefix (c # cs) old) pairs of
        Some (old, new) \<Rightarrow> new @ replaceAll pairs (drop (length old - 1) cs)
      | None \<Rightarrow> c # replaceAll pairs cs)"
  by pat_completeness auto
termination
  by (relation "measure (\<lambda>(pairs, s). length s)") auto

definition maskPairs :: "UsedSecret \<Rightarrow> (bytes \<times> bytes) list" where
  "maskPairs u =
     (if us_Rendered u = [] then []
      else (us_Rendered u, us_Placeholder u) #
        (if QueryEscape (us_Rendered u) \<noteq> us_Rendered u then [(QueryEscape (us_Rendered u), us_Placeholder u)] else []) @
        (if PathEscape (us_Rendered u) \<noteq> us_Rendered u then [(PathEscape (us_Rendered u), us_Placeholder u)] else []))"

definition ReplacerOf :: "UsedSecret list \<Rightarrow> (bytes \<times> bytes) list" where
  "ReplacerOf used = concat (map maskPairs (sort_key (\<lambda>u. - int (length (us_Rendered u))) used))"

definition DistinctNames :: "UsedSecret list \<Rightarrow> nat" where
  "DistinctNames used = length (remdups (map us_Name used))"

text \<open>The masking of a text: no replacer when there is nothing to mask.\<close>

definition maskText :: "UsedSecret list \<Rightarrow> bytes \<Rightarrow> bytes" where
  "maskText used s = (if ReplacerOf used = [] then s else replaceAll (ReplacerOf used) s)"

section \<open>Spans\<close>

function spansOf :: "bytes \<Rightarrow> bytes list" where
  "spansOf s = (case nextSpan s of None \<Rightarrow> [] | Some (before, raw, rest) \<Rightarrow> raw # spansOf rest)"
  by pat_completeness auto
termination
  by (relation "measure length") (auto dest!: nextSpan_Some)

declare spansOf.simps [simp del]

definition refOf :: "bytes \<Rightarrow> ParsedReference" where
  "refOf raw = ParseReference (TrimSpace raw)"

definition spanNames :: "bytes list \<Rightarrow> bytes set" where
  "spanNames raws = {pr_Name (refOf raw) | raw. raw \<in> set raws \<and> TrimSpace raw \<noteq> []}"

lemma spanNames_Cons: "spanNames (raw # raws) = (if TrimSpace raw = [] then spanNames raws else insert (pr_Name (refOf raw)) (spanNames raws))"
  by (auto simp: spanNames_def)

lemma names_spans: "set (namesLoop seen s) \<union> set seen = spanNames (spansOf s) \<union> set seen"
proof (induction seen s rule: namesLoop.induct)
  case (1 seen s)
  show ?case
  proof (cases "nextSpan s")
    case None
    then show ?thesis by (simp add: namesLoop.simps [of seen s] spansOf.simps [of s] spanNames_def)
  next
    case (Some x)
    obtain before raw rest where x: "x = (before, raw, rest)" by (cases x)
    have sp: "spansOf s = raw # spansOf rest" by (simp add: spansOf.simps [of s] Some x)
    let ?name = "pr_Name (refOf raw)"
    show ?thesis
    proof (cases "TrimSpace raw = [] \<or> ?name \<in> set seen")
      case True
      then have "namesLoop seen s = namesLoop seen rest" by (simp add: namesLoop.simps [of seen s] Some x refOf_def Let_def)
      then show ?thesis using 1(1) [OF Some x [symmetric] refl refl refl] True by (auto simp: sp spanNames_Cons refOf_def)
    next
      case False
      then have "namesLoop seen s = ?name # namesLoop (?name # seen) rest"
        by (simp add: namesLoop.simps [of seen s] Some x refOf_def Let_def)
      moreover have "set (namesLoop (?name # seen) rest) \<union> set (?name # seen) = spanNames (spansOf rest) \<union> set (?name # seen)"
        using 1(2) [OF Some x [symmetric] refl refl refl] False by (simp add: refOf_def)
      ultimately show ?thesis using False by (simp add: sp spanNames_Cons)
    qed
  qed
qed

lemma Names_spans: "set (Names s) = spanNames (spansOf s)"
  using names_spans [of "[]" s] by (simp add: Names_def)

section \<open>Placeholders tell spans apart\<close>

lemma JoinStr_hd: "ws \<noteq> [] \<Longrightarrow> JoinStr ws sep = hd ws @ concat (map (\<lambda>v. sep @ v) (tl ws))"
  by (induction ws sep rule: JoinStr.induct) simp_all

lemma refOf_normal:
  "pr_Normalized (refOf raw) = ''{{'' @ pr_Name (refOf raw) @ concat (map (\<lambda>v. '' | '' @ v) (pr_Pipeline (refOf raw))) @ ''}}'' \<and>
   list_all IsTransformName (pr_Pipeline (refOf raw))"
  by (simp add: refOf_def ParseReference_def Let_def JoinStr_hd SplitByte_not_Nil)

lemma transform_plain: "IsTransformName t \<Longrightarrow> list_all (\<lambda>c. c \<noteq> CHR '' '' \<and> c \<noteq> CHR 0x00 \<and> c \<noteq> CHR ''}'') t \<and> t \<noteq> []"
  by (auto simp: IsTransformName_def transformNames_def)

lemma pipes_inj:
  "list_all IsTransformName ps \<Longrightarrow> list_all IsTransformName qs \<Longrightarrow>
   concat (map (\<lambda>v. '' | '' @ v) ps) = concat (map (\<lambda>v. '' | '' @ v) qs) \<Longrightarrow> ps = qs"
proof (induction ps arbitrary: qs)
  case (Cons p ps)
  then obtain q qs' where qs: "qs = q # qs'" by (cases qs) auto
  let ?f = "\<lambda>ps. concat (map (\<lambda>v. '' | '' @ v) ps)"
  have w: "takeWhile (\<lambda>c. c \<noteq> CHR '' '') (t @ ?f rs) = t" if "IsTransformName t" for t rs
    using transform_plain [OF that] by (cases rs) (auto simp: list_all_iff takeWhile_append)
  have eq: "p @ ?f ps = q @ ?f qs'" using Cons.prems(3) by (simp add: qs)
  then have "p = q" using w [of p ps] w [of q qs'] Cons.prems by (simp add: qs)
  then show ?case using Cons eq by (simp add: qs)
qed (auto simp: neq_Nil_conv)

lemma split_at_count: "xs @ z # ys = xs' @ z # ys' \<Longrightarrow> count_list xs z = count_list xs' z \<Longrightarrow> xs = xs' \<and> ys = ys'"
proof (induction xs arbitrary: xs')
  case Nil
  then show ?case by (cases xs') (auto split: if_splits)
next
  case (Cons x xs)
  then show ?case by (cases xs') (auto split: if_splits)
qed

lemma span_key_inj:
  assumes "pr_Name (refOf a) @ CHR 0x00 # pr_Normalized (refOf a) = pr_Name (refOf b) @ CHR 0x00 # pr_Normalized (refOf b)"
  shows "pr_Name (refOf a) = pr_Name (refOf b) \<and> pr_Normalized (refOf a) = pr_Normalized (refOf b) \<and> pr_Pipeline (refOf a) = pr_Pipeline (refOf b)"
proof -
  have t: "count_list (concat (map (\<lambda>v. '' | '' @ v) ps)) (CHR 0x00) = 0" if "list_all IsTransformName ps" for ps
    using that by (induction ps) (auto simp: count_list_0_iff dest!: transform_plain simp: list_all_iff)
  have c: "count_list (pr_Name (refOf x) @ CHR 0x00 # pr_Normalized (refOf x)) (CHR 0x00) = 2 * count_list (pr_Name (refOf x)) (CHR 0x00) + 1" for x
    using refOf_normal [of x] t by (simp add: count_list_append)
  have "count_list (pr_Name (refOf a)) (CHR 0x00) = count_list (pr_Name (refOf b)) (CHR 0x00)" using c [of a] c [of b] assms by simp
  then have n: "pr_Name (refOf a) = pr_Name (refOf b)" "pr_Normalized (refOf a) = pr_Normalized (refOf b)"
    using split_at_count [OF assms] by auto
  then show ?thesis using refOf_normal [of a] refOf_normal [of b] pipes_inj by (metis same_append_eq append_same_eq)
qed

section \<open>What is written in place of a span\<close>

text \<open>A resolved text piece by piece: text of the template, a span replaced by a secret, and a span left.\<close>

datatype OutPiece = OText bytes | OSecret bytes UsedSecret | OLeft bytes bytes

fun pieceSource :: "OutPiece \<Rightarrow> bytes" where
  "pieceSource (OText t) = t"
| "pieceSource (OSecret raw u) = ''{{'' @ raw @ ''}}''"
| "pieceSource (OLeft raw w) = ''{{'' @ raw @ ''}}''"

fun pieceOut :: "OutPiece \<Rightarrow> bytes" where
  "pieceOut (OText t) = t"
| "pieceOut (OSecret raw u) = us_Rendered u"
| "pieceOut (OLeft raw w) = w"

fun pieceSpan :: "OutPiece \<Rightarrow> bytes list" where
  "pieceSpan (OText t) = []"
| "pieceSpan (OSecret raw u) = [raw]"
| "pieceSpan (OLeft raw w) = [raw]"

text \<open>
  \<open>vals\<close> are the values of the secrets, \<open>rec\<close> the recorded spans; \<open>san\<close> is what is done to a span that is left
  (nothing, except in a URL), unless it is empty.
\<close>

fun pieceOk :: "(bytes \<Rightarrow> bytes) \<Rightarrow> casers \<Rightarrow> (bytes \<Rightarrow> bytes option) \<Rightarrow> UsedSecret set \<Rightarrow> OutPiece \<Rightarrow> bool" where
  "pieceOk san cs vals rec (OText t) \<longleftrightarrow> True"
| "pieceOk san cs vals rec (OSecret raw u) \<longleftrightarrow> u \<in> rec \<and> TrimSpace raw \<noteq> [] \<and> us_Name u = pr_Name (refOf raw) \<and>
     us_Placeholder u = pr_Normalized (refOf raw) \<and>
     (\<exists>v. vals (us_Name u) = Some v \<and> ApplyPipeline cs (pr_Pipeline (refOf raw)) v = Some (us_Rendered u))"
| "pieceOk san cs vals rec (OLeft raw w) \<longleftrightarrow>
     w = (if TrimSpace raw = [] then ''{{'' @ raw @ ''}}'' else san (''{{'' @ raw @ ''}}'')) \<and>
     (TrimSpace raw \<noteq> [] \<longrightarrow> \<not> IsDynamicReference (pr_Name (refOf raw)) \<longrightarrow>
        (case vals (pr_Name (refOf raw)) of None \<Rightarrow> True | Some v \<Rightarrow> ApplyPipeline cs (pr_Pipeline (refOf raw)) v = None))"

definition usedOf :: "resolvedSpan \<Rightarrow> UsedSecret" where
  "usedOf c = (case c of (name, rendered, placeholder) \<Rightarrow> \<lparr>us_Name = name, us_Rendered = rendered, us_Placeholder = placeholder\<rparr>)"

lemma span_piece:
  assumes "resolveSpan su raw = (written, refs, calls)" and "su_secrets su = []"
  shows "\<exists>p. pieceSource p = ''{{'' @ raw @ ''}}'' \<and> pieceSpan p = [raw] \<and> pieceOut p = written \<and> pieceOk (su_sanitize su) (su_cs su) (su_values su) (usedOf ` set calls) p \<and>
    (\<forall>c\<in>set calls. \<exists>u. usedOf c = u \<and> p = OSecret raw u)"
proof (cases "written = su_sanitize su (''{{'' @ raw @ ''}}'') \<and> calls = [] \<or> TrimSpace raw = []")
  case True
  then show ?thesis
    using assms
    by (intro exI [of _ "OLeft raw written"])
      (auto simp: resolveSpan_def resolveOneSpan_def resolvePlainOrUnknown_def Let_def refOf_def split: if_splits option.splits)
next
  case False
  then obtain v where v: "TrimSpace raw \<noteq> []" "\<not> IsDynamicReference (pr_Name (refOf raw))" "su_values su (pr_Name (refOf raw)) = Some v"
      "ApplyPipeline (su_cs su) (pr_Pipeline (refOf raw)) v = Some written" "calls = [(pr_Name (refOf raw), written, pr_Normalized (refOf raw))]"
    using assms(1,2) by (auto simp: resolveSpan_def resolveOneSpan_def resolvePlainOrUnknown_def Let_def refOf_def split: if_splits option.splits)
  then show ?thesis by (intro exI [of _ "OSecret raw (usedOf (pr_Name (refOf raw), written, pr_Normalized (refOf raw)))"]) (simp add: usedOf_def)
qed

lemma pieceOk_mono: "pieceOk san cs vals rec p \<Longrightarrow> rec \<subseteq> rec' \<Longrightarrow> pieceOk san cs vals rec' p"
  by (cases p) auto

lemma loop_pieces:
  "resolveLoop su s = (out, refs, calls) \<Longrightarrow> su_secrets su = [] \<Longrightarrow>
    \<exists>ps. s = concat (map pieceSource ps) \<and> out = concat (map pieceOut ps) \<and>
      list_all (pieceOk (su_sanitize su) (su_cs su) (su_values su) (usedOf ` set calls)) ps \<and>
      (\<forall>c\<in>set calls. \<exists>raw. OSecret raw (usedOf c) \<in> set ps) \<and>
      spansOf s = concat (map pieceSpan ps)"
proof (induction su s arbitrary: out refs calls rule: resolveLoop.induct)
  case (1 su s)
  show ?case
  proof (cases "nextSpan s")
    case None
    then show ?thesis using 1(2) by (intro exI [of _ "[OText s]"]) (auto simp: resolveLoop.simps [of su s] spansOf.simps [of out])
  next
    case (Some x)
    obtain before raw rest where x: "x = (before, raw, rest)" by (cases x)
    obtain w r1 c1 where w: "resolveSpan su raw = (w, r1, c1)" by (cases "resolveSpan su raw")
    obtain o2 r2 c2 where l: "resolveLoop su rest = (o2, r2, c2)" by (cases "resolveLoop su rest")
    have out: "out = before @ w @ o2" "calls = c1 @ c2" using 1(2) by (simp_all add: resolveLoop.simps [of su s] Some x w l)
    obtain p where p: "pieceSource p = ''{{'' @ raw @ ''}}''" "pieceOut p = w" "pieceOk (su_sanitize su) (su_cs su) (su_values su) (usedOf ` set c1) p"
        "\<forall>c\<in>set c1. \<exists>u. usedOf c = u \<and> p = OSecret raw u" "pieceSpan p = [raw]"
      using span_piece [OF w 1(3)] by blast
    obtain ps where ps: "rest = concat (map pieceSource ps)" "o2 = concat (map pieceOut ps)"
        "list_all (pieceOk (su_sanitize su) (su_cs su) (su_values su) (usedOf ` set c2)) ps" "\<forall>c\<in>set c2. \<exists>raw. OSecret raw (usedOf c) \<in> set ps"
        "spansOf rest = concat (map pieceSpan ps)"
      using 1(1) [OF Some x [symmetric] refl w [symmetric] refl l 1(3)] by blast
    have sp: "spansOf s = raw # spansOf rest" by (simp add: spansOf.simps [of s] Some x)
    have src: "s = concat (map pieceSource (OText before # p # ps))" using nextSpan_Some [of s before raw rest] Some x p(1) ps(1) by simp
    have ok: "list_all (pieceOk (su_sanitize su) (su_cs su) (su_values su) (usedOf ` set calls)) (OText before # p # ps)"
      using p(3) ps(3) unfolding out(2) by (auto simp: list_all_iff intro: pieceOk_mono)
    have rec: "\<exists>raw'. OSecret raw' (usedOf c) \<in> set (OText before # p # ps)" if "c \<in> set calls" for c
    proof (cases "c \<in> set c1")
      case True
      then have "p = OSecret raw (usedOf c)" using p(4) by blast
      then show ?thesis by auto
    next
      case False
      then show ?thesis using that ps(4) by (auto simp: out(2))
    qed
    have all: "spansOf s = concat (map pieceSpan (OText before # p # ps))" by (simp add: sp ps(5) p(5))
    have "out = concat (map pieceOut (OText before # p # ps))" using p(2) ps(2) out(1) by simp
    then show ?thesis using src ok rec all by (intro exI [of _ "OText before # p # ps"]) blast
  qed
qed

section \<open>Loading and recording\<close>

text \<open>
  What holds of a resolver at all times: its values are those of the store, its recorded spans are resolved
  spans, and the seen keys are theirs.
\<close>

definition opened :: "secret_source \<Rightarrow> (bytes \<times> bytes) list \<Rightarrow> bytes \<Rightarrow> bytes option" where
  "opened src refs name = (case map_of refs name of None \<Rightarrow> None | Some ref \<Rightarrow> (case src ref of Inr v \<Rightarrow> Some v | Inl e \<Rightarrow> None))"

definition keyOf :: "UsedSecret \<Rightarrow> bytes" where
  "keyOf u = us_Name u @ CHR 0x00 # us_Placeholder u"

definition usedFrom :: "casers \<Rightarrow> secret_source \<Rightarrow> (bytes \<times> bytes) list \<Rightarrow> UsedSecret \<Rightarrow> bool" where
  "usedFrom cs src refs u \<longleftrightarrow> (\<exists>raw. pieceOk (\<lambda>s. s) cs (opened src refs) {u} (OSecret raw u))"

definition resolverOk :: "casers \<Rightarrow> secret_source \<Rightarrow> Resolver \<Rightarrow> bool" where
  "resolverOk cs src r \<longleftrightarrow>
     (\<forall>n v. rv_secretValues r n = Some v \<longrightarrow> opened src (rv_refs r) n = Some v) \<and>
     (\<forall>u\<in>set (rv_used r). usedFrom cs src (rv_refs r) u) \<and> rv_usedSeen r = keyOf ` set (rv_used r) \<and>
     distinct (map keyOf (rv_used r))"

text \<open>\<open>r'\<close> knows everything \<open>r\<close> does.\<close>

definition later :: "Resolver \<Rightarrow> Resolver \<Rightarrow> bool" where
  "later r r' \<longleftrightarrow> rv_refs r' = rv_refs r \<and> rv_secretValues r \<subseteq>\<^sub>m rv_secretValues r' \<and> set (rv_used r) \<subseteq> set (rv_used r') \<and>
     (rv_err r \<noteq> None \<longrightarrow> rv_err r' \<noteq> None)"

lemma later_refl [simp]: "later r r"
  by (simp add: later_def)

lemma later_trans: "later r s \<Longrightarrow> later s t \<Longrightarrow> later r t"
  by (auto simp: later_def intro: map_le_trans)

lemma loadOne_ok:
  assumes "resolverOk cs src r"
  shows "resolverOk cs src (loadOne tr src name r) \<and> later r (loadOne tr src name r) \<and> rv_used (loadOne tr src name r) = rv_used r \<and>
    (rv_err (loadOne tr src name r) = None \<longrightarrow> rv_secretValues (loadOne tr src name r) name = opened src (rv_refs r) name)"
proof -
  have "rv_secretValues r name = Some v \<Longrightarrow> opened src (rv_refs r) name = Some v" for v using assms by (simp add: resolverOk_def)
  then show ?thesis
    using assms
    by (cases "map_of (rv_refs r) name"; cases "rv_secretValues r name")
      (auto simp: loadOne_def resolverOk_def later_def opened_def map_le_def split: sum.splits)
qed

lemma loadMany_ok:
  "resolverOk cs src r \<Longrightarrow> resolverOk cs src (fold (loadOne tr src) ns r) \<and> later r (fold (loadOne tr src) ns r) \<and>
   (rv_err (fold (loadOne tr src) ns r) = None \<longrightarrow> (\<forall>n\<in>set ns. rv_secretValues (fold (loadOne tr src) ns r) n = opened src (rv_refs r) n))"
proof (induction ns arbitrary: r)
  case (Cons n ns)
  let ?r = "loadOne tr src n r"
  have 1: "resolverOk cs src ?r" "later r ?r" "rv_err ?r = None \<longrightarrow> rv_secretValues ?r n = opened src (rv_refs r) n"
    using loadOne_ok [OF Cons.prems] by auto
  note ih = Cons.IH [OF 1(1)]
  have refs: "rv_refs ?r = rv_refs r" using 1(2) by (simp add: later_def)
  have "rv_secretValues (fold (loadOne tr src) ns ?r) n = opened src (rv_refs r) n" if e: "rv_err (fold (loadOne tr src) ns ?r) = None"
  proof (cases "opened src (rv_refs r) n")
    case None
    have "rv_refs (fold (loadOne tr src) ns ?r) = rv_refs r" using ih refs by (auto simp: later_def)
    then show ?thesis using ih None by (cases "rv_secretValues (fold (loadOne tr src) ns ?r) n") (auto simp: resolverOk_def)
  next
    case (Some v)
    have "rv_err ?r = None" using ih e by (auto simp: later_def)
    then show ?thesis using 1(3) ih Some by (auto simp: later_def map_le_def dom_def)
  qed
  then show ?case using ih 1(2) later_trans refs by auto
qed simp

lemma usedFrom_inj:
  assumes "usedFrom cs src refs u" and "usedFrom cs src refs w" and "keyOf u = keyOf w"
  shows "u = w"
proof -
  obtain a b where a: "pieceOk (\<lambda>s. s) cs (opened src refs) {u} (OSecret a u)" "pieceOk (\<lambda>s. s) cs (opened src refs) {w} (OSecret b w)"
    using assms(1,2) by (auto simp: usedFrom_def)
  then have "pr_Name (refOf a) @ CHR 0x00 # pr_Normalized (refOf a) = pr_Name (refOf b) @ CHR 0x00 # pr_Normalized (refOf b)"
    using assms(3) by (simp add: keyOf_def)
  from span_key_inj [OF this] a show ?thesis by (cases u; cases w) auto
qed

lemma onResolved_ok:
  assumes "resolverOk cs src r" and "usedFrom cs src (rv_refs r) (usedOf c)"
  shows "resolverOk cs src (onResolved c r) \<and> later r (onResolved c r) \<and> usedOf c \<in> set (rv_used (onResolved c r)) \<and>
    rv_err (onResolved c r) = rv_err r \<and> rv_secretValues (onResolved c r) = rv_secretValues r"
proof -
  obtain n w p where c: "c = (n, w, p)" by (cases c)
  have k: "keyOf (usedOf c) = n @ CHR 0x00 # p" by (simp add: c usedOf_def keyOf_def)
  show ?thesis
  proof (cases "n @ CHR 0x00 # p \<in> rv_usedSeen r")
    case True
    then obtain u where "u \<in> set (rv_used r)" "keyOf u = keyOf (usedOf c)" using assms(1) k by (auto simp: resolverOk_def)
    moreover have "u = usedOf c" using usedFrom_inj assms calculation by (auto simp: resolverOk_def)
    ultimately show ?thesis using True assms(1) by (simp add: onResolved_def c Let_def)
  next
    case False
    then show ?thesis using assms k by (auto simp: onResolved_def c Let_def resolverOk_def later_def usedOf_def)
  qed
qed

lemma onResolved_fold:
  "resolverOk cs src r \<Longrightarrow> (\<forall>c\<in>set cl. usedFrom cs src (rv_refs r) (usedOf c)) \<Longrightarrow>
   resolverOk cs src (fold onResolved cl r) \<and> later r (fold onResolved cl r) \<and> usedOf ` set cl \<subseteq> set (rv_used (fold onResolved cl r)) \<and>
   rv_err (fold onResolved cl r) = rv_err r \<and> rv_secretValues (fold onResolved cl r) = rv_secretValues r"
proof (induction cl arbitrary: r)
  case (Cons c cl)
  have 1: "resolverOk cs src (onResolved c r)" "later r (onResolved c r)" "usedOf c \<in> set (rv_used (onResolved c r))"
    "rv_err (onResolved c r) = rv_err r" "rv_secretValues (onResolved c r) = rv_secretValues r"
    using onResolved_ok [OF Cons.prems(1)] Cons.prems(2) by auto
  have "rv_refs (onResolved c r) = rv_refs r" using 1(2) by (simp add: later_def)
  then have ih: "resolverOk cs src (fold onResolved cl (onResolved c r))" "later (onResolved c r) (fold onResolved cl (onResolved c r))"
      "usedOf ` set cl \<subseteq> set (rv_used (fold onResolved cl (onResolved c r)))"
      "rv_err (fold onResolved cl (onResolved c r)) = rv_err r" "rv_secretValues (fold onResolved cl (onResolved c r)) = rv_secretValues r"
    using Cons.IH [OF 1(1)] Cons.prems(2) 1(4,5) by auto
  have "set (rv_used (onResolved c r)) \<subseteq> set (rv_used (fold onResolved cl (onResolved c r)))" using ih(2) by (simp add: later_def)
  then show ?case using ih 1(2,3) later_trans by auto
qed simp

section \<open>One text\<close>

text \<open>\<open>out\<close> is \<open>s\<close> with every span of an opened secret replaced by a recorded text, and every other span left.\<close>

definition substituted :: "(bytes \<Rightarrow> bytes) \<Rightarrow> casers \<Rightarrow> secret_source \<Rightarrow> (bytes \<times> bytes) list \<Rightarrow> UsedSecret set \<Rightarrow> bytes \<Rightarrow> bytes \<Rightarrow> bool" where
  "substituted san cs src refs rec s out \<longleftrightarrow>
     (\<exists>ps. s = concat (map pieceSource ps) \<and> out = concat (map pieceOut ps) \<and> spansOf s = concat (map pieceSpan ps) \<and>
        list_all (pieceOk san cs (opened src refs) rec) ps)"

lemma substituted_mono:
  assumes "substituted san cs src refs rec s out" and "rec \<subseteq> rec'"
  shows "substituted san cs src refs rec' s out"
proof -
  obtain ps where ps: "s = concat (map pieceSource ps)" "out = concat (map pieceOut ps)" "spansOf s = concat (map pieceSpan ps)" "list_all (pieceOk san cs (opened src refs) rec) ps"
    using assms(1) by (auto simp: substituted_def)
  then have "list_all (pieceOk san cs (opened src refs) rec') ps" using assms(2) by (auto simp: list_all_iff intro: pieceOk_mono)
  then show ?thesis unfolding substituted_def using ps(1-3) by blast
qed

lemma pieceOk_vals:
  "pieceOk san cs vals rec p \<Longrightarrow> (\<And>raw u w. p = OSecret raw u \<or> p = OLeft raw w \<Longrightarrow> TrimSpace raw \<noteq> [] \<Longrightarrow> vals (pr_Name (refOf raw)) = vals' (pr_Name (refOf raw))) \<Longrightarrow>
   pieceOk san cs vals' rec p"
  by (cases p) auto

lemma text_ok:
  assumes "resolverOk cs src r" and "resolverText tr cs src san s r = (out, r')"
  shows "resolverOk cs src r' \<and> later r r' \<and> (rv_err r' = None \<longrightarrow> substituted san cs src (rv_refs r) (set (rv_used r')) s out)"
proof -
  let ?r1 = "loadText tr src s r"
  have 1: "resolverOk cs src ?r1" "later r ?r1"
    "rv_err ?r1 = None \<longrightarrow> (\<forall>n\<in>set (Names s). rv_secretValues ?r1 n = opened src (rv_refs r) n)"
    using loadMany_ok [OF assms(1)] by (auto simp: loadText_def)
  have refs: "rv_refs ?r1 = rv_refs r" using 1(2) by (simp add: later_def)
  let ?su = "\<lparr>su_cs = cs, su_values = rv_secretValues ?r1, su_secrets = [], su_sanitize = san, su_nested = nestedDeferredSecretRefs cs []\<rparr>"
  obtain rfs calls where l: "resolveLoop ?su s = (out, rfs, calls)" and r': "r' = fold onResolved calls ?r1"
    using assms(2) by (auto simp: resolverText_def resolveWithSanitizer_def Let_def split: prod.splits)
  obtain ps where ps: "s = concat (map pieceSource ps)" "out = concat (map pieceOut ps)"
      "list_all (pieceOk san cs (rv_secretValues ?r1) (usedOf ` set calls)) ps" "\<forall>c\<in>set calls. \<exists>raw. OSecret raw (usedOf c) \<in> set ps"
      "spansOf s = concat (map pieceSpan ps)"
    using loop_pieces [OF l] by auto
  have "usedFrom cs src (rv_refs ?r1) (usedOf c)" if c: "c \<in> set calls" for c
  proof -
    obtain raw where "OSecret raw (usedOf c) \<in> set ps" using ps(4) c by blast
    then have "pieceOk san cs (rv_secretValues ?r1) (usedOf ` set calls) (OSecret raw (usedOf c))" using ps(3) unfolding list_all_iff by blast
    then show ?thesis using 1(1) unfolding usedFrom_def by (intro exI [of _ raw]) (auto simp: resolverOk_def)
  qed
  then have f: "resolverOk cs src r'" "later ?r1 r'" "usedOf ` set calls \<subseteq> set (rv_used r')" "rv_err r' = rv_err ?r1"
    using onResolved_fold [OF 1(1), of calls] by (simp_all add: r')
  have "substituted san cs src (rv_refs r) (set (rv_used r')) s out" if e: "rv_err r' = None"
  proof -
    have v: "rv_secretValues ?r1 (pr_Name (refOf raw)) = opened src (rv_refs r) (pr_Name (refOf raw))" if "raw \<in> set (spansOf s)" "TrimSpace raw \<noteq> []" for raw
      using 1(3) e f(4) that by (auto simp: Names_spans spanNames_def)
    have "pieceOk san cs (opened src (rv_refs r)) (usedOf ` set calls) p" if p: "p \<in> set ps" for p
    proof (rule pieceOk_vals)
      show "pieceOk san cs (rv_secretValues ?r1) (usedOf ` set calls) p" using ps(3) p by (auto simp: list_all_iff)
      show "rv_secretValues ?r1 (pr_Name (refOf raw)) = opened src (rv_refs r) (pr_Name (refOf raw))"
        if "p = OSecret raw u \<or> p = OLeft raw w" "TrimSpace raw \<noteq> []" for raw u w
      proof (rule v)
        show "raw \<in> set (spansOf s)" unfolding ps(5) using p that(1) by force
      qed (rule that(2))
    qed
    then have "substituted san cs src (rv_refs r) (usedOf ` set calls) s out"
      unfolding substituted_def using ps(1,2,5) by (intro exI [of _ ps]) (simp add: list_all_iff)
    then show ?thesis using substituted_mono f(3) by blast
  qed
  then show ?thesis using f 1(2) later_trans by blast
qed

section \<open>A whole request\<close>

text \<open>The texts \<open>A\<close> have been resolved to \<open>B\<close> on the way from \<open>r\<close> to \<open>r'\<close>.\<close>

definition resolvedTo :: "(bytes \<Rightarrow> bytes) \<Rightarrow> casers \<Rightarrow> secret_source \<Rightarrow> Resolver \<Rightarrow> Resolver \<Rightarrow> bytes list \<Rightarrow> bytes list \<Rightarrow> bool" where
  "resolvedTo san cs src r r' A B \<longleftrightarrow> resolverOk cs src r' \<and> later r r' \<and>
     (rv_err r' = None \<longrightarrow> list_all2 (substituted san cs src (rv_refs r) (set (rv_used r'))) A B)"

lemma resolvedTo_nil: "resolverOk cs src r \<Longrightarrow> resolvedTo san cs src r r [] []"
  by (simp add: resolvedTo_def)

lemma resolvedTo_append:
  assumes "resolvedTo san cs src r r1 A B" and "resolvedTo san cs src r1 r2 C D"
  shows "resolvedTo san cs src r r2 (A @ C) (B @ D)"
proof -
  have l: "later r r1" "later r1 r2" "later r r2" using assms later_trans by (auto simp: resolvedTo_def)
  have "list_all2 (substituted san cs src (rv_refs r) (set (rv_used r2))) (A @ C) (B @ D)" if e: "rv_err r2 = None"
  proof (rule list_all2_appendI)
    have "rv_err r1 = None" using l(2) e by (auto simp: later_def)
    then have "list_all2 (substituted san cs src (rv_refs r) (set (rv_used r1))) A B" using assms(1) by (simp add: resolvedTo_def)
    then show "list_all2 (substituted san cs src (rv_refs r) (set (rv_used r2))) A B"
      by (rule list_all2_mono) (use l(2) substituted_mono in \<open>auto simp: later_def\<close>)
    show "list_all2 (substituted san cs src (rv_refs r) (set (rv_used r2))) C D"
      using assms(2) e l(1) by (simp add: resolvedTo_def later_def)
  qed
  then show ?thesis using assms(2) l(3) by (simp add: resolvedTo_def)
qed

definition stepOk :: "(bytes \<Rightarrow> bytes) \<Rightarrow> casers \<Rightarrow> secret_source \<Rightarrow> ('a \<Rightarrow> bytes list) \<Rightarrow> ('a \<Rightarrow> Resolver \<Rightarrow> 'a \<times> Resolver) \<Rightarrow> bool" where
  "stepOk san cs src tx f \<longleftrightarrow> (\<forall>x r. resolverOk cs src r \<longrightarrow> resolvedTo san cs src r (snd (f x r)) (tx x) (tx (fst (f x r))))"

lemma stepOkD: "stepOk san cs src tx f \<Longrightarrow> resolverOk cs src r \<Longrightarrow> f x r = (y, r') \<Longrightarrow> resolvedTo san cs src r r' (tx x) (tx y)"
  by (metis fst_conv snd_conv stepOk_def)

lemma resolvedTo_ok: "resolvedTo san cs src r r' A B \<Longrightarrow> resolverOk cs src r'"
  by (simp add: resolvedTo_def)

lemma resolverText_step: "stepOk san cs src (\<lambda>s. [s]) (resolverText tr cs src san)"
  unfolding stepOk_def resolvedTo_def using text_ok [OF _ prod.collapse [symmetric]] by simp

lemma Text_step: "stepOk (\<lambda>s. s) cs src (\<lambda>s. [s]) (Text tr cs src)" "stepOk urlUnsafe cs src (\<lambda>s. [s]) (URLText tr cs src)"
  by (simp_all add: Text_def URLText_def resolverText_step)

lemma threadMap_step:
  assumes "stepOk san cs src tx f"
  shows "stepOk san cs src (\<lambda>xs. concat (map tx xs)) (threadMap f)"
  unfolding stepOk_def
proof (intro allI impI)
  fix xs r
  show "resolverOk cs src r \<Longrightarrow> resolvedTo san cs src r (snd (threadMap f xs r)) (concat (map tx xs)) (concat (map tx (fst (threadMap f xs r))))"
  proof (induction xs arbitrary: r)
    case (Cons x xs)
    obtain y r1 where y: "f x r = (y, r1)" by (cases "f x r")
    have s: "resolvedTo san cs src r r1 (tx x) (tx y)" by (rule stepOkD [OF assms Cons.prems y])
    show ?case using resolvedTo_append [OF s Cons.IH [OF resolvedTo_ok [OF s]]] by (simp add: y case_prod_beta)
  qed (simp add: resolvedTo_nil)
qed

lemma header_step: "stepOk (\<lambda>s. s) cs src (\<lambda>h. [hd_Name h, hd_Value h]) (resolveHeader (Text tr cs src))"
  unfolding stepOk_def
proof (intro allI impI)
  fix h :: Header and r
  assume r: "resolverOk cs src r"
  obtain n r1 where n: "Text tr cs src (hd_Name h) r = (n, r1)" by (cases "Text tr cs src (hd_Name h) r")
  obtain v r2 where v: "Text tr cs src (hd_Value h) r1 = (v, r2)" by (cases "Text tr cs src (hd_Value h) r1")
  have 1: "resolvedTo (\<lambda>s. s) cs src r r1 [hd_Name h] [n]" using stepOkD [OF Text_step(1) r n] .
  have "resolvedTo (\<lambda>s. s) cs src r1 r2 [hd_Value h] [v]" using stepOkD [OF Text_step(1) resolvedTo_ok [OF 1] v] .
  from resolvedTo_append [OF 1 this]
  show "resolvedTo (\<lambda>s. s) cs src r (snd (resolveHeader (Text tr cs src) h r)) [hd_Name h, hd_Value h]
     [hd_Name (fst (resolveHeader (Text tr cs src) h r)), hd_Value (fst (resolveHeader (Text tr cs src) h r))]"
    by (simp add: resolveHeader_def n v)
qed

lemma field_step: "stepOk (\<lambda>s. s) cs src (\<lambda>f. [fd_Name f, fd_Value f]) (resolveField (Text tr cs src))"
  unfolding stepOk_def
proof (intro allI impI)
  fix f :: Field and r
  assume r: "resolverOk cs src r"
  obtain n r1 where n: "Text tr cs src (fd_Name f) r = (n, r1)" by (cases "Text tr cs src (fd_Name f) r")
  obtain v r2 where v: "Text tr cs src (fd_Value f) r1 = (v, r2)" by (cases "Text tr cs src (fd_Value f) r1")
  have 1: "resolvedTo (\<lambda>s. s) cs src r r1 [fd_Name f] [n]" using stepOkD [OF Text_step(1) r n] .
  have "resolvedTo (\<lambda>s. s) cs src r1 r2 [fd_Value f] [v]" using stepOkD [OF Text_step(1) resolvedTo_ok [OF 1] v] .
  from resolvedTo_append [OF 1 this]
  show "resolvedTo (\<lambda>s. s) cs src r (snd (resolveField (Text tr cs src) f r)) [fd_Name f, fd_Value f]
     [fd_Name (fst (resolveField (Text tr cs src) f r)), fd_Value (fst (resolveField (Text tr cs src) f r))]"
    by (simp add: resolveField_def n v)
qed

definition formTexts :: "FormField \<Rightarrow> bytes list" where
  "formTexts f = [ff_Name f, ff_ContentType f] @ (if ff_Kind f = ''text'' then [ff_Value f] else [])"

lemma form_step: "stepOk (\<lambda>s. s) cs src formTexts (resolveFormField (Text tr cs src))"
  unfolding stepOk_def
proof (intro allI impI)
  fix f :: FormField and r
  assume r: "resolverOk cs src r"
  obtain n r1 where n: "Text tr cs src (ff_Name f) r = (n, r1)" by (cases "Text tr cs src (ff_Name f) r")
  obtain c r2 where c: "Text tr cs src (ff_ContentType f) r1 = (c, r2)" by (cases "Text tr cs src (ff_ContentType f) r1")
  obtain v r3 where v: "Text tr cs src (ff_Value f) r2 = (v, r3)" by (cases "Text tr cs src (ff_Value f) r2")
  have 1: "resolvedTo (\<lambda>s. s) cs src r r1 [ff_Name f] [n]" using stepOkD [OF Text_step(1) r n] .
  have 2: "resolvedTo (\<lambda>s. s) cs src r1 r2 [ff_ContentType f] [c]" using stepOkD [OF Text_step(1) resolvedTo_ok [OF 1] c] .
  have 3: "resolvedTo (\<lambda>s. s) cs src r2 r3 [ff_Value f] [v]" using stepOkD [OF Text_step(1) resolvedTo_ok [OF 2] v] .
  from resolvedTo_append [OF 1 2] resolvedTo_append [OF resolvedTo_append [OF 1 2] 3]
  show "resolvedTo (\<lambda>s. s) cs src r (snd (resolveFormField (Text tr cs src) f r)) (formTexts f) (formTexts (fst (resolveFormField (Text tr cs src) f r)))"
    by (simp add: resolveFormField_def n c v Let_def formTexts_def)
qed

definition bodyTexts :: "Body \<Rightarrow> bytes list" where
  "bodyTexts body = drop 1 (referencedFields [] [] body)"

lemma referencedFields_texts:
  "referencedFields url headers body = [url] @ concat (map (\<lambda>h. [hd_Name h, hd_Value h]) headers) @ bodyTexts body"
  by (simp add: referencedFields_def bodyTexts_def)

lemma body_step: "stepOk (\<lambda>s. s) cs src bodyTexts (resolveBody (Text tr cs src))"
  unfolding stepOk_def
proof (intro allI impI)
  fix b :: Body and r
  assume r: "resolverOk cs src r"
  note step = stepOkD [OF Text_step(1) r] stepOkD [OF threadMap_step [OF field_step] r] stepOkD [OF threadMap_step [OF form_step] r]
  have ft: "formTexts = (\<lambda>f. [ff_Name f, ff_ContentType f] @ (if ff_Kind f = ''text'' then [ff_Value f] else []))"
    by (rule ext) (simp add: formTexts_def)
  consider "bo_Mode b = ''raw''" | "bo_Mode b = ''code''" | "bo_Mode b = ''urlencoded''" | "bo_Mode b = ''formdata''"
    | "bo_Mode b \<notin> {''raw'', ''code'', ''urlencoded'', ''formdata''}" by blast
  then show "resolvedTo (\<lambda>s. s) cs src r (snd (resolveBody (Text tr cs src) b r)) (bodyTexts b) (bodyTexts (fst (resolveBody (Text tr cs src) b r)))"
  proof cases
    case 1
    then show ?thesis using step(1) by (simp add: resolveBody_def bodyTexts_def referencedFields_def split: prod.split)
  next
    case 2
    then show ?thesis using step(1) by (simp add: resolveBody_def bodyTexts_def referencedFields_def split: prod.split)
  next
    case 3
    then show ?thesis using step(2) by (simp add: resolveBody_def bodyTexts_def referencedFields_def split: prod.split)
  next
    case 4
    then show ?thesis using step(3) by (simp add: resolveBody_def bodyTexts_def referencedFields_def ft split: prod.split)
  next
    case 5
    then show ?thesis using resolvedTo_nil [OF r] by (simp add: resolveBody_def bodyTexts_def referencedFields_def)
  qed
qed

lemma new_ok: "resolverOk cs src (NewResolverFor refs)"
  by (simp add: resolverOk_def NewResolverFor_def)

text \<open>A text none of whose references names a secret is as it was.\<close>

lemma substituted_same: "(\<forall>n\<in>spanNames (spansOf s). map_of refs n = None) \<Longrightarrow> substituted (\<lambda>s. s) cs src refs rec s s"
proof (induction s rule: spansOf.induct)
  case (1 s)
  show ?case
  proof (cases "nextSpan s")
    case None
    then show ?thesis unfolding substituted_def by (intro exI [of _ "[OText s]"]) (simp add: spansOf.simps [of s])
  next
    case (Some x)
    obtain before raw rest where x: "x = (before, raw, rest)" by (cases x)
    have sp: "spansOf s = raw # spansOf rest" by (simp add: spansOf.simps [of s] Some x)
    have "substituted (\<lambda>s. s) cs src refs rec rest rest"
      using 1(1) [OF Some x [symmetric] refl] 1(2) by (auto simp: sp spanNames_Cons split: if_splits)
    then obtain ps where ps: "rest = concat (map pieceSource ps)" "rest = concat (map pieceOut ps)" "list_all (pieceOk (\<lambda>s. s) cs (opened src refs) rec) ps" "spansOf rest = concat (map pieceSpan ps)"
      unfolding substituted_def by blast
    have "pieceOk (\<lambda>s. s) cs (opened src refs) rec (OLeft raw (''{{'' @ raw @ ''}}''))"
      using 1(2) by (auto simp: sp spanNames_Cons opened_def)
    moreover have "s = before @ ''{{'' @ raw @ ''}}'' @ rest" using nextSpan_Some Some x by blast
    moreover have "spansOf s = concat (map pieceSpan (OText before # OLeft raw (''{{'' @ raw @ ''}}'') # ps))" by (simp add: sp ps(4))
    ultimately show ?thesis
      unfolding substituted_def using ps(1-3) by (intro exI [of _ "OText before # OLeft raw (''{{'' @ raw @ ''}}'') # ps"] conjI) simp_all
  qed
qed

text \<open>
  A request and the one sent for it: \<open>S\<close> relates the texts that are substituted, everything else is the same.
\<close>

definition headerOf :: "(bytes \<Rightarrow> bytes \<Rightarrow> bool) \<Rightarrow> Header \<Rightarrow> Header \<Rightarrow> bool" where
  "headerOf S h h' \<longleftrightarrow> S (hd_Name h) (hd_Name h') \<and> S (hd_Value h) (hd_Value h')"

definition fieldOf :: "(bytes \<Rightarrow> bytes \<Rightarrow> bool) \<Rightarrow> Field \<Rightarrow> Field \<Rightarrow> bool" where
  "fieldOf S f f' \<longleftrightarrow> S (fd_Name f) (fd_Name f') \<and> S (fd_Value f) (fd_Value f')"

definition formOf :: "(bytes \<Rightarrow> bytes \<Rightarrow> bool) \<Rightarrow> FormField \<Rightarrow> FormField \<Rightarrow> bool" where
  "formOf S f f' \<longleftrightarrow> S (ff_Name f) (ff_Name f') \<and> S (ff_ContentType f) (ff_ContentType f') \<and>
     ff_Kind f' = ff_Kind f \<and> ff_Path f' = ff_Path f \<and>
     (if ff_Kind f = ''text'' then S (ff_Value f) (ff_Value f') else ff_Value f' = ff_Value f)"

definition bodyOf :: "(bytes \<Rightarrow> bytes \<Rightarrow> bool) \<Rightarrow> Body \<Rightarrow> Body \<Rightarrow> bool" where
  "bodyOf S b b' \<longleftrightarrow> bo_Mode b' = bo_Mode b \<and> bo_CodeLanguage b' = bo_CodeLanguage b \<and> bo_File b' = bo_File b \<and>
     (if bo_Mode b = ''raw'' then S (bo_Raw b) (bo_Raw b') else bo_Raw b' = bo_Raw b) \<and>
     (if bo_Mode b = ''code'' then S (bo_Code b) (bo_Code b') else bo_Code b' = bo_Code b) \<and>
     (if bo_Mode b = ''urlencoded'' then list_all2 (fieldOf S) (bo_URLEncoded b) (bo_URLEncoded b') else bo_URLEncoded b' = bo_URLEncoded b) \<and>
     (if bo_Mode b = ''formdata'' then list_all2 (formOf S) (bo_FormData b) (bo_FormData b') else bo_FormData b' = bo_FormData b)"

lemma threadMap_pointwise:
  assumes "\<And>x r. P x (fst (f x r))"
  shows "list_all2 P xs (fst (threadMap f xs r))"
  by (induction xs arbitrary: r) (auto simp: case_prod_beta assms)

lemma concat_pointwise:
  "list_all2 (\<lambda>x y. length (tx x) = length (tx y)) xs ys \<Longrightarrow> list_all2 S (concat (map tx xs)) (concat (map tx ys)) \<Longrightarrow>
   list_all2 (\<lambda>x y. list_all2 S (tx x) (tx y)) xs ys"
  by (induction rule: list_all2_induct) (auto simp: list_all2_append)

definition formFrame :: "FormField \<Rightarrow> FormField \<Rightarrow> bool" where
  "formFrame f f' \<longleftrightarrow> ff_Kind f' = ff_Kind f \<and> ff_Path f' = ff_Path f \<and> (ff_Kind f = ''text'' \<or> ff_Value f' = ff_Value f)"

lemma form_frame: "formFrame f (fst (resolveFormField txt f r))"
  by (simp add: formFrame_def resolveFormField_def Let_def case_prod_beta)

lemma headers_pointwise:
  assumes "threadMap (resolveHeader txt) hs r = (hs', r')"
    and "list_all2 S (concat (map (\<lambda>h. [hd_Name h, hd_Value h]) hs)) (concat (map (\<lambda>h. [hd_Name h, hd_Value h]) hs'))"
  shows "list_all2 (headerOf S) hs hs'"
proof -
  have "list_all2 (\<lambda>x y. True) hs hs'" using threadMap_pointwise [of "\<lambda>x y. True" "resolveHeader txt" hs r] assms(1) by simp
  then have "list_all2 (\<lambda>x y. list_all2 S [hd_Name x, hd_Value x] [hd_Name y, hd_Value y]) hs hs'"
    using concat_pointwise [of "\<lambda>h. [hd_Name h, hd_Value h]" hs hs' S] assms(2) by simp
  then show ?thesis by (rule list_all2_mono) (simp add: headerOf_def)
qed

lemma fields_pointwise:
  assumes "threadMap (resolveField txt) fs r = (fs', r')"
    and "list_all2 S (concat (map (\<lambda>f. [fd_Name f, fd_Value f]) fs)) (concat (map (\<lambda>f. [fd_Name f, fd_Value f]) fs'))"
  shows "list_all2 (fieldOf S) fs fs'"
proof -
  have "list_all2 (\<lambda>x y. True) fs fs'" using threadMap_pointwise [of "\<lambda>x y. True" "resolveField txt" fs r] assms(1) by simp
  then have "list_all2 (\<lambda>x y. list_all2 S [fd_Name x, fd_Value x] [fd_Name y, fd_Value y]) fs fs'"
    using concat_pointwise [of "\<lambda>f. [fd_Name f, fd_Value f]" fs fs' S] assms(2) by simp
  then show ?thesis by (rule list_all2_mono) (simp add: fieldOf_def)
qed

lemma forms_pointwise:
  assumes "threadMap (resolveFormField txt) fs r = (fs', r')" and "list_all2 S (concat (map formTexts fs)) (concat (map formTexts fs'))"
  shows "list_all2 (formOf S) fs fs'"
proof -
  have fr: "list_all2 formFrame fs fs'"
    using threadMap_pointwise [of formFrame "resolveFormField txt" fs r] form_frame assms(1) by simp
  then have "list_all2 (\<lambda>x y. length (formTexts x) = length (formTexts y)) fs fs'"
    by (rule list_all2_mono) (auto simp: formFrame_def formTexts_def)
  from concat_pointwise [OF this assms(2)] fr
  have "list_all2 (\<lambda>x y. list_all2 S (formTexts x) (formTexts y) \<and> formFrame x y) fs fs'"
    by (simp add: list_all2_conv_all_nth)
  then show ?thesis by (rule list_all2_mono) (auto simp: formOf_def formTexts_def formFrame_def split: if_splits)
qed

lemma body_pointwise:
  assumes "resolveBody txt b r = (b', r')" and "list_all2 S (bodyTexts b) (bodyTexts b')"
  shows "bodyOf S b b'"
proof -
  have ft: "formTexts = (\<lambda>f. [ff_Name f, ff_ContentType f] @ (if ff_Kind f = ''text'' then [ff_Value f] else []))"
    by (rule ext) (simp add: formTexts_def)
  consider "bo_Mode b = ''raw''" | "bo_Mode b = ''code''" | "bo_Mode b = ''urlencoded''" | "bo_Mode b = ''formdata''"
    | "bo_Mode b \<notin> {''raw'', ''code'', ''urlencoded'', ''formdata''}" by blast
  then show ?thesis
  proof cases
    case 3
    then obtain fs where "threadMap (resolveField txt) (bo_URLEncoded b) r = (fs, r')" "b' = b\<lparr>bo_URLEncoded := fs\<rparr>"
      using assms(1) by (auto simp: resolveBody_def split: prod.splits)
    then show ?thesis using fields_pointwise assms(2) 3 by (auto simp: bodyOf_def bodyTexts_def referencedFields_def)
  next
    case 4
    then obtain fs where "threadMap (resolveFormField txt) (bo_FormData b) r = (fs, r')" "b' = b\<lparr>bo_FormData := fs\<rparr>"
      using assms(1) by (auto simp: resolveBody_def split: prod.splits)
    then show ?thesis using forms_pointwise assms(2) 4 by (auto simp: bodyOf_def bodyTexts_def referencedFields_def ft)
  qed (use assms in \<open>auto simp: resolveBody_def bodyOf_def bodyTexts_def referencedFields_def split: prod.splits\<close>)
qed

lemma request_of_refl:
  assumes "\<And>s. s \<in> set (referencedFields url headers body) \<Longrightarrow> S s s"
  shows "S url url \<and> list_all2 (headerOf S) headers headers \<and> bodyOf S body body"
proof (intro conjI)
  show "S url url" by (rule assms) (simp add: referencedFields_def)
  show "list_all2 (headerOf S) headers headers"
  proof (rule list.rel_refl_strong)
    fix h
    assume "h \<in> set headers"
    then have "{hd_Name h, hd_Value h} \<subseteq> set (referencedFields url headers body)" by (auto simp: referencedFields_def)
    then show "headerOf S h h" using assms by (simp add: headerOf_def)
  qed
  have b: "S s s" if "s \<in> set (bodyTexts body)" for s
    using that assms by (simp add: referencedFields_texts)
  have "list_all2 (fieldOf S) (bo_URLEncoded body) (bo_URLEncoded body)" if "bo_Mode body = ''urlencoded''"
    using that b by (intro list.rel_refl_strong) (auto simp: fieldOf_def bodyTexts_def referencedFields_def)
  moreover have "list_all2 (formOf S) (bo_FormData body) (bo_FormData body)" if "bo_Mode body = ''formdata''"
    using that b by (intro list.rel_refl_strong) (auto simp: formOf_def bodyTexts_def referencedFields_def)
  ultimately show "bodyOf S body body" using b by (simp add: bodyOf_def) (auto simp: bodyTexts_def referencedFields_def)
qed

text \<open>What the URL does to a reference it leaves: it is percent-encoded as soon as the request is resolved at all.\<close>

definition urlLeft :: "(bytes \<times> bytes) list \<Rightarrow> bytes list \<Rightarrow> bytes \<Rightarrow> bytes" where
  "urlLeft refs texts = (if list_ex (\<lambda>f. Names f \<noteq> []) texts \<and> refs \<noteq> [] then urlUnsafe else (\<lambda>s. s))"

text \<open>The case in which the resolver runs: the URL, the headers and the body are resolved one after the other.\<close>

lemma resolver_runs:
  assumes "URLText tr cs src url (NewResolverFor refs) = (u1, r1)"
    and h: "threadMap (resolveHeader (Text tr cs src)) headers r1 = (h2, r2)"
    and b: "resolveBody (Text tr cs src) body r2 = (b3, r3)" and ok: "rv_err r3 = None"
  shows "substituted urlUnsafe cs src refs (set (rv_used r3)) url u1 \<and>
    list_all2 (headerOf (substituted (\<lambda>s. s) cs src refs (set (rv_used r3)))) headers h2 \<and>
    bodyOf (substituted (\<lambda>s. s) cs src refs (set (rv_used r3))) body b3 \<and>
    (\<forall>u\<in>set (rv_used r3). usedFrom cs src refs u) \<and> distinct (map keyOf (rv_used r3))"
proof -
  let ?S = "substituted (\<lambda>s. s) cs src refs (set (rv_used r3))"
  have 1: "resolvedTo urlUnsafe cs src (NewResolverFor refs) r1 [url] [u1]" using stepOkD [OF Text_step(2) new_ok assms(1)] .
  have 2: "resolvedTo (\<lambda>s. s) cs src r1 r2 (concat (map (\<lambda>h. [hd_Name h, hd_Value h]) headers)) (concat (map (\<lambda>h. [hd_Name h, hd_Value h]) h2))"
    using stepOkD [OF threadMap_step [OF header_step] resolvedTo_ok [OF 1] h] .
  have 3: "resolvedTo (\<lambda>s. s) cs src r2 r3 (bodyTexts body) (bodyTexts b3)" using stepOkD [OF body_step resolvedTo_ok [OF 2] b] .
  have lt: "later (NewResolverFor refs) r1" "later r1 r2" "later r2 r3" and l5: "resolverOk cs src r3"
    using 1 2 3 unfolding resolvedTo_def by blast+
  then have l: "later r1 r3" using later_trans by blast
  have rr: "rv_refs r1 = refs" "rv_refs r3 = refs" using lt l by (simp_all add: later_def NewResolverFor_def)
  have "rv_err r1 = None" using ok l by (simp add: later_def)
  then have "substituted urlUnsafe cs src refs (set (rv_used r1)) url u1" using 1 by (simp add: resolvedTo_def NewResolverFor_def)
  then have "substituted urlUnsafe cs src refs (set (rv_used r3)) url u1"
    by (rule substituted_mono) (use l in \<open>simp add: later_def\<close>)
  moreover have "list_all2 ?S (concat (map (\<lambda>h. [hd_Name h, hd_Value h]) headers) @ bodyTexts body)
      (concat (map (\<lambda>h. [hd_Name h, hd_Value h]) h2) @ bodyTexts b3)"
    using resolvedTo_append [OF 2 3] ok rr by (simp add: resolvedTo_def)
  moreover have "list_all2 (\<lambda>x y. True) headers h2"
    using threadMap_pointwise [of "\<lambda>x y. True" "resolveHeader (Text tr cs src)" headers r1] h by simp
  then have "length (concat (map (\<lambda>h. [hd_Name h, hd_Value h]) headers)) = length (concat (map (\<lambda>h. [hd_Name h, hd_Value h]) h2))"
    by (induction rule: list_all2_induct) simp_all
  ultimately have "list_all2 ?S (concat (map (\<lambda>h. [hd_Name h, hd_Value h]) headers)) (concat (map (\<lambda>h. [hd_Name h, hd_Value h]) h2))"
    and "list_all2 ?S (bodyTexts body) (bodyTexts b3)" and "substituted urlUnsafe cs src refs (set (rv_used r3)) url u1"
    by (simp_all add: list_all2_append)
  then show ?thesis
    using headers_pointwise [OF h] body_pointwise [OF b] rr(2) l5 by (simp add: resolverOk_def)
qed

text \<open>
  C11: Requests carry exactly the secrets they name.  When \<open>ResolveRequest\<close> succeeds, the request it returns has
  the same headers, the same kind of body and the same form fields in the same order, and differs only in
  the texts that may hold references: the URL, the names and values of the headers, and the texts of the
  body's own mode (a file, a path, a field's kind, the code's language and the other modes' contents are as they
  were).  Each of these texts is the one given with each reference to a secret of the scope replaced by
  the value of that secret, sent through the reference's transforms, and recorded among the used secrets
  under its placeholder.  The pieces name the spans of the text in order, so no reference is passed over; a span
  is left only when it is empty or dynamic, names no secret or its transform fails, and then exactly as it was,
  or percent-encoded when it is in the URL of a request that names something.  No record is made twice.
\<close>

theorem request_secrets_exact:
  assumes "ResolveRequest tr cs src (Inr refs) url headers body = (url', headers', body', used, None)"
  shows "substituted (urlLeft refs (referencedFields url headers body)) cs src refs (set used) url url' \<and>
    list_all2 (headerOf (substituted (\<lambda>s. s) cs src refs (set used))) headers headers' \<and>
    bodyOf (substituted (\<lambda>s. s) cs src refs (set used)) body body' \<and>
    (\<forall>u\<in>set used. usedFrom cs src refs u) \<and> distinct (map keyOf used)"
proof (cases "list_ex (\<lambda>f. 0 < length (Names f)) (referencedFields url headers body) \<and> refs \<noteq> []")
  case False
  then have eq: "url' = url" "headers' = headers" "body' = body" "used = []"
    using assms by (auto simp: ResolveRequest_def AnySecret_def NewResolverFor_def split: if_splits)
  have "\<forall>n\<in>spanNames (spansOf s). map_of refs n = None" if "s \<in> set (referencedFields url headers body)" for s
    using False that Names_spans [of s] by (auto simp: list_ex_iff)
  then have "substituted (\<lambda>s. s) cs src refs (set used) s s" if "s \<in> set (referencedFields url headers body)" for s
    using that substituted_same by blast
  with request_of_refl [of url headers body "substituted (\<lambda>s. s) cs src refs (set used)"]
  have S: "substituted (\<lambda>s. s) cs src refs (set used) url url"
    "list_all2 (headerOf (substituted (\<lambda>s. s) cs src refs (set used))) headers headers"
    "bodyOf (substituted (\<lambda>s. s) cs src refs (set used)) body body" by blast+
  have "urlLeft refs (referencedFields url headers body) = (\<lambda>s. s)" using False by (auto simp: urlLeft_def)
  then show ?thesis using S unfolding eq by simp
next
  case True
  obtain u1 r1 where u: "URLText tr cs src url (NewResolverFor refs) = (u1, r1)" by (cases "URLText tr cs src url (NewResolverFor refs)")
  obtain h2 r2 where h: "threadMap (resolveHeader (Text tr cs src)) headers r1 = (h2, r2)" by (cases "threadMap (resolveHeader (Text tr cs src)) headers r1")
  obtain b3 r3 where b: "resolveBody (Text tr cs src) body r2 = (b3, r3)" by (cases "resolveBody (Text tr cs src) body r2")
  have eq: "rv_err r3 = None" "url' = u1" "headers' = h2" "body' = b3" "used = rv_used r3"
    using assms True u h b by (auto simp: ResolveRequest_def AnySecret_def NewResolverFor_def Let_def split: if_splits option.splits)
  have "urlLeft refs (referencedFields url headers body) = urlUnsafe" using True by (auto simp: urlLeft_def)
  then show ?thesis using resolver_runs [OF u h b eq(1)] by (simp add: eq)
qed

section \<open>Unset secrets\<close>

lemma loadOne_err:
  "map_of (rv_refs r) name = Some ref \<Longrightarrow> src ref = Inl e \<Longrightarrow> resolverOk cs src r \<Longrightarrow> rv_err (loadOne tr src name r) \<noteq> None"
proof -
  assume a: "map_of (rv_refs r) name = Some ref" "src ref = Inl e" "resolverOk cs src r"
  have "opened src (rv_refs r) name = None" using a(1,2) by (simp add: opened_def)
  then have "rv_secretValues r name = None" using a(3) by (cases "rv_secretValues r name") (auto simp: resolverOk_def)
  then show ?thesis using a(1,2) by (auto simp: loadOne_def)
qed

lemma loadMany_err:
  "n \<in> set ns \<Longrightarrow> map_of (rv_refs r) n = Some ref \<Longrightarrow> src ref = Inl e \<Longrightarrow> resolverOk cs src r \<Longrightarrow>
   rv_err (fold (loadOne tr src) ns r) \<noteq> None"
proof (induction ns arbitrary: r)
  case (Cons m ns)
  have 1: "resolverOk cs src (loadOne tr src m r)" "later r (loadOne tr src m r)" using loadOne_ok [OF Cons.prems(4)] by auto
  show ?case
  proof (cases "n = m")
    case True
    have "rv_err (loadOne tr src m r) \<noteq> None" using loadOne_err Cons.prems True by blast
    then show ?thesis using loadMany_ok [OF 1(1)] by (auto simp: later_def)
  next
    case False
    then show ?thesis using Cons.IH [OF _ _ Cons.prems(3) 1(1)] Cons.prems(1,2) 1(2) by (simp add: later_def)
  qed
qed simp

text \<open>A step that fails whenever one of its texts names a secret that cannot be opened.\<close>

definition failsOn :: "casers \<Rightarrow> secret_source \<Rightarrow> bytes \<Rightarrow> ('a \<Rightarrow> bytes list) \<Rightarrow> ('a \<Rightarrow> Resolver \<Rightarrow> 'a \<times> Resolver) \<Rightarrow> bool" where
  "failsOn cs src n tx f \<longleftrightarrow> (\<forall>x r ref e. resolverOk cs src r \<longrightarrow> list_ex (\<lambda>s. n \<in> set (Names s)) (tx x) \<longrightarrow>
     map_of (rv_refs r) n = Some ref \<longrightarrow> src ref = Inl e \<longrightarrow> rv_err (snd (f x r)) \<noteq> None)"

lemma failsOnD:
  "failsOn cs src n tx f \<Longrightarrow> f x r = (y, r') \<Longrightarrow> resolverOk cs src r \<Longrightarrow> list_ex (\<lambda>s. n \<in> set (Names s)) (tx x) \<Longrightarrow>
   map_of (rv_refs r) n = Some ref \<Longrightarrow> src ref = Inl e \<Longrightarrow> rv_err r' \<noteq> None"
  by (metis failsOn_def snd_conv)

lemma onResolved_err: "rv_err (fold onResolved cl r) = rv_err r"
proof -
  have "rv_err (onResolved c r) = rv_err r" for c r by (cases c) (simp add: onResolved_def Let_def)
  then show ?thesis by (induction cl arbitrary: r) simp_all
qed

lemma resolverText_fails: "failsOn cs src n (\<lambda>s. [s]) (resolverText tr cs src san)"
  unfolding failsOn_def using loadMany_err
  by (fastforce simp: resolverText_def Let_def case_prod_beta onResolved_err loadText_def)

lemma Text_fails: "failsOn cs src n (\<lambda>s. [s]) (Text tr cs src)" "failsOn cs src n (\<lambda>s. [s]) (URLText tr cs src)"
  by (simp_all add: Text_def URLText_def resolverText_fails)

lemma resolvedTo_refs: "resolvedTo san cs src r r' A B \<Longrightarrow> rv_refs r' = rv_refs r \<and> (rv_err r \<noteq> None \<longrightarrow> rv_err r' \<noteq> None)"
  by (simp add: resolvedTo_def later_def)

text \<open>Two steps in a row fail when one of them does.\<close>

lemma seq_fails:
  assumes "failsOn cs src n tx f" and "stepOk san cs src tx f" and "failsOn cs src n ty g" and "stepOk san' cs src ty g"
    and "f x r = (x', r1)" and "g y r1 = (y', r2)" and "resolverOk cs src r" and "map_of (rv_refs r) n = Some ref" and "src ref = Inl e"
    and "list_ex (\<lambda>s. n \<in> set (Names s)) (tx x @ ty y)"
  shows "rv_err r2 \<noteq> None"
proof -
  have 1: "resolvedTo san cs src r r1 (tx x) (tx x')" by (rule stepOkD [OF assms(2,7,5)])
  have 2: "resolvedTo san' cs src r1 r2 (ty y) (ty y')" by (rule stepOkD [OF assms(4) resolvedTo_ok [OF 1] assms(6)])
  show ?thesis
    using assms(10) failsOnD [OF assms(1,5,7)] failsOnD [OF assms(3,6) resolvedTo_ok [OF 1]] assms(8,9)
      resolvedTo_refs [OF 1] resolvedTo_refs [OF 2] by auto
qed

lemma threadMap_fails:
  assumes "failsOn cs src n tx f" and "stepOk san cs src tx f"
  shows "failsOn cs src n (\<lambda>xs. concat (map tx xs)) (threadMap f)"
  unfolding failsOn_def
proof (intro allI impI)
  fix xs r ref e
  show "resolverOk cs src r \<Longrightarrow> list_ex (\<lambda>s. n \<in> set (Names s)) (concat (map tx xs)) \<Longrightarrow> map_of (rv_refs r) n = Some ref \<Longrightarrow>
      src ref = Inl e \<Longrightarrow> rv_err (snd (threadMap f xs r)) \<noteq> None"
  proof (induction xs arbitrary: r)
    case (Cons x xs)
    obtain y r1 where y: "f x r = (y, r1)" by (cases "f x r")
    have s: "resolvedTo san cs src r r1 (tx x) (tx y)" by (rule stepOkD [OF assms(2) Cons.prems(1) y])
    have t: "resolvedTo san cs src r1 (snd (threadMap f xs r1)) (concat (map tx xs)) (concat (map tx (fst (threadMap f xs r1))))"
      using threadMap_step [OF assms(2)] resolvedTo_ok [OF s] by (simp add: stepOk_def)
    have "rv_err r1 \<noteq> None" if "list_ex (\<lambda>s. n \<in> set (Names s)) (tx x)" using failsOnD [OF assms(1) y Cons.prems(1) that] Cons.prems(3,4) by blast
    moreover have "rv_err (snd (threadMap f xs r1)) \<noteq> None" if "list_ex (\<lambda>s. n \<in> set (Names s)) (concat (map tx xs))"
      using Cons.IH [OF resolvedTo_ok [OF s] that _ Cons.prems(4)] Cons.prems(3) resolvedTo_refs [OF s] by simp
    ultimately show ?case using Cons.prems(2) resolvedTo_refs [OF t] by (auto simp: y case_prod_beta)
  qed simp
qed

lemma header_fails: "failsOn cs src n (\<lambda>h. [hd_Name h, hd_Value h]) (resolveHeader (Text tr cs src))"
  unfolding failsOn_def
proof (intro allI impI)
  fix h :: Header and r ref e
  assume a: "resolverOk cs src r" "list_ex (\<lambda>s. n \<in> set (Names s)) [hd_Name h, hd_Value h]" "map_of (rv_refs r) n = Some ref" "src ref = Inl e"
  obtain x r1 where x: "Text tr cs src (hd_Name h) r = (x, r1)" by (cases "Text tr cs src (hd_Name h) r")
  obtain v r2 where v: "Text tr cs src (hd_Value h) r1 = (v, r2)" by (cases "Text tr cs src (hd_Value h) r1")
  show "rv_err (snd (resolveHeader (Text tr cs src) h r)) \<noteq> None"
    using seq_fails [OF Text_fails(1) Text_step(1) Text_fails(1) Text_step(1) x v a(1,3,4)] a(2) by (simp add: resolveHeader_def x v)
qed

lemma field_fails: "failsOn cs src n (\<lambda>f. [fd_Name f, fd_Value f]) (resolveField (Text tr cs src))"
  unfolding failsOn_def
proof (intro allI impI)
  fix f :: Field and r ref e
  assume a: "resolverOk cs src r" "list_ex (\<lambda>s. n \<in> set (Names s)) [fd_Name f, fd_Value f]" "map_of (rv_refs r) n = Some ref" "src ref = Inl e"
  obtain x r1 where x: "Text tr cs src (fd_Name f) r = (x, r1)" by (cases "Text tr cs src (fd_Name f) r")
  obtain v r2 where v: "Text tr cs src (fd_Value f) r1 = (v, r2)" by (cases "Text tr cs src (fd_Value f) r1")
  show "rv_err (snd (resolveField (Text tr cs src) f r)) \<noteq> None"
    using seq_fails [OF Text_fails(1) Text_step(1) Text_fails(1) Text_step(1) x v a(1,3,4)] a(2) by (simp add: resolveField_def x v)
qed

lemma form_fails: "failsOn cs src n formTexts (resolveFormField (Text tr cs src))"
  unfolding failsOn_def
proof (intro allI impI)
  fix f :: FormField and r ref e
  assume a: "resolverOk cs src r" "list_ex (\<lambda>s. n \<in> set (Names s)) (formTexts f)" "map_of (rv_refs r) n = Some ref" "src ref = Inl e"
  obtain x r1 where x: "Text tr cs src (ff_Name f) r = (x, r1)" by (cases "Text tr cs src (ff_Name f) r")
  obtain c r2 where c: "Text tr cs src (ff_ContentType f) r1 = (c, r2)" by (cases "Text tr cs src (ff_ContentType f) r1")
  obtain v r3 where v: "Text tr cs src (ff_Value f) r2 = (v, r3)" by (cases "Text tr cs src (ff_Value f) r2")
  have 1: "resolvedTo (\<lambda>s. s) cs src r r1 [ff_Name f] [x]" using stepOkD [OF Text_step(1) a(1) x] .
  have 2: "resolvedTo (\<lambda>s. s) cs src r1 r2 [ff_ContentType f] [c]" using stepOkD [OF Text_step(1) resolvedTo_ok [OF 1] c] .
  have 3: "resolvedTo (\<lambda>s. s) cs src r2 r3 [ff_Value f] [v]" using stepOkD [OF Text_step(1) resolvedTo_ok [OF 2] v] .
  have 12: "rv_err r2 \<noteq> None" if "list_ex (\<lambda>s. n \<in> set (Names s)) [ff_Name f, ff_ContentType f]"
    using seq_fails [OF Text_fails(1) Text_step(1) Text_fails(1) Text_step(1) x c a(1,3,4)] that by simp
  moreover have "rv_err r3 \<noteq> None" if "n \<in> set (Names (ff_Value f))"
    using failsOnD [OF Text_fails(1) v resolvedTo_ok [OF 2]] that a(3,4) resolvedTo_refs [OF 1] resolvedTo_refs [OF 2] by simp
  ultimately show "rv_err (snd (resolveFormField (Text tr cs src) f r)) \<noteq> None"
    using a(2) resolvedTo_refs [OF 3] by (auto simp: resolveFormField_def x c v Let_def formTexts_def split: if_splits)
qed

lemma body_fails: "failsOn cs src n bodyTexts (resolveBody (Text tr cs src))"
  unfolding failsOn_def
proof (intro allI impI)
  fix b :: Body and r ref e
  assume a: "resolverOk cs src r" "list_ex (\<lambda>s. n \<in> set (Names s)) (bodyTexts b)" "map_of (rv_refs r) n = Some ref" "src ref = Inl e"
  note f = Text_fails(1) [of cs src n tr] threadMap_fails [OF field_fails field_step] threadMap_fails [OF form_fails form_step]
  have ft: "formTexts = (\<lambda>f. [ff_Name f, ff_ContentType f] @ (if ff_Kind f = ''text'' then [ff_Value f] else []))"
    by (rule ext) (simp add: formTexts_def)
  consider "bo_Mode b = ''raw''" | "bo_Mode b = ''code''" | "bo_Mode b = ''urlencoded''" | "bo_Mode b = ''formdata''"
    | "bo_Mode b \<notin> {''raw'', ''code'', ''urlencoded'', ''formdata''}" by blast
  then show "rv_err (snd (resolveBody (Text tr cs src) b r)) \<noteq> None"
  proof cases
    case 1
    then show ?thesis using failsOnD [OF f(1) prod.collapse [symmetric] a(1)] a(2-4) by (simp add: resolveBody_def bodyTexts_def referencedFields_def case_prod_beta)
  next
    case 2
    then show ?thesis using failsOnD [OF f(1) prod.collapse [symmetric] a(1)] a(2-4) by (simp add: resolveBody_def bodyTexts_def referencedFields_def case_prod_beta)
  next
    case 3
    then show ?thesis using failsOnD [OF f(2) prod.collapse [symmetric] a(1)] a(2-4) by (simp add: resolveBody_def bodyTexts_def referencedFields_def case_prod_beta)
  next
    case 4
    then show ?thesis using failsOnD [OF f(3) prod.collapse [symmetric] a(1)] a(2-4) by (simp add: resolveBody_def bodyTexts_def referencedFields_def case_prod_beta ft)
  next
    case 5
    then show ?thesis using a(2) by (simp add: bodyTexts_def referencedFields_def)
  qed
qed

text \<open>
  C14: A secret that is not set or cannot be read fails the send.  When a field of the request names a secret of
  the scope that the store does not give, \<open>ResolveRequest\<close> returns an error and the request as it was: no
  request leaves with the reference in it, with an empty value, or with another secret already filled in.
\<close>

theorem unset_secret_fails:
  assumes "s \<in> set (referencedFields url headers body)" and "n \<in> set (Names s)" and "map_of refs n = Some ref" and "src ref = Inl e"
  shows "\<exists>err. ResolveRequest tr cs src (Inr refs) url headers body = (url, headers, body, [], Some err)"
proof -
  obtain u1 r1 where u: "URLText tr cs src url (NewResolverFor refs) = (u1, r1)" by (cases "URLText tr cs src url (NewResolverFor refs)")
  obtain h2 r2 where h: "threadMap (resolveHeader (Text tr cs src)) headers r1 = (h2, r2)" by (cases "threadMap (resolveHeader (Text tr cs src)) headers r1")
  obtain b3 r3 where b: "resolveBody (Text tr cs src) body r2 = (b3, r3)" by (cases "resolveBody (Text tr cs src) body r2")
  have 1: "resolvedTo urlUnsafe cs src (NewResolverFor refs) r1 [url] [u1]" using stepOkD [OF Text_step(2) new_ok u] .
  have 2: "resolvedTo (\<lambda>s. s) cs src r1 r2 (concat (map (\<lambda>h. [hd_Name h, hd_Value h]) headers)) (concat (map (\<lambda>h. [hd_Name h, hd_Value h]) h2))"
    using stepOkD [OF threadMap_step [OF header_step] resolvedTo_ok [OF 1] h] .
  have 3: "resolvedTo (\<lambda>s. s) cs src r2 r3 (bodyTexts body) (bodyTexts b3)" using stepOkD [OF body_step resolvedTo_ok [OF 2] b] .
  have m: "map_of (rv_refs (NewResolverFor refs)) n = Some ref" using assms(3) by (simp add: NewResolverFor_def)
  have e12: "rv_err r2 \<noteq> None" if "list_ex (\<lambda>s. n \<in> set (Names s)) ([url] @ concat (map (\<lambda>h. [hd_Name h, hd_Value h]) headers))"
    using seq_fails [OF Text_fails(2) Text_step(2) threadMap_fails [OF header_fails header_step] threadMap_step [OF header_step] u h new_ok m assms(4) that] .
  have e3: "rv_err r3 \<noteq> None" if "list_ex (\<lambda>s. n \<in> set (Names s)) (bodyTexts body)"
    using failsOnD [OF body_fails b resolvedTo_ok [OF 2] that] m assms(4) resolvedTo_refs [OF 1] resolvedTo_refs [OF 2] by simp
  have "list_ex (\<lambda>s. n \<in> set (Names s)) ([url] @ concat (map (\<lambda>h. [hd_Name h, hd_Value h]) headers)) \<or> list_ex (\<lambda>s. n \<in> set (Names s)) (bodyTexts body)"
    using assms(1,2) by (auto simp: referencedFields_texts list_ex_iff)
  then have "rv_err r3 \<noteq> None" using e12 e3 resolvedTo_refs [OF 3] by blast
  moreover have "list_ex (\<lambda>f. 0 < length (Names f)) (referencedFields url headers body)" using assms(1,2) by (auto simp: list_ex_iff intro!: bexI [of _ s])
  moreover have "0 < length refs" using assms(3) by (cases refs) auto
  ultimately show ?thesis by (auto simp: ResolveRequest_def AnySecret_def NewResolverFor_def [of refs, symmetric] Let_def u h b) (simp add: NewResolverFor_def)
qed

section \<open>Concrete requests\<close>

definition sampleCasers :: casers where
  "sampleCasers = \<lparr>cs_upper = (\<lambda>s. s), cs_lower = (\<lambda>s. s)\<rparr>"

definition sampleSource :: secret_source where
  "sampleSource ref = (if ref = ''api/token'' then Inr ''s3'' else Inl SecretMissing)"

definition sampleRefs :: "(bytes \<times> bytes) list" where
  "sampleRefs = [(''token'', ''api/token''), (''gone'', ''api/gone'')]"

definition sampleBody :: "bytes \<Rightarrow> Body" where
  "sampleBody s = \<lparr>bo_Mode = ''raw'', bo_Raw = s, bo_Code = [], bo_CodeLanguage = [], bo_URLEncoded = [], bo_FormData = [], bo_File = []\<rparr>"

definition sampleUsed :: "UsedSecret list" where
  "sampleUsed = [\<lparr>us_Name = ''token'', us_Rendered = ''s3'', us_Placeholder = ''{{token}}''\<rparr>,
     \<lparr>us_Name = ''token'', us_Rendered = ''czM='', us_Placeholder = ''{{token | base64}}''\<rparr>]"

lemma sample_request:
  "ResolveRequest (\<lambda>k a. []) sampleCasers sampleSource (Inr sampleRefs) ''h/{{token}}?q={{ who }}''
     [\<lparr>hd_Name = ''A'', hd_Value = ''Basic {{token|base64}}''\<rparr>] (sampleBody ''{{ token }}'') =
   (''h/s3?q={{%20who%20}}'', [\<lparr>hd_Name = ''A'', hd_Value = ''Basic czM=''\<rparr>], sampleBody ''s3'', sampleUsed, None)"
  by code_simp

theorem request_secrets_exact_witness:
  "substituted (urlLeft sampleRefs (referencedFields ''h/{{token}}?q={{ who }}'' [\<lparr>hd_Name = ''A'', hd_Value = ''Basic {{token|base64}}''\<rparr>]
       (sampleBody ''{{ token }}''))) sampleCasers sampleSource sampleRefs (set sampleUsed)
     ''h/{{token}}?q={{ who }}'' ''h/s3?q={{%20who%20}}'' \<and>
   list_all2 (headerOf (substituted (\<lambda>s. s) sampleCasers sampleSource sampleRefs (set sampleUsed)))
     [\<lparr>hd_Name = ''A'', hd_Value = ''Basic {{token|base64}}''\<rparr>] [\<lparr>hd_Name = ''A'', hd_Value = ''Basic czM=''\<rparr>] \<and>
   bodyOf (substituted (\<lambda>s. s) sampleCasers sampleSource sampleRefs (set sampleUsed)) (sampleBody ''{{ token }}'') (sampleBody ''s3'') \<and>
   length sampleUsed = 2"
  using request_secrets_exact [OF sample_request] by (simp add: sampleUsed_def)

theorem unset_secret_fails_witness:
  "''a {{gone}}'' \<in> set (referencedFields ''h/{{token}}'' [] (sampleBody ''a {{gone}}'')) \<and> ''gone'' \<in> set (Names ''a {{gone}}'') \<and>
   map_of sampleRefs ''gone'' = Some ''api/gone'' \<and> sampleSource ''api/gone'' = Inl SecretMissing \<and>
   (\<exists>err. ResolveRequest (\<lambda>k a. []) sampleCasers sampleSource (Inr sampleRefs) ''h/{{token}}'' [] (sampleBody ''a {{gone}}'') =
     (''h/{{token}}'', [], sampleBody ''a {{gone}}'', [], Some err))"
proof -
  have 1: "''a {{gone}}'' \<in> set (referencedFields ''h/{{token}}'' [] (sampleBody ''a {{gone}}''))" by (simp add: referencedFields_def sampleBody_def)
  have 2: "''gone'' \<in> set (Names ''a {{gone}}'')" by code_simp
  have 3: "map_of sampleRefs ''gone'' = Some ''api/gone''" "sampleSource ''api/gone'' = Inl SecretMissing"
    by (simp_all add: sampleRefs_def sampleSource_def)
  show ?thesis using 1 2 3 unset_secret_fails [where src = sampleSource, OF 1 2 3] by blast
qed

section \<open>What masking covers\<close>

text \<open>A masked text piece by piece: a byte kept, and a registered text replaced.\<close>

datatype MaskPiece = Kept char | Masked bytes bytes

fun maskSource :: "MaskPiece \<Rightarrow> bytes" where
  "maskSource (Kept c) = [c]"
| "maskSource (Masked old new) = old"

fun maskOut :: "MaskPiece \<Rightarrow> bytes" where
  "maskOut (Kept c) = [c]"
| "maskOut (Masked old new) = new"

text \<open>No registered text starts at a kept byte, and every replaced text is registered.\<close>

fun maskOk :: "(bytes \<times> bytes) list \<Rightarrow> MaskPiece list \<Rightarrow> bool" where
  "maskOk pairs [] \<longleftrightarrow> True"
| "maskOk pairs (Kept c # ps) \<longleftrightarrow> list_all (\<lambda>(old, new). \<not> HasPrefix (c # concat (map maskSource ps)) old) pairs \<and> maskOk pairs ps"
| "maskOk pairs (Masked old new # ps) \<longleftrightarrow> (old, new) \<in> set pairs \<and> maskOk pairs ps"

lemma replaceAll_pieces:
  "list_all (\<lambda>(old, new). old \<noteq> []) pairs \<Longrightarrow>
   \<exists>ps. s = concat (map maskSource ps) \<and> replaceAll pairs s = concat (map maskOut ps) \<and> maskOk pairs ps"
proof (induction pairs s rule: replaceAll.induct)
  case (1 pairs)
  then show ?case by (intro exI [of _ "[]"]) simp
next
  case (2 pairs c cs)
  show ?case
  proof (cases "find (\<lambda>(old, new). HasPrefix (c # cs) old) pairs")
    case None
    then obtain ps where ps: "cs = concat (map maskSource ps)" "replaceAll pairs cs = concat (map maskOut ps)" "maskOk pairs ps"
      using 2(1) 2(3) by blast
    have "replaceAll pairs (c # cs) = c # concat (map maskOut ps)" using None ps(2) by simp
    moreover have "list_all (\<lambda>(old, new). \<not> HasPrefix (c # cs) old) pairs" using None by (auto simp: find_None_iff list_all_iff)
    ultimately show ?thesis using ps(1,3) by (intro exI [of _ "Kept c # ps"]) simp
  next
    case (Some x)
    obtain old new where x: "x = (old, new)" by (cases x)
    have m: "(old, new) \<in> set pairs" "HasPrefix (c # cs) old" using Some x by (auto simp: find_Some_iff) (metis nth_mem)
    obtain ps where ps: "drop (length old - 1) cs = concat (map maskSource ps)"
        "replaceAll pairs (drop (length old - 1) cs) = concat (map maskOut ps)" "maskOk pairs ps"
      using 2(2) [OF Some x [symmetric] 2(3)] by blast
    have "old \<noteq> []" using 2(3) m(1) by (auto simp: list_all_iff)
    then have s: "c # cs = old @ drop (length old - 1) cs" using m(2) by (cases old) (auto simp: HasPrefix_def, metis append_take_drop_id)
    have "replaceAll pairs (c # cs) = new @ concat (map maskOut ps)" using Some x ps(2) by simp
    moreover have "c # cs = concat (map maskSource (Masked old new # ps))" using s ps(1) by simp
    ultimately show ?thesis using ps(3) m(1) by (intro exI [of _ "Masked old new # ps"]) simp
  qed
qed

lemma escape_nonempty [simp]: "QueryEscape s = [] \<longleftrightarrow> s = []" "PathEscape s = [] \<longleftrightarrow> s = []"
  "[] = QueryEscape s \<longleftrightarrow> s = []" "[] = PathEscape s \<longleftrightarrow> s = []"
  by (cases s; simp add: QueryEscape_def PathEscape_def percent_def)+

lemma ReplacerOf_nonempty: "list_all (\<lambda>(old, new). old \<noteq> []) (ReplacerOf used)"
  by (auto simp: ReplacerOf_def maskPairs_def list_all_iff)

text \<open>The forms of a used secret that are registered.\<close>

definition wireForms :: "UsedSecret \<Rightarrow> bytes list" where
  "wireForms u = (if us_Rendered u = [] then [] else [us_Rendered u, QueryEscape (us_Rendered u), PathEscape (us_Rendered u)])"

lemma ReplacerOf_pairs: "(old, new) \<in> set (ReplacerOf used) \<longleftrightarrow> (\<exists>u\<in>set used. old \<in> set (wireForms u) \<and> new = us_Placeholder u)"
proof -
  have "(old, new) \<in> set (maskPairs u) \<longleftrightarrow> old \<in> set (wireForms u) \<and> new = us_Placeholder u" for u
    by (auto simp: maskPairs_def wireForms_def)
  then show ?thesis by (simp add: ReplacerOf_def)
qed

lemma maskOk_kept:
  "maskOk pairs ps \<Longrightarrow> ps = before @ Kept c # after \<Longrightarrow> (f, new) \<in> set pairs \<Longrightarrow> \<not> HasPrefix (c # concat (map maskSource after)) f"
proof (induction pairs ps arbitrary: before rule: maskOk.induct)
  case (2 pairs d ps)
  then show ?case by (cases before) (auto simp: list_all_iff)
next
  case (3 pairs old new' ps)
  then show ?case by (cases before) auto
qed simp

lemma maskOk_masked: "maskOk pairs ps \<Longrightarrow> Masked old new \<in> set ps \<Longrightarrow> (old, new) \<in> set pairs"
  by (induction pairs ps rule: maskOk.induct) auto

text \<open>
  C13: No registered form of a used secret starts outside a mask.  Whatever secrets were used and whatever text is
  masked, the text falls into kept bytes and replaced pieces; every replaced piece is a wire form of a used secret
  (the text written, its query-escaped or its path-escaped form) and becomes that secret's placeholder, and no wire
  form starts at a kept byte.
\<close>

theorem mask_covers:
  "\<exists>ps. s = concat (map maskSource ps) \<and> maskText used s = concat (map maskOut ps) \<and>
     (\<forall>old new. Masked old new \<in> set ps \<longrightarrow> (\<exists>u\<in>set used. old \<in> set (wireForms u) \<and> new = us_Placeholder u)) \<and>
     (\<forall>before c after u f. ps = before @ Kept c # after \<longrightarrow> u \<in> set used \<longrightarrow> f \<in> set (wireForms u) \<longrightarrow>
        \<not> HasPrefix (c # concat (map maskSource after)) f)"
proof -
  obtain ps where ps: "s = concat (map maskSource ps)" "replaceAll (ReplacerOf used) s = concat (map maskOut ps)" "maskOk (ReplacerOf used) ps"
    using replaceAll_pieces [OF ReplacerOf_nonempty] by blast
  have "replaceAll [] s = s" by (induction s) simp_all
  then have out: "maskText used s = concat (map maskOut ps)" using ps(2) by (auto simp: maskText_def)
  have "\<exists>u\<in>set used. old \<in> set (wireForms u) \<and> new = us_Placeholder u" if "Masked old new \<in> set ps" for old new
    using maskOk_masked [OF ps(3) that] by (simp add: ReplacerOf_pairs)
  moreover have "\<not> HasPrefix (c # concat (map maskSource after)) f"
    if "ps = before @ Kept c # after" "u \<in> set used" "f \<in> set (wireForms u)" for before c after u f
    using maskOk_kept [OF ps(3) that(1)] that(2,3) ReplacerOf_pairs by blast
  ultimately show ?thesis using ps(1) out by blast
qed

theorem mask_covers_witness:
  "maskText sampleUsed ''Basic czM= czM%3D s3'' = ''Basic {{token | base64}} {{token | base64}} {{token}}'' \<and>
   (\<exists>ps. ''Basic czM= czM%3D s3'' = concat (map maskSource ps) \<and> ''Basic {{token | base64}} {{token | base64}} {{token}}'' = concat (map maskOut ps) \<and>
     (\<forall>before c after. ps = before @ Kept c # after \<longrightarrow> \<not> HasPrefix (c # concat (map maskSource after)) ''czM=''))"
proof -
  have m: "maskText sampleUsed ''Basic czM= czM%3D s3'' = ''Basic {{token | base64}} {{token | base64}} {{token}}''" by code_simp
  have u: "sampleUsed ! 1 \<in> set sampleUsed" "''czM='' \<in> set (wireForms (sampleUsed ! 1))" by (simp_all add: sampleUsed_def wireForms_def)
  show ?thesis using mask_covers [of "''Basic czM= czM%3D s3''" sampleUsed] u unfolding m by blast
qed

text \<open>
  Two secrets that overlap in a text: the one that starts first is replaced and the rest of the other, all but
  its first byte here, stays in the text.
\<close>

lemma mask_overlap_leaks:
  "maskText [\<lparr>us_Name = ''a'', us_Rendered = ''xy'', us_Placeholder = ''{{a}}''\<rparr>, \<lparr>us_Name = ''b'', us_Rendered = ''y-secret'', us_Placeholder = ''{{b}}''\<rparr>]
     ''xy-secret'' = ''{{a}}-secret''"
  by code_simp

text \<open>
  A plain value that ends in a brace hides the secret reference behind it: the plain variables are substituted
  first, and the resolver then reads one span that starts at the value's brace.
\<close>

lemma plain_value_hides_secret:
  "Resolve sampleCasers ''{{x}}{{token}}'' (\<lambda>n. if n = ''x'' then Some ''a{'' else None) [''token''] =
     (''a{{{token}}'', [\<lparr>rf_Name = ''x'', rf_Kind = KindResolved, rf_Pipeline = []\<rparr>, \<lparr>rf_Name = ''token'', rf_Kind = KindDeferred, rf_Pipeline = []\<rparr>])"
  "Names ''a{{{token}}'' = [''{token'']"
  by code_simp+

end
