(* ===== verification/RevealGate.thy ===== *)
theory RevealGate
  imports Prelude
begin

text \<open>
  The gate in front of every saved secret that is shown: \<^verbatim>\<open>localauth/localauth.go\<close>, \<^verbatim>\<open>apivars/reveal.go\<close> and
  \<^verbatim>\<open>Service.Reveal\<close> of \<^verbatim>\<open>connections/service.go\<close>.
  A reveal asks the operating system for the owner of the device; a grant is good for five minutes.  Where
  the system cannot ask, a confirmation of the user stands in, for that one reveal.

  Calls of \<^verbatim>\<open>Authorize\<close> run at the same time, so each call is a record of the gate with the place it has
  reached, and \<open>authorizeStep\<close> moves one call over one stretch of code between two synchronisation points:
  \<^verbatim>\<open>graceLive\<close> and the store of the deadline are critical sections of \<^verbatim>\<open>mu\<close>, and \<^verbatim>\<open>evalMu\<close> is held by at most
  one call.  A step takes what the code asks its environment for: a clock reading, the answer of \<^verbatim>\<open>available\<close>
  or the answer of \<^verbatim>\<open>evaluate\<close>.  The log is not part of the program: it records, newest first, what the steps
  did.
\<close>

section \<open>Times\<close>

text \<open>
  A \<^verbatim>\<open>time.Time\<close>: a wall clock reading, in nanoseconds from the zero time, and possibly a monotonic one.
  \<^verbatim>\<open>Before\<close> compares the monotonic readings when both times have one; \<^verbatim>\<open>Round(0)\<close> drops it.
\<close>

record Time =
  tm_mono :: "int option"
  tm_wall :: int

definition zeroTime :: Time where
  "zeroTime = \<lparr>tm_mono = None, tm_wall = 0\<rparr>"

definition IsZero :: "Time \<Rightarrow> bool" where
  "IsZero t \<longleftrightarrow> tm_wall t = 0"

definition Before :: "Time \<Rightarrow> Time \<Rightarrow> bool" where
  "Before t u = (case (tm_mono t, tm_mono u) of (Some a, Some b) \<Rightarrow> a < b | _ \<Rightarrow> tm_wall t < tm_wall u)"

definition Round0 :: "Time \<Rightarrow> Time" where
  "Round0 t = t\<lparr>tm_mono := None\<rparr>"

definition AddTime :: "Time \<Rightarrow> int \<Rightarrow> Time" where
  "AddTime t d = \<lparr>tm_mono = map_option (\<lambda>m. m + d) (tm_mono t), tm_wall = tm_wall t + d\<rparr>"

section \<open>The authorizer\<close>

datatype AuthOutcome = Granted | Cancelled | Unavailable

definition GraceWindow :: int where
  "GraceWindow = 5 * 60 * 1000000000"

definition graceLive :: "Time \<Rightarrow> Time \<Rightarrow> bool" where
  "graceLive deadline now \<longleftrightarrow> \<not> IsZero deadline \<and> Before now deadline \<and> Before (Round0 now) (Round0 deadline)"

text \<open>
  Where a call of \<^verbatim>\<open>Authorize\<close> stands: before the first look at the grace, before \<^verbatim>\<open>available\<close>, waiting for
  \<^verbatim>\<open>evalMu\<close>, holding it, with the prompt up, about to store the deadline, about to release \<^verbatim>\<open>evalMu\<close>, and back
  with its outcome and error.
\<close>

datatype CallPhase = Entered | NoGrace | AwaitLock | Holding | Prompting | Storing | Releasing AuthOutcome "bytes option" |
  Returned AuthOutcome "bytes option"

record AuthCall =
  ac_confirmed :: bool
  ac_phase :: CallPhase

datatype GateEvent = EvUnavailable nat | EvGrace nat Time | EvPrompt nat Time | EvAnswer nat AuthOutcome "bytes option" | EvGrant nat Time

record AuthGate =
  ag_deadline :: Time
  ag_evalMu :: "nat option"
  ag_calls :: "nat \<rightharpoonup> AuthCall"
  ag_log :: "GateEvent list"

definition newGate :: AuthGate where
  "newGate = \<lparr>ag_deadline = zeroTime, ag_evalMu = None, ag_calls = Map.empty, ag_log = []\<rparr>"

datatype GateInput = Call bool | Clock Time | Available bool | Acquire | Answer AuthOutcome "bytes option" | Release

definition toPhase :: "nat \<Rightarrow> AuthCall \<Rightarrow> CallPhase \<Rightarrow> AuthGate \<Rightarrow> AuthGate" where
  "toPhase i c ph g = g\<lparr>ag_calls := (ag_calls g)(i \<mapsto> c\<lparr>ac_phase := ph\<rparr>)\<rparr>"

definition logged :: "GateEvent \<Rightarrow> AuthGate \<Rightarrow> AuthGate" where
  "logged e g = g\<lparr>ag_log := e # ag_log g\<rparr>"

text \<open>The stretch of \<^verbatim>\<open>Authorize\<close> a call runs next; \<^const>\<open>None\<close> when the call is not at a place that takes this input.\<close>

fun callStep :: "nat \<Rightarrow> AuthCall \<Rightarrow> CallPhase \<Rightarrow> GateInput \<Rightarrow> AuthGate \<Rightarrow> AuthGate option" where
  "callStep i c Entered (Clock now) g =
     Some (if graceLive (ag_deadline g) now then toPhase i c (Returned Granted None) (logged (EvGrace i now) g)
           else toPhase i c NoGrace g)"
| "callStep i c NoGrace (Available b) g =
     Some (if b then toPhase i c AwaitLock g
           else toPhase i c (Returned (if ac_confirmed c then Granted else Unavailable) None) (logged (EvUnavailable i) g))"
| "callStep i c AwaitLock Acquire g =
     (if ag_evalMu g = None then Some (toPhase i c Holding (g\<lparr>ag_evalMu := Some i\<rparr>)) else None)"
| "callStep i c Holding (Clock now) g =
     Some (if graceLive (ag_deadline g) now then toPhase i c (Releasing Granted None) (logged (EvGrace i now) g)
           else toPhase i c Prompting (logged (EvPrompt i now) g))"
| "callStep i c Prompting (Answer oc err) g =
     Some (toPhase i c (if err = None \<and> oc = Granted then Storing else Releasing oc err) (logged (EvAnswer i oc err) g))"
| "callStep i c Storing (Clock now) g =
     Some (toPhase i c (Releasing Granted None) (logged (EvGrant i now) (g\<lparr>ag_deadline := AddTime now GraceWindow\<rparr>)))"
| "callStep i c (Releasing oc err) Release g = Some (toPhase i c (Returned oc err) (g\<lparr>ag_evalMu := None\<rparr>))"
| "callStep i c ph inp g = None"

definition authorizeStep :: "nat \<Rightarrow> GateInput \<Rightarrow> AuthGate \<Rightarrow> AuthGate option" where
  "authorizeStep i inp g =
     (case ag_calls g i of
        None \<Rightarrow> (case inp of Call confirmed \<Rightarrow> Some (toPhase i \<lparr>ac_confirmed = confirmed, ac_phase = Entered\<rparr> Entered g) | _ \<Rightarrow> None)
      | Some c \<Rightarrow> callStep i c (ac_phase c) inp g)"

fun gateRun :: "(nat \<times> GateInput) list \<Rightarrow> AuthGate \<Rightarrow> AuthGate option" where
  "gateRun [] g = Some g"
| "gateRun ((i, inp) # steps) g = (case authorizeStep i inp g of None \<Rightarrow> None | Some g' \<Rightarrow> gateRun steps g')"

section \<open>Revealing\<close>

datatype GateOutcome = GateRevealed | GateCancelled | GateConfirmationRequired | GateAuthError | GateFetchError

text \<open>\<^verbatim>\<open>Gated\<close> on the answer of \<^verbatim>\<open>authorize\<close>; \<open>fetch\<close> is what the fetch answers if it is called.\<close>

definition Gated :: "AuthOutcome \<times> bytes option \<Rightarrow> bytes + bytes option \<Rightarrow> GateOutcome \<times> bytes option \<times> bytes option" where
  "Gated auth fetch =
     (case auth of (oc, err) \<Rightarrow>
        if err \<noteq> None then (GateAuthError, None, err)
        else if oc = Cancelled then (GateCancelled, None, None)
        else if oc = Unavailable then (GateConfirmationRequired, None, None)
        else (case fetch of Inl e \<Rightarrow> (GateFetchError, None, Some e) | Inr value \<Rightarrow> (GateRevealed, value, None)))"

record RevealResult =
  rr_Value :: "bytes option"
  rr_Error :: "bytes option"
  rr_Outcome :: bytes

definition revealWith :: "AuthOutcome \<times> bytes option \<Rightarrow> bytes + bytes \<Rightarrow> RevealResult" where
  "revealWith auth decrypted =
     (case Gated auth (case decrypted of Inl e \<Rightarrow> Inl e | Inr v \<Rightarrow> Inr (Some v)) of (oc, val, err) \<Rightarrow>
        (case oc of
           GateAuthError \<Rightarrow> \<lparr>rr_Value = None, rr_Error = Some (the err), rr_Outcome = ''error''\<rparr>
         | GateCancelled \<Rightarrow> \<lparr>rr_Value = None, rr_Error = None, rr_Outcome = ''cancelled''\<rparr>
         | GateConfirmationRequired \<Rightarrow> \<lparr>rr_Value = None, rr_Error = None, rr_Outcome = ''confirmation-required''\<rparr>
         | GateFetchError \<Rightarrow> \<lparr>rr_Value = None, rr_Error = Some (the err), rr_Outcome = ''error''\<rparr>
         | GateRevealed \<Rightarrow> \<lparr>rr_Value = val, rr_Error = None, rr_Outcome = ''revealed''\<rparr>))"

text \<open>An error of the secret store: whether it is \<^verbatim>\<open>configfs.ErrSecretMissing\<close>, and its text.\<close>

definition revealVariable :: "(bytes \<Rightarrow> bytes + bytes) \<Rightarrow> (bytes \<Rightarrow> (bool \<times> bytes) + bytes) \<Rightarrow> bytes \<Rightarrow> bytes + bytes" where
  "revealVariable secretRefOf reveal variableID =
     (case secretRefOf variableID of
        Inl e \<Rightarrow> Inl e
      | Inr ref \<Rightarrow>
          (case reveal ref of
             Inl (missing, msg) \<Rightarrow> Inl (if missing then ''the secret '' @ ref @ '' is not set'' else msg)
           | Inr v \<Rightarrow> Inr v))"

text \<open>Without an identifier the gate is not asked.\<close>

definition Reveal :: "(bytes \<Rightarrow> bytes + bytes) \<Rightarrow> (bytes \<Rightarrow> (bool \<times> bytes) + bytes) \<Rightarrow> AuthOutcome \<times> bytes option \<Rightarrow> bytes \<Rightarrow> RevealResult" where
  "Reveal secretRefOf reveal auth variableID =
     (if variableID = [] then \<lparr>rr_Value = None, rr_Error = Some ''variableId is required'', rr_Outcome = ''error''\<rparr>
      else revealWith auth (revealVariable secretRefOf reveal variableID))"

definition RevealHistory :: "(bytes \<Rightarrow> bytes + bytes) \<Rightarrow> AuthOutcome \<times> bytes option \<Rightarrow> bytes \<Rightarrow> RevealResult" where
  "RevealHistory revealHistoryValue auth historyID =
     (if historyID = [] then \<lparr>rr_Value = None, rr_Error = Some ''historyId is required'', rr_Outcome = ''error''\<rparr>
      else revealWith auth (revealHistoryValue historyID))"

text \<open>
  Connections show their password or URI through the same gate.  Of a connection file only what the reveal
  reads is kept; \<open>resolveRef\<close> is \<^verbatim>\<open>configfs.Resolver.Resolve\<close> on a namespace and a reference, \<open>recordOf\<close> the
  loader of the files.  A secret that is not set shows nothing.
\<close>

record ConnectionFile =
  cf_Mode :: bytes
  cf_Password :: bytes
  cf_URI :: bytes

definition EffectiveMode :: "ConnectionFile \<Rightarrow> bytes" where
  "EffectiveMode f = (if cf_Mode f = [] then ''fields'' else cf_Mode f)"

record ConnRevealResult =
  cr_Password :: "bytes option"
  cr_URI :: "bytes option"
  cr_Error :: "bytes option"
  cr_Outcome :: bytes

definition openSecret :: "(bytes \<Rightarrow> bytes \<Rightarrow> (bool \<times> bytes) + bytes) \<Rightarrow> bytes \<Rightarrow> bytes \<Rightarrow> (bool \<times> bytes) + bytes option" where
  "openSecret resolveRef kind ref =
     (if ref = [] then Inr None else (case resolveRef kind ref of Inl e \<Rightarrow> Inl e | Inr v \<Rightarrow> Inr (Some v)))"

definition revealTarget :: "ConnectionFile \<Rightarrow> bytes \<times> bytes" where
  "revealTarget f = (if EffectiveMode f = ''uri'' then (''uri'', cf_URI f) else (''password'', cf_Password f))"

definition ConnReveal ::
  "(bytes \<Rightarrow> ConnectionFile option) \<Rightarrow> (bytes \<Rightarrow> bytes \<Rightarrow> (bool \<times> bytes) + bytes) \<Rightarrow> bytes \<Rightarrow> AuthOutcome \<times> bytes option \<Rightarrow> bytes \<Rightarrow>
   ConnRevealResult" where
  "ConnReveal recordOf resolveRef notFound auth connID =
     (let failed = (\<lambda>err oc. \<lparr>cr_Password = None, cr_URI = None, cr_Error = err, cr_Outcome = oc\<rparr>) in
      case recordOf connID of
        None \<Rightarrow> failed (Some notFound) ''error''
      | Some f \<Rightarrow>
          (case revealTarget f of (kind, ref) \<Rightarrow>
             let fetched = (case openSecret resolveRef kind ref of
                              Inl (missing, msg) \<Rightarrow> if missing then Inr None else Inl msg
                            | Inr v \<Rightarrow> Inr v)
             in
             (case Gated auth fetched of (oc, val, err) \<Rightarrow>
                (case oc of
                   GateAuthError \<Rightarrow> failed (Some (the err)) ''error''
                 | GateCancelled \<Rightarrow> failed None ''cancelled''
                 | GateConfirmationRequired \<Rightarrow> failed None ''confirmation-required''
                 | GateFetchError \<Rightarrow> failed (Some (the err)) ''error''
                 | GateRevealed \<Rightarrow>
                     if EffectiveMode f = ''uri'' then \<lparr>cr_Password = None, cr_URI = val, cr_Error = None, cr_Outcome = ''revealed''\<rparr>
                     else \<lparr>cr_Password = val, cr_URI = None, cr_Error = None, cr_Outcome = ''revealed''\<rparr>))))"

section \<open>What the log may say\<close>

text \<open>The time of the last grant.\<close>

fun lastGrant :: "GateEvent list \<Rightarrow> Time option" where
  "lastGrant [] = None"
| "lastGrant (EvGrant i t # l) = Some t"
| "lastGrant (e # l) = lastGrant l"

text \<open>The last prompt, with its answer when it has one.\<close>

fun promptState :: "GateEvent list \<Rightarrow> (nat \<times> (AuthOutcome \<times> bytes option) option) option" where
  "promptState [] = None"
| "promptState (EvPrompt i t # l) = Some (i, None)"
| "promptState (EvAnswer i oc err # l) = Some (i, Some (oc, err))"
| "promptState (e # l) = promptState l"

definition promptUp :: "GateEvent list \<Rightarrow> bool" where
  "promptUp l \<longleftrightarrow> (case promptState l of Some (i, None) \<Rightarrow> True | _ \<Rightarrow> False)"

text \<open>Less than five minutes after \<open>t0\<close>, by the wall clock and by the monotonic clock where there is one.\<close>

definition withinGrace :: "Time \<Rightarrow> Time \<Rightarrow> bool" where
  "withinGrace t t0 \<longleftrightarrow> tm_wall t0 + GraceWindow \<noteq> 0 \<and> tm_wall t < tm_wall t0 + GraceWindow \<and>
     (case (tm_mono t, tm_mono t0) of (Some a, Some b) \<Rightarrow> a < b + GraceWindow | _ \<Rightarrow> True)"

text \<open>
  What an honest log looks like, newest entry first: a call rides on a grant only within the grace of the last
  grant; a prompt goes up only outside it and only when no other is up; an answer is that of the prompt
  that is up; a grant is recorded only right after the system granted that very prompt.
\<close>

fun auditOk :: "GateEvent list \<Rightarrow> bool" where
  "auditOk [] \<longleftrightarrow> True"
| "auditOk (EvUnavailable i # l) \<longleftrightarrow> auditOk l"
| "auditOk (EvGrace i t # l) \<longleftrightarrow> (case lastGrant l of None \<Rightarrow> False | Some t0 \<Rightarrow> withinGrace t t0) \<and> auditOk l"
| "auditOk (EvPrompt i t # l) \<longleftrightarrow> \<not> promptUp l \<and> (case lastGrant l of None \<Rightarrow> True | Some t0 \<Rightarrow> \<not> withinGrace t t0) \<and> auditOk l"
| "auditOk (EvAnswer i oc err # l) \<longleftrightarrow> promptState l = Some (i, None) \<and> auditOk l"
| "auditOk (EvGrant i t # l) \<longleftrightarrow> promptState l = Some (i, Some (Granted, None)) \<and> auditOk l"

text \<open>Why a call may be granted.\<close>

definition grounds :: "nat \<Rightarrow> AuthCall \<Rightarrow> GateEvent list \<Rightarrow> bool" where
  "grounds i c l \<longleftrightarrow> list_ex (\<lambda>e. case e of EvGrace j t \<Rightarrow> j = i | EvGrant j t \<Rightarrow> j = i | EvUnavailable j \<Rightarrow> j = i \<and> ac_confirmed c | _ \<Rightarrow> False) l"

section \<open>The invariant\<close>

fun heldPhase :: "CallPhase \<Rightarrow> bool" where
  "heldPhase Holding \<longleftrightarrow> True"
| "heldPhase Prompting \<longleftrightarrow> True"
| "heldPhase Storing \<longleftrightarrow> True"
| "heldPhase (Releasing oc err) \<longleftrightarrow> True"
| "heldPhase ph \<longleftrightarrow> False"

fun phaseOk :: "nat \<Rightarrow> AuthCall \<Rightarrow> CallPhase \<Rightarrow> GateEvent list \<Rightarrow> bool" where
  "phaseOk i c Holding l \<longleftrightarrow> \<not> promptUp l"
| "phaseOk i c Prompting l \<longleftrightarrow> promptState l = Some (i, None)"
| "phaseOk i c Storing l \<longleftrightarrow> promptState l = Some (i, Some (Granted, None))"
| "phaseOk i c (Releasing oc err) l \<longleftrightarrow> \<not> promptUp l \<and> (oc = Granted \<and> err = None \<longrightarrow> grounds i c l)"
| "phaseOk i c (Returned oc err) l \<longleftrightarrow> (oc = Granted \<and> err = None \<longrightarrow> grounds i c l)"
| "phaseOk i c ph l \<longleftrightarrow> True"

definition deadlineOf :: "GateEvent list \<Rightarrow> Time" where
  "deadlineOf l = (case lastGrant l of None \<Rightarrow> zeroTime | Some t0 \<Rightarrow> AddTime t0 GraceWindow)"

definition gateInv :: "AuthGate \<Rightarrow> bool" where
  "gateInv g \<longleftrightarrow> ag_deadline g = deadlineOf (ag_log g) \<and> auditOk (ag_log g) \<and>
     (ag_evalMu g = None \<longrightarrow> \<not> promptUp (ag_log g)) \<and> (\<forall>i. ag_evalMu g = Some i \<longrightarrow> ag_calls g i \<noteq> None) \<and>
     (\<forall>i c. ag_calls g i = Some c \<longrightarrow> (heldPhase (ac_phase c) \<longleftrightarrow> ag_evalMu g = Some i) \<and> phaseOk i c (ac_phase c) (ag_log g))"

lemma graceLive_deadline:
  "graceLive (deadlineOf l) t \<longleftrightarrow> (case lastGrant l of None \<Rightarrow> False | Some t0 \<Rightarrow> withinGrace t t0)"
  by (auto simp: graceLive_def deadlineOf_def zeroTime_def IsZero_def AddTime_def Before_def Round0_def withinGrace_def split: option.splits)

lemma grounds_Cons: "grounds i c l \<Longrightarrow> grounds i c (e # l)"
  by (simp add: grounds_def)

text \<open>An event of the call that holds the lock, or of one that does not touch the prompt, keeps the others' places right.\<close>

lemma phaseOk_other:
  "phaseOk i c ph l \<Longrightarrow> \<not> heldPhase ph \<Longrightarrow> phaseOk i c ph (e # l)"
  by (cases ph) (auto simp: grounds_Cons)

lemma phaseOk_quiet:
  "phaseOk i c ph l \<Longrightarrow> promptState (e # l) = promptState l \<Longrightarrow> phaseOk i c ph (e # l)"
  by (cases ph) (auto simp: grounds_Cons promptUp_def)

lemma phaseOk_call: "ac_confirmed c = ac_confirmed c' \<Longrightarrow> phaseOk i c ph l = phaseOk i c' ph l"
  by (cases ph) (simp_all add: grounds_def cong: GateEvent.case_cong)

text \<open>One step of one call, with what it does to the log, the deadline and the lock.\<close>

lemma move_inv:
  assumes inv: "gateInv g" and call: "ag_calls g i = Some c"
    and g': "ag_calls g' = (ag_calls g)(i \<mapsto> c')" "ag_deadline g' = deadlineOf (ag_log g')" "auditOk (ag_log g')"
    and lock: "ag_evalMu g' = (if heldPhase (ac_phase c') then Some i else if heldPhase (ac_phase c) then None else ag_evalMu g)"
    and free: "heldPhase (ac_phase c') \<Longrightarrow> heldPhase (ac_phase c) \<or> ag_evalMu g = None"
    and here: "phaseOk i c' (ac_phase c') (ag_log g')"
    and log: "ag_log g' = ag_log g \<or> (\<exists>e. ag_log g' = e # ag_log g \<and> (heldPhase (ac_phase c) \<or> promptState (e # ag_log g) = promptState (ag_log g)))"
    and up: "ag_evalMu g' = None \<Longrightarrow> \<not> promptUp (ag_log g')"
  shows "gateInv g'"
proof -
  have held: "heldPhase (ac_phase d) \<longleftrightarrow> ag_evalMu g = Some j" "phaseOk j d (ac_phase d) (ag_log g)" if "ag_calls g j = Some d" for j d
    using inv that by (auto simp: gateInv_def)
  have other: "(heldPhase (ac_phase d) \<longleftrightarrow> ag_evalMu g' = Some j) \<and> phaseOk j d (ac_phase d) (ag_log g')" if d: "ag_calls g j = Some d" and j: "j \<noteq> i" for j d
  proof
    show "heldPhase (ac_phase d) \<longleftrightarrow> ag_evalMu g' = Some j"
      using held(1) [OF d] held(1) [OF call] free lock j by (auto split: if_splits)
    show "phaseOk j d (ac_phase d) (ag_log g')"
    proof (cases "heldPhase (ac_phase c)")
      case True
      then have "\<not> heldPhase (ac_phase d)" using held(1) [OF d] held(1) [OF call] j by auto
      then show ?thesis using log held(2) [OF d] phaseOk_other by auto
    next
      case False
      then show ?thesis using log held(2) [OF d] phaseOk_quiet by auto
    qed
  qed
  have 1: "(heldPhase (ac_phase d) \<longleftrightarrow> ag_evalMu g' = Some j) \<and> phaseOk j d (ac_phase d) (ag_log g')" if "ag_calls g' j = Some d" for j d
  proof (cases "j = i")
    case True
    then have "d = c'" using that g'(1) by simp
    moreover have "heldPhase (ac_phase c') \<longleftrightarrow> ag_evalMu g' = Some i" using lock held(1) [OF call] by auto
    ultimately show ?thesis using True here by simp
  next
    case False
    then show ?thesis using other that g'(1) by simp
  qed
  have "ag_calls g' j \<noteq> None" if "ag_evalMu g' = Some j" for j
    using that lock g'(1) inv by (auto simp: gateInv_def split: if_splits)
  then show ?thesis using 1 g'(2,3) up by (simp add: gateInv_def)
qed

lemma toPhase_inv:
  assumes "gateInv g" and "ag_calls g i = Some c" and "ag_calls h = ag_calls g" and "ag_deadline h = deadlineOf (ag_log h)" and "auditOk (ag_log h)"
    and "ag_evalMu h = (if heldPhase ph then Some i else if heldPhase (ac_phase c) then None else ag_evalMu g)"
    and "heldPhase ph \<Longrightarrow> heldPhase (ac_phase c) \<or> ag_evalMu g = None" and "phaseOk i c ph (ag_log h)"
    and "ag_log h = ag_log g \<or> (\<exists>e. ag_log h = e # ag_log g \<and> (heldPhase (ac_phase c) \<or> promptState (e # ag_log g) = promptState (ag_log g)))"
    and "ag_evalMu h = None \<Longrightarrow> \<not> promptUp (ag_log h)"
  shows "gateInv (toPhase i c ph h)"
  using assms phaseOk_call [of "c\<lparr>ac_phase := ph\<rparr>" c i ph]
  by (intro move_inv [OF assms(1,2), where c' = "c\<lparr>ac_phase := ph\<rparr>"]) (simp_all add: toPhase_def)

lemma callStep_inv:
  assumes inv: "gateInv g" and call: "ag_calls g i = Some c" and step: "callStep i c (ac_phase c) inp g = Some g'"
  shows "gateInv g'"
proof -
  let ?l = "ag_log g"
  have dl: "ag_deadline g = deadlineOf ?l" and au: "auditOk ?l" and free: "ag_evalMu g = None \<Longrightarrow> \<not> promptUp ?l"
    and here: "heldPhase (ac_phase c) \<longleftrightarrow> ag_evalMu g = Some i" "phaseOk i c (ac_phase c) ?l"
    using inv call by (auto simp: gateInv_def)
  note move = toPhase_inv [OF inv call]
  have up: "promptUp (EvGrace i t # ?l) = promptUp ?l" "promptUp (EvUnavailable i # ?l) = promptUp ?l" "\<not> promptUp (EvAnswer i oc err # ?l)"
    "promptUp (EvGrant i t # ?l) = promptUp ?l" for t oc err
    by (simp_all add: promptUp_def)
  have gr: "grounds i c (EvGrace i t # ?l)" "grounds i c (EvGrant i t # ?l)" "ac_confirmed c \<Longrightarrow> grounds i c (EvUnavailable i # ?l)" for t
    by (simp_all add: grounds_def)
  have dle: "deadlineOf (EvGrace i t # ?l) = deadlineOf ?l" "deadlineOf (EvUnavailable i # ?l) = deadlineOf ?l" "deadlineOf (EvPrompt i t # ?l) = deadlineOf ?l"
    "deadlineOf (EvAnswer i oc err # ?l) = deadlineOf ?l" "deadlineOf (EvGrant i t # ?l) = AddTime t GraceWindow" for t oc err
    by (simp_all add: deadlineOf_def)
  note facts = dl au free here up gr dle logged_def graceLive_deadline
  show ?thesis
  proof (cases "ac_phase c")
    case Entered
    then show ?thesis using step by (cases inp) (auto intro!: move simp: facts split: if_splits option.splits)
  next
    case NoGrace
    then show ?thesis using step by (cases inp) (auto intro!: move simp: facts split: if_splits)
  next
    case AwaitLock
    then show ?thesis using step by (cases inp) (auto intro!: move simp: facts split: if_splits)
  next
    case Holding
    then have "\<not> promptUp ?l" "ag_evalMu g = Some i" using here by simp_all
    with Holding show ?thesis using step by (cases inp) (auto intro!: move simp: facts split: if_splits option.splits)
  next
    case Prompting
    then have "promptState ?l = Some (i, None)" "ag_evalMu g = Some i" using here by simp_all
    with Prompting show ?thesis using step by (cases inp) (auto intro!: move simp: facts split: if_splits)
  next
    case Storing
    then have "promptState ?l = Some (i, Some (Granted, None))" "ag_evalMu g = Some i" using here by simp_all
    moreover from this have "\<not> promptUp ?l" by (simp add: promptUp_def)
    ultimately show ?thesis using step Storing by (cases inp) (auto intro!: move simp: facts)
  next
    case (Releasing oc err)
    then have "\<not> promptUp ?l" "oc = Granted \<and> err = None \<longrightarrow> grounds i c ?l" "ag_evalMu g = Some i" using here by simp_all
    with Releasing show ?thesis using step by (cases inp) (auto intro!: move simp: facts)
  next
    case (Returned oc err)
    then show ?thesis using step by (cases inp) simp_all
  qed
qed

lemma new_call_inv:
  assumes inv: "gateInv g" and "ag_calls g i = None"
  shows "gateInv (toPhase i \<lparr>ac_confirmed = b, ac_phase = Entered\<rparr> Entered g)"
  using assms by (auto simp: gateInv_def toPhase_def)

lemma authorizeStep_inv: "gateInv g \<Longrightarrow> authorizeStep i inp g = Some g' \<Longrightarrow> gateInv g'"
  by (auto simp: authorizeStep_def split: option.splits GateInput.splits intro: callStep_inv new_call_inv)

lemma gateRun_inv: "gateRun steps g = Some g' \<Longrightarrow> gateInv g \<Longrightarrow> gateInv g'"
  by (induction steps g rule: gateRun.induct) (auto split: option.splits dest: authorizeStep_inv)

lemma newGate_inv: "gateInv newGate"
  by (simp add: gateInv_def newGate_def deadlineOf_def promptUp_def)

lemma revealWith_value: "rr_Value (revealWith auth decrypted) = Some v \<longleftrightarrow> auth = (Granted, None) \<and> decrypted = Inr v"
  by (cases auth; cases "fst auth"; cases decrypted) (auto simp: revealWith_def Gated_def)

lemma ConnReveal_value:
  "cr_Password (ConnReveal recordOf resolveRef notFound auth connID) = Some v \<or> cr_URI (ConnReveal recordOf resolveRef notFound auth connID) = Some v \<Longrightarrow>
   auth = (Granted, None) \<and> (\<exists>f. recordOf connID = Some f \<and> resolveRef (fst (revealTarget f)) (snd (revealTarget f)) = Inr v)"
proof -
  obtain oc err where auth: "auth = (oc, err)" by (cases auth)
  assume shown: "cr_Password (ConnReveal recordOf resolveRef notFound auth connID) = Some v \<or> cr_URI (ConnReveal recordOf resolveRef notFound auth connID) = Some v"
  then obtain f where f: "recordOf connID = Some f" by (cases "recordOf connID") (simp_all add: ConnReveal_def)
  obtain kind ref where k: "revealTarget f = (kind, ref)" by (cases "revealTarget f")
  show ?thesis
    using shown f k auth
    by (cases oc) (auto simp: ConnReveal_def Gated_def openSecret_def split: if_splits sum.splits)
qed

text \<open>
  C12: A secret is shown only on good grounds.  In every run of the gate, with any number of calls in any order,
  the log is honest: prompts are never stacked, none goes up within five minutes of a grant, and a grant is
  recorded only when the system granted its prompt.  When a call has returned and the reveal of a variable, of
  an old value or of a connection made with its answer carries a value, the call was granted either by a prompt
  of its own, or within five minutes of the last granted prompt by both clocks, or because the system could not
  ask and the user had confirmed; and the value is the stored one.
\<close>

theorem secret_shown_on_grounds:
  assumes "gateRun steps newGate = Some g" and "ag_calls g i = Some c" and "ac_phase c = Returned oc err"
  shows "auditOk (ag_log g) \<and>
    (\<forall>v. rr_Value (Reveal secretRefOf reveal (oc, err) variableID) = Some v \<longrightarrow>
       grounds i c (ag_log g) \<and> revealVariable secretRefOf reveal variableID = Inr v) \<and>
    (\<forall>v. rr_Value (RevealHistory revealHistoryValue (oc, err) historyID) = Some v \<longrightarrow>
       grounds i c (ag_log g) \<and> revealHistoryValue historyID = Inr v) \<and>
    (\<forall>v. cr_Password (ConnReveal recordOf resolveRef notFound (oc, err) connID) = Some v \<or>
         cr_URI (ConnReveal recordOf resolveRef notFound (oc, err) connID) = Some v \<longrightarrow>
       grounds i c (ag_log g) \<and> (\<exists>f. recordOf connID = Some f \<and> resolveRef (fst (revealTarget f)) (snd (revealTarget f)) = Inr v))"
proof -
  have "gateInv g" by (rule gateRun_inv [OF assms(1) newGate_inv])
  then have audit: "auditOk (ag_log g)" and "phaseOk i c (ac_phase c) (ag_log g)" using assms(2) by (simp_all add: gateInv_def)
  then have gr: "(oc, err) = (Granted, None) \<Longrightarrow> grounds i c (ag_log g)" using assms(3) by simp
  have "auditOk (ag_log g)" by (rule audit)
  moreover have "grounds i c (ag_log g) \<and> revealVariable secretRefOf reveal variableID = Inr v"
    if "rr_Value (Reveal secretRefOf reveal (oc, err) variableID) = Some v" for v
    using that gr by (auto simp: Reveal_def revealWith_value split: if_splits)
  moreover have "grounds i c (ag_log g) \<and> revealHistoryValue historyID = Inr v"
    if "rr_Value (RevealHistory revealHistoryValue (oc, err) historyID) = Some v" for v
    using that gr by (auto simp: RevealHistory_def revealWith_value split: if_splits)
  ultimately show ?thesis using gr ConnReveal_value by blast
qed

theorem secret_shown_on_grounds_witness:
  "\<exists>g. gateRun [(1, Call False), (1, Clock \<lparr>tm_mono = Some 5, tm_wall = 100\<rparr>), (1, Available True), (1, Acquire),
      (1, Clock \<lparr>tm_mono = Some 6, tm_wall = 101\<rparr>), (1, Answer Granted None), (1, Clock \<lparr>tm_mono = Some 9, tm_wall = 104\<rparr>),
      (1, Release), (2, Call False), (2, Clock \<lparr>tm_mono = Some 10, tm_wall = 105\<rparr>)] newGate = Some g \<and>
    rr_Value (Reveal (\<lambda>k. Inr ''ref'') (\<lambda>r. Inr ''pw'') (Granted, None) ''v1'') = Some ''pw'' \<and>
    auditOk (ag_log g) \<and> grounds 2 \<lparr>ac_confirmed = False, ac_phase = Returned Granted None\<rparr> (ag_log g)"
proof -
  let ?steps = "[(1, Call False), (1, Clock \<lparr>tm_mono = Some 5, tm_wall = 100\<rparr>), (1, Available True), (1, Acquire),
      (1, Clock \<lparr>tm_mono = Some 6, tm_wall = 101\<rparr>), (1, Answer Granted None), (1, Clock \<lparr>tm_mono = Some 9, tm_wall = 104\<rparr>),
      (1, Release), (2, Call False), (2, Clock \<lparr>tm_mono = Some 10, tm_wall = 105\<rparr>)] :: (nat \<times> GateInput) list"
  let ?c = "\<lparr>ac_confirmed = False, ac_phase = Returned Granted None\<rparr>"
  obtain g where g: "gateRun ?steps newGate = Some g" "ag_calls g 2 = Some ?c"
    by (simp add: authorizeStep_def newGate_def toPhase_def logged_def graceLive_def IsZero_def zeroTime_def AddTime_def GraceWindow_def
        Before_def Round0_def)
  have p: "ac_phase ?c = Returned Granted None" by simp
  have v: "rr_Value (Reveal (\<lambda>k. Inr ''ref'') (\<lambda>r. Inr ''pw'') (Granted, None) ''v1'') = Some ''pw''"
    by (simp add: Reveal_def revealWith_value revealVariable_def)
  show ?thesis using g(1) v secret_shown_on_grounds [OF g p, of "\<lambda>k. Inr ''ref''" "\<lambda>r. Inr ''pw''" "''v1''"] by blast
qed

section \<open>The confirmation flag\<close>

text \<open>The same inputs with other confirmation flags, and a gate with other flags in its calls.\<close>

definition reflag :: "(nat \<Rightarrow> bool) \<Rightarrow> nat \<times> GateInput \<Rightarrow> nat \<times> GateInput" where
  "reflag f s = (case s of (i, Call b) \<Rightarrow> (i, Call (f i)) | (i, inp) \<Rightarrow> (i, inp))"

definition reflagged :: "(nat \<Rightarrow> bool) \<Rightarrow> AuthGate \<Rightarrow> AuthGate" where
  "reflagged f g = g\<lparr>ag_calls := (\<lambda>i. map_option (\<lambda>c. c\<lparr>ac_confirmed := f i\<rparr>) (ag_calls g i))\<rparr>"

lemma reflagged_toPhase: "toPhase i (c\<lparr>ac_confirmed := f i\<rparr>) ph (reflagged f g) = reflagged f (toPhase i c ph g)"
  by (auto simp: toPhase_def reflagged_def fun_eq_iff)

lemma reflagged_simps:
  "logged e (reflagged f g) = reflagged f (logged e g)" "ag_deadline (reflagged f g) = ag_deadline g" "ag_evalMu (reflagged f g) = ag_evalMu g"
  "(reflagged f g)\<lparr>ag_evalMu := m\<rparr> = reflagged f (g\<lparr>ag_evalMu := m\<rparr>)" "(reflagged f g)\<lparr>ag_deadline := d\<rparr> = reflagged f (g\<lparr>ag_deadline := d\<rparr>)"
  by (simp_all add: logged_def reflagged_def)

lemma reflagged_callStep:
  "inp \<noteq> Available False \<Longrightarrow> callStep i (c\<lparr>ac_confirmed := f i\<rparr>) ph inp (reflagged f g) = map_option (reflagged f) (callStep i c ph inp g)"
  by (cases "(i, c, ph, inp, g)" rule: callStep.cases) (auto simp: reflagged_simps reflagged_toPhase)

lemma reflagged_step:
  assumes "inp \<noteq> Available False"
  shows "authorizeStep i (snd (reflag f (i, inp))) (reflagged f g) = map_option (reflagged f) (authorizeStep i inp g)"
proof (cases "ag_calls g i")
  case None
  have "toPhase i \<lparr>ac_confirmed = f i, ac_phase = Entered\<rparr> Entered (reflagged f g) = reflagged f (toPhase i \<lparr>ac_confirmed = b, ac_phase = Entered\<rparr> Entered g)" for b
    using reflagged_toPhase [where c = "\<lparr>ac_confirmed = b, ac_phase = Entered\<rparr>" and ph = Entered and f = f and i = i and g = g] by simp
  then show ?thesis using None by (cases inp) (simp_all add: authorizeStep_def reflag_def reflagged_def)
next
  case (Some c)
  have "snd (reflag f (i, inp)) = inp \<or> (\<exists>b b'. inp = Call b \<and> snd (reflag f (i, inp)) = Call b')" by (cases inp) (simp_all add: reflag_def)
  moreover have "callStep i d ph (Call b) h = None" for d ph b h by (cases ph) simp_all
  ultimately show ?thesis using Some reflagged_callStep [OF assms, where i = i and c = c and f = f and ph = "ac_phase c" and g = g]
    by (auto simp: authorizeStep_def reflagged_def)
qed

lemma reflagged_run:
  "\<forall>s\<in>set steps. snd s \<noteq> Available False \<Longrightarrow> gateRun (map (reflag f) steps) (reflagged f g) = map_option (reflagged f) (gateRun steps g)"
proof (induction steps g rule: gateRun.induct)
  case (2 i inp steps g)
  have r: "reflag f (i, inp) = (i, snd (reflag f (i, inp)))" by (cases inp) (simp_all add: reflag_def)
  have "authorizeStep i (snd (reflag f (i, inp))) (reflagged f g) = map_option (reflagged f) (authorizeStep i inp g)"
    using reflagged_step 2(2) by simp
  then show ?case using 2 by (subst list.map, subst r) (cases "authorizeStep i inp g", simp_all)
qed simp

text \<open>
  C15: A confirmation cannot stand in for a prompt.  As long as the operating system can ask, the run of the gate is
  the same whatever confirmation flags the callers send: every call is at the same place with the same
  outcome, the same prompts went up and the same deadline is stored.
\<close>

theorem confirmation_no_substitute:
  assumes "gateRun steps newGate = Some g" and "\<forall>s\<in>set steps. snd s \<noteq> Available False"
  shows "\<exists>g'. gateRun (map (reflag f) steps) newGate = Some g' \<and> ag_log g' = ag_log g \<and> ag_deadline g' = ag_deadline g \<and>
    (\<forall>i. map_option ac_phase (ag_calls g' i) = map_option ac_phase (ag_calls g i))"
proof -
  have "reflagged f newGate = newGate" by (simp add: reflagged_def newGate_def)
  then have "gateRun (map (reflag f) steps) newGate = Some (reflagged f g)" using reflagged_run [OF assms(2), of f newGate] assms(1) by simp
  then show ?thesis by (simp add: reflagged_def option.map_comp comp_def)
qed

theorem confirmation_no_substitute_witness:
  "\<exists>g g'. gateRun [(1, Call False), (1, Clock zeroTime), (1, Available True), (1, Acquire), (1, Clock zeroTime), (1, Answer Cancelled None), (1, Release)] newGate = Some g \<and>
     gateRun [(1, Call True), (1, Clock zeroTime), (1, Available True), (1, Acquire), (1, Clock zeroTime), (1, Answer Cancelled None), (1, Release)] newGate = Some g' \<and>
     ag_log g' = ag_log g \<and> map_option ac_phase (ag_calls g' 1) = map_option ac_phase (ag_calls g 1)"
proof -
  let ?steps = "[(1, Call False), (1, Clock zeroTime), (1, Available True), (1, Acquire), (1, Clock zeroTime), (1, Answer Cancelled None), (1, Release)] :: (nat \<times> GateInput) list"
  obtain g where g: "gateRun ?steps newGate = Some g"
    by (simp add: authorizeStep_def newGate_def toPhase_def logged_def graceLive_def IsZero_def zeroTime_def)
  have a: "\<forall>s\<in>set ?steps. snd s \<noteq> Available False" by simp
  show ?thesis using g confirmation_no_substitute [OF g a, of "\<lambda>i. True"] by (auto simp: reflag_def)
qed

end
