(* ===== verification/GraphPlane.thy ===== *)
theory GraphPlane
  imports Approvals
begin

text \<open>
  The bulk data plane of the git graph: \<^verbatim>\<open>graphplane/credit.go\<close> and \<^verbatim>\<open>graphplane/plane.go\<close>.  One connection
  carries many streams of chunks; the client opens, cancels and grants credits, and a stream takes one
  credit for each chunk it emits.

  Goroutines interleave between the critical sections, so the plane is a transition system: a call of
  \<open>plStep\<close> is one such section of the reader, of one emit of one stream, of a stream's return, or of the
  writer, and \<^const>\<open>None\<close> means the section cannot run in this state (a goroutine is blocked there).
  Streams are objects of a store, since a cancelled stream may still be running when its id is opened
  again.  What a stream's body does is the sequence of its calls; a body emits only until it returns.
  \<^verbatim>\<open>json.Marshal\<close> is the argument \<open>marshal\<close>, with \<^const>\<open>None\<close> for its error, as is the decoded client frame.
  Go's \<open>int\<close> has 64 bits here, and credits wrap.
\<close>

section \<open>Data\<close>

record CreditGate =
  cg_available :: int
  cg_waiters :: "nat list"
  cg_closed :: "nat list"
  cg_made :: nat

datatype InFrame =
    FrOpen int bytes bytes int
  | FrCredit int int
  | FrCancel int
  | FrOther

record OutHeader =
  oh_T :: bytes
  oh_ID :: int
  oh_Chunk :: "bytes option"
  oh_Error :: "IpcError option"

text \<open>An emit of a stream: waiting for a credit on a channel, holding one, or returned.\<close>

datatype EmitState = EmWaiting nat | EmHolding | EmDone

text \<open>A stream's body runs, has returned with the end frame still to send, or is finished.\<close>

datatype StreamPhase = PhRunning | PhEnding "GoError option" | PhDone

record PlStream =
  ps_ID :: int
  ps_gate :: CreditGate
  ps_cancelled :: bool
  ps_emits :: "EmitState list"
  ps_phase :: StreamPhase

record Plane =
  pl_maxFrame :: int
  pl_heap :: "PlStream list"
  pl_streams :: "int \<rightharpoonup> nat"
  pl_reply :: "bytes option"
  pl_ctxDone :: bool
  pl_closing :: bool
  pl_done :: bool
  pl_sendCh :: "bytes list"
  pl_sent :: "bytes list"

definition sendQueueCap :: nat where
  "sendQueueCap = 16"

section \<open>The credit gate\<close>

definition newCreditGate :: CreditGate where
  "newCreditGate = \<lparr>cg_available = 0, cg_waiters = [], cg_closed = [], cg_made = 0\<rparr>"

fun grantLoop :: "int \<Rightarrow> nat list \<Rightarrow> nat list \<Rightarrow> int \<times> nat list \<times> nat list" where
  "grantLoop a [] cl = (a, [], cl)"
| "grantLoop a (w # ws) cl = (if a > 0 then grantLoop (a - 1) ws (cl @ [w]) else (a, w # ws, cl))"

definition grant :: "int \<Rightarrow> CreditGate \<Rightarrow> CreditGate" where
  "grant n g =
     (case grantLoop (wrap64 (cg_available g + n)) (cg_waiters g) (cg_closed g) of
        (a, ws, cl) \<Rightarrow> g\<lparr>cg_available := a, cg_waiters := ws, cg_closed := cl\<rparr>)"

text \<open>\<open>acquire\<close> up to its select: the emit holds a credit or waits on a channel of its own.\<close>

definition acquire :: "CreditGate \<Rightarrow> EmitState \<times> CreditGate" where
  "acquire g =
     (if cg_available g > 0 then (EmHolding, g\<lparr>cg_available := cg_available g - 1\<rparr>)
      else (EmWaiting (cg_made g), g\<lparr>cg_waiters := cg_waiters g @ [cg_made g], cg_made := cg_made g + 1\<rparr>))"

section \<open>Frames\<close>

text \<open>The four bytes of a big-endian 32-bit length.\<close>

definition putUint32 :: "nat \<Rightarrow> bytes" where
  "putUint32 n = map (\<lambda>k. char_of (n div 256 ^ k mod 256)) [3, 2, 1, 0]"

definition encodeChunk :: "(OutHeader \<Rightarrow> bytes option) \<Rightarrow> OutHeader \<Rightarrow> bytes option \<Rightarrow> bytes option" where
  "encodeChunk marshal h blob =
     map_option
       (\<lambda>header. case blob of None \<Rightarrow> header | Some b \<Rightarrow> [char_of (0 :: nat)] @ putUint32 (length header) @ header @ b)
       (marshal h)"

definition wireErrorFrom :: "GoError \<Rightarrow> IpcError" where
  "wireErrorFrom err =
     (case err of Structured e \<Rightarrow> e | PlainError msg \<Rightarrow> \<lparr>ie_Code = ''E_INTERNAL'', ie_Message = msg\<rparr>)"

definition endHeader :: "int \<Rightarrow> GoError option \<Rightarrow> OutHeader" where
  "endHeader i err = \<lparr>oh_T = ''end'', oh_ID = i, oh_Chunk = None, oh_Error = map_option wireErrorFrom err\<rparr>"

section \<open>The plane\<close>

definition newPlane :: "int \<Rightarrow> Plane" where
  "newPlane maxFrame =
     \<lparr>pl_maxFrame = maxFrame, pl_heap = [], pl_streams = Map.empty, pl_reply = None, pl_ctxDone = False,
      pl_closing = False, pl_done = False, pl_sendCh = [], pl_sent = []\<rparr>"

definition setStream :: "nat \<Rightarrow> (PlStream \<Rightarrow> PlStream) \<Rightarrow> Plane \<Rightarrow> Plane" where
  "setStream s f p = p\<lparr>pl_heap := (pl_heap p)[s := f (pl_heap p ! s)]\<rparr>"

text \<open>A send on the full channel blocks; after the plane is done it is dropped.\<close>

definition enqueue :: "bytes \<Rightarrow> Plane \<Rightarrow> Plane option" where
  "enqueue b p =
     (if pl_done p then Some p
      else if length (pl_sendCh p) < sendQueueCap then Some (p\<lparr>pl_sendCh := pl_sendCh p @ [b]\<rparr>)
      else None)"

definition sendEnd :: "(OutHeader \<Rightarrow> bytes option) \<Rightarrow> int \<Rightarrow> GoError option \<Rightarrow> Plane \<Rightarrow> Plane option" where
  "sendEnd marshal i err p = (case marshal (endHeader i err) of None \<Rightarrow> Some p | Some b \<Rightarrow> enqueue b p)"

definition ctxDone :: "Plane \<Rightarrow> nat \<Rightarrow> bool" where
  "ctxDone p s \<longleftrightarrow> pl_ctxDone p \<or> ps_cancelled (pl_heap p ! s)"

text \<open>
  \<open>handleOpen\<close> of a live id answers with an end frame, which may have to wait for room: the reader holds
  it in \<open>pl_reply\<close> until then.
\<close>

definition handleOpen :: "(OutHeader \<Rightarrow> bytes option) \<Rightarrow> int \<Rightarrow> int \<Rightarrow> Plane \<Rightarrow> Plane" where
  "handleOpen marshal i credit p =
     (if pl_streams p i \<noteq> None
      then p\<lparr>pl_reply := marshal (endHeader i (Some (Structured
                \<lparr>ie_Code = ''E_CONTRACT'', ie_Message = ''graphplane: stream id is already live''\<rparr>)))\<rparr>
      else p\<lparr>pl_streams := (pl_streams p)(i \<mapsto> length (pl_heap p)),
             pl_heap := pl_heap p @
               [\<lparr>ps_ID = i, ps_gate = (if credit > 0 then grant credit newCreditGate else newCreditGate),
                 ps_cancelled = False, ps_emits = [], ps_phase = PhRunning\<rparr>]\<rparr>)"

definition handleFrame :: "(OutHeader \<Rightarrow> bytes option) \<Rightarrow> InFrame \<Rightarrow> Plane \<Rightarrow> Plane" where
  "handleFrame marshal f p =
     (case f of
        FrOpen i windowKey params credit \<Rightarrow> handleOpen marshal i credit p
      | FrCredit i n \<Rightarrow>
          (case pl_streams p i of
             None \<Rightarrow> p
           | Some s \<Rightarrow> setStream s (\<lambda>st. st\<lparr>ps_gate := grant n (ps_gate st)\<rparr>) p)
      | FrCancel i \<Rightarrow>
          (case pl_streams p i of
             None \<Rightarrow> p
           | Some s \<Rightarrow> setStream s (\<lambda>st. st\<lparr>ps_cancelled := True\<rparr>) (p\<lparr>pl_streams := (pl_streams p)(i := None)\<rparr>))
      | FrOther \<Rightarrow> p)"

text \<open>What becomes of an emit that holds its credit: the frame to enqueue, or nothing when it fails.\<close>

definition emitFrame ::
  "(OutHeader \<Rightarrow> bytes option) \<Rightarrow> Plane \<Rightarrow> nat \<Rightarrow> bytes option \<Rightarrow> bytes option \<Rightarrow> bytes option" where
  "emitFrame marshal p s chunk blob =
     (case chunk of
        None \<Rightarrow> None
      | Some c \<Rightarrow>
          (case encodeChunk marshal \<lparr>oh_T = ''chunk'', oh_ID = ps_ID (pl_heap p ! s), oh_Chunk = Some c, oh_Error = None\<rparr> blob of
             None \<Rightarrow> None
           | Some b \<Rightarrow> if pl_maxFrame p > 0 \<and> int (length b) > pl_maxFrame p then None else Some b))"

definition runReturn :: "nat \<Rightarrow> GoError option \<Rightarrow> Plane \<Rightarrow> Plane" where
  "runReturn s err p =
     (let st = pl_heap p ! s;
          live = (pl_streams p (ps_ID st) = Some s);
          p1 = (if live then p\<lparr>pl_streams := (pl_streams p)(ps_ID st := None)\<rparr> else p)
      in setStream s (\<lambda>st. st\<lparr>ps_cancelled := True, ps_phase := (if live then PhEnding err else PhDone)\<rparr>) p1)"

section \<open>Steps\<close>

datatype PlCall =
    CFrame InFrame
  | CReply
  | CHangup
  | CContext
  | CDone
  | CWrite
  | CEmit nat
  | CWake nat nat
  | CAbort nat nat
  | CPush nat nat "bytes option" "bytes option"
  | CReturn nat "GoError option"
  | CEnd nat

text \<open>\<open>CHangup\<close> is the end of the read loop, \<open>CContext\<close> the end of the context the plane was started with.\<close>

text \<open>What a step does to one stream, for the statements about runs.\<close>

datatype PlEvent = EvGrant nat int | EvCancel nat | EvChunk nat bytes | EvEnd nat "bytes option"

definition emitAt :: "Plane \<Rightarrow> nat \<Rightarrow> nat \<Rightarrow> EmitState option" where
  "emitAt p s k =
     (if s < length (pl_heap p) \<and> k < length (ps_emits (pl_heap p ! s)) then Some (ps_emits (pl_heap p ! s) ! k) else None)"

definition setEmit :: "nat \<Rightarrow> nat \<Rightarrow> EmitState \<Rightarrow> Plane \<Rightarrow> Plane" where
  "setEmit s k e p = setStream s (\<lambda>st. st\<lparr>ps_emits := (ps_emits st)[k := e]\<rparr>) p"

fun plStep :: "(OutHeader \<Rightarrow> bytes option) \<Rightarrow> Plane \<Rightarrow> PlCall \<Rightarrow> (PlEvent list \<times> Plane) option" where
  "plStep marshal p (CFrame f) =
     (if pl_closing p \<or> pl_reply p \<noteq> None then None
      else Some
        (case f of
           FrOpen i w ps credit \<Rightarrow>
             if pl_streams p i = None \<and> credit > 0 then [EvGrant (length (pl_heap p)) credit] else []
         | FrCredit i n \<Rightarrow> (case pl_streams p i of None \<Rightarrow> [] | Some s \<Rightarrow> [EvGrant s n])
         | FrCancel i \<Rightarrow> (case pl_streams p i of None \<Rightarrow> [] | Some s \<Rightarrow> [EvCancel s])
         | FrOther \<Rightarrow> [],
         handleFrame marshal f p))"
| "plStep marshal p CReply =
     (case pl_reply p of
        None \<Rightarrow> None
      | Some b \<Rightarrow> map_option (\<lambda>q. ([], q\<lparr>pl_reply := None\<rparr>)) (enqueue b p))"
| "plStep marshal p CHangup =
     (if pl_closing p \<or> pl_reply p \<noteq> None then None else Some ([], p\<lparr>pl_closing := True, pl_ctxDone := True\<rparr>))"
| "plStep marshal p CContext = Some ([], p\<lparr>pl_ctxDone := True\<rparr>)"
| "plStep marshal p CDone =
     (if pl_closing p \<and> \<not> pl_done p \<and> list_all (\<lambda>st. ps_phase st = PhDone) (pl_heap p)
      then Some ([], p\<lparr>pl_done := True\<rparr>) else None)"
| "plStep marshal p CWrite =
     (case pl_sendCh p of
        [] \<Rightarrow> None
      | b # bs \<Rightarrow> Some ([], p\<lparr>pl_sendCh := bs, pl_sent := pl_sent p @ [b]\<rparr>))"
| "plStep marshal p (CEmit s) =
     (if s < length (pl_heap p) \<and> ps_phase (pl_heap p ! s) = PhRunning
      then case acquire (ps_gate (pl_heap p ! s)) of
             (e, g) \<Rightarrow> Some ([], setStream s (\<lambda>st. st\<lparr>ps_gate := g, ps_emits := ps_emits st @ [e]\<rparr>) p)
      else None)"
| "plStep marshal p (CWake s k) =
     (case emitAt p s k of
        Some (EmWaiting ch) \<Rightarrow>
          if ch \<in> set (cg_closed (ps_gate (pl_heap p ! s))) then Some ([], setEmit s k EmHolding p) else None
      | _ \<Rightarrow> None)"
| "plStep marshal p (CAbort s k) =
     (case emitAt p s k of
        Some (EmWaiting ch) \<Rightarrow> if ctxDone p s then Some ([], setEmit s k EmDone p) else None
      | _ \<Rightarrow> None)"
| "plStep marshal p (CPush s k chunk blob) =
     (case emitAt p s k of
        Some EmHolding \<Rightarrow>
          (case emitFrame marshal p s chunk blob of
             None \<Rightarrow> Some ([], setEmit s k EmDone p)
           | Some b \<Rightarrow> map_option (\<lambda>q. ([EvChunk s b], setEmit s k EmDone q)) (enqueue b p))
      | _ \<Rightarrow> None)"
| "plStep marshal p (CReturn s err) =
     (if s < length (pl_heap p) \<and> ps_phase (pl_heap p ! s) = PhRunning \<and> list_all (\<lambda>e. e = EmDone) (ps_emits (pl_heap p ! s))
      then Some ([], runReturn s err p) else None)"
| "plStep marshal p (CEnd s) =
     (if s < length (pl_heap p) then
        (case ps_phase (pl_heap p ! s) of
           PhEnding err \<Rightarrow>
             map_option (\<lambda>q. ([EvEnd s (marshal (endHeader (ps_ID (pl_heap p ! s)) err))], setStream s (\<lambda>st. st\<lparr>ps_phase := PhDone\<rparr>) q))
               (sendEnd marshal (ps_ID (pl_heap p ! s)) err p)
         | _ \<Rightarrow> None)
      else None)"

fun plRun :: "(OutHeader \<Rightarrow> bytes option) \<Rightarrow> Plane \<Rightarrow> PlCall list \<Rightarrow> (PlEvent list \<times> Plane) option" where
  "plRun marshal p [] = Some ([], p)"
| "plRun marshal p (c # cs) =
     (case plStep marshal p c of
        None \<Rightarrow> None
      | Some (ev, p1) \<Rightarrow> map_option (\<lambda>(evs, q). (ev @ evs, q)) (plRun marshal p1 cs))"

section \<open>The gate's accounting\<close>

definition waitChans :: "EmitState list \<Rightarrow> nat list" where
  "waitChans es = concat (map (\<lambda>e. case e of EmWaiting ch \<Rightarrow> [ch] | _ \<Rightarrow> []) es)"

definition holding :: "EmitState list \<Rightarrow> nat" where
  "holding es = length (filter (\<lambda>e. e = EmHolding) es)"

text \<open>The credits a stream has taken: those acquired without waiting and those handed to a waiting channel.\<close>

definition taken :: "PlStream \<Rightarrow> int" where
  "taken st = int (length (ps_emits st)) - int (cg_made (ps_gate st)) + int (length (cg_closed (ps_gate st)))"

definition woken :: "PlStream \<Rightarrow> nat" where
  "woken st = card (set (waitChans (ps_emits st)) \<inter> set (cg_closed (ps_gate st)))"

definition gateOk :: "CreditGate \<Rightarrow> bool" where
  "gateOk g \<longleftrightarrow> cg_closed g @ cg_waiters g = [0..<cg_made g] \<and> (cg_waiters g \<noteq> [] \<longrightarrow> cg_available g \<le> 0)"

text \<open>\<open>P\<close> and \<open>N\<close> are the credits granted and revoked, \<open>C\<close> the chunks queued.\<close>

definition streamOk :: "PlStream \<Rightarrow> int \<Rightarrow> int \<Rightarrow> nat \<Rightarrow> bool" where
  "streamOk st P N C \<longleftrightarrow> gateOk (ps_gate st) \<and> distinct (waitChans (ps_emits st)) \<and>
     set (waitChans (ps_emits st)) \<subseteq> {..<cg_made (ps_gate st)} \<and> cg_made (ps_gate st) \<le> length (ps_emits st) \<and>
     int (C + holding (ps_emits st) + woken st) \<le> taken st \<and> taken st \<le> P \<and>
     taken st + cg_available (ps_gate st) \<le> P \<and> 0 \<le> N \<and> - N \<le> cg_available (ps_gate st)"

lemma waitChans_simps [simp]:
  "waitChans [] = []" "waitChans (es @ fs) = waitChans es @ waitChans fs"
  "waitChans (EmWaiting ch # es) = ch # waitChans es" "waitChans (EmHolding # es) = waitChans es"
  "waitChans (EmDone # es) = waitChans es"
  by (simp_all add: waitChans_def)

lemma holding_simps [simp]:
  "holding [] = 0" "holding (es @ fs) = holding es + holding fs"
  "holding (EmWaiting ch # es) = holding es" "holding (EmHolding # es) = Suc (holding es)" "holding (EmDone # es) = holding es"
  by (simp_all add: holding_def)

lemma split_at: "k < length es \<Longrightarrow> \<exists>as bs. es = as @ es ! k # bs \<and> es[k := e] = as @ e # bs"
  using id_take_nth_drop upd_conv_take_nth_drop by metis

lemma grantLoop_spec:
  "grantLoop a ws cl = (a', ws', cl') \<Longrightarrow>
   \<exists>k\<le>length ws. ws' = drop k ws \<and> cl' = cl @ take k ws \<and> a' = a - int k \<and> (0 < k \<longrightarrow> 0 \<le> a') \<and> (ws' \<noteq> [] \<longrightarrow> a' \<le> 0)"
proof (induction a ws cl rule: grantLoop.induct)
  case (2 a w ws cl)
  show ?case
  proof (cases "a > 0")
    case True
    then obtain k where "k \<le> length ws" "ws' = drop k ws" "cl' = (cl @ [w]) @ take k ws" "a' = a - 1 - int k"
      "0 < k \<longrightarrow> 0 \<le> a'" "ws' \<noteq> [] \<longrightarrow> a' \<le> 0"
      using 2 by auto
    then show ?thesis using True by (intro exI [of _ "Suc k"]) auto
  qed (use 2 in auto)
qed auto

lemma grant_spec:
  assumes "gateOk g" and "- (2 ^ 63) \<le> cg_available g + n" and "cg_available g + n < 2 ^ 63"
  shows "\<exists>k. grant n g = g\<lparr>cg_available := cg_available g + n - int k, cg_waiters := drop k (cg_waiters g),
      cg_closed := cg_closed g @ take k (cg_waiters g)\<rparr> \<and> k \<le> length (cg_waiters g) \<and>
    (0 < k \<longrightarrow> 0 \<le> cg_available g + n - int k) \<and> gateOk (grant n g)"
proof -
  obtain a ws cl where l: "grantLoop (cg_available g + n) (cg_waiters g) (cg_closed g) = (a, ws, cl)" by (metis prod_cases3)
  then have gr: "grant n g = g\<lparr>cg_available := a, cg_waiters := ws, cg_closed := cl\<rparr>"
    using assms(2,3) by (simp add: grant_def wrap64_id)
  obtain k where "k \<le> length (cg_waiters g)" "ws = drop k (cg_waiters g)" "cl = cg_closed g @ take k (cg_waiters g)"
    "a = cg_available g + n - int k" "0 < k \<longrightarrow> 0 \<le> a" "ws \<noteq> [] \<longrightarrow> a \<le> 0"
    using grantLoop_spec [OF l] by blast
  then show ?thesis using assms(1) gr by (intro exI [of _ k]) (simp add: gateOk_def)
qed

lemma card_wake: "finite B \<Longrightarrow> card (A \<inter> (B \<union> set xs)) \<le> card (A \<inter> B) + length xs"
proof -
  assume "finite B"
  have "A \<inter> (B \<union> set xs) \<subseteq> (A \<inter> B) \<union> set xs" by blast
  then have "card (A \<inter> (B \<union> set xs)) \<le> card ((A \<inter> B) \<union> set xs)" using \<open>finite B\<close> by (intro card_mono) auto
  also have "\<dots> \<le> card (A \<inter> B) + card (set xs)" by (rule card_Un_le)
  also have "\<dots> \<le> card (A \<inter> B) + length xs" by (simp add: card_length)
  finally show ?thesis .
qed

lemma stream_grant:
  assumes ok: "streamOk st P N C" and "P + max 0 n < 2 ^ 63" and "N + max 0 (- n) < 2 ^ 63"
  shows "streamOk (st\<lparr>ps_gate := grant n (ps_gate st)\<rparr>) (P + max 0 n) (N + max 0 (- n)) C"
proof -
  let ?g = "ps_gate st"
  have g: "gateOk ?g" using ok by (simp add: streamOk_def)
  have t: "0 \<le> taken st" using ok by (simp add: streamOk_def)
  have r: "- (2 ^ 63) \<le> cg_available ?g + n" "cg_available ?g + n < 2 ^ 63"
    using ok assms(2,3) t by (auto simp: streamOk_def)
  obtain k where k: "grant n ?g = ?g\<lparr>cg_available := cg_available ?g + n - int k, cg_waiters := drop k (cg_waiters ?g),
      cg_closed := cg_closed ?g @ take k (cg_waiters ?g)\<rparr>" "k \<le> length (cg_waiters ?g)"
    "0 < k \<longrightarrow> 0 \<le> cg_available ?g + n - int k" "gateOk (grant n ?g)"
    using grant_spec [OF g r] by blast
  let ?st = "st\<lparr>ps_gate := grant n ?g\<rparr>"
  have tk: "taken ?st = taken st + int k" using k(1,2) by (simp add: taken_def)
  have "set (waitChans (ps_emits st)) \<inter> set (cg_closed (ps_gate ?st)) =
      set (waitChans (ps_emits st)) \<inter> (set (cg_closed ?g) \<union> set (take k (cg_waiters ?g)))"
    by (simp add: k(1))
  then have "woken ?st \<le> woken st + length (take k (cg_waiters ?g))"
    unfolding woken_def using card_wake [of "set (cg_closed ?g)" "set (waitChans (ps_emits st))" "take k (cg_waiters ?g)"] by simp
  then have w: "woken ?st \<le> woken st + k" using k(2) by simp
  have av: "cg_available (ps_gate ?st) = cg_available ?g + n - int k" "cg_made (ps_gate ?st) = cg_made ?g" by (simp_all add: k(1))
  have "- (N + max 0 (- n)) \<le> cg_available ?g + n - int k"
    using ok k(3) by (cases "k = 0") (auto simp: streamOk_def)
  moreover have "taken st + int k \<le> P + max 0 n"
    using ok k(3) by (cases "k = 0") (auto simp: streamOk_def)
  moreover have "int (C + holding (ps_emits st) + woken ?st) \<le> taken st + int k" using ok w by (simp add: streamOk_def)
  moreover have "taken st + int k + (cg_available ?g + n - int k) \<le> P + max 0 n" using ok by (auto simp: streamOk_def)
  ultimately show ?thesis using ok k(4) unfolding streamOk_def tk av by simp
qed

lemma stream_emit:
  assumes ok: "streamOk st P N C" and a: "acquire (ps_gate st) = (e, g)"
  shows "streamOk (st\<lparr>ps_gate := g, ps_emits := ps_emits st @ [e]\<rparr>) P N C"
proof (cases "cg_available (ps_gate st) > 0")
  case True
  then have "e = EmHolding" "g = (ps_gate st)\<lparr>cg_available := cg_available (ps_gate st) - 1\<rparr>"
    using a by (auto simp: acquire_def)
  then show ?thesis using ok True by (auto simp: streamOk_def gateOk_def taken_def woken_def)
next
  case False
  let ?g = "ps_gate st"
  have e: "e = EmWaiting (cg_made ?g)" "g = ?g\<lparr>cg_waiters := cg_waiters ?g @ [cg_made ?g], cg_made := cg_made ?g + 1\<rparr>"
    using a False by (auto simp: acquire_def)
  have "set (cg_closed ?g) \<subseteq> set [0..<cg_made ?g]"
    using ok by (metis Un_upper1 gateOk_def set_append streamOk_def)
  then have "cg_made ?g \<notin> set (cg_closed ?g)" by auto
  then have w: "woken (st\<lparr>ps_gate := g, ps_emits := ps_emits st @ [e]\<rparr>) = woken st"
    by (simp add: woken_def e Int_insert_left)
  have "cg_made ?g \<notin> set (waitChans (ps_emits st))" using ok by (auto simp: streamOk_def)
  moreover have "gateOk g" using ok False by (simp add: streamOk_def gateOk_def e flip: append_assoc)
  ultimately show ?thesis using ok w by (auto simp: streamOk_def taken_def e lessThan_Suc)
qed

lemma stream_wake:
  assumes ok: "streamOk st P N C" and "k < length (ps_emits st)" and "ps_emits st ! k = EmWaiting ch"
    and e: "e = EmHolding \<and> ch \<in> set (cg_closed (ps_gate st)) \<or> e = EmDone"
  shows "streamOk (st\<lparr>ps_emits := (ps_emits st)[k := e]\<rparr>) P N C"
proof -
  obtain as bs where s: "ps_emits st = as @ EmWaiting ch # bs" "(ps_emits st)[k := e] = as @ e # bs"
    using split_at [OF assms(2)] assms(3) by metis
  define st' where "st' = st\<lparr>ps_emits := (ps_emits st)[k := e]\<rparr>"
  have f: "ps_emits st' = as @ e # bs" "ps_gate st' = ps_gate st" by (simp_all add: st'_def s(2))
  let ?A = "set (waitChans as) \<union> set (waitChans bs)" and ?B = "set (cg_closed (ps_gate st))"
  have d: "ch \<notin> ?A" using ok by (auto simp: streamOk_def s)
  have "woken st = card ((insert ch ?A) \<inter> ?B)" by (simp add: woken_def s Un_insert_right)
  also have "\<dots> = (if ch \<in> ?B then Suc (card (?A \<inter> ?B)) else card (?A \<inter> ?B))" using d by (simp add: Int_insert_left)
  finally have w: "woken st = (if ch \<in> ?B then Suc (card (?A \<inter> ?B)) else card (?A \<inter> ?B))" .
  have w': "woken st' = card (?A \<inter> ?B)" using e by (auto simp: woken_def f)
  have t: "taken st' = taken st" by (simp add: taken_def f s(1))
  have "streamOk st' P N C"
    using ok e w w' unfolding streamOk_def t f by (auto simp: s(1) split: if_splits)
  then show ?thesis by (simp add: st'_def)
qed

lemma stream_push:
  assumes ok: "streamOk st P N C" and "k < length (ps_emits st)" and "ps_emits st ! k = EmHolding"
  shows "streamOk (st\<lparr>ps_emits := (ps_emits st)[k := EmDone]\<rparr>) P N (Suc C)"
proof -
  obtain as bs where s: "ps_emits st = as @ EmHolding # bs" "(ps_emits st)[k := EmDone] = as @ EmDone # bs"
    using split_at [OF assms(2)] assms(3) by metis
  define st' where "st' = st\<lparr>ps_emits := (ps_emits st)[k := EmDone]\<rparr>"
  have f: "ps_emits st' = as @ EmDone # bs" "ps_gate st' = ps_gate st" by (simp_all add: st'_def s(2))
  have "woken st' = woken st" "taken st' = taken st" by (simp_all add: taken_def woken_def f s(1))
  then have "streamOk st' P N (Suc C)" using ok by (simp add: streamOk_def f s(1))
  then show ?thesis by (simp add: st'_def)
qed

lemma stream_cong:
  "ps_gate st' = ps_gate st \<Longrightarrow> ps_emits st' = ps_emits st \<Longrightarrow> streamOk st' P N C = streamOk st P N C"
  by (simp add: streamOk_def taken_def woken_def)

lemma stream_fewer: "streamOk st P N C \<Longrightarrow> C' \<le> C \<Longrightarrow> streamOk st P N C'"
  by (simp add: streamOk_def)

section \<open>Runs\<close>

fun evStream :: "PlEvent \<Rightarrow> nat" where
  "evStream (EvGrant s n) = s"
| "evStream (EvCancel s) = s"
| "evStream (EvChunk s b) = s"
| "evStream (EvEnd s b) = s"

definition credit :: "(int \<Rightarrow> int) \<Rightarrow> nat \<Rightarrow> PlEvent \<Rightarrow> int" where
  "credit f s e = (case e of EvGrant s' n \<Rightarrow> if s' = s then f n else 0 | _ \<Rightarrow> 0)"

definition granted :: "nat \<Rightarrow> PlEvent list \<Rightarrow> int" where
  "granted s evs = sum_list (map (credit (\<lambda>n. max 0 n) s) evs)"

definition revoked :: "nat \<Rightarrow> PlEvent list \<Rightarrow> int" where
  "revoked s evs = sum_list (map (credit (\<lambda>n. max 0 (- n)) s) evs)"

definition chunkCount :: "nat \<Rightarrow> PlEvent list \<Rightarrow> nat" where
  "chunkCount s evs = length (filter (\<lambda>e. case e of EvChunk s' b \<Rightarrow> s' = s | _ \<Rightarrow> False) evs)"

lemma counts_simps [simp]:
  "granted s [] = 0" "granted s (evs @ fvs) = granted s evs + granted s fvs"
  "granted s [EvGrant s' n] = (if s' = s then max 0 n else 0)" "granted s [EvCancel s'] = 0" "granted s [EvChunk s' b] = 0"
  "granted s [EvEnd s' d] = 0"
  "revoked s [] = 0" "revoked s (evs @ fvs) = revoked s evs + revoked s fvs"
  "revoked s [EvGrant s' n] = (if s' = s then max 0 (- n) else 0)" "revoked s [EvCancel s'] = 0" "revoked s [EvChunk s' b] = 0"
  "revoked s [EvEnd s' d] = 0"
  "chunkCount s [] = 0" "chunkCount s (evs @ fvs) = chunkCount s evs + chunkCount s fvs"
  "chunkCount s [EvGrant s' n] = 0" "chunkCount s [EvCancel s'] = 0" "chunkCount s [EvChunk s' b] = (if s' = s then 1 else 0)"
  "chunkCount s [EvEnd s' d] = 0"
  by (simp_all add: granted_def revoked_def chunkCount_def credit_def)

lemma counts_nonneg: "0 \<le> granted s evs" "0 \<le> revoked s evs"
  by (auto simp: granted_def revoked_def credit_def intro!: sum_list_nonneg split: PlEvent.split)

lemma counts_other:
  "(\<And>e. e \<in> set evs \<Longrightarrow> evStream e \<noteq> s) \<Longrightarrow> granted s evs = 0 \<and> revoked s evs = 0 \<and> chunkCount s evs = 0"
proof (induction evs)
  case (Cons e evs)
  then have "granted s evs = 0 \<and> revoked s evs = 0 \<and> chunkCount s evs = 0" "evStream e \<noteq> s" by auto
  then show ?case by (cases e) (auto simp: granted_def revoked_def chunkCount_def credit_def)
qed simp

definition acctOk :: "PlEvent list \<Rightarrow> Plane \<Rightarrow> bool" where
  "acctOk evs p \<longleftrightarrow>
     (\<forall>s<length (pl_heap p). streamOk (pl_heap p ! s) (granted s evs) (revoked s evs) (chunkCount s evs)) \<and>
     (\<forall>e\<in>set evs. evStream e < length (pl_heap p))"

lemma acct_update:
  assumes ok: "acctOk evs p" and "s < length (pl_heap p)" and "pl_heap q = (pl_heap p)[s := st]"
    and ev: "\<And>e. e \<in> set ev \<Longrightarrow> evStream e = s"
    and st: "streamOk st (granted s (evs @ ev)) (revoked s (evs @ ev)) (chunkCount s (evs @ ev))"
  shows "acctOk (evs @ ev) q"
proof -
  have "granted s' ev = 0 \<and> revoked s' ev = 0 \<and> chunkCount s' ev = 0" if "s' \<noteq> s" for s'
    by (rule counts_other) (use ev that in blast)
  then show ?thesis using assms(1-3) ev st by (auto simp: acctOk_def nth_list_update)
qed

lemma acct_same: "acctOk evs p \<Longrightarrow> pl_heap q = pl_heap p \<Longrightarrow> acctOk evs q"
  by (simp add: acctOk_def)

lemma acct_open:
  assumes ok: "acctOk evs p" and "pl_heap q = pl_heap p @ [st]" and ev: "\<And>e. e \<in> set ev \<Longrightarrow> evStream e = length (pl_heap p)"
    and st: "streamOk st (granted (length (pl_heap p)) ev) (revoked (length (pl_heap p)) ev) (chunkCount (length (pl_heap p)) ev)"
  shows "acctOk (evs @ ev) q"
proof -
  let ?n = "length (pl_heap p)"
  have old: "granted ?n evs = 0 \<and> revoked ?n evs = 0 \<and> chunkCount ?n evs = 0"
    by (rule counts_other) (use ok in \<open>auto simp: acctOk_def\<close>)
  have new: "granted s ev = 0 \<and> revoked s ev = 0 \<and> chunkCount s ev = 0" if "s < ?n" for s
    by (rule counts_other) (use ev that in force)
  have "streamOk (pl_heap q ! s) (granted s (evs @ ev)) (revoked s (evs @ ev)) (chunkCount s (evs @ ev))"
    if "s < length (pl_heap q)" for s
    using that ok st old new [of s] by (cases "s = ?n") (auto simp: acctOk_def assms(2) nth_append)
  moreover have "\<forall>e\<in>set (evs @ ev). evStream e < length (pl_heap q)"
    using ok ev by (auto simp: acctOk_def assms(2))
  ultimately show ?thesis by (simp add: acctOk_def)
qed

lemma enqueue_keeps:
  "enqueue b p = Some q \<Longrightarrow> pl_heap q = pl_heap p \<and> pl_streams q = pl_streams p \<and> pl_ctxDone q = pl_ctxDone p \<and>
     pl_closing q = pl_closing p \<and> pl_reply q = pl_reply p \<and> pl_done q = pl_done p \<and> pl_maxFrame q = pl_maxFrame p"
  by (auto simp: enqueue_def split: if_splits)

lemma sendEnd_keeps:
  "sendEnd marshal i err p = Some q \<Longrightarrow> pl_heap q = pl_heap p \<and> pl_streams q = pl_streams p \<and> pl_ctxDone q = pl_ctxDone p \<and>
     pl_closing q = pl_closing p \<and> pl_reply q = pl_reply p \<and> pl_done q = pl_done p \<and> pl_maxFrame q = pl_maxFrame p"
  by (auto simp: sendEnd_def dest: enqueue_keeps split: option.splits)

lemma setStream_simps [simp]:
  "pl_heap (setStream s f p) = (pl_heap p)[s := f (pl_heap p ! s)]" "pl_streams (setStream s f p) = pl_streams p"
  "pl_ctxDone (setStream s f p) = pl_ctxDone p" "pl_closing (setStream s f p) = pl_closing p" "pl_reply (setStream s f p) = pl_reply p"
  "pl_done (setStream s f p) = pl_done p" "pl_sendCh (setStream s f p) = pl_sendCh p"
  by (simp_all add: setStream_def)

lemma new_stream_ok:
  assumes "c \<le> 0 \<or> c < 2 ^ 63" and "ps_gate st = (if c > 0 then grant c newCreditGate else newCreditGate)" and "ps_emits st = []"
  shows "streamOk st (max 0 c) 0 0"
proof -
  let ?st = "st\<lparr>ps_gate := newCreditGate\<rparr>"
  have 0: "streamOk ?st 0 0 0"
    by (simp add: streamOk_def newCreditGate_def gateOk_def taken_def woken_def assms(3))
  show ?thesis
  proof (cases "c > 0")
    case True
    have "streamOk (?st\<lparr>ps_gate := grant c (ps_gate ?st)\<rparr>) (0 + max 0 c) (0 + max 0 (- c)) 0"
      using assms(1) True by (intro stream_grant [OF 0]) auto
    then show ?thesis using True assms(2) by (simp add: stream_cong [of st "?st\<lparr>ps_gate := grant c (ps_gate ?st)\<rparr>"])
  next
    case False
    then show ?thesis using 0 assms(2) by (simp add: stream_cong [of st ?st])
  qed
qed

text \<open>The table of live streams.\<close>

definition tableOk :: "Plane \<Rightarrow> bool" where
  "tableOk p \<longleftrightarrow> (\<forall>i s. pl_streams p i = Some s \<longrightarrow>
     s < length (pl_heap p) \<and> ps_ID (pl_heap p ! s) = i \<and> ps_phase (pl_heap p ! s) = PhRunning)"

lemma acct_frame:
  assumes ok: "acctOk evs p" and t: "tableOk p" and step: "plStep marshal p (CFrame f) = Some (ev, q)"
    and b: "\<And>s. granted s (evs @ ev) < 2 ^ 63" "\<And>s. revoked s (evs @ ev) < 2 ^ 63"
  shows "acctOk (evs @ ev) q"
proof (cases f)
  case (FrOpen i w ps c)
  show ?thesis
  proof (cases "pl_streams p i")
    case None
    have ev: "ev = (if c > 0 then [EvGrant (length (pl_heap p)) c] else [])" and q: "q = handleOpen marshal i c p"
      using step None by (auto simp: FrOpen handleFrame_def split: if_splits)
    have "c \<le> 0 \<or> c < 2 ^ 63" using b(1) [of "length (pl_heap p)"] counts_nonneg(1) [of "length (pl_heap p)" evs] by (auto simp: ev)
    define st where "st = \<lparr>ps_ID = i, ps_gate = (if c > 0 then grant c newCreditGate else newCreditGate),
      ps_cancelled = False, ps_emits = [], ps_phase = PhRunning\<rparr>"
    have "streamOk st (max 0 c) 0 0"
      using \<open>c \<le> 0 \<or> c < 2 ^ 63\<close> by (rule new_stream_ok) (simp_all add: st_def)
    moreover have "pl_heap q = pl_heap p @ [st]" using None by (simp add: q handleOpen_def st_def)
    ultimately show ?thesis using acct_open [OF ok, of q st ev] by (auto simp: ev split: if_splits)
  next
    case (Some s)
    then have "ev = []" "pl_heap q = pl_heap p" using step by (auto simp: FrOpen handleFrame_def handleOpen_def split: if_splits)
    then show ?thesis using acct_same [OF ok] by simp
  qed
next
  case (FrCredit i n)
  show ?thesis
  proof (cases "pl_streams p i")
    case None
    then have "ev = []" "q = p" using step by (auto simp: FrCredit handleFrame_def split: if_splits)
    then show ?thesis using ok by simp
  next
    case (Some s)
    have s: "s < length (pl_heap p)" using t Some by (auto simp: tableOk_def)
    have ev: "ev = [EvGrant s n]" "pl_heap q = (pl_heap p)[s := (pl_heap p ! s)\<lparr>ps_gate := grant n (ps_gate (pl_heap p ! s))\<rparr>]"
      using step Some by (auto simp: FrCredit handleFrame_def split: if_splits)
    have "streamOk (pl_heap p ! s) (granted s evs) (revoked s evs) (chunkCount s evs)" using ok s by (simp add: acctOk_def)
    then show ?thesis
      using b [of s] by (intro acct_update [OF ok s ev(2)]) (auto simp: ev(1) intro!: stream_grant)
  qed
next
  case (FrCancel i)
  show ?thesis
  proof (cases "pl_streams p i")
    case None
    then have "ev = []" "q = p" using step by (auto simp: FrCancel handleFrame_def split: if_splits)
    then show ?thesis using ok by simp
  next
    case (Some s)
    have s: "s < length (pl_heap p)" using t Some by (auto simp: tableOk_def)
    have ev: "ev = [EvCancel s]" "pl_heap q = (pl_heap p)[s := (pl_heap p ! s)\<lparr>ps_cancelled := True\<rparr>]"
      using step Some by (auto simp: FrCancel handleFrame_def split: if_splits)
    have "streamOk (pl_heap p ! s) (granted s evs) (revoked s evs) (chunkCount s evs)" using ok s by (simp add: acctOk_def)
    then show ?thesis
      by (intro acct_update [OF ok s ev(2)])
        (auto simp: ev(1) stream_cong [of "(pl_heap p ! s)\<lparr>ps_cancelled := True\<rparr>" "pl_heap p ! s"])
  qed
next
  case FrOther
  then show ?thesis using step ok by (auto simp: handleFrame_def split: if_splits)
qed

lemma emitAt_Some: "emitAt p s k = Some e \<longleftrightarrow>
   s < length (pl_heap p) \<and> k < length (ps_emits (pl_heap p ! s)) \<and> ps_emits (pl_heap p ! s) ! k = e"
  by (auto simp: emitAt_def)

lemma acct_emit:
  assumes ok: "acctOk evs p" and e: "emitAt p s k = Some e"
    and "pl_heap q = (pl_heap p)[s := (pl_heap p ! s)\<lparr>ps_emits := (ps_emits (pl_heap p ! s))[k := e']\<rparr>]"
    and "(\<exists>ch. e = EmWaiting ch \<and> (e' = EmHolding \<and> ch \<in> set (cg_closed (ps_gate (pl_heap p ! s))) \<or> e' = EmDone)) \<and> ev = [] \<or>
      e = EmHolding \<and> e' = EmDone \<and> (ev = [] \<or> (\<exists>b. ev = [EvChunk s b]))"
  shows "acctOk (evs @ ev) q"
proof -
  have s: "s < length (pl_heap p)" and k: "k < length (ps_emits (pl_heap p ! s))" "ps_emits (pl_heap p ! s) ! k = e"
    using e by (auto simp: emitAt_Some)
  have st: "streamOk (pl_heap p ! s) (granted s evs) (revoked s evs) (chunkCount s evs)" using ok s by (simp add: acctOk_def)
  show ?thesis
  proof (rule acct_update [OF ok s assms(3)])
    show "evStream x = s" if "x \<in> set ev" for x using assms(4) that by auto
    show "streamOk ((pl_heap p ! s)\<lparr>ps_emits := (ps_emits (pl_heap p ! s))[k := e']\<rparr>) (granted s (evs @ ev)) (revoked s (evs @ ev)) (chunkCount s (evs @ ev))"
      using assms(4)
    proof
      assume "(\<exists>ch. e = EmWaiting ch \<and> (e' = EmHolding \<and> ch \<in> set (cg_closed (ps_gate (pl_heap p ! s))) \<or> e' = EmDone)) \<and> ev = []"
      then show ?thesis using stream_wake [OF st k(1)] k(2) by auto
    next
      assume h: "e = EmHolding \<and> e' = EmDone \<and> (ev = [] \<or> (\<exists>b. ev = [EvChunk s b]))"
      then have "streamOk ((pl_heap p ! s)\<lparr>ps_emits := (ps_emits (pl_heap p ! s))[k := e']\<rparr>) (granted s evs) (revoked s evs) (Suc (chunkCount s evs))"
        using stream_push [OF st k(1)] k(2) by simp
      then show ?thesis using h stream_fewer by fastforce
    qed
  qed
qed

lemma setEmit_heap:
  "pl_heap (setEmit s k e p) = (pl_heap p)[s := (pl_heap p ! s)\<lparr>ps_emits := (ps_emits (pl_heap p ! s))[k := e]\<rparr>]"
  by (simp add: setEmit_def)

lemma acct_phase:
  assumes ok: "acctOk evs p" and "s < length (pl_heap p)" and "pl_heap q = (pl_heap p)[s := st]"
    and "ps_gate st = ps_gate (pl_heap p ! s)" and "ps_emits st = ps_emits (pl_heap p ! s)" and "ev = [] \<or> (\<exists>b. ev = [EvEnd s b])"
  shows "acctOk (evs @ ev) q"
proof (rule acct_update [OF assms(1-3)])
  have "streamOk st (granted s evs) (revoked s evs) (chunkCount s evs)"
    using ok assms(2) unfolding stream_cong [OF assms(4,5)] by (simp add: acctOk_def)
  then show "streamOk st (granted s (evs @ ev)) (revoked s (evs @ ev)) (chunkCount s (evs @ ev))" using assms(6) by auto
qed (use assms(6) in auto)

lemma acct_step:
  assumes ok: "acctOk evs p" and t: "tableOk p" and step: "plStep marshal p c = Some (ev, q)"
    and b: "\<And>s. granted s (evs @ ev) < 2 ^ 63" "\<And>s. revoked s (evs @ ev) < 2 ^ 63"
  shows "acctOk (evs @ ev) q"
proof (cases c)
  case (CFrame f)
  then show ?thesis using acct_frame [OF ok t] step b by blast
next
  case (CEmit s)
  then obtain e g where g: "s < length (pl_heap p)" "acquire (ps_gate (pl_heap p ! s)) = (e, g)" "ev = []"
    "q = setStream s (\<lambda>st. st\<lparr>ps_gate := g, ps_emits := ps_emits st @ [e]\<rparr>) p"
    using step by (auto split: if_splits prod.splits)
  have "streamOk (pl_heap p ! s) (granted s evs) (revoked s evs) (chunkCount s evs)" using ok g(1) by (simp add: acctOk_def)
  then have "streamOk ((pl_heap p ! s)\<lparr>ps_gate := g, ps_emits := ps_emits (pl_heap p ! s) @ [e]\<rparr>)
      (granted s (evs @ ev)) (revoked s (evs @ ev)) (chunkCount s (evs @ ev))"
    using stream_emit g(2,3) by simp
  then show ?thesis using g by (intro acct_update [OF ok g(1)]) (auto simp: g(4))
next
  case (CWake s k)
  then show ?thesis
    using step by (auto split: option.splits EmitState.splits if_splits intro!: acct_emit [OF ok, where ev = "[]", simplified] simp: setEmit_heap)
next
  case (CAbort s k)
  then show ?thesis
    using step by (auto split: option.splits EmitState.splits if_splits intro!: acct_emit [OF ok, where ev = "[]", simplified] simp: setEmit_heap)
next
  case (CPush s k chunk blob)
  then have e: "emitAt p s k = Some EmHolding" using step by (auto split: option.splits EmitState.splits)
  have "pl_heap q = (pl_heap p)[s := (pl_heap p ! s)\<lparr>ps_emits := (ps_emits (pl_heap p ! s))[k := EmDone]\<rparr>] \<and>
      (ev = [] \<or> (\<exists>b. ev = [EvChunk s b]))"
    using step e by (auto simp: CPush setEmit_heap split: option.splits dest: enqueue_keeps)
  then show ?thesis using acct_emit [OF ok e, of q EmDone ev] by blast
next
  case (CReturn s err)
  then have s: "s < length (pl_heap p)" "ev = []" "q = runReturn s err p" using step by (auto split: if_splits)
  then show ?thesis
    by (intro acct_phase [OF ok s(1), where st = "pl_heap q ! s"]) (simp_all add: runReturn_def Let_def)
next
  case (CEnd s)
  then obtain err q' where s: "s < length (pl_heap p)" "sendEnd marshal (ps_ID (pl_heap p ! s)) err p = Some q'"
    "q = setStream s (\<lambda>st. st\<lparr>ps_phase := PhDone\<rparr>) q'" "\<exists>b. ev = [EvEnd s b]"
    using step by (auto split: if_splits StreamPhase.splits)
  then show ?thesis
    using sendEnd_keeps [OF s(2)]
    by (intro acct_phase [OF ok s(1), where st = "(pl_heap p ! s)\<lparr>ps_phase := PhDone\<rparr>"]) simp_all
next
  case CReply
  then show ?thesis using step acct_same [OF ok] by (auto split: option.splits dest: enqueue_keeps)
qed (use step acct_same [OF ok] in \<open>auto split: if_splits list.splits\<close>)

section \<open>The life of a stream\<close>

definition noEnd :: "nat \<Rightarrow> PlEvent list \<Rightarrow> bool" where
  "noEnd s evs \<longleftrightarrow> (\<forall>b. EvEnd s b \<notin> set evs)"

definition allDone :: "PlStream \<Rightarrow> bool" where
  "allDone st \<longleftrightarrow> list_all (\<lambda>e. e = EmDone) (ps_emits st)"

definition endedOnce :: "nat \<Rightarrow> PlEvent list \<Rightarrow> bool" where
  "endedOnce s evs \<longleftrightarrow>
     (\<exists>xs b. filter (\<lambda>e. evStream e = s) evs = xs @ [EvEnd s b] \<and> noEnd s xs \<and> EvCancel s \<notin> set xs)"

definition lifeAt :: "PlEvent list \<Rightarrow> Plane \<Rightarrow> nat \<Rightarrow> bool" where
  "lifeAt evs p s =
     (case ps_phase (pl_heap p ! s) of
        PhRunning \<Rightarrow> noEnd s evs \<and> (pl_streams p (ps_ID (pl_heap p ! s)) = Some s \<longleftrightarrow> EvCancel s \<notin> set evs)
      | PhEnding err \<Rightarrow> noEnd s evs \<and> EvCancel s \<notin> set evs \<and> allDone (pl_heap p ! s) \<and> pl_streams p (ps_ID (pl_heap p ! s)) \<noteq> Some s
      | PhDone \<Rightarrow> allDone (pl_heap p ! s) \<and> pl_streams p (ps_ID (pl_heap p ! s)) \<noteq> Some s \<and>
          (noEnd s evs \<and> EvCancel s \<in> set evs \<or> endedOnce s evs))"

definition planeOk :: "PlEvent list \<Rightarrow> Plane \<Rightarrow> bool" where
  "planeOk evs p \<longleftrightarrow> tableOk p \<and> (\<forall>s<length (pl_heap p). lifeAt evs p s) \<and> (\<forall>e\<in>set evs. evStream e < length (pl_heap p))"

lemma lifeAt_other:
  assumes "lifeAt evs p s'" and "pl_heap q ! s' = pl_heap p ! s'"
    and "pl_streams q (ps_ID (pl_heap p ! s')) = Some s' \<longleftrightarrow> pl_streams p (ps_ID (pl_heap p ! s')) = Some s'"
    and "\<And>e. e \<in> set ev \<Longrightarrow> evStream e \<noteq> s'"
  shows "lifeAt (evs @ ev) q s'"
proof -
  have "EvCancel s' \<notin> set ev" "noEnd s' ev" using assms(4) by (force simp: noEnd_def)+
  moreover have "filter (\<lambda>e. evStream e = s') ev = []" using assms(4) by (simp add: filter_empty_conv)
  ultimately show ?thesis
    using assms(1) unfolding lifeAt_def assms(2) by (auto simp: assms(3) noEnd_def endedOnce_def split: StreamPhase.splits)
qed

lemma life_update:
  assumes ok: "planeOk evs p" and s: "s < length (pl_heap p)" and h: "pl_heap q = (pl_heap p)[s := st]"
    and i: "ps_ID st = ps_ID (pl_heap p ! s)"
    and str: "pl_streams q = pl_streams p \<or> pl_streams p (ps_ID st) = Some s \<and> pl_streams q = (pl_streams p)(ps_ID st := None)"
    and ev: "\<And>e. e \<in> set ev \<Longrightarrow> evStream e = s" and l: "lifeAt (evs @ ev) q s"
  shows "planeOk (evs @ ev) q"
proof -
  have "lifeAt (evs @ ev) q s'" if "s' < length (pl_heap q)" for s'
  proof (cases "s' = s")
    case False
    have "lifeAt evs p s'" using ok that by (simp add: planeOk_def h)
    then show ?thesis by (rule lifeAt_other) (use False str ev in \<open>auto simp: h split: if_splits\<close>)
  qed (simp add: l)
  moreover have "tableOk q"
  proof (unfold tableOk_def, intro allI impI)
    fix j s' assume js: "pl_streams q j = Some s'"
    then have "pl_streams p j = Some s'" using str by (auto split: if_splits)
    then have t: "s' < length (pl_heap p) \<and> ps_ID (pl_heap p ! s') = j \<and> ps_phase (pl_heap p ! s') = PhRunning"
      using ok by (simp add: planeOk_def tableOk_def)
    have "ps_phase st = PhRunning" if "s' = s"
      using l js t that s by (auto simp: lifeAt_def h i split: StreamPhase.splits)
    then show "s' < length (pl_heap q) \<and> ps_ID (pl_heap q ! s') = j \<and> ps_phase (pl_heap q ! s') = PhRunning"
      using t i s by (cases "s' = s") (auto simp: h)
  qed
  ultimately show ?thesis using ok ev s by (auto simp: planeOk_def h)
qed

lemma life_same: "planeOk evs p \<Longrightarrow> pl_heap q = pl_heap p \<Longrightarrow> pl_streams q = pl_streams p \<Longrightarrow> planeOk evs q"
  using lifeAt_other [of evs p _ q "[]"] by (simp add: planeOk_def tableOk_def)

lemma life_frame:
  assumes ok: "planeOk evs p" and step: "plStep marshal p (CFrame f) = Some (ev, q)"
  shows "planeOk (evs @ ev) q"
proof (cases f)
  case (FrOpen i w ps c)
  show ?thesis
  proof (cases "pl_streams p i")
    case None
    let ?n = "length (pl_heap p)"
    have ev: "ev = (if c > 0 then [EvGrant ?n c] else [])" and q: "q = handleOpen marshal i c p"
      using step None by (auto simp: FrOpen handleFrame_def split: if_splits)
    obtain st where st: "pl_heap q = pl_heap p @ [st]" "ps_ID st = i" "ps_phase st = PhRunning" "pl_streams q = (pl_streams p)(i \<mapsto> ?n)"
      using None by (simp add: q handleOpen_def)
    have new: "EvCancel ?n \<notin> set (evs @ ev)" "noEnd ?n (evs @ ev)"
      using ok by (auto simp: planeOk_def ev noEnd_def)
    have "lifeAt (evs @ ev) q s" if "s < length (pl_heap q)" for s
    proof (cases "s = ?n")
      case True
      then show ?thesis using new st by (simp add: lifeAt_def)
    next
      case False
      then have s: "s < ?n" using that st(1) by simp
      then have l: "lifeAt evs p s" using ok by (simp add: planeOk_def)
      show ?thesis by (rule lifeAt_other [OF l]) (use s st None ev in \<open>auto simp: nth_append split: if_splits\<close>)
    qed
    moreover have "tableOk q"
    proof (unfold tableOk_def, intro allI impI)
      fix j s assume "pl_streams q j = Some s"
      then have "j = i \<and> s = ?n \<or> pl_streams p j = Some s" using st(4) by (auto split: if_splits)
      then show "s < length (pl_heap q) \<and> ps_ID (pl_heap q ! s) = j \<and> ps_phase (pl_heap q ! s) = PhRunning"
        using ok st by (auto simp: planeOk_def tableOk_def nth_append less_SucI)
    qed
    ultimately show ?thesis using ok st(1) ev by (auto simp: planeOk_def)
  next
    case (Some s)
    then have "ev = []" "pl_heap q = pl_heap p" "pl_streams q = pl_streams p"
      using step by (auto simp: FrOpen handleFrame_def handleOpen_def split: if_splits)
    then show ?thesis using life_same [OF ok] by simp
  qed
next
  case (FrCredit i n)
  show ?thesis
  proof (cases "pl_streams p i")
    case (Some s)
    have s: "s < length (pl_heap p)" "ps_phase (pl_heap p ! s) = PhRunning" using ok Some by (auto simp: planeOk_def tableOk_def)
    have ev: "ev = [EvGrant s n]" "pl_heap q = (pl_heap p)[s := (pl_heap p ! s)\<lparr>ps_gate := grant n (ps_gate (pl_heap p ! s))\<rparr>]"
      "pl_streams q = pl_streams p"
      using step Some by (auto simp: FrCredit handleFrame_def split: if_splits)
    have "lifeAt evs p s" using ok s by (simp add: planeOk_def)
    then have "lifeAt (evs @ ev) q s" using s ev by (simp add: lifeAt_def noEnd_def)
    then show ?thesis using ev by (intro life_update [OF ok s(1) ev(2)]) auto
  qed (use step ok in \<open>auto simp: FrCredit handleFrame_def split: if_splits\<close>)
next
  case (FrCancel i)
  show ?thesis
  proof (cases "pl_streams p i")
    case (Some s)
    have s: "s < length (pl_heap p)" "ps_phase (pl_heap p ! s) = PhRunning" "ps_ID (pl_heap p ! s) = i"
      using ok Some by (auto simp: planeOk_def tableOk_def)
    have ev: "ev = [EvCancel s]" "pl_heap q = (pl_heap p)[s := (pl_heap p ! s)\<lparr>ps_cancelled := True\<rparr>]"
      "pl_streams q = (pl_streams p)(i := None)"
      using step Some by (auto simp: FrCancel handleFrame_def split: if_splits)
    have "lifeAt evs p s" using ok s by (simp add: planeOk_def)
    then have "lifeAt (evs @ ev) q s" using s ev by (simp add: lifeAt_def noEnd_def)
    then show ?thesis using ev s Some by (intro life_update [OF ok s(1) ev(2)]) auto
  qed (use step ok in \<open>auto simp: FrCancel handleFrame_def split: if_splits\<close>)
next
  case FrOther
  then show ?thesis using step ok by (auto simp: handleFrame_def split: if_splits)
qed

text \<open>A step of a running stream that queues at most a chunk.\<close>

lemma life_running:
  assumes ok: "planeOk evs p" and s: "s < length (pl_heap p)" and "pl_heap q = (pl_heap p)[s := st]"
    and "ps_ID st = ps_ID (pl_heap p ! s)" and "ps_phase st = PhRunning" and "ps_phase (pl_heap p ! s) = PhRunning"
    and "pl_streams q = pl_streams p" and "ev = [] \<or> (\<exists>b. ev = [EvChunk s b])"
  shows "planeOk (evs @ ev) q"
proof (rule life_update [OF ok s assms(3,4)])
  have "lifeAt evs p s" using ok s by (simp add: planeOk_def)
  then show "lifeAt (evs @ ev) q s" using assms(3-8) s by (auto simp: lifeAt_def noEnd_def)
qed (use assms(7,8) in auto)

lemma emit_running:
  assumes "planeOk evs p" and "emitAt p s k = Some e" and "e \<noteq> EmDone"
  shows "s < length (pl_heap p) \<and> ps_phase (pl_heap p ! s) = PhRunning"
proof -
  have s: "s < length (pl_heap p)" and m: "e \<in> set (ps_emits (pl_heap p ! s))" using assms(2) by (auto simp: emitAt_Some)
  then have "\<not> allDone (pl_heap p ! s)" using assms(3) by (auto simp: allDone_def list_all_iff)
  moreover have "lifeAt evs p s" using assms(1) s by (simp add: planeOk_def)
  ultimately show ?thesis using s by (simp add: lifeAt_def split: StreamPhase.splits)
qed

lemma life_emit:
  assumes ok: "planeOk evs p" and e: "emitAt p s k = Some e" "e \<noteq> EmDone"
    and "pl_heap q = (pl_heap p)[s := (pl_heap p ! s)\<lparr>ps_emits := (ps_emits (pl_heap p ! s))[k := e']\<rparr>]"
    and "pl_streams q = pl_streams p" and "ev = [] \<or> (\<exists>b. ev = [EvChunk s b])"
  shows "planeOk (evs @ ev) q"
  using emit_running [OF ok e] by (intro life_running [OF ok _ assms(4) _ _ _ assms(5,6)]) simp_all

lemma life_step:
  assumes ok: "planeOk evs p" and step: "plStep marshal p c = Some (ev, q)"
  shows "planeOk (evs @ ev) q"
proof (cases c)
  case (CFrame f)
  then show ?thesis using life_frame [OF ok] step by blast
next
  case (CEmit s)
  then obtain e g where g: "s < length (pl_heap p)" "ps_phase (pl_heap p ! s) = PhRunning" "ev = []"
    "q = setStream s (\<lambda>st. st\<lparr>ps_gate := g, ps_emits := ps_emits st @ [e]\<rparr>) p"
    using step by (auto split: if_splits prod.splits)
  then show ?thesis by (intro life_running [OF ok g(1), where st = "pl_heap q ! s"]) auto
next
  case (CWake s k)
  then obtain ch where e: "emitAt p s k = Some (EmWaiting ch)" "q = setEmit s k EmHolding p" "ev = []"
    using step by (auto split: option.splits EmitState.splits if_splits)
  then show ?thesis by (intro life_emit [OF ok e(1)]) (simp_all add: setEmit_def)
next
  case (CAbort s k)
  then obtain ch where e: "emitAt p s k = Some (EmWaiting ch)" "q = setEmit s k EmDone p" "ev = []"
    using step by (auto split: option.splits EmitState.splits if_splits)
  then show ?thesis by (intro life_emit [OF ok e(1)]) (simp_all add: setEmit_def)
next
  case (CPush s k chunk blob)
  then have e: "emitAt p s k = Some EmHolding" using step by (auto split: option.splits EmitState.splits)
  have "pl_heap q = (pl_heap p)[s := (pl_heap p ! s)\<lparr>ps_emits := (ps_emits (pl_heap p ! s))[k := EmDone]\<rparr>] \<and>
      pl_streams q = pl_streams p \<and> (ev = [] \<or> (\<exists>b. ev = [EvChunk s b]))"
    using step e by (auto simp: CPush setEmit_heap setEmit_def split: option.splits dest: enqueue_keeps)
  then show ?thesis by (intro life_emit [OF ok e]) simp_all
next
  case (CReturn s err)
  then have s: "s < length (pl_heap p)" "ps_phase (pl_heap p ! s) = PhRunning" "allDone (pl_heap p ! s)" "ev = []" "q = runReturn s err p"
    using step by (auto simp: allDone_def split: if_splits)
  let ?i = "ps_ID (pl_heap p ! s)"
  have l: "lifeAt evs p s" using ok s by (simp add: planeOk_def)
  have "lifeAt (evs @ ev) q s"
    using l s by (auto simp: lifeAt_def runReturn_def Let_def allDone_def)
  then show ?thesis
    using s by (intro life_update [OF ok s(1), where st = "pl_heap q ! s"]) (auto simp: runReturn_def Let_def)
next
  case (CEnd s)
  then obtain err q' b where s: "s < length (pl_heap p)" "ps_phase (pl_heap p ! s) = PhEnding err"
    "sendEnd marshal (ps_ID (pl_heap p ! s)) err p = Some q'" "q = setStream s (\<lambda>st. st\<lparr>ps_phase := PhDone\<rparr>) q'" "ev = [EvEnd s b]"
    using step by (auto split: if_splits StreamPhase.splits)
  note k = sendEnd_keeps [OF s(3)]
  have "lifeAt evs p s" using ok s by (simp add: planeOk_def)
  then have "lifeAt (evs @ ev) q s"
    using s k by (auto simp: lifeAt_def allDone_def endedOnce_def noEnd_def)
  then show ?thesis
    using s k by (intro life_update [OF ok s(1), where st = "(pl_heap p ! s)\<lparr>ps_phase := PhDone\<rparr>"]) auto
next
  case CReply
  then obtain b z where "enqueue b p = Some z" "q = z\<lparr>pl_reply := None\<rparr>" "ev = []" using step by (auto split: option.splits)
  then show ?thesis using enqueue_keeps [of b p z] life_same [OF ok, of q] by simp
qed (use step in \<open>auto split: if_splits list.splits intro: life_same [OF ok]\<close>)

lemma newPlane_ok: "planeOk [] (newPlane m)" "acctOk [] (newPlane m)"
  by (simp_all add: planeOk_def tableOk_def acctOk_def newPlane_def)

lemma plRun_life: "planeOk evs p \<Longrightarrow> plRun marshal p cs = Some (fvs, q) \<Longrightarrow> planeOk (evs @ fvs) q"
proof (induction cs arbitrary: evs p fvs)
  case (Cons c cs)
  then obtain ev p1 gvs where "plStep marshal p c = Some (ev, p1)" "plRun marshal p1 cs = Some (gvs, q)" "fvs = ev @ gvs"
    by (auto split: option.splits)
  then show ?case using Cons.IH [OF life_step [OF Cons.prems(1)]] by fastforce
qed simp

lemma plRun_acct:
  "acctOk evs p \<Longrightarrow> planeOk evs p \<Longrightarrow> plRun marshal p cs = Some (fvs, q) \<Longrightarrow>
   (\<And>s. granted s (evs @ fvs) < 2 ^ 63) \<Longrightarrow> (\<And>s. revoked s (evs @ fvs) < 2 ^ 63) \<Longrightarrow> acctOk (evs @ fvs) q"
proof (induction cs arbitrary: evs p fvs)
  case (Cons c cs)
  then obtain ev p1 gvs where r: "plStep marshal p c = Some (ev, p1)" "plRun marshal p1 cs = Some (gvs, q)" "fvs = ev @ gvs"
    by (auto split: option.splits)
  have b: "granted s (evs @ ev) < 2 ^ 63" "revoked s (evs @ ev) < 2 ^ 63" for s
    using Cons.prems(4,5) [of s] counts_nonneg [of s gvs] by (simp_all add: r(3))
  have t: "tableOk p" using Cons.prems(2) by (simp add: planeOk_def)
  have "acctOk (evs @ ev) p1" by (rule acct_step [OF Cons.prems(1) t r(1) b])
  then show ?case
    using Cons.IH [OF _ life_step [OF Cons.prems(2) r(1)] r(2)] Cons.prems(4,5) by (simp add: r(3))
qed simp

section \<open>What the plane guarantees\<close>

text \<open>
  C33: Flow control.  Whatever the client, the streams and the writer do in whatever order, the plane never
  queues more chunks of a stream than the credits the client granted it, as long as the credits granted
  and revoked stay within a 64-bit integer.
\<close>

theorem plane_flow_control:
  assumes "plRun marshal (newPlane m) cs = Some (evs, p)"
    and "\<And>s. granted s evs < 2 ^ 63" and "\<And>s. revoked s evs < 2 ^ 63"
  shows "int (chunkCount s evs) \<le> granted s evs"
proof (cases "s < length (pl_heap p)")
  case True
  have "acctOk evs p" using plRun_acct [OF newPlane_ok(2,1) assms(1)] assms(2,3) by simp
  then have "streamOk (pl_heap p ! s) (granted s evs) (revoked s evs) (chunkCount s evs)" using True by (simp add: acctOk_def)
  then show ?thesis by (simp add: streamOk_def)
next
  case False
  have "planeOk evs p" using plRun_life [OF newPlane_ok(1) assms(1)] by simp
  then have "chunkCount s evs = 0" using counts_other [of evs s] False by (auto simp: planeOk_def)
  then show ?thesis using counts_nonneg(1) [of s evs] by simp
qed

text \<open>
  C34: How a stream ends.  A stream gets at most one end frame, nothing of it follows that frame, and a stream
  the client cancelled gets none; a stream whose body has finished was cancelled or got its end frame.
\<close>

theorem plane_stream_ends:
  assumes "plRun marshal (newPlane m) cs = Some (evs, p)" and "s < length (pl_heap p)"
  shows "(noEnd s evs \<or> endedOnce s evs) \<and> (EvCancel s \<in> set evs \<longrightarrow> noEnd s evs) \<and>
    (ps_phase (pl_heap p ! s) = PhDone \<longrightarrow> EvCancel s \<in> set evs \<or> endedOnce s evs)"
proof -
  have "planeOk evs p" using plRun_life [OF newPlane_ok(1) assms(1)] by simp
  then have l: "lifeAt evs p s" using assms(2) by (simp add: planeOk_def)
  have "EvCancel s \<notin> set evs" if en: "endedOnce s evs"
  proof -
    obtain xs b where x: "filter (\<lambda>e. evStream e = s) evs = xs @ [EvEnd s b]" "EvCancel s \<notin> set xs"
      using en unfolding endedOnce_def by blast
    have "EvCancel s \<notin> set (filter (\<lambda>e. evStream e = s) evs)" unfolding x(1) using x(2) by simp
    then show ?thesis by simp
  qed
  then show ?thesis using l by (auto simp: lifeAt_def split: StreamPhase.splits)
qed

text \<open>A client opens a stream with one credit and grants another when two emits have started.\<close>

definition demoMarshal :: "OutHeader \<Rightarrow> bytes option" where
  "demoMarshal h = Some (CHR ''{'' # oh_T h @ ''}'')"

definition demoPlaneCalls :: "PlCall list" where
  "demoPlaneCalls = [CFrame (FrOpen 7 ''w'' [] 1), CEmit 0, CEmit 0, CPush 0 0 (Some ''1'') None, CFrame (FrCredit 7 1), CWake 0 1,
     CPush 0 1 (Some ''2'') None, CReturn 0 None, CEnd 0, CWrite]"

lemmas plane_eval = demoMarshal_def demoPlaneCalls_def newPlane_def handleFrame_def handleOpen_def grant_def newCreditGate_def
  acquire_def wrap64_def setStream_def setEmit_def emitAt_def emitFrame_def encodeChunk_def enqueue_def sendQueueCap_def
  sendEnd_def endHeader_def runReturn_def Let_def ctxDone_def

definition demoPlaneEvents :: "PlEvent list" where
  "demoPlaneEvents = [EvGrant 0 1, EvChunk 0 ''{chunk}'', EvGrant 0 1, EvChunk 0 ''{chunk}'', EvEnd 0 (Some ''{end}'')]"

lemma demoPlane_run:
  "\<exists>p. plRun demoMarshal (newPlane 0) demoPlaneCalls = Some (demoPlaneEvents, p) \<and> length (pl_heap p) = 1"
  by (simp add: plane_eval demoPlaneEvents_def)

lemma demoPlane_counts:
  "granted s demoPlaneEvents = (if s = 0 then 2 else 0)" "revoked s demoPlaneEvents = 0" "chunkCount s demoPlaneEvents = (if s = 0 then 2 else 0)"
  by (simp_all add: demoPlaneEvents_def granted_def revoked_def chunkCount_def credit_def)

theorem plane_flow_control_witness:
  "int (chunkCount 0 demoPlaneEvents) = 2 \<and> int (chunkCount 0 demoPlaneEvents) \<le> granted 0 demoPlaneEvents"
proof -
  obtain p where "plRun demoMarshal (newPlane 0) demoPlaneCalls = Some (demoPlaneEvents, p)" using demoPlane_run by blast
  from plane_flow_control [OF this] show ?thesis by (simp add: demoPlane_counts)
qed

theorem plane_stream_ends_witness: "\<not> noEnd 0 demoPlaneEvents \<and> endedOnce 0 demoPlaneEvents"
proof -
  obtain p where "plRun demoMarshal (newPlane 0) demoPlaneCalls = Some (demoPlaneEvents, p)" "length (pl_heap p) = 1"
    using demoPlane_run by blast
  with plane_stream_ends [OF this(1), of 0] show ?thesis by (simp add: demoPlaneEvents_def noEnd_def)
qed

section \<open>Shutting down\<close>

fun internal :: "PlCall \<Rightarrow> bool" where
  "internal (CFrame f) = False"
| "internal CHangup = False"
| "internal CContext = False"
| "internal (CEmit s) = False"
| "internal c = True"

fun emitWork :: "EmitState \<Rightarrow> nat" where
  "emitWork (EmWaiting ch) = 3"
| "emitWork EmHolding = 2"
| "emitWork EmDone = 0"

fun phaseWork :: "StreamPhase \<Rightarrow> nat" where
  "phaseWork PhRunning = 3"
| "phaseWork (PhEnding err) = 2"
| "phaseWork PhDone = 0"

definition streamWork :: "PlStream \<Rightarrow> nat" where
  "streamWork st = phaseWork (ps_phase st) + sum_list (map emitWork (ps_emits st))"

definition work :: "Plane \<Rightarrow> nat" where
  "work p = sum_list (map streamWork (pl_heap p)) + length (pl_sendCh p) + (if pl_reply p = None then 0 else 2) + (if pl_done p then 0 else 1)"

lemma sum_list_at: "k < length xs \<Longrightarrow> sum_list (map f (xs[k := x])) + f (xs ! k) = sum_list (map f xs) + (f x :: nat)"
  using split_at [of k xs x] by (auto dest!: arg_cong [of _ _ "\<lambda>ys. sum_list (map f ys)"])

lemma work_enqueue: "enqueue b p = Some q \<Longrightarrow> length (pl_sendCh q) \<le> Suc (length (pl_sendCh p))"
  by (auto simp: enqueue_def split: if_splits)

lemma work_stream:
  assumes "s < length (pl_heap p)" and "pl_heap q = (pl_heap p)[s := st]" and "pl_reply q = pl_reply p" and "pl_done q = pl_done p"
    and "streamWork st + length (pl_sendCh q) < streamWork (pl_heap p ! s) + length (pl_sendCh p)"
  shows "work q < work p"
  using sum_list_at [OF assms(1), of streamWork st] assms(2-) by (simp add: work_def)

lemma emit_work:
  assumes "k < length (ps_emits st)"
  shows "streamWork (st\<lparr>ps_emits := (ps_emits st)[k := e]\<rparr>) + emitWork (ps_emits st ! k) = streamWork st + emitWork e"
  using sum_list_at [OF assms, of emitWork e] by (simp add: streamWork_def)

lemma work_emit:
  assumes e: "emitAt p s k = Some e" and "pl_heap q = (pl_heap p)[s := (pl_heap p ! s)\<lparr>ps_emits := (ps_emits (pl_heap p ! s))[k := e']\<rparr>]"
    and "pl_reply q = pl_reply p" and "pl_done q = pl_done p" and "emitWork e' + length (pl_sendCh q) < emitWork e + length (pl_sendCh p)"
  shows "work q < work p"
proof -
  have s: "s < length (pl_heap p)" "k < length (ps_emits (pl_heap p ! s))" "ps_emits (pl_heap p ! s) ! k = e"
    using e by (auto simp: emitAt_Some)
  show ?thesis using emit_work [OF s(2), of e'] assms(5) s(3) by (intro work_stream [OF s(1) assms(2-4)]) simp
qed

lemma internal_decreases:
  assumes "internal c" and step: "plStep marshal p c = Some (ev, q)"
  shows "work q < work p"
proof (cases c)
  case (CPush s k chunk blob)
  then have e: "emitAt p s k = Some EmHolding" using step by (auto split: option.splits EmitState.splits)
  show ?thesis
  proof (cases "emitFrame marshal p s chunk blob")
    case None
    then have "q = setEmit s k EmDone p" using step e by (simp add: CPush)
    then show ?thesis by (intro work_emit [OF e, where e' = EmDone]) (simp_all add: setEmit_def)
  next
    case (Some b)
    then obtain z where z: "enqueue b p = Some z" "q = setEmit s k EmDone z" using step e by (auto simp: CPush)
    then show ?thesis
      using enqueue_keeps [OF z(1)] work_enqueue [OF z(1)] by (intro work_emit [OF e, where e' = EmDone]) (simp_all add: setEmit_def)
  qed
next
  case (CWake s k)
  then obtain ch where e: "emitAt p s k = Some (EmWaiting ch)" "q = setEmit s k EmHolding p"
    using step by (auto split: option.splits EmitState.splits if_splits)
  then show ?thesis by (intro work_emit [OF e(1), where e' = EmHolding]) (simp_all add: setEmit_def)
next
  case (CAbort s k)
  then obtain ch where e: "emitAt p s k = Some (EmWaiting ch)" "q = setEmit s k EmDone p"
    using step by (auto split: option.splits EmitState.splits if_splits)
  then show ?thesis by (intro work_emit [OF e(1), where e' = EmDone]) (simp_all add: setEmit_def)
next
  case (CReturn s err)
  then have s: "s < length (pl_heap p)" "ps_phase (pl_heap p ! s) = PhRunning" "q = runReturn s err p" using step by (auto split: if_splits)
  then show ?thesis
    by (intro work_stream [OF s(1), where st = "pl_heap q ! s"]) (auto simp: runReturn_def Let_def streamWork_def)
next
  case (CEnd s)
  then obtain err z where s: "s < length (pl_heap p)" "ps_phase (pl_heap p ! s) = PhEnding err"
    "sendEnd marshal (ps_ID (pl_heap p ! s)) err p = Some z" "q = setStream s (\<lambda>st. st\<lparr>ps_phase := PhDone\<rparr>) z"
    using step by (auto split: if_splits StreamPhase.splits)
  have "length (pl_sendCh z) \<le> Suc (length (pl_sendCh p))"
    using s(3) by (auto simp: sendEnd_def dest: work_enqueue split: option.splits)
  then show ?thesis
    using s sendEnd_keeps [OF s(3)]
    by (intro work_stream [OF s(1), where st = "(pl_heap p ! s)\<lparr>ps_phase := PhDone\<rparr>"]) (auto simp: streamWork_def)
next
  case CReply
  then obtain b z where z: "pl_reply p = Some b" "enqueue b p = Some z" "q = z\<lparr>pl_reply := None\<rparr>"
    using step by (auto split: option.splits)
  then show ?thesis using enqueue_keeps [OF z(2)] work_enqueue [OF z(2)] by (simp add: work_def)
next
  case CDone
  then show ?thesis using step by (auto simp: work_def split: if_splits)
next
  case CWrite
  then show ?thesis using step by (auto simp: work_def split: list.splits)
qed (use assms(1) in simp_all)

lemma internal_keeps:
  assumes "plStep marshal p c = Some (ev, q)" and "pl_closing p" and "pl_ctxDone p" and "internal c"
  shows "pl_closing q \<and> pl_ctxDone q"
  using assms by (cases c)
    (auto simp: setEmit_def runReturn_def Let_def split: option.splits EmitState.splits if_splits list.splits StreamPhase.splits
      dest: enqueue_keeps sendEnd_keeps)

lemma not_stuck:
  assumes "pl_closing p" and "pl_ctxDone p" and "\<not> pl_done p"
  shows "\<exists>c ev q. internal c \<and> plStep marshal p c = Some (ev, q)"
proof (cases "pl_sendCh p")
  case (Cons b bs)
  then show ?thesis by (intro exI [of _ CWrite]) simp
next
  case Nil
  then have enq: "\<exists>q. enqueue b p = Some q" for b by (simp add: enqueue_def sendQueueCap_def)
  show ?thesis
  proof (cases "list_all (\<lambda>st. ps_phase st = PhDone) (pl_heap p)")
    case True
    then show ?thesis using assms by (intro exI [of _ CDone]) simp
  next
    case False
    then obtain s where s: "s < length (pl_heap p)" "ps_phase (pl_heap p ! s) \<noteq> PhDone"
      by (auto simp: list_all_length)
    show ?thesis
    proof (cases "ps_phase (pl_heap p ! s)")
      case (PhEnding err)
      have "\<exists>q. sendEnd marshal (ps_ID (pl_heap p ! s)) err p = Some q" using enq by (auto simp: sendEnd_def split: option.split)
      then show ?thesis using PhEnding s(1) by (intro exI [of _ "CEnd s"]) auto
    next
      case PhRunning
      show ?thesis
      proof (cases "list_all (\<lambda>e. e = EmDone) (ps_emits (pl_heap p ! s))")
        case True
        then show ?thesis using PhRunning s(1) by (intro exI [of _ "CReturn s None"]) simp
      next
        case False
        then obtain k where k: "k < length (ps_emits (pl_heap p ! s))" "ps_emits (pl_heap p ! s) ! k \<noteq> EmDone"
          by (auto simp: list_all_length)
        then have e: "emitAt p s k = Some (ps_emits (pl_heap p ! s) ! k)" using s(1) by (simp add: emitAt_def)
        show ?thesis
        proof (cases "ps_emits (pl_heap p ! s) ! k")
          case (EmWaiting ch)
          then show ?thesis using e assms(2) by (intro exI [of _ "CAbort s k"]) (simp add: ctxDone_def)
        next
          case EmHolding
          then show ?thesis using e by (intro exI [of _ "CPush s k None None"]) (simp add: emitFrame_def)
        qed (use k(2) in simp)
      qed
    qed (use s(2) in simp)
  qed
qed

lemma internal_bounded: "list_all internal cs \<Longrightarrow> plRun marshal p cs = Some (evs, q) \<Longrightarrow> length cs + work q \<le> work p"
proof (induction cs arbitrary: p evs)
  case (Cons c cs)
  then obtain ev p1 fvs where "plStep marshal p c = Some (ev, p1)" "plRun marshal p1 cs = Some (fvs, q)" "internal c" "list_all internal cs"
    by (auto split: option.splits)
  then show ?case using Cons.IH internal_decreases by fastforce
qed simp

text \<open>
  C35: Serve ends.  Once the peer is gone no goroutine of the connection is stuck for good: when the stream bodies
  emit nothing more, every sequence of steps of the plane is bounded, and some such sequence tells the
  writer to stop, whatever the streams were doing and however full the send queue was.
\<close>

theorem plane_shuts_down:
  assumes "pl_closing p" and "pl_ctxDone p"
  shows "(\<exists>cs evs q. list_all internal cs \<and> plRun marshal p cs = Some (evs, q) \<and> pl_done q) \<and>
    (\<forall>cs evs q. list_all internal cs \<and> plRun marshal p cs = Some (evs, q) \<longrightarrow> length cs \<le> work p)"
proof
  show "\<exists>cs evs q. list_all internal cs \<and> plRun marshal p cs = Some (evs, q) \<and> pl_done q"
    using assms
  proof (induction "work p" arbitrary: p rule: less_induct)
    case less
    show ?case
    proof (cases "pl_done p")
      case True
      then show ?thesis by (intro exI [of _ "[]"]) simp
    next
      case False
      obtain c ev q where c: "internal c" "plStep marshal p c = Some (ev, q)"
        using not_stuck [OF less.prems False] by blast
      obtain cs evs q' where "list_all internal cs" "plRun marshal q cs = Some (evs, q')" "pl_done q'"
        using less.hyps [OF internal_decreases [OF c]] internal_keeps [OF c(2) less.prems c(1)] by blast
      then show ?thesis using c by (intro exI [of _ "c # cs"] exI [of _ "ev @ evs"] exI [of _ q']) simp
    qed
  qed
qed (use internal_bounded in fastforce)

theorem plane_shuts_down_witness:
  "let p = (newPlane 0)\<lparr>pl_closing := True, pl_ctxDone := True\<rparr>
   in \<exists>cs evs q. list_all internal cs \<and> plRun demoMarshal p cs = Some (evs, q) \<and> pl_done q"
  using plane_shuts_down [of "(newPlane 0)\<lparr>pl_closing := True, pl_ctxDone := True\<rparr>" demoMarshal] by (simp add: Let_def)

section \<open>Frames\<close>

text \<open>Reading a frame as its comment lays it out: a zero byte, the header's length, the header and the blob, or a bare header.\<close>

definition getUint32 :: "bytes \<Rightarrow> nat" where
  "getUint32 b = foldl (\<lambda>n c. n * 256 + of_char c) 0 b"

definition readFrame :: "bytes \<Rightarrow> bytes \<times> bytes option" where
  "readFrame b =
     (case b of
        c # rest \<Rightarrow>
          if c = char_of (0 :: nat) then
            let n = getUint32 (take 4 rest) in (take n (drop 4 rest), Some (drop n (drop 4 rest)))
          else (b, None)
      | [] \<Rightarrow> (b, None))"

lemma getUint32_put:
  assumes "n < 2 ^ 32"
  shows "getUint32 (putUint32 n) = n"
proof -
  have d: "m = m div 256 * 256 + m mod 256" for m :: nat by simp
  have "n div 256 = n div 65536 * 256 + n div 256 mod 256" using d [of "n div 256"] div_mult2_eq [of n 256 256] by simp
  moreover have "n div 65536 = n div 16777216 * 256 + n div 65536 mod 256"
    using d [of "n div 65536"] div_mult2_eq [of n 65536 256] by simp
  moreover have "n div 16777216 mod 256 = n div 16777216" using assms by simp
  ultimately show ?thesis using d [of n] by (simp add: getUint32_def putUint32_def)
qed

text \<open>
  The header and the blob of every chunk frame can be read back, and a frame with an empty blob is told
  from one with none, provided the header is JSON text (which does not start with a zero byte) of less
  than four gigabytes.
\<close>

theorem chunk_frame_roundtrip:
  assumes "marshal h = Some (c # header)" and "c \<noteq> char_of (0 :: nat)" and "length header + 1 < 2 ^ 32"
  shows "map_option readFrame (encodeChunk marshal h blob) = Some (c # header, blob)"
proof (cases blob)
  case (Some b)
  have "length (putUint32 (length (c # header))) = 4" by (simp add: putUint32_def)
  then have "readFrame ([char_of (0 :: nat)] @ putUint32 (length (c # header)) @ (c # header) @ b) = (c # header, Some b)"
    using getUint32_put [of "length (c # header)"] assms(3) by (simp add: readFrame_def Let_def)
  then show ?thesis using assms(1) Some by (simp add: encodeChunk_def)
qed (use assms(1,2) in \<open>simp add: encodeChunk_def readFrame_def\<close>)

theorem chunk_frame_roundtrip_witness:
  "map_option readFrame (encodeChunk demoMarshal (endHeader 7 None) (Some [])) = Some (''{end}'', Some [])"
  using chunk_frame_roundtrip [of demoMarshal "endHeader 7 None" "CHR ''{''" "''end}''" "Some []"]
  by (simp add: demoMarshal_def endHeader_def char_of_def)

section \<open>Two surprises\<close>

text \<open>A cancelled stream that still has credit emits: the gate hands out a credit without looking at the context.\<close>

lemma emit_after_cancel:
  "\<exists>p b. plRun demoMarshal (newPlane 0)
     [CFrame (FrOpen 7 ''w'' [] 1), CFrame (FrCancel 7), CEmit 0, CPush 0 0 (Some ''1'') None] =
     Some ([EvGrant 0 1, EvCancel 0, EvChunk 0 b], p)"
  by (simp add: plane_eval)

text \<open>Opening an id that is live sends an end frame for that id while the stream goes on.\<close>

lemma end_of_live_stream:
  "\<exists>p evs. plRun demoMarshal (newPlane 0)
     [CFrame (FrOpen 7 ''w'' [] 1), CFrame (FrOpen 7 ''w'' [] 1), CReply, CEmit 0, CPush 0 0 (Some ''1'') None] =
     Some (evs, p) \<and> pl_sendCh p = [''{end}'', ''{chunk}''] \<and> noEnd 0 evs"
  by (simp add: plane_eval noEnd_def)

end
