(* ===== verification/Spec2Isabelle.thy ===== *)
theory Spec2Isabelle
  imports LogSession DiffParse Broker EngineCache ReviewRanges Reset StashPreflight WorktreePreflight Push Pull Undo Restack ReviewBase KqlCompile Pairing ApiVars RevealGate GraphPlane
begin

text \<open>
  \<^bold>\<open>Verification of the decision core of kira-space.\<close>

  kira-space is a desktop workspace written in Go: a git client, a database client, agent terminals that a
  phone may take over, and the approvals agents ask for.  Most of its code moves data between SQLite, the
  operating system, third-party drivers and a web view.  This development models the parts that take
  decisions of their own: the parsers that read what git and users write, the classifiers that say whether
  an operation is safe, the caches and buffers that must not lose or duplicate data, and the brokers that
  arbitrate between windows, phones and agents.  Paths below are relative to
  \<^verbatim>\<open>src/apps/kira-space/internal/\<close>, or to \<^verbatim>\<open>src/internal/\<close> where they start with \<^verbatim>\<open>internal/\<close>.

  \<^bold>\<open>How the code is read.\<close>  A Go string or byte slice is a list of characters, and a list of rune numbers where
  the code works on runes.  A nil pointer is \<^const>\<open>None\<close>, a pair of a result and an error is a sum, a struct is a
  record, an enumeration a datatype.  A map that is only looked up is a partial function, a map that is
  iterated a list with distinct keys.  Pointers that are shared are indices into a store.  Integers are
  mathematical where the code cannot leave the 64-bit range and wrapped where it can.  A panic, a blocked
  call and exhausted fuel are the value \<^const>\<open>None\<close>, so a theorem that an operation returns excludes all three.
  A critical section is one step, and what runs outside a lock is a step of its own, so that runs are
  arbitrary interleavings.  Code that is not part of the repository (clocks, id and token sources, the JSON
  codec, the text catalogue, the window registry, processes) is an argument of the definitions that use it.

  \<^bold>\<open>Parts, theories and what is shown.\<close>

  \<^item> \<open>Prelude\<close>: byte strings, decimal numbers, the sum monad \<open>rbind\<close>, list lemmas, collections of simp rules.

  \<^item> The git output layer, \<^verbatim>\<open>gitclient/porcelain/\<close>.  \<open>Records\<close> is \<^verbatim>\<open>records.go\<close>; the locale \<open>chunked_stream\<close> says
    what a push-based splitter promises, and its three interpretations (splitter, grouper, their composition)
    give that any chunking of a stream yields the same records.  \<open>LogParse\<close>, \<open>RefsParse\<close>, \<open>StatusParse\<close>,
    \<open>DiffTree\<close>, \<open>DiffParse\<close>, \<open>InfoParse\<close> and \<open>StashParse\<close> are the parsers, each with a printer that states what
    git writes and a round trip; \<open>stash_bucket\<close> is the interface shared by the two stash listings.

  \<^item> \<open>LogSession\<close>: \<^verbatim>\<open>gitclient/logsession/session.go\<close>, the paged history walk with its lookahead, idle reclaim and
    resume.  Runs go through states of a changing repository: every process of a walk was started under the
    refs the walk began with, and when these processes had the same history to print it is delivered exactly once,
    in order.  Equal refs do not make it the same, because \<^verbatim>\<open>HEAD\<close> is not in the snapshot
    (\<open>head_move_repeats_commit\<close>).  A broken stream stops the session for good; a page returns.

  \<^item> The pre-flight classifiers, \<^verbatim>\<open>gitpreflight/\<close>.  \<open>InProgress\<close> (\<^verbatim>\<open>operation.go\<close>), \<open>StatusFold\<close> (\<^verbatim>\<open>status.go\<close>),
    \<open>Checkout\<close>, \<open>Reset\<close>, \<open>Picks\<close>, \<open>StashPreflight\<close>, \<open>WorktreePreflight\<close>, \<open>Push\<close>, \<open>Pull\<close>, \<open>Undo\<close>, and \<open>Stack\<close> with
    \<open>Restack\<close> (\<^verbatim>\<open>stack.go\<close>).  The locale \<open>classifier\<close> (theory \<open>Classifier\<close>) is the contract of a verdict and its
    blockers, interpreted on every classifier; \<open>one_shot_slot\<close> is the undo slot.  Shown are what each verdict
    means for the working tree, that the glob matcher decides its specification, and that stack assembly
    ends and lists a forest.

  \<^item> Reviews, \<^verbatim>\<open>gitreview/\<close>.  \<open>ReviewBase\<close> is \<^verbatim>\<open>resolve.go\<close>; \<open>ReviewRanges\<close> is \<^verbatim>\<open>ranges.go\<close> and \<^verbatim>\<open>project.go\<close>: range
    arithmetic, in 64-bit integers (\<open>Normalize64\<close> and the like) and below the largest one, is set arithmetic on lines; the
    operations over unbounded integers are its specification, and projection, stated on them under a bound on
    the file, follows the lines of the patch as \<open>DiffParse\<close> reads it.

  \<^item> Phone terminals, \<^verbatim>\<open>mobileterm/\<close>.  \<open>Ring\<close> is \<^verbatim>\<open>ring.go\<close> with the pump of \<^verbatim>\<open>serve.go\<close>: the circular buffer refines
    a log with absolute offsets (\<open>replay_log\<close>) and the phone receives the terminal's output.  \<open>Broker\<close> is
    \<^verbatim>\<open>broker.go\<close>; every critical section interprets \<open>entry_section\<close> or its extension \<open>telling_section\<close>, from
    which follow single control, notification and the return of every hold by a timer.  \<^verbatim>\<open>Input\<close> is three steps: it
    arms the idle timer and checks under the lock, and writes after giving the lock up, where a reclaim may come
    first (\<open>reclaim_between_check_and_write\<close>).

  \<^item> The engine cache, \<^verbatim>\<open>enginecache/\<close>.  \<open>ByteLru\<close> is \<^verbatim>\<open>lru.go\<close> behind the interface \<open>entry_cache\<close>; \<open>EngineCache\<close>
    builds the page and count caches and their generations on it: nothing stale is stored after an
    invalidation, and the statistics reach their listeners.

  \<^item> Allow lists, \<^verbatim>\<open>tableref/tableref.go\<close>, in \<open>TableRef\<close>: a set allows exactly what its entries name, and printing and
    parsing are inverse.

  \<^item> Brokers of the shared library.  \<open>Notify\<close> is \<^verbatim>\<open>internal/notify\<close>: the ordered emitter behind the locale
    \<open>published_state\<close>, and the pending queue behind \<open>pending_queue\<close>.  \<open>Prompts\<close> is \<^verbatim>\<open>internal/prompts\<close>, \<open>Pairing\<close> is
    \<^verbatim>\<open>internal/pairing\<close> and \<open>Approvals\<close> is \<^verbatim>\<open>internal/approvals\<close>; all three interpret \<open>published_state\<close>, so that a
    window that has received every emission shows the current state however emissions overtook each other.
    \<open>PromptBound\<close> is what a window may do to prompts (\<^verbatim>\<open>internal/prompts/bound.go\<close>).

  \<^item> Secrets.  \<open>ApiVars\<close> is \<^verbatim>\<open>apivars/\<close>: references \<^verbatim>\<open>{{name | transform}}\<close> in API requests, the resolver that opens
    secrets for one send, and the masking of what was sent.  A request carries exactly the secrets it names and is otherwise unchanged but for percent-encoding in
    the URL, is not
    sent when one is missing, and no wire form of a used secret starts outside a mask.  \<open>RevealGate\<close> is
    \<^verbatim>\<open>localauth/\<close> with its callers in \<^verbatim>\<open>apivars/reveal.go\<close> and \<^verbatim>\<open>connections/service.go\<close>: calls of \<^verbatim>\<open>Authorize\<close> run
    as interleaved steps, and a secret is shown only on a granted prompt, within its five minutes, or on a
    confirmation where the system cannot ask.

  \<^item> \<open>GraphPlane\<close>: \<^verbatim>\<open>graphplane/\<close>, many credit-gated streams over one connection.  Over any run no stream outruns
    its credits, every stream ends once, and after a hang-up the plane shuts down.

  \<^item> The Kibana query language, \<^verbatim>\<open>adapters/kibana/kql/\<close>.  \<open>Kql\<close> is the lexer and the parser: parsing returns for every
    input and reports errors inside it.  \<open>KqlGrammar\<close> prints queries and shows that they are read back; the
    parser's loops are \<open>separated_list\<close>s and its two precedence ladders \<open>boolean_layer\<close>s.  \<open>KqlCompile\<close> is
    \<^verbatim>\<open>compile.go\<close>: what is sent to Elasticsearch means what was written, for every engine that behaves as documented
    of the requests the compiler writes (\<open>engineLaws\<close>).  What was written has a meaning of its own (\<open>clauseHolds\<close>), stated
    without the compiler; queries on which the two differ are excluded by \<open>plainClause\<close> and shown beside it.

  \<^bold>\<open>Bounds and fuel.\<close>  \<open>parseN\<close> of \<open>Kql\<close> has fuel \<open>8 * n + 8\<close> for \<open>n\<close> tokens: every method consumes a token within seven
  calls, and \<open>parseN_returns\<close> shows that the fuel never runs out.  The recursion of \<open>visit\<close> in \<open>Stack\<close> has the fuel
  \<open>MaxStackedBranches\<close>, shown to be enough because only branches within that depth are placed in a stack.  Sequence numbers of emitters are 64-bit
  words; the theorems about them assume fewer than \<open>2 ^ 64\<close> emissions.  Credits are 64-bit integers; the
  bound on them is a hypothesis of the flow-control theorem.

  \<^bold>\<open>Not modelled.\<close>  The web front end; storage (SQL run by SQLite, generated schema code); the
  database drivers and their wire protocols; git process handling, file watching and RPC around the modelled
  parsers (\<^verbatim>\<open>gitsession\<close>, \<^verbatim>\<open>gitrpc\<close>, \<^verbatim>\<open>gitops\<close>); agent runs and flows (\<^verbatim>\<open>ade\<close>, \<^verbatim>\<open>adeflow\<close>), which orchestrate database
  rows and external processes; HTTP, gRPC, Docker and Kubernetes clients, which wrap their libraries;
  masking, which rests on regular expressions; configuration files of other programs; and the bound
  methods of the desktop shell, which forward to the services.  Of \<^verbatim>\<open>mobileterm/serve.go\<close> the HTTP upgrade and
  rate limits are left out, of \<^verbatim>\<open>internal/ipcerr\<close> the JSON encoding.
\<close>

end
